(* ===== verification/Clice_Prelude.thy ===== *)
theory Clice_Prelude
  imports Main "HOL-Library.Word" "HOL-Library.AList"
begin

text \<open>
  Shared vocabulary of the development: the machine integer types of the sources, the sum over a
  finite map that the reference-counting proofs use, and the generic lemmas about worklist searches.

  The interfaces are stated as locales. \<open>stack_search\<close> is the contract of a worklist loop that
  marks a node visited when it is popped (\<open>CompileGraph::update\<close>, \<open>CompileGraph::has_wait_cycle\<close>);
  \<open>marked_search\<close> is the contract of one that marks a node when it is pushed
  (\<open>DependencyGraph::find_host_sources\<close>). Both promise exactly the reachable nodes; every such
  loop of the program interprets one of them, so reachability is proved once. \<open>cached_query\<close> and
  \<open>cached_search\<close> are the contract of a query through a cache that agrees with what it caches.
  \<open>safe_system\<close> is that of a transition system with an invariant; each stateful component interprets it
  on its own step relation and takes from it that the invariant holds in every reachable state.
\<close>

section \<open>Machine integers\<close>

type_synonym u8 = "8 word"
type_synonym u32 = "32 word"
type_synonym u64 = "64 word"

section \<open>Decimal numbers\<close>

text \<open>\<open>std::to_string\<close> and \<open>std::format("{}", n)\<close>.\<close>

definition digit :: "nat \<Rightarrow> char" where
  "digit n = char_of (48 + n)"

fun decimal :: "nat \<Rightarrow> string" where
  "decimal n = (if n < 10 then [digit n] else decimal (n div 10) @ [digit (n mod 10)])"

declare decimal.simps [simp del]

section \<open>Collections of simplification rules\<close>

named_theorems graph_simps \<open>unfolding rules of the graph operations\<close>
named_theorems frame_rules \<open>what an operation leaves unchanged\<close>

section \<open>Updating a list\<close>

lemma in_set_update_other: "t \<in> set xs \<Longrightarrow> t \<noteq> xs ! k \<Longrightarrow> t \<in> set (xs[k := x])"
  by (metis in_set_conv_nth length_list_update nth_list_update_neq)

lemma length_filter_update:
  "j < length xs \<Longrightarrow> length (filter P (xs[j := x])) + of_bool (P (xs ! j)) = length (filter P xs) + of_bool (P x)"
proof (induction xs arbitrary: j)
  case (Cons y ys)
  then show ?case by (cases j) auto
qed simp

lemma set_alist_update: "set (AList.update k v xs) \<subseteq> insert (k, v) (set xs)"
  by (induction xs) auto

section \<open>Folds\<close>

text \<open>A view that no step changes is not changed by the loop.\<close>

lemma fold_same: "(\<And>x s. h (f x s) = h s) \<Longrightarrow> h (fold f xs s) = h s"
  by (induction xs arbitrary: s) auto

section \<open>Sums over finite maps\<close>

definition msum :: "('v \<Rightarrow> 'a::comm_monoid_add) \<Rightarrow> ('k \<rightharpoonup> 'v) \<Rightarrow> 'a" where
  "msum h m = (\<Sum>k \<in> dom m. h (the (m k)))"

lemma msum_empty [simp]: "msum h Map.empty = 0"
  by (simp add: msum_def)

lemma msum_new:
  assumes "finite (dom m)" and "m k = None"
  shows "msum h (m(k \<mapsto> v)) = h v + msum h m"
proof -
  have "k \<notin> dom m" using assms(2) by auto
  then have "(\<Sum>x \<in> dom m. h (the ((m(k \<mapsto> v)) x))) = (\<Sum>x \<in> dom m. h (the (m x)))"
    by (intro sum.cong) auto
  with assms \<open>k \<notin> dom m\<close> show ?thesis by (simp add: msum_def)
qed

lemma msum_split:
  assumes "finite (dom m)" and "m k = Some v"
  shows "msum h m = h v + msum h (m(k := None))"
proof -
  have d: "dom (m(k := None)) = dom m - {k}" by auto
  have "(\<Sum>x \<in> dom m - {k}. h (the ((m(k := None)) x))) = (\<Sum>x \<in> dom m - {k}. h (the (m x)))"
    by (intro sum.cong) auto
  moreover have "k \<in> dom m" using assms(2) by auto
  ultimately show ?thesis
    using assms by (simp add: msum_def d sum.remove [of "dom m" k])
qed

lemma msum_upd:
  assumes "finite (dom m)" and "m k = Some v"
  shows "msum h (m(k \<mapsto> w)) + h v = msum h m + h w"
proof -
  have "finite (dom (m(k \<mapsto> w)))" using assms by simp
  then have "msum h (m(k \<mapsto> w)) = h w + msum h ((m(k \<mapsto> w))(k := None))"
    by (rule msum_split) simp
  then show ?thesis using msum_split [OF assms, of h] by (simp add: ac_simps)
qed

lemma msum_upd_same:
  assumes "finite (dom m)" and "m k = Some v" and "h w = h v"
  shows "msum h (m(k \<mapsto> w)) = msum h m"
proof -
  have "finite (dom (m(k \<mapsto> w)))" using assms(1) by simp
  then have "msum h (m(k \<mapsto> w)) = h w + msum h ((m(k \<mapsto> w))(k := None))" by (rule msum_split) simp
  then show ?thesis using msum_split [OF assms(1,2), of h] assms(3) by simp
qed

lemma msum_member:
  fixes h :: "'v \<Rightarrow> nat"
  shows "finite (dom m) \<Longrightarrow> m k = Some v \<Longrightarrow> h v \<le> msum h m"
  by (simp add: msum_split)

section \<open>Reachability\<close>

text \<open>The measure of every visited-set loop: marking a node shrinks the unvisited part.\<close>

lemma card_unvisited [simp]:
  fixes x :: "'a::finite"
  assumes "x \<notin> V"
  shows "card (UNIV - insert x V) < card (UNIV - V)" and "card (UNIV - V) - Suc 0 < card (UNIV - V)"
proof -
  have "UNIV - insert x V \<subset> UNIV - V" using assms by auto
  then show "card (UNIV - insert x V) < card (UNIV - V)" by (intro psubset_card_mono) auto
  then show "card (UNIV - V) - Suc 0 < card (UNIV - V)" by linarith
qed

definition nexts_of :: "('a \<Rightarrow> 'a list) \<Rightarrow> ('a \<times> 'a) set" where
  "nexts_of nxt = {(x, y). y \<in> set (nxt x)}"

lemma nexts_of_iff [simp]: "(x, y) \<in> nexts_of nxt \<longleftrightarrow> y \<in> set (nxt x)"
  by (simp add: nexts_of_def)

lemma closed_reach:
  assumes "x \<in> C" and "\<And>v. v \<in> C \<Longrightarrow> set (nxt v) \<subseteq> C" and "(x, y) \<in> (nexts_of nxt)\<^sup>*"
  shows "y \<in> C"
  using assms(3,1) by (induction rule: rtrancl_induct) (use assms(2) in auto)

text \<open>
  A loop over a stack (head = top, so pushing a vector left to right puts its last element on top)
  that marks a node when it pops it. \<open>run stack visited\<close> lists the nodes in the order in which
  they are processed.
\<close>

locale stack_search =
  fixes nxt :: "'a::finite \<Rightarrow> 'a list"
    and run :: "'a list \<Rightarrow> 'a set \<Rightarrow> 'a list"
  assumes run_empty: "run [] V = []"
    and run_seen: "x \<in> V \<Longrightarrow> run (x # q) V = run q V"
    and run_new: "x \<notin> V \<Longrightarrow> run (x # q) V = x # run (rev (nxt x) @ q) (insert x V)"
begin

lemma run_induct [case_names empty seen new]:
  fixes P :: "'a list \<Rightarrow> 'a set \<Rightarrow> bool"
  assumes "\<And>V. P [] V"
    and "\<And>x q V. x \<in> V \<Longrightarrow> P q V \<Longrightarrow> P (x # q) V"
    and "\<And>x q V. x \<notin> V \<Longrightarrow> P (rev (nxt x) @ q) (insert x V) \<Longrightarrow> P (x # q) V"
  shows "P q V"
proof (induction "(q, V)" arbitrary: q V rule: wf_induct_rule
    [OF wf_measures [of "[\<lambda>(q, V). card (UNIV - V), \<lambda>(q, V). length q]"]])
  case (1 q V)
  show ?case
  proof (cases q)
    case (Cons x q')
    then show ?thesis
      using Cons 1 assms(2,3) by (cases "x \<in> V") auto
  qed (use assms(1) in simp)
qed

lemma run_disjoint: "set (run q V) \<inter> V = {}"
  by (induction q V rule: run_induct) (auto simp: run_empty run_seen run_new)

lemma run_distinct: "distinct (run q V)"
proof (induction q V rule: run_induct)
  case (new x q V)
  then show ?case using run_disjoint [of "rev (nxt x) @ q" "insert x V"] by (auto simp: run_new)
qed (auto simp: run_empty run_seen)

lemma run_covers: "set q \<subseteq> set (run q V) \<union> V"
  by (induction q V rule: run_induct) (auto simp: run_empty run_seen run_new)

lemma run_closed:
  "(\<And>v. v \<in> V \<Longrightarrow> set (nxt v) \<subseteq> V \<union> set q) \<Longrightarrow> v \<in> set (run q V) \<union> V \<Longrightarrow>
    set (nxt v) \<subseteq> set (run q V) \<union> V"
proof (induction q V arbitrary: v rule: run_induct)
  case (seen x q V)
  then have "\<And>v. v \<in> V \<Longrightarrow> set (nxt v) \<subseteq> V \<union> set q" by fastforce
  with seen.IH seen.prems(2) seen.hyps show ?case by (simp add: run_seen)
next
  case (new x q V)
  have "\<And>v. v \<in> insert x V \<Longrightarrow> set (nxt v) \<subseteq> insert x V \<union> set (rev (nxt x) @ q)"
    using new.prems(1) by fastforce
  with new.IH [of v] new.prems(2) new.hyps show ?case by (auto simp: run_new)
qed (auto simp: run_empty)

lemma run_sound: "y \<in> set (run q V) \<Longrightarrow> \<exists>x \<in> set q. (x, y) \<in> (nexts_of nxt)\<^sup>*"
proof (induction q V rule: run_induct)
  case (new x q V)
  then consider "y = x" | "y \<in> set (run (rev (nxt x) @ q) (insert x V))"
    by (auto simp: run_new)
  then show ?case
  proof cases
    case 2
    with new.IH obtain z where z: "z \<in> set (nxt x) \<or> z \<in> set q" "(z, y) \<in> (nexts_of nxt)\<^sup>*"
      by auto
    then show ?thesis by (auto intro: converse_rtrancl_into_rtrancl)
  qed auto
qed (auto simp: run_empty run_seen)

theorem run_reach: "set (run [s] {}) = (nexts_of nxt)\<^sup>* `` {s}"
proof
  show "set (run [s] {}) \<subseteq> (nexts_of nxt)\<^sup>* `` {s}" using run_sound by fastforce
  show "(nexts_of nxt)\<^sup>* `` {s} \<subseteq> set (run [s] {})"
    using run_covers [of "[s]" "{}"] run_closed [of "{}" "[s]"]
    by (auto intro: closed_reach [where x = s and nxt = nxt])
qed

end

text \<open>
  A loop over a stack that marks a node when it pushes it: each successor is tried once, in order,
  and pushed when it was not marked. \<open>news V xs\<close> are the elements pushed.
\<close>

fun news :: "'a set \<Rightarrow> 'a list \<Rightarrow> 'a list" where
  "news V [] = []"
| "news V (x # xs) = (if x \<in> V then news V xs else x # news (insert x V) xs)"

lemma set_news: "set (news V xs) = set xs - V"
  by (induction V xs rule: news.induct) auto

lemma distinct_news: "distinct (news V xs)"
  by (induction V xs rule: news.induct) (auto simp: set_news)

locale marked_search =
  fixes nxt :: "'a::finite \<Rightarrow> 'a list"
    and run :: "'a list \<Rightarrow> 'a set \<Rightarrow> 'a list"
  assumes run_empty: "run [] V = []"
    and run_pop: "run (x # q) V = x # run (rev (news V (nxt x)) @ q) (V \<union> set (nxt x))"
begin

lemma run_induct [case_names empty pop]:
  fixes P :: "'a list \<Rightarrow> 'a set \<Rightarrow> bool"
  assumes "\<And>V. P [] V"
    and "\<And>x q V. P (rev (news V (nxt x)) @ q) (V \<union> set (nxt x)) \<Longrightarrow> P (x # q) V"
  shows "P q V"
proof (induction "(q, V)" arbitrary: q V rule: wf_induct_rule
    [OF wf_measures [of "[\<lambda>(q, V). card (UNIV - V), \<lambda>(q, V). length q]"]])
  case (1 q V)
  show ?case
  proof (cases q)
    case (Cons x q')
    have "card (UNIV - (V \<union> set (nxt x))) < card (UNIV - V)" if "set (nxt x) - V \<noteq> {}"
      using that by (intro psubset_card_mono) auto
    moreover have "news V (nxt x) = [] \<and> V \<union> set (nxt x) = V" if "set (nxt x) - V = {}"
    proof -
      have "set (news V (nxt x)) = {}" using that by (simp add: set_news)
      then show ?thesis using that by auto
    qed
    ultimately show ?thesis
      using Cons 1 assms(2) by (cases "set (nxt x) - V = {}") auto
  qed (use assms(1) in simp)
qed

lemma run_sound: "y \<in> set (run q V) \<Longrightarrow> \<exists>x \<in> set q. (x, y) \<in> (nexts_of nxt)\<^sup>*"
proof (induction q V rule: run_induct)
  case (pop x q V)
  then consider "y = x" | "y \<in> set (run (rev (news V (nxt x)) @ q) (V \<union> set (nxt x)))"
    by (auto simp: run_pop)
  then show ?case
  proof cases
    case 2
    with pop.IH obtain z where "z \<in> set (nxt x) \<or> z \<in> set q" "(z, y) \<in> (nexts_of nxt)\<^sup>*"
      by (auto simp: set_news)
    then show ?thesis by (auto intro: converse_rtrancl_into_rtrancl)
  qed auto
qed (simp add: run_empty)

lemma run_closed:
  "set q \<subseteq> V \<Longrightarrow> (\<And>v. v \<in> V \<Longrightarrow> v \<in> set q \<or> set (nxt v) \<subseteq> V) \<Longrightarrow>
    set q \<subseteq> set (run q V) \<and> (\<forall>v \<in> set (run q V). set (nxt v) \<subseteq> set (run q V) \<union> V)"
proof (induction q V rule: run_induct)
  case (pop x q V)
  let ?q = "rev (news V (nxt x)) @ q" and ?V = "V \<union> set (nxt x)"
  have sub: "set ?q \<subseteq> ?V" using pop.prems(1) by (auto simp: set_news)
  have "v \<in> set ?q \<or> set (nxt v) \<subseteq> ?V" if "v \<in> ?V" for v
    using that pop.prems(2) [of v] by (auto simp: set_news)
  then have IH: "set ?q \<subseteq> set (run ?q ?V)" "\<forall>v \<in> set (run ?q ?V). set (nxt v) \<subseteq> set (run ?q ?V) \<union> ?V"
    using pop.IH [OF sub] by auto
  have "set (nxt x) \<subseteq> set (run ?q ?V) \<union> V" using IH(1) by (auto simp: set_news)
  with IH show ?case by (auto simp: run_pop)
qed (simp add: run_empty)

lemma run_disjoint_distinct:
  "distinct q \<Longrightarrow> set q \<subseteq> V \<Longrightarrow> distinct (run q V) \<and> set (run q V) \<inter> (V - set q) = {}"
proof (induction q V rule: run_induct)
  case (pop x q V)
  let ?q = "rev (news V (nxt x)) @ q" and ?V = "V \<union> set (nxt x)"
  have "distinct ?q" "set ?q \<subseteq> ?V" using pop.prems by (auto simp: distinct_news set_news)
  note IH = pop.IH [OF this]
  have "x \<in> ?V - set ?q" using pop.prems by (auto simp: set_news)
  with IH have "x \<notin> set (run ?q ?V)" by blast
  moreover have "set (run ?q ?V) \<inter> (V - set (x # q)) = {}"
    using IH pop.prems by (auto simp: set_news)
  ultimately show ?case using IH pop.prems by (auto simp: run_pop)
qed (simp add: run_empty)

theorem run_reach: "set (run [s] {s}) = (nexts_of nxt)\<^sup>* `` {s}" and run_once: "distinct (run [s] {s})"
proof -
  have s: "s \<in> set (run [s] {s})" "\<forall>v \<in> set (run [s] {s}). set (nxt v) \<subseteq> set (run [s] {s})"
    using run_closed [of "[s]" "{s}"] by auto
  show "set (run [s] {s}) = (nexts_of nxt)\<^sup>* `` {s}"
    using run_sound [of _ "[s]" "{s}"] closed_reach [of s "set (run [s] {s})" nxt] s by auto
  show "distinct (run [s] {s})" using run_disjoint_distinct [of "[s]" "{s}"] by simp
qed

end

text \<open>
  The traversal itself, without the work done at a node: the loops of the program are related to it
  node by node, with their own successor function for \<open>nxt\<close>.
\<close>

function visit_stack :: "('a::finite \<Rightarrow> 'a list) \<Rightarrow> 'a list \<Rightarrow> 'a set \<Rightarrow> 'a list" where
  "visit_stack nxt [] V = []"
| "visit_stack nxt (x # q) V =
     (if x \<in> V then visit_stack nxt q V
      else x # visit_stack nxt (rev (nxt x) @ q) (insert x V))"
  by pat_completeness auto
termination
  by (relation "measures [\<lambda>(n, q, V). card (UNIV - V), \<lambda>(n, q, V). length q]") auto

lemma news_measure:
  fixes V :: "'a::finite set"
  shows "card (UNIV - (V \<union> set xs)) < card (UNIV - V) \<or> V \<union> set xs = V \<and> news V xs = []"
proof (cases "set xs \<subseteq> V")
  case True
  then have "set (news V xs) = {}" by (simp add: set_news)
  with True show ?thesis by auto
next
  case False
  then have "UNIV - (V \<union> set xs) \<subset> UNIV - V" by auto
  then show ?thesis by (intro disjI1 psubset_card_mono) auto
qed

function visit_marked :: "('a::finite \<Rightarrow> 'a list) \<Rightarrow> 'a list \<Rightarrow> 'a set \<Rightarrow> 'a list" where
  "visit_marked nxt [] V = []"
| "visit_marked nxt (x # q) V = x # visit_marked nxt (rev (news V (nxt x)) @ q) (V \<union> set (nxt x))"
  by pat_completeness auto
termination
  using news_measure
  by (relation "measures [\<lambda>(n, q, V). card (UNIV - V), \<lambda>(n, q, V). length q]") fastforce+

section \<open>Levels of a breadth-first search\<close>

text \<open>The nodes at distance \<open>n\<close> from \<open>s\<close>.\<close>

definition level :: "('a \<times> 'a) set \<Rightarrow> 'a \<Rightarrow> nat \<Rightarrow> 'a set" where
  "level E s n = {x. (s, x) \<in> E ^^ n \<and> (\<forall>m < n. (s, x) \<notin> E ^^ m)}"

lemma level_zero [simp]: "level E s 0 = {s}"
  by (auto simp: level_def)

lemma level_start: "s \<in> level E s n \<Longrightarrow> n = 0"
  by (cases n) (auto simp: level_def)

lemma level_unique: "x \<in> level E s n \<Longrightarrow> x \<in> level E s m \<Longrightarrow> n = m"
  by (auto simp: level_def) (metis linorder_neqE_nat)

lemma level_Least: "x \<in> level E s n \<Longrightarrow> n = (LEAST k. (s, x) \<in> E ^^ k)"
  by (auto simp: level_def intro!: Least_equality [symmetric]) (meson not_le)

lemma level_reach: "x \<in> level E s n \<Longrightarrow> (s, x) \<in> E\<^sup>*"
  by (auto simp: level_def intro: relpow_imp_rtrancl)

lemma level_Suc:
  assumes "y \<in> level E s n" and "(y, x) \<in> E" and "\<forall>m \<le> n. x \<notin> level E s m"
  shows "x \<in> level E s (Suc n)"
proof -
  have "(s, x) \<notin> E ^^ m" if "m \<le> n" for m
  proof
    assume "(s, x) \<in> E ^^ m"
    moreover have "(LEAST k. (s, x) \<in> E ^^ k) \<le> m" using \<open>(s, x) \<in> E ^^ m\<close> by (rule Least_le)
    ultimately have "x \<in> level E s (LEAST k. (s, x) \<in> E ^^ k)"
      by (auto simp: level_def intro: LeastI dest: not_less_Least)
    with assms(3) that \<open>(LEAST k. _ k) \<le> m\<close> show False by (meson order_trans)
  qed
  with assms(1,2) show ?thesis by (auto simp: level_def less_Suc_eq_le)
qed

lemma level_pred: "x \<in> level E s (Suc n) \<Longrightarrow> \<exists>y \<in> level E s n. (y, x) \<in> E"
proof -
  assume x: "x \<in> level E s (Suc n)"
  then obtain y where y: "(s, y) \<in> E ^^ n" "(y, x) \<in> E" by (auto simp: level_def)
  have "(s, y) \<notin> E ^^ m" if "m < n" for m
  proof
    assume "(s, y) \<in> E ^^ m"
    with y(2) have "(s, x) \<in> E ^^ Suc m" by auto
    moreover have "Suc m < Suc n" using that by simp
    ultimately show False using x unfolding level_def by blast
  qed
  with y show ?thesis by (auto simp: level_def)
qed

text \<open>A search that runs dry has seen everything.\<close>

lemma levels_exhausted:
  assumes "level E s n = {}" and "(s, x) \<in> E\<^sup>*"
  shows "\<exists>m < n. x \<in> level E s m"
proof -
  have empty: "level E s m = {}" if "n \<le> m" for m
    using that by (induction m rule: dec_induct) (use assms(1) level_pred in fastforce)+
  obtain k where k: "(s, x) \<in> E ^^ k" using assms(2) by (auto simp: rtrancl_power)
  then have "x \<in> level E s (LEAST k. (s, x) \<in> E ^^ k)"
    by (auto simp: level_def intro: LeastI dest: not_less_Least)
  with empty show ?thesis by (metis empty_iff not_le)
qed

section \<open>Caches and searches through them\<close>

lemma news_append: "news V (xs @ ys) = news V xs @ news (V \<union> set xs) ys"
  by (induction V xs rule: news.induct) (auto simp: insert_absorb)

definition first_index :: "('a \<Rightarrow> bool) \<Rightarrow> 'a list \<Rightarrow> nat option" where
  "first_index p xs = (if list_ex p xs then Some (length (takeWhile (\<lambda>x. \<not> p x) xs)) else None)"

lemma first_index_Nil [simp]: "first_index p [] = None"
  and first_index_Cons [simp]: "first_index p (x # xs) = (if p x then Some 0 else map_option Suc (first_index p xs))"
  by (auto simp: first_index_def)

lemma first_index_Some:
  "first_index p xs = Some k \<longleftrightarrow> k < length xs \<and> p (xs ! k) \<and> (\<forall>j < k. \<not> p (xs ! j))"
proof (induction xs arbitrary: k)
  case (Cons x xs)
  then show ?case by (cases k) (auto simp: less_Suc_eq_0_disj split: if_splits)
qed simp

lemma first_index_None: "first_index p xs = None \<longleftrightarrow> (\<forall>x \<in> set xs. \<not> p x)"
  by (auto simp: first_index_def list_ex_iff)

text \<open>
  A cache behind a query: while its contents are right (\<open>ok\<close>), a query returns what the cached
  function would, and leaves the contents right.
\<close>

locale cached_query =
  fixes query :: "'q \<Rightarrow> 's \<Rightarrow> 'a \<times> 's" and answer :: "'q \<Rightarrow> 'a" and ok :: "'s \<Rightarrow> bool"
  assumes query_answer: "ok s \<Longrightarrow> fst (query q s) = answer q"
    and query_ok: "ok s \<Longrightarrow> ok (snd (query q s))"
begin

lemma query_split: "ok s \<Longrightarrow> (\<And>s'. ok s' \<Longrightarrow> query q s = (answer q, s') \<Longrightarrow> P) \<Longrightarrow> P"
  by (metis prod.collapse query_answer query_ok)

end

text \<open>A linear search that asks such a query of one candidate after the other.\<close>

locale cached_search = cached_query query answer ok
  for query :: "'q \<Rightarrow> 's \<Rightarrow> bool \<times> 's" and answer :: "'q \<Rightarrow> bool" and ok :: "'s \<Rightarrow> bool" +
  fixes scan :: "nat \<Rightarrow> 'q list \<Rightarrow> 's \<Rightarrow> 'r option \<times> 's" and hit :: "nat \<Rightarrow> 'q \<Rightarrow> 'r"
  assumes scan_Nil: "scan i [] s = (None, s)"
    and scan_Cons: "scan i (q # qs) s =
      (case query q s of (b, s1) \<Rightarrow> if b then (Some (hit i q), s1) else scan (Suc i) qs s1)"
begin

lemma scan_answer:
  "ok s \<Longrightarrow> fst (scan i qs s) = map_option (\<lambda>k. hit (i + k) (qs ! k)) (first_index answer qs) \<and> ok (snd (scan i qs s))"
proof (induction qs arbitrary: i s)
  case (Cons q qs)
  from Cons.prems obtain s' where s': "ok s'" "query q s = (answer q, s')" by (rule query_split)
  with Cons.IH [OF s'(1), of "Suc i"] show ?case
    by (auto simp: scan_Cons option.map_comp comp_def)
qed (simp add: scan_Nil)

end

section \<open>Transition systems\<close>

text \<open>
  The states that a component can get into: initial states and steps. A component that keeps an
  invariant promises it for all of them.
\<close>

inductive reached :: "('s \<Rightarrow> bool) \<Rightarrow> ('s \<Rightarrow> 's \<Rightarrow> bool) \<Rightarrow> 's \<Rightarrow> bool" for init step where
  reached_init: "init s \<Longrightarrow> reached init step s"
| reached_step: "reached init step s \<Longrightarrow> step s s' \<Longrightarrow> reached init step s'"

locale safe_system =
  fixes init :: "'s \<Rightarrow> bool" and step :: "'s \<Rightarrow> 's \<Rightarrow> bool" and good :: "'s \<Rightarrow> bool"
  assumes good_init: "init s \<Longrightarrow> good s" and good_step: "step s s' \<Longrightarrow> good s \<Longrightarrow> good s'"
begin

lemma reached_good: "reached init step s \<Longrightarrow> good s"
  by (induction rule: reached.induct) (auto intro: good_init good_step)

text \<open>A step through an operation that returns an option.\<close>

lemma reached_the:
  assumes "reached init step s" and "x \<noteq> None" and "\<And>s'. x = Some s' \<Longrightarrow> step s s'"
  shows "reached init step (the x)"
proof -
  have "x = Some (the x)" using assms(2) by simp
  then show ?thesis by (rule reached_step [OF assms(1) assms(3)])
qed

end

end
