(* ===== verification/Compile_Graph.thy ===== *)
theory Compile_Graph
  imports Clice_Prelude
begin

text \<open>
  The module compilation DAG of \<open>src/src/server/compiler/compile_graph.{h,cpp}\<close>: interest-counted
  cancellation of compilation rounds.

  The data of \<open>CompileUnit\<close> and of the graph are records; every member function is a definition on
  them. A coroutine is cut at its suspension points: each synchronous stretch of code is one
  definition, and what a suspended frame keeps alive (its guard object, the round it waits on) is a
  frame record. The runtime that resumes the frames is not part of the sources, so it is not
  modelled: the step relation of \<open>Compile_Graph_Steps\<close> allows every order of the stretches,
  any result of the dispatch callback and any answer of the resolve callback.

  Shared objects behind pointers are numbered: \<open>std::shared_ptr<Round>\<close> is an index into
  \<open>rounds\<close>, a \<open>cancellation_source\<close> is a number, cancelled when it is in \<open>cancelled\<close>. The
  64-bit generation counter is a natural number: one round would have to live through $2^{64}$
  updates for the difference to show. \<open>refcount\<close> keeps its 32 bits.
\<close>

section \<open>Data\<close>

type_synonym path_id = u32

datatype outcome = Stale | Success | Failed

record round_state =
  completion :: bool
  round_outcome :: outcome

record compile_unit =
  cu_path_id :: path_id
  cu_dependencies :: "path_id list"
  cu_dependents :: "path_id list"
  cu_resolved :: bool
  cu_dirty :: bool
  cu_compiling :: bool
  cu_refcount :: u32
  cu_zero_check_pending :: bool
  cu_generation :: nat
  cu_source :: nat
  cu_round :: "nat option"

definition new_unit :: "nat \<Rightarrow> compile_unit" where
  "new_unit src =
     \<lparr>cu_path_id = 0, cu_dependencies = [], cu_dependents = [], cu_resolved = False, cu_dirty = True,
      cu_compiling = False, cu_refcount = 0, cu_zero_check_pending = False, cu_generation = 0,
      cu_source = src, cu_round = None\<rparr>"

text \<open>
  The frame of one \<open>await_unit\<close> call: at the top of its loop, past the spawn and about to look at
  the round, suspended on a round's completion event, or returned. The frame of a unit task keeps
  the \<open>UnitGuard\<close> (path, round, acquired edges), the generation read on entry and the token it was
  spawned with; a request keeps the ids of its \<open>RefGuard\<close>.
\<close>

datatype await_state = AwaitLoop | AwaitSpawned | AwaitRound nat | AwaitDone bool

type_synonym await = "path_id \<times> await_state"

datatype stage = Entered | Waiting "await list" | Dispatching

record unit_frame =
  uf_path :: path_id
  uf_token :: nat
  uf_gen :: nat
  uf_acquired :: "path_id list"
  uf_stage :: stage

record request =
  rq_held :: "path_id list"
  rq_waits :: "await list"

record compile_graph =
  units :: "path_id \<rightharpoonup> compile_unit"
  rounds :: "nat \<rightharpoonup> round_state"
  next_round :: nat
  cancelled :: "nat set"
  next_source :: nat
  closing :: bool
  frames :: "nat \<rightharpoonup> unit_frame"
  zero_checks :: "path_id list"
  requests :: "nat \<rightharpoonup> request"

definition empty_graph :: compile_graph where
  "empty_graph =
     \<lparr>units = Map.empty, rounds = Map.empty, next_round = 0, cancelled = {}, next_source = 0,
      closing = False, frames = Map.empty, zero_checks = [], requests = Map.empty\<rparr>"

section \<open>Operations\<close>

text \<open>\<open>units[p]\<close> default-constructs a missing unit; \<open>units.find(p)->second\<close> is an update in place.\<close>

definition index_unit :: "path_id \<Rightarrow> compile_graph \<Rightarrow> compile_graph" where
  "index_unit p g =
     (case units g p of
        Some u \<Rightarrow> g
      | None \<Rightarrow> g\<lparr>units := (units g)(p \<mapsto> new_unit (next_source g)),
                  next_source := Suc (next_source g)\<rparr>)"

definition modify_unit :: "path_id \<Rightarrow> (compile_unit \<Rightarrow> compile_unit) \<Rightarrow> compile_graph \<Rightarrow> compile_graph" where
  "modify_unit p f g =
     (case units g p of None \<Rightarrow> g | Some u \<Rightarrow> g\<lparr>units := (units g)(p \<mapsto> f u)\<rparr>)"

definition add_dependent :: "path_id \<Rightarrow> path_id \<Rightarrow> compile_graph \<Rightarrow> compile_graph" where
  "add_dependent p d g =
     modify_unit d (\<lambda>u. u\<lparr>cu_path_id := d, cu_dependents := cu_dependents u @ [p]\<rparr>) (index_unit d g)"

definition ensure_resolved :: "(path_id \<Rightarrow> path_id list) \<Rightarrow> path_id \<Rightarrow> compile_graph \<Rightarrow> compile_graph" where
  "ensure_resolved resolve p g =
     (let g1 = index_unit p g in
      case units g1 p of
        None \<Rightarrow> g1
      | Some u \<Rightarrow>
          if cu_resolved u then g1
          else
            let deps = resolve p;
                g2 = modify_unit p
                       (\<lambda>u. u\<lparr>cu_path_id := p, cu_resolved := True, cu_dependencies := deps\<rparr>) g1
            in fold (add_dependent p) deps g2)"

definition acquire :: "path_id \<Rightarrow> compile_graph \<Rightarrow> compile_graph" where
  "acquire p g =
     modify_unit p (\<lambda>u. u\<lparr>cu_path_id := p, cu_refcount := cu_refcount u + 1\<rparr>) (index_unit p g)"

definition release :: "path_id \<Rightarrow> compile_graph \<Rightarrow> compile_graph" where
  "release p g =
     (case units g p of
        None \<Rightarrow> g
      | Some u \<Rightarrow>
          let u1 = u\<lparr>cu_refcount := cu_refcount u - 1\<rparr> in
          if cu_refcount u1 = 0 \<and> cu_compiling u1 \<and> \<not> cu_zero_check_pending u1
          then
            if closing g
            then g\<lparr>units := (units g)(p \<mapsto> u1\<lparr>cu_zero_check_pending := False\<rparr>)\<rparr>
            else g\<lparr>units := (units g)(p \<mapsto> u1\<lparr>cu_zero_check_pending := True\<rparr>),
                   zero_checks := zero_checks g @ [p]\<rparr>
          else g\<lparr>units := (units g)(p \<mapsto> u1)\<rparr>)"

definition cancel_round :: "path_id \<Rightarrow> compile_graph \<Rightarrow> compile_graph" where
  "cancel_round p g =
     (case units g p of
        None \<Rightarrow> g
      | Some u \<Rightarrow>
          g\<lparr>units := (units g)(p \<mapsto> u\<lparr>cu_source := next_source g\<rparr>),
            cancelled := insert (cu_source u) (cancelled g),
            next_source := Suc (next_source g)\<rparr>)"

text \<open>The part of \<open>zero_interest_check\<close> after its one-tick sleep.\<close>

definition zero_interest_check :: "path_id \<Rightarrow> compile_graph \<Rightarrow> compile_graph" where
  "zero_interest_check p g =
     (case units g p of
        None \<Rightarrow> g
      | Some u \<Rightarrow>
          let g1 = modify_unit p (\<lambda>u. u\<lparr>cu_zero_check_pending := False\<rparr>) g in
          if cu_refcount u = 0 \<and> cu_compiling u then cancel_round p g1 else g1)"

definition spawn_unit :: "path_id \<Rightarrow> compile_graph \<Rightarrow> compile_graph \<times> bool" where
  "spawn_unit p g =
     (case units g p of
        None \<Rightarrow> (g, False)
      | Some u \<Rightarrow>
          let r = next_round g;
              g1 = (modify_unit p (\<lambda>u. u\<lparr>cu_compiling := True, cu_round := Some r\<rparr>) g)
                     \<lparr>rounds := (rounds g)(r \<mapsto> \<lparr>completion = False, round_outcome = Stale\<rparr>),
                      next_round := Suc r\<rparr>
          in if \<not> closing g
             then (g1\<lparr>frames := (frames g)(r \<mapsto>
                      \<lparr>uf_path = p, uf_token = cu_source u, uf_gen = 0, uf_acquired = [],
                       uf_stage = Entered\<rparr>)\<rparr>, True)
             else ((modify_unit p (\<lambda>u. u\<lparr>cu_compiling := False\<rparr>) g1)
                     \<lparr>rounds := (rounds g)(r \<mapsto> \<lparr>completion = True, round_outcome = Stale\<rparr>)\<rparr>, False))"

text \<open>The destructor of \<open>UnitGuard\<close>, which also ends the frame.\<close>

definition unit_guard_exit :: "nat \<Rightarrow> outcome \<Rightarrow> compile_graph \<Rightarrow> compile_graph" where
  "unit_guard_exit r oc g =
     (case frames g r of
        None \<Rightarrow> g
      | Some f \<Rightarrow>
          let g1 = modify_unit (uf_path f) (\<lambda>u. u\<lparr>cu_compiling := False\<rparr>)
                     (g\<lparr>rounds := (rounds g)(r \<mapsto> \<lparr>completion = False, round_outcome = oc\<rparr>)\<rparr>);
              g2 = fold release (uf_acquired f) g1
          in g2\<lparr>rounds := (rounds g2)(r \<mapsto> \<lparr>completion = True, round_outcome = oc\<rparr>),
                frames := (frames g2)(r := None)\<rparr>)"

text \<open>
  \<open>unit_body\<close>, in three stretches: up to the wait for the dependencies, from their results to the
  dispatch, and the tail after the dispatch callback returned \<open>ok\<close>.
\<close>

definition unit_enter :: "(path_id \<Rightarrow> path_id list) \<Rightarrow> nat \<Rightarrow> compile_graph \<Rightarrow> compile_graph" where
  "unit_enter resolve r g =
     (case frames g r of
        None \<Rightarrow> g
      | Some f \<Rightarrow>
          let p = uf_path f;
              g1 = ensure_resolved resolve p g
          in (case units g1 p of
               None \<Rightarrow> g1
             | Some u \<Rightarrow>
                 let gen = cu_generation u;
                     deps = cu_dependencies u
                 in if p \<in> set deps then unit_guard_exit r Failed g1
                    else
                      let g2 = fold acquire deps g1
                      in g2\<lparr>frames := (frames g2)(r \<mapsto>
                           f\<lparr>uf_gen := gen, uf_acquired := deps,
                             uf_stage := (if deps = [] then Dispatching
                                          else Waiting (map (\<lambda>d. (d, AwaitLoop)) deps))\<rparr>)\<rparr>))"

definition await_results :: "await list \<Rightarrow> bool list" where
  "await_results ws = map (\<lambda>w. snd w = AwaitDone True) ws"

definition unit_join :: "nat \<Rightarrow> compile_graph \<Rightarrow> compile_graph" where
  "unit_join r g =
     (case frames g r of
        None \<Rightarrow> g
      | Some f \<Rightarrow>
          (case uf_stage f of
             Waiting ws \<Rightarrow>
               if list_all id (await_results ws)
               then g\<lparr>frames := (frames g)(r \<mapsto> f\<lparr>uf_stage := Dispatching\<rparr>)\<rparr>
               else unit_guard_exit r Failed g
           | _ \<Rightarrow> g))"

definition unit_dispatched :: "nat \<Rightarrow> bool \<Rightarrow> compile_graph \<Rightarrow> compile_graph" where
  "unit_dispatched r ok g =
     (case frames g r of
        None \<Rightarrow> g
      | Some f \<Rightarrow>
          if \<not> ok then unit_guard_exit r Failed g
          else
            (case units g (uf_path f) of
               None \<Rightarrow> g
             | Some fresh \<Rightarrow>
                 if cu_generation fresh \<noteq> uf_gen f then unit_guard_exit r Stale g
                 else unit_guard_exit r Success
                        (modify_unit (uf_path f) (\<lambda>u. u\<lparr>cu_dirty := False\<rparr>) g)))"

text \<open>\<open>has_wait_cycle\<close>: the stack holds its top first.\<close>

definition compiling_deps :: "compile_graph \<Rightarrow> path_id \<Rightarrow> path_id list" where
  "compiling_deps g p =
     (case units g p of
        None \<Rightarrow> []
      | Some u \<Rightarrow>
          filter (\<lambda>d. case units g d of None \<Rightarrow> False | Some v \<Rightarrow> cu_compiling v) (cu_dependencies u))"

definition depends_on :: "compile_graph \<Rightarrow> path_id \<Rightarrow> path_id \<Rightarrow> bool" where
  "depends_on g p d \<longleftrightarrow> (case units g p of None \<Rightarrow> False | Some u \<Rightarrow> d \<in> set (cu_dependencies u))"

function wait_cycle_loop :: "compile_graph \<Rightarrow> path_id \<Rightarrow> path_id list \<Rightarrow> path_id set \<Rightarrow> bool" where
  "wait_cycle_loop g waiter [] visited = False"
| "wait_cycle_loop g waiter (current # queue) visited =
     (if current \<in> visited then wait_cycle_loop g waiter queue visited
      else if depends_on g current waiter then True
      else wait_cycle_loop g waiter (rev (compiling_deps g current) @ queue)
             (insert current visited))"
  by pat_completeness auto
termination
  by (relation "measures [\<lambda>(g, w, q, V). card (UNIV - V), \<lambda>(g, w, q, V). length q]")
    auto

definition has_wait_cycle :: "compile_graph \<Rightarrow> path_id \<Rightarrow> path_id \<Rightarrow> bool" where
  "has_wait_cycle g target waiter = wait_cycle_loop g waiter [target] {}"

text \<open>\<open>await_unit\<close>, in three stretches: the loop top with the spawn, the look at the round, the wake-up.\<close>

definition await_top :: "path_id \<Rightarrow> compile_graph \<Rightarrow> compile_graph \<times> await_state" where
  "await_top p g =
     (case units g p of
        None \<Rightarrow> (g, AwaitLoop)
      | Some u \<Rightarrow>
          if \<not> cu_dirty u then (g, AwaitDone True)
          else if cu_compiling u then (g, AwaitSpawned)
          else (case spawn_unit p g of
                  (g', ok) \<Rightarrow> (g', if ok then AwaitSpawned else AwaitDone False)))"

definition await_check :: "path_id \<Rightarrow> path_id option \<Rightarrow> compile_graph \<Rightarrow> await_state" where
  "await_check p waiter g =
     (case units g p of
        None \<Rightarrow> AwaitSpawned
      | Some u \<Rightarrow>
          (case cu_round u of
             None \<Rightarrow> AwaitSpawned
           | Some r \<Rightarrow>
               if (case rounds g r of None \<Rightarrow> False | Some rd \<Rightarrow> \<not> completion rd)
                  \<and> (case waiter of None \<Rightarrow> False | Some w \<Rightarrow> has_wait_cycle g p w)
               then AwaitDone False
               else AwaitRound r))"

definition await_wake :: "outcome \<Rightarrow> await_state" where
  "await_wake oc =
     (case oc of Success \<Rightarrow> AwaitDone True | Failed \<Rightarrow> AwaitDone False | Stale \<Rightarrow> AwaitLoop)"

text \<open>The public entry points.\<close>

definition ref_guard :: "nat \<Rightarrow> path_id list \<Rightarrow> compile_graph \<Rightarrow> compile_graph" where
  "ref_guard q ids g =
     (let g1 = fold acquire ids g in
      g1\<lparr>requests := (requests g1)(q \<mapsto>
           \<lparr>rq_held = ids, rq_waits = map (\<lambda>d. (d, AwaitLoop)) ids\<rparr>)\<rparr>)"

definition ref_guard_exit :: "nat \<Rightarrow> compile_graph \<Rightarrow> compile_graph" where
  "ref_guard_exit q g =
     (case requests g q of
        None \<Rightarrow> g
      | Some rq \<Rightarrow>
          let g1 = fold release (rq_held rq) g in g1\<lparr>requests := (requests g1)(q := None)\<rparr>)"

definition compile :: "nat \<Rightarrow> path_id \<Rightarrow> compile_graph \<Rightarrow> compile_graph" where
  "compile q p g = ref_guard q [p] g"

definition compile_deps :: "(path_id \<Rightarrow> path_id list) \<Rightarrow> nat \<Rightarrow> path_id \<Rightarrow> compile_graph \<Rightarrow> compile_graph" where
  "compile_deps resolve q p g =
     (let g1 = ensure_resolved resolve p g in
      case units g1 p of
        None \<Rightarrow> g1
      | Some u \<Rightarrow>
          if cu_dependencies u = [] then g1 else ref_guard q (cu_dependencies u) g1)"

text \<open>\<open>update\<close>: the marking of one popped unit, then the loop.\<close>

definition drop_dependent :: "path_id \<Rightarrow> path_id \<Rightarrow> compile_graph \<Rightarrow> compile_graph" where
  "drop_dependent p d g =
     modify_unit d (\<lambda>u. u\<lparr>cu_dependents := filter (\<lambda>x. x \<noteq> p) (cu_dependents u)\<rparr>) g"

definition clear_edges :: "path_id \<Rightarrow> compile_graph \<Rightarrow> compile_graph" where
  "clear_edges p g =
     (case units g p of
        None \<Rightarrow> g
      | Some u \<Rightarrow>
          modify_unit p (\<lambda>u. u\<lparr>cu_dependencies := []\<rparr>)
            (fold (drop_dependent p) (cu_dependencies u)
              (modify_unit p (\<lambda>u. u\<lparr>cu_resolved := False\<rparr>) g)))"

definition mark_dirty :: "path_id \<Rightarrow> compile_graph \<Rightarrow> compile_graph" where
  "mark_dirty p g =
     modify_unit p (\<lambda>u. u\<lparr>cu_dirty := True, cu_generation := Suc (cu_generation u)\<rparr>) (cancel_round p g)"

definition update_unit :: "path_id \<Rightarrow> path_id \<Rightarrow> compile_graph \<Rightarrow> compile_graph" where
  "update_unit p current g =
     mark_dirty current (if current = p then clear_edges p g else g)"

definition dependents_of :: "compile_graph \<Rightarrow> path_id \<Rightarrow> path_id list" where
  "dependents_of g p = (case units g p of None \<Rightarrow> [] | Some u \<Rightarrow> cu_dependents u)"

function update_loop ::
    "path_id \<Rightarrow> path_id list \<Rightarrow> path_id set \<Rightarrow> compile_graph \<Rightarrow> compile_graph \<times> path_id list" where
  "update_loop p [] visited g = (g, [])"
| "update_loop p (current # queue) visited g =
     (if current \<in> visited then update_loop p queue visited g
      else
        case units g current of
          None \<Rightarrow> update_loop p queue (insert current visited) g
        | Some _ \<Rightarrow>
            let g1 = update_unit p current g;
                (g2, dirtied) =
                  update_loop p (rev (dependents_of g1 current) @ queue) (insert current visited) g1
            in (g2, current # dirtied))"
  by pat_completeness auto
termination
  by (relation "measures [\<lambda>(p, q, V, g). card (UNIV - V), \<lambda>(p, q, V, g). length q]")
    auto

definition update :: "path_id \<Rightarrow> compile_graph \<Rightarrow> compile_graph \<times> path_id list" where
  "update p g = update_loop p [p] {} g"

text \<open>
  \<open>cancel_all\<close> cancels the token of every unit and installs a fresh one: unit \<open>p\<close> gets the
  source numbered \<open>next_source + p\<close>, so the numbers do not depend on the hash map's order.
\<close>

definition cancel_all :: "compile_graph \<Rightarrow> compile_graph" where
  "cancel_all g =
     g\<lparr>units := (\<lambda>p. map_option (\<lambda>u. u\<lparr>cu_source := next_source g + unat p\<rparr>) (units g p)),
       cancelled := cancelled g \<union> {s. \<exists>p u. units g p = Some u \<and> s = cu_source u},
       next_source := next_source g + 2 ^ 32\<rparr>"

definition shutdown :: "compile_graph \<Rightarrow> compile_graph" where
  "shutdown g = g\<lparr>closing := True\<rparr>"

section \<open>Observers\<close>

definition has_unit :: "compile_graph \<Rightarrow> path_id \<Rightarrow> bool" where
  "has_unit g p \<longleftrightarrow> units g p \<noteq> None"

definition is_dirty :: "compile_graph \<Rightarrow> path_id \<Rightarrow> bool" where
  "is_dirty g p \<longleftrightarrow> (case units g p of None \<Rightarrow> False | Some u \<Rightarrow> cu_dirty u)"

definition is_compiling :: "compile_graph \<Rightarrow> path_id \<Rightarrow> bool" where
  "is_compiling g p \<longleftrightarrow> (case units g p of None \<Rightarrow> False | Some u \<Rightarrow> cu_compiling u)"

definition refcount :: "compile_graph \<Rightarrow> path_id \<Rightarrow> u32" where
  "refcount g p = (case units g p of None \<Rightarrow> 0 | Some u \<Rightarrow> cu_refcount u)"

definition round_done :: "compile_graph \<Rightarrow> nat option \<Rightarrow> bool" where
  "round_done g r =
     (case r of None \<Rightarrow> True
      | Some i \<Rightarrow> (case rounds g i of None \<Rightarrow> False | Some rd \<Rightarrow> completion rd))"

definition idle :: "compile_graph \<Rightarrow> bool" where
  "idle g \<longleftrightarrow>
     (\<forall>p u. units g p = Some u \<longrightarrow>
        \<not> cu_compiling u \<and> cu_refcount u = 0 \<and> round_done g (cu_round u))"

definition consistent :: "compile_graph \<Rightarrow> bool" where
  "consistent g \<longleftrightarrow>
     (\<forall>p u. units g p = Some u \<longrightarrow>
        \<not> cu_compiling u \<or> (cu_round u \<noteq> None \<and> \<not> round_done g (cu_round u)))"

section \<open>Field views\<close>

text \<open>
  The proofs read a unit through these functions. Their defaults for a missing unit are the field
  values of a default-constructed one, so creating a unit changes none of them but its source.
\<close>

definition deps_of :: "compile_graph \<Rightarrow> path_id \<Rightarrow> path_id list" where
  "deps_of g p = (case units g p of None \<Rightarrow> [] | Some u \<Rightarrow> cu_dependencies u)"

definition is_resolved :: "compile_graph \<Rightarrow> path_id \<Rightarrow> bool" where
  "is_resolved g p \<longleftrightarrow> (case units g p of None \<Rightarrow> False | Some u \<Rightarrow> cu_resolved u)"

definition is_clean :: "compile_graph \<Rightarrow> path_id \<Rightarrow> bool" where
  "is_clean g p \<longleftrightarrow> (case units g p of None \<Rightarrow> False | Some u \<Rightarrow> \<not> cu_dirty u)"

definition generation_of :: "compile_graph \<Rightarrow> path_id \<Rightarrow> nat" where
  "generation_of g p = (case units g p of None \<Rightarrow> 0 | Some u \<Rightarrow> cu_generation u)"

definition source_of :: "compile_graph \<Rightarrow> path_id \<Rightarrow> nat option" where
  "source_of g p = (case units g p of None \<Rightarrow> None | Some u \<Rightarrow> Some (cu_source u))"

definition round_of :: "compile_graph \<Rightarrow> path_id \<Rightarrow> nat option" where
  "round_of g p = (case units g p of None \<Rightarrow> None | Some u \<Rightarrow> cu_round u)"

lemmas field_defs = deps_of_def is_resolved_def is_clean_def generation_of_def source_of_def
  round_of_def dependents_of_def is_compiling_def refcount_def has_unit_def is_dirty_def

lemma source_of_has: "source_of g p = Some s \<Longrightarrow> has_unit g p"
  by (auto simp: source_of_def has_unit_def split: option.splits)

lemma deps_of_has: "d \<in> set (deps_of g p) \<Longrightarrow> has_unit g p"
  by (cases "units g p") (simp_all add: deps_of_def has_unit_def)

lemma units_index_unit:
  "units (index_unit p g) q =
     (if q = p \<and> units g p = None then Some (new_unit (next_source g)) else units g q)"
  by (auto simp: index_unit_def split: option.splits)

lemma units_modify_unit:
  "units (modify_unit p f g) q = (if q = p then map_option f (units g p) else units g q)"
  by (auto simp: modify_unit_def split: option.splits)

lemma index_unit_frame [frame_rules, simp]:
  "rounds (index_unit p g) = rounds g" "next_round (index_unit p g) = next_round g"
  "cancelled (index_unit p g) = cancelled g" "closing (index_unit p g) = closing g"
  "frames (index_unit p g) = frames g" "requests (index_unit p g) = requests g"
  "zero_checks (index_unit p g) = zero_checks g"
  by (auto simp: index_unit_def split: option.splits)

lemma modify_unit_frame [frame_rules, simp]:
  "rounds (modify_unit p f g) = rounds g" "next_round (modify_unit p f g) = next_round g"
  "cancelled (modify_unit p f g) = cancelled g" "closing (modify_unit p f g) = closing g"
  "frames (modify_unit p f g) = frames g" "requests (modify_unit p f g) = requests g"
  "zero_checks (modify_unit p f g) = zero_checks g" "next_source (modify_unit p f g) = next_source g"
  by (auto simp: modify_unit_def split: option.splits)

lemmas unit_simps = units_index_unit units_modify_unit new_unit_def

section \<open>The worklist loops\<close>

lemma wait_cycle_loop_visits:
  "wait_cycle_loop g w q V \<longleftrightarrow> (\<exists>x \<in> set (visit_stack (compiling_deps g) q V). depends_on g x w)"
  by (induction g w q V rule: wait_cycle_loop.induct) auto

interpretation waits: stack_search "compiling_deps g" "visit_stack (compiling_deps g)" for g
  by unfold_locales auto

theorem has_wait_cycle_iff:
  "has_wait_cycle g target waiter \<longleftrightarrow>
     (\<exists>x. (target, x) \<in> (nexts_of (compiling_deps g))\<^sup>* \<and> depends_on g x waiter)"
  using waits.run_reach [of g target]
  by (auto simp: has_wait_cycle_def wait_cycle_loop_visits simp del: visit_stack.simps)

text \<open>
  \<open>update\<close> changes dependents only when it pops its argument, which is the first unit it pops;
  from then on the loop runs on a fixed successor function.
\<close>

interpretation dirtied: stack_search "dependents_of g" "visit_stack (dependents_of g)" for g
  by unfold_locales auto

lemma cancel_round_units:
  "units (cancel_round p g) q =
     (if q = p then map_option (\<lambda>u. u\<lparr>cu_source := next_source g\<rparr>) (units g p) else units g q)"
  by (auto simp: cancel_round_def split: option.splits)

lemma units_mark_dirty:
  "units (mark_dirty p g) q =
     (if q = p then map_option (\<lambda>u. u\<lparr>cu_source := next_source g, cu_dirty := True,
        cu_generation := Suc (cu_generation u)\<rparr>) (units g p) else units g q)"
  by (auto simp: mark_dirty_def units_modify_unit cancel_round_units option.map_comp o_def)

lemma has_unit_modify [simp]: "has_unit (modify_unit p f g) = has_unit g"
  by (auto simp: has_unit_def units_modify_unit fun_eq_iff)

lemma has_unit_drop_dependents [simp]: "has_unit (fold (drop_dependent p) ds g) = has_unit g"
  by (induction ds arbitrary: g) (simp_all add: drop_dependent_def)

lemma has_unit_update_unit [simp]: "has_unit (update_unit p c g) = has_unit g"
proof -
  have "has_unit (clear_edges p g) = has_unit g"
    by (simp add: clear_edges_def split: option.split)
  moreover have "has_unit (mark_dirty c g) = has_unit g" for g
    by (auto simp: has_unit_def units_mark_dirty fun_eq_iff)
  ultimately show ?thesis by (simp add: update_unit_def)
qed

lemma update_unit_other_dependents:
  "c \<noteq> p \<Longrightarrow> dependents_of (update_unit p c g) = dependents_of g"
  by (auto simp: update_unit_def dependents_of_def units_mark_dirty fun_eq_iff split: option.splits)

lemma update_loop_dirtied:
  assumes "p \<in> V" and "dependents_of g = dependents_of g0" and "has_unit g = has_unit g0"
  shows "snd (update_loop p q V g) = filter (has_unit g0) (visit_stack (dependents_of g0) q V)"
  using assms
proof (induction p q V g rule: update_loop.induct)
  case step: (2 p current queue visited g)
  show ?case
  proof (cases "current \<in> visited")
    case False
    then have "current \<noteq> p" using step.prems by auto
    show ?thesis
    proof (cases "units g current")
      case None
      then have "dependents_of g0 current = []" "\<not> has_unit g0 current"
        using step.prems(2,3) by (auto simp: dependents_of_def has_unit_def dest: fun_cong [of _ _ current])
      with None False step show ?thesis by simp
    next
      case (Some u)
      then have "has_unit g0 current"
        using step.prems(3) by (auto simp: has_unit_def dest: fun_cong [of _ _ current])
      with Some False step \<open>current \<noteq> p\<close> show ?thesis
        by (simp add: Let_def update_unit_other_dependents split_beta)
    qed
  qed (use step in simp)
qed simp

text \<open>What the loop does to the state, unit by unit.\<close>

definition dirtied_unit :: "nat \<Rightarrow> compile_unit \<Rightarrow> compile_unit" where
  "dirtied_unit s u = u\<lparr>cu_source := s, cu_dirty := True, cu_generation := Suc (cu_generation u)\<rparr>"

definition same_runtime :: "compile_graph \<Rightarrow> compile_graph \<Rightarrow> bool" where
  "same_runtime g g' \<longleftrightarrow>
     rounds g' = rounds g \<and> next_round g' = next_round g \<and> closing g' = closing g \<and>
     frames g' = frames g \<and> zero_checks g' = zero_checks g \<and> requests g' = requests g"

lemma same_runtime_refl [simp]: "same_runtime g g"
  by (simp add: same_runtime_def)

lemma same_runtime_trans: "same_runtime a b \<Longrightarrow> same_runtime b c \<Longrightarrow> same_runtime a c"
  by (simp add: same_runtime_def)

lemma same_runtime_mark_dirty: "same_runtime g (mark_dirty p g)"
  by (simp add: same_runtime_def mark_dirty_def cancel_round_def split: option.split)

lemma cancelled_mark_dirty:
  "cancelled (mark_dirty p g) = cancelled g \<union> set_option (source_of g p)"
  by (auto simp: mark_dirty_def cancel_round_def source_of_def split: option.split)

lemma update_loop_state:
  assumes "p \<in> V" and "update_loop p q V g = (g', ds)"
  shows "set ds \<inter> V = {} \<and> distinct ds \<and> same_runtime g g'
    \<and> cancelled g' = cancelled g \<union> (\<Union>x \<in> set ds. set_option (source_of g x))
    \<and> (\<forall>x. x \<notin> set ds \<longrightarrow> units g' x = units g x)
    \<and> (\<forall>x \<in> set ds. \<exists>s. units g' x = map_option (dirtied_unit s) (units g x))"
  using assms
proof (induction p q V g arbitrary: g' ds rule: update_loop.induct)
  case step: (2 p current queue visited g)
  consider "current \<in> visited" | "current \<notin> visited" "units g current = None"
    | u where "current \<notin> visited" "units g current = Some u"
    by (cases "units g current") auto
  then show ?case
  proof cases
    case 1
    then have "update_loop p queue visited g = (g', ds)" using step.prems(2) by simp
    with step.IH(1) [OF 1] step.prems(1) show ?thesis by blast
  next
    case 2
    then have "update_loop p queue (insert current visited) g = (g', ds)"
      using step.prems(2) by simp
    with step.IH(2) [OF 2] step.prems(1) show ?thesis by blast
  next
    case 3
    define g1 where "g1 = mark_dirty current g"
    have g1: "update_unit p current g = g1" using 3 step.prems by (auto simp: update_unit_def g1_def)
    obtain ds' where ds': "update_loop p (rev (dependents_of g1 current) @ queue)
        (insert current visited) g1 = (g', ds')" "ds = current # ds'"
      using step.prems(2) 3 by (auto simp: Let_def g1 split: prod.splits)
    have IH: "set ds' \<inter> insert current visited = {} \<and> distinct ds' \<and> same_runtime g1 g'
        \<and> cancelled g' = cancelled g1 \<union> (\<Union>x \<in> set ds'. set_option (source_of g1 x))
        \<and> (\<forall>x. x \<notin> set ds' \<longrightarrow> units g' x = units g1 x)
        \<and> (\<forall>x \<in> set ds'. \<exists>s. units g' x = map_option (dirtied_unit s) (units g1 x))"
      using step.IH(3) [OF 3 g1 [symmetric] _ ds'(1)] step.prems(1) by simp
    have src: "x \<noteq> current \<Longrightarrow> source_of g1 x = source_of g x" for x
      by (simp add: g1_def source_of_def units_mark_dirty)
    have un: "units g1 x = (if x = current then map_option (dirtied_unit (next_source g)) (units g x)
        else units g x)" for x
      by (simp add: g1_def units_mark_dirty dirtied_unit_def [abs_def])
    have new: "current \<notin> set ds'" using IH by auto
    then have "source_of g1 x = source_of g x" if "x \<in> set ds'" for x
      using that src by metis
    then have can: "cancelled g' = cancelled g \<union> (\<Union>x \<in> set ds. set_option (source_of g x))"
      using IH ds'(2) by (simp add: g1_def cancelled_mark_dirty Un_assoc)
    have run: "same_runtime g g'"
      using IH same_runtime_trans [OF same_runtime_mark_dirty [of g current]] by (simp add: g1_def)
    have "\<exists>s. units g' x = map_option (dirtied_unit s) (units g x)" if "x \<in> set ds" for x
    proof (cases "x = current")
      case True
      with IH un [of x] new show ?thesis by auto
    next
      case False
      then have "units g1 x = units g x" using un by simp
      moreover have "x \<in> set ds'" using that False ds'(2) by simp
      ultimately show ?thesis using IH by metis
    qed
    moreover have "units g' x = units g x" if "x \<notin> set ds" for x
      using that IH ds'(2) un by simp
    moreover have "set ds \<inter> visited = {} \<and> distinct ds" using IH ds'(2) new 3 by auto
    ultimately show ?thesis using run can by blast
  qed
qed auto

text \<open>The first unit popped is the argument itself, whose edges are cleared.\<close>

definition cleared_unit :: "path_id \<Rightarrow> path_id list \<Rightarrow> path_id \<Rightarrow> compile_unit \<Rightarrow> compile_unit" where
  "cleared_unit p ds x u =
     (let u1 = (if x \<in> set ds then u\<lparr>cu_dependents := filter (\<lambda>y. y \<noteq> p) (cu_dependents u)\<rparr> else u)
      in if x = p then u1\<lparr>cu_resolved := False, cu_dependencies := []\<rparr> else u1)"

lemma units_drop_dependent:
  "units (drop_dependent p d g) x =
     (if x = d then map_option (\<lambda>u. u\<lparr>cu_dependents := filter (\<lambda>y. y \<noteq> p) (cu_dependents u)\<rparr>) (units g x)
      else units g x)"
  by (simp add: drop_dependent_def units_modify_unit)

lemma units_drop_dependents:
  "units (fold (drop_dependent p) ds g) x =
     map_option (\<lambda>u. if x \<in> set ds then u\<lparr>cu_dependents := filter (\<lambda>y. y \<noteq> p) (cu_dependents u)\<rparr> else u)
       (units g x)"
proof (induction ds arbitrary: g)
  case (Cons d ds)
  show ?case
    by (cases "units g x") (auto simp: Cons units_drop_dependent)
qed (simp add: option.map_ident)

lemma units_clear_edges: "units (clear_edges p g) x = map_option (cleared_unit p (deps_of g p) x) (units g x)"
  by (cases "units g p"; cases "units g x")
    (auto simp: clear_edges_def units_modify_unit units_drop_dependents cleared_unit_def Let_def deps_of_def)

lemma same_runtime_clear_edges: "same_runtime g (clear_edges p g)"
proof -
  have "same_runtime g (fold (drop_dependent p) ds g)" for ds g
    by (induction ds arbitrary: g) (simp_all add: same_runtime_def drop_dependent_def)
  then show ?thesis by (simp add: clear_edges_def same_runtime_def split: option.split)
qed

lemma cancelled_clear_edges: "cancelled (clear_edges p g) = cancelled g"
proof -
  have "cancelled (fold (drop_dependent p) ds g) = cancelled g" for ds g
    by (induction ds arbitrary: g) (simp_all add: drop_dependent_def)
  then show ?thesis by (simp add: clear_edges_def split: option.split)
qed

lemma update_missing: "\<not> has_unit g p \<Longrightarrow> update p g = (g, [])"
  by (simp add: update_def has_unit_def)

lemma update_split:
  assumes "has_unit g p"
  obtains g' ds where "update p g = (g', p # ds)"
    and "update_loop p (rev (dependents_of (update_unit p p g) p)) {p} (update_unit p p g) = (g', ds)"
  using assms by (cases "update_loop p (rev (dependents_of (update_unit p p g) p)) {p} (update_unit p p g)")
    (auto simp: update_def has_unit_def Let_def)

text \<open>
  Edges into the root do not matter for what is reachable from it, so clearing them changes nothing:
  the units marked are the ones that reach the argument along dependents.
\<close>

lemma dependents_update_root:
  "dependents_of (update_unit p p g) x =
     (if x \<in> set (deps_of g p) then filter (\<lambda>y. y \<noteq> p) (dependents_of g x) else dependents_of g x)"
  by (cases "units g x")
    (auto simp: update_unit_def dependents_of_def units_mark_dirty units_clear_edges cleared_unit_def Let_def)

lemma reach_update_root:
  "(nexts_of (dependents_of (update_unit p p g)))\<^sup>* `` {p} = (nexts_of (dependents_of g))\<^sup>* `` {p}"
  (is "?R `` _ = ?S `` _")
proof
  have "nexts_of (dependents_of (update_unit p p g)) \<subseteq> nexts_of (dependents_of g)"
    by (auto simp: dependents_update_root split: if_splits)
  then show "?R `` {p} \<subseteq> ?S `` {p}" using rtrancl_mono by blast
  have "set (dependents_of g v) \<subseteq> ?R `` {p}" if "v \<in> ?R `` {p}" for v
  proof
    fix y assume y: "y \<in> set (dependents_of g v)"
    show "y \<in> ?R `` {p}"
    proof (cases "y = p")
      case False
      with y have "(v, y) \<in> nexts_of (dependents_of (update_unit p p g))"
        by (simp add: dependents_update_root)
      with that show ?thesis by (auto intro: rtrancl_into_rtrancl)
    qed auto
  qed
  then show "?S `` {p} \<subseteq> ?R `` {p}"
    using closed_reach [of p "?R `` {p}" "dependents_of g"] by auto
qed

theorem update_dirtied:
  assumes "has_unit g p"
  shows "set (snd (update p g)) = {x. (p, x) \<in> (nexts_of (dependents_of g))\<^sup>* \<and> has_unit g x}"
    and "distinct (snd (update p g))"
proof -
  let ?g1 = "update_unit p p g"
  obtain g' ds where u: "update p g = (g', p # ds)"
    and loop: "update_loop p (rev (dependents_of ?g1 p)) {p} ?g1 = (g', ds)"
    using update_split [OF assms] by blast
  have ds: "ds = filter (has_unit g) (visit_stack (dependents_of ?g1) (rev (dependents_of ?g1 p)) {p})"
    using update_loop_dirtied [of p "{p}" ?g1 ?g1 "rev (dependents_of ?g1 p)"] loop by simp
  have "p # visit_stack (dependents_of ?g1) (rev (dependents_of ?g1 p)) {p}
      = visit_stack (dependents_of ?g1) [p] {}" by simp
  with ds have all: "p # ds = filter (has_unit g) (visit_stack (dependents_of ?g1) [p] {})"
    using assms by simp
  show "set (snd (update p g)) = {x. (p, x) \<in> (nexts_of (dependents_of g))\<^sup>* \<and> has_unit g x}"
    using dirtied.run_reach [of ?g1 p] reach_update_root [of p g]
    by (auto simp: u all simp del: visit_stack.simps)
  show "distinct (snd (update p g))"
    using dirtied.run_distinct [of ?g1 "[p]" "{}"] by (simp add: u all del: visit_stack.simps)
qed

section \<open>Mild changes\<close>

text \<open>
  Taking and dropping interest, creating a unit and flipping the zero-check flag change nothing that
  the compilation protocol reads. \<open>mild\<close> is that relation; it is closed under composition, so a
  whole loop of acquisitions or releases is mild.
\<close>

definition mild :: "compile_graph \<Rightarrow> compile_graph \<Rightarrow> bool" where
  "mild g g' \<longleftrightarrow>
     deps_of g' = deps_of g \<and> dependents_of g' = dependents_of g \<and> is_resolved g' = is_resolved g \<and>
     is_clean g' = is_clean g \<and> generation_of g' = generation_of g \<and> round_of g' = round_of g \<and>
     is_compiling g' = is_compiling g \<and>
     (\<forall>p. has_unit g p \<longrightarrow> has_unit g' p \<and> source_of g' p = source_of g p) \<and>
     rounds g' = rounds g \<and> next_round g' = next_round g \<and> cancelled g' = cancelled g \<and>
     closing g' = closing g \<and> frames g' = frames g \<and> requests g' = requests g"

lemma mild_refl [simp]: "mild g g"
  by (simp add: mild_def)

lemma mild_trans: "mild a b \<Longrightarrow> mild b c \<Longrightarrow> mild a c"
  by (simp add: mild_def)

lemma mild_fold: "(\<And>x g. mild g (f x g)) \<Longrightarrow> mild g (fold f xs g)"
  by (induction xs arbitrary: g) (auto intro: mild_trans)

definition interest_only :: "(compile_unit \<Rightarrow> compile_unit) \<Rightarrow> bool" where
  "interest_only f \<longleftrightarrow>
     (\<forall>u. cu_dependencies (f u) = cu_dependencies u \<and> cu_dependents (f u) = cu_dependents u \<and>
          cu_resolved (f u) = cu_resolved u \<and> cu_dirty (f u) = cu_dirty u \<and>
          cu_compiling (f u) = cu_compiling u \<and> cu_generation (f u) = cu_generation u \<and>
          cu_source (f u) = cu_source u \<and> cu_round (f u) = cu_round u)"

lemma mild_modify: "interest_only f \<Longrightarrow> mild g (modify_unit p f g)"
  by (auto simp: mild_def interest_only_def field_defs units_modify_unit fun_eq_iff split: option.split)

lemma mild_index: "mild g (index_unit p g)"
  by (auto simp: mild_def field_defs unit_simps fun_eq_iff split: option.split)

lemma mild_acquire: "mild g (acquire p g)"
  unfolding acquire_def
  by (rule mild_trans [OF mild_index mild_modify]) (simp add: interest_only_def)

lemma mild_zero_checks: "mild g (g\<lparr>zero_checks := zs\<rparr>)"
  by (simp add: mild_def field_defs fun_eq_iff)

lemma release_modify:
  "\<exists>z zs. release p g = (modify_unit p (\<lambda>u. u\<lparr>cu_refcount := cu_refcount u - 1,
     cu_zero_check_pending := z\<rparr>) g)\<lparr>zero_checks := zs\<rparr>"
proof (cases "units g p")
  case None
  then show ?thesis
    by (intro exI [of _ False] exI [of _ "zero_checks g"]) (simp add: release_def modify_unit_def)
next
  case (Some u)
  let ?fire = "cu_refcount u - 1 = 0 \<and> cu_compiling u \<and> \<not> cu_zero_check_pending u"
  show ?thesis
    by (intro exI [of _ "if ?fire then \<not> closing g else cu_zero_check_pending u"]
        exI [of _ "if ?fire \<and> \<not> closing g then zero_checks g @ [p] else zero_checks g"])
      (simp add: release_def modify_unit_def Some Let_def)
qed

lemma mild_release: "mild g (release p g)"
proof -
  obtain z zs where "release p g = (modify_unit p (\<lambda>u. u\<lparr>cu_refcount := cu_refcount u - 1,
     cu_zero_check_pending := z\<rparr>) g)\<lparr>zero_checks := zs\<rparr>"
    using release_modify by blast
  then show ?thesis
    by (auto intro!: mild_trans [OF mild_modify mild_zero_checks] simp: interest_only_def)
qed

lemmas mild_acquires = mild_fold [of acquire, OF mild_acquire]
lemmas mild_releases = mild_fold [of release, OF mild_release]

text \<open>The exact effect of a loop of acquisitions and releases on the interest counts.\<close>

lemma refcount_acquire: "refcount (acquire p g) q = refcount g q + (if q = p then 1 else 0)"
  by (auto simp: acquire_def refcount_def unit_simps split: option.split)

lemma has_unit_acquire [simp]: "has_unit (acquire p g) q \<longleftrightarrow> q = p \<or> has_unit g q"
  by (auto simp: acquire_def has_unit_def unit_simps)

lemma refcount_acquires:
  "refcount (fold acquire ids g) q = refcount g q + of_nat (count_list ids q)"
  by (induction ids arbitrary: g) (auto simp: refcount_acquire algebra_simps)

lemma has_unit_acquires [simp]: "has_unit (fold acquire ids g) q \<longleftrightarrow> q \<in> set ids \<or> has_unit g q"
  by (induction ids arbitrary: g) auto

lemma refcount_release:
  "has_unit g p \<Longrightarrow> refcount (release p g) q = refcount g q - (if q = p then 1 else 0)"
  by (auto simp: release_def refcount_def has_unit_def Let_def split: option.split)

lemma has_unit_release [simp]: "has_unit (release p g) = has_unit g"
  by (auto simp: release_def has_unit_def Let_def fun_eq_iff split: option.split)

lemma refcount_releases:
  "(\<And>p. p \<in> set ids \<Longrightarrow> has_unit g p) \<Longrightarrow>
     refcount (fold release ids g) q = refcount g q - of_nat (count_list ids q)"
  by (induction ids arbitrary: g) (auto simp: refcount_release algebra_simps)

lemma has_unit_releases [simp]: "has_unit (fold release ids g) = has_unit g"
  by (induction ids arbitrary: g) auto

end
