(* ===== verification/Compile_Graph_Steps.thy ===== *)
theory Compile_Graph_Steps
  imports Compile_Graph
begin

text \<open>
  The protocol of the compile graph as a step relation, its invariant and what follows from it.

  \<open>internal_step\<close> has one rule per synchronous stretch the runtime may resume, \<open>client_step\<close> one per
  call or cancellation coming from outside. Nothing is assumed about the order in which frames are
  resumed. A frame whose token is cancelled may be unwound, and may also still be resumed, which is
  the race \<open>unit_body\<close> guards against with the generation counter.
\<close>

section \<open>Effects of the operations on the field views\<close>

lemma update_units:
  assumes "has_unit g p" and "update p g = (g', ds)"
  shows "\<exists>s. units g' x = map_option
           (\<lambda>u. if x \<in> set ds then dirtied_unit s (cleared_unit p (deps_of g p) x u)
                else cleared_unit p (deps_of g p) x u) (units g x)"
    and "same_runtime g g'"
    and "cancelled g' = cancelled g \<union> (\<Union>x \<in> set ds. set_option (source_of g x))"
proof -
  let ?g1 = "update_unit p p g"
  obtain ds' where ds: "ds = p # ds'"
    and loop: "update_loop p (rev (dependents_of ?g1 p)) {p} ?g1 = (g', ds')"
    using update_split [OF assms(1)] assms(2) by (metis prod.inject)
  have st: "set ds' \<inter> {p} = {}" "same_runtime ?g1 g'"
    "cancelled g' = cancelled ?g1 \<union> (\<Union>x \<in> set ds'. set_option (source_of ?g1 x))"
    "\<And>x. x \<notin> set ds' \<Longrightarrow> units g' x = units ?g1 x"
    "\<And>x. x \<in> set ds' \<Longrightarrow> \<exists>s. units g' x = map_option (dirtied_unit s) (units ?g1 x)"
    using update_loop_state [OF _ loop] by auto
  have g1: "units ?g1 x = map_option (\<lambda>u. if x = p then dirtied_unit (next_source (clear_edges p g))
      (cleared_unit p (deps_of g p) x u) else cleared_unit p (deps_of g p) x u) (units g x)" for x
    by (cases "units g x")
      (auto simp: update_unit_def units_mark_dirty units_clear_edges dirtied_unit_def)
  have src: "source_of (clear_edges p g) x = source_of g x" for x
    by (cases "units g x") (auto simp: source_of_def units_clear_edges cleared_unit_def Let_def)
  show "\<exists>s. units g' x = map_option
           (\<lambda>u. if x \<in> set ds then dirtied_unit s (cleared_unit p (deps_of g p) x u)
                else cleared_unit p (deps_of g p) x u) (units g x)"
  proof (cases "x \<in> set ds'")
    case True
    then have "x \<noteq> p" using st(1) by auto
    with st(5) [OF True] g1 [of x] True ds show ?thesis
      by (auto simp: option.map_comp o_def)
  next
    case False
    with st(4) [OF False] g1 [of x] ds show ?thesis by (cases "x = p") auto
  qed
  show "same_runtime g g'"
    using st(2) same_runtime_clear_edges [of g p] same_runtime_mark_dirty [of "clear_edges p g" p]
    by (auto simp: update_unit_def intro: same_runtime_trans)
  have "source_of ?g1 x = source_of g x" if "x \<in> set ds'" for x
    using that st(1) src by (auto simp: update_unit_def source_of_def units_mark_dirty)
  then show "cancelled g' = cancelled g \<union> (\<Union>x \<in> set ds. set_option (source_of g x))"
    using st(3) ds by (simp add: update_unit_def cancelled_mark_dirty cancelled_clear_edges src Un_assoc)
qed

lemma update_fields:
  assumes "has_unit g p" and "update p g = (g', ds)"
  shows "deps_of g' x = (if x = p then [] else deps_of g x)"
    and "is_resolved g' x \<longleftrightarrow> is_resolved g x \<and> x \<noteq> p"
    and "is_compiling g' x = is_compiling g x" and "round_of g' x = round_of g x"
    and "has_unit g' x = has_unit g x" and "refcount g' x = refcount g x"
    and "is_clean g' x \<longleftrightarrow> is_clean g x \<and> x \<notin> set ds"
    and "has_unit g x \<Longrightarrow> generation_of g' x = generation_of g x + (if x \<in> set ds then 1 else 0)"
    and "x \<notin> set ds \<Longrightarrow> source_of g' x = source_of g x"
    and "y \<in> set (dependents_of g' x) \<longleftrightarrow>
           y \<in> set (dependents_of g x) \<and> \<not> (y = p \<and> x \<in> set (deps_of g p))"
proof -
  obtain s where u: "units g' x = map_option
      (\<lambda>u. if x \<in> set ds then dirtied_unit s (cleared_unit p (deps_of g p) x u)
           else cleared_unit p (deps_of g p) x u) (units g x)"
    using update_units(1) [OF assms] by blast
  note defs = field_defs dirtied_unit_def cleared_unit_def Let_def
  have p: "units g p \<noteq> None" using assms(1) by (simp add: has_unit_def)
  show "deps_of g' x = (if x = p then [] else deps_of g x)"
    and "is_resolved g' x \<longleftrightarrow> is_resolved g x \<and> x \<noteq> p"
    and "is_compiling g' x = is_compiling g x" and "round_of g' x = round_of g x"
    and "has_unit g' x = has_unit g x" and "refcount g' x = refcount g x"
    using u p by (cases "units g x"; simp add: defs)+
  show "is_clean g' x \<longleftrightarrow> is_clean g x \<and> x \<notin> set ds"
    and "has_unit g x \<Longrightarrow> generation_of g' x = generation_of g x + (if x \<in> set ds then 1 else 0)"
    and "x \<notin> set ds \<Longrightarrow> source_of g' x = source_of g x"
    using u p by (cases "units g x"; simp add: defs)+
  show "y \<in> set (dependents_of g' x) \<longleftrightarrow>
           y \<in> set (dependents_of g x) \<and> \<not> (y = p \<and> x \<in> set (deps_of g p))"
    using u by (cases "units g x"; cases "units g p") (auto simp: defs)
qed

section \<open>The steps\<close>

text \<open>Overwriting the state of one \<open>await_unit\<close> frame of a unit task or of a request.\<close>

definition set_frame_await :: "nat \<Rightarrow> nat \<Rightarrow> await_state \<Rightarrow> compile_graph \<Rightarrow> compile_graph" where
  "set_frame_await r i s g =
     (case frames g r of
        None \<Rightarrow> g
      | Some f \<Rightarrow>
          (case uf_stage f of
             Waiting ws \<Rightarrow>
               g\<lparr>frames := (frames g)(r \<mapsto> f\<lparr>uf_stage := Waiting (ws[i := (fst (ws ! i), s)])\<rparr>)\<rparr>
           | _ \<Rightarrow> g))"

definition set_request_await :: "nat \<Rightarrow> nat \<Rightarrow> await_state \<Rightarrow> compile_graph \<Rightarrow> compile_graph" where
  "set_request_await q i s g =
     (case requests g q of
        None \<Rightarrow> g
      | Some rq \<Rightarrow>
          g\<lparr>requests := (requests g)(q \<mapsto>
             rq\<lparr>rq_waits := (rq_waits rq)[i := (fst (rq_waits rq ! i), s)]\<rparr>)\<rparr>)"

definition await_done :: "await \<Rightarrow> bool" where
  "await_done w = (case snd w of AwaitDone b \<Rightarrow> True | _ \<Rightarrow> False)"

inductive internal_step :: "compile_graph \<Rightarrow> compile_graph \<Rightarrow> bool" where
  enter: "frames g r = Some f \<Longrightarrow> uf_stage f = Entered \<Longrightarrow> internal_step g (unit_enter resolve r g)"
| frame_top: "frames g r = Some f \<Longrightarrow> uf_stage f = Waiting ws \<Longrightarrow> i < length ws \<Longrightarrow>
    ws ! i = (d, AwaitLoop) \<Longrightarrow> await_top d g = (g', s) \<Longrightarrow> internal_step g (set_frame_await r i s g')"
| frame_check: "frames g r = Some f \<Longrightarrow> uf_stage f = Waiting ws \<Longrightarrow> i < length ws \<Longrightarrow>
    ws ! i = (d, AwaitSpawned) \<Longrightarrow>
    internal_step g (set_frame_await r i (await_check d (Some (uf_path f)) g) g)"
| frame_wake: "frames g r = Some f \<Longrightarrow> uf_stage f = Waiting ws \<Longrightarrow> i < length ws \<Longrightarrow>
    ws ! i = (d, AwaitRound k) \<Longrightarrow> rounds g k = Some rd \<Longrightarrow> completion rd \<Longrightarrow>
    internal_step g (set_frame_await r i (await_wake (round_outcome rd)) g)"
| join: "frames g r = Some f \<Longrightarrow> uf_stage f = Waiting ws \<Longrightarrow> list_all await_done ws \<Longrightarrow>
    internal_step g (unit_join r g)"
| dispatched: "frames g r = Some f \<Longrightarrow> uf_stage f = Dispatching \<Longrightarrow>
    internal_step g (unit_dispatched r ok g)"
| unwind: "frames g r = Some f \<Longrightarrow> uf_stage f \<noteq> Entered \<Longrightarrow> uf_token f \<in> cancelled g \<or> closing g \<Longrightarrow>
    internal_step g (unit_guard_exit r Stale g)"
| zero_check: "p \<in> set (zero_checks g) \<Longrightarrow>
    internal_step g (zero_interest_check p (g\<lparr>zero_checks := remove1 p (zero_checks g)\<rparr>))"
| zero_check_dropped: "p \<in> set (zero_checks g) \<Longrightarrow> closing g \<Longrightarrow>
    internal_step g (g\<lparr>zero_checks := remove1 p (zero_checks g)\<rparr>)"
| request_top: "requests g q = Some rq \<Longrightarrow> i < length (rq_waits rq) \<Longrightarrow>
    rq_waits rq ! i = (d, AwaitLoop) \<Longrightarrow> await_top d g = (g', s) \<Longrightarrow>
    internal_step g (set_request_await q i s g')"
| request_check: "requests g q = Some rq \<Longrightarrow> i < length (rq_waits rq) \<Longrightarrow>
    rq_waits rq ! i = (d, AwaitSpawned) \<Longrightarrow>
    internal_step g (set_request_await q i (await_check d None g) g)"
| request_wake: "requests g q = Some rq \<Longrightarrow> i < length (rq_waits rq) \<Longrightarrow>
    rq_waits rq ! i = (d, AwaitRound k) \<Longrightarrow> rounds g k = Some rd \<Longrightarrow> completion rd \<Longrightarrow>
    internal_step g (set_request_await q i (await_wake (round_outcome rd)) g)"
| request_return: "requests g q = Some rq \<Longrightarrow> list_all await_done (rq_waits rq) \<Longrightarrow>
    internal_step g (ref_guard_exit q g)"

inductive client_step :: "compile_graph \<Rightarrow> compile_graph \<Rightarrow> bool" where
  call_compile: "requests g q = None \<Longrightarrow> client_step g (compile q p g)"
| call_compile_deps: "requests g q = None \<Longrightarrow> client_step g (compile_deps resolve q p g)"
| request_cancelled: "requests g q = Some rq \<Longrightarrow> client_step g (ref_guard_exit q g)"
| call_update: "client_step g (fst (update p g))"
| call_cancel_all: "client_step g (cancel_all g)"
| call_shutdown: "client_step g (shutdown g)"

definition step :: "compile_graph \<Rightarrow> compile_graph \<Rightarrow> bool" where
  "step g g' \<longleftrightarrow> internal_step g g' \<or> client_step g g'"

abbreviation reachable :: "compile_graph \<Rightarrow> bool" where
  "reachable \<equiv> reached (\<lambda>g. g = empty_graph) step"

section \<open>The invariant\<close>

definition undone :: "compile_graph \<Rightarrow> nat \<Rightarrow> bool" where
  "undone g r \<longleftrightarrow> (case rounds g r of None \<Rightarrow> False | Some rd \<Rightarrow> \<not> completion rd)"

definition succeeded :: "compile_graph \<Rightarrow> nat \<Rightarrow> bool" where
  "succeeded g r \<longleftrightarrow>
     (case rounds g r of None \<Rightarrow> False | Some rd \<Rightarrow> completion rd \<and> round_outcome rd = Success)"

text \<open>Rounds: a unit compiles exactly while the task of its current round has a frame.\<close>

definition rounds_inv :: "compile_graph \<Rightarrow> bool" where
  "rounds_inv g \<longleftrightarrow>
     (\<forall>r f. frames g r = Some f \<longrightarrow>
        is_compiling g (uf_path f) \<and> round_of g (uf_path f) = Some r \<and> undone g r) \<and>
     (\<forall>p. is_compiling g p \<longrightarrow> round_of g p \<in> Some ` dom (frames g)) \<and>
     (\<forall>p r. round_of g p = Some r \<longrightarrow> rounds g r \<noteq> None) \<and>
     (\<forall>p q r. round_of g p = Some r \<longrightarrow> round_of g q = Some r \<longrightarrow> p = q) \<and>
     (\<forall>r. rounds g r \<noteq> None \<longrightarrow> r < next_round g) \<and>
     (\<forall>r. undone g r \<longrightarrow> r \<in> dom (frames g))"

text \<open>Suspended waiters: their target exists, and the round they hold was a round of the target.\<close>

definition awaits_of :: "compile_graph \<Rightarrow> await set" where
  "awaits_of g =
     {w. \<exists>r f ws. frames g r = Some f \<and> uf_stage f = Waiting ws \<and> w \<in> set ws}
     \<union> {w. \<exists>q rq. requests g q = Some rq \<and> w \<in> set (rq_waits rq)}"

definition await_ok :: "compile_graph \<Rightarrow> await \<Rightarrow> bool" where
  "await_ok g w \<longleftrightarrow>
     has_unit g (fst w) \<and>
     (case snd w of
        AwaitRound k \<Rightarrow> rounds g k \<noteq> None \<and> (\<forall>f. frames g k = Some f \<longrightarrow> uf_path f = fst w)
      | AwaitSpawned \<Rightarrow> round_of g (fst w) \<noteq> None
      | _ \<Rightarrow> True)"

definition awaits_inv :: "compile_graph \<Rightarrow> bool" where
  "awaits_inv g \<longleftrightarrow> (\<forall>w \<in> awaits_of g. await_ok g w)"

text \<open>Interest: the count of a unit is the number of references held by frames and requests.\<close>

definition holders :: "compile_graph \<Rightarrow> path_id \<Rightarrow> nat" where
  "holders g p =
     msum (\<lambda>f. count_list (uf_acquired f) p) (frames g)
     + msum (\<lambda>rq. count_list (rq_held rq) p) (requests g)"

definition refs_inv :: "compile_graph \<Rightarrow> bool" where
  "refs_inv g \<longleftrightarrow>
     finite (dom (frames g)) \<and> finite (dom (requests g)) \<and>
     (\<forall>p. refcount g p = of_nat (holders g p)) \<and>
     (\<forall>r f p. frames g r = Some f \<longrightarrow> p \<in> set (uf_acquired f) \<longrightarrow> has_unit g p) \<and>
     (\<forall>q rq p. requests g q = Some rq \<longrightarrow> p \<in> set (rq_held rq) \<longrightarrow> has_unit g p)"

definition edges_inv :: "compile_graph \<Rightarrow> bool" where
  "edges_inv g \<longleftrightarrow>
     (\<forall>p d. d \<in> set (deps_of g p) \<longleftrightarrow> p \<in> set (dependents_of g d)) \<and>
     (\<forall>p. \<not> is_resolved g p \<longrightarrow> deps_of g p = []) \<and>
     (\<forall>p d. d \<in> set (deps_of g p) \<longrightarrow> has_unit g d)"

text \<open>A clean unit is resolved and all its dependencies are clean.\<close>

definition clean_inv :: "compile_graph \<Rightarrow> bool" where
  "clean_inv g \<longleftrightarrow>
     (\<forall>p. is_clean g p \<longrightarrow> is_resolved g p \<and> (\<forall>d \<in> set (deps_of g p). is_clean g d))"

text \<open>
  A frame whose generation is still current sees the dependencies it acquired, and every success it
  has observed or may still observe is about a clean dependency. A frame whose token is not
  cancelled is current.
\<close>

definition await_fresh :: "compile_graph \<Rightarrow> await \<Rightarrow> bool" where
  "await_fresh g w \<longleftrightarrow>
     (case snd w of
        AwaitLoop \<Rightarrow> True
      | AwaitSpawned \<Rightarrow> (\<forall>k. round_of g (fst w) = Some k \<longrightarrow> succeeded g k \<longrightarrow> is_clean g (fst w))
      | AwaitRound k \<Rightarrow> succeeded g k \<longrightarrow> is_clean g (fst w)
      | AwaitDone b \<Rightarrow> b \<longrightarrow> is_clean g (fst w))"

definition stage_fresh :: "compile_graph \<Rightarrow> unit_frame \<Rightarrow> bool" where
  "stage_fresh g f \<longleftrightarrow>
     (case uf_stage f of
        Entered \<Rightarrow> True
      | Waiting ws \<Rightarrow> (\<forall>w \<in> set ws. await_fresh g w)
      | Dispatching \<Rightarrow> (\<forall>d \<in> set (uf_acquired f). is_clean g d))"

definition frame_shape :: "unit_frame \<Rightarrow> bool" where
  "frame_shape f \<longleftrightarrow>
     uf_path f \<notin> set (uf_acquired f) \<and>
     (case uf_stage f of
        Entered \<Rightarrow> uf_acquired f = []
      | Waiting ws \<Rightarrow> map fst ws = uf_acquired f
      | Dispatching \<Rightarrow> True)"

definition frame_current :: "compile_graph \<Rightarrow> unit_frame \<Rightarrow> bool" where
  "frame_current g f \<longleftrightarrow>
     (uf_stage f \<noteq> Entered \<longrightarrow> uf_gen f = generation_of g (uf_path f) \<longrightarrow>
        is_resolved g (uf_path f) \<and> deps_of g (uf_path f) = uf_acquired f \<and> stage_fresh g f) \<and>
     (uf_token f \<notin> cancelled g \<longrightarrow>
        source_of g (uf_path f) = Some (uf_token f) \<and>
        (uf_stage f \<noteq> Entered \<longrightarrow> uf_gen f = generation_of g (uf_path f))) \<and>
     (uf_stage f \<noteq> Entered \<longrightarrow> uf_gen f \<le> generation_of g (uf_path f))"

definition frames_inv :: "compile_graph \<Rightarrow> bool" where
  "frames_inv g \<longleftrightarrow> (\<forall>r f. frames g r = Some f \<longrightarrow> frame_shape f \<and> frame_current g f)"

text \<open>The units a live task is blocked on.\<close>

definition wait_edges :: "compile_graph \<Rightarrow> (path_id \<times> path_id) set" where
  "wait_edges g =
     {(p, d). \<exists>r f ws k. frames g r = Some f \<and> uf_path f = p \<and> uf_token f \<notin> cancelled g \<and>
        uf_stage f = Waiting ws \<and> (d, AwaitRound k) \<in> set ws \<and> undone g k}"

definition core_inv :: "compile_graph \<Rightarrow> bool" where
  "core_inv g \<longleftrightarrow> rounds_inv g \<and> awaits_inv g \<and> edges_inv g \<and> clean_inv g \<and> frames_inv g
     \<and> acyclic (wait_edges g)"

definition graph_inv :: "compile_graph \<Rightarrow> bool" where
  "graph_inv g \<longleftrightarrow> core_inv g \<and> refs_inv g"

section \<open>Preservation\<close>

lemma awaits_invI:
  assumes "\<And>r f ws w. frames g r = Some f \<Longrightarrow> uf_stage f = Waiting ws \<Longrightarrow> w \<in> set ws \<Longrightarrow> await_ok g w"
    and "\<And>q rq w. requests g q = Some rq \<Longrightarrow> w \<in> set (rq_waits rq) \<Longrightarrow> await_ok g w"
  shows "awaits_inv g"
  using assms unfolding awaits_inv_def awaits_of_def by blast

lemma awaits_invD:
  assumes "awaits_inv g"
  shows "frames g r = Some f \<Longrightarrow> uf_stage f = Waiting ws \<Longrightarrow> w \<in> set ws \<Longrightarrow> await_ok g w"
    and "requests g q = Some rq \<Longrightarrow> w \<in> set (rq_waits rq) \<Longrightarrow> await_ok g w"
  using assms unfolding awaits_inv_def awaits_of_def by blast+

lemma core_invD:
  assumes "core_inv g"
  shows "rounds_inv g" "awaits_inv g" "edges_inv g" "clean_inv g" "frames_inv g" "acyclic (wait_edges g)"
  using assms by (auto simp: core_inv_def)

lemma rounds_invD:
  assumes "rounds_inv g"
  shows "frames g r = Some f \<Longrightarrow> is_compiling g (uf_path f) \<and> round_of g (uf_path f) = Some r \<and> undone g r"
    and "is_compiling g p \<Longrightarrow> round_of g p \<in> Some ` dom (frames g)"
    and "round_of g p = Some r \<Longrightarrow> rounds g r \<noteq> None"
    and "round_of g p = Some r \<Longrightarrow> round_of g q = Some r \<Longrightarrow> p = q"
    and "rounds g r \<noteq> None \<Longrightarrow> r < next_round g"
    and "undone g r \<Longrightarrow> r \<in> dom (frames g)"
  using assms unfolding rounds_inv_def by blast+

lemma frame_shape_acquired:
  assumes "frame_shape f" and "uf_stage f = Waiting ws" and "w \<in> set ws"
  shows "fst w \<in> set (uf_acquired f)"
proof -
  have "uf_acquired f = map fst ws" using assms by (simp add: frame_shape_def)
  with assms(3) show ?thesis by simp
qed

lemma frames_invD: "frames_inv g \<Longrightarrow> frames g r = Some f \<Longrightarrow> frame_shape f \<and> frame_current g f"
  by (simp add: frames_inv_def)

lemma inv_empty: "graph_inv empty_graph"
  by (auto simp: graph_inv_def core_inv_def rounds_inv_def awaits_inv_def awaits_of_def refs_inv_def
      edges_inv_def clean_inv_def frames_inv_def wait_edges_def holders_def field_defs undone_def
      empty_graph_def acyclic_def)

lemma core_inv_mild:
  assumes "mild g g'" and "core_inv g"
  shows "core_inv g'"
proof -
  have m: "deps_of g' = deps_of g" "dependents_of g' = dependents_of g" "is_resolved g' = is_resolved g"
    "is_clean g' = is_clean g" "generation_of g' = generation_of g" "round_of g' = round_of g"
    "is_compiling g' = is_compiling g" "rounds g' = rounds g" "next_round g' = next_round g"
    "cancelled g' = cancelled g" "frames g' = frames g" "requests g' = requests g"
    and src: "\<And>p s. source_of g p = Some s \<Longrightarrow> source_of g' p = Some s"
    and has: "\<And>p. has_unit g p \<Longrightarrow> has_unit g' p"
    using assms(1) source_of_has by (auto simp: mild_def)
  have "undone g' = undone g" "succeeded g' = succeeded g" "awaits_of g' = awaits_of g"
    "wait_edges g' = wait_edges g"
    by (auto simp: undone_def succeeded_def awaits_of_def wait_edges_def m fun_eq_iff)
  moreover from this have "await_fresh g' = await_fresh g"
    by (simp add: fun_eq_iff await_fresh_def m split: await_state.split)
  moreover have "awaits_inv g'"
    using assms(2) calculation(3)
    by (fastforce simp: core_inv_def awaits_inv_def await_ok_def m has split: await_state.splits)
  moreover from calculation have "stage_fresh g' = stage_fresh g"
    by (intro ext) (simp add: stage_fresh_def m split: stage.split)
  moreover from this have "frame_current g f \<Longrightarrow> frame_current g' f" for f
    by (auto simp: frame_current_def m src)
  ultimately show ?thesis
    using assms(2) has
    by (auto simp: core_inv_def rounds_inv_def edges_inv_def clean_inv_def frames_inv_def m)
qed

text \<open>A new state of one waiter of a unit task.\<close>

lemma set_frame_await_eq:
  assumes "frames g r = Some f" and "uf_stage f = Waiting ws"
  shows "set_frame_await r i s g =
    g\<lparr>frames := (frames g)(r \<mapsto> f\<lparr>uf_stage := Waiting (ws[i := (fst (ws ! i), s)])\<rparr>)\<rparr>"
  by (simp add: set_frame_await_def assms)

lemma frames_upd_fields [simp]:
  "deps_of (g\<lparr>frames := F\<rparr>) = deps_of g" "dependents_of (g\<lparr>frames := F\<rparr>) = dependents_of g"
  "is_resolved (g\<lparr>frames := F\<rparr>) = is_resolved g" "is_clean (g\<lparr>frames := F\<rparr>) = is_clean g"
  "generation_of (g\<lparr>frames := F\<rparr>) = generation_of g" "round_of (g\<lparr>frames := F\<rparr>) = round_of g"
  "is_compiling (g\<lparr>frames := F\<rparr>) = is_compiling g" "has_unit (g\<lparr>frames := F\<rparr>) = has_unit g"
  "source_of (g\<lparr>frames := F\<rparr>) = source_of g" "undone (g\<lparr>frames := F\<rparr>) = undone g"
  "succeeded (g\<lparr>frames := F\<rparr>) = succeeded g" "refcount (g\<lparr>frames := F\<rparr>) = refcount g"
  by (simp_all add: fun_eq_iff field_defs undone_def succeeded_def)

lemma requests_upd_fields [simp]:
  "deps_of (g\<lparr>requests := F\<rparr>) = deps_of g" "dependents_of (g\<lparr>requests := F\<rparr>) = dependents_of g"
  "is_resolved (g\<lparr>requests := F\<rparr>) = is_resolved g" "is_clean (g\<lparr>requests := F\<rparr>) = is_clean g"
  "generation_of (g\<lparr>requests := F\<rparr>) = generation_of g" "round_of (g\<lparr>requests := F\<rparr>) = round_of g"
  "is_compiling (g\<lparr>requests := F\<rparr>) = is_compiling g" "has_unit (g\<lparr>requests := F\<rparr>) = has_unit g"
  "source_of (g\<lparr>requests := F\<rparr>) = source_of g" "undone (g\<lparr>requests := F\<rparr>) = undone g"
  "succeeded (g\<lparr>requests := F\<rparr>) = succeeded g" "refcount (g\<lparr>requests := F\<rparr>) = refcount g"
  by (simp_all add: fun_eq_iff field_defs undone_def succeeded_def)

lemma await_fresh_frames [simp]: "await_fresh (g\<lparr>frames := F\<rparr>) = await_fresh g"
  "await_fresh (g\<lparr>requests := Q\<rparr>) = await_fresh g"
  by (simp_all add: fun_eq_iff await_fresh_def split: await_state.split)

lemma stage_fresh_frames [simp]: "stage_fresh (g\<lparr>frames := F\<rparr>) = stage_fresh g"
  "stage_fresh (g\<lparr>requests := Q\<rparr>) = stage_fresh g"
  by (simp_all add: fun_eq_iff stage_fresh_def split: stage.split)

lemma frame_current_frames [simp]: "frame_current (g\<lparr>frames := F\<rparr>) = frame_current g"
  "frame_current (g\<lparr>requests := Q\<rparr>) = frame_current g"
  by (simp_all add: fun_eq_iff frame_current_def)

text \<open>
  Replacing the frame of a round by one for the same unit. What the new frame waits on must be
  legitimate, and if it blocks on a further round, that must not close a cycle.
\<close>

lemma core_inv_set_frame:
  assumes inv: "core_inv g" and f: "frames g r = Some f" and path: "uf_path f' = uf_path f"
    and shape: "frame_shape f'" and cur: "frame_current g f'"
    and ok: "\<And>ws w. uf_stage f' = Waiting ws \<Longrightarrow> w \<in> set ws \<Longrightarrow> await_ok g w"
    and acyc: "acyclic (wait_edges (g\<lparr>frames := (frames g)(r \<mapsto> f')\<rparr>))"
  shows "core_inv (g\<lparr>frames := (frames g)(r \<mapsto> f')\<rparr>)"
proof -
  let ?g = "g\<lparr>frames := (frames g)(r \<mapsto> f')\<rparr>"
  have "dom (frames ?g) = dom (frames g)" using f by auto
  then have "rounds_inv ?g"
    using core_invD(1) [OF inv] f path by (simp add: rounds_inv_def del: dom_fun_upd)
  moreover have old: "await_ok ?g w" if "await_ok g w" for w
    using that f path by (auto simp: await_ok_def split: await_state.splits)
  have "awaits_inv ?g"
    using ok awaits_invD [OF core_invD(2) [OF inv]]
    by (intro awaits_invI old) (auto split: if_splits)
  moreover have "frames_inv ?g"
    using inv shape cur by (auto simp: core_inv_def frames_inv_def)
  ultimately show ?thesis
    using inv acyc by (simp add: core_inv_def edges_inv_def clean_inv_def)
qed

lemma core_inv_set_request:
  assumes "core_inv g" and "\<And>w. w \<in> set (rq_waits rq) \<Longrightarrow> await_ok g w"
  shows "core_inv (g\<lparr>requests := (requests g)(q \<mapsto> rq)\<rparr>)"
proof -
  let ?g = "g\<lparr>requests := (requests g)(q \<mapsto> rq)\<rparr>"
  have old: "await_ok ?g w" if "await_ok g w" for w
    using that by (auto simp: await_ok_def split: await_state.splits)
  have "awaits_inv ?g"
    using assms(2) awaits_invD [OF core_invD(2) [OF assms(1)]]
    by (intro awaits_invI old) (auto split: if_splits)
  moreover have "wait_edges ?g = wait_edges g" by (simp add: wait_edges_def)
  ultimately show ?thesis
    using assms(1) by (simp add: core_inv_def edges_inv_def clean_inv_def rounds_inv_def frames_inv_def)
qed

subsection \<open>Spawning a round\<close>

lemma spawn_fields:
  assumes "has_unit g p" and "spawn_unit p g = (g', ok)"
  shows "ok \<longleftrightarrow> \<not> closing g" and "closing g' = closing g"
    and "is_compiling g' = (if ok then (is_compiling g)(p := True) else (is_compiling g)(p := False))"
    and "round_of g' = (round_of g)(p \<mapsto> next_round g)" and "next_round g' = Suc (next_round g)"
    and "rounds g' = (rounds g)(next_round g \<mapsto> \<lparr>completion = \<not> ok, round_outcome = Stale\<rparr>)"
    and "frames g' = (if ok then (frames g)(next_round g \<mapsto>
           \<lparr>uf_path = p, uf_token = the (source_of g p), uf_gen = 0, uf_acquired = [], uf_stage = Entered\<rparr>)
         else frames g)"
    and "deps_of g' = deps_of g" "dependents_of g' = dependents_of g" "is_resolved g' = is_resolved g"
    "is_clean g' = is_clean g" "generation_of g' = generation_of g" "source_of g' = source_of g"
    "has_unit g' = has_unit g" "cancelled g' = cancelled g" "requests g' = requests g"
    "refcount g' = refcount g"
proof -
  obtain u where u: "units g p = Some u" using assms(1) by (auto simp: has_unit_def)
  have g': "units g' = (units g)(p \<mapsto> u\<lparr>cu_compiling := ok, cu_round := Some (next_round g)\<rparr>)"
    and rest: "ok \<longleftrightarrow> \<not> closing g" "closing g' = closing g" "next_round g' = Suc (next_round g)"
    "rounds g' = (rounds g)(next_round g \<mapsto> \<lparr>completion = \<not> ok, round_outcome = Stale\<rparr>)"
    "frames g' = (if ok then (frames g)(next_round g \<mapsto>
           \<lparr>uf_path = p, uf_token = the (source_of g p), uf_gen = 0, uf_acquired = [], uf_stage = Entered\<rparr>)
         else frames g)"
    "cancelled g' = cancelled g" "requests g' = requests g"
    using assms(2) u
    by (auto simp: spawn_unit_def Let_def modify_unit_def source_of_def split: if_splits)
  show "ok \<longleftrightarrow> \<not> closing g" "closing g' = closing g" "next_round g' = Suc (next_round g)"
    "rounds g' = (rounds g)(next_round g \<mapsto> \<lparr>completion = \<not> ok, round_outcome = Stale\<rparr>)"
    "frames g' = (if ok then (frames g)(next_round g \<mapsto>
           \<lparr>uf_path = p, uf_token = the (source_of g p), uf_gen = 0, uf_acquired = [], uf_stage = Entered\<rparr>)
         else frames g)"
    "cancelled g' = cancelled g" "requests g' = requests g"
    by (fact rest)+
  show "is_compiling g' = (if ok then (is_compiling g)(p := True) else (is_compiling g)(p := False))"
    "round_of g' = (round_of g)(p \<mapsto> next_round g)"
    "deps_of g' = deps_of g" "dependents_of g' = dependents_of g" "is_resolved g' = is_resolved g"
    "is_clean g' = is_clean g" "generation_of g' = generation_of g" "source_of g' = source_of g"
    "has_unit g' = has_unit g" "refcount g' = refcount g"
    using u by (auto simp: fun_eq_iff field_defs g')
qed

lemma core_inv_spawn:
  assumes inv: "core_inv g" and p: "has_unit g p" "\<not> is_compiling g p"
    and sp: "spawn_unit p g = (g', ok)"
  shows "core_inv g'"
proof -
  note fld = spawn_fields [OF p(1) sp]
  note I = core_invD [OF inv]
  let ?r = "next_round g"
  have new: "rounds g ?r = None" using rounds_invD(5) [OF I(1), of ?r] by (cases "rounds g ?r") auto
  then have "\<not> undone g ?r" by (simp add: undone_def)
  moreover from this have "frames g ?r = None" using rounds_invD(1) [OF I(1), of ?r] by (cases "frames g ?r") auto
  ultimately have fresh: "rounds g ?r = None" "frames g ?r = None" "\<not> undone g ?r" using new by simp_all
  have und: "undone g' k \<longleftrightarrow> (if k = ?r then ok else undone g k)"
    and suc: "succeeded g' k \<longleftrightarrow> k \<noteq> ?r \<and> succeeded g k" for k
    by (auto simp: undone_def succeeded_def fld(6))
  have nor: "round_of g q \<noteq> Some ?r" for q
    using I(1) unfolding rounds_inv_def by blast
  have nof: "frames g k = Some f \<Longrightarrow> uf_path f \<noteq> p" for k f
    using I(1) p(2) unfolding rounds_inv_def by metis
  have "rounds_inv g'"
    using I(1) p(2) fresh nof nor
    by (auto simp: rounds_inv_def fld und split: if_splits)
  moreover have ok: "await_ok g' w" if "await_ok g w" for w
    using that fresh nor by (auto simp: await_ok_def fld split: await_state.splits if_splits)
  have "awaits_inv g'"
    using awaits_invD [OF I(2)] by (intro awaits_invI ok) (auto simp: fld split: if_splits)
  moreover have fr: "await_fresh g' w" if "await_fresh g w" for w
    using that suc by (auto simp: await_fresh_def fld split: await_state.splits if_splits)
  then have "stage_fresh g' f" if "stage_fresh g f" for f
    using that by (auto simp: stage_fresh_def fld split: stage.splits)
  then have "frame_current g' f" if "frame_current g f" for f
    using that by (auto simp: frame_current_def fld)
  then have "frames_inv g'"
    using I(5) p(1) by (auto simp: frames_inv_def fld frame_shape_def frame_current_def stage_fresh_def
        source_of_def has_unit_def split: if_splits)
  moreover have "wait_edges g' \<subseteq> wait_edges g"
    using awaits_invD(1) [OF I(2)] fresh
    by (fastforce simp: wait_edges_def fld und await_ok_def split: if_splits)
  then have "acyclic (wait_edges g')" using I(6) acyclic_subset by blast
  ultimately show ?thesis using I by (simp add: core_inv_def edges_inv_def clean_inv_def fld)
qed

subsection \<open>The end of a round\<close>

lemma guard_exit_fields:
  assumes "frames g r = Some f" and "unit_guard_exit r oc g = g'"
  shows "is_compiling g' = (is_compiling g)(uf_path f := False)"
    and "rounds g' = (rounds g)(r \<mapsto> \<lparr>completion = True, round_outcome = oc\<rparr>)"
    and "frames g' = (frames g)(r := None)"
    and "deps_of g' = deps_of g" "dependents_of g' = dependents_of g" "is_resolved g' = is_resolved g"
    "is_clean g' = is_clean g" "generation_of g' = generation_of g" "round_of g' = round_of g"
    "source_of g' = source_of g" "has_unit g' = has_unit g" "next_round g' = next_round g"
    "cancelled g' = cancelled g" "closing g' = closing g" "requests g' = requests g"
    and "(\<And>p. p \<in> set (uf_acquired f) \<Longrightarrow> has_unit g p) \<Longrightarrow>
           refcount g' q = refcount g q - of_nat (count_list (uf_acquired f) q)"
proof -
  define g1 where "g1 = modify_unit (uf_path f) (\<lambda>u. u\<lparr>cu_compiling := False\<rparr>)
      (g\<lparr>rounds := (rounds g)(r \<mapsto> \<lparr>completion = False, round_outcome = oc\<rparr>)\<rparr>)"
  define g2 where "g2 = fold release (uf_acquired f) g1"
  have g': "g' = g2\<lparr>rounds := (rounds g2)(r \<mapsto> \<lparr>completion = True, round_outcome = oc\<rparr>),
      frames := (frames g2)(r := None)\<rparr>"
    using assms by (simp add: unit_guard_exit_def g1_def g2_def Let_def)
  have m: "mild g1 g2" unfolding g2_def by (rule mild_releases)
  have has: "has_unit g2 = has_unit g1" by (simp add: g2_def)
  have u1: "units g1 x = map_option (\<lambda>u. if x = uf_path f then u\<lparr>cu_compiling := False\<rparr> else u) (units g x)" for x
    by (cases "units g x") (auto simp: g1_def units_modify_unit)
  have f1: "is_compiling g1 = (is_compiling g)(uf_path f := False)"
    "deps_of g1 = deps_of g" "dependents_of g1 = dependents_of g" "is_resolved g1 = is_resolved g"
    "is_clean g1 = is_clean g" "generation_of g1 = generation_of g" "round_of g1 = round_of g"
    "source_of g1 = source_of g" "has_unit g1 = has_unit g" "refcount g1 = refcount g"
    by (auto simp: fun_eq_iff field_defs u1 split: option.split)
  have src: "source_of g2 = source_of g1"
  proof
    fix x show "source_of g2 x = source_of g1 x"
      using m fun_cong [OF has, of x] by (cases "units g1 x") (auto simp: mild_def has_unit_def source_of_def)
  qed
  have f2: "is_compiling g' = is_compiling g2" "deps_of g' = deps_of g2" "dependents_of g' = dependents_of g2"
    "is_resolved g' = is_resolved g2" "is_clean g' = is_clean g2" "generation_of g' = generation_of g2"
    "round_of g' = round_of g2" "source_of g' = source_of g2" "has_unit g' = has_unit g2"
    "refcount g' = refcount g2"
    by (simp_all add: g' fun_eq_iff field_defs)
  show "is_compiling g' = (is_compiling g)(uf_path f := False)"
    "deps_of g' = deps_of g" "dependents_of g' = dependents_of g" "is_resolved g' = is_resolved g"
    "is_clean g' = is_clean g" "generation_of g' = generation_of g" "round_of g' = round_of g"
    "source_of g' = source_of g" "has_unit g' = has_unit g"
    using m by (simp_all add: f2 src has f1 mild_def)
  show "rounds g' = (rounds g)(r \<mapsto> \<lparr>completion = True, round_outcome = oc\<rparr>)"
    "frames g' = (frames g)(r := None)" "next_round g' = next_round g"
    "cancelled g' = cancelled g" "closing g' = closing g" "requests g' = requests g"
    using m by (simp_all add: g' g1_def mild_def)
  show "refcount g' q = refcount g q - of_nat (count_list (uf_acquired f) q)"
    if "\<And>p. p \<in> set (uf_acquired f) \<Longrightarrow> has_unit g p"
    using that by (simp add: f2(10) g2_def refcount_releases f1)
qed

lemma core_inv_guard_exit:
  assumes inv: "core_inv g" and f: "frames g r = Some f"
    and oc: "oc = Success \<Longrightarrow> is_clean g (uf_path f)"
  shows "core_inv (unit_guard_exit r oc g)"
proof -
  define g' where "g' = unit_guard_exit r oc g"
  note fld = guard_exit_fields [OF f g'_def [symmetric]]
  note I = core_invD [OF inv]
  have r: "round_of g (uf_path f) = Some r" "rounds g r \<noteq> None"
    using I(1) f unfolding rounds_inv_def undone_def by (auto split: option.splits)
  have inj: "round_of g q = Some r \<Longrightarrow> q = uf_path f" for q
    using I(1) r(1) unfolding rounds_inv_def by blast
  have und: "undone g' k \<longleftrightarrow> k \<noteq> r \<and> undone g k"
    and suc: "succeeded g' k \<longleftrightarrow> (if k = r then oc = Success else succeeded g k)" for k
    by (auto simp: undone_def succeeded_def fld)
  note R = rounds_invD [OF I(1)]
  have other: "uf_path f' \<noteq> uf_path f" if "frames g k = Some f'" "k \<noteq> r" for k f'
    using R(1) [OF that(1)] that(2) r(1) by auto
  have "rounds_inv g'"
    unfolding rounds_inv_def
  proof (intro conjI allI impI)
    fix k f' assume "frames g' k = Some f'"
    then have k: "frames g k = Some f'" "k \<noteq> r" by (auto simp: fld split: if_splits)
    with R(1) [OF k(1)] other show "is_compiling g' (uf_path f')" "round_of g' (uf_path f') = Some k" "undone g' k"
      by (auto simp: fld und)
  next
    fix q assume "is_compiling g' q"
    then have q: "is_compiling g q" "q \<noteq> uf_path f" by (auto simp: fld split: if_splits)
    with R(2) [OF q(1)] inj [of q] show "round_of g' q \<in> Some ` dom (frames g')" by (auto simp: fld)
  next
    show "round_of g' q = Some k \<Longrightarrow> rounds g' k \<noteq> None"
      "round_of g' q = Some k \<Longrightarrow> round_of g' q' = Some k \<Longrightarrow> q = q'" for q q' k
      using R(3,4) by (auto simp: fld)
    show "rounds g' k \<noteq> None \<Longrightarrow> k < next_round g'" "undone g' k \<Longrightarrow> k \<in> dom (frames g')" for k
      using R(5) [of k] R(5) [of r] R(6) [of k] r(2) und by (auto simp: fld split: if_splits)
  qed
  moreover have ok: "await_ok g' w" if "await_ok g w" for w
    using that by (auto simp: await_ok_def fld split: await_state.splits)
  have "awaits_inv g'"
    using awaits_invD [OF I(2)] by (intro awaits_invI ok) (auto simp: fld split: if_splits)
  moreover have "await_fresh g' w" if "await_fresh g w" "await_ok g w" for w
    using that inj oc f
    by (auto simp: await_fresh_def await_ok_def fld suc split: await_state.splits if_splits)
  then have "stage_fresh g' f'" if "stage_fresh g f'" "frames g k = Some f'" for f' k
    using that awaits_invD(1) [OF I(2)] by (auto simp: stage_fresh_def fld split: stage.splits)
  then have "frame_current g' f'" if "frame_current g f'" "frames g k = Some f'" for f' k
    using that by (auto simp: frame_current_def fld)
  then have "frames_inv g'"
    using I(5) by (auto simp: frames_inv_def fld split: if_splits)
  moreover have "wait_edges g' \<subseteq> wait_edges g"
    by (auto simp: wait_edges_def fld und split: if_splits)
  then have "acyclic (wait_edges g')" using I(6) acyclic_subset by blast
  ultimately have "core_inv g'" using I by (simp add: core_inv_def edges_inv_def clean_inv_def fld)
  then show ?thesis by (simp add: g'_def)
qed

text \<open>The success path clears the dirty flag of a unit whose dependencies are all clean.\<close>

lemma core_inv_set_clean:
  assumes inv: "core_inv g" and res: "is_resolved g p" and deps: "\<forall>d \<in> set (deps_of g p). is_clean g d"
  shows "core_inv (modify_unit p (\<lambda>u. u\<lparr>cu_dirty := False\<rparr>) g)"
proof -
  define g' where "g' = modify_unit p (\<lambda>u. u\<lparr>cu_dirty := False\<rparr>) g"
  note I = core_invD [OF inv]
  have "has_unit g p" using res by (auto simp: is_resolved_def has_unit_def split: option.splits)
  then have fld: "is_clean g' = (is_clean g)(p := True)"
    "deps_of g' = deps_of g" "dependents_of g' = dependents_of g" "is_resolved g' = is_resolved g"
    "is_compiling g' = is_compiling g" "generation_of g' = generation_of g" "round_of g' = round_of g"
    "source_of g' = source_of g" "has_unit g' = has_unit g"
    by (auto simp: fun_eq_iff g'_def field_defs units_modify_unit split: option.split)
  have rt: "rounds g' = rounds g" "frames g' = frames g" "next_round g' = next_round g"
    "cancelled g' = cancelled g" "requests g' = requests g"
    by (simp_all add: g'_def)
  have us: "undone g' = undone g" "succeeded g' = succeeded g" "wait_edges g' = wait_edges g"
    by (auto simp: undone_def succeeded_def wait_edges_def rt fun_eq_iff)
  have "clean_inv g'" using I(4) res deps by (simp add: clean_inv_def fld)
  moreover have "await_fresh g w \<Longrightarrow> await_fresh g' w" for w
    by (auto simp: await_fresh_def fld us split: await_state.splits)
  then have "stage_fresh g f \<Longrightarrow> stage_fresh g' f" for f
    by (auto simp: stage_fresh_def fld split: stage.splits)
  then have "frames_inv g'"
    using I(5) by (auto simp: frames_inv_def frame_current_def fld rt)
  moreover have "await_ok g' = await_ok g" "awaits_of g' = awaits_of g"
    by (auto simp: fun_eq_iff await_ok_def awaits_of_def fld rt split: await_state.split)
  moreover have "rounds_inv g'" using I(1) by (simp add: rounds_inv_def fld rt us)
  ultimately have "core_inv g'"
    using I by (simp add: core_inv_def awaits_inv_def edges_inv_def fld us)
  then show ?thesis by (simp add: g'_def)
qed

subsection \<open>Resolving dependencies\<close>

lemma add_dependent_mild:
  "deps_of (add_dependent p d g) = deps_of g" "is_resolved (add_dependent p d g) = is_resolved g"
  "is_clean (add_dependent p d g) = is_clean g" "generation_of (add_dependent p d g) = generation_of g"
  "round_of (add_dependent p d g) = round_of g" "is_compiling (add_dependent p d g) = is_compiling g"
  "has_unit (add_dependent p d g) x \<longleftrightarrow> x = d \<or> has_unit g x"
  "has_unit g x \<Longrightarrow> source_of (add_dependent p d g) x = source_of g x"
  "refcount (add_dependent p d g) = refcount g"
  "dependents_of (add_dependent p d g) x = dependents_of g x @ (if x = d then [p] else [])"
  "rounds (add_dependent p d g) = rounds g" "next_round (add_dependent p d g) = next_round g"
  "cancelled (add_dependent p d g) = cancelled g" "frames (add_dependent p d g) = frames g"
  "requests (add_dependent p d g) = requests g" "closing (add_dependent p d g) = closing g"
  by (simp_all add: add_dependent_def field_defs unit_simps fun_eq_iff split: option.split) auto

lemma add_dependents_fields:
  "deps_of (fold (add_dependent p) ds g) = deps_of g"
  "is_resolved (fold (add_dependent p) ds g) = is_resolved g"
  "is_clean (fold (add_dependent p) ds g) = is_clean g"
  "generation_of (fold (add_dependent p) ds g) = generation_of g"
  "round_of (fold (add_dependent p) ds g) = round_of g"
  "is_compiling (fold (add_dependent p) ds g) = is_compiling g"
  "refcount (fold (add_dependent p) ds g) = refcount g"
  "rounds (fold (add_dependent p) ds g) = rounds g"
  "next_round (fold (add_dependent p) ds g) = next_round g"
  "cancelled (fold (add_dependent p) ds g) = cancelled g"
  "frames (fold (add_dependent p) ds g) = frames g"
  "requests (fold (add_dependent p) ds g) = requests g"
  "closing (fold (add_dependent p) ds g) = closing g"
  by (rule fold_same, simp add: add_dependent_mild)+

lemma add_dependents_units:
  "has_unit (fold (add_dependent p) ds g) x \<longleftrightarrow> x \<in> set ds \<or> has_unit g x"
  by (induction ds arbitrary: g) (auto simp: add_dependent_mild)

lemma add_dependents_dependents:
  "set (dependents_of (fold (add_dependent p) ds g) x) =
     set (dependents_of g x) \<union> (if x \<in> set ds then {p} else {})"
proof (induction ds arbitrary: g x)
  case (Cons d ds)
  show ?case by (cases "x = d"; cases "x \<in> set ds") (simp_all add: Cons add_dependent_mild(10))
qed simp

lemma add_dependents_source:
  "has_unit g x \<Longrightarrow> source_of (fold (add_dependent p) ds g) x = source_of g x"
  by (induction ds arbitrary: g) (auto simp: add_dependent_mild)

lemma ensure_resolved_fields:
  fixes resolve :: "path_id \<Rightarrow> path_id list"
  defines "new \<equiv> \<lambda>g p. if is_resolved g p then deps_of g p else resolve p"
  assumes "ensure_resolved resolve p g = g'"
  shows "deps_of g' = (deps_of g)(p := new g p)" and "is_resolved g' = (is_resolved g)(p := True)"
    and "is_clean g' = is_clean g" "generation_of g' = generation_of g" "round_of g' = round_of g"
    "is_compiling g' = is_compiling g" "refcount g' = refcount g" "rounds g' = rounds g"
    "next_round g' = next_round g" "cancelled g' = cancelled g" "frames g' = frames g"
    "requests g' = requests g" "closing g' = closing g"
    and "has_unit g' x \<longleftrightarrow> x = p \<or> has_unit g x \<or> (\<not> is_resolved g p \<and> x \<in> set (resolve p))"
    and "has_unit g x \<Longrightarrow> source_of g' x = source_of g x"
    and "set (dependents_of g' x) = set (dependents_of g x) \<union>
           (if \<not> is_resolved g p \<and> x \<in> set (resolve p) then {p} else {})"
proof -
  define g1 where "g1 = index_unit p g"
  define g2 where "g2 = modify_unit p (\<lambda>u. u\<lparr>cu_path_id := p, cu_resolved := True, cu_dependencies := resolve p\<rparr>) g1"
  have "units g1 p \<noteq> None" by (simp add: g1_def units_index_unit)
  have m: "mild g g1" by (simp add: g1_def mild_index)
  have res: "is_resolved g p \<longleftrightarrow> (case units g1 p of None \<Rightarrow> False | Some u \<Rightarrow> cu_resolved u)"
    using m by (simp add: mild_def is_resolved_def fun_eq_iff)
  then have g': "g' = (if is_resolved g p then g1 else fold (add_dependent p) (resolve p) g2)"
    using assms(2) \<open>units g1 p \<noteq> None\<close>
    by (auto simp: ensure_resolved_def g1_def g2_def Let_def split: option.splits if_splits)
  have has1: "has_unit g1 x \<longleftrightarrow> x = p \<or> has_unit g x" for x
    by (auto simp: g1_def has_unit_def units_index_unit)
  have rc1: "refcount g1 = refcount g"
    by (auto simp: g1_def fun_eq_iff refcount_def unit_simps split: option.split)
  have f2: "deps_of g2 = (deps_of g1)(p := resolve p)" "is_resolved g2 = (is_resolved g1)(p := True)"
    "is_clean g2 = is_clean g1" "generation_of g2 = generation_of g1" "round_of g2 = round_of g1"
    "is_compiling g2 = is_compiling g1" "refcount g2 = refcount g1" "has_unit g2 = has_unit g1"
    "source_of g2 = source_of g1" "dependents_of g2 = dependents_of g1"
    using \<open>units g1 p \<noteq> None\<close>
    by (auto simp: g2_def fun_eq_iff field_defs units_modify_unit split: option.split)
  have rt2: "rounds g2 = rounds g1" "next_round g2 = next_round g1" "cancelled g2 = cancelled g1"
    "frames g2 = frames g1" "requests g2 = requests g1" "closing g2 = closing g1"
    by (simp_all add: g2_def)
  note all = g' add_dependents_fields add_dependents_source add_dependents_units
    add_dependents_dependents f2 rt2 rc1
  show "deps_of g' = (deps_of g)(p := new g p)" "is_resolved g' = (is_resolved g)(p := True)"
    "is_clean g' = is_clean g" "generation_of g' = generation_of g" "round_of g' = round_of g"
    "is_compiling g' = is_compiling g" "refcount g' = refcount g" "rounds g' = rounds g"
    "next_round g' = next_round g" "cancelled g' = cancelled g" "frames g' = frames g"
    "requests g' = requests g" "closing g' = closing g"
    using m by (auto simp: all mild_def new_def fun_eq_iff)
  show "has_unit g' x \<longleftrightarrow> x = p \<or> has_unit g x \<or> (\<not> is_resolved g p \<and> x \<in> set (resolve p))"
    "has_unit g x \<Longrightarrow> source_of g' x = source_of g x"
    "set (dependents_of g' x) = set (dependents_of g x) \<union>
           (if \<not> is_resolved g p \<and> x \<in> set (resolve p) then {p} else {})"
    using m by (auto simp: all has1 mild_def)
qed

lemma core_inv_ensure_resolved:
  assumes inv: "core_inv g"
  shows "core_inv (ensure_resolved resolve p g)"
proof -
  define g' where "g' = ensure_resolved resolve p g"
  note fld = ensure_resolved_fields [OF g'_def [symmetric]]
  note I = core_invD [OF inv]
  have nd: "\<not> is_resolved g p \<Longrightarrow> deps_of g p = []" using I(3) by (simp add: edges_inv_def)
  have nc: "is_clean g q \<Longrightarrow> \<not> is_resolved g p \<Longrightarrow> q \<noteq> p" for q using I(4) by (auto simp: clean_inv_def)
  have us: "undone g' = undone g" "succeeded g' = succeeded g" "wait_edges g' = wait_edges g"
    by (auto simp: undone_def succeeded_def wait_edges_def fld fun_eq_iff)
  have np: "\<not> is_resolved g p \<Longrightarrow> p \<notin> set (dependents_of g d)" for d
    using I(3) nd by (force simp: edges_inv_def)
  have ed: "edges_inv g'"
    using I(3) np unfolding edges_inv_def fld by (auto split: if_splits)
  have cl: "clean_inv g'"
    using I(4) nc by (auto simp: clean_inv_def fld)
  have "await_ok g w \<Longrightarrow> await_ok g' w" for w
    by (auto simp: await_ok_def fld split: await_state.splits)
  then have aw: "awaits_inv g'"
    using awaits_invD [OF I(2)] by (intro awaits_invI) (auto simp: fld)
  have "await_fresh g' = await_fresh g"
    by (auto simp: fun_eq_iff await_fresh_def fld us split: await_state.split)
  then have "stage_fresh g' = stage_fresh g"
    by (intro ext) (simp add: stage_fresh_def fld split: stage.split)
  then have "frame_current g f \<Longrightarrow> frame_current g' f" for f
    using source_of_has [of g] by (auto simp: frame_current_def fld)
  then have "frames_inv g'" using I(5) by (simp add: frames_inv_def fld)
  moreover have "rounds_inv g'" using I(1) by (simp add: rounds_inv_def fld us)
  ultimately have "core_inv g'" using ed cl aw I(6) by (simp add: core_inv_def us)
  then show ?thesis by (simp add: g'_def)
qed

subsection \<open>Cancellation and updates\<close>

text \<open>
  Replacing tokens. Every unit whose source changes has its old one cancelled, so a frame that is
  not cancelled afterwards still belongs to the current source of its unit.
\<close>

lemma core_inv_tokens:
  assumes inv: "core_inv g"
    and same: "deps_of g' = deps_of g" "dependents_of g' = dependents_of g" "is_resolved g' = is_resolved g"
    "is_clean g' = is_clean g" "generation_of g' = generation_of g" "round_of g' = round_of g"
    "is_compiling g' = is_compiling g" "has_unit g' = has_unit g" "rounds g' = rounds g"
    "next_round g' = next_round g" "frames g' = frames g" "requests g' = requests g"
    and can: "cancelled g \<subseteq> cancelled g'"
    and src: "\<And>p s. source_of g p = Some s \<Longrightarrow> s \<notin> cancelled g' \<Longrightarrow> source_of g' p = Some s"
  shows "core_inv g'"
proof -
  note I = core_invD [OF inv]
  have us: "undone g' = undone g" "succeeded g' = succeeded g"
    by (auto simp: undone_def succeeded_def same fun_eq_iff)
  have "wait_edges g' \<subseteq> wait_edges g" using can by (auto simp: wait_edges_def same us)
  then have "acyclic (wait_edges g')" using I(6) acyclic_subset by blast
  moreover have "await_fresh g' = await_fresh g" "await_ok g' = await_ok g"
    by (auto simp: fun_eq_iff await_fresh_def await_ok_def same us split: await_state.split)
  moreover from this have "stage_fresh g' = stage_fresh g"
    by (intro ext) (simp add: stage_fresh_def same split: stage.split)
  then have "frame_current g f \<Longrightarrow> frame_current g' f" for f
    using can src by (auto simp: frame_current_def same)
  ultimately show ?thesis
    using I by (simp add: core_inv_def rounds_inv_def awaits_inv_def awaits_of_def edges_inv_def
        clean_inv_def frames_inv_def same us)
qed

lemma core_inv_cancel_round:
  assumes "core_inv g"
  shows "core_inv (cancel_round p g)"
proof (rule core_inv_tokens [OF assms])
  show "cancelled g \<subseteq> cancelled (cancel_round p g)"
    by (auto simp: cancel_round_def split: option.split)
  show "source_of (cancel_round p g) q = Some s"
    if "source_of g q = Some s" "s \<notin> cancelled (cancel_round p g)" for q s
    using that by (cases "units g p") (auto simp: cancel_round_def source_of_def split: option.splits)
qed (auto simp: fun_eq_iff field_defs cancel_round_def split: option.split)

lemma core_inv_cancel_all:
  assumes "core_inv g"
  shows "core_inv (cancel_all g)"
proof (rule core_inv_tokens [OF assms])
  show "source_of (cancel_all g) q = Some s"
    if "source_of g q = Some s" "s \<notin> cancelled (cancel_all g)" for q s
    using that by (auto simp: cancel_all_def source_of_def split: option.splits)
qed (auto simp: fun_eq_iff field_defs cancel_all_def split: option.split)

lemma core_inv_update:
  assumes inv: "core_inv g"
  shows "core_inv (fst (update p g))"
proof (cases "has_unit g p")
  case True
  obtain g' ds where u: "update p g = (g', ds)" by fastforce
  note fld = update_fields [OF True u]
  have rt: "rounds g' = rounds g" "next_round g' = next_round g" "frames g' = frames g" "requests g' = requests g"
    using update_units(2) [OF True u] by (simp_all add: same_runtime_def)
  have can: "cancelled g' = cancelled g \<union> (\<Union>x \<in> set ds. set_option (source_of g x))"
    by (rule update_units(3) [OF True u])
  note I = core_invD [OF inv]
  have hu: "x \<in> set (dependents_of g y) \<Longrightarrow> has_unit g x" for x y
    using I(3) deps_of_has unfolding edges_inv_def by blast
  have ds: "set ds = (nexts_of (dependents_of g))\<^sup>* `` {p}"
  proof -
    have "(p, x) \<in> (nexts_of (dependents_of g))\<^sup>* \<Longrightarrow> has_unit g x" for x
      by (induction rule: rtrancl_induct) (use True hu in auto)
    then show ?thesis using update_dirtied(1) [OF True] u by auto
  qed
  have up: "x \<in> set ds" if "d \<in> set (deps_of g x)" "d \<in> set ds" for x d
    using that I(3) unfolding ds edges_inv_def by (auto intro: rtrancl_into_rtrancl)
  have pds: "p \<in> set ds" by (simp add: ds)
  have us: "undone g' = undone g" "succeeded g' = succeeded g"
    by (auto simp: undone_def succeeded_def rt fun_eq_iff)
  have ed: "edges_inv g'"
    using I(3) unfolding edges_inv_def fld by (auto split: if_splits)
  have cl: "clean_inv g'"
    using I(4) up pds by (auto simp: clean_inv_def fld)
  have cur: "frame_current g' f" if f: "frames g r = Some f" for r f
  proof -
    have fc: "frame_current g f" and sh: "frame_shape f" using I(5) f by (auto simp: frames_inv_def)
    have "has_unit g (uf_path f)"
      using rounds_invD(1) [OF I(1) f] by (auto simp: is_compiling_def has_unit_def split: option.splits)
    note gen = fld(8) [OF this]
    show ?thesis
    proof (cases "uf_path f \<in> set ds")
      case True
      then have "uf_token f \<in> cancelled g'" using fc can by (auto simp: frame_current_def)
      with True fc gen show ?thesis by (auto simp: frame_current_def)
    next
      case False
      then have np: "uf_path f \<noteq> p" using pds by auto
      have "await_fresh g' w" if "await_fresh g w" "fst w \<in> set (uf_acquired f)"
        "deps_of g (uf_path f) = uf_acquired f" for w
        using that up False by (auto simp: await_fresh_def fld us split: await_state.splits)
      then have "stage_fresh g' f" if "stage_fresh g f" "deps_of g (uf_path f) = uf_acquired f"
        using that frame_shape_acquired [OF sh] up False
        by (fastforce simp: stage_fresh_def fld split: stage.splits)
      with fc np False gen can fld(9) [OF False] show ?thesis
        by (auto simp: frame_current_def fld)
    qed
  qed
  have "wait_edges g' \<subseteq> wait_edges g" by (auto simp: wait_edges_def rt us can)
  then have "acyclic (wait_edges g')" using I(6) acyclic_subset by blast
  moreover have "await_ok g' = await_ok g"
    by (auto simp: fun_eq_iff await_ok_def fld rt split: await_state.split)
  moreover have "frames_inv g'" using cur I(5) by (simp add: frames_inv_def rt)
  ultimately show ?thesis
    using I ed cl u by (simp add: core_inv_def rounds_inv_def awaits_inv_def awaits_of_def fld rt us)
qed (use assms in \<open>simp add: update_missing\<close>)

subsection \<open>Interest counts\<close>

lemma refs_invD:
  assumes "refs_inv g"
  shows "finite (dom (frames g))" and "finite (dom (requests g))" and "refcount g p = of_nat (holders g p)"
    and "frames g r = Some f \<Longrightarrow> p \<in> set (uf_acquired f) \<Longrightarrow> has_unit g p"
    and "requests g q = Some rq \<Longrightarrow> p \<in> set (rq_held rq) \<Longrightarrow> has_unit g p"
  using assms unfolding refs_inv_def by blast+

lemma refs_inv_same:
  assumes "refs_inv g" and "frames g' = frames g" and "requests g' = requests g"
    and "refcount g' = refcount g" and "\<And>p. has_unit g p \<Longrightarrow> has_unit g' p"
  shows "refs_inv g'"
  using assms by (simp add: refs_inv_def holders_def)

lemma refs_inv_set_frame:
  assumes R: "refs_inv g" and f: "frames g r = Some f" and "uf_acquired f' = uf_acquired f"
  shows "refs_inv (g\<lparr>frames := (frames g)(r \<mapsto> f')\<rparr>)"
proof -
  have "holders (g\<lparr>frames := (frames g)(r \<mapsto> f')\<rparr>) p = holders g p" for p
    using refs_invD(1) [OF R] f assms(3) by (simp add: holders_def msum_upd_same)
  then show ?thesis using refs_invD [OF R] f assms(3) by (auto simp: refs_inv_def split: if_splits)
qed

lemma refs_inv_set_request:
  assumes R: "refs_inv g" and f: "requests g q = Some rq" and "rq_held rq' = rq_held rq"
  shows "refs_inv (g\<lparr>requests := (requests g)(q \<mapsto> rq')\<rparr>)"
proof -
  have "holders (g\<lparr>requests := (requests g)(q \<mapsto> rq')\<rparr>) p = holders g p" for p
    using refs_invD(2) [OF R] f assms(3) by (simp add: holders_def msum_upd_same)
  then show ?thesis using refs_invD [OF R] f assms(3) by (auto simp: refs_inv_def split: if_splits)
qed

lemma refs_inv_spawn:
  assumes R: "refs_inv g" and C: "core_inv g" and p: "has_unit g p" and sp: "spawn_unit p g = (g', ok)"
  shows "refs_inv g'"
proof -
  note fld = spawn_fields [OF p sp]
  have "rounds g (next_round g) = None"
    using rounds_invD(5) [OF core_invD(1) [OF C], of "next_round g"] by (cases "rounds g (next_round g)") auto
  then have "frames g (next_round g) = None"
    using rounds_invD(1) [OF core_invD(1) [OF C], of "next_round g"]
    by (cases "frames g (next_round g)") (auto simp: undone_def)
  then have "holders g' q = holders g q" for q
    using refs_invD(1) [OF R] by (simp add: holders_def fld msum_new)
  then show ?thesis using refs_invD [OF R] by (auto simp: refs_inv_def fld split: if_splits)
qed

lemma refs_inv_guard_exit:
  assumes R: "refs_inv g" and f: "frames g r = Some f"
  shows "refs_inv (unit_guard_exit r oc g)"
proof -
  define g' where "g' = unit_guard_exit r oc g"
  note fld = guard_exit_fields [OF f g'_def [symmetric]]
  have "holders g q = count_list (uf_acquired f) q + holders g' q" for q
    using msum_split [OF refs_invD(1) [OF R] f, of "\<lambda>f. count_list (uf_acquired f) q"]
    by (simp add: holders_def fld)
  moreover have "refcount g' q = refcount g q - of_nat (count_list (uf_acquired f) q)" for q
    using refs_invD(4) [OF R f] by (rule fld(16))
  ultimately have "refcount g' q = of_nat (holders g' q)" for q
    using refs_invD(3) [OF R, of q] by simp
  then have "refs_inv g'"
    using refs_invD [OF R] by (auto simp: refs_inv_def fld split: if_splits)
  then show ?thesis by (simp add: g'_def)
qed

lemma refs_inv_acquire_frame:
  assumes R: "refs_inv g" and f: "frames g r = Some f" "uf_acquired f = []" and f': "uf_acquired f' = ids"
  shows "refs_inv ((fold acquire ids g)\<lparr>frames := (frames (fold acquire ids g))(r \<mapsto> f')\<rparr>)"
proof -
  let ?g = "fold acquire ids g"
  have m: "mild g ?g" by (rule mild_acquires)
  then have rt: "frames ?g = frames g" "requests ?g = requests g" by (simp_all add: mild_def)
  have "holders (?g\<lparr>frames := (frames ?g)(r \<mapsto> f')\<rparr>) q = holders g q + count_list ids q" for q
    using msum_upd [OF refs_invD(1) [OF R] f(1), of "\<lambda>f. count_list (uf_acquired f) q" f'] f(2) f'
    by (simp add: holders_def rt)
  then show ?thesis
    using refs_invD [OF R] f' by (auto simp: refs_inv_def rt refcount_acquires split: if_splits)
qed

lemma refs_inv_ref_guard:
  assumes R: "refs_inv g" and q: "requests g q = None"
  shows "refs_inv (ref_guard q ids g)"
proof -
  let ?g = "fold acquire ids g"
  have rt: "frames ?g = frames g" "requests ?g = requests g"
    using mild_acquires [of g ids] by (simp_all add: mild_def)
  have "holders (ref_guard q ids g) p = holders g p + count_list ids p" for p
    by (simp add: holders_def rt ref_guard_def Let_def msum_new [OF refs_invD(2) [OF R] q])
  then show ?thesis
    using refs_invD [OF R]
    by (auto simp: refs_inv_def ref_guard_def Let_def rt refcount_acquires split: if_splits)
qed

lemma refs_inv_ref_guard_exit:
  assumes R: "refs_inv g" and q: "requests g q = Some rq"
  shows "refs_inv (ref_guard_exit q g)"
proof -
  let ?g = "fold release (rq_held rq) g"
  have rt: "frames ?g = frames g" "requests ?g = requests g"
    using mild_releases [of g "rq_held rq"] by (simp_all add: mild_def)
  have "holders g p = count_list (rq_held rq) p + holders (ref_guard_exit q g) p" for p
    using msum_split [OF refs_invD(2) [OF R] q, of "\<lambda>rq. count_list (rq_held rq) p"]
    by (simp add: holders_def rt ref_guard_exit_def q Let_def)
  moreover have "refcount (ref_guard_exit q g) p = refcount g p - of_nat (count_list (rq_held rq) p)" for p
    using refs_invD(5) [OF R q] by (simp add: ref_guard_exit_def q Let_def refcount_releases)
  ultimately have "refcount (ref_guard_exit q g) p = of_nat (holders (ref_guard_exit q g) p)" for p
    using refs_invD(3) [OF R, of p] by simp
  then show ?thesis
    using refs_invD [OF R]
    by (auto simp: refs_inv_def ref_guard_exit_def q Let_def rt split: if_splits)
qed

subsection \<open>Every step\<close>

lemma inv_guard_exit:
  "graph_inv g \<Longrightarrow> frames g r = Some f \<Longrightarrow> (oc = Success \<Longrightarrow> is_clean g (uf_path f)) \<Longrightarrow> graph_inv (unit_guard_exit r oc g)"
  by (simp add: graph_inv_def core_inv_guard_exit refs_inv_guard_exit)

lemma inv_ensure_resolved: "graph_inv g \<Longrightarrow> graph_inv (ensure_resolved resolve p g)"
  using core_inv_ensure_resolved [of g resolve p] ensure_resolved_fields [of resolve p g, OF refl]
  by (auto simp: graph_inv_def intro!: refs_inv_same [of g])

lemma inv_cancel_round: "graph_inv g \<Longrightarrow> graph_inv (cancel_round p g)"
  using core_inv_cancel_round [of g p]
  by (auto simp: graph_inv_def fun_eq_iff field_defs cancel_round_def split: option.split intro!: refs_inv_same [of g])

lemma inv_mild: "graph_inv g \<Longrightarrow> mild g g' \<Longrightarrow> refcount g' = refcount g \<Longrightarrow> graph_inv g'"
  using core_inv_mild [of g g'] by (auto simp: graph_inv_def mild_def intro!: refs_inv_same [of g])

lemma inv_unit_enter:
  assumes I: "graph_inv g" and f: "frames g r = Some f" "uf_stage f = Entered"
  shows "graph_inv (unit_enter resolve r g)"
proof -
  let ?p = "uf_path f"
  define g1 where "g1 = ensure_resolved resolve ?p g"
  note fld = ensure_resolved_fields [OF g1_def [symmetric]]
  have I1: "graph_inv g1" using I by (simp add: g1_def inv_ensure_resolved)
  then have f1: "frames g1 r = Some f" "frame_shape f" using f I
    by (auto simp: fld graph_inv_def core_inv_def frames_inv_def)
  obtain u where u: "units g1 ?p = Some u" using fld(14) [of ?p] by (auto simp: has_unit_def)
  define deps where "deps = cu_dependencies u"
  show ?thesis
  proof (cases "?p \<in> set deps")
    case True
    then have "unit_enter resolve r g = unit_guard_exit r Failed g1"
      using f u by (simp add: unit_enter_def g1_def deps_def Let_def)
    then show ?thesis using inv_guard_exit [OF I1 f1(1), of Failed] by simp
  next
    case False
    define g2 where "g2 = fold acquire deps g1"
    define f' where "f' = f\<lparr>uf_gen := cu_generation u, uf_acquired := deps,
        uf_stage := (if deps = [] then Dispatching else Waiting (map (\<lambda>d. (d, AwaitLoop)) deps))\<rparr>"
    have eq: "unit_enter resolve r g = g2\<lparr>frames := (frames g2)(r \<mapsto> f')\<rparr>"
      using f u False by (simp add: unit_enter_def g1_def deps_def g2_def f'_def Let_def)
    have m: "mild g1 g2" unfolding g2_def by (rule mild_acquires)
    have C2: "core_inv g2" using core_inv_mild [OF m] I1 by (simp add: graph_inv_def)
    have f2: "frames g2 r = Some f" using f1 m by (simp add: mild_def)
    have "deps_of g2 ?p = deps" "is_resolved g2 ?p" "generation_of g2 ?p = cu_generation u"
      using m u fld(2) by (simp_all add: mild_def deps_of_def generation_of_def deps_def)
    moreover have "frame_current g2 f" using C2 f2 by (auto simp: core_inv_def frames_inv_def)
    ultimately have cur: "frame_current g2 f'"
      by (auto simp: frame_current_def f'_def stage_fresh_def await_fresh_def)
    have shape: "frame_shape f'" using False by (auto simp: frame_shape_def f'_def o_def)
    have ok: "await_ok g2 w" if "uf_stage f' = Waiting ws" "w \<in> set ws" for ws w
      using that by (auto simp: f'_def g2_def await_ok_def split: if_splits)
    have "wait_edges (g2\<lparr>frames := (frames g2)(r \<mapsto> f')\<rparr>) \<subseteq> wait_edges g2"
      by (auto simp: wait_edges_def f'_def split: if_splits)
    then have "acyclic (wait_edges (g2\<lparr>frames := (frames g2)(r \<mapsto> f')\<rparr>))"
      using core_invD(6) [OF C2] acyclic_subset by blast
    with core_inv_set_frame [OF C2 f2 _ shape cur ok]
    have "core_inv (g2\<lparr>frames := (frames g2)(r \<mapsto> f')\<rparr>)" by (simp add: f'_def)
    moreover have "uf_acquired f = []" using f1(2) f(2) by (simp add: frame_shape_def)
    then have "refs_inv (g2\<lparr>frames := (frames g2)(r \<mapsto> f')\<rparr>)"
      using refs_inv_acquire_frame [of g1 r f f' deps] I1 f1(1) by (simp add: graph_inv_def g2_def f'_def)
    ultimately show ?thesis by (simp add: eq graph_inv_def)
  qed
qed

text \<open>Updating one waiter of a frame; the edge it may add is the only new one.\<close>

lemma wait_edgesI:
  "frames g r = Some f \<Longrightarrow> uf_token f \<notin> cancelled g \<Longrightarrow> uf_stage f = Waiting ws \<Longrightarrow>
    (d, AwaitRound k) \<in> set ws \<Longrightarrow> undone g k \<Longrightarrow> (uf_path f, d) \<in> wait_edges g"
  unfolding wait_edges_def by blast

lemma inv_set_frame_await:
  assumes I: "graph_inv g" and f: "frames g r = Some f" "uf_stage f = Waiting ws" and i: "i < length ws"
    "fst (ws ! i) = d"
    and ok: "await_ok g (d, s)"
    and fresh: "stage_fresh g f \<Longrightarrow> await_fresh g (d, s)"
    and cyc: "\<And>k. s = AwaitRound k \<Longrightarrow> undone g k \<Longrightarrow> uf_token f \<notin> cancelled g \<Longrightarrow>
        (d, uf_path f) \<notin> (wait_edges g)\<^sup>*"
  shows "graph_inv (set_frame_await r i s g)"
proof -
  define f' where "f' = f\<lparr>uf_stage := Waiting (ws[i := (d, s)])\<rparr>"
  let ?g = "g\<lparr>frames := (frames g)(r \<mapsto> f')\<rparr>"
  have C: "core_inv g" and R: "refs_inv g" using I by (simp_all add: graph_inv_def)
  have eq: "set_frame_await r i s g = ?g" using f i by (simp add: set_frame_await_eq f'_def)
  have fi: "frame_shape f" "frame_current g f" using core_invD(5) [OF C] f by (auto simp: frames_inv_def)
  have "map fst (ws[i := (d, s)]) = map fst ws"
    using i by (metis fst_conv list_update_id map_update nth_map)
  then have shape: "frame_shape f'" using fi(1) f by (simp add: frame_shape_def f'_def)
  have sub: "set (ws[i := (d, s)]) \<subseteq> insert (d, s) (set ws)" by (rule set_update_subset_insert)
  have "stage_fresh g f'" if "stage_fresh g f"
    using that fresh sub f by (auto simp: stage_fresh_def f'_def)
  then have cur: "frame_current g f'" using fi(2) f by (auto simp: frame_current_def f'_def)
  have ok': "await_ok g w" if "uf_stage f' = Waiting ws'" "w \<in> set ws'" for ws' w
    using that sub ok awaits_invD(1) [OF core_invD(2) [OF C] f, of w] unfolding f'_def by auto
  have edges: "wait_edges ?g \<subseteq> wait_edges g \<union>
      {(p, d'). p = uf_path f \<and> d' = d \<and> uf_token f \<notin> cancelled g \<and> (\<exists>k. s = AwaitRound k \<and> undone g k)}"
  proof
    fix e assume "e \<in> wait_edges ?g"
    then obtain p d' r' f0 ws' k where e: "e = (p, d')" "frames ?g r' = Some f0" "uf_path f0 = p"
      "uf_token f0 \<notin> cancelled g" "uf_stage f0 = Waiting ws'" "(d', AwaitRound k) \<in> set ws'" "undone g k"
      by (auto simp: wait_edges_def)
    show "e \<in> wait_edges g \<union>
      {(p, d'). p = uf_path f \<and> d' = d \<and> uf_token f \<notin> cancelled g \<and> (\<exists>k. s = AwaitRound k \<and> undone g k)}"
    proof (cases "r' = r")
      case True
      then have "f0 = f'" using e by simp
      then have f0: "uf_path f0 = uf_path f" "uf_token f0 = uf_token f" by (simp_all add: f'_def)
      have "(d', AwaitRound k) = (d, s) \<or> (d', AwaitRound k) \<in> set ws"
        using e(5,6) sub \<open>f0 = f'\<close> by (auto simp: f'_def)
      then show ?thesis
      proof
        assume "(d', AwaitRound k) \<in> set ws"
        then show ?thesis using wait_edgesI [OF f(1) _ f(2), of d' k] e f0 by simp
      qed (use e f0 in auto)
    next
      case False
      then have "frames g r' = Some f0" using e(2) by simp
      then show ?thesis using wait_edgesI [of g r' f0 ws' d' k] e by simp
    qed
  qed
  have "acyclic (wait_edges ?g)"
  proof (cases "uf_token f \<notin> cancelled g \<and> (\<exists>k. s = AwaitRound k \<and> undone g k)")
    case True
    then have "acyclic (insert (uf_path f, d) (wait_edges g))"
      using cyc core_invD(6) [OF C] by (auto simp: acyclic_insert)
    moreover have "wait_edges ?g \<subseteq> insert (uf_path f, d) (wait_edges g)" using edges by auto
    ultimately show ?thesis using acyclic_subset by blast
  next
    case False
    then have "wait_edges ?g \<subseteq> wait_edges g" using edges by auto
    then show ?thesis using core_invD(6) [OF C] acyclic_subset by blast
  qed
  from core_inv_set_frame [OF C f(1) _ shape cur ok' this]
  have "core_inv ?g" by (simp add: f'_def)
  moreover have "refs_inv ?g" using refs_inv_set_frame [OF R f(1), of f'] by (simp add: f'_def)
  ultimately show ?thesis by (simp add: eq graph_inv_def)
qed

lemma inv_set_request_await:
  assumes I: "graph_inv g" and q: "requests g q = Some rq" "i < length (rq_waits rq)" "fst (rq_waits rq ! i) = d"
    and ok: "await_ok g (d, s)"
  shows "graph_inv (set_request_await q i s g)"
proof -
  define rq' where "rq' = rq\<lparr>rq_waits := (rq_waits rq)[i := (d, s)]\<rparr>"
  have C: "core_inv g" and R: "refs_inv g" using I by (simp_all add: graph_inv_def)
  have eq: "set_request_await q i s g = g\<lparr>requests := (requests g)(q \<mapsto> rq')\<rparr>"
    using q by (simp add: set_request_await_def rq'_def)
  have "await_ok g w" if "w \<in> set (rq_waits rq')" for w
    using that ok awaits_invD(2) [OF core_invD(2) [OF C] q(1), of w]
      set_update_subset_insert [of "rq_waits rq" i "(d, s)"]
    unfolding rq'_def by auto
  then have "core_inv (g\<lparr>requests := (requests g)(q \<mapsto> rq')\<rparr>)" by (rule core_inv_set_request [OF C])
  with refs_inv_set_request [OF R q(1), of rq'] show ?thesis by (simp add: eq graph_inv_def rq'_def)
qed

text \<open>The three stretches of \<open>await_unit\<close>.\<close>

lemma await_top_cases:
  assumes I: "graph_inv g" and d: "has_unit g d" and top: "await_top d g = (g', s)"
  obtains "g' = g" "s = AwaitDone True" "is_clean g d"
  | "g' = g" "s = AwaitSpawned" "is_compiling g d"
  | ok where "spawn_unit d g = (g', ok)" "\<not> is_compiling g d" "s = (if ok then AwaitSpawned else AwaitDone False)"
  using top d by (auto simp: await_top_def has_unit_def is_clean_def is_compiling_def
      split: option.splits if_splits prod.splits)

lemma await_top_inv:
  assumes I: "graph_inv g" and d: "has_unit g d" and top: "await_top d g = (g', s)"
  shows "graph_inv g'" and "await_ok g' (d, s)" and "await_fresh g' (d, s)" and "\<And>k. s \<noteq> AwaitRound k"
    and "requests g' = requests g" and "frames g r = Some f \<Longrightarrow> frames g' r = Some f"
proof -
  have C: "core_inv g" and R: "refs_inv g" using I by (simp_all add: graph_inv_def)
  have "graph_inv g' \<and> await_ok g' (d, s) \<and> await_fresh g' (d, s) \<and> (\<forall>k. s \<noteq> AwaitRound k) \<and>
    requests g' = requests g \<and> (\<forall>r f. frames g r = Some f \<longrightarrow> frames g' r = Some f)"
  proof (cases rule: await_top_cases [OF assms])
    case 1
    then show ?thesis using I d by (simp add: await_ok_def await_fresh_def)
  next
    case 2
    then obtain r f where r: "round_of g d = Some r" "frames g r = Some f"
      using rounds_invD(2) [OF core_invD(1) [OF C]] by fastforce
    then have "\<not> succeeded g r"
      using rounds_invD(1) [OF core_invD(1) [OF C]] by (fastforce simp: undone_def succeeded_def split: option.splits)
    with 2 r show ?thesis using I d by (simp add: await_ok_def await_fresh_def)
  next
    case (3 ok)
    note fld = spawn_fields [OF d 3(1)]
    have "graph_inv g'"
      using core_inv_spawn [OF C d 3(2,1)] refs_inv_spawn [OF R C d 3(1)] by (simp add: graph_inv_def)
    moreover have "frames g r = Some f \<Longrightarrow> r < next_round g" for r f
      using rounds_invD(1,5) [OF core_invD(1) [OF C]] by (fastforce simp: undone_def split: option.splits)
    ultimately show ?thesis using 3(3) d
      by (auto simp: await_ok_def await_fresh_def fld succeeded_def)
  qed
  then show "graph_inv g'" "await_ok g' (d, s)" "await_fresh g' (d, s)" "\<And>k. s \<noteq> AwaitRound k"
    "requests g' = requests g" "frames g r = Some f \<Longrightarrow> frames g' r = Some f" by auto
qed

lemma await_check_inv:
  assumes I: "graph_inv g" and ok: "await_ok g (d, AwaitSpawned)" and s: "s = await_check d waiter g"
  shows "await_ok g (d, s)" and "await_fresh g (d, AwaitSpawned) \<Longrightarrow> await_fresh g (d, s)"
    and "s = AwaitRound k \<Longrightarrow> undone g k \<Longrightarrow> waiter = Some w \<Longrightarrow> \<not> has_wait_cycle g d w"
proof -
  have C: "core_inv g" using I by (simp add: graph_inv_def)
  obtain r where r: "round_of g d = Some r" using ok by (auto simp: await_ok_def)
  then have "rounds g r \<noteq> None" using rounds_invD(3) [OF core_invD(1) [OF C]] by simp
  moreover have "\<forall>f. frames g r = Some f \<longrightarrow> uf_path f = d"
    using rounds_invD(1,4) [OF core_invD(1) [OF C]] r by metis
  moreover have "s = AwaitDone False \<or> s = AwaitRound r \<and>
      (undone g r \<longrightarrow> (case waiter of None \<Rightarrow> True | Some w \<Rightarrow> \<not> has_wait_cycle g d w))"
    using s r by (auto simp: await_check_def round_of_def undone_def split: option.splits if_splits)
  ultimately show "await_ok g (d, s)" "await_fresh g (d, AwaitSpawned) \<Longrightarrow> await_fresh g (d, s)"
    "s = AwaitRound k \<Longrightarrow> undone g k \<Longrightarrow> waiter = Some w \<Longrightarrow> \<not> has_wait_cycle g d w"
    using ok r by (auto simp: await_ok_def await_fresh_def)
qed

text \<open>
  A wait edge is a dependency edge between compiling units, so a path of wait edges back to the
  waiter is one that \<open>has_wait_cycle\<close> finds.
\<close>

lemma wait_edge_dep:
  assumes C: "core_inv g" and e: "(p, d) \<in> wait_edges g"
  shows "d \<in> set (deps_of g p)" and "is_compiling g d" and "is_compiling g p"
proof -
  obtain r f ws k where f: "frames g r = Some f" "uf_path f = p" "uf_token f \<notin> cancelled g"
    "uf_stage f = Waiting ws" and w: "(d, AwaitRound k) \<in> set ws" "undone g k"
    using e unfolding wait_edges_def by blast
  have fi: "frame_shape f" "frame_current g f" using frames_invD [OF core_invD(5) [OF C] f(1)] by auto
  have "deps_of g p = uf_acquired f" using fi(2) f by (simp add: frame_current_def)
  then show "d \<in> set (deps_of g p)" using frame_shape_acquired [OF fi(1) f(4) w(1)] by simp
  obtain f' where f': "frames g k = Some f'" using rounds_invD(6) [OF core_invD(1) [OF C] w(2)] by blast
  have "await_ok g (d, AwaitRound k)" using awaits_invD(1) [OF core_invD(2) [OF C] f(1,4) w(1)] .
  then have "uf_path f' = d" using f' by (auto simp: await_ok_def)
  then show "is_compiling g d" using rounds_invD(1) [OF core_invD(1) [OF C] f'] by simp
  show "is_compiling g p" using rounds_invD(1) [OF core_invD(1) [OF C] f(1)] f(2) by simp
qed

lemma wait_path_cycle:
  assumes C: "core_inv g" and p: "(d, p) \<in> (wait_edges g)\<^sup>+"
  shows "has_wait_cycle g d p"
proof -
  obtain x where x: "(d, x) \<in> (wait_edges g)\<^sup>*" "(x, p) \<in> wait_edges g"
    using p by (meson tranclD2)
  have "wait_edges g \<subseteq> nexts_of (compiling_deps g)"
    using wait_edge_dep [OF C]
    by (force simp: compiling_deps_def deps_of_def is_compiling_def split: option.splits)
  then have "(d, x) \<in> (nexts_of (compiling_deps g))\<^sup>*" using x(1) rtrancl_mono by blast
  moreover have "depends_on g x p"
    using wait_edge_dep(1) [OF C x(2)] by (cases "units g x") (simp_all add: depends_on_def deps_of_def)
  ultimately show ?thesis unfolding has_wait_cycle_iff by blast
qed

lemma inv_unit_join:
  assumes I: "graph_inv g" and f: "frames g r = Some f" "uf_stage f = Waiting ws"
  shows "graph_inv (unit_join r g)"
proof (cases "list_all id (await_results ws)")
  case True
  define f' where "f' = f\<lparr>uf_stage := Dispatching\<rparr>"
  let ?g = "g\<lparr>frames := (frames g)(r \<mapsto> f')\<rparr>"
  have C: "core_inv g" and R: "refs_inv g" using I by (simp_all add: graph_inv_def)
  have fi: "frame_shape f" "frame_current g f" using frames_invD [OF core_invD(5) [OF C] f(1)] by auto
  have fin: "snd w = AwaitDone True" if "w \<in> set ws" for w
    using True that by (auto simp: await_results_def list_all_iff)
  have "stage_fresh g f'" if "stage_fresh g f"
  proof -
    have "is_clean g (fst w)" if "w \<in> set ws" for w
      using \<open>stage_fresh g f\<close> fin [OF that] that f(2) by (force simp: stage_fresh_def await_fresh_def)
    moreover have "uf_acquired f = map fst ws" using fi(1) f(2) by (simp add: frame_shape_def)
    ultimately show ?thesis by (auto simp: stage_fresh_def f'_def)
  qed
  then have cur: "frame_current g f'" using fi(2) f(2) by (auto simp: frame_current_def f'_def)
  have shape: "frame_shape f'" using fi(1) by (simp add: frame_shape_def f'_def)
  have "wait_edges ?g \<subseteq> wait_edges g" by (auto simp: wait_edges_def f'_def split: if_splits)
  then have "acyclic (wait_edges ?g)" using core_invD(6) [OF C] acyclic_subset by blast
  then have "core_inv ?g" using core_inv_set_frame [OF C f(1) _ shape cur] by (simp add: f'_def)
  moreover have "refs_inv ?g" using refs_inv_set_frame [OF R f(1), of f'] by (simp add: f'_def)
  moreover have "unit_join r g = ?g" using True f by (simp add: unit_join_def f'_def)
  ultimately show ?thesis by (simp add: graph_inv_def)
next
  case False
  then have "unit_join r g = unit_guard_exit r Failed g" using f by (simp add: unit_join_def)
  then show ?thesis using inv_guard_exit [OF I f(1), of Failed] by simp
qed

lemma inv_unit_dispatched:
  assumes I: "graph_inv g" and f: "frames g r = Some f" "uf_stage f = Dispatching"
  shows "graph_inv (unit_dispatched r ok g)"
proof -
  let ?p = "uf_path f"
  have C: "core_inv g" and R: "refs_inv g" using I by (simp_all add: graph_inv_def)
  have "has_unit g ?p"
    using rounds_invD(1) [OF core_invD(1) [OF C] f(1)] by (auto simp: is_compiling_def has_unit_def split: option.splits)
  then obtain u where u: "units g ?p = Some u" by (auto simp: has_unit_def)
  consider "\<not> ok" | "ok" "cu_generation u \<noteq> uf_gen f" | "ok" "cu_generation u = uf_gen f" by blast
  then show ?thesis
  proof cases
    case 3
    let ?g = "modify_unit ?p (\<lambda>u. u\<lparr>cu_dirty := False\<rparr>) g"
    have "frame_current g f" using frames_invD [OF core_invD(5) [OF C] f(1)] by simp
    then have res: "is_resolved g ?p" "\<forall>d \<in> set (deps_of g ?p). is_clean g d"
      using 3 u f(2) by (auto simp: frame_current_def generation_of_def stage_fresh_def)
    have "graph_inv ?g"
      using core_inv_set_clean [OF C res] R
      by (auto simp: graph_inv_def fun_eq_iff refcount_def units_modify_unit split: option.split intro!: refs_inv_same [of g])
    then have "graph_inv (unit_guard_exit r Success ?g)"
      using inv_guard_exit [of ?g r f Success] f(1) u by (simp add: is_clean_def units_modify_unit)
    then show ?thesis using 3 f u by (simp add: unit_dispatched_def)
  qed (use inv_guard_exit [OF I f(1), of Failed] inv_guard_exit [OF I f(1), of Stale] f u
      in \<open>simp_all add: unit_dispatched_def\<close>)
qed

lemma inv_zero_interest_check:
  assumes "graph_inv g"
  shows "graph_inv (zero_interest_check p (g\<lparr>zero_checks := zs\<rparr>))"
proof (cases "units g p")
  case None
  then show ?thesis using inv_mild [OF assms mild_zero_checks] by (simp add: zero_interest_check_def refcount_def fun_eq_iff)
next
  case (Some u)
  let ?g = "modify_unit p (\<lambda>u. u\<lparr>cu_zero_check_pending := False\<rparr>) (g\<lparr>zero_checks := zs\<rparr>)"
  have "mild g ?g"
    by (rule mild_trans [OF mild_zero_checks mild_modify]) (simp add: interest_only_def)
  moreover have "refcount ?g = refcount g"
    by (auto simp: fun_eq_iff refcount_def units_modify_unit split: option.split)
  ultimately have "graph_inv ?g" using inv_mild assms by blast
  then show ?thesis using Some inv_cancel_round by (simp add: zero_interest_check_def Let_def)
qed

lemma inv_ref_guard:
  assumes "graph_inv g" and "requests g q = None"
  shows "graph_inv (ref_guard q ids g)"
proof -
  let ?g = "fold acquire ids g"
  have C: "core_inv ?g" using assms(1) core_inv_mild [OF mild_acquires] by (simp add: graph_inv_def)
  have "core_inv (ref_guard q ids g)"
    unfolding ref_guard_def Let_def
    by (rule core_inv_set_request [OF C]) (auto simp: await_ok_def)
  then show ?thesis using refs_inv_ref_guard assms by (simp add: graph_inv_def)
qed

lemma inv_ref_guard_exit:
  assumes "graph_inv g" and q: "requests g q = Some rq"
  shows "graph_inv (ref_guard_exit q g)"
proof -
  let ?g = "fold release (rq_held rq) g"
  let ?g' = "?g\<lparr>requests := (requests ?g)(q := None)\<rparr>"
  have C: "core_inv ?g" using assms(1) core_inv_mild [OF mild_releases] by (simp add: graph_inv_def)
  have "await_ok ?g w \<Longrightarrow> await_ok ?g' w" for w
    by (auto simp: await_ok_def split: await_state.splits)
  then have "awaits_inv ?g'"
    using awaits_invD [OF core_invD(2) [OF C]] by (intro awaits_invI) (auto split: if_splits)
  moreover have "wait_edges ?g' = wait_edges ?g" by (simp add: wait_edges_def)
  ultimately have "core_inv ?g'"
    using C by (simp add: core_inv_def edges_inv_def clean_inv_def rounds_inv_def frames_inv_def)
  then show ?thesis
    using refs_inv_ref_guard_exit assms by (simp add: graph_inv_def ref_guard_exit_def Let_def)
qed

lemma inv_compile_deps:
  assumes "graph_inv g" and "requests g q = None"
  shows "graph_inv (compile_deps resolve q p g)"
proof -
  let ?g = "ensure_resolved resolve p g"
  have "graph_inv ?g" "requests ?g q = None"
    using assms ensure_resolved_fields [of resolve p g, OF refl] by (simp_all add: inv_ensure_resolved)
  then show ?thesis
    by (auto simp: compile_deps_def Let_def inv_ref_guard split: option.split)
qed

lemma inv_update: "graph_inv g \<Longrightarrow> graph_inv (fst (update p g))"
proof (cases "has_unit g p")
  case True
  assume I: "graph_inv g"
  obtain g' ds where u: "update p g = (g', ds)" by fastforce
  show ?thesis
    using I core_inv_update [of g p] update_fields(5,6) [OF True u] update_units(2) [OF True u] u
    by (auto simp: graph_inv_def same_runtime_def fun_eq_iff intro!: refs_inv_same [of g])
qed (simp add: update_missing)

lemma frame_await_ok:
  assumes "graph_inv g" and "frames g r = Some f" and "uf_stage f = Waiting ws" and "i < length ws" and "ws ! i = w"
  shows "w \<in> set ws" and "await_ok g w"
proof -
  show "w \<in> set ws" using assms(4,5) nth_mem by metis
  then show "await_ok g w"
    using awaits_invD(1) [of g r f ws w] assms by (simp add: graph_inv_def core_inv_def)
qed

lemma request_await_ok:
  assumes "graph_inv g" and "requests g q = Some rq" and "i < length (rq_waits rq)" and "rq_waits rq ! i = w"
  shows "await_ok g w"
proof -
  have "w \<in> set (rq_waits rq)" using assms(3,4) nth_mem by metis
  then show ?thesis using awaits_invD(2) [of g q rq w] assms by (simp add: graph_inv_def core_inv_def)
qed

theorem internal_step_inv:
  assumes "internal_step g g'" and I: "graph_inv g"
  shows "graph_inv g'"
  using assms(1)
proof cases
  case (enter r f resolve)
  then show ?thesis using inv_unit_enter I by blast
next
  case (frame_top r f ws i d g1 s)
  have d: "has_unit g d" using frame_await_ok(2) [OF I frame_top(2-5)] by (simp add: await_ok_def)
  note top = await_top_inv [OF I d frame_top(6)]
  have "frames g1 r = Some f" using top(6) frame_top(2) .
  then show ?thesis
    unfolding frame_top(1) using top(1-4) frame_top
    by (intro inv_set_frame_await [where d = d]) auto
next
  case (frame_check r f ws i d)
  let ?s = "await_check d (Some (uf_path f)) g"
  have C: "core_inv g" using I by (simp add: graph_inv_def)
  note mem = frame_await_ok(1) [OF I frame_check(2-5)]
  note ok = frame_await_ok(2) [OF I frame_check(2-5)]
  note chk = await_check_inv [OF I ok refl, of "Some (uf_path f)"]
  have "d \<noteq> uf_path f"
    using frame_shape_acquired [OF _ frame_check(3) mem] frames_invD [OF core_invD(5) [OF C] frame_check(2)]
    by (auto simp: frame_shape_def)
  then have "(d, uf_path f) \<notin> (wait_edges g)\<^sup>*" if "?s = AwaitRound k" "undone g k" for k
    using chk(3) [OF that] wait_path_cycle [OF C] by (auto dest: rtranclD)
  moreover have "await_fresh g (d, ?s)" if "stage_fresh g f"
    using that mem frame_check(3) chk(2) by (auto simp: stage_fresh_def)
  ultimately show ?thesis
    unfolding frame_check(1) using frame_check chk(1) I
    by (intro inv_set_frame_await [where d = d]) auto
next
  case (frame_wake r f ws i d k rd)
  note mem = frame_await_ok(1) [OF I frame_wake(2-5)]
  note ok = frame_await_ok(2) [OF I frame_wake(2-5)]
  have "await_fresh g (d, await_wake (round_outcome rd))" if "stage_fresh g f"
  proof -
    have "await_fresh g (d, AwaitRound k)" using that mem frame_wake(3) by (auto simp: stage_fresh_def)
    then show ?thesis using frame_wake(6,7)
      by (auto simp: await_fresh_def await_wake_def succeeded_def split: outcome.split)
  qed
  moreover have "await_ok g (d, await_wake (round_outcome rd))"
    using ok by (auto simp: await_ok_def await_wake_def split: outcome.split)
  ultimately show ?thesis
    unfolding frame_wake(1) using frame_wake I
    by (intro inv_set_frame_await [where d = d]) (auto simp: await_wake_def split: outcome.splits)
next
  case (request_top q rq i d g1 s)
  have d: "has_unit g d" using request_await_ok [OF I request_top(2-4)] by (simp add: await_ok_def)
  note top = await_top_inv [OF I d request_top(5)]
  show ?thesis
    unfolding request_top(1) using top(1,2,5) request_top
    by (intro inv_set_request_await [where d = d]) auto
next
  case (request_check q rq i d)
  show ?thesis
    unfolding request_check(1)
    using request_check I await_check_inv(1) [OF I request_await_ok [OF I request_check(2-4)] refl]
    by (intro inv_set_request_await [where d = d]) auto
next
  case (request_wake q rq i d k rd)
  have "await_ok g (d, await_wake (round_outcome rd))"
    using request_await_ok [OF I request_wake(2-4)]
    by (auto simp: await_ok_def await_wake_def split: outcome.split)
  then show ?thesis
    unfolding request_wake(1) using request_wake I by (intro inv_set_request_await [where d = d]) auto
next
  case (zero_check_dropped p)
  then show ?thesis
    using inv_mild [OF I mild_zero_checks] by (simp add: refcount_def fun_eq_iff)
qed (use I in \<open>auto intro: inv_unit_join inv_unit_dispatched inv_guard_exit inv_zero_interest_check
    inv_ref_guard_exit\<close>)

theorem client_step_inv:
  assumes "client_step g g'" and I: "graph_inv g"
  shows "graph_inv g'"
  using assms(1)
proof cases
  case call_cancel_all
  then show ?thesis
    using I core_inv_cancel_all [of g]
    by (auto simp: graph_inv_def fun_eq_iff field_defs cancel_all_def split: option.split intro!: refs_inv_same [of g])
next
  case call_shutdown
  have "mild g (g\<lparr>closing := closing g\<rparr>)" by simp
  moreover have "core_inv g'"
    unfolding call_shutdown shutdown_def
    by (rule core_inv_tokens) (use I in \<open>auto simp: graph_inv_def field_defs fun_eq_iff\<close>)
  ultimately show ?thesis
    using I unfolding call_shutdown shutdown_def
    by (auto simp: graph_inv_def refcount_def fun_eq_iff has_unit_def intro!: refs_inv_same [of g])
qed (use I in \<open>auto simp: compile_def intro: inv_ref_guard inv_compile_deps inv_ref_guard_exit inv_update\<close>)

interpretation graph: safe_system "\<lambda>g. g = empty_graph" step graph_inv
  by unfold_locales (auto simp: step_def inv_empty intro: internal_step_inv client_step_inv)

section \<open>Progress\<close>

text \<open>Some waiter of a list that is not all done, and the step it enables.\<close>

lemma not_all_done:
  assumes "\<not> list_all await_done ws"
  obtains i where "i < length ws" "\<not> await_done (ws ! i)"
  using assms by (auto simp: list_all_length)

lemma frame_progress:
  assumes I: "graph_inv g" and f: "frames g r = Some f"
  shows "\<exists>g'. internal_step g g'"
proof -
  have C: "core_inv g" using I by (simp add: graph_inv_def)
  have "wf ((wait_edges g)\<inverse>)"
    using core_invD(6) [OF C] by (intro finite_acyclic_wf_converse) auto
  then show ?thesis using f
  proof (induction "uf_path f" arbitrary: r f rule: wf_induct_rule)
    case (less f r)
    show ?case
    proof (cases "uf_stage f")
      case (Waiting ws)
      consider "uf_token f \<in> cancelled g" | "list_all await_done ws"
        | i where "uf_token f \<notin> cancelled g" "i < length ws" "\<not> await_done (ws ! i)"
        using not_all_done by blast
      then show ?thesis
      proof cases
        case 3
        obtain d s where w: "ws ! i = (d, s)" by fastforce
        note ok = frame_await_ok [OF I less.prems Waiting 3(2) w]
        show ?thesis
        proof (cases s)
          case AwaitLoop
          obtain g' s' where "await_top d g = (g', s')" by fastforce
          then show ?thesis using frame_top [OF less.prems Waiting 3(2)] w AwaitLoop by blast
        next
          case AwaitSpawned
          then show ?thesis using frame_check [OF less.prems Waiting 3(2)] w by blast
        next
          case (AwaitRound k)
          then obtain rd where rd: "rounds g k = Some rd" using ok(2) by (auto simp: await_ok_def)
          show ?thesis
          proof (cases "completion rd")
            case True
            then show ?thesis using frame_wake [OF less.prems Waiting 3(2)] w AwaitRound rd by blast
          next
            case False
            then have und: "undone g k" using rd by (simp add: undone_def)
            then obtain f' where f': "frames g k = Some f'" using rounds_invD(6) [OF core_invD(1) [OF C]] by blast
            then have "uf_path f' = d" using ok(2) AwaitRound by (auto simp: await_ok_def)
            moreover have "(uf_path f, d) \<in> wait_edges g"
              using wait_edgesI [OF less.prems 3(1) Waiting _ und] ok(1) AwaitRound by simp
            ultimately show ?thesis using less.hyps f' by blast
          qed
        next
          case (AwaitDone b)
          then show ?thesis using 3 w by (simp add: await_done_def)
        qed
      qed (use internal_step.unwind [OF less.prems] internal_step.join [OF less.prems] Waiting in auto)
    qed (use less.prems in \<open>auto intro: internal_step.enter internal_step.dispatched\<close>)
  qed
qed

lemma request_progress:
  assumes I: "graph_inv g" and q: "requests g q = Some rq"
  shows "\<exists>g'. internal_step g g'"
proof (cases "list_all await_done (rq_waits rq)")
  case True
  then show ?thesis using internal_step.request_return [OF q] by blast
next
  case False
  then obtain i where i: "i < length (rq_waits rq)" "\<not> await_done (rq_waits rq ! i)"
    using not_all_done by blast
  obtain d s where w: "rq_waits rq ! i = (d, s)" by fastforce
  note ok = request_await_ok [OF I q i(1) w]
  show ?thesis
  proof (cases s)
    case AwaitLoop
    obtain g' s' where "await_top d g = (g', s')" by fastforce
    then show ?thesis using request_top [OF q i(1)] w AwaitLoop by blast
  next
    case AwaitSpawned
    then show ?thesis using request_check [OF q i(1)] w by blast
  next
    case (AwaitRound k)
    then obtain rd where rd: "rounds g k = Some rd" using ok by (auto simp: await_ok_def)
    have C: "core_inv g" using I by (simp add: graph_inv_def)
    show ?thesis
    proof (cases "completion rd")
      case True
      then show ?thesis using request_wake [OF q i(1)] w AwaitRound rd by blast
    next
      case False
      then have "undone g k" using rd by (simp add: undone_def)
      then obtain f where "frames g k = Some f" using rounds_invD(6) [OF core_invD(1) [OF C]] by blast
      then show ?thesis using frame_progress [OF I] by blast
    qed
  next
    case (AwaitDone b)
    then show ?thesis using i w by (simp add: await_done_def)
  qed
qed

section \<open>Properties\<close>

text \<open>
  A run used by the witnesses: unit 1 imports unit 2, and a request compiles unit 1. After nine
  steps both units are clean; in \<open>demo5\<close> unit 1 is blocked on the round of unit 2.
\<close>

definition demo_resolve :: "path_id \<Rightarrow> path_id list" where
  "demo_resolve p = (if p = 1 then [2] else [])"

definition demo0 :: compile_graph where "demo0 = compile 0 1 empty_graph"
definition demo1 :: compile_graph where "demo1 = set_request_await 0 0 AwaitSpawned (fst (await_top 1 demo0))"
definition demo2 :: compile_graph where "demo2 = unit_enter demo_resolve 0 demo1"
definition demo3 :: compile_graph where "demo3 = set_frame_await 0 0 AwaitSpawned (fst (await_top 2 demo2))"
definition demo4 :: compile_graph where "demo4 = unit_enter demo_resolve 1 demo3"
definition demo5 :: compile_graph where "demo5 = set_frame_await 0 0 (await_check 2 (Some 1) demo4) demo4"
definition demo6 :: compile_graph where "demo6 = unit_dispatched 1 True demo5"
definition demo7 :: compile_graph where "demo7 = set_frame_await 0 0 (await_wake Success) demo6"
definition demo8 :: compile_graph where "demo8 = unit_join 0 demo7"
definition demo9 :: compile_graph where "demo9 = unit_dispatched 0 True demo8"

lemmas demo_defs = empty_graph_def compile_def ref_guard_def acquire_def index_unit_def modify_unit_def
  new_unit_def Let_def set_request_await_def set_frame_await_def await_top_def spawn_unit_def
  unit_enter_def ensure_resolved_def add_dependent_def demo_resolve_def await_check_def await_wake_def
  unit_join_def await_results_def unit_dispatched_def unit_guard_exit_def release_def
  has_wait_cycle_def depends_on_def compiling_deps_def
lemmas demo_eqs = demo_defs demo9_def demo8_def demo7_def demo6_def demo5_def demo4_def demo3_def
  demo2_def demo1_def demo0_def

lemma reachable_empty: "reachable empty_graph"
  by (rule reached_init) simp

lemma reachable_client: "reachable g \<Longrightarrow> client_step g g' \<Longrightarrow> reachable g'"
  by (auto simp: step_def intro: reached_step)

lemma reachable_internal: "reachable g \<Longrightarrow> internal_step g g' \<Longrightarrow> reachable g'"
  by (auto simp: step_def intro: reached_step)

lemma reachable_demo1: "reachable demo1"
proof -
  have "reachable demo0"
    unfolding demo0_def
    by (rule reachable_client [OF reachable_empty call_compile]) (simp add: empty_graph_def)
  moreover have "internal_step demo0 demo1"
    unfolding demo1_def
    by (rule request_top [of demo0 0 "the (requests demo0 0)" 0 1]) (simp_all add: demo_eqs)
  ultimately show ?thesis by (rule reachable_internal)
qed

lemma reachable_demo5: "reachable demo5"
proof -
  have "internal_step demo1 demo2"
    unfolding demo2_def by (rule enter [of _ _ "the (frames demo1 0)"]) (simp_all add: demo_eqs)
  moreover have "internal_step demo2 demo3"
    unfolding demo3_def
    by (rule frame_top [of demo2 0 "the (frames demo2 0)" "[(2, AwaitLoop)]" 0 2]) (simp_all add: demo_eqs)
  moreover have "internal_step demo3 demo4"
    unfolding demo4_def by (rule enter [of _ _ "the (frames demo3 1)"]) (simp_all add: demo_eqs)
  moreover have "internal_step demo4 demo5"
  proof -
    let ?f = "the (frames demo4 0)"
    have "frames demo4 0 = Some ?f" "uf_stage ?f = Waiting [(2, AwaitSpawned)]" "uf_path ?f = 1"
      by (simp_all add: demo_eqs)
    then show ?thesis unfolding demo5_def using frame_check [of demo4 0 ?f _ 0 2] by simp
  qed
  ultimately show ?thesis using reachable_demo1 reachable_internal by blast
qed

lemma reachable_demo9: "reachable demo9"
proof -
  have "internal_step demo5 demo6"
    unfolding demo6_def by (rule dispatched [of _ _ "the (frames demo5 1)"]) (simp_all add: demo_eqs)
  moreover have "internal_step demo6 demo7"
  proof -
    let ?f = "the (frames demo6 0)" and ?rd = "\<lparr>completion = True, round_outcome = Success\<rparr>"
    have "frames demo6 0 = Some ?f" "uf_stage ?f = Waiting [(2, AwaitRound 1)]" "rounds demo6 1 = Some ?rd"
      by (simp_all add: demo_eqs)
    then show ?thesis unfolding demo7_def using frame_wake [of demo6 0 ?f _ 0 2 1 ?rd] by simp
  qed
  moreover have "internal_step demo7 demo8"
    unfolding demo8_def
    by (rule join [of _ _ "the (frames demo7 0)" "[(2, AwaitDone True)]"]) (simp_all add: demo_eqs await_done_def)
  moreover have "internal_step demo8 demo9"
    unfolding demo9_def by (rule dispatched [of _ _ "the (frames demo8 0)"]) (simp_all add: demo_eqs)
  ultimately show ?thesis using reachable_demo5 reachable_internal by blast
qed

text \<open>
  C1: in every reachable state a clean unit has only clean units among its transitive dependencies:
  a finished compilation is never left standing on a dependency that an update invalidated.
\<close>

theorem clean_units_closed:
  assumes "reachable g" and "is_clean g p" and "(p, d) \<in> (nexts_of (deps_of g))\<^sup>*"
  shows "is_clean g d"
proof -
  have "clean_inv g" using graph.reached_good [OF assms(1)] by (simp add: graph_inv_def core_inv_def)
  then show ?thesis
    using closed_reach [of p "{x. is_clean g x}" "deps_of g" d] assms(2,3) by (auto simp: clean_inv_def)
qed

theorem clean_units_closed_witness: "is_clean demo9 1 \<and> 2 \<in> set (deps_of demo9 1) \<and> is_clean demo9 2"
proof -
  have c: "is_clean demo9 1" "2 \<in> set (deps_of demo9 1)" by (simp_all add: demo_eqs field_defs)
  then have "(1, 2) \<in> (nexts_of (deps_of demo9))\<^sup>*" by auto
  with c clean_units_closed [OF reachable_demo9 c(1)] show ?thesis by blast
qed

text \<open>
  C3: no reachable state with a live task or request is stuck, whatever cycles the imports have: the
  units that tasks wait for never form a cycle, and some task or request can take a step.
\<close>

theorem compile_graph_progress:
  assumes "reachable g" and "frames g \<noteq> Map.empty \<or> requests g \<noteq> Map.empty"
  shows "acyclic (wait_edges g) \<and> (\<exists>g'. internal_step g g')"
proof -
  have I: "graph_inv g" using graph.reached_good [OF assms(1)] .
  moreover from assms(2) have "(\<exists>r f. frames g r = Some f) \<or> (\<exists>q rq. requests g q = Some rq)"
    by (auto simp: fun_eq_iff)
  ultimately show ?thesis
    using frame_progress request_progress by (auto simp: graph_inv_def core_inv_def)
qed

theorem compile_graph_progress_witness:
  "(1, 2) \<in> wait_edges demo5 \<and> acyclic (wait_edges demo5) \<and> (\<exists>g'. internal_step demo5 g')"
proof -
  have "frames demo5 0 \<noteq> None" by (simp add: demo_eqs)
  then have "frames demo5 \<noteq> Map.empty" by auto
  moreover have "(1, 2) \<in> wait_edges demo5"
    by (auto simp: wait_edges_def demo_eqs undone_def intro!: exI [of _ 0])
  ultimately show ?thesis using compile_graph_progress [OF reachable_demo5] by blast
qed

text \<open>
  C6: the interest count of every unit is exactly the number of references held by running unit
  tasks and by requests; the graph's own \<open>consistent\<close> check holds in every reachable state, and
  once no task and no request is left, \<open>idle\<close> holds.
\<close>

theorem interest_counts_exact:
  assumes "reachable g"
  shows "refcount g p = of_nat (holders g p) \<and> consistent g \<and>
    (frames g = Map.empty \<longrightarrow> requests g = Map.empty \<longrightarrow> idle g)"
proof -
  have I: "graph_inv g" using graph.reached_good [OF assms] .
  then have R: "refs_inv g" and C: "rounds_inv g" by (simp_all add: graph_inv_def core_inv_def)
  have "round_of g q \<noteq> None \<and> \<not> round_done g (round_of g q)" if "is_compiling g q" for q
    using rounds_invD(1,2) [OF C] that
    by (fastforce simp: round_done_def undone_def split: option.splits)
  then have "consistent g"
    unfolding consistent_def is_compiling_def round_of_def by (metis option.simps(5))
  moreover have "idle g" if empty: "frames g = Map.empty" "requests g = Map.empty"
  proof -
    have "refcount g q = 0" for q using refs_invD(3) [OF R, of q] empty by (simp add: holders_def)
    moreover have "\<not> is_compiling g q" for q using rounds_invD(2) [OF C, of q] empty by auto
    moreover have "round_done g (round_of g q)" for q
      using rounds_invD(3,6) [OF C] empty
      by (cases "round_of g q") (fastforce simp: round_done_def undone_def split: option.splits)+
    ultimately show ?thesis
      unfolding idle_def refcount_def is_compiling_def round_of_def by (metis option.simps(5))
  qed
  ultimately show ?thesis using refs_invD(3) [OF R] by blast
qed

theorem interest_counts_exact_witness:
  "refcount demo5 2 = 1 \<and> holders demo5 2 = 1 \<and> consistent demo5"
proof -
  have "refcount demo5 2 = 1" by (simp add: demo_eqs refcount_def)
  moreover have "holders demo5 2 = 1" by (simp add: demo_eqs holders_def msum_def)
  ultimately show ?thesis using interest_counts_exact [OF reachable_demo5, of 2] by simp
qed

text \<open>
  C7: \<open>update\<close> on a file marks exactly the units that transitively depend on it, each once, and nothing when the
  file has no unit. A marked unit becomes dirty with a new generation and a new token, the tokens cancelled are exactly
  those the marked units had, and the unit of the file itself loses its resolved flag and its dependencies. All other
  units keep every field, but that the file is taken out of the dependents of its dependencies; interest counts,
  rounds, tasks and requests are untouched.
\<close>

theorem update_marks_dependents:
  assumes "update p g = (g', ds)"
  shows "distinct ds \<and> set ds = {x. has_unit g p \<and> (p, x) \<in> (nexts_of (dependents_of g))\<^sup>* \<and> has_unit g x}
    \<and> (\<forall>x. \<exists>s. units g' x = map_option (\<lambda>u.
         (if x \<in> set ds then u\<lparr>cu_dirty := True, cu_generation := Suc (cu_generation u), cu_source := s,
            cu_resolved := cu_resolved u \<and> x \<noteq> p, cu_dependencies := (if x = p then [] else cu_dependencies u)\<rparr> else u)
         \<lparr>cu_dependents := (if x \<in> set (deps_of g p) then filter (\<lambda>y. y \<noteq> p) (cu_dependents u) else cu_dependents u)\<rparr>) (units g x))
    \<and> cancelled g' = cancelled g \<union> {t. \<exists>x \<in> set ds. source_of g x = Some t}
    \<and> rounds g' = rounds g \<and> frames g' = frames g \<and> requests g' = requests g \<and> zero_checks g' = zero_checks g \<and> closing g' = closing g"
proof (cases "has_unit g p")
  case True
  note d = update_dirtied [OF True] and st = update_units [OF True assms]
  have ds: "distinct ds" "set ds = {x. (p, x) \<in> (nexts_of (dependents_of g))\<^sup>* \<and> has_unit g x}" using d assms by auto
  then have p: "p \<in> set ds" using True by simp
  have "\<exists>s. units g' x = map_option (\<lambda>u.
         (if x \<in> set ds then u\<lparr>cu_dirty := True, cu_generation := Suc (cu_generation u), cu_source := s,
            cu_resolved := cu_resolved u \<and> x \<noteq> p, cu_dependencies := (if x = p then [] else cu_dependencies u)\<rparr> else u)
         \<lparr>cu_dependents := (if x \<in> set (deps_of g p) then filter (\<lambda>y. y \<noteq> p) (cu_dependents u) else cu_dependents u)\<rparr>) (units g x)" for x
  proof -
    obtain s where "units g' x = map_option (\<lambda>u. if x \<in> set ds then dirtied_unit s (cleared_unit p (deps_of g p) x u)
        else cleared_unit p (deps_of g p) x u) (units g x)" using st(1) by blast
    then show ?thesis using p by (intro exI [of _ s]) (cases "units g x"; auto simp: dirtied_unit_def cleared_unit_def)
  qed
  moreover have "(\<Union>x \<in> set ds. set_option (source_of g x)) = {t. \<exists>x \<in> set ds. source_of g x = Some t}"
    by (auto simp: elem_set)
  ultimately show ?thesis using ds True st(2,3) by (simp add: same_runtime_def)
next
  case False
  then have "g' = g" "ds = []" using assms by (simp_all add: update_missing)
  moreover have "deps_of g p = []" using False by (simp add: deps_of_def has_unit_def)
  ultimately show ?thesis using False by (simp add: option.map_ident)
qed

theorem update_marks_dependents_witness:
  "set (snd (update 2 demo9)) = {x. has_unit demo9 2 \<and> (2, x) \<in> (nexts_of (dependents_of demo9))\<^sup>* \<and> has_unit demo9 x}
    \<and> snd (update 2 demo9) = [2, 1] \<and> rounds (fst (update 2 demo9)) = rounds demo9"
proof -
  have u: "snd (update 2 demo9) = [2, 1]"
    by (simp add: demo_eqs update_def update_unit_def clear_edges_def mark_dirty_def cancel_round_def
        dependents_of_def)
  have "update 2 demo9 = (fst (update 2 demo9), [2, 1])" using u by (metis prod.collapse)
  from update_marks_dependents [OF this] show ?thesis using u by auto
qed

text \<open>
  \<open>has_wait_cycle\<close> answers exactly whether the unit about to wait is a dependency of a unit that
  the target reaches through dependencies that are being compiled.
\<close>

theorem has_wait_cycle_correct:
  "has_wait_cycle g target waiter \<longleftrightarrow>
     (\<exists>x. (target, x) \<in> (nexts_of (compiling_deps g))\<^sup>* \<and> waiter \<in> set (deps_of g x))"
proof -
  have "depends_on g x waiter \<longleftrightarrow> waiter \<in> set (deps_of g x)" for x
    by (cases "units g x") (simp_all add: depends_on_def deps_of_def)
  then show ?thesis by (simp add: has_wait_cycle_iff)
qed

text \<open>
  When a dispatched compilation returns successfully, its round is published as a success
  exactly when no update touched the unit since the task read its generation; only then the unit
  becomes clean, and otherwise the round is published as stale and the unit keeps its dirty flag.
\<close>

theorem dispatch_publishes_fresh_results:
  assumes "reachable g" and "frames g r = Some f" and "uf_stage f = Dispatching"
  shows "(let g' = unit_dispatched r True g; fresh = (generation_of g (uf_path f) = uf_gen f) in
      rounds g' r = Some \<lparr>completion = True, round_outcome = (if fresh then Success else Stale)\<rparr>
      \<and> (is_clean g' (uf_path f) \<longleftrightarrow> fresh \<or> is_clean g (uf_path f)) \<and> \<not> is_compiling g' (uf_path f))"
proof -
  have "is_compiling g (uf_path f)"
    using rounds_invD(1) graph.reached_good [OF assms(1)] assms(2) by (simp add: graph_inv_def core_inv_def)
  then obtain u where u: "units g (uf_path f) = Some u" by (auto simp: is_compiling_def split: option.splits)
  let ?m = "modify_unit (uf_path f) (\<lambda>u. u\<lparr>cu_dirty := False\<rparr>) g"
  have m: "frames ?m r = Some f" "rounds ?m = rounds g" "is_clean ?m (uf_path f)"
    using assms(2) u by (simp_all add: is_clean_def units_modify_unit)
  show ?thesis
  proof (cases "cu_generation u = uf_gen f")
    case True
    then have "unit_dispatched r True g = unit_guard_exit r Success ?m"
      using assms(2) u by (simp add: unit_dispatched_def)
    with True u m guard_exit_fields [OF m(1) refl, of Success] show ?thesis
      by (simp add: Let_def generation_of_def)
  next
    case False
    then have "unit_dispatched r True g = unit_guard_exit r Stale g"
      using assms(2) u by (simp add: unit_dispatched_def)
    with False u guard_exit_fields [OF assms(2) refl, of Stale] show ?thesis
      by (simp add: Let_def generation_of_def)
  qed
qed

theorem dispatch_publishes_fresh_results_witness:
  "\<exists>f. frames demo5 1 = Some f \<and> uf_stage f = Dispatching
     \<and> rounds (unit_dispatched 1 True demo5) 1 = Some \<lparr>completion = True, round_outcome = Success\<rparr>"
proof -
  let ?f = "the (frames demo5 1)"
  have f: "frames demo5 1 = Some ?f" "uf_stage ?f = Dispatching"
    and g: "generation_of demo5 (uf_path ?f) = uf_gen ?f"
    by (simp_all add: demo_eqs generation_of_def)
  from dispatch_publishes_fresh_results [OF reachable_demo5 f] g f show ?thesis by (auto simp: Let_def)
qed

end
