(* ===== verification/Path_Pool.thy ===== *)
theory Path_Pool
  imports Clice_Prelude
begin

text \<open>
  \<open>src/src/support/path_pool.h\<close>: the pool that interns normalised file paths as 32-bit ids. The
  allocator only provides stable storage, so a pool is its vector of paths and its string map.
  \<open>intern_pool\<close> is the contract the other components rely on.
\<close>

record path_pool =
  pool_paths :: "string list"
  pool_cache :: "string \<rightharpoonup> u32"

definition empty_pool :: path_pool where
  "empty_pool = \<lparr>pool_paths = [], pool_cache = Map.empty\<rparr>"

text \<open>Backslashes become slashes; the copy is made only when there is one.\<close>

definition normalize_path :: "string \<Rightarrow> string" where
  "normalize_path path =
     (if CHR 0x5C \<in> set path then map (\<lambda>c. if c = CHR 0x5C then CHR ''/'' else c) path else path)"

definition intern :: "string \<Rightarrow> path_pool \<Rightarrow> path_pool \<times> u32" where
  "intern path0 pool =
     (let path = normalize_path path0 in
      case pool_cache pool path of
        Some i \<Rightarrow> (pool, i)
      | None \<Rightarrow>
          let i = of_nat (length (pool_paths pool)) in
          (pool\<lparr>pool_cache := (pool_cache pool)(path \<mapsto> i), pool_paths := pool_paths pool @ [path]\<rparr>, i))"

text \<open>\<open>resolve\<close> asserts that the id is in range.\<close>

definition resolve :: "path_pool \<Rightarrow> u32 \<Rightarrow> string option" where
  "resolve pool i =
     (if unat i < length (pool_paths pool) then Some (pool_paths pool ! unat i) else None)"

section \<open>Invariant\<close>

definition pool_ok :: "path_pool \<Rightarrow> bool" where
  "pool_ok pool \<longleftrightarrow>
     (\<forall>s i. pool_cache pool s = Some i \<longleftrightarrow> resolve pool i = Some s)
     \<and> length (pool_paths pool) \<le> 2 ^ 32"

lemma pool_ok_empty: "pool_ok empty_pool"
  by (simp add: pool_ok_def empty_pool_def resolve_def)

text \<open>Ids are handed out densely, so a full pool is the only limit.\<close>

lemma pool_lookup_new:
  assumes "length xs < 2 ^ 32"
  shows "unat (of_nat (length xs) :: u32) = length xs"
  using assms by (simp add: unat_of_nat)

lemma resolve_append:
  assumes "length (pool_paths pool) < 2 ^ 32"
  shows "resolve (pool\<lparr>pool_cache := c, pool_paths := pool_paths pool @ [s]\<rparr>) i =
    (if i = of_nat (length (pool_paths pool)) then Some s else resolve pool i)"
proof -
  have eq: "i = of_nat (length (pool_paths pool)) \<longleftrightarrow> unat i = length (pool_paths pool)"
    using pool_lookup_new [OF assms] by (simp add: word_unat_eq_iff)
  show ?thesis
    by (auto simp: resolve_def eq nth_append less_Suc_eq)
qed

lemma intern_new_inv:
  assumes ok: "pool_ok pool" and len: "length (pool_paths pool) < 2 ^ 32"
    and new: "pool_cache pool s = None"
  shows "pool_ok (pool\<lparr>pool_cache := (pool_cache pool)(s \<mapsto> of_nat (length (pool_paths pool))),
      pool_paths := pool_paths pool @ [s]\<rparr>)"
proof -
  let ?n = "of_nat (length (pool_paths pool)) :: u32"
  have "resolve pool ?n = None" using pool_lookup_new [OF len] by (simp add: resolve_def)
  moreover have "\<And>i. resolve pool i \<noteq> Some s" using ok new by (metis option.distinct(1) pool_ok_def)
  ultimately show ?thesis
    using ok len unfolding pool_ok_def resolve_append [OF len] by auto
qed

section \<open>The interface\<close>

text \<open>
  What a client may rely on: an interned path resolves to its normal form, ids handed out earlier
  stay valid, and equal ids mean equal normal forms. \<open>room\<close> says that one more path fits.
\<close>

locale intern_pool =
  fixes norm :: "'s \<Rightarrow> 's"
    and add :: "'s \<Rightarrow> 'p \<Rightarrow> 'p \<times> 'i"
    and get :: "'p \<Rightarrow> 'i \<Rightarrow> 's option"
    and ok :: "'p \<Rightarrow> bool"
    and room :: "'p \<Rightarrow> bool"
  assumes norm_norm: "norm (norm s) = norm s"
    and add_ok: "ok p \<Longrightarrow> room p \<Longrightarrow> add s p = (p', i) \<Longrightarrow> ok p'"
    and add_get: "ok p \<Longrightarrow> room p \<Longrightarrow> add s p = (p', i) \<Longrightarrow> get p' i = Some (norm s)"
    and add_stable: "ok p \<Longrightarrow> room p \<Longrightarrow> add s p = (p', i) \<Longrightarrow> get p j = Some t \<Longrightarrow> get p' j = Some t"
    and add_known: "ok p \<Longrightarrow> get p i = Some (norm s) \<Longrightarrow> add s p = (p, i)"
    and get_inj: "ok p \<Longrightarrow> get p i = Some t \<Longrightarrow> get p j = Some t \<Longrightarrow> i = j"
begin

lemma add_again: "ok p \<Longrightarrow> room p \<Longrightarrow> add s p = (p', i) \<Longrightarrow> add s p' = (p', i)"
  by (blast intro: add_ok add_get add_known)

lemma same_id_iff:
  assumes "ok p" and "room p" and "add s p = (p1, i)" and "room p1" and "add t p1 = (p2, j)"
  shows "i = j \<longleftrightarrow> norm s = norm t"
proof -
  have p1: "ok p1" "get p1 i = Some (norm s)" using assms add_ok add_get by blast+
  then have "get p2 i = Some (norm s)" "get p2 j = Some (norm t)" "ok p2"
    using assms add_ok add_get add_stable by blast+
  then show ?thesis using get_inj by (metis option.inject)
qed

end

lemma normalize_path_idem: "normalize_path (normalize_path s) = normalize_path s"
  by (auto simp: normalize_path_def)

lemma intern_cases:
  assumes "intern s pool = (pool', i)"
  obtains "pool_cache pool (normalize_path s) = Some i" "pool' = pool"
  | "pool_cache pool (normalize_path s) = None" "i = of_nat (length (pool_paths pool))"
    "pool' = pool\<lparr>pool_cache := (pool_cache pool)(normalize_path s \<mapsto> i),
       pool_paths := pool_paths pool @ [normalize_path s]\<rparr>"
  using assms by (auto simp: intern_def Let_def split: option.splits)

interpretation pool: intern_pool normalize_path intern resolve pool_ok
  "\<lambda>p. length (pool_paths p) < 2 ^ 32"
proof
  fix s p p' i j t
  assume ok: "pool_ok p" and len: "length (pool_paths p) < 2 ^ 32" and s: "intern s p = (p', i)"
  show "pool_ok p'"
    using s by (rule intern_cases) (use ok len in \<open>auto simp: intern_new_inv\<close>)
  show "resolve p' i = Some (normalize_path s)"
    using s by (rule intern_cases) (use ok len in \<open>auto simp: resolve_append pool_ok_def\<close>)
  show "resolve p' j = Some t" if "resolve p j = Some t"
    using s
  proof (rule intern_cases)
    assume "i = of_nat (length (pool_paths p))"
      and p': "p' = p\<lparr>pool_cache := (pool_cache p)(normalize_path s \<mapsto> i),
         pool_paths := pool_paths p @ [normalize_path s]\<rparr>"
    moreover have "j \<noteq> of_nat (length (pool_paths p))"
      using that pool_lookup_new [OF len] by (auto simp: resolve_def split: if_splits)
    ultimately show ?thesis using that len by (simp add: resolve_append)
  qed (use that in simp)
next
  fix p i and s :: string
  assume "pool_ok p" and "resolve p i = Some (normalize_path s)"
  then have "pool_cache p (normalize_path s) = Some i" by (simp add: pool_ok_def)
  then show "intern s p = (p, i)" by (simp add: intern_def)
next
  fix p i j t
  assume "pool_ok p" and "resolve p i = Some t" and "resolve p j = Some t"
  then show "i = j" by (metis option.inject pool_ok_def)
qed (rule normalize_path_idem)

text \<open>
  Interning round-trips. In a well-formed pool that is not full, the id of a path resolves to the
  path with backslashes turned into slashes, every id handed out before still resolves to the same
  path, interning again returns the same id without growing the pool, and the pool stays
  well-formed.
\<close>

theorem intern_roundtrip:
  assumes "pool_ok pool" and "length (pool_paths pool) < 2 ^ 32" and "intern s pool = (pool', i)"
  shows "resolve pool' i = Some (normalize_path s) \<and> pool_ok pool' \<and> intern s pool' = (pool', i)
    \<and> (\<forall>j t. resolve pool j = Some t \<longrightarrow> resolve pool' j = Some t)
    \<and> CHR 0x5C \<notin> set (normalize_path s)"
proof -
  have "CHR 0x5C \<notin> set (normalize_path s)" by (auto simp: normalize_path_def)
  then show ?thesis
    using pool.add_get pool.add_ok pool.add_again pool.add_stable assms by blast
qed

theorem intern_roundtrip_witness:
  "resolve (fst (intern [CHR ''a'', CHR 0x5C, CHR ''b''] empty_pool)) 0 = Some ''a/b''"
proof -
  let ?s = "[CHR ''a'', CHR 0x5C, CHR ''b'']"
  have "pool_ok empty_pool \<and> length (pool_paths empty_pool) < 2 ^ 32"
    by (simp add: pool_ok_empty) (simp add: empty_pool_def)
  moreover have "snd (intern ?s empty_pool) = 0"
    by (simp add: intern_def empty_pool_def Let_def)
  then have "intern ?s empty_pool = (fst (intern ?s empty_pool), 0)" by (metis prod.collapse)
  ultimately have "resolve (fst (intern ?s empty_pool)) 0 = Some (normalize_path ?s)"
    using intern_roundtrip by blast
  then show ?thesis by (simp add: normalize_path_def)
qed

end
