(* ===== verification/Dependency_Graph.thy ===== *)
theory Dependency_Graph
  imports Clice_Prelude
begin

unbundle bit_operations_syntax

text \<open>
  \<open>DependencyGraph\<close> of \<open>src/src/syntax/dependency_graph.{h,cpp}\<close>: module names, include edges per
  (file, configuration), the reverse edges, and the two searches over them.

  An include edge is a path id whose bit 31 marks an include inside a conditional directive; ids and
  edges are 32-bit words. The iteration order of an LLVM hash map is unspecified, so the operations
  that walk over \<open>includes\<close> take the order as an argument: a list of the keys without repetition.
\<close>

section \<open>Data\<close>

type_synonym file_id = u32
type_synonym config_id = u32
type_synonym include_key = "file_id \<times> config_id"

definition CONDITIONAL_FLAG :: u32 where "CONDITIONAL_FLAG = 0x80000000"
definition PATH_ID_MASK :: u32 where "PATH_ID_MASK = 0x7FFFFFFF"

record dependency_graph =
  module_to_path :: "string \<rightharpoonup> file_id list"
  dg_includes :: "include_key \<rightharpoonup> u32 list"
  file_configs :: "file_id \<rightharpoonup> config_id list"
  reverse_includes :: "file_id \<rightharpoonup> file_id list"

definition empty_dependency_graph :: dependency_graph where
  "empty_dependency_graph =
     \<lparr>module_to_path = Map.empty, dg_includes = Map.empty, file_configs = Map.empty,
      reverse_includes = Map.empty\<rparr>"

definition get_list :: "('k \<rightharpoonup> 'v list) \<Rightarrow> 'k \<Rightarrow> 'v list" where
  "get_list m k = (case m k of None \<Rightarrow> [] | Some vs \<Rightarrow> vs)"

text \<open>\<open>push_back\<close> unless \<open>find\<close> sees the element already.\<close>

definition push_unique :: "'v \<Rightarrow> 'v list \<Rightarrow> 'v list" where
  "push_unique v vs = (if v \<in> set vs then vs else vs @ [v])"

section \<open>Operations\<close>

definition add_module :: "string \<Rightarrow> file_id \<Rightarrow> dependency_graph \<Rightarrow> dependency_graph" where
  "add_module m p g =
     g\<lparr>module_to_path := (module_to_path g)(m \<mapsto> push_unique p (get_list (module_to_path g) m))\<rparr>"

definition lookup_module :: "dependency_graph \<Rightarrow> string \<Rightarrow> file_id list" where
  "lookup_module g m = get_list (module_to_path g) m"

definition set_includes :: "file_id \<Rightarrow> config_id \<Rightarrow> u32 list \<Rightarrow> dependency_graph \<Rightarrow> dependency_graph" where
  "set_includes p c ids g =
     g\<lparr>dg_includes := (dg_includes g)((p, c) \<mapsto> ids),
       file_configs := (file_configs g)(p \<mapsto> push_unique c (get_list (file_configs g) p))\<rparr>"

definition get_includes :: "dependency_graph \<Rightarrow> file_id \<Rightarrow> config_id \<Rightarrow> u32 list" where
  "get_includes g p c = get_list (dg_includes g) (p, c)"

text \<open>\<open>get_all_includes\<close>: one id, then the two nested loops.\<close>

definition merge_include :: "u32 \<Rightarrow> (u32 \<rightharpoonup> nat) \<times> u32 list \<Rightarrow> (u32 \<rightharpoonup> nat) \<times> u32 list" where
  "merge_include i s =
     (case s of (seen, result) \<Rightarrow>
        let raw = i AND PATH_ID_MASK in
        (case seen raw of
           None \<Rightarrow> (seen(raw \<mapsto> length result), result @ [i])
         | Some k \<Rightarrow>
             if i AND CONDITIONAL_FLAG = 0 then (seen, result[k := raw]) else (seen, result)))"

definition get_all_includes :: "dependency_graph \<Rightarrow> file_id \<Rightarrow> u32 list" where
  "get_all_includes g p =
     (case file_configs g p of
        None \<Rightarrow> []
      | Some cs \<Rightarrow>
          snd (fold (\<lambda>c s. case dg_includes g (p, c) of None \<Rightarrow> s | Some ids \<Rightarrow> fold merge_include ids s)
                 cs (Map.empty, [])))"

definition file_count :: "dependency_graph \<Rightarrow> nat" where
  "file_count g = card (dom (file_configs g))"

definition module_count :: "dependency_graph \<Rightarrow> nat" where
  "module_count g = card (dom (module_to_path g))"

definition edge_count :: "include_key list \<Rightarrow> dependency_graph \<Rightarrow> nat" where
  "edge_count order g = fold (\<lambda>key count. count + length (get_list (dg_includes g) key)) order 0"

definition add_reverse :: "file_id \<Rightarrow> u32 \<Rightarrow> (file_id \<rightharpoonup> file_id list) \<Rightarrow> (file_id \<rightharpoonup> file_id list)" where
  "add_reverse p flagged m =
     (let included = flagged AND PATH_ID_MASK in
      m(included \<mapsto> push_unique p (get_list m included)))"

definition build_reverse_map :: "include_key list \<Rightarrow> dependency_graph \<Rightarrow> dependency_graph" where
  "build_reverse_map order g =
     g\<lparr>reverse_includes :=
         fold (\<lambda>key m. fold (add_reverse (fst key)) (get_list (dg_includes g) key) m) order Map.empty\<rparr>"

definition get_includers :: "dependency_graph \<Rightarrow> file_id \<Rightarrow> file_id list" where
  "get_includers g p = get_list (reverse_includes g) p"

text \<open>\<open>find_host_sources\<close>: the stack holds its top first.\<close>

fun push_unvisited :: "file_id list \<Rightarrow> file_id list \<Rightarrow> file_id set \<Rightarrow> file_id list \<times> file_id set" where
  "push_unvisited [] queue visited = (queue, visited)"
| "push_unvisited (x # xs) queue visited =
     (if x \<in> visited then push_unvisited xs queue visited
      else push_unvisited xs (x # queue) (insert x visited))"

lemma push_unvisited_news:
  "push_unvisited xs queue visited = (rev (news visited xs) @ queue, visited \<union> set xs)"
  by (induction xs queue visited rule: push_unvisited.induct) (auto simp: insert_absorb)

lemma push_unvisited_measure:
  assumes "push_unvisited xs queue visited = (queue', visited')"
  shows "card (UNIV - visited') < card (UNIV - visited) \<or> visited' = visited \<and> queue' = queue"
proof (cases "set xs \<subseteq> visited")
  case True
  then have "news visited xs = []" using set_news [of visited xs] by (metis Diff_eq_empty_iff set_empty)
  with True assms show ?thesis by (auto simp: push_unvisited_news)
next
  case False
  then have "UNIV - visited' \<subset> UNIV - visited" using assms by (auto simp: push_unvisited_news)
  then show ?thesis by (intro disjI1 psubset_card_mono) auto
qed

function host_loop :: "dependency_graph \<Rightarrow> file_id \<Rightarrow> file_id list \<Rightarrow> file_id set \<Rightarrow> file_id list" where
  "host_loop g header [] visited = []"
| "host_loop g header (current # queue) visited =
     (let includers = get_includers g current in
      if includers = [] then
        (if current \<noteq> header then [current] else []) @ host_loop g header queue visited
      else
        case push_unvisited includers queue visited of
          (queue', visited') \<Rightarrow> host_loop g header queue' visited')"
  by pat_completeness auto
termination
  by (relation "measures [\<lambda>(g, h, q, V). card (UNIV - V), \<lambda>(g, h, q, V). length q]")
    (auto split: prod.splits dest: push_unvisited_measure)

definition find_host_sources :: "dependency_graph \<Rightarrow> file_id \<Rightarrow> file_id list" where
  "find_host_sources g header = host_loop g header [header] {header}"

text \<open>
  \<open>find_include_chain\<close>: the children of one node, the nodes of one level, the levels, and the walk
  back along the predecessors. The walk reads \<open>prev[node]\<close> of nodes the search has reached; it is a
  partial function, and that it ends is part of what is proved.
\<close>

type_synonym prev_map = "file_id \<rightharpoonup> file_id"

fun visit_children ::
    "file_id \<Rightarrow> file_id \<Rightarrow> u32 list \<Rightarrow> prev_map \<Rightarrow> file_id list \<Rightarrow> prev_map \<times> file_id list \<times> bool" where
  "visit_children target current [] prev next_queue = (prev, next_queue, False)"
| "visit_children target current (flagged # ids) prev next_queue =
     (let child = flagged AND PATH_ID_MASK in
      if prev child = None then
        (if child = target then (prev(child \<mapsto> current), next_queue, True)
         else visit_children target current ids (prev(child \<mapsto> current)) (next_queue @ [child]))
      else visit_children target current ids prev next_queue)"

fun visit_level ::
    "dependency_graph \<Rightarrow> file_id \<Rightarrow> file_id list \<Rightarrow> prev_map \<Rightarrow> file_id list \<Rightarrow> prev_map \<times> file_id list \<times> bool" where
  "visit_level g target [] prev next_queue = (prev, next_queue, False)"
| "visit_level g target (current # queue) prev next_queue =
     (case visit_children target current (get_all_includes g current) prev next_queue of
        (prev', next', found) \<Rightarrow>
          if found then (prev', next', True) else visit_level g target queue prev' next')"

lemma visit_children_dom:
  "visit_children target current ids prev next_queue = (prev', next', found) \<Longrightarrow>
     prev \<subseteq>\<^sub>m prev' \<and> (\<not> found \<longrightarrow> set next' = set next_queue \<union> (dom prev' - dom prev))"
proof (induction target current ids prev next_queue arbitrary: prev' next' found rule: visit_children.induct)
  case step: (2 target current flagged ids prev next_queue)
  let ?c = "flagged AND PATH_ID_MASK"
  consider "prev ?c \<noteq> None" | "prev ?c = None" "?c = target" | "prev ?c = None" "?c \<noteq> target" by blast
  then show ?case
  proof cases
    case 1
    with step.IH(2) [OF refl] step.prems show ?thesis by (auto simp: Let_def)
  next
    case 2
    with step.prems show ?thesis by (auto simp: Let_def map_le_def)
  next
    case 3
    with step.prems have "visit_children target current ids (prev(?c \<mapsto> current)) (next_queue @ [?c]) = (prev', next', found)"
      by (auto simp: Let_def)
    from step.IH(1) [OF refl 3 this] 3 show ?thesis by (auto simp: map_le_def dom_def)
  qed
qed auto

lemma visit_level_dom:
  "visit_level g target queue prev next_queue = (prev', next', found) \<Longrightarrow>
     prev \<subseteq>\<^sub>m prev' \<and> (\<not> found \<longrightarrow> set next' = set next_queue \<union> (dom prev' - dom prev))"
proof (induction g target queue prev next_queue arbitrary: prev' next' found rule: visit_level.induct)
  case step: (2 g target current queue prev next_queue)
  obtain p1 n1 f1 where v: "visit_children target current (get_all_includes g current) prev next_queue = (p1, n1, f1)"
    by (metis prod_cases3)
  note c = visit_children_dom [OF v]
  show ?case
  proof (cases f1)
    case True
    with v step.prems c show ?thesis by auto
  next
    case False
    with v step.prems have "visit_level g target queue p1 n1 = (prev', next', found)" by simp
    from step.IH [OF v [symmetric] refl False this] c False show ?thesis
      using map_le_trans [of prev p1 prev'] map_le_implies_dom_le [of prev p1] map_le_implies_dom_le [of p1 prev']
      by auto
  qed
qed auto

lemma visit_level_measure:
  assumes "visit_level g target queue prev [] = (prev', next_queue, False)"
  shows "card (UNIV - dom prev') < card (UNIV - dom prev) \<or> prev' = prev \<and> next_queue = []"
proof (cases "next_queue = []")
  case True
  then have "dom prev' = dom prev" "prev \<subseteq>\<^sub>m prev'"
    using visit_level_dom [OF assms] map_le_implies_dom_le [of prev prev'] by auto
  with True show ?thesis by (metis map_le_antisym map_le_def)
next
  case False
  note v = visit_level_dom [OF assms]
  from False v obtain x where "x \<in> dom prev' - dom prev" by (metis all_not_in_conv set_empty Un_empty_left)
  then have "UNIV - dom prev' \<subset> UNIV - dom prev" using v map_le_implies_dom_le [of prev prev'] by auto
  then show ?thesis by (intro disjI1 psubset_card_mono) auto
qed

function chain_bfs :: "dependency_graph \<Rightarrow> file_id \<Rightarrow> file_id list \<Rightarrow> prev_map \<Rightarrow> prev_map \<times> bool" where
  "chain_bfs g target queue prev =
     (if queue = [] then (prev, False)
      else
        case visit_level g target queue prev [] of
          (prev', next_queue, found) \<Rightarrow>
            if found then (prev', True) else chain_bfs g target next_queue prev')"
  by pat_completeness auto
termination
  by (relation "measures [\<lambda>(g, t, q, prev). card (UNIV - dom prev), \<lambda>(g, t, q, prev). length q]")
    (auto dest!: visit_level_measure [OF sym])

partial_function (option) walk_back :: "prev_map \<Rightarrow> file_id \<Rightarrow> file_id \<Rightarrow> file_id list \<Rightarrow> file_id list option" where
  "walk_back prev host node chain =
     (if node = host then Some (chain @ [host])
      else case prev node of
             None \<Rightarrow> walk_back (prev(node \<mapsto> 0)) host 0 (chain @ [node])
           | Some p \<Rightarrow> walk_back prev host p (chain @ [node]))"

definition find_include_chain :: "dependency_graph \<Rightarrow> file_id \<Rightarrow> file_id \<Rightarrow> file_id list option" where
  "find_include_chain g host target =
     (if host = target then Some [host]
      else
        case chain_bfs g target [host] [host \<mapsto> host] of
          (prev, found) \<Rightarrow>
            if \<not> found then Some []
            else map_option rev (walk_back prev host target []))"

section \<open>The word encoding of an include edge\<close>

abbreviation raw_id :: "u32 \<Rightarrow> file_id" where "raw_id i \<equiv> i AND PATH_ID_MASK"
definition conditional :: "u32 \<Rightarrow> bool" where "conditional i \<longleftrightarrow> i AND CONDITIONAL_FLAG \<noteq> 0"

lemma mask_bits: "bit PATH_ID_MASK n \<longleftrightarrow> n < 31" and flag_bits: "bit CONDITIONAL_FLAG n \<longleftrightarrow> n = 31"
proof -
  have "PATH_ID_MASK = mask 31" by (simp add: PATH_ID_MASK_def mask_eq_exp_minus_1)
  moreover have "bit (mask 31 :: u32) n \<longleftrightarrow> n < 31" by (subst bit_mask_iff) auto
  ultimately show "bit PATH_ID_MASK n \<longleftrightarrow> n < 31" by metis
  have "CONDITIONAL_FLAG = 2 ^ 31" by (simp add: CONDITIONAL_FLAG_def)
  moreover have "bit (2 ^ 31 :: u32) n \<longleftrightarrow> n = 31" by (subst bit_exp_iff) auto
  ultimately show "bit CONDITIONAL_FLAG n \<longleftrightarrow> n = 31" by metis
qed

lemma conditional_bit: "conditional i \<longleftrightarrow> bit i 31"
proof -
  have "i AND CONDITIONAL_FLAG = 0 \<longleftrightarrow> \<not> bit i 31"
  proof
    assume "i AND CONDITIONAL_FLAG = 0"
    then have "\<not> bit (i AND CONDITIONAL_FLAG) 31" by simp
    then show "\<not> bit i 31" by (simp add: bit_and_iff flag_bits)
  qed (rule bit_eqI, simp add: bit_and_iff flag_bits, metis)
  then show ?thesis by (simp add: conditional_def)
qed

lemma raw_id_raw [simp]: "raw_id (raw_id i) = raw_id i"
  by (simp add: and.assoc)

lemma raw_id_unconditional [simp]: "\<not> conditional (raw_id i)"
  by (simp add: conditional_bit bit_and_iff mask_bits)

section \<open>Well-formed graphs\<close>

text \<open>\<open>file_configs\<close> indexes \<open>includes\<close>: a configuration is listed once, and exactly when the pair has edges.\<close>

definition dep_ok :: "dependency_graph \<Rightarrow> bool" where
  "dep_ok g \<longleftrightarrow>
     (\<forall>p. distinct (get_list (file_configs g) p)) \<and>
     (\<forall>p c. dg_includes g (p, c) \<noteq> None \<longleftrightarrow> c \<in> set (get_list (file_configs g) p)) \<and>
     (\<forall>m. distinct (lookup_module g m))"

lemma get_list_upd [simp]: "get_list (m(k \<mapsto> v)) k' = (if k' = k then v else get_list m k')"
  by (simp add: get_list_def)

lemma push_unique_set [simp]: "set (push_unique v vs) = insert v (set vs)"
  by (auto simp: push_unique_def)

lemma push_unique_distinct [simp]: "distinct (push_unique v vs) \<longleftrightarrow> distinct vs"
  by (auto simp: push_unique_def)

lemma dep_ok_empty: "dep_ok empty_dependency_graph"
  by (simp add: dep_ok_def empty_dependency_graph_def lookup_module_def get_list_def)

lemma dep_ok_add_module: "dep_ok g \<Longrightarrow> dep_ok (add_module m p g)"
  by (auto simp: dep_ok_def add_module_def lookup_module_def)

lemma dep_ok_set_includes: "dep_ok g \<Longrightarrow> dep_ok (set_includes p c ids g)"
  by (auto simp: dep_ok_def set_includes_def lookup_module_def)

lemma dep_ok_build_reverse_map: "dep_ok g \<Longrightarrow> dep_ok (build_reverse_map order g)"
  by (auto simp: dep_ok_def build_reverse_map_def lookup_module_def)

text \<open>The graphs a client can build, in any order of calls.\<close>

inductive built :: "dependency_graph \<Rightarrow> bool" where
  built_empty: "built empty_dependency_graph"
| built_module: "built g \<Longrightarrow> built (add_module m p g)"
| built_includes: "built g \<Longrightarrow> built (set_includes p c ids g)"
| built_reverse: "built g \<Longrightarrow> built (build_reverse_map order g)"

lemma built_dep_ok: "built g \<Longrightarrow> dep_ok g"
  by (induction rule: built.induct)
    (auto intro: dep_ok_empty dep_ok_add_module dep_ok_set_includes dep_ok_build_reverse_map)

section \<open>The union of the edges over the configurations\<close>

definition merged :: "u32 list \<Rightarrow> (u32 \<rightharpoonup> nat) \<times> u32 list \<Rightarrow> bool" where
  "merged ids s \<longleftrightarrow> (case s of (seen, result) \<Rightarrow>
     distinct (map raw_id result) \<and>
     raw_id ` set result = raw_id ` set ids \<and>
     (\<forall>r k. seen r = Some k \<longleftrightarrow> k < length result \<and> raw_id (result ! k) = r) \<and>
     (\<forall>i \<in> set result. conditional i \<longleftrightarrow> (\<forall>j \<in> set ids. raw_id j = raw_id i \<longrightarrow> conditional j)))"

lemma merged_raws: "merged ids (seen, result) \<Longrightarrow> raw_id ` set result = raw_id ` set ids"
  by (simp add: merged_def)

lemma merged_new:
  assumes "merged ids (seen, result)" and "seen (raw_id i) = None"
  shows "merged (ids @ [i]) (seen(raw_id i \<mapsto> length result), result @ [i])"
proof -
  have new: "raw_id i \<notin> raw_id ` set result"
  proof
    assume "raw_id i \<in> raw_id ` set result"
    then obtain k where "k < length result" "raw_id (result ! k) = raw_id i" by (auto simp: in_set_conv_nth)
    with assms show False unfolding merged_def by fastforce
  qed
  then have old: "\<forall>j \<in> set ids. raw_id j \<noteq> raw_id i"
    using merged_raws [OF assms(1)] by (metis image_eqI)
  have nth: "raw_id (result ! k) \<noteq> raw_id i" if "k < length result" for k
    using new that by (metis image_eqI nth_mem)
  show ?thesis
    unfolding merged_def
  proof (clarify, intro conjI)
    show "distinct (map raw_id (result @ [i]))" using assms(1) new by (auto simp: merged_def)
    show "raw_id ` set (result @ [i]) = raw_id ` set (ids @ [i])" using assms(1) by (auto simp: merged_def)
    show "\<forall>r k. (seen(raw_id i \<mapsto> length result)) r = Some k \<longleftrightarrow>
        k < length (result @ [i]) \<and> raw_id ((result @ [i]) ! k) = r"
      using assms(1) nth by (auto simp: merged_def nth_append less_Suc_eq)
    show "\<forall>x\<in>set (result @ [i]).
        conditional x = (\<forall>j\<in>set (ids @ [i]). raw_id j = raw_id x \<longrightarrow> conditional j)"
      using assms(1) new old unfolding merged_def by (auto; metis image_eqI)
  qed
qed

lemma merged_old:
  assumes m: "merged ids (seen, result)" and k: "seen (raw_id i) = Some k"
  shows "merged (ids @ [i]) (seen, if conditional i then result else result[k := raw_id i])"
proof -
  from m k have len: "k < length result" and at_k: "raw_id (result ! k) = raw_id i" by (auto simp: merged_def)
  then have i_old: "raw_id i \<in> raw_id ` set ids" using merged_raws [OF m] nth_mem [OF len] image_eqI [of "raw_id i" raw_id "result ! k" "set result"] by simp
  have same: "map raw_id (result[k := raw_id i]) = map raw_id result"
    using len at_k by (simp add: map_update list_update_same_conv)
  have raws: "raw_id ` set (result[k := raw_id i]) = raw_id ` set result"
    using arg_cong [OF same, of set] by simp
  show ?thesis
  proof (cases "conditional i")
    case True
    with m i_old show ?thesis by (auto simp: merged_def)
  next
    case False
    have seen': "seen r = Some l \<longleftrightarrow> l < length (result[k := raw_id i]) \<and> raw_id (result[k := raw_id i] ! l) = r" for r l
      using m len at_k by (auto simp: merged_def nth_list_update)
    have "conditional x = (\<forall>j\<in>set (ids @ [i]). raw_id j = raw_id x \<longrightarrow> conditional j)"
      if x: "x \<in> set (result[k := raw_id i])" for x
    proof -
      from x obtain l where l: "l < length result" "x = result[k := raw_id i] ! l" by (auto simp: in_set_conv_nth)
      show ?thesis
      proof (cases "l = k")
        case True
        with l len have "x = raw_id i" by simp
        with False show ?thesis by auto
      next
        case neq: False
        with l have "x = result ! l" by simp
        moreover have "raw_id (result ! l) \<noteq> raw_id (result ! k)"
          using m neq l len unfolding merged_def by (auto simp: distinct_conv_nth)
        moreover have "result ! l \<in> set result" using l by simp
        ultimately show ?thesis using m at_k unfolding merged_def by auto
      qed
    qed
    with m i_old raws seen' same False show ?thesis unfolding merged_def by auto
  qed
qed

lemma merged_step: "merged ids s \<Longrightarrow> merged (ids @ [i]) (merge_include i s)"
  by (cases s)
    (auto simp: merge_include_def Let_def conditional_def split: option.split
      intro: merged_new dest: merged_old [of ids _ _ i, unfolded conditional_def])

lemma merged_fold: "merged ids s \<Longrightarrow> merged (ids @ rest) (fold merge_include rest s)"
proof (induction rest arbitrary: ids s)
  case (Cons i rest)
  from Cons.IH [OF merged_step [OF Cons.prems]] show ?case by simp
qed simp

lemma get_all_includes_fold:
  "get_all_includes g p =
     snd (fold merge_include (concat (map (get_includes g p) (get_list (file_configs g) p))) (Map.empty, []))"
proof -
  have step: "(case dg_includes g (p, c) of None \<Rightarrow> s | Some ids \<Rightarrow> fold merge_include ids s) =
      fold merge_include (get_includes g p c) s" for c s
    by (simp add: get_includes_def get_list_def split: option.split)
  have "fold (\<lambda>c. fold merge_include (get_includes g p c)) cs s =
      fold merge_include (concat (map (get_includes g p) cs)) s" for cs s
    by (induction cs arbitrary: s) auto
  then show ?thesis by (simp add: get_all_includes_def step get_list_def split: option.split)
qed

lemma get_all_includes_merged:
  obtains seen where
    "merged (concat (map (get_includes g p) (get_list (file_configs g) p))) (seen, get_all_includes g p)"
proof -
  have "merged [] (Map.empty, [])" by (simp add: merged_def)
  from merged_fold [OF this] show thesis
    by (metis append_Nil get_all_includes_fold prod.collapse that)
qed

lemma configs_cover:
  assumes "dep_ok g"
  shows "set (concat (map (get_includes g p) (get_list (file_configs g) p))) = (\<Union>c. set (get_includes g p c))"
proof -
  have "get_includes g p c = []" if "c \<notin> set (get_list (file_configs g) p)" for c
    using assms that by (metis dep_ok_def get_includes_def get_list_def option.simps(4))
  then show ?thesis by (auto simp: set_concat) force
qed

text \<open>
  C33. \<open>get_all_includes\<close> is the union over the configurations of a file: every included file is listed
  exactly once, nothing else is listed, and an entry carries the conditional flag exactly when
  every configuration that has the include has it under a condition. This holds for every graph a
  sequence of calls can build.
\<close>

theorem get_all_includes_union:
  assumes "built g"
  shows "distinct (map raw_id (get_all_includes g p)) \<and>
    raw_id ` set (get_all_includes g p) = (\<Union>c. raw_id ` set (get_includes g p c)) \<and>
    (\<forall>i \<in> set (get_all_includes g p).
       conditional i \<longleftrightarrow> (\<forall>c. \<forall>j \<in> set (get_includes g p c). raw_id j = raw_id i \<longrightarrow> conditional j))"
proof -
  obtain seen where m:
    "merged (concat (map (get_includes g p) (get_list (file_configs g) p))) (seen, get_all_includes g p)"
    by (rule get_all_includes_merged)
  note cover = configs_cover [OF built_dep_ok [OF assms], of p]
  show ?thesis
    using m unfolding merged_def cover by (auto simp: image_UN)
qed

definition demo_graph :: dependency_graph where
  "demo_graph =
     build_reverse_map [(1, 0), (1, 1), (2, 0), (3, 0)]
       (set_includes 3 0 [2]
         (set_includes 2 0 [4]
           (set_includes 1 1 [2, 0x80000004] (set_includes 1 0 [0x80000002] empty_dependency_graph))))"

lemma demo_graph_built: "built demo_graph"
  unfolding demo_graph_def by (intro built.intros)

lemma get_all_includes_union_witness:
  "built demo_graph \<and> get_all_includes demo_graph 1 = [2, 0x80000004] \<and>
   distinct (map raw_id (get_all_includes demo_graph 1))"
  using demo_graph_built get_all_includes_union [OF demo_graph_built, of 1]
  by (simp add: demo_graph_def get_all_includes_def merge_include_def build_reverse_map_def set_includes_def
      empty_dependency_graph_def CONDITIONAL_FLAG_def PATH_ID_MASK_def push_unique_def get_list_def)

section \<open>Reverse edges and host sources\<close>

lemma add_reverse_fold:
  "q \<in> set (get_list (fold (add_reverse p) ids m) x) \<longleftrightarrow> q \<in> set (get_list m x) \<or> q = p \<and> x \<in> raw_id ` set ids"
  by (induction ids arbitrary: m) (auto simp: add_reverse_def Let_def)

lemma add_reverse_distinct:
  "(\<And>x. distinct (get_list m x)) \<Longrightarrow> distinct (get_list (fold (add_reverse p) ids m) x)"
proof (induction ids arbitrary: m)
  case (Cons i ids)
  have "distinct (get_list (add_reverse p i m) y)" for y
    using Cons.prems by (auto simp: add_reverse_def Let_def)
  from Cons.IH [OF this] show ?case by simp
qed simp

lemma reverse_fold:
  "q \<in> set (get_list (fold (\<lambda>key. fold (add_reverse (fst key)) (f key)) order m) x) \<longleftrightarrow>
     q \<in> set (get_list m x) \<or> (\<exists>c. (q, c) \<in> set order \<and> x \<in> raw_id ` set (f (q, c)))"
  by (induction order arbitrary: m) (auto simp: add_reverse_fold)

lemma reverse_fold_distinct:
  "(\<And>x. distinct (get_list m x)) \<Longrightarrow>
     distinct (get_list (fold (\<lambda>key. fold (add_reverse (fst key)) (f key)) order m) x)"
  by (induction order arbitrary: m) (auto simp: add_reverse_distinct)

lemma get_includers_iff:
  assumes "set order = dom (dg_includes g)"
  shows "q \<in> set (get_includers (build_reverse_map order g) x) \<longleftrightarrow>
    (\<exists>c. x \<in> raw_id ` set (get_includes g q c))"
proof -
  have "x \<in> raw_id ` set (get_list (dg_includes g) (q, c)) \<Longrightarrow> (q, c) \<in> dom (dg_includes g)" for c
    by (cases "dg_includes g (q, c)") (auto simp: get_list_def)
  then show ?thesis
    by (auto simp: get_includers_def build_reverse_map_def reverse_fold assms get_includes_def)
      (auto simp: get_list_def)
qed

lemma get_includers_distinct: "distinct (get_includers (build_reverse_map order g) x)"
  unfolding get_includers_def build_reverse_map_def
  using reverse_fold_distinct [of Map.empty] by (simp add: get_list_def [of Map.empty])

interpretation hosts: marked_search "get_includers g" "visit_marked (get_includers g)" for g
  by unfold_locales auto

lemma host_loop_visits:
  "host_loop g h q V = filter (\<lambda>x. get_includers g x = [] \<and> x \<noteq> h) (visit_marked (get_includers g) q V)"
proof (induction g h q V rule: host_loop.induct)
  case step: (2 g h x q V)
  show ?case
  proof (cases "get_includers g x = []")
    case True
    with step.IH(1) show ?thesis by simp
  next
    case False
    from step.IH(2) [OF refl False push_unvisited_news [symmetric]] False show ?thesis
      by (simp add: push_unvisited_news Let_def)
  qed
qed simp

text \<open>
  C32. \<open>find_host_sources\<close>, on the reverse map \<open>build_reverse_map\<close> has made (for any iteration order of the
  hash map): the result lists, each once, exactly the files that reach the header through one or
  more includes and that nothing includes; the header itself is never listed.
\<close>

theorem find_host_sources_exact:
  assumes "set order = dom (dg_includes g)"
  shows "distinct (find_host_sources (build_reverse_map order g) header) \<and>
    set (find_host_sources (build_reverse_map order g) header) =
      {r. r \<noteq> header \<and> (r, header) \<in> {(a, b). \<exists>c. b \<in> raw_id ` set (get_includes g a c)}\<^sup>* \<and>
          (\<forall>a c. r \<notin> raw_id ` set (get_includes g a c))}"
proof -
  let ?g = "build_reverse_map order g" and ?E = "{(a, b). \<exists>c. b \<in> raw_id ` set (get_includes g a c)}"
  have "nexts_of (get_includers ?g) = ?E\<inverse>"
    by (auto simp: nexts_of_def get_includers_iff [OF assms])
  then have "(header, r) \<in> (nexts_of (get_includers ?g))\<^sup>* \<longleftrightarrow> (r, header) \<in> ?E\<^sup>*" for r
    by (simp add: rtrancl_converse)
  moreover have "get_includers ?g r = [] \<longleftrightarrow> (\<forall>a c. r \<notin> raw_id ` set (get_includes g a c))" for r
    using get_includers_iff [OF assms, of _ r] by (metis empty_iff empty_set list.set_intros(1) neq_Nil_conv)
  moreover note hosts.run_reach [of ?g header] hosts.run_once [of ?g header]
  ultimately show ?thesis
    by (auto simp: find_host_sources_def host_loop_visits)
qed

lemma find_host_sources_exact_witness:
  "distinct (find_host_sources demo_graph 4) \<and> set (find_host_sources demo_graph 4) = {1, 3}"
proof -
  let ?g = "set_includes 3 0 [2] (set_includes 2 0 [4]
      (set_includes 1 1 [2, 0x80000004] (set_includes 1 0 [0x80000002] empty_dependency_graph)))"
  have o: "set [(1, 0), (1, 1), (2, 0), (3, 0)] = dom (dg_includes ?g)"
    by (auto simp: set_includes_def empty_dependency_graph_def)
  have "distinct (find_host_sources demo_graph 4)"
    using find_host_sources_exact [OF o, of 4] by (simp add: demo_graph_def)
  moreover have "find_host_sources demo_graph 4 = [3, 1]"
    by (simp add: demo_graph_def find_host_sources_def get_includers_def build_reverse_map_def set_includes_def
      empty_dependency_graph_def PATH_ID_MASK_def push_unique_def get_list_def add_reverse_def)
  ultimately show ?thesis by auto
qed

section \<open>Include chains\<close>

text \<open>The edges \<open>find_include_chain\<close> follows.\<close>

definition include_edges :: "dependency_graph \<Rightarrow> (file_id \<times> file_id) set" where
  "include_edges g = {(a, b). b \<in> raw_id ` set (get_all_includes g a)}"

lemma visit_children_new:
  "visit_children target current ids prev next_queue = (prev', next', found) \<Longrightarrow>
     (\<forall>x \<in> dom prev' - dom prev. prev' x = Some current \<and> x \<in> raw_id ` set ids) \<and>
     (\<not> found \<longrightarrow> raw_id ` set ids \<subseteq> dom prev' \<and> target \<notin> dom prev' - dom prev) \<and>
     (found \<longrightarrow> target \<in> dom prev' - dom prev)"
proof (induction target current ids prev next_queue arbitrary: prev' next' found rule: visit_children.induct)
  case step: (2 target current flagged ids prev next_queue)
  let ?c = "raw_id flagged"
  consider "prev ?c \<noteq> None" | "prev ?c = None" "?c = target" | "prev ?c = None" "?c \<noteq> target" by blast
  then show ?case
  proof cases
    case 1
    with step.prems have rec: "visit_children target current ids prev next_queue = (prev', next', found)"
      by (auto simp: Let_def)
    have "?c \<in> dom prev'" using 1 visit_children_dom [OF rec] map_le_implies_dom_le [of prev prev'] by auto
    with step.IH(2) [OF refl 1 rec] show ?thesis by auto
  next
    case 2
    with step.prems show ?thesis by (auto simp: Let_def split: if_splits)
  next
    case 3
    with step.prems have rec:
      "visit_children target current ids (prev(?c \<mapsto> current)) (next_queue @ [?c]) = (prev', next', found)"
      by (auto simp: Let_def)
    have c: "prev' ?c = Some current" using visit_children_dom [OF rec] by (auto simp: map_le_def)
    have d: "dom prev' - dom prev = insert ?c (dom prev' - dom (prev(?c \<mapsto> current)))" using c 3 by auto
    show ?thesis unfolding d using step.IH(1) [OF refl 3 rec] 3 c by auto
  qed
qed auto

lemma visit_level_new:
  "visit_level g target queue prev next_queue = (prev', next', found) \<Longrightarrow>
     (\<forall>x \<in> dom prev' - dom prev. \<exists>c \<in> set queue. prev' x = Some c \<and> (c, x) \<in> include_edges g) \<and>
     (\<not> found \<longrightarrow> include_edges g `` set queue \<subseteq> dom prev' \<and> target \<notin> dom prev' - dom prev) \<and>
     (found \<longrightarrow> target \<in> dom prev' - dom prev)"
proof (induction g target queue prev next_queue arbitrary: prev' next' found rule: visit_level.induct)
  case step: (2 g target current queue prev next_queue)
  obtain p1 n1 f1 where v: "visit_children target current (get_all_includes g current) prev next_queue = (p1, n1, f1)"
    by (metis prod_cases3)
  note c = visit_children_new [OF v] and d = visit_children_dom [OF v]
  show ?case
  proof (cases f1)
    case True
    with v step.prems have "p1 = prev'" "found" by auto
    with True c show ?thesis by (auto simp: include_edges_def)
  next
    case False
    with v step.prems have rec: "visit_level g target queue p1 n1 = (prev', next', found)" by simp
    note IH = step.IH [OF v [symmetric] refl False rec] and le = visit_level_dom [OF rec]
    have keep: "prev' x = p1 x" if "x \<in> dom p1" for x using le that by (auto simp: map_le_def)
    have sub: "dom prev \<subseteq> dom p1" "dom p1 \<subseteq> dom prev'"
      using d le map_le_implies_dom_le by blast+
    have "\<exists>y \<in> set (current # queue). prev' x = Some y \<and> (y, x) \<in> include_edges g"
      if "x \<in> dom prev' - dom prev" for x
    proof (cases "x \<in> dom p1")
      case True
      with that c keep show ?thesis by (auto simp: include_edges_def)
    next
      case False
      with that IH show ?thesis by auto
    qed
    moreover have "include_edges g `` {current} \<subseteq> dom prev'"
    proof -
      have "include_edges g `` {current} = raw_id ` set (get_all_includes g current)" by (auto simp: include_edges_def)
      moreover have "raw_id ` set (get_all_includes g current) \<subseteq> dom p1" using c False by simp
      ultimately show ?thesis using sub(2) by simp
    qed
    moreover have "include_edges g `` set (current # queue) = include_edges g `` {current} \<union> include_edges g `` set queue"
      by auto
    moreover have "target \<notin> dom prev' - dom p1 \<Longrightarrow> target \<notin> dom prev' - dom prev" using c False by blast
    moreover have "target \<in> dom prev' - dom p1 \<Longrightarrow> target \<in> dom prev' - dom prev" using sub by blast
    ultimately show ?thesis using IH by simp
  qed
qed auto

text \<open>
  The predecessor map of a search that has completed the levels up to \<open>n\<close>: it knows the nodes of
  those levels (and, while a level is being visited, some of the next), and the predecessor of a
  node is one level closer to the host.
\<close>

definition prev_ok :: "dependency_graph \<Rightarrow> file_id \<Rightarrow> prev_map \<Rightarrow> bool" where
  "prev_ok g host prev \<longleftrightarrow>
     (\<forall>x \<in> dom prev. x = host \<or>
        (\<exists>y n. prev x = Some y \<and> y \<in> dom prev \<and> (y, x) \<in> include_edges g \<and>
               y \<in> level (include_edges g) host n \<and> x \<in> level (include_edges g) host (Suc n)))"

definition searched :: "dependency_graph \<Rightarrow> file_id \<Rightarrow> nat \<Rightarrow> file_id list \<Rightarrow> prev_map \<Rightarrow> bool" where
  "searched g host n queue prev \<longleftrightarrow>
     prev_ok g host prev \<and>
     dom prev = (\<Union>m \<le> n. level (include_edges g) host m) \<and>
     set queue = level (include_edges g) host n"

lemma visit_level_prev_ok:
  assumes s: "searched g host n queue prev" and v: "visit_level g target queue prev [] = (prev', next', found)"
  shows "prev_ok g host prev'" and "dom prev' - dom prev \<subseteq> level (include_edges g) host (Suc n)"
proof -
  note new = visit_level_new [OF v] and le = visit_level_dom [OF v]
  have sub: "dom prev \<subseteq> dom prev'" using le map_le_implies_dom_le by blast
  have fresh: "\<exists>y. prev' x = Some y \<and> y \<in> dom prev' \<and> (y, x) \<in> include_edges g \<and>
      y \<in> level (include_edges g) host n \<and> x \<in> level (include_edges g) host (Suc n)"
    if x: "x \<in> dom prev' - dom prev" for x
  proof -
    from new x obtain y where y: "y \<in> set queue" "prev' x = Some y" "(y, x) \<in> include_edges g" by blast
    then have ly: "y \<in> level (include_edges g) host n" using s by (auto simp: searched_def)
    moreover have "\<forall>m \<le> n. x \<notin> level (include_edges g) host m" using s x by (auto simp: searched_def)
    ultimately have "x \<in> level (include_edges g) host (Suc n)" using y(3) by (auto intro: level_Suc)
    moreover have "y \<in> dom prev'" using s y(1) sub by (auto simp: searched_def)
    ultimately show ?thesis using y ly by blast
  qed
  then show "dom prev' - dom prev \<subseteq> level (include_edges g) host (Suc n)" by blast
  show "prev_ok g host prev'"
    unfolding prev_ok_def
  proof
    fix x assume x: "x \<in> dom prev'"
    show "x = host \<or> (\<exists>y n. prev' x = Some y \<and> y \<in> dom prev' \<and> (y, x) \<in> include_edges g \<and>
        y \<in> level (include_edges g) host n \<and> x \<in> level (include_edges g) host (Suc n))"
    proof (cases "x \<in> dom prev")
      case True
      then have same: "prev' x = prev x" using le by (auto simp: map_le_def)
      from s have "prev_ok g host prev" by (simp add: searched_def)
      with True have "x = host \<or> (\<exists>y n. prev x = Some y \<and> y \<in> dom prev \<and> (y, x) \<in> include_edges g \<and>
        y \<in> level (include_edges g) host n \<and> x \<in> level (include_edges g) host (Suc n))"
        unfolding prev_ok_def by blast
      with sub show ?thesis unfolding same by blast
    next
      case False
      with fresh x show ?thesis by blast
    qed
  qed
qed

lemma visit_level_searched:
  assumes s: "searched g host n queue prev" and v: "visit_level g target queue prev [] = (prev', next', False)"
  shows "searched g host (Suc n) next' prev'"
proof -
  let ?L = "level (include_edges g) host"
  note new = visit_level_new [OF v] and le = visit_level_dom [OF v] and ok = visit_level_prev_ok [OF s v]
  have sub: "dom prev \<subseteq> dom prev'" using le map_le_implies_dom_le by blast
  have "?L (Suc n) \<subseteq> dom prev'"
    using new level_pred [of _ "include_edges g" host n] s by (fastforce simp: searched_def)
  moreover have "?L (Suc n) \<inter> dom prev = {}"
    using s level_unique [of _ "include_edges g" host "Suc n"] by (fastforce simp: searched_def)
  ultimately have L: "dom prev' - dom prev = ?L (Suc n)" using ok(2) by blast
  then have "dom prev' = (\<Union>m \<le> Suc n. ?L m)" using s sub by (auto simp: searched_def atMost_Suc)
  with L le ok(1) show ?thesis by (simp add: searched_def)
qed

lemma chain_bfs_correct:
  "chain_bfs g target queue prev = (prev', found) \<Longrightarrow> searched g host n queue prev \<Longrightarrow> target \<notin> dom prev \<Longrightarrow>
     prev_ok g host prev' \<and> (found \<longleftrightarrow> (host, target) \<in> (include_edges g)\<^sup>*) \<and>
     (found \<longrightarrow> target \<in> dom prev')"
proof (induction g target queue prev arbitrary: n prev' found rule: chain_bfs.induct)
  case step: (1 g target queue prev)
  let ?E = "include_edges g"
  show ?case
  proof (cases "queue = []")
    case True
    then have "prev' = prev" "\<not> found" using step.prems(1) by (auto simp: chain_bfs.simps [of _ _ queue])
    moreover have "level ?E host n = {}" using True step.prems(2) by (auto simp: searched_def)
    then have "(host, target) \<notin> ?E\<^sup>*"
      using levels_exhausted [of ?E host n target] step.prems(2,3) unfolding searched_def
      by (metis UN_I atMost_iff less_imp_le)
    ultimately show ?thesis using step.prems(2) by (simp add: searched_def)
  next
    case False
    obtain p1 n1 f1 where v: "visit_level g target queue prev [] = (p1, n1, f1)" by (metis prod_cases3)
    note new = visit_level_new [OF v] and ok = visit_level_prev_ok [OF step.prems(2) v]
    show ?thesis
    proof (cases f1)
      case True
      with v False step.prems(1) have "prev' = p1" "found" by (auto simp: chain_bfs.simps [of _ _ queue])
      moreover have "target \<in> level ?E host (Suc n)" using new True ok(2) by blast
      ultimately show ?thesis using new True ok(1) level_reach by fastforce
    next
      case nf: False
      with v False step.prems(1) have rec: "chain_bfs g target n1 p1 = (prev', found)"
        by (simp add: chain_bfs.simps [of _ _ queue])
      have "target \<notin> dom p1" using new nf step.prems(3) by blast
      moreover have "searched g host (Suc n) n1 p1" using visit_level_searched [OF step.prems(2)] v nf by simp
      ultimately show ?thesis using step.IH [OF False v [symmetric] refl nf rec] by blast
    qed
  qed
qed

lemma walk_back_path:
  assumes ok: "prev_ok g host prev"
  shows "x \<in> dom prev \<Longrightarrow> x \<in> level (include_edges g) host n \<Longrightarrow>
    \<exists>w. walk_back prev host x chain = Some (chain @ w) \<and> length w = Suc n \<and> hd w = x \<and> last w = host \<and>
        successively (\<lambda>a b. (b, a) \<in> include_edges g) w"
proof (induction n arbitrary: x chain)
  case 0
  then have "walk_back prev host x chain = Some (chain @ [host])" by (subst walk_back.simps) simp
  with 0 show ?case by (intro exI [of _ "[host]"]) auto
next
  case (Suc n)
  have "x \<noteq> host" using Suc.prems(2) by (metis level_start nat.distinct(1))
  with ok Suc.prems(1) obtain y m where y: "prev x = Some y" "y \<in> dom prev" "(y, x) \<in> include_edges g"
    "y \<in> level (include_edges g) host m" "x \<in> level (include_edges g) host (Suc m)"
    unfolding prev_ok_def by blast
  then have "m = n" using level_unique [OF y(5) Suc.prems(2)] by simp
  with Suc.IH [OF y(2), of "chain @ [x]"] y(4) obtain w where w: "walk_back prev host y (chain @ [x]) = Some ((chain @ [x]) @ w)"
    "length w = Suc n" "hd w = y" "last w = host" "successively (\<lambda>a b. (b, a) \<in> include_edges g) w" by blast
  then have "walk_back prev host x chain = Some (chain @ (x # w))"
    using \<open>x \<noteq> host\<close> y(1) by (simp add: walk_back.simps [of _ _ x])
  moreover have "successively (\<lambda>a b. (b, a) \<in> include_edges g) (x # w)"
    using w(2,3,5) y(3) by (cases w) auto
  moreover have "w \<noteq> []" using w(2) by auto
  ultimately show ?case using w by (intro exI [of _ "x # w"]) auto
qed

lemma chain_search:
  assumes "host \<noteq> target" and "chain_bfs g target [host] [host \<mapsto> host] = (prev, found)"
  shows "prev_ok g host prev" and "found \<longleftrightarrow> (host, target) \<in> (include_edges g)\<^sup>*" and "found \<Longrightarrow> target \<in> dom prev"
proof -
  have "searched g host 0 [host] [host \<mapsto> host]" by (auto simp: searched_def prev_ok_def)
  from chain_bfs_correct [OF assms(2) this] assms(1)
  show "prev_ok g host prev" "found \<longleftrightarrow> (host, target) \<in> (include_edges g)\<^sup>*" "found \<Longrightarrow> target \<in> dom prev" by auto
qed

lemma prev_ok_level: "prev_ok g host prev \<Longrightarrow> x \<in> dom prev \<Longrightarrow> \<exists>n. x \<in> level (include_edges g) host n"
  unfolding prev_ok_def by (metis insertI1 level_zero)

text \<open>
  C14. \<open>find_include_chain\<close> always returns. It returns the empty chain exactly when the host does not
  include the target, directly or indirectly; otherwise the chain starts at the host, ends at the
  target, each file of it includes the next one, and no chain is shorter.
\<close>

theorem find_include_chain_shortest:
  "\<exists>chain. find_include_chain g host target = Some chain \<and>
     (chain = [] \<longleftrightarrow> (host, target) \<notin> (include_edges g)\<^sup>*) \<and>
     (chain \<noteq> [] \<longrightarrow>
        hd chain = host \<and> last chain = target \<and>
        successively (\<lambda>a b. (a, b) \<in> include_edges g) chain \<and>
        length chain = Suc (LEAST n. (host, target) \<in> include_edges g ^^ n))"
proof (cases "host = target")
  case True
  moreover have "(LEAST n. (target, target) \<in> include_edges g ^^ n) = 0" by (rule Least_eq_0) simp
  ultimately show ?thesis by (simp add: find_include_chain_def)
next
  case False
  obtain prev found where b: "chain_bfs g target [host] [host \<mapsto> host] = (prev, found)" by fastforce
  note c = chain_search [OF False b]
  show ?thesis
  proof (cases found)
    case nf: False
    with b False c(2) show ?thesis by (simp add: find_include_chain_def)
  next
    case True
    from prev_ok_level [OF c(1) c(3) [OF True]] obtain n where n: "target \<in> level (include_edges g) host n" by blast
    from walk_back_path [OF c(1) c(3) [OF True] n, of "[]"] obtain w where w:
      "walk_back prev host target [] = Some w" "length w = Suc n" "hd w = target" "last w = host"
      "successively (\<lambda>a b. (b, a) \<in> include_edges g) w" by auto
    have "find_include_chain g host target = Some (rev w)"
      using b False True w(1) by (simp add: find_include_chain_def)
    moreover have "w \<noteq> []" using w(2) by auto
    ultimately show ?thesis
      using w c(2) True level_Least [OF n] by (intro exI [of _ "rev w"]) (auto simp: hd_rev last_rev)
  qed
qed

lemma find_include_chain_shortest_witness:
  "find_include_chain demo_graph 3 4 = Some [3, 2, 4] \<and>
   (\<exists>chain. find_include_chain demo_graph 3 4 = Some chain \<and> chain \<noteq> [] \<and> hd chain = 3)"
proof -
  have all: "get_all_includes demo_graph 3 = [2]" "get_all_includes demo_graph 2 = [4]"
    by (simp_all add: demo_graph_def get_all_includes_def merge_include_def build_reverse_map_def set_includes_def
      empty_dependency_graph_def CONDITIONAL_FLAG_def PATH_ID_MASK_def push_unique_def get_list_def)
  have "find_include_chain demo_graph 3 4 = Some [3, 2, 4]"
    by (simp add: find_include_chain_def chain_bfs.simps [of _ _ "[3]"] chain_bfs.simps [of _ _ "[2]"] all
      PATH_ID_MASK_def walk_back.simps [of _ _ 4] walk_back.simps [of _ _ 2] walk_back.simps [of _ _ 3])
  with find_include_chain_shortest [of demo_graph 3 4] show ?thesis by auto
qed

end
