(* ===== verification/Include_Search.thy ===== *)
theory Include_Search
  imports Clice_Prelude
begin

text \<open>
  Header search: \<open>extract_search_config\<close> of \<open>src/src/command/search_config.{h,cpp}\<close> builds the four-segment
  list of search directories, and \<open>src/src/syntax/include_resolver.{h,cpp}\<close> finds an include in it through
  a cache of directory listings.

  LLVM's path functions, the file system and the option parser are not part of the sources; they are
  the fields of the record \<open>platform\<close>, an argument of every operation that calls them. A pointer to a
  cached \<open>StringSet\<close> is modelled by the set: an entry of the cache is never changed once it is there.
\<close>

section \<open>What the code calls\<close>

datatype option_id =
  OPT_iquote | OPT_I | OPT_isystem | OPT_internal_isystem | OPT_internal_externc_isystem |
  OPT_iprefix | OPT_iwithprefix | OPT_iwithprefixbefore | OPT_idirafter | OPT_other nat

record parsed_argument =
  arg_id :: option_id
  arg_values :: "string list"

record platform =
  is_absolute :: "string \<Rightarrow> bool"
  path_append :: "string \<Rightarrow> string \<Rightarrow> string"
  parent_path :: "string \<Rightarrow> string"
  path_filename :: "string \<Rightarrow> string"
  remove_dots :: "string \<Rightarrow> string"
  fs_make_absolute :: "string \<Rightarrow> string \<Rightarrow> string"
  fs_exists :: "string \<Rightarrow> bool"
  fs_listing :: "string \<Rightarrow> string list"
  listing_us :: "string \<Rightarrow> int"
  parse_options :: "string \<Rightarrow> string list \<Rightarrow> parsed_argument option list"

text \<open>
  \<open>fs_listing d\<close> are the paths the directory iterator yields before its end or its first error,
  \<open>listing_us d\<close> the duration measured around it, \<open>parse_options a0 args\<close> the results of the option
  table with the visibility of the driver \<open>a0\<close> (\<open>None\<close> for an argument that does not parse).
\<close>

section \<open>The search configuration\<close>

record search_config =
  dirs :: "string list"
  angled_start_idx :: u32
  system_start_idx :: u32
  after_start_idx :: u32

record search_groups =
  quoted :: "string list"
  angled :: "string list"
  system :: "string list"
  after :: "string list"
  prefix :: string

definition make_absolute :: "platform \<Rightarrow> string \<Rightarrow> string \<Rightarrow> string" where
  "make_absolute pf directory path =
     remove_dots pf (if is_absolute pf path then path else fs_make_absolute pf directory path)"

definition add_argument :: "platform \<Rightarrow> string \<Rightarrow> parsed_argument \<Rightarrow> search_groups \<Rightarrow> search_groups" where
  "add_argument pf directory arg s =
     (let value = arg_values arg ! 0; abs = make_absolute pf directory in
      case arg_id arg of
        OPT_iquote \<Rightarrow> s\<lparr>quoted := quoted s @ [abs value]\<rparr>
      | OPT_I \<Rightarrow> s\<lparr>angled := angled s @ [abs value]\<rparr>
      | OPT_isystem \<Rightarrow> s\<lparr>system := system s @ [abs value]\<rparr>
      | OPT_internal_isystem \<Rightarrow> s\<lparr>system := system s @ [abs value]\<rparr>
      | OPT_internal_externc_isystem \<Rightarrow> s\<lparr>system := system s @ [abs value]\<rparr>
      | OPT_iprefix \<Rightarrow> s\<lparr>prefix := value\<rparr>
      | OPT_iwithprefix \<Rightarrow> s\<lparr>after := after s @ [abs (prefix s @ value)]\<rparr>
      | OPT_iwithprefixbefore \<Rightarrow> s\<lparr>angled := angled s @ [abs (prefix s @ value)]\<rparr>
      | OPT_idirafter \<Rightarrow> s\<lparr>after := after s @ [abs value]\<rparr>
      | OPT_other _ \<Rightarrow> s)"

definition collect_groups :: "platform \<Rightarrow> string list \<Rightarrow> string \<Rightarrow> search_groups" where
  "collect_groups pf arguments directory =
     fold (\<lambda>result s. case result of None \<Rightarrow> s | Some arg \<Rightarrow> add_argument pf directory arg s)
       (parse_options pf (arguments ! 0) (tl arguments))
       \<lparr>quoted = [], angled = [], system = [], after = [], prefix = ''''\<rparr>"

definition concat_groups :: "search_groups \<Rightarrow> search_config" where
  "concat_groups s =
     \<lparr>dirs = quoted s @ angled s @ system s @ after s,
      angled_start_idx = of_nat (length (quoted s)),
      system_start_idx = of_nat (length (quoted s @ angled s)),
      after_start_idx = of_nat (length (quoted s @ angled s @ system s))\<rparr>"

text \<open>
  The in-place removal of duplicates: \<open>read\<close> and \<open>write\<close> are the loop's two indices, the last two
  arguments count what was removed below each boundary. The element moved from keeps its old value;
  the loop never reads it again.
\<close>

function dedup_loop ::
    "u32 \<Rightarrow> u32 \<Rightarrow> string list \<Rightarrow> nat \<Rightarrow> nat \<Rightarrow> string set \<Rightarrow> u32 \<Rightarrow> u32 \<Rightarrow> string list \<times> nat \<times> u32 \<times> u32" where
  "dedup_loop sys aft ds read write seen removed_before_system removed_before_after =
     (if read < length ds then
        (if ds ! read \<notin> seen then
           dedup_loop sys aft (if write \<noteq> read then ds[write := ds ! read] else ds)
             (Suc read) (Suc write) (insert (ds ! read) seen) removed_before_system removed_before_after
         else
           dedup_loop sys aft ds (Suc read) write seen
             (if read < unat sys then removed_before_system + 1 else removed_before_system)
             (if read < unat aft then removed_before_after + 1 else removed_before_after))
      else (ds, write, removed_before_system, removed_before_after))"
  by pat_completeness auto
termination
  by (relation "measure (\<lambda>(s, a, ds, r, w, seen, x, y). length ds - r)") auto

declare dedup_loop.simps [simp del]

definition dedup_config :: "search_config \<Rightarrow> search_config" where
  "dedup_config config =
     (case dedup_loop (system_start_idx config) (after_start_idx config) (dirs config)
             (unat (angled_start_idx config)) (unat (angled_start_idx config)) {} 0 0 of
        (ds, write, removed_before_system, removed_before_after) \<Rightarrow>
          config\<lparr>dirs := take write ds,
                 system_start_idx := system_start_idx config - removed_before_system,
                 after_start_idx := after_start_idx config - removed_before_after\<rparr>)"

definition extract_search_config :: "platform \<Rightarrow> string list \<Rightarrow> string \<Rightarrow> search_config" where
  "extract_search_config pf arguments directory =
     dedup_config (concat_groups (collect_groups pf arguments directory))"

section \<open>The resolver\<close>

record resolve_result =
  res_path :: string
  found_dir_idx :: u32

record stat_counters =
  dir_listings :: u64
  dir_hits :: u64
  lookups :: u64
  us :: int

record dir_listing_cache =
  cache_dirs :: "string \<rightharpoonup> string set"
  counters :: "stat_counters option"

record resolved_search_dir =
  rs_path :: string
  rs_entries :: "string set"

record resolved_search_config =
  rs_dirs :: "resolved_search_dir list"
  rs_angled_start_idx :: u32
  rs_system_start_idx :: u32
  rs_after_start_idx :: u32

definition count :: "(stat_counters \<Rightarrow> stat_counters) \<Rightarrow> dir_listing_cache \<Rightarrow> dir_listing_cache" where
  "count f c = c\<lparr>counters := map_option f (counters c)\<rparr>"

text \<open>\<open>resolve_dir\<close>; the counters it is given (a null pointer is \<open>None\<close>) travel with the cache.\<close>

definition resolve_dir :: "platform \<Rightarrow> string \<Rightarrow> dir_listing_cache \<Rightarrow> string set \<times> dir_listing_cache" where
  "resolve_dir pf dir cache =
     (case cache_dirs cache dir of
        Some entries \<Rightarrow> (entries, count (\<lambda>n. n\<lparr>dir_hits := dir_hits n + 1\<rparr>) cache)
      | None \<Rightarrow>
          let cache1 = count (\<lambda>n. n\<lparr>dir_listings := dir_listings n + 1\<rparr>) cache;
              entries = path_filename pf ` set (fs_listing pf dir);
              cache2 = count (\<lambda>n. n\<lparr>us := us n + listing_us pf dir\<rparr>) cache1
          in (entries, cache2\<lparr>cache_dirs := (cache_dirs cache2)(dir \<mapsto> entries)\<rparr>))"

definition without_counters :: "('a \<times> dir_listing_cache) \<Rightarrow> stat_counters option \<Rightarrow> 'a \<times> dir_listing_cache" where
  "without_counters r saved = (fst r, (snd r)\<lparr>counters := saved\<rparr>)"

fun resolve_dirs :: "platform \<Rightarrow> string list \<Rightarrow> dir_listing_cache \<Rightarrow> resolved_search_dir list \<times> dir_listing_cache" where
  "resolve_dirs pf [] cache = ([], cache)"
| "resolve_dirs pf (d # ds) cache =
     (case resolve_dir pf d cache of
        (entries, cache1) \<Rightarrow>
          (case resolve_dirs pf ds cache1 of
             (rest, cache2) \<Rightarrow> (\<lparr>rs_path = d, rs_entries = entries\<rparr> # rest, cache2)))"

definition resolve_search_config ::
    "platform \<Rightarrow> search_config \<Rightarrow> dir_listing_cache \<Rightarrow> resolved_search_config \<times> dir_listing_cache" where
  "resolve_search_config pf config cache =
     (case without_counters (resolve_dirs pf (dirs config) (cache\<lparr>counters := None\<rparr>)) (counters cache) of
        (ds, cache') \<Rightarrow>
          (\<lparr>rs_dirs = ds, rs_angled_start_idx = angled_start_idx config,
            rs_system_start_idx = system_start_idx config, rs_after_start_idx = after_start_idx config\<rparr>, cache'))"

definition is_sep :: "char \<Rightarrow> bool" where "is_sep c \<longleftrightarrow> c = CHR ''/'' \<or> c = CHR 0x5C"

definition first_component :: "string \<Rightarrow> string" where
  "first_component filename = takeWhile (\<lambda>c. \<not> is_sep c) filename"

definition check_in_dir ::
    "platform \<Rightarrow> string \<Rightarrow> string set \<Rightarrow> string \<Rightarrow> bool \<Rightarrow> dir_listing_cache \<Rightarrow> bool \<times> dir_listing_cache" where
  "check_in_dir pf dir_path entries filename is_simple dir_cache =
     (let cache1 = count (\<lambda>n. n\<lparr>lookups := lookups n + 1\<rparr>) dir_cache in
      if is_simple then (filename \<in> entries, cache1)
      else
        let first = first_component filename in
        if first \<noteq> ''.'' \<and> first \<noteq> ''..'' \<and> first \<notin> entries then (False, cache1)
        else
          let full = path_append pf dir_path filename;
              parent = parent_path pf full;
              name = path_filename pf full
          in (case resolve_dir pf parent cache1 of (sub_entries, cache2) \<Rightarrow> (name \<in> sub_entries, cache2)))"

text \<open>\<open>StringRef::find\<close> of a substring, as a test.\<close>

fun contains :: "string \<Rightarrow> string \<Rightarrow> bool" where
  "contains pat [] = (pat = [])"
| "contains pat (c # cs) = (take (length pat) (c # cs) = pat \<or> contains pat cs)"

definition is_simple_name :: "string \<Rightarrow> bool" where
  "is_simple_name filename \<longleftrightarrow> CHR ''/'' \<notin> set filename \<and> CHR 0x5C \<notin> set filename"

definition needs_normalize :: "string \<Rightarrow> bool" where
  "needs_normalize filename \<longleftrightarrow>
     \<not> is_simple_name filename \<and>
     (contains ''..'' filename \<or> contains ''./'' filename \<or> contains [CHR ''.'', CHR 0x5C] filename \<or>
      contains [CHR 0x5C, CHR ''.''] filename)"

definition make_candidate :: "platform \<Rightarrow> string \<Rightarrow> string \<Rightarrow> string" where
  "make_candidate pf dir filename =
     (let candidate = path_append pf dir filename in
      if needs_normalize filename then remove_dots pf candidate else candidate)"

fun search_dirs ::
    "platform \<Rightarrow> string \<Rightarrow> nat \<Rightarrow> resolved_search_dir list \<Rightarrow> dir_listing_cache \<Rightarrow> resolve_result option \<times> dir_listing_cache" where
  "search_dirs pf filename i [] dir_cache = (None, dir_cache)"
| "search_dirs pf filename i (d # ds) dir_cache =
     (case check_in_dir pf (rs_path d) (rs_entries d) filename (is_simple_name filename) dir_cache of
        (found, cache1) \<Rightarrow>
          if found then (Some \<lparr>res_path = make_candidate pf (rs_path d) filename, found_dir_idx = of_nat i\<rparr>, cache1)
          else search_dirs pf filename (Suc i) ds cache1)"

definition resolve_include ::
    "platform \<Rightarrow> string \<Rightarrow> bool \<Rightarrow> string set option \<Rightarrow> string \<Rightarrow> bool \<Rightarrow> u32 \<Rightarrow> resolved_search_config \<Rightarrow>
     dir_listing_cache \<Rightarrow> resolve_result option \<times> dir_listing_cache" where
  "resolve_include pf filename is_angled includer_entries includer_dir is_include_next found_idx config dir_cache =
     (if is_absolute pf filename then
        (if fs_exists pf filename then Some \<lparr>res_path = filename, found_dir_idx = 0\<rparr> else None, dir_cache)
      else if is_include_next then
        let start = unat (found_idx + 1) in search_dirs pf filename start (drop start (rs_dirs config)) dir_cache
      else
        case (if is_angled then (False, dir_cache)
              else case includer_entries of
                None \<Rightarrow> (False, dir_cache)
              | Some entries \<Rightarrow>
                  check_in_dir pf includer_dir entries filename (is_simple_name filename) dir_cache) of
          (found, cache1) \<Rightarrow>
            if found then (Some \<lparr>res_path = make_candidate pf includer_dir filename, found_dir_idx = 0\<rparr>, cache1)
            else
              let start = if is_angled then unat (rs_angled_start_idx config) else 0 in
              search_dirs pf filename start (drop start (rs_dirs config)) cache1)"

definition resolve_include_once ::
    "platform \<Rightarrow> string \<Rightarrow> bool \<Rightarrow> string \<Rightarrow> bool \<Rightarrow> u32 \<Rightarrow> search_config \<Rightarrow>
     dir_listing_cache \<Rightarrow> resolve_result option \<times> dir_listing_cache" where
  "resolve_include_once pf filename is_angled includer_dir is_include_next found_idx config dir_cache =
     (case resolve_search_config pf config dir_cache of
        (resolved, cache1) \<Rightarrow>
          (case (if includer_dir = [] then (None, cache1)
                 else case resolve_dir pf includer_dir cache1 of (entries, c) \<Rightarrow> (Some entries, c)) of
             (includer_entries, cache2) \<Rightarrow>
               resolve_include pf filename is_angled includer_entries includer_dir is_include_next found_idx
                 resolved cache2))"

section \<open>The four segments after the removal of duplicates\<close>

lemma dedup_loop_result:
  "dedup_loop sys aft ds r w seen a b = (ds', w', a', b') \<Longrightarrow> w \<le> r \<Longrightarrow> r \<le> length ds \<Longrightarrow>
     take w' ds' = take w ds @ news seen (drop r ds) \<and>
     a' + of_nat (length (news seen (take (unat sys - r) (drop r ds)))) = a + of_nat (min (length ds) (unat sys) - r) \<and>
     b' + of_nat (length (news seen (take (unat aft - r) (drop r ds)))) = b + of_nat (min (length ds) (unat aft) - r)"
proof (induction sys aft ds r w seen a b rule: dedup_loop.induct)
  case step: (1 sys aft ds r w seen a b)
  show ?case
  proof (cases "r < length ds")
    case False
    with step.prems show ?thesis by (simp add: dedup_loop.simps [of _ _ ds])
  next
    case True
    let ?x = "ds ! r"
    have rest: "drop r ds = ?x # drop (Suc r) ds" using True by (simp add: Cons_nth_drop_Suc)
    have part: "take (k - r) (drop r ds) = (if r < k then ?x # take (k - Suc r) (drop (Suc r) ds) else [])" for k
      by (auto simp: rest Suc_diff_Suc [symmetric] simp del: diff_Suc_Suc)
    have count_to: "min (length ds) k - r = (if r < k then Suc (min (length ds) k - Suc r) else 0)" for k
      using True by auto
    show ?thesis
    proof (cases "?x \<in> seen")
      case old: True
      then have n: "length (news seen (take (k - r) (drop r ds))) =
          (if r < k then length (news seen (take (k - Suc r) (drop (Suc r) ds))) else 0)" for k
        by (simp add: part)
      have d: "news seen (drop r ds) = news seen (drop (Suc r) ds)" using old by (subst rest) simp
      from step.prems(1) True old have rec: "dedup_loop sys aft ds (Suc r) w seen
          (if r < unat sys then a + 1 else a) (if r < unat aft then b + 1 else b) = (ds', w', a', b')"
        by (simp add: dedup_loop.simps [of _ _ ds])
      from step.IH(2) [OF True _ rec] old step.prems True show ?thesis
        unfolding n d count_to by (auto simp: algebra_simps)
    next
      case new: False
      let ?ds = "if w \<noteq> r then ds[w := ?x] else ds"
      from step.prems(1) True new have rec:
        "dedup_loop sys aft ?ds (Suc r) (Suc w) (insert ?x seen) a b = (ds', w', a', b')"
        by (simp add: dedup_loop.simps [of _ _ ds])
      have ds: "take (Suc w) ?ds = take w ds @ [?x]" "drop (Suc r) ?ds = drop (Suc r) ds" "length ?ds = length ds"
        using step.prems(2) True by (auto simp: take_Suc_conv_app_nth)
      have n: "length (news seen (take (k - r) (drop r ds))) =
          (if r < k then Suc (length (news (insert ?x seen) (take (k - Suc r) (drop (Suc r) ds)))) else 0)" for k
        using new by (simp add: part)
      have d: "news seen (drop r ds) = ?x # news (insert ?x seen) (drop (Suc r) ds)" using new by (subst rest) simp
      from step.IH(1) [OF True new rec] step.prems(2) True show ?thesis
        unfolding n d count_to ds by (auto simp: algebra_simps)
    qed
  qed
qed

lemma dedup_config_segments:
  assumes small: "length (q @ a @ s @ f) < 2 ^ 32"
  shows "dedup_config (concat_groups \<lparr>quoted = q, angled = a, system = s, after = f, prefix = p\<rparr>) =
    \<lparr>dirs = q @ news {} a @ news (set a) s @ news (set a \<union> set s) f,
     angled_start_idx = of_nat (length q),
     system_start_idx = of_nat (length q + length (news {} a)),
     after_start_idx = of_nat (length q + length (news {} a) + length (news (set a) s))\<rparr>"
proof -
  let ?ds = "q @ a @ s @ f"
  let ?sys = "of_nat (length q + length a) :: u32" and ?aft = "of_nat (length q + length a + length s) :: u32"
  have idx: "unat (of_nat (length q) :: u32) = length q" "unat ?sys = length q + length a"
    "unat ?aft = length q + length a + length s"
    using small by (simp_all add: unat_of_nat take_bit_nat_eq_self del: of_nat_add)
  obtain ds' w' x y where loop: "dedup_loop ?sys ?aft ?ds (length q) (length q) {} 0 0 = (ds', w', x, y)"
    by (metis prod_cases4)
  from dedup_loop_result [OF loop] idx have
    t: "take w' ds' = q @ news {} (a @ s @ f)" and
    x: "x + of_nat (length (news {} a)) = of_nat (length a)" and
    y: "y + of_nat (length (news {} (a @ s))) = of_nat (length a + length s)"
    by (simp_all add: min_def)
  have "?sys - x = of_nat (length q + length (news {} a))" using x by (simp add: algebra_simps)
  moreover have "?aft - y = of_nat (length q + length (news {} a) + length (news (set a) s))"
    using y by (simp add: news_append algebra_simps)
  ultimately show ?thesis
    using loop t idx by (simp add: dedup_config_def concat_groups_def news_append add.assoc)
qed

text \<open>
  \<open>extract_search_config\<close>: the directories are the quoted ones as given, followed by the angled,
  system and after groups from which every directory that occurred earlier in one of these three
  groups is removed (first occurrence wins, the quoted group does not count), and the three start
  indices are exactly the boundaries of the segments that remain. The indices are 32-bit.
\<close>

theorem extract_search_config_segments:
  assumes "g = collect_groups pf arguments directory"
    and "length (quoted g @ angled g @ system g @ after g) < 2 ^ 32"
  shows "extract_search_config pf arguments directory =
    \<lparr>dirs = quoted g @ news {} (angled g) @ news (set (angled g)) (system g) @
       news (set (angled g) \<union> set (system g)) (after g),
     angled_start_idx = of_nat (length (quoted g)),
     system_start_idx = of_nat (length (quoted g) + length (news {} (angled g))),
     after_start_idx = of_nat (length (quoted g) + length (news {} (angled g)) +
       length (news (set (angled g)) (system g)))\<rparr>"
  using dedup_config_segments [OF assms(2), of "prefix g"]
  unfolding extract_search_config_def assms(1) [symmetric] by (cases g) simp

definition demo_platform :: platform where
  "demo_platform =
     \<lparr>is_absolute = (\<lambda>p. take 1 p = ''/''), path_append = (\<lambda>d f. d @ ''/'' @ f),
      parent_path = (\<lambda>p. rev (drop 1 (dropWhile (\<lambda>c. c \<noteq> CHR ''/'') (rev p)))),
      path_filename = (\<lambda>p. rev (takeWhile (\<lambda>c. c \<noteq> CHR ''/'') (rev p))),
      remove_dots = id, fs_make_absolute = (\<lambda>d p. d @ ''/'' @ p), fs_exists = (\<lambda>p. False),
      fs_listing = (\<lambda>d. if d = ''/a'' then [''/a/x.h'', ''/a/sub''] else if d = ''/a/sub'' then [''/a/sub/y.h'']
                        else if d = ''/s'' then [''/s/x.h''] else []),
      listing_us = (\<lambda>d. 1),
      parse_options = (\<lambda>a0 args.
        [Some \<lparr>arg_id = OPT_iquote, arg_values = [''/a'']\<rparr>, Some \<lparr>arg_id = OPT_I, arg_values = [''/a'']\<rparr>,
         None, Some \<lparr>arg_id = OPT_isystem, arg_values = [''/a'']\<rparr>,
         Some \<lparr>arg_id = OPT_isystem, arg_values = [''/s'']\<rparr>])\<rparr>"

lemma demo_groups: "collect_groups demo_platform [''clang''] ''/d'' =
  \<lparr>quoted = [''/a''], angled = [''/a''], system = [''/a'', ''/s''], after = [], prefix = []\<rparr>"
  by (simp add: collect_groups_def demo_platform_def add_argument_def make_absolute_def)

definition demo_config :: search_config where
  "demo_config = \<lparr>dirs = [''/a'', ''/a'', ''/s''], angled_start_idx = 1, system_start_idx = 2, after_start_idx = 3\<rparr>"

lemma extract_search_config_segments_witness:
  "extract_search_config demo_platform [''clang''] ''/d'' = demo_config"
  using extract_search_config_segments [OF refl, of demo_platform "[''clang'']" "''/d''"]
  by (simp add: demo_groups demo_config_def)

section \<open>The listing cache is transparent\<close>

definition listing :: "platform \<Rightarrow> string \<Rightarrow> string set" where
  "listing pf dir = path_filename pf ` set (fs_listing pf dir)"

definition cache_ok :: "platform \<Rightarrow> dir_listing_cache \<Rightarrow> bool" where
  "cache_ok pf c \<longleftrightarrow> (\<forall>d e. cache_dirs c d = Some e \<longrightarrow> e = listing pf d)"

lemma cache_ok_counters [simp]:
  "cache_ok pf (c\<lparr>counters := n\<rparr>) = cache_ok pf c" "cache_ok pf (count f c) = cache_ok pf c"
  by (simp_all add: cache_ok_def count_def)

lemma resolve_dir_correct:
  "cache_ok pf c \<Longrightarrow> fst (resolve_dir pf d c) = listing pf d"
  "cache_ok pf c \<Longrightarrow> cache_ok pf (snd (resolve_dir pf d c))"
  by (auto simp: resolve_dir_def cache_ok_def listing_def count_def Let_def split: option.splits)

interpretation listings: cached_query "resolve_dir pf" "listing pf" "cache_ok pf" for pf
  by unfold_locales (simp_all add: resolve_dir_correct)

text \<open>What a search in one directory answers, with no cache: \<open>entries\<close> are the names the directory has.\<close>

definition in_dir :: "platform \<Rightarrow> string \<Rightarrow> string \<Rightarrow> string set \<Rightarrow> bool" where
  "in_dir pf filename dir entries \<longleftrightarrow>
     (if is_simple_name filename then filename \<in> entries
      else (first_component filename \<in> {''.'', ''..''} \<union> entries) \<and>
           (let full = path_append pf dir filename in
            path_filename pf full \<in> listing pf (parent_path pf full)))"

lemma check_in_dir_correct:
  assumes "cache_ok pf c"
  shows "fst (check_in_dir pf dir entries f (is_simple_name f) c) = in_dir pf f dir entries"
    and "cache_ok pf (snd (check_in_dir pf dir entries f (is_simple_name f) c))"
proof -
  let ?c = "count (\<lambda>n. n\<lparr>lookups := lookups n + 1\<rparr>) c"
  obtain c' where "cache_ok pf c'"
    "resolve_dir pf (parent_path pf (path_append pf dir f)) ?c = (listing pf (parent_path pf (path_append pf dir f)), c')"
    using assms by (auto intro: listings.query_split [of pf ?c "parent_path pf (path_append pf dir f)"])
  then show "fst (check_in_dir pf dir entries f (is_simple_name f) c) = in_dir pf f dir entries"
    and "cache_ok pf (snd (check_in_dir pf dir entries f (is_simple_name f) c))"
    using assms by (auto simp: check_in_dir_def in_dir_def Let_def)
qed

interpretation searches: cached_search
  "\<lambda>d. check_in_dir pf (rs_path d) (rs_entries d) f (is_simple_name f)"
  "\<lambda>d. in_dir pf f (rs_path d) (rs_entries d)" "cache_ok pf" "search_dirs pf f"
  "\<lambda>i d. \<lparr>res_path = make_candidate pf (rs_path d) f, found_dir_idx = of_nat i\<rparr>" for pf f
  by unfold_locales (simp_all add: check_in_dir_correct)

text \<open>The specification: the directory lists of the file system, searched from an index on.\<close>

definition search_spec :: "platform \<Rightarrow> string \<Rightarrow> string list \<Rightarrow> nat \<Rightarrow> resolve_result option" where
  "search_spec pf filename ds start =
     map_option (\<lambda>k. \<lparr>res_path = make_candidate pf (ds ! (start + k)) filename, found_dir_idx = of_nat (start + k)\<rparr>)
       (first_index (\<lambda>d. in_dir pf filename d (listing pf d)) (drop start ds))"

definition resolve_spec :: "platform \<Rightarrow> string \<Rightarrow> bool \<Rightarrow> string \<Rightarrow> bool \<Rightarrow> u32 \<Rightarrow> search_config \<Rightarrow> resolve_result option" where
  "resolve_spec pf filename is_angled includer_dir is_include_next found_idx config =
     (if is_absolute pf filename then
        if fs_exists pf filename then Some \<lparr>res_path = filename, found_dir_idx = 0\<rparr> else None
      else if is_include_next then search_spec pf filename (dirs config) (unat (found_idx + 1))
      else if \<not> is_angled \<and> includer_dir \<noteq> [] \<and> in_dir pf filename includer_dir (listing pf includer_dir) then
        Some \<lparr>res_path = make_candidate pf includer_dir filename, found_dir_idx = 0\<rparr>
      else search_spec pf filename (dirs config) (if is_angled then unat (angled_start_idx config) else 0))"

lemma resolve_dirs_correct:
  "cache_ok pf c \<Longrightarrow>
     fst (resolve_dirs pf ds c) = map (\<lambda>d. \<lparr>rs_path = d, rs_entries = listing pf d\<rparr>) ds \<and>
     cache_ok pf (snd (resolve_dirs pf ds c))"
proof (induction ds arbitrary: c)
  case (Cons d ds)
  from Cons.prems obtain c' where "cache_ok pf c'" "resolve_dir pf d c = (listing pf d, c')"
    by (rule listings.query_split)
  with Cons.IH [of c'] show ?case by (auto split: prod.splits)
qed simp

lemma first_index_map: "first_index p (map f xs) = first_index (\<lambda>x. p (f x)) xs"
  by (induction xs) auto

lemma search_dirs_correct:
  assumes "cache_ok pf c"
  shows "fst (search_dirs pf f start (drop start (map (\<lambda>d. \<lparr>rs_path = d, rs_entries = listing pf d\<rparr>) ds)) c) =
      search_spec pf f ds start"
    and "cache_ok pf (snd (search_dirs pf f start (drop start (map (\<lambda>d. \<lparr>rs_path = d, rs_entries = listing pf d\<rparr>) ds)) c))"
  using searches.scan_answer [OF assms, of f start "drop start (map (\<lambda>d. \<lparr>rs_path = d, rs_entries = listing pf d\<rparr>) ds)"]
  by (auto simp: search_spec_def drop_map first_index_map first_index_Some nth_map intro!: map_option_cong)

lemmas search_dirs_from = search_dirs_correct search_dirs_correct [where start = 0, simplified]

lemma resolve_include_correct:
  assumes c: "cache_ok pf c" and ds: "rs_dirs config' = map (\<lambda>d. \<lparr>rs_path = d, rs_entries = listing pf d\<rparr>) (dirs config)"
    and "rs_angled_start_idx config' = angled_start_idx config"
    and e: "includer_entries = (if includer_dir = [] then None else Some (listing pf includer_dir))"
  shows "fst (resolve_include pf f is_angled includer_entries includer_dir nxt idx config' c) =
      resolve_spec pf f is_angled includer_dir nxt idx config"
    and "cache_ok pf (snd (resolve_include pf f is_angled includer_entries includer_dir nxt idx config' c))"
proof -
  obtain c' where c': "cache_ok pf c'" "check_in_dir pf includer_dir (listing pf includer_dir) f (is_simple_name f) c =
      (in_dir pf f includer_dir (listing pf includer_dir), c')"
    using check_in_dir_correct [OF c, of includer_dir "listing pf includer_dir" f]
    by (cases "check_in_dir pf includer_dir (listing pf includer_dir) f (is_simple_name f) c") auto
  show "fst (resolve_include pf f is_angled includer_entries includer_dir nxt idx config' c) =
      resolve_spec pf f is_angled includer_dir nxt idx config"
    using c' assms by (auto simp: resolve_include_def resolve_spec_def Let_def search_dirs_from)
  show "cache_ok pf (snd (resolve_include pf f is_angled includer_entries includer_dir nxt idx config' c))"
    using c' assms by (auto simp: resolve_include_def Let_def search_dirs_from)
qed

text \<open>
  C13. \<open>resolve_include\<close> refines the search without a cache: as long as the cached listings are those of
  the file system, the result is the one the specification gives for the listings themselves (an
  absolute name is only looked up; \<open>#include_next\<close> starts behind the directory of the includer; a
  quoted include tries the directory of the includer first; then the first directory that has the
  file from the start of the include's segment on), whatever the cache holds, and the listings it
  adds to the cache are right again.
\<close>

theorem resolve_include_refines:
  assumes "cache_ok pf cache"
  shows "fst (resolve_include_once pf filename is_angled includer_dir is_include_next found_idx config cache) =
      resolve_spec pf filename is_angled includer_dir is_include_next found_idx config \<and>
    cache_ok pf (snd (resolve_include_once pf filename is_angled includer_dir is_include_next found_idx config cache))"
proof -
  let ?c0 = "cache\<lparr>counters := None\<rparr>"
  obtain ds c1 where d: "resolve_dirs pf (dirs config) ?c0 = (ds, c1)" by fastforce
  with resolve_dirs_correct [of pf ?c0 "dirs config"] assms
  have d': "ds = map (\<lambda>d. \<lparr>rs_path = d, rs_entries = listing pf d\<rparr>) (dirs config)" "cache_ok pf c1" by auto
  have "cache_ok pf (c1\<lparr>counters := counters cache\<rparr>)" using d'(2) by simp
  then obtain c2 where c2: "cache_ok pf c2"
    "resolve_dir pf includer_dir (c1\<lparr>counters := counters cache\<rparr>) = (listing pf includer_dir, c2)"
    by (rule listings.query_split)
  let ?rc = "\<lparr>rs_dirs = ds, rs_angled_start_idx = angled_start_idx config,
      rs_system_start_idx = system_start_idx config, rs_after_start_idx = after_start_idx config\<rparr>"
  have r: "resolve_search_config pf config cache = (?rc, c1\<lparr>counters := counters cache\<rparr>)"
    using d by (simp add: resolve_search_config_def without_counters_def)
  let ?e = "if includer_dir = [] then None else Some (listing pf includer_dir)"
  let ?c = "if includer_dir = [] then c1\<lparr>counters := counters cache\<rparr> else c2"
  have once: "resolve_include_once pf filename is_angled includer_dir is_include_next found_idx config cache =
      resolve_include pf filename is_angled ?e includer_dir is_include_next found_idx ?rc ?c"
    using r c2(2) by (simp add: resolve_include_once_def)
  have "cache_ok pf ?c" using c2(1) d'(2) by simp
  from resolve_include_correct [OF this _ _ refl, of ?rc config] d'(1) once show ?thesis by simp
qed

definition empty_cache :: dir_listing_cache where
  "empty_cache = \<lparr>cache_dirs = Map.empty, counters = Some \<lparr>dir_listings = 0, dir_hits = 0, lookups = 0, us = 0\<rparr>\<rparr>"

lemma resolve_include_refines_witness:
  "fst (resolve_include_once demo_platform ''sub/y.h'' True ''/s'' False 0 demo_config empty_cache) =
     Some \<lparr>res_path = ''/a/sub/y.h'', found_dir_idx = 1\<rparr> \<and>
   fst (resolve_include_once demo_platform ''x.h'' True ''/a'' True 1 demo_config empty_cache) =
     Some \<lparr>res_path = ''/s/x.h'', found_dir_idx = 2\<rparr>"
proof -
  have ok: "cache_ok demo_platform empty_cache" by (simp add: cache_ok_def empty_cache_def)
  show ?thesis
    using resolve_include_refines [OF ok, of "''sub/y.h''" True "''/s''" False 0 demo_config]
      resolve_include_refines [OF ok, of "''x.h''" True "''/a''" True 1 demo_config]
    by (simp add: resolve_spec_def search_spec_def in_dir_def listing_def demo_platform_def demo_config_def
        is_simple_name_def first_component_def is_sep_def make_candidate_def needs_normalize_def)
qed

end
