(* ===== verification/Fuzzy_Matcher.thy ===== *)
theory Fuzzy_Matcher
  imports Complex_Main Clice_Prelude "HOL-Library.Monad_Syntax" "HOL-Library.Sublist"
begin

unbundle bit_operations_syntax

text \<open>
  The fuzzy matcher of \<open>src/src/support/fuzzy_matcher.{h,cpp}\<close>: word segmentation by packed lookup tables,
  and the dynamic program that scores a pattern against a word.

  A \<open>char\<close> is a byte; where the code converts it to \<open>int\<close> it is signed, as on the platforms the
  program is built for. A read outside a table is \<open>None\<close>. The arrays \<open>Pat\<close>, \<open>word\<close>, \<dots> are lists of
  their used part. The score table keeps the memory it had before the constructor ran, the score
  field wraps at 15 bits, and a score that the code returns as a \<open>float\<close> is the rational number it
  stands for (rounding is not modelled).
\<close>

section \<open>Character types and roles\<close>

datatype char_type = Empty | Lower | Upper | Punctuation
datatype char_role = Unknown | Tail | Head | Separator

definition char_type_of_bits :: "u8 \<Rightarrow> char_type" where
  "char_type_of_bits b = (if b = 0 then Empty else if b = 1 then Lower else if b = 2 then Upper else Punctuation)"

definition char_role_of_bits :: "u8 \<Rightarrow> char_role" where
  "char_role_of_bits b = (if b = 0 then Unknown else if b = 1 then Tail else if b = 2 then Head else Separator)"

primrec type_number :: "char_type \<Rightarrow> nat" where
  "type_number Empty = 0"
| "type_number Lower = 1"
| "type_number Upper = 2"
| "type_number Punctuation = 3"

definition CharTypes :: "u8 list" where
  "CharTypes =
     [0x00, 0x00, 0x00, 0x00, 0x00, 0x00, 0x00, 0x00, 0xff, 0xff, 0xff, 0xff, 0x55, 0x55, 0xf5, 0xff,
      0xab, 0xaa, 0xaa, 0xaa, 0xaa, 0xaa, 0xea, 0xff, 0x57, 0x55, 0x55, 0x55, 0x55, 0x55, 0xd5, 0x3f,
      0x55, 0x55, 0x55, 0x55, 0x55, 0x55, 0x55, 0x55, 0x55, 0x55, 0x55, 0x55, 0x55, 0x55, 0x55, 0x55,
      0x55, 0x55, 0x55, 0x55, 0x55, 0x55, 0x55, 0x55, 0x55, 0x55, 0x55, 0x55, 0x55, 0x55, 0x55, 0x55]"

definition CharRoles :: "u8 list" where
  "CharRoles =
     [0x00, 0xaa, 0xaa, 0xff,
      0x00, 0x55, 0xaa, 0xff,
      0x00, 0x55, 0x59, 0xff,
      0x00, 0xaa, 0xaa, 0xff]"

definition packed_lookup :: "u8 list \<Rightarrow> int \<Rightarrow> u8 option" where
  "packed_lookup data i =
     (let byte = i div 4 in
      if 0 \<le> byte \<and> nat byte < length data
      then Some (drop_bit (nat (i mod 4) * 2) (data ! nat byte) AND 3)
      else None)"

definition char_type :: "u8 \<Rightarrow> char_type option" where
  "char_type c = map_option char_type_of_bits (packed_lookup CharTypes (sint c))"

definition rotate_types :: "int \<Rightarrow> char_type \<Rightarrow> int" where
  "rotate_types types t = (push_bit 2 types OR int (type_number t)) AND 0x3f"

definition char_role :: "int \<Rightarrow> char_role option" where
  "char_role types = map_option char_role_of_bits (packed_lookup CharRoles types)"

fun roles_loop :: "u8 list \<Rightarrow> int \<Rightarrow> u8 \<Rightarrow> char_role list \<Rightarrow> (u8 \<times> char_role list) option" where
  "roles_loop [] types type_set roles =
     do { r \<leftarrow> char_role (rotate_types types Empty); Some (type_set, roles @ [r]) }"
| "roles_loop (c # text) types type_set roles =
     do { t \<leftarrow> char_type c;
          r \<leftarrow> char_role (rotate_types types t);
          roles_loop text (rotate_types types t) (type_set OR push_bit (type_number t) 1) (roles @ [r]) }"

definition calculate_roles :: "u8 list \<Rightarrow> (u8 \<times> char_role list) option" where
  "calculate_roles text =
     (case text of
        [] \<Rightarrow> Some (0, [])
      | c # rest \<Rightarrow>
          do { t \<leftarrow> char_type c;
               roles_loop rest (int (type_number t)) (push_bit (type_number t) 1) [] })"

section \<open>The matcher\<close>

definition MaxPat :: nat where "MaxPat = 63"
definition MaxWord :: nat where "MaxWord = 127"

abbreviation (input) Miss :: bool where "Miss \<equiv> False"
abbreviation (input) Match :: bool where "Match \<equiv> True"

record score_info =
  score :: int
  Prev :: bool

type_synonym score_table = "nat \<Rightarrow> nat \<Rightarrow> bool \<Rightarrow> score_info"

record fuzzy_matcher =
  Pat :: "u8 list"
  pat_n :: nat
  low_pat :: "u8 list"
  pat_role :: "char_role list"
  pat_type_set :: u8
  score_scale :: rat
  word :: "u8 list"
  word_n :: nat
  low_word :: "u8 list"
  word_role :: "char_role list"
  word_type_set :: u8
  word_contains_pattern :: bool
  scores :: score_table

definition lower :: "u8 \<Rightarrow> u8" where
  "lower c = (if 0x41 \<le> sint c \<and> sint c \<le> 0x5A then c + 0x20 else c)"

definition AwfulScore :: int where "AwfulScore = - (2 ^ 13)"

definition is_awful :: "int \<Rightarrow> bool" where "is_awful s \<longleftrightarrow> s < AwfulScore div 2"

definition PerfectBonus :: int where "PerfectBonus = 4"

text \<open>Storing into the field \<open>signed int score : 15\<close>.\<close>

definition bitfield15 :: "int \<Rightarrow> int" where
  "bitfield15 x = (x + 2 ^ 14) mod 2 ^ 15 - 2 ^ 14"

definition set_cell :: "nat \<Rightarrow> nat \<Rightarrow> bool \<Rightarrow> int \<Rightarrow> bool \<Rightarrow> score_table \<Rightarrow> score_table" where
  "set_cell p w a s prev t =
     (\<lambda>p' w' a'. if p' = p \<and> w' = w \<and> a' = a then \<lparr>score = bitfield15 s, Prev = prev\<rparr> else t p' w' a')"

text \<open>The constructor; \<open>memory\<close> is what the score table held before.\<close>

definition initial_scores :: "nat \<Rightarrow> score_table \<Rightarrow> score_table" where
  "initial_scores n memory =
     fold (\<lambda>p. fold (\<lambda>w. fold (\<lambda>a. set_cell p w a AwfulScore Miss) [Miss, Match]) [0..<p]) [0..<Suc n]
       (set_cell 0 0 Match AwfulScore Miss (set_cell 0 0 Miss 0 Miss memory))"

definition new_matcher :: "u8 list \<Rightarrow> score_table \<Rightarrow> fuzzy_matcher option" where
  "new_matcher pattern memory =
     (let n = min MaxPat (length pattern); pat = take n pattern in
      do { (type_set, roles) \<leftarrow> calculate_roles pat;
           Some \<lparr>Pat = pat, pat_n = n, low_pat = map lower pat, pat_role = roles, pat_type_set = type_set,
                 score_scale = (if n \<noteq> 0 then 1 / (of_int PerfectBonus * of_nat n) else 0),
                 word = [], word_n = 0, low_word = [], word_role = [], word_type_set = 0,
                 word_contains_pattern = False, scores = initial_scores n memory\<rparr> })"

text \<open>The loop of the cheap subsequence check, on the rest of the word and of the pattern.\<close>

fun subsequence_check :: "u8 list \<Rightarrow> u8 list \<Rightarrow> bool" where
  "subsequence_check ws [] = True"
| "subsequence_check [] (p # ps) = False"
| "subsequence_check (w # ws) (p # ps) = (if w = p then subsequence_check ws ps else subsequence_check ws (p # ps))"

definition init :: "u8 list \<Rightarrow> fuzzy_matcher \<Rightarrow> (bool \<times> fuzzy_matcher) option" where
  "init new_word m =
     (let m1 = m\<lparr>word_n := min MaxWord (length new_word)\<rparr> in
      if pat_n m1 > word_n m1 then Some (False, m1)
      else
        let m2 = m1\<lparr>word := take (word_n m1) new_word\<rparr> in
        if pat_n m2 = 0 then Some (True, m2)
        else
          let m3 = m2\<lparr>low_word := map lower (word m2)\<rparr> in
          if \<not> subsequence_check (low_word m3) (low_pat m3) then Some (False, m3)
          else do { (type_set, roles) \<leftarrow> calculate_roles (word m3);
                    Some (True, m3\<lparr>word_type_set := type_set, word_role := roles\<rparr>) })"

definition allow_match :: "fuzzy_matcher \<Rightarrow> nat \<Rightarrow> nat \<Rightarrow> bool \<Rightarrow> bool" where
  "allow_match m p w prior \<longleftrightarrow>
     low_pat m ! p = low_word m ! w \<and>
     \<not> (prior = Miss \<and> word_role m ! w = Tail \<and>
        (word m ! w = low_word m ! w \<or> word_type_set m AND push_bit (type_number Lower) 1 = 0))"

definition skip_penalty :: "fuzzy_matcher \<Rightarrow> nat \<Rightarrow> bool \<Rightarrow> int" where
  "skip_penalty m w prior = (if w = 0 then 3 else if word_role m ! w = Head then 1 else 0)"

definition match_bonus :: "fuzzy_matcher \<Rightarrow> nat \<Rightarrow> nat \<Rightarrow> bool \<Rightarrow> int" where
  "match_bonus m p w prior =
     (let is_pat_single_case =
            pat_type_set m = push_bit (type_number Lower) 1 \<or> pat_type_set m = push_bit (type_number Upper) 1;
          s1 = 1 + (if Pat m ! p = word m ! w \<or>
                       word_role m ! w = Head \<and> (is_pat_single_case \<or> pat_role m ! p = Head) then 1 else 0);
          s2 = s1 + (if w = 0 \<or> prior = Match then 2 else 0);
          s3 = s2 - (if word_role m ! w = Tail \<and> p \<noteq> 0 \<and> prior = Miss then 3 else 0);
          s4 = s3 - (if pat_role m ! p = Head \<and> word_role m ! w = Tail then 1 else 0)
      in s4 - (if p = 0 \<and> word_role m ! w = Tail then 4 else 0))"

definition first_row :: "fuzzy_matcher \<Rightarrow> nat \<Rightarrow> score_table \<Rightarrow> score_table" where
  "first_row m w t =
     set_cell 0 (Suc w) Match AwfulScore Miss
       (set_cell 0 (Suc w) Miss (score (t 0 w Miss) - skip_penalty m w Miss) Miss t)"

definition graph_cell :: "fuzzy_matcher \<Rightarrow> nat \<Rightarrow> nat \<Rightarrow> score_table \<Rightarrow> score_table" where
  "graph_cell m p w t =
     (let pre_miss = t (Suc p) w;
          trailing = \<not> int p < int (pat_n m) - 1;
          match_miss_score = score (pre_miss Match) - (if trailing then 0 else skip_penalty m w Match);
          miss_miss_score = score (pre_miss Miss) - (if trailing then 0 else skip_penalty m w Miss);
          t1 = (if match_miss_score > miss_miss_score
                then set_cell (Suc p) (Suc w) Miss match_miss_score Match t
                else set_cell (Suc p) (Suc w) Miss miss_miss_score Miss t);
          pre_match = t1 p w;
          match_match_score = (if allow_match m p w Match then score (pre_match Match) + match_bonus m p w Match
                               else AwfulScore);
          miss_match_score = (if allow_match m p w Miss then score (pre_match Miss) + match_bonus m p w Miss
                              else AwfulScore)
      in if match_match_score > miss_match_score
         then set_cell (Suc p) (Suc w) Match match_match_score Match t1
         else set_cell (Suc p) (Suc w) Match miss_match_score Miss t1)"

definition build_graph :: "fuzzy_matcher \<Rightarrow> fuzzy_matcher" where
  "build_graph m =
     m\<lparr>scores := fold (\<lambda>p. fold (graph_cell m p) [p..<word_n m]) [0..<pat_n m]
                  (fold (first_row m) [0..<word_n m] (scores m))\<rparr>"

definition best_score :: "fuzzy_matcher \<Rightarrow> int" where
  "best_score m = max (score (scores m (pat_n m) (word_n m) Miss)) (score (scores m (pat_n m) (word_n m) Match))"

definition match_word :: "u8 list \<Rightarrow> fuzzy_matcher \<Rightarrow> (rat option \<times> fuzzy_matcher) option" where
  "match_word new_word m =
     do { (contained, m1) \<leftarrow> init new_word m;
          let m2 = m1\<lparr>word_contains_pattern := contained\<rparr>;
          if \<not> contained then Some (None, m2)
          else if pat_n m2 = 0 then Some (Some 1, m2)
          else
            let m3 = build_graph m2; best = best_score m3 in
            if is_awful best then Some (None, m3)
            else
              let s = score_scale m3 * of_int (min (PerfectBonus * int (pat_n m3)) (max 0 best)) in
              Some (Some (if word_n m3 = pat_n m3 then s * 2 else s), m3) }"

text \<open>
  \<open>dumpLast\<close>: the walk back through the table (the actions \<open>A\<close>, last word character first) and the
  bracketed word it returns. A step out of the table is \<open>None\<close>. What it prints is not modelled.
\<close>

fun trace_back :: "fuzzy_matcher \<Rightarrow> nat \<Rightarrow> nat \<Rightarrow> bool \<Rightarrow> bool list option" where
  "trace_back m 0 row prior = Some []"
| "trace_back m (Suc w) row prior =
     (if prior \<and> row = 0 then None
      else map_option (Cons prior)
             (trace_back m w (if prior then row - 1 else row) (Prev (scores m row (Suc w) prior))))"

fun bracket_word :: "bool \<Rightarrow> bool list \<Rightarrow> u8 list \<Rightarrow> u8 list" where
  "bracket_word opened (a # acts) (c # cs) =
     (if a \<and> \<not> opened then [0x5B] else []) @ (if \<not> a \<and> opened then [0x5D] else []) @ c # bracket_word a acts cs"
| "bracket_word opened acts cs = (if opened then [0x5D] else [])"

definition dump_last :: "fuzzy_matcher \<Rightarrow> u8 list option" where
  "dump_last m =
     (if pat_n m = 0 then Some (word m)
      else if word_n m = 0 then Some []
      else if \<not> word_contains_pattern m then Some []
      else
        let prior = score (scores m (pat_n m) (word_n m) Match) > score (scores m (pat_n m) (word_n m) Miss) in
        map_option (\<lambda>acts. bracket_word Miss (rev acts) (word m)) (trace_back m (word_n m) (pat_n m) prior))"

section \<open>Segmentation against its reference\<close>

text \<open>The types and roles the comments of the source describe, without tables.\<close>

definition ascii_type :: "nat \<Rightarrow> char_type" where
  "ascii_type n =
     (if n < 32 \<or> n = 127 then Empty
      else if 48 \<le> n \<and> n \<le> 57 \<or> 97 \<le> n \<and> n \<le> 122 then Lower
      else if 65 \<le> n \<and> n \<le> 90 then Upper
      else Punctuation)"

fun role_of :: "char_type \<Rightarrow> char_type \<Rightarrow> char_type \<Rightarrow> char_role" where
  "role_of p Empty n = Unknown"
| "role_of p Punctuation n = Separator"
| "role_of p Lower n = (if p = Empty \<or> p = Punctuation then Head else Tail)"
| "role_of p Upper n = (if p = Upper \<and> n \<noteq> Lower then Tail else Head)"

fun segment_roles :: "char_type \<Rightarrow> char_type list \<Rightarrow> char_role list" where
  "segment_roles p [] = []"
| "segment_roles p (c # cs) = role_of p c (case cs of [] \<Rightarrow> Empty | n # _ \<Rightarrow> n) # segment_roles c cs"

definition type_bits :: "char_type list \<Rightarrow> u8" where
  "type_bits ts = fold (\<lambda>t s. s OR push_bit (type_number t) 1) ts 0"

lemma char_type_table: "\<forall>n \<in> set [0..<128]. char_type (of_nat n) = Some (ascii_type n)"
  by code_simp

lemma char_type_ascii:
  assumes "unat c < 128"
  shows "char_type c = Some (ascii_type (unat c))"
proof -
  have "char_type (of_nat (unat c)) = Some (ascii_type (unat c))"
    using assms char_type_table by (metis atLeast_upt lessThan_iff)
  then show ?thesis by simp
qed

lemma sint_high_table: "\<forall>n \<in> set [128..<256]. sint (of_nat n :: u8) < 0"
  by code_simp

lemma sint_high:
  assumes "128 \<le> unat (c :: u8)"
  shows "sint c < 0"
proof -
  have "unat c < 2 ^ 8" using unsigned_less [of c] by simp
  then have "unat c < 256" by simp
  then have "sint (of_nat (unat c) :: u8) < 0" using assms sint_high_table by (metis atLeastLessThan_iff set_upt)
  then show ?thesis by simp
qed

lemma char_type_high: "128 \<le> unat c \<Longrightarrow> char_type c = None"
  using sint_high [of c] by (simp add: char_type_def packed_lookup_def Let_def)

definition window :: "char_type \<Rightarrow> char_type \<Rightarrow> char_type \<Rightarrow> int" where
  "window p c n = int (16 * type_number p + 4 * type_number c + type_number n)"

lemma char_role_window: "char_role (window p c n) = Some (role_of p c n)"
  by (cases p; cases c; cases n)
    (simp_all add: char_role_def packed_lookup_def window_def CharRoles_def char_role_of_bits_def Let_def)

lemma rotate_window: "rotate_types (window a p c) n = window p c n"
  by (cases a; cases p; cases c; cases n) (simp_all add: rotate_types_def window_def)

lemma roles_loop_ascii:
  "\<forall>c \<in> set bytes. unat c < 128 \<Longrightarrow>
     roles_loop bytes (window a p t) type_set roles =
       Some (fold (\<lambda>t s. s OR push_bit (type_number t) 1) (map (\<lambda>c. ascii_type (unat c)) bytes) type_set,
             roles @ segment_roles p (t # map (\<lambda>c. ascii_type (unat c)) bytes))"
  by (induction bytes arbitrary: a p t type_set roles)
    (auto simp: rotate_window char_role_window char_type_ascii)

lemma roles_loop_high:
  "\<exists>c \<in> set bytes. 128 \<le> unat c \<Longrightarrow> roles_loop bytes (window a p t) type_set roles = None"
proof (induction bytes arbitrary: a p t type_set roles)
  case (Cons c bytes)
  then show ?case
    by (cases "128 \<le> unat c")
      (auto simp: char_type_high char_type_ascii rotate_window char_role_window not_le)
qed simp



lemma segment_roles_length [simp]: "length (segment_roles p ts) = length ts"
  by (induction p ts rule: segment_roles.induct) auto

section \<open>The score table against a recursive reference\<close>

text \<open>
  The cell the table is meant to hold for a pattern prefix of length \<open>row\<close> and a word prefix of
  length \<open>w\<close>, by recursion on the word prefix.
\<close>

definition miss_cell :: "fuzzy_matcher \<Rightarrow> nat \<Rightarrow> nat \<Rightarrow> (bool \<Rightarrow> score_info) \<Rightarrow> score_info" where
  "miss_cell m row w pre =
     (let pen = (\<lambda>a. if row < pat_n m then skip_penalty m w a else 0);
          mm = score (pre Match) - pen Match; ms = score (pre Miss) - pen Miss
      in if mm > ms then \<lparr>score = bitfield15 mm, Prev = Match\<rparr> else \<lparr>score = bitfield15 ms, Prev = Miss\<rparr>)"

definition match_cell :: "fuzzy_matcher \<Rightarrow> nat \<Rightarrow> nat \<Rightarrow> (bool \<Rightarrow> score_info) \<Rightarrow> score_info" where
  "match_cell m p w pre =
     (let v = (\<lambda>a. if allow_match m p w a then score (pre a) + match_bonus m p w a else AwfulScore)
      in if v Match > v Miss then \<lparr>score = bitfield15 (v Match), Prev = Match\<rparr>
         else \<lparr>score = bitfield15 (v Miss), Prev = Miss\<rparr>)"

fun cell :: "fuzzy_matcher \<Rightarrow> nat \<Rightarrow> nat \<Rightarrow> bool \<Rightarrow> score_info" where
  "cell m row 0 a = (if row = 0 \<and> a = Miss then \<lparr>score = 0, Prev = Miss\<rparr> else \<lparr>score = AwfulScore, Prev = Miss\<rparr>)"
| "cell m 0 (Suc w) a =
     (if a = Miss then \<lparr>score = bitfield15 (score (cell m 0 w Miss) - skip_penalty m w Miss), Prev = Miss\<rparr>
      else \<lparr>score = AwfulScore, Prev = Miss\<rparr>)"
| "cell m (Suc p) (Suc w) a =
     (if w < p then \<lparr>score = AwfulScore, Prev = Miss\<rparr>
      else if a = Miss then miss_cell m (Suc p) w (cell m (Suc p) w)
      else match_cell m p w (cell m p w))"

lemma bitfield15_id: "- (2 ^ 14) \<le> x \<Longrightarrow> x < 2 ^ 14 \<Longrightarrow> bitfield15 x = x"
  by (simp add: bitfield15_def mod_pos_pos_trivial)

lemma bitfield15_awful [simp]: "bitfield15 AwfulScore = AwfulScore"
  and bitfield15_zero [simp]: "bitfield15 0 = 0"
  by (simp_all add: bitfield15_def AwfulScore_def)

definition agrees :: "fuzzy_matcher \<Rightarrow> score_table \<Rightarrow> (nat \<times> nat) set \<Rightarrow> bool" where
  "agrees m t D \<longleftrightarrow> (\<forall>(p, w) \<in> D. t p w = cell m p w)"

lemma agrees_mono: "agrees m t D \<Longrightarrow> E \<subseteq> D \<Longrightarrow> agrees m t E"
  by (auto simp: agrees_def)

lemma agrees_first_row:
  assumes "agrees m t D" and "(0, w) \<in> D"
  shows "agrees m (first_row m w t) (insert (0, Suc w) D)"
  using assms by (fastforce simp: agrees_def first_row_def set_cell_def fun_eq_iff)

lemma graph_cell_eq:
  "graph_cell m p w t p' w' =
     (if p' = Suc p \<and> w' = Suc w then
        (\<lambda>a. if a = Miss then miss_cell m (Suc p) w (t (Suc p) w) else match_cell m p w (t p w))
      else t p' w')"
proof -
  have "(\<not> int p < int (pat_n m) - 1) = (\<not> Suc p < pat_n m)" by auto
  then show ?thesis
    by (auto simp: graph_cell_def set_cell_def miss_cell_def match_cell_def Let_def fun_eq_iff)
qed

lemma agrees_graph_cell:
  assumes "agrees m t D" and "(Suc p, w) \<in> D" and "(p, w) \<in> D" and "p \<le> w"
  shows "agrees m (graph_cell m p w t) (insert (Suc p, Suc w) D)"
proof -
  have "t (Suc p) w = cell m (Suc p) w" "t p w = cell m p w" using assms by (auto simp: agrees_def)
  then have "graph_cell m p w t (Suc p) (Suc w) = cell m (Suc p) (Suc w)"
    using assms(4) by (auto simp: graph_cell_eq)
  with assms(1) show ?thesis by (auto simp: agrees_def graph_cell_eq)
qed

lemma agrees_row:
  assumes "agrees m t D" and "\<And>w. w \<le> n \<Longrightarrow> (p, w) \<in> D" and "(Suc p, p) \<in> D" and "p \<le> k" and "k \<le> n"
  shows "agrees m (fold (graph_cell m p) [p..<k] t) (D \<union> {Suc p} \<times> {p..k})"
  using assms(4,5)
proof (induction k rule: dec_induct)
  case base
  then show ?case using assms(1,3) by (auto simp: insert_absorb)
next
  case (step k)
  have "agrees m (graph_cell m p k (fold (graph_cell m p) [p..<k] t)) (insert (Suc p, Suc k) (D \<union> {Suc p} \<times> {p..k}))"
    by (rule agrees_graph_cell) (use step assms(2) in auto)
  moreover have "insert (Suc p, Suc k) (D \<union> {Suc p} \<times> {p..k}) = D \<union> {Suc p} \<times> {p..Suc k}"
    using step.hyps by (auto simp: atLeastAtMostSuc_conv)
  ultimately show ?case using step.hyps by simp
qed

lemma agrees_first_rows:
  assumes "agrees m t D" and "(0, 0) \<in> D"
  shows "agrees m (fold (first_row m) [0..<k] t) (D \<union> {0} \<times> {0..k})"
proof (induction k)
  case 0
  then show ?case using assms by (auto simp: insert_absorb)
next
  case (Suc k)
  have "agrees m (first_row m k (fold (first_row m) [0..<k] t)) (insert (0, Suc k) (D \<union> {0} \<times> {0..k}))"
    by (rule agrees_first_row) (use Suc in auto)
  moreover have "insert (0, Suc k) (D \<union> {0} \<times> {0..k}) = D \<union> {0} \<times> {0..Suc k}" by (auto simp: atLeastAtMostSuc_conv)
  ultimately show ?case by simp
qed

abbreviation borders :: "nat \<Rightarrow> (nat \<times> nat) set" where
  "borders n \<equiv> insert (0, 0) {(p, w). w < p \<and> p \<le> n}"

lemma agrees_rows:
  assumes "agrees m t (borders (pat_n m) \<union> {0} \<times> {0..n})" and "pat_n m \<le> n" and "k \<le> pat_n m"
  shows "agrees m (fold (\<lambda>p. fold (graph_cell m p) [p..<n]) [0..<k] t) (borders (pat_n m) \<union> {0..k} \<times> {0..n})"
  using assms(3)
proof (induction k)
  case 0
  then show ?case using assms(1) by simp
next
  case (Suc k)
  let ?t = "fold (\<lambda>p. fold (graph_cell m p) [p..<n]) [0..<k] t"
  have "agrees m (fold (graph_cell m k) [k..<n] ?t) ((borders (pat_n m) \<union> {0..k} \<times> {0..n}) \<union> {Suc k} \<times> {k..n})"
    by (rule agrees_row [where n = n]) (use Suc assms(2) in auto)
  moreover have "borders (pat_n m) \<union> {0..Suc k} \<times> {0..n} \<subseteq>
      (borders (pat_n m) \<union> {0..k} \<times> {0..n}) \<union> {Suc k} \<times> {k..n}"
    using Suc.prems by (auto simp: atLeastAtMostSuc_conv)
  ultimately have "agrees m (fold (graph_cell m k) [k..<n] ?t) (borders (pat_n m) \<union> {0..Suc k} \<times> {0..n})"
    by (rule agrees_mono)
  then show ?case by simp
qed

lemma build_graph_cells:
  assumes "agrees m (scores m) (borders (pat_n m))" and "pat_n m \<le> word_n m" and "p \<le> pat_n m" and "w \<le> word_n m"
  shows "scores (build_graph m) p w = cell m p w"
proof -
  have "agrees m (fold (first_row m) [0..<word_n m] (scores m)) (borders (pat_n m) \<union> {0} \<times> {0..word_n m})"
    by (rule agrees_first_rows) (use assms(1) in auto)
  from agrees_rows [OF this assms(2) order_refl] have
    "agrees m (scores (build_graph m)) (borders (pat_n m) \<union> {0..pat_n m} \<times> {0..word_n m})"
    by (simp add: build_graph_def)
  with assms(3,4) show ?thesis by (auto simp: agrees_def)
qed

text \<open>The constructor fills the borders, whatever the memory held.\<close>

lemma set_awful_row:
  "fold (\<lambda>w. fold (\<lambda>a. set_cell p w a AwfulScore Miss) [Miss, Match]) [0..<k] t =
     (\<lambda>p' w' a'. if p' = p \<and> w' < k then \<lparr>score = AwfulScore, Prev = Miss\<rparr> else t p' w' a')"
  by (induction k) (auto simp: set_cell_def fun_eq_iff)

lemma initial_scores_eq:
  "initial_scores n memory p w a =
     (if w < p \<and> p \<le> n \<or> p = 0 \<and> w = 0 \<and> a = Match then \<lparr>score = AwfulScore, Prev = Miss\<rparr>
      else if p = 0 \<and> w = 0 then \<lparr>score = 0, Prev = Miss\<rparr> else memory p w a)"
proof -
  have "fold (\<lambda>p. fold (\<lambda>w. fold (\<lambda>a. set_cell p w a AwfulScore Miss) [Miss, Match]) [0..<p]) [0..<k] t p w a =
      (if w < p \<and> p < k then \<lparr>score = AwfulScore, Prev = Miss\<rparr> else t p w a)" for k t
    unfolding set_awful_row by (induction k) auto
  note rows = this [of "Suc n"]
  show ?thesis unfolding initial_scores_def rows by (auto simp: set_cell_def)
qed

lemma cell_border: "w < p \<Longrightarrow> cell m p w a = \<lparr>score = AwfulScore, Prev = Miss\<rparr>"
  by (cases "(m, p, w, a)" rule: cell.cases) auto

lemma initial_scores_agree: "agrees m (initial_scores n memory) (borders n)"
  by (auto simp: agrees_def initial_scores_eq cell_border fun_eq_iff)

section \<open>Bounds of the scores\<close>

lemma skip_penalty_bounds: "0 \<le> skip_penalty m w a" "skip_penalty m w a \<le> (if w = 0 then 3 else 1)"
  by (auto simp: skip_penalty_def)

lemma match_bonus_bounds: "- 4 \<le> match_bonus m p w a" "match_bonus m p w a \<le> PerfectBonus"
  by (auto simp: match_bonus_def PerfectBonus_def Let_def)

definition low_bound :: "nat \<Rightarrow> nat \<Rightarrow> int" where
  "low_bound row w = AwfulScore - (if w = 0 then 0 else 2 + int w) - 4 * int row"

lemma low_bound_miss: "low_bound row (Suc w) \<le> low_bound row w - skip_penalty m w a"
  using skip_penalty_bounds [of m w a] by (auto simp: low_bound_def split: if_splits)

lemma low_bound_match: "low_bound (Suc row) (Suc w) \<le> low_bound row w + match_bonus m p w' a"
  using match_bonus_bounds [of m p w' a] by (auto simp: low_bound_def split: if_splits)

lemma low_bound_mono: "low_bound row (Suc w) \<le> low_bound row w" "low_bound row w \<le> AwfulScore"
  by (auto simp: low_bound_def)

lemma low_bound_range: "row \<le> 63 \<Longrightarrow> w \<le> 127 \<Longrightarrow> - (2 ^ 14) \<le> low_bound row w"
  by (auto simp: low_bound_def AwfulScore_def)

lemma bitfield15_in_range:
  "row \<le> 63 \<Longrightarrow> w \<le> 127 \<Longrightarrow> low_bound row w \<le> x \<Longrightarrow> x \<le> 4 * int row \<Longrightarrow> bitfield15 x = x"
  using low_bound_range [of row w] by (auto intro!: bitfield15_id)

lemma cell_bounds:
  "row \<le> 63 \<Longrightarrow> w \<le> 127 \<Longrightarrow> low_bound row w \<le> score (cell m row w a) \<and> score (cell m row w a) \<le> 4 * int row"
proof (induction m row w a rule: cell.induct)
  case (1 m row a)
  then show ?case by (auto simp: low_bound_def AwfulScore_def)
next
  case (2 m w a)
  let ?x = "score (cell m 0 w False) - skip_penalty m w False"
  have "low_bound 0 (Suc w) \<le> ?x" "?x \<le> 0" if "a = Miss"
    using that 2 low_bound_miss [of 0 w m Miss] skip_penalty_bounds [of m w Miss] by auto
  with 2 bitfield15_in_range [of 0 "Suc w" ?x] low_bound_mono(2) [of 0 "Suc w"] show ?case
    by (auto simp: AwfulScore_def)
next
  case (3 m p w a)
  have awful: "low_bound (Suc p) (Suc w) \<le> AwfulScore" "AwfulScore \<le> 4 * int (Suc p)"
    using low_bound_mono(2) [of "Suc p" "Suc w"] by (auto simp: AwfulScore_def)
  have miss: "low_bound (Suc p) (Suc w) \<le> score (cell m (Suc p) w b) - pen \<and> score (cell m (Suc p) w b) - pen \<le> 4 * int (Suc p)"
    if "a = Miss" "\<not> w < p" "pen = skip_penalty m w b \<or> pen = 0" for b pen
  proof -
    have "low_bound (Suc p) w \<le> score (cell m (Suc p) w b) \<and> score (cell m (Suc p) w b) \<le> 4 * int (Suc p)"
      using 3 that by auto
    then show ?thesis
      using that low_bound_miss [of "Suc p" w m b] low_bound_mono(1) [of "Suc p" w] skip_penalty_bounds [of m w b]
      by auto
  qed
  have mat: "low_bound (Suc p) (Suc w) \<le> score (cell m p w b) + match_bonus m p w b \<and>
      score (cell m p w b) + match_bonus m p w b \<le> 4 * int (Suc p)"
    if "a = Match" "\<not> w < p" for b
  proof -
    have "low_bound p w \<le> score (cell m p w b) \<and> score (cell m p w b) \<le> 4 * int p" using 3 that by auto
    then show ?thesis
      using low_bound_match [of p w m p w b] match_bonus_bounds [of m p w b] by (auto simp: PerfectBonus_def)
  qed
  note range = bitfield15_in_range [OF 3(3,4)]
  show ?case
    using awful miss mat range
    by (auto simp: miss_cell_def match_cell_def Let_def)
qed

text \<open>Within the bounds the 15-bit field never wraps: a cell holds the better of its two candidates.\<close>

definition penalty :: "fuzzy_matcher \<Rightarrow> nat \<Rightarrow> nat \<Rightarrow> bool \<Rightarrow> int" where
  "penalty m row w a = (if row < pat_n m then skip_penalty m w a else 0)"

definition match_value :: "fuzzy_matcher \<Rightarrow> nat \<Rightarrow> nat \<Rightarrow> bool \<Rightarrow> int" where
  "match_value m p w a =
     (if allow_match m p w a then score (cell m p w a) + match_bonus m p w a else AwfulScore)"

definition better :: "(bool \<Rightarrow> int) \<Rightarrow> score_info" where
  "better v = (if v Match > v Miss then \<lparr>score = v Match, Prev = Match\<rparr> else \<lparr>score = v Miss, Prev = Miss\<rparr>)"

lemma penalty_bounds: "0 \<le> penalty m row w a" "penalty m row w a \<le> 3"
  and penalty_low: "low_bound row (Suc w) \<le> low_bound row w - penalty m row w a"
  using skip_penalty_bounds [of m w a] low_bound_miss [of row w m a] low_bound_mono(1) [of row w]
  by (auto simp: penalty_def split: if_splits)

lemma cell_miss:
  assumes "Suc p \<le> 63" "Suc w \<le> 127" "p \<le> w"
  shows "cell m (Suc p) (Suc w) Miss = better (\<lambda>a. score (cell m (Suc p) w a) - penalty m (Suc p) w a)"
proof -
  have "bitfield15 (score (cell m (Suc p) w a) - penalty m (Suc p) w a) = score (cell m (Suc p) w a) - penalty m (Suc p) w a" for a
    using cell_bounds [of "Suc p" w m a] penalty_bounds [of m "Suc p" w a] penalty_low [of "Suc p" w m a] assms
    by (intro bitfield15_in_range [of "Suc p" "Suc w"]) auto
  with assms(3) show ?thesis by (auto simp: miss_cell_def better_def penalty_def Let_def)
qed

lemma cell_match:
  assumes "Suc p \<le> 63" "Suc w \<le> 127" "p \<le> w"
  shows "cell m (Suc p) (Suc w) Match = better (match_value m p w)"
proof -
  have "bitfield15 (match_value m p w a) = match_value m p w a" for a
    using cell_bounds [of p w m a] low_bound_match [of p w m p w a] match_bonus_bounds [of m p w a]
      low_bound_mono(2) [of "Suc p" "Suc w"] assms
    by (intro bitfield15_in_range [of "Suc p" "Suc w"]) (auto simp: match_value_def PerfectBonus_def AwfulScore_def)
  with assms(3) show ?thesis by (auto simp: match_cell_def better_def match_value_def Let_def)
qed

lemma cell_skip: "Suc w \<le> 127 \<Longrightarrow> 0 < pat_n m \<Longrightarrow>
    cell m 0 (Suc w) Miss = \<lparr>score = score (cell m 0 w Miss) - penalty m 0 w Miss, Prev = Miss\<rparr>"
  using cell_bounds [of 0 w m Miss] penalty_bounds [of m 0 w Miss] penalty_low [of 0 w m Miss] bitfield15_in_range [of 0 "Suc w"]
  by (simp add: penalty_def)

declare cell.simps(3) [simp del]

section \<open>Alignments\<close>

text \<open>
  \<open>align m row w a s acts\<close>: the actions \<open>acts\<close>, one for each of the first \<open>w\<close> word characters, match the
  first \<open>row\<close> pattern characters in order, each match is allowed after the action before it, the
  last action is \<open>a\<close> (a miss before the word) and the bonuses and penalties add up to \<open>s\<close>.
\<close>

inductive align :: "fuzzy_matcher \<Rightarrow> nat \<Rightarrow> nat \<Rightarrow> bool \<Rightarrow> int \<Rightarrow> bool list \<Rightarrow> bool" for m where
  align_start: "align m 0 0 Miss 0 []"
| align_skip: "align m row w a s acts \<Longrightarrow> align m row (Suc w) Miss (s - penalty m row w a) (acts @ [Miss])"
| align_take: "align m p w a s acts \<Longrightarrow> p < pat_n m \<Longrightarrow> allow_match m p w a \<Longrightarrow>
    align m (Suc p) (Suc w) Match (s + match_bonus m p w a) (acts @ [Match])"

inductive_simps align_zero: "align m row 0 a s acts"
inductive_simps align_Suc_Miss: "align m row (Suc w) False s acts"
inductive_simps align_Suc_Match: "align m row (Suc w) True s acts"

lemma align_row: "align m row w a s acts \<Longrightarrow> row \<le> w \<and> row \<le> pat_n m \<and> (a = Match \<longrightarrow> 0 < row)"
  by (induction rule: align.induct) auto

lemma align_bounds: "align m row w a s acts \<Longrightarrow> low_bound row w - AwfulScore \<le> s \<and> s \<le> 4 * int row"
proof (induction rule: align.induct)
  case (align_skip row w a s acts)
  then show ?case using penalty_bounds [of m row w a] penalty_low [of row w m a] by auto
next
  case (align_take p w a s acts)
  then show ?case
    using low_bound_match [of p w m p w a] match_bonus_bounds [of m p w a] by (auto simp: PerfectBonus_def)
qed (simp add: low_bound_def)

lemma align_length: "align m row w a s acts \<Longrightarrow> length acts = w \<and> length (filter id acts) = row"
  by (induction rule: align.induct) auto

text \<open>The walk back over the reference cells.\<close>

fun retrace :: "fuzzy_matcher \<Rightarrow> nat \<Rightarrow> nat \<Rightarrow> bool \<Rightarrow> bool list option" where
  "retrace m 0 row a = Some []"
| "retrace m (Suc w) row a =
     (if a \<and> row = 0 then None
      else map_option (Cons a) (retrace m w (if a then row - 1 else row) (Prev (cell m row (Suc w) a))))"

definition reachable_cell :: "fuzzy_matcher \<Rightarrow> nat \<Rightarrow> nat \<Rightarrow> bool \<Rightarrow> bool" where
  "reachable_cell m row w a \<longleftrightarrow> (\<exists>s acts. align m row w a s acts)"

definition optimal :: "fuzzy_matcher \<Rightarrow> nat \<Rightarrow> nat \<Rightarrow> bool \<Rightarrow> bool" where
  "optimal m row w a \<longleftrightarrow>
     (\<forall>s acts. align m row w a s acts \<longrightarrow> s \<le> score (cell m row w a)) \<and>
     (reachable_cell m row w a \<longrightarrow>
        (\<exists>acts. align m row w a (score (cell m row w a)) acts \<and> retrace m w row a = Some (rev acts))) \<and>
     (\<not> reachable_cell m row w a \<longrightarrow> score (cell m row w a) \<le> AwfulScore + 4 * int row)"

lemma optimal_low:
  assumes "optimal m row w a" and "reachable_cell m row w a" and "row \<le> 63" and "w \<le> 127"
  shows "- 1000 \<le> score (cell m row w a)"
proof -
  obtain acts where "align m row w a (score (cell m row w a)) acts" using assms(1,2) by (auto simp: optimal_def)
  from align_bounds [OF this] assms(3,4) show ?thesis by (auto simp: low_bound_def split: if_splits)
qed

text \<open>Of two candidates, one of them reachable, the better one is reachable.\<close>

lemma better_reachable:
  assumes "\<And>b. E b \<Longrightarrow> - 2000 \<le> v b" and "\<And>b. \<not> E b \<Longrightarrow> v b < - 2000" and "E b"
  shows "\<exists>c. E c \<and> better v = \<lparr>score = v c, Prev = c\<rparr> \<and> (\<forall>b. v b \<le> v c)"
proof -
  let ?c = "v Match > v Miss"
  have "E Match \<or> E Miss" using assms(3) by (cases b) auto
  then have "E ?c"
    using assms(1,2) [of Match] assms(1,2) [of Miss] by (cases "E Match"; cases "E Miss"; cases ?c) auto
  moreover have "v b \<le> v ?c" for b by (cases b; cases ?c) auto
  moreover have "better v = \<lparr>score = v ?c, Prev = ?c\<rparr>" by (simp add: better_def)
  ultimately show ?thesis by blast
qed

lemma better_unreachable: "(\<And>b. v b \<le> u) \<Longrightarrow> score (better v) \<le> u"
  by (auto simp: better_def)

lemma reachable_cellI: "align m row w a s acts \<Longrightarrow> reachable_cell m row w a"
  by (auto simp: reachable_cell_def)

lemma optimalI:
  assumes "\<And>s acts. align m row w a s acts \<Longrightarrow> s \<le> score (cell m row w a)"
    and "\<And>s acts. align m row w a s acts \<Longrightarrow>
      \<exists>acts. align m row w a (score (cell m row w a)) acts \<and> retrace m w row a = Some (rev acts)"
    and "(\<And>s acts. \<not> align m row w a s acts) \<Longrightarrow> score (cell m row w a) \<le> AwfulScore + 4 * int row"
  shows "optimal m row w a"
  using assms by (auto simp: optimal_def reachable_cell_def)

lemma optimal_miss:
  assumes opt: "\<And>b. optimal m (Suc p) w b" and r: "Suc p \<le> 63" "Suc w \<le> 127" "p \<le> w"
  shows "optimal m (Suc p) (Suc w) Miss"
proof (rule optimalI)
  let ?v = "\<lambda>b. score (cell m (Suc p) w b) - penalty m (Suc p) w b" and ?E = "reachable_cell m (Suc p) w"
  note eq = cell_miss [OF r, of m]
  have low: "- 2000 \<le> ?v b" if "?E b" for b
    using optimal_low [OF opt that] r penalty_bounds [of m "Suc p" w b] by auto
  have high: "?v b < - 2000" "?v b \<le> AwfulScore + 4 * int (Suc p)" if "\<not> ?E b" for b
    using opt [of b] that r penalty_bounds [of m "Suc p" w b] by (auto simp: optimal_def AwfulScore_def)
  { fix s acts assume "align m (Suc p) (Suc w) Miss s acts"
    then obtain b s0 acts0 where pre: "align m (Suc p) w b s0 acts0" "s = s0 - penalty m (Suc p) w b"
      by (auto simp: align_Suc_Miss)
    then have E: "?E b" and le: "s0 \<le> score (cell m (Suc p) w b)" using opt [of b]
      by (auto intro: reachable_cellI simp: optimal_def)
    from better_reachable [where E = ?E and v = ?v, OF low high(1) E] obtain c where
      c: "?E c" "cell m (Suc p) (Suc w) Miss = \<lparr>score = ?v c, Prev = c\<rparr>" "\<forall>b. ?v b \<le> ?v c"
      by (auto simp: eq)
    show "s \<le> score (cell m (Suc p) (Suc w) Miss)" using c(2) c(3) [rule_format, of b] le pre(2) by simp
    from opt [of c] c(1) obtain acts' where
      a: "align m (Suc p) w c (score (cell m (Suc p) w c)) acts'" "retrace m w (Suc p) c = Some (rev acts')"
      by (auto simp: optimal_def)
    from align_skip [OF a(1)] a(2) c(2)
    show "\<exists>acts. align m (Suc p) (Suc w) Miss (score (cell m (Suc p) (Suc w) Miss)) acts \<and>
        retrace m (Suc w) (Suc p) Miss = Some (rev acts)"
      by (intro exI [of _ "acts' @ [Miss]"]) (simp del: cell.simps) }
  assume "\<And>s acts. \<not> align m (Suc p) (Suc w) Miss s acts"
  then have "\<not> ?E b" for b by (auto simp: reachable_cell_def dest: align_skip)
  then show "score (cell m (Suc p) (Suc w) Miss) \<le> AwfulScore + 4 * int (Suc p)"
    unfolding eq by (intro better_unreachable high(2))
qed

lemma optimal_match:
  assumes opt: "\<And>b. optimal m p w b" and r: "Suc p \<le> 63" "Suc w \<le> 127" "p \<le> w" and "p < pat_n m"
  shows "optimal m (Suc p) (Suc w) Match"
proof (rule optimalI)
  let ?v = "match_value m p w" and ?E = "\<lambda>b. reachable_cell m p w b \<and> allow_match m p w b"
  note eq = cell_match [OF r, of m]
  have low: "- 2000 \<le> ?v b" if "?E b" for b
    using optimal_low [OF opt, of b] that r match_bonus_bounds [of m p w b] by (auto simp: match_value_def)
  have high: "?v b < - 2000" "?v b \<le> AwfulScore + 4 * int (Suc p)" if "\<not> ?E b" for b
    using opt [of b] that r match_bonus_bounds [of m p w b]
    by (auto simp: optimal_def match_value_def AwfulScore_def PerfectBonus_def)
  { fix s acts assume "align m (Suc p) (Suc w) Match s acts"
    then obtain b s0 acts0 where pre: "align m p w b s0 acts0" "allow_match m p w b" "s = s0 + match_bonus m p w b"
      by (auto simp: align_Suc_Match)
    then have E: "?E b" and le: "s0 \<le> score (cell m p w b)" using opt [of b]
      by (auto intro: reachable_cellI simp: optimal_def)
    from better_reachable [where E = ?E and v = ?v, OF low high(1) E] obtain c where
      c: "reachable_cell m p w c" "allow_match m p w c" "cell m (Suc p) (Suc w) Match = \<lparr>score = ?v c, Prev = c\<rparr>"
        "\<forall>b. ?v b \<le> ?v c"
      by (auto simp: eq)
    show "s \<le> score (cell m (Suc p) (Suc w) Match)"
      using c(3) c(4) [rule_format, of b] le pre(2,3) by (simp add: match_value_def)
    from opt [of c] c(1) obtain acts' where
      a: "align m p w c (score (cell m p w c)) acts'" "retrace m w p c = Some (rev acts')"
      by (auto simp: optimal_def)
    from align_take [OF a(1) assms(5) c(2)] a(2) c(2,3)
    show "\<exists>acts. align m (Suc p) (Suc w) Match (score (cell m (Suc p) (Suc w) Match)) acts \<and>
        retrace m (Suc w) (Suc p) Match = Some (rev acts)"
      by (intro exI [of _ "acts' @ [Match]"]) (simp add: match_value_def del: cell.simps) }
  assume "\<And>s acts. \<not> align m (Suc p) (Suc w) Match s acts"
  then have "\<not> ?E b" for b using assms(5) by (auto simp: reachable_cell_def dest: align_take)
  then show "score (cell m (Suc p) (Suc w) Match) \<le> AwfulScore + 4 * int (Suc p)"
    unfolding eq by (intro better_unreachable high(2))
qed

lemma cell_optimal:
  assumes "pat_n m \<le> 63" and "0 < pat_n m"
  shows "row \<le> pat_n m \<Longrightarrow> w \<le> 127 \<Longrightarrow> optimal m row w a"
proof (induction w arbitrary: row a)
  case 0
  then show ?case by (intro optimalI) (auto simp: align_zero)
next
  case (Suc w row a)
  show ?case
  proof (cases row)
    case 0
    have pre: "optimal m 0 w Miss" using Suc by simp
    have "a = Match \<Longrightarrow> optimal m 0 (Suc w) a"
      by (intro optimalI) (use align_row in fastforce)+
    moreover have "optimal m 0 (Suc w) Miss"
    proof -
      note eq = cell_skip [OF Suc.prems(2) assms(2)]
      have step: "align m 0 (Suc w) Miss s acts \<longleftrightarrow>
          (\<exists>s0 acts0. align m 0 w Miss s0 acts0 \<and> s = s0 - penalty m 0 w Miss \<and> acts = acts0 @ [Miss])" for s acts
      proof -
        have "\<not> align m 0 w Match s0 acts0" for s0 acts0 using align_row [of m 0 w Match s0 acts0] by auto
        then show ?thesis unfolding align_Suc_Miss by (metis (full_types))
      qed
      show ?thesis
        using pre penalty_bounds(1) [of m 0 w Miss] unfolding optimal_def reachable_cell_def step eq
        by (fastforce simp: eq)
    qed
    ultimately show ?thesis using 0 by (cases a) auto
  next
    case row: (Suc p)
    have opt: "optimal m (Suc p) w b" "optimal m p w b" for b using Suc row by auto
    show ?thesis
    proof (cases "p \<le> w")
      case True
      with opt Suc.prems assms row show ?thesis
        by (cases a) (auto intro: optimal_miss optimal_match)
    next
      case False
      then have "\<not> align m row (Suc w) a s acts" for s acts using row align_row [of m row "Suc w"] by fastforce
      then show ?thesis using False row by (intro optimalI) (auto simp: cell_border)
    qed
  qed
qed

lemma trace_back_retrace:
  assumes "agrees m (scores m) (borders (pat_n m))" and "pat_n m \<le> word_n m"
  shows "row \<le> pat_n m \<Longrightarrow> w \<le> word_n m \<Longrightarrow> trace_back (build_graph m) w row a = retrace m w row a"
proof (induction w arbitrary: row a)
  case (Suc w)
  then show ?case using build_graph_cells [OF assms, of row "Suc w"] by auto
qed simp

text \<open>An alignment embeds the lower-case pattern into the lower-case word, which the cheap check tests.\<close>

lemma subsequence_check_subseq: "subsequence_check ws ps \<longleftrightarrow> subseq ps ws"
  by (induction ws ps rule: subsequence_check.induct) (auto simp: subseq_Cons2_iff)

lemma align_subseq:
  "align m row w a s acts \<Longrightarrow> length (low_pat m) = pat_n m \<Longrightarrow> w \<le> length (low_word m) \<Longrightarrow>
     subseq (take row (low_pat m)) (take w (low_word m))"
proof (induction rule: align.induct)
  case (align_skip row w a s acts)
  then show ?case by (simp add: take_Suc_conv_app_nth list_emb_prefix)
next
  case (align_take p w a s acts)
  then have "low_pat m ! p = low_word m ! w" by (simp add: allow_match_def)
  with align_take show ?case
    by (simp add: take_Suc_conv_app_nth list_emb_append_mono)
qed simp

section \<open>Matching\<close>

abbreviation ascii :: "u8 list \<Rightarrow> bool" where "ascii bytes \<equiv> \<forall>c \<in> set bytes. unat c < 128"

text \<open>The matchers of a pattern: a fresh one (on any memory), and one that has matched any words before.\<close>

inductive used :: "u8 list \<Rightarrow> fuzzy_matcher \<Rightarrow> bool" for pattern where
  used_new: "new_matcher pattern memory = Some m \<Longrightarrow> used pattern m"
| used_again: "used pattern m \<Longrightarrow> match_word w m = Some (r, m') \<Longrightarrow> used pattern m'"

definition matcher_ok :: "u8 list \<Rightarrow> fuzzy_matcher \<Rightarrow> bool" where
  "matcher_ok pattern m \<longleftrightarrow>
     Pat m = take 63 pattern \<and> pat_n m = length (Pat m) \<and> low_pat m = map lower (Pat m) \<and>
     calculate_roles (Pat m) = Some (pat_type_set m, pat_role m) \<and>
     score_scale m = (if pat_n m \<noteq> 0 then 1 / (4 * of_nat (pat_n m)) else 0) \<and>
     (\<forall>p w a. w < p \<and> p \<le> pat_n m \<or> p = 0 \<and> w = 0 \<longrightarrow>
        scores m p w a = \<lparr>score = (if p = 0 \<and> a = Miss then 0 else AwfulScore), Prev = Miss\<rparr>)"

lemma matcher_ok_agrees: "matcher_ok pattern m \<Longrightarrow> agrees m (scores m) (borders (pat_n m))"
  by (auto simp: matcher_ok_def agrees_def cell_border fun_eq_iff)

lemma new_matcher_ok:
  assumes "new_matcher pattern memory = Some m"
  shows "matcher_ok pattern m"
proof -
  have "take (min 63 (length pattern)) pattern = take 63 pattern" by (simp add: min_def)
  then show ?thesis
    using assms
    by (auto simp: new_matcher_def matcher_ok_def MaxPat_def PerfectBonus_def initial_scores_eq Let_def
        split: Option.bind_splits prod.splits)
qed

text \<open>The matcher with a word loaded: what the scores refer to.\<close>

definition load_word :: "u8 list \<Rightarrow> fuzzy_matcher \<Rightarrow> fuzzy_matcher" where
  "load_word w m =
     (let bytes = take 127 w in
      m\<lparr>word_n := length bytes, word := bytes, low_word := map lower bytes,
        word_type_set := fst (the (calculate_roles bytes)), word_role := snd (the (calculate_roles bytes))\<rparr>)"

definition full_alignment :: "fuzzy_matcher \<Rightarrow> int \<Rightarrow> bool list \<Rightarrow> bool" where
  "full_alignment m s acts \<longleftrightarrow> (\<exists>a. align m (pat_n m) (word_n m) a s acts)"

lemma align_cong:
  assumes "align m row w a s acts"
    and "pat_n m' = pat_n m" "penalty m' = penalty m" "allow_match m' = allow_match m" "match_bonus m' = match_bonus m"
  shows "align m' row w a s acts"
  using assms(1)
proof (induction rule: align.induct)
  case (align_skip row w a s acts)
  from align.align_skip [OF align_skip.IH] show ?case by (simp add: assms)
next
  case (align_take p w a s acts)
  with align.align_take [OF align_take.IH] show ?case by (simp add: assms)
qed (rule align.align_start)

lemma scoring_cong [simp]:
  "penalty (m\<lparr>word_contains_pattern := b\<rparr>) = penalty m"
  "allow_match (m\<lparr>word_contains_pattern := b\<rparr>) = allow_match m"
  "match_bonus (m\<lparr>word_contains_pattern := b\<rparr>) = match_bonus m"
  by (simp_all add: penalty_def skip_penalty_def allow_match_def match_bonus_def fun_eq_iff)

lemma full_alignment_cong [simp]: "full_alignment (m\<lparr>word_contains_pattern := b\<rparr>) s acts = full_alignment m s acts"
proof -
  have "align (m\<lparr>word_contains_pattern := b\<rparr>) row w a s acts = align m row w a s acts" for row w a
    by (rule iffI; erule align_cong) simp_all
  then show ?thesis by (simp add: full_alignment_def)
qed

lemma ascii_roles: "ascii bytes \<Longrightarrow> \<exists>ts roles. calculate_roles bytes = Some (ts, roles)"
proof (induction bytes)
  case Nil
  then show ?case by (simp add: calculate_roles_def)
next
  case (Cons c rest)
  have "int (type_number t) = window Empty Empty t" for t by (simp add: window_def)
  with Cons.prems show ?case by (simp add: calculate_roles_def char_type_ascii roles_loop_ascii)
qed

text \<open>The table of a loaded matcher, from its last two cells.\<close>

lemma best_score_correct:
  assumes "agrees m (scores m) (borders (pat_n m))" and n: "0 < pat_n m" "pat_n m \<le> 63" "pat_n m \<le> word_n m" "word_n m \<le> 127"
  shows "full_alignment m s acts \<Longrightarrow> s \<le> best_score (build_graph m)"
    and "full_alignment m s acts \<Longrightarrow> \<not> is_awful (best_score (build_graph m))"
    and "full_alignment m s acts \<Longrightarrow>
      \<exists>acts. full_alignment m (best_score (build_graph m)) acts \<and>
        trace_back (build_graph m) (word_n m) (pat_n m)
          (score (scores (build_graph m) (pat_n m) (word_n m) Match) >
           score (scores (build_graph m) (pat_n m) (word_n m) Miss)) = Some (rev acts)"
    and "(\<And>s acts. \<not> full_alignment m s acts) \<Longrightarrow> is_awful (best_score (build_graph m))"
proof -
  let ?E = "reachable_cell m (pat_n m) (word_n m)" and ?v = "\<lambda>a. score (cell m (pat_n m) (word_n m) a)"
  let ?b = "best_score (build_graph m)"
  have cells: "scores (build_graph m) (pat_n m) (word_n m) = cell m (pat_n m) (word_n m)"
    using build_graph_cells [OF assms(1) n(3)] n by simp
  have opt: "optimal m (pat_n m) (word_n m) a" for a using cell_optimal [OF n(2,1)] n by simp
  have best: "?b = score (better ?v)" "(?v Match > ?v Miss) = Prev (better ?v)"
    using cells by (auto simp: best_score_def better_def build_graph_def)
  have low: "- 2000 \<le> ?v a" if "?E a" for a using optimal_low [OF opt that] n by simp
  have high: "?v a < - 5000" if "\<not> ?E a" for a using opt [of a] that n by (auto simp: optimal_def AwfulScore_def)
  then have high': "?v a < - 2000" if "\<not> ?E a" for a using that by fastforce
  { assume "full_alignment m s acts"
    then obtain a where a: "align m (pat_n m) (word_n m) a s acts" by (auto simp: full_alignment_def)
    from better_reachable [where E = ?E and v = ?v, OF low high' reachable_cellI [OF a]] obtain c where
      c: "?E c" "better ?v = \<lparr>score = ?v c, Prev = c\<rparr>" "\<forall>b. ?v b \<le> ?v c" by auto
    from opt [of a] a have "s \<le> ?v a" unfolding optimal_def by blast
    with c(2) c(3) [rule_format, of a] best show "s \<le> ?b" by simp
    show "\<not> is_awful ?b" using best c(2) low [OF c(1)] by (simp add: is_awful_def AwfulScore_def)
    from opt [of c] c(1) obtain acts where
      acts: "align m (pat_n m) (word_n m) c (?v c) acts" "retrace m (word_n m) (pat_n m) c = Some (rev acts)"
      by (auto simp: optimal_def)
    moreover have "trace_back (build_graph m) (word_n m) (pat_n m) c = Some (rev acts)"
      using acts(2) trace_back_retrace [OF assms(1) n(3), of "pat_n m" "word_n m" c] by simp
    ultimately show "\<exists>acts. full_alignment m ?b acts \<and>
        trace_back (build_graph m) (word_n m) (pat_n m)
          (score (scores (build_graph m) (pat_n m) (word_n m) Match) >
           score (scores (build_graph m) (pat_n m) (word_n m) Miss)) = Some (rev acts)"
      using best c(2) unfolding cells full_alignment_def by auto }
  assume "\<And>s acts. \<not> full_alignment m s acts"
  then have "\<not> ?E a" for a by (auto simp: full_alignment_def reachable_cell_def)
  then have "?v a \<le> - 5000" for a using high by (simp add: less_imp_le)
  then have "score (better ?v) \<le> - 5000" by (rule better_unreachable)
  with best show "is_awful ?b" by (simp add: is_awful_def AwfulScore_def)
qed

lemma load_word_fields [simp]:
  "pat_n (load_word w m) = pat_n m" "word_n (load_word w m) = min (length w) 127" "scores (load_word w m) = scores m"
  "low_pat (load_word w m) = low_pat m" "low_word (load_word w m) = map lower (take 127 w)"
  "word (load_word w m) = take 127 w" "score_scale (load_word w m) = score_scale m"
  by (simp_all add: load_word_def Let_def)

lemma init_cases:
  assumes ok: "matcher_ok pattern m" and "ascii w" and n: "0 < pat_n m"
  shows "if pat_n m \<le> min (length w) 127 \<and> subsequence_check (map lower (take 127 w)) (low_pat m)
    then init w m = Some (True, load_word w m)
    else \<exists>m'. init w m = Some (False, m') \<and> (\<nexists>s acts. full_alignment (load_word w m) s acts)"
proof -
  have "ascii (take 127 w)" using assms(2) by (meson in_set_takeD)
  then obtain ts roles where r: "calculate_roles (take 127 w) = Some (ts, roles)" using ascii_roles by blast
  have t: "take (min (length w) 127) w = take 127 w" by (simp add: min_def)
  have none: "\<nexists>s acts. full_alignment (load_word w m) s acts"
    if "\<not> (pat_n m \<le> min (length w) 127 \<and> subsequence_check (map lower (take 127 w)) (low_pat m))"
  proof
    assume "\<exists>s acts. full_alignment (load_word w m) s acts"
    then obtain a s acts where a: "align (load_word w m) (pat_n m) (min (length w) 127) a s acts"
      by (auto simp: full_alignment_def)
    from align_row [OF a] have "pat_n m \<le> min (length w) 127" by simp
    moreover have "subseq (low_pat m) (map lower (take 127 w))"
      using align_subseq [OF a] ok by (simp add: matcher_ok_def)
    ultimately show False using that by (simp add: subsequence_check_subseq)
  qed
  show ?thesis
    using n r none by (auto simp: init_def load_word_def MaxWord_def t min.commute Let_def)
qed

lemma matcher_ok_cong:
  "matcher_ok pattern m \<Longrightarrow> Pat m' = Pat m \<Longrightarrow> pat_n m' = pat_n m \<Longrightarrow> low_pat m' = low_pat m \<Longrightarrow>
   pat_role m' = pat_role m \<Longrightarrow> pat_type_set m' = pat_type_set m \<Longrightarrow> score_scale m' = score_scale m \<Longrightarrow>
   (\<And>p w a. w < p \<and> p \<le> pat_n m \<or> p = 0 \<and> w = 0 \<Longrightarrow> scores m' p w a = scores m p w a) \<Longrightarrow> matcher_ok pattern m'"
  by (auto simp: matcher_ok_def)

lemma build_graph_fields [simp]:
  "Pat (build_graph m) = Pat m" "pat_n (build_graph m) = pat_n m" "low_pat (build_graph m) = low_pat m"
  "pat_role (build_graph m) = pat_role m" "pat_type_set (build_graph m) = pat_type_set m"
  "score_scale (build_graph m) = score_scale m" "word_n (build_graph m) = word_n m" "word (build_graph m) = word m"
  "word_contains_pattern (build_graph m) = word_contains_pattern m"
  by (simp_all add: build_graph_def)

lemma build_graph_ok:
  assumes "matcher_ok pattern m" and "pat_n m \<le> word_n m"
  shows "matcher_ok pattern (build_graph m)"
proof (rule matcher_ok_cong [OF assms(1)])
  fix p w a assume "w < p \<and> p \<le> pat_n m \<or> p = 0 \<and> w = 0"
  then show "scores (build_graph m) p w a = scores m p w a"
    using build_graph_cells [OF matcher_ok_agrees [OF assms(1)] assms(2), of p w] matcher_ok_agrees [OF assms(1)] assms(2)
    by (auto simp: agrees_def)
qed simp_all

lemma init_ok:
  assumes "matcher_ok pattern m" and "init w m = Some (b, m')"
  shows "matcher_ok pattern m' \<and> pat_n m' = pat_n m \<and> (b \<longrightarrow> pat_n m \<le> word_n m')"
  using assms
  by (auto simp: init_def Let_def split: if_splits Option.bind_splits prod.splits intro: matcher_ok_cong [OF assms(1)])

lemma match_word_ok:
  assumes ok: "matcher_ok pattern m" and mw: "match_word w m = Some (r, m')"
  shows "matcher_ok pattern m'"
proof -
  obtain b m1 where i: "init w m = Some (b, m1)" using mw by (cases "init w m") (auto simp: match_word_def)
  note ok1 = init_ok [OF ok i]
  have ok2: "matcher_ok pattern (m1\<lparr>word_contains_pattern := b\<rparr>)" using ok1 by (auto intro: matcher_ok_cong)
  consider "m' = m1\<lparr>word_contains_pattern := b\<rparr>" | "b" "m' = build_graph (m1\<lparr>word_contains_pattern := b\<rparr>)"
    using mw i by (auto simp: match_word_def Let_def split: if_splits)
  then show ?thesis using ok1 ok2 by cases (auto intro: build_graph_ok)
qed

lemma used_ok: "used pattern m \<Longrightarrow> matcher_ok pattern m"
  by (induction rule: used.induct) (auto intro: new_matcher_ok match_word_ok)

text \<open>
  C15. \<open>FuzzyMatcher::match\<close> is exact. A matcher of a nonempty pattern, however often it was used before
  and whatever its memory held, reads no table out of bounds on an ASCII word, and finds a match
  exactly when the pattern can be aligned with the word by allowed matches; the score is the one of a
  best alignment, clamped and scaled to [0,1] (doubled when pattern and word have the same length),
  and \<open>dumpLast\<close> brackets the characters such a best alignment matches. No score ever wraps in its
  15-bit field.
\<close>

theorem fuzzy_match_optimal:
  assumes "used pattern m" and "pattern \<noteq> []" and "ascii w"
  shows "\<exists>r m'. match_word w m = Some (r, m') \<and>
    (r = None \<longleftrightarrow> (\<nexists>s acts. full_alignment (load_word w m) s acts)) \<and>
    (\<forall>x. r = Some x \<longrightarrow>
       (\<exists>s acts. full_alignment (load_word w m) s acts \<and>
          (\<forall>s' acts'. full_alignment (load_word w m) s' acts' \<longrightarrow> s' \<le> s) \<and>
          x = (if word_n (load_word w m) = pat_n m then 2 else 1) *
              (of_int (min (4 * int (pat_n m)) (max 0 s)) / of_int (4 * int (pat_n m))) \<and>
          dump_last m' = Some (bracket_word Miss acts (take 127 w))))"
proof -
  note ok = used_ok [OF assms(1)]
  have n: "0 < pat_n m" "pat_n m \<le> 63" using ok assms(2) by (auto simp: matcher_ok_def)
  note i = init_cases [OF ok assms(3) n(1)]
  let ?L = "load_word w m"
  show ?thesis
  proof (cases "pat_n m \<le> min (length w) 127 \<and> subsequence_check (map lower (take 127 w)) (low_pat m)")
    case False
    with i obtain m' where "init w m = Some (False, m')" "\<nexists>s acts. full_alignment ?L s acts" by auto
    then show ?thesis by (simp add: match_word_def)
  next
    case True
    with i have init: "init w m = Some (True, ?L)" by simp
    let ?M = "?L\<lparr>word_contains_pattern := True\<rparr>"
    have "matcher_ok pattern ?M" using ok by (rule matcher_ok_cong) (simp_all add: load_word_def Let_def)
    then have ag: "agrees ?M (scores ?M) (borders (pat_n ?M))" by (rule matcher_ok_agrees)
    have sc: "score_scale m = 1 / (4 * of_nat (pat_n m))" using ok n by (simp add: matcher_ok_def)
    have b: "0 < pat_n ?M" "pat_n ?M \<le> 63" "pat_n ?M \<le> word_n ?M" "word_n ?M \<le> 127" using n True by simp_all
    have nz: "min (length w) 127 \<noteq> 0" using n True by linarith
    note best = best_score_correct [OF ag b]
    show ?thesis
    proof (cases "\<exists>s acts. full_alignment ?L s acts")
      case none: False
      then have "is_awful (best_score (build_graph ?M))" by (intro best(4)) auto
      with none init n show ?thesis by (simp add: match_word_def Let_def)
    next
      case some: True
      then obtain s acts where fa: "full_alignment ?M s acts" by auto
      from best(3) [OF fa] obtain acts' where a: "full_alignment ?L (best_score (build_graph ?M)) acts'"
        "trace_back (build_graph ?M) (word_n ?M) (pat_n ?M)
          (score (scores (build_graph ?M) (pat_n ?M) (word_n ?M) Match) >
           score (scores (build_graph ?M) (pat_n ?M) (word_n ?M) Miss)) = Some (rev acts')" by auto
      have "dump_last (build_graph ?M) = Some (bracket_word Miss acts' (take 127 w))"
        using a(2) n nz by (auto simp: dump_last_def Let_def)
      moreover have "\<forall>s' acts'. full_alignment ?L s' acts' \<longrightarrow> s' \<le> best_score (build_graph ?M)"
        using best(1) by auto
      ultimately show ?thesis
        using a(1) some best(2) [OF fa] init n sc
        by (auto simp: match_word_def Let_def PerfectBonus_def intro!: exI [of _ acts'])
    qed
  qed
qed

definition demo_pattern :: "u8 list" where "demo_pattern = [0x75, 0x5F, 0x70]"

definition demo_word :: "u8 list" where
  "demo_word = [0x75, 0x6E, 0x69, 0x71, 0x75, 0x65, 0x5F, 0x70, 0x74, 0x72]"

definition demo_memory :: score_table where "demo_memory = (\<lambda>p w a. \<lparr>score = 7, Prev = True\<rparr>)"

definition demo_matcher :: fuzzy_matcher where "demo_matcher = the (new_matcher demo_pattern demo_memory)"

lemma demo_used: "used demo_pattern demo_matcher"
proof (rule used_new)
  obtain ts roles where "calculate_roles demo_pattern = Some (ts, roles)"
    using ascii_roles [of demo_pattern] by (auto simp: demo_pattern_def)
  then show "new_matcher demo_pattern demo_memory = Some demo_matcher"
    by (simp add: demo_matcher_def new_matcher_def demo_pattern_def MaxPat_def)
qed

lemma demo_match: "map_option fst (match_word demo_word demo_matcher) = Some (Some (5 / 6))"
  by code_simp

lemma fuzzy_match_optimal_witness:
  "\<exists>s acts. full_alignment (load_word demo_word demo_matcher) s acts \<and>
     (\<forall>s' acts'. full_alignment (load_word demo_word demo_matcher) s' acts' \<longrightarrow> s' \<le> s)"
proof -
  have a: "demo_pattern \<noteq> []" "ascii demo_word" by (simp_all add: demo_pattern_def demo_word_def)
  from fuzzy_match_optimal [OF demo_used a] demo_match show ?thesis by fastforce
qed

end
