(* ===== verification/Glob_Pattern.thy ===== *)
theory Glob_Pattern
  imports Clice_Prelude "HOL-Library.Char_ord"
begin

text \<open>
  The glob patterns of \<open>src/src/support/glob_pattern.{h,cpp}\<close>: parsing of bracket expressions, brace
  expansion, the compiled pattern, and the backtracking matcher.

  Positions are indices instead of pointers. What the code must not do is an error value: an access
  outside a string or vector, or a pointer moved beyond the end of its string, is \<open>OutOfBounds\<close>, an
  index outside a bit set is \<open>OutOfRange\<close> (\<open>std::bitset::set\<close> throws). The error the code itself
  reports is \<open>Invalid\<close> with its message. A \<open>char\<close> is signed where the code uses it as a number.
\<close>

section \<open>Results\<close>

datatype glob_error = Invalid string | OutOfBounds | OutOfRange

type_synonym 'a res = "glob_error + 'a"

definition andthen :: "'a res \<Rightarrow> ('a \<Rightarrow> 'b res) \<Rightarrow> 'b res" where
  "andthen m f = (case m of Inl e \<Rightarrow> Inl e | Inr x \<Rightarrow> f x)"

lemma andthen_simps [simp]: "andthen (Inl e) f = Inl e" "andthen (Inr x) f = f x"
  by (simp_all add: andthen_def)

lemma andthen_Inr: "andthen m f = Inr y \<longleftrightarrow> (\<exists>x. m = Inr x \<and> f x = Inr y)"
  by (cases m) auto

definition at :: "'a list \<Rightarrow> nat \<Rightarrow> 'a res" where
  "at s i = (if i < length s then Inr (s ! i) else Inl OutOfBounds)"

lemma at_Inr: "at s i = Inr c \<longleftrightarrow> i < length s \<and> c = s ! i"
  by (auto simp: at_def)

definition signed_char :: "char \<Rightarrow> int" where
  "signed_char c = (let n = of_char c in if n < 128 then n else n - 256)"

abbreviation slash :: char where "slash \<equiv> CHR ''/''"
abbreviation backslash :: char where "backslash \<equiv> CHR 0x5C"

definition enclose :: "char \<Rightarrow> char \<Rightarrow> string" where "enclose q c = [q, c, q]"

section \<open>Bracket expressions\<close>

definition set_char :: "char \<Rightarrow> char set \<Rightarrow> char set res" where
  "set_char c bv = (if signed_char c < 0 then Inl OutOfRange else Inr (insert c bv))"

text \<open>The loop over a range; its variable is a \<open>char\<close> and wraps from 127 to -128.\<close>

function set_range :: "int \<Rightarrow> int \<Rightarrow> char set \<Rightarrow> char set res" where
  "set_range c c_end bv =
     (if c \<le> c_end then
        if c < 0 then Inl OutOfRange
        else set_range (if c = 127 then - 128 else c + 1) c_end
               (if c \<noteq> 0x2F then insert (char_of (nat c)) bv else bv)
      else Inr bv)"
  by pat_completeness auto
termination
  by (relation "measure (\<lambda>(c, e, bv). if c < 0 then 0 else nat (e + 1 - c))") auto

declare set_range.simps [simp del]

definition expand_step :: "string \<Rightarrow> nat \<Rightarrow> char set \<Rightarrow> (nat \<times> char set) res" where
  "expand_step s i bv =
     (let e = length s in
      andthen (at s i) (\<lambda>c.
      if c = backslash then
        if i + 1 = e then Inl (Invalid (''Invalid expansions: stary '' @ enclose (CHR ''`'') backslash))
        else andthen (at s (i + 1)) (\<lambda>d.
             andthen (if d \<noteq> slash then set_char d bv else Inr bv) (\<lambda>bv'. Inr (i + 2, bv')))
      else if c = CHR ''-'' then
        if i = 0 \<or> i + 1 = e then Inr (i + 1, insert (CHR ''-'') bv)
        else
          andthen (at s (i - 1)) (\<lambda>c_begin.
          andthen (at s (i + 1)) (\<lambda>c_next.
          andthen
            (if c_next = backslash then
               andthen (at s (i + 2)) (\<lambda>d.
                 if signed_char d = int e then Inl (Invalid (''Invalid expansions: stary '' @ enclose (CHR ''`'') backslash))
                 else Inr (i + 2, d))
             else Inr (i + 1, c_next))
            (\<lambda>(i', c_end).
               if signed_char c_begin > signed_char c_end then
                 Inl (Invalid (''Invalid expansion: '' @ enclose (CHR ''`'') c_begin @ '' is larger than '' @ enclose (CHR ''`'') c_end))
               else
                 andthen (set_range (signed_char c_begin) (signed_char c_end) bv) (\<lambda>bv'. Inr (i' + 1, bv')))))
      else
        andthen (if c \<noteq> slash then set_char c bv else Inr bv) (\<lambda>bv'. Inr (i + 1, bv'))))"

lemma expand_step_increases: "expand_step s i bv = Inr (i', bv') \<Longrightarrow> i < i'"
  by (auto simp: expand_step_def Let_def andthen_Inr split: if_splits)

function expand_loop :: "string \<Rightarrow> nat \<Rightarrow> char set \<Rightarrow> char set res" where
  "expand_loop s i bv =
     (if i < length s then
        (case expand_step s i bv of Inl e \<Rightarrow> Inl e | Inr (i', bv') \<Rightarrow> expand_loop s i' bv')
      else Inr bv)"
  by pat_completeness auto
termination
  by (relation "measure (\<lambda>(s, i, bv). length s - i)") (auto dest: expand_step_increases [OF sym] expand_step_increases)

definition expand :: "string \<Rightarrow> char set res" where
  "expand s = expand_loop s 0 {}"

section \<open>Brace expansion\<close>

record brace_expansion =
  be_start :: nat
  be_length :: nat
  be_terms :: "string list"

record brace_state =
  braces :: "brace_expansion list"
  current_be :: "brace_expansion option"
  term_begin :: nat

definition substr :: "string \<Rightarrow> nat \<Rightarrow> nat \<Rightarrow> string" where
  "substr s start n = take n (drop start s)"

text \<open>The inner loop over a bracket expression; it tests \<open>i != e\<close>, so a step past the end reads on.\<close>

function skip_bracket :: "string \<Rightarrow> nat \<Rightarrow> nat res" where
  "skip_bracket s i =
     (if i = length s then Inr i
      else if length s < i then Inl OutOfBounds
      else if s ! i = CHR '']'' then Inr i
      else skip_bracket s (if s ! i = backslash then i + 2 else i + 1))"
  by pat_completeness auto
termination
  by (relation "measure (\<lambda>(s, i). length s - i)") auto

declare skip_bracket.simps [simp del]

definition brace_step :: "string \<Rightarrow> nat \<Rightarrow> brace_state \<Rightarrow> (nat \<times> brace_state) res" where
  "brace_step s i st =
     (let e = length s in
      andthen (at s i) (\<lambda>c.
      if c = CHR ''['' then
        andthen (at s (i + 1)) (\<lambda>d.
        andthen (skip_bracket s (if d = CHR '']'' then i + 2 else i + 1)) (\<lambda>j.
        if j = e then Inl (Invalid (''Invalid glob pattern, unmatched '' @ enclose (CHR 0x27) (CHR ''[''))) else Inr (j + 1, st)))
      else if c = CHR ''{'' then
        (case current_be st of
           Some _ \<Rightarrow> Inl (Invalid ''Nested brace expansions are not supported'')
         | None \<Rightarrow> Inr (i + 1, st\<lparr>current_be := Some \<lparr>be_start = i, be_length = 0, be_terms = []\<rparr>, term_begin := i + 1\<rparr>))
      else if c = CHR '','' then
        (case current_be st of
           None \<Rightarrow> Inr (i + 1, st)
         | Some be \<Rightarrow>
             Inr (i + 1, st\<lparr>current_be := Some (be\<lparr>be_terms := be_terms be @ [substr s (term_begin st) (i - term_begin st)]\<rparr>),
                            term_begin := i + 1\<rparr>))
      else if c = CHR ''}'' then
        (case current_be st of
           None \<Rightarrow> Inr (i + 1, st)
         | Some be \<Rightarrow>
             if be_terms be = [] \<and> i - term_begin st = 0
             then Inl (Invalid ''Empty brace expression is not supported'')
             else
               let be' = be\<lparr>be_terms := be_terms be @ [substr s (term_begin st) (i - term_begin st)],
                            be_length := i - be_start be + 1\<rparr>
               in Inr (i + 1, st\<lparr>braces := braces st @ [be'], current_be := None\<rparr>))
      else if c = backslash then
        if i + 1 = e then Inl (Invalid (''Invalid glob pattern, stray '' @ enclose (CHR 0x27) backslash)) else Inr (i + 2, st)
      else Inr (i + 1, st)))"

lemma skip_bracket_ge: "skip_bracket s i = Inr j \<Longrightarrow> i \<le> j \<and> j \<le> length s"
proof (induction s i rule: skip_bracket.induct)
  case (1 s i)
  with skip_bracket.simps [of s i] show ?case by (auto split: if_splits)
qed

lemma brace_step_increases:
  assumes "brace_step s i st = Inr (i', st')"
  shows "i < i'"
proof -
  obtain c where c: "at s i = Inr c" using assms by (cases "at s i") (auto simp: brace_step_def Let_def)
  show ?thesis
  proof (cases "c = CHR ''[''")
    case True
    with assms c obtain d where d: "at s (i + 1) = Inr d"
      by (cases "at s (i + 1)") (auto simp: brace_step_def Let_def)
    define k where "k = (if d = CHR '']'' then i + 2 else i + 1)"
    from True assms c d obtain j where j: "skip_bracket s k = Inr j"
      by (cases "skip_bracket s k") (auto simp: brace_step_def Let_def k_def)
    have "i' = j + 1" using True assms c d j unfolding k_def
      by (simp add: brace_step_def Let_def andthen_Inr split: if_split_asm)
    moreover have "i < k" by (simp add: k_def)
    ultimately show ?thesis using skip_bracket_ge [OF j] by simp
  next
    case False
    with assms c show ?thesis by (simp add: brace_step_def Let_def split: if_split_asm option.splits)
  qed
qed

function brace_loop :: "string \<Rightarrow> nat \<Rightarrow> brace_state \<Rightarrow> brace_state res" where
  "brace_loop s i st =
     (if i < length s then
        (case brace_step s i st of Inl e \<Rightarrow> Inl e | Inr (i', st') \<Rightarrow> brace_loop s i' st')
      else Inr st)"
  by pat_completeness auto
termination
  by (relation "measure (\<lambda>(s, i, st). length s - i)") (auto dest: brace_step_increases [OF sym] brace_step_increases)

text \<open>The number of sub-patterns, saturating at the largest \<open>size_t\<close>.\<close>

fun subpattern_count :: "nat \<Rightarrow> brace_expansion list \<Rightarrow> nat" where
  "subpattern_count n [] = n"
| "subpattern_count n (be # bes) =
     (if n > (2 ^ 64 - 1) div length (be_terms be) then 2 ^ 64 - 1
      else subpattern_count (n * length (be_terms be)) bes)"

definition replace_at :: "string \<Rightarrow> nat \<Rightarrow> nat \<Rightarrow> string \<Rightarrow> string" where
  "replace_at s start n t = take start s @ t @ drop (start + n) s"

definition expand_brace :: "brace_expansion \<Rightarrow> string list \<Rightarrow> string list" where
  "expand_brace be origs =
     concat (map (\<lambda>t. map (\<lambda>orig. replace_at orig (be_start be) (be_length be) t) origs) (be_terms be))"

definition parseBraceExpansions :: "string \<Rightarrow> nat \<Rightarrow> string list res" where
  "parseBraceExpansions s max_subpattern_num =
     (if max_subpattern_num = 0 \<or> CHR ''{'' \<notin> set s then Inr [s]
      else
        andthen (brace_loop s 0 \<lparr>braces = [], current_be = None, term_begin = 0\<rparr>) (\<lambda>st.
        if current_be st \<noteq> None then Inl (Invalid ''Incomplete brace expansion'')
        else if subpattern_count 1 (braces st) > max_subpattern_num then Inl (Invalid ''Too many brace expansions'')
        else Inr (fold expand_brace (rev (braces st)) [s])))"

section \<open>Compiled patterns\<close>

record bracket =
  next_offset :: nat
  bytes :: "char set"

record glob_segment =
  seg_start :: nat
  seg_end :: nat

record sub_glob =
  brackets :: "bracket list"
  glob_segments :: "glob_segment list"
  pat :: string

text \<open>
  \<open>SubGlobPattern::create\<close>. The state of its loop: the brackets, the finished segments, and the start
  of the current segment (\<open>None\<close> for the null pointer).
\<close>

record sub_state =
  sub_brackets :: "bracket list"
  sub_segments :: "glob_segment list"
  current_gs :: "nat option"

text \<open>The bracket scan of \<open>create\<close>: like \<open>skip_bracket\<close>, but an escape at the end is an error.\<close>

function scan_bracket :: "string \<Rightarrow> nat \<Rightarrow> nat res" where
  "scan_bracket s j =
     (if j = length s then Inr j
      else if length s < j then Inl OutOfBounds
      else if s ! j = CHR '']'' then Inr j
      else if s ! j = backslash then
        if j + 1 = length s
        then Inl (Invalid (''Invalid glob pattern, unmatched '' @ enclose (CHR 0x27) (CHR ''['') @
                           '' with stray '' @ enclose (CHR 0x27) backslash @ '' inside''))
        else scan_bracket s (j + 2)
      else scan_bracket s (j + 1))"
  by pat_completeness auto
termination
  by (relation "measure (\<lambda>(s, i). length s - i)") auto

declare scan_bracket.simps [simp del]

definition multiple_slash :: "'a res" where "multiple_slash = Inl (Invalid ''Multiple `/` is not allowed'')"

definition sub_step :: "string \<Rightarrow> nat \<Rightarrow> sub_state \<Rightarrow> (nat \<times> sub_state) res" where
  "sub_step s i st0 =
     (let e = length s;
          start = (case current_gs st0 of None \<Rightarrow> i | Some k \<Rightarrow> k);
          st = st0\<lparr>current_gs := Some start\<rparr> in
      andthen (at s i) (\<lambda>c.
      if c = CHR ''['' then
        andthen (at s (i + 1)) (\<lambda>first.
        andthen (scan_bracket s (if first = CHR '']'' then i + 2 else i + 1)) (\<lambda>j.
        if j = e then Inl (Invalid (''Invalid glob pattern, unmatched '' @ enclose (CHR 0x27) (CHR ''['')))
        else
          let chars = substr s (i + 1) (j - (i + 1));
              invert = (first = CHR ''^'' \<or> first = CHR ''!'') in
          andthen (if invert then expand (drop 1 chars) else expand chars) (\<lambda>bv.
          Inr (j + 1, st\<lparr>sub_brackets := sub_brackets st @ [\<lparr>next_offset = j + 1, bytes = (if invert then - bv else bv)\<rparr>]\<rparr>))))
      else if c = backslash then
        if i + 1 = e then Inl (Invalid (''Invalid glob pattern, stray '' @ enclose (CHR 0x27) backslash))
        else Inr (i + 2, st)
      else if c = slash then
        if i - start = 1 then multiple_slash
        else Inr (i + 1, st\<lparr>sub_segments := sub_segments st @ [\<lparr>seg_start = start, seg_end = i\<rparr>], current_gs := None\<rparr>)
      else if c = CHR ''*'' then
        if i + 1 < e - 1 \<and> s ! (i + 1) = CHR ''*'' \<and> s ! (i + 2) = CHR ''*''
        then Inl (Invalid ''Multiple `*` is not allowed'')
        else Inr (i + 1, st)
      else Inr (i + 1, st)))"

lemma scan_bracket_ge: "scan_bracket s i = Inr j \<Longrightarrow> i \<le> j \<and> j \<le> length s"
proof (induction s i rule: scan_bracket.induct)
  case (1 s i)
  with scan_bracket.simps [of s i] show ?case by (auto split: if_splits)
qed

lemma sub_step_increases:
  assumes "sub_step s i st = Inr (i', st')"
  shows "i < i'"
proof -
  obtain c where c: "at s i = Inr c" using assms by (cases "at s i") (auto simp: sub_step_def Let_def)
  show ?thesis
  proof (cases "c = CHR ''[''")
    case True
    with assms c obtain d where d: "at s (i + 1) = Inr d"
      by (cases "at s (i + 1)") (auto simp: sub_step_def Let_def)
    define k where "k = (if d = CHR '']'' then i + 2 else i + 1)"
    from True assms c d obtain j where j: "scan_bracket s k = Inr j"
      by (cases "scan_bracket s k") (auto simp: sub_step_def Let_def k_def)
    have "i' = j + 1" using True assms c d j unfolding k_def
      by (simp add: sub_step_def Let_def andthen_Inr split: if_split_asm)
    moreover have "i < k" by (simp add: k_def)
    ultimately show ?thesis using scan_bracket_ge [OF j] by simp
  next
    case False
    with assms c show ?thesis by (auto simp: sub_step_def Let_def multiple_slash_def split: if_splits)
  qed
qed

function sub_loop :: "string \<Rightarrow> nat \<Rightarrow> sub_state \<Rightarrow> sub_state res" where
  "sub_loop s i st =
     (if i < length s then
        (case sub_step s i st of Inl e \<Rightarrow> Inl e | Inr (i', st') \<Rightarrow> sub_loop s i' st')
      else Inr st)"
  by pat_completeness auto
termination
  by (relation "measure (\<lambda>(s, i, st). length s - i)") (auto dest: sub_step_increases)

definition create_sub :: "string \<Rightarrow> sub_glob res" where
  "create_sub s =
     andthen (sub_loop s 0 \<lparr>sub_brackets = [], sub_segments = [], current_gs = Some 0\<rparr>) (\<lambda>st.
     Inr \<lparr>brackets = sub_brackets st,
          glob_segments =
            (case current_gs st of
               None \<Rightarrow> sub_segments st
             | Some start \<Rightarrow> sub_segments st @ [\<lparr>seg_start = start, seg_end = length s\<rparr>]),
          pat = s\<rparr>)"

text \<open>\<open>GlobPattern::create\<close>. The check of the prefix: \<open>last_slash\<close> is assigned in every iteration.\<close>

record glob_pattern =
  glob_prefix :: string
  prefix_at_seg_end :: bool
  sub_globs :: "sub_glob list"

fun prefix_slashes :: "string \<Rightarrow> nat \<Rightarrow> nat \<Rightarrow> bool" where
  "prefix_slashes [] i last_slash = False"
| "prefix_slashes (c # cs) i last_slash = (c = slash \<and> i - last_slash = 1 \<or> prefix_slashes cs (i + 1) i)"

definition is_meta :: "char \<Rightarrow> bool" where
  "is_meta c \<longleftrightarrow> c = CHR ''?'' \<or> c = CHR ''*'' \<or> c = CHR ''['' \<or> c = CHR ''{'' \<or> c = backslash"

fun create_subs :: "string list \<Rightarrow> sub_glob list \<Rightarrow> sub_glob list res" where
  "create_subs [] acc = Inr acc"
| "create_subs (s # ss) acc = (case create_sub s of Inl e \<Rightarrow> Inl e | Inr g \<Rightarrow> create_subs ss (acc @ [g]))"

definition create_glob :: "string \<Rightarrow> nat \<Rightarrow> glob_pattern res" where
  "create_glob s max_subpattern_num =
     (let literal = takeWhile (\<lambda>c. \<not> is_meta c) s in
      if length literal = length s then
        if prefix_slashes s 0 0 then multiple_slash
        else Inr \<lparr>glob_prefix = s, prefix_at_seg_end = False, sub_globs = []\<rparr>
      else
        let at_seg_end = (literal \<noteq> [] \<and> s ! (length literal - 1) = slash);
            prefix_size = (if at_seg_end then length literal - 1 else length literal);
            prefix = take prefix_size s in
        if prefix_slashes prefix 0 0 then multiple_slash
        else
          andthen (parseBraceExpansions (drop (length literal) s) max_subpattern_num) (\<lambda>sub_pats.
          andthen (create_subs sub_pats []) (\<lambda>subs.
          Inr \<lparr>glob_prefix = prefix, prefix_at_seg_end = at_seg_end, sub_globs = subs\<rparr>)))"

definition isTrivialMatchAll :: "glob_pattern \<Rightarrow> bool" where
  "isTrivialMatchAll g \<longleftrightarrow>
     glob_prefix g = [] \<and>
     (length (sub_globs g) = 1 \<and> pat (sub_globs g ! 0) = ''*'' \<or>
      length (sub_globs g) = 2 \<and> pat (sub_globs g ! 0) = ''**'')"

section \<open>The matcher\<close>

record match_state =
  mb :: nat
  glob_seg :: nat
  wild_mode :: bool
  mp :: nat
  ms :: nat
  mseg_end :: nat
  mseg_start :: nat

text \<open>
  One iteration of the loop either returns, continues with a new state and stack (top first), or
  leaves the \<open>switch\<close> towards the backtracking code.
\<close>

datatype step_result = Stop "bool res" | Go match_state "match_state list" | Backtrack

definition skip_chars :: "(char \<Rightarrow> bool) \<Rightarrow> string \<Rightarrow> nat \<Rightarrow> nat" where
  "skip_chars test str s = s + length (takeWhile test (drop s str))"

text \<open>Entering segment \<open>k\<close>; the code reads its bounds from \<open>glob_segments\<close>.\<close>

definition enter_segment :: "sub_glob \<Rightarrow> nat \<Rightarrow> match_state \<Rightarrow> match_state res" where
  "enter_segment g k st =
     andthen (at (glob_segments g) k) (\<lambda>seg.
     Inr (st\<lparr>glob_seg := k, mseg_start := seg_start seg, mseg_end := seg_end seg\<rparr>))"

definition move_to_segment :: "sub_glob \<Rightarrow> nat \<Rightarrow> match_state \<Rightarrow> match_state res" where
  "move_to_segment g k st =
     andthen (enter_segment g k st) (\<lambda>st'. Inr (st'\<lparr>mp := mseg_start st'\<rparr>))"

definition advance :: "string \<Rightarrow> nat \<Rightarrow> match_state \<Rightarrow> match_state res" where
  "advance str n st = (if ms st + n \<le> length str then Inr (st\<lparr>ms := ms st + n\<rparr>) else Inl OutOfBounds)"

definition go :: "match_state res \<Rightarrow> (match_state \<Rightarrow> match_state list) \<Rightarrow> step_result" where
  "go r stack = (case r of Inl e \<Rightarrow> Stop (Inl e) | Inr st \<Rightarrow> Go st (stack st))"

text \<open>After \<open>**\<close>: consume further stars and slashes. \<open>Inl\<close> is a return from the matcher.\<close>

function consume_stars :: "sub_glob \<Rightarrow> match_state \<Rightarrow> bool res + match_state" where
  "consume_stars g st =
     (if mp st < length (pat g) \<and> (pat g ! mp st = CHR ''*'' \<or> pat g ! mp st = slash) then
        if pat g ! mp st = slash then
          if glob_seg st + 1 = length (glob_segments g) then Inl (Inr True)
          else (case enter_segment g (glob_seg st + 1) st of
                  Inl e \<Rightarrow> Inl (Inl e)
                | Inr st' \<Rightarrow> consume_stars g (st'\<lparr>mp := mp st + 1\<rparr>))
        else consume_stars g (st\<lparr>mp := mp st + 1\<rparr>)
      else Inr st)"
  by pat_completeness auto
termination
  by (relation "measure (\<lambda>(g, st). length (pat g) - mp st)") auto

declare consume_stars.simps [simp del]

definition star_step :: "sub_glob \<Rightarrow> string \<Rightarrow> match_state \<Rightarrow> match_state list \<Rightarrow> step_result" where
  "star_step g str st stack =
     (let p_end = length (pat g); s_end = length str in
      if mp st + 1 \<noteq> p_end \<and> pat g ! (mp st + 1) = CHR ''*'' then
        case consume_stars g (st\<lparr>mp := mp st + 2, wild_mode := True\<rparr>) of
          Inl r \<Rightarrow> Stop r
        | Inr st1 \<Rightarrow>
            if mp st1 = mseg_end st1 then
              if glob_seg st1 + 1 = length (glob_segments g) then Stop (Inr True)
              else go (move_to_segment g (glob_seg st1 + 1) (st1\<lparr>ms := skip_chars (\<lambda>c. c = slash) str (ms st1)\<rparr>))
                     (\<lambda>st2. st2 # stack)
            else Go st1 (st1 # stack)
      else
        let st1 = st\<lparr>mp := mp st + 1, wild_mode := False\<rparr> in
        if mp st1 = mseg_end st1 then
          let st2 = st1\<lparr>ms := skip_chars (\<lambda>c. c \<noteq> slash) str (ms st1)\<rparr> in
          if ms st2 = s_end then Go st2 stack
          else
            let st3 = (if ms st2 + 1 \<noteq> s_end then st2\<lparr>ms := ms st2 + 1\<rparr> else st2) in
            if glob_seg st3 + 1 = length (glob_segments g) then Stop (Inr True)
            else go (move_to_segment g (glob_seg st3 + 1) st3) (\<lambda>st4. st4 # stack)
        else Go st1 (st1 # stack))"

definition char_width :: "char \<Rightarrow> nat" where "char_width c = (if c = backslash then 2 else 1)"

definition question_step :: "sub_glob \<Rightarrow> string \<Rightarrow> match_state \<Rightarrow> match_state list \<Rightarrow> step_result" where
  "question_step g str st stack =
     (let c = str ! ms st in
      if mp st + 1 \<noteq> mseg_end st \<and> pat g ! (mp st + 1) = CHR ''*'' then
        (case advance str (char_width c) st of
           Inl e \<Rightarrow> Stop (Inl e)
         | Inr st1 \<Rightarrow> Go (st1\<lparr>mp := mp st1 + 2\<rparr>) (st1 # stack))
      else if c \<noteq> slash then go (advance str (char_width c) (st\<lparr>mp := mp st + 1\<rparr>)) (\<lambda>_. stack)
      else Backtrack)"

definition at_segment_start :: "string \<Rightarrow> match_state \<Rightarrow> bool" where
  "at_segment_start str st \<longleftrightarrow> mp st = mseg_start st \<and> \<not> (ms st = 0 \<or> str ! (ms st - 1) = slash)"

definition bracket_step :: "sub_glob \<Rightarrow> string \<Rightarrow> match_state \<Rightarrow> match_state list \<Rightarrow> step_result" where
  "bracket_step g str st stack =
     (if mb st < length (brackets g) \<and> str ! ms st \<in> bytes (brackets g ! mb st) then
        if at_segment_start str st then Backtrack
        else Go (st\<lparr>mp := next_offset (brackets g ! mb st), mb := mb st + 1, ms := ms st + 1\<rparr>) stack
      else Backtrack)"

definition escape_step :: "sub_glob \<Rightarrow> string \<Rightarrow> match_state \<Rightarrow> match_state list \<Rightarrow> step_result" where
  "escape_step g str st stack =
     (if mp st + 1 \<noteq> mseg_end st \<and> pat g ! (mp st + 1) = str ! ms st then
        if at_segment_start str st then Backtrack else Go (st\<lparr>mp := mp st + 2, ms := ms st + 1\<rparr>) stack
      else Backtrack)"

definition literal_step :: "sub_glob \<Rightarrow> string \<Rightarrow> match_state \<Rightarrow> match_state list \<Rightarrow> step_result" where
  "literal_step g str st stack =
     (if pat g ! mp st = str ! ms st then
        if at_segment_start str st then Backtrack else Go (st\<lparr>mp := mp st + 1, ms := ms st + 1\<rparr>) stack
      else Backtrack)"

definition segment_end_step :: "sub_glob \<Rightarrow> string \<Rightarrow> match_state \<Rightarrow> match_state list \<Rightarrow> step_result" where
  "segment_end_step g str st stack =
     (if mseg_end st = length (pat g) then Backtrack
      else if wild_mode st then
        let s1 = skip_chars (\<lambda>c. c \<noteq> slash) str (ms st);
            s2 = (if s1 \<noteq> length str \<and> str ! s1 = slash then s1 + 1 else s1) in
        if glob_seg st + 1 \<ge> length (glob_segments g) then Stop (Inr (s2 = length str))
        else go (move_to_segment g (glob_seg st + 1) (st\<lparr>ms := s2\<rparr>)) (\<lambda>_. stack)
      else if pat g ! mseg_end st \<noteq> str ! ms st then Stop (Inr False)
      else go (move_to_segment g (glob_seg st + 1) (st\<lparr>ms := skip_chars (\<lambda>c. c = slash) str (ms st)\<rparr>)) (\<lambda>_. stack))"

definition backtrack :: "string \<Rightarrow> match_state list \<Rightarrow> step_result" where
  "backtrack str stack =
     (case stack of
        [] \<Rightarrow> Stop (Inr False)
      | state # rest \<Rightarrow>
          (case advance str 1 state of
             Inl e \<Rightarrow> Stop (Inl e)
           | Inr st \<Rightarrow>
               if \<not> wild_mode st \<and> (ms st = length str \<or> str ! ms st = slash) then Go st rest
               else Go st (st # rest)))"

definition match_step :: "sub_glob \<Rightarrow> string \<Rightarrow> match_state \<Rightarrow> match_state list \<Rightarrow> step_result" where
  "match_step g str st stack =
     (if \<not> glob_seg st < length (glob_segments g) then Stop (Inr (ms st = length str))
      else if ms st = length str then
        Stop (Inr (\<forall>c \<in> set (drop (mp st) (pat g)). c = CHR ''*'' \<or> c = slash))
      else
        let r = (if mp st = mseg_end st then segment_end_step g str st stack
                 else case at (pat g) (mp st) of
                   Inl e \<Rightarrow> Stop (Inl e)
                 | Inr c \<Rightarrow>
                     if c = CHR ''*'' then star_step g str st stack
                     else if c = CHR ''?'' then question_step g str st stack
                     else if c = CHR ''['' then bracket_step g str st stack
                     else if c = backslash then escape_step g str st stack
                     else literal_step g str st stack)
        in (case r of Backtrack \<Rightarrow> backtrack str stack | _ \<Rightarrow> r))"

partial_function (option) match_loop ::
    "sub_glob \<Rightarrow> string \<Rightarrow> match_state \<Rightarrow> match_state list \<Rightarrow> bool res option" where
  "match_loop g str st stack =
     (case match_step g str st stack of
        Stop r \<Rightarrow> Some r
      | Go st' stack' \<Rightarrow> match_loop g str st' stack'
      | Backtrack \<Rightarrow> None)"

declare match_loop.simps [code]

definition match_sub :: "sub_glob \<Rightarrow> string \<Rightarrow> bool res option" where
  "match_sub g str =
     (case at (glob_segments g) 0 of
        Inl e \<Rightarrow> Some (Inl e)
      | Inr seg \<Rightarrow>
          match_loop g str
            \<lparr>mb = 0, glob_seg = 0, wild_mode = False, mp = 0, ms = 0, mseg_end = seg_end seg, mseg_start = 0\<rparr> [])"

fun match_any :: "sub_glob list \<Rightarrow> string \<Rightarrow> bool res option" where
  "match_any [] str = Some (Inr False)"
| "match_any (g # gs) str =
     (case match_sub g str of
        None \<Rightarrow> None
      | Some (Inl e) \<Rightarrow> Some (Inl e)
      | Some (Inr True) \<Rightarrow> Some (Inr True)
      | Some (Inr False) \<Rightarrow> match_any gs str)"

definition match_glob :: "glob_pattern \<Rightarrow> string \<Rightarrow> bool res option" where
  "match_glob g str0 =
     (if take (length (glob_prefix g)) str0 \<noteq> glob_prefix g then Some (Inr False)
      else
        let str = drop (length (glob_prefix g)) str0 in
        if str = [] \<and> sub_globs g = [] then Some (Inr True)
        else if str \<noteq> [] \<and> prefix_at_seg_end g then
          if str ! 0 \<noteq> slash then Some (Inr False) else match_any (sub_globs g) (drop 1 str)
        else match_any (sub_globs g) str)"

section \<open>Literal patterns and the check of the prefix\<close>

lemma prefix_slashes_running: "prefix_slashes cs (Suc i) i \<longleftrightarrow> slash \<in> set cs"
  by (induction cs arbitrary: i) auto

lemma prefix_slashes_iff: "prefix_slashes s 0 0 \<longleftrightarrow> slash \<in> set (drop 1 s)"
  by (cases s) (auto simp: prefix_slashes_running)

text \<open>
  A pattern without metacharacters that is accepted matches exactly itself.
\<close>

theorem literal_glob_exact:
  assumes "create_glob s n = Inr g" and "\<forall>c \<in> set s. \<not> is_meta c"
  shows "match_glob g str = Some (Inr (str = s))"
proof -
  have "takeWhile (\<lambda>c. \<not> is_meta c) s = s" using assms(2) by (simp add: takeWhile_eq_all_conv)
  with assms(1) have g: "g = \<lparr>glob_prefix = s, prefix_at_seg_end = False, sub_globs = []\<rparr>"
    by (simp add: create_glob_def multiple_slash_def split: if_splits)
  show ?thesis
  proof (cases "str = s")
    case False
    then have "\<not> (take (length s) str = s \<and> drop (length s) str = [])"
      by (metis append_take_drop_id append_Nil2)
    with False show ?thesis by (auto simp: g match_glob_def Let_def)
  qed (simp add: g match_glob_def)
qed

lemma literal_glob_exact_witness:
  "match_glob \<lparr>glob_prefix = ''test(.txt'', prefix_at_seg_end = False, sub_globs = []\<rparr> ''test?txt'' = Some (Inr False)"
proof -
  have "create_glob ''test(.txt'' 100 = Inr \<lparr>glob_prefix = ''test(.txt'', prefix_at_seg_end = False, sub_globs = []\<rparr>"
    by (simp add: create_glob_def is_meta_def Let_def)
  moreover have "\<forall>c \<in> set ''test(.txt''. \<not> is_meta c" by (simp add: is_meta_def)
  ultimately show ?thesis by (subst literal_glob_exact [of "''test(.txt''" 100]) auto
qed

text \<open>
  The check for repeated slashes in the prefix before the first metacharacter rejects every
  pattern whose prefix has a slash behind its first character and not at its end, also a single one:
  a pattern such as \<open>src/foo/*.c\<close> is never accepted.
\<close>

theorem create_glob_rejects_inner_slash:
  assumes "s = a @ [slash] @ b @ c # rest" and "a \<noteq> []" and "b \<noteq> []"
    and "\<forall>x \<in> set (a @ b). \<not> is_meta x" and "is_meta c"
  shows "create_glob s n = Inl (Invalid ''Multiple `/` is not allowed'')"
proof -
  let ?lit = "a @ slash # b"
  have "\<not> is_meta slash" by (simp add: is_meta_def)
  then have lit: "takeWhile (\<lambda>c. \<not> is_meta c) s = ?lit" using assms by (simp add: takeWhile_tail)
  obtain x a' where a: "a = x # a'" using assms(2) by (cases a) auto
  have "slash \<in> set (drop 1 (take k s))" if k: "length a < k" for k
  proof -
    obtain m where "k = Suc (Suc (length a' + m))" using less_imp_Suc_add [OF k] a by auto
    then show ?thesis by (simp add: assms(1) a)
  qed
  then have "prefix_slashes (take k s) 0 0" if "length a < k" for k using that by (simp only: prefix_slashes_iff)
  moreover have "length a < length ?lit - 1" "length ?lit - 1 \<le> length ?lit" using assms(3) by (cases b; simp)+
  moreover have "length ?lit \<noteq> length s" by (simp add: assms(1))
  ultimately show ?thesis
    unfolding create_glob_def lit Let_def multiple_slash_def by (simp only: if_False if_True split: if_split) auto
qed

lemma create_glob_rejects_inner_slash_witness:
  "create_glob ''src/foo/*.c'' 100 = Inl (Invalid ''Multiple `/` is not allowed'')"
  using create_glob_rejects_inner_slash [of "''src/foo/*.c''" "''src''" "''foo/''" "CHR ''*''" "''.c''" 100]
  by (simp add: is_meta_def)

section \<open>Brace expansion is the product of the alternatives\<close>

text \<open>
  A decomposition of \<open>s\<close> from position \<open>i\<close> on: the brace expressions in order, each with the text
  between its braces being its terms separated by commas.
\<close>

fun join_commas :: "string list \<Rightarrow> string" where
  "join_commas [] = []"
| "join_commas [t] = t"
| "join_commas (t # ts) = t @ CHR '','' # join_commas ts"

fun decomposition :: "string \<Rightarrow> nat \<Rightarrow> brace_expansion list \<Rightarrow> bool" where
  "decomposition s i [] \<longleftrightarrow> i \<le> length s"
| "decomposition s i (be # bes) \<longleftrightarrow>
     i \<le> be_start be \<and> be_terms be \<noteq> [] \<and>
     substr s (be_start be) (be_length be) = CHR ''{'' # join_commas (be_terms be) @ ''}'' \<and>
     be_start be + be_length be \<le> length s \<and>
     decomposition s (be_start be + be_length be) bes"

text \<open>All ways to pick one alternative of every brace expression, leftmost choice slowest.\<close>

fun product :: "string \<Rightarrow> nat \<Rightarrow> brace_expansion list \<Rightarrow> string list" where
  "product s i [] = [drop i s]"
| "product s i (be # bes) =
     concat (map (\<lambda>t. map (\<lambda>r. substr s i (be_start be - i) @ t @ r) (product s (be_start be + be_length be) bes))
       (be_terms be))"

lemma length_product: "length (product s i bes) = prod_list (map (\<lambda>be. length (be_terms be)) bes)"
  by (induction bes arbitrary: i) (simp_all add: length_concat comp_def sum_list_triv)

lemma expand_brace_product:
  "decomposition s i bes \<Longrightarrow> fold expand_brace (rev bes) [s] = map (\<lambda>r. take i s @ r) (product s i bes)"
proof (induction bes arbitrary: i)
  case (Cons be bes)
  let ?a = "be_start be" and ?n = "be_length be"
  from Cons.prems have d: "i \<le> ?a" "?a + ?n \<le> length s" "decomposition s (?a + ?n) bes" by auto
  have "replace_at (take (?a + ?n) s @ r) ?a ?n t = take i s @ substr s i (?a - i) @ t @ r" for r t
  proof -
    have "take ?a s = take i s @ substr s i (?a - i)" using d by (simp add: substr_def take_add [symmetric])
    moreover have "take ?a (take (?a + ?n) s @ r) = take ?a s" using d by (simp add: min_def)
    ultimately show ?thesis using d by (simp add: replace_at_def)
  qed
  then show ?case
    using Cons.IH [OF d(3)] by (simp add: expand_brace_def map_concat comp_def)
qed simp

subsection \<open>The language of patterns\<close>

text \<open>
  A pattern is a sequence of atoms and brace expressions. An atom is a plain character, an escaped
  character or a bracket expression; a brace expression is a nonempty list of alternatives that are
  sequences of atoms. Inside braces a comma and a closing brace are not plain.
\<close>

datatype atom = Plain char | Escaped char | Bracket string

datatype piece = Atom atom | Braces "atom list list"

fun atom_text :: "atom \<Rightarrow> string" where
  "atom_text (Plain c) = [c]"
| "atom_text (Escaped c) = [backslash, c]"
| "atom_text (Bracket t) = CHR ''['' # t @ '']''"

definition atoms_text :: "atom list \<Rightarrow> string" where
  "atoms_text as = concat (map atom_text as)"

fun piece_text :: "piece \<Rightarrow> string" where
  "piece_text (Atom a) = atom_text a"
| "piece_text (Braces alts) = CHR ''{'' # join_commas (map atoms_text alts) @ ''}''"

definition pattern_text :: "piece list \<Rightarrow> string" where
  "pattern_text ps = concat (map piece_text ps)"

text \<open>The text between brackets: no unescaped closing bracket, except as the first character.\<close>

fun unclosed :: "string \<Rightarrow> bool" where
  "unclosed [] \<longleftrightarrow> True"
| "unclosed (c # cs) \<longleftrightarrow>
     c \<noteq> CHR '']'' \<and> (if c = backslash then (case cs of [] \<Rightarrow> False | _ # ds \<Rightarrow> unclosed ds) else unclosed cs)"

definition bracket_ok :: "string \<Rightarrow> bool" where
  "bracket_ok t \<longleftrightarrow> t \<noteq> [] \<and> unclosed (if hd t = CHR '']'' then tl t else t)"

fun atom_ok :: "bool \<Rightarrow> atom \<Rightarrow> bool" where
  "atom_ok inside (Plain c) \<longleftrightarrow> c \<notin> {CHR ''['', CHR ''{'', backslash} \<and> (inside \<longrightarrow> c \<notin> {CHR '','', CHR ''}''})"
| "atom_ok inside (Escaped c) \<longleftrightarrow> True"
| "atom_ok inside (Bracket t) \<longleftrightarrow> bracket_ok t"

fun piece_ok :: "piece \<Rightarrow> bool" where
  "piece_ok (Atom a) \<longleftrightarrow> atom_ok False a"
| "piece_ok (Braces alts) \<longleftrightarrow> alts \<noteq> [] \<and> alts \<noteq> [[]] \<and> (\<forall>t \<in> set alts. \<forall>a \<in> set t. atom_ok True a)"

definition pattern_ok :: "piece list \<Rightarrow> bool" where
  "pattern_ok ps \<longleftrightarrow> (\<forall>p \<in> set ps. piece_ok p)"

text \<open>All ways to pick one alternative of every brace expression, the leftmost choice slowest.\<close>

fun expansions :: "piece list \<Rightarrow> string list" where
  "expansions [] = [[]]"
| "expansions (Atom a # ps) = map (\<lambda>r. atom_text a @ r) (expansions ps)"
| "expansions (Braces alts # ps) = concat (map (\<lambda>t. map (\<lambda>r. atoms_text t @ r) (expansions ps)) alts)"

lemma texts [simp]:
  "pattern_text [] = []" "pattern_text (p # ps) = piece_text p @ pattern_text ps"
  "pattern_text (ps @ qs) = pattern_text ps @ pattern_text qs"
  "atoms_text [] = []" "atoms_text (a # as) = atom_text a @ atoms_text as"
  "atoms_text (as @ bs) = atoms_text as @ atoms_text bs"
  by (simp_all add: pattern_text_def atoms_text_def)

lemma join_commas_snoc: "join_commas (ts @ [t]) = concat (map (\<lambda>t. t @ '','') ts) @ t"
proof (induction ts)
  case (Cons u ts)
  then show ?case by (cases ts) auto
qed simp

subsection \<open>Parsing the text of a pattern\<close>

lemma skip_unclosed:
  "unclosed t \<Longrightarrow> skip_bracket (pre @ t @ CHR '']'' # post) (length pre) = Inr (length pre + length t)"
proof (induction t arbitrary: pre rule: unclosed.induct)
  case 1
  then show ?case by (simp add: skip_bracket.simps)
next
  case (2 c cs)
  show ?case
  proof (cases "c = backslash")
    case True
    then obtain d ds where cs: "cs = d # ds" "unclosed ds" using 2(3) by (cases cs) auto
    have "skip_bracket ((pre @ [c, d]) @ ds @ CHR '']'' # post) (length (pre @ [c, d])) = Inr (length (pre @ [c, d]) + length ds)"
      by (rule 2(1) [OF True cs(1,2)])
    then show ?thesis using True cs by (subst skip_bracket.simps) (simp add: nth_append)
  next
    case False
    then have "skip_bracket ((pre @ [c]) @ cs @ CHR '']'' # post) (length (pre @ [c])) = Inr (length (pre @ [c]) + length cs)"
      using 2(2) [OF False, of "pre @ [c]"] 2(3) by simp
    then show ?thesis using False 2(3) by (subst skip_bracket.simps) (simp add: nth_append)
  qed
qed

lemma bracket_skipped:
  assumes "bracket_ok t" and "s = pre @ CHR ''['' # t @ CHR '']'' # post"
  shows "brace_step s (length pre) st = Inr (length pre + length t + 2, st)"
proof (cases "hd t = CHR '']''")
  case True
  then obtain cs where t: "t = CHR '']'' # cs" "unclosed cs" using assms(1) by (cases t) (auto simp: bracket_ok_def)
  have "skip_bracket ((pre @ ''[]'') @ cs @ CHR '']'' # post) (length (pre @ ''[]'')) = Inr (length (pre @ ''[]'') + length cs)"
    by (rule skip_unclosed [OF t(2)])
  then show ?thesis using t(1) assms(2) by (simp add: brace_step_def at_def nth_append)
next
  case False
  then obtain c cs where t: "t = c # cs" "c \<noteq> CHR '']''" "unclosed t" using assms(1) by (cases t) (auto simp: bracket_ok_def)
  have "skip_bracket ((pre @ ''['') @ t @ CHR '']'' # post) (length (pre @ ''['')) = Inr (length (pre @ ''['') + length t)"
    by (rule skip_unclosed [OF t(3)])
  then show ?thesis using t(1,2) assms(2) by (simp add: brace_step_def at_def nth_append)
qed

lemma step_atom:
  assumes "atom_ok (current_be st \<noteq> None) a" and "s = pre @ atom_text a @ post"
  shows "brace_step s (length pre) st = Inr (length (pre @ atom_text a), st)"
proof (cases a)
  case (Bracket t)
  then show ?thesis using bracket_skipped [of t s pre post st] assms by simp
qed (use assms in \<open>auto simp: brace_step_def at_def nth_append split: option.splits\<close>)

lemma loop_step:
  "brace_step s i st = Inr (i', st') \<Longrightarrow> i < length s \<Longrightarrow> brace_loop s i st = brace_loop s i' st'"
  by (subst brace_loop.simps) simp

lemma atom_text_nonempty: "atom_text a \<noteq> []"
  by (cases a) auto

lemma loop_atom:
  assumes "atom_ok (current_be st \<noteq> None) a" and "s = pre @ atom_text a @ post"
  shows "brace_loop s (length pre) st = brace_loop s (length (pre @ atom_text a)) st"
  by (rule loop_step [OF step_atom [OF assms]]) (simp add: assms(2) atom_text_nonempty)

lemma loop_atoms:
  "\<forall>a \<in> set as. atom_ok (current_be st \<noteq> None) a \<Longrightarrow> s = pre @ atoms_text as @ post \<Longrightarrow>
    brace_loop s (length pre) st = brace_loop s (length (pre @ atoms_text as)) st"
proof (induction as arbitrary: pre)
  case (Cons a as)
  have "brace_loop s (length pre) st = brace_loop s (length (pre @ atom_text a)) st"
    by (rule loop_atom [of _ _ _ _ "atoms_text as @ post"]) (use Cons.prems in simp_all)
  also have "\<dots> = brace_loop s (length ((pre @ atom_text a) @ atoms_text as)) st"
    by (rule Cons.IH) (use Cons.prems in simp_all)
  finally show ?case by simp
qed simp

text \<open>The alternatives after an opening brace at \<open>a\<close>, up to and with the closing one.\<close>

lemma loop_alternatives:
  assumes "\<forall>t \<in> set alts. \<forall>a \<in> set t. atom_ok True a" and "alts \<noteq> []" and "be_terms be = [] \<Longrightarrow> alts \<noteq> [[]]"
    and "current_be st = Some be" and "term_begin st = length pre" and "be_start be \<le> length pre"
    and "s = pre @ join_commas (map atoms_text alts) @ CHR ''}'' # post"
  shows "\<exists>b. brace_loop s (length pre) st = brace_loop s (length s - length post)
    \<lparr>braces = braces st @ [\<lparr>be_start = be_start be, be_length = length s - length post - be_start be,
       be_terms = be_terms be @ map atoms_text alts\<rparr>], current_be = None, term_begin = b\<rparr>"
  using assms
proof (induction alts arbitrary: be st pre)
  case (Cons t alts)
  let ?i = "length pre + length (atoms_text t)"
  let ?rest = "if alts = [] then CHR ''}'' # post else CHR '','' # join_commas (map atoms_text alts) @ CHR ''}'' # post"
  have s: "s = pre @ atoms_text t @ ?rest"
    using Cons.prems(7) by (cases "map atoms_text alts") auto
  have one: "brace_loop s (length pre) st = brace_loop s ?i st"
    using loop_atoms [of t st s pre ?rest] Cons.prems(1,4) s by simp
  have alt: "substr s (term_begin st) (?i - term_begin st) = atoms_text t"
    using s Cons.prems(5) by (simp add: substr_def)
  show ?case
  proof (cases "alts = []")
    case True
    then have s': "s = pre @ atoms_text t @ CHR ''}'' # post" using s by simp
    have "\<not> (be_terms be = [] \<and> ?i - term_begin st = 0)" using Cons.prems(3,5) True by (auto simp: atoms_text_def atom_text_nonempty)
    then have "brace_step s ?i st = Inr (?i + 1, st\<lparr>braces := braces st @ [be\<lparr>be_terms := be_terms be @ [atoms_text t],
        be_length := ?i - be_start be + 1\<rparr>], current_be := None\<rparr>)"
      using Cons.prems(4) alt s' by (simp add: brace_step_def at_def nth_append Let_def)
    then have "brace_loop s ?i st = brace_loop s (?i + 1) (st\<lparr>braces := braces st @ [be\<lparr>be_terms := be_terms be @ [atoms_text t],
        be_length := ?i - be_start be + 1\<rparr>], current_be := None\<rparr>)"
      by (rule loop_step) (simp add: s')
    moreover have "?i + 1 = length s - length post" "?i - be_start be + 1 = length s - length post - be_start be"
      using s' Cons.prems(6) by simp_all
    ultimately show ?thesis
      using one True by (intro exI [of _ "term_begin st"]) (cases st; cases be; simp)
  next
    case False
    let ?pre = "pre @ atoms_text t @ '',''"
    let ?be = "be\<lparr>be_terms := be_terms be @ [atoms_text t]\<rparr>"
    let ?st = "st\<lparr>current_be := Some ?be, term_begin := ?i + 1\<rparr>"
    have "brace_step s ?i st = Inr (?i + 1, ?st)"
      using Cons.prems(4) alt s False by (simp add: brace_step_def at_def nth_append Let_def)
    then have two: "brace_loop s ?i st = brace_loop s (length ?pre) ?st"
      using loop_step [of s ?i st "?i + 1" ?st] s False by simp
    have "\<exists>b. brace_loop s (length ?pre) ?st = brace_loop s (length s - length post)
      \<lparr>braces = braces ?st @ [\<lparr>be_start = be_start ?be, be_length = length s - length post - be_start ?be,
        be_terms = be_terms ?be @ map atoms_text alts\<rparr>], current_be = None, term_begin = b\<rparr>"
      by (rule Cons.IH) (use Cons.prems s False in auto)
    then show ?thesis using one two by simp
  qed
qed simp

fun braces_of :: "nat \<Rightarrow> piece list \<Rightarrow> brace_expansion list" where
  "braces_of i [] = []"
| "braces_of i (Atom a # ps) = braces_of (i + length (atom_text a)) ps"
| "braces_of i (Braces alts # ps) =
     \<lparr>be_start = i, be_length = length (piece_text (Braces alts)), be_terms = map atoms_text alts\<rparr>
     # braces_of (i + length (piece_text (Braces alts))) ps"

lemma loop_pattern:
  "pattern_ok ps \<Longrightarrow> s = pre @ pattern_text ps \<Longrightarrow> current_be st = None \<Longrightarrow>
    \<exists>b. brace_loop s (length pre) st = Inr \<lparr>braces = braces st @ braces_of (length pre) ps, current_be = None, term_begin = b\<rparr>"
proof (induction ps arbitrary: pre st)
  case Nil
  then show ?case by (subst brace_loop.simps) (cases st; simp)
next
  case (Cons p ps)
  show ?case
  proof (cases p)
    case (Atom a)
    have "brace_loop s (length pre) st = brace_loop s (length (pre @ atom_text a)) st"
      by (rule loop_atom [of _ _ _ _ "pattern_text ps"]) (use Cons.prems Atom in \<open>simp_all add: pattern_ok_def\<close>)
    then show ?thesis using Cons.IH [of "pre @ atom_text a" st] Cons.prems Atom by (simp add: pattern_ok_def)
  next
    case (Braces alts)
    let ?be = "\<lparr>be_start = length pre, be_length = 0, be_terms = []\<rparr>"
    let ?st = "st\<lparr>current_be := Some ?be, term_begin := length pre + 1\<rparr>"
    have s: "s = (pre @ ''{'') @ join_commas (map atoms_text alts) @ CHR ''}'' # pattern_text ps" using Cons.prems Braces by simp
    have "brace_step s (length pre) st = Inr (length pre + 1, ?st)"
      using s Cons.prems(3) by (simp add: brace_step_def at_def nth_append)
    then have one: "brace_loop s (length pre) st = brace_loop s (length (pre @ ''{'')) ?st"
      using loop_step [of s "length pre" st "length pre + 1" ?st] s by simp
    obtain b where "brace_loop s (length (pre @ ''{'')) ?st = brace_loop s (length s - length (pattern_text ps))
      \<lparr>braces = braces ?st @ [\<lparr>be_start = be_start ?be, be_length = length s - length (pattern_text ps) - be_start ?be,
        be_terms = be_terms ?be @ map atoms_text alts\<rparr>], current_be = None, term_begin = b\<rparr>"
      using loop_alternatives [of alts ?be ?st "pre @ ''{''" s "pattern_text ps"] Cons.prems(1) Braces s
      by (auto simp: pattern_ok_def)
    moreover have "length s - length (pattern_text ps) = length (pre @ piece_text p)" using Cons.prems(2) by simp
    ultimately show ?thesis
      using one Cons.IH [of "pre @ piece_text p"
          "\<lparr>braces = braces st @ [\<lparr>be_start = length pre, be_length = length (piece_text p), be_terms = map atoms_text alts\<rparr>],
            current_be = None, term_begin = b\<rparr>"] Cons.prems Braces
      by (simp add: pattern_ok_def)
  qed
qed

text \<open>The saturating count is over the limit exactly when the product is.\<close>

lemma subpattern_count_over:
  assumes "\<forall>be \<in> set bes. be_terms be \<noteq> []" and "m < 2 ^ 64 - 1"
  shows "m < subpattern_count n bes \<longleftrightarrow> m < n * prod_list (map (\<lambda>be. length (be_terms be)) bes)"
  using assms(1)
proof (induction n bes rule: subpattern_count.induct)
  case (2 n be bes)
  let ?k = "length (be_terms be)" and ?p = "prod_list (map (\<lambda>be. length (be_terms be)) bes)"
  have k: "0 < ?k" "0 < ?p" using 2(2) by (auto simp: prod_list_zero_iff intro!: gr0I)
  show ?case
  proof (cases "n > (2 ^ 64 - 1) div ?k")
    case True
    then have "2 ^ 64 - 1 < n * ?k" using k(1) by (metis div_less_iff_less_mult)
    also have "\<dots> \<le> n * ?k * ?p" using k(2) by simp
    finally have "m < n * (?k * ?p)" using assms(2) by (simp add: mult.assoc)
    then show ?thesis using True assms(2) by simp
  qed (use 2 in \<open>simp add: mult.assoc\<close>)
qed simp

lemma decomposition_later: "decomposition s j bes \<Longrightarrow> i \<le> j \<Longrightarrow> decomposition s i bes"
  by (cases bes) auto

lemma substr_split: "a \<le> b \<Longrightarrow> b \<le> c \<Longrightarrow> substr s a (c - a) = substr s a (b - a) @ substr s b (c - b)"
  by (auto simp: le_iff_add substr_def take_add drop_drop add.commute add.left_commute)

lemma substr_Cons: "i < j \<Longrightarrow> j \<le> length s \<Longrightarrow> substr s i (j - i) = s ! i # substr s (i + 1) (j - (i + 1))"
  using substr_split [of i "i + 1" j s] by (simp add: substr_def take_Suc_conv_app_nth)

lemma product_skip:
  assumes "decomposition s (i + k) bes" and "i + k \<le> length s"
  shows "product s i bes = map (\<lambda>r. substr s i k @ r) (product s (i + k) bes)"
proof (cases bes)
  case Nil
  then show ?thesis by (simp add: substr_def) (metis append_take_drop_id drop_drop add.commute)
next
  case (Cons be bes')
  have "substr s i (be_start be - i) = substr s i k @ substr s (i + k) (be_start be - (i + k))"
    using substr_split [of i "i + k" "be_start be" s] assms(1) Cons by simp
  then show ?thesis using Cons by (simp add: map_concat comp_def)
qed

lemma braces_of_ok:
  "pattern_ok ps \<Longrightarrow> s = pre @ pattern_text ps \<Longrightarrow>
    decomposition s (length pre) (braces_of (length pre) ps)
    \<and> product s (length pre) (braces_of (length pre) ps) = expansions ps"
proof (induction ps arbitrary: pre)
  case (Cons p ps)
  let ?pre = "pre @ piece_text p"
  have IH: "decomposition s (length ?pre) (braces_of (length ?pre) ps)"
    "product s (length ?pre) (braces_of (length ?pre) ps) = expansions ps"
    using Cons.IH [of ?pre] Cons.prems by (simp_all add: pattern_ok_def)
  show ?case
  proof (cases p)
    case (Atom a)
    have "substr s (length pre) (length (atom_text a)) = atom_text a" using Cons.prems(2) Atom by (simp add: substr_def)
    then show ?thesis
      using IH Atom product_skip [of s "length pre" "length (atom_text a)"] Cons.prems(2) decomposition_later
      by fastforce
  next
    case (Braces alts)
    have "substr s (length pre) (length (piece_text p)) = piece_text p" using Cons.prems(2) by (simp add: substr_def)
    then show ?thesis
      using IH Braces Cons.prems by (auto simp: pattern_ok_def substr_def comp_def)
  qed
qed simp

lemma braces_of_terms: "pattern_ok ps \<Longrightarrow> \<forall>be \<in> set (braces_of i ps). be_terms be \<noteq> []"
  by (induction i ps rule: braces_of.induct) (auto simp: pattern_ok_def)

text \<open>The expansions of the text of a pattern.\<close>

lemma parse_pattern_text:
  assumes ok: "pattern_ok ps" and "CHR ''{'' \<in> set (pattern_text ps)" and m: "0 < m" "m < 2 ^ 64 - 1"
  shows "parseBraceExpansions (pattern_text ps) m =
    (if length (expansions ps) \<le> m then Inr (expansions ps) else Inl (Invalid ''Too many brace expansions''))"
proof -
  let ?s = "pattern_text ps" and ?init = "\<lparr>braces = [], current_be = None, term_begin = 0\<rparr>"
  obtain b where loop: "brace_loop ?s 0 ?init = Inr \<lparr>braces = braces_of 0 ps, current_be = None, term_begin = b\<rparr>"
    using loop_pattern [OF ok, of ?s "[]" ?init] by auto
  have d: "decomposition ?s 0 (braces_of 0 ps)" "product ?s 0 (braces_of 0 ps) = expansions ps"
    using braces_of_ok [OF ok, of ?s "[]"] by simp_all
  have "m < subpattern_count 1 (braces_of 0 ps) \<longleftrightarrow> m < length (expansions ps)"
    unfolding subpattern_count_over [OF braces_of_terms [OF ok] m(2)] d(2) [symmetric] length_product by simp
  moreover have "fold expand_brace (rev (braces_of 0 ps)) [?s] = expansions ps"
    using expand_brace_product [OF d(1)] d(2) by simp
  ultimately show ?thesis using assms(2) m loop by (auto simp: parseBraceExpansions_def)
qed

subsection \<open>Every accepted string is the text of a pattern\<close>

definition read_to :: "string \<Rightarrow> nat \<Rightarrow> brace_state \<Rightarrow> bool" where
  "read_to s i st \<longleftrightarrow> i \<le> length s \<and>
     (case current_be st of
        None \<Rightarrow> \<exists>ps. pattern_ok ps \<and> take i s = pattern_text ps
      | Some be \<Rightarrow> \<exists>ps alts cur. pattern_ok ps \<and> (\<forall>t \<in> set (alts @ [cur]). \<forall>a \<in> set t. atom_ok True a)
          \<and> take i s = pattern_text ps @ CHR ''{'' # concat (map (\<lambda>t. atoms_text t @ '','') alts) @ atoms_text cur
          \<and> (alts = [] \<longrightarrow> be_terms be = []) \<and> term_begin st + length (atoms_text cur) = i)"

lemma read_open:
  assumes "current_be st = Some be" and "i \<le> length s" and "pattern_ok ps" and "\<forall>t \<in> set (alts @ [cur]). \<forall>a \<in> set t. atom_ok True a"
    and "take i s = pattern_text ps @ CHR ''{'' # concat (map (\<lambda>t. atoms_text t @ '','') alts) @ atoms_text cur"
    and "alts = [] \<longrightarrow> be_terms be = []" and "term_begin st + length (atoms_text cur) = i"
  shows "read_to s i st"
  unfolding read_to_def assms(1) option.case
  by (intro conjI exI [of _ ps] exI [of _ alts] exI [of _ cur]) (fact assms)+

lemma read_atom:
  assumes "read_to s i st" and "atom_ok (current_be st \<noteq> None) a" and "i' \<le> length s"
    and "take i' s = take i s @ atom_text a"
  shows "read_to s i' st"
proof (cases "current_be st")
  case None
  then obtain ps where "pattern_ok ps" "take i s = pattern_text ps" using assms(1) by (auto simp: read_to_def)
  then have "pattern_ok (ps @ [Atom a]) \<and> take i' s = pattern_text (ps @ [Atom a])"
    using assms(2,4) None by (auto simp: pattern_ok_def)
  then show ?thesis using None assms(3) by (auto simp: read_to_def)
next
  case (Some be)
  then obtain ps alts cur where r: "pattern_ok ps" "\<forall>t \<in> set (alts @ [cur]). \<forall>a \<in> set t. atom_ok True a"
    "take i s = pattern_text ps @ CHR ''{'' # concat (map (\<lambda>t. atoms_text t @ '','') alts) @ atoms_text cur"
    "alts = [] \<longrightarrow> be_terms be = []" "term_begin st + length (atoms_text cur) = i"
    using assms(1) by (auto simp: read_to_def)
  have "length (take i' s) = length (take i s) + length (atom_text a)" using assms(4) by simp
  then have "i' = i + length (atom_text a)" using assms(1,3) by (auto simp: read_to_def)
  then have "term_begin st + length (atoms_text (cur @ [a])) = i'" using r(5) by simp
  moreover have "take i' s = pattern_text ps @ CHR ''{'' # concat (map (\<lambda>t. atoms_text t @ '','') alts) @ atoms_text (cur @ [a])"
    using r(3) assms(4) by simp
  moreover have "\<forall>t \<in> set (alts @ [cur @ [a]]). \<forall>a \<in> set t. atom_ok True a" using r(2) assms(2) Some by auto
  ultimately show ?thesis using read_open [OF Some assms(3) r(1)] r(4) by blast
qed

lemma skip_bracket_unclosed:
  "skip_bracket s i = Inr j \<Longrightarrow> j \<noteq> length s \<Longrightarrow> i \<le> length s \<Longrightarrow>
    j < length s \<and> s ! j = CHR '']'' \<and> unclosed (substr s i (j - i))"
proof (induction s i rule: skip_bracket.induct)
  case (1 s i)
  then have i: "i < length s" by (cases "i = length s") (auto simp: skip_bracket.simps)
  have "i \<le> j" using skip_bracket_ge 1(2) by blast
  show ?case
  proof (cases "s ! i = CHR '']''")
    case True
    then show ?thesis using 1(2) i by (simp add: skip_bracket.simps substr_def)
  next
    case False
    let ?k = "if s ! i = backslash then i + 2 else i + 1"
    have rec: "skip_bracket s ?k = Inr j" using 1(2) i False by (simp add: skip_bracket.simps [of s i])
    then have k: "?k \<le> j" "j \<le> length s" using skip_bracket_ge by blast+
    then have IH: "j < length s" "s ! j = CHR '']''" "unclosed (substr s ?k (j - ?k))"
      using 1(1) [OF _ _ False rec 1(3)] i by auto
    have "unclosed (substr s i (j - i))"
    proof (cases "s ! i = backslash")
      case True
      then have "i + 1 < length s" using k by simp
      then have "substr s i (j - i) = s ! i # s ! (i + 1) # substr s (i + 2) (j - (i + 2))"
        using k True substr_Cons [of i j s] substr_Cons [of "i + 1" j s] by simp
      then show ?thesis using IH(3) True by simp
    next
      case ne: False
      then have "substr s i (j - i) = s ! i # substr s (i + 1) (j - (i + 1))"
        using k substr_Cons [of i j s] by simp
      then show ?thesis using IH(3) ne False by simp
    qed
    then show ?thesis using IH by simp
  qed
qed

lemma take_more:
  assumes "i \<le> j" and "j \<le> length s"
  shows "take j s = take i s @ substr s i (j - i)"
  using assms by (simp add: substr_def take_add [symmetric])

lemma read_bracket:
  assumes step: "brace_step s i st = Inr (i', st')" and c: "s ! i = CHR ''[''" and read: "read_to s i st" and i: "i < length s"
  shows "read_to s i' st'"
proof -
  obtain d where d: "at s (i + 1) = Inr d"
    using step c i by (cases "at s (i + 1)") (auto simp: brace_step_def at_def)
  then have d': "i + 1 < length s" "d = s ! (i + 1)" by (simp_all add: at_Inr)
  let ?k = "if d = CHR '']'' then i + 2 else i + 1"
  obtain j where j: "skip_bracket s ?k = Inr j"
    using step c i d by (cases "skip_bracket s ?k") (auto simp: brace_step_def at_def)
  have e: "i' = j + 1" "st' = st" "j \<noteq> length s"
    using step c i d j by (auto simp: brace_step_def at_def split: if_splits)
  have close: "j < length s" "s ! j = CHR '']''" "unclosed (substr s ?k (j - ?k))"
    using skip_bracket_unclosed [OF j e(3)] d' by auto
  have k: "?k \<le> j" using skip_bracket_ge [OF j] by simp
  let ?t = "substr s (i + 1) (j - (i + 1))"
  have t: "bracket_ok ?t"
  proof (cases "d = CHR '']''")
    case True
    then have "?t = CHR '']'' # substr s (i + 2) (j - (i + 2))"
      using substr_Cons [of "i + 1" j s] k close(1) d' by simp
    then show ?thesis using close(3) True by (simp add: bracket_ok_def)
  next
    case False
    then have "i + 1 < j" using k close(2) d' by (cases "i + 1 = j") auto
    then have "?t = d # substr s (i + 2) (j - (i + 2))" using substr_Cons [of "i + 1" j s] close(1) d' by simp
    then show ?thesis using close(3) False by (simp add: bracket_ok_def)
  qed
  have "substr s i (j + 1 - i) = s ! i # substr s (i + 1) (j + 1 - (i + 1))"
    by (rule substr_Cons) (use k close(1) in \<open>auto split: if_splits\<close>)
  also have "substr s (i + 1) (j + 1 - (i + 1)) = ?t @ substr s j (j + 1 - j)"
    by (rule substr_split) (use k in \<open>auto split: if_splits\<close>)
  also have "substr s j (j + 1 - j) = '']''"
    using substr_Cons [of j "j + 1" s] close(1,2) by (simp add: substr_def)
  finally have "substr s i (j + 1 - i) = atom_text (Bracket ?t)" using c by simp
  then have "take (j + 1) s = take i s @ atom_text (Bracket ?t)"
    using take_more [of i "j + 1" s] k close(1) by (auto split: if_splits)
  then have "read_to s (j + 1) st" using read_atom [OF read, of "Bracket ?t" "j + 1"] t close(1) by simp
  then show ?thesis using e by simp
qed

lemma read_step:
  assumes step: "brace_step s i st = Inr (i', st')" and read: "read_to s i st" and i: "i < length s"
  shows "read_to s i' st'"
proof -
  have one: "take (i + 1) s = take i s @ [s ! i]" using i by (simp add: take_Suc_conv_app_nth)
  have plain: "read_to s (i + 1) st" if "atom_ok (current_be st \<noteq> None) (Plain (s ! i))"
    using read_atom [OF read that, of "i + 1"] one i by simp
  consider "s ! i = CHR ''[''" | "s ! i = CHR ''{''" | "s ! i = CHR '',''" | "s ! i = CHR ''}''" | "s ! i = backslash" |
    "s ! i \<notin> {CHR ''['', CHR ''{'', CHR '','', CHR ''}'', backslash}" by blast
  then show ?thesis
  proof cases
    case 1
    then show ?thesis using read_bracket [OF step _ read i] by simp
  next
    case 2
    then have n: "current_be st = None" and
      r: "i' = i + 1" "st' = st\<lparr>current_be := Some \<lparr>be_start = i, be_length = 0, be_terms = []\<rparr>, term_begin := i + 1\<rparr>"
      using step i by (auto simp: brace_step_def at_def split: option.splits)
    then obtain ps where "pattern_ok ps" "take i s = pattern_text ps" using read by (auto simp: read_to_def)
    then show ?thesis using r i one 2 by (intro read_open [of st' _ i' s ps "[]" "[]"]) auto
  next
    case 3
    show ?thesis
    proof (cases "current_be st")
      case None
      then show ?thesis using plain 3 step i by (auto simp: brace_step_def at_def)
    next
      case (Some be)
      then obtain ps alts cur where o: "pattern_ok ps" "\<forall>t \<in> set (alts @ [cur]). \<forall>a \<in> set t. atom_ok True a"
        "take i s = pattern_text ps @ CHR ''{'' # concat (map (\<lambda>t. atoms_text t @ '','') alts) @ atoms_text cur"
        using read by (auto simp: read_to_def)
      show ?thesis
        using step 3 i Some o one
        by (intro read_open [of st' "be\<lparr>be_terms := be_terms be @ [substr s (term_begin st) (i - term_begin st)]\<rparr>" i' s ps "alts @ [cur]" "[]"])
          (auto simp: brace_step_def at_def)
    qed
  next
    case 4
    show ?thesis
    proof (cases "current_be st")
      case None
      then show ?thesis using plain 4 step i by (auto simp: brace_step_def at_def)
    next
      case (Some be)
      then obtain ps alts cur where o: "pattern_ok ps" "\<forall>t \<in> set (alts @ [cur]). \<forall>a \<in> set t. atom_ok True a"
        "take i s = pattern_text ps @ CHR ''{'' # concat (map (\<lambda>t. atoms_text t @ '','') alts) @ atoms_text cur"
        "alts = [] \<longrightarrow> be_terms be = []" "term_begin st + length (atoms_text cur) = i"
        using read by (auto simp: read_to_def)
      have r: "i' = i + 1" "current_be st' = None" "\<not> (be_terms be = [] \<and> i - term_begin st = 0)"
        using step 4 i Some by (auto simp: brace_step_def at_def Let_def split: if_splits)
      have "alts @ [cur] \<noteq> [[]]" using r(3) o(4,5) by auto
      then have "pattern_ok (ps @ [Braces (alts @ [cur])])" using o(1,2) by (auto simp: pattern_ok_def)
      moreover have "take i' s = pattern_text (ps @ [Braces (alts @ [cur])])"
        using r(1) one o(3) 4 by (simp add: join_commas_snoc comp_def)
      ultimately show ?thesis using r i unfolding read_to_def by auto
    qed
  next
    case 5
    then have r: "i' = i + 2" "st' = st" "i + 1 \<noteq> length s" using step i by (auto simp: brace_step_def at_def split: if_splits)
    then have "take (i + 2) s = take i s @ atom_text (Escaped (s ! (i + 1)))"
      using one 5 i by (simp add: take_Suc_conv_app_nth)
    then show ?thesis using read_atom [OF read, of "Escaped (s ! (i + 1))" "i + 2"] r i by simp
  next
    case 6
    then have "i' = i + 1" "st' = st" using step i by (auto simp: brace_step_def at_def)
    then show ?thesis using plain 6 by auto
  qed
qed

lemma read_loop: "brace_loop s i st = Inr st' \<Longrightarrow> read_to s i st \<Longrightarrow> read_to s (length s) st'"
proof (induction s i st rule: brace_loop.induct)
  case step: (1 s i st)
  show ?case
  proof (cases "i < length s")
    case True
    with step.prems(1) obtain i1 st1 where b: "brace_step s i st = Inr (i1, st1)" "brace_loop s i1 st1 = Inr st'"
      by (subst (asm) brace_loop.simps) (auto split: sum.splits)
    from step.IH [OF True b(1) refl b(2)] show ?thesis using read_step [OF b(1) step.prems(2) True] by blast
  next
    case False
    with step.prems have "i = length s" "st' = st" by (auto simp: read_to_def)
    with step.prems(2) show ?thesis by simp
  qed
qed

lemma accepted_is_pattern:
  assumes "parseBraceExpansions s m = Inr qs" and "CHR ''{'' \<in> set s" and "0 < m"
  shows "\<exists>ps. pattern_ok ps \<and> s = pattern_text ps"
proof -
  let ?init = "\<lparr>braces = [], current_be = None, term_begin = 0\<rparr>"
  from assms obtain st where st: "brace_loop s 0 ?init = Inr st" "current_be st = None"
    by (auto simp: parseBraceExpansions_def andthen_Inr split: if_splits)
  have "read_to s 0 ?init" by (auto simp: read_to_def pattern_ok_def intro: exI [of _ "[]"])
  from read_loop [OF st(1) this] st(2) show ?thesis by (auto simp: read_to_def)
qed

text \<open>
  C35. Brace expansion of a string with an opening brace, with a limit of at least one: it succeeds
  with the sub-patterns \<open>qs\<close> exactly when the string is the text of a pattern of the language above
  (atoms and brace expressions, whose alternatives are separated by the commas that are neither escaped
  nor in brackets), \<open>qs\<close> are its expansions, one alternative picked from each brace expression, in
  order, and there are at most as many as the limit.
\<close>

theorem brace_expansion_product:
  assumes "CHR ''{'' \<in> set s" and "0 < m" and "m < 2 ^ 64 - 1"
  shows "parseBraceExpansions s m = Inr qs \<longleftrightarrow>
    (\<exists>ps. pattern_ok ps \<and> s = pattern_text ps \<and> qs = expansions ps \<and> length qs \<le> m)"
proof
  assume p: "parseBraceExpansions s m = Inr qs"
  obtain ps where ps: "pattern_ok ps" "s = pattern_text ps" using accepted_is_pattern [OF p assms(1,2)] by blast
  then have "length (expansions ps) \<le> m \<and> qs = expansions ps"
    using p parse_pattern_text [OF ps(1) _ assms(2,3)] assms(1) by (auto split: if_splits)
  then show "\<exists>ps. pattern_ok ps \<and> s = pattern_text ps \<and> qs = expansions ps \<and> length qs \<le> m" using ps by blast
next
  assume "\<exists>ps. pattern_ok ps \<and> s = pattern_text ps \<and> qs = expansions ps \<and> length qs \<le> m"
  then show "parseBraceExpansions s m = Inr qs" using parse_pattern_text assms by auto
qed

text \<open>A comma that is escaped, one in brackets and one that separates.\<close>

theorem brace_expansion_product_witness:
  "parseBraceExpansions (''a{b'' @ [backslash] @ '',,[,]}c'') 100 = Inr [''ab'' @ [backslash] @ '',c'', ''a[,]c'']"
proof -
  let ?ps = "[Atom (Plain CHR ''a''), Braces [[Plain CHR ''b'', Escaped CHR '',''], [Bracket '','']], Atom (Plain CHR ''c'')]"
  have "pattern_ok ?ps" by (simp add: pattern_ok_def bracket_ok_def)
  then show ?thesis
    by (subst brace_expansion_product) (auto intro!: exI [of _ ?ps])
qed

end
