(* ===== verification/Glob_Match.thy ===== *)
theory Glob_Match
  imports Glob_Pattern
begin

text \<open>
  The backtracking matcher of \<open>Glob_Pattern\<close> returns on every compiled pattern and every string.

  The proof has three parts: the tokens of a pattern and what \<open>create_sub\<close> records about them, the
  invariant that keeps the matcher on token boundaries, and the lexicographic order in which its
  stack of saved positions grows.
\<close>

section \<open>Tokens\<close>

text \<open>The end of the token that starts at \<open>i\<close>: a bracket expression, an escaped character or one character.\<close>

definition tok_end :: "string \<Rightarrow> nat \<Rightarrow> nat" where
  "tok_end s i =
     (if s ! i = CHR ''['' then
        (case scan_bracket s (if s ! (i + 1) = CHR '']'' then i + 2 else i + 1) of Inl _ \<Rightarrow> i | Inr j \<Rightarrow> j + 1)
      else if s ! i = backslash then i + 2
      else i + 1)"

text \<open>\<open>chain s ts i\<close>: a scan from the left has passed the tokens that start at \<open>ts\<close> and stands at \<open>i\<close>.\<close>

inductive chain :: "string \<Rightarrow> nat list \<Rightarrow> nat \<Rightarrow> bool" for s where
  chain_start: "chain s [] 0"
| chain_next: "chain s ts i \<Longrightarrow> i < length s \<Longrightarrow> i < tok_end s i \<Longrightarrow> chain s (ts @ [i]) (tok_end s i)"

lemma chain_facts:
  "chain s ts i \<Longrightarrow> sorted_wrt (<) ts \<and> 0 \<in> set (ts @ [i]) \<and>
     (\<forall>p \<in> set ts. p < i \<and> p < length s \<and> p < tok_end s p \<and> tok_end s p \<in> set (ts @ [i]) \<and>
        (\<forall>q \<in> set (ts @ [i]). p < q \<longrightarrow> tok_end s p \<le> q))"
proof (induction rule: chain.induct)
  case (chain_next ts i)
  let ?j = "tok_end s i"
  from chain_next have IH: "sorted_wrt (<) ts" "0 \<in> set (ts @ [i])"
    "\<And>p. p \<in> set ts \<Longrightarrow> p < i \<and> p < length s \<and> p < tok_end s p \<and> tok_end s p \<in> set (ts @ [i]) \<and>
        (\<forall>q \<in> set (ts @ [i]). p < q \<longrightarrow> tok_end s p \<le> q)" by auto
  have "sorted_wrt (<) (ts @ [i])" using IH(1,3) by (simp add: sorted_wrt_append)
  moreover have "p < ?j \<and> p < length s \<and> p < tok_end s p \<and> tok_end s p \<in> set ((ts @ [i]) @ [?j]) \<and>
      (\<forall>q \<in> set ((ts @ [i]) @ [?j]). p < q \<longrightarrow> tok_end s p \<le> q)" if "p \<in> set (ts @ [i])" for p
  proof (cases "p = i")
    case True
    have "\<not> i < q" if "q \<in> set ts" for q using IH(3) [OF that] by simp
    with True chain_next show ?thesis by auto
  next
    case False
    with that have p: "p \<in> set ts" by simp
    note P = IH(3) [OF p]
    then have "tok_end s p \<le> i" by simp
    with P chain_next(3) show ?thesis by auto
  qed
  ultimately show ?case using IH(2) by auto
qed simp

lemma sorted_nth_filter:
  "sorted_wrt (<) xs \<Longrightarrow> p \<in> set xs \<Longrightarrow> xs ! length (filter (\<lambda>t. t < p) xs) = (p :: nat)"
proof (induction xs)
  case (Cons x xs)
  show ?case
  proof (cases "x = p")
    case True
    then have "filter (\<lambda>t. t < p) xs = []" using Cons.prems by (auto simp: filter_empty_conv)
    with True show ?thesis by simp
  next
    case False
    with Cons show ?thesis by auto
  qed
qed simp

section \<open>What a compiled pattern records\<close>

definition is_open :: "string \<Rightarrow> nat \<Rightarrow> bool" where "is_open s t \<longleftrightarrow> s ! t = CHR ''[''"

text \<open>Finished segments: consecutive, ended by a slash token, without one inside.\<close>

definition segments_ok :: "string \<Rightarrow> nat list \<Rightarrow> nat \<Rightarrow> glob_segment list \<Rightarrow> bool" where
  "segments_ok s ts n segs \<longleftrightarrow>
     (\<forall>k < length segs.
        seg_start (segs ! k) = (if k = 0 then 0 else seg_end (segs ! (k - 1)) + 1) \<and>
        seg_start (segs ! k) \<le> seg_end (segs ! k) \<and>
        seg_start (segs ! k) \<in> set (ts @ [n]) \<and> seg_end (segs ! k) \<in> set (ts @ [n]) \<and>
        (seg_end (segs ! k) < length s \<longrightarrow> s ! seg_end (segs ! k) = slash) \<and>
        (\<forall>t \<in> set ts. seg_start (segs ! k) \<le> t \<and> t < seg_end (segs ! k) \<longrightarrow> s ! t \<noteq> slash))"

definition compiled_ok :: "sub_glob \<Rightarrow> nat list \<Rightarrow> bool" where
  "compiled_ok g ts \<longleftrightarrow>
     chain (pat g) ts (length (pat g)) \<and>
     map next_offset (brackets g) = map (tok_end (pat g)) (filter (is_open (pat g)) ts) \<and>
     glob_segments g \<noteq> [] \<and> segments_ok (pat g) ts (length (pat g)) (glob_segments g)"

definition next_start :: "glob_segment list \<Rightarrow> nat" where
  "next_start segs = (if segs = [] then 0 else seg_end (last segs) + 1)"

definition sub_ok :: "string \<Rightarrow> nat list \<Rightarrow> nat \<Rightarrow> sub_state \<Rightarrow> bool" where
  "sub_ok s ts i st \<longleftrightarrow>
     chain s ts i \<and> i \<le> length s \<and>
     map next_offset (sub_brackets st) = map (tok_end s) (filter (is_open s) ts) \<and>
     segments_ok s ts i (sub_segments st) \<and>
     (\<forall>k < length (sub_segments st). seg_end (sub_segments st ! k) < i) \<and>
     (case current_gs st of
        None \<Rightarrow> sub_segments st \<noteq> [] \<and> i = next_start (sub_segments st)
      | Some start \<Rightarrow> start = next_start (sub_segments st) \<and> start \<le> i \<and> start \<in> set (ts @ [i]) \<and>
          (\<forall>t \<in> set ts. start \<le> t \<longrightarrow> s ! t \<noteq> slash))"

lemma segments_ok_extend:
  assumes "segments_ok s ts i segs" and "\<forall>k < length segs. seg_end (segs ! k) < i"
  shows "segments_ok s (ts @ [i]) j segs"
  using assms unfolding segments_ok_def by fastforce

lemma segments_ok_snoc:
  assumes "segments_ok s ts n segs" and "start = next_start segs" and "start \<le> e" and "start \<in> set (ts @ [n])"
    and "e \<in> set (ts @ [n])" and "e < length s \<longrightarrow> s ! e = slash"
    and "\<forall>t \<in> set ts. start \<le> t \<and> t < e \<longrightarrow> s ! t \<noteq> slash"
  shows "segments_ok s ts n (segs @ [\<lparr>seg_start = start, seg_end = e\<rparr>])"
proof -
  let ?x = "\<lparr>seg_start = start, seg_end = e\<rparr>"
  have old: "(segs @ [?x]) ! k = segs ! k" if "k < length segs" for k using that by (simp add: nth_append)
  have start: "start = (if length segs = 0 then 0 else seg_end (segs ! (length segs - 1)) + 1)"
    using assms(2) by (simp add: next_start_def last_conv_nth)
  show ?thesis
    unfolding segments_ok_def
  proof (intro allI impI)
    fix k assume k: "k < length (segs @ [?x])"
    have pre: "(segs @ [?x]) ! (k - 1) = segs ! (k - 1)" if "k \<noteq> 0" using k that by (intro old) simp
    show "seg_start ((segs @ [?x]) ! k) = (if k = 0 then 0 else seg_end ((segs @ [?x]) ! (k - 1)) + 1) \<and>
        seg_start ((segs @ [?x]) ! k) \<le> seg_end ((segs @ [?x]) ! k) \<and>
        seg_start ((segs @ [?x]) ! k) \<in> set (ts @ [n]) \<and> seg_end ((segs @ [?x]) ! k) \<in> set (ts @ [n]) \<and>
        (seg_end ((segs @ [?x]) ! k) < length s \<longrightarrow> s ! seg_end ((segs @ [?x]) ! k) = slash) \<and>
        (\<forall>t \<in> set ts. seg_start ((segs @ [?x]) ! k) \<le> t \<and> t < seg_end ((segs @ [?x]) ! k) \<longrightarrow> s ! t \<noteq> slash)"
    proof (cases "k < length segs")
      case True
      note this_seg = assms(1) [unfolded segments_ok_def, THEN spec, THEN mp, OF True]
      then show ?thesis unfolding old [OF True] using pre by (cases "k = 0") (simp_all, metis+)
    next
      case False
      then have "k = length segs" using k by simp
      then show ?thesis using assms(3-7) start pre by simp
    qed
  qed
qed

lemma sub_ok_open_segment:
  assumes "sub_ok s ts i st"
  shows "sub_ok s ts i (st\<lparr>current_gs := Some (case current_gs st of None \<Rightarrow> i | Some k \<Rightarrow> k)\<rparr>)"
proof (cases "current_gs st")
  case None
  have "\<forall>t \<in> set ts. \<not> i \<le> t" using assms chain_facts [of s ts i] by (auto simp: sub_ok_def not_le)
  with assms None show ?thesis by (auto simp: sub_ok_def)
next
  case (Some k)
  with assms show ?thesis by (auto simp: sub_ok_def)
qed

lemma sub_ok_token:
  assumes "sub_ok s ts i st" and "current_gs st = Some start" and "i < length s" and "s ! i \<noteq> slash"
    and "i < tok_end s i" and "tok_end s i \<le> length s" and "sub_segments st' = sub_segments st" "current_gs st' = current_gs st"
    and "map next_offset (sub_brackets st') = map next_offset (sub_brackets st) @ (if is_open s i then [tok_end s i] else [])"
  shows "sub_ok s (ts @ [i]) (tok_end s i) st'"
  using assms segments_ok_extend [of s ts i "sub_segments st" "tok_end s i"]
  by (auto simp: sub_ok_def intro: chain_next)

lemma sub_ok_slash:
  assumes "sub_ok s ts i st" and "current_gs st = Some start" and "i < length s" and "s ! i = slash"
  shows "sub_ok s (ts @ [i]) (i + 1) (st\<lparr>sub_segments := sub_segments st @ [\<lparr>seg_start = start, seg_end = i\<rparr>], current_gs := None\<rparr>)"
proof -
  have e: "tok_end s i = i + 1" "\<not> is_open s i" using assms(4) by (simp_all add: tok_end_def is_open_def)
  then have "chain s (ts @ [i]) (i + 1)" using assms chain_next [of s ts i] by (simp add: sub_ok_def)
  moreover have "segments_ok s (ts @ [i]) (i + 1) (sub_segments st @ [\<lparr>seg_start = start, seg_end = i\<rparr>])"
    using assms segments_ok_extend [of s ts i "sub_segments st" "i + 1"]
    by (intro segments_ok_snoc) (auto simp: sub_ok_def)
  ultimately show ?thesis
    using assms e by (auto simp: sub_ok_def next_start_def less_Suc_eq nth_append)
qed

lemma sub_step_bracket:
  assumes "sub_step s i st = Inr (i', st')" and "s ! i = CHR ''[''" and "i < length s"
  shows "i' = tok_end s i \<and> i < i' \<and> i' \<le> length s \<and> sub_segments st' = sub_segments st \<and>
    current_gs st' = Some (case current_gs st of None \<Rightarrow> i | Some k \<Rightarrow> k) \<and>
    map next_offset (sub_brackets st') = map next_offset (sub_brackets st) @ [tok_end s i]"
proof -
  have i: "at s i = Inr (CHR ''['')" using assms by (simp add: at_def)
  with assms obtain d where d: "at s (i + 1) = Inr d"
    by (cases "at s (i + 1)") (auto simp: sub_step_def Let_def)
  define k where "k = (if d = CHR '']'' then i + 2 else i + 1)"
  from assms i d obtain j where j: "scan_bracket s k = Inr j"
    by (cases "scan_bracket s k") (auto simp: sub_step_def Let_def k_def)
  let ?chars = "substr s (Suc i) (j - Suc i)"
  define r where "r = (if d = CHR ''^'' \<or> d = CHR ''!'' then expand (drop 1 ?chars) else expand ?chars)"
  have e: "tok_end s i = j + 1" using d j assms(2) by (simp add: tok_end_def k_def at_Inr)
  have "i < k" by (simp add: k_def)
  have jn: "j \<noteq> length s" using assms(1) i d j unfolding k_def by (auto simp: sub_step_def Let_def)
  define flip where "flip \<longleftrightarrow> d = CHR ''^'' \<or> d = CHR ''!''"
  let ?st = "st\<lparr>current_gs := Some (case current_gs st of None \<Rightarrow> i | Some k \<Rightarrow> k)\<rparr>"
  have "andthen r (\<lambda>bv. Inr (j + 1, ?st\<lparr>sub_brackets := sub_brackets st @
      [\<lparr>next_offset = j + 1, bytes = (if flip then - bv else bv)\<rparr>]\<rparr>)) = Inr (i', st')"
    using assms(1) i d j jn unfolding k_def r_def flip_def
    by (simp add: sub_step_def Let_def split del: if_split)
  with e \<open>i < k\<close> jn scan_bracket_ge [OF j] show ?thesis by (auto simp: andthen_Inr)
qed

lemma sub_step_ok:
  assumes step: "sub_step s i st = Inr (i', st')" and ok: "sub_ok s ts i st" and i: "i < length s"
  shows "sub_ok s (ts @ [i]) i' st'"
proof -
  let ?start = "case current_gs st of None \<Rightarrow> i | Some k \<Rightarrow> k"
  let ?st = "st\<lparr>current_gs := Some ?start\<rparr>"
  note ok' = sub_ok_open_segment [OF ok]
  have at: "at s i = Inr (s ! i)" using i by (simp add: at_def)
  consider "s ! i = CHR ''[''" | "s ! i = slash" | "s ! i = backslash" | "s ! i \<noteq> CHR ''[''" "s ! i \<noteq> slash" "s ! i \<noteq> backslash"
    by blast
  then show ?thesis
  proof cases
    case 1
    from sub_step_bracket [OF step 1 i] show ?thesis
      using sub_ok_token [OF ok', of ?start st'] i 1 by (simp add: is_open_def)
  next
    case 2
    then have "i' = i + 1" "st' = ?st\<lparr>sub_segments := sub_segments ?st @ [\<lparr>seg_start = ?start, seg_end = i\<rparr>], current_gs := None\<rparr>"
      using step at by (auto simp: sub_step_def Let_def multiple_slash_def split: if_splits)
    then show ?thesis using sub_ok_slash [OF ok' _ i 2, of ?start] by simp
  next
    case 3
    then have r: "i' = i + 2" "st' = ?st" "i + 1 \<noteq> length s"
      using step at by (auto simp: sub_step_def Let_def split: if_splits)
    have "tok_end s i = i + 2" "\<not> is_open s i" using 3 by (simp_all add: tok_end_def is_open_def)
    then show ?thesis using sub_ok_token [OF ok', of ?start ?st] i 3 r by simp
  next
    case 4
    then have r: "i' = i + 1" "st' = ?st"
      using step at by (auto simp: sub_step_def Let_def split: if_splits)
    have "tok_end s i = i + 1" "\<not> is_open s i" using 4 by (simp_all add: tok_end_def is_open_def)
    then show ?thesis using sub_ok_token [OF ok', of ?start ?st] i 4 r by simp
  qed
qed

lemma sub_loop_ok: "sub_loop s i st = Inr st' \<Longrightarrow> sub_ok s ts i st \<Longrightarrow> \<exists>ts'. sub_ok s ts' (length s) st'"
proof (induction s i st arbitrary: ts rule: sub_loop.induct)
  case step: (1 s i st)
  show ?case
  proof (cases "i < length s")
    case True
    with step.prems(1) obtain i1 st1 where b: "sub_step s i st = Inr (i1, st1)" "sub_loop s i1 st1 = Inr st'"
      by (subst (asm) sub_loop.simps) (auto split: sum.splits)
    from step.IH [OF True b(1) refl b(2)] sub_step_ok [OF b(1) step.prems(2) True] show ?thesis by blast
  next
    case False
    with step.prems have "i = length s" "st' = st" by (auto simp: sub_ok_def)
    with step.prems(2) show ?thesis by auto
  qed
qed

lemma create_sub_ok:
  assumes "create_sub s = Inr g"
  shows "pat g = s" and "\<exists>ts. compiled_ok g ts"
proof -
  let ?init = "\<lparr>sub_brackets = [], sub_segments = [], current_gs = Some 0\<rparr>"
  from assms obtain st where st: "sub_loop s 0 ?init = Inr st" "pat g = s" "brackets g = sub_brackets st"
    "glob_segments g = (case current_gs st of None \<Rightarrow> sub_segments st
       | Some start \<Rightarrow> sub_segments st @ [\<lparr>seg_start = start, seg_end = length s\<rparr>])"
    by (auto simp: create_sub_def andthen_Inr)
  then show "pat g = s" by simp
  have "sub_ok s [] 0 ?init" by (simp add: sub_ok_def chain_start segments_ok_def next_start_def)
  from sub_loop_ok [OF st(1) this] obtain ts where ts: "sub_ok s ts (length s) st" by blast
  have "segments_ok s ts (length s) (glob_segments g) \<and> glob_segments g \<noteq> []"
  proof (cases "current_gs st")
    case None
    with ts st(4) show ?thesis by (auto simp: sub_ok_def)
  next
    case (Some start)
    with ts have "segments_ok s ts (length s) (sub_segments st @ [\<lparr>seg_start = start, seg_end = length s\<rparr>])"
      by (intro segments_ok_snoc) (auto simp: sub_ok_def)
    with Some st(4) show ?thesis by simp
  qed
  with ts st(2,3) show "\<exists>ts. compiled_ok g ts" by (auto simp: compiled_ok_def sub_ok_def)
qed

text \<open>The last segment of a pattern reaches its end, unless the pattern ends in a slash.\<close>

definition ends_in :: "char \<Rightarrow> string \<Rightarrow> bool" where
  "ends_in c s \<longleftrightarrow> s \<noteq> [] \<and> last s = c"

definition closed :: "sub_glob \<Rightarrow> bool" where
  "closed g \<longleftrightarrow> glob_segments g \<noteq> [] \<and> seg_end (last (glob_segments g)) = length (pat g)"

lemma create_sub_closed:
  assumes "create_sub s = Inr g" and "\<not> ends_in slash s"
  shows "closed g"
proof -
  let ?init = "\<lparr>sub_brackets = [], sub_segments = [], current_gs = Some 0\<rparr>"
  from assms(1) obtain st where st: "sub_loop s 0 ?init = Inr st" "pat g = s"
    "glob_segments g = (case current_gs st of None \<Rightarrow> sub_segments st
       | Some start \<Rightarrow> sub_segments st @ [\<lparr>seg_start = start, seg_end = length s\<rparr>])"
    by (auto simp: create_sub_def andthen_Inr)
  have "sub_ok s [] 0 ?init" by (simp add: sub_ok_def chain_start segments_ok_def next_start_def)
  from sub_loop_ok [OF st(1) this] obtain ts where ts: "sub_ok s ts (length s) st" by blast
  have "current_gs st \<noteq> None"
  proof
    assume "current_gs st = None"
    then have ne: "sub_segments st \<noteq> []" and e: "length s = seg_end (last (sub_segments st)) + 1"
      and segs: "segments_ok s ts (length s) (sub_segments st)"
      using ts by (auto simp: sub_ok_def next_start_def)
    from ne segs have "seg_end (last (sub_segments st)) < length s \<longrightarrow> s ! seg_end (last (sub_segments st)) = slash"
      unfolding segments_ok_def last_conv_nth [OF ne] by (metis diff_less length_greater_0_conv less_numeral_extra(1))
    then have "s ! (length s - 1) = slash" using e by simp
    moreover have "s \<noteq> []" using e by auto
    ultimately show False using assms(2) by (simp add: ends_in_def last_conv_nth)
  qed
  then show ?thesis using st by (auto simp: closed_def)
qed

section \<open>The matcher stays on token boundaries\<close>

definition brackets_before :: "sub_glob \<Rightarrow> nat list \<Rightarrow> nat \<Rightarrow> nat" where
  "brackets_before g ts p = length (filter (\<lambda>t. t < p) (filter (is_open (pat g)) ts))"

definition state_ok :: "sub_glob \<Rightarrow> nat list \<Rightarrow> string \<Rightarrow> match_state \<Rightarrow> bool" where
  "state_ok g ts str st \<longleftrightarrow>
     mp st \<in> set (ts @ [length (pat g)]) \<and> glob_seg st < length (glob_segments g) \<and>
     mseg_end st = seg_end (glob_segments g ! glob_seg st) \<and>
     seg_start (glob_segments g ! glob_seg st) \<le> mp st \<and> mp st \<le> mseg_end st \<and>
     mb st = brackets_before g ts (mp st) \<and> ms st \<le> length str"

lemma brackets_before_token:
  assumes "chain (pat g) ts n" and "p \<in> set ts"
  shows "brackets_before g ts (tok_end (pat g) p) = brackets_before g ts p + (if is_open (pat g) p then 1 else 0)"
proof -
  note f = chain_facts [OF assms(1)]
  let ?os = "filter (is_open (pat g)) ts"
  have d: "distinct ts" using f by (simp add: strict_sorted_iff)
  have "t < tok_end (pat g) p \<longleftrightarrow> t < p \<or> t = p" if "t \<in> set ts" for t
    using f that assms(2) by (metis Un_iff linorder_neqE_nat not_le order.strict_trans set_append)
  then have "{t \<in> set ?os. t < tok_end (pat g) p} = {t \<in> set ?os. t < p} \<union> (if is_open (pat g) p then {p} else {})"
    using assms(2) by auto
  then have "card {t \<in> set ?os. t < tok_end (pat g) p} = card {t \<in> set ?os. t < p} + (if is_open (pat g) p then 1 else 0)"
    by (auto simp: card_insert_if)
  moreover have "card {t \<in> set ?os. t < q} = brackets_before g ts q" for q
    using distinct_card [of "filter (\<lambda>t. t < q) ?os"] d by (simp add: brackets_before_def)
  ultimately show ?thesis by simp
qed

lemma state_token:
  assumes c: "compiled_ok g ts" and st: "state_ok g ts str st" and p: "mp st < mseg_end st"
  shows "mp st \<in> set ts" "pat g ! mp st \<noteq> slash" "mp st < tok_end (pat g) (mp st)"
    "tok_end (pat g) (mp st) \<le> mseg_end st" "mp st < length (pat g)" "tok_end (pat g) (mp st) \<in> set (ts @ [length (pat g)])"
    "brackets_before g ts (tok_end (pat g) (mp st)) = mb st + (if is_open (pat g) (mp st) then 1 else 0)"
proof -
  note f = chain_facts [of "pat g" ts "length (pat g)"]
  have ch: "chain (pat g) ts (length (pat g))" using c by (simp add: compiled_ok_def)
  have seg: "mseg_end st \<in> set (ts @ [length (pat g)])" and
    inside: "\<forall>t \<in> set ts. seg_start (glob_segments g ! glob_seg st) \<le> t \<and> t < mseg_end st \<longrightarrow> pat g ! t \<noteq> slash"
    using c st by (auto simp: compiled_ok_def segments_ok_def state_ok_def)
  have "mseg_end st \<le> length (pat g)" using seg f [OF ch] by auto
  then show len: "mp st < length (pat g)" using p by simp
  then show t: "mp st \<in> set ts" using st by (auto simp: state_ok_def)
  then show "pat g ! mp st \<noteq> slash" using inside st p by (auto simp: state_ok_def)
  show "mp st < tok_end (pat g) (mp st)" "tok_end (pat g) (mp st) \<in> set (ts @ [length (pat g)])"
    using f [OF ch] t by auto
  show "tok_end (pat g) (mp st) \<le> mseg_end st" using f [OF ch] t seg p by blast
  show "brackets_before g ts (tok_end (pat g) (mp st)) = mb st + (if is_open (pat g) (mp st) then 1 else 0)"
    using brackets_before_token [OF ch t] st by (simp add: state_ok_def)
qed

lemma state_after_token:
  assumes "compiled_ok g ts" and "state_ok g ts str st" and "mp st < mseg_end st"
    and "mp st' = tok_end (pat g) (mp st)" and "mb st' = mb st + (if is_open (pat g) (mp st) then 1 else 0)"
    and "glob_seg st' = glob_seg st" "mseg_end st' = mseg_end st" "ms st' \<le> length str"
  shows "state_ok g ts str st' \<and> mp st < mp st'"
  using state_token [OF assms(1-3)] assms by (simp add: state_ok_def)

lemma tok_end_plain [simp]: "s ! i \<noteq> CHR ''['' \<Longrightarrow> s ! i \<noteq> backslash \<Longrightarrow> tok_end s i = i + 1"
  by (simp add: tok_end_def)

lemma is_open_iff [simp]: "s ! i \<noteq> CHR ''['' \<Longrightarrow> \<not> is_open s i"
  by (simp add: is_open_def)

lemma segment_end_char:
  assumes "compiled_ok g ts" and "state_ok g ts str st" and "mseg_end st < length (pat g)"
  shows "pat g ! mseg_end st = slash"
  using assms by (auto simp: compiled_ok_def segments_ok_def state_ok_def)

lemma segment_end_le:
  assumes "compiled_ok g ts" and "state_ok g ts str st"
  shows "mseg_end st \<le> length (pat g)"
proof -
  have "chain (pat g) ts (length (pat g))" using assms(1) by (simp add: compiled_ok_def)
  note f = chain_facts [OF this]
  have "mseg_end st \<in> set (ts @ [length (pat g)])"
    using assms by (auto simp: compiled_ok_def segments_ok_def state_ok_def)
  with f show ?thesis by auto
qed

text \<open>Moving to the next segment from the end of the current one.\<close>

lemma enter_next:
  assumes c: "compiled_ok g ts" and st: "state_ok g ts str st" and p: "mp st = mseg_end st"
    and e: "enter_segment g (glob_seg st + 1) st = Inr st'"
  shows "mseg_start st' = mp st + 1" "mp st < length (pat g)"
    "\<And>s. s \<le> length str \<Longrightarrow> state_ok g ts str (st'\<lparr>mp := mp st + 1, ms := s\<rparr>)"
    "mp st' = mp st" "ms st' = ms st" "mb st' = mb st"
proof -
  from e have k: "glob_seg st + 1 < length (glob_segments g)" and
    st': "st' = st\<lparr>glob_seg := glob_seg st + 1, mseg_start := seg_start (glob_segments g ! (glob_seg st + 1)),
      mseg_end := seg_end (glob_segments g ! (glob_seg st + 1))\<rparr>"
    by (auto simp: enter_segment_def andthen_Inr at_Inr)
  have ch: "chain (pat g) ts (length (pat g))" using c by (simp add: compiled_ok_def)
  have seg: "seg_start (glob_segments g ! (glob_seg st + 1)) = mp st + 1"
    "seg_start (glob_segments g ! (glob_seg st + 1)) \<le> seg_end (glob_segments g ! (glob_seg st + 1))"
    "seg_start (glob_segments g ! (glob_seg st + 1)) \<in> set (ts @ [length (pat g)])"
    using c k st p by (auto simp: compiled_ok_def segments_ok_def state_ok_def)
  then show "mseg_start st' = mp st + 1" "mp st' = mp st" "ms st' = ms st" "mb st' = mb st" by (auto simp: st')
  show len: "mp st < length (pat g)" using seg chain_facts [OF ch] by fastforce
  then have t: "mp st \<in> set ts" using st by (auto simp: state_ok_def)
  have "pat g ! mp st = slash" using segment_end_char [OF c st] p len by simp
  then have "tok_end (pat g) (mp st) = mp st + 1" "\<not> is_open (pat g) (mp st)" by simp_all
  with brackets_before_token [OF ch t] have "brackets_before g ts (mp st + 1) = brackets_before g ts (mp st)" by simp
  with st seg k show "\<And>s. s \<le> length str \<Longrightarrow> state_ok g ts str (st'\<lparr>mp := mp st + 1, ms := s\<rparr>)"
    by (simp add: state_ok_def st')
qed

lemma move_next:
  assumes c: "compiled_ok g ts" and st: "state_ok g ts str st" and p: "mp st = mseg_end st" and s: "s \<le> length str"
    and e: "move_to_segment g (glob_seg st + 1) (st\<lparr>ms := s\<rparr>) = Inr st'"
  shows "state_ok g ts str st' \<and> mp st < mp st' \<and> ms st' = s"
proof -
  have st1: "state_ok g ts str (st\<lparr>ms := s\<rparr>)" using st s by (simp add: state_ok_def)
  from e obtain st2 where st2: "enter_segment g (glob_seg st + 1) (st\<lparr>ms := s\<rparr>) = Inr st2" "st' = st2\<lparr>mp := mseg_start st2\<rparr>"
    by (auto simp: move_to_segment_def andthen_Inr)
  have p1: "mp (st\<lparr>ms := s\<rparr>) = mseg_end (st\<lparr>ms := s\<rparr>)" using p by simp
  have e1: "enter_segment g (glob_seg (st\<lparr>ms := s\<rparr>) + 1) (st\<lparr>ms := s\<rparr>) = Inr st2" using st2(1) by simp
  note n = enter_next [OF c st1 p1 e1]
  have "mseg_start st2 = mp st + 1" "ms st2 = s" "state_ok g ts str (st2\<lparr>mp := mp st + 1, ms := s\<rparr>)"
    using n(1,5) n(3) [OF s] by simp_all
  then show ?thesis using st2(2) by (simp add: state_ok_def)
qed

section \<open>Progress\<close>

definition key :: "string \<Rightarrow> match_state \<Rightarrow> nat" where
  "key str st = mp st * (length str + 1) + ms st"

lemma key_less_p:
  assumes "mp st < mp st'" and "ms st \<le> length str"
  shows "key str st < key str st'"
proof -
  have "key str st < (mp st + 1) * (length str + 1)" using assms(2) by (simp add: key_def)
  also have "\<dots> \<le> mp st' * (length str + 1)" using assms(1) by (intro mult_le_mono1) simp
  finally show ?thesis by (simp add: key_def)
qed

lemma key_less_s: "mp st' = mp st \<Longrightarrow> ms st < ms st' \<Longrightarrow> key str st < key str st'"
  by (simp add: key_def)

text \<open>A step that does not backtrack keeps the stack or saves one state between the old and the new one.\<close>

definition forward :: "sub_glob \<Rightarrow> nat list \<Rightarrow> string \<Rightarrow> match_state \<Rightarrow> match_state list \<Rightarrow> step_result \<Rightarrow> bool" where
  "forward g ts str st stack r \<longleftrightarrow>
     (case r of
        Go st' stack' \<Rightarrow>
          state_ok g ts str st' \<and> key str st < key str st' \<and>
          (stack' = stack \<or>
           (\<exists>e. stack' = e # stack \<and> state_ok g ts str e \<and> ms e = ms st' \<and> key str st < key str e \<and> key str e \<le> key str st'))
      | _ \<Rightarrow> True)"

lemma forward_stop [simp]: "forward g ts str st stack (Stop r)" "forward g ts str st stack Backtrack"
  by (simp_all add: forward_def)

lemma forward_keep:
  "state_ok g ts str st' \<Longrightarrow> mp st < mp st' \<Longrightarrow> ms st \<le> length str \<Longrightarrow> forward g ts str st stack (Go st' stack)"
  by (simp add: forward_def key_less_p)

lemma forward_save:
  "state_ok g ts str st' \<Longrightarrow> mp st < mp st' \<Longrightarrow> ms st \<le> length str \<Longrightarrow> forward g ts str st stack (Go st' (st' # stack))"
  by (auto simp: forward_def key_less_p)

lemma forward_go:
  assumes "ms st \<le> length str" and "\<And>st'. m = Inr st' \<Longrightarrow> state_ok g ts str st' \<and> mp st < mp st'"
  shows "forward g ts str st stack (go m (\<lambda>_. stack))" and "forward g ts str st stack (go m (\<lambda>st'. st' # stack))"
  using assms by (cases m; auto simp: go_def intro: forward_keep forward_save)+

lemma skip_chars_bounds: "s \<le> length str \<Longrightarrow> s \<le> skip_chars t str s \<and> skip_chars t str s \<le> length str"
  using length_takeWhile_le [of t "drop s str"] by (auto simp: skip_chars_def)

lemma consume_stars_ok:
  assumes c: "compiled_ok g ts"
  shows "state_ok g ts str st \<Longrightarrow> consume_stars g st = Inr st' \<Longrightarrow>
    state_ok g ts str st' \<and> mp st \<le> mp st' \<and> ms st' = ms st"
  using c
proof (induction g st rule: consume_stars.induct)
  case step: (1 g st)
  note eq = consume_stars.simps [of g st]
  note c = step.prems(3) and st = step.prems(1)
  consider "\<not> (mp st < length (pat g) \<and> (pat g ! mp st = CHR ''*'' \<or> pat g ! mp st = slash))" |
    "mp st < length (pat g)" "pat g ! mp st = slash" | "mp st < length (pat g)" "pat g ! mp st = CHR ''*''" by blast
  then show ?case
  proof cases
    case 1
    then have "st' = st" using step.prems(2) unfolding eq by (auto split: if_splits)
    then show ?thesis using st by simp
  next
    case 2
    have "\<not> mp st < mseg_end st" using 2 state_token(2) [OF c st] by blast
    then have p: "mp st = mseg_end st" using st by (simp add: state_ok_def)
    from 2 step.prems(2) obtain st1 where e: "glob_seg st + 1 \<noteq> length (glob_segments g)"
      "enter_segment g (glob_seg st + 1) st = Inr st1" "consume_stars g (st1\<lparr>mp := mp st + 1\<rparr>) = Inr st'"
      unfolding eq by (auto split: if_splits sum.splits)
    note n = enter_next [OF c st p e(2)]
    have "state_ok g ts str (st1\<lparr>mp := mp st + 1\<rparr>)" using n(3) [of "ms st"] st n(5) by (simp add: state_ok_def)
    from step.IH(1) [OF _ _ e(1,2) this e(3) c] 2 n(5) show ?thesis by simp
  next
    case 3
    then have ne: "mp st \<noteq> mseg_end st" using segment_end_char [OF c st] by auto
    then have lt: "mp st < mseg_end st" using st by (simp add: state_ok_def)
    from 3 step.prems(2) have rec: "consume_stars g (st\<lparr>mp := mp st + 1\<rparr>) = Inr st'" unfolding eq by simp
    have "state_ok g ts str (st\<lparr>mp := mp st + 1\<rparr>)"
      using state_after_token [OF c st lt, of "st\<lparr>mp := mp st + 1\<rparr>"] 3 st by (simp add: state_ok_def)
    from step.IH(2) [OF _ _ this rec c] 3 show ?thesis by simp
  qed
qed

lemma star_forward:
  assumes c: "compiled_ok g ts" and st: "state_ok g ts str st" and lt: "mp st < mseg_end st" and star: "pat g ! mp st = CHR ''*''"
  shows "forward g ts str st stack (star_step g str st stack)"
proof -
  have s: "ms st \<le> length str" using st by (simp add: state_ok_def)
  have one: "state_ok g ts str (st\<lparr>mp := mp st + 1, wild_mode := w\<rparr>)" for w
    using state_after_token [OF c st lt, of "st\<lparr>mp := mp st + 1, wild_mode := w\<rparr>"] star st by (simp add: state_ok_def)
  show ?thesis
  proof (cases "mp st + 1 \<noteq> length (pat g) \<and> pat g ! (mp st + 1) = CHR ''*''")
    case True
    let ?st1 = "st\<lparr>mp := mp st + 1, wild_mode := True\<rparr>" and ?st2 = "st\<lparr>mp := mp st + 2, wild_mode := True\<rparr>"
    have le: "mp st + 1 \<le> length (pat g)" using one [of True] segment_end_le [OF c one [of True]] by (simp add: state_ok_def)
    have "mp st + 1 \<noteq> mseg_end st" using segment_end_char [OF c st] True le by (cases "mseg_end st < length (pat g)") auto
    then have lt1: "mp ?st1 < mseg_end ?st1" using one [of True] by (simp add: state_ok_def)
    have two: "state_ok g ts str ?st2"
      using state_after_token [OF c one [of True] lt1, of ?st2] True st by (simp add: state_ok_def)
    show ?thesis
    proof (cases "consume_stars g ?st2")
      case (Inr st1)
      note k = consume_stars_ok [OF c two Inr]
      then have gt: "mp st < mp st1" by simp
      show ?thesis
      proof (cases "mp st1 = mseg_end st1")
        case end_: True
        let ?s = "skip_chars (\<lambda>c. c = slash) str (ms st1)"
        have b: "?s \<le> length str" using k s skip_chars_bounds by simp
        have "forward g ts str st stack (go (move_to_segment g (glob_seg st1 + 1) (st1\<lparr>ms := ?s\<rparr>)) (\<lambda>st'. st' # stack))"
        proof (rule forward_go(2) [OF s])
          fix st' assume "move_to_segment g (glob_seg st1 + 1) (st1\<lparr>ms := ?s\<rparr>) = Inr st'"
          from move_next [OF c conjunct1 [OF k] end_ b this] gt show "state_ok g ts str st' \<and> mp st < mp st'" by simp
        qed
        then show ?thesis using True Inr end_ by (simp add: star_step_def Let_def)
      next
        case False
        then show ?thesis using True Inr k gt s by (simp add: star_step_def Let_def forward_save)
      qed
    qed (use True in \<open>simp add: star_step_def Let_def\<close>)
  next
    case False
    let ?st1 = "st\<lparr>mp := mp st + 1, wild_mode := False\<rparr>"
    show ?thesis
    proof (cases "mp st + 1 = mseg_end st")
      case end_: True
      let ?s = "skip_chars (\<lambda>c. c \<noteq> slash) str (ms st)"
      have b: "?s \<le> length str" "ms st \<le> ?s" using s skip_chars_bounds by blast+
      have "state_ok g ts str (?st1\<lparr>ms := ?s\<rparr>)" using one [of False] b by (simp add: state_ok_def)
      then have keep: "forward g ts str st stack (Go (?st1\<lparr>ms := ?s\<rparr>) stack)" using s by (intro forward_keep) auto
      have save: "forward g ts str st stack (go (move_to_segment g (glob_seg st + 1) (?st1\<lparr>ms := s'\<rparr>)) (\<lambda>st'. st' # stack))"
        if "s' \<le> length str" for s'
      proof (rule forward_go(2) [OF s])
        fix st' assume m: "move_to_segment g (glob_seg st + 1) (?st1\<lparr>ms := s'\<rparr>) = Inr st'"
        have "mp ?st1 = mseg_end ?st1" using end_ by simp
        from move_next [OF c one [of False] this that, of st'] m show "state_ok g ts str st' \<and> mp st < mp st'" by auto
      qed
      show ?thesis
      proof (cases "?s = length str")
        case True
        then show ?thesis using False end_ keep by (auto simp: star_step_def Let_def)
      next
        case ns: False
        then have "?s + 1 \<le> length str" using b by simp
        then show ?thesis
          using False end_ ns save [of "?s + 1"] save [of ?s] b
          by (auto simp: star_step_def Let_def)
      qed
    next
      case mid: False
      then show ?thesis using False one [of False] s by (auto simp: star_step_def Let_def intro!: forward_save)
    qed
  qed
qed

lemma question_forward:
  assumes c: "compiled_ok g ts" and st: "state_ok g ts str st" and lt: "mp st < mseg_end st"
    and q: "pat g ! mp st = CHR ''?''" and s: "ms st < length str"
  shows "forward g ts str st stack (question_step g str st stack)"
proof -
  have s': "ms st \<le> length str" using s by simp
  have w: "0 < char_width x" for x by (simp add: char_width_def)
  have one: "state_ok g ts str (st\<lparr>mp := mp st + 1, ms := s1\<rparr>)" if "s1 \<le> length str" for s1
    using state_after_token [OF c st lt, of "st\<lparr>mp := mp st + 1, ms := s1\<rparr>"] q that by simp
  show ?thesis
  proof (cases "mp st + 1 \<noteq> mseg_end st \<and> pat g ! (mp st + 1) = CHR ''*''")
    case True
    show ?thesis
    proof (cases "advance str (char_width (str ! ms st)) st")
      case (Inr st1)
      then have a: "st1 = st\<lparr>ms := ms st + char_width (str ! ms st)\<rparr>" "ms st1 \<le> length str"
        by (auto simp: advance_def split: if_splits)
      have ok1: "state_ok g ts str st1" using st a by (simp add: state_ok_def)
      let ?st' = "st1\<lparr>mp := mp st1 + 1\<rparr>" and ?st2 = "st1\<lparr>mp := mp st1 + 2\<rparr>"
      have ok': "state_ok g ts str ?st'" using one [of "ms st1"] a by (simp add: state_ok_def)
      moreover have lt': "mp ?st' < mseg_end ?st'" using ok' True a by (simp add: state_ok_def)
      ultimately have "state_ok g ts str ?st2"
        using state_after_token [OF c ok' lt', of ?st2] True a by simp
      moreover have "key str st < key str st1" using a w by (intro key_less_s) simp_all
      moreover have "key str st1 < key str ?st2" using a(2) by (intro key_less_p) simp_all
      ultimately show ?thesis using True Inr ok1 by (auto simp: question_step_def Let_def forward_def)
    qed (use True in \<open>simp add: question_step_def Let_def\<close>)
  next
    case False
    have "forward g ts str st stack (go (advance str (char_width (str ! ms st)) (st\<lparr>mp := mp st + 1\<rparr>)) (\<lambda>_. stack))"
    proof (rule forward_go(1) [OF s'])
      fix st' assume "advance str (char_width (str ! ms st)) (st\<lparr>mp := mp st + 1\<rparr>) = Inr st'"
      then have "st' = st\<lparr>mp := mp st + 1, ms := ms st + char_width (str ! ms st)\<rparr>" "ms st' \<le> length str"
        by (auto simp: advance_def split: if_splits)
      then show "state_ok g ts str st' \<and> mp st < mp st'" using one [of "ms st'"] by simp
    qed
    then show ?thesis using False by (auto simp: question_step_def Let_def)
  qed
qed

lemma bracket_forward:
  assumes c: "compiled_ok g ts" and st: "state_ok g ts str st" and lt: "mp st < mseg_end st"
    and q: "pat g ! mp st = CHR ''[''" and s: "ms st < length str"
  shows "forward g ts str st stack (bracket_step g str st stack)"
proof -
  have ch: "chain (pat g) ts (length (pat g))" using c by (simp add: compiled_ok_def)
  let ?os = "filter (is_open (pat g)) ts"
  have o: "mp st \<in> set ?os" using state_token(1) [OF c st lt] q by (simp add: is_open_def)
  have "sorted_wrt (<) ?os" using chain_facts [OF ch] by (simp add: sorted_wrt_filter)
  from sorted_nth_filter [OF this o] have nth: "?os ! mb st = mp st"
    using st by (simp add: state_ok_def brackets_before_def del: filter_filter)
  have "next_offset (brackets g ! mb st) = tok_end (pat g) (mp st)" if "mb st < length (brackets g)"
  proof -
    have m: "map next_offset (brackets g) = map (tok_end (pat g)) ?os" using c by (simp add: compiled_ok_def)
    then have "length (brackets g) = length ?os" by (metis length_map)
    then show ?thesis using m that nth by (metis nth_map)
  qed
  then show ?thesis
    using state_after_token [OF c st lt, of "st\<lparr>mp := next_offset (brackets g ! mb st), mb := mb st + 1, ms := ms st + 1\<rparr>"] q s
    by (auto simp: bracket_step_def is_open_def intro!: forward_keep)
qed

lemma escape_forward:
  assumes c: "compiled_ok g ts" and st: "state_ok g ts str st" and lt: "mp st < mseg_end st"
    and q: "pat g ! mp st = backslash" and s: "ms st < length str"
  shows "forward g ts str st stack (escape_step g str st stack)"
proof -
  have "tok_end (pat g) (mp st) = mp st + 2" using q by (simp add: tok_end_def)
  then show ?thesis
    using state_after_token [OF c st lt, of "st\<lparr>mp := mp st + 2, ms := ms st + 1\<rparr>"] q s
    by (auto simp: escape_step_def is_open_def intro!: forward_keep)
qed

lemma literal_forward:
  assumes c: "compiled_ok g ts" and st: "state_ok g ts str st" and lt: "mp st < mseg_end st"
    and q: "pat g ! mp st \<noteq> CHR ''[''" "pat g ! mp st \<noteq> backslash" and s: "ms st < length str"
  shows "forward g ts str st stack (literal_step g str st stack)"
  using state_after_token [OF c st lt, of "st\<lparr>mp := mp st + 1, ms := ms st + 1\<rparr>"] q s
  by (auto simp: literal_step_def intro!: forward_keep)

lemma segment_end_forward:
  assumes c: "compiled_ok g ts" and st: "state_ok g ts str st" and p: "mp st = mseg_end st" and s: "ms st < length str"
  shows "forward g ts str st stack (segment_end_step g str st stack)"
proof -
  have s': "ms st \<le> length str" using s by simp
  have mv: "forward g ts str st stack (go (move_to_segment g (glob_seg st + 1) (st\<lparr>ms := s1\<rparr>)) (\<lambda>_. stack))"
    if "s1 \<le> length str" for s1
    using move_next [OF c st p that] by (intro forward_go(1) [OF s']) simp
  let ?s1 = "skip_chars (\<lambda>c. c \<noteq> slash) str (ms st)"
  let ?s2 = "if ?s1 \<noteq> length str \<and> str ! ?s1 = slash then ?s1 + 1 else ?s1"
  have b: "?s1 \<le> length str" "?s2 \<le> length str" "skip_chars (\<lambda>c. c = slash) str (ms st) \<le> length str"
    using skip_chars_bounds [OF s'] by (auto simp: Suc_le_eq order.not_eq_order_implies_strict)
  show ?thesis
    using mv [OF b(2)] mv [OF b(3)] by (auto simp: segment_end_step_def Let_def split del: if_split split: if_split)
qed

section \<open>Termination\<close>

text \<open>
  The keys of the saved states, oldest first, and of the current state: each iteration makes this
  word larger in the lexicographic order.
\<close>

definition stack_word :: "string \<Rightarrow> match_state \<Rightarrow> match_state list \<Rightarrow> nat list" where
  "stack_word str st stack = map (key str) (rev stack) @ [key str st]"

definition config_ok :: "sub_glob \<Rightarrow> nat list \<Rightarrow> string \<Rightarrow> match_state \<Rightarrow> match_state list \<Rightarrow> bool" where
  "config_ok g ts str st stack \<longleftrightarrow>
     state_ok g ts str st \<and> (\<forall>e \<in> set stack. state_ok g ts str e \<and> key str e \<le> key str st) \<and>
     sorted_wrt (<) (map (key str) (rev stack))"

lemma forward_grows:
  assumes ok: "config_ok g ts str st stack" and f: "forward g ts str st stack (Go st' stack')"
  shows "config_ok g ts str st' stack'" and "(stack_word str st stack, stack_word str st' stack') \<in> lexord less_than"
proof -
  have le: "key str e < key str x" if "e \<in> set stack" "key str st < key str x" for e x
    using ok that by (fastforce simp: config_ok_def)
  from f consider "stack' = stack" |
    e where "stack' = e # stack" "state_ok g ts str e" "ms e = ms st'" "key str st < key str e" "key str e \<le> key str st'"
    by (auto simp: forward_def)
  then show "config_ok g ts str st' stack'" and "(stack_word str st stack, stack_word str st' stack') \<in> lexord less_than"
    using ok f le by (cases; auto simp: config_ok_def forward_def stack_word_def sorted_wrt_append less_imp_le intro: lexord_append_leftI)+
qed

lemma backtrack_grows:
  assumes ok: "config_ok g ts str st stack" and b: "backtrack str stack = Go st' stack'"
  shows "config_ok g ts str st' stack'" and "(stack_word str st stack, stack_word str st' stack') \<in> lexord less_than"
proof -
  from b obtain e rest where s: "stack = e # rest" "st' = e\<lparr>ms := ms e + 1\<rparr>" "ms e + 1 \<le> length str"
    "stack' = rest \<or> stack' = st' # rest"
    by (auto simp: backtrack_def advance_def split: list.splits if_splits sum.splits)
  have e: "state_ok g ts str e" using ok s by (simp add: config_ok_def)
  then have st': "state_ok g ts str st'" using s by (simp add: state_ok_def)
  have k: "key str e < key str st'" using s by (simp add: key_def)
  have "key str x < key str st'" if "x \<in> set rest" for x
    using ok k that s(1) by (fastforce simp: config_ok_def sorted_wrt_append)
  with ok s st' k show "config_ok g ts str st' stack'"
    by (auto simp: config_ok_def sorted_wrt_append less_imp_le)
  show "(stack_word str st stack, stack_word str st' stack') \<in> lexord less_than"
    using s k by (auto simp: stack_word_def intro!: lexord_append_leftI)
qed

lemma match_step_forward:
  assumes c: "compiled_ok g ts" and st: "state_ok g ts str st"
  shows "(\<exists>r. match_step g str st stack = Stop r) \<or>
    (\<exists>st' stack'. match_step g str st stack = Go st' stack' \<and>
       (forward g ts str st stack (Go st' stack') \<or> backtrack str stack = Go st' stack'))"
proof (cases "ms st = length str \<or> \<not> glob_seg st < length (glob_segments g)")
  case True
  then show ?thesis by (auto simp: match_step_def)
next
  case False
  then have s: "ms st < length str" "glob_seg st < length (glob_segments g)" using st by (auto simp: state_ok_def)
  define r where "r = (if mp st = mseg_end st then segment_end_step g str st stack
                 else case at (pat g) (mp st) of
                   Inl e \<Rightarrow> Stop (Inl e)
                 | Inr c \<Rightarrow>
                     if c = CHR ''*'' then star_step g str st stack
                     else if c = CHR ''?'' then question_step g str st stack
                     else if c = CHR ''['' then bracket_step g str st stack
                     else if c = backslash then escape_step g str st stack
                     else literal_step g str st stack)"
  have f: "forward g ts str st stack r"
  proof (cases "mp st = mseg_end st")
    case True
    then show ?thesis using segment_end_forward [OF c st True s(1)] by (simp add: r_def)
  next
    case ne: False
    then have lt: "mp st < mseg_end st" using st by (simp add: state_ok_def)
    then have "at (pat g) (mp st) = Inr (pat g ! mp st)" using state_token(5) [OF c st lt] by (simp add: at_def)
    then show ?thesis
      using ne star_forward [OF c st lt] question_forward [OF c st lt _ s(1)] bracket_forward [OF c st lt _ s(1)]
        escape_forward [OF c st lt _ s(1)] literal_forward [OF c st lt _ _ s(1)]
      by (simp add: r_def)
  qed
  have m: "match_step g str st stack = (case r of Backtrack \<Rightarrow> backtrack str stack | _ \<Rightarrow> r)"
    using False unfolding match_step_def r_def Let_def by simp
  have "backtrack str stack \<noteq> Backtrack" by (auto simp: backtrack_def split: list.split sum.split)
  with f m show ?thesis by (cases r; cases "backtrack str stack") auto
qed

text \<open>The words are bounded, so the order is well-founded on them.\<close>

definition words :: "nat \<Rightarrow> nat list set" where
  "words b = {xs. set xs \<subseteq> {..b} \<and> length xs \<le> b + 2}"

lemma wf_words: "wf {(ys, xs). (xs, ys) \<in> lexord less_than \<and> xs \<in> words b \<and> ys \<in> words b}" (is "wf ?R")
proof (rule finite_acyclic_wf)
  have "finite (words b)" unfolding words_def by (rule finite_lists_length_le) simp
  then have "finite (words b \<times> words b)" by simp
  then show "finite ?R" by (rule finite_subset [rotated]) auto
  have "trans ?R" by (auto intro!: transI intro: lexord_trans [OF _ _ trans_less_than])
  then have "?R\<^sup>+ = ?R" by (rule trancl_id)
  moreover have "(x, x) \<notin> ?R" for x using lexord_irreflexive [of less_than x] by simp
  ultimately show "acyclic ?R" by (simp add: acyclic_def)
qed

lemma stack_word_bounded:
  assumes c: "compiled_ok g ts" and ok: "config_ok g ts str st stack"
  shows "stack_word str st stack \<in> words ((length (pat g) + 1) * (length str + 1))"
proof -
  let ?b = "(length (pat g) + 1) * (length str + 1)"
  have k: "key str e \<le> ?b" if "state_ok g ts str e" for e
  proof -
    have "mp e \<le> length (pat g)" "ms e \<le> length str"
      using that segment_end_le [OF c that] by (auto simp: state_ok_def)
    then have "key str e \<le> length (pat g) * (length str + 1) + (length str + 1)"
      unfolding key_def by (intro add_mono mult_le_mono1) auto
    then show ?thesis by simp
  qed
  let ?ks = "map (key str) (rev stack)"
  have sub: "set ?ks \<subseteq> {..?b}" using ok k by (auto simp: config_ok_def)
  have "distinct ?ks" using ok by (simp add: config_ok_def strict_sorted_iff)
  then have "length ?ks = card (set ?ks)" by (simp only: distinct_card)
  also have "\<dots> \<le> card {..?b}" using sub by (intro card_mono) auto
  finally have "length ?ks \<le> ?b + 1" by simp
  moreover have "key str st \<le> ?b" using k ok by (simp add: config_ok_def)
  ultimately show ?thesis using sub by (simp add: words_def stack_word_def)
qed

text \<open>
  Accesses out of bounds. They need a pattern that ends in a slash, or a string that ends in a
  backslash: \<open>?\<close> skips two characters at a backslash. Everywhere else the guards suffice; a state is
  saved at the end of the string only when the next iteration returns.
\<close>

lemma move_in_range:
  assumes "k < length (glob_segments g)"
  shows "enter_segment g k st \<noteq> Inl e" and "go (move_to_segment g k st) f \<noteq> Stop (Inl e)"
  using assms by (simp_all add: enter_segment_def move_to_segment_def go_def at_def andthen_def)

lemma consume_stars_range:
  "glob_seg st < length (glob_segments g) \<Longrightarrow>
    (case consume_stars g st of Inl r \<Rightarrow> r = Inr True | Inr st' \<Rightarrow> glob_seg st' < length (glob_segments g))"
proof (induction g st rule: consume_stars.induct)
  case step: (1 g st)
  note eq = consume_stars.simps [of g st]
  show ?case
  proof (cases "mp st < length (pat g) \<and> pat g ! mp st = slash \<and> glob_seg st + 1 \<noteq> length (glob_segments g)")
    case True
    let ?seg = "glob_segments g ! (glob_seg st + 1)"
    let ?st = "st\<lparr>glob_seg := glob_seg st + 1, mseg_start := seg_start ?seg, mseg_end := seg_end ?seg\<rparr>"
    have k: "glob_seg st + 1 < length (glob_segments g)" using True step.prems by simp
    then have e: "enter_segment g (glob_seg st + 1) st = Inr ?st" by (simp add: enter_segment_def at_def andthen_def)
    have "consume_stars g st = consume_stars g (?st\<lparr>mp := mp st + 1\<rparr>)" unfolding eq using True e by simp
    moreover have "case consume_stars g (?st\<lparr>mp := mp st + 1\<rparr>) of Inl r \<Rightarrow> r = Inr True
        | Inr st' \<Rightarrow> glob_seg st' < length (glob_segments g)"
      using step.IH(1) [OF _ _ _ e] True k by simp
    ultimately show ?thesis by simp
  next
    case False
    then show ?thesis
      using step.IH(2) step.prems unfolding eq by (auto split: sum.splits)
  qed
qed

lemma star_in_bounds: "glob_seg st < length (glob_segments g) \<Longrightarrow> star_step g str st stack \<noteq> Stop (Inl e)"
  using consume_stars_range [of "st\<lparr>mp := mp st + 2, wild_mode := True\<rparr>" g] move_in_range(2) [of _ g]
  by (auto simp: star_step_def Let_def split: sum.splits)

lemma question_in_bounds:
  assumes "ms st < length str" and "\<not> ends_in backslash str"
  shows "question_step g str st stack \<noteq> Stop (Inl e)"
proof -
  have "ms st + char_width (str ! ms st) \<le> length str"
  proof (cases "ms st + 1 = length str")
    case True
    have "str \<noteq> []" using assms(1) by auto
    moreover from this have "last str = str ! ms st" using True by (metis add_diff_cancel_right' last_conv_nth)
    ultimately show ?thesis using True assms(2) by (auto simp: ends_in_def char_width_def)
  qed (use assms(1) in \<open>auto simp: char_width_def\<close>)
  then show ?thesis by (auto simp: question_step_def advance_def go_def Let_def)
qed

lemma segment_end_in_bounds:
  assumes "closed g" and "state_ok g ts str st"
  shows "segment_end_step g str st stack \<noteq> Stop (Inl e)"
proof (cases "glob_seg st + 1 < length (glob_segments g)")
  case True
  then show ?thesis using move_in_range(2) [OF True] by (auto simp: segment_end_step_def Let_def)
next
  case False
  then have "glob_seg st = length (glob_segments g) - 1" using assms(2) by (auto simp: state_ok_def)
  moreover have "seg_end (glob_segments g ! (length (glob_segments g) - 1)) = length (pat g)"
    using assms(1) unfolding closed_def by (metis last_conv_nth)
  ultimately have "mseg_end st = length (pat g)" using assms(2) by (simp add: state_ok_def)
  then show ?thesis by (simp add: segment_end_step_def)
qed

definition room :: "string \<Rightarrow> match_state \<Rightarrow> match_state list \<Rightarrow> bool" where
  "room str st stack \<longleftrightarrow> ms st < length str \<longrightarrow> (\<forall>e \<in> set stack. ms e < length str)"

lemma match_step_in_bounds:
  assumes c: "compiled_ok g ts" and st: "state_ok g ts str st" and "closed g" and "\<not> ends_in backslash str"
    and "room str st stack"
  shows "match_step g str st stack \<noteq> Stop (Inl e)"
proof (cases "ms st = length str \<or> \<not> glob_seg st < length (glob_segments g)")
  case False
  then have s: "ms st < length str" "glob_seg st < length (glob_segments g)" using st by (auto simp: state_ok_def)
  define r where "r = (if mp st = mseg_end st then segment_end_step g str st stack
                 else case at (pat g) (mp st) of
                   Inl e \<Rightarrow> Stop (Inl e)
                 | Inr c \<Rightarrow>
                     if c = CHR ''*'' then star_step g str st stack
                     else if c = CHR ''?'' then question_step g str st stack
                     else if c = CHR ''['' then bracket_step g str st stack
                     else if c = backslash then escape_step g str st stack
                     else literal_step g str st stack)"
  have "r \<noteq> Stop (Inl e)"
  proof (cases "mp st = mseg_end st")
    case True
    then show ?thesis using segment_end_in_bounds [OF assms(3) st] by (simp add: r_def)
  next
    case ne: False
    then have "mp st < mseg_end st" using st by (simp add: state_ok_def)
    then have "at (pat g) (mp st) = Inr (pat g ! mp st)" using state_token(5) [OF c st] by (simp add: at_def)
    moreover have "bracket_step g str st stack \<noteq> Stop (Inl e)" "escape_step g str st stack \<noteq> Stop (Inl e)"
      "literal_step g str st stack \<noteq> Stop (Inl e)"
      by (simp_all add: bracket_step_def escape_step_def literal_step_def)
    ultimately show ?thesis
      using ne star_in_bounds [OF s(2)] question_in_bounds [OF s(1) assms(4)] by (simp add: r_def)
  qed
  moreover have "backtrack str stack \<noteq> Stop (Inl e)"
    using assms(5) s(1) by (auto simp: room_def backtrack_def advance_def split: list.splits sum.splits if_splits)
  moreover have "match_step g str st stack = (case r of Backtrack \<Rightarrow> backtrack str stack | _ \<Rightarrow> r)"
    using False unfolding match_step_def r_def Let_def by simp
  ultimately show ?thesis by (cases r) auto
qed (auto simp: match_step_def)

lemma room_step:
  assumes "room str st stack" and "ms st < length str"
    and "forward g ts str st stack (Go st' stack') \<or> backtrack str stack = Go st' stack'"
  shows "room str st' stack'"
  using assms by (auto simp: room_def forward_def backtrack_def advance_def split: list.splits if_splits)

lemma match_loop_returns:
  assumes c: "compiled_ok g ts"
  shows "config_ok g ts str st stack \<Longrightarrow> \<exists>r. match_loop g str st stack = Some r
    \<and> (closed g \<and> \<not> ends_in backslash str \<and> room str st stack \<longrightarrow> (\<exists>b. r = Inr b))"
proof (induction "stack_word str st stack" arbitrary: st stack
    rule: wf_induct_rule [OF wf_words [of "(length (pat g) + 1) * (length str + 1)"]])
  case (1 st stack)
  have st: "state_ok g ts str st" using 1(2) by (simp add: config_ok_def)
  from match_step_forward [OF c this, of stack] consider r where "match_step g str st stack = Stop r" |
    st' stack' where "match_step g str st stack = Go st' stack'"
      "forward g ts str st stack (Go st' stack') \<or> backtrack str stack = Go st' stack'" by blast
  then show ?case
  proof cases
    case (1 r)
    then show ?thesis
      using match_step_in_bounds [OF c st] by (subst match_loop.simps) (cases r; auto)
  next
    case (2 st' stack')
    then have n: "config_ok g ts str st' stack'" "(stack_word str st stack, stack_word str st' stack') \<in> lexord less_than"
      using forward_grows [OF 1(2)] backtrack_grows [OF 1(2)] by blast+
    then have "(stack_word str st' stack', stack_word str st stack) \<in> {(ys, xs). (xs, ys) \<in> lexord less_than \<and>
        xs \<in> words ((length (pat g) + 1) * (length str + 1)) \<and> ys \<in> words ((length (pat g) + 1) * (length str + 1))}"
      using stack_word_bounded [OF c] 1(2) by simp
    note IH = 1(1) [OF this n(1)]
    have "ms st \<noteq> length str" using 2(1) by (auto simp: match_step_def split: if_splits)
    then have "ms st < length str" using st by (simp add: state_ok_def)
    with 2(2) have "room str st stack \<Longrightarrow> room str st' stack'" using room_step by blast
    then show ?thesis using IH 2(1) by (subst match_loop.simps) auto
  qed
qed

lemma match_sub_returns:
  assumes "create_sub s = Inr g"
  shows "\<exists>r. match_sub g str = Some r \<and> (\<not> ends_in slash (pat g) \<and> \<not> ends_in backslash str \<longrightarrow> (\<exists>b. r = Inr b))"
proof -
  from create_sub_ok(2) [OF assms] obtain ts where c: "compiled_ok g ts" by blast
  let ?seg = "glob_segments g ! 0"
  let ?st = "\<lparr>mb = 0, glob_seg = 0, wild_mode = False, mp = 0, ms = 0, mseg_end = seg_end ?seg, mseg_start = 0\<rparr>"
  have ne: "0 < length (glob_segments g)" using c by (auto simp: compiled_ok_def)
  moreover have "0 \<in> set (ts @ [length (pat g)])"
    using c chain_facts [of "pat g" ts "length (pat g)"] by (auto simp: compiled_ok_def)
  ultimately have "config_ok g ts str ?st []"
    using c by (auto simp: config_ok_def state_ok_def compiled_ok_def segments_ok_def brackets_before_def)
  moreover have "room str ?st []" by (simp add: room_def)
  ultimately show ?thesis
    using match_loop_returns [OF c, of str ?st "[]"] create_sub_closed [OF assms] create_sub_ok(1) [OF assms] ne
    by (auto simp: match_sub_def at_def)
qed

lemma create_subs_all: "create_subs ss acc = Inr gs \<Longrightarrow> \<forall>g \<in> set gs. g \<in> set acc \<or> (\<exists>s. create_sub s = Inr g)"
  by (induction ss acc rule: create_subs.induct) (fastforce split: sum.splits)+

lemma create_glob_subs:
  assumes "create_glob s n = Inr g"
  shows "\<forall>h \<in> set (sub_globs g). \<exists>s. create_sub s = Inr h"
  using assms create_subs_all [where acc = "[]"]
  by (fastforce simp: create_glob_def Let_def multiple_slash_def andthen_Inr split: if_splits)

lemma match_any_returns:
  "\<forall>g \<in> set gs. \<exists>s. create_sub s = Inr g \<Longrightarrow> \<exists>r. match_any gs str = Some r
    \<and> ((\<forall>g \<in> set gs. \<not> ends_in slash (pat g)) \<and> \<not> ends_in backslash str \<longrightarrow> (\<exists>b. r = Inr b))"
proof (induction gs)
  case (Cons g gs)
  from Cons.prems obtain s where "create_sub s = Inr g" by auto
  from match_sub_returns [OF this, of str] obtain r where r: "match_sub g str = Some r"
    "\<not> ends_in slash (pat g) \<and> \<not> ends_in backslash str \<longrightarrow> (\<exists>b. r = Inr b)" by blast
  show ?case
  proof (cases r)
    case (Inr b)
    then show ?thesis using Cons r(1) by (cases b) auto
  qed (use r in auto)
qed auto

lemma match_glob_any:
  "\<exists>k. match_glob g str \<in> {Some (Inr True), Some (Inr False), match_any (sub_globs g) (drop k str)}"
proof (cases "str ! length (glob_prefix g) = slash")
  case True
  then show ?thesis
    by (intro exI [of _ "if prefix_at_seg_end g \<and> drop (length (glob_prefix g)) str \<noteq> []
        then Suc (length (glob_prefix g)) else length (glob_prefix g)"]) (auto simp: match_glob_def Let_def)
next
  case False
  then show ?thesis
    by (intro exI [of _ "length (glob_prefix g)"]) (auto simp: match_glob_def Let_def)
qed

lemma ends_in_drop: "\<not> ends_in c s \<Longrightarrow> \<not> ends_in c (drop k s)"
  by (auto simp: ends_in_def last_drop)

text \<open>The backtracking loops end, for every pattern that \<open>create\<close> accepts and every string.\<close>

lemma glob_match_terminates:
  assumes "create_glob s n = Inr g"
  shows "\<exists>r. match_glob g str = Some r"
proof -
  obtain k where "match_glob g str \<in> {Some (Inr True), Some (Inr False), match_any (sub_globs g) (drop k str)}"
    using match_glob_any by blast
  then show ?thesis using match_any_returns [OF create_glob_subs [OF assms], of "drop k str"] by auto
qed


definition demo_glob :: glob_pattern where "demo_glob = projr (create_glob ''te?t/'' 100)"

lemma demo_glob_created: "create_glob ''te?t/'' 100 = Inr demo_glob"
proof -
  have "\<not> isl (create_glob ''te?t/'' 100)" by code_simp
  then show ?thesis by (simp add: demo_glob_def)
qed

definition star_glob :: glob_pattern where "star_glob = projr (create_glob ''te?t*x'' 100)"


text \<open>
  Patterns that the matcher treats otherwise than the comments say. A pattern that ends in a slash
  makes it read a segment that does not exist; \<open>?\<close> against a backslash at the end of the string moves
  past the string; a slash after a segment of one character is rejected as
  a repeated slash, a repeated slash is not; a trailing star matches across slashes; an escape at the
  end of a bracket behind a brace expansion reads past the pattern; \<open>isTrivialMatchAll\<close> is false for \<open>**\<close>.
\<close>

lemma glob_trailing_slash: "match_glob demo_glob ''test/'' = Some (Inl OutOfBounds)"
  by code_simp

lemma glob_trailing_backslash: "match_glob (projr (create_glob ''te?'' 100)) (''te'' @ [backslash]) = Some (Inl OutOfBounds)"
  by code_simp

lemma glob_one_character_segment:
  "create_glob ''*/x/*'' 100 = Inl (Invalid ''Multiple `/` is not allowed'')" "\<not> isl (create_glob ''*ab//x*'' 100)"
  by code_simp+

lemma glob_star_crosses_slash: "match_glob (projr (create_glob ''foo.*'' 100)) ''foo.a/b'' = Some (Inr True)"
  by code_simp

lemma glob_unclosed_escape: "create_glob (''*{a}['' @ [backslash]) 100 = Inl OutOfBounds"
  by code_simp

lemma glob_not_trivial: "\<not> isTrivialMatchAll (projr (create_glob ''**'' 100))"
  by code_simp

end
