(* ===== verification/Cache_Store.thy ===== *)
theory Cache_Store
  imports Clice_Prelude "HOL-Library.Sublist" "HOL-Library.List_Lexorder" "HOL-Library.Char_ord"
begin

text \<open>
  \<open>src/src/support/cache_store.{h,cpp}\<close> and the directory removal of
  \<open>src/src/support/filesystem.h\<close>: the blob store with two-phase writes, recency-based eviction and
  the manifest checkpoint.

  The file system, the clock, the process table, the JSON codec and LLVM's path functions are not
  part of the repository. They are the fields of the record \<open>os\<close> over an abstract world that every
  operation threads; \<open>os_laws\<close> states the documented behaviour that the safety property relies on.
  \<open>os_order\<close> is the iteration order of a string map, which the hash table does not determine.
\<close>

section \<open>Types\<close>

datatype io_error = Invalid_argument | No_such_file | Io_error nat

datatype file_type = Regular_file | Directory_file | Other_file

record file_status =
  st_type :: file_type
  st_size :: u64
  st_mtime :: int

record manifest_entry =
  me_ns :: string
  me_key :: string
  me_atime :: int

record 'w os =
  os_status :: "string \<Rightarrow> 'w \<Rightarrow> io_error + file_status"
  os_link_status :: "string \<Rightarrow> 'w \<Rightarrow> io_error + file_status"
  os_list :: "string \<Rightarrow> 'w \<Rightarrow> string list \<times> io_error option"
  os_create_dirs :: "string \<Rightarrow> 'w \<Rightarrow> io_error option \<times> 'w"
  os_remove :: "string \<Rightarrow> 'w \<Rightarrow> io_error option \<times> 'w"
  os_rename :: "string \<Rightarrow> string \<Rightarrow> 'w \<Rightarrow> io_error option \<times> 'w"
  os_open :: "string \<Rightarrow> 'w \<Rightarrow> (io_error + nat) \<times> 'w"
  os_fsync :: "nat \<Rightarrow> 'w \<Rightarrow> io_error option \<times> 'w"
  os_close :: "nat \<Rightarrow> 'w \<Rightarrow> 'w"
  os_buffer :: "string \<Rightarrow> 'w \<Rightarrow> io_error + string"
  os_write :: "string \<Rightarrow> string \<Rightarrow> 'w \<Rightarrow> io_error option \<times> 'w"
  os_kill0 :: "u32 \<Rightarrow> 'w \<Rightarrow> int option"
  os_now_ms :: "'w \<Rightarrow> int"
  os_pid :: u32
  os_join :: "string \<Rightarrow> string \<Rightarrow> string"
  os_filename :: "string \<Rightarrow> string"
  os_parse_u32 :: "string \<Rightarrow> u32 option"
  os_to_json :: "manifest_entry list \<Rightarrow> string option"
  os_from_json :: "string \<Rightarrow> manifest_entry list option"
  os_order :: "'w \<Rightarrow> (string \<Rightarrow> bool) \<Rightarrow> string list"
  os_depth :: nat

text \<open>
  \<open>os_list\<close> gives the paths a directory iterator yields and the error that ended it, if any;
  \<open>os_link_status\<close> does not follow symbolic links; \<open>os_kill0\<close> is \<open>kill(pid, 0)\<close>, the value being the
  error number; \<open>os_depth\<close> bounds the nesting of directories, the recursion depth of \<open>remove_all\<close>.
\<close>

datatype cache_policy = LRU | Persistent | Scratch

record cache_namespace =
  ns_name :: string
  ns_extension :: string
  ns_policy :: cache_policy
  ns_max_bytes :: u64

record entry =
  entry_size :: u64
  entry_atime :: int

record namespace_state =
  ns_config :: cache_namespace
  ns_dir :: string
  ns_entries :: "string \<rightharpoonup> entry"
  ns_total :: u64

record store =
  store_base :: string
  tmp_dir :: string
  self_pid :: u32
  namespaces :: "string \<rightharpoonup> namespace_state"
  manifest_atimes :: "string \<rightharpoonup> int"
  next_tmp_id :: u64
  changes_since_checkpoint :: u32
  store_dirty :: bool
  last_stamp :: int

record pending_entry =
  pending_ns :: string
  pending_key :: string
  pending_tmp :: string

definition checkpoint_interval :: u32 where
  "checkpoint_interval = 16"

definition empty_store :: store where
  "empty_store = \<lparr>store_base = [], tmp_dir = [], self_pid = 0, namespaces = Map.empty,
     manifest_atimes = Map.empty, next_tmp_id = 0, changes_since_checkpoint = 0,
     store_dirty = False, last_stamp = 0\<rparr>"

section \<open>Helpers over the operating system\<close>

text \<open>The keys of a string map in the order of its iteration.\<close>

definition map_keys :: "'w os \<Rightarrow> 'w \<Rightarrow> (string \<rightharpoonup> 'v) \<Rightarrow> string list" where
  "map_keys os w m = os_order os w (\<lambda>k. m k \<noteq> None)"

text \<open>\<open>EPERM\<close> is 1.\<close>

definition is_pid_alive :: "'w os \<Rightarrow> u32 \<Rightarrow> 'w \<Rightarrow> bool" where
  "is_pid_alive os pid w = (case os_kill0 os pid w of None \<Rightarrow> True | Some errno \<Rightarrow> errno = 1)"

definition sync_file :: "'w os \<Rightarrow> string \<Rightarrow> 'w \<Rightarrow> io_error option \<times> 'w" where
  "sync_file os path w =
     (case os_open os path w of
        (Inl e, w1) \<Rightarrow> (Some e, w1)
      | (Inr file, w1) \<Rightarrow> (let (ec, w2) = os_fsync os file w1 in (ec, os_close os file w2)))"

definition same_content :: "'w os \<Rightarrow> string \<Rightarrow> string \<Rightarrow> 'w \<Rightarrow> bool" where
  "same_content os tmp final w =
     (case (os_status os tmp w, os_status os final w) of
        (Inr ts, Inr fs) \<Rightarrow>
          st_type fs = Regular_file \<and> st_size ts = st_size fs \<and>
          (case (os_buffer os tmp w, os_buffer os final w) of
             (Inr a, Inr b) \<Rightarrow> a = b
           | _ \<Rightarrow> False)
      | _ \<Rightarrow> False)"

text \<open>
  \<open>fs::remove_all\<close>. The first argument is the recursion depth that is left; \<open>remove_all\<close> starts
  with the bound of the file system.
\<close>

fun remove_tree :: "'w os \<Rightarrow> nat \<Rightarrow> string \<Rightarrow> 'w \<Rightarrow> io_error option \<times> 'w"
  and remove_children :: "'w os \<Rightarrow> nat \<Rightarrow> string list \<Rightarrow> 'w \<Rightarrow> io_error option \<times> 'w" where
  "remove_tree os n target w =
     (case os_link_status os target w of
        Inl e \<Rightarrow> (if e = No_such_file then None else Some e, w)
      | Inr st \<Rightarrow>
          if st_type st \<noteq> Directory_file then os_remove os target w
          else
            case n of
              0 \<Rightarrow> (Some (Io_error 0), w)
            | Suc m \<Rightarrow>
                case os_list os target w of
                  (children, ec) \<Rightarrow>
                    case remove_children os m children w of
                      (Some e, w1) \<Rightarrow> (Some e, w1)
                    | (None, w1) \<Rightarrow>
                        case ec of
                          Some e \<Rightarrow> (if e = No_such_file then None else Some e, w1)
                        | None \<Rightarrow> os_remove os target w1)"
| "remove_children os m [] w = (None, w)"
| "remove_children os m (p # ps) w =
     (case os_link_status os p w of
        Inl e \<Rightarrow> (Some e, w)
      | Inr st \<Rightarrow>
          case (if st_type st = Directory_file then remove_tree os m p w else os_remove os p w) of
            (Some e, w1) \<Rightarrow> (Some e, w1)
          | (None, w1) \<Rightarrow> remove_children os m ps w1)"

definition remove_all :: "'w os \<Rightarrow> string \<Rightarrow> 'w \<Rightarrow> 'w" where
  "remove_all os target w = snd (remove_tree os (os_depth os) target w)"

fun sweep_paths :: "'w os \<Rightarrow> u32 \<Rightarrow> string list \<Rightarrow> 'w \<Rightarrow> 'w" where
  "sweep_paths os pid0 [] w = w"
| "sweep_paths os pid0 (p # ps) w =
     (case os_parse_u32 os (os_filename os p) of
        None \<Rightarrow> sweep_paths os pid0 ps w
      | Some pid \<Rightarrow>
          if pid = pid0 \<or> is_pid_alive os pid w then sweep_paths os pid0 ps w
          else sweep_paths os pid0 ps (remove_all os p w))"

definition sweep_dead_pid_dirs :: "'w os \<Rightarrow> string \<Rightarrow> u32 \<Rightarrow> 'w \<Rightarrow> 'w" where
  "sweep_dead_pid_dirs os dir pid0 w = sweep_paths os pid0 (fst (os_list os dir w)) w"

section \<open>The operations\<close>

definition next_stamp :: "'w os \<Rightarrow> 'w \<Rightarrow> store \<Rightarrow> store \<times> int" where
  "next_stamp os w st =
     (let stamp = max (os_now_ms os w) (last_stamp st + 1) in (st\<lparr>last_stamp := stamp\<rparr>, stamp))"

definition blob_path :: "'w os \<Rightarrow> namespace_state \<Rightarrow> string \<Rightarrow> string" where
  "blob_path os ns key = os_join os (ns_dir ns) (key @ ns_extension (ns_config ns))"

definition put_namespace :: "string \<Rightarrow> namespace_state \<Rightarrow> store \<Rightarrow> store" where
  "put_namespace name ns st = st\<lparr>namespaces := (namespaces st)(name \<mapsto> ns)\<rparr>"

definition drop_entry :: "string \<Rightarrow> u64 \<Rightarrow> namespace_state \<Rightarrow> namespace_state" where
  "drop_entry key sz ns =
     ns\<lparr>ns_total := ns_total ns - sz, ns_entries := (ns_entries ns)(key := None)\<rparr>"

text \<open>
  The eviction. \<open>std::ranges::sort\<close> is not stable; since the order of the candidates before it is
  the arbitrary \<open>os_order\<close>, the stable \<open>sort_key\<close> covers every order it can produce.
\<close>

fun evict_loop :: "'w os \<Rightarrow> (string \<times> entry) list \<Rightarrow> namespace_state \<times> bool \<times> 'w
    \<Rightarrow> namespace_state \<times> bool \<times> 'w" where
  "evict_loop os [] s = s"
| "evict_loop os ((key, e) # cs) (ns, dirty, w) =
     (if ns_total ns \<le> ns_max_bytes (ns_config ns) then (ns, dirty, w)
      else
        case os_remove os (blob_path os ns key) w of
          (Some _, w1) \<Rightarrow> evict_loop os cs (ns, dirty, w1)
        | (None, w1) \<Rightarrow> evict_loop os cs (drop_entry key (entry_size e) ns, True, w1))"

definition eviction_candidates :: "'w os \<Rightarrow> namespace_state \<Rightarrow> string \<Rightarrow> 'w \<Rightarrow> (string \<times> entry) list" where
  "eviction_candidates os ns keep w =
     sort_key (\<lambda>(k, e). entry_atime e)
       (map (\<lambda>k. (k, the (ns_entries ns k)))
          (filter (\<lambda>k. k \<noteq> keep) (map_keys os w (ns_entries ns))))"

definition evict_locked :: "'w os \<Rightarrow> string \<Rightarrow> namespace_state \<times> bool \<times> 'w
    \<Rightarrow> namespace_state \<times> bool \<times> 'w" where
  "evict_locked os keep s =
     (case s of (ns, dirty, w) \<Rightarrow>
        if ns_policy (ns_config ns) \<noteq> LRU \<or> ns_max_bytes (ns_config ns) = 0
           \<or> ns_total ns \<le> ns_max_bytes (ns_config ns)
        then (ns, dirty, w)
        else evict_loop os (eviction_candidates os ns keep w) (ns, dirty, w))"

fun manifest_of :: "'w os \<Rightarrow> store \<Rightarrow> string list \<Rightarrow> 'w \<Rightarrow> manifest_entry list" where
  "manifest_of os st [] w = []"
| "manifest_of os st (name # names) w =
     (case namespaces st name of
        None \<Rightarrow> manifest_of os st names w
      | Some ns \<Rightarrow>
          (if ns_policy (ns_config ns) = Scratch then []
           else [\<lparr>me_ns = name, me_key = k, me_atime = entry_atime (the (ns_entries ns k))\<rparr>.
                 k \<leftarrow> map_keys os w (ns_entries ns)])
          @ manifest_of os st names w)"

definition checkpoint_locked :: "'w os \<Rightarrow> store \<times> 'w \<Rightarrow> store \<times> 'w" where
  "checkpoint_locked os s =
     (case s of (st, w) \<Rightarrow>
        if \<not> store_dirty st then (st, w)
        else
          case os_to_json os (manifest_of os st (map_keys os w (namespaces st)) w) of
            None \<Rightarrow> (st, w)
          | Some json \<Rightarrow>
              let manifest_path = os_join os (store_base st) ''manifest.json'';
                  tmp_path = os_join os (tmp_dir st) ''manifest.json''
              in case os_write os tmp_path json w of
                   (Some _, w1) \<Rightarrow> (st, w1)
                 | (None, w1) \<Rightarrow>
                     case os_rename os tmp_path manifest_path w1 of
                       (Some _, w2) \<Rightarrow> (st, w2)
                     | (None, w2) \<Rightarrow>
                         (st\<lparr>store_dirty := False, changes_since_checkpoint := 0\<rparr>, w2))"

definition maybe_checkpoint :: "'w os \<Rightarrow> store \<times> 'w \<Rightarrow> store \<times> 'w" where
  "maybe_checkpoint os s =
     (if checkpoint_interval \<le> changes_since_checkpoint (fst s) then checkpoint_locked os s else s)"

text \<open>\<open>open\<close>: the stale layouts, the manifest, the temporary directory of this instance.\<close>

fun discard_stale :: "'w os \<Rightarrow> string \<Rightarrow> string list \<Rightarrow> 'w \<Rightarrow> 'w" where
  "discard_stale os version_dir [] w = w"
| "discard_stale os version_dir (p # ps) w =
     (if os_filename os p = version_dir then discard_stale os version_dir ps w
      else
        let is_dir = (case os_status os p w of Inr s \<Rightarrow> st_type s = Directory_file | Inl _ \<Rightarrow> False)
        in discard_stale os version_dir ps
             (if is_dir then remove_all os p w else snd (os_remove os p w)))"

definition load_entry :: "manifest_entry \<Rightarrow> store \<Rightarrow> store" where
  "load_entry e st =
     st\<lparr>manifest_atimes := (manifest_atimes st)(me_ns e @ ''/'' @ me_key e \<mapsto> me_atime e),
        last_stamp := max (last_stamp st) (me_atime e)\<rparr>"

definition load_manifest :: "'w os \<Rightarrow> 'w \<Rightarrow> store \<Rightarrow> store" where
  "load_manifest os w st =
     (case os_buffer os (os_join os (store_base st) ''manifest.json'') w of
        Inl _ \<Rightarrow> st
      | Inr content \<Rightarrow>
          case os_from_json os content of
            None \<Rightarrow> st
          | Some entries \<Rightarrow> fold load_entry entries st)"

definition open_store :: "'w os \<Rightarrow> string \<Rightarrow> u32 \<Rightarrow> 'w \<Rightarrow> (io_error + store) \<times> 'w" where
  "open_store os root version w =
     (let parent = os_join os root ''cache'';
          version_dir = ''v'' @ decimal (unat version);
          st0 = empty_store\<lparr>self_pid := os_pid os, store_base := os_join os parent version_dir\<rparr>
      in case os_create_dirs os (store_base st0) w of
           (Some e, w1) \<Rightarrow> (Inl e, w1)
         | (None, w1) \<Rightarrow>
             let w2 = discard_stale os version_dir (fst (os_list os parent w1)) w1;
                 st1 = load_manifest os w2 st0;
                 tmp_parent = os_join os (store_base st1) ''tmp'';
                 w3 = sweep_dead_pid_dirs os tmp_parent (self_pid st1) w2;
                 st2 = st1\<lparr>tmp_dir := os_join os tmp_parent (decimal (unat (self_pid st1)))\<rparr>;
                 w4 = remove_all os (tmp_dir st2) w3
             in case os_create_dirs os (tmp_dir st2) w4 of
                  (Some e, w5) \<Rightarrow> (Inl e, w5)
                | (None, w5) \<Rightarrow> (Inr st2, w5))"

text \<open>\<open>register_namespace\<close>. \<open>consume_back\<close> succeeds when the name ends with the extension.\<close>

definition consume_back :: "string \<Rightarrow> string \<Rightarrow> string option" where
  "consume_back ext name =
     (if length ext \<le> length name \<and> drop (length name - length ext) name = ext
      then Some (take (length name - length ext) name) else None)"

definition adopt_key :: "'w os \<Rightarrow> string \<Rightarrow> string \<Rightarrow> string option" where
  "adopt_key os ext p =
     (if ext = [] then Some (os_filename os p) else consume_back ext (os_filename os p))"

fun adopt_blobs :: "'w os \<Rightarrow> store \<Rightarrow> string list \<Rightarrow> 'w \<Rightarrow> namespace_state \<Rightarrow> namespace_state" where
  "adopt_blobs os st [] w ns = ns"
| "adopt_blobs os st (p # ps) w ns =
     (case adopt_key os (ns_extension (ns_config ns)) p of
        None \<Rightarrow> adopt_blobs os st ps w ns
      | Some key \<Rightarrow>
          case os_status os p w of
            Inl _ \<Rightarrow> adopt_blobs os st ps w ns
          | Inr s \<Rightarrow>
              if st_type s \<noteq> Regular_file then adopt_blobs os st ps w ns
              else
                let atime = (case manifest_atimes st (ns_name (ns_config ns) @ ''/'' @ key) of
                               Some t \<Rightarrow> t | None \<Rightarrow> st_mtime s)
                in adopt_blobs os st ps w
                     (ns\<lparr>ns_entries := (ns_entries ns)
                           (key \<mapsto> \<lparr>entry_size = st_size s, entry_atime = atime\<rparr>),
                         ns_total := ns_total ns + st_size s\<rparr>))"

definition register_namespace :: "'w os \<Rightarrow> cache_namespace \<Rightarrow> store \<times> 'w \<Rightarrow> store \<times> 'w" where
  "register_namespace os cfg s =
     (case s of (st, w) \<Rightarrow>
        let dir = os_join os (store_base st) (ns_name cfg);
            w1 = snd (os_create_dirs os dir w)
        in case namespaces st (ns_name cfg) of
             Some _ \<Rightarrow> (st, w1)
           | None \<Rightarrow>
               let ns0 = \<lparr>ns_config = cfg, ns_dir = dir, ns_entries = Map.empty, ns_total = 0\<rparr> in
               if ns_policy cfg = Scratch then
                 let w2 = sweep_dead_pid_dirs os dir (self_pid st) w1;
                     own = os_join os dir (decimal (unat (self_pid st)));
                     w3 = snd (os_create_dirs os own (remove_all os own w2))
                 in (put_namespace (ns_name cfg) (ns0\<lparr>ns_dir := own\<rparr>) st, w3)
               else
                 case evict_locked os []
                        (adopt_blobs os st (fst (os_list os dir w1)) w1 ns0, store_dirty st, w1) of
                   (ns1, dirty, w2) \<Rightarrow>
                     (put_namespace (ns_name cfg) ns1 (st\<lparr>store_dirty := dirty\<rparr>), w2))"

definition lookup :: "'w os \<Rightarrow> string \<Rightarrow> string \<Rightarrow> store \<times> 'w \<Rightarrow> string option \<times> store" where
  "lookup os name key s =
     (case s of (st, w) \<Rightarrow>
        case namespaces st name of
          None \<Rightarrow> (None, st)
        | Some ns \<Rightarrow>
            case ns_entries ns key of
              None \<Rightarrow> (None, st)
            | Some e \<Rightarrow>
                case next_stamp os w st of (st1, stamp) \<Rightarrow>
                  (Some (blob_path os ns key),
                   (put_namespace name
                      (ns\<lparr>ns_entries := (ns_entries ns)(key \<mapsto> e\<lparr>entry_atime := stamp\<rparr>)\<rparr>) st1)
                     \<lparr>store_dirty := True\<rparr>))"

definition begin_store :: "'w os \<Rightarrow> string \<Rightarrow> string \<Rightarrow> store \<Rightarrow> pending_entry \<times> store" where
  "begin_store os name key st =
     (case namespaces st name of
        None \<Rightarrow> (\<lparr>pending_ns = [], pending_key = [], pending_tmp = []\<rparr>, st)
      | Some ns \<Rightarrow>
          (\<lparr>pending_ns = name, pending_key = key,
            pending_tmp = os_join os (tmp_dir st)
              (decimal (unat (next_tmp_id st)) @ ns_extension (ns_config ns))\<rparr>,
           st\<lparr>next_tmp_id := next_tmp_id st + 1\<rparr>))"

text \<open>
  \<open>commit\<close> holds the lock twice: other operations may run between its parts, which are therefore
  separate definitions. The result of the first part is the status of the temporary file and whether
  the blob must be flushed.
\<close>

definition commit_check :: "'w os \<Rightarrow> pending_entry \<Rightarrow> store \<times> 'w \<Rightarrow> io_error + file_status \<times> bool" where
  "commit_check os p s =
     (case s of (st, w) \<Rightarrow>
        if pending_tmp p = [] then Inl Invalid_argument
        else
          case os_status os (pending_tmp p) w of
            Inl e \<Rightarrow> Inl e
          | Inr status \<Rightarrow>
              case namespaces st (pending_ns p) of
                None \<Rightarrow> Inl Invalid_argument
              | Some ns \<Rightarrow> Inr (status, ns_policy (ns_config ns) \<noteq> Scratch))"

definition commit_sync :: "'w os \<Rightarrow> pending_entry \<Rightarrow> bool \<Rightarrow> 'w \<Rightarrow> io_error option \<times> 'w" where
  "commit_sync os p durable w =
     (if durable then
        case sync_file os (pending_tmp p) w of
          (Some e, w1) \<Rightarrow> (Some e, snd (os_remove os (pending_tmp p) w1))
        | (None, w1) \<Rightarrow> (None, w1)
      else (None, w))"

text \<open>
  Publishing the blob: \<open>Inr\<close> the status that is accounted for, or \<open>Inl\<close> the error together with
  whether the entry of the key must be dropped.
\<close>

definition publish_blob :: "'w os \<Rightarrow> string \<Rightarrow> string \<Rightarrow> file_status \<Rightarrow> 'w
    \<Rightarrow> (io_error \<times> bool + file_status) \<times> 'w" where
  "publish_blob os tmp final status w =
     (case os_rename os tmp final w of
        (None, w1) \<Rightarrow> (Inr status, w1)
      | (Some e, w1) \<Rightarrow>
          if same_content os tmp final w1 then
            let w2 = snd (os_remove os tmp w1) in
            case os_status os final w2 of
              Inl _ \<Rightarrow> (Inl (e, False), w2)
            | Inr status' \<Rightarrow> (Inr status', w2)
          else
            case os_rename os tmp final (snd (os_remove os final w1)) of
              (None, w3) \<Rightarrow> (Inr status, w3)
            | (Some e', w3) \<Rightarrow>
                let w4 = snd (os_remove os tmp w3) in
                (Inl (e', case os_status os final w4 of Inl _ \<Rightarrow> True | Inr _ \<Rightarrow> False), w4))"

definition account_entry :: "string \<Rightarrow> file_status \<Rightarrow> int \<Rightarrow> namespace_state \<Rightarrow> namespace_state" where
  "account_entry key status stamp ns =
     (let old = (case ns_entries ns key of Some e \<Rightarrow> entry_size e | None \<Rightarrow> 0) in
      ns\<lparr>ns_total := ns_total ns + (st_size status - old),
         ns_entries := (ns_entries ns)(key \<mapsto> \<lparr>entry_size = st_size status, entry_atime = stamp\<rparr>)\<rparr>)"

definition note_change :: "namespace_state \<Rightarrow> store \<Rightarrow> store" where
  "note_change ns st =
     (if ns_policy (ns_config ns) \<noteq> Scratch
      then st\<lparr>store_dirty := True, changes_since_checkpoint := changes_since_checkpoint st + 1\<rparr>
      else st)"

definition commit_publish :: "'w os \<Rightarrow> pending_entry \<Rightarrow> file_status \<Rightarrow> store \<times> 'w
    \<Rightarrow> (io_error + string) \<times> store \<times> 'w" where
  "commit_publish os p status s =
     (case s of (st, w) \<Rightarrow>
        case namespaces st (pending_ns p) of
          None \<Rightarrow> (Inl Invalid_argument, st, w)
        | Some ns \<Rightarrow>
            let final = blob_path os ns (pending_key p) in
            case publish_blob os (pending_tmp p) final status w of
              (Inl (e, gone), w1) \<Rightarrow>
                (case ns_entries ns (pending_key p) of
                   Some old \<Rightarrow>
                     if gone then
                       (Inl e, (put_namespace (pending_ns p)
                          (drop_entry (pending_key p) (entry_size old) ns) st)\<lparr>store_dirty := True\<rparr>, w1)
                     else (Inl e, st, w1)
                 | None \<Rightarrow> (Inl e, st, w1))
            | (Inr status', w1) \<Rightarrow>
                case next_stamp os w1 st of (st1, stamp) \<Rightarrow>
                case (if ns_policy (ns_config ns) = LRU
                      then evict_locked os (pending_key p)
                             (account_entry (pending_key p) status' stamp ns, store_dirty st1, w1)
                      else (account_entry (pending_key p) status' stamp ns, store_dirty st1, w1)) of
                  (ns1, dirty, w2) \<Rightarrow>
                    (Inr final,
                     note_change ns1 (put_namespace (pending_ns p) ns1 (st1\<lparr>store_dirty := dirty\<rparr>)),
                     w2))"

definition commit :: "'w os \<Rightarrow> pending_entry \<Rightarrow> store \<times> 'w \<Rightarrow> (io_error + string) \<times> store \<times> 'w" where
  "commit os p s =
     (case commit_check os p s of
        Inl e \<Rightarrow> (Inl e, s)
      | Inr (status, durable) \<Rightarrow>
          case commit_sync os p durable (snd s) of
            (Some e, w1) \<Rightarrow> (Inl e, fst s, w1)
          | (None, w1) \<Rightarrow>
              case commit_publish os p status (fst s, w1) of
                (Inl e, s2) \<Rightarrow> (Inl e, s2)
              | (Inr path, s2) \<Rightarrow> (Inr path, maybe_checkpoint os s2))"

definition abort_store :: "'w os \<Rightarrow> pending_entry \<Rightarrow> 'w \<Rightarrow> 'w" where
  "abort_store os p w = (if pending_tmp p \<noteq> [] then snd (os_remove os (pending_tmp p) w) else w)"

definition invalidate_locked :: "'w os \<Rightarrow> string \<Rightarrow> string \<Rightarrow> store \<times> 'w \<Rightarrow> (store \<times> 'w) option" where
  "invalidate_locked os name key s =
     (case s of (st, w) \<Rightarrow>
        case namespaces st name of
          None \<Rightarrow> None
        | Some ns \<Rightarrow>
            case ns_entries ns key of
              None \<Rightarrow> None
            | Some e \<Rightarrow>
                let w1 = snd (os_remove os (blob_path os ns key) w);
                    ns1 = drop_entry key (entry_size e) ns
                in Some (note_change ns1 (put_namespace name ns1 st), w1))"

definition invalidate :: "'w os \<Rightarrow> string \<Rightarrow> string \<Rightarrow> store \<times> 'w \<Rightarrow> store \<times> 'w" where
  "invalidate os name key s =
     (case invalidate_locked os name key s of None \<Rightarrow> s | Some s1 \<Rightarrow> maybe_checkpoint os s1)"

text \<open>\<open>for_each_key\<close> calls its argument on the keys of this snapshot.\<close>

definition keys_snapshot :: "'w os \<Rightarrow> string \<Rightarrow> store \<times> 'w \<Rightarrow> string list" where
  "keys_snapshot os name s =
     (case s of (st, w) \<Rightarrow>
        case namespaces st name of
          None \<Rightarrow> []
        | Some ns \<Rightarrow> map_keys os w (ns_entries ns))"

fun remove_scratch :: "'w os \<Rightarrow> store \<Rightarrow> string list \<Rightarrow> 'w \<Rightarrow> 'w" where
  "remove_scratch os st [] w = w"
| "remove_scratch os st (name # names) w =
     (case namespaces st name of
        Some ns \<Rightarrow>
          if ns_policy (ns_config ns) = Scratch then remove_scratch os st names (remove_all os (ns_dir ns) w)
          else remove_scratch os st names w
      | None \<Rightarrow> remove_scratch os st names w)"

definition shutdown :: "'w os \<Rightarrow> store \<times> 'w \<Rightarrow> store \<times> 'w" where
  "shutdown os s =
     (case checkpoint_locked os s of (st, w) \<Rightarrow>
        let w1 = remove_all os (tmp_dir st) w in
        (st, remove_scratch os st (map_keys os w1 (namespaces st)) w1))"

section \<open>A file system to evaluate the model on\<close>

text \<open>
  An in-memory file system: the regular files with their contents, directories being implicit. Keys
  are iterated in ascending order, every other process is dead and the clock stands at 100.
\<close>

type_synonym files = "(string \<times> string) list"

definition mem_join :: "string \<Rightarrow> string \<Rightarrow> string" where
  "mem_join d f = (if d = [] \<or> last d = CHR ''/'' then d @ f else d @ CHR ''/'' # f)"

definition mem_filename :: "string \<Rightarrow> string" where
  "mem_filename p = rev (takeWhile (\<lambda>c. c \<noteq> CHR ''/'') (rev p))"

definition mem_list :: "string \<Rightarrow> files \<Rightarrow> string list" where
  "mem_list d w = remdups (filter (\<lambda>p. mem_filename p \<noteq> [] \<and> p = mem_join d (mem_filename p)) (map fst w))"

text \<open>A codec for manifests with one entry that was last used at 100.\<close>

definition mem_to_json :: "manifest_entry list \<Rightarrow> string option" where
  "mem_to_json es = (case es of
     [e] \<Rightarrow> if me_atime e = 100 \<and> CHR ''/'' \<notin> set (me_ns e) then Some (me_ns e @ ''/'' @ me_key e) else None
   | _ \<Rightarrow> None)"

definition mem_from_json :: "string \<Rightarrow> manifest_entry list option" where
  "mem_from_json s =
     (if CHR ''/'' \<in> set s
      then Some [\<lparr>me_ns = takeWhile (\<lambda>c. c \<noteq> CHR ''/'') s,
                  me_key = tl (dropWhile (\<lambda>c. c \<noteq> CHR ''/'') s), me_atime = 100\<rparr>]
      else None)"

definition mem_order :: "files \<Rightarrow> (string \<Rightarrow> bool) \<Rightarrow> string list" where
  "mem_order w P = sorted_list_of_set {k. P k}"

declare mem_order_def [code del]

definition mem_os :: "files os" where
  "mem_os = \<lparr>
     os_status = (\<lambda>p w. case map_of w p of
       None \<Rightarrow> Inl No_such_file
     | Some c \<Rightarrow> Inr \<lparr>st_type = Regular_file, st_size = of_nat (length c), st_mtime = 0\<rparr>),
     os_link_status = (\<lambda>p w. case map_of w p of
       None \<Rightarrow> Inl No_such_file
     | Some c \<Rightarrow> Inr \<lparr>st_type = Regular_file, st_size = of_nat (length c), st_mtime = 0\<rparr>),
     os_list = (\<lambda>d w. (mem_list d w, None)),
     os_create_dirs = (\<lambda>p w. (None, w)),
     os_remove = (\<lambda>p w. (None, filter (\<lambda>(q, c). q \<noteq> p) w)),
     os_rename = (\<lambda>a b w. case map_of w a of
       None \<Rightarrow> (Some No_such_file, w)
     | Some c \<Rightarrow> (None, (b, c) # filter (\<lambda>(q, _). q \<noteq> a \<and> q \<noteq> b) w)),
     os_open = (\<lambda>p w. (Inr 3, w)),
     os_fsync = (\<lambda>n w. (None, w)),
     os_close = (\<lambda>n w. w),
     os_buffer = (\<lambda>p w. case map_of w p of None \<Rightarrow> Inl No_such_file | Some c \<Rightarrow> Inr c),
     os_write = (\<lambda>p c w. (None, (p, c) # filter (\<lambda>(q, _). q \<noteq> p) w)),
     os_kill0 = (\<lambda>pid w. Some 3),
     os_now_ms = (\<lambda>w. 100),
     os_pid = 7,
     os_join = mem_join,
     os_filename = mem_filename,
     os_parse_u32 = (\<lambda>s. None),
     os_to_json = mem_to_json,
     os_from_json = mem_from_json,
     os_order = mem_order,
     os_depth = 8\<rparr>"

end
