(* ===== verification/Cache_Store_Inv.thy ===== *)
theory Cache_Store_Inv
  imports Cache_Store "HOL-Library.Multiset"
begin

text \<open>
  The accounting and the eviction of the cache store. \<open>ns_exact\<close> says that the running total of a
  namespace is the sum of its entries; the total is an unsigned 64-bit integer and so is the sum, so
  the equation is about what the code computes, wrap-around included.
\<close>

section \<open>Accounting\<close>

definition ns_exact :: "namespace_state \<Rightarrow> bool" where
  "ns_exact ns \<longleftrightarrow> finite (dom (ns_entries ns)) \<and> ns_total ns = msum entry_size (ns_entries ns)"

definition store_exact :: "store \<Rightarrow> bool" where
  "store_exact st \<longleftrightarrow> (\<forall>name ns. namespaces st name = Some ns \<longrightarrow> ns_exact ns)"

lemma store_exactD: "store_exact st \<Longrightarrow> namespaces st name = Some ns \<Longrightarrow> ns_exact ns"
  by (simp add: store_exact_def)

lemma store_exact_put: "store_exact st \<Longrightarrow> ns_exact ns \<Longrightarrow> store_exact (put_namespace name ns st)"
  by (auto simp: store_exact_def put_namespace_def)

lemma store_exact_cong: "namespaces st' = namespaces st \<Longrightarrow> store_exact st' = store_exact st"
  by (simp add: store_exact_def)

lemma ns_exact_drop:
  assumes "ns_exact ns" and "ns_entries ns k = Some e"
  shows "ns_exact (drop_entry k (entry_size e) ns)"
  using assms msum_split [of "ns_entries ns" k e entry_size]
  by (auto simp: ns_exact_def drop_entry_def)

lemma ns_exact_account:
  assumes ex: "ns_exact ns"
  shows "ns_exact (account_entry k status stamp ns)"
proof (cases "ns_entries ns k")
  case None
  then show ?thesis
    using ex msum_new [of "ns_entries ns" k entry_size] by (simp add: ns_exact_def account_entry_def)
next
  case (Some e)
  then show ?thesis
    using ex msum_upd [of "ns_entries ns" k e entry_size
        "\<lparr>entry_size = st_size status, entry_atime = stamp\<rparr>"]
    by (simp add: ns_exact_def account_entry_def algebra_simps)
qed

lemma ns_exact_touch:
  assumes "ns_exact ns" and "ns_entries ns k = Some e"
  shows "ns_exact (ns\<lparr>ns_entries := (ns_entries ns)(k \<mapsto> e\<lparr>entry_atime := stamp\<rparr>)\<rparr>)"
  using assms msum_upd_same [of "ns_entries ns" k e entry_size "e\<lparr>entry_atime := stamp\<rparr>"]
  by (simp add: ns_exact_def)

section \<open>Eviction\<close>

text \<open>The keys whose file the loop tries to remove and cannot, in the worlds it goes through.\<close>

fun refused :: "'w os \<Rightarrow> (string \<times> entry) list \<Rightarrow> namespace_state \<times> 'w \<Rightarrow> string set" where
  "refused os [] s = {}"
| "refused os ((key, e) # cs) (ns, w) =
     (if ns_total ns \<le> ns_max_bytes (ns_config ns) then {}
      else
        case os_remove os (blob_path os ns key) w of
          (Some _, w1) \<Rightarrow> insert key (refused os cs (ns, w1))
        | (None, w1) \<Rightarrow> refused os cs (drop_entry key (entry_size e) ns, w1))"

abbreviation over_budget :: "namespace_state \<Rightarrow> bool" where
  "over_budget ns \<equiv> ns_max_bytes (ns_config ns) < ns_total ns"

lemma drop_entry_simps [simp]:
  "ns_config (drop_entry k sz ns) = ns_config ns" "ns_dir (drop_entry k sz ns) = ns_dir ns"
  "ns_entries (drop_entry k sz ns) = (ns_entries ns)(k := None)"
  "ns_total (drop_entry k sz ns) = ns_total ns - sz"
  "blob_path os (drop_entry k sz ns) = blob_path os ns"
  by (simp_all add: drop_entry_def blob_path_def fun_eq_iff)

text \<open>
  The loop evicts the keys \<open>ks\<close>, in the order of the candidates; a candidate it passes over is in \<open>R\<close>, the ones
  it could not delete; it stops as soon as the total is within the budget.
\<close>

definition evicts :: "string set \<Rightarrow> string list \<Rightarrow> string list \<Rightarrow> namespace_state \<Rightarrow> namespace_state \<Rightarrow> bool" where
  "evicts R cs ks ns ns' \<longleftrightarrow>
     set ks \<subseteq> set cs
     \<and> ns_entries ns' = ns_entries ns |` (- set ks)
     \<and> ns_config ns' = ns_config ns \<and> ns_dir ns' = ns_dir ns
     \<and> (\<forall>ys k zs. cs = ys @ k # zs \<longrightarrow> k \<in> set ks \<longrightarrow> (\<forall>x \<in> set ys - set ks. x \<in> R))
     \<and> (over_budget ns' \<longrightarrow> (\<forall>x \<in> set cs - set ks. x \<in> R))
     \<and> (ks \<noteq> [] \<longrightarrow> ns_max_bytes (ns_config ns) < ns_total ns' + entry_size (the (ns_entries ns (last ks))))"

lemma evictsD:
  assumes "evicts R cs ks ns ns'"
  shows "set ks \<subseteq> set cs" and "ns_entries ns' = ns_entries ns |` (- set ks)"
    and "ns_config ns' = ns_config ns" and "ns_dir ns' = ns_dir ns"
    and "cs = ys @ k # zs \<Longrightarrow> k \<in> set ks \<Longrightarrow> x \<in> set ys \<Longrightarrow> x \<notin> set ks \<Longrightarrow> x \<in> R"
    and "over_budget ns' \<Longrightarrow> x \<in> set cs \<Longrightarrow> x \<notin> set ks \<Longrightarrow> x \<in> R"
    and "ks \<noteq> [] \<Longrightarrow> ns_max_bytes (ns_config ns) < ns_total ns' + entry_size (the (ns_entries ns (last ks)))"
  using assms unfolding evicts_def by blast+

lemma evicts_skip:
  assumes ev: "evicts R cs ks ns ns'" and un: "k \<in> R" and new: "k \<notin> set cs"
  shows "evicts R (k # cs) ks ns ns'"
proof -
  have "\<forall>x \<in> set ys - set ks. x \<in> R"
    if split: "k # cs = ys @ j # zs" and j: "j \<in> set ks" for ys j zs
  proof (cases ys)
    case (Cons y ys')
    then have "cs = ys' @ j # zs" using split by simp
    then have "\<forall>x \<in> set ys' - set ks. x \<in> R" using ev j by (auto simp: evicts_def)
    then show ?thesis using Cons split un by auto
  qed simp
  then show ?thesis using ev un unfolding evicts_def by auto
qed

lemma evicts_take:
  assumes ev: "evicts R cs ks (drop_entry k (entry_size e) ns) ns'"
    and k: "ns_entries ns k = Some e" and over: "over_budget ns" and new: "k \<notin> set cs"
    and empty: "ks = [] \<Longrightarrow> ns_total ns' = ns_total ns - entry_size e"
  shows "evicts R (k # cs) (k # ks) ns ns'"
proof -
  have before: "\<forall>x \<in> set ys - set (k # ks). x \<in> R"
    if split: "k # cs = ys @ j # zs" and j: "j \<in> set (k # ks)" for ys j zs
  proof (cases ys)
    case (Cons y ys')
    then have cs: "cs = ys' @ j # zs" and y: "y = k" using split by auto
    then have "j \<in> set ks" using j new by auto
    then have "\<forall>x \<in> set ys' - set ks. x \<in> R" using ev cs by (auto simp: evicts_def)
    then show ?thesis using Cons y by auto
  qed simp
  have "last (k # ks) \<noteq> k" if "ks \<noteq> []"
    using ev new that by (metis evicts_def last_ConsR last_in_set subsetD)
  then have "ns_max_bytes (ns_config ns) < ns_total ns' + entry_size (the (ns_entries ns (last (k # ks))))"
    using ev k over empty by (cases "ks = []") (auto simp: evicts_def)
  moreover have "ns_entries ns' = ns_entries ns |` (- set (k # ks))"
    using ev by (auto simp: evicts_def restrict_map_def fun_eq_iff)
  ultimately show ?thesis using ev before unfolding evicts_def by auto
qed

lemma evicts_mono: "evicts R cs ks ns ns' \<Longrightarrow> R \<subseteq> R' \<Longrightarrow> evicts R' cs ks ns ns'"
  unfolding evicts_def by blast

lemma evict_loop_evicts:
  assumes "evict_loop os cs (ns, dirty, w) = (ns', dirty', w')"
    and "distinct (map fst cs)" and "\<forall>(k, e) \<in> set cs. ns_entries ns k = Some e" and "ns_exact ns"
  shows "\<exists>ks. evicts (refused os cs (ns, w)) (map fst cs) ks ns ns' \<and> ns_exact ns' \<and> dirty' = (dirty \<or> ks \<noteq> [])
    \<and> (ks = [] \<longrightarrow> ns' = ns)"
  using assms
proof (induction cs arbitrary: ns dirty w)
  case Nil
  then show ?case by (intro exI [of _ "[]"]) (auto simp: evicts_def)
next
  case (Cons c cs)
  obtain k e where c: "c = (k, e)" by fastforce
  have k: "ns_entries ns k = Some e" and new: "k \<notin> set (map fst cs)" using Cons.prems c by auto
  show ?case
  proof (cases "over_budget ns")
    case False
    then have "ns' = ns" "dirty' = dirty" using Cons.prems(1) c by (auto simp: not_less)
    then show ?thesis
      using Cons.prems(4) False by (intro exI [of _ "[]"]) (auto simp: evicts_def)
  next
    case over: True
    then have nle: "\<not> ns_total ns \<le> ns_max_bytes (ns_config ns)" by (simp add: not_le)
    obtain r w1 where rm: "os_remove os (blob_path os ns k) w = (r, w1)" by fastforce
    show ?thesis
    proof (cases r)
      case (Some err)
      then have "evict_loop os cs (ns, dirty, w1) = (ns', dirty', w')"
        using Cons.prems(1) c nle rm by simp
      then obtain ks where ks: "evicts (refused os cs (ns, w1)) (map fst cs) ks ns ns'" "ns_exact ns'"
        "dirty' = (dirty \<or> ks \<noteq> [])" "ks = [] \<longrightarrow> ns' = ns"
        using Cons.IH [of ns dirty w1] Cons.prems by auto
      have R: "refused os (c # cs) (ns, w) = insert k (refused os cs (ns, w1))" using c nle rm Some by simp
      have "evicts (insert k (refused os cs (ns, w1))) (map fst cs) ks ns ns'" by (rule evicts_mono [OF ks(1)]) blast
      then show ?thesis
        using evicts_skip [OF _ _ new] ks c unfolding R by (intro exI [of _ ks]) simp
    next
      case None
      let ?ns = "drop_entry k (entry_size e) ns"
      have run: "evict_loop os cs (?ns, True, w1) = (ns', dirty', w')"
        using Cons.prems(1) c nle rm None by simp
      have "\<forall>(k, e) \<in> set cs. ns_entries ?ns k = Some e"
        using Cons.prems(3) new by (force simp: c)
      then obtain ks where ks: "evicts (refused os cs (?ns, w1)) (map fst cs) ks ?ns ns'" "ns_exact ns'"
        "dirty'" "ks = [] \<longrightarrow> ns' = ?ns"
        using Cons.IH [OF run] Cons.prems ns_exact_drop k by auto
      have R: "refused os (c # cs) (ns, w) = refused os cs (?ns, w1)" using c nle rm None by simp
      have "evicts (refused os cs (?ns, w1)) (k # map fst cs) (k # ks) ns ns'"
        by (rule evicts_take [OF ks(1) k over new]) (use ks(4) in simp)
      then show ?thesis using ks c unfolding R by (intro exI [of _ "k # ks"]) simp
    qed
  qed
qed

text \<open>What a string map iteration promises.\<close>

definition order_laws :: "'w os \<Rightarrow> bool" where
  "order_laws os \<longleftrightarrow> (\<forall>w P. finite {k. P k} \<longrightarrow> set (os_order os w P) = {k. P k} \<and> distinct (os_order os w P))"

lemma map_keys_laws:
  assumes "order_laws os" and "finite (dom m)"
  shows "set (map_keys os w m) = dom m" and "distinct (map_keys os w m)"
  using assms by (auto simp: order_laws_def map_keys_def dom_def)

lemma candidates_keys:
  assumes "order_laws os" and "finite (dom (ns_entries ns))"
  shows "distinct (map fst (eviction_candidates os ns keep w))"
    and "fst ` set (eviction_candidates os ns keep w) = dom (ns_entries ns) - {keep}"
    and "\<forall>(k, e) \<in> set (eviction_candidates os ns keep w). ns_entries ns k = Some e"
    and "sorted (map (\<lambda>(k, e). entry_atime e) (eviction_candidates os ns keep w))"
proof -
  let ?ks = "filter (\<lambda>k. k \<noteq> keep) (map_keys os w (ns_entries ns))"
  let ?cs = "map (\<lambda>k. (k, the (ns_entries ns k))) ?ks"
  have S: "set ?ks = dom (ns_entries ns) - {keep}" and D: "distinct ?ks"
    using map_keys_laws [OF assms] by auto
  have keys: "map fst ?cs = ?ks" by (simp add: comp_def)
  have mset: "mset (eviction_candidates os ns keep w) = mset ?cs"
    by (simp add: eviction_candidates_def)
  have "mset (map fst (eviction_candidates os ns keep w)) = mset (map fst ?cs)"
    by (simp only: mset_map mset)
  then have "mset (map fst (eviction_candidates os ns keep w)) = mset ?ks" by (simp only: keys)
  then show "distinct (map fst (eviction_candidates os ns keep w))"
    using D mset_eq_imp_distinct_iff by blast
  have set: "set (eviction_candidates os ns keep w) = set ?cs"
    using mset_eq_setD [OF mset] .
  then show "fst ` set (eviction_candidates os ns keep w) = dom (ns_entries ns) - {keep}"
    using S by (auto simp: image_image)
  show "\<forall>(k, e) \<in> set (eviction_candidates os ns keep w). ns_entries ns k = Some e"
    unfolding set using S by auto
  show "sorted (map (\<lambda>(k, e). entry_atime e) (eviction_candidates os ns keep w))"
    by (simp add: eviction_candidates_def)
qed

text \<open>The consequences of \<open>evicts\<close> for candidates that are sorted by their last access.\<close>

lemma evicts_oldest:
  assumes ev: "evicts R (map fst cs) ks ns ns'"
    and sorted: "sorted (map (\<lambda>(k, e). entry_atime e) cs)"
    and k: "k \<in> set ks" "(k, e) \<in> set cs" and x: "x \<notin> set ks" "(x, f) \<in> set cs"
  shows "x \<in> R \<or> entry_atime e \<le> entry_atime f"
proof -
  obtain ys zs where cs: "cs = ys @ (k, e) # zs" using k(2) split_list by fastforce
  show ?thesis
  proof (cases "(x, f) \<in> set ys")
    case True
    then have "x \<in> set (map fst ys)" by force
    then show ?thesis using evictsD(5) [OF ev _ k(1) _ x(1)] by (simp add: cs)
  next
    case False
    then have "(x, f) \<in> set zs" using x cs k(1) by auto
    then show ?thesis using sorted unfolding cs by (auto simp: sorted_append)
  qed
qed

lemma evicts_minimal:
  assumes ev: "evicts R cs ks ns ns'" and ne: "ks \<noteq> []" and sub: "set ks \<subseteq> dom (ns_entries ns)"
  shows "\<exists>k e. ns_entries ns k = Some e \<and> ns_entries ns' k = None
    \<and> ns_max_bytes (ns_config ns) < ns_total ns' + entry_size e"
proof -
  have l: "last ks \<in> set ks" using ne by simp
  then obtain e where "ns_entries ns (last ks) = Some e" using sub by auto
  then show ?thesis using ev ne l by (intro exI [of _ "last ks"]) (auto simp: evicts_def)
qed

lemma candidate_mem:
  assumes "order_laws os" and "finite (dom (ns_entries ns))"
    and "ns_entries ns k = Some e" and "k \<noteq> keep"
  shows "(k, e) \<in> set (eviction_candidates os ns keep w)"
proof -
  have "k \<in> fst ` set (eviction_candidates os ns keep w)"
    unfolding candidates_keys(2) [OF assms(1,2)] using assms(3,4) by auto
  then obtain f where f: "(k, f) \<in> set (eviction_candidates os ns keep w)" by auto
  then have "ns_entries ns k = Some f" using candidates_keys(3) [OF assms(1,2), of keep w] by blast
  then show ?thesis using f assms(3) by simp
qed

lemma evict_locked_evicts:
  assumes laws: "order_laws os" and ex: "ns_exact ns"
    and run: "evict_locked os keep (ns, dirty, w) = (ns', dirty', w')"
  obtains ks where "ns_exact ns'" and "dirty' = (dirty \<or> ks \<noteq> [])" and "ks = [] \<Longrightarrow> ns' = ns"
    and "evicts (refused os (eviction_candidates os ns keep w) (ns, w)) (map fst (eviction_candidates os ns keep w)) ks ns ns'
      \<or> ks = [] \<and> (ns_policy (ns_config ns) \<noteq> LRU \<or> ns_max_bytes (ns_config ns) = 0 \<or> \<not> over_budget ns)"
proof (cases "ns_policy (ns_config ns) = LRU \<and> ns_max_bytes (ns_config ns) \<noteq> 0 \<and> over_budget ns")
  case False
  then have "ns' = ns \<and> dirty' = dirty" using run by (auto simp: evict_locked_def not_less)
  then show ?thesis using that [of "[]"] ex False by auto
next
  case True
  have fin: "finite (dom (ns_entries ns))" using ex by (simp add: ns_exact_def)
  have "evict_loop os (eviction_candidates os ns keep w) (ns, dirty, w) = (ns', dirty', w')"
    using run True by (simp add: evict_locked_def not_le [symmetric])
  from evict_loop_evicts [OF this candidates_keys(1,3) [OF laws fin] ex] that show ?thesis by blast
qed

text \<open>
  C30. A call of \<open>evict_locked\<close> on a namespace with an exact total changes nothing when the namespace is not under
  the recency policy or has no budget. Otherwise it removes entries only, never the key it is told to
  keep; it keeps the total exact; an entry goes only when every other entry used less recently goes too, except
  those whose file the call tried to remove and could not; afterwards the namespace is within its budget unless
  the removal of every other remaining file was tried and failed; and no more is evicted than needed: with the entry
  evicted last the total would still exceed the budget.
\<close>

theorem evict_locked_lru:
  assumes laws: "order_laws os" and ex: "ns_exact ns"
    and run: "evict_locked os keep (ns, dirty, w) = (ns', dirty', w')"
    and failed: "failed = refused os (eviction_candidates os ns keep w) (ns, w)"
  shows "(ns_policy (ns_config ns) \<noteq> LRU \<or> ns_max_bytes (ns_config ns) = 0 \<longrightarrow> (ns', dirty', w') = (ns, dirty, w))
    \<and> ns_entries ns' \<subseteq>\<^sub>m ns_entries ns \<and> ns_entries ns' keep = ns_entries ns keep
    \<and> ns_exact ns'
    \<and> (\<forall>k e x f. ns_entries ns k = Some e \<longrightarrow> ns_entries ns' k = None \<longrightarrow> ns_entries ns' x = Some f
         \<longrightarrow> x = keep \<or> x \<in> failed \<or> entry_atime e \<le> entry_atime f)
    \<and> (ns_policy (ns_config ns) = LRU \<and> ns_max_bytes (ns_config ns) \<noteq> 0 \<longrightarrow> ns_total ns' \<le> ns_max_bytes (ns_config ns)
         \<or> dom (ns_entries ns') - {keep} \<subseteq> failed)
    \<and> (ns_entries ns' \<noteq> ns_entries ns \<longrightarrow>
         (\<exists>k e. ns_entries ns k = Some e \<and> ns_entries ns' k = None
            \<and> ns_max_bytes (ns_config ns) < ns_total ns' + entry_size e))"
proof -
  let ?cs = "eviction_candidates os ns keep w"
  have fin: "finite (dom (ns_entries ns))" using ex by (simp add: ns_exact_def)
  note cand = candidates_keys [OF laws fin, of keep w]
  have off: "ns_policy (ns_config ns) \<noteq> LRU \<or> ns_max_bytes (ns_config ns) = 0 \<Longrightarrow> (ns', dirty', w') = (ns, dirty, w)"
    using run by (auto simp: evict_locked_def)
  obtain ks where ex': "ns_exact ns'" and same: "ks = [] \<Longrightarrow> ns' = ns"
    and ev: "evicts failed (map fst ?cs) ks ns ns'
      \<or> ks = [] \<and> (ns_policy (ns_config ns) \<noteq> LRU \<or> ns_max_bytes (ns_config ns) = 0 \<or> \<not> over_budget ns)"
    using evict_locked_evicts [OF laws ex run] unfolding failed by metis
  show ?thesis
  proof (cases "evicts failed (map fst ?cs) ks ns ns'")
    case False
    then show ?thesis using ev same ex off by (auto simp: not_less)
  next
    case True
    have sub: "set ks \<subseteq> dom (ns_entries ns) - {keep}"
      and entries: "ns_entries ns' = ns_entries ns |` (- set ks)"
      and within: "ns_total ns' \<le> ns_max_bytes (ns_config ns)
        \<or> (\<forall>x \<in> dom (ns_entries ns) - {keep} - set ks. x \<in> failed)"
      using True cand(2) by (auto simp: evicts_def not_less)
    have order: "x = keep \<or> x \<in> failed \<or> entry_atime e \<le> entry_atime f"
      if "ns_entries ns k = Some e" "ns_entries ns' k = None" "ns_entries ns' x = Some f" for k e x f
    proof -
      have k: "k \<in> set ks" and x: "x \<notin> set ks" "ns_entries ns x = Some f"
        using that entries by (auto simp: restrict_map_def split: if_splits)
      have "k \<noteq> keep" using k sub by blast
      then have "(k, e) \<in> set ?cs" by (rule candidate_mem [OF laws fin that(1)])
      moreover have "x = keep \<or> (x, f) \<in> set ?cs" using candidate_mem [OF laws fin x(2)] by blast
      ultimately show ?thesis using evicts_oldest [OF True cand(4) k _ x(1)] by blast
    qed
    have "ns_entries ns' \<subseteq>\<^sub>m ns_entries ns" "ns_entries ns' keep = ns_entries ns keep"
      using entries sub by (auto simp: map_le_def restrict_map_def)
    moreover have "\<exists>k e. ns_entries ns k = Some e \<and> ns_entries ns' k = None
        \<and> ns_max_bytes (ns_config ns) < ns_total ns' + entry_size e" if "ns_entries ns' \<noteq> ns_entries ns"
    proof (rule evicts_minimal [OF True])
      show "ks \<noteq> []" using that same by auto
    qed (use sub in blast)
    moreover have "ns_total ns' \<le> ns_max_bytes (ns_config ns) \<or> dom (ns_entries ns') - {keep} \<subseteq> failed"
      using within entries by auto
    ultimately show ?thesis using order ex' off by blast
  qed
qed

text \<open>Two blobs of four bytes with a budget of six: the older one goes.\<close>

lemma order_laws_mem: "order_laws mem_os"
  by (simp add: order_laws_def mem_os_def mem_order_def)

definition demo_ns :: namespace_state where
  "demo_ns = \<lparr>ns_config = \<lparr>ns_name = ''pch'', ns_extension = ''.pch'', ns_policy = LRU, ns_max_bytes = 6\<rparr>,
     ns_dir = ''r'', ns_entries = [''a'' \<mapsto> \<lparr>entry_size = 4, entry_atime = 20\<rparr>,
     ''b'' \<mapsto> \<lparr>entry_size = 4, entry_atime = 10\<rparr>], ns_total = 8\<rparr>"

lemma demo_ns_exact: "ns_exact demo_ns"
  by (simp add: ns_exact_def demo_ns_def msum_new msum_def)

lemma demo_ns_evict:
  "evict_locked mem_os [] (demo_ns, False, [(''r/b.pch'', ''bbbb'')]) =
    (drop_entry ''b'' 4 demo_ns, True, [])"
proof -
  have "sorted_list_of_set (set [''b'', ''a'']) = [''a'', ''b'']"
    by (simp only: sorted_list_of_set_sort_remdups) (simp add: list_less_def)
  moreover have "{k. ns_entries demo_ns k \<noteq> None} = set [''b'', ''a'']" by (auto simp: demo_ns_def)
  ultimately have ord: "map_keys mem_os w (ns_entries demo_ns) = [''a'', ''b'']" for w
    by (simp add: map_keys_def mem_os_def mem_order_def)
  show ?thesis
    unfolding evict_locked_def eviction_candidates_def
    by (simp add: ord) (simp add: demo_ns_def mem_os_def drop_entry_def blob_path_def mem_join_def)
qed

theorem evict_locked_lru_witness:
  "ns_entries (drop_entry ''b'' 4 demo_ns) \<subseteq>\<^sub>m ns_entries demo_ns
    \<and> ns_total (drop_entry ''b'' 4 demo_ns) \<le> 6"
  using evict_locked_lru [OF order_laws_mem demo_ns_exact demo_ns_evict refl]
  by (simp add: demo_ns_def)

end
