(* ===== verification/Cache_Store_Steps.thy ===== *)
theory Cache_Store_Steps
  imports Cache_Store_Inv
begin

text \<open>
  The cache store as a transition system. Every step is one critical section of an operation;
  \<open>commit\<close> and \<open>invalidate\<close> take the lock more than once, so between their parts every other step may
  happen, also arbitrary changes of the file system by other processes: several instances share one
  cache. Proved over all reachable states: the totals are exact, and the path a lookup hands out exists
  unless another process has removed it.
\<close>

section \<open>Paths\<close>

definition file_name :: "string \<Rightarrow> bool" where
  "file_name f \<longleftrightarrow> f \<noteq> [] \<and> CHR ''/'' \<notin> set f"

definition below :: "string \<Rightarrow> string \<Rightarrow> bool" where
  "below p q \<longleftrightarrow> prefix (p @ ''/'') (q @ ''/'')"

definition path_of :: "string \<Rightarrow> string list \<Rightarrow> string" where
  "path_of b cs = b @ concat (map (\<lambda>c. CHR ''/'' # c) cs)"

lemma file_name_last: "file_name f \<Longrightarrow> f \<noteq> [] \<and> last f \<noteq> CHR ''/''"
  unfolding file_name_def by (metis last_in_set)

lemma below_refl [simp]: "below p p"
  by (simp add: below_def)

lemma below_cases: "below p q \<longleftrightarrow> q = p \<or> prefix (p @ ''/'') q"
  by (auto simp: below_def prefix_snoc)

lemma below_trans: "below p q \<Longrightarrow> below q r \<Longrightarrow> below p r"
  unfolding below_def by (rule prefix_order.trans)

lemma prefix_component:
  assumes "CHR ''/'' \<notin> set c" and "CHR ''/'' \<notin> set d"
  shows "prefix (c @ CHR ''/'' # xs) (d @ CHR ''/'' # ys) \<longleftrightarrow> c = d \<and> prefix xs ys"
  using assms
proof (induction c arbitrary: d)
  case Nil
  then show ?case by (cases d) auto
next
  case (Cons a c)
  then show ?case by (cases d) auto
qed

lemma concat_components:
  "concat (map (\<lambda>c. CHR ''/'' # c) cs) @ ''/'' =
     CHR ''/'' # concat (map (\<lambda>c. c @ ''/'') cs)"
  by (induction cs) auto

lemma prefix_components:
  assumes "list_all file_name cs" and "list_all file_name ds"
  shows "prefix (concat (map (\<lambda>c. c @ ''/'') cs)) (concat (map (\<lambda>c. c @ ''/'') ds)) \<longleftrightarrow> prefix cs ds"
  using assms
proof (induction cs arbitrary: ds)
  case (Cons c cs)
  then show ?case
    by (cases ds) (auto simp: prefix_component file_name_def)
qed simp

lemma below_path_of:
  assumes "list_all file_name cs" and "list_all file_name ds"
  shows "below (path_of b cs) (path_of b ds) \<longleftrightarrow> prefix cs ds"
proof -
  have "below (path_of b cs) (path_of b ds) \<longleftrightarrow>
      prefix (concat (map (\<lambda>c. CHR ''/'' # c) cs) @ ''/'') (concat (map (\<lambda>c. CHR ''/'' # c) ds) @ ''/'')"
    by (simp add: below_def path_of_def)
  also have "\<dots> \<longleftrightarrow> prefix cs ds"
    unfolding concat_components using prefix_components [OF assms] by simp
  finally show ?thesis .
qed

lemma path_of_eq:
  assumes "list_all file_name cs" and "list_all file_name ds"
  shows "path_of b cs = path_of b ds \<longleftrightarrow> cs = ds"
  using below_path_of [OF assms, of b] below_path_of [OF assms(2,1), of b]
  by (metis below_refl prefix_order.antisym)

section \<open>What the file system promises\<close>

definition exists_at :: "'w os \<Rightarrow> 'w \<Rightarrow> string \<Rightarrow> bool" where
  "exists_at os w p \<longleftrightarrow> (\<exists>s. os_status os p w = Inr s)"

definition keeps :: "'w os \<Rightarrow> (string \<Rightarrow> bool) \<Rightarrow> 'w \<Rightarrow> 'w \<Rightarrow> bool" where
  "keeps os P w w' \<longleftrightarrow> (\<forall>q. P q \<longrightarrow> exists_at os w q \<longrightarrow> exists_at os w' q)"

text \<open>
  Appending a file name to a directory; a listing gives distinct children by their names; removing a
  path removes no other path, and nothing when it fails; renaming touches the two paths and what is
  below them, and afterwards the destination exists; the other calls remove nothing.
\<close>

definition join_law :: "'w os \<Rightarrow> bool" where
  "join_law os \<longleftrightarrow> (\<forall>d f. d \<noteq> [] \<longrightarrow> file_name f \<longrightarrow>
     os_join os d f = (if last d = CHR ''/'' then d @ f else d @ CHR ''/'' # f))"

definition list_law :: "'w os \<Rightarrow> bool" where
  "list_law os \<longleftrightarrow> (\<forall>d w. distinct (fst (os_list os d w)) \<and>
     (\<forall>p \<in> set (fst (os_list os d w)). \<exists>f. file_name f \<and> p = os_join os d f \<and> os_filename os p = f))"

definition remove_law :: "'w os \<Rightarrow> bool" where
  "remove_law os \<longleftrightarrow> (\<forall>p w. keeps os (\<lambda>q. q \<noteq> p) w (snd (os_remove os p w)) \<and>
     (fst (os_remove os p w) \<noteq> None \<longrightarrow> keeps os (\<lambda>q. True) w (snd (os_remove os p w))))"

definition rename_law :: "'w os \<Rightarrow> bool" where
  "rename_law os \<longleftrightarrow> (\<forall>a b w. keeps os (\<lambda>q. \<not> below a q \<and> \<not> below b q) w (snd (os_rename os a b w)) \<and>
     (fst (os_rename os a b w) = None \<longrightarrow> exists_at os (snd (os_rename os a b w)) b))"

definition additive_law :: "'w os \<Rightarrow> bool" where
  "additive_law os \<longleftrightarrow> (\<forall>p c n w.
     keeps os (\<lambda>q. True) w (snd (os_create_dirs os p w)) \<and> keeps os (\<lambda>q. True) w (snd (os_open os p w))
     \<and> keeps os (\<lambda>q. True) w (snd (os_fsync os n w)) \<and> keeps os (\<lambda>q. True) w (os_close os n w)
     \<and> keeps os (\<lambda>q. True) w (snd (os_write os p c w)))"

definition os_laws :: "'w os \<Rightarrow> bool" where
  "os_laws os \<longleftrightarrow> join_law os \<and> list_law os \<and> remove_law os \<and> rename_law os \<and> additive_law os
     \<and> order_laws os"

lemma os_lawsD:
  assumes "os_laws os"
  shows "join_law os" "list_law os" "remove_law os" "rename_law os" "additive_law os" "order_laws os"
  using assms by (simp_all add: os_laws_def)

lemma keeps_refl [simp, intro]: "keeps os P w w"
  by (simp add: keeps_def)

lemma keeps_trans: "keeps os P w w1 \<Longrightarrow> keeps os P w1 w2 \<Longrightarrow> keeps os P w w2"
  by (simp add: keeps_def)

lemma keeps_weaken: "keeps os Q w w' \<Longrightarrow> (\<And>q. P q \<Longrightarrow> Q q) \<Longrightarrow> keeps os P w w'"
  by (simp add: keeps_def)

lemma keeps_all: "keeps os (\<lambda>q. True) w w' \<Longrightarrow> keeps os P w w'"
  by (simp add: keeps_def)

lemma keepsD: "keeps os P w w' \<Longrightarrow> P q \<Longrightarrow> exists_at os w q \<Longrightarrow> exists_at os w' q"
  by (simp add: keeps_def)

section \<open>What the helpers touch\<close>

text \<open>A directory name as the store builds it.\<close>

definition dir_name :: "string \<Rightarrow> bool" where
  "dir_name d \<longleftrightarrow> d \<noteq> [] \<and> last d \<noteq> CHR ''/''"

lemma dir_name_path_of: "dir_name b \<Longrightarrow> list_all file_name cs \<Longrightarrow> dir_name (path_of b cs)"
proof (induction cs rule: rev_induct)
  case (snoc c cs)
  then have "c \<noteq> [] \<and> last c \<noteq> CHR ''/''"
    using file_name_last by simp
  then show ?case by (simp add: dir_name_def path_of_def)
qed (simp add: path_of_def)

lemma join_dir:
  assumes "os_laws os" and "dir_name d" and "file_name f"
  shows "os_join os d f = d @ CHR ''/'' # f"
  using assms by (simp add: os_laws_def join_law_def dir_name_def)

lemma join_path_of:
  assumes "os_laws os" and "dir_name b" and "list_all file_name cs" and "file_name f"
  shows "os_join os (path_of b cs) f = path_of b (cs @ [f])"
  using assms dir_name_path_of [of b cs] join_dir [of os "path_of b cs" f] by (simp add: path_of_def)

lemma list_below:
  assumes "os_laws os" and "dir_name d" and "p \<in> set (fst (os_list os d w))"
  shows "below d p" and "dir_name p"
proof -
  obtain f where f: "file_name f" "p = os_join os d f"
    using os_lawsD(2) [OF assms(1)] assms(3) by (auto simp: list_law_def)
  then have p: "p = d @ CHR ''/'' # f" using join_dir [OF assms(1,2) f(1)] by simp
  then show "below d p" by (simp add: below_cases)
  show "dir_name p" using file_name_last [OF f(1)] p by (simp add: dir_name_def)
qed

lemma keeps_remove:
  assumes "os_laws os"
  shows "keeps os (\<lambda>q. q \<noteq> p) w (snd (os_remove os p w))"
    and "fst (os_remove os p w) = Some e \<Longrightarrow> keeps os P w (snd (os_remove os p w))"
  using os_lawsD(3) [OF assms] by (auto simp: remove_law_def keeps_def)

lemma keeps_remove_below:
  "os_laws os \<Longrightarrow> keeps os (\<lambda>q. \<not> below p q) w (snd (os_remove os p w))"
  by (rule keeps_weaken [OF keeps_remove(1)]) auto

lemma keeps_rename:
  assumes "os_laws os"
  shows "keeps os (\<lambda>q. \<not> below a q \<and> \<not> below b q) w (snd (os_rename os a b w))"
    and "fst (os_rename os a b w) = None \<Longrightarrow> exists_at os (snd (os_rename os a b w)) b"
  using os_lawsD(4) [OF assms] by (auto simp: rename_law_def)

lemma keeps_additive:
  assumes "os_laws os"
  shows "keeps os P w (snd (os_create_dirs os p w))" and "keeps os P w (snd (os_open os p w))"
    and "keeps os P w (snd (os_fsync os n w))" and "keeps os P w (os_close os n w)"
    and "keeps os P w (snd (os_write os p c w))"
  using os_lawsD(5) [OF assms] by (auto simp: additive_law_def intro: keeps_all)

lemma keeps_remove_tree:
  shows "os_laws os \<Longrightarrow> dir_name target \<Longrightarrow>
      keeps os (\<lambda>q. \<not> below target q) w (snd (remove_tree os n target w))"
    and "os_laws os \<Longrightarrow> \<forall>p \<in> set ps. dir_name p \<Longrightarrow>
      keeps os (\<lambda>q. \<forall>p \<in> set ps. \<not> below p q) w (snd (remove_children os m ps w))"
proof (induction os n target w and os m ps w rule: remove_tree_remove_children.induct)
  case (1 os n target w)
  note laws = "1.prems"(1)
  show ?case
  proof (cases "os_link_status os target w")
    case (Inr st)
    show ?thesis
    proof (cases "st_type st = Directory_file \<and> n \<noteq> 0")
      case True
      then obtain m where n: "n = Suc m" by (cases n) auto
      obtain cs ec where l: "os_list os target w = (cs, ec)" by fastforce
      obtain r w1 where c: "remove_children os m cs w = (r, w1)" by fastforce
      have cs: "below target p \<and> dir_name p" if "p \<in> set cs" for p
        using list_below [OF laws "1.prems"(2), of p w] that l by simp
      have "keeps os (\<lambda>q. \<forall>p \<in> set cs. \<not> below p q) w w1"
        using "1.IH" [OF Inr _ n l [symmetric] laws] True cs c by simp
      then have k: "keeps os (\<lambda>q. \<not> below target q) w w1"
        by (rule keeps_weaken) (use cs below_trans in blast)
      then have "keeps os (\<lambda>q. \<not> below target q) w (snd (os_remove os target w1))"
        by (rule keeps_trans) (rule keeps_remove_below [OF laws])
      then show ?thesis using k True Inr n l c by (auto split: option.splits)
    next
      case False
      then show ?thesis
        using Inr keeps_remove_below [OF laws, of target w] by (auto split: nat.splits)
    qed
  qed simp
next
  case (3 os m p ps w)
  note laws = "3.prems"(1)
  show ?case
  proof (cases "os_link_status os p w")
    case (Inr st)
    obtain r w1 where rm: "(if st_type st = Directory_file then remove_tree os m p w else os_remove os p w) = (r, w1)"
      by fastforce
    have "keeps os (\<lambda>q. \<not> below p q) w w1"
      using "3.IH"(1) [OF Inr] "3.prems" keeps_remove_below [OF laws, of p w] rm
      by (auto split: if_splits)
    then have k: "keeps os (\<lambda>q. \<forall>x \<in> set (p # ps). \<not> below x q) w w1" by (rule keeps_weaken) simp
    show ?thesis
    proof (cases r)
      case None
      have "keeps os (\<lambda>q. \<forall>x \<in> set ps. \<not> below x q) w1 (snd (remove_children os m ps w1))"
        using "3.IH"(2) [OF Inr rm [symmetric] None] "3.prems" by simp
      then have "keeps os (\<lambda>q. \<forall>x \<in> set (p # ps). \<not> below x q) w1 (snd (remove_children os m ps w1))"
        by (rule keeps_weaken) simp
      then show ?thesis using keeps_trans [OF k] Inr rm None by simp
    qed (use k Inr rm in simp)
  qed simp
qed simp

lemma keeps_remove_all:
  "os_laws os \<Longrightarrow> dir_name target \<Longrightarrow> keeps os (\<lambda>q. \<not> below target q) w (remove_all os target w)"
  unfolding remove_all_def by (rule keeps_remove_tree(1))

lemma keeps_sweep:
  assumes laws: "os_laws os" and d: "dir_name d"
  shows "keeps os (\<lambda>q. \<not> below d q) w (sweep_dead_pid_dirs os d pid w)"
proof -
  have "keeps os (\<lambda>q. \<not> below d q) w' (sweep_paths os pid ps w')"
    if "\<forall>p \<in> set ps. below d p \<and> dir_name p" for ps w'
    using that
  proof (induction ps arbitrary: w')
    case (Cons p ps)
    have "keeps os (\<lambda>q. \<not> below d q) w' (remove_all os p w')"
      by (rule keeps_weaken [OF keeps_remove_all [OF laws]]) (use Cons.prems below_trans in auto)
    then have "keeps os (\<lambda>q. \<not> below d q) w' (sweep_paths os pid ps (remove_all os p w'))"
      by (rule keeps_trans) (use Cons in simp)
    then show ?case using Cons by (simp split: option.splits)
  qed simp
  then show ?thesis
    unfolding sweep_dead_pid_dirs_def using list_below [OF laws d] by blast
qed

lemma keeps_sync_file: "os_laws os \<Longrightarrow> keeps os P w (snd (sync_file os p w))"
  using keeps_additive [of os P]
  by (auto simp: sync_file_def split: prod.splits sum.splits) (metis keeps_trans snd_conv)+

section \<open>Layout\<close>

lemma set_decimal: "set (decimal n) \<subseteq> digit ` {..<10}"
proof (induction n rule: decimal.induct)
  case (1 n)
  then show ?case by (subst decimal.simps) auto
qed

lemma slash_not_digit: "n < 10 \<Longrightarrow> digit n \<noteq> CHR ''/''"
proof -
  assume "n < 10"
  then have "n \<in> {0, 1, 2, 3, 4, 5, 6, 7, 8, 9}" by auto
  then show ?thesis by (auto simp: digit_def char_of_def)
qed

lemma file_name_decimal [simp]: "file_name (decimal n)"
proof -
  have "decimal n \<noteq> []" by (subst decimal.simps) simp
  moreover have "CHR ''/'' \<notin> set (decimal n)" using set_decimal [of n] slash_not_digit by force
  ultimately show ?thesis by (simp add: file_name_def)
qed

lemma file_name_literals [simp]: "file_name ''tmp''" "file_name ''manifest.json''" "file_name ''cache''"
  by (simp_all add: file_name_def)

definition cfg_ok :: "cache_namespace \<Rightarrow> bool" where
  "cfg_ok cfg \<longleftrightarrow> file_name (ns_name cfg) \<and> ns_name cfg \<notin> {''tmp'', ''manifest.json''}
     \<and> CHR ''/'' \<notin> set (ns_extension cfg)"

definition place :: "u32 \<Rightarrow> cache_namespace \<Rightarrow> string list" where
  "place pid cfg = (if ns_policy cfg = Scratch then [ns_name cfg, decimal (unat pid)] else [ns_name cfg])"

text \<open>\<open>T\<close> are paths that somebody else has removed; a blob is there unless it is one of them.\<close>

definition held :: "'w os \<Rightarrow> string set \<Rightarrow> 'w \<Rightarrow> string \<Rightarrow> bool" where
  "held os T w p \<longleftrightarrow> exists_at os w p \<or> p \<in> T"

lemma heldI: "exists_at os w p \<Longrightarrow> held os T w p"
  by (simp add: held_def)

lemma keeps_held: "keeps os P w w' \<Longrightarrow> P q \<Longrightarrow> held os T w q \<Longrightarrow> held os T w' q"
  by (auto simp: held_def keeps_def)

definition ns_good :: "'w os \<Rightarrow> string set \<Rightarrow> string \<Rightarrow> u32 \<Rightarrow> 'w \<Rightarrow> string \<Rightarrow> namespace_state \<Rightarrow> bool" where
  "ns_good os T b pid w name ns \<longleftrightarrow>
     cfg_ok (ns_config ns) \<and> ns_name (ns_config ns) = name
     \<and> ns_dir ns = path_of b (place pid (ns_config ns)) \<and> ns_exact ns
     \<and> (\<forall>k \<in> dom (ns_entries ns). file_name (k @ ns_extension (ns_config ns))
          \<and> held os T w (blob_path os ns k))"

definition store_good :: "'w os \<Rightarrow> string set \<Rightarrow> store \<Rightarrow> 'w \<Rightarrow> bool" where
  "store_good os T st w \<longleftrightarrow>
     dir_name (store_base st) \<and> tmp_dir st = path_of (store_base st) [''tmp'', decimal (unat (self_pid st))]
     \<and> (\<forall>name ns. namespaces st name = Some ns \<longrightarrow> ns_good os T (store_base st) (self_pid st) w name ns)"

lemma store_goodD:
  assumes "store_good os T st w"
  shows "dir_name (store_base st)"
    and "tmp_dir st = path_of (store_base st) [''tmp'', decimal (unat (self_pid st))]"
    and "namespaces st name = Some ns \<Longrightarrow> ns_good os T (store_base st) (self_pid st) w name ns"
  using assms by (simp_all add: store_good_def)

lemma place_names: "cfg_ok cfg \<Longrightarrow> list_all file_name (place pid cfg)"
  by (simp add: cfg_ok_def place_def)

text \<open>Where the blobs of a namespace are, and that they are apart from everything else.\<close>

lemma blob_path_of:
  assumes "os_laws os" and "dir_name b" and "cfg_ok (ns_config ns)"
    and "ns_dir ns = path_of b (place pid (ns_config ns))" and "file_name (k @ ns_extension (ns_config ns))"
  shows "blob_path os ns k = path_of b (place pid (ns_config ns) @ [k @ ns_extension (ns_config ns)])"
  using assms join_path_of [OF assms(1,2) place_names] by (simp add: blob_path_def)

definition outside :: "string \<Rightarrow> string \<Rightarrow> string \<Rightarrow> string \<Rightarrow> bool" where
  "outside b tmp name q \<longleftrightarrow> \<not> below (path_of b [name]) q \<and> \<not> below tmp q"

lemma ns_good_blob:
  assumes "os_laws os" and "dir_name b" and "ns_good os T b pid w name ns" and "k \<in> dom (ns_entries ns)"
  shows "blob_path os ns k = path_of b (place pid (ns_config ns) @ [k @ ns_extension (ns_config ns)])"
    and "file_name (k @ ns_extension (ns_config ns))" and "held os T w (blob_path os ns k)"
  using assms by (auto simp: ns_good_def intro: blob_path_of)

lemma blob_outside:
  assumes laws: "os_laws os" and b: "dir_name b" and good: "ns_good os T b pid w name ns"
    and k: "k \<in> dom (ns_entries ns)" and m: "file_name m" "m \<noteq> name"
  shows "outside b (path_of b [''tmp'', decimal n]) m (blob_path os ns k)"
proof -
  have ok: "cfg_ok (ns_config ns)" "ns_name (ns_config ns) = name" using good by (auto simp: ns_good_def)
  note blob = ns_good_blob [OF laws b good k]
  show ?thesis
    using ok blob(2) m place_names [OF ok(1), of pid] unfolding blob(1)
    by (auto simp: outside_def below_path_of place_def cfg_ok_def split: if_splits)
qed

lemma blob_below:
  assumes laws: "os_laws os" and b: "dir_name b" and good: "ns_good os T b pid w name ns"
    and k: "k \<in> dom (ns_entries ns)"
  shows "below (path_of b [name]) (blob_path os ns k)"
proof -
  have ok: "cfg_ok (ns_config ns)" "ns_name (ns_config ns) = name" using good by (auto simp: ns_good_def)
  then have "file_name name" by (auto simp: cfg_ok_def)
  then show ?thesis
    using ok ns_good_blob(1,2) [OF laws b good k] place_names [OF ok(1), of pid]
    by (simp add: below_path_of place_def)
qed

lemma blob_eq:
  assumes laws: "os_laws os" and b: "dir_name b" and ok: "cfg_ok (ns_config ns)"
    and dir: "ns_dir ns = path_of b (place pid (ns_config ns))"
    and k: "file_name (k @ ns_extension (ns_config ns))" and j: "file_name (j @ ns_extension (ns_config ns))"
  shows "blob_path os ns k = blob_path os ns j \<longleftrightarrow> k = j"
    and "below (blob_path os ns k) (blob_path os ns j) \<longleftrightarrow> k = j"
  unfolding blob_path_of [OF laws b ok dir k] blob_path_of [OF laws b ok dir j]
  using place_names [OF ok, of pid] k j by (simp_all add: path_of_eq below_path_of)

lemma ns_good_world:
  assumes good: "ns_good os T b pid w name ns"
    and "\<And>k. k \<in> dom (ns_entries ns) \<Longrightarrow> held os T w (blob_path os ns k) \<Longrightarrow>
      held os T w' (blob_path os ns k)"
  shows "ns_good os T b pid w' name ns"
  using assms by (auto simp: ns_good_def)

lemma store_good_put:
  assumes laws: "os_laws os" and good: "store_good os T st w" and name: "file_name name"
    and ns: "ns_good os T (store_base st) (self_pid st) w' name ns"
    and keeps: "keeps os (outside (store_base st) (tmp_dir st) name) w w'"
  shows "store_good os T (put_namespace name ns st) w'"
proof -
  have "ns_good os T (store_base st) (self_pid st) w' m ms"
    if m: "namespaces st m = Some ms" and ne: "m \<noteq> name" for m ms
  proof (rule ns_good_world [OF store_goodD(3) [OF good m]])
    fix k assume "k \<in> dom (ns_entries ms)" and ex: "held os T w (blob_path os ms k)"
    then show "held os T w' (blob_path os ms k)"
      using keeps_held [OF keeps] blob_outside [OF laws store_goodD(1) [OF good] store_goodD(3) [OF good m]]
        name ne store_goodD(2) [OF good] by metis
  qed
  then show ?thesis using good ns by (auto simp: store_good_def put_namespace_def)
qed

lemma store_good_world:
  assumes laws: "os_laws os" and good: "store_good os T st w" and m: "file_name m" "namespaces st m = None"
    and keeps: "keeps os (outside (store_base st) (tmp_dir st) m) w w'"
  shows "store_good os T st w'"
proof -
  have "ns_good os T (store_base st) (self_pid st) w' n ns" if n: "namespaces st n = Some ns" for n ns
  proof (rule ns_good_world [OF store_goodD(3) [OF good n]])
    fix k assume "k \<in> dom (ns_entries ns)" and ex: "held os T w (blob_path os ns k)"
    moreover have "m \<noteq> n" using m n by auto
    ultimately show "held os T w' (blob_path os ns k)"
      using keeps_held [OF keeps] blob_outside [OF laws store_goodD(1) [OF good] store_goodD(3) [OF good n]]
        m store_goodD(2) [OF good] by metis
  qed
  then show ?thesis using good by (auto simp: store_good_def)
qed

lemma store_good_bookkeeping [simp]:
  "store_good os T (st\<lparr>store_dirty := d\<rparr>) w = store_good os T st w"
  "store_good os T (st\<lparr>last_stamp := t\<rparr>) w = store_good os T st w"
  "store_good os T (st\<lparr>changes_since_checkpoint := c\<rparr>) w = store_good os T st w"
  "store_good os T (st\<lparr>next_tmp_id := i\<rparr>) w = store_good os T st w"
  "store_good os T (note_change ns st) w = store_good os T st w"
  by (simp_all add: store_good_def note_change_def)

section \<open>The operations keep the store good\<close>

lemma evict_loop_le:
  "evict_loop os cs (ns, d, w) = (ns', d', w') \<Longrightarrow> ns_entries ns k = None \<Longrightarrow> ns_entries ns' k = None"
  by (induction cs arbitrary: ns d w) (auto split: if_splits prod.splits option.splits)

lemma evict_loop_keeps:
  assumes laws: "os_laws os"
  shows "evict_loop os cs (ns, d, w) = (ns', d', w') \<Longrightarrow> exists_at os w q \<Longrightarrow>
    (\<And>k. q = blob_path os ns k \<Longrightarrow> k \<in> fst ` set cs \<Longrightarrow> ns_entries ns' k \<noteq> None) \<Longrightarrow> exists_at os w' q"
proof (induction cs arbitrary: ns d w)
  case (Cons c cs)
  obtain k e where c: "c = (k, e)" by fastforce
  obtain r w1 where rm: "os_remove os (blob_path os ns k) w = (r, w1)" by fastforce
  show ?case
  proof (cases "ns_total ns \<le> ns_max_bytes (ns_config ns)")
    case False
    show ?thesis
    proof (cases r)
      case (Some err)
      then have "exists_at os w1 q"
        using keeps_remove(2) [OF laws, of "blob_path os ns k" w err "\<lambda>q. True"] Cons.prems(2) rm
        by (simp add: keeps_def)
      then show ?thesis
        using Cons.IH [of ns d w1] Cons.prems c rm Some False by auto
    next
      case None
      let ?ns = "drop_entry k (entry_size e) ns"
      have run: "evict_loop os cs (?ns, True, w1) = (ns', d', w')"
        using Cons.prems(1) c rm None False by simp
      then have "ns_entries ns' k = None" by (rule evict_loop_le) simp
      then have "q \<noteq> blob_path os ns k" using Cons.prems(3) [of k] c by auto
      then have "exists_at os w1 q"
        using keeps_remove(1) [OF laws, of "blob_path os ns k" w] Cons.prems(2) rm by (simp add: keeps_def)
      then show ?thesis using Cons.IH [OF run] Cons.prems(3) c by simp
    qed
  qed (use Cons.prems c in simp)
qed simp

lemma evict_locked_good:
  assumes laws: "os_laws os" and b: "dir_name b" and good: "ns_good os T b pid w name ns"
    and run: "evict_locked os keep (ns, d, w) = (ns', d', w')"
  shows "ns_good os T b pid w' name ns'" and "keeps os (\<lambda>q. \<not> below (path_of b [name]) q) w w'"
proof -
  have ex: "ns_exact ns" using good by (simp add: ns_good_def)
  let ?cs = "eviction_candidates os ns keep w"
  have cs: "fst ` set ?cs \<subseteq> dom (ns_entries ns)"
    using candidates_keys(2) [OF os_lawsD(6) [OF laws]] ex by (auto simp: ns_exact_def)
  obtain ks where ks: "ns_exact ns'" "ks = [] \<Longrightarrow> ns' = ns"
    "evicts (refused os ?cs (ns, w)) (map fst ?cs) ks ns ns' \<or> ks = []"
    using evict_locked_evicts [OF os_lawsD(6) [OF laws] ex run] by metis
  have same: "ns_config ns' = ns_config ns" "ns_dir ns' = ns_dir ns"
    and sub: "ns_entries ns' \<subseteq>\<^sub>m ns_entries ns"
    using ks(2,3) by (auto simp: evicts_def map_le_def restrict_map_def split: if_splits)
  have run': "ns' = ns \<and> w' = w \<or> evict_loop os ?cs (ns, d, w) = (ns', d', w')"
    using run by (auto simp: evict_locked_def split: if_splits)
  have keep: "exists_at os w' q" if "exists_at os w q"
    "\<And>k. q = blob_path os ns k \<Longrightarrow> k \<in> dom (ns_entries ns) \<Longrightarrow> ns_entries ns' k \<noteq> None" for q
  proof -
    consider "w' = w" | "evict_loop os ?cs (ns, d, w) = (ns', d', w')" using run' by blast
    then show ?thesis
    proof cases
      case 2
      show ?thesis by (rule evict_loop_keeps [OF laws 2 that(1)]) (use that(2) cs in blast)
    qed (use that(1) in simp)
  qed
  have path: "blob_path os ns' = blob_path os ns" using same by (simp add: blob_path_def fun_eq_iff)
  have inj: "j = k" if "blob_path os ns k = blob_path os ns j" "k \<in> dom (ns_entries ns)"
    "j \<in> dom (ns_entries ns)" for j k
    using blob_eq(1) [OF laws b] that good unfolding ns_good_def by blast
  have "held os T w' (blob_path os ns' k)" if k: "k \<in> dom (ns_entries ns')" for k
  proof -
    have k': "k \<in> dom (ns_entries ns)" using k sub map_le_implies_dom_le by blast
    then have "held os T w (blob_path os ns k)" using good by (simp add: ns_good_def)
    moreover have "exists_at os w' (blob_path os ns k)" if "exists_at os w (blob_path os ns k)"
      by (rule keep [OF that]) (use inj k k' in blast)
    ultimately show ?thesis unfolding path by (auto simp: held_def)
  qed
  moreover have "file_name (k @ ns_extension (ns_config ns'))" if "k \<in> dom (ns_entries ns')" for k
    using that good map_le_implies_dom_le [OF sub] unfolding same ns_good_def by blast
  ultimately show "ns_good os T b pid w' name ns'" using good ks(1) same by (simp add: ns_good_def)
  show "keeps os (\<lambda>q. \<not> below (path_of b [name]) q) w w'"
  proof (unfold keeps_def, intro allI impI)
    fix q assume q: "\<not> below (path_of b [name]) q" "exists_at os w q"
    show "exists_at os w' q" by (rule keep [OF q(2)]) (use q(1) blob_below [OF laws b good] in blast)
  qed
qed

text \<open>One key of a namespace changes, together with its blob and files below the temporary directory.\<close>

lemma ns_good_touch:
  assumes laws: "os_laws os" and b: "dir_name b" and good: "ns_good os T b pid w name ns"
    and k: "file_name (k @ ns_extension (ns_config ns))"
    and tmp: "below (path_of b [''tmp'', decimal n]) tmp"
    and keeps: "keeps os (\<lambda>q. \<not> below tmp q \<and> \<not> below (blob_path os ns k) q) w w'"
    and same: "ns_config ns' = ns_config ns" "ns_dir ns' = ns_dir ns" and ex: "ns_exact ns'"
    and sub: "dom (ns_entries ns') \<subseteq> insert k (dom (ns_entries ns))"
    and new: "k \<in> dom (ns_entries ns') \<Longrightarrow> held os T w' (blob_path os ns k)"
  shows "ns_good os T b pid w' name ns'"
proof -
  have path: "blob_path os ns' = blob_path os ns" using same by (simp add: blob_path_def fun_eq_iff)
  have ok: "cfg_ok (ns_config ns)" "ns_dir ns = path_of b (place pid (ns_config ns))"
    using good by (simp_all add: ns_good_def)
  have "file_name (j @ ns_extension (ns_config ns)) \<and> held os T w' (blob_path os ns j)"
    if j: "j \<in> dom (ns_entries ns')" for j
  proof (cases "j = k")
    case False
    then have jn: "j \<in> dom (ns_entries ns)" using j sub by auto
    note jb = ns_good_blob [OF laws b good jn]
    have "outside b (path_of b [''tmp'', decimal n]) ''tmp'' (blob_path os ns j)"
      by (rule blob_outside [OF laws b good jn]) (use good in \<open>auto simp: ns_good_def cfg_ok_def\<close>)
    then have "\<not> below tmp (blob_path os ns j)" using tmp below_trans by (auto simp: outside_def)
    moreover have "\<not> below (blob_path os ns k) (blob_path os ns j)"
      using blob_eq(2) [OF laws b ok k jb(2)] False by simp
    ultimately show ?thesis using keeps_held [OF keeps _ jb(3)] jb(2) by simp
  qed (use k new j in simp)
  then show ?thesis using good ex same path by (simp add: ns_good_def)
qed

lemma keeps_touch_outside:
  assumes laws: "os_laws os" and b: "dir_name b" and ok: "cfg_ok (ns_config ns)"
    and dir: "ns_dir ns = path_of b (place pid (ns_config ns))"
    and k: "file_name (k @ ns_extension (ns_config ns))" and tmp: "below td tmp"
    and keeps: "keeps os (\<lambda>q. \<not> below tmp q \<and> \<not> below (blob_path os ns k) q) w w'"
  shows "keeps os (outside b td (ns_name (ns_config ns))) w w'"
proof (rule keeps_weaken [OF keeps])
  have "file_name (ns_name (ns_config ns))" using ok by (simp add: cfg_ok_def)
  then have "below (path_of b [ns_name (ns_config ns)]) (blob_path os ns k)"
    unfolding blob_path_of [OF laws b ok dir k]
    using k place_names [OF ok, of pid] by (simp add: below_path_of place_def)
  then show "\<not> below tmp q \<and> \<not> below (blob_path os ns k) q"
    if "outside b td (ns_name (ns_config ns)) q" for q
    using that tmp below_trans by (auto simp: outside_def)
qed

lemma publish_blob_world:
  assumes laws: "os_laws os" and apart: "\<not> below tmp final"
    and run: "publish_blob os tmp final status w = (r, w')"
  shows "keeps os (\<lambda>q. \<not> below tmp q \<and> \<not> below final q) w w'"
    and "\<nexists>e. r = Inl (e, True) \<Longrightarrow> exists_at os w' final"
proof -
  let ?P = "\<lambda>q. \<not> below tmp q \<and> \<not> below final q"
  note rn = keeps_rename [OF laws, of tmp final]
  have rm: "keeps os ?P v (snd (os_remove os tmp v))" "keeps os ?P v (snd (os_remove os final v))"
    "keeps os (\<lambda>q. q = final) v (snd (os_remove os tmp v))" for v
    by (rule keeps_weaken [OF keeps_remove(1) [OF laws]]; use apart in auto)+
  obtain r1 w1 where r1: "os_rename os tmp final w = (r1, w1)" by fastforce
  have k1: "keeps os ?P w w1" using rn(1) [of w] r1 by simp
  obtain r2 w2 where r2: "os_rename os tmp final (snd (os_remove os final w1)) = (r2, w2)" by fastforce
  have k2: "keeps os ?P w w2"
    using k1 rm(2) [of w1] rn(1) [of "snd (os_remove os final w1)"] r2 keeps_trans by (metis snd_conv)
  have same: "exists_at os (snd (os_remove os tmp w1)) final" if "same_content os tmp final w1"
    using that keepsD [OF rm(3) [of w1], of final]
    by (auto simp: same_content_def exists_at_def split: sum.splits)
  have final: "exists_at os w1 final" if "r1 = None" using rn(2) [of w] r1 that by simp
  have final2: "exists_at os w2 final" if "r2 = None"
    using rn(2) [of "snd (os_remove os final w1)"] r2 that by simp
  show "keeps os ?P w w'"
    using run k1 k2 rm(1) keeps_trans [OF k1 rm(1)] keeps_trans [OF k2 rm(1)] unfolding publish_blob_def r1
    by (auto simp: r2 Let_def split: option.splits if_splits sum.splits)
  show "exists_at os w' final" if "\<nexists>e. r = Inl (e, True)"
    using run that same final final2 unfolding publish_blob_def r1
    by (auto simp: r2 Let_def exists_at_def split: option.splits if_splits sum.splits)
qed

definition pending_ok :: "store \<Rightarrow> pending_entry \<Rightarrow> bool" where
  "pending_ok st p \<longleftrightarrow> file_name (pending_key p) \<and> below (tmp_dir st) (pending_tmp p)"

lemma key_file_name: "cfg_ok cfg \<Longrightarrow> file_name k \<Longrightarrow> file_name (k @ ns_extension cfg)"
  by (simp add: cfg_ok_def file_name_def)

text \<open>A namespace is replaced after a step that touched one of its keys.\<close>

lemma store_good_touch:
  assumes laws: "os_laws os" and good: "store_good os T st w" and ns: "namespaces st name = Some ns"
    and k: "file_name (k @ ns_extension (ns_config ns))" and tmp: "below (tmp_dir st) tmp"
    and keeps: "keeps os (\<lambda>q. \<not> below tmp q \<and> \<not> below (blob_path os ns k) q) w w'"
    and same: "ns_config ns' = ns_config ns" "ns_dir ns' = ns_dir ns" and ex: "ns_exact ns'"
    and sub: "dom (ns_entries ns') \<subseteq> insert k (dom (ns_entries ns))"
    and new: "k \<in> dom (ns_entries ns') \<Longrightarrow> held os T w' (blob_path os ns k)"
  shows "store_good os T (put_namespace name ns' st) w'"
    and "ns_good os T (store_base st) (self_pid st) w' name ns'"
proof -
  note g = store_goodD [OF good] and n = store_goodD(3) [OF good ns]
  have nm: "file_name name" "ns_name (ns_config ns) = name" and ok: "cfg_ok (ns_config ns)"
    and dir: "ns_dir ns = path_of (store_base st) (place (self_pid st) (ns_config ns))"
    using n by (auto simp: ns_good_def cfg_ok_def)
  show good': "ns_good os T (store_base st) (self_pid st) w' name ns'"
    by (rule ns_good_touch [OF laws g(1) n k tmp [unfolded g(2)] keeps same ex sub new])
  have "keeps os (outside (store_base st) (tmp_dir st) name) w w'"
    using keeps_touch_outside [OF laws g(1) ok dir k tmp keeps] nm by simp
  then show "store_good os T (put_namespace name ns' st) w'"
    by (rule store_good_put [OF laws good nm(1) good'])
qed

lemma account_entry_simps [simp]:
  "ns_config (account_entry k s t ns) = ns_config ns" "ns_dir (account_entry k s t ns) = ns_dir ns"
  "dom (ns_entries (account_entry k s t ns)) = insert k (dom (ns_entries ns))"
  by (auto simp: account_entry_def Let_def)

lemma put_put [simp]: "put_namespace n b (put_namespace n a st) = put_namespace n b st"
  by (simp add: put_namespace_def)

lemma store_good_evict:
  assumes laws: "os_laws os" and good: "store_good os T (put_namespace name ns st) w" and nm: "file_name name"
    and run: "evict_locked os keep (ns, d, w) = (ns', d', w')"
  shows "store_good os T (put_namespace name ns' st) w'"
proof -
  have g: "dir_name (store_base st)" "ns_good os T (store_base st) (self_pid st) w name ns"
    using good by (auto simp: store_good_def put_namespace_def)
  note ev = evict_locked_good [OF laws g run]
  have "keeps os (outside (store_base st) (tmp_dir st) name) w w'"
    by (rule keeps_weaken [OF ev(2)]) (simp add: outside_def)
  then show ?thesis
    using store_good_put [OF laws good nm, of w' ns'] ev(1) by (simp add: put_namespace_def)
qed

lemma commit_publish_good:
  assumes laws: "os_laws os" and good: "store_good os T st w" and p: "pending_ok st p"
    and run: "commit_publish os p status (st, w) = (r, st', w')"
  shows "store_good os T st' w'"
proof (cases "namespaces st (pending_ns p)")
  case None
  then show ?thesis using run good by (simp add: commit_publish_def)
next
  case (Some ns)
  let ?k = "pending_key p" and ?n = "pending_ns p"
  let ?final = "blob_path os ns ?k"
  note g = store_goodD [OF good] and n = store_goodD(3) [OF good Some]
  have ok: "cfg_ok (ns_config ns)" and nm: "file_name ?n" and ex: "ns_exact ns"
    and dir: "ns_dir ns = path_of (store_base st) (place (self_pid st) (ns_config ns))"
    using n by (auto simp: ns_good_def cfg_ok_def)
  have k: "file_name (?k @ ns_extension (ns_config ns))" and tmp: "below (tmp_dir st) (pending_tmp p)"
    using p key_file_name [OF ok] by (simp_all add: pending_ok_def)
  have "\<not> below (tmp_dir st) ?final"
    using ok k unfolding g(2) blob_path_of [OF laws g(1) ok dir k]
    by (auto simp: below_path_of place_def cfg_ok_def)
  then have apart: "\<not> below (pending_tmp p) ?final" using tmp below_trans by blast
  obtain res w1 where pub: "publish_blob os (pending_tmp p) ?final status w = (res, w1)" by fastforce
  note world = publish_blob_world [OF laws apart pub]
  note touch = store_good_touch [OF laws good Some k tmp world(1)]
  show ?thesis
  proof (cases res)
    case (Inl eg)
    obtain e gone where eg: "eg = (e, gone)" by fastforce
    have keep: "store_good os T st w1" if "ns_entries ns ?k = None \<or> \<not> gone"
    proof -
      have "store_good os T (put_namespace ?n ns st) w1"
        by (rule touch) (use ex that heldI [OF world(2), of T] Inl eg in auto)
      moreover have "put_namespace ?n ns st = st" using Some by (simp add: put_namespace_def fun_upd_idem)
      ultimately show ?thesis by simp
    qed
    have "store_good os T (put_namespace ?n (drop_entry ?k (entry_size old) ns) st) w1"
      if "ns_entries ns ?k = Some old" for old
      by (rule touch) (use ns_exact_drop [OF ex that] in auto)
    then show ?thesis
      using run keep unfolding commit_publish_def
      by (auto simp: Some pub Inl eg split: option.splits if_splits)
  next
    case (Inr status')
    obtain st1 stamp where stamp: "next_stamp os w1 st = (st1, stamp)" by fastforce
    then have st1: "st1 = st\<lparr>last_stamp := stamp\<rparr>" by (auto simp: next_stamp_def Let_def)
    let ?ns = "account_entry ?k status' stamp ns"
    have acc: "store_good os T (put_namespace ?n ?ns st) w1"
      by (rule touch) (use ns_exact_account [OF ex] heldI [OF world(2), of T] Inr in auto)
    obtain ns1 d w2 where ev: "(if ns_policy (ns_config ns) = LRU
        then evict_locked os ?k (?ns, store_dirty st1, w1) else (?ns, store_dirty st1, w1)) = (ns1, d, w2)"
      by (metis prod_cases3)
    have "store_good os T (put_namespace ?n ns1 st) w2"
    proof (cases "ns_policy (ns_config ns) = LRU")
      case True
      then show ?thesis using store_good_evict [OF laws acc nm] ev by simp
    qed (use acc ev in simp)
    then have "store_good os T (put_namespace ?n ns1 (st1\<lparr>store_dirty := d\<rparr>)) w2"
      by (simp add: st1 store_good_def put_namespace_def)
    moreover have "st' = note_change ns1 (put_namespace ?n ns1 (st1\<lparr>store_dirty := d\<rparr>)) \<and> w' = w2"
      using run ev unfolding commit_publish_def by (simp add: Some pub Inr stamp)
    ultimately show ?thesis by simp
  qed
qed

lemma lookup_good:
  assumes laws: "os_laws os" and good: "store_good os T st w" and run: "lookup os name key (st, w) = (r, st')"
  shows "store_good os T st' w" and "r = Some path \<Longrightarrow> held os T w path"
proof -
  have A: "store_good os T st' w \<and> (\<forall>path. r = Some path \<longrightarrow> held os T w path)"
  proof (cases "\<exists>ns e. namespaces st name = Some ns \<and> ns_entries ns key = Some e")
    case False
    then show ?thesis using run good by (auto simp: lookup_def split: option.splits)
  next
    case True
    then obtain ns e where ns: "namespaces st name = Some ns" and e: "ns_entries ns key = Some e" by auto
    note n = store_goodD(3) [OF good ns]
    let ?ns = "\<lambda>t. ns\<lparr>ns_entries := (ns_entries ns)(key \<mapsto> e\<lparr>entry_atime := t\<rparr>)\<rparr>"
    have k: "file_name (key @ ns_extension (ns_config ns))" and b: "held os T w (blob_path os ns key)"
      and ex: "ns_exact ns" using n e by (auto simp: ns_good_def)
    have "store_good os T (put_namespace name (?ns t) st) w" for t
      by (rule store_good_touch [OF laws good ns k below_refl])
        (use ns_exact_touch [OF ex e, of t] b e in auto)
    then have "store_good os T (put_namespace name (?ns t) (st\<lparr>last_stamp := t\<rparr>)) w" for t
      by (simp add: store_good_def put_namespace_def)
    then show ?thesis
      using run ns e b by (auto simp: lookup_def next_stamp_def Let_def)
  qed
  show "store_good os T st' w" and "r = Some path \<Longrightarrow> held os T w path" using A by auto
qed

lemma invalidate_good:
  assumes laws: "os_laws os" and good: "store_good os T st w"
    and run: "invalidate_locked os name key (st, w) = Some (st', w')"
  shows "store_good os T st' w'"
proof -
  obtain ns e where ns: "namespaces st name = Some ns" and e: "ns_entries ns key = Some e"
    using run by (auto simp: invalidate_locked_def split: option.splits)
  note n = store_goodD(3) [OF good ns]
  have k: "file_name (key @ ns_extension (ns_config ns))" and ex: "ns_exact ns"
    using n e by (auto simp: ns_good_def)
  let ?w = "snd (os_remove os (blob_path os ns key) w)"
  have "keeps os (\<lambda>q. \<not> below (tmp_dir st) q \<and> \<not> below (blob_path os ns key) q) w ?w"
    by (rule keeps_weaken [OF keeps_remove(1) [OF laws]]) auto
  then have "store_good os T (put_namespace name (drop_entry key (entry_size e) ns) st) ?w"
    by (rule store_good_touch [OF laws good ns k below_refl]) (use ns_exact_drop [OF ex e] in auto)
  then show ?thesis using run ns e by (auto simp: invalidate_locked_def Let_def)
qed

text \<open>A change of the world outside every blob.\<close>

lemma store_good_apart:
  assumes laws: "os_laws os" and good: "store_good os T st w"
    and keeps: "keeps os (\<lambda>q. \<not> below (tmp_dir st) q \<and> \<not> below (path_of (store_base st) [''manifest.json'']) q) w w'"
  shows "store_good os T st w'"
proof (rule store_good_world [OF laws good])
  show "namespaces st ''manifest.json'' = None"
    using store_goodD(3) [OF good, of "''manifest.json''"]
    by (cases "namespaces st ''manifest.json''") (auto simp: ns_good_def cfg_ok_def)
  show "keeps os (outside (store_base st) (tmp_dir st) ''manifest.json'') w w'"
    by (rule keeps_weaken [OF keeps]) (simp add: outside_def)
qed simp

lemma checkpoint_good:
  assumes laws: "os_laws os" and good: "store_good os T st w"
    and run: "checkpoint_locked os (st, w) = (st', w')"
  shows "store_good os T st' w'"
proof -
  note g = store_goodD(1,2) [OF good]
  let ?m = "path_of (store_base st) [''manifest.json'']"
  let ?t = "os_join os (tmp_dir st) ''manifest.json''"
  let ?P = "\<lambda>q. \<not> below (tmp_dir st) q \<and> \<not> below ?m q"
  have m: "os_join os (store_base st) ''manifest.json'' = ?m"
    using join_path_of [OF laws g(1), of "[]"] by (simp add: path_of_def)
  have "?t = path_of (store_base st) ([''tmp'', decimal (unat (self_pid st))] @ [''manifest.json''])"
    unfolding g(2) by (rule join_path_of [OF laws g(1)]) simp_all
  then have t: "below (tmp_dir st) ?t" unfolding g(2) by (simp add: below_path_of)
  have wr: "keeps os ?P v (snd (os_write os ?t json v))" for json v by (rule keeps_additive(5) [OF laws])
  have rn: "keeps os ?P v (snd (os_rename os ?t ?m v))" for v
    by (rule keeps_weaken [OF keeps_rename(1) [OF laws]]) (use t below_trans in blast)
  let ?j = "os_to_json os (manifest_of os st (map_keys os w (namespaces st)) w)"
  show ?thesis
  proof (cases "store_dirty st \<and> ?j \<noteq> None")
    case False
    then show ?thesis using run good by (auto simp: checkpoint_locked_def split: if_splits)
  next
    case True
    then obtain json where j: "?j = Some json" by auto
    obtain r1 w1 where r1: "os_write os ?t json w = (r1, w1)" by fastforce
    obtain r2 w2 where r2: "os_rename os ?t ?m w1 = (r2, w2)" by fastforce
    have k1: "keeps os ?P w w1" using wr [of w json] r1 by simp
    have k2: "keeps os ?P w w2" using keeps_trans [OF k1] rn [of w1] r2 by simp
    have "store_good os T st w1" "store_good os T st w2" using store_good_apart [OF laws good] k1 k2 by blast+
    then show ?thesis
      using run True unfolding checkpoint_locked_def Let_def
      by (auto simp: m j r1 r2 split: option.splits)
  qed
qed

lemma maybe_checkpoint_good:
  "os_laws os \<Longrightarrow> store_good os T st w \<Longrightarrow> maybe_checkpoint os (st, w) = (st', w') \<Longrightarrow> store_good os T st' w'"
  by (auto simp: maybe_checkpoint_def split: if_splits intro: checkpoint_good)

text \<open>Registration: the keys adopted from a listing are those of existing blobs, each once.\<close>

lemma adopt_key_file:
  "adopt_key os ext p = Some k \<Longrightarrow> k @ ext = os_filename os p"
  by (auto simp: adopt_key_def consume_back_def split: if_splits)
    (metis append_take_drop_id)

lemma adopt_blobs_good:
  assumes laws: "os_laws os" and b: "dir_name b"
    and pol: "ns_policy (ns_config ns) \<noteq> Scratch"
  shows "ns_good os T b pid w name ns \<Longrightarrow> distinct ps \<Longrightarrow>
    (\<And>p. p \<in> set ps \<Longrightarrow> file_name (os_filename os p) \<and> p = os_join os (ns_dir ns) (os_filename os p)) \<Longrightarrow>
    (\<And>k. k \<in> dom (ns_entries ns) \<Longrightarrow> blob_path os ns k \<notin> set ps) \<Longrightarrow>
    ns_good os T b pid w name (adopt_blobs os st ps w ns)"
proof (induction ps arbitrary: ns)
  case (Cons p ps)
  show ?case
  proof (cases "\<exists>k s. adopt_key os (ns_extension (ns_config ns)) p = Some k
      \<and> os_status os p w = Inr s \<and> st_type s = Regular_file")
    case False
    then have "adopt_blobs os st (p # ps) w ns = adopt_blobs os st ps w ns"
      by (auto split: option.splits sum.splits)
    then show ?thesis using Cons.IH [OF Cons.prems(1)] Cons.prems by simp
  next
    case True
    then obtain k s where k: "adopt_key os (ns_extension (ns_config ns)) p = Some k"
      and s: "os_status os p w = Inr s" "st_type s = Regular_file" by auto
    define atime where "atime = (case manifest_atimes st (ns_name (ns_config ns) @ ''/'' @ k) of
      Some t \<Rightarrow> t | None \<Rightarrow> st_mtime s)"
    let ?e = "\<lparr>entry_size = st_size s, entry_atime = atime\<rparr>"
    let ?ns = "ns\<lparr>ns_entries := (ns_entries ns)(k \<mapsto> ?e), ns_total := ns_total ns + st_size s\<rparr>"
    have run: "adopt_blobs os st (p # ps) w ns = adopt_blobs os st ps w ?ns"
      using k s by (simp add: atime_def Let_def)
    have p: "blob_path os ns k = p" "file_name (k @ ns_extension (ns_config ns))"
      using adopt_key_file [OF k] Cons.prems(3) [of p] by (simp_all add: blob_path_def)
    have new: "ns_entries ns k = None" using Cons.prems(4) [of k] p(1) by (cases "ns_entries ns k") auto
    have ex: "ns_exact ?ns"
      using Cons.prems(1) new by (simp add: ns_good_def ns_exact_def msum_new)
    have path: "blob_path os ?ns = blob_path os ns" by (simp add: blob_path_def fun_eq_iff)
    have "held os T w p" using s(1) by (simp add: held_def exists_at_def)
    then have "ns_good os T b pid w name ?ns"
      using Cons.prems(1) ex p path by (auto simp: ns_good_def)
    then show ?thesis
      unfolding run
    proof (rule Cons.IH)
      show "blob_path os ?ns j \<notin> set ps" if "j \<in> dom (ns_entries ?ns)" for j
        using that Cons.prems(2) Cons.prems(4) [of j] p(1) unfolding path by (cases "j = k") auto
    qed (use Cons.prems(2,3) in auto)
  qed
qed simp

lemma scratch_dirs_keep:
  assumes laws: "os_laws os" and dir: "dir_name d" and own: "dir_name o'" "below d o'"
  shows "keeps os (\<lambda>q. \<not> below d q) w
    (snd (os_create_dirs os o' (remove_all os o' (sweep_dead_pid_dirs os d pid w))))"
proof (rule keeps_trans [OF keeps_sweep [OF laws dir] keeps_trans [OF _ keeps_additive(1) [OF laws]]])
  show "keeps os (\<lambda>q. \<not> below d q) v (remove_all os o' v)" for v
    by (rule keeps_weaken [OF keeps_remove_all [OF laws own(1)]]) (use below_trans [OF own(2)] in blast)
qed

lemma register_good:
  assumes laws: "os_laws os" and good: "store_good os T st w" and cfg: "cfg_ok cfg"
    and run: "register_namespace os cfg (st, w) = (st', w')"
  shows "store_good os T st' w'"
proof -
  let ?b = "store_base st" and ?n = "ns_name cfg"
  note g = store_goodD(1,2) [OF good]
  have nm: "file_name ?n" using cfg by (simp add: cfg_ok_def)
  let ?dir = "path_of ?b [?n]"
  have dir: "os_join os ?b ?n = ?dir" using join_path_of [OF laws g(1), of "[]"] nm by (simp add: path_of_def)
  have dd: "dir_name ?dir" using dir_name_path_of [OF g(1)] nm by simp
  define w1 where "w1 = snd (os_create_dirs os ?dir w)"
  have k1: "keeps os P w w1" for P unfolding w1_def by (rule keeps_additive(1) [OF laws])
  have good1: "store_good os T st w1" by (rule store_good_apart [OF laws good k1])
  let ?init = "\<lparr>ns_config = cfg, ns_dir = ?dir, ns_entries = Map.empty, ns_total = 0\<rparr>"
  consider (dup) "namespaces st ?n \<noteq> None" | (scratch) "namespaces st ?n = None" "ns_policy cfg = Scratch"
    | (blobs) "namespaces st ?n = None" "ns_policy cfg \<noteq> Scratch" by blast
  then show ?thesis
  proof cases
    case dup
    then show ?thesis
      using run good1 unfolding register_namespace_def by (auto simp: dir w1_def Let_def)
  next
    case scratch
    let ?own = "path_of ?b ([?n] @ [decimal (unat (self_pid st))])"
    have own: "os_join os ?dir (decimal (unat (self_pid st))) = ?own"
      by (rule join_path_of [OF laws g(1)]) (use nm in simp_all)
    have od: "dir_name ?own" by (rule dir_name_path_of [OF g(1)]) (use nm in simp)
    have ob: "below ?dir ?own" using nm by (simp add: below_path_of)
    define w3 where "w3 = snd (os_create_dirs os ?own (remove_all os ?own
      (sweep_dead_pid_dirs os ?dir (self_pid st) w1)))"
    have k3: "keeps os (outside ?b (tmp_dir st) ?n) w1 w3"
      unfolding w3_def using scratch_dirs_keep [OF laws dd od ob] by (simp add: outside_def keeps_def)
    have "ns_good os T ?b (self_pid st) w3 ?n (?init\<lparr>ns_dir := ?own\<rparr>)"
      using cfg scratch by (simp add: ns_good_def place_def ns_exact_def)
    then have "store_good os T (put_namespace ?n (?init\<lparr>ns_dir := ?own\<rparr>) st) w3"
      by (rule store_good_put [OF laws good1 nm _ k3])
    moreover have "st' = put_namespace ?n (?init\<lparr>ns_dir := ?own\<rparr>) st \<and> w' = w3"
      using run scratch unfolding register_namespace_def
      by (simp add: dir own w1_def [symmetric] w3_def Let_def)
    ultimately show ?thesis by simp
  next
    case blobs
    let ?ps = "fst (os_list os ?dir w1)"
    let ?ns = "adopt_blobs os st ?ps w1 ?init"
    obtain ns1 d w2 where ev: "evict_locked os [] (?ns, store_dirty st, w1) = (ns1, d, w2)"
      by (metis prod_cases3)
    have "ns_good os T ?b (self_pid st) w1 ?n ?init"
      using cfg blobs by (simp add: ns_good_def place_def ns_exact_def)
    then have "ns_good os T ?b (self_pid st) w1 ?n ?ns"
      by (rule adopt_blobs_good [OF laws g(1), rotated])
        (use blobs os_lawsD(2) [OF laws] in \<open>auto simp: list_law_def\<close>)
    then have "store_good os T (put_namespace ?n ?ns st) w1"
      by (rule store_good_put [OF laws good1 nm]) (rule keeps_refl)
    then have "store_good os T (put_namespace ?n ns1 st) w2"
      by (rule store_good_evict [OF laws _ nm ev])
    then have "store_good os T (put_namespace ?n ns1 (st\<lparr>store_dirty := d\<rparr>)) w2"
      by (simp add: store_good_def put_namespace_def)
    moreover have "st' = put_namespace ?n ns1 (st\<lparr>store_dirty := d\<rparr>) \<and> w' = w2"
      using run blobs unfolding register_namespace_def
      by (simp add: dir w1_def [symmetric] ev Let_def)
    ultimately show ?thesis by simp
  qed
qed

section \<open>The transition system\<close>

text \<open>The point a \<open>commit\<close> has reached: after its first lock, after the flush, before its checkpoint.\<close>

datatype commit_point =
  Checked pending_entry file_status bool
| Flushed pending_entry file_status
| Published

record 'w sys =
  sys_store :: store
  sys_world :: 'w
  sys_jobs :: "nat \<rightharpoonup> commit_point"
  sys_taken :: "string set"

definition missing :: "'w os \<Rightarrow> 'w \<Rightarrow> string set \<Rightarrow> string set" where
  "missing os w T = {q \<in> T. \<not> exists_at os w q}"

text \<open>
  Other processes work on the same directories (another instance evicts, invalidates and commits
  there): between two critical sections the world may become any other. \<open>sys_taken\<close> keeps what they
  removed: the paths that existed when somebody else changed the world, did not exist afterwards, and
  have not come back since.
\<close>

inductive store_step :: "'w os \<Rightarrow> 'w sys \<Rightarrow> 'w sys \<Rightarrow> bool" for os where
  step_register: "cfg_ok cfg \<Longrightarrow> register_namespace os cfg (sys_store s, sys_world s) = (st, w) \<Longrightarrow>
    store_step os s (s\<lparr>sys_store := st, sys_world := w, sys_taken := missing os w (sys_taken s)\<rparr>)"
| step_lookup: "lookup os name key (sys_store s, sys_world s) = (r, st) \<Longrightarrow>
    store_step os s (s\<lparr>sys_store := st\<rparr>)"
| step_begin: "begin_store os name key (sys_store s) = (p, st) \<Longrightarrow> store_step os s (s\<lparr>sys_store := st\<rparr>)"
| step_check: "pending_ok (sys_store s) p \<Longrightarrow> sys_jobs s j = None \<Longrightarrow>
    commit_check os p (sys_store s, sys_world s) = Inr (status, durable) \<Longrightarrow>
    store_step os s (s\<lparr>sys_jobs := (sys_jobs s)(j \<mapsto> Checked p status durable)\<rparr>)"
| step_flush: "sys_jobs s j = Some (Checked p status durable) \<Longrightarrow>
    commit_sync os p durable (sys_world s) = (r, w) \<Longrightarrow>
    store_step os s (s\<lparr>sys_world := w, sys_jobs := (sys_jobs s)
      (j := (if r = None then Some (Flushed p status) else None))\<rparr>)"
| step_publish: "sys_jobs s j = Some (Flushed p status) \<Longrightarrow>
    commit_publish os p status (sys_store s, sys_world s) = (r, st, w) \<Longrightarrow>
    store_step os s (s\<lparr>sys_store := st, sys_world := w, sys_jobs := (sys_jobs s)
      (j := (case r of Inl _ \<Rightarrow> None | Inr _ \<Rightarrow> Some Published)), sys_taken := missing os w (sys_taken s)\<rparr>)"
| step_finish: "sys_jobs s j = Some Published \<Longrightarrow>
    maybe_checkpoint os (sys_store s, sys_world s) = (st, w) \<Longrightarrow>
    store_step os s (s\<lparr>sys_store := st, sys_world := w, sys_jobs := (sys_jobs s)(j := None)\<rparr>)"
| step_invalidate: "invalidate_locked os name key (sys_store s, sys_world s) = Some (st, w) \<Longrightarrow>
    sys_jobs s j = None \<Longrightarrow>
    store_step os s (s\<lparr>sys_store := st, sys_world := w, sys_jobs := (sys_jobs s)(j \<mapsto> Published)\<rparr>)"
| step_abort: "pending_ok (sys_store s) p \<Longrightarrow>
    store_step os s (s\<lparr>sys_world := abort_store os p (sys_world s)\<rparr>)"
| step_checkpoint: "checkpoint_locked os (sys_store s, sys_world s) = (st, w) \<Longrightarrow>
    store_step os s (s\<lparr>sys_store := st, sys_world := w\<rparr>)"
| step_environment: "store_step os s (s\<lparr>sys_world := w,
    sys_taken := missing os w (sys_taken s \<union> {q. exists_at os (sys_world s) q})\<rparr>)"

inductive store_opened :: "'w os \<Rightarrow> 'w sys \<Rightarrow> bool" for os where
  opened: "root \<noteq> [] \<Longrightarrow> open_store os root version w = (Inr st, w') \<Longrightarrow>
    store_opened os \<lparr>sys_store = st, sys_world = w', sys_jobs = Map.empty, sys_taken = {}\<rparr>"

abbreviation store_reachable :: "'w os \<Rightarrow> 'w sys \<Rightarrow> bool" where
  "store_reachable os \<equiv> reached (store_opened os) (store_step os)"

inductive_cases store_stepE: "store_step os s s'"

section \<open>The invariant\<close>

definition job_ok :: "store \<Rightarrow> commit_point \<Rightarrow> bool" where
  "job_ok st job = (case job of Checked p _ _ \<Rightarrow> pending_ok st p | Flushed p _ \<Rightarrow> pending_ok st p
     | Published \<Rightarrow> True)"

definition sys_good :: "'w os \<Rightarrow> 'w sys \<Rightarrow> bool" where
  "sys_good os s \<longleftrightarrow> store_good os (sys_taken s) (sys_store s) (sys_world s)
     \<and> (\<forall>j job. sys_jobs s j = Some job \<longrightarrow> job_ok (sys_store s) job)"

text \<open>No operation moves the temporary directory, so the pending entries stay where they are.\<close>

lemma put_namespace_tmp [simp]: "tmp_dir (put_namespace n ns st) = tmp_dir st"
  by (simp add: put_namespace_def)

lemma note_change_tmp [simp]: "tmp_dir (note_change ns st) = tmp_dir st"
  by (simp add: note_change_def)

lemma register_tmp: "register_namespace os cfg (st, w) = (st', w') \<Longrightarrow> tmp_dir st' = tmp_dir st"
  by (auto simp: register_namespace_def Let_def split: option.splits if_splits prod.splits)

lemma lookup_tmp: "lookup os name key (st, w) = (r, st') \<Longrightarrow> tmp_dir st' = tmp_dir st"
  by (auto simp: lookup_def next_stamp_def Let_def split: option.splits)

lemma begin_tmp: "begin_store os name key st = (p, st') \<Longrightarrow> tmp_dir st' = tmp_dir st"
  by (auto simp: begin_store_def split: option.splits)

lemma publish_tmp:
  assumes "commit_publish os p status (st, w) = (r, st', w')"
  shows "tmp_dir st' = tmp_dir st"
proof (cases "namespaces st (pending_ns p)")
  case (Some ns)
  obtain res w1 where "publish_blob os (pending_tmp p) (blob_path os ns (pending_key p)) status w = (res, w1)"
    by fastforce
  then show ?thesis
    using assms Some
    by (auto simp: commit_publish_def next_stamp_def Let_def split: sum.splits option.splits if_splits prod.splits)
qed (use assms in \<open>simp add: commit_publish_def\<close>)

lemma invalidate_tmp:
  "invalidate_locked os name key (st, w) = Some (st', w') \<Longrightarrow> tmp_dir st' = tmp_dir st"
  by (auto simp: invalidate_locked_def Let_def split: option.splits)

lemma checkpoint_tmp: "checkpoint_locked os (st, w) = (st', w') \<Longrightarrow> tmp_dir st' = tmp_dir st"
  by (auto simp: checkpoint_locked_def Let_def split: if_splits option.splits prod.splits)

lemma maybe_checkpoint_tmp: "maybe_checkpoint os (st, w) = (st', w') \<Longrightarrow> tmp_dir st' = tmp_dir st"
  by (auto simp: maybe_checkpoint_def checkpoint_tmp split: if_splits)

lemmas same_tmp = register_tmp lookup_tmp begin_tmp publish_tmp invalidate_tmp checkpoint_tmp
  maybe_checkpoint_tmp

lemma job_ok_tmp: "tmp_dir st' = tmp_dir st \<Longrightarrow> job_ok st' = job_ok st"
  by (auto simp: job_ok_def pending_ok_def fun_eq_iff split: commit_point.splits)

lemma store_good_tmp_only:
  assumes "os_laws os" and "store_good os T st w" and "keeps os (\<lambda>q. \<not> below (tmp_dir st) q) w w'"
  shows "store_good os T st w'"
  by (rule store_good_apart [OF assms(1,2) keeps_weaken [OF assms(3)]]) simp

lemma keeps_pending:
  assumes "os_laws os" and "pending_ok st p"
  shows "keeps os (\<lambda>q. \<not> below (tmp_dir st) q) w (snd (os_remove os (pending_tmp p) w))"
proof (rule keeps_weaken [OF keeps_remove_below [OF assms(1)]])
  show "\<not> below (pending_tmp p) q" if "\<not> below (tmp_dir st) q" for q
    using that assms(2) below_trans by (auto simp: pending_ok_def)
qed

lemma keeps_commit_sync:
  assumes laws: "os_laws os" and p: "pending_ok st p" and run: "commit_sync os p d w = (r, w')"
  shows "keeps os (\<lambda>q. \<not> below (tmp_dir st) q) w w'"
proof -
  obtain r1 w1 where s: "sync_file os (pending_tmp p) w = (r1, w1)" by fastforce
  have k: "keeps os (\<lambda>q. \<not> below (tmp_dir st) q) w w1"
    using keeps_sync_file [OF laws, of _ w "pending_tmp p"] s by (metis snd_conv)
  then have "keeps os (\<lambda>q. \<not> below (tmp_dir st) q) w (snd (os_remove os (pending_tmp p) w1))"
    by (rule keeps_trans) (rule keeps_pending [OF laws p])
  then show ?thesis
    using run k s by (auto simp: commit_sync_def split: if_splits option.splits)
qed

lemma load_entries_same:
  "store_base (fold load_entry es st) = store_base st \<and> self_pid (fold load_entry es st) = self_pid st
   \<and> namespaces (fold load_entry es st) = namespaces st"
  by (induction es arbitrary: st) (auto simp: load_entry_def)

lemma load_manifest_same:
  "store_base (load_manifest os w st) = store_base st" "self_pid (load_manifest os w st) = self_pid st"
  "namespaces (load_manifest os w st) = namespaces st"
  by (auto simp: load_manifest_def load_entries_same split: sum.splits option.splits)

lemma open_good:
  assumes laws: "os_laws os" and root: "root \<noteq> []" and run: "open_store os root version w = (Inr st, w')"
  shows "store_good os T st w'"
proof -
  let ?parent = "os_join os root ''cache''"
  let ?v = "''v'' @ decimal (unat version)"
  have v: "file_name ?v" using file_name_decimal [of "unat version"] by (simp add: file_name_def)
  have "last ?parent \<noteq> CHR ''/''" "?parent \<noteq> []"
    using os_lawsD(1) [OF laws] root by (simp_all add: join_law_def)
  then have base: "os_join os ?parent ?v = ?parent @ CHR ''/'' # ?v"
    by (intro join_dir [OF laws _ v]) (simp add: dir_name_def)
  have b: "dir_name (?parent @ CHR ''/'' # ?v)" using file_name_last [OF v] by (simp add: dir_name_def)
  have tmp: "os_join os (os_join os (?parent @ CHR ''/'' # ?v) ''tmp'') (decimal n) =
      path_of (?parent @ CHR ''/'' # ?v) [''tmp'', decimal n]" for n
    using join_path_of [OF laws b, of "[]" "''tmp''"] join_path_of [OF laws b, of "[''tmp'']" "decimal n"]
    by (simp add: path_of_def)
  show ?thesis
    using run tmp b base
    by (auto simp: open_store_def Let_def store_good_def load_manifest_same empty_store_def
        split: option.splits prod.splits)
qed

lemma store_good_other:
  assumes "store_good os T st w" and "\<And>q. held os T w q \<Longrightarrow> held os T' w' q"
  shows "store_good os T' st w'"
  using assms by (auto simp: store_good_def ns_good_def)

lemma store_good_missing: "store_good os T st w \<Longrightarrow> store_good os (missing os w T) st w"
  by (erule store_good_other) (auto simp: held_def missing_def)

lemma sys_good_step:
  assumes laws: "os_laws os" and good: "sys_good os s" and step: "store_step os s s'"
  shows "sys_good os s'"
proof -
  have g: "store_good os (sys_taken s) (sys_store s) (sys_world s)"
    and jobs: "\<And>j job. sys_jobs s j = Some job \<Longrightarrow> job_ok (sys_store s) job"
    using good by (auto simp: sys_good_def)
  have moved: "sys_good os s'" if "store_good os (sys_taken s') (sys_store s') (sys_world s')"
    and "tmp_dir (sys_store s') = tmp_dir (sys_store s)"
    and "\<And>j job. sys_jobs s' j = Some job \<Longrightarrow> job_ok (sys_store s) job"
    using that job_ok_tmp [OF that(2)] by (auto simp: sys_good_def)
  from step show ?thesis
  proof cases
    case (step_register cfg st w)
    then show ?thesis using store_good_missing [OF register_good [OF laws g]] jobs by (intro moved) (auto simp: same_tmp)
  next
    case (step_lookup name key r st)
    then show ?thesis using lookup_good(1) [OF laws g] jobs by (intro moved) (auto simp: same_tmp)
  next
    case (step_begin name key p st)
    then have "store_good os (sys_taken s) st (sys_world s)"
      using g by (auto simp: begin_store_def split: option.splits)
    then show ?thesis using step_begin jobs by (intro moved) (auto simp: same_tmp)
  next
    case (step_check p j status durable)
    then show ?thesis using g jobs by (intro moved) (auto simp: job_ok_def split: if_splits)
  next
    case (step_flush j p status durable r w)
    then have p: "pending_ok (sys_store s) p" using jobs [of j] by (simp add: job_ok_def)
    have "store_good os (sys_taken s) (sys_store s) w"
      by (rule store_good_tmp_only [OF laws g keeps_commit_sync [OF laws p step_flush(3)]])
    then show ?thesis
      using step_flush p jobs by (intro moved) (auto simp: job_ok_def split: if_splits)
  next
    case (step_publish j p status r st w)
    then have "pending_ok (sys_store s) p" using jobs [of j] by (simp add: job_ok_def)
    then show ?thesis
      using step_publish store_good_missing [OF commit_publish_good [OF laws g]] jobs publish_tmp [OF step_publish(3)]
      by (intro moved) (auto simp: job_ok_def split: if_splits sum.splits)
  next
    case (step_finish j st w)
    then show ?thesis
      using maybe_checkpoint_good [OF laws g] jobs by (intro moved) (auto simp: same_tmp split: if_splits)
  next
    case (step_invalidate name key st w j)
    then show ?thesis
      using invalidate_good [OF laws g] jobs
      by (intro moved) (auto simp: same_tmp job_ok_def split: if_splits)
  next
    case (step_abort p)
    have "store_good os (sys_taken s) (sys_store s) (abort_store os p (sys_world s))"
      by (rule store_good_tmp_only [OF laws g])
        (use keeps_pending [OF laws step_abort(2)] in \<open>simp add: abort_store_def\<close>)
    then show ?thesis using step_abort jobs by (intro moved) auto
  next
    case (step_checkpoint st w)
    then show ?thesis using checkpoint_good [OF laws g] jobs by (intro moved) (auto simp: same_tmp)
  next
    case (step_environment w)
    have "store_good os (missing os w (sys_taken s \<union> {q. exists_at os (sys_world s) q})) (sys_store s) w"
      by (rule store_good_other [OF g]) (auto simp: held_def missing_def)
    then show ?thesis using step_environment jobs by (intro moved) auto
  qed
qed

interpretation store: safe_system "store_opened os" "store_step os" "\<lambda>s. os_laws os \<longrightarrow> sys_good os s" for os
proof
  show "os_laws os \<longrightarrow> sys_good os s" if "store_opened os s" for s
    using that by cases (auto simp: sys_good_def dest: open_good [rotated])
qed (use sys_good_step in blast)

section \<open>Properties\<close>

text \<open>
  C12. In every reachable state, between any two critical sections, the running total of every
  namespace is the sum of the sizes of its entries, in the 64-bit arithmetic of the code.
\<close>

theorem cache_totals_exact:
  assumes "os_laws os" and "store_reachable os s"
  shows "store_exact (sys_store s)"
  using store.reached_good [OF assms(2)] assms(1) by (auto simp: sys_good_def store_good_def store_exact_def ns_good_def)


text \<open>The key of a commit survives the eviction it triggers.\<close>

lemma evict_loop_other:
  "evict_loop os cs (ns, d, w) = (ns', d', w') \<Longrightarrow> k \<notin> fst ` set cs \<Longrightarrow>
    ns_entries ns' k = ns_entries ns k \<and> ns_config ns' = ns_config ns \<and> ns_dir ns' = ns_dir ns"
  by (induction cs arbitrary: ns d w) (auto split: if_splits prod.splits option.splits)

lemma evict_locked_keep:
  assumes "evict_locked os k (ns, d, w) = (ns', d', w')"
  shows "ns_entries ns' k = ns_entries ns k \<and> ns_config ns' = ns_config ns \<and> ns_dir ns' = ns_dir ns"
proof -
  have "k \<notin> fst ` set (eviction_candidates os ns k w)" by (auto simp: eviction_candidates_def)
  then show ?thesis
    using assms evict_loop_other by (fastforce simp: evict_locked_def split: if_splits)
qed

lemma checkpoint_namespaces:
  "checkpoint_locked os (st, w) = (st', w') \<Longrightarrow> namespaces st' = namespaces st"
  by (auto simp: checkpoint_locked_def Let_def split: if_splits option.splits prod.splits)

lemma maybe_checkpoint_namespaces: "namespaces (fst (maybe_checkpoint os s)) = namespaces (fst s)"
proof (cases s)
  case (Pair st w)
  obtain st' w' where "checkpoint_locked os (st, w) = (st', w')" by fastforce
  then show ?thesis using Pair checkpoint_namespaces [of os st w] by (simp add: maybe_checkpoint_def)
qed

lemma note_change_namespaces [simp]: "namespaces (note_change ns st) = namespaces st"
  by (simp add: note_change_def)

lemma commit_publish_entry:
  assumes "commit_publish os p status (st, w) = (Inr path, st', w')"
  obtains ns where "namespaces st' (pending_ns p) = Some ns" and "pending_key p \<in> dom (ns_entries ns)"
    and "path = blob_path os ns (pending_key p)"
proof -
  obtain ns where ns: "namespaces st (pending_ns p) = Some ns"
    using assms by (auto simp: commit_publish_def split: option.splits)
  let ?k = "pending_key p"
  obtain res w1 where pub: "publish_blob os (pending_tmp p) (blob_path os ns ?k) status w = (res, w1)"
    by fastforce
  obtain status' where res: "res = Inr status'"
    using assms by (cases res) (auto simp: commit_publish_def ns pub split: option.splits if_splits)
  obtain st1 stamp where stamp: "next_stamp os w1 st = (st1, stamp)" by fastforce
  let ?ns = "account_entry ?k status' stamp ns"
  obtain ns1 d w2 where ev: "(if ns_policy (ns_config ns) = LRU
      then evict_locked os ?k (?ns, store_dirty st1, w1) else (?ns, store_dirty st1, w1)) = (ns1, d, w2)"
    by (metis prod_cases3)
  then have ns1: "ns_entries ns1 ?k = ns_entries ?ns ?k" "ns_config ns1 = ns_config ns" "ns_dir ns1 = ns_dir ns"
    using evict_locked_keep [of os ?k ?ns "store_dirty st1" w1 ns1 d w2] by (auto split: if_splits)
  have "st' = note_change ns1 (put_namespace (pending_ns p) ns1 (st1\<lparr>store_dirty := d\<rparr>))"
    and path: "path = blob_path os ns ?k"
    using assms ev by (simp_all add: commit_publish_def ns pub res stamp)
  then have "namespaces st' (pending_ns p) = Some ns1" by (simp add: put_namespace_def)
  moreover have "?k \<in> dom (ns_entries ns1)"
    using ns1(1) by (auto simp: account_entry_def Let_def)
  moreover have "path = blob_path os ns1 ?k" using path ns1 by (simp add: blob_path_def)
  ultimately show ?thesis by (rule that)
qed

text \<open>
  After a successful commit a lookup of the key gives exactly the path the commit returned, also
  when the commit evicted other entries and when it wrote the manifest.
\<close>

theorem commit_then_lookup:
  assumes "commit os p (st, w) = (Inr path, st', w')"
  shows "fst (lookup os (pending_ns p) (pending_key p) (st', w')) = Some path"
proof -
  obtain status d where chk: "commit_check os p (st, w) = Inr (status, d)"
    using assms by (cases "commit_check os p (st, w)") (auto simp: commit_def)
  obtain w1 where sync: "commit_sync os p d w = (None, w1)"
    using assms chk by (cases "commit_sync os p d w") (auto simp: commit_def split: option.splits)
  obtain st2 w2 where pub: "commit_publish os p status (st, w1) = (Inr path, st2, w2)"
    using assms chk sync by (cases "commit_publish os p status (st, w1)") (auto simp: commit_def split: sum.splits)
  have st': "(st', w') = maybe_checkpoint os (st2, w2)"
    using assms chk sync pub by (simp add: commit_def)
  obtain ns where ns: "namespaces st2 (pending_ns p) = Some ns" "pending_key p \<in> dom (ns_entries ns)"
    "path = blob_path os ns (pending_key p)"
    using commit_publish_entry [OF pub] .
  have "namespaces st' = namespaces st2"
    using maybe_checkpoint_namespaces [of os "(st2, w2)"] st' by (metis fst_conv)
  then show ?thesis using ns by (auto simp: lookup_def next_stamp_def Let_def)
qed

section \<open>The in-memory file system keeps the promises\<close>

lemma mem_exists: "exists_at mem_os w p \<longleftrightarrow> p \<in> fst ` set w"
proof (cases "map_of w p")
  case None
  then show ?thesis by (auto simp: exists_at_def mem_os_def) (force simp: map_of_eq_None_iff)
next
  case (Some c)
  then have "p \<in> fst ` set w" by (force dest: map_of_SomeD)
  then show ?thesis using Some by (simp add: exists_at_def mem_os_def)
qed

lemma mem_filename_slash: "CHR ''/'' \<notin> set (mem_filename p)"
  by (auto simp: mem_filename_def dest: set_takeWhileD)

lemma os_laws_mem: "os_laws mem_os"
proof -
  have "join_law mem_os" by (simp add: join_law_def mem_os_def mem_join_def)
  moreover have "list_law mem_os"
    using mem_filename_slash by (auto simp: list_law_def mem_os_def mem_list_def file_name_def)
  moreover have "remove_law mem_os"
    unfolding remove_law_def keeps_def mem_exists by (force simp: mem_os_def)
  moreover have "rename_law mem_os"
    unfolding rename_law_def keeps_def mem_exists
    by (fastforce simp: mem_os_def split: option.splits)
  moreover have "additive_law mem_os"
    unfolding additive_law_def keeps_def mem_exists by (force simp: mem_os_def)
  ultimately show ?thesis using order_laws_mem by (simp add: os_laws_def)
qed

text \<open>A store opened over a directory that holds one blob, with the namespace of that blob registered.\<close>

definition demo_files :: files where
  "demo_files = [(''r/cache/v1/pch/k.pch'', ''data''), (''r/cache/v0/old'', ''x'')]"

definition demo_cfg :: cache_namespace where
  "demo_cfg = \<lparr>ns_name = ''pch'', ns_extension = ''.pch'', ns_policy = LRU, ns_max_bytes = 100\<rparr>"

definition demo_opened :: "(io_error + store) \<times> files" where
  "demo_opened = open_store mem_os ''r'' 1 demo_files"

definition demo_registered :: "store \<times> files" where
  "demo_registered = register_namespace mem_os demo_cfg (projr (fst demo_opened), snd demo_opened)"

definition demo_sys :: "files sys" where
  "demo_sys = \<lparr>sys_store = fst demo_registered, sys_world = snd demo_registered, sys_jobs = Map.empty, sys_taken = {}\<rparr>"

lemma demo_opens: "\<not> isl (fst demo_opened)"
  by code_simp

lemma demo_lookup:
  "fst (lookup mem_os ''pch'' ''k'' (fst demo_registered, snd demo_registered)) = Some ''r/cache/v1/pch/k.pch''"
  by code_simp

lemma demo_reachable: "store_reachable mem_os demo_sys"
proof -
  let ?st = "projr (fst demo_opened)" and ?w = "snd demo_opened"
  let ?s = "\<lparr>sys_store = ?st, sys_world = ?w, sys_jobs = Map.empty, sys_taken = {}\<rparr> :: files sys"
  have "open_store mem_os ''r'' 1 demo_files = (Inr ?st, ?w)"
    using demo_opens unfolding demo_opened_def by (metis prod.collapse sum.collapse(2))
  then have "store_reachable mem_os ?s" by (rule reached_init [where init = "store_opened mem_os", OF opened [rotated]]) simp
  moreover have "store_step mem_os ?s (?s\<lparr>sys_store := fst demo_registered, sys_world := snd demo_registered,
      sys_taken := missing mem_os (snd demo_registered) (sys_taken ?s)\<rparr>)"
    by (rule step_register [of demo_cfg]) (simp_all add: cfg_ok_def demo_cfg_def file_name_def demo_registered_def)
  ultimately have "store_reachable mem_os (?s\<lparr>sys_store := fst demo_registered,
      sys_world := snd demo_registered, sys_taken := missing mem_os (snd demo_registered) (sys_taken ?s)\<rparr>)"
    by (rule reached_step)
  then show ?thesis by (simp add: demo_sys_def missing_def)
qed

theorem cache_totals_exact_witness:
  "store_exact (sys_store demo_sys)"
  by (rule cache_totals_exact [OF os_laws_mem demo_reachable])


definition demo_committed :: "(io_error + string) \<times> store \<times> files" where
  "demo_committed = commit mem_os \<lparr>pending_ns = ''pch'', pending_key = ''n'', pending_tmp = ''r/cache/v1/tmp/7/0.pch''\<rparr>
     (fst demo_registered, (''r/cache/v1/tmp/7/0.pch'', ''new'') # snd demo_registered)"

lemma demo_commit_ok: "fst demo_committed = Inr ''r/cache/v1/pch/n.pch''"
  by code_simp

theorem commit_then_lookup_witness:
  "fst (lookup mem_os ''pch'' ''n'' (snd demo_committed)) = Some ''r/cache/v1/pch/n.pch''"
proof -
  let ?p = "\<lparr>pending_ns = ''pch'', pending_key = ''n'', pending_tmp = ''r/cache/v1/tmp/7/0.pch''\<rparr>"
  have "commit mem_os ?p (fst demo_registered, (''r/cache/v1/tmp/7/0.pch'', ''new'') # snd demo_registered) =
      (Inr ''r/cache/v1/pch/n.pch'', fst (snd demo_committed), snd (snd demo_committed))"
    using demo_commit_ok unfolding demo_committed_def by (metis prod.collapse)
  from commit_then_lookup [OF this] show ?thesis by simp
qed

end
