(* ===== verification/Cache_Store_Manifest.thy ===== *)
theory Cache_Store_Manifest
  imports Cache_Store_Steps
begin

text \<open>
  The manifest across a restart: what \<open>checkpoint\<close> writes, \<open>open\<close> reads back, so the recency order of
  the entries survives.
\<close>

lemma manifest_of_set:
  assumes laws: "order_laws os"
    and fin: "\<And>n ns. namespaces st n = Some ns \<Longrightarrow> finite (dom (ns_entries ns))"
  shows "e \<in> set (manifest_of os st names w) \<longleftrightarrow>
    me_ns e \<in> set names \<and> (\<exists>ns f. namespaces st (me_ns e) = Some ns \<and> ns_policy (ns_config ns) \<noteq> Scratch
      \<and> ns_entries ns (me_key e) = Some f \<and> me_atime e = entry_atime f)"
proof (induction names)
  case (Cons n names)
  show ?case
  proof (cases "namespaces st n")
    case None
    then show ?thesis using Cons.IH by auto
  next
    case (Some ns)
    have "k \<in> set (map_keys os w (ns_entries ns)) \<longleftrightarrow> k \<in> dom (ns_entries ns)" for k
      using map_keys_laws(1) [OF laws fin [OF Some]] by blast
    then have "(\<exists>k \<in> set (map_keys os w (ns_entries ns)).
        e = \<lparr>me_ns = n, me_key = k, me_atime = entry_atime (the (ns_entries ns k))\<rparr>) \<longleftrightarrow>
      me_ns e = n \<and> (\<exists>f. ns_entries ns (me_key e) = Some f \<and> me_atime e = entry_atime f)"
      by (cases e) fastforce
    then show ?thesis using Cons.IH Some by auto
  qed
qed simp

lemma split_slash:
  assumes "CHR ''/'' \<notin> set a" and "CHR ''/'' \<notin> set b" and "a @ ''/'' @ k = b @ ''/'' @ j"
  shows "a = b \<and> k = j"
  using assms
proof (induction a arbitrary: b)
  case Nil
  then show ?case by (cases b) auto
next
  case (Cons x a)
  then show ?case by (cases b) auto
qed

lemma load_entry_atimes [simp]:
  "manifest_atimes (load_entry e st) = (manifest_atimes st)(me_ns e @ ''/'' @ me_key e \<mapsto> me_atime e)"
  by (simp add: load_entry_def)

text \<open>The map \<open>open\<close> builds, for entries whose namespaces are file names and that agree on a key.\<close>

lemma fold_load_entries:
  assumes "\<And>e. e \<in> set es \<Longrightarrow> CHR ''/'' \<notin> set (me_ns e)"
    and "\<And>d e. d \<in> set es \<Longrightarrow> e \<in> set es \<Longrightarrow> me_ns d = me_ns e \<Longrightarrow> me_key d = me_key e \<Longrightarrow> d = e"
    and n: "CHR ''/'' \<notin> set n" and empty: "manifest_atimes st = Map.empty"
  shows "manifest_atimes (fold load_entry es st) (n @ ''/'' @ k) = Some t \<longleftrightarrow>
    \<lparr>me_ns = n, me_key = k, me_atime = t\<rparr> \<in> set es"
  using assms(1,2)
proof (induction es rule: rev_induct)
  case (snoc d es)
  let ?e = "\<lparr>me_ns = n, me_key = k, me_atime = t\<rparr>"
  have IH: "manifest_atimes (fold load_entry es st) (n @ ''/'' @ k) = Some t \<longleftrightarrow> ?e \<in> set es"
    by (rule snoc.IH) (use snoc.prems in auto)
  have d: "CHR ''/'' \<notin> set (me_ns d)" using snoc.prems(1) by simp
  show ?case
  proof (cases "me_ns d = n \<and> me_key d = k")
    case True
    have "?e = d" if "?e \<in> set es" using snoc.prems(2) [of ?e d] True that by simp
    moreover have "?e = d \<longleftrightarrow> me_atime d = t" using True by (cases d) auto
    ultimately show ?thesis using True by auto
  next
    case False
    then have "me_ns d @ ''/'' @ me_key d \<noteq> n @ ''/'' @ k" using split_slash [OF d n] by blast
    moreover have "?e \<noteq> d" using False by (cases d) auto
    ultimately show ?thesis using IH by auto
  qed
qed (simp add: empty)

section \<open>The round trip\<close>

text \<open>The codec reads what it wrote; a file that was written and renamed has the written content.\<close>

definition manifest_laws :: "'w os \<Rightarrow> bool" where
  "manifest_laws os \<longleftrightarrow>
     (\<forall>es json. os_to_json os es = Some json \<longrightarrow> os_from_json os json = Some es)
     \<and> (\<forall>a b c w w1 w2. os_write os a c w = (None, w1) \<longrightarrow> os_rename os a b w1 = (None, w2) \<longrightarrow>
          os_buffer os b w2 = Inr c)"

lemma checkpoint_writes:
  assumes laws: "manifest_laws os" and run: "checkpoint_locked os (st, w) = (st', w')"
    and dirty: "store_dirty st" "\<not> store_dirty st'" and base: "store_base st0 = store_base st"
  shows "load_manifest os w' st0 = fold load_entry (manifest_of os st (map_keys os w (namespaces st)) w) st0"
proof -
  let ?es = "manifest_of os st (map_keys os w (namespaces st)) w"
  let ?a = "os_join os (tmp_dir st) ''manifest.json''" and ?b = "os_join os (store_base st) ''manifest.json''"
  obtain json where j: "os_to_json os ?es = Some json"
    using run dirty by (cases "os_to_json os ?es") (auto simp: checkpoint_locked_def)
  obtain w1 where w1: "os_write os ?a json w = (None, w1)"
    using run dirty j by (cases "os_write os ?a json w") (auto simp: checkpoint_locked_def Let_def split: option.splits)
  have "os_rename os ?a ?b w1 = (None, w')"
    using run dirty j w1 by (cases "os_rename os ?a ?b w1") (auto simp: checkpoint_locked_def Let_def split: option.splits)
  then have "os_buffer os ?b w' = Inr json" "os_from_json os json = Some ?es"
    using laws w1 j unfolding manifest_laws_def by blast+
  then show ?thesis by (simp add: load_manifest_def base)
qed

text \<open>
  C31. A checkpoint that succeeds carries the recency of every entry over a restart: an instance that
  then opens the same directory knows for a namespace and a key exactly the last access time the entry
  had, for every entry of every LRU and Persistent namespace, and nothing for anything else.
\<close>

theorem checkpoint_roundtrip:
  assumes laws: "manifest_laws os" "order_laws os" and ex: "store_exact st" and fin: "finite (dom (namespaces st))"
    and names: "\<And>n. n \<in> dom (namespaces st) \<Longrightarrow> file_name n" and n: "file_name n"
    and run: "checkpoint_locked os (st, w) = (st', w')" and dirty: "store_dirty st" "\<not> store_dirty st'"
    and new: "store_base st0 = store_base st" "manifest_atimes st0 = Map.empty"
  shows "manifest_atimes (load_manifest os w' st0) (n @ ''/'' @ k) = Some t \<longleftrightarrow>
    (\<exists>ns e. namespaces st n = Some ns \<and> ns_policy (ns_config ns) \<noteq> Scratch
       \<and> ns_entries ns k = Some e \<and> entry_atime e = t)"
proof -
  let ?es = "manifest_of os st (map_keys os w (namespaces st)) w"
  have mem: "e \<in> set ?es \<longleftrightarrow> (\<exists>ns f. namespaces st (me_ns e) = Some ns \<and> ns_policy (ns_config ns) \<noteq> Scratch
      \<and> ns_entries ns (me_key e) = Some f \<and> me_atime e = entry_atime f)" for e
    using manifest_of_set [OF laws(2), of st e "map_keys os w (namespaces st)" w]
      store_exactD [OF ex] map_keys_laws(1) [OF laws(2) fin] by (fastforce simp: ns_exact_def)
  have "manifest_atimes (fold load_entry ?es st0) (n @ ''/'' @ k) = Some t \<longleftrightarrow>
      \<lparr>me_ns = n, me_key = k, me_atime = t\<rparr> \<in> set ?es"
  proof (rule fold_load_entries)
    show "CHR ''/'' \<notin> set (me_ns e)" if "e \<in> set ?es" for e
      using that names unfolding mem file_name_def by blast
    show "d = e" if "d \<in> set ?es" "e \<in> set ?es" "me_ns d = me_ns e" "me_key d = me_key e" for d e
      using that unfolding mem by (cases d; cases e) auto
  qed (use n new(2) in \<open>simp_all add: file_name_def\<close>)
  then show ?thesis
    unfolding checkpoint_writes [OF laws(1) run dirty new(1)] mem by auto
qed

text \<open>One namespace with one entry, last used at 100.\<close>

definition demo_saved :: store where
  "demo_saved = empty_store\<lparr>store_base := ''b'', tmp_dir := ''t'', store_dirty := True,
     namespaces := [''pch'' \<mapsto> \<lparr>ns_config = demo_cfg, ns_dir = ''b/pch'',
       ns_entries = [''k'' \<mapsto> \<lparr>entry_size = 4, entry_atime = 100\<rparr>], ns_total = 4\<rparr>]\<rparr>"

lemma manifest_laws_mem: "manifest_laws mem_os"
proof -
  have "mem_from_json json = Some es" if enc: "mem_to_json es = Some json" for es json
  proof -
    obtain e where es: "es = [e]" and e: "me_atime e = 100" "CHR ''/'' \<notin> set (me_ns e)"
      and j: "json = me_ns e @ ''/'' @ me_key e"
      using enc by (auto simp: mem_to_json_def split: list.splits if_splits)
    have "takeWhile (\<lambda>c. c \<noteq> CHR ''/'') (me_ns e @ ''/'' @ me_key e) = me_ns e"
      "dropWhile (\<lambda>c. c \<noteq> CHR ''/'') (me_ns e @ ''/'' @ me_key e) = ''/'' @ me_key e"
      using e(2) by (induction "me_ns e") (auto simp: takeWhile_append dropWhile_append)
    then show ?thesis using es e(1) j by (cases e) (simp add: mem_from_json_def)
  qed
  then show ?thesis by (auto simp: manifest_laws_def mem_os_def split: option.splits)
qed

lemma map_keys_single: "map_keys mem_os w [k \<mapsto> v] = [k]"
proof -
  have "{j. [k \<mapsto> v] j \<noteq> None} = {k}" by auto
  then show ?thesis by (simp add: map_keys_def mem_os_def mem_order_def)
qed

lemma demo_checkpoint:
  "checkpoint_locked mem_os (demo_saved, []) =
    (demo_saved\<lparr>store_dirty := False, changes_since_checkpoint := 0\<rparr>, [(''b/manifest.json'', ''pch/k'')])"
proof -
  have "manifest_of mem_os demo_saved (map_keys mem_os [] (namespaces demo_saved)) [] =
      [\<lparr>me_ns = ''pch'', me_key = ''k'', me_atime = 100\<rparr>]"
    by (simp add: demo_saved_def map_keys_single demo_cfg_def)
  then show ?thesis
    by (simp add: checkpoint_locked_def mem_os_def mem_to_json_def mem_join_def demo_saved_def)
qed

theorem checkpoint_roundtrip_witness:
  "manifest_atimes (load_manifest mem_os [(''b/manifest.json'', ''pch/k'')] (empty_store\<lparr>store_base := ''b''\<rparr>))
     ''pch/k'' = Some 100"
proof -
  have "store_exact demo_saved"
    by (simp add: store_exact_def demo_saved_def ns_exact_def msum_def)
  moreover have "store_dirty demo_saved" "finite (dom (namespaces demo_saved))" "file_name ''pch''"
    "\<And>n. n \<in> dom (namespaces demo_saved) \<Longrightarrow> file_name n" "store_base demo_saved = ''b''"
    by (auto simp: demo_saved_def file_name_def split: if_splits)
  ultimately show ?thesis
    using checkpoint_roundtrip [OF manifest_laws_mem order_laws_mem _ _ _ _ demo_checkpoint,
        of "''pch''" "empty_store\<lparr>store_base := ''b''\<rparr>" "''k''" 100]
    by (simp add: empty_store_def demo_saved_def demo_cfg_def)
qed

end
