(* ===== verification/Worker_Pool.thy ===== *)
theory Worker_Pool
  imports Clice_Prelude
begin

text \<open>
  \<open>src/src/server/worker/worker_pool.{h,cpp}\<close>: the pool of stateless and stateful worker processes.
  Coroutines run on one event loop, so the code between two suspension points is one atomic step; each
  such piece is one definition here and \<open>Worker_Pool_Steps\<close> interleaves them.

  Processes, peers and the memory reading are outside the repository: whether a spawn succeeds, how a
  request ends and what the system memory is are arguments. A peer is present or has been moved away.
  Counts of workers are natural numbers; \<open>size_t\<close> subtraction, where the code could pass below zero,
  is \<open>usub\<close>. The memory ratio is compared exactly, by cross multiplication, instead of in \<open>double\<close>.
\<close>

section \<open>Types\<close>

definition usub :: "nat \<Rightarrow> nat \<Rightarrow> nat" where
  "usub a b = (if b \<le> a then a - b else a + 2 ^ 64 - b)"

datatype priority = High | Low

record worker =
  w_name :: string
  w_peer :: bool
  owned_documents :: nat
  w_alive :: bool
  w_busy :: bool
  w_low :: bool
  restart_count :: nat
  w_retiring :: bool

record pool_options =
  self_path :: string
  stateless_count :: nat
  stateful_count :: nat
  worker_memory_limit :: nat
  opt_log_dir :: string
  max_restarts :: nat
  min_stateless :: nat
  max_stateless :: nat

record crash_info =
  crash_index :: nat
  crash_stateful :: bool
  crash_code :: int
  crash_signal :: int
  crash_restarts :: nat
  will_restart :: bool
  lost_documents :: "u32 list"

record memory_info =
  mem_total :: nat
  mem_constrained :: nat
  mem_available :: nat

text \<open>
  A \<open>send_stateless\<close> coroutine: suspended in a queue, woken with an assigned worker (\<open>None\<close> is
  \<open>SIZE_MAX\<close>) but not resumed yet, waiting for the answer while it holds a slot, or returned.
\<close>

datatype send_error = Workers_down | Cancelled_memory | Failed_after_retries

datatype phase =
  Queued
| Woken "nat option" nat
| Holding nat nat
| Returned "send_error option"

record send =
  rq_priority :: priority
  rq_attempt :: nat
  rq_exclude :: "nat option"
  rq_phase :: phase

record pool =
  stateless_workers :: "worker list"
  stateful_workers :: "worker list"
  owner :: "u32 \<rightharpoonup> nat"
  owner_lru :: "u32 list"
  owner_lru_index :: "u32 set"
  high_queue :: "nat list"
  low_queue :: "nat list"
  stateless_busy_count :: nat
  low_busy_count :: nat
  alive_stateless_count :: nat
  low_limit :: nat
  max_low_limit :: nat
  backoff_cooldown :: nat
  w_max :: nat
  saturated_cycles :: nat
  idle_cycles :: nat
  slot_cancel_sources :: "nat option list"
  cancelled_sends :: "nat set"
  shutting_down :: bool
  options :: pool_options
  retired_peers :: nat
  sends :: "nat \<rightharpoonup> send"
  crash_reports :: "crash_info list"

definition initial_pool :: "pool_options \<Rightarrow> pool" where
  "initial_pool opts = \<lparr>stateless_workers = [], stateful_workers = [], owner = Map.empty, owner_lru = [],
     owner_lru_index = {}, high_queue = [], low_queue = [], stateless_busy_count = 0,
     low_busy_count = 0, alive_stateless_count = 0, low_limit = 0, max_low_limit = 0,
     backoff_cooldown = 0, w_max = 0, saturated_cycles = 0, idle_cycles = 0, slot_cancel_sources = [],
     cancelled_sends = {}, shutting_down = False, options = opts, retired_peers = 0,
     sends = Map.empty, crash_reports = []\<rparr>"

definition map_worker :: "nat \<Rightarrow> (worker \<Rightarrow> worker) \<Rightarrow> worker list \<Rightarrow> worker list" where
  "map_worker i f ws = (if i < length ws then ws[i := f (ws ! i)] else ws)"

definition set_phase :: "nat \<Rightarrow> phase \<Rightarrow> pool \<Rightarrow> pool" where
  "set_phase r ph p = p\<lparr>sends := (sends p)(r := map_option (\<lambda>q. q\<lparr>rq_phase := ph\<rparr>) (sends p r))\<rparr>"

section \<open>Spawning\<close>

definition worker_name :: "bool \<Rightarrow> nat \<Rightarrow> string" where
  "worker_name stateful i = (if stateful then ''SF-'' else ''SL-'') @ decimal i"

text \<open>The command line of a worker process; \<open>spawn_worker\<close> and \<open>respawn_worker\<close> build the same one.\<close>

definition worker_args :: "pool_options \<Rightarrow> bool \<Rightarrow> nat \<Rightarrow> string \<Rightarrow> string list" where
  "worker_args opts stateful limit name =
     [self_path opts, ''worker'']
     @ (if stateful then [''--stateful'', ''--memory-limit'', decimal limit] else [])
     @ [''--worker-name'', name]
     @ (if opt_log_dir opts \<noteq> [] then [''--log-dir'', opt_log_dir opts] else [])"

definition fresh_worker :: "string \<Rightarrow> nat \<Rightarrow> worker" where
  "fresh_worker name restarts = \<lparr>w_name = name, w_peer = True, owned_documents = 0, w_alive = True,
     w_busy = False, w_low = False, restart_count = restarts, w_retiring = False\<rparr>"

text \<open>The oracle \<open>spawns\<close> says whether the process with this command line can be started.\<close>

definition spawn_worker :: "(string list \<Rightarrow> bool) \<Rightarrow> bool \<Rightarrow> nat \<Rightarrow> pool \<Rightarrow> pool option" where
  "spawn_worker spawns stateful limit p =
     (let ws = (if stateful then stateful_workers p else stateless_workers p);
          name = worker_name stateful (length ws) in
      if \<not> spawns (worker_args (options p) stateful limit name) then None
      else if stateful then Some (p\<lparr>stateful_workers := ws @ [fresh_worker name 0]\<rparr>)
      else Some (p\<lparr>stateless_workers := ws @ [fresh_worker name 0],
                   alive_stateless_count := alive_stateless_count p + 1\<rparr>))"

fun spawn_many :: "(string list \<Rightarrow> bool) \<Rightarrow> bool \<Rightarrow> nat \<Rightarrow> nat \<Rightarrow> pool \<Rightarrow> pool option" where
  "spawn_many spawns stateful limit 0 p = Some p"
| "spawn_many spawns stateful limit (Suc n) p =
     (case spawn_worker spawns stateful limit p of
        None \<Rightarrow> None
      | Some p' \<Rightarrow> spawn_many spawns stateful limit n p')"

definition low_ceiling :: "nat \<Rightarrow> nat" where
  "low_ceiling alive = (if 1 < alive then alive - 1 else alive)"

definition start :: "(string list \<Rightarrow> bool) \<Rightarrow> nat \<Rightarrow> pool_options \<Rightarrow> pool option" where
  "start spawns cores opts =
     (case spawn_many spawns False 0 (stateless_count opts) (initial_pool opts) of
        None \<Rightarrow> None
      | Some p1 \<Rightarrow>
          case spawn_many spawns True (worker_memory_limit opts) (stateful_count opts) p1 of
            None \<Rightarrow> None
          | Some p2 \<Rightarrow>
              let mx = (if max_stateless opts = 0 then cores else max_stateless opts);
                  mn = (if min_stateless opts = 0 then 1 else min_stateless opts);
                  opts' = opts\<lparr>min_stateless := min mn (stateless_count opts),
                               max_stateless := max mx (stateless_count opts)\<rparr>;
                  ceiling = low_ceiling (alive_stateless_count p2)
              in Some (p2\<lparr>options := opts', max_low_limit := ceiling, low_limit := ceiling,
                          slot_cancel_sources := replicate (length (stateless_workers p2)) None\<rparr>))"

section \<open>Stateful routing\<close>

fun least_loaded :: "worker list \<Rightarrow> nat \<Rightarrow> nat list \<Rightarrow> nat" where
  "least_loaded ws best [] = best"
| "least_loaded ws best (i # is) =
     (if \<not> w_alive (ws ! i) then least_loaded ws best is
      else if \<not> w_alive (ws ! best) \<or> owned_documents (ws ! i) < owned_documents (ws ! best)
      then least_loaded ws i is else least_loaded ws best is)"

definition pick_least_loaded :: "pool \<Rightarrow> nat" where
  "pick_least_loaded p = least_loaded (stateful_workers p) 0 [1..<length (stateful_workers p)]"

text \<open>
  The least-recently-used list has each document at most once (\<open>owner_lru_index\<close> holds its node), so
  erasing the node of a document is removing its first occurrence.
\<close>

definition touch_lru :: "u32 \<Rightarrow> pool \<Rightarrow> pool" where
  "touch_lru path p =
     p\<lparr>owner_lru := path # (if path \<in> owner_lru_index p then remove1 path (owner_lru p) else owner_lru p),
       owner_lru_index := insert path (owner_lru_index p)\<rparr>"

definition assign_worker :: "u32 \<Rightarrow> pool \<Rightarrow> nat \<times> pool" where
  "assign_worker path p =
     (case owner p path of
        Some i \<Rightarrow> (i, touch_lru path p)
      | None \<Rightarrow>
          let i = pick_least_loaded p in
          (i, p\<lparr>owner := (owner p)(path \<mapsto> i),
                stateful_workers := map_worker i (\<lambda>w. w\<lparr>owned_documents := owned_documents w + 1\<rparr>)
                  (stateful_workers p),
                owner_lru := path # owner_lru p,
                owner_lru_index := insert path (owner_lru_index p)\<rparr>))"

definition remove_owner :: "u32 \<Rightarrow> pool \<Rightarrow> pool" where
  "remove_owner path p =
     (case owner p path of
        None \<Rightarrow> p
      | Some i \<Rightarrow>
          let p1 = p\<lparr>stateful_workers := map_worker i
                       (\<lambda>w. w\<lparr>owned_documents := usub (owned_documents w) 1\<rparr>) (stateful_workers p),
                     owner := (owner p)(path := None)\<rparr> in
          if path \<in> owner_lru_index p
          then p1\<lparr>owner_lru := remove1 path (owner_lru p), owner_lru_index := owner_lru_index p - {path}\<rparr>
          else p1)"

text \<open>The documents of a worker, in the order \<open>ids\<close> in which the map is iterated.\<close>

definition owned_by :: "nat \<Rightarrow> u32 list \<Rightarrow> pool \<Rightarrow> u32 list" where
  "owned_by i ids p = filter (\<lambda>path. owner p path = Some i) ids"

definition clear_owner :: "nat \<Rightarrow> u32 list \<Rightarrow> pool \<Rightarrow> pool" where
  "clear_owner i ids p = fold remove_owner (owned_by i ids p) p"

datatype stateful_route = No_workers | Worker_down | Send_to nat

definition send_stateful :: "u32 \<Rightarrow> pool \<Rightarrow> stateful_route \<times> pool" where
  "send_stateful path p =
     (if stateful_workers p = [] then (No_workers, p)
      else
        case assign_worker path p of (i, p') \<Rightarrow>
          (if \<not> w_alive (stateful_workers p' ! i) then Worker_down else Send_to i, p'))"

definition notify_stateful :: "u32 \<Rightarrow> pool \<Rightarrow> nat option" where
  "notify_stateful path p =
     (case owner p path of
        None \<Rightarrow> None
      | Some i \<Rightarrow> if w_alive (stateful_workers p ! i) then Some i else None)"

section \<open>Stateless slots\<close>

definition is_idle :: "worker \<Rightarrow> bool" where
  "is_idle w \<longleftrightarrow> w_alive w \<and> \<not> w_busy w"

text \<open>
  \<open>None\<close> is the unreachable end of the function. Both calls leave the parameter \<open>exclude\<close> at its
  default \<open>SIZE_MAX\<close>, which is no index, so it does not appear.
\<close>

definition pick_idle_stateless :: "pool \<Rightarrow> nat option" where
  "pick_idle_stateless p = first_index (\<lambda>w. is_idle w \<and> \<not> w_retiring w) (stateless_workers p)"

definition retiring_idle :: "pool \<Rightarrow> nat" where
  "retiring_idle p = length (filter (\<lambda>w. w_retiring w \<and> is_idle w) (stateless_workers p))"

text \<open>\<open>idle\<close> of \<open>can_proceed\<close>: each subtraction is one of \<open>size_t\<close>.\<close>

definition idle_for :: "nat option \<Rightarrow> pool \<Rightarrow> nat" where
  "idle_for exclude p =
     (let idle = usub (alive_stateless_count p) (stateless_busy_count p);
          excluded = (case exclude of
            None \<Rightarrow> False
          | Some i \<Rightarrow> i < length (stateless_workers p) \<and> is_idle (stateless_workers p ! i));
          idle1 = (if excluded then usub idle 1 else idle)
      in ((\<lambda>n. usub n 1) ^^ retiring_idle p) idle1)"

definition can_proceed :: "priority \<Rightarrow> nat option \<Rightarrow> pool \<Rightarrow> bool" where
  "can_proceed prio exclude p =
     (if idle_for exclude p = 0 then False
      else if prio = High then True
      else low_busy_count p < low_limit p)"

definition occupy :: "bool \<Rightarrow> nat \<Rightarrow> pool \<Rightarrow> pool" where
  "occupy is_low i p =
     p\<lparr>stateless_workers := map_worker i (\<lambda>w. w\<lparr>w_busy := True, w_low := is_low\<rparr>) (stateless_workers p),
       stateless_busy_count := stateless_busy_count p + 1,
       low_busy_count := (if is_low then low_busy_count p + 1 else low_busy_count p)\<rparr>"

definition vacate :: "nat \<Rightarrow> pool \<Rightarrow> pool" where
  "vacate i p =
     p\<lparr>low_busy_count := (if w_low (stateless_workers p ! i) then usub (low_busy_count p) 1 else low_busy_count p),
       stateless_workers := map_worker i (\<lambda>w. w\<lparr>w_busy := False, w_low := False\<rparr>) (stateless_workers p),
       stateless_busy_count := usub (stateless_busy_count p) 1\<rparr>"

text \<open>
  The loop of \<open>try_dispatch_pending\<close> over one queue. Running out of idle workers while the count says
  otherwise is the unreachable end of \<open>pick_idle_stateless\<close>, here \<open>None\<close>.
\<close>

fun dispatch :: "bool \<Rightarrow> nat list \<Rightarrow> nat \<Rightarrow> pool \<Rightarrow> (nat list \<times> nat \<times> pool) option" where
  "dispatch is_low [] idle p = Some ([], idle, p)"
| "dispatch is_low (r # rs) idle p =
     (if 0 < idle \<and> (\<not> is_low \<or> low_busy_count p < low_limit p) then
        case pick_idle_stateless p of
          None \<Rightarrow> None
        | Some i \<Rightarrow>
            dispatch is_low rs (idle - 1)
              (set_phase r (Woken (Some i) (restart_count (stateless_workers p ! i))) (occupy is_low i p))
      else Some (r # rs, idle, p))"

definition try_dispatch_pending :: "pool \<Rightarrow> pool option" where
  "try_dispatch_pending p =
     (let idle = usub (usub (alive_stateless_count p) (stateless_busy_count p)) (retiring_idle p) in
      case dispatch False (high_queue p) idle p of
        None \<Rightarrow> None
      | Some (hs, idle1, p1) \<Rightarrow>
          case dispatch True (low_queue p1) idle1 (p1\<lparr>high_queue := hs\<rparr>) of
            None \<Rightarrow> None
          | Some (ls, _, p2) \<Rightarrow> Some (p2\<lparr>low_queue := ls\<rparr>))"

definition fail_pending_requests :: "pool \<Rightarrow> pool" where
  "fail_pending_requests p =
     (fold (\<lambda>r. set_phase r (Woken None 0)) (high_queue p @ low_queue p) p)
       \<lparr>high_queue := [], low_queue := []\<rparr>"

definition release_stateless_slot :: "nat \<Rightarrow> pool \<Rightarrow> pool option" where
  "release_stateless_slot i p =
     (if length (stateless_workers p) \<le> i \<or> \<not> w_busy (stateless_workers p ! i) then Some p
      else
        try_dispatch_pending
          (vacate i (p\<lparr>slot_cancel_sources :=
             (if i < length (slot_cancel_sources p) then (slot_cancel_sources p)[i := None]
              else slot_cancel_sources p)\<rparr>)))"

text \<open>The destructor of \<open>StatelessSlot\<close> (and of a dispatched \<open>PendingStateless\<close>).\<close>

definition slot_exit :: "nat \<Rightarrow> nat \<Rightarrow> pool \<Rightarrow> pool option" where
  "slot_exit i gen p =
     (if restart_count (stateless_workers p ! i) = gen then release_stateless_slot i p else Some p)"

section \<open>Sending to a stateless worker\<close>

text \<open>
  \<open>acquire_slot\<close> is the loop body of \<open>acquire_stateless_slot\<close> up to its suspension or return,
  \<open>enter_slot\<close> what \<open>send_stateless\<close> does with the index it got until it awaits the answer.
\<close>

definition enqueue :: "nat \<Rightarrow> priority \<Rightarrow> pool \<Rightarrow> pool" where
  "enqueue r prio p =
     set_phase r Queued
       (if prio = High then p\<lparr>high_queue := high_queue p @ [r]\<rparr> else p\<lparr>low_queue := low_queue p @ [r]\<rparr>)"

text \<open>A low-priority request gets a cancellation source of its own, also when it is sent again.\<close>

definition install_cancel :: "nat \<Rightarrow> priority \<Rightarrow> nat \<Rightarrow> pool \<Rightarrow> pool" where
  "install_cancel r prio i p =
     (if prio = Low then
        p\<lparr>cancelled_sends := cancelled_sends p - {r},
          slot_cancel_sources := (if i < length (slot_cancel_sources p)
            then (slot_cancel_sources p)[i := Some r] else slot_cancel_sources p)\<rparr>
      else p)"

definition hold_slot :: "nat \<Rightarrow> send \<Rightarrow> nat \<Rightarrow> pool \<Rightarrow> pool" where
  "hold_slot r q i p =
     set_phase r (Holding i (restart_count (stateless_workers p ! i))) (install_cancel r (rq_priority q) i p)"

definition acquire_slot :: "nat \<Rightarrow> send \<Rightarrow> pool \<Rightarrow> pool option" where
  "acquire_slot r q p =
     (if alive_stateless_count p = 0 then Some (set_phase r (Returned (Some Workers_down)) p)
      else if \<not> can_proceed (rq_priority q) (rq_exclude q) p then Some (enqueue r (rq_priority q) p)
      else
        case pick_idle_stateless p of
          None \<Rightarrow> None
        | Some i \<Rightarrow> Some (hold_slot r q i (occupy (rq_priority q = Low) i p)))"

text \<open>The next iteration of the retry loop: there are two attempts.\<close>

definition next_attempt :: "nat \<Rightarrow> send \<Rightarrow> pool \<Rightarrow> pool option" where
  "next_attempt r q p =
     (let q1 = q\<lparr>rq_attempt := rq_attempt q + 1\<rparr>;
          p1 = p\<lparr>sends := (sends p)(r \<mapsto> q1)\<rparr> in
      if rq_attempt q1 < 2 then acquire_slot r q1 p1
      else Some (set_phase r (Returned (Some Failed_after_retries)) p1))"

definition enter_slot :: "nat \<Rightarrow> send \<Rightarrow> nat \<Rightarrow> pool \<Rightarrow> pool option" where
  "enter_slot r q i p =
     (if \<not> w_alive (stateless_workers p ! i) then
        Option.bind (slot_exit i (restart_count (stateless_workers p ! i)) p) (next_attempt r q)
      else Some (hold_slot r q i p))"

definition send_stateless :: "nat \<Rightarrow> priority \<Rightarrow> pool \<Rightarrow> pool option" where
  "send_stateless r prio p =
     (let q = \<lparr>rq_priority = prio, rq_attempt = 0, rq_exclude = None, rq_phase = Queued\<rparr>;
          p1 = p\<lparr>sends := (sends p)(r \<mapsto> q)\<rparr> in
      if stateless_workers p = [] then Some (set_phase r (Returned (Some Workers_down)) p1)
      else acquire_slot r q p1)"

text \<open>The coroutine resumes after \<open>pending.ready\<close> was set.\<close>

definition resume_send :: "nat \<Rightarrow> pool \<Rightarrow> pool option" where
  "resume_send r p =
     (case sends p r of
        None \<Rightarrow> Some p
      | Some q \<Rightarrow>
          case rq_phase q of
            Woken None gen \<Rightarrow> Some (set_phase r (Returned (Some Workers_down)) p)
          | Woken (Some i) gen \<Rightarrow>
              if restart_count (stateless_workers p ! i) \<noteq> gen then acquire_slot r q p
              else enter_slot r q i p
          | _ \<Rightarrow> Some p)"

text \<open>The answer arrives: a value, or an error after which the request is sent once more elsewhere.\<close>

definition answer_send :: "nat \<Rightarrow> bool \<Rightarrow> pool \<Rightarrow> pool option" where
  "answer_send r has_value p =
     (case sends p r of
        None \<Rightarrow> Some p
      | Some q \<Rightarrow>
          case rq_phase q of
            Holding i gen \<Rightarrow>
              if has_value then slot_exit i gen (set_phase r (Returned None) p)
              else if rq_priority q = Low \<and> r \<in> cancelled_sends p
              then slot_exit i gen (set_phase r (Returned (Some Cancelled_memory)) p)
              else Option.bind (slot_exit i gen p) (next_attempt r (q\<lparr>rq_exclude := Some i\<rparr>))
          | _ \<Rightarrow> Some p)"

text \<open>The coroutine is destroyed: the destructors of \<open>PendingStateless\<close> and \<open>StatelessSlot\<close> run.\<close>

definition cancel_send :: "nat \<Rightarrow> pool \<Rightarrow> pool option" where
  "cancel_send r p =
     (case sends p r of
        None \<Rightarrow> Some p
      | Some q \<Rightarrow>
          let p1 = p\<lparr>sends := (sends p)(r := None)\<rparr> in
          case rq_phase q of
            Queued \<Rightarrow> Some (p1\<lparr>high_queue := filter (\<lambda>x. x \<noteq> r) (high_queue p),
                              low_queue := filter (\<lambda>x. x \<noteq> r) (low_queue p)\<rparr>)
          | Woken (Some i) gen \<Rightarrow> slot_exit i gen p1
          | Woken None gen \<Rightarrow> Some p1
          | Holding i gen \<Rightarrow> slot_exit i gen p1
          | Returned e \<Rightarrow> Some p1)"

section \<open>Crashes, retirement and scaling\<close>

definition apply_crash_backoff :: "pool \<Rightarrow> pool" where
  "apply_crash_backoff p =
     (let new_limit = max 1 (low_limit p * 3 div 4);
          p1 = (if new_limit < low_limit p
                then p\<lparr>w_max := (if w_max p = 0 \<or> w_max p < low_limit p then low_limit p else w_max p),
                       low_limit := new_limit\<rparr>
                else p)
      in p1\<lparr>backoff_cooldown := 3\<rparr>)"

definition shrink_ceiling :: "pool \<Rightarrow> pool" where
  "shrink_ceiling p =
     (let ceiling = low_ceiling (alive_stateless_count p) in
      p\<lparr>max_low_limit := ceiling, low_limit := (if ceiling < low_limit p then ceiling else low_limit p)\<rparr>)"

text \<open>\<open>ids\<close> is the order in which the ownership map is iterated.\<close>

definition process_crash :: "nat \<Rightarrow> bool \<Rightarrow> int \<Rightarrow> int \<Rightarrow> u32 list \<Rightarrow> pool \<Rightarrow> (bool \<times> pool) option" where
  "process_crash i stateful code signal ids p =
     (let w = (if stateful then stateful_workers p else stateless_workers p) ! i;
          restart = restart_count w < max_restarts (options p);
          info = \<lparr>crash_index = i, crash_stateful = stateful, crash_code = code, crash_signal = signal,
                  crash_restarts = restart_count w, will_restart = restart,
                  lost_documents = (if stateful then owned_by i ids p else [])\<rparr>;
          down = map_worker i (\<lambda>w. w\<lparr>w_alive := False\<rparr>);
          handled =
            (if stateful then Some (clear_owner i ids (p\<lparr>stateful_workers := down (stateful_workers p)\<rparr>))
             else
               let p1 = p\<lparr>stateless_workers := down (stateless_workers p),
                          alive_stateless_count := usub (alive_stateless_count p) 1\<rparr>;
                   p2 = apply_crash_backoff (if w_busy w then vacate i p1 else p1);
                   p3 = (if restart then p2 else shrink_ceiling p2)
               in if alive_stateless_count p3 = 0 \<and> \<not> restart then Some (fail_pending_requests p3)
                  else try_dispatch_pending p3)
      in map_option (\<lambda>p4. (restart, p4\<lparr>crash_reports := crash_reports p4 @ [info]\<rparr>)) handled)"

text \<open>\<open>None\<close> inside is the failure of the spawn; the old peer is retired before it in any case.\<close>

definition retire_peer :: "nat \<Rightarrow> bool \<Rightarrow> pool \<Rightarrow> pool" where
  "retire_peer i stateful p =
     (let ws = (if stateful then stateful_workers p else stateless_workers p);
          gone = map_worker i (\<lambda>w. w\<lparr>w_peer := False\<rparr>) in
      if w_peer (ws ! i) then
        if stateful then p\<lparr>stateful_workers := gone ws, retired_peers := retired_peers p + 1\<rparr>
        else p\<lparr>stateless_workers := gone ws, retired_peers := retired_peers p + 1\<rparr>
      else p)"

definition respawn_worker :: "(string list \<Rightarrow> bool) \<Rightarrow> nat \<Rightarrow> bool \<Rightarrow> pool \<Rightarrow> (bool \<times> pool) option" where
  "respawn_worker spawns i stateful p =
     (let ws = (if stateful then stateful_workers p else stateless_workers p);
          restarts = restart_count (ws ! i) + 1;
          name = worker_name stateful i;
          p1 = retire_peer i stateful p in
      if \<not> spawns (worker_args (options p) stateful (worker_memory_limit (options p)) name) then Some (False, p1)
      else if stateful then
        Some (True, p1\<lparr>stateful_workers := map_worker i (\<lambda>_. fresh_worker name restarts) (stateful_workers p1)\<rparr>)
      else
        map_option (Pair True) (try_dispatch_pending
          (p1\<lparr>stateless_workers := map_worker i (\<lambda>_. fresh_worker name restarts) (stateless_workers p1),
              alive_stateless_count := alive_stateless_count p1 + 1\<rparr>)))"

definition retired_exit :: "nat \<Rightarrow> pool \<Rightarrow> pool" where
  "retired_exit i p =
     (let w = stateless_workers p ! i;
          p1 = p\<lparr>stateless_workers := map_worker i (\<lambda>w. w\<lparr>w_alive := False\<rparr>) (stateless_workers p),
                 alive_stateless_count := usub (alive_stateless_count p) 1\<rparr>
      in shrink_ceiling (retire_peer i False (if w_busy w then vacate i p1 else p1)))"

definition worker_exits :: "(string list \<Rightarrow> bool) \<Rightarrow> nat \<Rightarrow> bool \<Rightarrow> (int \<times> int) option \<Rightarrow> u32 list
    \<Rightarrow> pool \<Rightarrow> pool option" where
  "worker_exits spawns i stateful result ids p =
     (if shutting_down p then Some p
      else if \<not> stateful \<and> w_retiring (stateless_workers p ! i) then Some (retired_exit i p)
      else
        let (code, signal) = (case result of Some cs \<Rightarrow> cs | None \<Rightarrow> (0, 9)) in
        case process_crash i stateful code signal ids p of
          None \<Rightarrow> None
        | Some (False, p1) \<Rightarrow> Some p1
        | Some (True, p1) \<Rightarrow>
            case respawn_worker spawns i stateful p1 of
              None \<Rightarrow> None
            | Some (True, p2) \<Rightarrow> Some p2
            | Some (False, p2) \<Rightarrow>
                if stateful then Some p2
                else
                  let p3 = shrink_ceiling p2 in
                  Some (if alive_stateless_count p3 = 0 then fail_pending_requests p3 else p3))"

fun cancel_low_loop :: "nat list \<Rightarrow> nat \<Rightarrow> pool \<Rightarrow> pool" where
  "cancel_low_loop [] count p = p"
| "cancel_low_loop (i # is) count p =
     (if count = 0 then p
      else
        let w = stateless_workers p ! i in
        if w_alive w \<and> w_busy w \<and> w_low w then
          case (if i < length (slot_cancel_sources p) then slot_cancel_sources p ! i else None) of
            Some r \<Rightarrow> cancel_low_loop is (count - 1) (p\<lparr>cancelled_sends := insert r (cancelled_sends p)\<rparr>)
          | None \<Rightarrow> cancel_low_loop is count p
        else cancel_low_loop is count p)"

definition cancel_low_priority_requests :: "nat \<Rightarrow> pool \<Rightarrow> pool" where
  "cancel_low_priority_requests count p = cancel_low_loop [0..<length (stateless_workers p)] count p"

definition scale_up_worker :: "(string list \<Rightarrow> bool) \<Rightarrow> pool \<Rightarrow> (bool \<times> pool) option" where
  "scale_up_worker spawns p =
     (if shutting_down p \<or> max_stateless (options p) \<le> alive_stateless_count p then Some (False, p)
      else
        case spawn_worker spawns False 0 p of
          None \<Rightarrow> Some (False, p)
        | Some p1 \<Rightarrow>
            let ceiling = low_ceiling (alive_stateless_count p1) in
            map_option (Pair True) (try_dispatch_pending
              (p1\<lparr>slot_cancel_sources := slot_cancel_sources p1 @ [None], max_low_limit := ceiling,
                  low_limit := ceiling, w_max := 0\<rparr>)))"

fun last_idle :: "worker list \<Rightarrow> nat list \<Rightarrow> nat option" where
  "last_idle ws [] = None"
| "last_idle ws (i # is) = (if is_idle (ws ! i) \<and> \<not> w_retiring (ws ! i) then Some i else last_idle ws is)"

definition retire_idle_worker :: "pool \<Rightarrow> pool" where
  "retire_idle_worker p =
     (if shutting_down p then p
      else
        let pending_retires = length (filter (\<lambda>w. w_retiring w \<and> w_alive w) (stateless_workers p)) in
        if usub (alive_stateless_count p) pending_retires \<le> min_stateless (options p) then p
        else
          case last_idle (stateless_workers p) (rev [0..<length (stateless_workers p)]) of
            None \<Rightarrow> p
          | Some i \<Rightarrow> p\<lparr>stateless_workers := map_worker i (\<lambda>w. w\<lparr>w_retiring := True\<rparr>) (stateless_workers p)\<rparr>)"

definition effective_total :: "memory_info \<Rightarrow> nat" where
  "effective_total m =
     (if 0 < mem_constrained m \<and> mem_constrained m < mem_total m then mem_constrained m else mem_total m)"

definition ratio_below :: "nat \<Rightarrow> memory_info \<Rightarrow> bool" where
  "ratio_below percent m \<longleftrightarrow> mem_available m * 100 < percent * effective_total m"

definition ratio_above :: "nat \<Rightarrow> memory_info \<Rightarrow> bool" where
  "ratio_above percent m \<longleftrightarrow> percent * effective_total m < mem_available m * 100"

definition count_cycles :: "pool \<Rightarrow> pool" where
  "count_cycles p =
     (let has_queued = (high_queue p \<noteq> [] \<or> low_queue p \<noteq> []);
          saturated = (stateless_busy_count p = alive_stateless_count p \<and> has_queued
                       \<or> low_limit p \<le> low_busy_count p \<and> low_queue p \<noteq> []) in
      if saturated then p\<lparr>saturated_cycles := saturated_cycles p + 1, idle_cycles := 0\<rparr>
      else if stateless_busy_count p = 0 \<and> \<not> has_queued
      then p\<lparr>idle_cycles := idle_cycles p + 1, saturated_cycles := 0\<rparr>
      else p\<lparr>saturated_cycles := 0, idle_cycles := 0\<rparr>)"

text \<open>With no memory information at all the ratio is 1.\<close>

definition check_scaling :: "(string list \<Rightarrow> bool) \<Rightarrow> memory_info \<Rightarrow> pool \<Rightarrow> pool option" where
  "check_scaling spawns m p =
     (if shutting_down p then Some p
      else
        let p1 = count_cycles p;
            p2 = (if 5 \<le> saturated_cycles p1 \<and> (effective_total m = 0 \<or> ratio_above 30 m) then
                    map_option (\<lambda>(up, p'). if up then p'\<lparr>saturated_cycles := 0\<rparr> else p')
                      (scale_up_worker spawns p1)
                  else Some p1)
        in map_option (\<lambda>p3. if 10 \<le> idle_cycles p3 then (retire_idle_worker p3)\<lparr>idle_cycles := 0\<rparr> else p3) p2)"

text \<open>The inner loop of \<open>monitor_memory\<close>: the limit on low-priority work follows the free memory.\<close>

definition lower_limit :: "pool \<Rightarrow> pool" where
  "lower_limit p =
     (if 0 < backoff_cooldown p then p\<lparr>backoff_cooldown := backoff_cooldown p - 1\<rparr>
      else p\<lparr>w_max := (if w_max p = 0 \<or> w_max p < low_limit p then low_limit p else w_max p),
             low_limit := low_limit p - 1\<rparr>)"

definition raise_limit :: "pool \<Rightarrow> pool" where
  "raise_limit p =
     (let p0 = p\<lparr>backoff_cooldown := 0\<rparr> in
      if 0 < w_max p \<and> low_limit p < w_max p then
        p0\<lparr>low_limit := min (low_limit p + max 1 ((w_max p - low_limit p) div 2)) (max_low_limit p)\<rparr>
      else
        p0\<lparr>low_limit := low_limit p + 1,
           w_max := (if max_low_limit p \<le> low_limit p + 1 then 0 else w_max p)\<rparr>)"

definition adjust_limit :: "memory_info \<Rightarrow> pool \<Rightarrow> pool option" where
  "adjust_limit m p =
     (if ratio_below 20 m \<and> 1 < low_limit p then Some (lower_limit p)
      else if ratio_above 40 m \<and> low_limit p < max_low_limit p then try_dispatch_pending (raise_limit p)
      else Some p)"

text \<open>One wake-up of \<open>monitor_memory\<close>; \<open>check_scaling\<close> reads the memory again.\<close>

definition memory_tick :: "(string list \<Rightarrow> bool) \<Rightarrow> memory_info \<Rightarrow> memory_info \<Rightarrow> pool \<Rightarrow> pool option" where
  "memory_tick spawns m m' p =
     (if shutting_down p \<or> mem_total m = 0 then Some p
      else
        let p1 = (if ratio_below 10 m \<and> 0 < low_busy_count p
                  then cancel_low_priority_requests (low_busy_count p) p else p) in
        Option.bind (adjust_limit m p1) (\<lambda>p2.
        map_option (\<lambda>p3. if ratio_below 10 m \<and> min_stateless (options p3) < alive_stateless_count p3
                          then retire_idle_worker p3 else p3)
          (check_scaling spawns m' p2)))"

text \<open>\<open>stop\<close> up to the point where it awaits the workers: the processes are told to end.\<close>

definition stop_pool :: "pool \<Rightarrow> pool" where
  "stop_pool p = fail_pending_requests (p\<lparr>shutting_down := True\<rparr>)"

section \<open>Draining the error output\<close>

text \<open>\<open>drain_stderr\<close>: the complete lines of what has been read so far, and the rest.\<close>

fun split_lines :: "string \<Rightarrow> string \<Rightarrow> string list \<times> string" where
  "split_lines cur [] = ([], cur)"
| "split_lines cur (c # cs) =
     (if c = CHR 0x0A then (let (ls, rest) = split_lines [] cs in (if cur = [] then ls else cur # ls, rest))
      else split_lines (cur @ [c]) cs)"

fun drain_stderr :: "string \<Rightarrow> string list \<Rightarrow> string list" where
  "drain_stderr buffer [] = (if buffer = [] then [] else [buffer])"
| "drain_stderr buffer (chunk # chunks) =
     (if chunk = [] then (if buffer = [] then [] else [buffer])
      else (let (ls, rest) = split_lines [] (buffer @ chunk) in ls @ drain_stderr rest chunks))"

end
