(* ===== verification/Worker_Pool_Inv.thy ===== *)
theory Worker_Pool_Inv
  imports Worker_Pool
begin

text \<open>
  The invariant of the stateless side of the pool. The counters are the numbers of workers they
  stand for, a busy worker is held by exactly one request, the queues hold exactly the suspended
  requests, and the limit on low-priority work is between one and its ceiling. The invariant has
  parameters for the states inside an operation: the requests \<open>X\<close> that are being moved and the queues
  as the dispatch loop sees them.
\<close>

section \<open>Counting workers\<close>

abbreviation count :: "(worker \<Rightarrow> bool) \<Rightarrow> worker list \<Rightarrow> nat" where
  "count P ws \<equiv> length (filter P ws)"

abbreviation ws :: "pool \<Rightarrow> worker list" where
  "ws \<equiv> stateless_workers"

lemma count_update:
  "i < length xs \<Longrightarrow> count P (xs[i := w]) + of_bool (P (xs ! i)) = count P xs + of_bool (P w)"
proof (induction xs arbitrary: i)
  case (Cons x xs)
  then show ?case by (cases i) auto
qed simp

lemma count_update_same:
  "i < length xs \<Longrightarrow> P w = P (xs ! i) \<Longrightarrow> count P (xs[i := w]) = count P xs"
  using count_update [of i xs P w] by simp

lemma count_update_in:
  "i < length xs \<Longrightarrow> \<not> P (xs ! i) \<Longrightarrow> P w \<Longrightarrow> count P (xs[i := w]) = count P xs + 1"
  using count_update [of i xs P w] by simp

lemma count_update_out:
  assumes "i < length xs" and "P (xs ! i)" and "\<not> P w"
  shows "count P (xs[i := w]) = count P xs - 1 \<and> 0 < count P xs"
proof -
  have "count P (xs[i := w]) + 1 = count P xs" using count_update [of i xs P w] assms by simp
  then show ?thesis by linarith
qed

lemma count_update_usub:
  assumes "i < length xs" and "P (xs ! i)" and "\<not> P w"
  shows "usub (count P xs) 1 = count P (xs[i := w])"
proof -
  have "count P (xs[i := w]) + 1 = count P xs" using count_update [of i xs P w] assms by simp
  then have "count P xs = Suc (count P (xs[i := w]))" by simp
  then show ?thesis by (simp only:) (simp add: usub_def)
qed

lemma count_mono: "(\<And>w. w \<in> set xs \<Longrightarrow> P w \<Longrightarrow> Q w) \<Longrightarrow> count P xs \<le> count Q xs"
  by (induction xs) (auto simp: le_SucI)

lemma count_split: "count P xs = count (\<lambda>w. P w \<and> Q w) xs + count (\<lambda>w. P w \<and> \<not> Q w) xs"
  by (induction xs) auto

lemma count_pos: "0 < count P xs \<longleftrightarrow> (\<exists>w \<in> set xs. P w)"
  by (induction xs) auto

lemma usub_exact [simp]: "b \<le> a \<Longrightarrow> usub a b = a - b"
  by (simp add: usub_def)

lemma usub_iter: "n \<le> a \<Longrightarrow> ((\<lambda>m. usub m 1) ^^ n) a = a - n"
proof (induction n arbitrary: a)
  case (Suc n)
  then show ?case by (simp add: funpow_Suc_right del: funpow.simps)
qed simp

section \<open>The invariant\<close>

definition worker_ok :: "worker \<Rightarrow> bool" where
  "worker_ok w \<longleftrightarrow> (w_busy w \<longrightarrow> w_alive w) \<and> (w_low w \<longrightarrow> w_busy w) \<and> (w_retiring w \<longrightarrow> \<not> w_busy w)"

definition counts_ok :: "pool \<Rightarrow> bool" where
  "counts_ok p \<longleftrightarrow>
     alive_stateless_count p = count w_alive (ws p) \<and> stateless_busy_count p = count w_busy (ws p)
     \<and> low_busy_count p = count w_low (ws p) \<and> (\<forall>w \<in> set (ws p). worker_ok w)"

fun slot_of :: "phase \<Rightarrow> (nat \<times> nat) option" where
  "slot_of (Woken (Some i) g) = Some (i, g)"
| "slot_of (Holding i g) = Some (i, g)"
| "slot_of _ = None"

definition slots :: "nat set \<Rightarrow> pool \<Rightarrow> nat \<Rightarrow> (nat \<times> nat) option" where
  "slots X p r = (if r \<in> X then None else Option.bind (sends p r) (\<lambda>q. slot_of (rq_phase q)))"

definition hold_ok :: "worker list \<Rightarrow> (nat \<rightharpoonup> nat \<times> nat) \<Rightarrow> bool" where
  "hold_ok W S \<longleftrightarrow>
     (\<forall>r i g. S r = Some (i, g) \<longrightarrow>
        i < length W \<and> g \<le> restart_count (W ! i)
        \<and> (g = restart_count (W ! i) \<longrightarrow> w_alive (W ! i) \<longrightarrow> w_busy (W ! i)))
     \<and> (\<forall>r r' s. S r = Some s \<longrightarrow> S r' = Some s \<longrightarrow> r = r')
     \<and> (\<forall>i < length W. w_busy (W ! i) \<longrightarrow> (\<exists>r. S r = Some (i, restart_count (W ! i))))"

definition queue_ok :: "nat set \<Rightarrow> nat list \<Rightarrow> nat list \<Rightarrow> pool \<Rightarrow> bool" where
  "queue_ok X hq lq p \<longleftrightarrow>
     distinct (hq @ lq) \<and> set (hq @ lq) \<inter> X = {}
     \<and> (\<forall>r \<in> set (hq @ lq). \<exists>q. sends p r = Some q \<and> rq_phase q = Queued
          \<and> rq_priority q = (if r \<in> set hq then High else Low))
     \<and> (\<forall>r q. r \<notin> X \<longrightarrow> sends p r = Some q \<longrightarrow> rq_phase q = Queued \<longrightarrow> r \<in> set (hq @ lq))"

definition limit_ok :: "pool \<Rightarrow> bool" where
  "limit_ok p \<longleftrightarrow> low_limit p \<le> max_low_limit p \<and> (0 < alive_stateless_count p \<longrightarrow> 0 < low_limit p)"

definition pool_inv :: "nat set \<Rightarrow> nat list \<Rightarrow> nat list \<Rightarrow> pool \<Rightarrow> bool" where
  "pool_inv X hq lq p \<longleftrightarrow> counts_ok p \<and> hold_ok (ws p) (slots X p) \<and> queue_ok X hq lq p"

abbreviation good_pool :: "pool \<Rightarrow> bool" where
  "good_pool p \<equiv> pool_inv {} (high_queue p) (low_queue p) p"

lemma pool_invD:
  assumes "pool_inv X hq lq p"
  shows "counts_ok p" "hold_ok (ws p) (slots X p)" "queue_ok X hq lq p"
  using assms by (simp_all add: pool_inv_def)

lemma queue_okI:
  assumes "distinct (hq @ lq)" and "\<And>r. r \<in> set (hq @ lq) \<Longrightarrow> r \<notin> X"
    and "\<And>r. r \<in> set (hq @ lq) \<Longrightarrow> \<exists>q. sends p r = Some q \<and> rq_phase q = Queued
      \<and> rq_priority q = (if r \<in> set hq then High else Low)"
    and "\<And>r q. r \<notin> X \<Longrightarrow> sends p r = Some q \<Longrightarrow> rq_phase q = Queued \<Longrightarrow> r \<in> set (hq @ lq)"
  shows "queue_ok X hq lq p"
  using assms unfolding queue_ok_def by blast

lemma queue_okD:
  assumes "queue_ok X hq lq p"
  shows "distinct (hq @ lq)" and "r \<in> set (hq @ lq) \<Longrightarrow> r \<notin> X"
    and "r \<in> set (hq @ lq) \<Longrightarrow> \<exists>q. sends p r = Some q \<and> rq_phase q = Queued
      \<and> rq_priority q = (if r \<in> set hq then High else Low)"
    and "r \<notin> X \<Longrightarrow> sends p r = Some q \<Longrightarrow> rq_phase q = Queued \<Longrightarrow> r \<in> set (hq @ lq)"
  using assms unfolding queue_ok_def by blast+

section \<open>Idle workers\<close>

abbreviation free :: "worker \<Rightarrow> bool" where
  "free w \<equiv> is_idle w \<and> \<not> w_retiring w"

lemma busy_le_alive: "counts_ok p \<Longrightarrow> stateless_busy_count p \<le> alive_stateless_count p"
  unfolding counts_ok_def by (metis count_mono worker_ok_def)

text \<open>The number of idle workers the counters give, and those among them that are not retiring.\<close>

lemma idle_count:
  assumes "counts_ok p"
  shows "alive_stateless_count p - stateless_busy_count p = count is_idle (ws p)"
    and "retiring_idle p \<le> count is_idle (ws p)"
    and "count is_idle (ws p) - retiring_idle p = count free (ws p)"
proof -
  have "count (\<lambda>w. w_alive w \<and> w_busy w) (ws p) = count w_busy (ws p)"
    using assms by (auto simp: counts_ok_def worker_ok_def intro!: arg_cong [of _ _ length] filter_cong)
  then show "alive_stateless_count p - stateless_busy_count p = count is_idle (ws p)"
    using count_split [of w_alive "ws p" w_busy] assms
    by (simp add: counts_ok_def is_idle_def [abs_def])
  have "count is_idle (ws p) = count (\<lambda>w. is_idle w \<and> w_retiring w) (ws p) + count free (ws p)"
    by (rule count_split)
  moreover have "count (\<lambda>w. is_idle w \<and> w_retiring w) (ws p) = retiring_idle p"
    unfolding retiring_idle_def by (rule arg_cong [of _ _ length], rule filter_cong) auto
  ultimately show "retiring_idle p \<le> count is_idle (ws p)"
    and "count is_idle (ws p) - retiring_idle p = count free (ws p)" by simp_all
qed

lemma dispatch_idle:
  "counts_ok p \<Longrightarrow> usub (usub (alive_stateless_count p) (stateless_busy_count p)) (retiring_idle p) = count free (ws p)"
  using idle_count [of p] busy_le_alive [of p] by simp

lemma pick_idle:
  assumes "0 < count free (ws p)"
  obtains i where "pick_idle_stateless p = Some i" and "i < length (ws p)" and "free (ws p ! i)"
proof (cases "pick_idle_stateless p")
  case None
  then have False using assms unfolding pick_idle_stateless_def first_index_None count_pos by blast
  then show ?thesis ..
next
  case (Some i)
  then show ?thesis using that first_index_Some [of free "ws p" i] by (simp add: pick_idle_stateless_def)
qed

section \<open>Views of the operations\<close>

lemma map_worker_in: "i < length xs \<Longrightarrow> map_worker i f xs = xs[i := f (xs ! i)]"
  by (simp add: map_worker_def)

lemma length_map_worker [simp]: "length (map_worker i f xs) = length xs"
  by (simp add: map_worker_def)

lemma nth_map_worker: "j < length xs \<Longrightarrow> map_worker i f xs ! j = (if j = i then f (xs ! j) else xs ! j)"
  by (simp add: map_worker_def)

lemma set_map_worker: "w \<in> set (map_worker i f xs) \<Longrightarrow> w \<in> set xs \<or> i < length xs \<and> w = f (xs ! i)"
  by (auto simp: map_worker_def dest: set_update_subset_insert [THEN subsetD] split: if_splits)

lemma set_phase_view [simp]:
  "ws (set_phase r ph p) = ws p" "high_queue (set_phase r ph p) = high_queue p"
  "low_queue (set_phase r ph p) = low_queue p" "low_limit (set_phase r ph p) = low_limit p"
  "max_low_limit (set_phase r ph p) = max_low_limit p" "options (set_phase r ph p) = options p"
  "alive_stateless_count (set_phase r ph p) = alive_stateless_count p"
  "low_busy_count (set_phase r ph p) = low_busy_count p"
  "stateless_busy_count (set_phase r ph p) = stateless_busy_count p"
  "shutting_down (set_phase r ph p) = shutting_down p"
  "counts_ok (set_phase r ph p) = counts_ok p"
  "retiring_idle (set_phase r ph p) = retiring_idle p"
  by (simp_all add: set_phase_def counts_ok_def retiring_idle_def)

lemma occupy_view [simp]:
  "length (ws (occupy l i p)) = length (ws p)" "sends (occupy l i p) = sends p"
  "high_queue (occupy l i p) = high_queue p" "low_queue (occupy l i p) = low_queue p"
  "low_limit (occupy l i p) = low_limit p" "max_low_limit (occupy l i p) = max_low_limit p"
  "options (occupy l i p) = options p" "alive_stateless_count (occupy l i p) = alive_stateless_count p"
  "shutting_down (occupy l i p) = shutting_down p"
  by (simp_all add: occupy_def)

lemma vacate_view [simp]:
  "length (ws (vacate i p)) = length (ws p)" "sends (vacate i p) = sends p"
  "high_queue (vacate i p) = high_queue p" "low_queue (vacate i p) = low_queue p"
  "low_limit (vacate i p) = low_limit p" "max_low_limit (vacate i p) = max_low_limit p"
  "options (vacate i p) = options p" "alive_stateless_count (vacate i p) = alive_stateless_count p"
  "shutting_down (vacate i p) = shutting_down p"
  by (simp_all add: vacate_def)

lemma occupy_counts:
  assumes "counts_ok p" and i: "i < length (ws p)" and free: "free (ws p ! i)"
  shows "counts_ok (occupy l i p)" and "count free (ws (occupy l i p)) = count free (ws p) - 1"
proof -
  let ?w = "(ws p ! i)\<lparr>w_busy := True, w_low := l\<rparr>"
  have ok: "worker_ok (ws p ! i)" using assms by (simp add: counts_ok_def)
  have "worker_ok ?w" using free by (simp add: worker_ok_def is_idle_def)
  then have "\<forall>w \<in> set ((ws p)[i := ?w]). worker_ok w"
    using assms(1) set_update_subset_insert [of "ws p" i ?w] by (auto simp: counts_ok_def)
  moreover have "count w_alive ((ws p)[i := ?w]) = count w_alive (ws p)"
    by (rule count_update_same [OF i]) simp
  moreover have "count w_busy ((ws p)[i := ?w]) = count w_busy (ws p) + 1"
    by (rule count_update_in [OF i]) (use free in \<open>simp_all add: is_idle_def\<close>)
  moreover have "count w_low ((ws p)[i := ?w]) = count w_low (ws p) + of_bool l"
    using count_update [OF i, of w_low ?w] ok free by (simp add: worker_ok_def is_idle_def)
  ultimately show "counts_ok (occupy l i p)"
    using assms(1) i by (simp add: counts_ok_def occupy_def map_worker_in)
  show "count free (ws (occupy l i p)) = count free (ws p) - 1"
    using count_update_out [OF i, of free ?w] free by (simp add: occupy_def map_worker_in [OF i] is_idle_def)
qed

lemma vacate_counts:
  assumes ok: "counts_ok p" and i: "i < length (ws p)" and busy: "w_busy (ws p ! i)"
  shows "counts_ok (vacate i p)"
proof -
  let ?w = "(ws p ! i)\<lparr>w_busy := False, w_low := False\<rparr>"
  have "worker_ok ?w" by (simp add: worker_ok_def)
  then have "\<forall>w \<in> set ((ws p)[i := ?w]). worker_ok w"
    using ok set_update_subset_insert [of "ws p" i ?w] by (auto simp: counts_ok_def)
  moreover have "count w_alive ((ws p)[i := ?w]) = count w_alive (ws p)"
    by (rule count_update_same [OF i]) simp
  moreover have "usub (count w_busy (ws p)) 1 = count w_busy ((ws p)[i := ?w])"
    by (rule count_update_usub [OF i]) (use busy in simp_all)
  moreover have "(if w_low (ws p ! i) then usub (count w_low (ws p)) 1 else count w_low (ws p)) =
      count w_low ((ws p)[i := ?w])"
    using count_update_usub [OF i, of w_low ?w] count_update_same [OF i, of w_low ?w] by auto
  ultimately show ?thesis
    using ok i by (simp add: counts_ok_def vacate_def map_worker_in split: if_splits)
qed

section \<open>Who holds which worker\<close>

lemma hold_okD:
  assumes "hold_ok W S"
  shows "S r = Some (i, g) \<Longrightarrow> i < length W" and "S r = Some (i, g) \<Longrightarrow> g \<le> restart_count (W ! i)"
    and "S r = Some (i, restart_count (W ! i)) \<Longrightarrow> w_alive (W ! i) \<Longrightarrow> w_busy (W ! i)"
    and "S r = Some s \<Longrightarrow> S r' = Some s \<Longrightarrow> r = r'"
    and "i < length W \<Longrightarrow> w_busy (W ! i) \<Longrightarrow> \<exists>r. S r = Some (i, restart_count (W ! i))"
  using assms unfolding hold_ok_def by blast+

text \<open>One worker is replaced and the requests that hold it may change.\<close>

lemma hold_replace:
  assumes h: "hold_ok W S" and i: "i < length W"
    and own: "\<And>r g. S' r = Some (i, g) \<Longrightarrow>
      g \<le> restart_count w \<and> (g = restart_count w \<longrightarrow> w_alive w \<longrightarrow> w_busy w)"
    and others: "\<And>r j g. j \<noteq> i \<Longrightarrow> S' r = Some (j, g) \<longleftrightarrow> S r = Some (j, g)"
    and one: "\<And>r r' g. S' r = Some (i, g) \<Longrightarrow> S' r' = Some (i, g) \<Longrightarrow> r = r'"
    and held: "w_busy w \<Longrightarrow> \<exists>r. S' r = Some (i, restart_count w)"
  shows "hold_ok (W[i := w]) S'"
  unfolding hold_ok_def
proof (intro conjI allI impI)
  fix r j g assume s: "S' r = Some (j, g)"
  show "j < length (W[i := w])" "g \<le> restart_count (W[i := w] ! j)"
    using s own [of r g] others [of j r g] hold_okD(1,2) [OF h, of r j g] i by (cases "j = i"; simp)+
  show "w_busy (W[i := w] ! j)" if "g = restart_count (W[i := w] ! j)" "w_alive (W[i := w] ! j)"
    using s own [of r g] others [of j r g] hold_okD(3) [OF h, of r j] that i by (cases "j = i") auto
next
  fix r r' s assume "S' r = Some s" "S' r' = Some s"
  then show "r = r'"
    using others [of "fst s" r "snd s"] others [of "fst s" r' "snd s"] one [of r "snd s" r']
      hold_okD(4) [OF h, of r s r'] by (cases "fst s = i") (auto simp: prod_eq_iff)
next
  fix j assume j: "j < length (W[i := w])" "w_busy (W[i := w] ! j)"
  show "\<exists>r. S' r = Some (j, restart_count (W[i := w] ! j))"
  proof (cases "j = i")
    case False
    then have "\<exists>r. S r = Some (j, restart_count (W ! j))" using hold_okD(5) [OF h] j False by simp
    then show ?thesis using others [OF False] False by simp
  qed (use held i j in simp)
qed

lemma hold_take:
  assumes h: "hold_ok W S" and i: "i < length W" and free: "free (W ! i)" and r: "S r = None"
    and w: "restart_count w = restart_count (W ! i)" "w_busy w"
  shows "hold_ok (W[i := w]) (S(r \<mapsto> (i, restart_count (W ! i))))"
proof (rule hold_replace [OF h i])
  have none: "S r' \<noteq> Some (i, restart_count (W ! i))" for r'
    using hold_okD(3) [OF h] free by (auto simp: is_idle_def)
  show "r1 = r2" if "(S(r \<mapsto> (i, restart_count (W ! i)))) r1 = Some (i, g)"
    "(S(r \<mapsto> (i, restart_count (W ! i)))) r2 = Some (i, g)" for r1 r2 g
    using that none hold_okD(4) [OF h] by (auto split: if_splits)
qed (use w r hold_okD(2) [OF h] in \<open>auto split: if_splits\<close>)

text \<open>The worker of a request that leaves, when its generation is current, and when it is not.\<close>

lemma hold_leave_current:
  assumes h: "hold_ok W S" and r: "S r = Some (i, restart_count (W ! i))"
    and w: "restart_count w = restart_count (W ! i)" "\<not> w_busy w"
  shows "hold_ok (W[i := w]) (S(r := None))"
proof (rule hold_replace [OF h hold_okD(1) [OF h r]])
  show "g \<le> restart_count w \<and> (g = restart_count w \<longrightarrow> w_alive w \<longrightarrow> w_busy w)"
    if g: "(S(r := None)) r' = Some (i, g)" for r' g
  proof -
    have "r' \<noteq> r" "S r' = Some (i, g)" using g by (auto split: if_splits)
    then show ?thesis using hold_okD(2) [OF h, of r' i g] hold_okD(4) [OF h r, of r'] w by auto
  qed
qed (use w r hold_okD(4) [OF h] in \<open>auto split: if_splits\<close>)

lemma hold_leave:
  assumes h: "hold_ok W S" and r: "S r = Some (i, g)"
    and stale: "g \<noteq> restart_count (W ! i) \<or> \<not> w_busy (W ! i)"
  shows "hold_ok W (S(r := None))"
  unfolding hold_ok_def
proof (intro conjI allI impI)
  fix j assume "j < length W" "w_busy (W ! j)"
  then obtain r' where "S r' = Some (j, restart_count (W ! j))" using hold_okD(5) [OF h] by blast
  then show "\<exists>r'. (S(r := None)) r' = Some (j, restart_count (W ! j))"
    using stale r \<open>w_busy (W ! j)\<close> by (intro exI [of _ r']) auto
qed (use hold_okD [OF h] in \<open>auto split: if_splits\<close>)

lemma hold_ignore: "hold_ok W S \<Longrightarrow> S r = None \<Longrightarrow> hold_ok W (S(r := None))"
  by (simp add: fun_upd_idem)

text \<open>A worker that goes down, one that takes its place, a change of other flags, a new worker.\<close>

lemma hold_down:
  assumes h: "hold_ok W S" and i: "i < length W"
    and w: "restart_count w = restart_count (W ! i)" "\<not> w_busy w" "\<not> w_alive w"
  shows "hold_ok (W[i := w]) S"
  by (rule hold_replace [OF h i]) (use w hold_okD(2,4) [OF h] in auto)

lemma hold_respawn:
  assumes h: "hold_ok W S" and i: "i < length W"
    and w: "restart_count w = restart_count (W ! i) + 1" "\<not> w_busy w"
  shows "hold_ok (W[i := w]) S"
proof (rule hold_replace [OF h i])
  show "g \<le> restart_count w \<and> (g = restart_count w \<longrightarrow> w_alive w \<longrightarrow> w_busy w)" if "S r = Some (i, g)" for r g
    using hold_okD(2) [OF h that] w by simp
qed (use w hold_okD(4) [OF h] in auto)

lemma hold_flag:
  assumes h: "hold_ok W S" and i: "i < length W"
    and w: "restart_count w = restart_count (W ! i)" "w_busy w = w_busy (W ! i)" "w_alive w = w_alive (W ! i)"
  shows "hold_ok (W[i := w]) S"
proof (rule hold_replace [OF h i])
  show "g \<le> restart_count w \<and> (g = restart_count w \<longrightarrow> w_alive w \<longrightarrow> w_busy w)" if "S r = Some (i, g)" for r g
    using hold_okD(2,3) [OF h] that w by auto
qed (use w i hold_okD(4,5) [OF h] in auto)

lemma hold_append:
  assumes h: "hold_ok W S" and w: "\<not> w_busy w"
  shows "hold_ok (W @ [w]) S"
  unfolding hold_ok_def
proof (intro conjI allI impI)
  fix j assume "j < length (W @ [w])" "w_busy ((W @ [w]) ! j)"
  then have "j < length W" "w_busy (W ! j)" using w by (auto simp: nth_append less_Suc_eq split: if_splits)
  then show "\<exists>r. S r = Some (j, restart_count ((W @ [w]) ! j))"
    using hold_okD(5) [OF h] by (simp add: nth_append)
next
  fix r j g assume s: "S r = Some (j, g)"
  have j: "j < length W" by (rule hold_okD(1) [OF h s])
  then show "j < length (W @ [w])" "g \<le> restart_count ((W @ [w]) ! j)"
    using hold_okD(2) [OF h s] by (simp_all add: nth_append)
  show "w_busy ((W @ [w]) ! j)" if "g = restart_count ((W @ [w]) ! j)" "w_alive ((W @ [w]) ! j)"
    using that s j hold_okD(3) [OF h] by (simp add: nth_append)
qed (use hold_okD(4) [OF h] in blast)

section \<open>Dispatching\<close>

text \<open>What a dispatch leaves as it was; only the queued requests change.\<close>

definition dispatched :: "nat set \<Rightarrow> pool \<Rightarrow> pool \<Rightarrow> bool" where
  "dispatched Q p p' \<longleftrightarrow>
     alive_stateless_count p' = alive_stateless_count p \<and> low_limit p' = low_limit p
     \<and> max_low_limit p' = max_low_limit p \<and> options p' = options p \<and> shutting_down p' = shutting_down p
     \<and> length (ws p') = length (ws p)
     \<and> (\<forall>i < length (ws p). restart_count (ws p' ! i) = restart_count (ws p ! i)
          \<and> w_alive (ws p' ! i) = w_alive (ws p ! i))
     \<and> (\<forall>r. r \<notin> Q \<longrightarrow> sends p' r = sends p r)"

lemma dispatched_refl [simp]: "dispatched Q p p"
  by (simp add: dispatched_def)

lemma dispatched_trans: "dispatched Q p p1 \<Longrightarrow> dispatched Q p1 p2 \<Longrightarrow> dispatched Q p p2"
  by (simp add: dispatched_def)

lemma dispatched_mono: "dispatched Q p p' \<Longrightarrow> Q \<subseteq> R \<Longrightarrow> dispatched R p p'"
  by (auto simp: dispatched_def)

lemma set_phase_sends: "sends (set_phase r ph p) x =
    (if x = r then map_option (\<lambda>q. q\<lparr>rq_phase := ph\<rparr>) (sends p r) else sends p x)"
  by (simp add: set_phase_def)

lemma queue_pop:
  assumes q: "queue_ok X (if l then hq else r # rs) (if l then r # rs else lq) p"
    and ph: "ph \<noteq> Queued" and same: "sends p' = sends p"
  shows "queue_ok X (if l then hq else rs) (if l then rs else lq) (set_phase r ph p')"
    and "r \<notin> X" and "\<exists>q. sends p r = Some q \<and> slot_of (rq_phase q) = None"
  using q ph same unfolding queue_ok_def by (auto simp: set_phase_sends split: if_splits)

lemma slots_set_phase:
  assumes "r \<notin> X" and "sends p r = Some q"
  shows "slots X (set_phase r ph p) = (slots X p)(r := slot_of ph)"
  using assms by (auto simp: slots_def set_phase_sends fun_eq_iff)

lemma slots_cong: "sends p' = sends p \<Longrightarrow> slots X p' = slots X p"
  by (simp add: slots_def fun_eq_iff)

lemma dispatch_ok:
  assumes "counts_ok p" and "hold_ok (ws p) (slots X p)"
    and "queue_ok X (if l then hq else rs) (if l then rs else lq) p"
  shows "\<exists>rs' p'. dispatch l rs (count free (ws p)) p = Some (rs', count free (ws p'), p')
    \<and> counts_ok p' \<and> hold_ok (ws p') (slots X p')
    \<and> queue_ok X (if l then hq else rs') (if l then rs' else lq) p'
    \<and> dispatched (set rs) p p' \<and> high_queue p' = high_queue p \<and> low_queue p' = low_queue p"
  using assms
proof (induction rs arbitrary: p)
  case Nil
  then show ?case by auto
next
  case (Cons r rs)
  show ?case
  proof (cases "0 < count free (ws p) \<and> (\<not> l \<or> low_busy_count p < low_limit p)")
    case True
    obtain i where pick: "pick_idle_stateless p = Some i" and i: "i < length (ws p)" and free: "free (ws p ! i)"
      using pick_idle True by blast
    define w where "w = (ws p ! i)\<lparr>w_busy := True, w_low := l\<rparr>"
    let ?g = "restart_count (ws p ! i)"
    let ?p = "set_phase r (Woken (Some i) ?g) (occupy l i p)"
    have ws: "ws ?p = (ws p)[i := w]" by (simp add: occupy_def map_worker_in [OF i] w_def)
    note pop = queue_pop [OF Cons.prems(3), of "Woken (Some i) ?g" "occupy l i p"]
    have q: "queue_ok X (if l then hq else rs) (if l then rs else lq) ?p" using pop(1) by simp
    obtain q where sq: "sends p r = Some q" and none: "slot_of (rq_phase q) = None" and rX: "r \<notin> X"
      using pop(2,3) by auto
    have "slots X p r = None" using sq none by (simp add: slots_def)
    then have "hold_ok ((ws p)[i := w]) ((slots X p)(r \<mapsto> (i, ?g)))"
      using hold_take [OF Cons.prems(2) i free, of r w] by (simp add: w_def)
    moreover have "slots X ?p = (slots X p)(r \<mapsto> (i, ?g))"
      using slots_set_phase [OF rX, of "occupy l i p" q "Woken (Some i) ?g"] sq
        slots_cong [of "occupy l i p" p] by simp
    ultimately have h: "hold_ok (ws ?p) (slots X ?p)" by (simp only: ws)
    have c: "counts_ok ?p" "count free (ws ?p) = count free (ws p) - 1"
      using occupy_counts [OF Cons.prems(1) i free, of l] by simp_all
    have "dispatched (set (r # rs)) p ?p"
      using i by (auto simp: dispatched_def ws w_def nth_list_update set_phase_sends occupy_def map_worker_def)
    then show ?thesis
      using Cons.IH [OF c(1) h q] True pick c(2) dispatched_mono [of "set rs" ?p _ "set (r # rs)"]
        dispatched_trans [of "set (r # rs)" p ?p]
      by (fastforce simp: occupy_def [of l i p, symmetric])
  next
    case False
    then show ?thesis using Cons.prems by auto
  qed
qed

lemma queue_fields [simp]:
  "counts_ok (p\<lparr>high_queue := a\<rparr>) = counts_ok p" "counts_ok (p\<lparr>low_queue := a\<rparr>) = counts_ok p"
  "slots X (p\<lparr>high_queue := a\<rparr>) = slots X p" "slots X (p\<lparr>low_queue := a\<rparr>) = slots X p"
  "queue_ok X hq lq (p\<lparr>high_queue := a\<rparr>) = queue_ok X hq lq p"
  "queue_ok X hq lq (p\<lparr>low_queue := a\<rparr>) = queue_ok X hq lq p"
  "dispatched Q p' (p\<lparr>high_queue := a\<rparr>) = dispatched Q p' p"
  "dispatched Q p' (p\<lparr>low_queue := a\<rparr>) = dispatched Q p' p"
  "dispatched Q (p\<lparr>high_queue := a\<rparr>) p' = dispatched Q p p'"
  by (simp_all add: counts_ok_def slots_def queue_ok_def dispatched_def fun_eq_iff)

text \<open>The dispatch of waiting requests is defined in every state that satisfies the invariant.\<close>

lemma try_dispatch_ok:
  assumes inv: "pool_inv X (high_queue p) (low_queue p) p"
  obtains p' where "try_dispatch_pending p = Some p'" and "pool_inv X (high_queue p') (low_queue p') p'"
    and "dispatched (set (high_queue p) \<union> set (low_queue p)) p p'"
proof -
  note i = pool_invD [OF inv]
  let ?Q = "set (high_queue p) \<union> set (low_queue p)"
  obtain hs p1 where d1: "dispatch False (high_queue p) (count free (ws p)) p = Some (hs, count free (ws p1), p1)"
    and c1: "counts_ok p1" "hold_ok (ws p1) (slots X p1)" "queue_ok X hs (low_queue p) p1"
    and f1: "dispatched (set (high_queue p)) p p1" "low_queue p1 = low_queue p"
    using dispatch_ok [OF i(1,2), of False "high_queue p" "high_queue p" "low_queue p"] i(3) by auto
  let ?p1 = "p1\<lparr>high_queue := hs\<rparr>"
  obtain ls p2 where d2: "dispatch True (low_queue p) (count free (ws ?p1)) ?p1 = Some (ls, count free (ws p2), p2)"
    and c2: "counts_ok p2" "hold_ok (ws p2) (slots X p2)" "queue_ok X hs ls p2"
    and f2: "dispatched (set (low_queue p)) ?p1 p2" "high_queue p2 = hs"
    using dispatch_ok [of ?p1 X True hs "low_queue p" "low_queue p"] c1 by auto
  have run: "try_dispatch_pending p = Some (p2\<lparr>low_queue := ls\<rparr>)"
    using d1 d2 f1(2) by (simp add: try_dispatch_pending_def dispatch_idle [OF i(1)])
  have f: "dispatched ?Q p (p2\<lparr>low_queue := ls\<rparr>)"
    using dispatched_trans [OF dispatched_mono [OF f1(1), of ?Q] dispatched_mono [OF f2(1) [simplified], of ?Q]]
    by simp
  have "pool_inv X (high_queue (p2\<lparr>low_queue := ls\<rparr>)) (low_queue (p2\<lparr>low_queue := ls\<rparr>)) (p2\<lparr>low_queue := ls\<rparr>)"
    using c2 f2(2) by (simp add: pool_inv_def)
  then show ?thesis using that [OF run _ f] by blast
qed

section \<open>Releasing and acquiring\<close>

lemma slots_insert: "slots (insert r X) p = (slots X p)(r := None)"
  by (auto simp: slots_def fun_eq_iff)

lemma queue_exempt:
  assumes q: "queue_ok X hq lq p" and r: "sends p r = Some q" "rq_phase q \<noteq> Queued"
  shows "queue_ok (insert r X) hq lq p"
proof (rule queue_okI)
  show "x \<notin> insert r X" if "x \<in> set (hq @ lq)" for x
    using queue_okD(2,3) [OF q that] r by auto
qed (use queue_okD [OF q] in blast)+

lemma queue_other:
  assumes q: "queue_ok (insert r X) hq lq p" and same: "\<And>x. x \<noteq> r \<Longrightarrow> sends p' x = sends p x"
  shows "queue_ok (insert r X) hq lq p'"
proof (rule queue_okI)
  show "\<exists>q. sends p' x = Some q \<and> rq_phase q = Queued \<and> rq_priority q = (if x \<in> set hq then High else Low)"
    if "x \<in> set (hq @ lq)" for x
  proof -
    have "x \<noteq> r" using queue_okD(2) [OF q that] by blast
    then show ?thesis using queue_okD(3) [OF q that] same by simp
  qed
  show "x \<in> set (hq @ lq)" if "x \<notin> insert r X" "sends p' x = Some y" "rq_phase y = Queued" for x y
    using queue_okD(4) [OF q that(1) _ that(3)] same that by simp
qed (use queue_okD(1,2) [OF q] in blast)+

lemma slots_other: "(\<And>x. x \<noteq> r \<Longrightarrow> sends p' x = sends p x) \<Longrightarrow> slots (insert r X) p' = slots (insert r X) p"
  by (auto simp: slots_def fun_eq_iff)

text \<open>A request that is in transit may change freely; at rest it must not be queued nor hold a slot.\<close>

lemma inv_other:
  assumes "pool_inv {r} hq lq p" and "\<And>x. x \<noteq> r \<Longrightarrow> sends p' x = sends p x"
    and "ws p' = ws p" "counts_ok p' = counts_ok p"
  shows "pool_inv {r} hq lq p'"
  using assms queue_other [of r "{}" hq lq p p'] slots_other [of r p' p "{}"] by (simp add: pool_inv_def)

lemma inv_rest:
  assumes "pool_inv {r} hq lq p" and "\<And>q. sends p r = Some q \<Longrightarrow> rq_phase q \<noteq> Queued \<and> slot_of (rq_phase q) = None"
  shows "pool_inv {} hq lq p"
proof -
  have "slots {} p = slots {r} p" using assms(2) by (auto simp: slots_def fun_eq_iff split: option.splits bind_splits)
  moreover have "queue_ok {} hq lq p"
  proof (rule queue_okI)
    note q = queue_okD [OF pool_invD(3) [OF assms(1)]]
    show "x \<in> set (hq @ lq)" if "sends p x = Some y" "rq_phase y = Queued" for x y
      using q(4) [of x y] that assms(2) by (cases "x = r") auto
  qed (use queue_okD(1,3) [OF pool_invD(3) [OF assms(1)]] in blast)+
  ultimately show ?thesis using assms(1) by (simp add: pool_inv_def)
qed

text \<open>Two pools that differ in the state of one request, and in data the invariant does not mention.\<close>

definition same_but :: "nat \<Rightarrow> pool \<Rightarrow> pool \<Rightarrow> bool" where
  "same_but r p p' \<longleftrightarrow>
     ws p' = ws p \<and> alive_stateless_count p' = alive_stateless_count p
     \<and> stateless_busy_count p' = stateless_busy_count p \<and> low_busy_count p' = low_busy_count p
     \<and> low_limit p' = low_limit p \<and> max_low_limit p' = max_low_limit p \<and> options p' = options p
     \<and> shutting_down p' = shutting_down p
     \<and> high_queue p' = high_queue p \<and> low_queue p' = low_queue p \<and> (\<forall>x. x \<noteq> r \<longrightarrow> sends p' x = sends p x)"

lemma same_butI [simp]:
  "same_but r p p" "same_but r p (set_phase r ph p)" "same_but r p (p\<lparr>sends := (sends p)(r := y)\<rparr>)"
  "same_but r p (install_cancel r prio i p)" "same_but r p (p\<lparr>slot_cancel_sources := cs\<rparr>)"
  by (auto simp: same_but_def set_phase_sends install_cancel_def)

lemma same_but_trans: "same_but r p p1 \<Longrightarrow> same_but r p1 p2 \<Longrightarrow> same_but r p p2"
  by (simp add: same_but_def)

lemma same_but_inv:
  assumes "same_but r p p'" and "pool_inv {r} (high_queue p) (low_queue p) p"
  shows "pool_inv {r} (high_queue p') (low_queue p') p'"
  using assms inv_other [of r "high_queue p" "low_queue p" p p'] by (auto simp: same_but_def counts_ok_def)

lemma same_but_counts: "same_but r p p' \<Longrightarrow> counts_ok p' = counts_ok p" "same_but r p p' \<Longrightarrow> ws p' = ws p"
  by (simp_all add: same_but_def counts_ok_def)

lemma same_but_limit: "same_but r p p' \<Longrightarrow> limit_ok p' = limit_ok p"
  by (simp add: same_but_def limit_ok_def)

lemma dispatched_limit: "dispatched Q p p' \<Longrightarrow> limit_ok p' = limit_ok p"
  by (simp add: dispatched_def limit_ok_def)

lemma holder_not_queued:
  assumes "queue_ok {} hq lq p" and "slots {} p r = Some s"
  shows "r \<notin> set (hq @ lq)" and "\<exists>q. sends p r = Some q \<and> rq_phase q \<noteq> Queued \<and> slot_of (rq_phase q) = Some s"
proof -
  obtain q where q: "sends p r = Some q" "slot_of (rq_phase q) = Some s"
    using assms(2) by (auto simp: slots_def split: bind_splits)
  then show "\<exists>q. sends p r = Some q \<and> rq_phase q \<noteq> Queued \<and> slot_of (rq_phase q) = Some s" by auto
  then show "r \<notin> set (hq @ lq)" using queue_okD(3) [OF assms(1), of r] q by auto
qed

lemma vacate_ws: "i < length (ws p) \<Longrightarrow> ws (vacate i p) = (ws p)[i := (ws p ! i)\<lparr>w_busy := False, w_low := False\<rparr>]"
  by (simp add: vacate_def map_worker_in)

lemma slot_exit_ok:
  assumes good: "good_pool p" and r: "slots {} p r = Some (i, g)" and same: "same_but r p p0"
  obtains p1 where "slot_exit i g p0 = Some p1" and "pool_inv {r} (high_queue p1) (low_queue p1) p1"
    and "sends p1 r = sends p0 r" and "limit_ok p1 = limit_ok p0" and "shutting_down p1 = shutting_down p0"
proof -
  note inv = pool_invD [OF good]
  note hnq = holder_not_queued [OF inv(3) r]
  have i: "i < length (ws p)" by (rule hold_okD(1) [OF inv(2) r])
  have q: "queue_ok {r} (high_queue p) (low_queue p) p" using queue_exempt [OF inv(3)] hnq(2) by auto
  have s: "slots {r} p = (slots {} p)(r := None)" by (rule slots_insert)
  show ?thesis
  proof (cases "g = restart_count (ws p ! i) \<and> w_busy (ws p ! i)")
    case False
    then have "hold_ok (ws p) (slots {r} p)"
      unfolding s by (intro hold_leave [OF inv(2) r]) blast
    then have "pool_inv {r} (high_queue p) (low_queue p) p" using inv(1) q by (simp add: pool_inv_def)
    moreover have "slot_exit i g p0 = Some p0"
      using False same by (auto simp: slot_exit_def release_stateless_slot_def same_but_def)
    ultimately show ?thesis using that [of p0] same_but_inv [OF same] by simp
  next
    case True
    let ?pc = "p0\<lparr>slot_cancel_sources := (if i < length (slot_cancel_sources p0)
      then (slot_cancel_sources p0)[i := None] else slot_cancel_sources p0)\<rparr>"
    let ?w = "(ws p ! i)\<lparr>w_busy := False, w_low := False\<rparr>"
    have same': "same_but r p ?pc" by (rule same_but_trans [OF same]) simp
    have ws: "ws ?pc = ws p" by (rule same_but_counts(2) [OF same'])
    have cnt: "counts_ok ?pc" using same_but_counts(1) [OF same'] inv(1) by blast
    have c: "counts_ok (vacate i ?pc)"
      by (rule vacate_counts [OF cnt]) (use i True ws in simp_all)
    have "slots {r} (vacate i ?pc) = slots {r} p"
      by (rule slots_other) (use same' in \<open>simp add: same_but_def\<close>)
    moreover have "hold_ok ((ws p)[i := ?w]) (slots {r} p)"
      unfolding s by (rule hold_leave_current [OF inv(2)]) (use r True in simp_all)
    ultimately have h: "hold_ok (ws (vacate i ?pc)) (slots {r} (vacate i ?pc))"
      using vacate_ws [of i ?pc] i ws by simp
    have qs: "queue_ok {r} (high_queue (vacate i ?pc)) (low_queue (vacate i ?pc)) (vacate i ?pc)"
      using queue_other [OF q, of "vacate i ?pc"] same' by (simp add: same_but_def)
    have "pool_inv {r} (high_queue (vacate i ?pc)) (low_queue (vacate i ?pc)) (vacate i ?pc)"
      using c h qs by (simp add: pool_inv_def)
    from try_dispatch_ok [OF this] obtain p1 where
      p1: "try_dispatch_pending (vacate i ?pc) = Some p1" "pool_inv {r} (high_queue p1) (low_queue p1) p1"
      and d: "dispatched (set (high_queue p0) \<union> set (low_queue p0)) (vacate i ?pc) p1" by auto
    have run: "slot_exit i g p0 = Some p1"
      using True i p1(1) same by (simp add: slot_exit_def release_stateless_slot_def same_but_def)
    have "sends p1 r = sends p0 r"
      using d hnq(1) same by (simp add: dispatched_def same_but_def)
    moreover have "limit_ok p1 = limit_ok p0" "shutting_down p1 = shutting_down p0"
      using d by (simp_all add: dispatched_def limit_ok_def)
    ultimately show ?thesis using that [OF run p1(2)] by blast
  qed
qed

lemma inv_settle:
  assumes inv: "pool_inv {r} (high_queue p) (low_queue p) p" and r: "sends p r = Some q"
    and ph: "ph \<noteq> Queued" "slot_of ph = None"
  shows "good_pool (set_phase r ph p)"
proof (rule inv_rest)
  show "pool_inv {r} (high_queue (set_phase r ph p)) (low_queue (set_phase r ph p)) (set_phase r ph p)"
    by (rule same_but_inv [OF _ inv]) simp
qed (use r ph in \<open>auto simp: set_phase_sends\<close>)

lemma enqueue_ok:
  assumes inv: "pool_inv {r} (high_queue p) (low_queue p) p"
    and r: "sends p r = Some q" "rq_priority q = prio"
  shows "good_pool (enqueue r prio p)"
proof -
  let ?p = "enqueue r prio p"
  note i = pool_invD [OF inv] and q = queue_okD [OF pool_invD(3) [OF inv]]
  have new: "r \<notin> set (high_queue p @ low_queue p)" using q(2) by blast
  have sends: "sends ?p x = (if x = r then Some (q\<lparr>rq_phase := Queued\<rparr>) else sends p x)" for x
    using r by (simp add: enqueue_def set_phase_sends)
  have queues: "set (high_queue ?p @ low_queue ?p) = insert r (set (high_queue p @ low_queue p))"
    "set (high_queue ?p) = (if prio = High then insert r (set (high_queue p)) else set (high_queue p))"
    by (auto simp: enqueue_def)
  have "queue_ok {} (high_queue ?p) (low_queue ?p) ?p"
  proof (rule queue_okI)
    show "distinct (high_queue ?p @ low_queue ?p)" using q(1) new by (auto simp: enqueue_def)
    show "\<exists>q. sends ?p x = Some q \<and> rq_phase q = Queued \<and> rq_priority q = (if x \<in> set (high_queue ?p) then High else Low)"
      if "x \<in> set (high_queue ?p @ low_queue ?p)" for x
    proof (cases "x = r")
      case True
      then have "x \<in> set (high_queue ?p) \<longleftrightarrow> prio = High" using new unfolding queues(2) by auto
      moreover have "sends ?p x = Some (q\<lparr>rq_phase := Queued\<rparr>)" using True by (simp add: sends)
      ultimately show ?thesis using r(2) by (cases prio) auto
    next
      case False
      then show ?thesis using q(3) [of x] that unfolding queues by (auto simp: sends)
    qed
    show "x \<in> set (high_queue ?p @ low_queue ?p)" if "sends ?p x = Some y" "rq_phase y = Queued" for x y
      using q(4) [of x y] that unfolding queues by (auto simp: sends split: if_splits)
  qed simp
  moreover have "counts_ok ?p" "ws ?p = ws p" using i(1) by (simp_all add: enqueue_def)
  moreover have "slots {} ?p = slots {r} p" by (auto simp: slots_def sends fun_eq_iff)
  ultimately show ?thesis using i(2) by (simp add: pool_inv_def)
qed

lemma enqueue_view [simp]:
  "limit_ok (enqueue r prio p) = limit_ok p" "shutting_down (enqueue r prio p) = shutting_down p"
  by (auto simp: enqueue_def limit_ok_def)

lemma hold_slot_view [simp]:
  "ws (hold_slot r q i p) = ws p" "counts_ok (hold_slot r q i p) = counts_ok p"
  "high_queue (hold_slot r q i p) = high_queue p" "low_queue (hold_slot r q i p) = low_queue p"
  "limit_ok (hold_slot r q i p) = limit_ok p" "shutting_down (hold_slot r q i p) = shutting_down p"
  "sends (hold_slot r q i p) x = (if x = r
     then map_option (\<lambda>q. q\<lparr>rq_phase := Holding i (restart_count (ws p ! i))\<rparr>) (sends p r) else sends p x)"
  by (auto simp: hold_slot_def install_cancel_def counts_ok_def limit_ok_def set_phase_def)

lemma acquire_pick_ok:
  assumes inv: "pool_inv {r} (high_queue p) (low_queue p) p" and r: "sends p r = Some q0"
    and pick: "pick_idle_stateless p = Some i"
  shows "good_pool (hold_slot r q i (occupy l i p))"
proof -
  note v = pool_invD [OF inv]
  have i: "i < length (ws p)" and free: "free (ws p ! i)"
    using pick first_index_Some [of free "ws p" i] by (simp_all add: pick_idle_stateless_def)
  let ?w = "(ws p ! i)\<lparr>w_busy := True, w_low := l\<rparr>"
  let ?p = "hold_slot r q i (occupy l i p)"
  have ws: "ws ?p = (ws p)[i := ?w]" by (simp add: occupy_def map_worker_in [OF i])
  have g: "restart_count (ws (occupy l i p) ! i) = restart_count (ws p ! i)"
    using i by (simp add: occupy_def map_worker_in)
  have "hold_ok ((ws p)[i := ?w]) ((slots {r} p)(r \<mapsto> (i, restart_count (ws p ! i))))"
    by (rule hold_take [OF v(2) i free]) (simp_all add: slots_def)
  moreover have "slots {} ?p = (slots {r} p)(r \<mapsto> (i, restart_count (ws p ! i)))"
    using r g by (auto simp: slots_def fun_eq_iff)
  ultimately have h: "hold_ok (ws ?p) (slots {} ?p)" by (simp only: ws)
  have "queue_ok {r} (high_queue p) (low_queue p) ?p"
    by (rule queue_other [OF v(3)]) simp
  then have "queue_ok {} (high_queue p) (low_queue p) ?p"
    using queue_okD [of "{r}" "high_queue p" "low_queue p" ?p] r
    by (intro queue_okI) (blast, blast, blast, auto split: if_splits)
  then show ?thesis using h occupy_counts(1) [OF v(1) i free] by (simp add: pool_inv_def)
qed

lemma acquire_slot_ok:
  assumes inv: "pool_inv {r} (high_queue p) (low_queue p) p"
    and r: "sends p r = Some q0" "rq_priority q0 = rq_priority q"
    and run: "acquire_slot r q p = Some p'"
  shows "good_pool p'" and "limit_ok p' = limit_ok p" and "shutting_down p' = shutting_down p"
proof -
  have "good_pool p' \<and> limit_ok p' = limit_ok p \<and> shutting_down p' = shutting_down p"
  proof (cases "alive_stateless_count p = 0")
    case True
    then show ?thesis
      using run inv_settle [OF inv r(1), of "Returned (Some Workers_down)"]
      by (auto simp: acquire_slot_def limit_ok_def)
  next
    case alive: False
    show ?thesis
    proof (cases "can_proceed (rq_priority q) (rq_exclude q) p")
      case False
      then show ?thesis
        using run alive enqueue_ok [OF inv r] by (auto simp: acquire_slot_def)
    next
      case True
      then obtain i where pick: "pick_idle_stateless p = Some i"
        and p': "p' = hold_slot r q i (occupy (rq_priority q = Low) i p)"
        using run alive by (auto simp: acquire_slot_def split: option.splits)
      show ?thesis
        using acquire_pick_ok [OF inv r(1) pick] by (simp add: p') (simp add: limit_ok_def)
    qed
  qed
  then show "good_pool p'" and "limit_ok p' = limit_ok p" and "shutting_down p' = shutting_down p" by auto
qed

text \<open>
  When the counters allow a request to proceed there is a worker for it, unless the worker to avoid is
  itself idle and retiring: then it is subtracted twice.
\<close>

lemma acquire_slot_defined:
  assumes ok: "counts_ok p"
    and excl: "\<And>i. rq_exclude q = Some i \<Longrightarrow> i < length (ws p) \<Longrightarrow> is_idle (ws p ! i) \<Longrightarrow> \<not> w_retiring (ws p ! i)"
  shows "acquire_slot r q p \<noteq> None"
proof (cases "can_proceed (rq_priority q) (rq_exclude q) p")
  case True
  note idle = idle_count [OF ok] and le = busy_le_alive [OF ok]
  define ex where "ex \<longleftrightarrow> (case rq_exclude q of None \<Rightarrow> False
    | Some i \<Rightarrow> i < length (ws p) \<and> is_idle (ws p ! i))"
  have free: "0 < count free (ws p)" if e: "ex"
  proof -
    obtain i where "i < length (ws p)" "free (ws p ! i)"
      using e excl by (auto simp: ex_def split: option.splits)
    then show ?thesis unfolding count_pos using nth_mem by blast
  qed
  define n where "n = (if ex then 1 else (0::nat))"
  have n: "n \<le> count free (ws p)" using free by (simp add: n_def Suc_le_eq)
  have "retiring_idle p \<le> count is_idle (ws p) - n" "n \<le> count is_idle (ws p)" using n idle(2,3) by linarith+
  moreover have "idle_for (rq_exclude q) p = ((\<lambda>m. usub m 1) ^^ retiring_idle p)
      (if ex then usub (count is_idle (ws p)) 1 else count is_idle (ws p))"
    using idle(1) le by (simp add: idle_for_def ex_def [symmetric] Let_def)
  ultimately have "idle_for (rq_exclude q) p = count is_idle (ws p) - n - retiring_idle p"
    by (cases ex) (simp_all add: n_def usub_iter [simplified])
  then have "idle_for (rq_exclude q) p = count free (ws p) - n" using idle(3) by linarith
  then have "0 < count free (ws p)" using True by (auto simp: can_proceed_def split: if_splits)
  then obtain i where "pick_idle_stateless p = Some i" using pick_idle by blast
  then show ?thesis by (simp add: acquire_slot_def)
qed (simp add: acquire_slot_def)

end
