(* ===== verification/Worker_Pool_Steps.thy ===== *)
theory Worker_Pool_Steps
  imports Worker_Pool_Inv
begin

text \<open>
  The stateless side of the worker pool as a transition system: requests are sent, resumed, answered
  and cancelled, workers exit, the memory monitor ticks, in any order. Every step keeps the invariant
  of \<open>Worker_Pool_Inv\<close>; the properties of the pool are read off it.
\<close>

section \<open>Steps of a request\<close>

definition pool_good :: "pool \<Rightarrow> bool" where
  "pool_good p \<longleftrightarrow> good_pool p \<and> limit_ok p"

lemma next_attempt_ok:
  assumes inv: "pool_inv {r} (high_queue p) (low_queue p) p" and lim: "limit_ok p"
    and run: "next_attempt r q p = Some p'"
  shows "pool_good p'"
proof -
  let ?q = "q\<lparr>rq_attempt := rq_attempt q + 1\<rparr>"
  let ?p = "p\<lparr>sends := (sends p)(r \<mapsto> ?q)\<rparr>"
  have inv': "pool_inv {r} (high_queue ?p) (low_queue ?p) ?p" by (rule same_but_inv [OF _ inv]) simp
  have lim': "limit_ok ?p" using lim by (simp add: limit_ok_def)
  show ?thesis
  proof (cases "rq_attempt q + 1 < 2")
    case True
    then have "acquire_slot r ?q ?p = Some p'" using run by (simp add: next_attempt_def Let_def)
    from acquire_slot_ok [OF inv' _ _ this] lim' show ?thesis by (simp add: pool_good_def)
  next
    case False
    then show ?thesis
      using run inv_settle [OF inv', of ?q "Returned (Some Failed_after_retries)"] lim'
      by (auto simp: next_attempt_def pool_good_def limit_ok_def)
  qed
qed

lemma send_stateless_ok:
  assumes good: "pool_good p" and new: "sends p r = None" and run: "send_stateless r prio p = Some p'"
  shows "pool_good p'"
proof -
  let ?q = "\<lparr>rq_priority = prio, rq_attempt = 0, rq_exclude = None, rq_phase = Queued\<rparr>"
  let ?p = "p\<lparr>sends := (sends p)(r \<mapsto> ?q)\<rparr>"
  note i = pool_invD [of "{}" "high_queue p" "low_queue p" p] and q = queue_okD [of "{}" "high_queue p" "low_queue p" p]
  have g: "good_pool p" "limit_ok p" using good by (simp_all add: pool_good_def)
  have "queue_ok {r} (high_queue p) (low_queue p) p"
    using q [OF i(3) [OF g(1)]] new by (intro queue_okI) (blast, fastforce, blast, blast)
  moreover have "slots {r} p = slots {} p" using new by (auto simp: slots_def fun_eq_iff)
  ultimately have "pool_inv {r} (high_queue p) (low_queue p) p"
    using i [OF g(1)] by (simp add: pool_inv_def)
  then have inv: "pool_inv {r} (high_queue ?p) (low_queue ?p) ?p" using same_but_inv [of r p ?p] by simp
  have lim: "limit_ok ?p" using g(2) by (simp add: limit_ok_def)
  show ?thesis
  proof (cases "ws p = []")
    case True
    then show ?thesis
      using run inv_settle [OF inv, of ?q "Returned (Some Workers_down)"] lim
      by (auto simp: send_stateless_def pool_good_def limit_ok_def)
  next
    case False
    then have "acquire_slot r ?q ?p = Some p'" using run by (simp add: send_stateless_def Let_def)
    from acquire_slot_ok [OF inv _ _ this] lim show ?thesis by (simp add: pool_good_def)
  qed
qed

text \<open>A request that holds a slot it can no longer use leaves it without a release.\<close>

lemma inv_stale:
  assumes good: "good_pool p" and r: "slots {} p r = Some (i, g)"
    and stale: "g \<noteq> restart_count (ws p ! i) \<or> \<not> w_busy (ws p ! i)"
  shows "pool_inv {r} (high_queue p) (low_queue p) p"
proof -
  note inv = pool_invD [OF good]
  have "queue_ok {r} (high_queue p) (low_queue p) p"
    using queue_exempt [OF inv(3)] holder_not_queued(2) [OF inv(3) r] by blast
  moreover have "hold_ok (ws p) (slots {r} p)"
    unfolding slots_insert by (rule hold_leave [OF inv(2) r stale])
  ultimately show ?thesis using inv(1) by (simp add: pool_inv_def)
qed

lemma hold_slot_ok:
  assumes good: "good_pool p" and s: "sends p r = Some q0" "slot_of (rq_phase q0) = Some (i, restart_count (ws p ! i))"
  shows "good_pool (hold_slot r q i p)"
proof -
  note inv = pool_invD [OF good]
  have r: "slots {} p r = Some (i, restart_count (ws p ! i))" using s by (simp add: slots_def)
  let ?p = "hold_slot r q i p"
  have "slots {} ?p = slots {} p" using s by (auto simp: slots_def fun_eq_iff)
  moreover have "queue_ok {} (high_queue p) (low_queue p) ?p"
  proof (rule queue_okI)
    note qd = queue_okD [OF inv(3)]
    show "\<exists>q. sends ?p x = Some q \<and> rq_phase q = Queued
        \<and> rq_priority q = (if x \<in> set (high_queue p) then High else Low)"
      if "x \<in> set (high_queue p @ low_queue p)" for x
      using qd(3) [OF that] holder_not_queued(1) [OF inv(3) r] that by auto
    show "x \<in> set (high_queue p @ low_queue p)" if "sends ?p x = Some y" "rq_phase y = Queued" for x y
      using qd(4) [of x y] that s by (auto split: if_splits)
  qed (use queue_okD(1) [OF inv(3)] in simp_all)
  ultimately show ?thesis using inv by (simp add: pool_inv_def)
qed

lemma enter_slot_ok:
  assumes good: "pool_good p" and s: "sends p r = Some q" "slot_of (rq_phase q) = Some (i, restart_count (ws p ! i))"
    and run: "enter_slot r q i p = Some p'"
  shows "pool_good p'"
proof (cases "w_alive (ws p ! i)")
  case True
  then show ?thesis
    using run hold_slot_ok [OF _ s] good by (auto simp: enter_slot_def pool_good_def)
next
  case False
  have g: "good_pool p" "limit_ok p" using good by (simp_all add: pool_good_def)
  have r: "slots {} p r = Some (i, restart_count (ws p ! i))" using s by (simp add: slots_def)
  have i: "i < length (ws p)" by (rule hold_okD(1) [OF pool_invD(2) [OF g(1)] r])
  then have nb: "\<not> w_busy (ws p ! i)"
    using False pool_invD(1) [OF g(1)] by (auto simp: counts_ok_def worker_ok_def)
  have "pool_inv {r} (high_queue p) (low_queue p) p" by (rule inv_stale [OF g(1) r]) (use nb in simp)
  moreover have "next_attempt r q p = Some p'"
    using run False nb by (simp add: enter_slot_def slot_exit_def release_stateless_slot_def)
  ultimately show ?thesis using next_attempt_ok g(2) by blast
qed

lemma resume_send_ok:
  assumes good: "pool_good p" and run: "resume_send r p = Some p'"
  shows "pool_good p'"
proof (cases "\<exists>q a g. sends p r = Some q \<and> rq_phase q = Woken a g")
  case False
  then show ?thesis using run good by (auto simp: resume_send_def split: option.splits phase.splits)
next
  case True
  then obtain q a g where q: "sends p r = Some q" "rq_phase q = Woken a g" by blast
  have gd: "good_pool p" "limit_ok p" using good by (simp_all add: pool_good_def)
  show ?thesis
  proof (cases a)
    case None
    have "queue_ok {r} (high_queue p) (low_queue p) p"
      using queue_exempt [OF pool_invD(3) [OF gd(1)] q(1)] q(2) by simp
    moreover have "slots {r} p = slots {} p" using q None by (auto simp: slots_def fun_eq_iff)
    ultimately have "pool_inv {r} (high_queue p) (low_queue p) p"
      using pool_invD [OF gd(1)] by (simp add: pool_inv_def)
    then show ?thesis
      using run q None inv_settle [OF _ q(1), of "Returned (Some Workers_down)"] gd(2)
      by (auto simp: resume_send_def pool_good_def limit_ok_def)
  next
    case (Some i)
    have s: "slots {} p r = Some (i, g)" using q Some by (simp add: slots_def)
    show ?thesis
    proof (cases "restart_count (ws p ! i) = g")
      case True
      then show ?thesis using enter_slot_ok [OF good q(1)] run q Some by (simp add: resume_send_def)
    next
      case False
      have "pool_inv {r} (high_queue p) (low_queue p) p" by (rule inv_stale [OF gd(1) s]) (use False in auto)
      from acquire_slot_ok [OF this q(1) refl] show ?thesis
        using run q Some False gd(2) by (simp add: resume_send_def pool_good_def)
    qed
  qed
qed

lemma answer_send_ok:
  assumes good: "pool_good p" and run: "answer_send r v p = Some p'"
  shows "pool_good p'"
proof (cases "\<exists>q i g. sends p r = Some q \<and> rq_phase q = Holding i g")
  case False
  then show ?thesis using run good by (auto simp: answer_send_def split: option.splits phase.splits)
next
  case True
  then obtain q i g where q: "sends p r = Some q" "rq_phase q = Holding i g" by blast
  have gd: "good_pool p" "limit_ok p" using good by (simp_all add: pool_good_def)
  have s: "slots {} p r = Some (i, g)" using q by (simp add: slots_def)
  have fin: "pool_good p'" if "slot_exit i g (set_phase r (Returned e) p) = Some p'" for e
  proof -
    obtain p1 where p1: "slot_exit i g (set_phase r (Returned e) p) = Some p1"
      "pool_inv {r} (high_queue p1) (low_queue p1) p1" "sends p1 r = sends (set_phase r (Returned e) p) r"
      "limit_ok p1 = limit_ok (set_phase r (Returned e) p)"
      using slot_exit_ok [OF gd(1) s, of "set_phase r (Returned e) p"] by auto
    have "good_pool p1" by (rule inv_rest [OF p1(2)]) (use p1(3) q in \<open>auto simp: set_phase_sends\<close>)
    then show ?thesis using p1(1,4) that gd(2) by (simp add: pool_good_def limit_ok_def)
  qed
  obtain p1 where p1: "slot_exit i g p = Some p1" "pool_inv {r} (high_queue p1) (low_queue p1) p1"
    "limit_ok p1 = limit_ok p" using slot_exit_ok [OF gd(1) s, of p] by auto
  show ?thesis
    using run q fin p1 gd(2) next_attempt_ok [OF p1(2)]
    by (auto simp: answer_send_def split: if_splits)
qed

lemma cancel_send_ok:
  assumes good: "pool_good p" and run: "cancel_send r p = Some p'"
  shows "pool_good p'"
proof (cases "sends p r")
  case None
  then show ?thesis using run good by (simp add: cancel_send_def)
next
  case (Some q)
  have gd: "good_pool p" "limit_ok p" using good by (simp_all add: pool_good_def)
  note inv = pool_invD [OF gd(1)]
  let ?p = "p\<lparr>sends := (sends p)(r := None)\<rparr>"
  show ?thesis
  proof (cases "slot_of (rq_phase q)")
    case slot: (Some s)
    obtain i g where s: "s = (i, g)" by fastforce
    have "slots {} p r = Some (i, g)" using Some slot s by (simp add: slots_def)
    then obtain p1 where p1: "slot_exit i g ?p = Some p1" "pool_inv {r} (high_queue p1) (low_queue p1) p1"
      "sends p1 r = None" "limit_ok p1 = limit_ok ?p"
      using slot_exit_ok [OF gd(1), of r i g ?p] by auto
    have "cancel_send r p = slot_exit i g ?p"
      using Some slot s by (cases "rq_phase q" rule: slot_of.cases) (auto simp: cancel_send_def)
    then show ?thesis
      using run p1 inv_rest [OF p1(2)] gd(2) by (simp add: pool_good_def limit_ok_def)
  next
    case slot: None
    have sl: "slots {} ?p = slots {} p" using Some slot by (auto simp: slots_def fun_eq_iff)
    show ?thesis
    proof (cases "rq_phase q = Queued")
      case True
      let ?p' = "?p\<lparr>high_queue := filter (\<lambda>x. x \<noteq> r) (high_queue p), low_queue := filter (\<lambda>x. x \<noteq> r) (low_queue p)\<rparr>"
      have p': "p' = ?p'" using run Some True by (simp add: cancel_send_def)
      have "queue_ok {} (high_queue ?p') (low_queue ?p') ?p'"
      proof (rule queue_okI)
        show "\<exists>q. sends ?p' x = Some q \<and> rq_phase q = Queued
            \<and> rq_priority q = (if x \<in> set (high_queue ?p') then High else Low)"
          if "x \<in> set (high_queue ?p' @ low_queue ?p')" for x
          using queue_okD(3) [OF inv(3), of x] that by auto
        show "x \<in> set (high_queue ?p' @ low_queue ?p')" if "sends ?p' x = Some y" "rq_phase y = Queued" for x y
          using queue_okD(4) [OF inv(3), of x y] that by (auto split: if_splits)
      qed (use queue_okD(1) [OF inv(3)] in auto)
      then show ?thesis
        using inv sl gd(2) by (simp add: p' pool_good_def pool_inv_def limit_ok_def counts_ok_def)
    next
      case False
      have "r \<notin> set (high_queue p @ low_queue p)" using queue_okD(3) [OF inv(3), of r] Some False by auto
      then have "queue_ok {} (high_queue p) (low_queue p) ?p"
        using queue_okD [OF inv(3)] by (intro queue_okI) (auto split: if_splits)
      moreover have "p' = ?p"
        using run Some slot False by (cases "rq_phase q" rule: slot_of.cases) (auto simp: cancel_send_def)
      ultimately show ?thesis
        using inv sl gd(2) by (simp add: pool_good_def pool_inv_def limit_ok_def counts_ok_def)
    qed
  qed
qed

section \<open>Worker exits\<close>

text \<open>Pools that agree on everything the invariant of the slots is about.\<close>

definition same_core :: "pool \<Rightarrow> pool \<Rightarrow> bool" where
  "same_core p p' \<longleftrightarrow> ws p' = ws p \<and> alive_stateless_count p' = alive_stateless_count p
     \<and> stateless_busy_count p' = stateless_busy_count p \<and> low_busy_count p' = low_busy_count p
     \<and> high_queue p' = high_queue p \<and> low_queue p' = low_queue p \<and> sends p' = sends p"

lemma same_core_good: "same_core p p' \<Longrightarrow> good_pool p' = good_pool p"
  by (simp add: same_core_def pool_inv_def counts_ok_def slots_def [abs_def] queue_ok_def)

lemma backoff_core: "same_core p (apply_crash_backoff p)"
  by (simp add: same_core_def apply_crash_backoff_def Let_def)

lemma shrink_core: "same_core p (shrink_ceiling p)"
  by (simp add: same_core_def shrink_ceiling_def Let_def)

lemma backoff_limit:
  "low_limit p \<le> max_low_limit p \<Longrightarrow> low_limit (apply_crash_backoff p) \<le> max_low_limit (apply_crash_backoff p)"
  "0 < low_limit p \<Longrightarrow> 0 < low_limit (apply_crash_backoff p)"
  "alive_stateless_count (apply_crash_backoff p) = alive_stateless_count p"
  by (auto simp: apply_crash_backoff_def Let_def)

lemma shrink_limit: "0 < low_limit p \<or> alive_stateless_count p = 0 \<Longrightarrow> limit_ok (shrink_ceiling p)"
  by (auto simp: limit_ok_def shrink_ceiling_def low_ceiling_def Let_def)

text \<open>The worker is marked down and, when it was busy, its slot is given back; its request keeps a stale claim.\<close>

definition take_down :: "nat \<Rightarrow> pool \<Rightarrow> pool" where
  "take_down i p =
     (let p1 = p\<lparr>stateless_workers := map_worker i (\<lambda>w. w\<lparr>w_alive := False\<rparr>) (ws p),
                 alive_stateless_count := usub (alive_stateless_count p) 1\<rparr>
      in if w_busy (ws p ! i) then vacate i p1 else p1)"

lemma take_down_view [simp]:
  "sends (take_down i p) = sends p" "high_queue (take_down i p) = high_queue p"
  "low_queue (take_down i p) = low_queue p" "low_limit (take_down i p) = low_limit p"
  "max_low_limit (take_down i p) = max_low_limit p" "options (take_down i p) = options p"
  "alive_stateless_count (take_down i p) = usub (alive_stateless_count p) 1"
  "shutting_down (take_down i p) = shutting_down p"
  by (simp_all add: take_down_def Let_def)

lemma take_down_ok:
  assumes good: "good_pool p" and i: "i < length (ws p)" "w_alive (ws p ! i)"
  shows "good_pool (take_down i p)"
    and "ws (take_down i p) = (ws p)[i := (ws p ! i)\<lparr>w_alive := False, w_busy := False, w_low := False\<rparr>]"
    and "alive_stateless_count (take_down i p) = alive_stateless_count p - 1" "0 < alive_stateless_count p"
proof -
  let ?w = "(ws p ! i)\<lparr>w_alive := False, w_busy := False, w_low := False\<rparr>"
  let ?p = "take_down i p"
  note inv = pool_invD [OF good]
  have ok: "worker_ok (ws p ! i)" using inv(1) i(1) by (simp add: counts_ok_def)
  have w: "(ws p ! i)\<lparr>w_alive := False\<rparr> = ?w" if "\<not> w_busy (ws p ! i)"
    using that ok by (cases "ws p ! i") (simp add: worker_ok_def)
  show wsd: "ws ?p = (ws p)[i := ?w]"
    using i(1) w by (auto simp: take_down_def vacate_def map_worker_in Let_def)
  have alive: "usub (count w_alive (ws p)) 1 = count w_alive ((ws p)[i := ?w])"
    by (rule count_update_usub [OF i(1)]) (use i(2) in simp_all)
  have busy: "stateless_busy_count ?p = count w_busy ((ws p)[i := ?w])"
    using inv(1) count_update_usub [OF i(1), of w_busy ?w] count_update_same [OF i(1), of w_busy ?w]
    by (simp add: take_down_def vacate_def counts_ok_def Let_def)
  have low: "low_busy_count ?p = count w_low ((ws p)[i := ?w])"
    using inv(1) ok i(1) count_update_usub [OF i(1), of w_low ?w] count_update_same [OF i(1), of w_low ?w]
    by (auto simp: take_down_def vacate_def counts_ok_def worker_ok_def map_worker_in Let_def)
  have "\<forall>w \<in> set ((ws p)[i := ?w]). worker_ok w"
    using inv(1) set_update_subset_insert [of "ws p" i ?w] by (auto simp: counts_ok_def worker_ok_def)
  then have "counts_ok ?p"
    using alive busy low inv(1) by (simp add: counts_ok_def wsd)
  moreover have "hold_ok (ws ?p) (slots {} ?p)"
    unfolding wsd using hold_down [OF inv(2) i(1), of ?w] by (simp add: slots_cong [of ?p p])
  moreover have "queue_ok {} (high_queue p) (low_queue p) ?p"
    using inv(3) by (simp add: queue_ok_def)
  ultimately show "good_pool ?p" by (simp add: pool_inv_def)
  show pos: "0 < alive_stateless_count p"
    using inv(1) i nth_mem [OF i(1)] count_pos [of w_alive "ws p"] unfolding counts_ok_def by auto
  then show "alive_stateless_count ?p = alive_stateless_count p - 1" by simp
qed

lemma fail_pending_view:
  "ws (fail_pending_requests p) = ws p" "low_limit (fail_pending_requests p) = low_limit p"
  "max_low_limit (fail_pending_requests p) = max_low_limit p"
  "alive_stateless_count (fail_pending_requests p) = alive_stateless_count p"
  "counts_ok (fail_pending_requests p) = counts_ok p"
  "shutting_down (fail_pending_requests p) = shutting_down p"
  "high_queue (fail_pending_requests p) = []" "low_queue (fail_pending_requests p) = []"
  "sends (fail_pending_requests p) x = (if x \<in> set (high_queue p @ low_queue p)
     then map_option (\<lambda>q. q\<lparr>rq_phase := Woken None 0\<rparr>) (sends p x) else sends p x)"
proof -
  have f: "ws (fold (\<lambda>r. set_phase r (Woken None 0)) rs p) = ws p
     \<and> low_limit (fold (\<lambda>r. set_phase r (Woken None 0)) rs p) = low_limit p
     \<and> max_low_limit (fold (\<lambda>r. set_phase r (Woken None 0)) rs p) = max_low_limit p
     \<and> alive_stateless_count (fold (\<lambda>r. set_phase r (Woken None 0)) rs p) = alive_stateless_count p
     \<and> counts_ok (fold (\<lambda>r. set_phase r (Woken None 0)) rs p) = counts_ok p
     \<and> shutting_down (fold (\<lambda>r. set_phase r (Woken None 0)) rs p) = shutting_down p
     \<and> sends (fold (\<lambda>r. set_phase r (Woken None 0)) rs p) x = (if x \<in> set rs
     then map_option (\<lambda>q. q\<lparr>rq_phase := Woken None 0\<rparr>) (sends p x) else sends p x)" for rs
    by (induction rs arbitrary: p) (auto simp: set_phase_sends option.map_comp comp_def)
  note g = f [of "high_queue p @ low_queue p"]
  show "ws (fail_pending_requests p) = ws p" "low_limit (fail_pending_requests p) = low_limit p"
    "max_low_limit (fail_pending_requests p) = max_low_limit p"
    "alive_stateless_count (fail_pending_requests p) = alive_stateless_count p"
    "counts_ok (fail_pending_requests p) = counts_ok p"
    "shutting_down (fail_pending_requests p) = shutting_down p"
    "high_queue (fail_pending_requests p) = []" "low_queue (fail_pending_requests p) = []"
    "sends (fail_pending_requests p) x = (if x \<in> set (high_queue p @ low_queue p)
     then map_option (\<lambda>q. q\<lparr>rq_phase := Woken None 0\<rparr>) (sends p x) else sends p x)"
    using g by (simp_all add: fail_pending_requests_def)
qed

lemma fail_pending_ok:
  assumes "pool_good p"
  shows "pool_good (fail_pending_requests p)"
proof -
  have g: "good_pool p" "limit_ok p" using assms by (simp_all add: pool_good_def)
  note inv = pool_invD [OF g(1)]
  let ?p = "fail_pending_requests p"
  have "slots {} ?p = slots {} p"
  proof
    fix x
    show "slots {} ?p x = slots {} p x"
      using queue_okD(3) [OF inv(3), of x] by (auto simp: slots_def fail_pending_view)
  qed
  moreover have "queue_ok {} [] [] ?p"
    by (rule queue_okI) (use queue_okD(4) [OF inv(3)] in \<open>auto simp: fail_pending_view split: if_splits\<close>)
  ultimately show ?thesis
    using inv g(2) by (simp add: pool_good_def pool_inv_def limit_ok_def fail_pending_view)
qed

lemma try_dispatch_good:
  assumes "pool_good p"
  obtains p' where "try_dispatch_pending p = Some p'" "pool_good p'"
    "dispatched (set (high_queue p) \<union> set (low_queue p)) p p'"
proof -
  have g: "good_pool p" "limit_ok p" using assms by (simp_all add: pool_good_def)
  from try_dispatch_ok [OF g(1)] obtain p' where p': "try_dispatch_pending p = Some p'" "good_pool p'"
    "dispatched (set (high_queue p) \<union> set (low_queue p)) p p'" .
  show ?thesis by (rule that [OF p'(1) _ p'(3)]) (use p' dispatched_limit [OF p'(3)] g(2) in \<open>simp add: pool_good_def\<close>)
qed

lemma try_dispatch_lim:
  assumes "pool_good p"
  shows "\<exists>p'. try_dispatch_pending p = Some p' \<and> pool_good p' \<and> low_limit p' = low_limit p"
proof -
  from try_dispatch_good [OF assms] obtain p' where "try_dispatch_pending p = Some p'" "pool_good p'"
    "dispatched (set (high_queue p) \<union> set (low_queue p)) p p'" .
  then show ?thesis by (auto simp: dispatched_def)
qed

lemma crash_report_good [simp]:
  "pool_good (p\<lparr>crash_reports := c\<rparr>) = pool_good p"
  by (simp add: pool_good_def pool_inv_def counts_ok_def limit_ok_def slots_def [abs_def] queue_ok_def)

lemma process_crash_eq:
  "process_crash i False code signal ids p =
     (let restart = restart_count (ws p ! i) < max_restarts (options p);
          p3 = (if restart then apply_crash_backoff (take_down i p) else shrink_ceiling (apply_crash_backoff (take_down i p)))
      in map_option (\<lambda>p4. (restart, p4\<lparr>crash_reports := crash_reports p4 @ [\<lparr>crash_index = i, crash_stateful = False,
           crash_code = code, crash_signal = signal, crash_restarts = restart_count (ws p ! i), will_restart = restart,
           lost_documents = []\<rparr>]\<rparr>))
         (if alive_stateless_count p3 = 0 \<and> \<not> restart then Some (fail_pending_requests p3)
          else try_dispatch_pending p3))"
  by (simp add: process_crash_def take_down_def Let_def)

text \<open>The state in which the queues are served after a crash.\<close>

lemma crash_state_ok:
  assumes good: "pool_good p" and i: "i < length (ws p)" "w_alive (ws p ! i)"
    and p3_def: "p3 = (if restart then apply_crash_backoff (take_down i p)
      else shrink_ceiling (apply_crash_backoff (take_down i p)))"
  shows "pool_good p3" and "ws p3 = ws (take_down i p)" and "restart \<Longrightarrow> 0 < low_limit p3"
proof -
  have g: "good_pool p" "limit_ok p" using good by (simp_all add: pool_good_def)
  note down = take_down_ok [OF g(1) i]
  let ?b = "apply_crash_backoff (take_down i p)"
  have core: "same_core (take_down i p) ?b" "same_core ?b (shrink_ceiling ?b)" by (rule backoff_core shrink_core)+
  have b: "good_pool ?b" "good_pool (shrink_ceiling ?b)"
    using same_core_good core down(1) by blast+
  have lim: "0 < low_limit p" "low_limit p \<le> max_low_limit p" using g(2) down(4) by (simp_all add: limit_ok_def)
  then have pos: "0 < low_limit ?b" and "limit_ok ?b" using backoff_limit [of "take_down i p"] by (simp_all add: limit_ok_def)
  then show "pool_good p3" using b shrink_limit [of ?b] by (simp add: p3_def pool_good_def)
  show "ws p3 = ws (take_down i p)" using core by (simp add: p3_def same_core_def)
  show "restart \<Longrightarrow> 0 < low_limit p3" using pos by (simp add: p3_def)
qed

lemma process_crash_ok:
  assumes good: "pool_good p" and i: "i < length (ws p)" "w_alive (ws p ! i)"
  obtains restart p' where "process_crash i False code signal ids p = Some (restart, p')" and "pool_good p'"
    and "length (ws p') = length (ws p)" and "\<not> w_alive (ws p' ! i)"
    and "restart \<Longrightarrow> 0 < low_limit p'"
proof -
  define restart where "restart \<longleftrightarrow> restart_count (ws p ! i) < max_restarts (options p)"
  define p3 where "p3 = (if restart then apply_crash_backoff (take_down i p)
    else shrink_ceiling (apply_crash_backoff (take_down i p)))"
  note c = crash_state_ok [OF good i p3_def]
  have wsd: "ws p3 = (ws p)[i := (ws p ! i)\<lparr>w_alive := False, w_busy := False, w_low := False\<rparr>]"
    using c(2) take_down_ok(2) [OF _ i] good by (simp add: pool_good_def)
  have "\<exists>p4. (if alive_stateless_count p3 = 0 \<and> \<not> restart then Some (fail_pending_requests p3)
      else try_dispatch_pending p3) = Some p4 \<and> pool_good p4 \<and> length (ws p4) = length (ws p3)
      \<and> w_alive (ws p4 ! i) = w_alive (ws p3 ! i) \<and> low_limit p4 = low_limit p3"
  proof (cases "alive_stateless_count p3 = 0 \<and> \<not> restart")
    case True
    then show ?thesis using fail_pending_ok [OF c(1)] by (simp add: fail_pending_view)
  next
    case False
    from try_dispatch_good [OF c(1)] obtain p4 where "try_dispatch_pending p3 = Some p4" "pool_good p4"
      "dispatched (set (high_queue p3) \<union> set (low_queue p3)) p3 p4" .
    then show ?thesis using False i(1) by (auto simp: dispatched_def wsd)
  qed
  then obtain p4 where p4: "(if alive_stateless_count p3 = 0 \<and> \<not> restart then Some (fail_pending_requests p3)
      else try_dispatch_pending p3) = Some p4" "pool_good p4" "length (ws p4) = length (ws p3)"
      "w_alive (ws p4 ! i) = w_alive (ws p3 ! i)" "low_limit p4 = low_limit p3" by blast
  let ?p = "p4\<lparr>crash_reports := crash_reports p4 @ [\<lparr>crash_index = i, crash_stateful = False,
    crash_code = code, crash_signal = signal, crash_restarts = restart_count (ws p ! i), will_restart = restart,
    lost_documents = []\<rparr>]\<rparr>"
  have run: "process_crash i False code signal ids p = Some (restart, ?p)"
    unfolding process_crash_eq Let_def restart_def [symmetric] p3_def [symmetric] p4(1) by simp
  show ?thesis by (rule that [OF run]) (use p4 i(1) c(3) in \<open>simp_all add: wsd\<close>)
qed

text \<open>A change of a worker's peer or of its retiring flag.\<close>

lemma flag_ok:
  assumes good: "pool_good p" and i: "i < length (ws p)" and ok: "worker_ok w"
    and w: "w_alive w = w_alive (ws p ! i)" "w_busy w = w_busy (ws p ! i)" "w_low w = w_low (ws p ! i)"
      "restart_count w = restart_count (ws p ! i)"
  shows "pool_good (p\<lparr>stateless_workers := (ws p)[i := w]\<rparr>)"
proof -
  let ?p = "p\<lparr>stateless_workers := (ws p)[i := w]\<rparr>"
  have g: "good_pool p" "limit_ok p" using good by (simp_all add: pool_good_def)
  note inv = pool_invD [OF g(1)]
  have "\<forall>x \<in> set ((ws p)[i := w]). worker_ok x"
    using inv(1) ok set_update_subset_insert [of "ws p" i w] by (auto simp: counts_ok_def)
  then have "counts_ok ?p"
    using inv(1) w count_update_same [OF i, of _ w] by (simp add: counts_ok_def)
  moreover have "hold_ok (ws ?p) (slots {} ?p)"
    using hold_flag [OF inv(2) i, of w] w by (simp add: slots_cong [of ?p p])
  moreover have "queue_ok {} (high_queue p) (low_queue p) ?p" using inv(3) by (simp add: queue_ok_def)
  ultimately show ?thesis using g(2) by (simp add: pool_good_def pool_inv_def limit_ok_def)
qed

lemma peers_good [simp]: "pool_good (p\<lparr>retired_peers := n\<rparr>) = pool_good p"
  by (simp add: pool_good_def pool_inv_def counts_ok_def limit_ok_def slots_def [abs_def] queue_ok_def)

lemma pool_good_worker: "pool_good p \<Longrightarrow> i < length (ws p) \<Longrightarrow> worker_ok (ws p ! i)"
  by (simp add: pool_good_def pool_inv_def counts_ok_def)

lemma retire_peer_ok:
  assumes good: "pool_good p" and i: "i < length (ws p)"
  shows "pool_good (retire_peer i False p)"
    and "length (ws (retire_peer i False p)) = length (ws p)"
    and "low_limit (retire_peer i False p) = low_limit p"
    and "w_alive (ws (retire_peer i False p) ! i) = w_alive (ws p ! i)"
    and "restart_count (ws (retire_peer i False p) ! i) = restart_count (ws p ! i)"
proof -
  have "pool_good (p\<lparr>stateless_workers := (ws p)[i := (ws p ! i)\<lparr>w_peer := False\<rparr>]\<rparr>)"
    by (rule flag_ok [OF good i]) (use pool_good_worker [OF good i] in \<open>simp_all add: worker_ok_def\<close>)
  then have "pool_good (p\<lparr>stateless_workers := (ws p)[i := (ws p ! i)\<lparr>w_peer := False\<rparr>], retired_peers := n\<rparr>)" for n
    using peers_good [of n "p\<lparr>stateless_workers := (ws p)[i := (ws p ! i)\<lparr>w_peer := False\<rparr>]\<rparr>"] by simp
  then show "pool_good (retire_peer i False p)"
    using good by (simp add: retire_peer_def map_worker_in [OF i] Let_def)
qed (simp_all add: retire_peer_def map_worker_def Let_def i)

lemma respawn_ok:
  assumes good: "pool_good p" and i: "i < length (ws p)" "\<not> w_alive (ws p ! i)" and lim: "0 < low_limit p"
  obtains up p' where "respawn_worker spawns i False p = Some (up, p')" and "pool_good p'" and "0 < low_limit p'"
proof (cases "spawns (worker_args (options p) False (worker_memory_limit (options p)) (worker_name False i))")
  case False
  then show ?thesis
    using that [of False "retire_peer i False p"] retire_peer_ok [OF good i(1)] lim
    by (simp add: respawn_worker_def Let_def)
next
  case True
  define p1 where "p1 = retire_peer i False p"
  note r = retire_peer_ok [OF good i(1), folded p1_def]
  have i1: "i < length (ws p1)" "\<not> w_alive (ws p1 ! i)" using r i by simp_all
  have g: "good_pool p1" "limit_ok p1" using r(1) by (simp_all add: pool_good_def)
  note inv = pool_invD [OF g(1)]
  define w where "w = fresh_worker (worker_name False i) (restart_count (ws p ! i) + 1)"
  let ?p = "p1\<lparr>stateless_workers := (ws p1)[i := w], alive_stateless_count := alive_stateless_count p1 + 1\<rparr>"
  have ok: "worker_ok (ws p1 ! i)" by (rule pool_good_worker [OF r(1) i1(1)])
  have nb: "\<not> w_busy (ws p1 ! i)" "\<not> w_low (ws p1 ! i)" using ok i1(2) by (auto simp: worker_ok_def)
  have w: "w_alive w" "\<not> w_busy w" "\<not> w_low w" "worker_ok w" by (simp_all add: w_def fresh_worker_def worker_ok_def)
  have "count w_alive ((ws p1)[i := w]) = count w_alive (ws p1) + 1"
    by (rule count_update_in [OF i1(1)]) (use i1 w in simp_all)
  moreover have "count w_busy ((ws p1)[i := w]) = count w_busy (ws p1)" "count w_low ((ws p1)[i := w]) = count w_low (ws p1)"
    by (rule count_update_same [OF i1(1)]; use nb w in simp)+
  moreover have "\<forall>x \<in> set ((ws p1)[i := w]). worker_ok x"
    using inv(1) w(4) set_update_subset_insert [of "ws p1" i w] by (auto simp: counts_ok_def)
  ultimately have "counts_ok ?p" using inv(1) by (simp add: counts_ok_def)
  moreover have "slots {} ?p = slots {} p1" by (rule slots_cong) simp
  then have "hold_ok (ws ?p) (slots {} ?p)"
    using hold_respawn [OF inv(2) i1(1), of w] r(5) w(2) by (simp add: w_def fresh_worker_def)
  moreover have "queue_ok {} (high_queue p1) (low_queue p1) ?p" using inv(3) by (simp add: queue_ok_def)
  ultimately have "pool_good ?p" using g(2) lim r(3) by (simp add: pool_good_def pool_inv_def limit_ok_def)
  from try_dispatch_lim [OF this] obtain p' where p': "try_dispatch_pending ?p = Some p'" "pool_good p'"
    "low_limit p' = low_limit p1" by auto
  have "respawn_worker spawns i False p = Some (True, p')"
    using True p'(1) i1(1) by (simp add: respawn_worker_def Let_def p1_def [symmetric] map_worker_in w_def)
  then show ?thesis using that p' lim r(3) by simp
qed

lemma shrink_good: "pool_good p \<Longrightarrow> pool_good (shrink_ceiling p)"
  using shrink_limit [of p] same_core_good [OF shrink_core [of p]] by (auto simp: pool_good_def limit_ok_def)

lemma retired_exit_ok:
  assumes good: "pool_good p" and i: "i < length (ws p)" "w_alive (ws p ! i)"
  shows "pool_good (retired_exit i p)"
proof -
  have g: "good_pool p" "limit_ok p" using good by (simp_all add: pool_good_def)
  note down = take_down_ok [OF g(1) i]
  have "pool_good (take_down i p)" using down(1) g(2) down(4) by (simp add: pool_good_def limit_ok_def)
  then have "pool_good (retire_peer i False (take_down i p))"
    using retire_peer_ok(1) [of "take_down i p" i] i(1) down(2) by simp
  moreover have "retired_exit i p = shrink_ceiling (retire_peer i False (take_down i p))"
    by (simp add: retired_exit_def take_down_def Let_def)
  ultimately show ?thesis using shrink_good by simp
qed

text \<open>The exit of a stateless worker always finds a consistent pool and leaves one.\<close>

lemma stateless_exit_ok:
  assumes good: "pool_good p" and i: "i < length (ws p)" "w_alive (ws p ! i)"
  obtains p' where "worker_exits spawns i False result ids p = Some p'" and "pool_good p'"
proof (cases "shutting_down p \<or> w_retiring (ws p ! i)")
  case True
  then show ?thesis
    using that good retired_exit_ok [OF assms] by (cases "shutting_down p") (auto simp: worker_exits_def)
next
  case run: False
  obtain code signal where cs: "(case result of Some cs \<Rightarrow> cs | None \<Rightarrow> (0, 9)) = (code, signal)" by fastforce
  obtain restart p1 where p1: "process_crash i False code signal ids p = Some (restart, p1)" "pool_good p1"
    "length (ws p1) = length (ws p)" "\<not> w_alive (ws p1 ! i)" "restart \<Longrightarrow> 0 < low_limit p1"
    by (rule process_crash_ok [OF assms, of code signal ids]) blast
  show ?thesis
  proof (cases restart)
    case False
    then show ?thesis using that [of p1] run cs p1(1,2) by (simp add: worker_exits_def)
  next
    case True
    have i1: "i < length (ws p1)" using i(1) p1(3) by simp
    obtain up p2 where p2: "respawn_worker spawns i False p1 = Some (up, p2)" "pool_good p2"
      by (rule respawn_ok [OF p1(2) i1 p1(4) p1(5) [OF True], of spawns]) blast
    show ?thesis
      using that run cs p1(1) p2 True shrink_good [OF p2(2)] fail_pending_ok [OF shrink_good [OF p2(2)]]
      by (cases up) (auto simp: worker_exits_def Let_def)
  qed
qed

section \<open>The memory monitor\<close>

lemma pool_good_cong:
  assumes "same_core p p'" "low_limit p' = low_limit p" "max_low_limit p' = max_low_limit p"
  shows "pool_good p' = pool_good p"
  using assms same_core_good [OF assms(1)] by (simp add: pool_good_def limit_ok_def same_core_def)

lemma cancel_low_core:
  "same_core p (cancel_low_loop is n p) \<and> low_limit (cancel_low_loop is n p) = low_limit p
    \<and> max_low_limit (cancel_low_loop is n p) = max_low_limit p"
  by (induction "is" n p rule: cancel_low_loop.induct) (auto simp: same_core_def Let_def split: option.splits)

lemma limit_change_ok:
  assumes "pool_good p" and "same_core p p'" and "limit_ok p'"
  shows "pool_good p'"
  using assms same_core_good [OF assms(2)] by (simp add: pool_good_def)

lemma adjust_limit_ok:
  assumes good: "pool_good p"
  obtains p' where "adjust_limit m p = Some p'" and "pool_good p'"
proof -
  have lim: "limit_ok p" using good by (simp add: pool_good_def)
  consider (down) "ratio_below 20 m \<and> 1 < low_limit p"
    | (up) "\<not> (ratio_below 20 m \<and> 1 < low_limit p)" "ratio_above 40 m \<and> low_limit p < max_low_limit p"
    | (stay) "\<not> (ratio_below 20 m \<and> 1 < low_limit p)" "\<not> (ratio_above 40 m \<and> low_limit p < max_low_limit p)"
    by blast
  then show ?thesis
  proof cases
    case down
    have "pool_good (lower_limit p)"
      by (rule limit_change_ok [OF good]) (use lim down in \<open>auto simp: lower_limit_def same_core_def limit_ok_def\<close>)
    then show ?thesis using that down by (simp add: adjust_limit_def)
  next
    case up
    have "pool_good (raise_limit p)"
      by (rule limit_change_ok [OF good]) (use lim up in \<open>auto simp: raise_limit_def same_core_def limit_ok_def Let_def\<close>)
    from try_dispatch_lim [OF this] show ?thesis using that up by (auto simp: adjust_limit_def)
  next
    case stay
    then have "adjust_limit m p = Some p" by (auto simp: adjust_limit_def)
    then show ?thesis using that good by blast
  qed
qed

lemma scale_up_ok:
  assumes good: "pool_good p"
  obtains up p' where "scale_up_worker spawns p = Some (up, p')" and "pool_good p'"
proof (cases "shutting_down p \<or> max_stateless (options p) \<le> alive_stateless_count p \<or> spawn_worker spawns False 0 p = None")
  case True
  then have "scale_up_worker spawns p = Some (False, p)" by (auto simp: scale_up_worker_def)
  then show ?thesis using that good by blast
next
  case False
  then obtain p1 where p1: "spawn_worker spawns False 0 p = Some p1" by auto
  let ?c = "low_ceiling (alive_stateless_count p1)"
  let ?p = "p1\<lparr>slot_cancel_sources := slot_cancel_sources p1 @ [None], max_low_limit := ?c, low_limit := ?c, w_max := 0\<rparr>"
  have w: "ws p1 = ws p @ [fresh_worker (worker_name False (length (ws p))) 0]"
    "alive_stateless_count p1 = alive_stateless_count p + 1" "sends p1 = sends p"
    "stateless_busy_count p1 = stateless_busy_count p" "low_busy_count p1 = low_busy_count p"
    "high_queue p1 = high_queue p" "low_queue p1 = low_queue p"
    using p1 by (auto simp: spawn_worker_def Let_def split: if_splits)
  note inv = pool_invD [of "{}" "high_queue p" "low_queue p" p]
  have g: "good_pool p" using good by (simp add: pool_good_def)
  have "counts_ok ?p" using inv(1) [OF g] by (auto simp: counts_ok_def w fresh_worker_def worker_ok_def)
  moreover have "slots {} ?p = slots {} p" by (rule slots_cong) (simp add: w)
  then have "hold_ok (ws ?p) (slots {} ?p)"
    using hold_append [OF inv(2) [OF g]] by (simp add: w fresh_worker_def)
  moreover have "queue_ok {} (high_queue p) (low_queue p) ?p" using inv(3) [OF g] by (simp add: queue_ok_def w)
  moreover have "limit_ok ?p" by (simp add: limit_ok_def low_ceiling_def)
  ultimately have "pool_good ?p" by (simp add: pool_good_def pool_inv_def w)
  from try_dispatch_lim [OF this] show ?thesis
    using that False p1 by (auto simp: scale_up_worker_def Let_def)
qed

lemma last_idle_Some: "last_idle xs is = Some i \<Longrightarrow> i \<in> set is \<and> free (xs ! i)"
  by (induction xs "is" rule: last_idle.induct) (auto split: if_splits)

lemma retire_idle_ok:
  assumes good: "pool_good p"
  shows "pool_good (retire_idle_worker p)"
proof (cases "last_idle (ws p) (rev [0..<length (ws p)])")
  case None
  then show ?thesis using good by (simp add: retire_idle_worker_def Let_def)
next
  case (Some i)
  then have i: "i < length (ws p)" "free (ws p ! i)" using last_idle_Some [OF Some] by auto
  have "pool_good (p\<lparr>stateless_workers := (ws p)[i := (ws p ! i)\<lparr>w_retiring := True\<rparr>]\<rparr>)"
    by (rule flag_ok [OF good i(1)])
      (use i(2) pool_good_worker [OF good i(1)] in \<open>simp_all add: worker_ok_def is_idle_def\<close>)
  then show ?thesis using good Some by (simp add: retire_idle_worker_def Let_def map_worker_in [OF i(1)])
qed

lemma cycles_good [simp]:
  "pool_good (p\<lparr>saturated_cycles := n\<rparr>) = pool_good p" "pool_good (p\<lparr>idle_cycles := n\<rparr>) = pool_good p"
  by (rule pool_good_cong; simp add: same_core_def)+

lemma check_scaling_ok:
  assumes good: "pool_good p"
  obtains p' where "check_scaling spawns m p = Some p'" and "pool_good p'"
proof -
  have c: "pool_good (count_cycles p)"
    using good by (simp add: pool_good_cong [of p "count_cycles p"] count_cycles_def same_core_def Let_def)
  obtain up p2 where u: "scale_up_worker spawns (count_cycles p) = Some (up, p2)" "pool_good p2"
    by (rule scale_up_ok [OF c])
  have r: "pool_good (retire_idle_worker q)" if "pool_good q" for q by (rule retire_idle_ok [OF that])
  have "\<exists>p'. check_scaling spawns m p = Some p' \<and> pool_good p'"
    using good c u r by (simp add: check_scaling_def Let_def)
  then show ?thesis using that by blast
qed

lemma memory_tick_ok:
  assumes good: "pool_good p"
  obtains p' where "memory_tick spawns m m' p = Some p'" and "pool_good p'"
proof -
  let ?p1 = "if ratio_below 10 m \<and> 0 < low_busy_count p then cancel_low_priority_requests (low_busy_count p) p else p"
  have "pool_good (cancel_low_priority_requests n p)" for n
    unfolding cancel_low_priority_requests_def using good cancel_low_core pool_good_cong by blast
  then have p1: "pool_good ?p1" using good by simp
  obtain p2 where p2: "adjust_limit m ?p1 = Some p2" "pool_good p2" by (rule adjust_limit_ok [OF p1])
  obtain p3 where p3: "check_scaling spawns m' p2 = Some p3" "pool_good p3" by (rule check_scaling_ok [OF p2(2)])
  let ?p3 = "if ratio_below 10 m \<and> min_stateless (options p3) < alive_stateless_count p3
    then retire_idle_worker p3 else p3"
  have "memory_tick spawns m m' p = Some (if shutting_down p \<or> mem_total m = 0 then p else ?p3)"
    using p2(1) p3(1) by (simp add: memory_tick_def Let_def)
  then show ?thesis by (rule that) (use good p3(2) retire_idle_ok [OF p3(2)] in auto)
qed

section \<open>What the stateful side leaves alone\<close>

definition same_stateless :: "pool \<Rightarrow> pool \<Rightarrow> bool" where
  "same_stateless p p' \<longleftrightarrow> same_core p p' \<and> low_limit p' = low_limit p \<and> max_low_limit p' = max_low_limit p
     \<and> options p' = options p \<and> shutting_down p' = shutting_down p"

lemma same_stateless_refl [simp]: "same_stateless p p"
  by (simp add: same_stateless_def same_core_def)

lemma same_stateless_trans: "same_stateless p p1 \<Longrightarrow> same_stateless p1 p2 \<Longrightarrow> same_stateless p p2"
  by (simp add: same_stateless_def same_core_def)

lemma same_stateless_good: "same_stateless p p' \<Longrightarrow> pool_good p' = pool_good p"
  using pool_good_cong by (simp add: same_stateless_def)

lemma remove_owner_stateless: "same_stateless p (remove_owner path p)"
  by (auto simp: same_stateless_def same_core_def remove_owner_def Let_def split: option.splits)

lemma send_stateful_stateless: "same_stateless p (snd (send_stateful path p))"
  by (auto simp: same_stateless_def same_core_def send_stateful_def assign_worker_def touch_lru_def Let_def
      split: option.splits prod.splits)

lemma fold_remove_stateless: "same_stateless p (fold remove_owner ps p)"
proof (induction ps arbitrary: p)
  case (Cons x ps)
  show ?case using same_stateless_trans [OF remove_owner_stateless Cons.IH] by simp
qed simp

lemma process_crash_stateful:
  assumes "process_crash i True code signal ids p = Some (restart, p')"
  obtains c where "p' = (clear_owner i ids (p\<lparr>stateful_workers :=
      map_worker i (\<lambda>w. w\<lparr>w_alive := False\<rparr>) (stateful_workers p)\<rparr>))\<lparr>crash_reports := c\<rparr>"
    and "restart \<longleftrightarrow> restart_count (stateful_workers p ! i) < max_restarts (options p)"
  using assms by (auto simp: process_crash_def Let_def)

lemma respawn_stateful:
  assumes "respawn_worker spawns i True p = Some (up, p')"
  shows "same_stateless p p'"
  using assms by (auto simp: respawn_worker_def retire_peer_def same_stateless_def same_core_def Let_def split: if_splits)

lemma stateful_exit_stateless:
  assumes "worker_exits spawns i True result ids p = Some p'"
  shows "same_stateless p p'"
proof (cases "shutting_down p")
  case False
  obtain code signal where cs: "(case result of Some cs \<Rightarrow> cs | None \<Rightarrow> (0, 9)) = (code, signal)" by fastforce
  obtain restart p1 where p1: "process_crash i True code signal ids p = Some (restart, p1)"
    by (auto simp: process_crash_def Let_def)
  have cl: "same_stateless p (clear_owner i ids (p\<lparr>stateful_workers := w\<rparr>))" for w
    using fold_remove_stateless [of "p\<lparr>stateful_workers := w\<rparr>" "owned_by i ids (p\<lparr>stateful_workers := w\<rparr>)"]
    by (simp add: clear_owner_def same_stateless_def same_core_def)
  have one: "same_stateless p p1"
    by (rule process_crash_stateful [OF p1]) (use cl in \<open>simp add: same_stateless_def same_core_def\<close>)
  have "\<exists>x. respawn_worker spawns i True p1 = Some x" by (auto simp: respawn_worker_def Let_def)
  then obtain up p2 where p2: "respawn_worker spawns i True p1 = Some (up, p2)" by (metis surj_pair)
  have "p' = p1 \<or> p' = p2"
    using assms False cs p1 p2 by (cases restart; cases up) (auto simp: worker_exits_def)
  then show ?thesis using one same_stateless_trans [OF one respawn_stateful [OF p2]] by blast
qed (use assms in \<open>simp add: worker_exits_def\<close>)

section \<open>The start\<close>

definition idle_pool :: "pool \<Rightarrow> bool" where
  "idle_pool p \<longleftrightarrow> sends p = Map.empty \<and> high_queue p = [] \<and> low_queue p = [] \<and> stateless_busy_count p = 0
     \<and> low_busy_count p = 0 \<and> alive_stateless_count p = length (ws p) \<and> \<not> shutting_down p
     \<and> (\<forall>w \<in> set (ws p). w_alive w \<and> \<not> w_busy w \<and> \<not> w_low w \<and> restart_count w = 0)
     \<and> owner p = Map.empty \<and> owner_lru p = [] \<and> owner_lru_index p = {}
     \<and> (\<forall>w \<in> set (stateful_workers p). w_alive w \<and> owned_documents w = 0)"

lemma spawn_many_idle:
  "spawn_many spawns stateful limit n p = Some p' \<Longrightarrow> idle_pool p \<Longrightarrow> idle_pool p'"
proof (induction n arbitrary: p)
  case (Suc n)
  then obtain p1 where p1: "spawn_worker spawns stateful limit p = Some p1" "spawn_many spawns stateful limit n p1 = Some p'"
    by (auto split: option.splits)
  have "idle_pool p1"
    using p1(1) Suc.prems(2) by (auto simp: spawn_worker_def idle_pool_def fresh_worker_def Let_def split: if_splits)
  then show ?case using Suc.IH p1(2) by blast
qed simp

lemma start_idle:
  assumes "start spawns cores opts = Some p"
  shows "idle_pool p" and "max_low_limit p = low_ceiling (alive_stateless_count p)"
    and "low_limit p = low_ceiling (alive_stateless_count p)"
proof -
  have start: "idle_pool (initial_pool opts)" by (simp add: idle_pool_def initial_pool_def)
  obtain p1 p2 where r: "spawn_many spawns False 0 (stateless_count opts) (initial_pool opts) = Some p1"
    "spawn_many spawns True (worker_memory_limit opts) (stateful_count opts) p1 = Some p2"
    using assms by (auto simp: start_def split: option.splits)
  have "idle_pool p2" by (rule spawn_many_idle [OF r(2) spawn_many_idle [OF r(1) start]])
  then show "idle_pool p" using assms by (auto simp: start_def r Let_def idle_pool_def)
qed (use assms in \<open>auto simp: start_def Let_def split: option.splits\<close>)

lemma start_good:
  assumes "start spawns cores opts = Some p"
  shows "pool_good p"
proof -
  note s = start_idle [OF assms]
  have none: "count w_busy (ws p) = 0" "count w_low (ws p) = 0" "count w_alive (ws p) = length (ws p)"
    using s(1) by (auto simp: idle_pool_def filter_empty_conv)
  have "counts_ok p" using s(1) none by (auto simp: counts_ok_def idle_pool_def worker_ok_def)
  moreover have "hold_ok (ws p) (slots {} p)" using s(1) by (auto simp: hold_ok_def slots_def idle_pool_def)
  moreover have "queue_ok {} (high_queue p) (low_queue p) p" using s(1) by (auto simp: queue_ok_def idle_pool_def)
  ultimately show ?thesis using s(2,3) by (auto simp: pool_good_def pool_inv_def limit_ok_def low_ceiling_def)
qed

end
