(* ===== verification/Worker_Pool_Props.thy ===== *)
theory Worker_Pool_Props
  imports Worker_Pool_Steps
begin

text \<open>
  The transition system of the worker pool and the properties of its reachable states: requests,
  worker exits, memory ticks and stateful routing interleave in any order.
\<close>

section \<open>The ceiling of the low-priority limit\<close>

text \<open>What every step of a request keeps: the number of live workers, the ceiling and the options.\<close>

definition same_routing :: "pool \<Rightarrow> pool \<Rightarrow> bool" where
  "same_routing p p' \<longleftrightarrow> stateful_workers p' = stateful_workers p \<and> owner p' = owner p
     \<and> owner_lru p' = owner_lru p \<and> owner_lru_index p' = owner_lru_index p"

definition same_fleet :: "pool \<Rightarrow> pool \<Rightarrow> bool" where
  "same_fleet p p' \<longleftrightarrow> alive_stateless_count p' = alive_stateless_count p \<and> max_low_limit p' = max_low_limit p
     \<and> options p' = options p \<and> map restart_count (ws p') = map restart_count (ws p)
     \<and> same_routing p p'"

lemma same_routing_refl [simp]: "same_routing p p"
  by (simp add: same_routing_def)

lemma same_routing_trans: "same_routing p p1 \<Longrightarrow> same_routing p1 p2 \<Longrightarrow> same_routing p p2"
  by (simp add: same_routing_def)

lemma same_fleet_routing: "same_fleet p p' \<Longrightarrow> same_routing p p'"
  by (simp add: same_fleet_def)

lemma same_fleet_refl [simp]: "same_fleet p p"
  by (simp add: same_fleet_def)

lemma same_fleet_trans: "same_fleet p p1 \<Longrightarrow> same_fleet p1 p2 \<Longrightarrow> same_fleet p p2"
  by (auto simp: same_fleet_def intro: same_routing_trans)

lemma restarts_map_worker:
  "(\<And>w. restart_count (f w) = restart_count w) \<Longrightarrow> map restart_count (map_worker i f xs) = map restart_count xs"
  by (simp add: map_worker_def map_update list_update_same_conv)

lemma fleet_basic:
  "same_fleet p (set_phase r ph p)" "same_fleet p (occupy l i p)" "same_fleet p (vacate i p)"
  "same_fleet p (enqueue r prio p)" "same_fleet p (hold_slot r q i p)" "same_fleet p (p\<lparr>sends := m\<rparr>)"
  "same_fleet p (p\<lparr>high_queue := a\<rparr>)" "same_fleet p (p\<lparr>low_queue := a\<rparr>)"
  "same_fleet p (p\<lparr>slot_cancel_sources := cs\<rparr>)"
  by (simp_all add: same_fleet_def same_routing_def set_phase_def occupy_def vacate_def enqueue_def hold_slot_def install_cancel_def
      restarts_map_worker)

lemma fleet_dispatch: "dispatch l rs n p = Some (rs', n', p') \<Longrightarrow> same_fleet p p'"
proof (induction l rs n p rule: dispatch.induct)
  case (2 l r rs n p)
  show ?case
  proof (cases "0 < n \<and> (\<not> l \<or> low_busy_count p < low_limit p)")
    case True
    then obtain i where i: "pick_idle_stateless p = Some i"
      using "2.prems" by (auto split: option.splits)
    let ?p = "set_phase r (Woken (Some i) (restart_count (ws p ! i))) (occupy l i p)"
    have "same_fleet p ?p" by (rule same_fleet_trans [OF fleet_basic(2) fleet_basic(1)])
    moreover have "same_fleet ?p p'" using "2.IH" [OF True i] "2.prems" True i by simp
    ultimately show ?thesis by (rule same_fleet_trans)
  qed (use "2.prems" in auto)
qed simp

lemma fleet_try_dispatch:
  assumes "try_dispatch_pending p = Some p'"
  shows "same_fleet p p'"
proof -
  let ?n = "usub (usub (alive_stateless_count p) (stateless_busy_count p)) (retiring_idle p)"
  obtain hs n1 p1 ls n2 p2 where d: "dispatch False (high_queue p) ?n p = Some (hs, n1, p1)"
    "dispatch True (low_queue p1) n1 (p1\<lparr>high_queue := hs\<rparr>) = Some (ls, n2, p2)" and p': "p' = p2\<lparr>low_queue := ls\<rparr>"
    using assms by (auto simp: try_dispatch_pending_def split: option.splits)
  show ?thesis
    unfolding p' by (rule same_fleet_trans [OF fleet_dispatch [OF d(1)] same_fleet_trans [OF fleet_basic(7)
      same_fleet_trans [OF fleet_dispatch [OF d(2)] fleet_basic(8)]]])
qed

lemma fleet_slot_exit:
  assumes "slot_exit i g p = Some p'"
  shows "same_fleet p p'"
proof (cases "p' = p")
  case False
  then have "try_dispatch_pending (vacate i (p\<lparr>slot_cancel_sources :=
      (if i < length (slot_cancel_sources p) then (slot_cancel_sources p)[i := None] else slot_cancel_sources p)\<rparr>)) = Some p'"
    using assms by (auto simp: slot_exit_def release_stateless_slot_def split: if_splits)
  then show ?thesis
    using same_fleet_trans [OF same_fleet_trans [OF fleet_basic(9) fleet_basic(3)] fleet_try_dispatch] by blast
qed simp

lemma fleet_acquire:
  assumes "acquire_slot r q p = Some p'"
  shows "same_fleet p p'"
  using assms fleet_basic(1,4) same_fleet_trans [OF fleet_basic(2) fleet_basic(5)]
  by (auto simp: acquire_slot_def split: if_splits option.splits)

lemma fleet_next_attempt:
  assumes "next_attempt r q p = Some p'"
  shows "same_fleet p p'"
  using assms same_fleet_trans [OF fleet_basic(6) fleet_acquire] same_fleet_trans [OF fleet_basic(6) fleet_basic(1)]
  by (auto simp: next_attempt_def Let_def split: if_splits)

lemma fleet_request:
  "send_stateless r prio p = Some p' \<Longrightarrow> same_fleet p p'"
  "resume_send r p = Some p' \<Longrightarrow> same_fleet p p'"
  "answer_send r v p = Some p' \<Longrightarrow> same_fleet p p'"
  "cancel_send r p = Some p' \<Longrightarrow> same_fleet p p'"
proof -
  note tr = same_fleet_trans
  show "same_fleet p p'" if e: "send_stateless r prio p = Some p'"
    using e tr [OF fleet_basic(6) fleet_acquire] tr [OF fleet_basic(6) fleet_basic(1)]
    by (auto simp: send_stateless_def Let_def split: if_splits)
  have enter: "same_fleet p p'" if e: "enter_slot r q i p = Some p'" for q i
    using e fleet_basic(5) tr [OF fleet_slot_exit fleet_next_attempt]
    by (auto simp: enter_slot_def bind_eq_Some_conv split: if_splits)
  show "same_fleet p p'" if e: "resume_send r p = Some p'"
    using e enter fleet_acquire fleet_basic(1)
    by (auto simp: resume_send_def split: option.splits phase.splits if_splits)
  show "same_fleet p p'" if e: "answer_send r v p = Some p'"
    using e tr [OF fleet_slot_exit fleet_next_attempt] tr [OF fleet_basic(1) fleet_slot_exit]
    by (auto simp: answer_send_def bind_eq_Some_conv split: option.splits phase.splits if_splits)
  show "same_fleet p p'" if e: "cancel_send r p = Some p'"
    using e tr [OF fleet_basic(6) fleet_slot_exit] fleet_basic(6)
      tr [OF fleet_basic(6) tr [OF fleet_basic(7) fleet_basic(8)]]
    by (auto simp: cancel_send_def Let_def split: option.splits phase.splits if_splits)
qed

text \<open>At rest the ceiling follows the number of live workers and no worker has been restarted too often.\<close>

definition fleet_ok :: "pool \<Rightarrow> bool" where
  "fleet_ok p \<longleftrightarrow> max_low_limit p = low_ceiling (alive_stateless_count p)
     \<and> (\<forall>n \<in> set (map restart_count (ws p)). n \<le> max_restarts (options p))"

lemma same_fleet_ok: "same_fleet p p' \<Longrightarrow> fleet_ok p' = fleet_ok p"
  by (simp only: same_fleet_def fleet_ok_def)

lemma restarts_take_down: "map restart_count (ws (take_down i p)) = map restart_count (ws p)"
  by (simp add: take_down_def vacate_def restarts_map_worker Let_def)

lemma shrink_fleet:
  "max_low_limit (shrink_ceiling p) = low_ceiling (alive_stateless_count (shrink_ceiling p))"
  "alive_stateless_count (shrink_ceiling p) = alive_stateless_count p"
  "options (shrink_ceiling p) = options p" "ws (shrink_ceiling p) = ws p"
  by (simp_all add: shrink_ceiling_def Let_def)

lemma backoff_fleet [simp]:
  "max_low_limit (apply_crash_backoff p) = max_low_limit p" "options (apply_crash_backoff p) = options p"
  "alive_stateless_count (apply_crash_backoff p) = alive_stateless_count p" "ws (apply_crash_backoff p) = ws p"
  by (simp_all add: apply_crash_backoff_def Let_def)

lemma fleet_fail: "same_fleet p (fail_pending_requests p)"
proof -
  have "options (fold (\<lambda>r. set_phase r (Woken None 0)) rs q) = options q
      \<and> same_routing q (fold (\<lambda>r. set_phase r (Woken None 0)) rs q)" for rs and q :: pool
    by (induction rs arbitrary: q) (simp_all add: same_routing_def set_phase_def)
  then show ?thesis by (simp add: same_fleet_def fail_pending_view) (simp add: fail_pending_requests_def same_routing_def)
qed

lemma process_crash_fleet:
  assumes "process_crash i False code signal ids p = Some (restart, p')"
  shows "restart \<longleftrightarrow> restart_count (ws p ! i) < max_restarts (options p)"
    and "alive_stateless_count p' = usub (alive_stateless_count p) 1" and "options p' = options p"
    and "map restart_count (ws p') = map restart_count (ws p)"
    and "max_low_limit p' = (if restart then max_low_limit p else low_ceiling (alive_stateless_count p'))"
proof -
  show r: "restart \<longleftrightarrow> restart_count (ws p ! i) < max_restarts (options p)"
    using assms by (auto simp: process_crash_eq Let_def)
  define p3 where "p3 = (if restart then apply_crash_backoff (take_down i p)
    else shrink_ceiling (apply_crash_backoff (take_down i p)))"
  obtain p4 c where p4: "(if alive_stateless_count p3 = 0 \<and> \<not> restart then Some (fail_pending_requests p3)
      else try_dispatch_pending p3) = Some p4" and p': "p' = p4\<lparr>crash_reports := c\<rparr>"
    using assms unfolding process_crash_eq Let_def r [symmetric] p3_def [symmetric] by blast
  have f: "same_fleet p3 p4" using p4 fleet_fail fleet_try_dispatch by (auto split: if_splits)
  show "alive_stateless_count p' = usub (alive_stateless_count p) 1" "options p' = options p"
    "map restart_count (ws p') = map restart_count (ws p)"
    "max_low_limit p' = (if restart then max_low_limit p else low_ceiling (alive_stateless_count p'))"
    using f by (auto simp: p' same_fleet_def p3_def shrink_fleet restarts_take_down)
qed

lemma retire_peer_fleet: "same_fleet p (retire_peer i False p)"
  by (simp add: retire_peer_def same_fleet_def same_routing_def restarts_map_worker Let_def)

lemma respawn_fleet:
  assumes "respawn_worker spawns i False p = Some (up, p')" and i: "i < length (ws p)"
  shows "up \<Longrightarrow> alive_stateless_count p' = alive_stateless_count p + 1"
    and "up \<Longrightarrow> map restart_count (ws p') = (map restart_count (ws p))[i := restart_count (ws p ! i) + 1]"
    and "\<not> up \<Longrightarrow> same_fleet p p'"
    and "options p' = options p" "max_low_limit p' = max_low_limit p"
proof -
  let ?p1 = "retire_peer i False p"
  have r: "same_fleet p ?p1" by (rule retire_peer_fleet)
  then have i1: "i < length (ws ?p1)" using i by (metis same_fleet_def length_map)
  let ?w = "fresh_worker (worker_name False i) (restart_count (ws p ! i) + 1)"
  let ?p2 = "?p1\<lparr>stateless_workers := (ws ?p1)[i := ?w], alive_stateless_count := alive_stateless_count ?p1 + 1\<rparr>"
  have cases: "\<not> up \<and> p' = ?p1 \<or> up \<and> try_dispatch_pending ?p2 = Some p'"
    using assms(1) by (auto simp: respawn_worker_def Let_def map_worker_in [OF i1] split: if_splits)
  have d: "same_fleet ?p2 p'" if up using cases that fleet_try_dispatch by blast
  show "alive_stateless_count p' = alive_stateless_count p + 1" if up
    using d [OF that] r by (simp add: same_fleet_def)
  show "map restart_count (ws p') = (map restart_count (ws p))[i := restart_count (ws p ! i) + 1]" if up
    using d [OF that] r by (simp add: same_fleet_def map_update fresh_worker_def)
  show "same_fleet p p'" if "\<not> up" using cases that r by blast
  show "options p' = options p" "max_low_limit p' = max_low_limit p"
    using cases d r by (auto simp: same_fleet_def)
qed

lemma stateless_exit_fleet:
  assumes run: "worker_exits spawns i False result ids p = Some p'" and ok: "fleet_ok p" "counts_ok p"
    and i: "i < length (ws p)" "w_alive (ws p ! i)"
  shows "fleet_ok p'"
proof (cases "shutting_down p \<or> w_retiring (ws p ! i)")
  case True
  have "retired_exit i p = shrink_ceiling (retire_peer i False (take_down i p))"
    by (simp add: retired_exit_def take_down_def Let_def)
  then have "fleet_ok (retired_exit i p)"
    using retire_peer_fleet [of "take_down i p" i] ok(1)
    by (simp only: fleet_ok_def shrink_fleet same_fleet_def restarts_take_down) simp
  then show ?thesis using run True ok(1) by (auto simp: worker_exits_def split: if_splits)
next
  case False
  obtain code signal where cs: "(case result of Some cs \<Rightarrow> cs | None \<Rightarrow> (0, 9)) = (code, signal)" by fastforce
  obtain restart p1 where p1: "process_crash i False code signal ids p = Some (restart, p1)"
    using run False cs by (auto simp: worker_exits_def split: option.splits prod.splits)
  note c = process_crash_fleet [OF p1]
  have i1: "i < length (ws p1)" using i(1) c(4) by (metis length_map)
  have rc: "restart_count (ws p1 ! i) = restart_count (ws p ! i)" using c(4) i(1) i1 by (metis nth_map)
  have pos: "0 < alive_stateless_count p"
    using ok(2) i nth_mem [OF i(1)] count_pos [of w_alive "ws p"] unfolding counts_ok_def by auto
  have shrink: "fleet_ok (shrink_ceiling q)" if "same_fleet p1 q" for q
    using that c(3,4) ok(1) by (simp only: fleet_ok_def shrink_fleet same_fleet_def) simp
  show ?thesis
  proof (cases restart)
    case False
    then show ?thesis
      using run \<open>\<not> (shutting_down p \<or> _)\<close> cs p1 c ok(1) by (simp add: worker_exits_def fleet_ok_def)
  next
    case True
    then obtain up p2 where p2: "respawn_worker spawns i False p1 = Some (up, p2)"
      using run False cs p1 by (auto simp: worker_exits_def split: option.splits prod.splits)
    note r = respawn_fleet [OF p2 i1]
    show ?thesis
    proof (cases up)
      case up: True
      have "fleet_ok p2"
        using ok(1) c r(1,2) [OF up] r(4,5) True pos i1 rc set_update_subset_insert [of "map restart_count (ws p)" i]
        by (fastforce simp: fleet_ok_def simp del: set_map)
      then show ?thesis using run False cs p1 p2 up True by (simp add: worker_exits_def)
    next
      case down: False
      have "fleet_ok (shrink_ceiling p2)" by (rule shrink [OF r(3) [OF down]])
      moreover have "fleet_ok (fail_pending_requests (shrink_ceiling p2))"
        using same_fleet_ok [OF fleet_fail] calculation by blast
      ultimately show ?thesis using run False cs p1 p2 down True by (auto simp: worker_exits_def Let_def split: if_splits)
    qed
  qed
qed

lemma fleet_okI:
  "same_core p p' \<Longrightarrow> max_low_limit p' = max_low_limit p \<Longrightarrow> options p' = options p \<Longrightarrow> fleet_ok p \<Longrightarrow> fleet_ok p'"
  by (simp add: fleet_ok_def same_core_def)

lemma cancel_low_options: "options (cancel_low_loop is n p) = options p"
  by (induction "is" n p rule: cancel_low_loop.induct) (auto simp: Let_def split: option.splits)

lemma adjust_limit_fleet:
  assumes "adjust_limit m p = Some p'" and "fleet_ok p"
  shows "fleet_ok p'"
proof -
  have "same_fleet p (raise_limit p)" "same_fleet p (lower_limit p)"
    by (simp_all add: same_fleet_def same_routing_def raise_limit_def lower_limit_def Let_def)
  then show ?thesis
    using assms same_fleet_ok same_fleet_trans [OF \<open>same_fleet p (raise_limit p)\<close> fleet_try_dispatch]
    by (auto simp: adjust_limit_def split: if_splits)
qed

lemma scale_up_fleet:
  assumes "scale_up_worker spawns p = Some (up, p')" and ok: "fleet_ok p"
  shows "fleet_ok p'"
proof (cases "p' = p")
  case False
  then obtain p1 where p1: "spawn_worker spawns False 0 p = Some p1"
    and d: "try_dispatch_pending (p1\<lparr>slot_cancel_sources := slot_cancel_sources p1 @ [None],
      max_low_limit := low_ceiling (alive_stateless_count p1),
      low_limit := low_ceiling (alive_stateless_count p1), w_max := 0\<rparr>) = Some p'"
    using assms(1) by (auto simp: scale_up_worker_def Let_def split: if_splits option.splits)
  have "ws p1 = ws p @ [fresh_worker (worker_name False (length (ws p))) 0]" "options p1 = options p"
    using p1 by (auto simp: spawn_worker_def Let_def split: if_splits)
  then have "fleet_ok (p1\<lparr>slot_cancel_sources := slot_cancel_sources p1 @ [None],
      max_low_limit := low_ceiling (alive_stateless_count p1),
      low_limit := low_ceiling (alive_stateless_count p1), w_max := 0\<rparr>)"
    using ok by (simp add: fleet_ok_def fresh_worker_def)
  then show ?thesis using same_fleet_ok [OF fleet_try_dispatch [OF d]] by blast
qed (use ok in simp)

lemma retire_idle_fleet: "fleet_ok p \<Longrightarrow> fleet_ok (retire_idle_worker p)"
proof -
  have "same_fleet p (retire_idle_worker p)"
    by (auto simp: same_fleet_def same_routing_def retire_idle_worker_def Let_def restarts_map_worker split: option.splits)
  then show "fleet_ok p \<Longrightarrow> fleet_ok (retire_idle_worker p)" using same_fleet_ok by blast
qed

lemma cycles_fleet [simp]:
  "fleet_ok (p\<lparr>saturated_cycles := n\<rparr>) = fleet_ok p" "fleet_ok (p\<lparr>idle_cycles := n\<rparr>) = fleet_ok p"
  by (simp_all add: fleet_ok_def)

lemma check_scaling_fleet:
  assumes "check_scaling spawns m p = Some p'" and ok: "fleet_ok p"
  shows "fleet_ok p'"
proof -
  have c: "fleet_ok (count_cycles p)" using ok by (simp add: count_cycles_def Let_def)
  show ?thesis
    using assms(1) c ok scale_up_fleet [OF _ c, of spawns] retire_idle_fleet
    by (auto simp: check_scaling_def Let_def split: if_splits)
qed

lemma memory_tick_fleet:
  assumes "memory_tick spawns m m' p = Some p'" and ok: "fleet_ok p"
  shows "fleet_ok p'"
proof -
  have "fleet_ok (cancel_low_priority_requests n p)" for n
    unfolding cancel_low_priority_requests_def using cancel_low_core cancel_low_options ok by (blast intro: fleet_okI)
  then show ?thesis
    using assms ok adjust_limit_fleet check_scaling_fleet retire_idle_fleet
    by (auto simp: memory_tick_def Let_def bind_eq_Some_conv split: if_splits)
qed

section \<open>Stateful routing\<close>

abbreviation sws :: "pool \<Rightarrow> worker list" where
  "sws \<equiv> stateful_workers"

text \<open>The recorded load of a worker is the number of documents routed to it; the list is the routed documents.\<close>

definition routing_ok :: "pool \<Rightarrow> bool" where
  "routing_ok p \<longleftrightarrow> finite (dom (owner p)) \<and> (\<forall>path i. owner p path = Some i \<longrightarrow> i < length (sws p))
     \<and> (\<forall>i < length (sws p). owned_documents (sws p ! i) = card {path. owner p path = Some i})
     \<and> distinct (owner_lru p) \<and> set (owner_lru p) = dom (owner p) \<and> owner_lru_index p = dom (owner p)"

lemma least_loaded_in: "least_loaded xs best is \<in> insert best (set is)"
  by (induction xs best "is" rule: least_loaded.induct) auto

text \<open>The worker kept so far is alive as soon as some worker seen was, and none seen has less load.\<close>

lemma least_loaded_least:
  assumes "j \<in> insert best (set is)" and "w_alive (xs ! j)"
  shows "w_alive (xs ! least_loaded xs best is)
    \<and> owned_documents (xs ! least_loaded xs best is) \<le> owned_documents (xs ! j)"
  using assms
proof (induction xs best "is" arbitrary: j rule: least_loaded.induct)
  case (2 xs best i "is")
  consider (skip) "\<not> w_alive (xs ! i)"
    | (take) "w_alive (xs ! i)" "\<not> w_alive (xs ! best) \<or> owned_documents (xs ! i) < owned_documents (xs ! best)"
    | (keep) "w_alive (xs ! i)" "\<not> (\<not> w_alive (xs ! best) \<or> owned_documents (xs ! i) < owned_documents (xs ! best))"
    by blast
  then show ?case
  proof cases
    case skip
    then have "j \<noteq> i" using "2.prems"(2) by blast
    then show ?thesis using "2.IH"(1) [OF skip, of j] "2.prems" skip by simp
  next
    case take
    note ih = "2.IH"(2) [of i] "2.IH"(2) [of j]
    have "w_alive (xs ! least_loaded xs i is)
      \<and> owned_documents (xs ! least_loaded xs i is) \<le> owned_documents (xs ! i)"
      using "2.IH"(2) [of i] take by simp
    then show ?thesis
      using "2.IH"(2) [of j] "2.prems" take by (cases "j = best") auto
  next
    case keep
    have "w_alive (xs ! least_loaded xs best is)
      \<and> owned_documents (xs ! least_loaded xs best is) \<le> owned_documents (xs ! best)"
      using "2.IH"(3) [of best] keep by simp
    then show ?thesis using "2.IH"(3) [of j] "2.prems" keep by (cases "j = i") auto
  qed
qed simp

lemma pick_least_loaded_in: "sws p \<noteq> [] \<Longrightarrow> pick_least_loaded p < length (sws p)"
  using least_loaded_in [of "sws p" 0 "[1..<length (sws p)]"] by (auto simp: pick_least_loaded_def)

lemma card_owner_insert:
  assumes "finite (dom (m :: u32 \<rightharpoonup> nat))" and "m path = None"
  shows "card {x. (m(path \<mapsto> i)) x = Some j} = card {x. m x = Some j} + of_bool (j = i)"
proof (cases "j = i")
  case True
  have "{x. (m(path \<mapsto> i)) x = Some j} = insert path {x. m x = Some i}" using True by auto
  moreover have "finite {x. m x = Some i}" by (rule finite_subset [OF _ assms(1)]) auto
  ultimately show ?thesis using True assms(2) by simp
next
  case False
  then have "{x. (m(path \<mapsto> i)) x = Some j} = {x. m x = Some j}" using assms(2) by auto
  then show ?thesis using False by simp
qed

lemma card_owner_remove:
  assumes "finite (dom (m :: u32 \<rightharpoonup> nat))" and "m path = Some i"
  shows "card {x. m x = Some j} = card {x. (m(path := None)) x = Some j} + of_bool (j = i)"
proof -
  have "m = (m(path := None))(path \<mapsto> i)" using assms(2) by (simp add: fun_upd_idem)
  then show ?thesis using card_owner_insert [of "m(path := None)" path i j] assms(1) by simp
qed

lemma assign_routing:
  assumes ok: "routing_ok p" and sws: "sws p \<noteq> []"
  shows "routing_ok (snd (assign_worker path p))"
proof (cases "owner p path")
  case None
  let ?i = "pick_least_loaded p"
  have i: "?i < length (sws p)" by (rule pick_least_loaded_in [OF sws])
  have new: "path \<notin> dom (owner p)" using None by auto
  have load: "owned_documents (map_worker ?i (\<lambda>w. w\<lparr>owned_documents := owned_documents w + 1\<rparr>) (sws p) ! j)
      = card {x. ((owner p)(path \<mapsto> ?i)) x = Some j}" if "j < length (sws p)" for j
    using that ok card_owner_insert [of "owner p" path ?i j] None by (simp add: routing_ok_def nth_map_worker)
  show ?thesis
    using ok i new load None by (auto simp: assign_worker_def routing_ok_def Let_def)
next
  case (Some i)
  then have "path \<in> dom (owner p)" by blast
  then show ?thesis using ok Some by (auto simp: assign_worker_def touch_lru_def routing_ok_def)
qed

lemma remove_routing:
  assumes ok: "routing_ok p"
  shows "routing_ok (remove_owner path p)"
proof (cases "owner p path")
  case (Some i)
  have in_dom: "path \<in> dom (owner p)" using Some by blast
  have i: "i < length (sws p)" using ok Some by (simp add: routing_ok_def)
  have fin: "finite (dom (owner p))" using ok by (simp add: routing_ok_def)
  have load: "owned_documents (map_worker i (\<lambda>w. w\<lparr>owned_documents := usub (owned_documents w) 1\<rparr>) (sws p) ! j)
      = card {x. ((owner p)(path := None)) x = Some j}" if j: "j < length (sws p)" for j
  proof -
    define n where "n = card {x. ((owner p)(path := None)) x = Some j}"
    have "owned_documents (sws p ! j) = n + of_bool (j = i)"
      using card_owner_remove [OF fin Some, of j] ok j unfolding n_def routing_ok_def by metis
    then show ?thesis unfolding n_def [symmetric] by (cases "j = i") (simp_all add: nth_map_worker i j)
  qed
  show ?thesis
    using ok load fin in_dom Some
    by (auto simp: remove_owner_def routing_ok_def Let_def split: if_splits)
qed (use ok in \<open>simp add: remove_owner_def\<close>)

lemma owner_remove: "owner (remove_owner path p) = (owner p)(path := None)"
  by (auto simp: remove_owner_def Let_def split: option.splits)

lemma fold_remove_owner:
  "routing_ok p \<Longrightarrow> routing_ok (fold remove_owner ps p)"
  "owner (fold remove_owner ps p) x = (if x \<in> set ps then None else owner p x)"
  "length (sws (fold remove_owner ps p)) = length (sws p)"
proof -
  show "routing_ok p \<Longrightarrow> routing_ok (fold remove_owner ps p)"
    by (induction ps arbitrary: p) (simp_all add: remove_routing)
  show "owner (fold remove_owner ps p) x = (if x \<in> set ps then None else owner p x)"
    by (induction ps arbitrary: p) (auto simp: owner_remove)
  have "length (sws (remove_owner y q)) = length (sws q)" for y and q :: pool
    by (simp add: remove_owner_def Let_def split: option.splits)
  then show "length (sws (fold remove_owner ps p)) = length (sws p)"
    by (induction ps arbitrary: p) simp_all
qed

lemma routing_workers:
  assumes "routing_ok p" and "length W = length (sws p)"
    and "\<And>i. i < length W \<Longrightarrow> owned_documents (W ! i) = owned_documents (sws p ! i)"
  shows "routing_ok (p\<lparr>stateful_workers := W\<rparr>)"
  using assms by (simp add: routing_ok_def)

text \<open>After the crash of a worker no document is routed to it.\<close>

lemma clear_owner_routing:
  assumes ok: "routing_ok p" and ids: "dom (owner p) \<subseteq> set ids"
  shows "routing_ok (clear_owner i ids p)" and "\<And>x. owner (clear_owner i ids p) x \<noteq> Some i"
    and "length (sws (clear_owner i ids p)) = length (sws p)"
proof -
  show "routing_ok (clear_owner i ids p)" unfolding clear_owner_def by (rule fold_remove_owner(1) [OF ok])
  show "owner (clear_owner i ids p) x \<noteq> Some i" for x
    using ids by (auto simp: clear_owner_def fold_remove_owner(2) owned_by_def split: if_splits)
qed (simp add: clear_owner_def fold_remove_owner(3))

lemma respawn_routing:
  assumes run: "respawn_worker spawns i True p = Some (up, p')" and ok: "routing_ok p"
    and i: "i < length (sws p)" and none: "\<And>x. owner p x \<noteq> Some i"
  shows "routing_ok p'"
proof -
  let ?gone = "map_worker i (\<lambda>w. w\<lparr>w_peer := False\<rparr>) (sws p)"
  let ?w = "fresh_worker (worker_name True i) (restart_count (sws p ! i) + 1)"
  have gone: "routing_ok (p\<lparr>stateful_workers := ?gone\<rparr>)"
    by (rule routing_workers [OF ok]) (simp_all add: nth_map_worker)
  have zero: "{path. owner p path = Some i} = {}" using none by blast
  have fresh: "routing_ok (q\<lparr>stateful_workers := map_worker i (\<lambda>_. ?w) (sws q)\<rparr>)"
    if "routing_ok q" "owner q = owner p" "length (sws q) = length (sws p)" for q :: pool
    by (rule routing_workers [OF that(1)])
      (use that zero i in \<open>auto simp: nth_map_worker fresh_worker_def routing_ok_def\<close>)
  have r: "routing_ok (retire_peer i True p)" "owner (retire_peer i True p) = owner p"
    "length (sws (retire_peer i True p)) = length (sws p)"
    using ok gone by (simp_all add: retire_peer_def routing_ok_def Let_def)
  show ?thesis using run r(1) fresh [OF r] by (auto simp: respawn_worker_def Let_def split: if_splits)
qed

lemma stateful_exit_routing:
  assumes run: "worker_exits spawns i True result ids p = Some p'" and ok: "routing_ok p"
    and i: "i < length (sws p)" and ids: "dom (owner p) \<subseteq> set ids"
  shows "routing_ok p'"
proof (cases "shutting_down p")
  case False
  obtain code signal where cs: "(case result of Some cs \<Rightarrow> cs | None \<Rightarrow> (0, 9)) = (code, signal)" by fastforce
  obtain restart p1 where p1: "process_crash i True code signal ids p = Some (restart, p1)"
    by (auto simp: process_crash_def Let_def)
  let ?p = "p\<lparr>stateful_workers := map_worker i (\<lambda>w. w\<lparr>w_alive := False\<rparr>) (sws p)\<rparr>"
  have "routing_ok ?p" by (rule routing_workers [OF ok]) (simp_all add: nth_map_worker)
  note c = clear_owner_routing [OF this, of ids i]
  obtain r where "p1 = (clear_owner i ids ?p)\<lparr>crash_reports := r\<rparr>" by (rule process_crash_stateful [OF p1])
  then have one: "routing_ok p1" "i < length (sws p1)" "\<And>x. owner p1 x \<noteq> Some i"
    using c ids i by (simp_all add: routing_ok_def)
  have "\<exists>x. respawn_worker spawns i True p1 = Some x" by (auto simp: respawn_worker_def Let_def)
  then obtain up p2 where p2: "respawn_worker spawns i True p1 = Some (up, p2)" by (metis surj_pair)
  have "p' = p1 \<or> p' = p2"
    using run False cs p1 p2 by (cases restart; cases up) (auto simp: worker_exits_def)
  then show ?thesis using one respawn_routing [OF p2 one] by blast
qed (use run ok in \<open>simp add: worker_exits_def\<close>)

text \<open>The stateless side leaves the routing alone.\<close>

lemma routing_basic:
  "same_routing p (take_down i p)" "same_routing p (apply_crash_backoff p)" "same_routing p (shrink_ceiling p)"
  "same_routing p (p\<lparr>crash_reports := c\<rparr>)" "same_routing p (retire_peer i False p)"
  "same_routing p (count_cycles p)" "same_routing p (retire_idle_worker p)"
  "same_routing p (p\<lparr>saturated_cycles := n\<rparr>)" "same_routing p (p\<lparr>idle_cycles := n\<rparr>)"
  by (simp_all add: same_routing_def take_down_def vacate_def apply_crash_backoff_def shrink_ceiling_def
      retire_peer_def count_cycles_def retire_idle_worker_def Let_def split: option.splits)

lemma routing_dispatch: "try_dispatch_pending p = Some p' \<Longrightarrow> same_routing p p'"
  by (rule same_fleet_routing [OF fleet_try_dispatch])

lemma routing_crash:
  assumes "process_crash i False code signal ids p = Some (restart, p')"
  shows "same_routing p p'"
proof -
  define b where "b = apply_crash_backoff (take_down i p)"
  define p3 where "p3 = (if restart then b else shrink_ceiling b)"
  have r: "restart \<longleftrightarrow> restart_count (ws p ! i) < max_restarts (options p)"
    using assms by (auto simp: process_crash_eq Let_def)
  obtain p4 c where p4: "(if alive_stateless_count p3 = 0 \<and> \<not> restart then Some (fail_pending_requests p3)
      else try_dispatch_pending p3) = Some p4" and p': "p' = p4\<lparr>crash_reports := c\<rparr>"
    using assms unfolding process_crash_eq Let_def r [symmetric] b_def [symmetric] p3_def [symmetric] by blast
  have "same_routing p b" unfolding b_def by (rule same_routing_trans [OF routing_basic(1) routing_basic(2)])
  then have "same_routing p p3" using same_routing_trans [OF _ routing_basic(3)] by (simp add: p3_def)
  moreover have "same_routing p3 p4"
    using p4 routing_dispatch same_fleet_routing [OF fleet_fail] by (auto split: if_splits)
  ultimately show ?thesis by (simp add: p' same_routing_def)
qed

lemma routing_respawn:
  assumes "respawn_worker spawns i False p = Some (up, p')"
  shows "same_routing p p'"
proof -
  have "same_routing p (retire_peer i False p)" by (rule routing_basic(5))
  then show ?thesis
    using assms routing_dispatch by (fastforce simp: respawn_worker_def same_routing_def Let_def split: if_splits)
qed

lemma routing_exit:
  assumes "worker_exits spawns i False result ids p = Some p'"
  shows "same_routing p p'"
proof -
  have "retired_exit i p = shrink_ceiling (retire_peer i False (take_down i p))"
    by (simp add: retired_exit_def take_down_def Let_def)
  then have ret: "same_routing p (retired_exit i p)"
    using same_routing_trans [OF same_routing_trans [OF routing_basic(1) routing_basic(5)] routing_basic(3)] by simp
  show ?thesis
  proof (cases "shutting_down p \<or> w_retiring (ws p ! i)")
    case False
    obtain code signal where cs: "(case result of Some cs \<Rightarrow> cs | None \<Rightarrow> (0, 9)) = (code, signal)" by fastforce
    obtain restart p1 where p1: "process_crash i False code signal ids p = Some (restart, p1)"
      using assms False cs by (auto simp: worker_exits_def split: option.splits prod.splits)
    have one: "same_routing p p1" by (rule routing_crash [OF p1])
    show ?thesis
    proof (cases restart)
      case True
      then obtain up p2 where p2: "respawn_worker spawns i False p1 = Some (up, p2)"
        using assms False cs p1 by (auto simp: worker_exits_def split: option.splits prod.splits)
      have two: "same_routing p p2" by (rule same_routing_trans [OF one routing_respawn [OF p2]])
      have three: "same_routing p (shrink_ceiling p2)" by (rule same_routing_trans [OF two routing_basic(3)])
      have "same_routing p (fail_pending_requests (shrink_ceiling p2))"
        by (rule same_routing_trans [OF three same_fleet_routing [OF fleet_fail]])
      then show ?thesis
        using assms False cs p1 p2 two three True by (cases up) (auto simp: worker_exits_def Let_def split: if_splits)
    qed (use assms False cs p1 one in \<open>simp add: worker_exits_def\<close>)
  qed (use assms ret in \<open>auto simp: worker_exits_def split: if_splits\<close>)
qed

lemma routing_scale_up:
  assumes "scale_up_worker spawns p = Some (up, p')"
  shows "same_routing p p'"
proof (cases "p' = p")
  case False
  then obtain p1 where p1: "spawn_worker spawns False 0 p = Some p1"
    and d: "try_dispatch_pending (p1\<lparr>slot_cancel_sources := slot_cancel_sources p1 @ [None],
      max_low_limit := low_ceiling (alive_stateless_count p1),
      low_limit := low_ceiling (alive_stateless_count p1), w_max := 0\<rparr>) = Some p'"
    using assms by (auto simp: scale_up_worker_def Let_def split: if_splits option.splits)
  have "\<exists>W n. p1 = p\<lparr>stateless_workers := W, alive_stateless_count := n\<rparr>"
    using p1 by (auto simp: spawn_worker_def Let_def split: if_splits)
  then have "same_routing p p1" by (auto simp: same_routing_def)
  then show ?thesis using routing_dispatch [OF d] by (simp add: same_routing_def)
qed simp

lemma routing_tick:
  assumes "memory_tick spawns m m' p = Some p'"
  shows "same_routing p p'"
proof -
  note tr = same_routing_trans
  have cl: "same_routing p (cancel_low_loop is n p)" for "is" n
    by (induction "is" n p rule: cancel_low_loop.induct) (auto simp: same_routing_def Let_def split: option.splits)
  have adj: "same_routing q q'" if e: "adjust_limit m q = Some q'" for q q'
  proof -
    have r: "same_routing q (raise_limit q)" "same_routing q (lower_limit q)"
      by (simp_all add: same_routing_def raise_limit_def lower_limit_def Let_def)
    have "lower_limit q = q' \<or> q = q' \<or> try_dispatch_pending (raise_limit q) = Some q'"
      using e by (simp add: adjust_limit_def split: if_splits)
    then show ?thesis using r tr [OF r(1) routing_dispatch] by (elim disjE) simp_all
  qed
  have sc: "same_routing q q'" if e: "check_scaling spawns m' q = Some q'" for q q'
  proof -
    let ?c = "count_cycles q"
    have c: "same_routing q ?c" by (rule routing_basic(6))
    define x where "x = (if 5 \<le> saturated_cycles ?c \<and> (effective_total m' = 0 \<or> ratio_above 30 m') then
      map_option (\<lambda>(up, p'). if up then p'\<lparr>saturated_cycles := 0\<rparr> else p') (scale_up_worker spawns ?c) else Some ?c)"
    have x: "same_routing q s" if sx: "x = Some s" for s
    proof (cases "s = ?c")
      case False
      then obtain up p2 where u: "scale_up_worker spawns ?c = Some (up, p2)" "s = p2 \<or> s = p2\<lparr>saturated_cycles := 0\<rparr>"
        using sx by (auto simp: x_def split: if_splits)
      have "same_routing q p2" by (rule tr [OF c routing_scale_up [OF u(1)]])
      then have "same_routing q p2" "same_routing q (p2\<lparr>saturated_cycles := 0\<rparr>)"
        by (simp_all only: tr [OF _ routing_basic(8)])
      then show ?thesis using u(2) by (elim disjE) simp_all
    qed (use c in simp)
    show ?thesis
    proof (cases "shutting_down q")
      case False
      have "map_option (\<lambda>p3. if 10 \<le> idle_cycles p3 then (retire_idle_worker p3)\<lparr>idle_cycles := 0\<rparr> else p3) x = Some q'"
        using e False unfolding check_scaling_def Let_def x_def by simp
      then obtain s where s: "x = Some s" "q' = s \<or> q' = (retire_idle_worker s)\<lparr>idle_cycles := 0\<rparr>"
        by (auto split: if_splits)
      show ?thesis
        using s(2) x [OF s(1)] tr [OF x [OF s(1)] tr [OF routing_basic(7) routing_basic(9)]] by blast
    qed (use e in \<open>simp add: check_scaling_def\<close>)
  qed
  show ?thesis
  proof (cases "shutting_down p \<or> mem_total m = 0")
    case False
    define p1 where "p1 = (if ratio_below 10 m \<and> 0 < low_busy_count p
      then cancel_low_priority_requests (low_busy_count p) p else p)"
    obtain p2 p3 where a: "adjust_limit m p1 = Some p2" and c: "check_scaling spawns m' p2 = Some p3"
      and p': "p' = p3 \<or> p' = retire_idle_worker p3"
      using assms False unfolding memory_tick_def Let_def p1_def [symmetric]
      by (auto simp: bind_eq_Some_conv split: if_splits)
    have "same_routing p p1" using cl by (simp add: p1_def cancel_low_priority_requests_def)
    then have "same_routing p p3" using tr [OF _ tr [OF adj [OF a] sc [OF c]]] by blast
    then show ?thesis using p' tr [OF _ routing_basic(7)] by blast
  qed (use assms in \<open>simp add: memory_tick_def\<close>)
qed

section \<open>The transition system\<close>

inductive pool_step :: "pool \<Rightarrow> pool \<Rightarrow> bool" where
  send: "sends p r = None \<Longrightarrow> send_stateless r prio p = Some p' \<Longrightarrow> pool_step p p'"
| resume: "resume_send r p = Some p' \<Longrightarrow> pool_step p p'"
| answer: "answer_send r has_value p = Some p' \<Longrightarrow> pool_step p p'"
| cancel: "cancel_send r p = Some p' \<Longrightarrow> pool_step p p'"
| stateless_exit: "i < length (ws p) \<Longrightarrow> w_alive (ws p ! i) \<Longrightarrow>
    worker_exits spawns i False result ids p = Some p' \<Longrightarrow> pool_step p p'"
| stateful_exit: "i < length (sws p) \<Longrightarrow> w_alive (sws p ! i) \<Longrightarrow> set ids = dom (owner p) \<Longrightarrow>
    worker_exits spawns i True result ids p = Some p' \<Longrightarrow> pool_step p p'"
| tick: "memory_tick spawns m m' p = Some p' \<Longrightarrow> pool_step p p'"
| route: "pool_step p (snd (send_stateful path p))"
| forget: "pool_step p (remove_owner path p)"
| stop: "pool_step p (stop_pool p)"

definition pool_started :: "pool_options \<Rightarrow> pool \<Rightarrow> bool" where
  "pool_started opts p \<longleftrightarrow> (\<exists>spawns cores. start spawns cores opts = Some p)"

abbreviation pool_reachable :: "pool_options \<Rightarrow> pool \<Rightarrow> bool" where
  "pool_reachable opts \<equiv> reached (pool_started opts) pool_step"

lemma stop_good: "pool_good p \<Longrightarrow> pool_good (stop_pool p)"
proof -
  have "pool_good (p\<lparr>shutting_down := True\<rparr>) = pool_good p" by (rule pool_good_cong) (simp_all add: same_core_def)
  then show "pool_good p \<Longrightarrow> pool_good (stop_pool p)" using fail_pending_ok by (simp add: stop_pool_def)
qed

lemma stop_fleet: "same_fleet p (stop_pool p)"
proof -
  have "same_fleet p (p\<lparr>shutting_down := True\<rparr>)" by (simp add: same_fleet_def same_routing_def)
  then show ?thesis unfolding stop_pool_def by (rule same_fleet_trans [OF _ fleet_fail])
qed

text \<open>Each step keeps the invariants of the slots, of the fleet and of the routing.\<close>

lemma step_good:
  assumes "pool_step p p'" and "pool_good p"
  shows "pool_good p'"
  using assms
proof cases
  case (send r prio) then show ?thesis using assms(2) send_stateless_ok by blast
next
  case (resume r) then show ?thesis using assms(2) resume_send_ok by blast
next
  case (answer r v) then show ?thesis using assms(2) answer_send_ok by blast
next
  case (cancel r) then show ?thesis using assms(2) cancel_send_ok by blast
next
  case (stateless_exit i spawns result ids)
  then show ?thesis using stateless_exit_ok [OF assms(2), of i spawns result ids] by auto
next
  case (stateful_exit i ids spawns result)
  then show ?thesis using assms(2) same_stateless_good [OF stateful_exit_stateless] by blast
next
  case (tick spawns m m') then show ?thesis using memory_tick_ok [OF assms(2), of spawns m m'] by auto
next
  case (route path) then show ?thesis using assms(2) same_stateless_good [OF send_stateful_stateless] by blast
next
  case (forget path) then show ?thesis using assms(2) same_stateless_good [OF remove_owner_stateless] by blast
next
  case stop then show ?thesis using assms(2) stop_good by blast
qed

lemma stateless_fleet: "same_stateless p p' \<Longrightarrow> fleet_ok p \<Longrightarrow> fleet_ok p'"
  by (rule fleet_okI) (simp_all add: same_stateless_def)

lemma step_fleet:
  assumes "pool_step p p'" and "pool_good p" and "fleet_ok p"
  shows "fleet_ok p'"
proof -
  have keep: "fleet_ok q" if "same_fleet p q" for q using same_fleet_ok [OF that] assms(3) by blast
  show ?thesis
    using assms(1)
  proof cases
    case (stateless_exit i spawns result ids)
    have "counts_ok p" using assms(2) by (simp add: pool_good_def pool_inv_def)
    then show ?thesis using stateless_exit stateless_exit_fleet assms(3) by blast
  next
    case (tick spawns m m') show ?thesis by (rule memory_tick_fleet [OF tick assms(3)])
  next
    case (send r prio) show ?thesis by (rule keep [OF fleet_request(1) [OF send(2)]])
  next
    case (resume r) show ?thesis by (rule keep [OF fleet_request(2) [OF resume]])
  next
    case (answer r v) show ?thesis by (rule keep [OF fleet_request(3) [OF answer]])
  next
    case (cancel r) show ?thesis by (rule keep [OF fleet_request(4) [OF cancel]])
  next
    case (stateful_exit i ids spawns result)
    show ?thesis by (rule stateless_fleet [OF stateful_exit_stateless [OF stateful_exit(4)] assms(3)])
  next
    case (route path) show ?thesis unfolding route by (rule stateless_fleet [OF send_stateful_stateless assms(3)])
  next
    case (forget path) show ?thesis unfolding forget by (rule stateless_fleet [OF remove_owner_stateless assms(3)])
  next
    case stop show ?thesis unfolding stop by (rule keep [OF stop_fleet])
  qed
qed

lemma same_routing_ok: "same_routing p p' \<Longrightarrow> routing_ok p \<Longrightarrow> routing_ok p'"
  by (simp add: same_routing_def routing_ok_def)

lemma step_routing:
  assumes "pool_step p p'" and "routing_ok p"
  shows "routing_ok p'"
proof -
  have keep: "routing_ok q" if "same_fleet p q" for q
    by (rule same_routing_ok [OF same_fleet_routing [OF that] assms(2)])
  show ?thesis
    using assms(1)
  proof cases
    case (stateful_exit i ids spawns result)
    then show ?thesis using stateful_exit_routing assms(2) by blast
  next
    case (route path)
    then show ?thesis
      using assms(2) assign_routing [OF assms(2), of path] by (auto simp: send_stateful_def split: prod.splits)
  next
    case (forget path) then show ?thesis using assms(2) remove_routing by blast
  next
    case (tick spawns m m') show ?thesis by (rule same_routing_ok [OF routing_tick [OF tick] assms(2)])
  next
    case (send r prio) show ?thesis by (rule keep [OF fleet_request(1) [OF send(2)]])
  next
    case (resume r) show ?thesis by (rule keep [OF fleet_request(2) [OF resume]])
  next
    case (answer r v) show ?thesis by (rule keep [OF fleet_request(3) [OF answer]])
  next
    case (cancel r) show ?thesis by (rule keep [OF fleet_request(4) [OF cancel]])
  next
    case (stateless_exit i spawns result ids)
    show ?thesis by (rule same_routing_ok [OF routing_exit [OF stateless_exit(3)] assms(2)])
  next
    case stop show ?thesis unfolding stop by (rule keep [OF stop_fleet])
  qed
qed

lemma started_good:
  assumes "pool_started opts p"
  shows "pool_good p \<and> fleet_ok p \<and> routing_ok p"
proof -
  obtain spawns cores where start: "start spawns cores opts = Some p" using assms by (auto simp: pool_started_def)
  note s = start_idle [OF start]
  have "fleet_ok p" using s by (auto simp: fleet_ok_def idle_pool_def)
  moreover have "routing_ok p" using s(1) by (auto simp: routing_ok_def idle_pool_def)
  ultimately show ?thesis using start_good [OF start] by blast
qed

interpretation fleet: safe_system "pool_started opts" pool_step "\<lambda>p. pool_good p \<and> fleet_ok p \<and> routing_ok p" for opts
  by unfold_locales (use started_good step_good step_fleet step_routing in blast)+

section \<open>Serving the queues\<close>

lemma dispatch_result:
  assumes "dispatch l rs n p = Some (rs', n', p')"
  shows "n' \<le> n" and "rs' \<noteq> [] \<Longrightarrow> n' = 0 \<or> l \<and> low_limit p' \<le> low_busy_count p'" and "\<exists>k. rs' = drop k rs"
proof -
  have "n' \<le> n \<and> (rs' \<noteq> [] \<longrightarrow> n' = 0 \<or> l \<and> low_limit p' \<le> low_busy_count p') \<and> (\<exists>k. rs' = drop k rs)"
    using assms
  proof (induction l rs n p rule: dispatch.induct)
    case (2 l r rs n p)
    show ?case
    proof (cases "0 < n \<and> (\<not> l \<or> low_busy_count p < low_limit p)")
      case True
      then obtain i where i: "pick_idle_stateless p = Some i"
        using "2.prems" by (auto split: option.splits)
      from "2.IH" [OF True i] "2.prems" True i obtain k where
        "n' \<le> n - 1" "rs' \<noteq> [] \<longrightarrow> n' = 0 \<or> l \<and> low_limit p' \<le> low_busy_count p'" "rs' = drop k rs" by auto
      then show ?thesis by (intro conjI exI [of _ "Suc k"]) auto
    next
      case False
      then have "rs' = r # rs" "n' = n" "p' = p" using "2.prems" by auto
      then show ?thesis using False by (auto intro: exI [of _ 0])
    qed
  qed simp
  then show "n' \<le> n" and "rs' \<noteq> [] \<Longrightarrow> n' = 0 \<or> l \<and> low_limit p' \<le> low_busy_count p'" and "\<exists>k. rs' = drop k rs" by auto
qed

lemma try_dispatch_serves:
  assumes good: "good_pool p" and run: "try_dispatch_pending p = Some p'"
  shows "high_queue p' \<noteq> [] \<Longrightarrow> count free (ws p') = 0"
    and "low_queue p' \<noteq> [] \<Longrightarrow> count free (ws p') = 0 \<or> low_limit p' \<le> low_busy_count p'"
    and "\<exists>k. high_queue p' = drop k (high_queue p)" and "\<exists>k. low_queue p' = drop k (low_queue p)"
proof -
  note i = pool_invD [OF good]
  obtain hs p1 where d1: "dispatch False (high_queue p) (count free (ws p)) p = Some (hs, count free (ws p1), p1)"
    and c1: "counts_ok p1" "hold_ok (ws p1) (slots {} p1)" "queue_ok {} hs (low_queue p) p1"
    and f1: "low_queue p1 = low_queue p"
    using dispatch_ok [OF i(1,2), of False "high_queue p" "high_queue p" "low_queue p"] i(3) by auto
  obtain ls p2 where d2: "dispatch True (low_queue p) (count free (ws (p1\<lparr>high_queue := hs\<rparr>))) (p1\<lparr>high_queue := hs\<rparr>)
      = Some (ls, count free (ws p2), p2)" and f2: "high_queue p2 = hs"
    using dispatch_ok [of "p1\<lparr>high_queue := hs\<rparr>" "{}" True hs "low_queue p" "low_queue p"] c1 by auto
  have p': "p' = p2\<lparr>low_queue := ls\<rparr>"
    using run d1 d2 f1 by (simp add: try_dispatch_pending_def dispatch_idle [OF i(1)])
  note r1 = dispatch_result [OF d1] and r2 = dispatch_result [OF d2]
  show "high_queue p' \<noteq> [] \<Longrightarrow> count free (ws p') = 0" using r1(2) r2(1) f2 by (simp add: p')
  show "low_queue p' \<noteq> [] \<Longrightarrow> count free (ws p') = 0 \<or> low_limit p' \<le> low_busy_count p'" using r2(2) by (simp add: p')
  show "\<exists>k. high_queue p' = drop k (high_queue p)" using r1(3) f2 by (simp add: p')
  show "\<exists>k. low_queue p' = drop k (low_queue p)" using r2(3) by (simp add: p')
qed

section \<open>The lines of the error output\<close>

lemma split_lines_append:
  "split_lines cur (xs @ ys) = (let (ls, rest) = split_lines cur xs; (ls', rest') = split_lines rest ys in (ls @ ls', rest'))"
  by (induction cur xs rule: split_lines.induct) (auto simp: Let_def split: prod.splits)

lemma split_lines_rest: "CHR 0x0A \<notin> set (snd (split_lines cur xs)) \<or> CHR 0x0A \<in> set cur"
  by (induction cur xs rule: split_lines.induct) (auto simp: Let_def split: prod.splits)

lemma split_lines_clean: "CHR 0x0A \<notin> set xs \<Longrightarrow> split_lines cur xs = ([], cur @ xs)"
  by (induction cur xs rule: split_lines.induct) auto

lemma drain_lines:
  assumes "CHR 0x0A \<notin> set buffer" and "\<forall>c \<in> set chunks. c \<noteq> []"
  shows "drain_stderr buffer chunks = (let (ls, rest) = split_lines [] (buffer @ concat chunks)
    in ls @ (if rest = [] then [] else [rest]))"
  using assms
proof (induction buffer chunks rule: drain_stderr.induct)
  case (1 buffer)
  then show ?case by (simp add: split_lines_clean)
next
  case (2 buffer chunk chunks)
  obtain ls rest where s: "split_lines [] (buffer @ chunk) = (ls, rest)" by fastforce
  have "CHR 0x0A \<notin> set rest" using split_lines_rest [of "[]" "buffer @ chunk"] s by simp
  then have "drain_stderr rest chunks = (let (ls, rest) = split_lines [] (rest @ concat chunks)
      in ls @ (if rest = [] then [] else [rest]))" using 2 s by simp
  moreover have "split_lines [] (rest @ concat chunks) = split_lines rest (concat chunks)"
    using \<open>CHR 0x0A \<notin> set rest\<close> by (simp add: split_lines_append split_lines_clean Let_def split: prod.splits)
  ultimately show ?case
    using 2 s split_lines_append [of "[]" "buffer @ chunk" "concat chunks"]
    by (auto simp: Let_def split: prod.splits)
qed

section \<open>Properties\<close>

text \<open>The request \<open>r\<close> has been given worker \<open>i\<close> in its generation \<open>gen\<close>.\<close>

definition holds :: "pool \<Rightarrow> nat \<Rightarrow> nat \<Rightarrow> nat \<Rightarrow> bool" where
  "holds p r i gen \<longleftrightarrow> (case sends p r of None \<Rightarrow> False
     | Some q \<Rightarrow> rq_phase q = Holding i gen \<or> rq_phase q = Woken (Some i) gen)"

lemma holds_slots: "holds p r i gen \<longleftrightarrow> slots {} p r = Some (i, gen)"
proof (cases "sends p r")
  case (Some q)
  then show ?thesis by (cases "rq_phase q" rule: slot_of.cases) (auto simp: holds_def slots_def)
qed (simp add: holds_def slots_def)

text \<open>A small pool for the examples: two stateless workers and one stateful.\<close>

definition sample_options :: pool_options where
  "sample_options = \<lparr>self_path = ''clice'', stateless_count = 2, stateful_count = 2, worker_memory_limit = 64,
     opt_log_dir = [], max_restarts = 3, min_stateless = 1, max_stateless = 2\<rparr>"

definition sample_start :: pool where
  "sample_start = the (start (\<lambda>_. True) 8 sample_options)"

definition sample_pool :: pool where
  "sample_pool = the (send_stateless 7 Low sample_start)"

definition sample_routed :: pool where
  "sample_routed = snd (send_stateful 5 sample_start)"

lemma sample_start_reachable: "pool_reachable sample_options sample_start"
proof -
  have "start (\<lambda>_. True) 8 sample_options \<noteq> None" by code_simp
  then show ?thesis unfolding sample_start_def
    by (intro reached_init) (auto simp: pool_started_def)
qed

lemma sample_pool_reachable: "pool_reachable sample_options sample_pool"
proof -
  have s: "sends sample_start 7 = None" "send_stateless 7 Low sample_start \<noteq> None" by code_simp+
  have "send_stateless 7 Low sample_start = Some sample_pool" using s(2) by (simp add: sample_pool_def)
  then show ?thesis by (rule reached_step [OF sample_start_reachable pool_step.send [OF s(1)]])
qed

lemma sample_routed_reachable: "pool_reachable sample_options sample_routed"
  unfolding sample_routed_def by (rule reached_step [OF sample_start_reachable pool_step.route])

text \<open>
  C24 (invariant): in every reachable state of the pool, whatever the order of requests, crashes,
  restarts, scaling and cancellations, the three counters kept beside the list of stateless workers
  are exact: live workers, busy workers and workers busy with low-priority work; a busy worker is
  alive.
\<close>

theorem pool_counters_exact:
  assumes "pool_reachable opts p"
  shows "alive_stateless_count p = length (filter w_alive (stateless_workers p))
    \<and> stateless_busy_count p = length (filter w_busy (stateless_workers p))
    \<and> low_busy_count p = length (filter w_low (stateless_workers p))
    \<and> (\<forall>w \<in> set (stateless_workers p). (w_busy w \<longrightarrow> w_alive w) \<and> (w_low w \<longrightarrow> w_busy w))"
  using fleet.reached_good [OF assms] by (auto simp: pool_good_def pool_inv_def counts_ok_def worker_ok_def)

theorem pool_counters_exact_witness:
  "pool_reachable sample_options sample_pool
    \<and> low_busy_count sample_pool = length (filter w_low (stateless_workers sample_pool))
    \<and> low_busy_count sample_pool = 1"
proof -
  have "low_busy_count sample_pool = 1" by code_simp
  then show ?thesis using sample_pool_reachable pool_counters_exact [OF sample_pool_reachable] by blast
qed

text \<open>
  C5 (safety): no slot is given twice and none leaks. In every reachable state a busy stateless
  worker is held, in its current generation, by exactly one request, and a request that holds the
  current generation of a live worker finds it marked busy. A request left over from before a crash
  has an older generation.
\<close>

theorem stateless_slot_exclusive:
  assumes "pool_reachable opts p"
  shows "(\<forall>i < length (stateless_workers p). w_busy (stateless_workers p ! i) \<longrightarrow>
        (\<exists>!r. holds p r i (restart_count (stateless_workers p ! i))))
    \<and> (\<forall>r i gen. holds p r i gen \<longrightarrow> i < length (stateless_workers p)
        \<and> gen \<le> restart_count (stateless_workers p ! i)
        \<and> (gen = restart_count (stateless_workers p ! i) \<and> w_alive (stateless_workers p ! i)
            \<longrightarrow> w_busy (stateless_workers p ! i)))"
proof -
  have h: "hold_ok (ws p) (slots {} p)"
    using fleet.reached_good [OF assms] by (simp add: pool_good_def pool_inv_def)
  have "\<exists>!r. holds p r i (restart_count (ws p ! i))" if "i < length (ws p)" "w_busy (ws p ! i)" for i
    unfolding holds_slots using hold_okD(5) [OF h that] hold_okD(4) [OF h] by blast
  then show ?thesis unfolding holds_slots using hold_okD(1,2,3) [OF h] by blast
qed

theorem stateless_slot_exclusive_witness:
  "pool_reachable sample_options sample_pool \<and> w_busy (stateless_workers sample_pool ! 0)
    \<and> (\<exists>!r. holds sample_pool r 0 (restart_count (stateless_workers sample_pool ! 0)))"
proof -
  have "w_busy (stateless_workers sample_pool ! 0)" "0 < length (stateless_workers sample_pool)" by code_simp+
  then show ?thesis using sample_pool_reachable stateless_slot_exclusive [OF sample_pool_reachable] by blast
qed



text \<open>Whether a worker is being retired is decided by the monitor alone.\<close>

lemma retiring_dispatch:
  "dispatch l rs n p = Some (rs', n', p') \<Longrightarrow> map w_retiring (ws p') = map w_retiring (ws p)"
proof (induction l rs n p rule: dispatch.induct)
  case (2 l r rs n p)
  have "map w_retiring (ws (occupy l i p)) = map w_retiring (ws p)" for i
    by (simp add: occupy_def map_worker_def map_update list_update_same_conv)
  then show ?case using 2 by (auto split: if_splits option.splits)
qed simp

lemma retiring_slot_exit:
  assumes "slot_exit i g p = Some p'"
  shows "map w_retiring (ws p') = map w_retiring (ws p)"
proof (cases "p' = p")
  case False
  let ?v = "vacate i (p\<lparr>slot_cancel_sources :=
      (if i < length (slot_cancel_sources p) then (slot_cancel_sources p)[i := None] else slot_cancel_sources p)\<rparr>)"
  have "try_dispatch_pending ?v = Some p'"
    using assms False by (auto simp: slot_exit_def release_stateless_slot_def split: if_splits)
  then obtain hs n1 p1 ls n2 p2 where d: "dispatch False (high_queue ?v)
      (usub (usub (alive_stateless_count ?v) (stateless_busy_count ?v)) (retiring_idle ?v)) ?v = Some (hs, n1, p1)"
    "dispatch True (low_queue p1) n1 (p1\<lparr>high_queue := hs\<rparr>) = Some (ls, n2, p2)" and p': "p' = p2\<lparr>low_queue := ls\<rparr>"
    unfolding try_dispatch_pending_def Let_def by (auto split: option.splits)
  have "map w_retiring (ws ?v) = map w_retiring (ws p)"
    by (simp add: vacate_def map_worker_def map_update list_update_same_conv)
  then show ?thesis using retiring_dispatch [OF d(1)] retiring_dispatch [OF d(2)] by (simp add: p')
qed simp

definition none_retiring :: "pool \<Rightarrow> bool" where
  "none_retiring p \<longleftrightarrow> (\<forall>w \<in> set (stateless_workers p). \<not> w_retiring w)"

lemma none_retiring_map: "none_retiring p \<longleftrightarrow> True \<notin> set (map w_retiring (ws p))"
  by (auto simp: none_retiring_def)

lemma acquire_defined:
  "counts_ok p \<Longrightarrow> none_retiring p \<or> rq_exclude q = None \<Longrightarrow> acquire_slot r q p \<noteq> None"
  by (rule acquire_slot_defined) (auto simp: none_retiring_def)

lemma next_attempt_defined:
  assumes "counts_ok p" "none_retiring p"
  shows "next_attempt r q p \<noteq> None"
  using assms acquire_defined [of "p\<lparr>sends := m\<rparr>" for m]
  by (auto simp: next_attempt_def Let_def counts_ok_def none_retiring_def)

lemma exit_attempt_defined:
  assumes good: "good_pool p" and r: "slots {} p r = Some (i, g)" and ret: "none_retiring p"
  shows "Option.bind (slot_exit i g p) (next_attempt r q) \<noteq> None"
proof -
  obtain p1 where p1: "slot_exit i g p = Some p1" "pool_inv {r} (high_queue p1) (low_queue p1) p1"
    using slot_exit_ok [OF good r, of p] by auto
  have "none_retiring p1" using retiring_slot_exit [OF p1(1)] ret by (simp add: none_retiring_map)
  then show ?thesis using next_attempt_defined pool_invD(1) [OF p1(2)] p1(1) by simp
qed

lemma answer_defined:
  assumes good: "good_pool p" and ret: "has_value \<or> none_retiring p"
  shows "answer_send r has_value p \<noteq> None"
proof (cases "\<exists>q i g. sends p r = Some q \<and> rq_phase q = Holding i g")
  case True
  then obtain q i g where q: "sends p r = Some q" "rq_phase q = Holding i g" by blast
  have s: "slots {} p r = Some (i, g)" using q by (simp add: slots_def)
  have "slot_exit i g (set_phase r ph p) \<noteq> None" for ph
    using slot_exit_ok [OF good s, of "set_phase r ph p"] by auto
  then show ?thesis
    using q ret exit_attempt_defined [OF good s] by (auto simp: answer_send_def)
qed (auto simp: answer_send_def split: option.splits phase.splits)

lemma resume_defined:
  assumes good: "good_pool p" and ret: "none_retiring p"
  shows "resume_send r p \<noteq> None"
proof (cases "\<exists>q i g. sends p r = Some q \<and> rq_phase q = Woken (Some i) g")
  case True
  then obtain q i g where q: "sends p r = Some q" "rq_phase q = Woken (Some i) g" by blast
  have s: "slots {} p r = Some (i, g)" using q by (simp add: slots_def)
  have "enter_slot r q i p \<noteq> None" if "restart_count (ws p ! i) = g"
    using exit_attempt_defined [OF good s ret, of q] that by (simp add: enter_slot_def)
  then show ?thesis using q acquire_defined [OF pool_invD(1) [OF good]] ret by (auto simp: resume_send_def)
qed (auto simp: resume_send_def split: option.splits phase.splits)

lemma send_defined: "counts_ok p \<Longrightarrow> send_stateless r prio p \<noteq> None"
  using acquire_defined [of "p\<lparr>sends := m\<rparr>" for m]
  by (auto simp: send_stateless_def Let_def counts_ok_def)

lemma cancel_defined:
  assumes good: "good_pool p"
  shows "cancel_send r p \<noteq> None"
proof (cases "\<exists>q i g. sends p r = Some q \<and> slot_of (rq_phase q) = Some (i, g)")
  case True
  then obtain q i g where q: "sends p r = Some q" "slot_of (rq_phase q) = Some (i, g)" by blast
  have s: "slots {} p r = Some (i, g)" using q by (simp add: slots_def)
  have "slot_exit i g (p\<lparr>sends := (sends p)(r := None)\<rparr>) \<noteq> None"
    using slot_exit_ok [OF good s, of "p\<lparr>sends := (sends p)(r := None)\<rparr>"] by auto
  then show ?thesis using q by (cases "rq_phase q" rule: slot_of.cases) (auto simp: cancel_send_def)
next
  case False
  show ?thesis
  proof (cases "sends p r")
    case (Some q)
    then have "slot_of (rq_phase q) = None" using False by (cases "slot_of (rq_phase q)") auto
    then show ?thesis using Some by (cases "rq_phase q" rule: slot_of.cases) (auto simp: cancel_send_def)
  qed (simp add: cancel_send_def)
qed

text \<open>
  The end of \<open>pick_idle_stateless\<close> that is marked unreachable is not reached. In every
  reachable state, sending, cancelling, the answer of a worker, its exit, its restart, the dispatch of
  queued requests and every tick of the memory monitor find an idle worker whenever the counters say
  that there is one. A retry (the resumption or failure of a request that avoids a worker) does so as
  long as no worker is being retired.
\<close>

theorem no_missing_idle_worker:
  assumes "pool_reachable opts p"
  shows "send_stateless r prio p \<noteq> None \<and> cancel_send r p \<noteq> None \<and> answer_send r True p \<noteq> None
    \<and> try_dispatch_pending p \<noteq> None \<and> memory_tick spawns m m' p \<noteq> None
    \<and> (i < length (stateless_workers p) \<and> w_alive (stateless_workers p ! i) \<longrightarrow>
        worker_exits spawns i False result ids p \<noteq> None)
    \<and> (none_retiring p \<longrightarrow> answer_send r False p \<noteq> None \<and> resume_send r p \<noteq> None)"
proof -
  have g: "pool_good p" "good_pool p" "counts_ok p"
    using fleet.reached_good [OF assms] by (simp_all add: pool_good_def pool_inv_def)
  have exit: "worker_exits spawns i False result ids p \<noteq> None"
    if "i < length (stateless_workers p) \<and> w_alive (stateless_workers p ! i)"
    using stateless_exit_ok [OF g(1), of i spawns result ids] that by auto
  have retry: "answer_send r False p \<noteq> None \<and> resume_send r p \<noteq> None" if "none_retiring p"
    using answer_defined [OF g(2), of False r] resume_defined [OF g(2) that] that by simp
  have "memory_tick spawns m m' p \<noteq> None" using memory_tick_ok [OF g(1), of spawns m m'] by auto
  moreover have "try_dispatch_pending p \<noteq> None" using try_dispatch_lim [OF g(1)] by auto
  ultimately show ?thesis
    using send_defined [OF g(3)] cancel_defined [OF g(2)] answer_defined [OF g(2), of True r] exit retry by blast
qed

theorem no_missing_idle_worker_witness:
  "pool_reachable sample_options sample_pool \<and> none_retiring sample_pool \<and> answer_send 7 False sample_pool \<noteq> None
    \<and> worker_exits (\<lambda>_. True) 0 False None [] sample_pool \<noteq> None"
proof -
  have "none_retiring sample_pool" "0 < length (stateless_workers sample_pool)" "w_alive (stateless_workers sample_pool ! 0)"
    by code_simp+
  then show ?thesis
    using sample_pool_reachable no_missing_idle_worker [OF sample_pool_reachable] by blast
qed

text \<open>The retry of a request whose worker crashed, was restarted and is now being retired.\<close>

definition low_memory :: memory_info where
  "low_memory = \<lparr>mem_total = 100, mem_constrained = 0, mem_available = 5\<rparr>"

definition sample_crashed :: pool where
  "sample_crashed = the (worker_exits (\<lambda>_. True) 0 False None []
     (the (send_stateless 2 High (the (send_stateless 1 High sample_start)))))"

definition sample_retiring :: pool where
  "sample_retiring = the (memory_tick (\<lambda>_. True) low_memory low_memory sample_crashed)"

lemma sample_retiring_reachable: "pool_reachable sample_options sample_retiring"
proof -
  let ?a = "the (send_stateless 1 High sample_start)"
  let ?b = "the (send_stateless 2 High ?a)"
  have n: "sends sample_start 1 = None" "sends ?a 2 = None" "0 < length (ws ?b)" "w_alive (ws ?b ! 0)" by code_simp+
  have d: "send_stateless 1 High sample_start \<noteq> None" "send_stateless 2 High ?a \<noteq> None"
    "worker_exits (\<lambda>_. True) 0 False None [] ?b \<noteq> None"
    "memory_tick (\<lambda>_. True) low_memory low_memory sample_crashed \<noteq> None" by code_simp+
  have a: "pool_reachable sample_options ?a"
    by (rule fleet.reached_the [OF sample_start_reachable d(1)]) (rule pool_step.send [OF n(1)])
  have b: "pool_reachable sample_options ?b"
    by (rule fleet.reached_the [OF a d(2)]) (rule pool_step.send [OF n(2)])
  have c: "pool_reachable sample_options sample_crashed"
    unfolding sample_crashed_def by (rule fleet.reached_the [OF b d(3)]) (rule pool_step.stateless_exit [OF n(3,4)])
  show ?thesis
    unfolding sample_retiring_def by (rule fleet.reached_the [OF c d(4)]) (rule pool_step.tick)
qed

lemma usub_under: "usub (usub 1 1) 1 = 2 ^ 64 - 1"
  by (simp add: usub_def)

text \<open>
  C40 (error): the condition on retiring workers in C27 is needed. There is a reachable state in which
  the retry after a failed request takes the unreachable end: with two workers, the worker of the
  request has crashed, was restarted and is being retired while it is idle, and the other is busy. The
  excluded worker is subtracted from the idle count twice, once as excluded and once as retiring, and
  the \<open>size_t\<close> count wraps around.
\<close>

theorem excluded_retiring_worker_underflow:
  "\<exists>opts p r i. pool_reachable opts p \<and> alive_stateless_count p = 2 \<and> stateless_busy_count p = 1
     \<and> retiring_idle p = 1 \<and> idle_for (Some i) p = 2 ^ 64 - 1 \<and> answer_send r False p = None"
proof -
  let ?p = sample_retiring
  let ?q = "\<lparr>rq_priority = High, rq_attempt = 0, rq_exclude = None, rq_phase = Holding 0 0\<rparr>"
  have f: "alive_stateless_count ?p = 2" "stateless_busy_count ?p = 1" "retiring_idle ?p = 1"
    "0 < length (ws ?p)" "is_idle (ws ?p ! 0)" "restart_count (ws ?p ! 0) = 1"
    "pick_idle_stateless ?p = None" "sends ?p 1 = Some ?q" by code_simp+
  have idle: "idle_for (Some 0) (?p\<lparr>sends := m\<rparr>) = 2 ^ 64 - 1" for m
    using f(1-5) usub_under by (simp add: idle_for_def retiring_idle_def Let_def)
  have "slot_exit 0 0 ?p = Some ?p" using f(6) by (simp add: slot_exit_def)
  then have "answer_send 1 False ?p = None"
    using f(1,7,8) idle
    by (simp add: answer_send_def next_attempt_def acquire_slot_def can_proceed_def pick_idle_stateless_def Let_def)
  then show ?thesis
    using sample_retiring_reachable f(1-3) idle [of "sends ?p"] by (intro exI conjI) auto
qed

text \<open>
  Serving the queues. From every reachable state, \<open>try_dispatch_pending\<close> serves each
  queue from its front and stops only for a reason: a high-priority request is left only when no live
  worker is idle, apart from those being retired, and a low-priority one only then or when the limit
  on low-priority work is used up.
\<close>

theorem dispatch_serves_queues:
  assumes "pool_reachable opts p" and "try_dispatch_pending p = Some p'"
  shows "(high_queue p' \<noteq> [] \<longrightarrow> (\<forall>w \<in> set (stateless_workers p'). w_alive w \<longrightarrow> w_busy w \<or> w_retiring w))
    \<and> (low_queue p' \<noteq> [] \<longrightarrow> (\<forall>w \<in> set (stateless_workers p'). w_alive w \<longrightarrow> w_busy w \<or> w_retiring w)
        \<or> low_limit p' \<le> low_busy_count p')
    \<and> (\<exists>k. high_queue p' = drop k (high_queue p)) \<and> (\<exists>k. low_queue p' = drop k (low_queue p))"
proof -
  have good: "good_pool p" using fleet.reached_good [OF assms(1)] by (simp add: pool_good_def)
  have none: "\<forall>w \<in> set (ws p'). w_alive w \<longrightarrow> w_busy w \<or> w_retiring w" if "count free (ws p') = 0"
    using that by (auto simp: filter_empty_conv is_idle_def)
  show ?thesis using try_dispatch_serves [OF good assms(2)] none by blast
qed

text \<open>A second low-priority request waits: the limit is one.\<close>

definition sample_waiting :: pool where
  "sample_waiting = the (send_stateless 8 Low sample_pool)"

theorem dispatch_serves_queues_witness:
  "low_queue (the (try_dispatch_pending sample_waiting)) = [8]
    \<and> ((\<forall>w \<in> set (stateless_workers (the (try_dispatch_pending sample_waiting))). w_alive w \<longrightarrow> w_busy w \<or> w_retiring w)
      \<or> low_limit (the (try_dispatch_pending sample_waiting)) \<le> low_busy_count (the (try_dispatch_pending sample_waiting)))"
proof -
  have n: "sends sample_pool 8 = None" "send_stateless 8 Low sample_pool \<noteq> None" by code_simp+
  have r: "pool_reachable sample_options sample_waiting"
    unfolding sample_waiting_def
    by (rule fleet.reached_the [OF sample_pool_reachable n(2)]) (rule pool_step.send [OF n(1)])
  have q: "low_queue (the (try_dispatch_pending sample_waiting)) = [8]" "try_dispatch_pending sample_waiting \<noteq> None"
    by code_simp+
  then have t: "try_dispatch_pending sample_waiting = Some (the (try_dispatch_pending sample_waiting))" by simp
  show ?thesis using q(1) dispatch_serves_queues [OF r t] by simp
qed

text \<open>
  C26 (type): the routing tables stay well formed. In every reachable state each routed document
  belongs to an existing stateful worker, the load recorded for a worker is the number of documents
  routed to it, and the list by recency and its index hold exactly the routed documents, each once.
\<close>

theorem routing_well_formed:
  assumes "pool_reachable opts p"
  shows "(\<forall>path i. owner p path = Some i \<longrightarrow> i < length (stateful_workers p))
    \<and> (\<forall>i < length (stateful_workers p). owned_documents (stateful_workers p ! i) = card {path. owner p path = Some i})
    \<and> distinct (owner_lru p) \<and> set (owner_lru p) = dom (owner p) \<and> owner_lru_index p = dom (owner p)"
  using fleet.reached_good [OF assms] by (simp add: routing_ok_def)

theorem routing_well_formed_witness:
  "pool_reachable sample_options sample_routed \<and> owner sample_routed 5 = Some 0
    \<and> owned_documents (stateful_workers sample_routed ! 0) = card {path. owner sample_routed path = Some 0}"
proof -
  have "owner sample_routed 5 = Some 0" "0 < length (stateful_workers sample_routed)" by code_simp+
  then show ?thesis using sample_routed_reachable routing_well_formed [OF sample_routed_reachable] by blast
qed

text \<open>
  Routing of documents. A document that is new goes to an existing worker; if any
  worker is alive the chosen one is alive and no live worker has fewer documents; from then on the
  document stays with it, whatever other documents are routed or forgotten.
\<close>

theorem assign_least_loaded_and_sticky:
  assumes "stateful_workers p \<noteq> []" and "owner p path = None" and "assign_worker path p = (i, p')"
  shows "i < length (stateful_workers p)
    \<and> (\<forall>j < length (stateful_workers p). w_alive (stateful_workers p ! j) \<longrightarrow>
        w_alive (stateful_workers p ! i) \<and> owned_documents (stateful_workers p ! i) \<le> owned_documents (stateful_workers p ! j))
    \<and> (\<forall>path'. path' \<noteq> path \<longrightarrow> fst (assign_worker path (snd (assign_worker path' p'))) = i
        \<and> fst (assign_worker path (remove_owner path' p')) = i)"
proof -
  have i: "i = pick_least_loaded p" and o: "owner p' path = Some i"
    using assms(2,3) by (auto simp: assign_worker_def Let_def)
  have 1: "i < length (stateful_workers p)" unfolding i by (rule pick_least_loaded_in [OF assms(1)])
  have 2: "w_alive (sws p ! i) \<and> owned_documents (sws p ! i) \<le> owned_documents (sws p ! j)"
    if "j < length (sws p)" "w_alive (sws p ! j)" for j
    unfolding i pick_least_loaded_def
    by (rule least_loaded_least) (use that in \<open>auto simp: Suc_le_eq\<close>)
  have 3: "fst (assign_worker path (snd (assign_worker path' p'))) = i" if "path' \<noteq> path" for path'
  proof -
    have "owner (snd (assign_worker path' p')) path = Some i"
      using o that by (simp add: assign_worker_def touch_lru_def Let_def split: option.splits)
    then show ?thesis by (simp add: assign_worker_def)
  qed
  have 4: "fst (assign_worker path (remove_owner path' p')) = i" if "path' \<noteq> path" for path'
  proof -
    have "owner (remove_owner path' p') path = Some i" using o that by (simp add: owner_remove)
    then show ?thesis by (simp add: assign_worker_def)
  qed
  show ?thesis using 1 2 3 4 by blast
qed

theorem assign_least_loaded_and_sticky_witness:
  "w_alive (stateful_workers sample_routed ! fst (assign_worker 9 sample_routed))
    \<and> owned_documents (stateful_workers sample_routed ! fst (assign_worker 9 sample_routed))
      \<le> owned_documents (stateful_workers sample_routed ! 0) \<and> owned_documents (stateful_workers sample_routed ! 0) = 1"
proof -
  have s: "stateful_workers sample_routed \<noteq> []" "owner sample_routed 9 = None" "0 < length (stateful_workers sample_routed)"
    "w_alive (stateful_workers sample_routed ! 0)" "owned_documents (stateful_workers sample_routed ! 0) = 1" by code_simp+
  have "assign_worker 9 sample_routed = (fst (assign_worker 9 sample_routed), snd (assign_worker 9 sample_routed))" by simp
  from assign_least_loaded_and_sticky [OF s(1,2) this] show ?thesis using s(3-5) by blast
qed

fun lines_of :: "string \<Rightarrow> string \<Rightarrow> string list" where
  "lines_of cur [] = (if cur = [] then [] else [cur])"
| "lines_of cur (c # cs) =
     (if c = CHR 0x0A then (if cur = [] then [] else [cur]) @ lines_of [] cs else lines_of (cur @ [c]) cs)"

lemma lines_split: "lines_of cur xs = (let (ls, rest) = split_lines cur xs in ls @ (if rest = [] then [] else [rest]))"
  by (induction cur xs rule: lines_of.induct) (auto simp: Let_def split: prod.splits)

text \<open>
  What \<open>drain_stderr\<close> logs does not depend on how the output of a worker is cut into
  reads. It is the sequence of non-empty lines of the whole output, with a last line that was not ended.
\<close>

theorem drain_stderr_chunking:
  assumes "\<forall>chunk \<in> set chunks. chunk \<noteq> []"
  shows "drain_stderr [] chunks = lines_of [] (concat chunks)"
  using drain_lines [of "[]" chunks] assms by (simp add: lines_split)

theorem drain_stderr_chunking_witness:
  "drain_stderr [] [''ab'', ''c'' @ [CHR 0x0A, CHR 0x0A], ''d''] = lines_of [] (concat [''ab'', ''c'' @ [CHR 0x0A, CHR 0x0A], ''d''])
    \<and> drain_stderr [] [''ab'', ''c'' @ [CHR 0x0A, CHR 0x0A], ''d''] = [''abc'', ''d'']"
proof -
  have "drain_stderr [] [''ab'', ''c'' @ [CHR 0x0A, CHR 0x0A], ''d''] = [''abc'', ''d'']" by code_simp
  then show ?thesis using drain_stderr_chunking [of "[''ab'', ''c'' @ [CHR 0x0A, CHR 0x0A], ''d'']"] by simp
qed

end
