(* ===== verification/Tu_Index.thy ===== *)
theory Tu_Index
  imports Clice_Prelude "HOL-Library.AList" "HOL-Library.Product_Lexorder"
begin

text \<open>
  \<open>src/src/index/tu_index.{h,cpp}\<close> and \<open>src/src/semantic/relation_kind.h\<close>: the index of one
  translation unit. A hash map is an association list; its order stands for the iteration order,
  which the hash table leaves open, and no statement depends on it. A bitmap is a set of ids. The
  flat-buffer library and the bitmap codec are outside the repository: \<open>serialize\<close> gives the table
  that is handed to the builder, \<open>from\<close> reads such a table. SHA-256 is a parameter. The builder that
  walks the syntax tree is not modelled, its final sorting and deduplication is.
\<close>

unbundle bit_operations_syntax

section \<open>Ranges, relations and occurrences\<close>

record source_range =
  r_begin :: u32
  r_end :: u32

definition contains :: "source_range \<Rightarrow> u32 \<Rightarrow> bool" where
  "contains r offset \<longleftrightarrow> r_begin r \<le> offset \<and> offset \<le> r_end r"

datatype relation_kind =
  Invalid | Declaration | Definition | Reference | WeakReference | Read | Write | Interface
| Implementation | TypeDefinition | Base | Derived | Constructor | Destructor | Caller | Callee

fun kind_value :: "relation_kind \<Rightarrow> u32" where
  "kind_value Invalid = 0"
| "kind_value Declaration = 1"
| "kind_value Definition = 2"
| "kind_value Reference = 3"
| "kind_value WeakReference = 4"
| "kind_value Read = 5"
| "kind_value Write = 6"
| "kind_value Interface = 7"
| "kind_value Implementation = 8"
| "kind_value TypeDefinition = 9"
| "kind_value Base = 10"
| "kind_value Derived = 11"
| "kind_value Constructor = 12"
| "kind_value Destructor = 13"
| "kind_value Caller = 14"
| "kind_value Callee = 15"

definition is_one_of :: "relation_kind list \<Rightarrow> relation_kind \<Rightarrow> bool" where
  "is_one_of kinds k \<longleftrightarrow> list_ex (\<lambda>x. k = x) kinds"

definition isDeclOrDef :: "relation_kind \<Rightarrow> bool" where
  "isDeclOrDef = is_one_of [Declaration, Definition]"

definition isReference :: "relation_kind \<Rightarrow> bool" where
  "isReference = is_one_of [Reference, WeakReference]"

definition isBetweenSymbol :: "relation_kind \<Rightarrow> bool" where
  "isBetweenSymbol = is_one_of [Interface, Implementation, TypeDefinition, Base, Derived, Constructor, Destructor]"

definition isCall :: "relation_kind \<Rightarrow> bool" where
  "isCall = is_one_of [Caller, Callee]"

text \<open>\<open>operator&\<close> compares the values, as \<open>operator==\<close> does.\<close>

definition kind_and :: "relation_kind \<Rightarrow> relation_kind \<Rightarrow> bool" where
  "kind_and a b \<longleftrightarrow> kind_value a = kind_value b"

text \<open>The padding of \<open>Relation\<close> is zero and takes no part in equality; it appears in the hashed bytes.\<close>

record relation =
  rel_kind :: relation_kind
  rel_range :: source_range
  rel_target :: u64

text \<open>\<open>std::bit_cast\<close> between a range and a symbol hash, on a little-endian machine.\<close>

definition set_definition_range :: "source_range \<Rightarrow> relation \<Rightarrow> relation" where
  "set_definition_range r rel =
     rel\<lparr>rel_target := ucast (r_begin r) OR push_bit 32 (ucast (r_end r))\<rparr>"

definition definition_range :: "relation \<Rightarrow> source_range" where
  "definition_range rel = \<lparr>r_begin = ucast (rel_target rel), r_end = ucast (drop_bit 32 (rel_target rel))\<rparr>"

record occurrence =
  occ_range :: source_range
  occ_target :: u64

definition occ_key :: "occurrence \<Rightarrow> u32 \<times> u32 \<times> u64" where
  "occ_key x = (r_begin (occ_range x), r_end (occ_range x), occ_target x)"

definition rel_key :: "relation \<Rightarrow> u32 \<times> u32 \<times> u32 \<times> u64" where
  "rel_key x = (kind_value (rel_kind x), r_begin (rel_range x), r_end (rel_range x), rel_target x)"

text \<open>The kinds of \<open>src/src/semantic/symbol_kind.h\<close>, in the order of their values.\<close>

datatype symbol_kind =
  KComment | KNumber | KCharacter | KString | KKeyword | KDirective | KHeader | KModule | KMacro
| KMacroParameter | KNamespace | KClass | KStruct | KUnion | KEnum | KType | KField | KEnumMember
| KFunction | KMethod | KVariable | KParameter | KLabel | KConcept | KAttribute | KOperator | KParen
| KBracket | KBrace | KAngle | KConflict | KInvalid

datatype symbol_scope = External | TULocal | FileLocal

record symbol =
  sym_name :: string
  sym_kind :: symbol_kind
  sym_scope :: symbol_scope
  sym_files :: "u32 set"

type_synonym symbol_table = "(u64 \<times> symbol) list"

section \<open>The index of a file\<close>

record file_index =
  fi_relations :: "(u64 \<times> relation list) list"
  fi_occurrences :: "occurrence list"

text \<open>\<open>std::ranges::sort\<close> by the key, then \<open>std::ranges::unique\<close>: the key determines the element.\<close>

definition sort_unique :: "('a \<Rightarrow> 'k::linorder) \<Rightarrow> 'a list \<Rightarrow> 'a list" where
  "sort_unique key xs = remdups_adj (sort_key key xs)"

definition finish_file_index :: "file_index \<Rightarrow> file_index" where
  "finish_file_index fi =
     fi\<lparr>fi_relations := map (map_prod id (sort_unique rel_key)) (fi_relations fi),
        fi_occurrences := sort_unique occ_key (fi_occurrences fi)\<rparr>"

text \<open>\<open>std::ranges::lower_bound\<close>: the bisection. It is the partition point when the list is partitioned.\<close>

function lower_bound_loop :: "('a \<Rightarrow> bool) \<Rightarrow> 'a list \<Rightarrow> nat \<Rightarrow> nat \<Rightarrow> nat" where
  "lower_bound_loop left xs first len =
     (if len = 0 then first
      else
        let half = len div 2; mid = first + half in
        if left (xs ! mid) then lower_bound_loop left xs (mid + 1) (len - half - 1)
        else lower_bound_loop left xs first half)"
  by pat_completeness auto
termination
  by (relation "measure (\<lambda>(_, _, _, len). len)") (auto simp: Let_def)

declare lower_bound_loop.simps [simp del]

definition lower_bound :: "('a \<Rightarrow> bool) \<Rightarrow> 'a list \<Rightarrow> nat" where
  "lower_bound left xs = lower_bound_loop left xs 0 (length xs)"

text \<open>The occurrences a callback is called with, from the first candidate on, while it returns true.\<close>

fun visit_while :: "('a \<Rightarrow> bool) \<Rightarrow> ('a \<Rightarrow> bool) \<Rightarrow> ('a \<Rightarrow> bool) \<Rightarrow> 'a list \<Rightarrow> 'a list" where
  "visit_while inside skip callback [] = []"
| "visit_while inside skip callback (x # xs) =
     (if \<not> inside x then []
      else if skip x then visit_while inside skip callback xs
      else x # (if callback x then visit_while inside skip callback xs else []))"

definition lookup_occurrence :: "(occurrence \<Rightarrow> bool) \<Rightarrow> u32 \<Rightarrow> (occurrence \<Rightarrow> bool) \<Rightarrow> occurrence list \<Rightarrow> occurrence list" where
  "lookup_occurrence skip offset callback os =
     visit_while (\<lambda>x. contains (occ_range x) offset) skip callback
       (drop (lower_bound (\<lambda>x. r_end (occ_range x) < offset) os) os)"

fun visit_matching :: "('a \<Rightarrow> bool) \<Rightarrow> ('a \<Rightarrow> bool) \<Rightarrow> 'a list \<Rightarrow> 'a list" where
  "visit_matching match callback [] = []"
| "visit_matching match callback (x # xs) =
     (if match x then x # (if callback x then visit_matching match callback xs else [])
      else visit_matching match callback xs)"

definition file_lookup :: "u32 \<Rightarrow> (occurrence \<Rightarrow> bool) \<Rightarrow> file_index \<Rightarrow> occurrence list" where
  "file_lookup offset callback fi = lookup_occurrence (\<lambda>_. False) offset callback (fi_occurrences fi)"

definition file_lookup_relations :: "u64 \<Rightarrow> relation_kind \<Rightarrow> (relation \<Rightarrow> bool) \<Rightarrow> file_index \<Rightarrow> relation list" where
  "file_lookup_relations symb kind callback fi =
     (case map_of (fi_relations fi) symb of
        None \<Rightarrow> []
      | Some rs \<Rightarrow> visit_matching (\<lambda>r. kind_and (rel_kind r) kind) callback rs)"

section \<open>The hash of a file index\<close>

definition bytes32 :: "u32 \<Rightarrow> u8 list" where
  "bytes32 x = map (\<lambda>i. ucast (drop_bit (8 * i) x)) [0..<4]"

definition bytes64 :: "u64 \<Rightarrow> u8 list" where
  "bytes64 x = map (\<lambda>i. ucast (drop_bit (8 * i) x)) [0..<8]"

definition range_bytes :: "source_range \<Rightarrow> u8 list" where
  "range_bytes r = bytes32 (r_begin r) @ bytes32 (r_end r)"

definition occurrence_bytes :: "occurrence \<Rightarrow> u8 list" where
  "occurrence_bytes x = range_bytes (occ_range x) @ bytes64 (occ_target x)"

definition relation_bytes :: "relation \<Rightarrow> u8 list" where
  "relation_bytes x = bytes32 (kind_value (rel_kind x)) @ bytes32 0 @ range_bytes (rel_range x) @ bytes64 (rel_target x)"

text \<open>Everything that is fed to the hasher, one update after the other.\<close>

definition hash_input :: "file_index \<Rightarrow> u8 list" where
  "hash_input fi =
     concat (map occurrence_bytes (fi_occurrences fi))
     @ concat (map (\<lambda>(symb, rs). bytes64 symb @ concat (map relation_bytes rs)) (fi_relations fi))"

definition file_hash :: "(u8 list \<Rightarrow> u8 list) \<Rightarrow> file_index \<Rightarrow> u8 list" where
  "file_hash sha256 fi = sha256 (hash_input fi)"

section \<open>The index of a translation unit\<close>

record include_location =
  il_path :: u32
  il_line :: u32
  il_include :: u32

text \<open>
  \<open>file_indices\<close> is keyed by an opaque file id \<open>'f\<close> of the compiler; \<open>file_table\<close> gives the include
  location that introduced it, all ones for the main file.
\<close>

record 'f include_graph =
  ig_paths :: "string list"
  ig_locations :: "include_location list"
  ig_file_table :: "('f \<times> u32) list"

definition none_id :: u32 where
  "none_id = -1"

text \<open>\<open>None\<close> is the failed assertion or the access outside the vector.\<close>

definition include_location_id :: "'f include_graph \<Rightarrow> 'f \<Rightarrow> u32 option" where
  "include_location_id g fid = map_of (ig_file_table g) fid"

definition graph_path_id :: "'f include_graph \<Rightarrow> 'f \<Rightarrow> u32 option" where
  "graph_path_id g fid =
     (case include_location_id g fid of
        None \<Rightarrow> None
      | Some inc \<Rightarrow>
          if inc \<noteq> none_id then
            (if unat inc < length (ig_locations g) then Some (il_path (ig_locations g ! unat inc)) else None)
          else Some (of_nat (length (ig_paths g)) - 1))"

record 'f tu_index =
  tu_built_at :: u64
  tu_graph :: "'f include_graph"
  tu_symbols :: symbol_table
  tu_files :: "('f \<times> file_index) list"
  tu_path_files :: "(u32 \<times> file_index) list"
  tu_main :: file_index

text \<open>The table of the flat buffer.\<close>

record flat_tu =
  ft_built_at :: u64
  ft_paths :: "string list"
  ft_locations :: "include_location list"
  ft_symbols :: symbol_table
  ft_files :: "(u32 \<times> file_index) list"
  ft_main :: "u32 \<times> file_index"

definition tu_serialize :: "'f tu_index \<Rightarrow> flat_tu option" where
  "tu_serialize tu =
     (let g = tu_graph tu;
          ids = map (\<lambda>(fid, fi). graph_path_id g fid) (tu_files tu) in
      if None \<in> set ids then None
      else Some \<lparr>ft_built_at = tu_built_at tu, ft_paths = ig_paths g, ft_locations = ig_locations g,
                 ft_symbols = tu_symbols tu,
                 ft_files = zip (map the ids) (map snd (tu_files tu)),
                 ft_main = (of_nat (length (ig_paths g)) - 1, tu_main tu)\<rparr>)"

text \<open>Assignment through \<open>operator[]\<close>: the last entry of a key wins.\<close>

definition put_all :: "('k \<times> 'v) list \<Rightarrow> ('k \<times> 'v) list" where
  "put_all es = fold (\<lambda>(k, v). AList.update k v) es []"

text \<open>\<open>read_bitmap\<close> and the casts only copy; \<open>try_emplace\<close> keeps the first entry of a key.\<close>

definition emplace_into :: "('k \<times> 'v) list \<Rightarrow> ('k \<times> 'v) list \<Rightarrow> ('k \<times> 'v) list" where
  "emplace_into es m0 = fold (\<lambda>(k, v) m. case map_of m k of None \<Rightarrow> m @ [(k, v)] | Some _ \<Rightarrow> m) es m0"

text \<open>
  Reading a file entry: \<open>relations\<close> of the same symbol are appended to one vector, so a key that
  occurs once is read as it was written.
\<close>

definition read_relations :: "(u64 \<times> relation list) list \<Rightarrow> (u64 \<times> relation list) list" where
  "read_relations es =
     fold (\<lambda>(symb, rs) m. AList.update symb ((case map_of m symb of None \<Rightarrow> [] | Some old \<Rightarrow> old) @ rs) m) es []"

definition read_file_index :: "file_index \<Rightarrow> file_index" where
  "read_file_index fi = \<lparr>fi_relations = read_relations (fi_relations fi), fi_occurrences = fi_occurrences fi\<rparr>"

definition tu_from :: "flat_tu \<Rightarrow> 'f tu_index" where
  "tu_from ft =
     \<lparr>tu_built_at = ft_built_at ft,
      tu_graph = \<lparr>ig_paths = ft_paths ft, ig_locations = ft_locations ft, ig_file_table = []\<rparr>,
      tu_symbols = put_all (ft_symbols ft), tu_files = [],
      tu_path_files = put_all (map (map_prod id read_file_index) (ft_files ft)),
      tu_main = read_file_index (snd (ft_main ft))\<rparr>"

section \<open>Tables with distinct keys\<close>

lemma emplace_into_distinct:
  "distinct (map fst (m @ es)) \<Longrightarrow> emplace_into es m = m @ es"
  unfolding emplace_into_def
proof (induction es arbitrary: m)
  case (Cons e es)
  have "map_of m (fst e) = None" using Cons.prems by (auto simp: map_of_eq_None_iff)
  then show ?case using Cons.IH [of "m @ [e]"] Cons.prems by (cases e) auto
qed simp

lemma update_new: "k \<notin> fst ` set m \<Longrightarrow> AList.update k v m = m @ [(k, v)]"
  by (induction m) auto

lemma put_all_fold_distinct:
  "distinct (map fst (m @ es)) \<Longrightarrow> fold (\<lambda>(k, v). AList.update k v) es m = m @ es"
proof (induction es arbitrary: m)
  case (Cons e es)
  have "AList.update (fst e) (snd e) m = m @ [e]" using Cons.prems by (subst update_new) auto
  then show ?case using Cons.IH [of "m @ [e]"] Cons.prems by (cases e) auto
qed simp

lemma put_all_distinct: "distinct (map fst es) \<Longrightarrow> put_all es = es"
  using put_all_fold_distinct [of "[]" es] by (simp add: put_all_def)

end
