(* ===== verification/Merged_Index.thy ===== *)
theory Merged_Index
  imports Tu_Index
begin

text \<open>
  \<open>src/src/index/merged_index.{h,cpp}\<close>: the index of one file, merged over all the contexts it is
  seen in. Indices with the same hash share a canonical id; every occurrence and every relation has
  the set of canonical ids it comes from, every canonical id a count of the contexts that use it.
  Ids are natural numbers (\<open>uint32_t\<close> in the code, one per distinct index of the file); the
  decrement of a count is written out at its width. A loaded index keeps the flat buffer until it is
  modified. The hash of a file index, the line starts of a text (\<open>kota::ipc::lsp\<close>) and the
  modification times of the files are arguments.
\<close>

section \<open>Data\<close>

record include_context =
  ic_include :: u32
  ic_canonical :: nat

record header_context =
  hc_version :: u32
  hc_includes :: "include_context list"

record compilation_context =
  cc_version :: u32
  cc_canonical :: nat
  cc_build_at :: u64
  cc_locations :: "include_location list"

record impl =
  im_content :: string
  im_line_starts :: "u32 list"
  header_contexts :: "(u32 \<times> header_context) list"
  compilation_contexts :: "(u32 \<times> compilation_context) list"
  canonical_cache :: "(u8 list \<times> nat) list"
  max_canonical_id :: nat
  canonical_ref_counts :: "nat list"
  im_removed :: "nat set"
  im_occurrences :: "(occurrence \<times> nat set) list"
  im_relations :: "(u64 \<times> (relation \<times> nat set) list) list"
  im_symbols :: symbol_table
  occurrences_cache :: "occurrence list"

definition empty_impl :: impl where
  "empty_impl = \<lparr>im_content = [], im_line_starts = [], header_contexts = [], compilation_contexts = [],
     canonical_cache = [], max_canonical_id = 0, canonical_ref_counts = [], im_removed = {},
     im_occurrences = [], im_relations = [], im_symbols = [], occurrences_cache = []\<rparr>"

text \<open>The table of the flat buffer; the entries of occurrences and relations are sorted.\<close>

record flat_index =
  fl_max :: nat
  fl_cache :: "(u8 list \<times> nat) list"
  fl_headers :: "(u32 \<times> header_context) list"
  fl_compilations :: "(u32 \<times> compilation_context) list"
  fl_occurrences :: "(occurrence \<times> nat set) list"
  fl_relations :: "(u64 \<times> (relation \<times> nat set) list) list"
  fl_removed :: "nat set"
  fl_content :: string
  fl_line_starts :: "u32 list"
  fl_symbols :: symbol_table

record merged_index =
  mi_buffer :: "flat_index option"
  mi_impl :: "impl option"

section \<open>Merging\<close>

text \<open>\<open>map[key].add(id)\<close>\<close>

definition add_id :: "nat \<Rightarrow> 'k \<Rightarrow> ('k \<times> nat set) list \<Rightarrow> ('k \<times> nat set) list" where
  "add_id c k m = AList.update k (insert c (case map_of m k of None \<Rightarrow> {} | Some s \<Rightarrow> s)) m"

definition add_relations :: "nat \<Rightarrow> u64 \<times> relation list \<Rightarrow> (u64 \<times> (relation \<times> nat set) list) list
    \<Rightarrow> (u64 \<times> (relation \<times> nat set) list) list" where
  "add_relations c e m =
     (case e of (symb, rs) \<Rightarrow>
        AList.update symb (fold (add_id c) rs (case map_of m symb of None \<Rightarrow> [] | Some t \<Rightarrow> t)) m)"

definition impl_merge :: "u8 list \<Rightarrow> file_index \<Rightarrow> (nat \<Rightarrow> impl \<Rightarrow> impl) \<Rightarrow> impl \<Rightarrow> impl" where
  "impl_merge hash fi add_context im =
     (case map_of (canonical_cache im) hash of
        Some c \<Rightarrow>
          let im1 = add_context c im in
          im1\<lparr>canonical_ref_counts := (canonical_ref_counts im1)[c := canonical_ref_counts im1 ! c + 1],
              im_removed := im_removed im1 - {c}\<rparr>
      | None \<Rightarrow>
          let c = max_canonical_id im;
              im1 = add_context c (im\<lparr>canonical_cache := canonical_cache im @ [(hash, c)]\<rparr>)
          in im1\<lparr>im_occurrences := fold (add_id c) (fi_occurrences fi) (im_occurrences im1),
                 im_relations := fold (add_relations c) (fi_relations fi) (im_relations im1),
                 canonical_ref_counts := canonical_ref_counts im1 @ [1],
                 max_canonical_id := max_canonical_id im1 + 1\<rparr>)"

definition count_ref :: "nat \<Rightarrow> nat list \<Rightarrow> nat list" where
  "count_ref c counts = counts[c := counts ! c + 1]"

definition load_relations :: "(u64 \<times> (relation \<times> nat set) list) list \<Rightarrow> (u64 \<times> (relation \<times> nat set) list) list" where
  "load_relations es =
     fold (\<lambda>(symb, rs) m. AList.update symb (emplace_into rs (case map_of m symb of None \<Rightarrow> [] | Some t \<Rightarrow> t)) m) es []"

definition load_flat :: "(string \<Rightarrow> u32 list) \<Rightarrow> flat_index \<Rightarrow> impl" where
  "load_flat build_line_starts fl =
     (let header_refs = concat (map (\<lambda>(_, h). map ic_canonical (hc_includes h)) (fl_headers fl));
          compilation_refs = map (\<lambda>(_, c). cc_canonical c) (fl_compilations fl)
      in \<lparr>im_content = fl_content fl,
          im_line_starts = (if fl_line_starts fl \<noteq> [] then fl_line_starts fl
            else if fl_content fl \<noteq> [] then build_line_starts (fl_content fl) else []),
          header_contexts = emplace_into (fl_headers fl) [],
          compilation_contexts = emplace_into (fl_compilations fl) [],
          canonical_cache = emplace_into (fl_cache fl) [],
          max_canonical_id = fl_max fl,
          canonical_ref_counts = fold count_ref (header_refs @ compilation_refs) (replicate (fl_max fl) 0),
          im_removed = fl_removed fl,
          im_occurrences = emplace_into (fl_occurrences fl) [],
          im_relations = load_relations (fl_relations fl),
          im_symbols = put_all (fl_symbols fl),
          occurrences_cache = []\<rparr>)"

definition load_in_memory :: "(string \<Rightarrow> u32 list) \<Rightarrow> merged_index \<Rightarrow> merged_index" where
  "load_in_memory build_line_starts mi =
     (case mi_impl mi of
        Some _ \<Rightarrow> mi
      | None \<Rightarrow>
          case mi_buffer mi of
            None \<Rightarrow> mi\<lparr>mi_impl := Some empty_impl\<rparr>
          | Some fl \<Rightarrow> \<lparr>mi_buffer = None, mi_impl = Some (load_flat build_line_starts fl)\<rparr>)"

text \<open>\<open>None\<close> is a file that could not be read.\<close>

definition load_file :: "flat_index option \<Rightarrow> merged_index" where
  "load_file file = \<lparr>mi_buffer = file, mi_impl = None\<rparr>"

section \<open>Serialisation\<close>

definition flatten :: "impl \<Rightarrow> flat_index" where
  "flatten im =
     \<lparr>fl_max = max_canonical_id im, fl_cache = canonical_cache im, fl_headers = header_contexts im,
      fl_compilations = compilation_contexts im,
      fl_occurrences = sort_key (occ_key \<circ> fst) (im_occurrences im),
      fl_relations = sort_key fst (im_relations im), fl_removed = im_removed im,
      fl_content = im_content im, fl_line_starts = im_line_starts im, fl_symbols = im_symbols im\<rparr>"

text \<open>\<open>None\<close> writes nothing.\<close>

definition mi_serialize :: "merged_index \<Rightarrow> flat_index option" where
  "mi_serialize mi =
     (case mi_buffer mi of Some fl \<Rightarrow> Some fl | None \<Rightarrow> map_option flatten (mi_impl mi))"

section \<open>Queries\<close>

definition all_removed :: "impl \<Rightarrow> nat set \<Rightarrow> bool" where
  "all_removed im ids \<longleftrightarrow> im_removed im \<noteq> {} \<and> ids - im_removed im = {}"

definition fill_cache :: "impl \<Rightarrow> impl" where
  "fill_cache im =
     (if occurrences_cache im = []
      then im\<lparr>occurrences_cache := sort_key occ_key (map fst (im_occurrences im))\<rparr>
      else im)"

text \<open>The cache is mutable through a constant reference, so the lookup returns the index as well.\<close>

definition mi_lookup :: "u32 \<Rightarrow> (occurrence \<Rightarrow> bool) \<Rightarrow> merged_index \<Rightarrow> occurrence list \<times> merged_index" where
  "mi_lookup offset callback mi =
     (case mi_impl mi of
        Some im0 \<Rightarrow>
          let im = fill_cache im0;
              skip = (\<lambda>x. case map_of (im_occurrences im) x of None \<Rightarrow> False | Some ids \<Rightarrow> all_removed im ids)
          in (lookup_occurrence skip offset callback (occurrences_cache im), mi\<lparr>mi_impl := Some im\<rparr>)
      | None \<Rightarrow>
          case mi_buffer mi of
            Some fl \<Rightarrow> (lookup_occurrence (\<lambda>_. False) offset callback (map fst (fl_occurrences fl)), mi)
          | None \<Rightarrow> ([], mi))"

definition mi_lookup_relations :: "u64 \<Rightarrow> relation_kind \<Rightarrow> (relation \<Rightarrow> bool) \<Rightarrow> merged_index \<Rightarrow> relation list" where
  "mi_lookup_relations symb kind callback mi =
     (case mi_impl mi of
        Some im \<Rightarrow>
          (case map_of (im_relations im) symb of
             None \<Rightarrow> []
           | Some rs \<Rightarrow> visit_matching (\<lambda>r. kind_and (rel_kind r) kind) callback
               (map fst (filter (\<lambda>(r, ids). \<not> all_removed im ids) rs)))
      | None \<Rightarrow>
          case mi_buffer mi of
            None \<Rightarrow> []
          | Some fl \<Rightarrow>
              let es = fl_relations fl; i = lower_bound (\<lambda>(s, _). s < symb) es in
              if length es \<le> i \<or> fst (es ! i) \<noteq> symb then []
              else visit_matching (\<lambda>r. kind_and (rel_kind r) kind) callback (map fst (snd (es ! i))))"

text \<open>\<open>mtime\<close> gives the modification time of the path with this id, \<open>None\<close> an error of the status call.\<close>

fun stale_dependency :: "(u32 \<Rightarrow> u64 option) \<Rightarrow> u64 \<Rightarrow> u32 set \<Rightarrow> include_location list \<Rightarrow> bool" where
  "stale_dependency mtime built deps [] = False"
| "stale_dependency mtime built deps (l # ls) =
     (if il_path l \<in> deps then stale_dependency mtime built deps ls
      else
        case mtime (il_path l) of
          None \<Rightarrow> True
        | Some t \<Rightarrow> built < t \<or> stale_dependency mtime built (insert (il_path l) deps) ls)"

definition contexts_stale :: "(u32 \<Rightarrow> u64 option) \<Rightarrow> (u32 \<times> compilation_context) list \<Rightarrow> bool" where
  "contexts_stale mtime ccs =
     (case ccs of
        [] \<Rightarrow> True
      | (_, c) # _ \<Rightarrow> stale_dependency mtime (cc_build_at c) {} (cc_locations c))"

definition mi_need_update :: "(u32 \<Rightarrow> u64 option) \<Rightarrow> merged_index \<Rightarrow> bool" where
  "mi_need_update mtime mi =
     (case mi_impl mi of
        Some im \<Rightarrow> contexts_stale mtime (compilation_contexts im)
      | None \<Rightarrow>
          case mi_buffer mi of
            Some fl \<Rightarrow> contexts_stale mtime (fl_compilations fl)
          | None \<Rightarrow> True)"

definition need_rewrite :: "merged_index \<Rightarrow> bool" where
  "need_rewrite mi \<longleftrightarrow> mi_impl mi \<noteq> None"

definition find_symbol :: "u64 \<Rightarrow> merged_index \<Rightarrow> (string \<times> symbol_kind) option" where
  "find_symbol hash mi =
     (case mi_impl mi of
        Some im \<Rightarrow> map_option (\<lambda>s. (sym_name s, sym_kind s)) (map_of (im_symbols im) hash)
      | None \<Rightarrow>
          case mi_buffer mi of
            Some fl \<Rightarrow> map_option (\<lambda>s. (sym_name s, sym_kind s)) (map_of (fl_symbols fl) hash)
          | None \<Rightarrow> None)"

definition mi_content :: "merged_index \<Rightarrow> string" where
  "mi_content mi =
     (case mi_impl mi of
        Some im \<Rightarrow> im_content im
      | None \<Rightarrow> case mi_buffer mi of Some fl \<Rightarrow> fl_content fl | None \<Rightarrow> [])"

definition mi_line_starts :: "merged_index \<Rightarrow> u32 list" where
  "mi_line_starts mi =
     (case mi_impl mi of
        Some im \<Rightarrow> im_line_starts im
      | None \<Rightarrow> case mi_buffer mi of Some fl \<Rightarrow> fl_line_starts fl | None \<Rightarrow> [])"

section \<open>Modifications\<close>

text \<open>\<open>ref_counts -= 1\<close> on \<open>uint32_t\<close>, and the mark when it gets zero.\<close>

definition drop_ref :: "nat \<Rightarrow> impl \<Rightarrow> impl" where
  "drop_ref c im =
     (let n = (if canonical_ref_counts im ! c = 0 then 2 ^ 32 - 1 else canonical_ref_counts im ! c - 1) in
      im\<lparr>canonical_ref_counts := (canonical_ref_counts im)[c := n],
         im_removed := (if n = 0 then insert c (im_removed im) else im_removed im)\<rparr>)"

definition impl_remove :: "u32 \<Rightarrow> impl \<Rightarrow> impl" where
  "impl_remove path im =
     (let im1 = (case map_of (header_contexts im) path of
            None \<Rightarrow> im
          | Some h \<Rightarrow> (fold drop_ref (map ic_canonical (hc_includes h)) im)
              \<lparr>header_contexts := AList.delete path (header_contexts im)\<rparr>);
          im2 = (case map_of (compilation_contexts im1) path of
            None \<Rightarrow> im1
          | Some c \<Rightarrow> (drop_ref (cc_canonical c) im1)
              \<lparr>compilation_contexts := AList.delete path (compilation_contexts im1)\<rparr>)
      in im2\<lparr>occurrences_cache := []\<rparr>)"

definition impl_merge_symbols :: "symbol_table \<Rightarrow> impl \<Rightarrow> impl" where
  "impl_merge_symbols syms im =
     im\<lparr>im_symbols := fold (\<lambda>(h, s) m. case map_of m h of
           Some _ \<Rightarrow> m
         | None \<Rightarrow> m @ [(h, \<lparr>sym_name = sym_name s, sym_kind = sym_kind s, sym_scope = sym_scope s, sym_files = {}\<rparr>)])
        syms (im_symbols im)\<rparr>"

definition set_compilation_context :: "u32 \<Rightarrow> u64 \<Rightarrow> include_location list \<Rightarrow> nat \<Rightarrow> impl \<Rightarrow> impl" where
  "set_compilation_context path built locs c im =
     (let version = (case map_of (compilation_contexts im) path of None \<Rightarrow> 0 | Some x \<Rightarrow> cc_version x) in
      im\<lparr>compilation_contexts := AList.update path
           \<lparr>cc_version = version, cc_canonical = c, cc_build_at = built, cc_locations = locs\<rparr>
           (compilation_contexts im)\<rparr>)"

definition add_header_context :: "u32 \<Rightarrow> u32 \<Rightarrow> nat \<Rightarrow> impl \<Rightarrow> impl" where
  "add_header_context path inc c im =
     (let h = (case map_of (header_contexts im) path of None \<Rightarrow> \<lparr>hc_version = 0, hc_includes = []\<rparr> | Some h \<Rightarrow> h) in
      im\<lparr>header_contexts := AList.update path
           (h\<lparr>hc_includes := hc_includes h @ [\<lparr>ic_include = inc, ic_canonical = c\<rparr>]\<rparr>) (header_contexts im)\<rparr>)"

definition impl_merge_compilation :: "(string \<Rightarrow> u32 list) \<Rightarrow> (file_index \<Rightarrow> u8 list) \<Rightarrow> u32 \<Rightarrow> u64
    \<Rightarrow> include_location list \<Rightarrow> file_index \<Rightarrow> string \<Rightarrow> impl \<Rightarrow> impl" where
  "impl_merge_compilation build_line_starts hash path built locs fi text im =
     (impl_merge (hash fi) fi (set_compilation_context path built locs)
        (im\<lparr>im_content := text, im_line_starts := build_line_starts text\<rparr>))
       \<lparr>occurrences_cache := []\<rparr>"

definition impl_merge_header :: "(string \<Rightarrow> u32 list) \<Rightarrow> (file_index \<Rightarrow> u8 list) \<Rightarrow> u32 \<Rightarrow> u32
    \<Rightarrow> file_index \<Rightarrow> string \<Rightarrow> impl \<Rightarrow> impl" where
  "impl_merge_header build_line_starts hash path inc fi text im =
     (impl_merge (hash fi) fi (add_header_context path inc)
        (if im_content im = [] \<and> text \<noteq> []
         then im\<lparr>im_content := text, im_line_starts := build_line_starts text\<rparr> else im))
       \<lparr>occurrences_cache := []\<rparr>"

text \<open>Each modification first loads the index into memory.\<close>

definition modify :: "(string \<Rightarrow> u32 list) \<Rightarrow> (impl \<Rightarrow> impl) \<Rightarrow> merged_index \<Rightarrow> merged_index" where
  "modify build_line_starts f mi =
     (let mi1 = load_in_memory build_line_starts mi in mi1\<lparr>mi_impl := map_option f (mi_impl mi1)\<rparr>)"

definition mi_remove :: "(string \<Rightarrow> u32 list) \<Rightarrow> u32 \<Rightarrow> merged_index \<Rightarrow> merged_index" where
  "mi_remove bls path = modify bls (impl_remove path)"

definition merge_symbols :: "(string \<Rightarrow> u32 list) \<Rightarrow> symbol_table \<Rightarrow> merged_index \<Rightarrow> merged_index" where
  "merge_symbols bls syms = modify bls (impl_merge_symbols syms)"

definition merge_compilation :: "(string \<Rightarrow> u32 list) \<Rightarrow> (file_index \<Rightarrow> u8 list) \<Rightarrow> u32 \<Rightarrow> u64
    \<Rightarrow> include_location list \<Rightarrow> file_index \<Rightarrow> string \<Rightarrow> merged_index \<Rightarrow> merged_index" where
  "merge_compilation bls hash path built locs fi text =
     modify bls (impl_merge_compilation bls hash path built locs fi text)"

definition merge_header :: "(string \<Rightarrow> u32 list) \<Rightarrow> (file_index \<Rightarrow> u8 list) \<Rightarrow> u32 \<Rightarrow> u32
    \<Rightarrow> file_index \<Rightarrow> string \<Rightarrow> merged_index \<Rightarrow> merged_index" where
  "merge_header bls hash path inc fi text = modify bls (impl_merge_header bls hash path inc fi text)"

end
