(* ===== verification/Merged_Index_Props.thy ===== *)
theory Merged_Index_Props
  imports Merged_Index
begin

text \<open>
  The merged index refines a simple specification: the set of contexts a file is seen in, each with
  its index. A query returns what the indices of the live contexts contain, whatever canonical ids,
  reference counts, removal marks, caches and reloads are behind it.
\<close>

section \<open>Sets of ids\<close>

definition ids :: "('k \<times> nat set) list \<Rightarrow> 'k \<Rightarrow> nat set" where
  "ids m k = (case map_of m k of None \<Rightarrow> {} | Some s \<Rightarrow> s)"

definition tidy :: "('k \<times> nat set) list \<Rightarrow> bool" where
  "tidy m \<longleftrightarrow> distinct (map fst m) \<and> (\<forall>k s. map_of m k = Some s \<longrightarrow> s \<noteq> {})"

lemma tidy_Nil [simp]: "tidy []"
  by (simp add: tidy_def)

lemma ids_Nil [simp]: "ids [] k = {}"
  by (simp add: ids_def)

lemma map_of_add_id: "map_of (add_id c k m) = (map_of m)(k \<mapsto> insert c (ids m k))"
  by (simp add: add_id_def ids_def update_conv' split: option.splits)

lemma ids_add_id: "ids (add_id c k m) x = (if x = k then insert c (ids m k) else ids m x)"
  by (simp add: ids_def map_of_add_id)

lemma tidy_add_id: "tidy m \<Longrightarrow> tidy (add_id c k m)"
  unfolding tidy_def map_of_add_id by (auto simp: add_id_def distinct_update)

lemma ids_add_ids: "ids (fold (add_id c) ks m) x = (if x \<in> set ks then insert c (ids m x) else ids m x)"
  by (induction ks arbitrary: m) (auto simp: ids_add_id)

lemma tidy_add_ids: "tidy m \<Longrightarrow> tidy (fold (add_id c) ks m)"
  by (induction ks arbitrary: m) (simp_all add: tidy_add_id)

lemma tidy_member: "tidy m \<Longrightarrow> ids m k \<noteq> {} \<longleftrightarrow> k \<in> fst ` set m"
  by (auto simp: tidy_def ids_def map_of_eq_None_iff split: option.splits)
    (metis fst_conv image_eqI map_of_SomeD map_of_is_SomeI)+

definition rel_table :: "(u64 \<times> (relation \<times> nat set) list) list \<Rightarrow> u64 \<Rightarrow> (relation \<times> nat set) list" where
  "rel_table m symb = (case map_of m symb of None \<Rightarrow> [] | Some t \<Rightarrow> t)"

definition tidy_relations :: "(u64 \<times> (relation \<times> nat set) list) list \<Rightarrow> bool" where
  "tidy_relations m \<longleftrightarrow> distinct (map fst m) \<and> (\<forall>symb. tidy (rel_table m symb))"

lemma rel_table_add:
  "rel_table (add_relations c (symb, rs) m) x = (if x = symb then fold (add_id c) rs (rel_table m symb) else rel_table m x)"
  by (simp add: add_relations_def rel_table_def update_conv' split: option.splits)

lemma tidy_add_relations: "tidy_relations m \<Longrightarrow> tidy_relations (add_relations c e m)"
proof (cases e)
  case (Pair symb rs)
  assume "tidy_relations m"
  then show ?thesis
    unfolding Pair tidy_relations_def by (auto simp: rel_table_add tidy_add_ids) (simp add: add_relations_def distinct_update)
qed

lemma ids_add_relations:
  "ids (rel_table (fold (add_relations c) es m) symb) r =
     (if \<exists>rs. (symb, rs) \<in> set es \<and> r \<in> set rs then insert c (ids (rel_table m symb) r) else ids (rel_table m symb) r)"
proof (induction es arbitrary: m)
  case (Cons e es)
  then show ?case by (cases e) (auto simp: rel_table_add ids_add_ids)
qed simp

lemma tidy_add_relations_all: "tidy_relations m \<Longrightarrow> tidy_relations (fold (add_relations c) es m)"
  by (induction es arbitrary: m) (simp_all add: tidy_add_relations)

section \<open>The invariant\<close>

text \<open>Sums over an association list.\<close>

definition alist_sum :: "('v \<Rightarrow> nat) \<Rightarrow> ('k \<times> 'v) list \<Rightarrow> nat" where
  "alist_sum f al = sum_list (map (f \<circ> snd) al)"

definition old_value :: "('v \<Rightarrow> nat) \<Rightarrow> ('k \<times> 'v) list \<Rightarrow> 'k \<Rightarrow> nat" where
  "old_value f al k = (case map_of al k of None \<Rightarrow> 0 | Some v \<Rightarrow> f v)"

lemma alist_sum_update: "alist_sum f (AList.update k v al) + old_value f al k = alist_sum f al + f v"
  by (induction al) (auto simp: alist_sum_def old_value_def)

lemma delete_other: "k \<notin> fst ` set al \<Longrightarrow> AList.delete k al = al"
  by (induction al) auto

lemma alist_sum_delete:
  "distinct (map fst al) \<Longrightarrow> alist_sum f (AList.delete k al) + old_value f al k = alist_sum f al"
proof (induction al)
  case (Cons a al)
  then show ?case
  proof (cases "fst a = k")
    case True
    then have "AList.delete k al = al" using Cons.prems by (intro delete_other) auto
    then show ?thesis using True by (cases a) (simp add: alist_sum_def old_value_def)
  qed (cases a, auto simp: alist_sum_def old_value_def)
qed (simp add: alist_sum_def old_value_def)

lemma alist_sum_member: "map_of al k = Some v \<Longrightarrow> f v \<le> alist_sum f al"
  by (induction al) (auto simp: alist_sum_def trans_le_add2 split: if_splits)

text \<open>How many contexts use a canonical id.\<close>

definition header_uses :: "nat \<Rightarrow> header_context \<Rightarrow> nat" where
  "header_uses c h = count_list (map ic_canonical (hc_includes h)) c"

definition compilation_uses :: "nat \<Rightarrow> compilation_context \<Rightarrow> nat" where
  "compilation_uses c x = of_bool (cc_canonical x = c)"

definition uses :: "impl \<Rightarrow> nat \<Rightarrow> nat" where
  "uses im c = alist_sum (header_uses c) (header_contexts im) + alist_sum (compilation_uses c) (compilation_contexts im)"

definition has_relation :: "file_index \<Rightarrow> u64 \<Rightarrow> relation \<Rightarrow> bool" where
  "has_relation fi symb r \<longleftrightarrow> (\<exists>rs. (symb, rs) \<in> set (fi_relations fi) \<and> r \<in> set rs)"

text \<open>
  Merging the main file again replaces its compilation context without giving back the reference of the
  old one. \<open>L\<close> has the ids whose references were lost this way since the index was loaded, and \<open>K\<close> the ids that
  were lost before: a load counts the references of the contexts only, but keeps the marks.

  The counts are those of the contexts and of the lost references; an id is marked as removed exactly
  when nothing refers to it and it is not in \<open>K\<close>.
\<close>

definition refs :: "nat list \<Rightarrow> impl \<Rightarrow> nat \<Rightarrow> nat" where
  "refs L im c = uses im c + count_list L c"

definition counts_exact :: "nat list \<Rightarrow> nat set \<Rightarrow> impl \<Rightarrow> bool" where
  "counts_exact L K im \<longleftrightarrow>
     canonical_ref_counts im = map (refs L im) [0..<max_canonical_id im]
     \<and> im_removed im = {c. c < max_canonical_id im \<and> refs L im c = 0 \<and> c \<notin> K}
     \<and> (\<forall>c \<ge> max_canonical_id im. refs L im c = 0) \<and> K \<subseteq> {c. c < max_canonical_id im \<and> refs L im c = 0}
     \<and> distinct (map fst (header_contexts im)) \<and> distinct (map fst (compilation_contexts im))"

text \<open>\<open>index_of c\<close> is the index that was given the canonical id \<open>c\<close>.\<close>

definition tables_exact :: "(file_index \<Rightarrow> u8 list) \<Rightarrow> (nat \<Rightarrow> file_index) \<Rightarrow> impl \<Rightarrow> bool" where
  "tables_exact hash index_of im \<longleftrightarrow>
     (\<forall>h c. map_of (canonical_cache im) h = Some c \<longleftrightarrow> c < max_canonical_id im \<and> hash (index_of c) = h)
     \<and> distinct (map fst (canonical_cache im))
     \<and> tidy (im_occurrences im) \<and> tidy_relations (im_relations im)
     \<and> (\<forall>x. ids (im_occurrences im) x = {c. c < max_canonical_id im \<and> x \<in> set (fi_occurrences (index_of c))})
     \<and> (\<forall>symb r. ids (rel_table (im_relations im) symb) r = {c. c < max_canonical_id im \<and> has_relation (index_of c) symb r})"

definition text_ok :: "(string \<Rightarrow> u32 list) \<Rightarrow> impl \<Rightarrow> bool" where
  "text_ok bls im \<longleftrightarrow> im_line_starts im = bls (im_content im) \<or> im_content im = [] \<and> im_line_starts im = []"

definition cache_right :: "impl \<Rightarrow> bool" where
  "cache_right im \<longleftrightarrow> occurrences_cache im = []
     \<or> occurrences_cache im = sort_key occ_key (map fst (im_occurrences im))"

definition impl_ok :: "(string \<Rightarrow> u32 list) \<Rightarrow> (file_index \<Rightarrow> u8 list) \<Rightarrow> (nat \<Rightarrow> file_index) \<Rightarrow> nat list \<Rightarrow> nat set \<Rightarrow> impl \<Rightarrow> bool" where
  "impl_ok bls hash index_of L K im \<longleftrightarrow> counts_exact L K im \<and> tables_exact hash index_of im \<and> text_ok bls im
     \<and> cache_right im \<and> distinct (map fst (im_symbols im))"

lemma impl_ok_empty: "impl_ok bls hash index_of [] {} empty_impl"
  by (simp add: impl_ok_def counts_exact_def refs_def tables_exact_def text_ok_def cache_right_def empty_impl_def uses_def
      alist_sum_def tidy_relations_def rel_table_def)

section \<open>Adding a context\<close>

lemma uses_add_header: "uses (add_header_context path inc c im) x = uses im x + of_bool (x = c)"
proof -
  let ?h = "case map_of (header_contexts im) path of None \<Rightarrow> \<lparr>hc_version = 0, hc_includes = []\<rparr> | Some h \<Rightarrow> h"
  let ?h' = "?h\<lparr>hc_includes := hc_includes ?h @ [\<lparr>ic_include = inc, ic_canonical = c\<rparr>]\<rparr>"
  have "old_value (header_uses x) (header_contexts im) path = header_uses x ?h"
    by (auto simp: old_value_def header_uses_def split: option.splits)
  moreover have "header_uses x ?h' = header_uses x ?h + of_bool (x = c)" by (simp add: header_uses_def)
  ultimately show ?thesis
    using alist_sum_update [of "header_uses x" path ?h' "header_contexts im"]
    by (simp add: uses_def add_header_context_def Let_def)
qed

text \<open>The ids whose references are lost when the compilation context of a path is replaced.\<close>

definition replaced :: "u32 \<Rightarrow> impl \<Rightarrow> nat list" where
  "replaced path im = (case map_of (compilation_contexts im) path of None \<Rightarrow> [] | Some x \<Rightarrow> [cc_canonical x])"

lemma uses_set_compilation:
  "uses (set_compilation_context path built locs c im) x + count_list (replaced path im) x = uses im x + of_bool (x = c)"
proof -
  let ?version = "case map_of (compilation_contexts im) path of None \<Rightarrow> 0 | Some x \<Rightarrow> cc_version x"
  let ?x = "\<lparr>cc_version = ?version, cc_canonical = c, cc_build_at = built, cc_locations = locs\<rparr>"
  have "old_value (compilation_uses x) (compilation_contexts im) path = count_list (replaced path im) x"
    by (auto simp: old_value_def replaced_def compilation_uses_def split: option.splits)
  then show ?thesis
    using alist_sum_update [of "compilation_uses x" path ?x "compilation_contexts im"]
    by (simp add: uses_def set_compilation_context_def Let_def compilation_uses_def eq_commute)
qed

text \<open>What a merge relies on: one more use of the id, the references of \<open>old\<close>
  are lost, and nothing else changes that the tables depend on.\<close>

lemma distinct_update_iff: "distinct (map fst (AList.update k v al)) = distinct (map fst al)"
  by (induction al) (auto simp: dom_update [unfolded dom_map_of_conv_image_fst])

definition frames_context :: "(nat \<Rightarrow> impl \<Rightarrow> impl) \<Rightarrow> impl \<Rightarrow> bool" where
  "frames_context add im \<longleftrightarrow> (\<forall>c cache. add c (im\<lparr>canonical_cache := cache\<rparr>) =
     im\<lparr>canonical_cache := cache, header_contexts := header_contexts (add c im),
        compilation_contexts := compilation_contexts (add c im)\<rparr>)"

definition adds_context :: "(nat \<Rightarrow> impl \<Rightarrow> impl) \<Rightarrow> nat list \<Rightarrow> impl \<Rightarrow> bool" where
  "adds_context add old im \<longleftrightarrow> frames_context add im \<and> (\<forall>c.
     (\<forall>x. uses (add c im) x + count_list old x = uses im x + of_bool (x = c))
     \<and> distinct (map fst (header_contexts (add c im))) = distinct (map fst (header_contexts im))
     \<and> distinct (map fst (compilation_contexts (add c im))) = distinct (map fst (compilation_contexts im)))"

lemma adds_frames: "adds_context add old im \<Longrightarrow> frames_context add im"
  by (simp add: adds_context_def)

lemma frames_context_add:
  assumes "frames_context add im"
  shows "add c im = im\<lparr>header_contexts := header_contexts (add c im), compilation_contexts := compilation_contexts (add c im)\<rparr>"
proof -
  have "add c (im\<lparr>canonical_cache := canonical_cache im\<rparr>) =
      im\<lparr>canonical_cache := canonical_cache im, header_contexts := header_contexts (add c im),
         compilation_contexts := compilation_contexts (add c im)\<rparr>"
    using assms unfolding frames_context_def by blast
  then show ?thesis by simp
qed

lemma frames_header: "frames_context (add_header_context path inc) im"
  by (simp add: frames_context_def add_header_context_def Let_def)

lemma frames_compilation: "frames_context (set_compilation_context path built locs) im"
  by (simp add: frames_context_def set_compilation_context_def Let_def)

lemma adds_header: "adds_context (add_header_context path inc) [] im"
  by (simp add: adds_context_def uses_add_header frames_header) (simp add: add_header_context_def Let_def distinct_update_iff)

lemma adds_compilation:
  "adds_context (set_compilation_context path built locs) (replaced path im) im"
  by (simp add: adds_context_def uses_set_compilation frames_compilation) (simp add: set_compilation_context_def Let_def distinct_update_iff)

definition merged_id :: "u8 list \<Rightarrow> impl \<Rightarrow> nat" where
  "merged_id h im = (case map_of (canonical_cache im) h of Some c \<Rightarrow> c | None \<Rightarrow> max_canonical_id im)"

lemma uses_contexts_only:
  "header_contexts a = header_contexts b \<Longrightarrow> compilation_contexts a = compilation_contexts b \<Longrightarrow> uses a = uses b"
  by (simp add: uses_def fun_eq_iff)

lemma refs_frame [simp]:
  "refs L (im\<lparr>occurrences_cache := o'\<rparr>) = refs L im" "refs L (im\<lparr>im_content := t\<rparr>) = refs L im"
  "refs L (im\<lparr>im_line_starts := ls\<rparr>) = refs L im" "refs L (im\<lparr>im_symbols := ss\<rparr>) = refs L im"
  by (simp_all add: refs_def uses_def fun_eq_iff)

text \<open>The two outcomes of a merge, as updates of the state before it.\<close>

lemma impl_merge_found:
  assumes "frames_context add im" "map_of (canonical_cache im) h = Some c"
  shows "impl_merge h fi add im = im\<lparr>header_contexts := header_contexts (add c im),
           compilation_contexts := compilation_contexts (add c im),
           canonical_ref_counts := (canonical_ref_counts im)[c := canonical_ref_counts im ! c + 1],
           im_removed := im_removed im - {c}\<rparr>"
  by (simp add: impl_merge_def assms(2) Let_def) (subst frames_context_add [OF assms(1)], simp)+

lemma impl_merge_new:
  assumes "frames_context add im" "map_of (canonical_cache im) h = None"
  defines "c \<equiv> max_canonical_id im"
  shows "impl_merge h fi add im = im\<lparr>canonical_cache := canonical_cache im @ [(h, c)],
           header_contexts := header_contexts (add c im), compilation_contexts := compilation_contexts (add c im),
           im_occurrences := fold (add_id c) (fi_occurrences fi) (im_occurrences im),
           im_relations := fold (add_relations c) (fi_relations fi) (im_relations im),
           canonical_ref_counts := canonical_ref_counts im @ [1], max_canonical_id := c + 1\<rparr>"
proof -
  have "add c (im\<lparr>canonical_cache := canonical_cache im @ [(h, c)]\<rparr>) =
      im\<lparr>canonical_cache := canonical_cache im @ [(h, c)], header_contexts := header_contexts (add c im),
         compilation_contexts := compilation_contexts (add c im)\<rparr>"
    using assms(1) unfolding frames_context_def by blast
  then show ?thesis using assms(2) by (simp add: impl_merge_def Let_def c_def)
qed

lemma refs_impl_merge:
  assumes "adds_context add old im"
  shows "refs (old @ L) (impl_merge h fi add im) x = refs L im x + of_bool (x = merged_id h im)"
proof -
  have one: "uses (add c im) x + count_list old x = uses im x + of_bool (x = c)" for c
    using assms by (simp add: adds_context_def)
  have "uses (impl_merge h fi add im) = uses (add (merged_id h im) im)"
    by (cases "map_of (canonical_cache im) h"; rule uses_contexts_only)
      (simp_all add: impl_merge_new [OF adds_frames [OF assms]] impl_merge_found [OF adds_frames [OF assms]] merged_id_def)
  then show ?thesis using one [of "merged_id h im"] by (simp add: refs_def)
qed

lemma counts_exact_found:
  assumes "adds_context add old im" "map_of (canonical_cache im) h = Some c" "counts_exact L K im" "c < max_canonical_id im"
  shows "counts_exact (old @ L) (K - {c}) (impl_merge h fi add im)"
proof -
  let ?im = "impl_merge h fi add im"
  note m = impl_merge_found [OF adds_frames [OF assms(1)] assms(2), of fi]
  have u: "refs (old @ L) ?im = (\<lambda>x. refs L im x + of_bool (x = c))"
    using refs_impl_merge [OF assms(1), of L h fi] assms(2) by (simp add: merged_id_def fun_eq_iff)
  have f: "canonical_ref_counts ?im = (canonical_ref_counts im)[c := canonical_ref_counts im ! c + 1]"
    "max_canonical_id ?im = max_canonical_id im" "im_removed ?im = im_removed im - {c}"
    by (simp_all add: m)
  have counts: "canonical_ref_counts im = map (refs L im) [0..<max_canonical_id im]" using assms(3) by (simp add: counts_exact_def)
  have "canonical_ref_counts ?im = map (refs (old @ L) ?im) [0..<max_canonical_id ?im]"
    unfolding f u counts using assms(4) by (intro nth_equalityI) (auto simp: nth_list_update)
  moreover have "im_removed ?im = {x. x < max_canonical_id ?im \<and> refs (old @ L) ?im x = 0 \<and> x \<notin> K - {c}}"
    unfolding f u using assms(3) by (auto simp: counts_exact_def)
  moreover have "\<forall>x\<ge>max_canonical_id ?im. refs (old @ L) ?im x = 0"
    unfolding f u using assms(3,4) by (auto simp: counts_exact_def)
  moreover have "K - {c} \<subseteq> {x. x < max_canonical_id ?im \<and> refs (old @ L) ?im x = 0}"
    unfolding f u using assms(3) by (auto simp: counts_exact_def)
  moreover have "distinct (map fst (header_contexts ?im)) \<and> distinct (map fst (compilation_contexts ?im))"
    using assms(1,3) by (simp add: m counts_exact_def adds_context_def)
  ultimately show ?thesis by (simp only: counts_exact_def)
qed

lemma counts_exact_new:
  assumes "adds_context add old im" "map_of (canonical_cache im) h = None" "counts_exact L K im"
  shows "counts_exact (old @ L) (K - {max_canonical_id im}) (impl_merge h fi add im)"
proof -
  let ?im = "impl_merge h fi add im"
  let ?c = "max_canonical_id im"
  note m = impl_merge_new [OF adds_frames [OF assms(1)] assms(2), of fi]
  have u: "refs (old @ L) ?im = (\<lambda>x. refs L im x + of_bool (x = ?c))"
    using refs_impl_merge [OF assms(1), of L h fi] assms(2) by (simp add: merged_id_def fun_eq_iff)
  have f: "canonical_ref_counts ?im = canonical_ref_counts im @ [1]"
    "max_canonical_id ?im = ?c + 1" "im_removed ?im = im_removed im"
    by (simp_all add: m)
  have counts: "canonical_ref_counts im = map (refs L im) [0..<?c]" "refs L im ?c = 0" using assms(3) by (simp_all add: counts_exact_def)
  have "canonical_ref_counts ?im = map (refs (old @ L) ?im) [0..<max_canonical_id ?im]"
    unfolding f u using counts by simp
  moreover have "im_removed ?im = {x. x < max_canonical_id ?im \<and> refs (old @ L) ?im x = 0 \<and> x \<notin> K - {?c}}"
    unfolding f u using assms(3) by (auto simp: counts_exact_def less_Suc_eq)
  moreover have "\<forall>x\<ge>max_canonical_id ?im. refs (old @ L) ?im x = 0"
    unfolding f u using assms(3) by (auto simp: counts_exact_def)
  moreover have "K - {?c} \<subseteq> {x. x < max_canonical_id ?im \<and> refs (old @ L) ?im x = 0}"
    unfolding f u using assms(3) by (auto simp: counts_exact_def)
  moreover have "distinct (map fst (header_contexts ?im)) \<and> distinct (map fst (compilation_contexts ?im))"
    using assms(1,3) by (simp add: m counts_exact_def adds_context_def)
  ultimately show ?thesis by (simp only: counts_exact_def)
qed

text \<open>The index that got each id, after a merge.\<close>

definition merged_index_of :: "u8 list \<Rightarrow> file_index \<Rightarrow> impl \<Rightarrow> (nat \<Rightarrow> file_index) \<Rightarrow> nat \<Rightarrow> file_index" where
  "merged_index_of h fi im index_of =
     (case map_of (canonical_cache im) h of Some _ \<Rightarrow> index_of | None \<Rightarrow> index_of(max_canonical_id im := fi))"

lemma has_relation_iff: "has_relation fi symb r \<longleftrightarrow> (\<exists>rs. (symb, rs) \<in> set (fi_relations fi) \<and> r \<in> set rs)"
  by (simp add: has_relation_def)

lemma tables_exact_new:
  assumes "frames_context add im" "map_of (canonical_cache im) (hash fi) = None" "tables_exact hash index_of im"
  shows "tables_exact hash (index_of(max_canonical_id im := fi)) (impl_merge (hash fi) fi add im)"
proof -
  let ?im = "impl_merge (hash fi) fi add im"
  let ?c = "max_canonical_id im"
  let ?f = "index_of(?c := fi)"
  note m = impl_merge_new [OF assms(1,2), of fi]
  note t = assms(3) [unfolded tables_exact_def]
  have "map_of (canonical_cache ?im) h = Some c \<longleftrightarrow> c < max_canonical_id ?im \<and> hash (?f c) = h" for h c
    using t assms(2) by (auto simp: m map_add_Some_iff less_Suc_eq)
  moreover have "distinct (map fst (canonical_cache ?im))"
    using t assms(2) by (simp add: m map_of_eq_None_iff)
  moreover have "tidy (im_occurrences ?im)" "tidy_relations (im_relations ?im)"
    using t by (simp_all add: m tidy_add_ids tidy_add_relations_all)
  moreover have "ids (im_occurrences ?im) x = {c. c < max_canonical_id ?im \<and> x \<in> set (fi_occurrences (?f c))}" for x
    using t by (auto simp: m ids_add_ids less_Suc_eq)
  moreover have "ids (rel_table (im_relations ?im) symb) r = {c. c < max_canonical_id ?im \<and> has_relation (?f c) symb r}" for symb r
    using t by (auto simp: m ids_add_relations has_relation_iff [symmetric] less_Suc_eq)
  ultimately show ?thesis by (simp only: tables_exact_def) blast
qed

lemma tables_exact_found:
  assumes "frames_context add im" "map_of (canonical_cache im) h = Some c" "tables_exact hash index_of im"
  shows "tables_exact hash index_of (impl_merge h fi add im)"
  using assms(3) by (simp add: tables_exact_def impl_merge_found [OF assms(1,2)])

lemma tables_exact_merge:
  assumes "frames_context add im" "tables_exact hash index_of im"
  shows "tables_exact hash (merged_index_of (hash fi) fi im index_of) (impl_merge (hash fi) fi add im)"
  using tables_exact_new [OF assms(1) _ assms(2)] tables_exact_found [OF assms(1) _ assms(2)]
  by (auto simp: merged_index_of_def split: option.splits)

lemma counts_exact_merge:
  assumes "adds_context add old im" "counts_exact L K im" "tables_exact hash index_of im"
  shows "counts_exact (old @ L) (K - {merged_id (hash fi) im}) (impl_merge (hash fi) fi add im)"
proof (cases "map_of (canonical_cache im) (hash fi)")
  case (Some c)
  moreover have "c < max_canonical_id im" using Some assms(3) by (auto simp: tables_exact_def)
  ultimately have "counts_exact (old @ L) (K - {c}) (impl_merge (hash fi) fi add im)"
    by (rule counts_exact_found [OF assms(1) _ assms(2)])
  then show ?thesis by (simp add: merged_id_def Some)
next
  case None
  from counts_exact_new [OF assms(1) None assms(2)] show ?thesis by (simp add: merged_id_def None)
qed

section \<open>Removing a context\<close>

lemma fold_drop_ref:
  assumes "\<forall>c. count_list cs c \<le> (if c < length (canonical_ref_counts im) then canonical_ref_counts im ! c else 0)"
  shows "fold drop_ref cs im = im\<lparr>
      canonical_ref_counts := map (\<lambda>c. canonical_ref_counts im ! c - count_list cs c) [0..<length (canonical_ref_counts im)],
      im_removed := im_removed im \<union> {c \<in> set cs. canonical_ref_counts im ! c = count_list cs c}\<rparr>"
  using assms
proof (induction cs arbitrary: im)
  case Nil
  have "map ((!) (canonical_ref_counts im)) [0..<length (canonical_ref_counts im)] = canonical_ref_counts im"
    by (rule map_nth)
  then show ?case by simp
next
  case (Cons c cs)
  let ?n = "canonical_ref_counts im"
  have c: "c < length ?n" "0 < ?n ! c" using Cons.prems [rule_format, of c] by (auto split: if_splits)
  let ?im = "drop_ref c im"
  have im: "?im = im\<lparr>canonical_ref_counts := ?n[c := ?n ! c - 1],
      im_removed := (if ?n ! c = 1 then insert c (im_removed im) else im_removed im)\<rparr>"
    using c by (auto simp: drop_ref_def Let_def)
  have le: "\<forall>x. count_list cs x \<le> (if x < length (canonical_ref_counts ?im) then canonical_ref_counts ?im ! x else 0)"
  proof
    fix x
    show "count_list cs x \<le> (if x < length (canonical_ref_counts ?im) then canonical_ref_counts ?im ! x else 0)"
      using Cons.prems [rule_format, of x] c by (cases "x = c") (auto simp: im nth_list_update split: if_splits)
  qed
  have counts: "map (\<lambda>x. canonical_ref_counts ?im ! x - count_list cs x) [0..<length (canonical_ref_counts ?im)]
      = map (\<lambda>x. ?n ! x - count_list (c # cs) x) [0..<length ?n]"
    using c by (auto simp: im nth_list_update)
  have "im_removed ?im \<union> {x \<in> set cs. canonical_ref_counts ?im ! x = count_list cs x}
      = im_removed im \<union> {x \<in> set (c # cs). ?n ! x = count_list (c # cs) x}"
  proof (rule set_eqI)
    fix x
    have "Suc (count_list cs c) \<le> ?n ! c" using Cons.prems [rule_format, of c] c by simp
    moreover have "c \<in> set cs \<longleftrightarrow> count_list cs c \<noteq> 0" by (simp add: count_list_0_iff)
    ultimately show "x \<in> im_removed ?im \<union> {x \<in> set cs. canonical_ref_counts ?im ! x = count_list cs x} \<longleftrightarrow>
        x \<in> im_removed im \<union> {x \<in> set (c # cs). ?n ! x = count_list (c # cs) x}"
      using c by (cases "x = c") (auto simp: im simp del: count_list_0_iff)
  qed
  then show ?case using Cons.IH [OF le] counts by (simp add: im)
qed

lemma counts_exact_drop:
  assumes exact: "counts_exact L K im"
    and u: "\<And>x. uses (im\<lparr>header_contexts := hs, compilation_contexts := cs\<rparr>) x + count_list ds x = uses im x"
    and d: "distinct (map fst hs)" "distinct (map fst cs)"
  shows "counts_exact L K ((fold drop_ref ds im)\<lparr>header_contexts := hs, compilation_contexts := cs\<rparr>)"
proof -
  let ?n = "max_canonical_id im"
  let ?im = "im\<lparr>header_contexts := hs, compilation_contexts := cs\<rparr>"
  have counts: "canonical_ref_counts im = map (refs L im) [0..<?n]" and rem: "im_removed im = {c. c < ?n \<and> refs L im c = 0 \<and> c \<notin> K}"
    and out: "\<And>c. ?n \<le> c \<Longrightarrow> refs L im c = 0" and kept: "K \<subseteq> {c. c < ?n \<and> refs L im c = 0}"
    using exact by (simp_all add: counts_exact_def)
  have bound: "count_list ds c \<le> refs L im c" for c using u [of c] by (simp add: refs_def)
  have le: "\<forall>c. count_list ds c \<le> (if c < length (canonical_ref_counts im) then canonical_ref_counts im ! c else 0)"
  proof
    fix c show "count_list ds c \<le> (if c < length (canonical_ref_counts im) then canonical_ref_counts im ! c else 0)"
      using bound [of c] out [of c] by (auto simp: counts)
  qed
  have pos: "c \<in> set ds \<Longrightarrow> refs L im c \<noteq> 0" for c using bound [of c] by (metis count_list_0_iff le_zero_eq)
  have mem: "c < ?n \<and> c \<notin> K" if "c \<in> set ds" for c using pos [OF that] out [of c] kept by (cases "c < ?n") auto
  have uses: "refs L ?im = (\<lambda>x. refs L im x - count_list ds x)"
  proof
    fix x show "refs L ?im x = refs L im x - count_list ds x" using u [of x] unfolding refs_def by linarith
  qed
  have "(refs L im c = 0 \<and> c \<notin> K \<or> c \<in> set ds \<and> refs L im c = count_list ds c) \<longleftrightarrow> refs L im c - count_list ds c = 0 \<and> c \<notin> K" for c
    using bound [of c] mem [of c] by (cases "c \<in> set ds") auto
  moreover have "canonical_ref_counts im ! c = refs L im c" if "c < ?n" for c using that by (simp add: counts)
  ultimately have "c \<in> im_removed im \<union> {c \<in> set ds. canonical_ref_counts im ! c = count_list ds c}
      \<longleftrightarrow> c < ?n \<and> refs L im c - count_list ds c = 0 \<and> c \<notin> K" for c
    using mem [of c] bound [of c] unfolding rem by auto
  then have removed: "im_removed im \<union> {c \<in> set ds. canonical_ref_counts im ! c = count_list ds c}
      = {c. c < ?n \<and> refs L im c - count_list ds c = 0 \<and> c \<notin> K}" by blast
  have u': "refs L (im\<lparr>canonical_ref_counts := n, im_removed := r, header_contexts := hs, compilation_contexts := cs\<rparr>)
      = (\<lambda>x. refs L im x - count_list ds x)" for n r
  proof -
    have "uses (im\<lparr>canonical_ref_counts := n, im_removed := r, header_contexts := hs, compilation_contexts := cs\<rparr>) = uses ?im"
      by (rule uses_contexts_only) simp_all
    then show ?thesis unfolding uses [symmetric] by (simp add: refs_def fun_eq_iff)
  qed
  have kept': "K \<subseteq> {c. c < ?n \<and> refs L im c \<le> count_list ds c}" using kept by auto
  show ?thesis
    unfolding counts_exact_def fold_drop_ref [OF le]
    using removed out d u' kept' by (simp add: counts)
qed

text \<open>Removing a path drops the references of its header context and of its compilation context.\<close>

lemma count_list_header: "count_list (map ic_canonical (hc_includes h)) x = header_uses x h"
  by (simp add: header_uses_def)

definition drop_header :: "u32 \<Rightarrow> impl \<Rightarrow> impl" where
  "drop_header path im = (case map_of (header_contexts im) path of
       None \<Rightarrow> im
     | Some h \<Rightarrow> (fold drop_ref (map ic_canonical (hc_includes h)) im)
         \<lparr>header_contexts := AList.delete path (header_contexts im)\<rparr>)"

definition drop_compilation :: "u32 \<Rightarrow> impl \<Rightarrow> impl" where
  "drop_compilation path im = (case map_of (compilation_contexts im) path of
       None \<Rightarrow> im
     | Some c \<Rightarrow> (drop_ref (cc_canonical c) im)\<lparr>compilation_contexts := AList.delete path (compilation_contexts im)\<rparr>)"

lemma impl_remove_eq: "impl_remove path im = (drop_compilation path (drop_header path im))\<lparr>occurrences_cache := []\<rparr>"
  by (simp add: impl_remove_def drop_header_def drop_compilation_def Let_def)

text \<open>Dropping references changes nothing but the counts and the marks.\<close>

definition same_tables :: "impl \<Rightarrow> impl \<Rightarrow> bool" where
  "same_tables a b \<longleftrightarrow> b\<lparr>header_contexts := header_contexts a, compilation_contexts := compilation_contexts a,
     canonical_ref_counts := canonical_ref_counts a, im_removed := im_removed a\<rparr> = a"

lemma same_tables_refl [simp]: "same_tables a a"
  by (simp add: same_tables_def)

lemma same_tables_trans: "same_tables a b \<Longrightarrow> same_tables b c \<Longrightarrow> same_tables a c"
  unfolding same_tables_def by (cases a, cases b, cases c) simp

lemma same_tables_drop_ref: "same_tables (drop_ref c im) im"
  by (simp add: same_tables_def drop_ref_def Let_def)

lemma fold_drop_ref_contexts:
  "header_contexts (fold drop_ref ds im) = header_contexts im"
  "compilation_contexts (fold drop_ref ds im) = compilation_contexts im"
  by (induction ds arbitrary: im) (simp_all add: drop_ref_def Let_def)

lemma same_tables_fold_drop_ref: "same_tables (fold drop_ref ds im) im"
  by (induction ds arbitrary: im) (auto intro: same_tables_trans same_tables_drop_ref)

lemma same_tables_contexts:
  "same_tables a b \<Longrightarrow> same_tables (a\<lparr>header_contexts := hs\<rparr>) b"
  "same_tables a b \<Longrightarrow> same_tables (a\<lparr>compilation_contexts := cs\<rparr>) b"
  unfolding same_tables_def by (cases a, cases b, simp)+

lemma same_tables_drop:
  "same_tables (drop_header path im) im" "same_tables (drop_compilation path im) im"
  by (auto simp: drop_header_def drop_compilation_def same_tables_contexts same_tables_fold_drop_ref
      same_tables_drop_ref split: option.splits)

lemma update_same_contexts:
  "compilation_contexts r = cs \<Longrightarrow> r\<lparr>header_contexts := hs, compilation_contexts := cs\<rparr> = r\<lparr>header_contexts := hs\<rparr>"
  "header_contexts r = hs \<Longrightarrow> r\<lparr>header_contexts := hs, compilation_contexts := cs\<rparr> = r\<lparr>compilation_contexts := cs\<rparr>"
  by (cases r, simp)+

lemma counts_exact_drop_header:
  assumes "counts_exact L K im" shows "counts_exact L K (drop_header path im)"
proof (cases "map_of (header_contexts im) path")
  case (Some h)
  let ?ds = "map ic_canonical (hc_includes h)"
  have d: "distinct (map fst (header_contexts im))" "distinct (map fst (compilation_contexts im))"
    using assms by (simp_all add: counts_exact_def)
  have "uses (im\<lparr>header_contexts := AList.delete path (header_contexts im), compilation_contexts := compilation_contexts im\<rparr>) x
      + count_list ?ds x = uses im x" for x
    using alist_sum_delete [OF d(1), of "header_uses x" path] Some
    by (simp add: uses_def old_value_def count_list_header)
  from counts_exact_drop [OF assms this] d Some show ?thesis
    by (simp add: drop_header_def distinct_delete update_same_contexts fold_drop_ref_contexts)
qed (use assms in \<open>simp add: drop_header_def\<close>)

lemma counts_exact_drop_compilation:
  assumes "counts_exact L K im" shows "counts_exact L K (drop_compilation path im)"
proof (cases "map_of (compilation_contexts im) path")
  case (Some c)
  have d: "distinct (map fst (header_contexts im))" "distinct (map fst (compilation_contexts im))"
    using assms by (simp_all add: counts_exact_def)
  have "uses (im\<lparr>header_contexts := header_contexts im, compilation_contexts := AList.delete path (compilation_contexts im)\<rparr>) x
      + count_list [cc_canonical c] x = uses im x" for x
    using alist_sum_delete [OF d(2), of "compilation_uses x" path] Some
    by (auto simp: uses_def old_value_def compilation_uses_def)
  from counts_exact_drop [OF assms this] d Some show ?thesis
    using fold_drop_ref_contexts [of "[cc_canonical c]" im]
    by (simp add: drop_compilation_def distinct_delete update_same_contexts)
qed (use assms in \<open>simp add: drop_compilation_def\<close>)

lemma impl_ok_same_tables:
  assumes "impl_ok bls hash index_of L K im" "same_tables im' im" "counts_exact L K im'"
  shows "impl_ok bls hash index_of L K im'"
  using assms by (cases im, cases im') (simp add: impl_ok_def same_tables_def tables_exact_def text_ok_def cache_right_def)

lemma impl_ok_clear_cache: "impl_ok bls hash index_of L K im \<Longrightarrow> impl_ok bls hash index_of L K (im\<lparr>occurrences_cache := []\<rparr>)"
  by (simp add: impl_ok_def tables_exact_def text_ok_def cache_right_def counts_exact_def)

lemma impl_ok_remove:
  assumes "impl_ok bls hash index_of L K im" shows "impl_ok bls hash index_of L K (impl_remove path im)"
proof -
  have "same_tables (drop_compilation path (drop_header path im)) im"
    by (rule same_tables_trans [OF same_tables_drop(2) same_tables_drop(1)])
  moreover have "counts_exact L K (drop_compilation path (drop_header path im))"
    using assms by (intro counts_exact_drop_compilation counts_exact_drop_header) (simp add: impl_ok_def)
  ultimately show ?thesis
    unfolding impl_remove_eq by (intro impl_ok_clear_cache impl_ok_same_tables [OF assms])
qed

section \<open>The other operations\<close>

lemma text_ok_merge: "frames_context add im \<Longrightarrow> text_ok bls (impl_merge h fi add im) = text_ok bls im"
  by (cases "map_of (canonical_cache im) h") (simp_all add: impl_merge_found impl_merge_new text_ok_def)

lemma symbols_merge: "frames_context add im \<Longrightarrow> im_symbols (impl_merge h fi add im) = im_symbols im"
  by (cases "map_of (canonical_cache im) h") (simp_all add: impl_merge_found impl_merge_new)

lemma tables_exact_frame:
  "tables_exact hash index_of (im\<lparr>occurrences_cache := o'\<rparr>) = tables_exact hash index_of im"
  "tables_exact hash index_of (im\<lparr>im_content := t, im_line_starts := ls\<rparr>) = tables_exact hash index_of im"
  "tables_exact hash index_of (im\<lparr>im_symbols := ss\<rparr>) = tables_exact hash index_of im"
  by (simp_all add: tables_exact_def)

lemma counts_exact_frame:
  "counts_exact L K (im\<lparr>occurrences_cache := o'\<rparr>) = counts_exact L K im"
  "counts_exact L K (im\<lparr>im_content := t, im_line_starts := ls\<rparr>) = counts_exact L K im"
  "counts_exact L K (im\<lparr>im_symbols := ss\<rparr>) = counts_exact L K im"
  by (simp_all add: counts_exact_def)

lemma text_ok_clear: "text_ok bls (im\<lparr>occurrences_cache := o'\<rparr>) = text_ok bls im"
  by (simp add: text_ok_def)

text \<open>The merge on a state whose text may have been replaced before, with the cache cleared after.\<close>

lemma impl_ok_merge:
  assumes "impl_ok bls hash index_of L K im" "adds_context add old im"
  shows "impl_ok bls hash (merged_index_of (hash fi) fi im index_of) (old @ L) (K - {merged_id (hash fi) im})
           ((impl_merge (hash fi) fi add im)\<lparr>occurrences_cache := []\<rparr>)"
  using assms counts_exact_merge [OF assms(2), of L K hash index_of fi] tables_exact_merge [OF adds_frames [OF assms(2)], of hash index_of fi]
  by (simp add: impl_ok_def counts_exact_frame tables_exact_frame text_ok_clear text_ok_merge symbols_merge cache_right_def
      adds_frames)

lemma impl_ok_set_text:
  "impl_ok bls hash index_of L K im \<Longrightarrow> impl_ok bls hash index_of L K (im\<lparr>im_content := t, im_line_starts := bls t\<rparr>)"
  by (simp add: impl_ok_def counts_exact_frame tables_exact_frame text_ok_def cache_right_def)

lemma distinct_emplace_fold:
  "distinct (map fst m) \<Longrightarrow>
   distinct (map fst (fold (\<lambda>(h, s) m. case map_of m h of Some _ \<Rightarrow> m | None \<Rightarrow> m @ [(h, f s)]) es m))"
proof (induction es arbitrary: m)
  case (Cons e es)
  then show ?case by (cases e) (auto simp: map_of_eq_None_iff split: option.splits intro!: Cons.IH)
qed simp

lemma impl_ok_merge_symbols:
  "impl_ok bls hash index_of L K im \<Longrightarrow> impl_ok bls hash index_of L K (impl_merge_symbols syms im)"
  using distinct_emplace_fold [of "im_symbols im"
      "\<lambda>s. \<lparr>sym_name = sym_name s, sym_kind = sym_kind s, sym_scope = sym_scope s, sym_files = {}\<rparr>" syms]
  by (simp add: impl_ok_def impl_merge_symbols_def counts_exact_frame tables_exact_frame text_ok_def cache_right_def)

lemma impl_ok_fill_cache: "impl_ok bls hash index_of L K im \<Longrightarrow> impl_ok bls hash index_of L K (fill_cache im)"
  by (auto simp: impl_ok_def fill_cache_def counts_exact_frame tables_exact_frame text_ok_def cache_right_def)

section \<open>Save and load\<close>

lemma load_relations_fold:
  assumes "distinct (map fst (m @ es))" "\<forall>(symb, rs) \<in> set es. distinct (map fst rs)"
  shows "fold (\<lambda>(symb, rs) m. AList.update symb (emplace_into rs (case map_of m symb of None \<Rightarrow> [] | Some t \<Rightarrow> t)) m) es m
    = m @ es"
  using assms
proof (induction es arbitrary: m)
  case (Cons e es)
  obtain symb rs where e: "e = (symb, rs)" by (cases e)
  have "map_of m symb = None" "emplace_into rs [] = rs" "AList.update symb rs m = m @ [e]"
    using Cons.prems emplace_into_distinct [of "[]" rs] by (auto simp: e map_of_eq_None_iff update_new)
  then show ?case using Cons.IH [of "m @ [e]"] Cons.prems by (simp add: e)
qed simp

lemma load_relations_distinct:
  "distinct (map fst es) \<Longrightarrow> \<forall>(symb, rs) \<in> set es. distinct (map fst rs) \<Longrightarrow> load_relations es = es"
  using load_relations_fold [of "[]" es] by (simp add: load_relations_def)

lemma distinct_sort_key: "distinct (map f xs) \<Longrightarrow> distinct (map f (sort_key k xs))"
  by (simp add: distinct_map)

lemma count_refs: "fold count_ref cs (map f [0..<n]) = map (\<lambda>c. f c + count_list cs c) [0..<n]"
proof (induction cs arbitrary: f)
  case (Cons c cs)
  have "count_ref c (map f [0..<n]) = map (\<lambda>x. f x + of_bool (x = c)) [0..<n]"
    by (intro nth_equalityI) (auto simp: count_ref_def nth_list_update)
  then show ?case by (simp add: Cons.IH)
qed simp

lemma count_list_concat: "count_list (concat xss) c = sum_list (map (\<lambda>xs. count_list xs c) xss)"
  by (induction xss) simp_all

lemma uses_refs:
  "count_list (concat (map (\<lambda>(_, h). map ic_canonical (hc_includes h)) (header_contexts im))
     @ map (\<lambda>(_, c). cc_canonical c) (compilation_contexts im)) c = uses im c"
proof -
  have "count_list (map (\<lambda>(_, c). cc_canonical c) cs) c = alist_sum (compilation_uses c) cs" for cs :: "(u32 \<times> compilation_context) list"
    by (induction cs) (auto simp: alist_sum_def compilation_uses_def)
  moreover have "count_list (concat (map (\<lambda>(_, h). map ic_canonical (hc_includes h)) hs)) c = alist_sum (header_uses c) hs"
    for hs :: "(u32 \<times> header_context) list"
    by (induction hs) (auto simp: alist_sum_def header_uses_def)
  ultimately show ?thesis by (simp add: uses_def)
qed

text \<open>Writing an index and loading it gives the same index, its tables in sorted order and lost references forgotten.\<close>

lemma load_flat_flatten:
  assumes "impl_ok bls hash index_of L K im"
  shows "load_flat bls (flatten im) = im\<lparr>im_occurrences := sort_key (occ_key \<circ> fst) (im_occurrences im),
           im_relations := sort_key fst (im_relations im), canonical_ref_counts := map (uses im) [0..<max_canonical_id im],
           occurrences_cache := []\<rparr>"
proof -
  have keys: "distinct (map fst (header_contexts im))" "distinct (map fst (compilation_contexts im))"
    "distinct (map fst (canonical_cache im))" "distinct (map fst (im_symbols im))"
    "distinct (map fst (im_occurrences im))" "distinct (map fst (im_relations im))"
    using assms by (simp_all add: impl_ok_def counts_exact_def tables_exact_def tidy_def tidy_relations_def)
  have inner: "\<forall>(symb, rs) \<in> set (im_relations im). distinct (map fst rs)"
  proof safe
    fix symb rs
    assume "(symb, rs) \<in> set (im_relations im)"
    then have "rel_table (im_relations im) symb = rs" using keys(6) by (simp add: rel_table_def)
    moreover have "tidy (rel_table (im_relations im) symb)"
      using assms by (simp add: impl_ok_def tables_exact_def tidy_relations_def)
    ultimately show "distinct (map fst rs)" by (simp add: tidy_def)
  qed
  let ?refs = "concat (map (\<lambda>(_, h). map ic_canonical (hc_includes h)) (header_contexts im))
     @ map (\<lambda>(_, c). cc_canonical c) (compilation_contexts im)"
  have "fold count_ref ?refs (replicate (max_canonical_id im) 0) = map (count_list ?refs) [0..<max_canonical_id im]"
    using count_refs [of ?refs "\<lambda>_. 0" "max_canonical_id im"] by (simp add: map_replicate_trivial del: fold_append)
  also have "count_list ?refs = uses im" by (rule ext) (rule uses_refs)
  finally have counts: "fold count_ref ?refs (replicate (max_canonical_id im) 0) = map (uses im) [0..<max_canonical_id im]" .
  have starts: "im_content im \<noteq> [] \<Longrightarrow> im_line_starts im = [] \<Longrightarrow> bls (im_content im) = []"
    using assms by (auto simp: impl_ok_def text_ok_def)
  show ?thesis
    using keys inner
    by (simp add: load_flat_def flatten_def Let_def starts counts put_all_distinct load_relations_distinct
        distinct_sort_key emplace_into_distinct [of "[]", simplified] del: fold_append)
qed

end
