(* ===== verification/Merged_Index_Spec.thy ===== *)
theory Merged_Index_Spec
  imports Merged_Index_Props
begin

text \<open>
  What the merged index of a file promises: it stands for the contexts the file is seen in, each with
  the index of the file in that context. The operations refine the obvious ones on contexts, and
  queries in memory answer from the indices of the live contexts only.
\<close>

section \<open>Contexts\<close>

text \<open>
  Beside the contexts, the specification has what replacing a compilation context leaves behind: \<open>cx_lost\<close> are
  the replaced indices, one entry for each reference that was not given back since the index was loaded;
  \<open>cx_stuck\<close> are the indices left behind before that, which no context uses and which still count as live.
  Merging an index again makes it an ordinary one.
\<close>

record contexts =
  cx_headers :: "u32 \<Rightarrow> (u32 \<times> file_index) list"
  cx_compilation :: "u32 \<Rightarrow> file_index option"
  cx_lost :: "file_index list"
  cx_stuck :: "file_index set"

definition no_contexts :: contexts where
  "no_contexts = \<lparr>cx_headers = (\<lambda>_. []), cx_compilation = (\<lambda>_. None), cx_lost = [], cx_stuck = {}\<rparr>"

definition context_indices :: "contexts \<Rightarrow> file_index set" where
  "context_indices s = {fi. \<exists>path inc. (inc, fi) \<in> set (cx_headers s path)} \<union> ran (cx_compilation s)"

definition cx_remove :: "u32 \<Rightarrow> contexts \<Rightarrow> contexts" where
  "cx_remove path s = s\<lparr>cx_headers := (cx_headers s)(path := []), cx_compilation := (cx_compilation s)(path := None)\<rparr>"

definition cx_add_header :: "u32 \<Rightarrow> u32 \<Rightarrow> file_index \<Rightarrow> contexts \<Rightarrow> contexts" where
  "cx_add_header path inc fi s = s\<lparr>cx_headers := (cx_headers s)(path := cx_headers s path @ [(inc, fi)]), cx_stuck := cx_stuck s - {fi}\<rparr>"

definition cx_set_compilation :: "u32 \<Rightarrow> file_index \<Rightarrow> contexts \<Rightarrow> contexts" where
  "cx_set_compilation path fi s =
     s\<lparr>cx_compilation := (cx_compilation s)(path \<mapsto> fi),
       cx_lost := (case cx_compilation s path of None \<Rightarrow> [] | Some old \<Rightarrow> [old]) @ cx_lost s, cx_stuck := cx_stuck s - {fi}\<rparr>"

text \<open>Saving and loading forgets the lost references, but not the indices they kept alive.\<close>

definition cx_reload :: "contexts \<Rightarrow> contexts" where
  "cx_reload s = s\<lparr>cx_lost := [], cx_stuck := cx_stuck s \<union> (set (cx_lost s) - context_indices s)\<rparr>"

definition live :: "contexts \<Rightarrow> file_index set" where
  "live s = context_indices s \<union> set (cx_lost s) \<union> cx_stuck s"

lemma cx_reload_twice [simp]: "cx_reload (cx_reload s) = cx_reload s"
  by (simp add: cx_reload_def)

text \<open>The contexts an in-memory index stands for.\<close>

definition includes_of :: "(nat \<Rightarrow> file_index) \<Rightarrow> header_context \<Rightarrow> (u32 \<times> file_index) list" where
  "includes_of index_of h = map (\<lambda>i. (ic_include i, index_of (ic_canonical i))) (hc_includes h)"

definition contexts_of :: "(nat \<Rightarrow> file_index) \<Rightarrow> nat list \<Rightarrow> nat set \<Rightarrow> impl \<Rightarrow> contexts" where
  "contexts_of index_of L K im = \<lparr>
     cx_headers = (\<lambda>path. case map_of (header_contexts im) path of None \<Rightarrow> [] | Some h \<Rightarrow> includes_of index_of h),
     cx_compilation = (\<lambda>path. map_option (index_of \<circ> cc_canonical) (map_of (compilation_contexts im) path)),
     cx_lost = map index_of L, cx_stuck = index_of ` K\<rparr>"

lemma contexts_of_only:
  "header_contexts a = header_contexts b \<Longrightarrow> compilation_contexts a = compilation_contexts b \<Longrightarrow>
   contexts_of index_of L K a = contexts_of index_of L K b"
  by (simp add: contexts_of_def)

text \<open>An id is used when and only when a context of the index names it.\<close>

lemma alist_sum_pos: "distinct (map fst al) \<Longrightarrow> 0 < alist_sum f al \<longleftrightarrow> (\<exists>k v. map_of al k = Some v \<and> 0 < f v)"
proof (induction al)
  case (Cons a al)
  have "map_of al (fst a) = None" using Cons.prems by (simp add: map_of_eq_None_iff)
  then have "(\<exists>k v. map_of (a # al) k = Some v \<and> 0 < f v) \<longleftrightarrow> 0 < f (snd a) \<or> (\<exists>k v. map_of al k = Some v \<and> 0 < f v)"
    by (cases a) (auto split: if_splits, metis option.distinct(1))
  then show ?case using Cons by (simp add: alist_sum_def)
qed (simp add: alist_sum_def)

lemma header_uses_pos: "0 < header_uses c h \<longleftrightarrow> c \<in> ic_canonical ` set (hc_includes h)"
  by (simp add: header_uses_def) (metis count_list_0_iff gr0I image_set less_irrefl)

lemma uses_pos:
  assumes "counts_exact L K im"
  shows "0 < uses im c \<longleftrightarrow>
    (\<exists>path h. map_of (header_contexts im) path = Some h \<and> c \<in> ic_canonical ` set (hc_includes h))
    \<or> (\<exists>path x. map_of (compilation_contexts im) path = Some x \<and> cc_canonical x = c)"
  using assms alist_sum_pos [of "header_contexts im" "header_uses c"]
    alist_sum_pos [of "compilation_contexts im" "compilation_uses c"]
  by (simp add: counts_exact_def uses_def header_uses_pos compilation_uses_def)

lemma used_in_range:
  assumes "counts_exact L K im" "0 < uses im c \<or> c \<in> set L \<or> c \<in> K" shows "c < max_canonical_id im"
proof (rule ccontr)
  assume "\<not> c < max_canonical_id im"
  then have "refs L im c = 0" "c \<notin> K" using assms(1) by (auto simp: counts_exact_def)
  then show False using assms(2) by (auto simp: refs_def count_list_0_iff)
qed

lemma context_indices_of:
  assumes "counts_exact L K im"
  shows "context_indices (contexts_of index_of L K im) = index_of ` {c. 0 < uses im c}"
  unfolding uses_pos [OF assms]
  by (auto simp: context_indices_def contexts_of_def includes_of_def ran_def image_iff split: option.splits) metis+

lemma live_contexts_of:
  assumes "counts_exact L K im"
  shows "live (contexts_of index_of L K im) = index_of ` {c. c < max_canonical_id im \<and> c \<notin> im_removed im}"
proof -
  have "{c. c < max_canonical_id im \<and> c \<notin> im_removed im} = {c. 0 < uses im c} \<union> set L \<union> K"
    using assms used_in_range [OF assms] by (auto simp: counts_exact_def refs_def count_list_0_iff)
  then show ?thesis by (simp only: live_def context_indices_of [OF assms] image_Un) (simp add: contexts_of_def)
qed

section \<open>Refinement of the modifications\<close>

lemma contexts_of_cong:
  assumes "counts_exact L K im" "\<And>c. c < max_canonical_id im \<Longrightarrow> f c = g c"
  shows "contexts_of f L K im = contexts_of g L K im"
proof -
  have same: "f c = g c" if "0 < uses im c \<or> c \<in> set L \<or> c \<in> K" for c using assms(2) used_in_range [OF assms(1) that] .
  then have "includes_of f h = includes_of g h" if "map_of (header_contexts im) path = Some h" for path h
    using that uses_pos [OF assms(1)] by (fastforce simp: includes_of_def)
  moreover have "map_option (f \<circ> cc_canonical) (map_of (compilation_contexts im) path)
      = map_option (g \<circ> cc_canonical) (map_of (compilation_contexts im) path)" for path
  proof (cases "map_of (compilation_contexts im) path")
    case (Some x)
    then have "0 < uses im (cc_canonical x)" unfolding uses_pos [OF assms(1)] by blast
    with same Some show ?thesis by simp
  qed simp
  moreover have "map f L = map g L" "f ` K = g ` K" using same by (simp_all cong: image_cong)
  ultimately show ?thesis by (auto simp: contexts_of_def fun_eq_iff split: option.splits)
qed

lemma contexts_of_empty: "contexts_of index_of [] {} empty_impl = no_contexts"
  by (simp add: contexts_of_def empty_impl_def no_contexts_def)

text \<open>What adding a context does, when the ids at hand stand for different indices.\<close>

lemma image_minus: "inj_on f (insert c K) \<Longrightarrow> f ` (K - {c}) = f ` K - {f c}"
  by (auto simp: inj_on_def)

lemma contexts_of_add_header:
  assumes "inj_on index_of (insert c K)"
  shows "contexts_of index_of ([] @ L) (K - {c}) (add_header_context path inc c im) = cx_add_header path inc (index_of c) (contexts_of index_of L K im)"
  using image_minus [OF assms]
  by (auto simp: contexts_of_def add_header_context_def Let_def cx_add_header_def includes_of_def update_conv' fun_eq_iff
      split: option.splits)

lemma contexts_of_set_compilation:
  assumes "inj_on index_of (insert c K)"
  shows "contexts_of index_of (replaced path im @ L) (K - {c}) (set_compilation_context path built locs c im)
    = cx_set_compilation path (index_of c) (contexts_of index_of L K im)"
  using image_minus [OF assms]
  by (auto simp: contexts_of_def set_compilation_context_def Let_def cx_set_compilation_def update_conv' fun_eq_iff replaced_def
      split: option.splits)

lemma contexts_of_remove:
  assumes "counts_exact L K im"
  shows "contexts_of index_of L K (impl_remove path im) = cx_remove path (contexts_of index_of L K im)"
proof -
  have h: "header_contexts (impl_remove path im) = AList.delete path (header_contexts im)"
    "compilation_contexts (impl_remove path im) = AList.delete path (compilation_contexts im)"
    using delete_other [of path "header_contexts im"] delete_other [of path "compilation_contexts im"]
      fold_drop_ref_contexts [of "[_]" "drop_header path im"]
    by (auto simp: impl_remove_eq drop_compilation_def drop_header_def fold_drop_ref_contexts drop_ref_def Let_def
        map_of_eq_None_iff split: option.splits)
  then show ?thesis
    by (auto simp: contexts_of_def cx_remove_def h delete_conv' fun_eq_iff)
qed

lemma tables_exact_inj: "tables_exact hash index_of im \<Longrightarrow> inj_on index_of {..<max_canonical_id im}"
  unfolding tables_exact_def inj_on_def by (metis lessThan_iff option.inject)

text \<open>A merge adds its context with the index itself, when no other index has the same hash.\<close>

lemma contexts_of_merge:
  assumes ok: "impl_ok bls hash index_of L K im" and add: "adds_context add old im"
    and spec: "\<And>f c. inj_on f (insert c K) \<Longrightarrow> contexts_of f (old @ L) (K - {c}) (add c im) = cx (f c) (contexts_of f L K im)"
    and inj: "\<And>c. c < max_canonical_id im \<Longrightarrow> hash (index_of c) = hash fi \<Longrightarrow> index_of c = fi"
  shows "contexts_of (merged_index_of (hash fi) fi im index_of) (old @ L) (K - {merged_id (hash fi) im}) (impl_merge (hash fi) fi add im)
    = cx fi (contexts_of index_of L K im)"
proof -
  have counts: "counts_exact L K im" and tables: "tables_exact hash index_of im" using ok by (simp_all add: impl_ok_def)
  have K: "K \<subseteq> {..<max_canonical_id im}" using counts by (auto simp: counts_exact_def)
  let ?f = "merged_index_of (hash fi) fi im index_of" and ?c = "merged_id (hash fi) im"
  have "insert ?c K \<subseteq> {..<max_canonical_id (impl_merge (hash fi) fi add im)}"
    using K tables by (cases "map_of (canonical_cache im) (hash fi)")
      (auto simp: merged_id_def impl_merge_new [OF adds_frames [OF add]] impl_merge_found [OF adds_frames [OF add]] tables_exact_def)
  then have I: "inj_on ?f (insert ?c K)"
    using tables_exact_inj [OF tables_exact_merge [OF adds_frames [OF add] tables]] inj_on_subset by blast
  have "contexts_of ?f (old @ L) (K - {?c}) (impl_merge (hash fi) fi add im) = contexts_of ?f (old @ L) (K - {?c}) (add ?c im)"
    by (cases "map_of (canonical_cache im) (hash fi)"; rule contexts_of_only)
      (simp_all add: impl_merge_new [OF adds_frames [OF add]] impl_merge_found [OF adds_frames [OF add]] merged_id_def)
  also have "\<dots> = cx (?f ?c) (contexts_of ?f L K im)" by (rule spec [OF I])
  also have "contexts_of ?f L K im = contexts_of index_of L K im"
    by (rule contexts_of_cong [OF counts]) (simp add: merged_index_of_def split: option.splits)
  also have "?f ?c = fi"
  proof (cases "map_of (canonical_cache im) (hash fi)")
    case (Some c)
    have "index_of c = fi" using Some tables by (intro inj) (simp_all add: tables_exact_def)
    then show ?thesis by (simp add: merged_index_of_def merged_id_def Some)
  qed (simp add: merged_index_of_def merged_id_def)
  finally show ?thesis .
qed

section \<open>Queries in memory\<close>

lemma all_removed_iff: "cs \<noteq> {} \<Longrightarrow> all_removed im cs \<longleftrightarrow> cs \<subseteq> im_removed im"
  by (auto simp: all_removed_def)

lemma visit_matching_all: "visit_matching m (\<lambda>_. True) xs = filter m xs"
  by (induction xs) simp_all

lemma visit_matching_prefix: "\<exists>ys. filter m xs = visit_matching m callback xs @ ys"
  by (induction xs) auto

lemma kind_and_eq: "kind_and a b \<longleftrightarrow> a = b"
  by (cases a; cases b) (simp_all add: kind_and_def)

lemma shown_iff:
  assumes "counts_exact L K im" "cs = {c. c < max_canonical_id im \<and> P (index_of c)}" "cs \<noteq> {}"
  shows "\<not> all_removed im cs \<longleftrightarrow> (\<exists>fi \<in> live (contexts_of index_of L K im). P fi)"
  unfolding all_removed_iff [OF assms(3)] live_contexts_of [OF assms(1)] using assms(2) by blast

text \<open>The keys of a table that are shown are those of the live indices.\<close>

lemma tidy_entry:
  assumes "tidy m" shows "(k, s) \<in> set m \<longleftrightarrow> s = ids m k \<and> s \<noteq> {}"
proof -
  have "(k, s) \<in> set m \<longleftrightarrow> map_of m k = Some s" using assms by (simp add: tidy_def)
  then show ?thesis using assms by (cases "map_of m k") (auto simp: tidy_def ids_def simp del: map_of_eq_Some_iff)
qed

lemma shown_key:
  assumes "tidy m"
  shows "k \<in> fst ` {(k, cs) \<in> set m. \<not> all_removed im cs} \<longleftrightarrow> ids m k \<noteq> {} \<and> \<not> all_removed im (ids m k)"
  by (force simp: tidy_entry [OF assms])

lemma shown_keys:
  assumes "counts_exact L K im" "tidy m" "\<And>k. ids m k = {c. c < max_canonical_id im \<and> P (index_of c) k}"
  shows "fst ` {(k, cs) \<in> set m. \<not> all_removed im cs} = {k. \<exists>fi \<in> live (contexts_of index_of L K im). P fi k}"
proof (rule set_eqI)
  fix k
  have "k \<in> fst ` {(k, cs) \<in> set m. \<not> all_removed im cs} \<longleftrightarrow> ids m k \<noteq> {} \<and> \<not> all_removed im (ids m k)"
    by (rule shown_key [OF assms(2)])
  moreover have "ids m k = {} \<Longrightarrow> \<not> (\<exists>fi \<in> live (contexts_of index_of L K im). P fi k)"
    using assms(3) [of k] by (auto simp: live_contexts_of [OF assms(1)])
  ultimately show "k \<in> fst ` {(k, cs) \<in> set m. \<not> all_removed im cs} \<longleftrightarrow> k \<in> {k. \<exists>fi \<in> live (contexts_of index_of L K im). P fi k}"
    using shown_iff [OF assms(1) assms(3), of k] by auto
qed

lemma lookup_relations_in_memory:
  assumes "impl_ok bls hash index_of L K im"
  shows "set (mi_lookup_relations symb kind (\<lambda>_. True) \<lparr>mi_buffer = b, mi_impl = Some im\<rparr>)
    = {r. rel_kind r = kind \<and> (\<exists>fi \<in> live (contexts_of index_of L K im). has_relation fi symb r)}"
proof -
  have "mi_lookup_relations symb kind (\<lambda>_. True) \<lparr>mi_buffer = b, mi_impl = Some im\<rparr>
      = filter (\<lambda>r. rel_kind r = kind) (map fst (filter (\<lambda>(r, cs). \<not> all_removed im cs) (rel_table (im_relations im) symb)))"
    by (simp add: mi_lookup_relations_def rel_table_def visit_matching_all kind_and_eq split: option.splits)
  moreover have "fst ` {(r, cs) \<in> set (rel_table (im_relations im) symb). \<not> all_removed im cs}
      = {r. \<exists>fi \<in> live (contexts_of index_of L K im). has_relation fi symb r}"
    using assms by (intro shown_keys) (simp_all add: impl_ok_def tables_exact_def tidy_relations_def)
  ultimately show ?thesis by auto
qed

section \<open>The bisection of the occurrences\<close>

lemma lower_bound_loop_point:
  assumes "\<And>i j. i \<le> j \<Longrightarrow> j < length xs \<Longrightarrow> left (xs ! j) \<Longrightarrow> left (xs ! i)" "first + len \<le> length xs"
    "\<And>i. i < first \<Longrightarrow> left (xs ! i)" "\<And>i. first + len \<le> i \<Longrightarrow> i < length xs \<Longrightarrow> \<not> left (xs ! i)"
  shows "let n = lower_bound_loop left xs first len in
    n \<le> length xs \<and> (\<forall>i < n. left (xs ! i)) \<and> (\<forall>i. n \<le> i \<longrightarrow> i < length xs \<longrightarrow> \<not> left (xs ! i))"
  using assms
proof (induction left xs first len rule: lower_bound_loop.induct)
  case (1 left xs first len)
  show ?case
  proof (cases "len = 0")
    case True
    then show ?thesis using 1(4-6) by (simp add: lower_bound_loop.simps)
  next
    case False
    let ?mid = "first + len div 2"
    have mid: "?mid < length xs" using 1(4) False by auto
    show ?thesis
    proof (cases "left (xs ! ?mid)")
      case True
      have "i < ?mid + 1 \<Longrightarrow> left (xs ! i)" for i using 1(3) [of i ?mid] mid True by simp
      with 1(1) [OF False refl refl True 1(3)] 1(4-6) False True show ?thesis
        by (subst lower_bound_loop.simps) (auto simp: Let_def)
    next
      case False
      have "?mid \<le> i \<Longrightarrow> i < length xs \<Longrightarrow> \<not> left (xs ! i)" for i using 1(3) [of ?mid i] False by blast
      with 1(2) [OF \<open>len \<noteq> 0\<close> refl refl False 1(3)] 1(4-6) False \<open>len \<noteq> 0\<close> mid show ?thesis
        by (subst lower_bound_loop.simps) (auto simp: Let_def)
    qed
  qed
qed

lemma lower_bound_point:
  assumes "\<And>i j. i \<le> j \<Longrightarrow> j < length xs \<Longrightarrow> left (xs ! j) \<Longrightarrow> left (xs ! i)"
  shows "lower_bound left xs \<le> length xs" "i < lower_bound left xs \<Longrightarrow> left (xs ! i)"
    "lower_bound left xs \<le> i \<Longrightarrow> i < length xs \<Longrightarrow> \<not> left (xs ! i)"
  using lower_bound_loop_point [of xs left 0 "length xs"] assms by (simp_all add: lower_bound_def Let_def)

lemma visit_while_all: "visit_while inside skip (\<lambda>_. True) xs = filter (\<lambda>x. \<not> skip x) (takeWhile inside xs)"
  by (induction xs) simp_all

text \<open>No range of the list begins before another one and ends after it.\<close>

definition unnested :: "occurrence set \<Rightarrow> bool" where
  "unnested S \<longleftrightarrow> (\<forall>x \<in> S. \<forall>y \<in> S.
     r_begin (occ_range x) < r_begin (occ_range y) \<longrightarrow> r_end (occ_range x) \<le> r_end (occ_range y))"

lemma occ_key_le: "occ_key x \<le> occ_key y \<Longrightarrow> r_begin (occ_range x) \<le> r_begin (occ_range y)"
  by (auto simp: occ_key_def less_eq_prod_def)

lemma ends_sorted:
  assumes "unnested (set os)" "x \<in> set os" "y \<in> set os" "occ_key x \<le> occ_key y"
  shows "r_end (occ_range x) \<le> r_end (occ_range y)"
  using assms by (auto simp: unnested_def occ_key_def less_eq_prod_def)

lemma takeWhile_contains:
  assumes "sorted (map occ_key os)" "\<forall>x \<in> set os. offset \<le> r_end (occ_range x)"
  shows "takeWhile (\<lambda>x. contains (occ_range x) offset) os = filter (\<lambda>x. contains (occ_range x) offset) os"
  using assms
proof (induction os)
  case (Cons x os)
  have "\<not> contains (occ_range x) offset \<Longrightarrow> \<not> contains (occ_range y) offset" if "y \<in> set os" for y
    using Cons.prems that occ_key_le [of x y] by (auto simp: contains_def)
  then show ?case using Cons by (auto simp: filter_empty_conv)
qed simp

text \<open>On sorted occurrences without nested ranges the bisection finds every one that contains the offset.\<close>

lemma lookup_occurrence_exact:
  assumes "sorted (map occ_key os)" "unnested (set os)"
  shows "lookup_occurrence skip offset (\<lambda>_. True) os = filter (\<lambda>x. contains (occ_range x) offset \<and> \<not> skip x) os"
proof -
  let ?left = "\<lambda>x. r_end (occ_range x) < offset"
  let ?n = "lower_bound ?left os"
  have "i \<le> j \<Longrightarrow> j < length os \<Longrightarrow> ?left (os ! j) \<Longrightarrow> ?left (os ! i)" for i j
    using ends_sorted [OF assms(2), of "os ! i" "os ! j"] sorted_nth_mono [OF assms(1), of i j] by (auto dest: le_less_trans)
  note point = lower_bound_point [of os ?left, OF this]
  have "x \<in> set (take ?n os) \<Longrightarrow> \<not> contains (occ_range x) offset" for x
    using point(1,2) by (auto simp: in_set_conv_nth contains_def not_le)
  then have before: "filter (\<lambda>x. contains (occ_range x) offset \<and> \<not> skip x) (take ?n os) = []"
    by (auto simp: filter_empty_conv)
  have "x \<in> set (drop ?n os) \<Longrightarrow> offset \<le> r_end (occ_range x)" for x
    using point(1,3) by (auto simp: in_set_conv_nth not_less)
  then have "takeWhile (\<lambda>x. contains (occ_range x) offset) (drop ?n os) = filter (\<lambda>x. contains (occ_range x) offset) (drop ?n os)"
    using assms(1) by (intro takeWhile_contains) (auto simp: drop_map [symmetric] sorted_wrt_drop)
  then have "lookup_occurrence skip offset (\<lambda>_. True) os = filter (\<lambda>x. contains (occ_range x) offset \<and> \<not> skip x) (drop ?n os)"
    by (simp add: lookup_occurrence_def visit_while_all conj_commute)
  also have "\<dots> = filter (\<lambda>x. contains (occ_range x) offset \<and> \<not> skip x) (take ?n os @ drop ?n os)"
    unfolding filter_append before by simp
  finally show ?thesis by simp
qed

lemma lookup_in_memory:
  assumes ok: "impl_ok bls hash index_of L K im" and nest: "unnested (fst ` set (im_occurrences im))"
  shows "set (fst (mi_lookup offset (\<lambda>_. True) \<lparr>mi_buffer = b, mi_impl = Some im\<rparr>))
    = {x. contains (occ_range x) offset \<and> (\<exists>fi \<in> live (contexts_of index_of L K im). x \<in> set (fi_occurrences fi))}"
proof -
  let ?m = "im_occurrences im"
  let ?skip = "\<lambda>x. case map_of ?m x of None \<Rightarrow> False | Some cs \<Rightarrow> all_removed im cs"
  have t: "tidy ?m" using ok by (simp add: impl_ok_def tables_exact_def)
  have fill: "im_occurrences (fill_cache im) = ?m" "im_removed (fill_cache im) = im_removed im"
    "occurrences_cache (fill_cache im) = sort_key occ_key (map fst ?m)"
    using ok by (auto simp: fill_cache_def impl_ok_def cache_right_def)
  have rem: "all_removed (fill_cache im) = all_removed im" by (simp add: all_removed_def fun_eq_iff fill)
  have "fst (mi_lookup offset (\<lambda>_. True) \<lparr>mi_buffer = b, mi_impl = Some im\<rparr>)
      = filter (\<lambda>x. contains (occ_range x) offset \<and> \<not> ?skip x) (sort_key occ_key (map fst ?m))"
    using nest unfolding mi_lookup_def Let_def merged_index.simps option.case fill rem fst_conv
    by (intro lookup_occurrence_exact) simp_all
  moreover have "{x \<in> fst ` set ?m. \<not> ?skip x} = fst ` {(x, cs) \<in> set ?m. \<not> all_removed im cs}"
  proof -
    have "?skip x = all_removed im cs" if "(x, cs) \<in> set ?m" for x cs
      using t that by (simp add: tidy_def map_of_is_SomeI)
    then show ?thesis by force
  qed
  moreover have "\<dots> = {x. \<exists>fi \<in> live (contexts_of index_of L K im). x \<in> set (fi_occurrences fi)}"
    using ok by (intro shown_keys) (simp_all add: impl_ok_def tables_exact_def)
  ultimately show ?thesis by auto
qed

end
