(* ===== verification/Merged_Index_Steps.thy ===== *)
theory Merged_Index_Steps
  imports Merged_Index_Spec
begin

text \<open>
  The life of a merged index: any sequence of merges, removals, queries, saves and loads, with main files that are
  merged again without a removal, as the indexer does. The index always stands for the contexts that were added
  and not removed and for what replacing a compilation context leaves behind.
\<close>

section \<open>What an index stands for\<close>

text \<open>\<open>known\<close> is the set of all the indices merged so far, removed or not.\<close>

definition represents :: "(string \<Rightarrow> u32 list) \<Rightarrow> (file_index \<Rightarrow> u8 list) \<Rightarrow> (nat \<Rightarrow> file_index) \<Rightarrow> nat list \<Rightarrow> nat set \<Rightarrow> impl
    \<Rightarrow> contexts \<Rightarrow> file_index set \<Rightarrow> bool" where
  "represents bls hash index_of L K im s known \<longleftrightarrow>
     impl_ok bls hash index_of L K im \<and> contexts_of index_of L K im = s \<and> index_of ` {..<max_canonical_id im} = known"

definition stands_for :: "(string \<Rightarrow> u32 list) \<Rightarrow> (file_index \<Rightarrow> u8 list) \<Rightarrow> merged_index
    \<Rightarrow> contexts \<Rightarrow> file_index set \<Rightarrow> bool" where
  "stands_for bls hash mi s known \<longleftrightarrow>
     (case mi_impl mi of
        Some im \<Rightarrow> mi_buffer mi = None \<and> (\<exists>index_of L K. represents bls hash index_of L K im s known)
      | None \<Rightarrow>
          case mi_buffer mi of
            Some fl \<Rightarrow> \<exists>im index_of L K s0. represents bls hash index_of L K im s0 known \<and> fl = flatten im \<and> s = cx_reload s0
          | None \<Rightarrow> s = no_contexts \<and> known = {})"

text \<open>Sorting the tables changes nothing.\<close>

lemma map_of_sort_key: "distinct (map fst m) \<Longrightarrow> map_of (sort_key k m) = map_of m"
  by (rule map_of_inject_set [THEN iffD2]) (simp_all add: distinct_map)

text \<open>Sorting the tables, as saving does, and reading them back keeps them exact.\<close>

lemma tables_exact_reload:
  assumes "tables_exact hash index_of im"
  shows "tables_exact hash index_of (load_flat bls (flatten im))"
proof -
  let ?im = "load_flat bls (flatten im)"
  have t: "tidy (im_occurrences im)" "tidy_relations (im_relations im)" "distinct (map fst (canonical_cache im))"
    using assms by (simp_all add: tables_exact_def)
  have inner: "\<forall>(symb, rs) \<in> set (im_relations im). distinct (map fst rs)"
  proof safe
    fix symb rs
    assume "(symb, rs) \<in> set (im_relations im)"
    then have "rel_table (im_relations im) symb = rs" using t by (simp add: rel_table_def tidy_relations_def)
    then show "distinct (map fst rs)" using t(2) by (metis tidy_def tidy_relations_def)
  qed
  have f: "im_occurrences ?im = sort_key (occ_key \<circ> fst) (im_occurrences im)"
    "im_relations ?im = sort_key fst (im_relations im)" "canonical_cache ?im = canonical_cache im"
    "max_canonical_id ?im = max_canonical_id im"
    using t inner
    by (simp_all add: emplace_into_distinct [of "[]", simplified] load_flat_def flatten_def Let_def tidy_def tidy_relations_def load_relations_distinct distinct_sort_key)
  have maps: "map_of (im_occurrences ?im) = map_of (im_occurrences im)" "map_of (im_relations ?im) = map_of (im_relations im)"
    using t by (simp_all add: f map_of_sort_key tidy_def tidy_relations_def)
  have tables: "ids (im_occurrences ?im) = ids (im_occurrences im)" "rel_table (im_relations ?im) = rel_table (im_relations im)"
    by (simp_all only: ids_def [abs_def] rel_table_def [abs_def] maps)
  have "tidy (im_occurrences ?im)" "tidy_relations (im_relations ?im)"
    using t maps tables by (auto simp: tidy_def tidy_relations_def f distinct_sort_key)
  then show ?thesis using assms unfolding tables_exact_def tables f(3,4) by simp
qed

lemma represents_reload:
  assumes "represents bls hash index_of L K im s known"
  shows "represents bls hash index_of [] (K \<union> {c \<in> set L. uses im c = 0}) (load_flat bls (flatten im)) (cx_reload s) known"
proof -
  let ?im = "load_flat bls (flatten im)" and ?K = "K \<union> {c \<in> set L. uses im c = 0}"
  have ok: "impl_ok bls hash index_of L K im" and s: "contexts_of index_of L K im = s"
    and known: "index_of ` {..<max_canonical_id im} = known" using assms by (simp_all add: represents_def)
  then have counts: "counts_exact L K im" and tables: "tables_exact hash index_of im" by (simp_all add: impl_ok_def)
  note load = load_flat_flatten [OF ok]
  have uses: "uses ?im = uses im" unfolding load by (rule uses_contexts_only) simp_all
  have "counts_exact [] ?K ?im"
    using counts used_in_range [OF counts] unfolding counts_exact_def refs_def uses
    by (auto simp: load count_list_0_iff intro!: arg_cong [of _ _ "\<lambda>f. map f _"])
  with tables_exact_reload [OF tables, of bls] have "impl_ok bls hash index_of [] ?K ?im"
    using ok unfolding load by (simp add: impl_ok_def text_ok_def cache_right_def)
  moreover have "contexts_of index_of [] ?K ?im = cx_reload s"
  proof -
    have "inj_on index_of {..<max_canonical_id im}" by (rule tables_exact_inj [OF tables])
    then have "index_of c \<in> index_of ` {c. 0 < uses im c} \<longleftrightarrow> 0 < uses im c" if "c \<in> set L" for c
      using used_in_range [OF counts] that by (auto simp: inj_on_def)
    then have "index_of ` {c \<in> set L. uses im c = 0} = index_of ` set L - index_of ` {c. 0 < uses im c}" by fastforce
    then have "index_of ` ?K = cx_stuck s \<union> (set (cx_lost s) - context_indices s)"
      unfolding s [symmetric] context_indices_of [OF counts] by (simp add: contexts_of_def image_Un)
    then show ?thesis unfolding cx_reload_def s [symmetric] by (simp add: contexts_of_def load)
  qed
  moreover have "max_canonical_id ?im = max_canonical_id im" unfolding load by simp
  ultimately show ?thesis using known unfolding represents_def by simp
qed

lemma represents_empty: "represents bls hash index_of [] {} empty_impl no_contexts {}"
  by (simp add: represents_def impl_ok_empty contexts_of_empty) (simp add: empty_impl_def)

lemma load_in_memory_stands_for:
  assumes "stands_for bls hash mi s known"
  obtains im index_of L K where "load_in_memory bls mi = \<lparr>mi_buffer = None, mi_impl = Some im\<rparr>"
    "represents bls hash index_of L K im s known"
proof (cases "mi_impl mi")
  case (Some im)
  then have "load_in_memory bls mi = \<lparr>mi_buffer = None, mi_impl = Some im\<rparr>" "\<exists>f L K. represents bls hash f L K im s known"
    using assms by (auto simp: stands_for_def load_in_memory_def)
  then show ?thesis using that by blast
next
  case None
  show ?thesis
  proof (cases "mi_buffer mi")
    case None
    then show ?thesis using assms \<open>mi_impl mi = None\<close> represents_empty
      by (intro that [of empty_impl]) (auto simp: stands_for_def load_in_memory_def)
  next
    case (Some fl)
    then obtain im index_of L K s0 where im: "represents bls hash index_of L K im s0 known" "fl = flatten im" "s = cx_reload s0"
      using assms None by (auto simp: stands_for_def)
    show ?thesis using None Some represents_reload [OF im(1)] im(2,3)
      by (intro that [of "load_flat bls fl"]) (simp_all add: load_in_memory_def)
  qed
qed

lemma stands_for_modify:
  assumes "stands_for bls hash mi s known"
    and "\<And>im index_of L K. represents bls hash index_of L K im s known \<Longrightarrow> \<exists>g L K. represents bls hash g L K (f im) s' known'"
  shows "stands_for bls hash (modify bls f mi) s' known'"
proof -
  obtain im index_of L K where im: "load_in_memory bls mi = \<lparr>mi_buffer = None, mi_impl = Some im\<rparr>"
    "represents bls hash index_of L K im s known"
    using load_in_memory_stands_for [OF assms(1)] .
  have "\<exists>g L K. represents bls hash g L K (f im) s' known'" using assms(2) [OF im(2)] .
  then show ?thesis by (simp add: modify_def im(1) stands_for_def)
qed

section \<open>Every operation on contexts\<close>

lemma represents_remove:
  assumes "represents bls hash index_of L K im s known"
  shows "represents bls hash index_of L K (impl_remove path im) (cx_remove path s) known"
proof -
  have "same_tables (drop_compilation path (drop_header path im)) im"
    by (rule same_tables_trans [OF same_tables_drop(2) same_tables_drop(1)])
  then have "max_canonical_id (impl_remove path im) = max_canonical_id im"
    unfolding impl_remove_eq same_tables_def by (metis impl.select_convs(6) impl.surjective impl.update_convs(3-5,7,8,12))
  then show ?thesis
    using assms impl_ok_remove [of bls hash index_of L K im path] contexts_of_remove [of L K im index_of path]
    by (auto simp: represents_def impl_ok_def)
qed

lemma represents_symbols:
  assumes "represents bls hash index_of L K im s known"
  shows "represents bls hash index_of L K (impl_merge_symbols syms im) s known"
proof -
  have "contexts_of index_of L K (impl_merge_symbols syms im) = contexts_of index_of L K im"
    by (rule contexts_of_only) (simp_all add: impl_merge_symbols_def)
  moreover have "max_canonical_id (impl_merge_symbols syms im) = max_canonical_id im" by (simp add: impl_merge_symbols_def)
  ultimately show ?thesis using assms impl_ok_merge_symbols by (simp add: represents_def)
qed

lemma represents_fill_cache:
  assumes "represents bls hash index_of L K im s known"
  shows "represents bls hash index_of L K (fill_cache im) s known"
proof -
  have "contexts_of index_of L K (fill_cache im) = contexts_of index_of L K im"
    by (rule contexts_of_only) (simp_all add: fill_cache_def)
  moreover have "max_canonical_id (fill_cache im) = max_canonical_id im" by (simp add: fill_cache_def)
  ultimately show ?thesis using assms impl_ok_fill_cache by (simp add: represents_def)
qed

text \<open>The indices known after a merge.\<close>

lemma known_merge:
  assumes ok: "tables_exact hash index_of im" and add: "frames_context add im"
    and inj: "\<And>c. c < max_canonical_id im \<Longrightarrow> hash (index_of c) = hash fi \<Longrightarrow> index_of c = fi"
  shows "merged_index_of (hash fi) fi im index_of ` {..<max_canonical_id (impl_merge (hash fi) fi add im)}
    = insert fi (index_of ` {..<max_canonical_id im})"
proof (cases "map_of (canonical_cache im) (hash fi)")
  case None
  then show ?thesis by (auto simp: merged_index_of_def impl_merge_new [OF add None] lessThan_Suc)
next
  case (Some c)
  then have c: "c < max_canonical_id im" "hash (index_of c) = hash fi" using ok by (simp_all add: tables_exact_def)
  have "fi \<in> index_of ` {..<max_canonical_id im}" using c inj [OF c] by (intro image_eqI [of _ _ c]) simp_all
  then show ?thesis by (auto simp: merged_index_of_def Some impl_merge_found [OF add Some])
qed

lemma represents_merge:
  assumes rep: "represents bls hash index_of L K im s known" and add: "adds_context add old im"
    and spec: "\<And>f c. inj_on f (insert c K) \<Longrightarrow> contexts_of f (old @ L) (K - {c}) (add c im) = cx (f c) (contexts_of f L K im)"
    and inj: "inj_on hash (insert fi known)"
  shows "represents bls hash (merged_index_of (hash fi) fi im index_of) (old @ L) (K - {merged_id (hash fi) im})
    ((impl_merge (hash fi) fi add im)\<lparr>occurrences_cache := []\<rparr>) (cx fi s) (insert fi known)"
proof -
  have ok: "impl_ok bls hash index_of L K im" and s: "contexts_of index_of L K im = s" and k: "index_of ` {..<max_canonical_id im} = known"
    using rep by (simp_all add: represents_def)
  have inj': "index_of c = fi" if "c < max_canonical_id im" "hash (index_of c) = hash fi" for c
    using inj_onD [OF inj that(2)] k that(1) by blast
  have t: "tables_exact hash index_of im" using ok by (simp add: impl_ok_def)
  let ?im = "impl_merge (hash fi) fi add im"
  have cache: "contexts_of f L K (?im\<lparr>occurrences_cache := []\<rparr>) = contexts_of f L K ?im" for f L K by (rule contexts_of_only) simp_all
  have "max_canonical_id (?im\<lparr>occurrences_cache := []\<rparr>) = max_canonical_id ?im" by simp
  then show ?thesis unfolding represents_def cache
    using impl_ok_merge [OF ok add, of fi] contexts_of_merge [OF ok add spec inj'] known_merge [OF t adds_frames [OF add] inj']
    unfolding s k by (intro conjI) (assumption | simp only:)+
qed

lemma represents_set_text:
  assumes "represents bls hash index_of L K im s known"
  shows "represents bls hash index_of L K (im\<lparr>im_content := t, im_line_starts := bls t\<rparr>) s known"
proof -
  have "contexts_of index_of L K (im\<lparr>im_content := t, im_line_starts := bls t\<rparr>) = contexts_of index_of L K im"
    by (rule contexts_of_only) simp_all
  then show ?thesis using assms impl_ok_set_text by (simp add: represents_def)
qed

lemma represents_merge_compilation:
  assumes rep: "represents bls hash index_of L K im s known" and "inj_on hash (insert fi known)"
  shows "\<exists>g L K. represents bls hash g L K (impl_merge_compilation bls hash path built locs fi t im)
    (cx_set_compilation path fi s) (insert fi known)"
proof -
  let ?im = "im\<lparr>im_content := t, im_line_starts := bls t\<rparr>"
  note rep' = represents_set_text [OF rep, of t]
  from represents_merge [OF rep' adds_compilation contexts_of_set_compilation assms(2)]
  show ?thesis unfolding impl_merge_compilation_def by blast
qed

lemma represents_merge_header:
  assumes rep: "represents bls hash index_of L K im s known" and "inj_on hash (insert fi known)"
  shows "\<exists>g L K. represents bls hash g L K (impl_merge_header bls hash path inc fi t im) (cx_add_header path inc fi s) (insert fi known)"
proof -
  let ?im = "if im_content im = [] \<and> t \<noteq> [] then im\<lparr>im_content := t, im_line_starts := bls t\<rparr> else im"
  have "represents bls hash index_of L K ?im s known" using rep represents_set_text [OF rep] by simp
  from represents_merge [OF this adds_header contexts_of_add_header assms(2)]
  show ?thesis unfolding impl_merge_header_def by blast
qed

section \<open>The operations as steps\<close>

text \<open>
  The second component of a state is what the specification says, the third one every index merged so
  far. A main file may be merged again with or without a removal in between. Every index comes from \<open>D\<close>, on which the hash has no collisions.
\<close>

type_synonym index_state = "merged_index \<times> contexts \<times> file_index set"

definition index_init :: "(file_index \<Rightarrow> u8 list) \<Rightarrow> file_index set \<Rightarrow> index_state \<Rightarrow> bool" where
  "index_init hash D st \<longleftrightarrow> inj_on hash D \<and> st = (\<lparr>mi_buffer = None, mi_impl = None\<rparr>, no_contexts, {})"

inductive index_step :: "(string \<Rightarrow> u32 list) \<Rightarrow> (file_index \<Rightarrow> u8 list) \<Rightarrow> file_index set \<Rightarrow> index_state \<Rightarrow> index_state \<Rightarrow> bool"
  for bls hash D where
  removes: "index_step bls hash D (mi, s, known) (mi_remove bls path mi, cx_remove path s, known)"
| merges_symbols: "index_step bls hash D (mi, s, known) (merge_symbols bls syms mi, s, known)"
| merges_compilation: "fi \<in> D \<Longrightarrow>
    index_step bls hash D (mi, s, known)
      (merge_compilation bls hash path built locs fi t mi, cx_set_compilation path fi s, insert fi known)"
| merges_header: "fi \<in> D \<Longrightarrow>
    index_step bls hash D (mi, s, known)
      (merge_header bls hash path inc fi t mi, cx_add_header path inc fi s, insert fi known)"
| looks_up: "index_step bls hash D (mi, s, known) (snd (mi_lookup offset callback mi), s, known)"
| saves_and_loads: "mi_serialize mi = Some fl \<Longrightarrow> index_step bls hash D (mi, s, known) (load_file (Some fl), cx_reload s, known)"

definition index_good :: "(string \<Rightarrow> u32 list) \<Rightarrow> (file_index \<Rightarrow> u8 list) \<Rightarrow> file_index set \<Rightarrow> index_state \<Rightarrow> bool" where
  "index_good bls hash D st \<longleftrightarrow>
     (case st of (mi, s, known) \<Rightarrow> inj_on hash D \<and> known \<subseteq> D \<and> stands_for bls hash mi s known)"

lemma stands_for_lookup:
  assumes "stands_for bls hash mi s known"
  shows "stands_for bls hash (snd (mi_lookup offset callback mi)) s known"
  using assms by (auto simp: stands_for_def mi_lookup_def Let_def split: option.splits intro: represents_fill_cache)

lemma stands_for_save_load:
  assumes "stands_for bls hash mi s known" "mi_serialize mi = Some fl"
  shows "stands_for bls hash (load_file (Some fl)) (cx_reload s) known"
proof (cases "mi_impl mi")
  case (Some im)
  then have "\<exists>index_of L K. represents bls hash index_of L K im s known" "fl = flatten im"
    using assms by (auto simp: stands_for_def mi_serialize_def)
  then show ?thesis by (simp add: stands_for_def load_file_def) blast
next
  case None
  then obtain im index_of L K s0 where "represents bls hash index_of L K im s0 known" "fl = flatten im" "s = cx_reload s0"
    using assms by (auto simp: stands_for_def mi_serialize_def split: option.splits)
  then show ?thesis by (simp add: stands_for_def load_file_def) blast
qed

lemma index_good_step:
  assumes step: "index_step bls hash D st st'" and good: "index_good bls hash D st"
  shows "index_good bls hash D st'"
  using step
proof (cases rule: index_step.cases)
  case (removes mi s known path)
  then have "stands_for bls hash mi s known" using good by (simp add: index_good_def)
  then have "stands_for bls hash (mi_remove bls path mi) (cx_remove path s) known"
    unfolding mi_remove_def by (rule stands_for_modify) (blast intro: represents_remove)
  then show ?thesis using good removes by (simp add: index_good_def)
next
  case (merges_symbols mi s known syms)
  then have "stands_for bls hash mi s known" using good by (simp add: index_good_def)
  then have "stands_for bls hash (merge_symbols bls syms mi) s known"
    unfolding merge_symbols_def by (rule stands_for_modify) (blast intro: represents_symbols)
  then show ?thesis using good merges_symbols by (simp add: index_good_def)
next
  case (merges_compilation fi mi s known path built locs t)
  then have "stands_for bls hash mi s known" "inj_on hash (insert fi known)"
    using good inj_on_subset [of hash D "insert fi known"] by (simp_all add: index_good_def del: inj_on_insert)
  then have "stands_for bls hash (merge_compilation bls hash path built locs fi t mi) (cx_set_compilation path fi s) (insert fi known)"
    unfolding merge_compilation_def using merges_compilation by (blast intro: stands_for_modify represents_merge_compilation)
  then show ?thesis using good merges_compilation by (simp add: index_good_def)
next
  case (merges_header fi mi s known path inc t)
  then have "stands_for bls hash mi s known" "inj_on hash (insert fi known)"
    using good inj_on_subset [of hash D "insert fi known"] by (simp_all add: index_good_def del: inj_on_insert)
  then have "stands_for bls hash (merge_header bls hash path inc fi t mi) (cx_add_header path inc fi s) (insert fi known)"
    unfolding merge_header_def by (blast intro: stands_for_modify represents_merge_header)
  then show ?thesis using good merges_header by (simp add: index_good_def)
qed (use good in \<open>auto simp: index_good_def intro: stands_for_lookup stands_for_save_load\<close>)

interpretation merged: safe_system "index_init hash D" "index_step bls hash D" "index_good bls hash D"
proof unfold_locales
  show "index_init hash D st \<Longrightarrow> index_good bls hash D st" for st
    by (auto simp: index_init_def index_good_def stands_for_def)
qed (rule index_good_step)

text \<open>The two forms of a reached index.\<close>

lemma reached_in_memory:
  assumes "reached (index_init hash D) (index_step bls hash D) (mi, s, known)" "mi_impl mi = Some im"
  obtains index_of L K where "mi = \<lparr>mi_buffer = None, mi_impl = Some im\<rparr>" "represents bls hash index_of L K im s known"
  using merged.reached_good [OF assms(1)] assms(2)
  by (cases mi) (auto simp: index_good_def stands_for_def)

lemma reached_buffer:
  assumes "reached (index_init hash D) (index_step bls hash D) (mi, s, known)" "mi_impl mi = None" "mi_buffer mi = Some fl"
  obtains im index_of L K s0 where "mi = \<lparr>mi_buffer = Some (flatten im), mi_impl = None\<rparr>" "represents bls hash index_of L K im s0 known"
  using merged.reached_good [OF assms(1)] assms(2,3)
  by (cases mi) (auto simp: index_good_def stands_for_def)

section \<open>Queries of the flat buffer\<close>

lemma sorted_lookup:
  fixes symb :: u64 and es :: "(u64 \<times> (relation \<times> nat set) list) list"
  assumes "sorted (map fst es)" "distinct (map fst es)"
  defines "i \<equiv> lower_bound (\<lambda>(s, _). s < symb) es"
  shows "(if length es \<le> i \<or> fst (es ! i) \<noteq> symb then [] else snd (es ! i)) = rel_table es symb"
proof -
  have mono: "fst (es ! k) < symb \<Longrightarrow> fst (es ! j) < symb" if "j \<le> k" "k < length es" for j k
    using sorted_nth_mono [OF assms(1), of j k] that by auto
  have eq: "i = lower_bound (\<lambda>e. fst e < symb) es" unfolding i_def by (simp add: case_prod_beta')
  have below: "fst (es ! j) < symb" if "j < i" for j
    using lower_bound_point(2) [of es "\<lambda>e. fst e < symb" j] mono that unfolding eq by blast
  have above: "\<not> fst (es ! j) < symb" if "i \<le> j" "j < length es" for j
    using lower_bound_point(3) [of es "\<lambda>e. fst e < symb" j] mono that unfolding eq by blast
  show ?thesis
  proof (cases "symb \<in> fst ` set es")
    case True
    then obtain j where j: "j < length es" "fst (es ! j) = symb" by (auto simp: in_set_conv_nth)
    have "i \<le> j" using below [of j] j(2) by (metis less_irrefl not_le)
    then have "fst (es ! i) \<le> symb" using sorted_nth_mono [OF assms(1), of i j] j by simp
    moreover have "\<not> fst (es ! i) < symb" using above [of i] \<open>i \<le> j\<close> j(1) by simp
    ultimately have i: "i < length es" "fst (es ! i) = symb" using \<open>i \<le> j\<close> j(1) by simp_all
    then have "map_of es symb = Some (snd (es ! i))"
      using assms(2) by (metis map_of_is_SomeI nth_mem prod.collapse)
    then show ?thesis using i by (simp add: rel_table_def)
  next
    case False
    then have "map_of es symb = None" by (simp add: map_of_eq_None_iff)
    moreover have "length es \<le> i \<or> fst (es ! i) \<noteq> symb" using False by (metis image_eqI nth_mem not_le)
    ultimately show ?thesis by (simp add: rel_table_def)
  qed
qed

lemma relation_keys:
  assumes "tables_exact hash index_of im"
  shows "fst ` set (rel_table (im_relations im) symb) = {r. \<exists>fi \<in> index_of ` {..<max_canonical_id im}. has_relation fi symb r}"
proof -
  have t: "tidy (rel_table (im_relations im) symb)"
    and i: "\<And>r. ids (rel_table (im_relations im) symb) r = {c. c < max_canonical_id im \<and> has_relation (index_of c) symb r}"
    using assms by (simp_all add: tables_exact_def tidy_relations_def)
  have "r \<in> fst ` set (rel_table (im_relations im) symb) \<longleftrightarrow> (\<exists>fi \<in> index_of ` {..<max_canonical_id im}. has_relation fi symb r)" for r
    unfolding tidy_member [OF t, symmetric] i by auto
  then show ?thesis by blast
qed

lemma buffer_relations:
  assumes "distinct (map fst (im_relations im))"
  shows "mi_lookup_relations symb kind callback \<lparr>mi_buffer = Some (flatten im), mi_impl = None\<rparr>
    = visit_matching (\<lambda>r. kind_and (rel_kind r) kind) callback (map fst (rel_table (im_relations im) symb))"
proof -
  let ?es = "sort_key fst (im_relations im)"
  let ?i = "lower_bound (\<lambda>(s, _). s < symb) ?es"
  let ?t = "if length ?es \<le> ?i \<or> fst (?es ! ?i) \<noteq> symb then [] else snd (?es ! ?i)"
  have "mi_lookup_relations symb kind callback \<lparr>mi_buffer = Some (flatten im), mi_impl = None\<rparr>
      = visit_matching (\<lambda>r. kind_and (rel_kind r) kind) callback (map fst ?t)"
    by (simp add: mi_lookup_relations_def flatten_def Let_def)
  also have "?t = rel_table ?es symb" using assms by (intro sorted_lookup) (simp_all add: distinct_sort_key)
  also have "\<dots> = rel_table (im_relations im) symb" unfolding rel_table_def map_of_sort_key [OF assms] ..
  finally show ?thesis .
qed

lemma lookup_relations_buffer:
  assumes "represents bls hash index_of L K im s known"
  shows "set (mi_lookup_relations symb kind (\<lambda>_. True) \<lparr>mi_buffer = Some (flatten im), mi_impl = None\<rparr>)
    = {r. rel_kind r = kind \<and> (\<exists>fi \<in> known. has_relation fi symb r)}"
proof -
  have t: "tables_exact hash index_of im" and k: "index_of ` {..<max_canonical_id im} = known"
    using assms by (simp_all add: represents_def impl_ok_def)
  have "distinct (map fst (im_relations im))" using t by (simp add: tables_exact_def tidy_relations_def)
  then have "set (mi_lookup_relations symb kind (\<lambda>_. True) \<lparr>mi_buffer = Some (flatten im), mi_impl = None\<rparr>)
      = {r \<in> fst ` set (rel_table (im_relations im) symb). rel_kind r = kind}"
    by (auto simp: buffer_relations visit_matching_all kind_and_eq)
  then show ?thesis using relation_keys [OF t] k by auto
qed

lemma occurrences_known:
  assumes "represents bls hash index_of L K im s known"
  shows "fst ` set (im_occurrences im) = (\<Union>fi \<in> known. set (fi_occurrences fi))"
proof -
  have t: "tidy (im_occurrences im)"
    and i: "\<And>x. ids (im_occurrences im) x = {c. c < max_canonical_id im \<and> x \<in> set (fi_occurrences (index_of c))}"
    and k: "index_of ` {..<max_canonical_id im} = known"
    using assms by (simp_all add: represents_def impl_ok_def tables_exact_def)
  have "x \<in> fst ` set (im_occurrences im) \<longleftrightarrow> x \<in> (\<Union>fi \<in> known. set (fi_occurrences fi))" for x
    unfolding tidy_member [OF t, symmetric] i k [symmetric] by auto
  then show ?thesis by blast
qed

lemma sorted_flat: "sorted (map occ_key (map fst (sort_key (occ_key \<circ> fst) m)))"
  using sorted_sort_key [of "occ_key \<circ> fst" m] by (simp add: comp_def)

lemma lookup_buffer:
  assumes rep: "represents bls hash index_of L K im s known" and nest: "unnested (\<Union>fi \<in> known. set (fi_occurrences fi))"
  shows "set (fst (mi_lookup offset (\<lambda>_. True) \<lparr>mi_buffer = Some (flatten im), mi_impl = None\<rparr>))
    = {x. contains (occ_range x) offset \<and> (\<exists>fi \<in> known. x \<in> set (fi_occurrences fi))}"
proof -
  let ?os = "map fst (sort_key (occ_key \<circ> fst) (im_occurrences im))"
  have s: "set ?os = (\<Union>fi \<in> known. set (fi_occurrences fi))" using occurrences_known [OF rep] by simp
  have "fst (mi_lookup offset (\<lambda>_. True) \<lparr>mi_buffer = Some (flatten im), mi_impl = None\<rparr>)
      = filter (\<lambda>x. contains (occ_range x) offset \<and> \<not> False) ?os"
    unfolding mi_lookup_def Let_def merged_index.simps option.case flatten_def flat_index.simps fst_conv
    using nest s by (intro lookup_occurrence_exact sorted_flat) simp
  then show ?thesis using s by auto
qed

section \<open>Properties\<close>



lemma count_list_inj:
  assumes "inj_on f A" "set xs \<subseteq> A" "x \<in> A"
  shows "count_list (map f xs) (f x) = count_list xs x"
  using assms(2) by (induction xs) (use assms(1,3) in \<open>auto simp: inj_on_def\<close>)



section \<open>Indexing again without removing\<close>

lemma shown_iff_ids:
  "tidy t \<Longrightarrow> k \<in> fst ` {(k, cs) \<in> set t. \<not> all_removed im cs} \<longleftrightarrow> ids t k \<noteq> {} \<and> \<not> ids t k \<subseteq> im_removed im"
  unfolding shown_key using all_removed_iff [of "ids t k" im] by blast

lemma lookup_relations_shown:
  "set (mi_lookup_relations symb kind (\<lambda>_. True) \<lparr>mi_buffer = b, mi_impl = Some im\<rparr>) =
     {r \<in> fst ` {(r, cs) \<in> set (rel_table (im_relations im) symb). \<not> all_removed im cs}. rel_kind r = kind}"
  by (auto simp: mi_lookup_relations_def rel_table_def visit_matching_all kind_and_eq split: option.splits)

text \<open>A merge never marks an id as removed and never takes an id out of a table.\<close>

lemma merge_compilation_grows:
  fixes bls hash path built locs fi t im
  defines "im' \<equiv> impl_merge_compilation bls hash path built locs fi t im"
  shows "im_removed im' \<subseteq> im_removed im"
    and "ids (rel_table (im_relations im) symb) r \<subseteq> ids (rel_table (im_relations im') symb) r"
    and "tidy_relations (im_relations im) \<Longrightarrow> tidy_relations (im_relations im')"
  by (auto simp: im'_def impl_merge_compilation_def impl_merge_def set_compilation_context_def Let_def
      ids_add_relations tidy_add_relations_all split: option.splits)

text \<open>
  Indexing a main file again without removing its old context first, as the indexer does, keeps
  every relation of the replaced index in the answers.
\<close>

theorem reindex_keeps_stale_relations:
  assumes "reached (index_init hash D) (index_step bls hash D) (mi, s, known)" "mi_impl mi = Some im"
    and "cx_compilation s path = Some old" "has_relation old symb r"
  shows "r \<in> set (mi_lookup_relations symb (rel_kind r) (\<lambda>_. True) (merge_compilation bls hash path built locs fi t mi))"
proof -
  obtain index_of L K where mi: "mi = \<lparr>mi_buffer = None, mi_impl = Some im\<rparr>" and rep: "represents bls hash index_of L K im s known"
    using reached_in_memory [OF assms(1,2)] .
  have ok: "impl_ok bls hash index_of L K im" and s: "contexts_of index_of L K im = s" using rep by (simp_all add: represents_def)
  have tidy: "tidy_relations (im_relations im)" using ok by (simp add: impl_ok_def tables_exact_def)
  have "old \<in> live s" using assms(3) by (auto simp: live_def context_indices_def ran_def)
  then have "r \<in> set (mi_lookup_relations symb (rel_kind r) (\<lambda>_. True) mi)"
    using lookup_relations_in_memory [OF ok, of symb "rel_kind r" None] assms(4) s mi by auto
  then have shown: "ids (rel_table (im_relations im) symb) r \<noteq> {}" "\<not> ids (rel_table (im_relations im) symb) r \<subseteq> im_removed im"
    using tidy shown_iff_ids [of "rel_table (im_relations im) symb" r im]
    by (simp_all add: mi lookup_relations_shown tidy_relations_def)
  let ?im = "impl_merge_compilation bls hash path built locs fi t im"
  note grows = merge_compilation_grows [where im = im and bls = bls and hash = hash and path = path
      and built = built and locs = locs and fi = fi and t = t]
  have "ids (rel_table (im_relations ?im) symb) r \<noteq> {}" "\<not> ids (rel_table (im_relations ?im) symb) r \<subseteq> im_removed ?im"
    using shown grows(1) grows(2) [of symb r] by blast+
  moreover have "tidy (rel_table (im_relations ?im) symb)" using grows(3) [OF tidy] by (simp add: tidy_relations_def)
  ultimately show ?thesis
    by (simp add: mi merge_compilation_def modify_def load_in_memory_def lookup_relations_shown shown_iff_ids)
qed

section \<open>An example run\<close>

definition ex_file :: "u32 \<Rightarrow> u32 \<Rightarrow> file_index" where
  "ex_file b e = \<lparr>fi_relations = [(7, [\<lparr>rel_kind = Definition, rel_range = \<lparr>r_begin = b, r_end = e\<rparr>, rel_target = 0\<rparr>])],
     fi_occurrences = [\<lparr>occ_range = \<lparr>r_begin = b, r_end = e\<rparr>, occ_target = 7\<rparr>]\<rparr>"

definition ex_hash :: "file_index \<Rightarrow> u8 list" where
  "ex_hash = file_hash (\<lambda>bytes. bytes)"

definition ex_starts :: "string \<Rightarrow> u32 list" where
  "ex_starts t = [0]"

definition ex_added :: merged_index where
  "ex_added = merge_compilation ex_starts ex_hash 2 9 [] (ex_file 5 10) ''x''
     (merge_header ex_starts ex_hash 1 0 (ex_file 6 8) ''x'' \<lparr>mi_buffer = None, mi_impl = None\<rparr>)"

definition ex_contexts :: contexts where
  "ex_contexts = cx_set_compilation 2 (ex_file 5 10) (cx_add_header 1 0 (ex_file 6 8) no_contexts)"

definition ex_removed :: merged_index where
  "ex_removed = mi_remove ex_starts 1 ex_added"

definition ex_known :: "file_index set" where
  "ex_known = {ex_file 5 10, ex_file 6 8}"

lemma ex_hash_inj: "inj_on ex_hash ex_known"
proof -
  have "ex_hash (ex_file 5 10) \<noteq> ex_hash (ex_file 6 8)" by code_simp
  then show ?thesis unfolding ex_known_def by auto
qed

lemma ex_added_reached:
  "reached (index_init ex_hash ex_known) (index_step ex_starts ex_hash ex_known) (ex_added, ex_contexts, ex_known)"
proof -
  let ?mi = "\<lparr>mi_buffer = None, mi_impl = None\<rparr>" and ?fi = "ex_file 6 8" and ?fj = "ex_file 5 10"
  let ?step = "index_step ex_starts ex_hash ex_known"
  have "reached (index_init ex_hash ex_known) ?step (?mi, no_contexts, {})"
    by (rule reached_init) (simp add: index_init_def ex_hash_inj)
  moreover have "?step (?mi, no_contexts, {}) (merge_header ex_starts ex_hash 1 0 ?fi ''x'' ?mi, cx_add_header 1 0 ?fi no_contexts, insert ?fi {})"
    by (rule merges_header) (simp add: ex_known_def)
  ultimately have r: "reached (index_init ex_hash ex_known) ?step (merge_header ex_starts ex_hash 1 0 ?fi ''x'' ?mi, cx_add_header 1 0 ?fi no_contexts, insert ?fi {})"
    by (rule reached_step)
  have "?step (merge_header ex_starts ex_hash 1 0 ?fi ''x'' ?mi, cx_add_header 1 0 ?fi no_contexts, insert ?fi {})
     (ex_added, ex_contexts, insert ?fj (insert ?fi {}))"
    unfolding ex_added_def ex_contexts_def by (rule merges_compilation) (simp_all add: ex_known_def cx_add_header_def no_contexts_def)
  from reached_step [OF r this] show ?thesis by (simp add: ex_known_def)
qed

lemma ex_removed_reached:
  "reached (index_init ex_hash ex_known) (index_step ex_starts ex_hash ex_known) (ex_removed, cx_remove 1 ex_contexts, ex_known)"
  unfolding ex_removed_def by (rule reached_step [OF ex_added_reached removes])

lemma ex_in_memory: "mi_impl ex_added \<noteq> None" "mi_impl ex_removed \<noteq> None"
  by (simp_all add: ex_added_def ex_removed_def merge_compilation_def mi_remove_def modify_def load_in_memory_def Let_def
      merge_header_def)




text \<open>The main file is merged again: the reference of its first index is lost.\<close>

definition ex_again :: merged_index where
  "ex_again = merge_compilation ex_starts ex_hash 2 12 [] (ex_file 6 8) ''x'' ex_added"

lemma ex_again_reached:
  "reached (index_init ex_hash ex_known) (index_step ex_starts ex_hash ex_known)
     (ex_again, cx_set_compilation 2 (ex_file 6 8) ex_contexts, ex_known)"
proof -
  have "index_step ex_starts ex_hash ex_known (ex_added, ex_contexts, ex_known)
      (ex_again, cx_set_compilation 2 (ex_file 6 8) ex_contexts, insert (ex_file 6 8) ex_known)"
    unfolding ex_again_def by (rule merges_compilation) (simp add: ex_known_def)
  moreover have "insert (ex_file 6 8) ex_known = ex_known" by (auto simp: ex_known_def)
  ultimately show ?thesis using reached_step [OF ex_added_reached] by simp
qed

lemma ex_again_memory: "mi_impl ex_again = Some (the (mi_impl ex_again))"
  by (simp add: ex_again_def ex_added_def merge_compilation_def modify_def load_in_memory_def Let_def merge_header_def)



theorem reindex_keeps_stale_relations_witness:
  "\<lparr>rel_kind = Definition, rel_range = \<lparr>r_begin = 5, r_end = 10\<rparr>, rel_target = 0\<rparr>
    \<in> set (mi_lookup_relations 7 Definition (\<lambda>_. True)
        (merge_compilation ex_starts ex_hash 2 12 [] \<lparr>fi_relations = [], fi_occurrences = []\<rparr> [] ex_added))"
proof -
  have i: "mi_impl ex_added = Some (the (mi_impl ex_added))" using ex_in_memory by simp
  have "cx_compilation ex_contexts 2 = Some (ex_file 5 10)" by (simp add: ex_contexts_def cx_set_compilation_def)
  moreover have "has_relation (ex_file 5 10) 7 \<lparr>rel_kind = Definition, rel_range = \<lparr>r_begin = 5, r_end = 10\<rparr>, rel_target = 0\<rparr>"
    by (simp add: has_relation_def ex_file_def)
  ultimately show ?thesis using reindex_keeps_stale_relations [OF ex_added_reached i] by fastforce
qed

text \<open>
  The entries of a removed context stay in the sorted list that is bisected. Here the range
  \<open>[6, 8]\<close> of a removed context lies inside the live range \<open>[5, 10]\<close>, and the query at offset 9
  finds nothing although a live occurrence contains that offset.
\<close>

theorem removed_range_hides_live_occurrence:
  "fst (mi_lookup 9 (\<lambda>_. True) ex_removed) = []
   \<and> live (cx_remove 1 ex_contexts) = {ex_file 5 10}
   \<and> (\<exists>x. fi_occurrences (ex_file 5 10) = [x] \<and> contains (occ_range x) 9)"
proof -
  have "fst (mi_lookup 9 (\<lambda>_. True) ex_removed) = []" by code_simp
  moreover have "live (cx_remove 1 ex_contexts) = {ex_file 5 10}"
    by (auto simp: live_def context_indices_def cx_remove_def ex_contexts_def cx_set_compilation_def cx_add_header_def no_contexts_def ran_def
        split: if_splits)
  ultimately show ?thesis by (simp add: ex_file_def contains_def)
qed

end
