(* ===== verification/Project_Index.thy ===== *)
theory Project_Index
  imports Tu_Index Path_Pool
begin

text \<open>
  \<open>src/src/index/project_index.{h,cpp}\<close>: the symbols of all translation units and the pool of
  project paths. The pool has the data of the server's path pool and its own code; the contract
  \<open>intern_pool\<close> holds for it as well. The assertion that a path is not empty is not part of a release
  build. As for the other indices, the flat buffer is the table that is written.
\<close>

section \<open>The pool\<close>

definition path_id :: "string \<Rightarrow> path_pool \<Rightarrow> path_pool \<times> u32" where
  "path_id path0 pool =
     (let path = (if CHR 0x5C \<in> set path0 then map (\<lambda>c. if c = CHR 0x5C then CHR ''/'' else c) path0 else path0);
          n = of_nat (length (pool_paths pool)) in
      case pool_cache pool path of
        Some i \<Rightarrow> (pool, i)
      | None \<Rightarrow> (pool\<lparr>pool_cache := (pool_cache pool)(path \<mapsto> n), pool_paths := pool_paths pool @ [path]\<rparr>, n))"

text \<open>\<open>paths[id]\<close>; \<open>None\<close> is an access outside the vector.\<close>

definition pool_path :: "path_pool \<Rightarrow> u32 \<Rightarrow> string option" where
  "pool_path pool i = (if unat i < length (pool_paths pool) then Some (pool_paths pool ! unat i) else None)"

definition pool_find :: "path_pool \<Rightarrow> string \<Rightarrow> u32 option" where
  "pool_find pool path =
     pool_cache pool (if CHR 0x5C \<in> set path then map (\<lambda>c. if c = CHR 0x5C then CHR ''/'' else c) path else path)"

section \<open>Merging a translation unit\<close>

record project_index =
  pj_pool :: path_pool
  pj_indices :: "(u32 \<times> u32) list"
  pj_symbols :: symbol_table

definition empty_project :: project_index where
  "empty_project = \<lparr>pj_pool = empty_pool, pj_indices = [], pj_symbols = []\<rparr>"

fun intern_all :: "string list \<Rightarrow> path_pool \<Rightarrow> path_pool \<times> u32 list" where
  "intern_all [] pool = (pool, [])"
| "intern_all (p # ps) pool =
     (let (pool1, i) = path_id p pool; (pool2, is) = intern_all ps pool1 in (pool2, i # is))"

definition new_symbol :: symbol where
  "new_symbol = \<lparr>sym_name = [], sym_kind = KInvalid, sym_scope = External, sym_files = {}\<rparr>"

text \<open>
  A file id outside the map is undefined behaviour in the code: \<open>None\<close>. \<open>file_ids ! unat ref\<close> is only
  evaluated inside the map.
\<close>

definition merge_symbol :: "u32 list \<Rightarrow> u64 \<times> symbol \<Rightarrow> symbol_table option \<Rightarrow> symbol_table option" where
  "merge_symbol file_ids e syms =
     (case (e, syms) of
        (_, None) \<Rightarrow> None
      | ((h, symb), Some m) \<Rightarrow>
          if sym_scope symb \<noteq> External then Some m
          else if \<exists>ref \<in> sym_files symb. length file_ids \<le> unat ref then None
          else
            let target = (case map_of m h of None \<Rightarrow> new_symbol | Some t \<Rightarrow> t);
                target1 = (if sym_name target = [] then target\<lparr>sym_name := sym_name symb, sym_kind := sym_kind symb\<rparr> else target)
            in Some (AList.update h (target1\<lparr>sym_files := sym_files target1 \<union> (\<lambda>ref. file_ids ! unat ref) ` sym_files symb\<rparr>) m))"

definition project_merge :: "'f tu_index \<Rightarrow> project_index \<Rightarrow> (project_index \<times> u32 list) option" where
  "project_merge tu pj =
     (let (pool, file_ids) = intern_all (ig_paths (tu_graph tu)) (pj_pool pj) in
      case fold (merge_symbol file_ids) (tu_symbols tu) (Some (pj_symbols pj)) of
        None \<Rightarrow> None
      | Some m \<Rightarrow> Some (pj\<lparr>pj_pool := pool, pj_symbols := m\<rparr>, file_ids))"

section \<open>Serialisation\<close>

record flat_project =
  fp_paths :: "(string \<times> u32) list"
  fp_indices :: "(u32 \<times> u32) list"
  fp_symbols :: symbol_table

definition project_serialize :: "project_index \<Rightarrow> flat_project" where
  "project_serialize pj =
     \<lparr>fp_paths = map (\<lambda>i. (pool_paths (pj_pool pj) ! i, of_nat i)) [0..<length (pool_paths (pj_pool pj))],
      fp_indices = pj_indices pj, fp_symbols = pj_symbols pj\<rparr>"

definition load_path :: "string \<times> u32 \<Rightarrow> path_pool option \<Rightarrow> path_pool option" where
  "load_path e pool =
     (case (e, pool) of
        (_, None) \<Rightarrow> None
      | ((p, i), Some pl) \<Rightarrow>
          let k = map (\<lambda>c. if c = CHR 0x5C then CHR ''/'' else c) p in
          if length (pool_paths pl) \<le> unat i then None
          else Some (pl\<lparr>pool_paths := (pool_paths pl)[unat i := k],
                 pool_cache := (case pool_cache pl k of None \<Rightarrow> (pool_cache pl)(k \<mapsto> i) | Some _ \<Rightarrow> pool_cache pl)\<rparr>))"

text \<open>\<open>try_emplace\<close> keeps the first entry of a key, the symbols are assigned; an id outside the vector is \<open>None\<close>.\<close>

definition project_from :: "flat_project \<Rightarrow> project_index option" where
  "project_from fp =
     (case fold load_path (fp_paths fp) (Some \<lparr>pool_paths = replicate (length (fp_paths fp)) [], pool_cache = Map.empty\<rparr>) of
        None \<Rightarrow> None
      | Some pool \<Rightarrow> Some \<lparr>pj_pool = pool,
          pj_indices = emplace_into (fp_indices fp) [],
          pj_symbols = put_all (fp_symbols fp)\<rparr>)"

section \<open>The pool contract\<close>

lemma path_id_intern: "path_id = intern"
  by (intro ext) (simp add: path_id_def intern_def normalize_path_def Let_def split: option.split)

lemma pool_path_resolve: "pool_path = resolve"
  by (simp add: fun_eq_iff pool_path_def resolve_def)

lemma pool_find_cache: "pool_find pool s = pool_cache pool (normalize_path s)"
  by (simp add: pool_find_def normalize_path_def)

interpretation project_pool: intern_pool normalize_path path_id pool_path pool_ok
  "\<lambda>p. length (pool_paths p) < 2 ^ 32"
  unfolding path_id_intern pool_path_resolve by (rule pool.intern_pool_axioms)

section \<open>Well-formed projects\<close>

definition slashes_only :: "string \<Rightarrow> bool" where
  "slashes_only p \<longleftrightarrow> CHR 0x5C \<notin> set p"

definition project_ok :: "project_index \<Rightarrow> bool" where
  "project_ok pj \<longleftrightarrow> pool_ok (pj_pool pj) \<and> list_all slashes_only (pool_paths (pj_pool pj))
     \<and> distinct (map fst (pj_indices pj)) \<and> distinct (map fst (pj_symbols pj))"

lemma project_ok_empty: "project_ok empty_project"
  by (simp add: project_ok_def empty_project_def pool_ok_empty) (simp add: empty_pool_def)

lemma normalize_slashes: "slashes_only (normalize_path p)"
  by (auto simp: slashes_only_def normalize_path_def)

lemma intern_grows:
  assumes "intern s pool = (pool', i)"
  shows "length (pool_paths pool') \<le> Suc (length (pool_paths pool))"
    and "list_all slashes_only (pool_paths pool) \<Longrightarrow> list_all slashes_only (pool_paths pool')"
  using assms by (auto elim!: intern_cases simp: normalize_slashes)

text \<open>Every path of the unit gets an id that resolves to it, and earlier ids keep their paths.\<close>

lemma intern_all_ok:
  assumes "pool_ok pool" "length (pool_paths pool) + length ps \<le> 2 ^ 32" "intern_all ps pool = (pool', js)"
  shows "pool_ok pool' \<and> list_all2 (\<lambda>p i. pool_path pool' i = Some (normalize_path p)) ps js
    \<and> (\<forall>j t. pool_path pool j = Some t \<longrightarrow> pool_path pool' j = Some t)
    \<and> (list_all slashes_only (pool_paths pool) \<longrightarrow> list_all slashes_only (pool_paths pool'))
    \<and> length (pool_paths pool') \<le> length (pool_paths pool) + length ps"
  using assms
proof (induction ps arbitrary: pool pool' js)
  case (Cons p ps)
  obtain pool1 i where 1: "path_id p pool = (pool1, i)" by fastforce
  obtain js' where 2: "intern_all ps pool1 = (pool', js')" "js = i # js'"
    using Cons.prems(3) 1 by (auto split: prod.splits)
  note int = 1 [unfolded path_id_intern]
  have len: "length (pool_paths pool) < 2 ^ 32" using Cons.prems(2) by simp
  have ok: "pool_ok pool1" "pool_path pool1 i = Some (normalize_path p)"
    using project_pool.add_ok [OF Cons.prems(1) len 1] project_pool.add_get [OF Cons.prems(1) len 1] by blast+
  have room: "length (pool_paths pool1) + length ps \<le> 2 ^ 32" using intern_grows(1) [OF int] Cons.prems(2) by simp
  note IH = Cons.IH [OF ok(1) room 2(1)]
  have "pool_path pool1 j = Some t" if "pool_path pool j = Some t" for j t
    using project_pool.add_stable [OF Cons.prems(1) len 1 that] .
  then show ?case using IH ok 2(2) intern_grows [OF int] by auto
qed auto

lemma fold_merge_symbol_None: "fold (merge_symbol ids) es None = None"
  by (induction es) (auto simp: merge_symbol_def)

lemma merge_symbol_distinct:
  "merge_symbol ids e (Some m) = Some m' \<Longrightarrow> distinct (map fst m) \<Longrightarrow> distinct (map fst m')"
  by (auto simp: merge_symbol_def Let_def distinct_update split: prod.splits if_splits)

lemma fold_merge_symbol_distinct:
  "fold (merge_symbol ids) es (Some m) = Some m' \<Longrightarrow> distinct (map fst m) \<Longrightarrow> distinct (map fst m')"
proof (induction es arbitrary: m)
  case (Cons e es)
  then show ?case
    by (cases "merge_symbol ids e (Some m)") (auto simp: fold_merge_symbol_None dest: merge_symbol_distinct)
qed simp

lemma project_merge_ok:
  assumes "project_ok pj" "length (pool_paths (pj_pool pj)) + length (ig_paths (tu_graph tu)) \<le> 2 ^ 32"
    "project_merge tu pj = Some (pj', ids)"
  shows "project_ok pj'" "list_all2 (\<lambda>p i. pool_path (pj_pool pj') i = Some (normalize_path p)) (ig_paths (tu_graph tu)) ids"
    "pool_path (pj_pool pj) j = Some t \<Longrightarrow> pool_path (pj_pool pj') j = Some t"
proof -
  obtain pool where 1: "intern_all (ig_paths (tu_graph tu)) (pj_pool pj) = (pool, ids)"
    and 2: "pj' = pj\<lparr>pj_pool := pool, pj_symbols := pj_symbols pj'\<rparr>"
      "fold (merge_symbol ids) (tu_symbols tu) (Some (pj_symbols pj)) = Some (pj_symbols pj')"
    using assms(3) by (auto simp: project_merge_def split: prod.splits option.splits)
  have pool: "pj_pool pj' = pool" "pj_indices pj' = pj_indices pj" by (subst 2(1), simp)+
  have "pool_ok (pj_pool pj)" using assms(1) by (simp add: project_ok_def)
  note ok = intern_all_ok [OF this assms(2) 1]
  show "project_ok pj'" using ok assms(1) fold_merge_symbol_distinct [OF 2(2)] by (simp add: project_ok_def pool)
  show "list_all2 (\<lambda>p i. pool_path (pj_pool pj') i = Some (normalize_path p)) (ig_paths (tu_graph tu)) ids" using ok by (simp add: pool)
  show "pool_path (pj_pool pj) j = Some t \<Longrightarrow> pool_path (pj_pool pj') j = Some t" using ok by (simp add: pool)
qed

text \<open>The reference files of a symbol never shrink, and those of the unit are all there.\<close>

definition symbol_files :: "symbol_table \<Rightarrow> u64 \<Rightarrow> u32 set" where
  "symbol_files m h = (case map_of m h of None \<Rightarrow> {} | Some s \<Rightarrow> sym_files s)"

lemma merge_symbol_files:
  assumes "merge_symbol ids (h, symb) (Some m) = Some m'"
  shows "symbol_files m' x = symbol_files m x \<union> (if x = h \<and> sym_scope symb = External then (\<lambda>ref. ids ! unat ref) ` sym_files symb else {})"
  using assms by (auto simp: merge_symbol_def symbol_files_def Let_def update_conv' new_symbol_def split: if_splits option.splits)

lemma fold_merge_symbol_files:
  assumes "fold (merge_symbol ids) es (Some m) = Some m'"
  shows "symbol_files m' x = symbol_files m x
    \<union> {ids ! unat ref | ref symb. (x, symb) \<in> set es \<and> sym_scope symb = External \<and> ref \<in> sym_files symb}"
  using assms
proof (induction es arbitrary: m)
  case (Cons e es)
  obtain h symb where e: "e = (h, symb)" by (cases e)
  obtain m1 where m1: "merge_symbol ids e (Some m) = Some m1"
    using Cons.prems by (cases "merge_symbol ids e (Some m)") (auto simp: fold_merge_symbol_None)
  then have "fold (merge_symbol ids) es (Some m1) = Some m'" using Cons.prems by simp
  from Cons.IH [OF this] merge_symbol_files [OF m1 [unfolded e], of x] show ?case by (auto simp: e)
qed simp

lemma project_merge_files:
  assumes "project_merge tu pj = Some (pj', ids)"
  shows "symbol_files (pj_symbols pj') x = symbol_files (pj_symbols pj) x
    \<union> {ids ! unat ref | ref symb. (x, symb) \<in> set (tu_symbols tu) \<and> sym_scope symb = External \<and> ref \<in> sym_files symb}"
  using assms fold_merge_symbol_files [of ids "tu_symbols tu" "pj_symbols pj"]
  by (auto simp: project_merge_def split: prod.splits option.splits)

section \<open>Save and load\<close>

definition loaded_prefix :: "path_pool \<Rightarrow> nat \<Rightarrow> path_pool" where
  "loaded_prefix pool k =
     \<lparr>pool_paths = take k (pool_paths pool) @ replicate (length (pool_paths pool) - k) [],
      pool_cache = (\<lambda>s. case pool_cache pool s of None \<Rightarrow> None | Some i \<Rightarrow> if unat i < k then Some i else None)\<rparr>"

lemma replace_slashes: "slashes_only p \<Longrightarrow> map (\<lambda>c. if c = CHR 0x5C then CHR ''/'' else c) p = p"
  unfolding slashes_only_def by (induction p) auto

lemma load_path_prefix:
  assumes ok: "pool_ok pool" and "list_all slashes_only (pool_paths pool)" and k: "k < length (pool_paths pool)"
  shows "load_path (pool_paths pool ! k, of_nat k) (Some (loaded_prefix pool k)) = Some (loaded_prefix pool (Suc k))"
proof -
  let ?n = "length (pool_paths pool)" and ?p = "pool_paths pool ! k" and ?i = "of_nat k :: u32"
  have len: "?n \<le> 2 ^ 32" and look: "\<And>s i. pool_cache pool s = Some i \<longleftrightarrow> resolve pool i = Some s"
    using ok by (simp_all add: pool_ok_def)
  have u: "unat ?i = k" using k len by (simp add: unat_of_nat)
  have key: "map (\<lambda>c. if c = CHR 0x5C then CHR ''/'' else c) ?p = ?p"
    using assms(2) k by (intro replace_slashes) (simp add: list_all_length)
  have here: "pool_cache pool ?p = Some ?i" using look k u by (simp add: resolve_def)
  have only: "s = ?p" if "pool_cache pool s = Some i" "unat i = k" for s i
    using that look [of s i] k by (simp add: resolve_def)
  have "(take k (pool_paths pool) @ replicate (?n - k) [])[k := ?p] = take (Suc k) (pool_paths pool) @ replicate (?n - Suc k) []"
    using k by (intro nth_equalityI) (auto simp: nth_append nth_list_update less_Suc_eq)
  moreover have "(pool_cache (loaded_prefix pool k))(?p \<mapsto> ?i) = pool_cache (loaded_prefix pool (Suc k))"
  proof (rule ext)
    fix s
    show "((pool_cache (loaded_prefix pool k))(?p \<mapsto> ?i)) s = pool_cache (loaded_prefix pool (Suc k)) s"
    proof (cases "s = ?p")
      case True
      then show ?thesis using here u by (simp add: loaded_prefix_def)
    next
      case False
      then have "pool_cache pool s = Some i \<Longrightarrow> unat i \<noteq> k" for i using only by blast
      then show ?thesis using False by (cases "pool_cache pool s") (auto simp: loaded_prefix_def less_Suc_eq)
    qed
  qed
  moreover have "pool_cache (loaded_prefix pool k) ?p = None" using here u by (simp add: loaded_prefix_def)
  moreover have "length (pool_paths (loaded_prefix pool k)) = ?n" using k by (simp add: loaded_prefix_def)
  ultimately show ?thesis
    using k u key by (simp add: load_path_def Let_def) (simp add: loaded_prefix_def)
qed

lemma load_paths:
  assumes "pool_ok pool" "list_all slashes_only (pool_paths pool)" "k \<le> length (pool_paths pool)"
  shows "fold load_path (map (\<lambda>i. (pool_paths pool ! i, of_nat i)) [0..<k]) (Some (loaded_prefix pool 0)) = Some (loaded_prefix pool k)"
  using assms(3)
proof (induction k)
  case (Suc k)
  then show ?case using load_path_prefix [OF assms(1,2), of k] by simp
qed simp

lemma loaded_prefix_all:
  assumes "pool_ok pool" shows "loaded_prefix pool (length (pool_paths pool)) = pool"
proof -
  have "unat i < length (pool_paths pool)" if "pool_cache pool s = Some i" for s i
    using assms that by (auto simp: pool_ok_def resolve_def split: if_splits)
  then have "(\<lambda>s. case pool_cache pool s of None \<Rightarrow> None | Some i \<Rightarrow> if unat i < length (pool_paths pool) then Some i else None) = pool_cache pool"
    by (auto simp: fun_eq_iff split: option.splits)
  then show ?thesis unfolding loaded_prefix_def by simp
qed

lemma project_roundtrip_lemma:
  assumes "project_ok pj" shows "project_from (project_serialize pj) = Some pj"
proof -
  have ok: "pool_ok (pj_pool pj)" "list_all slashes_only (pool_paths (pj_pool pj))"
    and d: "distinct (map fst (pj_indices pj))" "distinct (map fst (pj_symbols pj))"
    using assms by (simp_all add: project_ok_def)
  let ?n = "length (pool_paths (pj_pool pj))"
  have start: "\<lparr>pool_paths = replicate ?n [], pool_cache = Map.empty\<rparr> = loaded_prefix (pj_pool pj) 0"
    by (auto simp: loaded_prefix_def fun_eq_iff split: option.splits)
  have "fold load_path (fp_paths (project_serialize pj)) (Some \<lparr>pool_paths = replicate ?n [], pool_cache = Map.empty\<rparr>)
      = Some (pj_pool pj)"
    unfolding start using load_paths [OF ok order_refl] by (simp add: project_serialize_def loaded_prefix_all [OF ok(1)])
  moreover have "length (fp_paths (project_serialize pj)) = ?n" by (simp add: project_serialize_def)
  ultimately show ?thesis
    using emplace_into_distinct [of "[]" "pj_indices pj"] put_all_distinct [of "pj_symbols pj"] d
    by (simp add: project_from_def) (simp add: project_serialize_def)
qed

end
