(* ===== verification/Indexer.thy ===== *)
theory Indexer
  imports Merged_Index_Steps Project_Index
begin

text \<open>
  \<open>src/src/server/compiler/indexer.{h,cpp}\<close>: merging the index of a translation unit into the
  workspace, and the queries over the project index, the shards of the files on disk and the
  sessions of open files. What comes from outside is a field of \<open>index_env\<close>: reading a file, the
  line map of \<open>kota::ipc::lsp\<close>, the URI of a path, the SHA-256 of the bytes, the modification times.
\<close>

section \<open>State\<close>

record position =
  pos_line :: u32
  pos_character :: u32

type_synonym lsp_range = "position \<times> position"

record index_env =
  env_sha256 :: "u8 list \<Rightarrow> u8 list"
  env_line_starts :: "string \<Rightarrow> u32 list"
  env_read :: "string \<Rightarrow> string option"
  env_mtime :: "string \<Rightarrow> u64 option"
  env_to_offset :: "string \<Rightarrow> u32 list \<Rightarrow> position \<Rightarrow> u32 option"
  env_to_range :: "string \<Rightarrow> u32 list \<Rightarrow> u32 \<Rightarrow> u32 \<Rightarrow> lsp_range option"
  env_to_position :: "string \<Rightarrow> u32 list \<Rightarrow> u32 \<Rightarrow> position option"
  env_uri :: "string \<Rightarrow> string option"
  env_lower :: "string \<Rightarrow> string"

record workspace =
  ws_project :: project_index
  ws_shards :: "(u32 \<times> merged_index) list"
  ws_pool :: path_pool

text \<open>The part of \<open>src/src/server/service/session.h\<close> the queries read.\<close>

record session =
  se_text :: string
  se_line_starts :: "u32 list"
  se_ast_dirty :: bool
  se_file_index :: "file_index option"
  se_symbols :: "symbol_table option"

type_synonym sessions = "(u32 \<times> session) list"

definition empty_shard :: merged_index where
  "empty_shard = \<lparr>mi_buffer = None, mi_impl = None\<rparr>"

section \<open>Merging\<close>

definition collect_local_symbols :: "symbol_table \<Rightarrow> file_index \<Rightarrow> symbol_table" where
  "collect_local_symbols syms fi =
     fold (\<lambda>occ m. case map_of syms (occ_target occ) of
         None \<Rightarrow> m
       | Some s \<Rightarrow> if sym_scope s \<noteq> External \<and> map_of m (occ_target occ) = None then m @ [(occ_target occ, s)] else m)
       (fi_occurrences fi) []"

fun find_location :: "u32 \<Rightarrow> nat \<Rightarrow> include_location list \<Rightarrow> u32 option" where
  "find_location path i [] = None"
| "find_location path i (l # ls) = (if il_path l = path then Some (of_nat i) else find_location path (i + 1) ls)"

definition shard_at :: "workspace \<Rightarrow> u32 \<Rightarrow> merged_index" where
  "shard_at ws i = (case map_of (ws_shards ws) i of None \<Rightarrow> empty_shard | Some s \<Rightarrow> s)"

definition put_shard :: "u32 \<Rightarrow> merged_index \<Rightarrow> workspace \<Rightarrow> workspace" where
  "put_shard i s ws = ws\<lparr>ws_shards := AList.update i s (ws_shards ws)\<rparr>"

definition disk_text :: "index_env \<Rightarrow> string \<Rightarrow> string" where
  "disk_text env path = (case env_read env path of None \<Rightarrow> [] | Some t \<Rightarrow> t)"

definition main_path_id :: "'f tu_index \<Rightarrow> u32" where
  "main_path_id tu = of_nat (length (ig_paths (tu_graph tu)) - 1)"

text \<open>
  The lambda \<open>merge_file_index\<close>. \<open>None\<close> is an access outside \<open>file_ids_map\<close> or the pool. The shard is
  created before the include location is searched.
\<close>

definition merge_file_index :: "index_env \<Rightarrow> 'f tu_index \<Rightarrow> u32 list \<Rightarrow> u32 \<times> file_index \<Rightarrow> workspace option
    \<Rightarrow> workspace option" where
  "merge_file_index env tu file_ids e ws0 =
     (case (e, ws0) of
        (_, None) \<Rightarrow> None
      | ((tu_path, fi), Some ws) \<Rightarrow>
          if length file_ids \<le> unat tu_path then None
          else
            let global = file_ids ! unat tu_path;
                shard = shard_at ws global;
                locations = ig_locations (tu_graph tu);
                locals = collect_local_symbols (tu_symbols tu) fi;
                hash = file_hash (env_sha256 env)
            in
            if tu_path = main_path_id tu then
              (if \<exists>l \<in> set locations. length file_ids \<le> unat (il_path l) then None
               else
                 case pool_path (pj_pool (ws_project ws)) global of
                   None \<Rightarrow> None
                 | Some path \<Rightarrow>
                     Some (put_shard global
                       (merge_symbols (env_line_starts env) locals
                         (merge_compilation (env_line_starts env) hash global (tu_built_at tu)
                           (map (\<lambda>l. l\<lparr>il_path := file_ids ! unat (il_path l)\<rparr>) locations) fi (disk_text env path) shard)) ws))
            else
              case find_location tu_path 0 locations of
                None \<Rightarrow> Some (put_shard global shard ws)
              | Some inc \<Rightarrow>
                  case pool_path (pj_pool (ws_project ws)) global of
                    None \<Rightarrow> None
                  | Some path \<Rightarrow>
                      Some (put_shard global
                        (merge_symbols (env_line_starts env) locals
                          (merge_header (env_line_starts env) hash global inc fi (disk_text env path) shard)) ws))"

definition indexer_merge :: "index_env \<Rightarrow> flat_tu \<Rightarrow> workspace \<Rightarrow> workspace option" where
  "indexer_merge env data ws =
     (let tu = (tu_from data :: nat tu_index) in
      if ig_paths (tu_graph tu) = [] then Some ws
      else
        case project_merge tu (ws_project ws) of
          None \<Rightarrow> None
        | Some (pj, file_ids) \<Rightarrow>
            fold (merge_file_index env tu file_ids) (tu_path_files tu @ [(main_path_id tu, tu_main tu)])
              (Some (ws\<lparr>ws_project := pj\<rparr>)))"

definition need_update :: "index_env \<Rightarrow> workspace \<Rightarrow> string \<Rightarrow> bool" where
  "need_update env ws file_path =
     (case pool_find (pj_pool (ws_project ws)) file_path of
        None \<Rightarrow> True
      | Some i \<Rightarrow>
          case map_of (ws_shards ws) i of
            None \<Rightarrow> True
          | Some shard \<Rightarrow>
              mi_need_update (\<lambda>p. case pool_path (pj_pool (ws_project ws)) p of None \<Rightarrow> None | Some s \<Rightarrow> env_mtime env s) shard)"

section \<open>Visiting open sessions\<close>

text \<open>\<open>MasterServer\<close> passes the sessions with a valid index; visiting stops at the first \<open>false\<close>.\<close>

definition each_session :: "sessions \<Rightarrow> sessions" where
  "each_session ss = filter (\<lambda>(_, s). se_file_index s \<noteq> None \<and> se_symbols s \<noteq> None \<and> \<not> se_ast_dirty s) ss"

definition session_open :: "sessions \<Rightarrow> u32 \<Rightarrow> bool" where
  "session_open ss i \<longleftrightarrow> map_of ss i \<noteq> None"

text \<open>The server pool is asked for the project path; an id outside the project pool counts as closed.\<close>

definition is_proj_path_open :: "workspace \<Rightarrow> sessions \<Rightarrow> u32 \<Rightarrow> bool" where
  "is_proj_path_open ws ss i =
     (case pool_path (pj_pool (ws_project ws)) i of
        None \<Rightarrow> False
      | Some path \<Rightarrow> case pool_cache (ws_pool ws) path of None \<Rightarrow> False | Some j \<Rightarrow> session_open ss j)"

end
