(* ===== verification/Indexer_Queries.thy ===== *)
theory Indexer_Queries
  imports Indexer
begin

text \<open>
  The queries of \<open>src/src/server/compiler/indexer.cpp\<close>. The sessions are given in the order of the
  iteration over the session map. A query that looks up an occurrence may fill the cache of a shard,
  so it returns the workspace as well. An id outside a path pool, which the code does not check, is
  skipped; the ids in the symbol table are those of the pool.
\<close>

section \<open>Shared loops\<close>

text \<open>A lookup whose callback stores the first usable result and stops there.\<close>

fun first_some :: "('a \<Rightarrow> 'b option) \<Rightarrow> 'a list \<Rightarrow> 'b option" where
  "first_some f [] = None"
| "first_some f (x # xs) = (case f x of None \<Rightarrow> first_some f xs | Some y \<Rightarrow> Some y)"

definition first_hit :: "(('a \<Rightarrow> bool) \<Rightarrow> 'a list) \<Rightarrow> ('a \<Rightarrow> 'b option) \<Rightarrow> 'b option" where
  "first_hit lookup f = first_some f (lookup (\<lambda>x. f x = None))"

text \<open>The shards of the files that refer to a symbol, less the open files; a bitmap is iterated in order.\<close>

definition closed_shards :: "workspace \<Rightarrow> sessions \<Rightarrow> u64 \<Rightarrow> (u32 \<times> merged_index) list" where
  "closed_shards ws ss h =
     (case map_of (pj_symbols (ws_project ws)) h of
        None \<Rightarrow> []
      | Some symb \<Rightarrow>
          List.map_filter (\<lambda>f. if is_proj_path_open ws ss f then None
              else map_option (Pair f) (map_of (ws_shards ws) f))
            (sorted_list_of_set (sym_files symb)))"

definition range_in :: "index_env \<Rightarrow> string \<Rightarrow> u32 list \<Rightarrow> source_range \<Rightarrow> lsp_range option" where
  "range_in env t ls r = env_to_range env t ls (r_begin r) (r_end r)"

definition session_uri :: "index_env \<Rightarrow> workspace \<Rightarrow> u32 \<Rightarrow> string option" where
  "session_uri env ws i = (case resolve (ws_pool ws) i of None \<Rightarrow> None | Some p \<Rightarrow> env_uri env p)"

definition project_uri :: "index_env \<Rightarrow> workspace \<Rightarrow> u32 \<Rightarrow> string option" where
  "project_uri env ws i = (case pool_path (pj_pool (ws_project ws)) i of None \<Rightarrow> None | Some p \<Rightarrow> env_uri env p)"

section \<open>Symbols\<close>

definition find_symbol_info :: "workspace \<Rightarrow> sessions \<Rightarrow> u64 \<Rightarrow> (string \<times> symbol_kind) option" where
  "find_symbol_info ws ss h =
     (case first_some (\<lambda>(_, s). case se_symbols s of None \<Rightarrow> None | Some m \<Rightarrow> map_of m h) (each_session ss) of
        Some symb \<Rightarrow> Some (sym_name symb, sym_kind symb)
      | None \<Rightarrow>
          case map_of (pj_symbols (ws_project ws)) h of
            Some symb \<Rightarrow> Some (sym_name symb, sym_kind symb)
          | None \<Rightarrow> first_some (\<lambda>(_, shard). find_symbol h shard) (ws_shards ws))"

record cursor_hit =
  hit_hash :: u64
  hit_range :: lsp_range

definition no_hit :: cursor_hit where
  "no_hit = \<lparr>hit_hash = 0, hit_range = (\<lparr>pos_line = 0, pos_character = 0\<rparr>, \<lparr>pos_line = 0, pos_character = 0\<rparr>)\<rparr>"

definition hit_of :: "index_env \<Rightarrow> string \<Rightarrow> u32 list \<Rightarrow> occurrence \<Rightarrow> cursor_hit option" where
  "hit_of env t ls x = map_option (\<lambda>r. \<lparr>hit_hash = occ_target x, hit_range = r\<rparr>) (range_in env t ls (occ_range x))"

definition or_no_hit :: "cursor_hit option \<Rightarrow> cursor_hit" where
  "or_no_hit h = (case h of None \<Rightarrow> no_hit | Some x \<Rightarrow> x)"

text \<open>In a shard only the first occurrence is looked at, whether its range is usable or not.\<close>

definition resolve_cursor :: "index_env \<Rightarrow> string \<Rightarrow> position \<Rightarrow> session option \<Rightarrow> workspace \<Rightarrow> cursor_hit \<times> workspace" where
  "resolve_cursor env path pos so ws =
     (case so of
        None \<Rightarrow> (no_hit, ws)
      | Some s \<Rightarrow>
          case env_to_offset env (se_text s) (se_line_starts s) pos of
            None \<Rightarrow> (no_hit, ws)
          | Some offset \<Rightarrow>
              case (se_file_index s, se_ast_dirty s) of
                (Some fi, False) \<Rightarrow>
                  (or_no_hit (first_hit (\<lambda>callback. file_lookup offset callback fi)
                     (hit_of env (se_text s) (se_line_starts s))), ws)
              | _ \<Rightarrow>
                  case pool_find (pj_pool (ws_project ws)) path of
                    None \<Rightarrow> (no_hit, ws)
                  | Some i \<Rightarrow>
                      case map_of (ws_shards ws) i of
                        None \<Rightarrow> (no_hit, ws)
                      | Some shard \<Rightarrow>
                          if mi_line_starts shard = [] then (no_hit, ws)
                          else
                            let (xs, shard1) = mi_lookup offset (\<lambda>_. False) shard in
                            (or_no_hit (first_some (hit_of env (mi_content shard) (mi_line_starts shard)) xs),
                             put_shard i shard1 ws))"

section \<open>Locations\<close>

record location =
  loc_uri :: string
  loc_range :: lsp_range

definition shard_locations :: "index_env \<Rightarrow> workspace \<Rightarrow> u64 \<Rightarrow> relation_kind \<Rightarrow> u32 \<times> merged_index \<Rightarrow> location list" where
  "shard_locations env ws h kind e =
     (case project_uri env ws (fst e) of
        None \<Rightarrow> []
      | Some u \<Rightarrow>
          if mi_line_starts (snd e) = [] then []
          else List.map_filter (\<lambda>r. map_option (\<lambda>rg. \<lparr>loc_uri = u, loc_range = rg\<rparr>)
                  (range_in env (mi_content (snd e)) (mi_line_starts (snd e)) (rel_range r)))
                (mi_lookup_relations h kind (\<lambda>_. True) (snd e)))"

definition session_relations :: "session \<Rightarrow> u64 \<Rightarrow> relation_kind \<Rightarrow> (relation \<Rightarrow> bool) \<Rightarrow> relation list" where
  "session_relations s h kind callback =
     (case se_file_index s of None \<Rightarrow> [] | Some fi \<Rightarrow> file_lookup_relations h kind callback fi)"

definition session_locations :: "index_env \<Rightarrow> workspace \<Rightarrow> u64 \<Rightarrow> relation_kind \<Rightarrow> u32 \<times> session \<Rightarrow> location list" where
  "session_locations env ws h kind e =
     (case session_uri env ws (fst e) of
        None \<Rightarrow> []
      | Some u \<Rightarrow>
          List.map_filter (\<lambda>r. map_option (\<lambda>rg. \<lparr>loc_uri = u, loc_range = rg\<rparr>)
              (range_in env (se_text (snd e)) (se_line_starts (snd e)) (rel_range r)))
            (session_relations (snd e) h kind (\<lambda>_. True)))"

definition query_relations :: "index_env \<Rightarrow> string \<Rightarrow> position \<Rightarrow> relation_kind \<Rightarrow> session option \<Rightarrow> sessions
    \<Rightarrow> workspace \<Rightarrow> location list \<times> workspace" where
  "query_relations env path pos kind so ss ws0 =
     (let (hit, ws) = resolve_cursor env path pos so ws0; h = hit_hash hit in
      if h = 0 then ([], ws)
      else (concat (map (shard_locations env ws h kind) (closed_shards ws ss h))
            @ concat (map (session_locations env ws h kind) (each_session ss)), ws))"

record symbol_info =
  si_hash :: u64
  si_name :: string
  si_kind :: symbol_kind
  si_uri :: string
  si_range :: lsp_range

definition lookup_symbol :: "index_env \<Rightarrow> string \<Rightarrow> string \<Rightarrow> position \<Rightarrow> session option \<Rightarrow> sessions
    \<Rightarrow> workspace \<Rightarrow> symbol_info option \<times> workspace" where
  "lookup_symbol env uri path pos so ss ws0 =
     (let (hit, ws) = resolve_cursor env path pos so ws0 in
      if hit_hash hit = 0 then (None, ws)
      else
        case find_symbol_info ws ss (hit_hash hit) of
          None \<Rightarrow> (None, ws)
        | Some (name, kind) \<Rightarrow>
            (Some \<lparr>si_hash = hit_hash hit, si_name = name, si_kind = kind, si_uri = uri, si_range = hit_range hit\<rparr>, ws))"

definition session_definition :: "index_env \<Rightarrow> workspace \<Rightarrow> u64 \<Rightarrow> u32 \<times> session \<Rightarrow> location option" where
  "session_definition env ws h e =
     (case session_uri env ws (fst e) of
        None \<Rightarrow> None
      | Some u \<Rightarrow> first_hit (session_relations (snd e) h Definition)
          (\<lambda>r. map_option (\<lambda>rg. \<lparr>loc_uri = u, loc_range = rg\<rparr>)
             (range_in env (se_text (snd e)) (se_line_starts (snd e)) (rel_range r))))"

definition shard_definition :: "index_env \<Rightarrow> workspace \<Rightarrow> u64 \<Rightarrow> u32 \<times> merged_index \<Rightarrow> location option" where
  "shard_definition env ws h e =
     (case project_uri env ws (fst e) of
        None \<Rightarrow> None
      | Some u \<Rightarrow>
          if mi_line_starts (snd e) = [] then None
          else first_hit (\<lambda>callback. mi_lookup_relations h Definition callback (snd e))
            (\<lambda>r. map_option (\<lambda>rg. \<lparr>loc_uri = u, loc_range = rg\<rparr>)
               (range_in env (mi_content (snd e)) (mi_line_starts (snd e)) (rel_range r))))"

definition find_definition_location :: "index_env \<Rightarrow> sessions \<Rightarrow> workspace \<Rightarrow> u64 \<Rightarrow> location option" where
  "find_definition_location env ss ws h =
     (case first_some (session_definition env ws h) (each_session ss) of
        Some l \<Rightarrow> Some l
      | None \<Rightarrow> first_some (shard_definition env ws h) (closed_shards ws ss h))"

text \<open>\<open>data\<close> is the integer alternative of the item's data.\<close>

definition resolve_hierarchy_item :: "index_env \<Rightarrow> string \<Rightarrow> string \<Rightarrow> lsp_range \<Rightarrow> int option \<Rightarrow> session option
    \<Rightarrow> sessions \<Rightarrow> workspace \<Rightarrow> symbol_info option \<times> workspace" where
  "resolve_hierarchy_item env uri path rg data so ss ws =
     (case data of
        None \<Rightarrow> lookup_symbol env uri path (fst rg) so ss ws
      | Some i \<Rightarrow>
          case find_symbol_info ws ss (word_of_int i) of
            Some (name, kind) \<Rightarrow>
              (Some \<lparr>si_hash = word_of_int i, si_name = name, si_kind = kind, si_uri = uri, si_range = rg\<rparr>, ws)
          | None \<Rightarrow> lookup_symbol env uri path (fst rg) so ss ws)"

section \<open>Relations grouped by target\<close>

definition push_range :: "(string \<Rightarrow> u32 list \<Rightarrow> u32 \<Rightarrow> u32 \<Rightarrow> lsp_range option) \<Rightarrow> string \<Rightarrow> u32 list \<Rightarrow> relation
    \<Rightarrow> (u64 \<times> lsp_range list) list \<Rightarrow> (u64 \<times> lsp_range list) list" where
  "push_range to_range t ls r m =
     (case to_range t ls (r_begin (rel_range r)) (r_end (rel_range r)) of
        None \<Rightarrow> m
      | Some rg \<Rightarrow> AList.update (rel_target r) ((case map_of m (rel_target r) of None \<Rightarrow> [] | Some rs \<Rightarrow> rs) @ [rg]) m)"

definition collect_grouped_relations :: "index_env \<Rightarrow> sessions \<Rightarrow> workspace \<Rightarrow> u64 \<Rightarrow> relation_kind
    \<Rightarrow> (u64 \<times> lsp_range list) list" where
  "collect_grouped_relations env ss ws h kind =
     fold (\<lambda>(_, s). fold (push_range (env_to_range env) (se_text s) (se_line_starts s)) (session_relations s h kind (\<lambda>_. True)))
       (each_session ss)
       (fold (\<lambda>(_, shard) m. if mi_line_starts shard = [] then m
           else fold (push_range (env_to_range env) (mi_content shard) (mi_line_starts shard))
             (mi_lookup_relations h kind (\<lambda>_. True) shard) m)
         (closed_shards ws ss h) [])"

definition push_unique :: "relation \<Rightarrow> u64 list \<Rightarrow> u64 list" where
  "push_unique r targets = (if rel_target r \<in> set targets then targets else targets @ [rel_target r])"

text \<open>The session branch reads the relations of the index itself, not through a lookup.\<close>

definition collect_unique_targets :: "sessions \<Rightarrow> workspace \<Rightarrow> u64 \<Rightarrow> relation_kind \<Rightarrow> u64 list" where
  "collect_unique_targets ss ws h kind =
     fold (\<lambda>(_, s) ts. case se_file_index s of
           None \<Rightarrow> ts
         | Some fi \<Rightarrow>
             (case map_of (fi_relations fi) h of
                None \<Rightarrow> ts
              | Some rs \<Rightarrow> fold (\<lambda>r ts. if kind_and (rel_kind r) kind then push_unique r ts else ts) rs ts))
       (each_session ss)
       (fold (\<lambda>(_, shard). fold push_unique (mi_lookup_relations h kind (\<lambda>_. True) shard)) (closed_shards ws ss h) [])"

definition resolve_symbol :: "index_env \<Rightarrow> sessions \<Rightarrow> workspace \<Rightarrow> u64 \<Rightarrow> symbol_info option" where
  "resolve_symbol env ss ws h =
     (case find_symbol_info ws ss h of
        None \<Rightarrow> None
      | Some (name, kind) \<Rightarrow>
          map_option (\<lambda>l. \<lparr>si_hash = h, si_name = name, si_kind = kind, si_uri = loc_uri l, si_range = loc_range l\<rparr>)
            (find_definition_location env ss ws h))"

section \<open>Definition texts and references\<close>

text \<open>\<open>StringRef::find\<close> searches from the position on; how far back \<open>StringRef::rfind\<close> starts is an argument.\<close>

definition find_char :: "char \<Rightarrow> nat \<Rightarrow> string \<Rightarrow> nat option" where
  "find_char c from t = List.find (\<lambda>i. t ! i = c) [from..<length t]"

definition extract_line :: "(char \<Rightarrow> nat \<Rightarrow> string \<Rightarrow> nat option) \<Rightarrow> string \<Rightarrow> u32 \<Rightarrow> string" where
  "extract_line rfind content offset =
     (if content = [] \<or> length content \<le> unat offset then []
      else
        let line_start = (if 0 < offset then
                (case rfind (CHR 0x0A) (unat offset - 1) content of None \<Rightarrow> 0 | Some i \<Rightarrow> i + 1) else 0);
            line_end = (case find_char (CHR 0x0A) (unat offset) content of None \<Rightarrow> length content | Some i \<Rightarrow> i)
        in take (line_end - line_start) (drop line_start content))"

record definition_text =
  dt_file :: string
  dt_start_line :: int
  dt_end_line :: int
  dt_text :: string

definition definition_text_at :: "index_env \<Rightarrow> string \<Rightarrow> u32 list \<Rightarrow> string \<Rightarrow> relation \<Rightarrow> definition_text option" where
  "definition_text_at env t ls file r =
     (let d = definition_range r in
      if r_end d \<le> r_begin d \<or> length t < unat (r_end d) then None
      else map_option (\<lambda>(a, b). \<lparr>dt_file = file, dt_start_line = sint (pos_line a) + 1, dt_end_line = sint (pos_line b) + 1,
                dt_text = take (unat (r_end d) - unat (r_begin d)) (drop (unat (r_begin d)) t)\<rparr>) (range_in env t ls d))"

definition session_definition_text :: "index_env \<Rightarrow> workspace \<Rightarrow> u64 \<Rightarrow> u32 \<times> session \<Rightarrow> definition_text option" where
  "session_definition_text env ws h e =
     (case resolve (ws_pool ws) (fst e) of
        None \<Rightarrow> None
      | Some file \<Rightarrow> first_hit (session_relations (snd e) h Definition)
          (definition_text_at env (se_text (snd e)) (se_line_starts (snd e)) file))"

definition shard_definition_text :: "index_env \<Rightarrow> workspace \<Rightarrow> u64 \<Rightarrow> u32 \<times> merged_index \<Rightarrow> definition_text option" where
  "shard_definition_text env ws h e =
     (case pool_path (pj_pool (ws_project ws)) (fst e) of
        None \<Rightarrow> None
      | Some file \<Rightarrow>
          if mi_line_starts (snd e) = [] then None
          else first_hit (\<lambda>callback. mi_lookup_relations h Definition callback (snd e))
            (definition_text_at env (mi_content (snd e)) (mi_line_starts (snd e)) file))"

definition get_definition_text :: "index_env \<Rightarrow> sessions \<Rightarrow> workspace \<Rightarrow> u64 \<Rightarrow> definition_text option" where
  "get_definition_text env ss ws h =
     (case first_some (session_definition_text env ws h) (each_session ss) of
        Some d \<Rightarrow> Some d
      | None \<Rightarrow> first_some (shard_definition_text env ws h) (closed_shards ws ss h))"

record reference_with_context =
  rc_file :: string
  rc_line :: int
  rc_context :: string

definition reference_at :: "index_env \<Rightarrow> (char \<Rightarrow> nat \<Rightarrow> string \<Rightarrow> nat option) \<Rightarrow> string \<Rightarrow> u32 list \<Rightarrow> string \<Rightarrow> relation
    \<Rightarrow> reference_with_context option" where
  "reference_at env rfind t ls file r =
     map_option (\<lambda>p. \<lparr>rc_file = file, rc_line = sint (pos_line p) + 1, rc_context = extract_line rfind t (r_begin (rel_range r))\<rparr>)
       (env_to_position env t ls (r_begin (rel_range r)))"

definition collect_references :: "index_env \<Rightarrow> (char \<Rightarrow> nat \<Rightarrow> string \<Rightarrow> nat option) \<Rightarrow> sessions \<Rightarrow> workspace \<Rightarrow> u64
    \<Rightarrow> relation_kind \<Rightarrow> reference_with_context list" where
  "collect_references env rfind ss ws h kind =
     concat (map (\<lambda>(f, shard). case pool_path (pj_pool (ws_project ws)) f of
           None \<Rightarrow> []
         | Some file \<Rightarrow>
             if mi_line_starts shard = [] then []
             else List.map_filter (reference_at env rfind (mi_content shard) (mi_line_starts shard) file)
               (mi_lookup_relations h kind (\<lambda>_. True) shard)) (closed_shards ws ss h))
     @ concat (map (\<lambda>(i, s). case resolve (ws_pool ws) i of
           None \<Rightarrow> []
         | Some file \<Rightarrow> List.map_filter (reference_at env rfind (se_text s) (se_line_starts s) file)
             (session_relations s h kind (\<lambda>_. True))) (each_session ss))"

section \<open>Hierarchies and symbol search\<close>

datatype lsp_symbol_kind = LModule | LNamespace | LClass | LMethod | LField | LEnum | LInterface | LFunction
  | LVariable | LEnumMember | LStruct | LOperator | LTypeParameter

fun to_lsp_symbol_kind :: "symbol_kind \<Rightarrow> lsp_symbol_kind" where
  "to_lsp_symbol_kind KNamespace = LNamespace"
| "to_lsp_symbol_kind KClass = LClass"
| "to_lsp_symbol_kind KStruct = LStruct"
| "to_lsp_symbol_kind KUnion = LClass"
| "to_lsp_symbol_kind KEnum = LEnum"
| "to_lsp_symbol_kind KType = LTypeParameter"
| "to_lsp_symbol_kind KField = LField"
| "to_lsp_symbol_kind KEnumMember = LEnumMember"
| "to_lsp_symbol_kind KFunction = LFunction"
| "to_lsp_symbol_kind KMethod = LMethod"
| "to_lsp_symbol_kind KVariable = LVariable"
| "to_lsp_symbol_kind KParameter = LVariable"
| "to_lsp_symbol_kind KMacro = LFunction"
| "to_lsp_symbol_kind KConcept = LInterface"
| "to_lsp_symbol_kind KModule = LModule"
| "to_lsp_symbol_kind KOperator = LOperator"
| "to_lsp_symbol_kind _ = LVariable"

text \<open>The items of the call and of the type hierarchy have the same fields; \<open>data\<close> is the hash as a signed integer.\<close>

record hierarchy_item =
  hi_name :: string
  hi_kind :: lsp_symbol_kind
  hi_uri :: string
  hi_range :: lsp_range
  hi_selection_range :: lsp_range
  hi_data :: int

definition build_call_hierarchy_item :: "symbol_info \<Rightarrow> hierarchy_item" where
  "build_call_hierarchy_item info = \<lparr>hi_name = si_name info, hi_kind = to_lsp_symbol_kind (si_kind info), hi_uri = si_uri info,
     hi_range = si_range info, hi_selection_range = si_range info, hi_data = sint (si_hash info)\<rparr>"

definition build_type_hierarchy_item :: "symbol_info \<Rightarrow> hierarchy_item" where
  "build_type_hierarchy_item info = \<lparr>hi_name = si_name info, hi_kind = to_lsp_symbol_kind (si_kind info), hi_uri = si_uri info,
     hi_range = si_range info, hi_selection_range = si_range info, hi_data = sint (si_hash info)\<rparr>"

definition calls_of :: "index_env \<Rightarrow> sessions \<Rightarrow> workspace \<Rightarrow> u64 \<times> lsp_range list \<Rightarrow> (hierarchy_item \<times> lsp_range list) option" where
  "calls_of env ss ws e = map_option (\<lambda>info. (build_call_hierarchy_item info, snd e)) (resolve_symbol env ss ws (fst e))"

definition find_incoming_calls :: "index_env \<Rightarrow> sessions \<Rightarrow> workspace \<Rightarrow> u64 \<Rightarrow> (hierarchy_item \<times> lsp_range list) list" where
  "find_incoming_calls env ss ws h = List.map_filter (calls_of env ss ws) (collect_grouped_relations env ss ws h Caller)"

definition find_outgoing_calls :: "index_env \<Rightarrow> sessions \<Rightarrow> workspace \<Rightarrow> u64 \<Rightarrow> (hierarchy_item \<times> lsp_range list) list" where
  "find_outgoing_calls env ss ws h = List.map_filter (calls_of env ss ws) (collect_grouped_relations env ss ws h Callee)"

definition types_of :: "index_env \<Rightarrow> sessions \<Rightarrow> workspace \<Rightarrow> u64 list \<Rightarrow> hierarchy_item list" where
  "types_of env ss ws hs = List.map_filter (\<lambda>h. map_option build_type_hierarchy_item (resolve_symbol env ss ws h)) hs"

definition find_supertypes :: "index_env \<Rightarrow> sessions \<Rightarrow> workspace \<Rightarrow> u64 \<Rightarrow> hierarchy_item list" where
  "find_supertypes env ss ws h = types_of env ss ws (collect_unique_targets ss ws h Base)"

definition find_subtypes :: "index_env \<Rightarrow> sessions \<Rightarrow> workspace \<Rightarrow> u64 \<Rightarrow> hierarchy_item list" where
  "find_subtypes env ss ws h = types_of env ss ws (collect_unique_targets ss ws h Derived)"

definition is_indexable_kind :: "symbol_kind \<Rightarrow> bool" where
  "is_indexable_kind k \<longleftrightarrow> k \<in> set [KNamespace, KClass, KStruct, KUnion, KEnum, KType, KField, KEnumMember, KFunction,
     KMethod, KVariable, KParameter, KMacro, KConcept, KModule, KOperator, KMacroParameter, KLabel, KAttribute]"

definition has_substring :: "string \<Rightarrow> string \<Rightarrow> bool" where
  "has_substring q t \<longleftrightarrow> list_ex (\<lambda>i. take (length q) (drop i t) = q) [0..<length t + 1]"

definition matches_query :: "index_env \<Rightarrow> string \<Rightarrow> string \<Rightarrow> bool" where
  "matches_query env query name \<longleftrightarrow>
     (let q = env_lower env query in q = [] \<or> has_substring q (env_lower env name))"

record symbol_information =
  sy_name :: string
  sy_kind :: lsp_symbol_kind
  sy_location :: location

text \<open>One candidate; once enough results are there, nothing is added any more.\<close>

definition search_candidate :: "index_env \<Rightarrow> sessions \<Rightarrow> workspace \<Rightarrow> string \<Rightarrow> nat \<Rightarrow> u64 \<times> symbol
    \<Rightarrow> symbol_information list \<times> u64 set \<Rightarrow> symbol_information list \<times> u64 set" where
  "search_candidate env ss ws query max_results e acc =
     (case (e, acc) of
        ((h, symb), (results, seen)) \<Rightarrow>
          if max_results \<le> length results then acc
          else if \<not> is_indexable_kind (sym_kind symb) \<or> sym_name symb = [] \<or> \<not> matches_query env query (sym_name symb) then acc
          else
            case find_definition_location env ss ws h of
              None \<Rightarrow> acc
            | Some l \<Rightarrow> (results @ [\<lparr>sy_name = sym_name symb, sy_kind = to_lsp_symbol_kind (sym_kind symb), sy_location = l\<rparr>],
                insert h seen))"

definition search_symbols :: "index_env \<Rightarrow> sessions \<Rightarrow> workspace \<Rightarrow> string \<Rightarrow> nat \<Rightarrow> symbol_information list" where
  "search_symbols env ss ws query max_results =
     fst (fold (\<lambda>(_, s) acc. fold (\<lambda>e acc. if fst e \<in> snd acc then acc else search_candidate env ss ws query max_results e acc)
            (case se_symbols s of None \<Rightarrow> [] | Some m \<Rightarrow> m) acc)
       (each_session ss)
       (fold (search_candidate env ss ws query max_results) (pj_symbols (ws_project ws)) ([], {})))"

end
