(* ===== verification/Indexer_Props.thy ===== *)
theory Indexer_Props
  imports Indexer_Queries
begin

text \<open>
  The workspace as a whole: for every path of the project, the shard of its id answers from all the
  indices that were ever merged for that path, through merges of translation units, saves and
  reloads. The indexer never removes a context, so nothing is ever forgotten.
\<close>

section \<open>A shard nothing was removed from\<close>

definition archive :: "(file_index \<Rightarrow> u8 list) \<Rightarrow> file_index set \<Rightarrow> impl \<Rightarrow> bool" where
  "archive hash known im \<longleftrightarrow> (\<exists>index_of. tables_exact hash index_of im \<and> im_removed im = {}
     \<and> index_of ` {..<max_canonical_id im} = known)"

definition shard_archive :: "(file_index \<Rightarrow> u8 list) \<Rightarrow> file_index set \<Rightarrow> merged_index \<Rightarrow> bool" where
  "shard_archive hash known mi \<longleftrightarrow>
     (case mi_impl mi of
        Some im \<Rightarrow> mi_buffer mi = None \<and> archive hash known im
      | None \<Rightarrow>
          case mi_buffer mi of
            Some fl \<Rightarrow> \<exists>im. archive hash known im \<and> fl = flatten im
          | None \<Rightarrow> known = {})"

lemma archive_empty: "archive hash {} empty_impl"
  using impl_ok_empty [of "\<lambda>_. []" hash "\<lambda>_. undefined"]
  by (auto simp: archive_def impl_ok_def empty_impl_def)

lemma archive_merge:
  assumes "archive hash known im" "frames_context add im" "inj_on hash (insert fi known)"
  shows "archive hash (insert fi known) ((impl_merge (hash fi) fi add im)\<lparr>occurrences_cache := []\<rparr>)"
proof -
  obtain index_of where t: "tables_exact hash index_of im" and r: "im_removed im = {}"
    and k: "index_of ` {..<max_canonical_id im} = known"
    using assms(1) by (auto simp: archive_def)
  let ?im = "impl_merge (hash fi) fi add im" and ?f = "merged_index_of (hash fi) fi im index_of"
  have inj: "index_of c = fi" if "c < max_canonical_id im" "hash (index_of c) = hash fi" for c
    using inj_onD [OF assms(3) that(2)] k that(1) by blast
  have "im_removed ?im = {}"
    using r by (cases "map_of (canonical_cache im) (hash fi)")
      (simp_all add: impl_merge_new [OF assms(2)] impl_merge_found [OF assms(2)])
  moreover have "?f ` {..<max_canonical_id ?im} = insert fi known" using known_merge [OF t assms(2) inj] k by simp
  moreover have "tables_exact hash ?f ?im" by (rule tables_exact_merge [OF assms(2) t])
  ultimately show ?thesis unfolding archive_def by (intro exI [of _ ?f]) (simp add: tables_exact_frame)
qed

lemma archive_set_text: "archive hash known (im\<lparr>im_content := t, im_line_starts := ls\<rparr>) = archive hash known im"
  by (simp add: archive_def tables_exact_frame)

lemma archive_merge_compilation:
  "archive hash known im \<Longrightarrow> inj_on hash (insert fi known) \<Longrightarrow>
   archive hash (insert fi known) (impl_merge_compilation bls hash path built locs fi t im)"
  unfolding impl_merge_compilation_def
  by (rule archive_merge) (simp_all add: archive_set_text frames_compilation del: inj_on_insert)

lemma archive_merge_header:
  "archive hash known im \<Longrightarrow> inj_on hash (insert fi known) \<Longrightarrow>
   archive hash (insert fi known) (impl_merge_header bls hash path inc fi t im)"
  unfolding impl_merge_header_def
  by (rule archive_merge) (simp_all add: archive_set_text frames_header del: inj_on_insert)

lemma archive_symbols: "archive hash known im \<Longrightarrow> archive hash known (impl_merge_symbols syms im)"
  by (simp add: archive_def impl_merge_symbols_def tables_exact_frame)

lemma archive_fill_cache: "archive hash known im \<Longrightarrow> archive hash known (fill_cache im)"
  by (simp add: archive_def fill_cache_def tables_exact_frame)

lemma archive_reload: "archive hash known im \<Longrightarrow> archive hash known (load_flat bls (flatten im))"
proof -
  assume "archive hash known im"
  then obtain index_of where t: "tables_exact hash index_of im" and r: "im_removed im = {}"
    and k: "index_of ` {..<max_canonical_id im} = known"
    by (auto simp: archive_def)
  have "im_removed (load_flat bls (flatten im)) = {}" "max_canonical_id (load_flat bls (flatten im)) = max_canonical_id im"
    using r by (simp_all add: load_flat_def flatten_def Let_def)
  then show ?thesis using tables_exact_reload [OF t] k unfolding archive_def by (intro exI [of _ index_of]) simp
qed

lemma shard_archive_modify:
  assumes "shard_archive hash known mi" "\<And>im. archive hash known im \<Longrightarrow> archive hash known' (f im)"
  shows "shard_archive hash known' (modify bls f mi)"
  using assms archive_empty [of hash] archive_reload [of hash known _ bls]
  by (auto simp: shard_archive_def modify_def load_in_memory_def Let_def split: option.splits)

lemma shard_archive_save_load:
  "shard_archive hash known mi \<Longrightarrow> mi_serialize mi = Some fl \<Longrightarrow> shard_archive hash known (load_file (Some fl))"
  by (auto simp: shard_archive_def mi_serialize_def load_file_def split: option.splits)

text \<open>Relation queries of a shard, in memory or on the buffer.\<close>

lemma all_removed_none: "im_removed im = {} \<Longrightarrow> \<not> all_removed im cs"
  by (simp add: all_removed_def)

lemma shard_relations:
  assumes "shard_archive hash known mi"
  shows "set (mi_lookup_relations symb kind (\<lambda>_. True) mi) = {r. rel_kind r = kind \<and> (\<exists>fi \<in> known. has_relation fi symb r)}"
proof (cases "mi_impl mi")
  case (Some im)
  then obtain index_of where t: "tables_exact hash index_of im" and r: "im_removed im = {}"
    and k: "index_of ` {..<max_canonical_id im} = known"
    using assms by (auto simp: shard_archive_def archive_def)
  have "mi = \<lparr>mi_buffer = mi_buffer mi, mi_impl = Some im\<rparr>" using Some by simp
  then have "set (mi_lookup_relations symb kind (\<lambda>_. True) mi) = {r \<in> fst ` set (rel_table (im_relations im) symb). rel_kind r = kind}"
    using lookup_relations_shown [of symb kind "mi_buffer mi" im] all_removed_none [OF r] by auto
  then show ?thesis using relation_keys [OF t] k by auto
next
  case None
  show ?thesis
  proof (cases "mi_buffer mi")
    case (Some fl)
    then obtain im index_of where t: "tables_exact hash index_of im" and k: "index_of ` {..<max_canonical_id im} = known"
      and fl: "fl = flatten im"
      using assms None by (auto simp: shard_archive_def archive_def)
    have "mi = \<lparr>mi_buffer = Some (flatten im), mi_impl = None\<rparr>" using Some None fl by simp
    moreover have "distinct (map fst (im_relations im))" using t by (simp add: tables_exact_def tidy_relations_def)
    ultimately have "set (mi_lookup_relations symb kind (\<lambda>_. True) mi) = {r \<in> fst ` set (rel_table (im_relations im) symb). rel_kind r = kind}"
      by (auto simp: buffer_relations visit_matching_all kind_and_eq)
    then show ?thesis using relation_keys [OF t] k by auto
  next
    case None
    then show ?thesis using assms \<open>mi_impl mi = None\<close> by (simp add: shard_archive_def mi_lookup_relations_def)
  qed
qed

section \<open>The workspace and what was merged for each path\<close>

type_synonym history = "string \<Rightarrow> file_index set"

text \<open>A file index counts for its path when it is the main file or has an include location.\<close>

definition note_file :: "'f tu_index \<Rightarrow> u32 \<times> file_index \<Rightarrow> history \<Rightarrow> history" where
  "note_file tu e K =
     (let p = normalize_path (ig_paths (tu_graph tu) ! unat (fst e)) in
      if fst e = main_path_id tu \<or> find_location (fst e) 0 (ig_locations (tu_graph tu)) \<noteq> None
      then K(p := insert (snd e) (K p)) else K)"

definition unit_files :: "'f tu_index \<Rightarrow> (u32 \<times> file_index) list" where
  "unit_files tu = tu_path_files tu @ [(main_path_id tu, tu_main tu)]"

definition note_unit :: "'f tu_index \<Rightarrow> history \<Rightarrow> history" where
  "note_unit tu K = (if ig_paths (tu_graph tu) = [] then K else fold (note_file tu) (unit_files tu) K)"

definition workspace_good :: "(file_index \<Rightarrow> u8 list) \<Rightarrow> file_index set \<Rightarrow> workspace \<Rightarrow> history \<Rightarrow> bool" where
  "workspace_good hash D ws K \<longleftrightarrow>
     project_ok (ws_project ws) \<and> inj_on hash D \<and> (\<forall>p. K p \<subseteq> D)
     \<and> (\<forall>i p. pool_path (pj_pool (ws_project ws)) i = Some p \<longrightarrow> shard_archive hash (K p) (shard_at ws i))
     \<and> (\<forall>i. pool_path (pj_pool (ws_project ws)) i = None \<longrightarrow> map_of (ws_shards ws) i = None)
     \<and> (\<forall>p. p \<notin> set (pool_paths (pj_pool (ws_project ws))) \<longrightarrow> K p = {})"

lemma shard_at_put: "shard_at (put_shard i s ws) j = (if j = i then s else shard_at ws j)"
  by (simp add: shard_at_def put_shard_def update_conv')

lemma shards_put: "map_of (ws_shards (put_shard i s ws)) j = (if j = i then Some s else map_of (ws_shards ws) j)"
  by (simp add: put_shard_def update_conv')

lemma project_put [simp]: "ws_project (put_shard i s ws) = ws_project ws"
  by (simp add: put_shard_def)

lemma pool_path_mem: "pool_path pool i = Some p \<Longrightarrow> p \<in> set (pool_paths pool)"
  by (auto simp: pool_path_def split: if_splits)

lemma pool_path_ex:
  assumes "pool_ok pool" "p \<in> set (pool_paths pool)" shows "\<exists>i. pool_path pool i = Some p"
proof -
  obtain k where k: "k < length (pool_paths pool)" "pool_paths pool ! k = p" using assms(2) by (auto simp: in_set_conv_nth)
  moreover have "unat (of_nat k :: u32) = k" using k assms(1) by (simp add: pool_ok_def unat_of_nat)
  ultimately show ?thesis by (intro exI [of _ "of_nat k"]) (simp add: pool_path_def)
qed

text \<open>Replacing one shard.\<close>

lemma workspace_good_put:
  assumes good: "workspace_good hash D ws K" and g: "pool_path (pj_pool (ws_project ws)) g = Some p"
    and s: "shard_archive hash known s" and known: "known \<subseteq> D"
  shows "workspace_good hash D (put_shard g s ws) (K(p := known))"
proof -
  have ok: "pool_ok (pj_pool (ws_project ws))" using good by (simp add: workspace_good_def project_ok_def)
  have inj: "i = g" if "pool_path (pj_pool (ws_project ws)) i = Some p" for i
    using project_pool.get_inj [OF ok that g] .
  show ?thesis
    unfolding workspace_good_def
  proof (intro conjI allI impI)
    fix i q
    assume i: "pool_path (pj_pool (ws_project (put_shard g s ws))) i = Some q"
    then have "i = g \<longleftrightarrow> q = p" using inj [of i] g by auto
    then show "shard_archive hash ((K(p := known)) q) (shard_at (put_shard g s ws) i)"
      using good s i by (simp add: shard_at_put workspace_good_def)
  next
    fix i
    assume "pool_path (pj_pool (ws_project (put_shard g s ws))) i = None"
    then show "map_of (ws_shards (put_shard g s ws)) i = None" using good g by (auto simp: shards_put workspace_good_def)
  qed (use good known pool_path_mem [OF g] in \<open>auto simp: workspace_good_def\<close>)
qed

lemma merge_file_index_good:
  assumes good: "workspace_good (file_hash (env_sha256 env)) D ws K" and fi: "fi \<in> D"
    and names: "list_all2 (\<lambda>p i. pool_path (pj_pool (ws_project ws)) i = Some (normalize_path p)) (ig_paths (tu_graph tu)) file_ids"
    and m: "merge_file_index env tu file_ids (tu_path, fi) (Some ws) = Some ws'"
  shows "workspace_good (file_hash (env_sha256 env)) D ws' (note_file tu (tu_path, fi) K) \<and> ws_project ws' = ws_project ws"
proof -
  let ?hash = "file_hash (env_sha256 env)" and ?bls = "env_line_starts env"
  let ?g = "file_ids ! unat tu_path" and ?p = "normalize_path (ig_paths (tu_graph tu) ! unat tu_path)"
  let ?locals = "collect_local_symbols (tu_symbols tu) fi"
  have len: "unat tu_path < length file_ids" using m by (auto simp: merge_file_index_def split: if_splits)
  have g: "pool_path (pj_pool (ws_project ws)) ?g = Some ?p"
    using list_all2_nthD2 [OF names len] .
  then have old: "shard_archive ?hash (K ?p) (shard_at ws ?g)" using good by (simp add: workspace_good_def)
  have inj: "inj_on ?hash (insert fi (K ?p))"
    using good fi inj_on_subset [of ?hash D "insert fi (K ?p)"] by (simp add: workspace_good_def del: inj_on_insert)
  have sub: "insert fi (K ?p) \<subseteq> D" using good fi by (simp add: workspace_good_def)
  have main: "shard_archive ?hash (insert fi (K ?p)) (merge_symbols ?bls ?locals
      (merge_compilation ?bls ?hash ?g built locs fi t (shard_at ws ?g)))" for built locs t
    unfolding merge_symbols_def merge_compilation_def
    by (rule shard_archive_modify, rule shard_archive_modify [OF old], erule archive_merge_compilation [OF _ inj])
      (erule archive_symbols)
  have header: "shard_archive ?hash (insert fi (K ?p)) (merge_symbols ?bls ?locals
      (merge_header ?bls ?hash ?g inc fi t (shard_at ws ?g)))" for inc t
    unfolding merge_symbols_def merge_header_def
    by (rule shard_archive_modify, rule shard_archive_modify [OF old], erule archive_merge_header [OF _ inj])
      (erule archive_symbols)
  have same: "workspace_good ?hash D (put_shard ?g (shard_at ws ?g) ws) K"
    using workspace_good_put [OF good g old] sub by simp
  show ?thesis
  proof (cases "tu_path = main_path_id tu")
    case True
    then obtain built locs t where "ws' = put_shard ?g (merge_symbols ?bls ?locals
        (merge_compilation ?bls ?hash ?g built locs fi t (shard_at ws ?g))) ws"
      using m len g True by (auto simp: merge_file_index_def Let_def split: if_splits)
    moreover have "note_file tu (tu_path, fi) K = K(?p := insert fi (K ?p))" using True by (simp add: note_file_def Let_def)
    ultimately show ?thesis using workspace_good_put [OF good g main sub] by simp
  next
    case main: False
    show ?thesis
    proof (cases "find_location tu_path 0 (ig_locations (tu_graph tu))")
      case None
      then have "ws' = put_shard ?g (shard_at ws ?g) ws" "note_file tu (tu_path, fi) K = K"
        using m len main by (simp_all add: merge_file_index_def note_file_def Let_def)
      then show ?thesis using same by simp
    next
      case (Some inc)
      then obtain t where "ws' = put_shard ?g (merge_symbols ?bls ?locals (merge_header ?bls ?hash ?g inc fi t (shard_at ws ?g))) ws"
        using m len main by (auto simp: merge_file_index_def Let_def g)
      moreover have "note_file tu (tu_path, fi) K = K(?p := insert fi (K ?p))" using Some by (simp add: note_file_def Let_def)
      ultimately show ?thesis using workspace_good_put [OF good g header sub] by simp
    qed
  qed
qed

lemma merge_files_good:
  assumes "workspace_good (file_hash (env_sha256 env)) D ws K" "snd ` set es \<subseteq> D"
    and "list_all2 (\<lambda>p i. pool_path (pj_pool (ws_project ws)) i = Some (normalize_path p)) (ig_paths (tu_graph tu)) file_ids"
    and "fold (merge_file_index env tu file_ids) es (Some ws) = Some ws'"
  shows "workspace_good (file_hash (env_sha256 env)) D ws' (fold (note_file tu) es K)"
  using assms
proof (induction es arbitrary: ws K)
  case (Cons e es)
  obtain tu_path fi where e: "e = (tu_path, fi)" by (cases e)
  have none: "fold (merge_file_index env tu file_ids) es None = None"
    by (induction es) (auto simp: merge_file_index_def)
  obtain ws1 where 1: "merge_file_index env tu file_ids (tu_path, fi) (Some ws) = Some ws1"
    using Cons.prems(4) none by (cases "merge_file_index env tu file_ids e (Some ws)") (auto simp: e)
  have "fi \<in> D" using Cons.prems(2) by (simp add: e)
  from merge_file_index_good [OF Cons.prems(1) this Cons.prems(3) 1] Cons 1 show ?case by (auto simp: e)
qed simp

text \<open>Interning the paths of a unit gives new ids to new paths only.\<close>

lemma project_merge_good:
  assumes good: "workspace_good hash D ws K"
    and room: "length (pool_paths (pj_pool (ws_project ws))) + length (ig_paths (tu_graph tu)) \<le> 2 ^ 32"
    and m: "project_merge tu (ws_project ws) = Some (pj, file_ids)"
  shows "workspace_good hash D (ws\<lparr>ws_project := pj\<rparr>) K"
proof -
  let ?old = "pj_pool (ws_project ws)" and ?new = "pj_pool pj"
  have ok: "project_ok (ws_project ws)" using good by (simp add: workspace_good_def)
  note merged = project_merge_ok [OF ok room m]
  have pools: "pool_ok ?old" "pool_ok ?new" using ok merged(1) by (simp_all add: project_ok_def)
  have keep: "p \<in> set (pool_paths ?new)" if "p \<in> set (pool_paths ?old)" for p
    using pool_path_ex [OF pools(1) that] merged(3) pool_path_mem by blast
  have shard: "shard_archive hash (K p) (shard_at ws i)" if i: "pool_path ?new i = Some p" for i p
  proof (cases "pool_path ?old i")
    case (Some q)
    then have "q = p" using merged(3) [OF Some] i by simp
    then show ?thesis using Some good by (simp add: workspace_good_def)
  next
    case None
    have "p \<notin> set (pool_paths ?old)"
    proof
      assume "p \<in> set (pool_paths ?old)"
      then obtain j where j: "pool_path ?old j = Some p" using pool_path_ex [OF pools(1)] by blast
      then have "j = i" using project_pool.get_inj [OF pools(2) merged(3) [OF j] i] by blast
      then show False using j None by simp
    qed
    then have "K p = {}" "map_of (ws_shards ws) i = None" using good None by (simp_all add: workspace_good_def)
    then show ?thesis by (simp add: shard_at_def empty_shard_def shard_archive_def)
  qed
  have none: "pool_path ?old i = None" if "pool_path ?new i = None" for i
    using merged(3) [of i] that by (cases "pool_path ?old i") auto
  have at: "shard_at (ws\<lparr>ws_project := pj\<rparr>) i = shard_at ws i" for i by (simp add: shard_at_def)
  have out: "K p = {}" if "p \<notin> set (pool_paths ?new)" for p
    using good keep [of p] that unfolding workspace_good_def by blast
  show ?thesis
    unfolding workspace_good_def using good merged(1) shard none out by (simp add: workspace_good_def at)
qed

lemma indexer_merge_cases:
  fixes data :: flat_tu
  defines "tu \<equiv> tu_from data :: nat tu_index"
  assumes "indexer_merge env data ws = Some ws'" "ig_paths (tu_graph tu) \<noteq> []"
  obtains pj file_ids where "project_merge tu (ws_project ws) = Some (pj, file_ids)"
    "fold (merge_file_index env tu file_ids) (unit_files tu) (Some (ws\<lparr>ws_project := pj\<rparr>)) = Some ws'"
  using assms by (auto simp: indexer_merge_def Let_def unit_files_def split: option.splits)

lemma indexer_merge_good:
  assumes good: "workspace_good (file_hash (env_sha256 env)) D ws K"
    and room: "length (pool_paths (pj_pool (ws_project ws))) + length (ft_paths data) \<le> 2 ^ 32"
    and files: "snd ` set (unit_files (tu_from data :: nat tu_index)) \<subseteq> D"
    and m: "indexer_merge env data ws = Some ws'"
  shows "workspace_good (file_hash (env_sha256 env)) D ws' (note_unit (tu_from data :: nat tu_index) K)"
proof (cases "ig_paths (tu_graph (tu_from data :: nat tu_index)) = []")
  case True
  then show ?thesis using m good by (simp add: indexer_merge_def note_unit_def)
next
  case False
  let ?tu = "tu_from data :: nat tu_index"
  obtain pj file_ids where p: "project_merge ?tu (ws_project ws) = Some (pj, file_ids)"
    and f: "fold (merge_file_index env ?tu file_ids) (unit_files ?tu) (Some (ws\<lparr>ws_project := pj\<rparr>)) = Some ws'"
    using indexer_merge_cases [OF m False] .
  have room': "length (pool_paths (pj_pool (ws_project ws))) + length (ig_paths (tu_graph ?tu)) \<le> 2 ^ 32"
    using room by (simp add: tu_from_def)
  have ok: "project_ok (ws_project ws)" using good by (simp add: workspace_good_def)
  have "list_all2 (\<lambda>p i. pool_path (pj_pool (ws_project (ws\<lparr>ws_project := pj\<rparr>))) i = Some (normalize_path p))
      (ig_paths (tu_graph ?tu)) file_ids"
    using project_merge_ok(2) [OF ok room' p] by simp
  from merge_files_good [OF project_merge_good [OF good room' p] files this f] False
  show ?thesis by (simp add: note_unit_def)
qed

section \<open>The system\<close>

text \<open>
  A step merges a unit whose file indices come from \<open>D\<close> and whose paths fit into the pool, saves and
  reloads a shard, or looks an occurrence up. \<open>history\<close> records what was merged for each path.
\<close>

definition workspace_init :: "index_env \<Rightarrow> file_index set \<Rightarrow> workspace \<times> history \<Rightarrow> bool" where
  "workspace_init env D st \<longleftrightarrow> inj_on (file_hash (env_sha256 env)) D
     \<and> ws_project (fst st) = empty_project \<and> ws_shards (fst st) = [] \<and> snd st = (\<lambda>_. {})"

inductive workspace_step :: "index_env \<Rightarrow> file_index set \<Rightarrow> workspace \<times> history \<Rightarrow> workspace \<times> history \<Rightarrow> bool"
  for env D where
  merges_unit: "indexer_merge env data ws = Some ws' \<Longrightarrow> snd ` set (unit_files (tu_from data :: nat tu_index)) \<subseteq> D \<Longrightarrow>
    length (pool_paths (pj_pool (ws_project ws))) + length (ft_paths data) \<le> 2 ^ 32 \<Longrightarrow>
    workspace_step env D (ws, K) (ws', note_unit (tu_from data :: nat tu_index) K)"
| reloads_shard: "map_of (ws_shards ws) i = Some shard \<Longrightarrow> mi_serialize shard = Some fl \<Longrightarrow>
    workspace_step env D (ws, K) (put_shard i (load_file (Some fl)) ws, K)"
| resolves_cursor: "workspace_step env D (ws, K) (snd (resolve_cursor env path pos so ws), K)"

definition state_good :: "index_env \<Rightarrow> file_index set \<Rightarrow> workspace \<times> history \<Rightarrow> bool" where
  "state_good env D st = workspace_good (file_hash (env_sha256 env)) D (fst st) (snd st)"

text \<open>Replacing a shard that is there by one that stands for the same indices.\<close>

lemma workspace_good_same:
  assumes good: "workspace_good hash D ws K" and i: "map_of (ws_shards ws) i = Some shard"
    and s: "\<And>known. shard_archive hash known shard \<Longrightarrow> shard_archive hash known shard'"
  shows "workspace_good hash D (put_shard i shard' ws) K"
proof -
  obtain p where p: "pool_path (pj_pool (ws_project ws)) i = Some p"
    using good i by (cases "pool_path (pj_pool (ws_project ws)) i") (auto simp: workspace_good_def)
  have "shard_archive hash (K p) shard'" using good p i s by (auto simp: workspace_good_def shard_at_def split: option.splits)
  moreover have "K p \<subseteq> D" using good by (simp add: workspace_good_def)
  ultimately have "workspace_good hash D (put_shard i shard' ws) (K(p := K p))" by (rule workspace_good_put [OF good p])
  then show ?thesis by simp
qed

lemma shard_archive_lookup:
  "shard_archive hash known mi \<Longrightarrow> shard_archive hash known (snd (mi_lookup offset callback mi))"
  by (auto simp: shard_archive_def mi_lookup_def Let_def split: option.splits intro: archive_fill_cache)

lemma resolve_cursor_good:
  assumes "workspace_good hash D ws K"
  shows "workspace_good hash D (snd (resolve_cursor env path pos so ws)) K"
  using assms workspace_good_same [OF assms] shard_archive_lookup
  by (auto simp: resolve_cursor_def split: option.splits bool.splits prod.splits) (metis snd_conv)+

lemma state_good_step:
  assumes step: "workspace_step env D st st'" and good: "state_good env D st" shows "state_good env D st'"
  using step
proof (cases rule: workspace_step.cases)
  case (merges_unit data ws ws' K)
  then show ?thesis using good indexer_merge_good by (simp add: state_good_def)
next
  case (reloads_shard ws i shard fl K)
  then show ?thesis using good workspace_good_same [of _ D ws K i shard] shard_archive_save_load
    by (simp add: state_good_def)
next
  case (resolves_cursor ws K path pos so)
  then show ?thesis using good resolve_cursor_good by (simp add: state_good_def)
qed

lemma state_good_init: "workspace_init env D st \<Longrightarrow> state_good env D st"
  by (simp add: workspace_init_def state_good_def workspace_good_def project_ok_empty)
    (simp add: empty_project_def empty_pool_def pool_path_def)

interpretation indexed: safe_system "workspace_init env D" "workspace_step env D" "state_good env D"
  by unfold_locales (auto intro: state_good_init state_good_step)

section \<open>What a query answers\<close>

text \<open>Every index ever merged for a closed file that refers to the symbol contributes its relations.\<close>

definition disk_locations :: "index_env \<Rightarrow> sessions \<Rightarrow> workspace \<Rightarrow> history \<Rightarrow> u64 \<Rightarrow> relation_kind \<Rightarrow> location set" where
  "disk_locations env ss ws K h kind =
     {\<lparr>loc_uri = u, loc_range = rg\<rparr> | u rg f p fi r.
        f \<in> symbol_files (pj_symbols (ws_project ws)) h \<and> \<not> is_proj_path_open ws ss f
        \<and> pool_path (pj_pool (ws_project ws)) f = Some p \<and> env_uri env p = Some u
        \<and> fi \<in> K p \<and> has_relation fi h r \<and> rel_kind r = kind
        \<and> mi_line_starts (shard_at ws f) \<noteq> []
        \<and> range_in env (mi_content (shard_at ws f)) (mi_line_starts (shard_at ws f)) (rel_range r) = Some rg}"

text \<open>Every open file with a clean index contributes the relations of that index.\<close>

definition buffer_locations :: "index_env \<Rightarrow> sessions \<Rightarrow> workspace \<Rightarrow> u64 \<Rightarrow> relation_kind \<Rightarrow> location set" where
  "buffer_locations env ss ws h kind =
     {\<lparr>loc_uri = u, loc_range = rg\<rparr> | u rg i s fi rs r.
        (i, s) \<in> set ss \<and> \<not> se_ast_dirty s \<and> se_symbols s \<noteq> None \<and> se_file_index s = Some fi
        \<and> session_uri env ws i = Some u \<and> map_of (fi_relations fi) h = Some rs \<and> r \<in> set rs \<and> rel_kind r = kind
        \<and> range_in env (se_text s) (se_line_starts s) (rel_range r) = Some rg}"

lemma set_map_filter: "set (List.map_filter f xs) = {y. \<exists>x \<in> set xs. f x = Some y}"
  by (induction xs) (auto simp: List.map_filter_def)

lemma closed_shards_set:
  "set (closed_shards ws ss h) = {(f, shard). f \<in> symbol_files (pj_symbols (ws_project ws)) h \<and> \<not> is_proj_path_open ws ss f
     \<and> map_of (ws_shards ws) f = Some shard}"
  by (auto simp: closed_shards_def symbol_files_def set_map_filter split: option.splits if_splits)

lemma shard_locations_set:
  "set (shard_locations env ws h kind (f, shard)) =
     {\<lparr>loc_uri = u, loc_range = rg\<rparr> | u rg r. project_uri env ws f = Some u \<and> mi_line_starts shard \<noteq> []
        \<and> r \<in> set (mi_lookup_relations h kind (\<lambda>_. True) shard)
        \<and> range_in env (mi_content shard) (mi_line_starts shard) (rel_range r) = Some rg}"
  by (auto simp: shard_locations_def set_map_filter split: option.splits)

lemma session_locations_set:
  "set (session_locations env ws h kind (i, s)) =
     {\<lparr>loc_uri = u, loc_range = rg\<rparr> | u rg r. session_uri env ws i = Some u
        \<and> r \<in> set (session_relations s h kind (\<lambda>_. True))
        \<and> range_in env (se_text s) (se_line_starts s) (rel_range r) = Some rg}"
  by (auto simp: session_locations_def set_map_filter split: option.splits)

lemma session_relations_set:
  "set (session_relations s h kind (\<lambda>_. True)) =
     {r. \<exists>fi rs. se_file_index s = Some fi \<and> map_of (fi_relations fi) h = Some rs \<and> r \<in> set rs \<and> rel_kind r = kind}"
proof (cases "se_file_index s")
  case (Some fi)
  then show ?thesis
    by (cases "map_of (fi_relations fi) h") (auto simp: session_relations_def file_lookup_relations_def visit_matching_all kind_and_eq)
qed (simp add: session_relations_def)

lemma disk_part:
  assumes good: "workspace_good hash D ws K"
  shows "(\<Union>e \<in> set (closed_shards ws ss h). set (shard_locations env ws h kind e)) = disk_locations env ss ws K h kind"
proof -
  have shard: "set (mi_lookup_relations h kind (\<lambda>_. True) shard) = {r. rel_kind r = kind \<and> (\<exists>fi \<in> K p. has_relation fi h r)}"
    "shard_at ws f = shard"
    if s: "map_of (ws_shards ws) f = Some shard" and p: "pool_path (pj_pool (ws_project ws)) f = Some p" for f p shard
  proof -
    show at: "shard_at ws f = shard" using s by (simp add: shard_at_def)
    have "shard_archive hash (K p) (shard_at ws f)" using good p by (simp add: workspace_good_def)
    then show "set (mi_lookup_relations h kind (\<lambda>_. True) shard) = {r. rel_kind r = kind \<and> (\<exists>fi \<in> K p. has_relation fi h r)}"
      unfolding at by (rule shard_relations)
  qed
  have there: "\<exists>shard. map_of (ws_shards ws) f = Some shard"
    if "fi \<in> K p" "pool_path (pj_pool (ws_project ws)) f = Some p" for f p fi
  proof (rule ccontr)
    assume "\<not> ?thesis"
    then have "shard_at ws f = empty_shard" by (simp add: shard_at_def)
    moreover have "shard_archive hash (K p) (shard_at ws f)" using good that(2) by (simp add: workspace_good_def)
    ultimately show False using that(1) by (simp add: empty_shard_def shard_archive_def)
  qed
  have uri: "project_uri env ws f = Some u \<longleftrightarrow> (\<exists>p. pool_path (pj_pool (ws_project ws)) f = Some p \<and> env_uri env p = Some u)" for f u
    by (auto simp: project_uri_def split: option.splits)
  show ?thesis
  proof (intro set_eqI iffI)
    fix l
    assume "l \<in> (\<Union>e \<in> set (closed_shards ws ss h). set (shard_locations env ws h kind e))"
    then obtain f sh u rg r where f: "f \<in> symbol_files (pj_symbols (ws_project ws)) h" "\<not> is_proj_path_open ws ss f"
      and sh: "map_of (ws_shards ws) f = Some sh" and u: "project_uri env ws f = Some u" and ls: "mi_line_starts sh \<noteq> []"
      and r: "r \<in> set (mi_lookup_relations h kind (\<lambda>_. True) sh)"
      and rg: "range_in env (mi_content sh) (mi_line_starts sh) (rel_range r) = Some rg"
      and l: "l = \<lparr>loc_uri = u, loc_range = rg\<rparr>"
      by (auto simp: closed_shards_set shard_locations_set)
    obtain p where p: "pool_path (pj_pool (ws_project ws)) f = Some p" "env_uri env p = Some u" using u uri by blast
    obtain fi where fi: "fi \<in> K p" "has_relation fi h r" "rel_kind r = kind" using r shard(1) [OF sh p(1)] by blast
    have "shard_at ws f = sh" using shard(2) [OF sh p(1)] .
    then show "l \<in> disk_locations env ss ws K h kind"
      unfolding disk_locations_def l using f p fi ls rg by blast
  next
    fix l
    assume "l \<in> disk_locations env ss ws K h kind"
    then obtain u rg f p fi r where f: "f \<in> symbol_files (pj_symbols (ws_project ws)) h" "\<not> is_proj_path_open ws ss f"
      and p: "pool_path (pj_pool (ws_project ws)) f = Some p" and u: "env_uri env p = Some u"
      and fi: "fi \<in> K p" "has_relation fi h r" "rel_kind r = kind"
      and rg: "mi_line_starts (shard_at ws f) \<noteq> []"
        "range_in env (mi_content (shard_at ws f)) (mi_line_starts (shard_at ws f)) (rel_range r) = Some rg"
      and l: "l = \<lparr>loc_uri = u, loc_range = rg\<rparr>"
      unfolding disk_locations_def by blast
    obtain sh where sh: "map_of (ws_shards ws) f = Some sh" using there [OF fi(1) p] by blast
    have "r \<in> set (mi_lookup_relations h kind (\<lambda>_. True) sh)" using shard(1) [OF sh p] fi by blast
    then have "l \<in> set (shard_locations env ws h kind (f, sh))"
      unfolding shard_locations_set l using rg [unfolded shard(2) [OF sh p]] uri p u by blast
    moreover have "(f, sh) \<in> set (closed_shards ws ss h)" using f sh by (simp add: closed_shards_set)
    ultimately show "l \<in> (\<Union>e \<in> set (closed_shards ws ss h). set (shard_locations env ws h kind e))" by blast
  qed
qed

lemma buffer_part:
  "(\<Union>e \<in> set (each_session ss). set (session_locations env ws h kind e)) = buffer_locations env ss ws h kind"
  unfolding buffer_locations_def each_session_def
  by (auto simp: session_locations_set session_relations_set) blast+

text \<open>
  C16: a query for the relations of the symbol under the cursor returns exactly the locations of two
  sources. For every file the symbol's entry refers to and that is not open, it returns the relations
  of every index that was ever merged for that path, however often the file was indexed again, saved
  and reloaded. For every open file with a clean index, it returns the relations of that index. An
  open file whose index is out of date contributes nothing.
\<close>

theorem query_relations_answers:
  assumes "reached (workspace_init env D) (workspace_step env D) (ws0, K)"
    and "query_relations env path pos kind so ss ws0 = (locations, ws)"
    and "hit_hash (fst (resolve_cursor env path pos so ws0)) = h" "h \<noteq> 0"
  shows "set locations = disk_locations env ss ws K h kind \<union> buffer_locations env ss ws h kind"
proof -
  have ws: "ws = snd (resolve_cursor env path pos so ws0)"
    and l: "locations = concat (map (shard_locations env ws h kind) (closed_shards ws ss h))
            @ concat (map (session_locations env ws h kind) (each_session ss))"
    using assms(2-4) by (auto simp: query_relations_def Let_def split: prod.splits if_splits)
  have "reached (workspace_init env D) (workspace_step env D) (ws, K)"
    unfolding ws by (rule reached_step [OF assms(1) resolves_cursor])
  then have "workspace_good (file_hash (env_sha256 env)) D ws K" using indexed.reached_good by (auto simp: state_good_def)
  from disk_part [OF this] buffer_part show ?thesis by (simp add: l)
qed

definition ex_env :: index_env where
  "ex_env = \<lparr>env_sha256 = (\<lambda>b. b), env_line_starts = ex_starts, env_read = (\<lambda>_. Some ''x''), env_mtime = (\<lambda>_. Some 0),
     env_to_offset = (\<lambda>_ _ p. Some (pos_character p)),
     env_to_range = (\<lambda>_ _ a b. Some (\<lparr>pos_line = 0, pos_character = a\<rparr>, \<lparr>pos_line = 0, pos_character = b\<rparr>)),
     env_to_position = (\<lambda>_ _ a. Some \<lparr>pos_line = 0, pos_character = a\<rparr>), env_uri = (\<lambda>p. Some p), env_lower = (\<lambda>s. s)\<rparr>"

definition ex_unit :: flat_tu where
  "ex_unit = \<lparr>ft_built_at = 1, ft_paths = [''/a''], ft_locations = [],
     ft_symbols = [(7, \<lparr>sym_name = ''f'', sym_kind = KFunction, sym_scope = External, sym_files = {0}\<rparr>)],
     ft_files = [], ft_main = (0, ex_file 5 10)\<rparr>"

definition ex_start :: workspace where
  "ex_start = \<lparr>ws_project = empty_project, ws_shards = [], ws_pool = empty_pool\<rparr>"

definition ex_indexed :: workspace where
  "ex_indexed = the (indexer_merge ex_env ex_unit ex_start)"

definition ex_session :: session where
  "ex_session = \<lparr>se_text = ''x'', se_line_starts = [0], se_ast_dirty = False, se_file_index = Some (ex_file 5 10), se_symbols = Some []\<rparr>"

lemma ex_indexed_reached:
  "reached (workspace_init ex_env {ex_file 5 10}) (workspace_step ex_env {ex_file 5 10})
     (ex_indexed, note_unit (tu_from ex_unit :: nat tu_index) (\<lambda>_. {}))"
proof -
  have "reached (workspace_init ex_env {ex_file 5 10}) (workspace_step ex_env {ex_file 5 10}) (ex_start, \<lambda>_. {})"
    by (rule reached_init) (simp add: workspace_init_def ex_start_def)
  moreover have "\<not> Option.is_none (indexer_merge ex_env ex_unit ex_start)" by code_simp
  then have "indexer_merge ex_env ex_unit ex_start = Some ex_indexed"
    unfolding ex_indexed_def by (cases "indexer_merge ex_env ex_unit ex_start") simp_all
  moreover have "snd ` set (unit_files (tu_from ex_unit :: nat tu_index)) \<subseteq> {ex_file 5 10}"
    by (simp add: unit_files_def tu_from_def ex_unit_def put_all_def read_file_index_def read_relations_def ex_file_def)
  ultimately show ?thesis
    by (elim reached_step, intro merges_unit)
      (simp_all add: ex_start_def empty_project_def empty_pool_def ex_unit_def)
qed

theorem query_relations_answers_witness:
  "set (fst (query_relations ex_env ''/b'' \<lparr>pos_line = 0, pos_character = 6\<rparr> Definition (Some ex_session) [] ex_indexed))
     = disk_locations ex_env [] ex_indexed (note_unit (tu_from ex_unit :: nat tu_index) (\<lambda>_. {})) 7 Definition
       \<union> buffer_locations ex_env [] ex_indexed 7 Definition"
proof -
  have r: "resolve_cursor ex_env ''/b'' \<lparr>pos_line = 0, pos_character = 6\<rparr> (Some ex_session) ex_indexed
      = (\<lparr>hit_hash = 7, hit_range = (\<lparr>pos_line = 0, pos_character = 5\<rparr>, \<lparr>pos_line = 0, pos_character = 10\<rparr>)\<rparr>, ex_indexed)"
    unfolding resolve_cursor_def ex_session_def ex_env_def by (simp, code_simp)
  then have "query_relations ex_env ''/b'' \<lparr>pos_line = 0, pos_character = 6\<rparr> Definition (Some ex_session) [] ex_indexed
      = (fst (query_relations ex_env ''/b'' \<lparr>pos_line = 0, pos_character = 6\<rparr> Definition (Some ex_session) [] ex_indexed), ex_indexed)"
    by (simp add: query_relations_def)
  from query_relations_answers [OF ex_indexed_reached this, of 7] r show ?thesis by simp
qed

end
