(* ===== verification/Indexer_Stale.thy ===== *)
theory Indexer_Stale
  imports Indexer_Props
begin

text \<open>
  When a file is indexed again: what \<open>Indexer::need_update\<close> looks at. A shard has at most the
  compilation context of its own file, and the locations of that context are the included files.
\<close>

section \<open>The compilation context of a shard\<close>

definition impl_owned :: "u32 \<Rightarrow> impl \<Rightarrow> bool" where
  "impl_owned i im \<longleftrightarrow> compilation_contexts im = [] \<or> (\<exists>c. compilation_contexts im = [(i, c)])"

definition shard_owned :: "u32 \<Rightarrow> merged_index \<Rightarrow> bool" where
  "shard_owned i mi \<longleftrightarrow>
     (case mi_impl mi of
        Some im \<Rightarrow> mi_buffer mi = None \<and> impl_owned i im
      | None \<Rightarrow> case mi_buffer mi of None \<Rightarrow> True | Some fl \<Rightarrow> \<exists>im. impl_owned i im \<and> fl = flatten im)"

definition shards_owned :: "workspace \<Rightarrow> bool" where
  "shards_owned ws \<longleftrightarrow> (\<forall>i. shard_owned i (shard_at ws i))"

lemma compilation_contexts_merge:
  "frames_context add im \<Longrightarrow>
   compilation_contexts (impl_merge h fi add im) = compilation_contexts (add (merged_id h im) im)"
  by (cases "map_of (canonical_cache im) h") (simp_all add: impl_merge_new impl_merge_found merged_id_def)

lemma owned_update: "impl_owned i im \<Longrightarrow> AList.update i c (compilation_contexts im) = [(i, c)]"
  by (auto simp: impl_owned_def)

text \<open>A main-file merge leaves exactly the context it adds.\<close>

lemma contexts_after_compilation:
  assumes "impl_owned i im"
  shows "\<exists>c. compilation_contexts (impl_merge_compilation bls hash i built locs fi t im) = [(i, c)] \<and> cc_locations c = locs"
proof -
  let ?im = "im\<lparr>im_content := t, im_line_starts := bls t\<rparr>"
  have "impl_owned i ?im" using assms by (simp add: impl_owned_def)
  from owned_update [OF this] show ?thesis
    using compilation_contexts_merge [OF frames_compilation, of "hash fi" fi i built locs ?im]
    by (simp add: impl_merge_compilation_def set_compilation_context_def Let_def)
qed

lemma owned_header: "impl_owned i im \<Longrightarrow> impl_owned i (impl_merge_header bls hash path inc fi t im)"
  using compilation_contexts_merge [OF frames_header, of "hash fi" fi path inc im]
    compilation_contexts_merge [OF frames_header, of "hash fi" fi path inc "im\<lparr>im_content := t, im_line_starts := bls t\<rparr>"]
  by (simp add: impl_owned_def impl_merge_header_def add_header_context_def Let_def)

lemma owned_reload: "impl_owned i im \<Longrightarrow> impl_owned i (load_flat bls (flatten im))"
  using emplace_into_distinct [of "[]" "compilation_contexts im"]
  by (auto simp: impl_owned_def load_flat_def flatten_def Let_def)

lemma owned_empty: "impl_owned i empty_impl"
  by (simp add: impl_owned_def empty_impl_def)

lemma owned_compilation: "impl_owned i im \<Longrightarrow> impl_owned i (impl_merge_compilation bls hash i built locs fi t im)"
  using contexts_after_compilation [of i im bls hash built locs fi t] by (auto simp: impl_owned_def)

lemma owned_symbols: "impl_owned i im \<Longrightarrow> impl_owned i (impl_merge_symbols syms im)"
  by (simp add: impl_owned_def impl_merge_symbols_def)

lemma shard_owned_modify:
  assumes "shard_owned i mi" "\<And>im. impl_owned i im \<Longrightarrow> impl_owned i (f im)"
  shows "shard_owned i (modify bls f mi)"
  using assms owned_reload [of i _ bls] owned_empty
  by (auto simp: shard_owned_def modify_def load_in_memory_def Let_def split: option.splits)

lemma shard_owned_merges:
  assumes "shard_owned i mi"
  shows "shard_owned i (merge_symbols bls syms mi)" "shard_owned i (merge_header bls hash path inc fi t mi)"
    "shard_owned i (merge_compilation bls hash i built locs fi t mi)"
  unfolding merge_symbols_def merge_header_def merge_compilation_def
  by (rule shard_owned_modify [OF assms]; erule owned_symbols owned_header owned_compilation)+

lemma shards_owned_put: "shards_owned ws \<Longrightarrow> shard_owned i s \<Longrightarrow> shards_owned (put_shard i s ws)"
  by (simp add: shards_owned_def shard_at_put)

lemma merge_file_index_owned:
  assumes "shards_owned ws" "merge_file_index env tu file_ids e (Some ws) = Some ws'"
  shows "shards_owned ws'"
proof (cases e)
  case (Pair tu_path fi)
  have "shard_owned g (shard_at ws g)" for g using assms(1) by (simp add: shards_owned_def)
  note own = shards_owned_put [OF assms(1)] shard_owned_merges(1) [OF shard_owned_merges(2) [OF this]]
    shard_owned_merges(1) [OF shard_owned_merges(3) [OF this]] this
  show ?thesis using assms(2) own unfolding Pair
    by (auto simp: merge_file_index_def Let_def split: if_splits option.splits)
qed

lemma merge_files_owned:
  "shards_owned ws \<Longrightarrow> fold (merge_file_index env tu file_ids) es (Some ws) = Some ws' \<Longrightarrow> shards_owned ws'"
proof (induction es arbitrary: ws)
  case (Cons e es)
  have none: "fold (merge_file_index env tu file_ids) es None = None" by (induction es) (auto simp: merge_file_index_def)
  obtain ws1 where 1: "merge_file_index env tu file_ids e (Some ws) = Some ws1"
    using Cons.prems(2) none by (cases "merge_file_index env tu file_ids e (Some ws)") auto
  then show ?case using Cons merge_file_index_owned [OF Cons.prems(1) 1] by simp
qed simp

lemma shard_owned_save_load: "shard_owned i mi \<Longrightarrow> mi_serialize mi = Some fl \<Longrightarrow> shard_owned i (load_file (Some fl))"
  by (auto simp: shard_owned_def mi_serialize_def load_file_def split: option.splits)

lemma shard_owned_lookup: "shard_owned i mi \<Longrightarrow> shard_owned i (snd (mi_lookup offset callback mi))"
  by (auto simp: shard_owned_def mi_lookup_def Let_def impl_owned_def fill_cache_def split: option.splits)

lemma resolve_cursor_owned: "shards_owned ws \<Longrightarrow> shards_owned (snd (resolve_cursor env path pos so ws))"
proof -
  assume own: "shards_owned ws"
  have "shards_owned (put_shard i (snd (mi_lookup offset callback shard)) ws)"
    if "map_of (ws_shards ws) i = Some shard" for i shard offset callback
  proof -
    have "shard_at ws i = shard" using that by (simp add: shard_at_def)
    then have "shard_owned i shard" using own by (auto simp: shards_owned_def)
    then show ?thesis by (intro shards_owned_put [OF own] shard_owned_lookup)
  qed
  then show ?thesis using own
    by (auto simp: resolve_cursor_def split: option.splits bool.splits prod.splits) (metis snd_conv)+
qed

lemma workspace_owned_step:
  assumes "workspace_step env D st st'" "shards_owned (fst st)" shows "shards_owned (fst st')"
  using assms(1)
proof (cases rule: workspace_step.cases)
  case (merges_unit data ws ws' K)
  have own: "shards_owned (ws\<lparr>ws_project := pj\<rparr>)" for pj
    using assms(2) merges_unit(1) by (simp add: shards_owned_def shard_at_def)
  show ?thesis
  proof (cases "ig_paths (tu_graph (tu_from data :: nat tu_index)) = []")
    case True
    then show ?thesis using merges_unit assms(2) by (simp add: indexer_merge_def)
  next
    case False
    then show ?thesis using indexer_merge_cases [OF merges_unit(3) False] merge_files_owned [OF own] merges_unit(2) by (metis fst_conv)
  qed
next
  case (reloads_shard ws i shard fl K)
  have "shard_at ws i = shard" using reloads_shard by (simp add: shard_at_def)
  then have "shard_owned i shard" using assms(2) reloads_shard(1) by (auto simp: shards_owned_def)
  then show ?thesis using reloads_shard assms(2) shards_owned_put shard_owned_save_load by simp
next
  case (resolves_cursor ws K path pos so)
  then show ?thesis using assms(2) resolve_cursor_owned by simp
qed

interpretation owned: safe_system "workspace_init env D" "workspace_step env D" "\<lambda>st. shards_owned (fst st)"
proof unfold_locales
  show "workspace_init env D st \<Longrightarrow> shards_owned (fst st)" for st
    by (simp add: workspace_init_def shards_owned_def shard_at_def empty_shard_def shard_owned_def)
qed (rule workspace_owned_step)

section \<open>Which files are looked at\<close>

lemma stale_dependency_cong:
  "(\<And>l. l \<in> set ls \<Longrightarrow> m (il_path l) = m' (il_path l)) \<Longrightarrow>
   stale_dependency m built deps ls = stale_dependency m' built deps ls"
proof (induction ls arbitrary: deps)
  case (Cons l ls)
  then have "stale_dependency m built deps' ls = stale_dependency m' built deps' ls" for deps' by simp
  moreover have "m (il_path l) = m' (il_path l)" using Cons.prems by simp
  ultimately show ?case by (simp split: option.split)
qed simp

text \<open>The shard of a main file right after the file was merged.\<close>

lemma main_shard_after_merge:
  assumes own: "shard_owned i mi"
  shows "\<exists>im c. merge_symbols bls syms (merge_compilation bls hash i built locs fi t mi) = \<lparr>mi_buffer = None, mi_impl = Some im\<rparr>
    \<and> compilation_contexts im = [(i, c)] \<and> cc_locations c = locs"
proof -
  obtain im where im: "load_in_memory bls mi = \<lparr>mi_buffer = None, mi_impl = Some im\<rparr>" "impl_owned i im"
    using own owned_empty owned_reload by (cases mi) (auto simp: shard_owned_def load_in_memory_def split: option.splits)
  obtain c where "compilation_contexts (impl_merge_compilation bls hash i built locs fi t im) = [(i, c)]" "cc_locations c = locs"
    using contexts_after_compilation [OF im(2)] by blast
  then show ?thesis
    using im(1) by (simp add: merge_symbols_def merge_compilation_def modify_def load_in_memory_def impl_merge_symbols_def)
qed

lemma merge_files_project:
  "fold (merge_file_index env tu file_ids) es (Some ws) = Some ws' \<Longrightarrow> ws_project ws' = ws_project ws"
proof (induction es arbitrary: ws)
  case (Cons e es)
  have none: "fold (merge_file_index env tu file_ids) es None = None" by (induction es) (auto simp: merge_file_index_def)
  obtain ws1 where 1: "merge_file_index env tu file_ids e (Some ws) = Some ws1"
    using Cons.prems none by (cases "merge_file_index env tu file_ids e (Some ws)") auto
  then have "ws_project ws1 = ws_project ws"
    by (auto simp: merge_file_index_def Let_def split: prod.splits if_splits option.splits)
  then show ?case using Cons 1 by simp
qed simp

lemma main_merge_result:
  assumes "merge_file_index env tu file_ids (main_path_id tu, fi) (Some ws) = Some ws'"
  defines "g \<equiv> file_ids ! unat (main_path_id tu)"
  defines "locs \<equiv> map (\<lambda>l. l\<lparr>il_path := file_ids ! unat (il_path l)\<rparr>) (ig_locations (tu_graph tu))"
  shows "\<exists>t. ws' = put_shard g (merge_symbols (env_line_starts env) (collect_local_symbols (tu_symbols tu) fi)
      (merge_compilation (env_line_starts env) (file_hash (env_sha256 env)) g (tu_built_at tu) locs fi t (shard_at ws g))) ws"
    and "unat (main_path_id tu) < length file_ids"
    and "l \<in> set (ig_locations (tu_graph tu)) \<Longrightarrow> unat (il_path l) < length file_ids"
  using assms by (auto simp: merge_file_index_def Let_def split: if_splits option.splits)

lemma need_update_main:
  assumes "pool_ok (pj_pool (ws_project ws))" "pool_path (pj_pool (ws_project ws)) g = Some main" "normalize_path main = main"
    and "map_of (ws_shards ws) g = Some \<lparr>mi_buffer = None, mi_impl = Some im\<rparr>" "compilation_contexts im = [(g, c)]"
  shows "need_update env ws main = stale_dependency
    (\<lambda>p. case pool_path (pj_pool (ws_project ws)) p of None \<Rightarrow> None | Some s \<Rightarrow> env_mtime env s) (cc_build_at c) {} (cc_locations c)"
proof -
  have "pool_find (pj_pool (ws_project ws)) main = Some g"
    using assms(1-3) by (simp add: pool_find_cache pool_ok_def pool_path_resolve)
  then show ?thesis using assms(4,5) by (simp add: need_update_def mi_need_update_def contexts_stale_def)
qed

text \<open>
  Right after a main file was indexed, whether it has to be indexed again does not depend on its
  own modification time at all. The locations that are checked are the files it includes, and the main
  file is not among them unless it includes itself. An edited source file is therefore not indexed
  again as long as its headers are unchanged.
\<close>

theorem source_change_not_noticed:
  fixes data :: flat_tu and env :: index_env
  defines "tu \<equiv> tu_from data :: nat tu_index"
  defines "main \<equiv> normalize_path (last (ig_paths (tu_graph tu)))"
  assumes "reached (workspace_init env D) (workspace_step env D) (ws, K)"
    and "indexer_merge env data ws = Some ws'" "ig_paths (tu_graph tu) \<noteq> []"
    and "length (pool_paths (pj_pool (ws_project ws))) + length (ft_paths data) \<le> 2 ^ 32"
    and "\<And>l. l \<in> set (ig_locations (tu_graph tu)) \<Longrightarrow> normalize_path (ig_paths (tu_graph tu) ! unat (il_path l)) \<noteq> main"
    and "\<And>p. p \<noteq> main \<Longrightarrow> mtime' p = env_mtime env p"
  shows "need_update (env\<lparr>env_mtime := mtime'\<rparr>) ws' main = need_update env ws' main"
proof -
  let ?paths = "ig_paths (tu_graph tu)"
  obtain pj file_ids where p: "project_merge tu (ws_project ws) = Some (pj, file_ids)"
    and f: "fold (merge_file_index env tu file_ids) (unit_files tu) (Some (ws\<lparr>ws_project := pj\<rparr>)) = Some ws'"
    using indexer_merge_cases [OF assms(4) assms(5) [unfolded tu_def]] unfolding tu_def .
  have good: "workspace_good (file_hash (env_sha256 env)) D ws K" and own: "shards_owned ws"
    using indexed.reached_good [OF assms(3)] owned.reached_good [OF assms(3)] by (simp_all add: state_good_def)
  have room: "length (pool_paths (pj_pool (ws_project ws))) + length ?paths \<le> 2 ^ 32"
    using assms(6) by (simp add: tu_def tu_from_def)
  have pok: "project_ok (ws_project ws)" using good by (simp add: workspace_good_def)
  note names = project_merge_ok(2) [OF pok room p]
  obtain ws1 where w1: "fold (merge_file_index env tu file_ids) (tu_path_files tu) (Some (ws\<lparr>ws_project := pj\<rparr>)) = Some ws1"
    and last: "merge_file_index env tu file_ids (main_path_id tu, tu_main tu) (Some ws1) = Some ws'"
    using f by (cases "fold (merge_file_index env tu file_ids) (tu_path_files tu) (Some (ws\<lparr>ws_project := pj\<rparr>))")
      (auto simp: unit_files_def merge_file_index_def)
  have own1: "shards_owned ws1" using merge_files_owned [OF _ w1] own by (simp add: shards_owned_def shard_at_def)
  let ?g = "file_ids ! unat (main_path_id tu)"
  let ?locs = "map (\<lambda>l. l\<lparr>il_path := file_ids ! unat (il_path l)\<rparr>) (ig_locations (tu_graph tu))"
  note main = main_merge_result [OF last]
  obtain t where ws': "ws' = put_shard ?g (merge_symbols (env_line_starts env) (collect_local_symbols (tu_symbols tu) (tu_main tu))
      (merge_compilation (env_line_starts env) (file_hash (env_sha256 env)) ?g (tu_built_at tu) ?locs (tu_main tu) t (shard_at ws1 ?g))) ws1"
    using main(1) by blast
  have pj: "ws_project ws' = pj" using merge_files_project [OF f] by simp
  have "shard_owned ?g (shard_at ws1 ?g)" using own1 by (simp add: shards_owned_def)
  then obtain im c where shard: "map_of (ws_shards ws') ?g = Some \<lparr>mi_buffer = None, mi_impl = Some im\<rparr>"
    and c: "compilation_contexts im = [(?g, c)]" "cc_locations c = ?locs"
    using main_shard_after_merge [of ?g "shard_at ws1 ?g"] unfolding ws' shards_put by fastforce
  have path: "pool_path (pj_pool (ws_project ws')) (file_ids ! k) = Some (normalize_path (?paths ! k))"
    if "k < length file_ids" for k
    using list_all2_nthD2 [OF names that] by (simp add: pj)
  have "length ?paths - 1 < 2 ^ 32" using room assms(5) by (cases ?paths) auto
  then have "unat (main_path_id tu) = length ?paths - 1" by (simp add: main_path_id_def unat_of_nat)
  then have g: "pool_path (pj_pool (ws_project ws')) ?g = Some main"
    using path [OF main(2)] assms(5) by (simp add: main_def last_conv_nth)
  have norm: "normalize_path main = main" by (simp add: main_def normalize_path_idem)
  have pool: "pool_ok (pj_pool (ws_project ws'))" using project_merge_ok(1) [OF pok room p] by (simp add: pj project_ok_def)
  note now = need_update_main [OF pool g norm shard c(1)]
  have other: "pool_path (pj_pool (ws_project ws')) (il_path l) \<noteq> Some main" if l: "l \<in> set (cc_locations c)" for l
  proof -
    obtain l0 where l0: "l0 \<in> set (ig_locations (tu_graph tu))" "il_path l = file_ids ! unat (il_path l0)"
      using l by (auto simp: c(2))
    then show ?thesis using path [OF main(3) [OF l0(1)]] assms(7) [OF l0(1)] by simp
  qed
  have "(case pool_path (pj_pool (ws_project ws')) (il_path l) of None \<Rightarrow> None | Some s \<Rightarrow> mtime' s)
      = (case pool_path (pj_pool (ws_project ws')) (il_path l) of None \<Rightarrow> None | Some s \<Rightarrow> env_mtime env s)"
    if "l \<in> set (cc_locations c)" for l
    using other [OF that] assms(8) by (cases "pool_path (pj_pool (ws_project ws')) (il_path l)") auto
  moreover have clock: "env_mtime (env\<lparr>env_mtime := mtime'\<rparr>) = mtime'" by simp
  ultimately show ?thesis unfolding now clock by (intro stale_dependency_cong)
qed

theorem source_change_not_noticed_witness:
  "need_update (ex_env\<lparr>env_mtime := (\<lambda>p. if p = ''/a'' then Some 5 else Some 0)\<rparr>) ex_indexed ''/a'' = need_update ex_env ex_indexed ''/a''"
proof -
  have "reached (workspace_init ex_env {ex_file 5 10}) (workspace_step ex_env {ex_file 5 10}) (ex_start, \<lambda>_. {})"
    by (rule reached_init) (simp add: workspace_init_def ex_start_def)
  note s = source_change_not_noticed [OF this, of ex_unit ex_indexed "\<lambda>p. if p = ''/a'' then Some 5 else Some 0"]
  have "\<not> Option.is_none (indexer_merge ex_env ex_unit ex_start)" by code_simp
  then have "indexer_merge ex_env ex_unit ex_start = Some ex_indexed"
    unfolding ex_indexed_def by (cases "indexer_merge ex_env ex_unit ex_start") simp_all
  then have "need_update (ex_env\<lparr>env_mtime := (\<lambda>p. if p = ''/a'' then Some 5 else Some 0)\<rparr>) ex_indexed (normalize_path ''/a'')
      = need_update ex_env ex_indexed (normalize_path ''/a'')"
    using s by (simp add: tu_from_def ex_unit_def ex_start_def empty_project_def empty_pool_def ex_env_def normalize_path_def)
  then show ?thesis by (simp add: normalize_path_def)
qed

end
