(* ===== verification/Indexer_Sched.thy ===== *)
theory Indexer_Sched
  imports Clice_Prelude "HOL-Library.Multiset"
begin

text \<open>
  The background scheduling of \<open>src/src/server/compiler/indexer.{h,cpp}\<close>: the queue, the idle timer,
  pausing, and the coroutine \<open>run_background_indexing\<close> with the tasks it spawns. A coroutine is a run
  with the point it is suspended at; every step is the code between two suspension points, so steps of
  several runs, of user requests and of finished workers interleave in any order. Cancellation
  (\<open>stop\<close>) ends the server and is not modelled.
\<close>

section \<open>State\<close>

text \<open>Where a run waits: the idle timer, the progress token, its next iteration, the resume event, its tasks, the save.\<close>

datatype phase = Timer | Progress | Loop | Resume | Join | Save | Ended

record run =
  run_phase :: phase
  run_workers :: "u32 list"
  run_dispatched :: nat
  run_completed :: nat
  run_total :: nat

record sched =
  index_queue :: "u32 list"
  index_queue_pos :: nat
  indexing_active :: bool
  indexing_scheduled :: bool
  pause_depth :: nat
  resume_event :: bool
  bg_runs :: "run list"

definition sched_init :: sched where
  "sched_init = \<lparr>index_queue = [], index_queue_pos = 0, indexing_active = False, indexing_scheduled = False,
     pause_depth = 0, resume_event = True, bg_runs = []\<rparr>"

section \<open>Requests\<close>

definition enqueue :: "u32 \<Rightarrow> sched \<Rightarrow> sched" where
  "enqueue f s = s\<lparr>index_queue := index_queue s @ [f]\<rparr>"

definition pause_indexing :: "sched \<Rightarrow> sched" where
  "pause_indexing s =
     (let s1 = s\<lparr>pause_depth := pause_depth s + 1\<rparr> in if pause_depth s1 = 1 then s1\<lparr>resume_event := False\<rparr> else s1)"

definition resume_indexing :: "sched \<Rightarrow> sched" where
  "resume_indexing s =
     (let s1 = (if 0 < pause_depth s then s\<lparr>pause_depth := pause_depth s - 1\<rparr> else s) in
      if pause_depth s1 = 0 then s1\<lparr>resume_event := True\<rparr> else s1)"

text \<open>\<open>spawned\<close> is the result of \<open>bg_tasks.spawn\<close>, which fails when the group is stopped.\<close>

definition schedule :: "bool \<Rightarrow> bool \<Rightarrow> sched \<Rightarrow> sched" where
  "schedule enable spawned s =
     (if \<not> enable \<or> indexing_active s \<or> indexing_scheduled s then s
      else
        let s1 = s\<lparr>indexing_scheduled := True\<rparr> in
        if spawned
        then s1\<lparr>bg_runs := bg_runs s1 @ [\<lparr>run_phase = Timer, run_workers = [], run_dispatched = 0, run_completed = 0, run_total = 0\<rparr>]\<rparr>
        else s1\<lparr>indexing_scheduled := False\<rparr>)"

definition is_idle :: "sched \<Rightarrow> bool" where
  "is_idle s \<longleftrightarrow> \<not> indexing_active s \<and> length (index_queue s) \<le> index_queue_pos s"

definition pending_files :: "sched \<Rightarrow> nat" where
  "pending_files s = (if index_queue_pos s < length (index_queue s) then length (index_queue s) - index_queue_pos s else 0)"

section \<open>The coroutine\<close>

definition set_run :: "nat \<Rightarrow> run \<Rightarrow> sched \<Rightarrow> sched" where
  "set_run k r s = s\<lparr>bg_runs := (bg_runs s)[k := r]\<rparr>"

text \<open>\<open>std::stable_partition\<close> of the part of the queue that is left.\<close>

definition partition_queue :: "(u32 \<Rightarrow> bool) \<Rightarrow> sched \<Rightarrow> sched" where
  "partition_queue is_module s =
     (let left = drop (index_queue_pos s) (index_queue s) in
      s\<lparr>index_queue := take (index_queue_pos s) (index_queue s) @ filter is_module left @ filter (\<lambda>f. \<not> is_module f) left\<rparr>)"

definition timer_fires :: "(u32 \<Rightarrow> bool) \<Rightarrow> bool \<Rightarrow> nat \<Rightarrow> sched \<Rightarrow> sched" where
  "timer_fires is_module peer k s =
     (let r = bg_runs s ! k; s1 = s\<lparr>indexing_scheduled := False\<rparr> in
      if length (index_queue s1) \<le> index_queue_pos s1 then set_run k (r\<lparr>run_phase := Ended\<rparr>) s1
      else
        let s2 = partition_queue is_module (s1\<lparr>indexing_active := True\<rparr>) in
        set_run k (r\<lparr>run_phase := (if peer then Progress else Loop), run_total := length (index_queue s2) - index_queue_pos s2\<rparr>) s2)"

definition progress_created :: "nat \<Rightarrow> sched \<Rightarrow> sched" where
  "progress_created k s = set_run k ((bg_runs s ! k)\<lparr>run_phase := Loop\<rparr>) s"

text \<open>\<open>skip\<close>: the file is open or needs no update.\<close>

definition take_file :: "(u32 \<Rightarrow> bool) \<Rightarrow> nat \<Rightarrow> sched \<Rightarrow> sched" where
  "take_file skip k s =
     (let f = index_queue s ! index_queue_pos s; r = bg_runs s ! k;
          r1 = (if skip f then r\<lparr>run_completed := run_completed r + 1\<rparr>
                else r\<lparr>run_dispatched := run_dispatched r + 1, run_workers := run_workers r @ [f]\<rparr>)
      in set_run k (r1\<lparr>run_phase := Loop\<rparr>) (s\<lparr>index_queue_pos := index_queue_pos s + 1\<rparr>))"

definition loop_iteration :: "(u32 \<Rightarrow> bool) \<Rightarrow> nat \<Rightarrow> sched \<Rightarrow> sched" where
  "loop_iteration skip k s =
     (if \<not> index_queue_pos s < length (index_queue s) then set_run k ((bg_runs s ! k)\<lparr>run_phase := Join\<rparr>) s
      else if 0 < pause_depth s then set_run k ((bg_runs s ! k)\<lparr>run_phase := Resume\<rparr>) s
      else take_file skip k s)"

text \<open>A spawned \<open>index_one\<close> has ended, whatever its result.\<close>

definition worker_done :: "nat \<Rightarrow> nat \<Rightarrow> sched \<Rightarrow> sched" where
  "worker_done j k s =
     (let r = bg_runs s ! k in
      set_run k (r\<lparr>run_workers := take j (run_workers r) @ drop (Suc j) (run_workers r), run_completed := run_completed r + 1\<rparr>) s)"

definition workers_joined :: "nat \<Rightarrow> sched \<Rightarrow> sched" where
  "workers_joined k s = (set_run k ((bg_runs s ! k)\<lparr>run_phase := Save\<rparr>) s)\<lparr>indexing_active := False\<rparr>"

definition run_saved :: "nat \<Rightarrow> sched \<Rightarrow> sched" where
  "run_saved k s = set_run k ((bg_runs s ! k)\<lparr>run_phase := Ended\<rparr>) s"

section \<open>Steps\<close>

text \<open>With the files handed to \<open>enqueue\<close> and the files taken from the queue, in order.\<close>

type_synonym sched_state = "sched \<times> u32 list \<times> u32 list"

definition phase_at :: "nat \<Rightarrow> sched \<Rightarrow> phase \<Rightarrow> bool" where
  "phase_at k s p \<longleftrightarrow> k < length (bg_runs s) \<and> run_phase (bg_runs s ! k) = p"

inductive sched_step :: "sched_state \<Rightarrow> sched_state \<Rightarrow> bool" where
  enqueues: "sched_step (s, qs, ts) (enqueue f s, qs @ [f], ts)"
| pauses: "sched_step (s, qs, ts) (pause_indexing s, qs, ts)"
| resumes: "sched_step (s, qs, ts) (resume_indexing s, qs, ts)"
| schedules: "sched_step (s, qs, ts) (schedule enable spawned s, qs, ts)"
| fires: "phase_at k s Timer \<Longrightarrow> sched_step (s, qs, ts) (timer_fires is_module peer k s, qs, ts)"
| creates: "phase_at k s Progress \<Longrightarrow> sched_step (s, qs, ts) (progress_created k s, qs, ts)"
| waits: "phase_at k s Loop \<Longrightarrow> \<not> index_queue_pos s < length (index_queue s) \<or> 0 < pause_depth s \<Longrightarrow>
    sched_step (s, qs, ts) (loop_iteration skip k s, qs, ts)"
| takes: "phase_at k s Loop \<Longrightarrow> index_queue_pos s < length (index_queue s) \<Longrightarrow> pause_depth s = 0 \<Longrightarrow>
    sched_step (s, qs, ts) (loop_iteration skip k s, qs, ts @ [index_queue s ! index_queue_pos s])"
| wakes: "phase_at k s Resume \<Longrightarrow> resume_event s \<Longrightarrow>
    sched_step (s, qs, ts) (take_file skip k s, qs, ts @ [index_queue s ! index_queue_pos s])"
| finishes: "k < length (bg_runs s) \<Longrightarrow> j < length (run_workers (bg_runs s ! k)) \<Longrightarrow>
    sched_step (s, qs, ts) (worker_done j k s, qs, ts)"
| joins: "phase_at k s Join \<Longrightarrow> run_workers (bg_runs s ! k) = [] \<Longrightarrow> sched_step (s, qs, ts) (workers_joined k s, qs, ts)"
| saves: "phase_at k s Save \<Longrightarrow> sched_step (s, qs, ts) (run_saved k s, qs, ts)"

section \<open>Invariant\<close>

definition busy :: "phase \<Rightarrow> bool" where
  "busy p \<longleftrightarrow> p \<in> {Progress, Loop, Resume, Join}"

definition runs_in :: "(phase \<Rightarrow> bool) \<Rightarrow> sched \<Rightarrow> nat" where
  "runs_in P s = length (filter P (map run_phase (bg_runs s)))"

lemma runs_in_set_run:
  "phase_at k s p \<Longrightarrow> runs_in P (set_run k r s) + of_bool (P p) = runs_in P s + of_bool (P (run_phase r))"
  using length_filter_update [of k "map run_phase (bg_runs s)" P "run_phase r"]
  by (auto simp: runs_in_def set_run_def phase_at_def map_update)

text \<open>The one run that is busy.\<close>

lemma filter_two:
  assumes "j < k" "k < length xs" "P (xs ! j)" "P (xs ! k)" shows "2 \<le> length (filter P xs)"
proof -
  have "xs = take k xs @ xs ! k # drop (Suc k) xs" using assms(2) by (simp add: id_take_nth_drop)
  then have "length (filter P xs) = length (filter P (take k xs)) + length (filter P (xs ! k # drop (Suc k) xs))"
    by (metis filter_append length_append)
  moreover have "xs ! j \<in> set (filter P (take k xs))" using assms by (auto simp: in_set_conv_nth intro!: exI [of _ j])
  then have "0 < length (filter P (take k xs))" by (cases "filter P (take k xs)") auto
  ultimately show ?thesis using assms(4) by (simp del: length_greater_0_conv)
qed

lemma only_busy:
  assumes "runs_in P s \<le> 1" "phase_at k s p" "P p" "phase_at j s q" "P q" shows "j = k"
proof (rule ccontr)
  assume "j \<noteq> k"
  then consider "j < k" | "k < j" by linarith
  then have "2 \<le> runs_in P s"
    using assms(2-5) filter_two [of j k "map run_phase (bg_runs s)" P] filter_two [of k j "map run_phase (bg_runs s)" P]
    by cases (auto simp: runs_in_def phase_at_def)
  then show False using assms(1) by simp
qed

definition sched_ok :: "sched_state \<Rightarrow> bool" where
  "sched_ok st = (case st of (s, qs, ts) \<Rightarrow>
     index_queue_pos s \<le> length (index_queue s)
     \<and> resume_event s = (pause_depth s = 0)
     \<and> runs_in (\<lambda>p. p = Timer) s = of_bool (indexing_scheduled s)
     \<and> runs_in busy s = of_bool (indexing_active s)
     \<and> \<not> (indexing_scheduled s \<and> indexing_active s)
     \<and> (\<forall>k. phase_at k s Resume \<longrightarrow> index_queue_pos s < length (index_queue s))
     \<and> ts = take (index_queue_pos s) (index_queue s)
     \<and> mset (index_queue s) = mset qs)"

lemmas sched_defs = enqueue_def pause_indexing_def resume_indexing_def schedule_def timer_fires_def progress_created_def
  take_file_def loop_iteration_def worker_done_def workers_joined_def run_saved_def partition_queue_def Let_def

lemma set_run_fields [simp]:
  "index_queue (set_run k r s) = index_queue s" "index_queue_pos (set_run k r s) = index_queue_pos s"
  "indexing_active (set_run k r s) = indexing_active s" "indexing_scheduled (set_run k r s) = indexing_scheduled s"
  "pause_depth (set_run k r s) = pause_depth s" "resume_event (set_run k r s) = resume_event s"
  "bg_runs (set_run k r s) = (bg_runs s)[k := r]"
  by (simp_all add: set_run_def)

lemma phase_at_set_run:
  "phase_at j (set_run k r s) p \<longleftrightarrow> (if j = k then k < length (bg_runs s) \<and> run_phase r = p else phase_at j s p)"
  by (auto simp: phase_at_def nth_list_update)

text \<open>The runs after a change of the other fields.\<close>

lemma runs_in_fields [simp]:
  "runs_in P (s\<lparr>index_queue := q\<rparr>) = runs_in P s" "runs_in P (s\<lparr>index_queue_pos := n\<rparr>) = runs_in P s"
  "runs_in P (s\<lparr>indexing_active := b\<rparr>) = runs_in P s" "runs_in P (s\<lparr>indexing_scheduled := b\<rparr>) = runs_in P s"
  "runs_in P (s\<lparr>pause_depth := n\<rparr>) = runs_in P s" "runs_in P (s\<lparr>resume_event := b\<rparr>) = runs_in P s"
  by (simp_all add: runs_in_def)

lemma phase_at_fields [simp]:
  "phase_at k (s\<lparr>index_queue := q\<rparr>) p = phase_at k s p" "phase_at k (s\<lparr>index_queue_pos := n\<rparr>) p = phase_at k s p"
  "phase_at k (s\<lparr>indexing_active := b\<rparr>) p = phase_at k s p" "phase_at k (s\<lparr>indexing_scheduled := b\<rparr>) p = phase_at k s p"
  "phase_at k (s\<lparr>pause_depth := n\<rparr>) p = phase_at k s p" "phase_at k (s\<lparr>resume_event := b\<rparr>) p = phase_at k s p"
  by (simp_all add: phase_at_def)

lemma busy_simps [simp]: "busy Progress" "busy Loop" "busy Resume" "busy Join" "\<not> busy Timer" "\<not> busy Save" "\<not> busy Ended"
  by (simp_all add: busy_def)

text \<open>A run that moves from one phase to another; the flags must follow the counts.\<close>

lemma runs_in_moves:
  assumes "phase_at k s p" "runs_in P s = of_bool b" "of_bool b' + of_bool (P p) = (of_bool b :: nat) + of_bool (P (run_phase r))"
  shows "runs_in P (set_run k r s) = of_bool b'"
  using runs_in_set_run [OF assms(1), of P r] assms(2,3) by linarith

lemma phase_runs: "phase_at k s p \<Longrightarrow> runs_in P s = of_bool b \<Longrightarrow> P p \<Longrightarrow> b"
proof (rule ccontr)
  assume k: "phase_at k s p" "P p" and "runs_in P s = of_bool b" "\<not> b"
  then have "length (filter P (map run_phase (bg_runs s))) = 0" by (simp only: runs_in_def of_bool_eq)
  then have "filter P (map run_phase (bg_runs s)) = []" by (simp only: length_0_conv)
  moreover have "p \<in> set (map run_phase (bg_runs s))" using k(1) by (auto simp: phase_at_def)
  ultimately show False using k(2) unfolding filter_empty_conv by blast
qed

lemma sched_ok_requests:
  assumes "sched_ok (s, qs, ts)"
  shows "sched_ok (enqueue f s, qs @ [f], ts)" "sched_ok (pause_indexing s, qs, ts)"
    "sched_ok (resume_indexing s, qs, ts)" "sched_ok (schedule enable spawned s, qs, ts)"
proof -
  show "sched_ok (enqueue f s, qs @ [f], ts)" "sched_ok (pause_indexing s, qs, ts)" "sched_ok (resume_indexing s, qs, ts)"
    using assms by (auto simp: sched_ok_def sched_defs less_SucI)
  let ?r = "\<lparr>run_phase = Timer, run_workers = [], run_dispatched = 0, run_completed = 0, run_total = 0\<rparr>"
  let ?s = "s\<lparr>indexing_scheduled := True, bg_runs := bg_runs s @ [?r]\<rparr>"
  have "runs_in P ?s = runs_in P s + of_bool (P Timer)" for P by (simp add: runs_in_def)
  moreover have "phase_at k ?s Resume = phase_at k s Resume" for k by (auto simp: phase_at_def nth_append less_Suc_eq)
  ultimately show "sched_ok (schedule enable spawned s, qs, ts)"
    using assms by (simp add: sched_ok_def schedule_def Let_def)
qed

text \<open>Steps that leave the queue alone and move one run.\<close>

lemma sched_ok_move:
  assumes ok: "sched_ok (s, qs, ts)" and k: "phase_at k s p"
    and flags: "of_bool sd + of_bool (p = Timer) = (of_bool (indexing_scheduled s) :: nat) + of_bool (run_phase r = Timer)"
      "of_bool ac + of_bool (busy p) = (of_bool (indexing_active s) :: nat) + of_bool (busy (run_phase r))" "\<not> (sd \<and> ac)"
    and res: "run_phase r = Resume \<Longrightarrow> index_queue_pos s < length (index_queue s)"
  shows "sched_ok ((set_run k r s)\<lparr>indexing_scheduled := sd, indexing_active := ac\<rparr>, qs, ts)"
proof -
  have "runs_in (\<lambda>p. p = Timer) (set_run k r s) = of_bool sd" "runs_in busy (set_run k r s) = of_bool ac"
    using ok flags by (intro runs_in_moves [OF k]; simp add: sched_ok_def)+
  moreover have "phase_at j (set_run k r s) Resume \<Longrightarrow> index_queue_pos s < length (index_queue s)" for j
    using ok res by (auto simp: sched_ok_def phase_at_set_run split: if_splits)
  ultimately show ?thesis using ok flags(3) by (auto simp: sched_ok_def)
qed

lemma same_flags: "s\<lparr>indexing_scheduled := indexing_scheduled s, indexing_active := indexing_active s\<rparr> = s"
  by simp

lemma sched_ok_take:
  assumes ok: "sched_ok (s, qs, ts)" and k: "phase_at k s p" "busy p" and pos: "index_queue_pos s < length (index_queue s)"
  shows "sched_ok (take_file skip k s, qs, ts @ [index_queue s ! index_queue_pos s])"
proof -
  let ?s = "s\<lparr>index_queue_pos := index_queue_pos s + 1\<rparr>"
  obtain r where r: "take_file skip k s = set_run k r ?s" "run_phase r = Loop"
    by (simp add: take_file_def Let_def)
  have k': "phase_at k ?s p" using k(1) by simp
  have "p \<noteq> Timer" using k(2) by auto
  then have "runs_in (\<lambda>p. p = Timer) (set_run k r ?s) = of_bool (indexing_scheduled s)"
    using ok r(2) by (intro runs_in_moves [OF k', where b = "indexing_scheduled s"]) (simp_all add: sched_ok_def)
  moreover have "runs_in busy (set_run k r ?s) = of_bool (indexing_active s)"
    using ok k(2) r(2) by (intro runs_in_moves [OF k', where b = "indexing_active s"]) (simp_all add: sched_ok_def)
  moreover have "\<not> phase_at j (set_run k r ?s) Resume" for j
  proof
    assume j: "phase_at j (set_run k r ?s) Resume"
    then have "j \<noteq> k" "phase_at j s Resume" using r(2) by (auto simp: phase_at_set_run split: if_splits)
    moreover have "runs_in busy s \<le> 1" using ok by (simp add: sched_ok_def)
    ultimately show False using only_busy [of busy s k p j Resume] k by simp
  qed
  ultimately show ?thesis
    using ok pos unfolding r(1) by (simp add: sched_ok_def take_Suc_conv_app_nth)
qed

lemma sched_ok_fires:
  assumes ok: "sched_ok (s, qs, ts)" and k: "phase_at k s Timer"
  shows "sched_ok (timer_fires is_module peer k s, qs, ts)"
proof -
  have sd: "indexing_scheduled s" using phase_runs [OF k, of "\<lambda>p. p = Timer" "indexing_scheduled s"] ok by (simp add: sched_ok_def)
  then have ac: "\<not> indexing_active s" using ok by (simp add: sched_ok_def)
  show ?thesis
  proof (cases "length (index_queue s) \<le> index_queue_pos s")
    case True
    let ?r = "(bg_runs s ! k)\<lparr>run_phase := Ended\<rparr>"
    have "timer_fires is_module peer k s = (set_run k ?r s)\<lparr>indexing_scheduled := False, indexing_active := False\<rparr>"
      using True ac by (simp add: timer_fires_def Let_def set_run_def)
    then show ?thesis using sched_ok_move [OF ok k, of False ?r False] sd ac by simp
  next
    case False
    define left where "left = drop (index_queue_pos s) (index_queue s)"
    define q where "q = take (index_queue_pos s) (index_queue s) @ filter is_module left @ filter (\<lambda>f. \<not> is_module f) left"
    define r where "r = (bg_runs s ! k)\<lparr>run_phase := (if peer then Progress else Loop), run_total := length q - index_queue_pos s\<rparr>"
    define s1 where "s1 = (set_run k r s)\<lparr>indexing_scheduled := False, indexing_active := True\<rparr>"
    have r: "run_phase r \<noteq> Timer" "busy (run_phase r)" "run_phase r \<noteq> Resume" by (simp_all add: r_def)
    have eq: "timer_fires is_module peer k s = s1\<lparr>index_queue := q\<rparr>"
      using False unfolding s1_def r_def q_def left_def by (simp add: timer_fires_def partition_queue_def Let_def set_run_def)
    have "sched_ok (s1, qs, ts)" unfolding s1_def using r sd ac by (intro sched_ok_move [OF ok k]) simp_all
    moreover have "mset (filter is_module left @ filter (\<lambda>f. \<not> is_module f) left) = mset left"
      by (simp add: multiset_partition [symmetric])
    then have m: "mset q = mset (index_queue s)" unfolding q_def left_def by (metis append_take_drop_id mset_append)
    moreover have "length q = length (index_queue s)" using m by (metis size_mset)
    moreover have "take (index_queue_pos s) q = take (index_queue_pos s) (index_queue s)"
      using False by (simp add: q_def)
    moreover have "index_queue s1 = index_queue s" "index_queue_pos s1 = index_queue_pos s" by (simp_all add: s1_def)
    ultimately show ?thesis unfolding eq by (simp add: sched_ok_def)
  qed
qed

lemma sched_ok_step:
  assumes step: "sched_step st st'" and ok: "sched_ok st" shows "sched_ok st'"
  using step
proof (cases rule: sched_step.cases)
  case (fires k s qs ts is_module peer)
  then show ?thesis using ok sched_ok_fires by simp
next
  case (creates k s qs ts)
  then show ?thesis
    using sched_ok_move [of s qs ts k Progress "indexing_scheduled s" "(bg_runs s ! k)\<lparr>run_phase := Loop\<rparr>" "indexing_active s"] ok
    by (auto simp: progress_created_def sched_ok_def set_run_def)
next
  case (waits k s qs ts skip)
  let ?p = "if \<not> index_queue_pos s < length (index_queue s) then Join else Resume"
  let ?r = "(bg_runs s ! k)\<lparr>run_phase := ?p\<rparr>"
  have "loop_iteration skip k s = set_run k ?r s" using waits by (auto simp: loop_iteration_def)
  moreover have "sched_ok ((set_run k ?r s)\<lparr>indexing_scheduled := indexing_scheduled s, indexing_active := indexing_active s\<rparr>, qs, ts)"
    using waits ok by (intro sched_ok_move [where p = Loop]) (auto simp: sched_ok_def)
  ultimately show ?thesis using waits by (simp add: set_run_def)
next
  case (takes k s qs ts skip)
  then have "loop_iteration skip k s = take_file skip k s" by (simp add: loop_iteration_def)
  then show ?thesis using takes ok sched_ok_take [of s qs ts k Loop skip] by simp
next
  case (wakes k s qs ts skip)
  then have "index_queue_pos s < length (index_queue s)" using ok by (auto simp: sched_ok_def)
  then show ?thesis using wakes ok sched_ok_take [of s qs ts k Resume skip] by simp
next
  case (finishes k s j qs ts)
  let ?r = "(bg_runs s ! k)\<lparr>run_workers := take j (run_workers (bg_runs s ! k)) @ drop (Suc j) (run_workers (bg_runs s ! k)),
      run_completed := run_completed (bg_runs s ! k) + 1\<rparr>"
  have "phase_at k s (run_phase (bg_runs s ! k))" using finishes by (simp add: phase_at_def)
  then have "sched_ok ((set_run k ?r s)\<lparr>indexing_scheduled := indexing_scheduled s, indexing_active := indexing_active s\<rparr>, qs, ts)"
    using finishes ok by (intro sched_ok_move) (auto simp: sched_ok_def)
  then show ?thesis using finishes by (simp add: worker_done_def Let_def set_run_def)
next
  case (joins k s qs ts)
  have "indexing_active s" using phase_runs [OF joins(3), of busy "indexing_active s"] ok joins by (simp add: sched_ok_def)
  then show ?thesis
    using sched_ok_move [of s qs ts k Join "indexing_scheduled s" "(bg_runs s ! k)\<lparr>run_phase := Save\<rparr>" False] ok joins
    by (simp add: workers_joined_def sched_ok_def set_run_def)
next
  case (saves k s qs ts)
  then show ?thesis
    using sched_ok_move [of s qs ts k Save "indexing_scheduled s" "(bg_runs s ! k)\<lparr>run_phase := Ended\<rparr>" "indexing_active s"] ok
    by (auto simp: run_saved_def sched_ok_def set_run_def)
qed (use ok sched_ok_requests in auto)

definition sched_start :: "sched_state \<Rightarrow> bool" where
  "sched_start st \<longleftrightarrow> st = (sched_init, [], [])"

interpretation scheduler: safe_system sched_start sched_step sched_ok
proof unfold_locales
  show "sched_start st \<Longrightarrow> sched_ok st" for st
    by (simp add: sched_start_def sched_ok_def sched_init_def runs_in_def phase_at_def)
qed (rule sched_ok_step)

text \<open>
  C17: background indexing under any interleaving of requests, pauses, runs and finishing tasks. At
  most one run works on the queue, and none is waiting for the idle timer meanwhile. The files taken
  so far and the files still queued are together exactly the files that were enqueued, as often as
  they were enqueued: reordering modules first loses none and hands none out twice. The resume event
  is set exactly when no pause is open.
\<close>

theorem indexing_queue_exact:
  assumes "reached sched_start sched_step (s, enqueued, taken)"
  shows "runs_in (\<lambda>p. p = Timer) s + runs_in busy s \<le> 1
    \<and> mset taken + mset (drop (index_queue_pos s) (index_queue s)) = mset enqueued
    \<and> (resume_event s \<longleftrightarrow> pause_depth s = 0)"
proof -
  have ok: "sched_ok (s, enqueued, taken)" using scheduler.reached_good [OF assms] .
  then have "taken = take (index_queue_pos s) (index_queue s)" "mset (index_queue s) = mset enqueued"
    by (simp_all add: sched_ok_def)
  then have "mset taken + mset (drop (index_queue_pos s) (index_queue s)) = mset enqueued"
    by (metis append_take_drop_id mset_append)
  then show ?thesis using ok by (auto simp: sched_ok_def)
qed

section \<open>A request that is lost\<close>

definition ex_joining :: sched where
  "ex_joining = loop_iteration (\<lambda>_. False) 0 (loop_iteration (\<lambda>_. False) 0
     (timer_fires (\<lambda>_. False) False 0 (schedule True True (enqueue 1 sched_init))))"

definition ex_left_behind :: sched where
  "ex_left_behind = run_saved 0 (workers_joined 0 (worker_done 0 0 (schedule True True (enqueue 2 ex_joining))))"

lemma ex_left_behind_reached: "reached sched_start sched_step (ex_left_behind, [1, 2], [1])"
proof -
  let ?a = "schedule True True (enqueue 1 sched_init)"
  let ?b = "timer_fires (\<lambda>_. False) False 0 ?a"
  let ?c = "loop_iteration (\<lambda>_. False) 0 ?b"
  let ?d = "schedule True True (enqueue 2 ex_joining)"
  have "reached sched_start sched_step (sched_init, [], [])" by (rule reached_init) (simp add: sched_start_def)
  then have "reached sched_start sched_step (enqueue 1 sched_init, [] @ [1], [])" by (rule reached_step) (rule enqueues)
  then have "reached sched_start sched_step (?a, [] @ [1], [])" by (rule reached_step) (rule schedules)
  moreover have "phase_at 0 ?a Timer" by (simp add: phase_at_def sched_defs sched_init_def)
  ultimately have "reached sched_start sched_step (?b, [] @ [1], [])" by (blast intro: reached_step fires)
  moreover have b: "phase_at 0 ?b Loop" "index_queue_pos ?b < length (index_queue ?b)" "pause_depth ?b = 0"
    "index_queue ?b ! index_queue_pos ?b = 1"
    by (simp_all add: phase_at_def sched_defs sched_init_def)
  ultimately have "reached sched_start sched_step (?c, [] @ [1], [] @ [index_queue ?b ! index_queue_pos ?b])"
    by (blast intro: reached_step takes)
  moreover have "phase_at 0 ?c Loop" "\<not> index_queue_pos ?c < length (index_queue ?c)"
    by (simp_all add: phase_at_def sched_defs sched_init_def)
  ultimately have "reached sched_start sched_step (ex_joining, [1], [1])"
    unfolding ex_joining_def using b(4) by (auto intro: reached_step waits)
  then have "reached sched_start sched_step (enqueue 2 ex_joining, [1] @ [2], [1])" by (rule reached_step) (rule enqueues)
  then have "reached sched_start sched_step (?d, [1] @ [2], [1])" by (rule reached_step) (rule schedules)
  moreover have "0 < length (bg_runs ?d)" "0 < length (run_workers (bg_runs ?d ! 0))"
    by (simp_all add: ex_joining_def sched_defs sched_init_def)
  ultimately have "reached sched_start sched_step (worker_done 0 0 ?d, [1] @ [2], [1])" by (blast intro: reached_step finishes)
  moreover have "phase_at 0 (worker_done 0 0 ?d) Join" "run_workers (bg_runs (worker_done 0 0 ?d) ! 0) = []"
    by (simp_all add: phase_at_def ex_joining_def sched_defs sched_init_def)
  ultimately have "reached sched_start sched_step (workers_joined 0 (worker_done 0 0 ?d), [1] @ [2], [1])"
    by (blast intro: reached_step joins)
  moreover have "phase_at 0 (workers_joined 0 (worker_done 0 0 ?d)) Save"
    by (simp add: phase_at_def ex_joining_def sched_defs sched_init_def)
  ultimately have "reached sched_start sched_step (ex_left_behind, [1] @ [2], [1])"
    unfolding ex_left_behind_def by (blast intro: reached_step saves)
  then show ?thesis by simp
qed

text \<open>
  A file that is enqueued and scheduled while a run waits for its last tasks is left behind: the
  request to schedule is dropped because a run is active, and that run has already left its loop. In
  the state reached then, every coroutine has ended, nothing is scheduled, and the file is pending.
\<close>

theorem scheduled_file_left_behind:
  "reached sched_start sched_step (ex_left_behind, [1, 2], [1])
   \<and> pending_files ex_left_behind = 1 \<and> \<not> is_idle ex_left_behind
   \<and> \<not> indexing_scheduled ex_left_behind \<and> \<not> indexing_active ex_left_behind
   \<and> runs_in (\<lambda>p. p \<noteq> Ended) ex_left_behind = 0"
  using ex_left_behind_reached
  by (simp add: pending_files_def is_idle_def runs_in_def ex_left_behind_def ex_joining_def sched_defs sched_init_def)

theorem indexing_queue_exact_witness:
  "mset [1] + mset (drop (index_queue_pos ex_left_behind) (index_queue ex_left_behind)) = mset [1, 2 :: u32]"
  using indexing_queue_exact [OF ex_left_behind_reached] by simp

end
