(* ===== verification/Workspace.thy ===== *)
theory Workspace
  imports Compile_Graph Path_Pool Cache_Store Dependency_Graph "HOL-Library.AList"
begin

text \<open>
  \<open>src/src/server/workspace/workspace.{h,cpp}\<close>: the state shared by all files, the snapshot that says
  whether an artifact is out of date, and the metadata in \<open>cache.json\<close>. A hash map that the code
  iterates is an association list, its order standing for the order of the hash table. The JSON
  codec, the hash and \<open>scan\<close> are fields of \<open>ws_env\<close>; files are read through the \<open>os\<close> of the cache
  store, and \<open>we_mtime\<close> is the modification time in whole seconds of a file that has a status.
\<close>

section \<open>State\<close>

record deps_snapshot =
  snap_path_ids :: "u32 list"
  snap_hashes :: "u64 list"
  snap_build_at :: int

record header_file_context =
  host_path_id :: u32
  preamble_path :: string
  preamble_hash :: u64

text \<open>\<open>building\<close> is the event of the build in flight, by its number.\<close>

record pch_state =
  pch_path :: string
  pch_bound :: u32
  pch_key :: string
  pch_deps :: deps_snapshot
  pch_links :: string
  pch_building :: "nat option"

record pcm_state =
  pcm_path :: string
  pcm_key :: string
  pcm_deps :: deps_snapshot

record workspace_state =
  wk_pool :: path_pool
  wk_store :: "store option"
  wk_deps :: dependency_graph
  wk_graph :: "compile_graph option"
  wk_modules :: "(u32 \<times> string) list"
  wk_pch :: "(u32 \<times> pch_state) list"
  wk_pcm :: "(u32 \<times> pcm_state) list"
  wk_pcm_paths :: "(u32 \<times> string) list"

text \<open>The records written to \<open>cache.json\<close>.\<close>

record cache_dep_entry =
  cd_path :: u32
  cd_hash :: u64

record cache_pch_entry =
  cp_key :: string
  cp_source :: u32
  cp_bound :: u32
  cp_build_at :: int
  cp_deps :: "cache_dep_entry list"

record cache_pcm_entry =
  cm_key :: string
  cm_source :: u32
  cm_module :: string
  cm_build_at :: int
  cm_deps :: "cache_dep_entry list"

record cache_data =
  cache_paths :: "string list"
  cache_pch :: "cache_pch_entry list"
  cache_pcm :: "cache_pcm_entry list"

record 'w ws_env =
  we_os :: "'w os"
  we_mtime :: "string \<Rightarrow> 'w \<Rightarrow> int option"
  we_clock :: "'w \<Rightarrow> int"
  we_xxh3 :: "string \<Rightarrow> u64"
  we_scan_module :: "string \<Rightarrow> string"
  we_to_json :: "cache_data \<Rightarrow> string option"
  we_from_json :: "string \<Rightarrow> cache_data option"
  we_order :: "string \<Rightarrow> u32 list \<Rightarrow> u32 list"

text \<open>
  The hash maps of the workspace are association lists that are only searched and updated by key;
  where the code iterates over one of them it meets the keys in the order of the buckets, which
  \<open>we_order\<close> gives for the map of a name: some permutation of the keys.
\<close>

definition iterate :: "'w ws_env \<Rightarrow> string \<Rightarrow> (u32 \<times> 'a) list \<Rightarrow> (u32 \<times> 'a) list" where
  "iterate env name xs = map (\<lambda>i. (i, the (map_of xs i))) (we_order env name (map fst xs))"

definition empty_snapshot :: deps_snapshot where
  "empty_snapshot = \<lparr>snap_path_ids = [], snap_hashes = [], snap_build_at = 0\<rparr>"

definition new_pch_state :: pch_state where
  "new_pch_state = \<lparr>pch_path = [], pch_bound = 0, pch_key = [], pch_deps = empty_snapshot,
     pch_links = [], pch_building = None\<rparr>"

text \<open>\<open>resolve\<close> asserts that the id is in range; an id outside has the empty path here.\<close>

definition path_of :: "path_pool \<Rightarrow> u32 \<Rightarrow> string" where
  "path_of pool i = (case resolve pool i of None \<Rightarrow> [] | Some p \<Rightarrow> p)"

section \<open>Staleness\<close>

definition hash_file :: "'w ws_env \<Rightarrow> 'w \<Rightarrow> string \<Rightarrow> u64" where
  "hash_file env w path = (case os_buffer (we_os env) path w of Inl _ \<Rightarrow> 0 | Inr text \<Rightarrow> we_xxh3 env text)"

fun intern_all :: "string list \<Rightarrow> path_pool \<Rightarrow> path_pool \<times> u32 list" where
  "intern_all [] pool = (pool, [])"
| "intern_all (f # fs) pool =
     (let (pool1, i) = intern f pool; (pool2, rest) = intern_all fs pool1 in (pool2, i # rest))"

text \<open>The clock is read in the world \<open>w0\<close>, the files are hashed later, in \<open>w\<close>.\<close>

definition capture_deps_snapshot :: "'w ws_env \<Rightarrow> 'w \<Rightarrow> 'w \<Rightarrow> string list \<Rightarrow> path_pool \<Rightarrow> path_pool \<times> deps_snapshot" where
  "capture_deps_snapshot env w0 w deps pool =
     (let (pool1, dep_ids) = intern_all deps pool in
      (pool1, \<lparr>snap_path_ids = dep_ids, snap_hashes = map (hash_file env w) deps, snap_build_at = we_clock env w0\<rparr>))"

definition dep_changed :: "'w ws_env \<Rightarrow> 'w \<Rightarrow> path_pool \<Rightarrow> int \<Rightarrow> u32 \<times> u64 \<Rightarrow> bool" where
  "dep_changed env w pool build_at d =
     (case d of (i, h) \<Rightarrow>
        let path = path_of pool i in
        case we_mtime env path w of
          None \<Rightarrow> h \<noteq> 0
        | Some current \<Rightarrow> \<not> current \<le> build_at \<and> hash_file env w path \<noteq> h)"

definition deps_changed :: "'w ws_env \<Rightarrow> 'w \<Rightarrow> path_pool \<Rightarrow> deps_snapshot \<Rightarrow> bool" where
  "deps_changed env w pool snap =
     list_ex (dep_changed env w pool (snap_build_at snap)) (zip (snap_path_ids snap) (snap_hashes snap))"

section \<open>Saved and closed files\<close>

definition rescan_module :: "'w ws_env \<Rightarrow> 'w \<Rightarrow> u32 \<Rightarrow> workspace_state \<Rightarrow> workspace_state" where
  "rescan_module env w p s =
     (case os_buffer (we_os env) (path_of (wk_pool s) p) w of
        Inl _ \<Rightarrow> s
      | Inr text \<Rightarrow>
          let name = we_scan_module env text in
          if name \<noteq> [] then s\<lparr>wk_modules := AList.update p name (wk_modules s)\<rparr>
          else s\<lparr>wk_modules := AList.delete p (wk_modules s)\<rparr>)"

definition forget_pcm :: "u32 \<Rightarrow> workspace_state \<Rightarrow> workspace_state" where
  "forget_pcm i s = s\<lparr>wk_pcm_paths := AList.delete i (wk_pcm_paths s), wk_pcm := AList.delete i (wk_pcm s)\<rparr>"

definition ws_file_saved :: "'w ws_env \<Rightarrow> 'w \<Rightarrow> u32 \<Rightarrow> workspace_state \<Rightarrow> workspace_state \<times> u32 list" where
  "ws_file_saved env w p s =
     (let s1 = rescan_module env w p s in
      case wk_graph s1 of
        None \<Rightarrow> (s1, [])
      | Some g \<Rightarrow>
          case Compile_Graph.update p g of (g', dirtied) \<Rightarrow>
            (fold forget_pcm dirtied (s1\<lparr>wk_graph := Some g'\<rparr>), dirtied))"

definition ws_file_closed :: "u32 \<Rightarrow> workspace_state \<Rightarrow> workspace_state" where
  "ws_file_closed p s =
     (let s1 = (case wk_graph s of
                  None \<Rightarrow> s
                | Some g \<Rightarrow> if has_unit g p then s\<lparr>wk_graph := Some (fst (Compile_Graph.update p g))\<rparr> else s)
      in s1\<lparr>wk_pch := AList.delete p (wk_pch s1)\<rparr>)"

section \<open>The metadata file\<close>

definition cached_path :: "cache_data \<Rightarrow> u32 \<Rightarrow> string" where
  "cached_path data i = (if unat i < length (cache_paths data) then cache_paths data ! unat i else [])"

fun load_deps :: "cache_data \<Rightarrow> cache_dep_entry list \<Rightarrow> path_pool \<times> deps_snapshot \<Rightarrow> path_pool \<times> deps_snapshot" where
  "load_deps data [] acc = acc"
| "load_deps data (d # ds) (pool, snap) =
     (let path = cached_path data (cd_path d) in
      if path = [] then load_deps data ds (pool, snap)
      else
        let (pool1, i) = intern path pool in
        load_deps data ds (pool1, snap\<lparr>snap_path_ids := snap_path_ids snap @ [i], snap_hashes := snap_hashes snap @ [cd_hash d]\<rparr>))"

definition load_pch :: "'w ws_env \<Rightarrow> 'w \<Rightarrow> cache_data \<Rightarrow> cache_pch_entry \<Rightarrow> workspace_state \<Rightarrow> workspace_state" where
  "load_pch env w data e s =
     (case wk_store s of
        None \<Rightarrow> s
      | Some st \<Rightarrow>
          case Cache_Store.lookup (we_os env) ''pch'' (cp_key e) (st, w) of (found, st1) \<Rightarrow>
            let s1 = s\<lparr>wk_store := Some st1\<rparr>; source = cached_path data (cp_source e) in
            case found of
              None \<Rightarrow> s1
            | Some path \<Rightarrow>
                if source = [] then s1
                else
                  let (pool1, i) = intern source (wk_pool s1);
                      (pool2, deps) = load_deps data (cp_deps e) (pool1, empty_snapshot\<lparr>snap_build_at := cp_build_at e\<rparr>);
                      old = (case map_of (wk_pch s1) i of None \<Rightarrow> new_pch_state | Some st \<Rightarrow> st)
                  in s1\<lparr>wk_pool := pool2,
                        wk_pch := AList.update i (old\<lparr>pch_path := path, pch_key := cp_key e,
                          pch_bound := cp_bound e, pch_deps := deps\<rparr>) (wk_pch s1)\<rparr>)"

definition load_pcm :: "'w ws_env \<Rightarrow> 'w \<Rightarrow> cache_data \<Rightarrow> cache_pcm_entry \<Rightarrow> workspace_state \<Rightarrow> workspace_state" where
  "load_pcm env w data e s =
     (case wk_store s of
        None \<Rightarrow> s
      | Some st \<Rightarrow>
          case Cache_Store.lookup (we_os env) ''pcm'' (cm_key e) (st, w) of (found, st1) \<Rightarrow>
            let s1 = s\<lparr>wk_store := Some st1\<rparr>; source = cached_path data (cm_source e) in
            case found of
              None \<Rightarrow> s1
            | Some path \<Rightarrow>
                if source = [] then s1
                else
                  let (pool1, i) = intern source (wk_pool s1);
                      (pool2, deps) = load_deps data (cm_deps e) (pool1, empty_snapshot\<lparr>snap_build_at := cm_build_at e\<rparr>)
                  in s1\<lparr>wk_pool := pool2,
                        wk_pcm := AList.update i \<lparr>pcm_path = path, pcm_key = cm_key e, pcm_deps = deps\<rparr> (wk_pcm s1),
                        wk_pcm_paths := AList.update i path (wk_pcm_paths s1)\<rparr>)"

definition cache_file :: "'w ws_env \<Rightarrow> store \<Rightarrow> string" where
  "cache_file env st = os_join (we_os env) (store_base st) ''cache.json''"

definition load_cache :: "'w ws_env \<Rightarrow> 'w \<Rightarrow> workspace_state \<Rightarrow> workspace_state" where
  "load_cache env w s =
     (case wk_store s of
        None \<Rightarrow> s
      | Some st \<Rightarrow>
          case os_buffer (we_os env) (cache_file env st) w of
            Inl _ \<Rightarrow> s
          | Inr text \<Rightarrow>
              case we_from_json env text of
                None \<Rightarrow> s
              | Some data \<Rightarrow> fold (load_pcm env w data) (cache_pcm data) (fold (load_pch env w data) (cache_pch data) s))"

text \<open>\<open>index_map\<close> and the list of paths of \<open>save_cache\<close>.\<close>

type_synonym path_table = "(string \<rightharpoonup> u32) \<times> string list"

definition save_path :: "path_pool \<Rightarrow> u32 \<Rightarrow> path_table \<Rightarrow> path_table \<times> u32" where
  "save_path pool i t =
     (case t of (index_map, paths) \<Rightarrow>
        let path = path_of pool i in
        case index_map path of
          Some k \<Rightarrow> (t, k)
        | None \<Rightarrow> let k = of_nat (length paths) in ((index_map(path \<mapsto> k), paths @ [path]), k))"

fun save_deps :: "path_pool \<Rightarrow> (u32 \<times> u64) list \<Rightarrow> path_table \<Rightarrow> path_table \<times> cache_dep_entry list" where
  "save_deps pool [] t = (t, [])"
| "save_deps pool ((i, h) # ds) t =
     (let (t1, k) = save_path pool i t; (t2, rest) = save_deps pool ds t1 in (t2, \<lparr>cd_path = k, cd_hash = h\<rparr> # rest))"

definition snap_entries :: "deps_snapshot \<Rightarrow> (u32 \<times> u64) list" where
  "snap_entries snap = zip (snap_path_ids snap) (snap_hashes snap)"

fun save_pch :: "path_pool \<Rightarrow> (u32 \<times> pch_state) list \<Rightarrow> path_table \<Rightarrow> path_table \<times> cache_pch_entry list" where
  "save_pch pool [] t = (t, [])"
| "save_pch pool ((i, st) # rest) t =
     (if pch_path st = [] then save_pch pool rest t
      else
        let (t1, k) = save_path pool i t; (t2, ds) = save_deps pool (snap_entries (pch_deps st)) t1;
            (t3, es) = save_pch pool rest t2
        in (t3, \<lparr>cp_key = pch_key st, cp_source = k, cp_bound = pch_bound st,
                  cp_build_at = snap_build_at (pch_deps st), cp_deps = ds\<rparr> # es))"

fun save_pcm :: "path_pool \<Rightarrow> (u32 \<times> string) list \<Rightarrow> (u32 \<times> pcm_state) list \<Rightarrow> path_table \<Rightarrow> path_table \<times> cache_pcm_entry list" where
  "save_pcm pool modules [] t = (t, [])"
| "save_pcm pool modules ((i, st) # rest) t =
     (if pcm_path st = [] then save_pcm pool modules rest t
      else
        let (t1, k) = save_path pool i t; (t2, ds) = save_deps pool (snap_entries (pcm_deps st)) t1;
            (t3, es) = save_pcm pool modules rest t2
        in (t3, \<lparr>cm_key = pcm_key st, cm_source = k,
                  cm_module = (case map_of modules i of None \<Rightarrow> [] | Some name \<Rightarrow> name),
                  cm_build_at = snap_build_at (pcm_deps st), cm_deps = ds\<rparr> # es))"

definition cache_data_of :: "'w ws_env \<Rightarrow> workspace_state \<Rightarrow> cache_data" where
  "cache_data_of env s =
     (let (t1, pchs) = save_pch (wk_pool s) (iterate env ''pch_cache'' (wk_pch s)) (Map.empty, []);
          (t2, pcms) = save_pcm (wk_pool s) (wk_modules s) (iterate env ''pcm_cache'' (wk_pcm s)) t1
      in \<lparr>cache_paths = snd t2, cache_pch = pchs, cache_pcm = pcms\<rparr>)"

definition save_cache :: "'w ws_env \<Rightarrow> workspace_state \<Rightarrow> 'w \<Rightarrow> 'w" where
  "save_cache env s w =
     (case wk_store s of
        None \<Rightarrow> w
      | Some st \<Rightarrow>
          case we_to_json env (cache_data_of env s) of
            None \<Rightarrow> w
          | Some text \<Rightarrow>
              let os = we_os env;
                  tmp = os_join os (os_join os (os_join os (store_base st) ''tmp'') (decimal (unat (os_pid os)))) ''cache.json''
              in case os_write os tmp text w of
                   (Some _, w1) \<Rightarrow> w1
                 | (None, w1) \<Rightarrow> snd (os_rename os tmp (cache_file env st) w1))"

section \<open>Modules\<close>

definition build_module_map :: "(string \<times> u32 list) list \<Rightarrow> workspace_state \<Rightarrow> workspace_state" where
  "build_module_map modules s =
     s\<lparr>wk_modules := fold (\<lambda>(name, file_ids). fold (\<lambda>i. AList.update i name) file_ids) modules (wk_modules s)\<rparr>"

text \<open>\<open>exclude\<close> is \<open>UINT32_MAX\<close> where the caller excludes nothing.\<close>

definition fill_pcm_deps :: "'w ws_env \<Rightarrow> workspace_state \<Rightarrow> u32 \<Rightarrow> (string \<times> string) list \<Rightarrow> (string \<times> string) list" where
  "fill_pcm_deps env s exclude pcms =
     fold (\<lambda>(i, path) m. if i = exclude then m
             else case map_of (wk_modules s) i of None \<Rightarrow> m | Some name \<Rightarrow> AList.update name path m)
       (iterate env ''pcm_paths'' (wk_pcm_paths s)) pcms"

definition cancel_all_ws :: "workspace_state \<Rightarrow> workspace_state" where
  "cancel_all_ws s = (case wk_graph s of None \<Rightarrow> s | Some g \<Rightarrow> s\<lparr>wk_graph := Some (Compile_Graph.cancel_all g)\<rparr>)"

end
