(* ===== verification/Workspace_Props.thy ===== *)
theory Workspace_Props
  imports Workspace "HOL-Library.Multiset"
begin

text \<open>
  What the snapshots and the metadata file guarantee: a snapshot notices every changed dependency
  the clock and the hash can tell apart, and what \<open>save_cache\<close> writes is what \<open>load_cache\<close> restores.
\<close>

section \<open>Growing pools\<close>

text \<open>\<open>fits P pool\<close>: the paths of \<open>P\<close> can still be interned.\<close>

definition fits :: "string set \<Rightarrow> path_pool \<Rightarrow> bool" where
  "fits P pool \<longleftrightarrow> pool_ok pool \<and> finite P \<and> card (set (pool_paths pool) \<union> P) < 2 ^ 32"

definition grows :: "string set \<Rightarrow> path_pool \<Rightarrow> path_pool \<Rightarrow> bool" where
  "grows P pool pool' \<longleftrightarrow> (\<forall>j t. resolve pool j = Some t \<longrightarrow> resolve pool' j = Some t)
     \<and> set (pool_paths pool') \<subseteq> set (pool_paths pool) \<union> P"

lemma pool_paths_distinct:
  assumes "pool_ok pool"
  shows "distinct (pool_paths pool)"
proof -
  have "i = j" if "i < length (pool_paths pool)" "j < length (pool_paths pool)"
    and eq: "pool_paths pool ! i = pool_paths pool ! j" for i j
  proof -
    have "i < 2 ^ 32" "j < 2 ^ 32" using assms that by (auto simp: pool_ok_def)
    then have u: "unat (of_nat i :: u32) = i" "unat (of_nat j :: u32) = j" by (simp_all add: unat_of_nat)
    then have "resolve pool (of_nat i) = Some (pool_paths pool ! i)" "resolve pool (of_nat j) = Some (pool_paths pool ! i)"
      using that by (simp_all add: resolve_def)
    then have "(of_nat i :: u32) = of_nat j" using pool.get_inj [OF assms] by blast
    then show "i = j" using u by metis
  qed
  then show ?thesis by (auto simp: distinct_conv_nth)
qed

lemma grows_refl [simp]: "grows P pool pool"
  by (simp add: grows_def)

lemma grows_trans: "grows P p q \<Longrightarrow> grows P q r \<Longrightarrow> grows P p r"
  unfolding grows_def by blast

lemma grows_path_of: "grows P p q \<Longrightarrow> resolve p i \<noteq> None \<Longrightarrow> path_of q i = path_of p i"
  by (auto simp: grows_def path_of_def split: option.splits)

lemma fits_room: "fits P pool \<Longrightarrow> length (pool_paths pool) < 2 ^ 32"
  unfolding fits_def
  by (metis List.finite_set card_mono distinct_card finite_UnI order_le_less_trans pool_paths_distinct sup_ge1)

lemma intern_fits:
  assumes "fits P pool" and "normalize_path f \<in> P" and "intern f pool = (pool', i)"
  shows "fits P pool' \<and> grows P pool pool' \<and> resolve pool' i = Some (normalize_path f)"
proof -
  note room = fits_room [OF assms(1)]
  have ok: "pool_ok pool" using assms(1) by (simp add: fits_def)
  have sub: "set (pool_paths pool') \<subseteq> set (pool_paths pool) \<union> P"
    using assms(3) by (rule intern_cases) (use assms(2) in auto)
  then have "card (set (pool_paths pool') \<union> P) \<le> card (set (pool_paths pool) \<union> P)"
    using assms(1) by (intro card_mono) (auto simp: fits_def)
  then have "fits P pool'"
    using assms(1) pool.add_ok [OF ok room assms(3)] by (simp add: fits_def)
  then show ?thesis
    using sub pool.add_get [OF ok room assms(3)] pool.add_stable [OF ok room assms(3)] by (auto simp: grows_def)
qed

section \<open>Snapshots\<close>

lemma intern_all_grows:
  assumes "fits P pool" and "normalize_path ` set fs \<subseteq> P" and "intern_all fs pool = (pool', js)"
  shows "fits P pool' \<and> grows P pool pool' \<and> map (resolve pool') js = map (\<lambda>f. Some (normalize_path f)) fs"
  using assms
proof (induction fs arbitrary: pool js)
  case (Cons f fs)
  obtain pool1 i where one: "intern f pool = (pool1, i)" by fastforce
  obtain rest where two: "intern_all fs pool1 = (pool', rest)" and js: "js = i # rest"
    using Cons.prems(3) one by (auto split: prod.splits)
  have g1: "fits P pool1" "grows P pool pool1" "resolve pool1 i = Some (normalize_path f)"
    using intern_fits [OF Cons.prems(1) _ one] Cons.prems(2) by auto
  have g2: "fits P pool'" "grows P pool1 pool'" "map (resolve pool') rest = map (\<lambda>f. Some (normalize_path f)) fs"
    using Cons.IH [OF g1(1) _ two] Cons.prems(2) by auto
  show ?case using g1 g2 js grows_trans [OF g1(2) g2(2)] by (auto simp: grows_def)
qed simp

text \<open>The readable content of a file.\<close>

definition content_at :: "'w ws_env \<Rightarrow> 'w \<Rightarrow> string \<Rightarrow> string option" where
  "content_at env w f = (case os_buffer (we_os env) f w of Inl _ \<Rightarrow> None | Inr text \<Rightarrow> Some text)"

lemma hash_file_content: "content_at env w f = content_at env w' f \<Longrightarrow> hash_file env w f = hash_file env w' f"
  by (auto simp: content_at_def hash_file_def split: sum.splits)

lemma hash_file_missing: "content_at env w f = None \<Longrightarrow> hash_file env w f = 0"
  by (auto simp: content_at_def hash_file_def split: sum.splits)

lemma dep_changed_exact:
  assumes "resolve pool i = Some f"
    and hash: "hash_file env w f = hash_file env w' f \<Longrightarrow> content_at env w f = content_at env w' f"
    and time: "\<And>t. we_mtime env f w' = Some t \<Longrightarrow> t \<le> built_at \<Longrightarrow> content_at env w' f = content_at env w f"
    and stat: "we_mtime env f w' = None \<longleftrightarrow> content_at env w' f = None"
  shows "dep_changed env w' pool built_at (i, hash_file env w f) \<longleftrightarrow> content_at env w' f \<noteq> content_at env w f"
proof -
  have p: "path_of pool i = f" using assms(1) by (simp add: path_of_def)
  show ?thesis
  proof (cases "we_mtime env f w'")
    case None
    then have "content_at env w' f = None" using stat by simp
    then show ?thesis using None p hash hash_file_missing [of env w' f] hash_file_missing [of env w f]
      by (auto simp: dep_changed_def Let_def)
  next
    case (Some t)
    have "hash_file env w' f \<noteq> hash_file env w f \<longleftrightarrow> content_at env w' f \<noteq> content_at env w f"
      using hash hash_file_content [of env w f w'] by auto
    then show ?thesis using Some p time by (auto simp: dep_changed_def Let_def)
  qed
qed

text \<open>
  C22: with a pool that has room, dependencies in normal form and a file system in which a file
  whose modification time is not after the snapshot's clock has the content that was hashed, and on
  contents that the hash tells apart, \<open>deps_changed\<close> holds exactly when some dependency reads
  differently from what was hashed, however the pool grew in between.
\<close>

theorem deps_changed_exact:
  assumes "pool_ok pool" and "card (set (pool_paths pool) \<union> set deps) < 2 ^ 32"
    and norm: "\<forall>f \<in> set deps. normalize_path f = f"
    and snap: "capture_deps_snapshot env w0 w deps pool = (pool1, snap)"
    and later: "\<forall>j t. resolve pool1 j = Some t \<longrightarrow> resolve pool2 j = Some t"
    and hash: "\<forall>f \<in> set deps. hash_file env w f = hash_file env w' f \<longrightarrow> content_at env w f = content_at env w' f"
    and time: "\<forall>f \<in> set deps. \<forall>t. we_mtime env f w' = Some t \<and> t \<le> we_clock env w0 \<longrightarrow> content_at env w' f = content_at env w f"
    and stat: "\<forall>f \<in> set deps. we_mtime env f w' = None \<longleftrightarrow> content_at env w' f = None"
  shows "deps_changed env w' pool2 snap \<longleftrightarrow> (\<exists>f \<in> set deps. content_at env w' f \<noteq> content_at env w f)"
proof -
  obtain js where js: "intern_all deps pool = (pool1, js)" and snap': "snap_path_ids snap = js"
    "snap_hashes snap = map (hash_file env w) deps" "snap_build_at snap = we_clock env w0"
    using snap by (auto simp: capture_deps_snapshot_def split: prod.splits)
  have ids: "map (resolve pool1) js = map (\<lambda>f. Some (normalize_path f)) deps"
    using intern_all_grows [of "set deps" pool deps pool1 js] js norm assms(1,2) by (simp add: fits_def)
  then have len: "length js = length deps" by (metis length_map)
  have res: "resolve pool2 (js ! k) = Some (deps ! k)" if k: "k < length deps" for k
    using arg_cong [OF ids, of "\<lambda>l. l ! k"] k len norm later by simp
  have one: "dep_changed env w' pool2 (we_clock env w0) (js ! k, hash_file env w (deps ! k))
      \<longleftrightarrow> content_at env w' (deps ! k) \<noteq> content_at env w (deps ! k)" if k: "k < length deps" for k
    using dep_changed_exact [OF res [OF k], of env w w' "we_clock env w0"] k hash time stat by auto
  have "deps_changed env w' pool2 snap \<longleftrightarrow> (\<exists>k < length deps. content_at env w' (deps ! k) \<noteq> content_at env w (deps ! k))"
    unfolding deps_changed_def snap' list_ex_length using one by (auto simp: len)
  then show ?thesis by (metis in_set_conv_nth)
qed

section \<open>The metadata file\<close>

text \<open>What an entry says, with paths in place of ids.\<close>

type_synonym deps_view = "int \<times> (string \<times> u64) list"

definition snap_view :: "path_pool \<Rightarrow> deps_snapshot \<Rightarrow> deps_view" where
  "snap_view pool snap = (snap_build_at snap, map (\<lambda>(i, h). (path_of pool i, h)) (snap_entries snap))"

definition pch_view :: "path_pool \<Rightarrow> u32 \<times> pch_state \<Rightarrow> string \<times> string \<times> u32 \<times> deps_view" where
  "pch_view pool x = (path_of pool (fst x), pch_key (snd x), pch_bound (snd x), snap_view pool (pch_deps (snd x)))"

definition pcm_view :: "path_pool \<Rightarrow> u32 \<times> pcm_state \<Rightarrow> string \<times> string \<times> deps_view" where
  "pcm_view pool x = (path_of pool (fst x), pcm_key (snd x), snap_view pool (pcm_deps (snd x)))"

definition snap_valid :: "path_pool \<Rightarrow> deps_snapshot \<Rightarrow> bool" where
  "snap_valid pool snap \<longleftrightarrow> length (snap_path_ids snap) = length (snap_hashes snap)
     \<and> (\<forall>i \<in> set (snap_path_ids snap). resolve pool i \<noteq> None)"

definition workspace_valid :: "workspace_state \<Rightarrow> bool" where
  "workspace_valid s \<longleftrightarrow> pool_ok (wk_pool s) \<and> length (pool_paths (wk_pool s)) < 2 ^ 32
     \<and> (\<forall>p \<in> set (pool_paths (wk_pool s)). p \<noteq> [] \<and> normalize_path p = p)
     \<and> distinct (map fst (wk_pch s)) \<and> distinct (map fst (wk_pcm s))
     \<and> (\<forall>(i, st) \<in> set (wk_pch s). resolve (wk_pool s) i \<noteq> None \<and> snap_valid (wk_pool s) (pch_deps st))
     \<and> (\<forall>(i, st) \<in> set (wk_pcm s). resolve (wk_pool s) i \<noteq> None \<and> snap_valid (wk_pool s) (pcm_deps st))"

text \<open>The table of \<open>save_cache\<close> is a pool.\<close>

definition as_pool :: "path_table \<Rightarrow> path_pool" where
  "as_pool t = \<lparr>pool_paths = snd t, pool_cache = fst t\<rparr>"

lemma save_path_intern:
  assumes "normalize_path (path_of pool i) = path_of pool i" and "save_path pool i t = (t', k)"
  shows "intern (path_of pool i) (as_pool t) = (as_pool t', k)"
  using assms by (cases t) (auto simp: save_path_def intern_def as_pool_def Let_def split: option.splits)

lemma path_of_some: "resolve pool i = Some p \<Longrightarrow> path_of pool i = p"
  by (simp add: path_of_def)

lemma resolve_in_paths: "resolve pool i = Some p \<Longrightarrow> p \<in> set (pool_paths pool)"
  by (auto simp: resolve_def split: if_splits)

lemma path_of_in: "resolve pool i \<noteq> None \<Longrightarrow> path_of pool i \<in> set (pool_paths pool)"
  using resolve_in_paths path_of_some by fastforce

lemma save_path_grows:
  assumes "fits P (as_pool t)" and "path_of pool i \<in> P" and "normalize_path (path_of pool i) = path_of pool i"
    and "save_path pool i t = (t', k)"
  shows "fits P (as_pool t')" and "grows P (as_pool t) (as_pool t')" and "resolve (as_pool t') k = Some (path_of pool i)"
  using intern_fits [OF assms(1) _ save_path_intern [OF assms(3,4)]] assms(2,3) by auto

definition dep_views :: "path_pool \<Rightarrow> cache_dep_entry list \<Rightarrow> (string \<times> u64) list" where
  "dep_views T ds = map (\<lambda>d. (path_of T (cd_path d), cd_hash d)) ds"

text \<open>\<open>ids_in pool Q\<close>: ids whose paths are ones the table can hold.\<close>

definition savable :: "string set \<Rightarrow> path_pool \<Rightarrow> u32 \<Rightarrow> bool" where
  "savable P pool i \<longleftrightarrow> path_of pool i \<in> P \<and> normalize_path (path_of pool i) = path_of pool i"

lemma save_deps_grows:
  assumes "fits P (as_pool t)" and "\<forall>(i, h) \<in> set ds. savable P pool i" and "save_deps pool ds t = (t', es)"
  shows "fits P (as_pool t') \<and> grows P (as_pool t) (as_pool t')
    \<and> (\<forall>T. grows P (as_pool t') T \<longrightarrow> dep_views T es = map (\<lambda>(i, h). (path_of pool i, h)) ds)"
  using assms
proof (induction pool ds t arbitrary: t' es rule: save_deps.induct)
  case (2 pool i h ds t)
  obtain t1 k where one: "save_path pool i t = (t1, k)" by fastforce
  obtain rest where two: "save_deps pool ds t1 = (t', rest)" and es: "es = \<lparr>cd_path = k, cd_hash = h\<rparr> # rest"
    using 2(4) one by (auto simp: Let_def split: prod.splits)
  have g1: "fits P (as_pool t1)" "grows P (as_pool t) (as_pool t1)" "resolve (as_pool t1) k = Some (path_of pool i)"
    using save_path_grows [OF 2(2) _ _ one] 2(3) by (auto simp: savable_def)
  have g2: "fits P (as_pool t')" "grows P (as_pool t1) (as_pool t')"
    "\<And>T. grows P (as_pool t') T \<Longrightarrow> dep_views T rest = map (\<lambda>(i, h). (path_of pool i, h)) ds"
    using 2(1) [OF one [symmetric] refl g1(1) _ two] 2(3) by auto
  have "dep_views T es = map (\<lambda>(i, h). (path_of pool i, h)) ((i, h) # ds)" if T: "grows P (as_pool t') T" for T
  proof -
    have "resolve T k = Some (path_of pool i)"
      using g1(3) grows_trans [OF g2(2) T] by (auto simp: grows_def)
    then show ?thesis using g2(3) [OF T] es by (simp add: dep_views_def path_of_def)
  qed
  then show ?case using g2(1) grows_trans [OF g1(2) g2(2)] by (intro conjI allI impI)
qed (auto simp: dep_views_def)

definition pch_entry_view :: "path_pool \<Rightarrow> cache_pch_entry \<Rightarrow> string \<times> string \<times> u32 \<times> deps_view" where
  "pch_entry_view T e = (path_of T (cp_source e), cp_key e, cp_bound e, cp_build_at e, dep_views T (cp_deps e))"

definition pcm_entry_view :: "path_pool \<Rightarrow> cache_pcm_entry \<Rightarrow> string \<times> string \<times> deps_view" where
  "pcm_entry_view T e = (path_of T (cm_source e), cm_key e, cm_build_at e, dep_views T (cm_deps e))"

lemma save_pch_grows:
  assumes "fits P (as_pool t)"
    and "\<forall>(i, st) \<in> set xs. savable P pool i \<and> (\<forall>(j, h) \<in> set (snap_entries (pch_deps st)). savable P pool j)"
    and "save_pch pool xs t = (t', es)"
  shows "fits P (as_pool t') \<and> grows P (as_pool t) (as_pool t')
    \<and> (\<forall>T. grows P (as_pool t') T \<longrightarrow> map (pch_entry_view T) es = map (pch_view pool) (filter (\<lambda>x. pch_path (snd x) \<noteq> []) xs))"
  using assms
proof (induction pool xs t arbitrary: t' es rule: save_pch.induct)
  case (2 pool i st rest t)
  show ?case
  proof (cases "pch_path st = []")
    case True
    then show ?thesis using 2(1) [OF True 2(3)] 2(4,5) by auto
  next
    case False
    obtain t1 k where one: "save_path pool i t = (t1, k)" by fastforce
    obtain t2 ds where two: "save_deps pool (snap_entries (pch_deps st)) t1 = (t2, ds)" by fastforce
    obtain es1 where three: "save_pch pool rest t2 = (t', es1)"
      and es: "es = \<lparr>cp_key = pch_key st, cp_source = k, cp_bound = pch_bound st,
                  cp_build_at = snap_build_at (pch_deps st), cp_deps = ds\<rparr> # es1"
      using 2(5) False one two by (auto simp: Let_def split: prod.splits)
    have g1: "fits P (as_pool t1)" "grows P (as_pool t) (as_pool t1)" "resolve (as_pool t1) k = Some (path_of pool i)"
      using save_path_grows [OF 2(3) _ _ one] 2(4) by (auto simp: savable_def)
    have g2: "fits P (as_pool t2)" "grows P (as_pool t1) (as_pool t2)"
      "\<And>T. grows P (as_pool t2) T \<Longrightarrow> dep_views T ds = map (\<lambda>(i, h). (path_of pool i, h)) (snap_entries (pch_deps st))"
      using save_deps_grows [OF g1(1) _ two] 2(4) by auto
    have g3: "fits P (as_pool t')" "grows P (as_pool t2) (as_pool t')"
      "\<And>T. grows P (as_pool t') T \<Longrightarrow> map (pch_entry_view T) es1 = map (pch_view pool) (filter (\<lambda>x. pch_path (snd x) \<noteq> []) rest)"
      using 2(2) [OF False one [symmetric] refl two [symmetric] refl g2(1) _ three] 2(4) by auto
    have "map (pch_entry_view T) es = map (pch_view pool) (filter (\<lambda>x. pch_path (snd x) \<noteq> []) ((i, st) # rest))"
      if T: "grows P (as_pool t') T" for T
    proof -
      have "resolve T k = Some (path_of pool i)"
        using g1(3) grows_trans [OF g2(2) grows_trans [OF g3(2) T]] by (auto simp: grows_def)
      then show ?thesis using g3(3) [OF T] g2(3) [OF grows_trans [OF g3(2) T]] es False
        by (simp add: pch_entry_view_def pch_view_def snap_view_def path_of_def)
    qed
    then show ?thesis using g3(1) grows_trans [OF g1(2) grows_trans [OF g2(2) g3(2)]] by (intro conjI allI impI)
  qed
qed auto

lemma save_pcm_grows:
  assumes "fits P (as_pool t)"
    and "\<forall>(i, st) \<in> set xs. savable P pool i \<and> (\<forall>(j, h) \<in> set (snap_entries (pcm_deps st)). savable P pool j)"
    and "save_pcm pool modules xs t = (t', es)"
  shows "fits P (as_pool t') \<and> grows P (as_pool t) (as_pool t')
    \<and> (\<forall>T. grows P (as_pool t') T \<longrightarrow> map (pcm_entry_view T) es = map (pcm_view pool) (filter (\<lambda>x. pcm_path (snd x) \<noteq> []) xs))"
  using assms
proof (induction pool modules xs t arbitrary: t' es rule: save_pcm.induct)
  case (2 pool modules i st rest t)
  show ?case
  proof (cases "pcm_path st = []")
    case True
    then show ?thesis using 2(1) [OF True 2(3)] 2(4,5) by auto
  next
    case False
    obtain t1 k where one: "save_path pool i t = (t1, k)" by fastforce
    obtain t2 ds where two: "save_deps pool (snap_entries (pcm_deps st)) t1 = (t2, ds)" by fastforce
    obtain es1 where three: "save_pcm pool modules rest t2 = (t', es1)"
      and es: "es = \<lparr>cm_key = pcm_key st, cm_source = k,
                  cm_module = (case map_of modules i of None \<Rightarrow> [] | Some name \<Rightarrow> name),
                  cm_build_at = snap_build_at (pcm_deps st), cm_deps = ds\<rparr> # es1"
      using 2(5) False one two by (auto simp: Let_def split: prod.splits)
    have g1: "fits P (as_pool t1)" "grows P (as_pool t) (as_pool t1)" "resolve (as_pool t1) k = Some (path_of pool i)"
      using save_path_grows [OF 2(3) _ _ one] 2(4) by (auto simp: savable_def)
    have g2: "fits P (as_pool t2)" "grows P (as_pool t1) (as_pool t2)"
      "\<And>T. grows P (as_pool t2) T \<Longrightarrow> dep_views T ds = map (\<lambda>(i, h). (path_of pool i, h)) (snap_entries (pcm_deps st))"
      using save_deps_grows [OF g1(1) _ two] 2(4) by auto
    have g3: "fits P (as_pool t')" "grows P (as_pool t2) (as_pool t')"
      "\<And>T. grows P (as_pool t') T \<Longrightarrow> map (pcm_entry_view T) es1 = map (pcm_view pool) (filter (\<lambda>x. pcm_path (snd x) \<noteq> []) rest)"
      using 2(2) [OF False one [symmetric] refl two [symmetric] refl g2(1) _ three] 2(4) by auto
    have "map (pcm_entry_view T) es = map (pcm_view pool) (filter (\<lambda>x. pcm_path (snd x) \<noteq> []) ((i, st) # rest))"
      if T: "grows P (as_pool t') T" for T
    proof -
      have "resolve T k = Some (path_of pool i)"
        using g1(3) grows_trans [OF g2(2) grows_trans [OF g3(2) T]] by (auto simp: grows_def)
      then show ?thesis using g3(3) [OF T] g2(3) [OF grows_trans [OF g3(2) T]] es False
        by (simp add: pcm_entry_view_def pcm_view_def snap_view_def path_of_def)
    qed
    then show ?thesis using g3(1) grows_trans [OF g1(2) grows_trans [OF g2(2) g3(2)]] by (intro conjI allI impI)
  qed
qed auto

subsection \<open>Loading\<close>

lemma snap_view_grows:
  assumes "snap_valid p snap" and "grows P p q"
  shows "snap_valid q snap" and "snap_view q snap = snap_view p snap"
proof -
  show "snap_valid q snap" using assms by (fastforce simp: snap_valid_def grows_def)
  have "path_of q i = path_of p i" if "(i, h) \<in> set (snap_entries snap)" for i h
    using that assms grows_path_of [OF assms(2)] by (auto simp: snap_valid_def snap_entries_def dest: set_zip_leftD)
  then show "snap_view q snap = snap_view p snap" by (auto simp: snap_view_def)
qed

definition entries_valid :: "('a \<Rightarrow> deps_snapshot) \<Rightarrow> path_pool \<Rightarrow> (u32 \<times> 'a) list \<Rightarrow> bool" where
  "entries_valid deps pool xs \<longleftrightarrow> (\<forall>x \<in> set xs. resolve pool (fst x) \<noteq> None \<and> snap_valid pool (deps (snd x)))"

lemma entries_valid_grows: "entries_valid deps p xs \<Longrightarrow> grows P p q \<Longrightarrow> entries_valid deps q xs"
  using snap_view_grows(1) by (fastforce simp: entries_valid_def grows_def)

lemma pch_views_grow: "entries_valid pch_deps p xs \<Longrightarrow> grows P p q \<Longrightarrow> map (pch_view q) xs = map (pch_view p) xs"
  using snap_view_grows(2) grows_path_of by (fastforce simp: entries_valid_def pch_view_def)

lemma pcm_views_grow: "entries_valid pcm_deps p xs \<Longrightarrow> grows P p q \<Longrightarrow> map (pcm_view q) xs = map (pcm_view p) xs"
  using snap_view_grows(2) grows_path_of by (fastforce simp: entries_valid_def pcm_view_def)

definition cached_deps :: "cache_data \<Rightarrow> cache_dep_entry list \<Rightarrow> (string \<times> u64) list" where
  "cached_deps data ds = map (\<lambda>d. (cached_path data (cd_path d), cd_hash d)) ds"

definition plain :: "string set \<Rightarrow> bool" where
  "plain P \<longleftrightarrow> (\<forall>p \<in> P. p \<noteq> [] \<and> normalize_path p = p)"

lemma load_deps_grows:
  assumes "plain P" and "fits P pool" and "fst ` set (cached_deps data ds) \<subseteq> P" and "snap_valid pool snap"
    and "load_deps data ds (pool, snap) = (pool', snap')"
  shows "fits P pool' \<and> grows P pool pool' \<and> snap_valid pool' snap'
    \<and> snap_view pool' snap' = (snap_build_at snap, snd (snap_view pool snap) @ cached_deps data ds)"
  using assms(2-)
proof (induction ds arbitrary: pool snap)
  case Nil
  then show ?case by (simp add: cached_deps_def snap_view_def)
next
  case (Cons d ds)
  let ?p = "cached_path data (cd_path d)"
  have p: "?p \<in> P" "?p \<noteq> []" "normalize_path ?p = ?p" using Cons.prems(2) assms(1) by (auto simp: cached_deps_def plain_def)
  obtain pool1 i where one: "intern ?p pool = (pool1, i)" by fastforce
  let ?s1 = "snap\<lparr>snap_path_ids := snap_path_ids snap @ [i], snap_hashes := snap_hashes snap @ [cd_hash d]\<rparr>"
  have two: "load_deps data ds (pool1, ?s1) = (pool', snap')" using Cons.prems(4) one p(2) by (simp add: Let_def)
  have g1: "fits P pool1" "grows P pool pool1" "resolve pool1 i = Some ?p"
    using intern_fits [OF Cons.prems(1) _ one] p by auto
  have v: "snap_valid pool1 snap" "snap_view pool1 snap = snap_view pool snap"
    using snap_view_grows [OF Cons.prems(3) g1(2)] .
  have s1: "snap_valid pool1 ?s1" using v(1) g1(3) by (auto simp: snap_valid_def)
  have "snap_view pool1 ?s1 = (snap_build_at snap, snd (snap_view pool snap) @ [(?p, cd_hash d)])"
    using v g1(3) by (simp add: snap_view_def snap_entries_def snap_valid_def path_of_def)
  then show ?case using Cons.IH [OF g1(1) _ s1 two] Cons.prems(2) g1 grows_trans [OF g1(2)] by (auto simp: cached_deps_def)
qed

text \<open>The blob of a key; a lookup changes access times only.\<close>

definition blob_of :: "'w os \<Rightarrow> 'w \<Rightarrow> store \<Rightarrow> string \<Rightarrow> string \<Rightarrow> string option" where
  "blob_of os w st name key = fst (Cache_Store.lookup os name key (st, w))"

lemma blob_of_lookup: "blob_of os w (snd (Cache_Store.lookup os n k (st, w))) = blob_of os w st"
proof (intro ext)
  fix name key
  show "blob_of os w (snd (Cache_Store.lookup os n k (st, w))) name key = blob_of os w st name key"
    by (auto simp: blob_of_def Cache_Store.lookup_def next_stamp_def put_namespace_def blob_path_def Let_def
        split: option.splits prod.splits)
qed

definition cached_pch_view :: "cache_data \<Rightarrow> cache_pch_entry \<Rightarrow> string \<times> string \<times> u32 \<times> deps_view" where
  "cached_pch_view data e = (cached_path data (cp_source e), cp_key e, cp_bound e, cp_build_at e, cached_deps data (cp_deps e))"

definition cached_pcm_view :: "cache_data \<Rightarrow> cache_pcm_entry \<Rightarrow> string \<times> string \<times> deps_view" where
  "cached_pcm_view data e = (cached_path data (cm_source e), cm_key e, cm_build_at e, cached_deps data (cm_deps e))"

text \<open>The paths of a list of entries.\<close>

definition keys_at :: "path_pool \<Rightarrow> (u32 \<times> 'a) list \<Rightarrow> string set" where
  "keys_at pool xs = path_of pool ` fst ` set xs"

lemma update_absent: "map_of xs i = None \<Longrightarrow> AList.update i v xs = xs @ [(i, v)]"
  by (induction xs) (auto split: if_splits)

lemma update_fresh:
  assumes "resolve pool i = Some p" and "p \<notin> keys_at pool xs"
  shows "map_of xs i = None" and "AList.update i v xs = xs @ [(i, v)]"
proof -
  have "i \<notin> fst ` set xs" using assms by (force simp: keys_at_def path_of_def)
  then show "map_of xs i = None" and "AList.update i v xs = xs @ [(i, v)]"
    by (simp_all add: map_of_eq_None_iff update_absent)
qed

lemma keys_at_grows: "entries_valid deps p xs \<Longrightarrow> grows P p q \<Longrightarrow> keys_at q xs = keys_at p xs"
  by (auto simp: keys_at_def entries_valid_def grows_path_of intro!: image_cong)

text \<open>What loading entries does: \<open>new\<close> are the views of the entries it adds.\<close>

definition pch_loaded :: "'w ws_env \<Rightarrow> 'w \<Rightarrow> string set \<Rightarrow> workspace_state \<Rightarrow> workspace_state \<Rightarrow> (string \<times> string \<times> u32 \<times> deps_view) list \<Rightarrow> bool" where
  "pch_loaded env w P s s' new \<longleftrightarrow>
     fits P (wk_pool s') \<and> grows P (wk_pool s) (wk_pool s') \<and> entries_valid pch_deps (wk_pool s') (wk_pch s')
     \<and> map (pch_view (wk_pool s')) (wk_pch s') = map (pch_view (wk_pool s)) (wk_pch s) @ new
     \<and> wk_pcm s' = wk_pcm s \<and> wk_pcm_paths s' = wk_pcm_paths s
     \<and> (\<forall>x \<in> set (wk_pch s'). x \<in> set (wk_pch s) \<or> pch_links (snd x) = []
          \<and> map_option (\<lambda>st. blob_of (we_os env) w st ''pch'' (pch_key (snd x))) (wk_store s) = Some (Some (pch_path (snd x))))
     \<and> map_option (blob_of (we_os env) w) (wk_store s') = map_option (blob_of (we_os env) w) (wk_store s)"

lemma load_pch_one:
  assumes "plain P" and "fits P (wk_pool s)" and "entries_valid pch_deps (wk_pool s) (wk_pch s)" and "wk_store s = Some st"
    and deps: "fst ` set (cached_deps data (cp_deps e)) \<subseteq> P" and src: "cached_path data (cp_source e) \<in> P"
    and fresh: "cached_path data (cp_source e) \<notin> keys_at (wk_pool s) (wk_pch s)"
  shows "pch_loaded env w P s (load_pch env w data e s)
    (if blob_of (we_os env) w st ''pch'' (cp_key e) = None then [] else [cached_pch_view data e])"
proof -
  let ?b = "blob_of (we_os env) w" and ?p = "cached_path data (cp_source e)"
  obtain found st1 where l: "Cache_Store.lookup (we_os env) ''pch'' (cp_key e) (st, w) = (found, st1)" by fastforce
  have st1: "?b st1 = ?b st" using blob_of_lookup [of "we_os env" w "''pch''" "cp_key e" st] l by simp
  have found: "?b st ''pch'' (cp_key e) = found" using l by (simp add: blob_of_def)
  show ?thesis
  proof (cases found)
    case None
    then show ?thesis using assms l st1 found by (simp add: pch_loaded_def load_pch_def Let_def)
  next
    case (Some path)
    have p: "?p \<noteq> []" "normalize_path ?p = ?p" using src assms(1) by (auto simp: plain_def)
    obtain pool1 i where one: "intern ?p (wk_pool s) = (pool1, i)" by fastforce
    let ?s0 = "empty_snapshot\<lparr>snap_build_at := cp_build_at e\<rparr>"
    obtain pool2 snap where two: "load_deps data (cp_deps e) (pool1, ?s0) = (pool2, snap)" by fastforce
    have g1: "fits P pool1" "grows P (wk_pool s) pool1" "resolve pool1 i = Some ?p"
      using intern_fits [OF assms(2) _ one] p src by auto
    have g2: "fits P pool2" "grows P pool1 pool2" "snap_valid pool2 snap" "snap_view pool2 snap = (cp_build_at e, cached_deps data (cp_deps e))"
      using load_deps_grows [OF assms(1) g1(1) deps _ two] by (auto simp: snap_valid_def empty_snapshot_def snap_view_def snap_entries_def)
    have g: "grows P (wk_pool s) pool2" using grows_trans [OF g1(2) g2(2)] .
    have i2: "resolve pool2 i = Some ?p" using g1(3) g2(2) by (auto simp: grows_def)
    note fresh2 = update_fresh [OF i2, of "wk_pch s"]
    have f2: "?p \<notin> keys_at pool2 (wk_pch s)" using fresh keys_at_grows [OF assms(3) g] by simp
    have "load_pch env w data e s = s\<lparr>wk_store := Some st1, wk_pool := pool2,
        wk_pch := wk_pch s @ [(i, new_pch_state\<lparr>pch_path := path, pch_key := cp_key e, pch_bound := cp_bound e, pch_deps := snap\<rparr>)]\<rparr>"
      using assms(4) l Some p one two fresh2(1) [OF f2] fresh2(2) [OF f2] by (simp add: load_pch_def Let_def)
    then show ?thesis
      using g g2 i2 st1 found Some assms(4) entries_valid_grows [OF assms(3) g] pch_views_grow [OF assms(3) g]
      by (simp add: pch_loaded_def entries_valid_def cached_pch_view_def pch_view_def path_of_def new_pch_state_def)
  qed
qed

lemma pch_loaded_trans: "pch_loaded env w P s s1 xs \<Longrightarrow> pch_loaded env w P s1 s2 ys \<Longrightarrow> pch_loaded env w P s s2 (xs @ ys)"
  unfolding pch_loaded_def by (auto simp: map_option_case split: option.splits intro: grows_trans)

lemma keys_at_views: "keys_at pool xs = fst ` set (map (pch_view pool) xs)"
  by (force simp: keys_at_def pch_view_def)

lemma disjoint_insert_mono: "K' \<subseteq> insert a K \<Longrightarrow> a \<notin> F \<Longrightarrow> F \<inter> K = {} \<Longrightarrow> F \<inter> K' = {}"
  by blast

lemma load_pch_all:
  assumes "plain P" and "fits P (wk_pool s)" and "entries_valid pch_deps (wk_pool s) (wk_pch s)" and "wk_store s = Some st"
    and "\<forall>e \<in> set es. fst ` set (cached_deps data (cp_deps e)) \<subseteq> P \<and> cached_path data (cp_source e) \<in> P"
    and "distinct (map (\<lambda>e. cached_path data (cp_source e)) es)"
    and "(\<lambda>e. cached_path data (cp_source e)) ` set es \<inter> keys_at (wk_pool s) (wk_pch s) = {}"
  shows "pch_loaded env w P s (fold (load_pch env w data) es s)
    (map (cached_pch_view data) (filter (\<lambda>e. blob_of (we_os env) w st ''pch'' (cp_key e) \<noteq> None) es))"
  using assms(2-)
proof (induction es arbitrary: s st)
  case Nil
  then show ?case by (simp add: pch_loaded_def)
next
  case (Cons e es)
  let ?s1 = "load_pch env w data e s" and ?src = "\<lambda>e. cached_path data (cp_source e)"
  let ?new = "if blob_of (we_os env) w st ''pch'' (cp_key e) = None then [] else [cached_pch_view data e]"
  have one: "pch_loaded env w P s ?s1 ?new"
    by (rule load_pch_one [OF assms(1) Cons.prems(1-3)]) (use Cons.prems(4,6) in auto)
  then obtain st1 where st1: "wk_store ?s1 = Some st1" "blob_of (we_os env) w st1 = blob_of (we_os env) w st"
    using Cons.prems(3) by (auto simp: pch_loaded_def)
  have sub: "keys_at (wk_pool ?s1) (wk_pch ?s1) \<subseteq> insert (?src e) (keys_at (wk_pool s) (wk_pch s))"
    using one unfolding keys_at_views pch_loaded_def by (auto simp: cached_pch_view_def split: if_splits)
  have out: "?src e \<notin> ?src ` set es" "?src ` set es \<inter> keys_at (wk_pool s) (wk_pch s) = {}" using Cons.prems(5,6) by auto
  have disj: "?src ` set es \<inter> keys_at (wk_pool ?s1) (wk_pch ?s1) = {}" by (rule disjoint_insert_mono [OF sub out])
  have f: "fits P (wk_pool ?s1)" "entries_valid pch_deps (wk_pool ?s1) (wk_pch ?s1)"
    using one by (simp_all add: pch_loaded_def)
  have "pch_loaded env w P ?s1 (fold (load_pch env w data) es ?s1)
      (map (cached_pch_view data) (filter (\<lambda>e. blob_of (we_os env) w st ''pch'' (cp_key e) \<noteq> None) es))"
    unfolding st1(2) [symmetric] by (rule Cons.IH [OF f st1(1)]) (use Cons.prems(4,5) disj in auto)
  from pch_loaded_trans [OF one this] show ?case by auto
qed

text \<open>The same for modules, whose paths are kept a second time.\<close>

definition paths_follow :: "workspace_state \<Rightarrow> bool" where
  "paths_follow s \<longleftrightarrow> wk_pcm_paths s = map (map_prod id pcm_path) (wk_pcm s)"

lemma paths_follow_append:
  assumes "paths_follow s" and "map_of (wk_pcm s) i = None"
  shows "AList.update i path (wk_pcm_paths s) = map (map_prod id pcm_path) (wk_pcm s) @ [(i, path)]"
  using assms update_absent [of "map (map_prod id pcm_path) (wk_pcm s)" i path]
  by (simp add: paths_follow_def map_of_eq_None_iff image_image)

definition pcm_loaded :: "'w ws_env \<Rightarrow> 'w \<Rightarrow> string set \<Rightarrow> workspace_state \<Rightarrow> workspace_state \<Rightarrow> (string \<times> string \<times> deps_view) list \<Rightarrow> bool" where
  "pcm_loaded env w P s s' new \<longleftrightarrow>
     fits P (wk_pool s') \<and> grows P (wk_pool s) (wk_pool s') \<and> entries_valid pcm_deps (wk_pool s') (wk_pcm s')
     \<and> map (pcm_view (wk_pool s')) (wk_pcm s') = map (pcm_view (wk_pool s)) (wk_pcm s) @ new
     \<and> wk_pch s' = wk_pch s \<and> (paths_follow s \<longrightarrow> paths_follow s')
     \<and> (\<forall>x \<in> set (wk_pcm s'). x \<in> set (wk_pcm s)
          \<or> map_option (\<lambda>st. blob_of (we_os env) w st ''pcm'' (pcm_key (snd x))) (wk_store s) = Some (Some (pcm_path (snd x))))
     \<and> map_option (blob_of (we_os env) w) (wk_store s') = map_option (blob_of (we_os env) w) (wk_store s)"

lemma load_pcm_one:
  assumes "plain P" and "fits P (wk_pool s)" and "entries_valid pcm_deps (wk_pool s) (wk_pcm s)" and "wk_store s = Some st"
    and deps: "fst ` set (cached_deps data (cm_deps e)) \<subseteq> P" and src: "cached_path data (cm_source e) \<in> P"
    and fresh: "cached_path data (cm_source e) \<notin> keys_at (wk_pool s) (wk_pcm s)"
  shows "pcm_loaded env w P s (load_pcm env w data e s)
    (if blob_of (we_os env) w st ''pcm'' (cm_key e) = None then [] else [cached_pcm_view data e])"
proof -
  let ?b = "blob_of (we_os env) w" and ?p = "cached_path data (cm_source e)"
  obtain found st1 where l: "Cache_Store.lookup (we_os env) ''pcm'' (cm_key e) (st, w) = (found, st1)" by fastforce
  have st1: "?b st1 = ?b st" using blob_of_lookup [of "we_os env" w "''pcm''" "cm_key e" st] l by simp
  have found: "?b st ''pcm'' (cm_key e) = found" using l by (simp add: blob_of_def)
  show ?thesis
  proof (cases found)
    case None
    then show ?thesis using assms l st1 found by (simp add: pcm_loaded_def load_pcm_def Let_def paths_follow_def)
  next
    case (Some path)
    have p: "?p \<noteq> []" "normalize_path ?p = ?p" using src assms(1) by (auto simp: plain_def)
    obtain pool1 i where one: "intern ?p (wk_pool s) = (pool1, i)" by fastforce
    let ?s0 = "empty_snapshot\<lparr>snap_build_at := cm_build_at e\<rparr>"
    obtain pool2 snap where two: "load_deps data (cm_deps e) (pool1, ?s0) = (pool2, snap)" by fastforce
    have g1: "fits P pool1" "grows P (wk_pool s) pool1" "resolve pool1 i = Some ?p"
      using intern_fits [OF assms(2) _ one] p src by auto
    have g2: "fits P pool2" "grows P pool1 pool2" "snap_valid pool2 snap" "snap_view pool2 snap = (cm_build_at e, cached_deps data (cm_deps e))"
      using load_deps_grows [OF assms(1) g1(1) deps _ two] by (auto simp: snap_valid_def empty_snapshot_def snap_view_def snap_entries_def)
    have g: "grows P (wk_pool s) pool2" using grows_trans [OF g1(2) g2(2)] .
    have i2: "resolve pool2 i = Some ?p" using g1(3) g2(2) by (auto simp: grows_def)
    note fresh2 = update_fresh [OF i2, of "wk_pcm s"]
    have f2: "?p \<notin> keys_at pool2 (wk_pcm s)" using fresh keys_at_grows [OF assms(3) g] by simp
    have "load_pcm env w data e s = s\<lparr>wk_store := Some st1, wk_pool := pool2,
        wk_pcm := wk_pcm s @ [(i, \<lparr>pcm_path = path, pcm_key = cm_key e, pcm_deps = snap\<rparr>)],
        wk_pcm_paths := AList.update i path (wk_pcm_paths s)\<rparr>"
      using assms(4) l Some p one two fresh2(1) [OF f2] fresh2(2) [OF f2] by (simp add: load_pcm_def Let_def)
    then show ?thesis
      using g g2 i2 st1 found Some assms(4) entries_valid_grows [OF assms(3) g] pcm_views_grow [OF assms(3) g]
      paths_follow_append [of s i path] fresh2(1) [OF f2]
      by (simp add: pcm_loaded_def entries_valid_def cached_pcm_view_def pcm_view_def path_of_def paths_follow_def)
  qed
qed

lemma pcm_loaded_trans: "pcm_loaded env w P s s1 xs \<Longrightarrow> pcm_loaded env w P s1 s2 ys \<Longrightarrow> pcm_loaded env w P s s2 (xs @ ys)"
  unfolding pcm_loaded_def
  by (elim conjE, intro conjI) (auto simp: map_option_case split: option.splits elim: grows_trans)

lemma keys_at_pcm_views: "keys_at pool xs = fst ` set (map (pcm_view pool) xs)"
  by (force simp: keys_at_def pcm_view_def)

lemma load_pcm_all:
  assumes "plain P" and "fits P (wk_pool s)" and "entries_valid pcm_deps (wk_pool s) (wk_pcm s)" and "wk_store s = Some st"
    and "\<forall>e \<in> set es. fst ` set (cached_deps data (cm_deps e)) \<subseteq> P \<and> cached_path data (cm_source e) \<in> P"
    and "distinct (map (\<lambda>e. cached_path data (cm_source e)) es)"
    and "(\<lambda>e. cached_path data (cm_source e)) ` set es \<inter> keys_at (wk_pool s) (wk_pcm s) = {}"
  shows "pcm_loaded env w P s (fold (load_pcm env w data) es s)
    (map (cached_pcm_view data) (filter (\<lambda>e. blob_of (we_os env) w st ''pcm'' (cm_key e) \<noteq> None) es))"
  using assms(2-)
proof (induction es arbitrary: s st)
  case Nil
  then show ?case by (simp add: pcm_loaded_def)
next
  case (Cons e es)
  let ?s1 = "load_pcm env w data e s" and ?src = "\<lambda>e. cached_path data (cm_source e)"
  let ?new = "if blob_of (we_os env) w st ''pcm'' (cm_key e) = None then [] else [cached_pcm_view data e]"
  have one: "pcm_loaded env w P s ?s1 ?new"
    by (rule load_pcm_one [OF assms(1) Cons.prems(1-3)]) (use Cons.prems(4,6) in auto)
  then obtain st1 where st1: "wk_store ?s1 = Some st1" "blob_of (we_os env) w st1 = blob_of (we_os env) w st"
    using Cons.prems(3) by (auto simp: pcm_loaded_def)
  have sub: "keys_at (wk_pool ?s1) (wk_pcm ?s1) \<subseteq> insert (?src e) (keys_at (wk_pool s) (wk_pcm s))"
    using one unfolding keys_at_pcm_views pcm_loaded_def by (auto simp: cached_pcm_view_def split: if_splits)
  have out: "?src e \<notin> ?src ` set es" "?src ` set es \<inter> keys_at (wk_pool s) (wk_pcm s) = {}" using Cons.prems(5,6) by auto
  have disj: "?src ` set es \<inter> keys_at (wk_pool ?s1) (wk_pcm ?s1) = {}" by (rule disjoint_insert_mono [OF sub out])
  have f: "fits P (wk_pool ?s1)" "entries_valid pcm_deps (wk_pool ?s1) (wk_pcm ?s1)"
    using one by (simp_all add: pcm_loaded_def)
  have "pcm_loaded env w P ?s1 (fold (load_pcm env w data) es ?s1)
      (map (cached_pcm_view data) (filter (\<lambda>e. blob_of (we_os env) w st ''pcm'' (cm_key e) \<noteq> None) es))"
    unfolding st1(2) [symmetric] by (rule Cons.IH [OF f st1(1)]) (use Cons.prems(4,5) disj in auto)
  from pcm_loaded_trans [OF one this] show ?case by auto
qed

subsection \<open>Round trip\<close>

lemma cached_path_as_pool: "cached_path data i = path_of (as_pool (m, cache_paths data)) i"
  by (simp add: cached_path_def path_of_def resolve_def as_pool_def)

lemma cached_views_as_pool:
  "cached_pch_view data e = pch_entry_view (as_pool (m, cache_paths data)) e"
  "cached_pcm_view data e' = pcm_entry_view (as_pool (m, cache_paths data)) e'"
  by (simp_all add: cached_pch_view_def pch_entry_view_def cached_pcm_view_def pcm_entry_view_def cached_deps_def
      dep_views_def cached_path_as_pool [of data _ m])

lemma workspace_savable:
  assumes "workspace_valid s" and "resolve (wk_pool s) i \<noteq> None"
  shows "savable (set (pool_paths (wk_pool s))) (wk_pool s) i"
  using assms resolve_in_paths [of "wk_pool s" i] by (auto simp: savable_def workspace_valid_def path_of_def)

lemma workspace_plain: "workspace_valid s \<Longrightarrow> plain (set (pool_paths (wk_pool s)))"
  by (simp add: workspace_valid_def plain_def)

lemma snapshot_savable:
  assumes "workspace_valid s" and "snap_valid (wk_pool s) snap" and "(j, h) \<in> set (snap_entries snap)"
  shows "savable (set (pool_paths (wk_pool s))) (wk_pool s) j"
  using assms by (intro workspace_savable) (auto simp: snap_valid_def snap_entries_def dest: set_zip_leftD)

lemma entries_savable:
  assumes "workspace_valid s"
  shows "\<forall>(i, st) \<in> set (wk_pch s). savable (set (pool_paths (wk_pool s))) (wk_pool s) i
      \<and> (\<forall>(j, h) \<in> set (snap_entries (pch_deps st)). savable (set (pool_paths (wk_pool s))) (wk_pool s) j)"
    and "\<forall>(i, st) \<in> set (wk_pcm s). savable (set (pool_paths (wk_pool s))) (wk_pool s) i
      \<and> (\<forall>(j, h) \<in> set (snap_entries (pcm_deps st)). savable (set (pool_paths (wk_pool s))) (wk_pool s) j)"
proof -
  have "resolve (wk_pool s) i \<noteq> None \<and> snap_valid (wk_pool s) (pch_deps st)" if "(i, st) \<in> set (wk_pch s)" for i st
    using that assms by (auto simp: workspace_valid_def)
  then show "\<forall>(i, st) \<in> set (wk_pch s). savable (set (pool_paths (wk_pool s))) (wk_pool s) i
      \<and> (\<forall>(j, h) \<in> set (snap_entries (pch_deps st)). savable (set (pool_paths (wk_pool s))) (wk_pool s) j)"
    using workspace_savable [OF assms] snapshot_savable [OF assms] by blast
  have "resolve (wk_pool s) i \<noteq> None \<and> snap_valid (wk_pool s) (pcm_deps st)" if "(i, st) \<in> set (wk_pcm s)" for i st
    using that assms by (auto simp: workspace_valid_def)
  then show "\<forall>(i, st) \<in> set (wk_pcm s). savable (set (pool_paths (wk_pool s))) (wk_pool s) i
      \<and> (\<forall>(j, h) \<in> set (snap_entries (pcm_deps st)). savable (set (pool_paths (wk_pool s))) (wk_pool s) j)"
    using workspace_savable [OF assms] snapshot_savable [OF assms] by blast
qed

text \<open>The workspace with its maps in the order in which they are iterated.\<close>

definition iterated :: "'w ws_env \<Rightarrow> workspace_state \<Rightarrow> workspace_state" where
  "iterated env s = s\<lparr>wk_pch := iterate env ''pch_cache'' (wk_pch s), wk_pcm := iterate env ''pcm_cache'' (wk_pcm s)\<rparr>"

definition orders_keys :: "'w ws_env \<Rightarrow> bool" where
  "orders_keys env \<longleftrightarrow> (\<forall>name ks. mset (we_order env name ks) = mset ks)"

lemma iterated_same [simp]: "wk_pool (iterated env s) = wk_pool s"
  by (simp add: iterated_def)

lemma iterate_mset:
  assumes "orders_keys env" and "distinct (map fst xs)"
  shows "mset (iterate env name xs) = mset xs"
proof -
  let ?at = "\<lambda>i. (i, the (map_of xs i))"
  have "map (?at \<circ> fst) xs = map id xs"
    by (rule map_cong) (use assms(2) in \<open>auto simp: map_of_is_SomeI\<close>)
  then have "mset (map ?at (map fst xs)) = mset xs" by simp
  moreover have "mset (iterate env name xs) = mset (map ?at (map fst xs))"
    using assms(1) by (simp only: iterate_def mset_map orders_keys_def)
  ultimately show ?thesis by simp
qed

lemma iterated_mset:
  assumes "orders_keys env" and "workspace_valid s"
  shows "mset (wk_pch (iterated env s)) = mset (wk_pch s)" and "mset (wk_pcm (iterated env s)) = mset (wk_pcm s)"
  using assms iterate_mset by (auto simp: iterated_def workspace_valid_def)

lemma mset_distinct_keys:
  assumes "mset xs = mset ys"
  shows "distinct (map fst xs) \<longleftrightarrow> distinct (map fst ys)"
proof -
  have "mset (map fst xs) = mset (map fst ys)" using assms by simp
  then show ?thesis by (rule mset_eq_imp_distinct_iff)
qed

lemma iterated_valid:
  assumes "orders_keys env" and "workspace_valid s"
  shows "workspace_valid (iterated env s)"
proof -
  note same = iterated_mset [OF assms]
  show ?thesis
    using assms(2) mset_eq_setD [OF same(1)] mset_eq_setD [OF same(2)] mset_distinct_keys [OF same(1)] mset_distinct_keys [OF same(2)]
    by (simp add: workspace_valid_def)
qed

lemma cache_data_views:
  assumes "workspace_valid (iterated env s)"
  defines "data \<equiv> cache_data_of env s"
  shows "map (cached_pch_view data) (cache_pch data) = map (pch_view (wk_pool s)) (filter (\<lambda>x. pch_path (snd x) \<noteq> []) (wk_pch (iterated env s)))"
    and "map (cached_pcm_view data) (cache_pcm data) = map (pcm_view (wk_pool s)) (filter (\<lambda>x. pcm_path (snd x) \<noteq> []) (wk_pcm (iterated env s)))"
proof -
  let ?P = "set (pool_paths (wk_pool s))"
  obtain t1 es where one: "save_pch (wk_pool s) (wk_pch (iterated env s)) (Map.empty, []) = (t1, es)" by fastforce
  obtain m ps fs where two: "save_pcm (wk_pool s) (wk_modules s) (wk_pcm (iterated env s)) t1 = ((m, ps), fs)"
    by (metis prod.exhaust)
  have data: "cache_paths data = ps" "cache_pch data = es" "cache_pcm data = fs"
    using one two by (simp_all add: data_def cache_data_of_def iterated_def)
  have "card ?P < 2 ^ 32"
    using assms(1) card_length [of "pool_paths (wk_pool s)"] by (simp add: workspace_valid_def)
  then have f0: "fits ?P (as_pool (Map.empty, []))" using pool_ok_empty by (simp add: fits_def as_pool_def empty_pool_def)
  note g1 = save_pch_grows [OF f0 entries_savable(1) [OF assms(1), simplified iterated_same] one]
  note g2 = save_pcm_grows [OF conjunct1 [OF g1] entries_savable(2) [OF assms(1), simplified iterated_same] two]
  have T: "as_pool (m, ps) = as_pool (m, cache_paths data)" by (simp add: data)
  have "map (pch_entry_view (as_pool (m, ps))) es = map (pch_view (wk_pool s)) (filter (\<lambda>x. pch_path (snd x) \<noteq> []) (wk_pch (iterated env s)))"
    using g1 g2 by simp
  moreover have "map (pcm_entry_view (as_pool (m, ps))) fs = map (pcm_view (wk_pool s)) (filter (\<lambda>x. pcm_path (snd x) \<noteq> []) (wk_pcm (iterated env s)))"
    using g2 by simp
  ultimately show "map (cached_pch_view data) (cache_pch data) = map (pch_view (wk_pool s)) (filter (\<lambda>x. pch_path (snd x) \<noteq> []) (wk_pch (iterated env s)))"
    and "map (cached_pcm_view data) (cache_pcm data) = map (pcm_view (wk_pool s)) (filter (\<lambda>x. pcm_path (snd x) \<noteq> []) (wk_pcm (iterated env s)))"
    unfolding T cached_views_as_pool [of data _ m, abs_def] by (simp_all add: data)
qed

lemma path_of_inj:
  assumes "pool_ok pool" and "\<forall>i \<in> I. resolve pool i \<noteq> None"
  shows "inj_on (path_of pool) I"
  using assms(2) by (auto simp: inj_on_def path_of_def dest: pool.get_inj [OF assms(1)] split: option.splits)

lemma snap_view_paths:
  assumes "snap_valid pool snap"
  shows "fst ` set (snd (snap_view pool snap)) \<subseteq> set (pool_paths pool)"
proof
  fix p assume "p \<in> fst ` set (snd (snap_view pool snap))"
  then obtain i h where "(i, h) \<in> set (snap_entries snap)" "p = path_of pool i" by (auto simp: snap_view_def)
  moreover from this obtain q where "resolve pool i = Some q"
    using assms by (auto simp: snap_valid_def snap_entries_def dest: set_zip_leftD)
  ultimately show "p \<in> set (pool_paths pool)" using resolve_in_paths path_of_some by metis
qed

lemma saved_pch_wellformed:
  assumes "pool_ok pool" and "entries_valid pch_deps pool xs" and "distinct (map fst xs)"
    and views: "map (cached_pch_view data) es = map (pch_view pool) xs"
  shows "\<forall>e \<in> set es. fst ` set (cached_deps data (cp_deps e)) \<subseteq> set (pool_paths pool) \<and> cached_path data (cp_source e) \<in> set (pool_paths pool)"
    and "distinct (map (\<lambda>e. cached_path data (cp_source e)) es)"
proof -
  show "\<forall>e \<in> set es. fst ` set (cached_deps data (cp_deps e)) \<subseteq> set (pool_paths pool) \<and> cached_path data (cp_source e) \<in> set (pool_paths pool)"
  proof
    fix e assume "e \<in> set es"
    then have "cached_pch_view data e \<in> set (map (pch_view pool) xs)" unfolding views [symmetric] by simp
    then obtain x where eq: "cached_pch_view data e = pch_view pool x" and x: "x \<in> set xs" unfolding set_map by (rule imageE)
    have "cached_path data (cp_source e) = path_of pool (fst x)"
      "cached_deps data (cp_deps e) = snd (snap_view pool (pch_deps (snd x)))"
      using eq by (auto simp: cached_pch_view_def pch_view_def snap_view_def)
    moreover have "resolve pool (fst x) \<noteq> None" "snap_valid pool (pch_deps (snd x))" using x assms(2) by (auto simp: entries_valid_def)
    ultimately show "fst ` set (cached_deps data (cp_deps e)) \<subseteq> set (pool_paths pool) \<and> cached_path data (cp_source e) \<in> set (pool_paths pool)"
      using snap_view_paths path_of_in by simp
  qed
  have "map (\<lambda>e. cached_path data (cp_source e)) es = map (path_of pool) (map fst xs)"
    using arg_cong [OF views, of "map fst"] by (simp add: comp_def cached_pch_view_def pch_view_def)
  then show "distinct (map (\<lambda>e. cached_path data (cp_source e)) es)"
    using path_of_inj [OF assms(1), of "fst ` set xs"] assms(2,3) by (simp add: distinct_map entries_valid_def comp_inj_on)
qed

lemma saved_pcm_wellformed:
  assumes "pool_ok pool" and "entries_valid pcm_deps pool xs" and "distinct (map fst xs)"
    and views: "map (cached_pcm_view data) es = map (pcm_view pool) xs"
  shows "\<forall>e \<in> set es. fst ` set (cached_deps data (cm_deps e)) \<subseteq> set (pool_paths pool) \<and> cached_path data (cm_source e) \<in> set (pool_paths pool)"
    and "distinct (map (\<lambda>e. cached_path data (cm_source e)) es)"
proof -
  show "\<forall>e \<in> set es. fst ` set (cached_deps data (cm_deps e)) \<subseteq> set (pool_paths pool) \<and> cached_path data (cm_source e) \<in> set (pool_paths pool)"
  proof
    fix e assume "e \<in> set es"
    then have "cached_pcm_view data e \<in> set (map (pcm_view pool) xs)" unfolding views [symmetric] by simp
    then obtain x where eq: "cached_pcm_view data e = pcm_view pool x" and x: "x \<in> set xs" unfolding set_map by (rule imageE)
    have "cached_path data (cm_source e) = path_of pool (fst x)"
      "cached_deps data (cm_deps e) = snd (snap_view pool (pcm_deps (snd x)))"
      using eq by (auto simp: cached_pcm_view_def pcm_view_def snap_view_def)
    moreover have "resolve pool (fst x) \<noteq> None" "snap_valid pool (pcm_deps (snd x))" using x assms(2) by (auto simp: entries_valid_def)
    ultimately show "fst ` set (cached_deps data (cm_deps e)) \<subseteq> set (pool_paths pool) \<and> cached_path data (cm_source e) \<in> set (pool_paths pool)"
      using snap_view_paths path_of_in by simp
  qed
  have "map (\<lambda>e. cached_path data (cm_source e)) es = map (path_of pool) (map fst xs)"
    using arg_cong [OF views, of "map fst"] by (simp add: comp_def cached_pcm_view_def pcm_view_def)
  then show "distinct (map (\<lambda>e. cached_path data (cm_source e)) es)"
    using path_of_inj [OF assms(1), of "fst ` set xs"] assms(2,3) by (simp add: distinct_map entries_valid_def comp_inj_on)
qed

lemma filter_views:
  assumes "map f es = map g xs" and "\<And>e x. f e = g x \<Longrightarrow> P e = Q x"
  shows "map f (filter P es) = map g (filter Q xs)"
  using assms(1)
proof (induction es arbitrary: xs)
  case (Cons e es)
  then obtain x xs' where "xs = x # xs'" "f e = g x" "map f es = map g xs'" by auto
  then show ?case using Cons.IH assms(2) by auto
qed simp

lemma cache_metadata_ordered:
  assumes s: "workspace_valid (iterated env s)"
    and wrote: "we_to_json env (cache_data_of env s) = Some text" "we_from_json env text = Some (cache_data_of env s)"
      "os_buffer (we_os env) (cache_file env st) (save_cache env s w0) = Inr text"
    and s0: "wk_store s0 = Some st" "wk_pch s0 = []" "wk_pcm s0 = []" "wk_pcm_paths s0 = []" "pool_ok (wk_pool s0)"
    and room: "card (set (pool_paths (wk_pool s0)) \<union> set (pool_paths (wk_pool s))) < 2 ^ 32"
    and w: "w = save_cache env s w0" and s1: "s1 = load_cache env w s0"
  shows "map (pch_view (wk_pool s1)) (wk_pch s1) = map (pch_view (wk_pool s))
      (filter (\<lambda>x. pch_path (snd x) \<noteq> [] \<and> blob_of (we_os env) w st ''pch'' (pch_key (snd x)) \<noteq> None) (wk_pch (iterated env s)))
    \<and> map (pcm_view (wk_pool s1)) (wk_pcm s1) = map (pcm_view (wk_pool s))
      (filter (\<lambda>x. pcm_path (snd x) \<noteq> [] \<and> blob_of (we_os env) w st ''pcm'' (pcm_key (snd x)) \<noteq> None) (wk_pcm (iterated env s)))
    \<and> wk_pcm_paths s1 = map (map_prod id pcm_path) (wk_pcm s1)
    \<and> (\<forall>x \<in> set (wk_pch s1). pch_links (snd x) = [] \<and> blob_of (we_os env) w st ''pch'' (pch_key (snd x)) = Some (pch_path (snd x)))
    \<and> (\<forall>x \<in> set (wk_pcm s1). blob_of (we_os env) w st ''pcm'' (pcm_key (snd x)) = Some (pcm_path (snd x)))"
proof -
  let ?d = "cache_data_of env s" and ?P = "set (pool_paths (wk_pool s))" and ?b = "blob_of (we_os env) w"
  let ?m = "fold (load_pch env w ?d) (cache_pch ?d) s0"
  have s1': "s1 = fold (load_pcm env w ?d) (cache_pcm ?d) ?m"
    using wrote s0(1) w s1 by (simp add: load_cache_def)
  have v: "pool_ok (wk_pool s)" "entries_valid pch_deps (wk_pool s) (wk_pch (iterated env s))" "entries_valid pcm_deps (wk_pool s) (wk_pcm (iterated env s))"
    "distinct (map fst (wk_pch (iterated env s)))" "distinct (map fst (wk_pcm (iterated env s)))"
    using s by (auto simp: workspace_valid_def entries_valid_def)
  note views = cache_data_views [OF s]
  have f0: "fits ?P (wk_pool s0)" using room s0(5) by (simp add: fits_def)
  have "distinct (map fst (filter (\<lambda>x. pch_path (snd x) \<noteq> []) (wk_pch (iterated env s))))"
    "distinct (map fst (filter (\<lambda>x. pcm_path (snd x) \<noteq> []) (wk_pcm (iterated env s))))"
    using v(4,5) by (auto simp: distinct_map_filter)
  note wf = saved_pch_wellformed [OF v(1) _ this(1) views(1)] saved_pcm_wellformed [OF v(1) _ this(2) views(2)]
  have ev: "entries_valid pch_deps (wk_pool s) (filter (\<lambda>x. pch_path (snd x) \<noteq> []) (wk_pch (iterated env s)))"
    "entries_valid pcm_deps (wk_pool s) (filter (\<lambda>x. pcm_path (snd x) \<noteq> []) (wk_pcm (iterated env s)))"
    using v(2,3) by (auto simp: entries_valid_def)
  have l1: "pch_loaded env w ?P s0 ?m (map (cached_pch_view ?d) (filter (\<lambda>e. ?b st ''pch'' (cp_key e) \<noteq> None) (cache_pch ?d)))"
    by (rule load_pch_all [OF workspace_plain [OF s, unfolded iterated_same] f0 _ s0(1) wf(1) [OF ev(1)] wf(2) [OF ev(1)]])
      (use s0 in \<open>auto simp: entries_valid_def keys_at_def\<close>)
  then obtain st' where st': "wk_store ?m = Some st'" "?b st' = ?b st" using s0(1) by (auto simp: pch_loaded_def)
  have m: "wk_pcm ?m = []" "wk_pcm_paths ?m = []" "fits ?P (wk_pool ?m)" "entries_valid pch_deps (wk_pool ?m) (wk_pch ?m)"
    using l1 s0 by (simp_all add: pch_loaded_def)
  have l2: "pcm_loaded env w ?P ?m s1 (map (cached_pcm_view ?d) (filter (\<lambda>e. ?b st' ''pcm'' (cm_key e) \<noteq> None) (cache_pcm ?d)))"
    unfolding s1' by (rule load_pcm_all [OF workspace_plain [OF s, unfolded iterated_same] m(3) _ st'(1) wf(3) [OF ev(2)] wf(4) [OF ev(2)]])
      (use m in \<open>auto simp: entries_valid_def keys_at_def\<close>)
  have keep: "wk_pch s1 = wk_pch ?m" "grows ?P (wk_pool ?m) (wk_pool s1)" "paths_follow s1"
    using l2 m by (simp_all add: pcm_loaded_def paths_follow_def)
  have "map (pch_view (wk_pool s1)) (wk_pch s1) = map (cached_pch_view ?d) (filter (\<lambda>e. ?b st ''pch'' (cp_key e) \<noteq> None) (cache_pch ?d))"
    using l1 s0 keep pch_views_grow [OF m(4) keep(2)] by (simp add: pch_loaded_def)
  also have "\<dots> = map (pch_view (wk_pool s)) (filter (\<lambda>x. ?b st ''pch'' (pch_key (snd x)) \<noteq> None) (filter (\<lambda>x. pch_path (snd x) \<noteq> []) (wk_pch (iterated env s))))"
    by (rule filter_views [OF views(1)]) (simp add: cached_pch_view_def pch_view_def)
  finally have a: "map (pch_view (wk_pool s1)) (wk_pch s1) = map (pch_view (wk_pool s))
      (filter (\<lambda>x. pch_path (snd x) \<noteq> [] \<and> ?b st ''pch'' (pch_key (snd x)) \<noteq> None) (wk_pch (iterated env s)))"
    by simp
  have "map (pcm_view (wk_pool s1)) (wk_pcm s1) = map (cached_pcm_view ?d) (filter (\<lambda>e. ?b st ''pcm'' (cm_key e) \<noteq> None) (cache_pcm ?d))"
    using l2 m st'(2) by (simp add: pcm_loaded_def)
  also have "\<dots> = map (pcm_view (wk_pool s)) (filter (\<lambda>x. ?b st ''pcm'' (pcm_key (snd x)) \<noteq> None) (filter (\<lambda>x. pcm_path (snd x) \<noteq> []) (wk_pcm (iterated env s))))"
    by (rule filter_views [OF views(2)]) (simp add: cached_pcm_view_def pcm_view_def)
  finally have b: "map (pcm_view (wk_pool s1)) (wk_pcm s1) = map (pcm_view (wk_pool s))
      (filter (\<lambda>x. pcm_path (snd x) \<noteq> [] \<and> ?b st ''pcm'' (pcm_key (snd x)) \<noteq> None) (wk_pcm (iterated env s)))"
    by simp
  have c: "\<forall>x \<in> set (wk_pch s1). pch_links (snd x) = [] \<and> ?b st ''pch'' (pch_key (snd x)) = Some (pch_path (snd x))"
    using l1 s0 keep(1) by (simp add: pch_loaded_def)
  have d: "\<forall>x \<in> set (wk_pcm s1). ?b st ''pcm'' (pcm_key (snd x)) = Some (pcm_path (snd x))"
    using l2 m(1) st' by (simp add: pcm_loaded_def)
  from a b c d keep(3) show ?thesis by (simp add: paths_follow_def)
qed


section \<open>Examples\<close>

text \<open>Two files, a clock that stands at 10, and a file \<open>a.h\<close> that was written at 11 when it holds \<open>y\<close>.\<close>

definition ex_pool :: path_pool where
  "ex_pool = fst (intern ''a.h'' (fst (intern ''m.cpp'' empty_pool)))"

definition ex_snapshot :: deps_snapshot where
  "ex_snapshot = \<lparr>snap_path_ids = [1], snap_hashes = [121], snap_build_at = 10\<rparr>"

definition ex_namespace :: "string \<Rightarrow> string \<Rightarrow> namespace_state" where
  "ex_namespace name key = \<lparr>ns_config = \<lparr>ns_name = name, ns_extension = ''.'' @ name, ns_policy = LRU, ns_max_bytes = 100\<rparr>,
     ns_dir = name, ns_entries = [key \<mapsto> \<lparr>entry_size = 1, entry_atime = 0\<rparr>], ns_total = 1\<rparr>"

definition ex_store :: store where
  "ex_store = empty_store\<lparr>store_base := ''c'', namespaces := [''pch'' \<mapsto> ex_namespace ''pch'' ''K'', ''pcm'' \<mapsto> ex_namespace ''pcm'' ''M'']\<rparr>"

definition ex_workspace :: workspace_state where
  "ex_workspace = \<lparr>wk_pool = ex_pool, wk_store = Some ex_store, wk_deps = empty_dependency_graph, wk_graph = None,
     wk_modules = [], wk_pch = [(0, new_pch_state\<lparr>pch_path := ''pch/K.pch'', pch_bound := 7, pch_key := ''K'', pch_deps := ex_snapshot, pch_links := ''[1]''\<rparr>)],
     wk_pcm = [(1, \<lparr>pcm_path = ''pcm/M.pcm'', pcm_key = ''M'', pcm_deps = ex_snapshot\<rparr>)], wk_pcm_paths = [(1, ''pcm/M.pcm'')]\<rparr>"

definition ex_cache_data :: cache_data where
  "ex_cache_data = \<lparr>cache_paths = [''m.cpp'', ''a.h''],
     cache_pch = [\<lparr>cp_key = ''K'', cp_source = 0, cp_bound = 7, cp_build_at = 10, cp_deps = [\<lparr>cd_path = 1, cd_hash = 121\<rparr>]\<rparr>],
     cache_pcm = [\<lparr>cm_key = ''M'', cm_source = 1, cm_module = [], cm_build_at = 10, cm_deps = [\<lparr>cd_path = 1, cd_hash = 121\<rparr>]\<rparr>]\<rparr>"

definition ex_ws_env :: "files ws_env" where
  "ex_ws_env = \<lparr>we_os = mem_os,
     we_mtime = (\<lambda>f w. map_option (\<lambda>text. if text = ''y'' then 11 else 5) (map_of w f)),
     we_clock = (\<lambda>w. 10), we_xxh3 = (\<lambda>text. of_nat (of_char (hd text))), we_scan_module = (\<lambda>text. []),
     we_to_json = (\<lambda>d. if d = ex_cache_data then Some ''J'' else None),
     we_from_json = (\<lambda>t. if t = ''J'' then Some ex_cache_data else None), we_order = (\<lambda>name. rev)\<rparr>"

lemma ex_pool_eq: "ex_pool = \<lparr>pool_paths = [''m.cpp'', ''a.h''], pool_cache = [''m.cpp'' \<mapsto> 0, ''a.h'' \<mapsto> 1]\<rparr>"
  by (simp add: ex_pool_def intern_def empty_pool_def normalize_path_def Let_def)

lemma ex_pool_ok: "pool_ok ex_pool"
proof -
  have "pool_ok (fst (intern ''m.cpp'' empty_pool))"
    by (rule pool.add_ok [OF pool_ok_empty, of "''m.cpp''" _ "snd (intern ''m.cpp'' empty_pool)"]) (simp_all add: empty_pool_def)
  then show ?thesis unfolding ex_pool_def
    by (rule pool.add_ok [where s = "''a.h''" and i = "snd (intern ''a.h'' (fst (intern ''m.cpp'' empty_pool)))"])
      (simp_all add: intern_def empty_pool_def normalize_path_def Let_def)
qed

theorem deps_changed_exact_witness:
  "deps_changed ex_ws_env [(''a.h'', ''y'')] ex_pool (snd (capture_deps_snapshot ex_ws_env [] [(''a.h'', ''x'')] [''a.h''] ex_pool))"
proof -
  have cap: "capture_deps_snapshot ex_ws_env [] [(''a.h'', ''x'')] [''a.h''] ex_pool
      = (ex_pool, snd (capture_deps_snapshot ex_ws_env [] [(''a.h'', ''x'')] [''a.h''] ex_pool))"
    by (simp add: capture_deps_snapshot_def ex_pool_eq intern_def normalize_path_def Let_def)
  show ?thesis
    by (subst deps_changed_exact [OF ex_pool_ok _ _ cap, where w' = "[(''a.h'', ''y'')]"])
      (simp_all add: ex_pool_eq normalize_path_def content_at_def hash_file_def ex_ws_env_def mem_os_def card_insert_if)
qed

lemma ex_workspace_valid: "workspace_valid ex_workspace"
  using ex_pool_ok
  by (simp add: workspace_valid_def ex_workspace_def snap_valid_def ex_snapshot_def new_pch_state_def ex_pool_eq resolve_def normalize_path_def)

lemma ex_cached: "cache_data_of ex_ws_env ex_workspace = ex_cache_data"
  by (simp add: cache_data_of_def iterate_def ex_ws_env_def ex_workspace_def ex_cache_data_def ex_pool_eq ex_snapshot_def
      snap_entries_def save_path_def path_of_def resolve_def new_pch_state_def Let_def)

lemma ex_saved: "os_buffer (we_os ex_ws_env) (cache_file ex_ws_env ex_store) (save_cache ex_ws_env ex_workspace []) = Inr ''J''"
  unfolding save_cache_def ex_cached
  by (simp add:  cache_file_def ex_ws_env_def mem_os_def mem_join_def ex_workspace_def ex_store_def empty_store_def Let_def)


end
