(* ===== verification/Config.thy ===== *)
theory Config
  imports Glob_Match
begin

text \<open>
  \<open>src/src/server/workspace/config.{h,cpp}\<close>: the configuration, its defaults and the rules that add
  and remove compiler flags. The environment (variables, number of processors, creation of
  directories, joining of paths, the hash of the workspace) is a record; the TOML and JSON codecs
  are parameters, a configuration being the value they give. The globs of the rules are those of
  \<open>Glob_Pattern\<close>.
\<close>

section \<open>State\<close>

record config_rule =
  rule_patterns :: "string list"
  rule_append :: "string list"
  rule_remove :: "string list"

record project_config =
  clang_tidy :: bool
  max_active_file :: int
  cache_dir :: string
  logging_dir :: string
  compile_commands_paths :: "string list"
  enable_indexing :: "bool option"
  idle_timeout_ms :: "int option"
  stateful_worker_count :: u32
  stateless_worker_count :: u32
  min_stateless_worker_count :: u32
  max_stateless_worker_count :: u32
  worker_memory_limit :: u64

record compiled_rule =
  cr_patterns :: "glob_pattern list"
  cr_append :: "string list"
  cr_remove :: "string list"

record config =
  cfg_project :: project_config
  cfg_rules :: "config_rule list"
  compiled_rules :: "compiled_rule list"

record config_env =
  get_env :: "string \<Rightarrow> string option"
  parallelism :: u32
  cfg_join :: "string \<Rightarrow> string \<Rightarrow> string"
  workspace_hash :: "string \<Rightarrow> string"
  can_create_dirs :: "string \<Rightarrow> bool"
  cfg_exists :: "string \<Rightarrow> bool"
  cfg_read :: "string \<Rightarrow> string option"
  parse_toml :: "string \<Rightarrow> config option"

text \<open>\<open>workspace_hash\<close> is the sixteen hexadecimal digits of the hash of the workspace root.\<close>

definition empty_project :: project_config where
  "empty_project = \<lparr>clang_tidy = False, max_active_file = 0, cache_dir = [], logging_dir = [],
     compile_commands_paths = [], enable_indexing = None, idle_timeout_ms = None, stateful_worker_count = 0,
     stateless_worker_count = 0, min_stateless_worker_count = 0, max_stateless_worker_count = 0, worker_memory_limit = 0\<rparr>"

definition empty_config :: config where
  "empty_config = \<lparr>cfg_project = empty_project, cfg_rules = [], compiled_rules = []\<rparr>"

section \<open>Substitution\<close>

definition placeholder :: string where
  "placeholder = ''${workspace}''"

text \<open>\<open>std::string::find\<close>: the offset of the first occurrence.\<close>

fun find_sub :: "string \<Rightarrow> string \<Rightarrow> nat option" where
  "find_sub p [] = (if p = [] then Some 0 else None)"
| "find_sub p (c # s) =
     (if take (length p) (c # s) = p then Some 0 else map_option Suc (find_sub p s))"

lemma find_sub_bound: "find_sub p s = Some k \<Longrightarrow> k + length p \<le> length s"
proof (induction p s arbitrary: k rule: find_sub.induct)
  case (2 p c s)
  then show ?case
    by (auto split: if_splits) (metis length_Cons length_take min.cobounded1 min.commute)
qed (auto split: if_splits)

text \<open>The loop of \<open>substitute_workspace\<close>: \<open>kept\<close> is the text before \<open>pos\<close>, \<open>rest\<close> the text from there.\<close>

function substitute_loop :: "string \<Rightarrow> string \<Rightarrow> string \<Rightarrow> string" where
  "substitute_loop root kept rest =
     (case find_sub placeholder rest of
        None \<Rightarrow> kept @ rest
      | Some k \<Rightarrow> substitute_loop root (kept @ take k rest @ root) (drop (k + length placeholder) rest))"
  by pat_completeness auto
termination
  by (relation "measure (\<lambda>(root, kept, rest). length rest)")
    (auto simp: placeholder_def dest: find_sub_bound)

declare substitute_loop.simps [simp del]

definition substitute_workspace :: "string \<Rightarrow> string \<Rightarrow> string" where
  "substitute_workspace root value = (if root = [] then value else substitute_loop root [] value)"

section \<open>Defaults\<close>

definition resolve_xdg_cache_dir :: "config_env \<Rightarrow> string \<Rightarrow> string" where
  "resolve_xdg_cache_dir env root =
     (let base = (case get_env env ''XDG_CACHE_HOME'' of
                    Some xdg \<Rightarrow> if xdg \<noteq> [] then Some xdg else None
                  | None \<Rightarrow> None);
          base' = (case base of
                     Some b \<Rightarrow> Some b
                   | None \<Rightarrow> case get_env env ''HOME'' of
                               Some home \<Rightarrow> if home \<noteq> [] then Some (cfg_join env home ''.cache'') else None
                             | None \<Rightarrow> None)
      in case base' of
           None \<Rightarrow> []
         | Some b \<Rightarrow>
             let dir = cfg_join env (cfg_join env b ''clice'') (workspace_hash env root) in
             if can_create_dirs env dir then dir else [])"

definition compile_rule :: "config_rule \<Rightarrow> compiled_rule option" where
  "compile_rule r =
     (let pats = concat (map (\<lambda>p. case create_glob p 100 of Inl _ \<Rightarrow> [] | Inr g \<Rightarrow> [g]) (rule_patterns r)) in
      if pats = [] then None else Some \<lparr>cr_patterns = pats, cr_append = rule_append r, cr_remove = rule_remove r\<rparr>)"

definition default_project :: "config_env \<Rightarrow> string \<Rightarrow> project_config \<Rightarrow> project_config" where
  "default_project env root p0 =
     (let p1 = (if max_active_file p0 = 0 then p0\<lparr>max_active_file := 8\<rparr> else p0);
          p2 = (if enable_indexing p1 = None then p1\<lparr>enable_indexing := Some True\<rparr> else p1);
          p3 = (if idle_timeout_ms p2 = None then p2\<lparr>idle_timeout_ms := Some 3000\<rparr> else p2);
          p4 = (if stateful_worker_count p3 = 0 then p3\<lparr>stateful_worker_count := 2\<rparr> else p3);
          p5 = (if stateless_worker_count p4 = 0 then p4\<lparr>stateless_worker_count := max (parallelism env div 2) 2\<rparr> else p4);
          p6 = (if worker_memory_limit p5 = 0 then p5\<lparr>worker_memory_limit := 4 * 1024 * 1024 * 1024\<rparr> else p5);
          p7 = (if cache_dir p6 = [] \<and> root \<noteq> []
                then let d = resolve_xdg_cache_dir env root in
                     p6\<lparr>cache_dir := (if d = [] then cfg_join env root ''.clice'' else d)\<rparr>
                else p6);
          p8 = (if logging_dir p7 = [] \<and> cache_dir p7 \<noteq> [] then p7\<lparr>logging_dir := cfg_join env (cache_dir p7) ''logs''\<rparr> else p7)
      in p8\<lparr>cache_dir := substitute_workspace root (cache_dir p8),
            logging_dir := substitute_workspace root (logging_dir p8),
            compile_commands_paths := map (substitute_workspace root) (compile_commands_paths p8)\<rparr>)"

definition apply_defaults :: "config_env \<Rightarrow> string \<Rightarrow> config \<Rightarrow> config" where
  "apply_defaults env root c =
     c\<lparr>cfg_project := default_project env root (cfg_project c),
       compiled_rules := List.map_filter compile_rule (cfg_rules c)\<rparr>"

definition load_config :: "config_env \<Rightarrow> string \<Rightarrow> string \<Rightarrow> config option" where
  "load_config env path root =
     (case cfg_read env path of
        None \<Rightarrow> None
      | Some text \<Rightarrow> map_option (apply_defaults env root) (parse_toml env text))"

fun first_config :: "config_env \<Rightarrow> string \<Rightarrow> string list \<Rightarrow> config option" where
  "first_config env root [] = None"
| "first_config env root (name # names) =
     (let path = cfg_join env root name in
      if \<not> cfg_exists env path then first_config env root names
      else case load_config env path root of Some c \<Rightarrow> Some c | None \<Rightarrow> first_config env root names)"

definition load_from_workspace :: "config_env \<Rightarrow> string \<Rightarrow> config" where
  "load_from_workspace env root =
     (case (if root = [] then None else first_config env root [''clice.toml'', ''.clice/config.toml'']) of
        Some c \<Rightarrow> c
      | None \<Rightarrow> apply_defaults env root empty_config)"

text \<open>\<open>from_json\<close> overlays the parsed text on an empty configuration.\<close>

definition load_from_json :: "config_env \<Rightarrow> (string \<Rightarrow> config \<Rightarrow> config option) \<Rightarrow> string \<Rightarrow> string \<Rightarrow> config option" where
  "load_from_json env from_json json root = map_option (apply_defaults env root) (from_json json empty_config)"

section \<open>Rules\<close>

definition rule_matches :: "compiled_rule \<Rightarrow> string \<Rightarrow> bool" where
  "rule_matches r path \<longleftrightarrow> list_ex (\<lambda>g. match_glob g path = Some (Inr True)) (cr_patterns r)"

definition apply_rule :: "string \<Rightarrow> compiled_rule \<Rightarrow> string list \<times> string list \<Rightarrow> string list \<times> string list" where
  "apply_rule path r acc =
     (if \<not> rule_matches r path then acc
      else
        let (app, rem) = fold (\<lambda>x (app, rem). (filter (\<lambda>a. a \<noteq> x) app, rem @ [x])) (cr_remove r) acc
        in (app @ cr_append r, rem))"

definition match_rules :: "config \<Rightarrow> string \<Rightarrow> string list \<times> string list \<Rightarrow> string list \<times> string list" where
  "match_rules c path acc = fold (apply_rule path) (compiled_rules c) acc"

section \<open>What the rules and the substitution do\<close>

text \<open>The flags of a matching rule, without those that a later matching rule removes.\<close>

fun surviving :: "compiled_rule list \<Rightarrow> string list" where
  "surviving [] = []"
| "surviving (r # rs) = filter (\<lambda>a. \<forall>r' \<in> set rs. a \<notin> set (cr_remove r')) (cr_append r) @ surviving rs"

lemma erase_fold:
  "fold (\<lambda>x (app, rem). (filter (\<lambda>a. a \<noteq> x) app, rem @ [x])) xs (app, rem) = (filter (\<lambda>a. a \<notin> set xs) app, rem @ xs)"
  by (induction xs arbitrary: app rem) (auto intro: filter_cong)

lemma rules_fold:
  "fold (apply_rule path) rs (app, rem) =
     (filter (\<lambda>a. \<forall>r \<in> set rs. rule_matches r path \<longrightarrow> a \<notin> set (cr_remove r)) app
        @ surviving (filter (\<lambda>r. rule_matches r path) rs),
      rem @ concat (map cr_remove (filter (\<lambda>r. rule_matches r path) rs)))"
proof (induction rs arbitrary: app rem)
  case (Cons r rs)
  have one: "apply_rule path r (app, rem) = (if rule_matches r path then (filter (\<lambda>a. a \<notin> set (cr_remove r)) app @ cr_append r, rem @ cr_remove r) else (app, rem))"
    by (simp add: apply_rule_def erase_fold)
  show ?case
    by (simp add: one Cons.IH conj_commute) (auto intro!: filter_cong)
qed simp

text \<open>
  The rules that match a file contribute in the order of their declaration: everything they
  remove is to be removed from the base command, and of what a rule appends exactly the arguments
  that no later matching rule removes are appended.
\<close>

theorem match_rules_later_wins:
  "match_rules c path ([], []) =
     (surviving (filter (\<lambda>r. rule_matches r path) (compiled_rules c)),
      concat (map cr_remove (filter (\<lambda>r. rule_matches r path) (compiled_rules c))))"
  by (simp add: match_rules_def rules_fold)

fun substituted :: "string \<Rightarrow> nat \<Rightarrow> string \<Rightarrow> string" where
  "substituted root n [] = []"
| "substituted root 0 (c # s) =
     (if take (length placeholder) (c # s) = placeholder then root @ substituted root (length placeholder - 1) s
      else c # substituted root 0 s)"
| "substituted root (Suc n) (c # s) = substituted root n s"

lemma substituted_skip: "n \<le> length s \<Longrightarrow> substituted root n s = substituted root 0 (drop n s)"
  by (induction root n s rule: substituted.induct) auto

lemma substituted_find:
  "substituted root 0 s = (case find_sub placeholder s of
     None \<Rightarrow> s | Some k \<Rightarrow> take k s @ root @ substituted root 0 (drop (k + length placeholder) s))"
proof (induction s)
  case Nil
  then show ?case by (simp add: placeholder_def)
next
  case (Cons c s)
  show ?case
  proof (cases "take (length placeholder) (c # s) = placeholder")
    case True
    then have "length placeholder \<le> length (c # s)" by (metis length_take min.cobounded1 min.commute)
    then have le: "length placeholder - 1 \<le> length s" by simp
    have "drop (length placeholder) (c # s) = drop (length placeholder - 1) s" by (simp add: placeholder_def)
    then have "substituted root (length placeholder - 1) s = substituted root 0 (drop (length placeholder) (c # s))"
      using substituted_skip [OF le, of root] by metis
    then show ?thesis using True by simp
  next
    case False
    then show ?thesis using Cons by (simp split: option.splits)
  qed
qed

text \<open>Every occurrence of the placeholder, from the left, is replaced by the root and nothing else changes.\<close>

theorem substitute_workspace_exact:
  "substitute_workspace root value = (if root = [] then value else substituted root 0 value)"
proof -
  have "substitute_loop root kept rest = kept @ substituted root 0 rest" for kept rest
  proof (induction root kept rest rule: substitute_loop.induct)
    case (1 root kept rest)
    show ?case
    proof (cases "find_sub placeholder rest")
      case None
      then show ?thesis by (simp add: substitute_loop.simps substituted_find [of root rest])
    next
      case (Some k)
      then show ?thesis using 1 [OF Some] by (simp add: substitute_loop.simps [of root kept] substituted_find [of root rest])
    qed
  qed
  then show ?thesis by (simp add: substitute_workspace_def)
qed

end
