(* ===== verification/Object_Pool.thy ===== *)
theory Object_Pool
  imports Path_Pool
begin

text \<open>
  \<open>src/src/support/object_pool.h\<close>: the set of strings and the sets of objects that hand out 32-bit
  ids. The allocator gives stable storage only. A reference to a character array is a
  \<open>char_ptr\<close>: \<open>None\<close> is the null pointer, which the default-constructed reference with id 0 holds.
  Both meet the contract \<open>intern_pool\<close> of the path pool.
\<close>

type_synonym char_ptr = "string option"

section \<open>Strings\<close>

record string_set =
  ss_strings :: "char_ptr list"
  ss_cache :: "string \<rightharpoonup> u32"

definition new_string_set :: string_set where
  "new_string_set = \<lparr>ss_strings = [None], ss_cache = Map.empty\<rparr>"

definition ss_get :: "string \<Rightarrow> string_set \<Rightarrow> string_set \<times> u32" where
  "ss_get s pool =
     (if s = [] then (pool, 0)
      else case ss_cache pool s of
             Some i \<Rightarrow> (pool, i)
           | None \<Rightarrow>
               let i = of_nat (length (ss_strings pool)) in
               (pool\<lparr>ss_cache := (ss_cache pool)(s \<mapsto> i), ss_strings := ss_strings pool @ [Some s]\<rparr>, i))"

text \<open>\<open>get\<close> of an id asserts that it is in range.\<close>

definition ss_at :: "string_set \<Rightarrow> u32 \<Rightarrow> char_ptr option" where
  "ss_at pool i = (if unat i < length (ss_strings pool) then Some (ss_strings pool ! unat i) else None)"

definition ss_save :: "string \<Rightarrow> string_set \<Rightarrow> string_set \<times> char_ptr option" where
  "ss_save s pool = (case ss_get s pool of (pool1, i) \<Rightarrow> (pool1, ss_at pool1 i))"

text \<open>What a saved string is: the null pointer for the empty one.\<close>

definition ptr_of :: "string \<Rightarrow> char_ptr" where
  "ptr_of s = (if s = [] then None else Some s)"

definition ss_ok :: "string_set \<Rightarrow> bool" where
  "ss_ok pool \<longleftrightarrow> ss_strings pool \<noteq> [] \<and> hd (ss_strings pool) = None \<and> ss_cache pool [] = None
     \<and> (\<forall>s i. ss_cache pool s = Some i \<longleftrightarrow> ss_at pool i = Some (Some s))
     \<and> (\<forall>i. ss_at pool i = Some None \<longrightarrow> i = 0) \<and> length (ss_strings pool) \<le> 2 ^ 32"

lemma ss_ok_new: "ss_ok new_string_set"
  by (auto simp: ss_ok_def new_string_set_def ss_at_def unat_eq_zero)

lemma ss_at_append:
  assumes "length (ss_strings pool) < 2 ^ 32"
  shows "ss_at (pool\<lparr>ss_cache := c, ss_strings := ss_strings pool @ [x]\<rparr>) i =
    (if i = of_nat (length (ss_strings pool)) then Some x else ss_at pool i)"
proof -
  have "i = of_nat (length (ss_strings pool)) \<longleftrightarrow> unat i = length (ss_strings pool)"
    using pool_lookup_new [OF assms] by (simp add: word_unat_eq_iff)
  then show ?thesis by (auto simp: ss_at_def nth_append less_Suc_eq)
qed

lemma ss_get_new_ok:
  assumes ok: "ss_ok pool" and len: "length (ss_strings pool) < 2 ^ 32" and new: "ss_cache pool s = None" "s \<noteq> []"
  shows "ss_ok (pool\<lparr>ss_cache := (ss_cache pool)(s \<mapsto> of_nat (length (ss_strings pool))), ss_strings := ss_strings pool @ [Some s]\<rparr>)"
proof -
  let ?n = "of_nat (length (ss_strings pool)) :: u32"
  have "ss_at pool ?n = None" using pool_lookup_new [OF len] by (simp add: ss_at_def)
  moreover have "\<And>i. ss_at pool i \<noteq> Some (Some s)" using ok new by (metis option.distinct(1) ss_ok_def)
  ultimately show ?thesis using ok len new unfolding ss_ok_def ss_at_append [OF len] by (auto simp: hd_append)
qed

lemma ss_get_cases:
  assumes "ss_get s pool = (pool', i)"
  obtains "s = []" "pool' = pool" "i = 0"
  | "s \<noteq> []" "ss_cache pool s = Some i" "pool' = pool"
  | "s \<noteq> []" "ss_cache pool s = None" "i = of_nat (length (ss_strings pool))"
    "pool' = pool\<lparr>ss_cache := (ss_cache pool)(s \<mapsto> i), ss_strings := ss_strings pool @ [Some s]\<rparr>"
  using assms by (auto simp: ss_get_def Let_def split: if_splits option.splits)

lemma ss_at_zero: "ss_ok pool \<Longrightarrow> ss_at pool 0 = Some None"
  by (cases "ss_strings pool") (auto simp: ss_ok_def ss_at_def)

lemma ss_at_inj:
  assumes "ss_ok p" and "ss_at p i = Some t" and "ss_at p j = Some t"
  shows "i = j"
proof (cases t)
  case None
  then have "i = 0" "j = 0" using assms by (simp_all add: ss_ok_def)
  then show ?thesis by simp
next
  case (Some a)
  then have "ss_cache p a = Some i" "ss_cache p a = Some j" using assms by (simp_all add: ss_ok_def)
  then show ?thesis by simp
qed

text \<open>The set seen as a pool of optional strings, the empty string being the null pointer.\<close>

definition ss_add :: "char_ptr \<Rightarrow> string_set \<Rightarrow> string_set \<times> u32" where
  "ss_add p pool = ss_get (case p of None \<Rightarrow> [] | Some s \<Rightarrow> s) pool"

definition ptr_norm :: "char_ptr \<Rightarrow> char_ptr" where
  "ptr_norm p = (case p of None \<Rightarrow> None | Some s \<Rightarrow> ptr_of s)"

interpretation strings: intern_pool ptr_norm ss_add ss_at ss_ok "\<lambda>p. length (ss_strings p) < 2 ^ 32"
proof
  show "ptr_norm (ptr_norm s) = ptr_norm s" for s by (cases s) (auto simp: ptr_norm_def ptr_of_def)
  fix s p p' i j t
  {
    assume ok: "ss_ok p" and len: "length (ss_strings p) < 2 ^ 32" and "ss_add s p = (p', i)"
    then have g: "ss_get (case s of None \<Rightarrow> [] | Some s \<Rightarrow> s) p = (p', i)" by (simp add: ss_add_def)
    have n: "ss_at p (of_nat (length (ss_strings p))) = None" using pool_lookup_new [OF len] by (simp add: ss_at_def)
    show "ss_ok p'" using g by (rule ss_get_cases) (use ok len in \<open>auto simp: ss_get_new_ok\<close>)
    show "ss_at p' i = Some (ptr_norm s)" using g
      by (rule ss_get_cases)
        (use ok len ss_at_zero [OF ok] in \<open>auto simp: ss_at_append ptr_norm_def ptr_of_def ss_ok_def split: option.splits\<close>)
    show "ss_at p' j = Some t" if "ss_at p j = Some t"
      using g by (rule ss_get_cases) (use that n len in \<open>auto simp: ss_at_append\<close>)
  }
  show "ss_add s p = (p, i)" if ok: "ss_ok p" and at: "ss_at p i = Some (ptr_norm s)"
  proof (cases "ptr_norm s")
    case None
    then have "i = 0" using ok at by (simp add: ss_ok_def)
    then show ?thesis using None by (auto simp: ss_add_def ss_get_def ptr_norm_def ptr_of_def split: option.splits if_splits)
  next
    case (Some x)
    then have "ss_cache p x = Some i" using ok at by (simp add: ss_ok_def)
    then show ?thesis using Some by (auto simp: ss_add_def ss_get_def ptr_norm_def ptr_of_def split: option.splits if_splits)
  qed
  show "i = j" if "ss_ok p" "ss_at p i = Some t" "ss_at p j = Some t"
    using that by (rule ss_at_inj)
qed

lemma ss_save_ptr:
  assumes "ss_ok pool" and "length (ss_strings pool) < 2 ^ 32" and "ss_save s pool = (pool', p)"
  shows "p = Some (ptr_of s)"
proof -
  obtain i where i: "ss_get s pool = (pool', i)" "p = ss_at pool' i"
    using assms(3) by (auto simp: ss_save_def split: prod.splits)
  then show ?thesis
    using strings.add_get [OF assms(1,2), of "Some s" pool' i] by (simp add: ss_add_def ptr_norm_def)
qed

section \<open>Objects\<close>

text \<open>
  The map is keyed by the value of an object, through the pointer. Slots of removed objects are
  reused, the last one first.
\<close>

record 'a object_set =
  obj_objects :: "'a option list"
  obj_removed :: "('a \<times> u32) list"
  obj_cache :: "'a \<rightharpoonup> u32"

definition new_object_set :: "'a object_set" where
  "new_object_set = \<lparr>obj_objects = [], obj_removed = [], obj_cache = Map.empty\<rparr>"

definition obj_get :: "'a \<Rightarrow> 'a object_set \<Rightarrow> 'a object_set \<times> u32" where
  "obj_get x s =
     (case obj_cache s x of
        Some i \<Rightarrow> (s, i)
      | None \<Rightarrow>
          if obj_removed s \<noteq> [] then
            let i = snd (last (obj_removed s)) in
            (s\<lparr>obj_removed := butlast (obj_removed s), obj_cache := (obj_cache s)(x \<mapsto> i),
               obj_objects := (obj_objects s)[unat i := Some x]\<rparr>, i)
          else
            let i = of_nat (length (obj_objects s)) in
            (s\<lparr>obj_cache := (obj_cache s)(x \<mapsto> i), obj_objects := obj_objects s @ [Some x]\<rparr>, i))"

definition obj_at :: "'a object_set \<Rightarrow> u32 \<Rightarrow> 'a option" where
  "obj_at s i = (if unat i < length (obj_objects s) then obj_objects s ! unat i else None)"

definition obj_remove :: "'a \<Rightarrow> 'a object_set \<Rightarrow> 'a object_set" where
  "obj_remove x s =
     (case obj_cache s x of
        None \<Rightarrow> s
      | Some i \<Rightarrow> s\<lparr>obj_removed := obj_removed s @ [(x, i)], obj_cache := (obj_cache s)(x := None),
                     obj_objects := (obj_objects s)[unat i := None]\<rparr>)"

definition obj_ok :: "'a object_set \<Rightarrow> bool" where
  "obj_ok s \<longleftrightarrow> (\<forall>x i. obj_cache s x = Some i \<longleftrightarrow> obj_at s i = Some x) \<and> length (obj_objects s) \<le> 2 ^ 32
     \<and> distinct (map snd (obj_removed s))
     \<and> (\<forall>i \<in> snd ` set (obj_removed s). unat i < length (obj_objects s) \<and> obj_at s i = None)"

lemma obj_ok_new: "obj_ok new_object_set"
  by (simp add: obj_ok_def new_object_set_def obj_at_def)

lemma obj_at_append:
  assumes "length (obj_objects s) < 2 ^ 32"
  shows "obj_at (s\<lparr>obj_cache := c, obj_objects := obj_objects s @ [x]\<rparr>) i =
    (if i = of_nat (length (obj_objects s)) then x else obj_at s i)"
proof -
  have "i = of_nat (length (obj_objects s)) \<longleftrightarrow> unat i = length (obj_objects s)"
    using pool_lookup_new [OF assms] by (simp add: word_unat_eq_iff)
  then show ?thesis by (auto simp: obj_at_def nth_append less_Suc_eq)
qed

lemma obj_at_update:
  assumes "unat j < length (obj_objects s)"
  shows "obj_at (s\<lparr>obj_removed := r, obj_cache := c, obj_objects := (obj_objects s)[unat j := x]\<rparr>) i = (if i = j then x else obj_at s i)"
  using assms by (auto simp: obj_at_def nth_list_update word_unat_eq_iff)

lemma obj_get_cases:
  assumes "obj_get x s = (s', i)"
  obtains "obj_cache s x = Some i" "s' = s"
  | "obj_cache s x = None" "obj_removed s \<noteq> []" "i = snd (last (obj_removed s))"
    "s' = s\<lparr>obj_removed := butlast (obj_removed s), obj_cache := (obj_cache s)(x \<mapsto> i), obj_objects := (obj_objects s)[unat i := Some x]\<rparr>"
  | "obj_cache s x = None" "obj_removed s = []" "i = of_nat (length (obj_objects s))"
    "s' = s\<lparr>obj_cache := (obj_cache s)(x \<mapsto> i), obj_objects := obj_objects s @ [Some x]\<rparr>"
  using assms by (auto simp: obj_get_def Let_def split: if_splits option.splits)

lemma obj_get_reuse:
  assumes ok: "obj_ok s" and new: "obj_cache s x = None" and rem: "obj_removed s = rs @ [(y, j)]"
  shows "obj_ok (s\<lparr>obj_removed := rs, obj_cache := (obj_cache s)(x \<mapsto> j), obj_objects := (obj_objects s)[unat j := Some x]\<rparr>)"
    and "unat j < length (obj_objects s)" and "obj_at s j = None"
proof -
  show j: "unat j < length (obj_objects s)" "obj_at s j = None" using ok rem by (auto simp: obj_ok_def)
  have "\<And>i. obj_at s i \<noteq> Some x" using ok new by (metis option.distinct(1) obj_ok_def)
  then show "obj_ok (s\<lparr>obj_removed := rs, obj_cache := (obj_cache s)(x \<mapsto> j), obj_objects := (obj_objects s)[unat j := Some x]\<rparr>)"
    using ok j rem unfolding obj_ok_def obj_at_update [OF j(1)] by auto
qed

lemma obj_get_new:
  assumes ok: "obj_ok s" and new: "obj_cache s x = None" and rem: "obj_removed s = []" and len: "length (obj_objects s) < 2 ^ 32"
  shows "obj_ok (s\<lparr>obj_cache := (obj_cache s)(x \<mapsto> of_nat (length (obj_objects s))), obj_objects := obj_objects s @ [Some x]\<rparr>)"
    and "obj_at s (of_nat (length (obj_objects s))) = None"
proof -
  show n: "obj_at s (of_nat (length (obj_objects s))) = None" using pool_lookup_new [OF len] by (simp add: obj_at_def)
  have "\<And>i. obj_at s i \<noteq> Some x" using ok new by (metis option.distinct(1) obj_ok_def)
  then show "obj_ok (s\<lparr>obj_cache := (obj_cache s)(x \<mapsto> of_nat (length (obj_objects s))), obj_objects := obj_objects s @ [Some x]\<rparr>)"
    using ok n rem len unfolding obj_ok_def obj_at_append [OF len] by auto
qed

lemma obj_at_cache: "obj_ok s \<Longrightarrow> obj_at s i = Some x \<Longrightarrow> obj_cache s x = Some i"
  by (simp add: obj_ok_def)

lemma obj_at_inj: "obj_ok s \<Longrightarrow> obj_at s i = Some x \<Longrightarrow> obj_at s j = Some x \<Longrightarrow> i = j"
  using obj_at_cache [of s i x] obj_at_cache [of s j x] by simp

interpretation objects: intern_pool id obj_get obj_at obj_ok "\<lambda>s. length (obj_objects s) < 2 ^ 32"
proof
  show "id (id x) = id x" for x :: 'a by simp
  fix x :: 'a and s s' i j t
  {
    assume ok: "obj_ok s" and len: "length (obj_objects s) < 2 ^ 32" and g: "obj_get x s = (s', i)"
    have r: "obj_removed s = butlast (obj_removed s) @ [(fst (last (obj_removed s)), snd (last (obj_removed s)))]" if "obj_removed s \<noteq> []"
      using that by simp
    note reuse = obj_get_reuse [OF ok _ r]
    show "obj_ok s'" using g by (rule obj_get_cases) (use ok len reuse(1) in \<open>auto simp: obj_get_new\<close>)
    show "obj_at s' i = Some (id x)" using g
      by (rule obj_get_cases) (use ok len reuse(2) in \<open>auto simp: obj_at_append obj_at_update obj_ok_def\<close>)
    show "obj_at s' j = Some t" if "obj_at s j = Some t"
      using g by (rule obj_get_cases) (use that ok len reuse(2,3) obj_get_new(2) [OF ok _ _ len] in \<open>auto simp: obj_at_append obj_at_update\<close>)
  }
  show "obj_get x s = (s, i)" if "obj_ok s" "obj_at s i = Some (id x)"
    using that obj_at_cache [of s i x] by (simp add: obj_get_def)
  show "i = j" if "obj_ok s" "obj_at s i = Some t" "obj_at s j = Some t"
    using that by (rule obj_at_inj)
qed

text \<open>Removing an object frees its id and keeps every other one.\<close>

lemma obj_remove_ok:
  assumes ok: "obj_ok s"
  shows "obj_ok (obj_remove x s)" and "obj_at (obj_remove x s) i = (if obj_at s i = Some x then None else obj_at s i)"
proof -
  have "obj_ok (obj_remove x s) \<and> (\<forall>i. obj_at (obj_remove x s) i = (if obj_at s i = Some x then None else obj_at s i))"
  proof (cases "obj_cache s x")
    case None
    then have "\<And>i. obj_at s i \<noteq> Some x" using ok by (metis option.distinct(1) obj_ok_def)
    then show ?thesis using None ok by (simp add: obj_remove_def)
  next
    case (Some j)
    have j1: "obj_at s j = Some x" using ok Some by (simp add: obj_ok_def)
    then have j: "obj_at s j = Some x" "\<And>i. obj_at s i = Some x \<Longrightarrow> i = j" using obj_at_inj [OF ok] by auto
    have len: "unat j < length (obj_objects s)" using j1 by (simp add: obj_at_def split: if_splits)
    have fresh: "j \<notin> snd ` set (obj_removed s)" using ok j(1) by (auto simp: obj_ok_def)
    have eq: "obj_remove x s = s\<lparr>obj_removed := obj_removed s @ [(x, j)], obj_cache := (obj_cache s)(x := None),
        obj_objects := (obj_objects s)[unat j := None]\<rparr>"
      using Some by (simp add: obj_remove_def)
    have at: "obj_at (obj_remove x s) i = (if i = j then None else obj_at s i)" for i
      unfolding eq by (rule obj_at_update [OF len])
    have c: "obj_cache s y = Some i \<longleftrightarrow> obj_at s i = Some y" for y i using ok by (simp add: obj_ok_def)
    have c': "obj_cache (obj_remove x s) y = (if y = x then None else obj_cache s y)" for y by (simp add: eq)
    have iff: "(obj_cache (obj_remove x s) y = Some i) = (obj_at (obj_remove x s) i = Some y)" for y i
    proof (cases "y = x")
      case True
      then show ?thesis unfolding c' at using j(2) by simp blast
    next
      case False
      then show ?thesis unfolding c' at by (cases "i = j") (simp_all add: c j1)
    qed
    have s': "length (obj_objects (obj_remove x s)) = length (obj_objects s)" "map snd (obj_removed (obj_remove x s)) = map snd (obj_removed s) @ [j]"
      "snd ` set (obj_removed (obj_remove x s)) = insert j (snd ` set (obj_removed s))"
      by (simp_all add: eq)
    have old: "length (obj_objects s) \<le> 2 ^ 32" "distinct (map snd (obj_removed s))" using ok by (simp_all add: obj_ok_def)
    have gone: "i \<noteq> j \<and> unat i < length (obj_objects s) \<and> obj_at s i = None" if "i \<in> snd ` set (obj_removed s)" for i
      using ok fresh that by (auto simp: obj_ok_def)
    have dist: "distinct (map snd (obj_removed s) @ [j])" using old(2) fresh by simp
    have rest: "unat i < length (obj_objects s) \<and> obj_at (obj_remove x s) i = None" if "i \<in> insert j (snd ` set (obj_removed s))" for i
      using that gone [of i] len by (cases "i = j") (simp_all add: at)
    have "obj_ok (obj_remove x s)" unfolding obj_ok_def s' by (intro conjI allI ballI iff old(1) dist rest [THEN conjunct1] rest [THEN conjunct2])
    moreover have "obj_at (obj_remove x s) i = (if obj_at s i = Some x then None else obj_at s i)" for i
      unfolding at using j1 j(2) [of i] by (cases "i = j") (simp_all, blast)
    ultimately show ?thesis by blast
  qed
  then show "obj_ok (obj_remove x s)" and "obj_at (obj_remove x s) i = (if obj_at s i = Some x then None else obj_at s i)" by auto
qed

end
