(* ===== verification/Command_Database.thy ===== *)
theory Command_Database
  imports Object_Pool
begin

text \<open>
  \<open>src/src/command/argument_parser.{h,cpp}\<close> and \<open>src/src/command/command.{h,cpp}\<close>: the classification
  of compiler options and the compilation database. The option table of clang with its parser and
  printer, the path functions of LLVM, the tokenizer of command lines and the JSON parser are
  outside the repository and fields of \<open>cmd_env\<close>; option ids are the names of the enumerators. The
  string pool is not part of the state: \<open>Object_Pool\<close> shows that a saved string is \<open>ptr_of\<close> of it.
  A string made from a null pointer throws, which is the result \<open>None\<close>.
\<close>

unbundle bit_operations_syntax

section \<open>Options\<close>

type_synonym option_id = string

record parsed_arg =
  pa_id :: option_id
  pa_values :: "string list"
  pa_index :: nat

record parse_options =
  dash_dash_parsing :: bool
  po_visibility :: u32

text \<open>A JSON element of the database: every key with its value where it has the right type.\<close>

record json_item =
  ji_object :: bool
  ji_directory :: "string option"
  ji_file :: "string option"
  ji_arguments :: "string option list option"
  ji_command :: "string option"

record cmd_env =
  ot_parse :: "parse_options \<Rightarrow> string list \<Rightarrow> (nat + parsed_arg) list"
  ot_options :: parse_options
  ot_render :: "parsed_arg \<Rightarrow> string list"
  ot_prefixed_name :: "option_id \<Rightarrow> string"
  ot_in_group :: "string \<Rightarrow> option_id \<Rightarrow> bool"
  resource_dir :: string
  ce_join :: "string \<Rightarrow> string \<Rightarrow> string"
  ce_is_absolute :: "string \<Rightarrow> bool"
  ce_filename :: "string \<Rightarrow> string"
  ce_extension :: "string \<Rightarrow> string"
  accepted_extension :: "string \<Rightarrow> bool"
  ce_tokenize :: "string \<Rightarrow> string list"
  ce_load_json :: "string \<Rightarrow> json_item list option"
  ce_permute :: "(u32 \<times> u32) list \<Rightarrow> (u32 \<times> u32) list"

text \<open>
  \<open>ot_parse\<close> gives for each argument the index of an error or a parsed argument; \<open>ot_options\<close> are
  the default options of the parser; \<open>ot_in_group\<close> holds of a known option that matches a group.
\<close>

definition is_discarded_option :: "option_id \<Rightarrow> bool" where
  "is_discarded_option i \<longleftrightarrow> i \<in> set [''INPUT'', ''UNKNOWN'', ''_DASH_DASH'', ''main_file_name'', ''c'', ''o'',
     ''dxc_Fc'', ''dxc_Fo'', ''_SLASH_Fo'', ''_SLASH_Fd'', ''emit_pch'', ''include_pch'', ''_SLASH_Yu'', ''_SLASH_Fp'',
     ''E'', ''M'', ''MM'', ''MD'', ''MMD'', ''MF'', ''MT'', ''MQ'', ''MG'', ''MP'', ''show_inst'', ''show_encoding'',
     ''show_includes'', ''_SLASH_showFilenames'', ''_SLASH_showFilenames_'', ''_SLASH_showIncludes'',
     ''_SLASH_showIncludes_user'', ''fmodule_file'', ''fmodule_output'', ''fprebuilt_module_path'']"

definition is_user_content_option :: "option_id \<Rightarrow> bool" where
  "is_user_content_option i \<longleftrightarrow> i \<in> set [''I'', ''isystem'', ''iquote'', ''idirafter'', ''D'', ''U'', ''include'']"

definition is_include_path_option :: "option_id \<Rightarrow> bool" where
  "is_include_path_option i \<longleftrightarrow> i \<in> set [''I'', ''isystem'', ''iquote'', ''idirafter'']"

definition is_xclang_option :: "option_id \<Rightarrow> bool" where
  "is_xclang_option i \<longleftrightarrow> i = ''Xclang''"

definition is_codegen_option :: "cmd_env \<Rightarrow> option_id \<Rightarrow> bool" where
  "is_codegen_option env i \<longleftrightarrow> ot_in_group env ''DebugInfo_Group'' i \<or> i \<in> set [''fPIC'', ''fno_PIC'', ''fpic'', ''fno_pic'',
     ''fPIE'', ''fno_PIE'', ''fpie'', ''fno_pie'', ''fomit_frame_pointer'', ''fno_omit_frame_pointer'', ''funwind_tables'',
     ''fno_unwind_tables'', ''fasynchronous_unwind_tables'', ''fno_asynchronous_unwind_tables'', ''fstack_protector'',
     ''fstack_protector_strong'', ''fstack_protector_all'', ''fno_stack_protector'', ''fdata_sections'', ''fno_data_sections'',
     ''ffunction_sections'', ''fno_function_sections'', ''flto'', ''flto_EQ'', ''fno_lto'', ''fsemantic_interposition'',
     ''fno_semantic_interposition'', ''fvisibility_inlines_hidden'', ''fcolor_diagnostics'', ''fno_color_diagnostics'',
     ''ftrapping_math'', ''fno_trapping_math'']"

definition is_diagnostics_option :: "cmd_env \<Rightarrow> option_id \<Rightarrow> bool" where
  "is_diagnostics_option env i \<longleftrightarrow> i = ''w'' \<or> ot_in_group env ''Diag_Group'' i \<or> ot_in_group env ''pedantic_Group'' i"

section \<open>Drivers and files\<close>

definition ascii_lower :: "char \<Rightarrow> char" where
  "ascii_lower c = (if of_char c \<in> {65 .. 90 :: nat} then char_of (of_char c + 32 :: nat) else c)"

definition strip_suffix :: "string \<Rightarrow> string \<Rightarrow> string" where
  "strip_suffix suf s =
     (if length suf \<le> length s \<and> drop (length s - length suf) s = suf then take (length s - length suf) s else s)"

definition is_cl_name :: "string \<Rightarrow> bool" where
  "is_cl_name s \<longleftrightarrow> map ascii_lower s \<in> {''cl'', ''clang-cl''}"

text \<open>\<open>CLOption\<close> is bit 1.\<close>

definition default_visibility :: "cmd_env \<Rightarrow> string \<Rightarrow> u32" where
  "default_visibility env driver =
     (let name = strip_suffix ''.exe'' (ce_filename env driver);
          base = rev (dropWhile (\<lambda>c. c \<in> set ''0123456789.-'') (rev name))
      in if is_cl_name name \<or> is_cl_name base then NOT 0 else NOT 2)"

definition is_c_family_file :: "cmd_env \<Rightarrow> string \<Rightarrow> bool" where
  "is_c_family_file env filename =
     (let ext = ce_extension env filename in ext \<noteq> [] \<and> accepted_extension env (tl ext))"

section \<open>Cache keys of commands\<close>

datatype args_profile = Preprocessing | Frontend | Full

definition keep_arg :: "cmd_env \<Rightarrow> args_profile \<Rightarrow> option_id \<Rightarrow> bool" where
  "keep_arg env profile i =
     (case profile of
        Full \<Rightarrow> True
      | Frontend \<Rightarrow> \<not> is_discarded_option i \<and> \<not> is_codegen_option env i
      | Preprocessing \<Rightarrow> \<not> is_discarded_option i \<and> \<not> is_codegen_option env i \<and> \<not> is_diagnostics_option env i)"

definition canonical_fragments :: "cmd_env \<Rightarrow> args_profile \<Rightarrow> string list \<Rightarrow> nat + parsed_arg \<Rightarrow> string list" where
  "canonical_fragments env profile parse_args r =
     (case r of
        Inl index \<Rightarrow> if index < length parse_args then [parse_args ! index] else []
      | Inr arg \<Rightarrow>
          if pa_id arg = ''UNKNOWN'' then (if pa_index arg < length parse_args then [parse_args ! pa_index arg] else [])
          else if keep_arg env profile (pa_id arg) then ot_render env arg else [])"

definition canonicalize :: "cmd_env \<Rightarrow> string list \<Rightarrow> args_profile \<Rightarrow> string" where
  "canonicalize env args profile =
     (case args of
        [] \<Rightarrow> []
      | driver # parse_args \<Rightarrow>
          let options = \<lparr>dash_dash_parsing = True, po_visibility = default_visibility env driver\<rparr> in
          concat (map (\<lambda>fragment. fragment @ [CHR 0x00])
            (driver # concat (map (canonical_fragments env profile parse_args) (ot_parse env options parse_args)))))"

section \<open>The database\<close>

record compilation_info =
  ci_directory :: char_ptr
  ci_canonical :: u32
  ci_patch :: "char_ptr list"

record database =
  db_canonicals :: "char_ptr list object_set"
  db_infos :: "compilation_info object_set"
  db_paths :: path_pool
  db_entries :: "(u32 \<times> u32) list"

record compile_command =
  cc_directory :: string
  cc_flags :: "char_ptr list"
  cc_is_cc1 :: bool
  cc_source :: char_ptr

record command_options =
  inject_resource_dir :: bool
  co_remove :: "string list"
  co_append :: "string list"

definition default_options :: command_options where
  "default_options = \<lparr>inject_resource_dir = True, co_remove = [], co_append = []\<rparr>"

definition empty_database :: database where
  "empty_database = \<lparr>db_canonicals = new_object_set, db_infos = new_object_set, db_paths = empty_pool, db_entries = []\<rparr>"

text \<open>\<open>to_argv\<close>, and the conversion to strings, which throws at a null pointer.\<close>

definition to_argv :: "cmd_env \<Rightarrow> compile_command \<Rightarrow> char_ptr list" where
  "to_argv env cmd =
     (case cc_source cmd of
        None \<Rightarrow> cc_flags cmd
      | Some source \<Rightarrow>
          (if cc_is_cc1 cmd
           then concat (map (\<lambda>f. if f = Some ''-cc1'' then [f, Some ''-main-file-name'', Some (ce_filename env source)] else [f]) (cc_flags cmd))
           else cc_flags cmd) @ [Some source])"

definition strings_of :: "char_ptr list \<Rightarrow> string list option" where
  "strings_of ps = (if None \<in> set ps then None else Some (map the ps))"

definition to_string_argv :: "cmd_env \<Rightarrow> compile_command \<Rightarrow> string list option" where
  "to_string_argv env cmd = strings_of (to_argv env cmd)"

text \<open>One option of a command: the canonical arguments, the patch, and whether the file of a precompiled header is next.\<close>

definition include_path_value :: "cmd_env \<Rightarrow> string \<Rightarrow> string \<Rightarrow> string" where
  "include_path_value env directory v = (if v \<noteq> [] \<and> \<not> ce_is_absolute env v then ce_join env directory v else v)"

definition sort_arg :: "cmd_env \<Rightarrow> string \<Rightarrow> parsed_arg \<Rightarrow> char_ptr list \<times> char_ptr list \<Rightarrow> char_ptr list \<times> char_ptr list" where
  "sort_arg env directory arg acc =
     (case acc of (canonical, patch) \<Rightarrow>
        if is_user_content_option (pa_id arg) then
          (canonical, patch @
             (if is_include_path_option (pa_id arg) \<and> length (pa_values arg) = 1
              then [ptr_of (ot_prefixed_name env (pa_id arg)), ptr_of (include_path_value env directory (hd (pa_values arg)))]
              else map ptr_of (ot_render env arg)))
        else (canonical @ map ptr_of (ot_render env arg), patch))"

fun classify_args :: "cmd_env \<Rightarrow> string \<Rightarrow> bool \<Rightarrow> (nat + parsed_arg) list \<Rightarrow> char_ptr list \<times> char_ptr list \<Rightarrow> char_ptr list \<times> char_ptr list" where
  "classify_args env directory remove_pch [] acc = acc"
| "classify_args env directory remove_pch (Inl index # rs) acc = classify_args env directory remove_pch rs acc"
| "classify_args env directory remove_pch (Inr arg # rs) acc =
     (if is_discarded_option (pa_id arg) \<or> is_codegen_option env (pa_id arg) then classify_args env directory remove_pch rs acc
      else if is_xclang_option (pa_id arg) \<and> length (pa_values arg) = 1 \<and> remove_pch then classify_args env directory False rs acc
      else if is_xclang_option (pa_id arg) \<and> length (pa_values arg) = 1 \<and> hd (pa_values arg) = ''-include-pch''
      then classify_args env directory True rs acc
      else classify_args env directory remove_pch rs (sort_arg env directory arg acc))"

definition classified :: "cmd_env \<Rightarrow> string \<Rightarrow> string list \<Rightarrow> char_ptr list \<times> char_ptr list" where
  "classified env directory args =
     classify_args env directory False
       (ot_parse env \<lparr>dash_dash_parsing = True, po_visibility = default_visibility env (hd args)\<rparr> (tl args))
       ([ptr_of (hd args)], [])"

text \<open>The list of arguments must not be empty, the code asserts it.\<close>

definition save_compilation_info :: "cmd_env \<Rightarrow> string \<Rightarrow> string list \<Rightarrow> database \<Rightarrow> database \<times> u32" where
  "save_compilation_info env directory args db =
     (case classified env directory args of (canonical_args, patch_args) \<Rightarrow>
        let (canonicals, c) = obj_get canonical_args (db_canonicals db);
            (infos, i) = obj_get \<lparr>ci_directory = ptr_of directory, ci_canonical = c, ci_patch = patch_args\<rparr> (db_infos db)
        in (db\<lparr>db_canonicals := canonicals, db_infos := infos\<rparr>, i))"

definition add_entry :: "cmd_env \<Rightarrow> string \<Rightarrow> string \<Rightarrow> string list \<Rightarrow> database \<Rightarrow> database" where
  "add_entry env file directory args db =
     (case save_compilation_info env directory args db of (db1, i) \<Rightarrow>
        let (paths, p) = intern file (db_paths db1) in
        db1\<lparr>db_paths := paths, db_entries := db_entries db1 @ [(p, i)]\<rparr>)"

text \<open>The arguments of an item, if it is to be recorded: its directory, absolute file and arguments.\<close>

definition item_command :: "cmd_env \<Rightarrow> json_item \<Rightarrow> (string \<times> string \<times> string list) option" where
  "item_command env item =
     (if \<not> ji_object item then None
      else case (ji_directory item, ji_file item) of
        (Some dir, Some file) \<Rightarrow>
          if \<not> is_c_family_file env file then None
          else
            let file_abs = (if ce_is_absolute env file then file else ce_join env dir file);
                args = (case ji_arguments item of
                          Some xs \<Rightarrow> if None \<in> set xs then [] else map the xs
                        | None \<Rightarrow> case ji_command item of None \<Rightarrow> [] | Some c \<Rightarrow> ce_tokenize env c)
            in if args = [] then None else Some (dir, file_abs, args)
      | _ \<Rightarrow> None)"

definition load_item :: "cmd_env \<Rightarrow> json_item \<Rightarrow> database \<Rightarrow> database" where
  "load_item env item db =
     (case item_command env item of None \<Rightarrow> db | Some (dir, file, args) \<Rightarrow> add_entry env file dir args db)"

text \<open>
  \<open>ranges::sort\<close> by the file id is not stable: entries of one file may come out in any order.
  \<open>ce_permute\<close> is the order the sort happens to leave them in, any permutation of the entries.
\<close>

definition sort_entries :: "cmd_env \<Rightarrow> (u32 \<times> u32) list \<Rightarrow> (u32 \<times> u32) list" where
  "sort_entries env es = sort_key fst (ce_permute env es)"

definition load_database :: "cmd_env \<Rightarrow> string \<Rightarrow> database \<Rightarrow> database \<times> nat" where
  "load_database env path db =
     (let db0 = db\<lparr>db_entries := []\<rparr> in
      case ce_load_json env path of
        None \<Rightarrow> (db0, 0)
      | Some items \<Rightarrow>
          let db1 = fold (load_item env) items db0; db2 = db1\<lparr>db_entries := sort_entries env (db_entries db1)\<rparr>
          in (db2, length (db_entries db2)))"

definition find_entries :: "database \<Rightarrow> u32 \<Rightarrow> (u32 \<times> u32) list" where
  "find_entries db p = takeWhile (\<lambda>e. fst e = p) (dropWhile (\<lambda>e. fst e < p) (db_entries db))"

section \<open>Commands\<close>

definition removes :: "parsed_arg list \<Rightarrow> parsed_arg \<Rightarrow> bool" where
  "removes remove_args arg \<longleftrightarrow>
     (\<exists>r \<in> set remove_args. pa_id r = pa_id arg \<and> (pa_values r = [''*''] \<or> pa_values arg = pa_values r))"

definition parsed :: "(nat + parsed_arg) list \<Rightarrow> parsed_arg list" where
  "parsed rs = concat (map (\<lambda>r. case r of Inl _ \<Rightarrow> [] | Inr a \<Rightarrow> [a]) rs)"

definition remove_flags :: "cmd_env \<Rightarrow> string list \<Rightarrow> char_ptr list \<Rightarrow> char_ptr list option" where
  "remove_flags env remove flags =
     (if remove = [] then Some flags
      else case strings_of (tl flags) of
             None \<Rightarrow> None
           | Some saved \<Rightarrow>
               let remove_args = parsed (ot_parse env (ot_options env) remove) in
               Some (hd flags # concat (map (\<lambda>a. if removes remove_args a then [] else map ptr_of (ot_render env a))
                  (parsed (ot_parse env (ot_options env) saved)))))"

definition with_resource_dir :: "cmd_env \<Rightarrow> command_options \<Rightarrow> char_ptr list \<Rightarrow> char_ptr list" where
  "with_resource_dir env opts flags =
     (if inject_resource_dir opts \<and> resource_dir env \<noteq> [] \<and> Some ''-resource-dir'' \<notin> set flags
      then flags @ [Some ''-resource-dir'', Some (resource_dir env)] else flags)"

text \<open>The pointers of the pools are never null for ids that they handed out.\<close>

definition info_at :: "database \<Rightarrow> u32 \<Rightarrow> compilation_info" where
  "info_at db i = the (obj_at (db_infos db) i)"

definition canonical_at :: "database \<Rightarrow> u32 \<Rightarrow> char_ptr list" where
  "canonical_at db c = the (obj_at (db_canonicals db) c)"

definition text_of :: "char_ptr \<Rightarrow> string" where
  "text_of p = (case p of None \<Rightarrow> [] | Some s \<Rightarrow> s)"

definition build_command :: "cmd_env \<Rightarrow> database \<Rightarrow> u32 \<Rightarrow> u32 \<Rightarrow> command_options \<Rightarrow> compile_command option" where
  "build_command env db p i opts =
     (let info = info_at db i;
          flags = with_resource_dir env opts (canonical_at db (ci_canonical info) @ ci_patch info)
      in case remove_flags env (co_remove opts) flags of
           None \<Rightarrow> None
         | Some flags1 \<Rightarrow>
             Some \<lparr>cc_directory = text_of (ci_directory info), cc_flags = flags1 @ map ptr_of (co_append opts),
                   cc_is_cc1 = False, cc_source = resolve (db_paths db) p\<rparr>)"

definition ends_with :: "string \<Rightarrow> string \<Rightarrow> bool" where
  "ends_with s suf \<longleftrightarrow> length suf \<le> length s \<and> drop (length s - length suf) s = suf"

definition default_command :: "cmd_env \<Rightarrow> database \<Rightarrow> string \<Rightarrow> u32 \<Rightarrow> command_options \<Rightarrow> compile_command" where
  "default_command env db file p opts =
     (let flags = (if ends_with file ''.cpp'' \<or> ends_with file ''.hpp'' \<or> ends_with file ''.cc''
                   then [Some ''clang++'', Some ''-std=c++20''] else [Some ''clang'']);
          flags1 = (if inject_resource_dir opts \<and> resource_dir env \<noteq> []
                    then flags @ [Some ''-resource-dir'', Some (resource_dir env)] else flags)
      in \<lparr>cc_directory = [], cc_flags = flags1, cc_is_cc1 = False, cc_source = resolve (db_paths db) p\<rparr>)"

text \<open>All results or the exception of the first that throws.\<close>

fun all_some :: "'a option list \<Rightarrow> 'a list option" where
  "all_some [] = Some []"
| "all_some (x # xs) = (case x of None \<Rightarrow> None | Some y \<Rightarrow> map_option (Cons y) (all_some xs))"

definition db_lookup :: "cmd_env \<Rightarrow> string \<Rightarrow> command_options \<Rightarrow> database \<Rightarrow> database \<times> compile_command list option" where
  "db_lookup env file opts db =
     (let (paths, p) = intern file (db_paths db); db1 = db\<lparr>db_paths := paths\<rparr>; matched = find_entries db1 p in
      if matched \<noteq> [] then (db1, all_some (map (\<lambda>e. build_command env db1 p (snd e) opts) matched))
      else (db1, Some [default_command env db1 file p opts]))"

definition has_entry :: "string \<Rightarrow> database \<Rightarrow> database \<times> bool" where
  "has_entry file db =
     (let (paths, p) = intern file (db_paths db); db1 = db\<lparr>db_paths := paths\<rparr> in (db1, find_entries db1 p \<noteq> []))"

record config_group =
  cg_file_ids :: "u32 list"
  cg_command :: compile_command
  cg_info :: u32

fun add_to_group :: "u32 \<Rightarrow> u32 \<Rightarrow> config_group list \<Rightarrow> config_group list" where
  "add_to_group p i [] = []"
| "add_to_group p i (g # gs) =
     (if cg_info g = i
      then (if cg_file_ids g = [] \<or> last (cg_file_ids g) \<noteq> p then g\<lparr>cg_file_ids := cg_file_ids g @ [p]\<rparr> else g) # gs
      else g # add_to_group p i gs)"

text \<open>The index map of \<open>unique_configs\<close> finds the group of an info, which is unique.\<close>

definition group_entry :: "cmd_env \<Rightarrow> database \<Rightarrow> command_options \<Rightarrow> u32 \<times> u32 \<Rightarrow> config_group list option \<Rightarrow> config_group list option" where
  "group_entry env db opts e acc =
     (case acc of
        None \<Rightarrow> None
      | Some gs \<Rightarrow>
          if snd e \<in> set (map cg_info gs) then Some (add_to_group (fst e) (snd e) gs)
          else case build_command env db (fst e) (snd e) opts of
                 None \<Rightarrow> None
               | Some cmd \<Rightarrow> Some (gs @ [\<lparr>cg_file_ids = [fst e], cg_command = cmd, cg_info = snd e\<rparr>]))"

definition unique_configs :: "cmd_env \<Rightarrow> command_options \<Rightarrow> database \<Rightarrow> config_group list option" where
  "unique_configs env opts db = fold (group_entry env db opts) (db_entries db) (Some [])"

definition group_command :: "cmd_env \<Rightarrow> database \<Rightarrow> config_group \<Rightarrow> command_options \<Rightarrow> compile_command option" where
  "group_command env db g opts = build_command env db (hd (cg_file_ids g)) (cg_info g) opts"

end
