(* ===== verification/Command_Database_Props.thy ===== *)
theory Command_Database_Props
  imports Command_Database "HOL-Library.Multiset"
begin

text \<open>
  The database against the file it was loaded from: what a lookup returns is a function of the JSON
  items alone, whatever the pools hold. A file without an entry gets a synthesized command, so a
  lookup is never empty.
\<close>

section \<open>Sorted entries\<close>

lemma find_entries_filter:
  assumes "sorted (map fst (db_entries db))"
  shows "find_entries db p = filter (\<lambda>e. fst e = p) (db_entries db)"
proof -
  have "takeWhile (\<lambda>e. fst e = p) (dropWhile (\<lambda>e. fst e < p) xs) = filter (\<lambda>e. fst e = p) xs"
    if "sorted (map fst xs)" for xs :: "(u32 \<times> u32) list"
    using that
  proof (induction xs)
    case (Cons e xs)
    then have IH: "takeWhile (\<lambda>e. fst e = p) (dropWhile (\<lambda>e. fst e < p) xs) = filter (\<lambda>e. fst e = p) xs" by simp
    consider "fst e < p" | "fst e = p" | "p < fst e" by (metis antisym_conv3)
    then show ?case
    proof cases
      case 1
      then show ?thesis using IH by auto
    next
      case 2
      then have "dropWhile (\<lambda>e. fst e < p) xs = xs" using Cons.prems by (cases xs) auto
      then show ?thesis using IH 2 by simp
    next
      case 3
      then have "filter (\<lambda>e. fst e = p) (e # xs) = []" using Cons.prems by (auto simp: filter_empty_conv)
      moreover have "\<not> fst e < p" "fst e \<noteq> p" using 3 by auto
      ultimately show ?thesis by simp
    qed
  qed simp
  then show ?thesis using assms by (simp add: find_entries_def)
qed

text \<open>What the standard promises of the sort, and that it is met by the model for every permutation.\<close>

definition permutes_entries :: "cmd_env \<Rightarrow> bool" where
  "permutes_entries env \<longleftrightarrow> (\<forall>es. mset (ce_permute env es) = mset es)"

lemma sort_entries_sorted:
  assumes "permutes_entries env"
  shows "sorted (map fst (sort_entries env es))" and "mset (sort_entries env es) = mset es"
  using assms by (simp_all add: sort_entries_def permutes_entries_def)

lemma sort_entries_any:
  assumes "mset es' = mset es" and "sorted (map fst es')" and "ce_permute env es = es'"
  shows "sort_entries env es = es'"
  using assms by (simp add: sort_entries_def sort_key_id_if_sorted)

text \<open>A permutation of the images is the image of a permutation.\<close>

lemma mset_eq_map:
  "mset xs = mset (map g ys) \<Longrightarrow> \<exists>ys'. mset ys' = mset ys \<and> xs = map g ys'"
proof (induction xs arbitrary: ys)
  case (Cons x xs)
  then have "x \<in> set (map g ys)" by (metis list.set_intros(1) mset_eq_setD)
  then obtain y where y: "y \<in> set ys" "x = g y" by auto
  then have ys: "mset ys = mset (y # remove1 y ys)" by simp
  then have "mset (map g ys) = mset (map g (y # remove1 y ys))" by (simp only: mset_map)
  then have "mset xs = mset (map g (remove1 y ys))" using Cons.prems y(2) by simp
  then obtain ys' where ys': "mset ys' = mset (remove1 y ys)" "xs = map g ys'" using Cons.IH by blast
  have "mset (y # ys') = mset ys" unfolding ys by (simp only: mset.simps ys'(1))
  moreover have "x # xs = map g (y # ys')" using ys'(2) y(2) by simp
  ultimately show ?case by (rule_tac x = "y # ys'" in exI) (rule conjI)
qed simp

section \<open>Views\<close>

type_synonym info_view = "char_ptr \<times> char_ptr list \<times> char_ptr list"

definition info_view :: "database \<Rightarrow> u32 \<Rightarrow> info_view option" where
  "info_view db i =
     (case obj_at (db_infos db) i of
        None \<Rightarrow> None
      | Some info \<Rightarrow> map_option (\<lambda>c. (ci_directory info, c, ci_patch info)) (obj_at (db_canonicals db) (ci_canonical info)))"

definition entry_view :: "database \<Rightarrow> u32 \<times> u32 \<Rightarrow> string option \<times> info_view option" where
  "entry_view db e = (resolve (db_paths db) (fst e), info_view db (snd e))"

lemma info_view_entries [simp]: "info_view (db\<lparr>db_entries := es\<rparr>) i = info_view db i"
  by (auto simp: info_view_def split: option.splits)

lemma info_view_paths [simp]: "info_view (db\<lparr>db_paths := ps\<rparr>) i = info_view db i"
  by (auto simp: info_view_def split: option.splits)

definition entries_ok :: "database \<Rightarrow> bool" where
  "entries_ok db \<longleftrightarrow> (\<forall>e \<in> set (db_entries db). resolve (db_paths db) (fst e) \<noteq> None \<and> info_view db (snd e) \<noteq> None)"

text \<open>\<open>n\<close> more commands fit.\<close>

definition db_ok :: "nat \<Rightarrow> database \<Rightarrow> bool" where
  "db_ok n db \<longleftrightarrow> obj_ok (db_canonicals db) \<and> obj_ok (db_infos db) \<and> pool_ok (db_paths db) \<and> entries_ok db
     \<and> length (obj_objects (db_canonicals db)) + n \<le> 2 ^ 32 \<and> length (obj_objects (db_infos db)) + n \<le> 2 ^ 32
     \<and> length (pool_paths (db_paths db)) + n < 2 ^ 32"

definition db_grows :: "database \<Rightarrow> database \<Rightarrow> bool" where
  "db_grows db db' \<longleftrightarrow> (\<forall>i x. info_view db i = Some x \<longrightarrow> info_view db' i = Some x)
     \<and> (\<forall>p s. resolve (db_paths db) p = Some s \<longrightarrow> resolve (db_paths db') p = Some s)"

lemma entry_view_grows:
  assumes "entries_ok db" and "db_grows db db'"
  shows "map (entry_view db') (db_entries db) = map (entry_view db) (db_entries db)"
  using assms by (fastforce simp: entries_ok_def db_grows_def entry_view_def)

lemma obj_get_length: "obj_get x s = (s', i) \<Longrightarrow> length (obj_objects s') \<le> Suc (length (obj_objects s))"
  by (erule obj_get_cases) auto

lemma intern_length: "intern f p = (p', i) \<Longrightarrow> length (pool_paths p') \<le> Suc (length (pool_paths p))"
  by (erule intern_cases) auto

definition view_of :: "cmd_env \<Rightarrow> string \<times> string \<times> string list \<Rightarrow> string option \<times> info_view option" where
  "view_of env c = (case c of (dir, file, args) \<Rightarrow>
     (Some (normalize_path file), Some (ptr_of dir, fst (classified env dir args), snd (classified env dir args))))"

lemma add_entry_view:
  assumes ok: "db_ok (Suc n) db"
  shows "db_ok n (add_entry env file dir args db)"
    and "map (entry_view (add_entry env file dir args db)) (db_entries (add_entry env file dir args db))
      = map (entry_view db) (db_entries db) @ [view_of env (dir, file, args)]"
proof -
  obtain c p where cl: "classified env dir args = (c, p)" by fastforce
  obtain cs k where k: "obj_get c (db_canonicals db) = (cs, k)" by fastforce
  let ?info = "\<lparr>ci_directory = ptr_of dir, ci_canonical = k, ci_patch = p\<rparr>"
  obtain infos i where i: "obj_get ?info (db_infos db) = (infos, i)" by fastforce
  obtain paths q where q: "intern file (db_paths db) = (paths, q)" by fastforce
  have eq: "add_entry env file dir args db =
      db\<lparr>db_canonicals := cs, db_infos := infos, db_paths := paths, db_entries := db_entries db @ [(q, i)]\<rparr>"
    by (simp add: add_entry_def save_compilation_info_def cl k i q Let_def)
  let ?db = "add_entry env file dir args db"
  have oks: "obj_ok (db_canonicals db)" "obj_ok (db_infos db)" "pool_ok (db_paths db)" "entries_ok db"
    "length (obj_objects (db_canonicals db)) < 2 ^ 32" "length (obj_objects (db_infos db)) < 2 ^ 32"
    "length (pool_paths (db_paths db)) < 2 ^ 32"
    using ok by (simp_all add: db_ok_def)
  have lens: "length (obj_objects cs) + n \<le> 2 ^ 32" "length (obj_objects infos) + n \<le> 2 ^ 32" "length (pool_paths paths) + n < 2 ^ 32"
    using ok obj_get_length [OF k] obj_get_length [OF i] intern_length [OF q] by (simp_all add: db_ok_def)
  note canon = objects.add_stable [OF oks(1,5) k] and infs = objects.add_stable [OF oks(2,6) i] and pths = pool.add_stable [OF oks(3,7) q]
  have grows: "db_grows db ?db"
    using canon infs pths by (auto simp: db_grows_def info_view_def eq split: option.splits)
  have new: "info_view ?db i = Some (ptr_of dir, c, p)" "resolve (db_paths ?db) q = Some (normalize_path file)"
    using objects.add_get [OF oks(1,5) k] objects.add_get [OF oks(2,6) i] pool.add_get [OF oks(3,7) q]
    by (simp_all add: info_view_def eq)
  show "map (entry_view ?db) (db_entries ?db) = map (entry_view db) (db_entries db) @ [view_of env (dir, file, args)]"
    using entry_view_grows [OF oks(4) grows] new by (simp add: eq entry_view_def view_of_def cl)
  have "entries_ok ?db"
    using oks(4) grows new by (fastforce simp: entries_ok_def db_grows_def eq)
  then show "db_ok n ?db"
    using lens objects.add_ok [OF oks(1,5) k] objects.add_ok [OF oks(2,6) i] pool.add_ok [OF oks(3,7) q]
    by (simp add: db_ok_def eq)
qed

lemma db_ok_mono: "db_ok (Suc n) db \<Longrightarrow> db_ok n db"
  by (simp add: db_ok_def)

definition commands_of :: "cmd_env \<Rightarrow> json_item list \<Rightarrow> (string \<times> string \<times> string list) list" where
  "commands_of env items = List.map_filter (item_command env) items"

lemma load_items_view:
  assumes "db_ok (length items + n) db"
  shows "db_ok n (fold (load_item env) items db)"
    and "map (entry_view (fold (load_item env) items db)) (db_entries (fold (load_item env) items db))
      = map (entry_view db) (db_entries db) @ map (view_of env) (commands_of env items)"
  using assms
proof (induction items arbitrary: db)
  case Nil
  { case 1 then show ?case by simp }
  { case 2 then show ?case by (simp add: commands_of_def List.map_filter_simps) }
next
  case (Cons item items)
  have step: "db_ok (length items + n) (load_item env item db)"
    "map (entry_view (load_item env item db)) (db_entries (load_item env item db))
      = map (entry_view db) (db_entries db) @ map (view_of env) (commands_of env [item])" if ok: "db_ok (Suc (length items + n)) db" for db
    using db_ok_mono [OF ok] add_entry_view [OF ok, of env]
    by (auto simp: load_item_def commands_of_def List.map_filter_simps split: option.splits)
  {
    case 1
    then have "db_ok (Suc (length items + n)) db" by simp
    from Cons.IH(1) [OF step(1) [OF this]] show ?case by simp
  next
    case 2
    then have ok: "db_ok (Suc (length items + n)) db" by simp
    from Cons.IH(2) [OF step(1) [OF ok]] step(2) [OF ok] show ?case
      by (simp add: commands_of_def List.map_filter_simps split: option.splits)
  }
qed

section \<open>Loading and looking up\<close>

text \<open>The command of one item for a file.\<close>

definition command_of :: "cmd_env \<Rightarrow> string \<Rightarrow> command_options \<Rightarrow> string \<times> string \<times> string list \<Rightarrow> compile_command option" where
  "command_of env file opts c =
     (case c of (dir, _, args) \<Rightarrow>
        case classified env dir args of (canonical, patch) \<Rightarrow>
          map_option (\<lambda>flags. \<lparr>cc_directory = text_of (ptr_of dir), cc_flags = flags @ map ptr_of (co_append opts),
              cc_is_cc1 = False, cc_source = Some (normalize_path file)\<rparr>)
            (remove_flags env (co_remove opts) (with_resource_dir env opts (canonical @ patch))))"

definition fallback_command :: "cmd_env \<Rightarrow> string \<Rightarrow> command_options \<Rightarrow> compile_command" where
  "fallback_command env file opts =
     \<lparr>cc_directory = [],
      cc_flags = (if ends_with file ''.cpp'' \<or> ends_with file ''.hpp'' \<or> ends_with file ''.cc''
                  then [Some ''clang++'', Some ''-std=c++20''] else [Some ''clang''])
        @ (if inject_resource_dir opts \<and> resource_dir env \<noteq> [] then [Some ''-resource-dir'', Some (resource_dir env)] else []),
      cc_is_cc1 = False, cc_source = Some (normalize_path file)\<rparr>"

lemma build_command_view:
  assumes "info_view db i = Some (ptr_of dir, fst (classified env dir args), snd (classified env dir args))"
    and "resolve (db_paths db) p = Some (normalize_path file)"
  shows "build_command env db p i opts = command_of env file opts (dir, f, args)"
  using assms
  by (auto simp: build_command_def command_of_def info_view_def info_at_def canonical_at_def Let_def
      split: option.splits prod.splits)

lemma filter_commands:
  assumes "map (entry_view db) es = map (view_of env) cs" and "resolve (db_paths db) p = Some (normalize_path file)" and "pool_ok (db_paths db)"
  shows "map (\<lambda>e. build_command env db p (snd e) opts) (filter (\<lambda>e. fst e = p) es)
    = map (command_of env file opts) (filter (\<lambda>c. normalize_path (fst (snd c)) = normalize_path file) cs)"
  using assms(1)
proof (induction es arbitrary: cs)
  case (Cons e es)
  obtain dir f args cs' where cs: "cs = (dir, f, args) # cs'" using Cons.prems by (cases cs) auto
  then have e: "entry_view db e = view_of env (dir, f, args)" and rest: "map (entry_view db) es = map (view_of env) cs'"
    using Cons.prems by simp_all
  have res: "resolve (db_paths db) (fst e) = Some (normalize_path f)"
    "info_view db (snd e) = Some (ptr_of dir, fst (classified env dir args), snd (classified env dir args))"
    using e by (simp_all add: entry_view_def view_of_def)
  have "fst e = p \<longleftrightarrow> normalize_path f = normalize_path file"
    using res(1) assms(2) pool.get_inj [OF assms(3), of "fst e" _ p] by auto
  then show ?case
    using Cons.IH [OF rest] build_command_view [OF res(2) assms(2)] cs by simp
qed simp

lemma load_database_view:
  assumes "db_ok (Suc (length items)) db" and "ce_load_json env path = Some items" and "permutes_entries env"
  defines "db' \<equiv> fst (load_database env path db)"
  shows "db_ok 1 db'" and "sorted (map fst (db_entries db'))"
    and "\<exists>cs. mset cs = mset (commands_of env items) \<and> map (entry_view db') (db_entries db') = map (view_of env) cs"
proof -
  let ?db0 = "db\<lparr>db_entries := []\<rparr>"
  let ?db1 = "fold (load_item env) items ?db0"
  let ?es = "sort_entries env (db_entries ?db1)"
  have db': "db' = ?db1\<lparr>db_entries := ?es\<rparr>"
    using assms(2) by (simp add: db'_def load_database_def Let_def)
  have ok: "db_ok (length items + 1) ?db0" using assms(1) by (simp add: db_ok_def entries_ok_def)
  note v = load_items_view [OF ok, of env] and es = sort_entries_sorted [OF assms(3)]
  have "set ?es = set (db_entries ?db1)" using es(2) by (rule mset_eq_setD)
  then show "db_ok 1 db'" using v(1) by (simp add: db' db_ok_def entries_ok_def)
  show "sorted (map fst (db_entries db'))" using es(1) by (simp add: db')
  have "entry_view db' = entry_view ?db1" by (simp add: db' entry_view_def fun_eq_iff)
  moreover have "mset (db_entries db') = mset (db_entries ?db1)" using es(2) by (simp add: db')
  ultimately have "mset (map (entry_view db') (db_entries db')) = mset (map (entry_view ?db1) (db_entries ?db1))"
    by (simp only: mset_map)
  then have "mset (map (entry_view db') (db_entries db')) = mset (map (view_of env) (commands_of env items))"
    by (simp only: v(2)) simp
  then show "\<exists>cs. mset cs = mset (commands_of env items) \<and> map (entry_view db') (db_entries db') = map (view_of env) cs"
    by (rule mset_eq_map)
qed

text \<open>
  C21: the commands a lookup returns after a database was loaded are exactly those of the items of
  the JSON file that name the file, one for each, built from the directory and arguments of the item.
  The sort is not stable, so several commands of one file come in some order that is not that of the
  JSON file; when an argument of one of them is a null pointer the lookup throws. When no item names
  the file the result is the one synthesized command, without the flags of the configured rules. The
  ids of the pools play no part.
\<close>

theorem load_then_lookup:
  assumes "db_ok (Suc (length items)) db" and "ce_load_json env path = Some items" and "permutes_entries env"
  shows "\<exists>cs. mset cs = mset (filter (\<lambda>c. normalize_path (fst (snd c)) = normalize_path file) (commands_of env items))
    \<and> snd (db_lookup env file opts (fst (load_database env path db))) =
      (if cs = [] then Some [fallback_command env file opts] else all_some (map (command_of env file opts) cs))"
proof -
  let ?db = "fst (load_database env path db)"
  note load = load_database_view [OF assms]
  obtain cs where cs: "mset cs = mset (commands_of env items)" "map (entry_view ?db) (db_entries ?db) = map (view_of env) cs"
    using load(3) by blast
  let ?cs = "filter (\<lambda>c. normalize_path (fst (snd c)) = normalize_path file) cs"
  obtain paths p where p: "intern file (db_paths ?db) = (paths, p)" by fastforce
  let ?db2 = "?db\<lparr>db_paths := paths\<rparr>"
  have pools: "pool_ok (db_paths ?db)" "length (pool_paths (db_paths ?db)) < 2 ^ 32" and ok: "entries_ok ?db"
    using load(1) by (simp_all add: db_ok_def)
  have paths: "pool_ok paths" "resolve paths p = Some (normalize_path file)"
    using pool.add_ok [OF pools p] pool.add_get [OF pools p] .
  have "db_grows ?db ?db2" using pool.add_stable [OF pools p] by (auto simp: db_grows_def)
  then have views: "map (entry_view ?db2) (db_entries ?db) = map (view_of env) cs"
    using entry_view_grows [OF ok] cs(2) by simp
  have found: "find_entries ?db2 p = filter (\<lambda>e. fst e = p) (db_entries ?db)"
    by (subst find_entries_filter) (simp_all add: load(2))
  have all: "map (\<lambda>e. build_command env ?db2 p (snd e) opts) (find_entries ?db2 p) = map (command_of env file opts) ?cs"
    unfolding found by (rule filter_commands [OF views]) (simp_all add: paths)
  then have len: "find_entries ?db2 p = [] \<longleftrightarrow> ?cs = []" by (metis map_is_Nil_conv)
  have "default_command env ?db2 file p opts = fallback_command env file opts"
    using paths by (simp add: default_command_def fallback_command_def Let_def)
  then have "snd (db_lookup env file opts ?db) =
      (if ?cs = [] then Some [fallback_command env file opts] else all_some (map (command_of env file opts) ?cs))"
    using p len by (simp add: db_lookup_def all)
  moreover have "mset ?cs = mset (filter (\<lambda>c. normalize_path (fst (snd c)) = normalize_path file) (commands_of env items))"
    using cs(1) by simp
  ultimately show ?thesis by blast
qed

text \<open>In particular a lookup never comes back empty-handed.\<close>

lemma all_some_nonempty: "all_some xs = Some ys \<Longrightarrow> length ys = length xs"
  by (induction xs arbitrary: ys) (auto split: option.splits)

lemma db_lookup_nonempty: "snd (db_lookup env file opts db) = Some cmds \<Longrightarrow> cmds \<noteq> []"
  using all_some_nonempty by (fastforce simp: db_lookup_def Let_def split: prod.splits if_splits)

section \<open>Groups\<close>

definition groups_for :: "(u32 \<times> u32) list \<Rightarrow> config_group list \<Rightarrow> bool" where
  "groups_for es gs \<longleftrightarrow> distinct (map cg_info gs) \<and> set (map cg_info gs) = snd ` set es
     \<and> (\<forall>g \<in> set gs. sorted (cg_file_ids g) \<and> distinct (cg_file_ids g) \<and> cg_file_ids g \<noteq> []
          \<and> set (cg_file_ids g) = {p. (p, cg_info g) \<in> set es})"

lemma add_to_group_infos [simp]: "map cg_info (add_to_group p i gs) = map cg_info gs"
  by (induction gs) auto

definition extended :: "u32 \<Rightarrow> config_group \<Rightarrow> config_group" where
  "extended p g = (if cg_file_ids g = [] \<or> last (cg_file_ids g) \<noteq> p then g\<lparr>cg_file_ids := cg_file_ids g @ [p]\<rparr> else g)"

lemma add_to_group_map:
  "distinct (map cg_info gs) \<Longrightarrow> add_to_group p i gs = map (\<lambda>g. if cg_info g = i then extended p g else g) gs"
proof (induction gs)
  case (Cons g gs)
  have "map (\<lambda>g. if cg_info g = i then extended p g else g) gs = gs" if "cg_info g = i"
    using Cons.prems that by (intro map_idI) (use image_iff in fastforce)
  then show ?case using Cons by (auto simp: extended_def)
qed simp

lemma sorted_last_max: "sorted xs \<Longrightarrow> xs \<noteq> [] \<Longrightarrow> x \<in> set xs \<Longrightarrow> x \<le> last xs"
  by (induction xs) (auto split: if_splits)

lemma group_extend:
  assumes "groups_for es gs" and "\<forall>e \<in> set es. fst e \<le> p" and "i \<in> snd ` set es"
  shows "groups_for (es @ [(p, i)]) (add_to_group p i gs)"
proof -
  have d: "distinct (map cg_info gs)" using assms(1) by (simp add: groups_for_def)
  have one: "sorted (cg_file_ids g') \<and> distinct (cg_file_ids g') \<and> cg_file_ids g' \<noteq> [] \<and> set (cg_file_ids g') = {q. (q, cg_info g') \<in> set (es @ [(p, i)])}"
    if g': "g' \<in> set (add_to_group p i gs)" for g'
  proof -
    obtain g where g: "g \<in> set gs" and eq: "g' = (if cg_info g = i then extended p g else g)"
      using g' unfolding add_to_group_map [OF d] set_map by (elim imageE)
    have same: "cg_info g' = cg_info g" by (simp add: eq extended_def)
    have ok: "sorted (cg_file_ids g)" "distinct (cg_file_ids g)" "cg_file_ids g \<noteq> []" "set (cg_file_ids g) = {q. (q, cg_info g) \<in> set es}"
      using assms(1) g by (auto simp: groups_for_def)
    have le: "\<forall>q \<in> set (cg_file_ids g). q \<le> p" using ok(4) assms(2) by force
    show ?thesis
    proof (cases "cg_info g = i \<and> last (cg_file_ids g) \<noteq> p")
      case True
      then have "p \<notin> set (cg_file_ids g)"
        using sorted_last_max [OF ok(1,3)] le ok(3) last_in_set by (metis antisym)
      moreover have "cg_file_ids g' = cg_file_ids g @ [p]" using True ok(3) by (simp add: eq extended_def)
      ultimately show ?thesis using True ok le same by (auto simp: sorted_append)
    next
      case False
      then have "cg_file_ids g' = cg_file_ids g" using ok(3) by (auto simp: eq extended_def)
      moreover have "cg_info g = i \<Longrightarrow> p \<in> set (cg_file_ids g)" using False ok(3) last_in_set by blast
      ultimately show ?thesis using ok same by auto
    qed
  qed
  then show ?thesis using assms(1,3) by (auto simp: groups_for_def)
qed

lemma group_new:
  assumes "groups_for es gs" and "i \<notin> snd ` set es"
  shows "groups_for (es @ [(p, i)]) (gs @ [\<lparr>cg_file_ids = [p], cg_command = cmd, cg_info = i\<rparr>])"
proof -
  have "cg_info g \<noteq> i" if "g \<in> set gs" for g using that assms by (auto simp: groups_for_def)
  then have "(q, cg_info g) \<in> set (es @ [(p, i)]) \<longleftrightarrow> (q, cg_info g) \<in> set es" if "g \<in> set gs" for g q using that by auto
  moreover have "{q. (q, i) \<in> set (es @ [(p, i)])} = {p}" using assms(2) by force
  ultimately show ?thesis using assms by (auto simp: groups_for_def)
qed

lemma group_entry_none [simp]: "group_entry env db opts e None = None"
  by (simp add: group_entry_def)

lemma unique_configs_fold:
  assumes "sorted (map fst es)" and "fold (group_entry env db opts) es (Some []) = Some gs"
  shows "groups_for es gs"
  using assms
proof (induction es arbitrary: gs rule: rev_induct)
  case (snoc e es)
  obtain gs1 where gs1: "fold (group_entry env db opts) es (Some []) = Some gs1"
    using snoc.prems(2) by (cases "fold (group_entry env db opts) es (Some [])") auto
  have sorted: "sorted (map fst es)" "\<forall>e' \<in> set es. fst e' \<le> fst e" using snoc.prems(1) by (auto simp: sorted_append)
  note ok = snoc.IH [OF sorted(1) gs1]
  have last: "group_entry env db opts e (Some gs1) = Some gs" using snoc.prems(2) gs1 by simp
  show ?case
  proof (cases "snd e \<in> set (map cg_info gs1)")
    case True
    then have "gs = add_to_group (fst e) (snd e) gs1" using last by (simp add: group_entry_def)
    moreover have "snd e \<in> snd ` set es" using True ok by (simp add: groups_for_def)
    ultimately show ?thesis using group_extend [OF ok sorted(2), of "snd e"] by simp
  next
    case False
    then obtain cmd where "gs = gs1 @ [\<lparr>cg_file_ids = [fst e], cg_command = cmd, cg_info = snd e\<rparr>]"
      using last by (auto simp: group_entry_def split: option.splits)
    moreover have "snd e \<notin> snd ` set es" using False ok by (simp add: groups_for_def)
    ultimately show ?thesis using group_new [OF ok, of "snd e" "fst e" cmd] by simp
  qed
qed (simp add: groups_for_def)

text \<open>
  C37: on a sorted database the groups of \<open>unique_configs\<close> are one per configuration in use, and the
  files of a group are exactly the files with that configuration, each once and in order.
\<close>

theorem unique_configs_partition:
  assumes "sorted (map fst (db_entries db))" and "unique_configs env opts db = Some gs"
  shows "distinct (map cg_info gs) \<and> set (map cg_info gs) = snd ` set (db_entries db)
    \<and> (\<forall>g \<in> set gs. sorted (cg_file_ids g) \<and> distinct (cg_file_ids g) \<and> set (cg_file_ids g) = {p. (p, cg_info g) \<in> set (db_entries db)})"
  using unique_configs_fold [OF assms(1), of env db opts gs] assms(2) by (auto simp: unique_configs_def groups_for_def)

section \<open>Examples\<close>

text \<open>An option table that knows \<open>-I\<close>, \<open>-D\<close> and options that start with \<open>-s\<close>, each with its value joined.\<close>

definition ex_parse :: "string list \<Rightarrow> (nat + parsed_arg) list" where
  "ex_parse args = map (\<lambda>a. Inr \<lparr>pa_id = take 1 (drop 1 a), pa_values = [drop 2 a], pa_index = 0\<rparr>) args"

definition ex_cmd_env :: cmd_env where
  "ex_cmd_env = \<lparr>ot_parse = (\<lambda>opts. ex_parse), ot_options = \<lparr>dash_dash_parsing = False, po_visibility = 1\<rparr>,
     ot_render = (\<lambda>a. [''-'' @ pa_id a @ concat (pa_values a)]), ot_prefixed_name = (\<lambda>i. ''-'' @ i), ot_in_group = (\<lambda>g i. False),
     resource_dir = [], ce_join = (\<lambda>d f. d @ ''/'' @ f), ce_is_absolute = (\<lambda>p. take 1 p = ''/''), ce_filename = (\<lambda>p. p),
     ce_extension = (\<lambda>p. ''.cc''), accepted_extension = (\<lambda>e. e = ''cc''), ce_tokenize = (\<lambda>c. [c]),
     ce_load_json = (\<lambda>p. Some [\<lparr>ji_object = True, ji_directory = Some ''/p'', ji_file = Some ''a.cc'',
       ji_arguments = Some [Some ''cc'', Some ''-Iinc'', Some ''-std''], ji_command = None\<rparr>]),
     ce_permute = rev\<rparr>"

lemma empty_database_ok: "n < 2 ^ 32 \<Longrightarrow> db_ok n empty_database"
  using pool_ok_empty
  by (simp add: db_ok_def empty_database_def entries_ok_def obj_ok_new) (simp add: new_object_set_def empty_pool_def)

lemmas ex_cmd_simps = List.map_filter_simps item_command_def is_c_family_file_def ex_cmd_env_def ex_parse_def Let_def
  normalize_path_def command_of_def classified_def sort_arg_def is_discarded_option_def is_codegen_option_def is_xclang_option_def
  is_user_content_option_def is_include_path_option_def include_path_value_def ptr_of_def remove_flags_def with_resource_dir_def
  default_options_def text_of_def

text \<open>Two items for one file: the lookup returns both commands, in one order or the other.\<close>

definition ex_item :: "string \<Rightarrow> json_item" where
  "ex_item arg = \<lparr>ji_object = True, ji_directory = Some ''/p'', ji_file = Some ''a.cc'',
     ji_arguments = Some [Some ''cc'', Some ''-Iinc'', Some arg], ji_command = None\<rparr>"

definition ex_cmd_env2 :: cmd_env where
  "ex_cmd_env2 = ex_cmd_env\<lparr>ce_load_json := (\<lambda>p. Some [ex_item ''-std'', ex_item ''-sun''])\<rparr>"

definition ex_command :: "string \<Rightarrow> compile_command" where
  "ex_command arg = \<lparr>cc_directory = ''/p'', cc_flags = [Some ''cc'', Some arg, Some ''-I'', Some ''/p/inc''],
     cc_is_cc1 = False, cc_source = Some ''/p/a.cc''\<rparr>"

lemma mset_two: "mset xs = {#a, b#} \<longleftrightarrow> xs = [a, b] \<or> xs = [b, a]"
proof
  assume h: "mset xs = {#a, b#}"
  then have "length xs = 2" by (metis size_mset size_add_mset size_empty numeral_2_eq_2)
  then obtain x y where "xs = [x, y]" by (auto simp: numeral_2_eq_2 length_Suc_conv)
  then show "xs = [a, b] \<or> xs = [b, a]" using h by (auto simp: add_eq_conv_ex)
qed auto

theorem load_then_lookup_witness:
  "\<exists>cmds. snd (db_lookup ex_cmd_env2 ''/p/a.cc'' default_options (fst (load_database ex_cmd_env2 ''db'' empty_database))) = Some cmds
   \<and> mset cmds = {#ex_command ''-std'', ex_command ''-sun''#}"
proof -
  have json: "ce_load_json ex_cmd_env2 ''db'' = Some [ex_item ''-std'', ex_item ''-sun'']" by (simp add: ex_cmd_env2_def)
  have perm: "permutes_entries ex_cmd_env2" by (simp add: permutes_entries_def ex_cmd_env2_def ex_cmd_env_def)
  have items: "filter (\<lambda>c. normalize_path (fst (snd c)) = normalize_path ''/p/a.cc'')
      (commands_of ex_cmd_env2 [ex_item ''-std'', ex_item ''-sun'']) =
      [(''/p'', ''/p/a.cc'', [''cc'', ''-Iinc'', ''-std'']), (''/p'', ''/p/a.cc'', [''cc'', ''-Iinc'', ''-sun''])]"
    by (simp add: commands_of_def ex_cmd_env2_def ex_item_def ex_cmd_simps)
  have cmds: "command_of ex_cmd_env2 ''/p/a.cc'' default_options (''/p'', f, [''cc'', ''-Iinc'', x]) = Some (ex_command x)"
    if "x \<in> {''-std'', ''-sun''}" for f x
    using that by (auto simp: ex_command_def ex_cmd_env2_def ex_cmd_simps)
  obtain cs where cs: "mset cs = {#(''/p'', ''/p/a.cc'', [''cc'', ''-Iinc'', ''-std'']), (''/p'', ''/p/a.cc'', [''cc'', ''-Iinc'', ''-sun''])#}"
    "snd (db_lookup ex_cmd_env2 ''/p/a.cc'' default_options (fst (load_database ex_cmd_env2 ''db'' empty_database))) =
      (if cs = [] then Some [fallback_command ex_cmd_env2 ''/p/a.cc'' default_options]
       else all_some (map (command_of ex_cmd_env2 ''/p/a.cc'' default_options) cs))"
    using load_then_lookup [OF empty_database_ok json perm, of "''/p/a.cc''" default_options] items by auto
  from cs(1) have "cs = [(''/p'', ''/p/a.cc'', [''cc'', ''-Iinc'', ''-std'']), (''/p'', ''/p/a.cc'', [''cc'', ''-Iinc'', ''-sun''])]
      \<or> cs = [(''/p'', ''/p/a.cc'', [''cc'', ''-Iinc'', ''-sun'']), (''/p'', ''/p/a.cc'', [''cc'', ''-Iinc'', ''-std''])]"
    by (simp only: mset_two)
  then show ?thesis using cs(2) cmds by auto
qed

text \<open>An option with an empty value saves the empty string, which is a null pointer: its command cannot be printed.\<close>

theorem empty_include_path_throws:
  "map_option (map (to_string_argv ex_cmd_env)) (snd (db_lookup ex_cmd_env ''/p/a.cc'' default_options
     (fst (load_database (ex_cmd_env\<lparr>ce_load_json := (\<lambda>p. Some [\<lparr>ji_object = True, ji_directory = Some ''/p'', ji_file = Some ''a.cc'',
       ji_arguments = Some [Some ''cc'', Some ''-I''], ji_command = None\<rparr>])\<rparr>) ''db'' empty_database)))) = Some [None]"
  by (simp add: db_lookup_def load_database_def sort_entries_def load_item_def item_command_def is_c_family_file_def ex_cmd_env_def ex_parse_def Let_def
      add_entry_def save_compilation_info_def classified_def sort_arg_def is_discarded_option_def is_codegen_option_def is_xclang_option_def
      is_user_content_option_def is_include_path_option_def include_path_value_def ptr_of_def empty_database_def new_object_set_def
      obj_get_def intern_def normalize_path_def empty_pool_def find_entries_def build_command_def info_at_def obj_at_def canonical_at_def
      with_resource_dir_def default_options_def remove_flags_def text_of_def resolve_def to_string_argv_def to_argv_def strings_of_def)

definition ex_two_configs :: database where
  "ex_two_configs = empty_database\<lparr>
     db_canonicals := \<lparr>obj_objects = [Some [Some ''cc'']], obj_removed = [], obj_cache = [[Some ''cc''] \<mapsto> 0]\<rparr>,
     db_infos := \<lparr>obj_objects = [Some \<lparr>ci_directory = None, ci_canonical = 0, ci_patch = []\<rparr>], obj_removed = [], obj_cache = Map.empty\<rparr>,
     db_entries := [(1, 0), (1, 0), (2, 0)]\<rparr>"

theorem unique_configs_partition_witness:
  "unique_configs ex_cmd_env default_options ex_two_configs \<noteq> None
   \<and> map cg_file_ids (the (unique_configs ex_cmd_env default_options ex_two_configs)) = [[1, 2]]
   \<and> distinct (map cg_info (the (unique_configs ex_cmd_env default_options ex_two_configs)))"
proof -
  have u: "unique_configs ex_cmd_env default_options ex_two_configs
      = Some [\<lparr>cg_file_ids = [1, 2], cg_command = \<lparr>cc_directory = [], cc_flags = [Some ''cc''], cc_is_cc1 = False, cc_source = None\<rparr>, cg_info = 0\<rparr>]"
    by (simp add: unique_configs_def ex_two_configs_def group_entry_def build_command_def info_at_def canonical_at_def obj_at_def
        ex_cmd_env_def default_options_def with_resource_dir_def remove_flags_def text_of_def resolve_def empty_database_def empty_pool_def Let_def)
  have "distinct (map cg_info (the (unique_configs ex_cmd_env default_options ex_two_configs)))"
    using unique_configs_partition [of ex_two_configs ex_cmd_env default_options] u by (simp add: ex_two_configs_def)
  then show ?thesis using u by simp
qed

end
