(* ===== verification/Compile_Args.thy ===== *)
theory Compile_Args
  imports Workspace_Props Command_Database_Props Config
begin

text \<open>
  The part of \<open>src/src/server/compiler/compiler.cpp\<close> that finds the compiler arguments of a file:
  \<open>fill_compile_args\<close>, the header contexts with the preamble they synthesize, and the cache keys.
  The toolchain query is the parameter \<open>ae_toolchain\<close>. A result is the directory and the arguments,
  the value \<open>false\<close>, or the exception of a string made from a null pointer.
\<close>

section \<open>Text\<close>

definition index_from :: "char \<Rightarrow> string \<Rightarrow> nat \<Rightarrow> nat option" where
  "index_from c s n = map_option (\<lambda>k. n + k) (first_index (\<lambda>x. x = c) (drop n s))"

definition is_space :: "char \<Rightarrow> bool" where
  "is_space c \<longleftrightarrow> c \<in> {CHR '' '', CHR 0x09, CHR 0x0A, CHR 0x0B, CHR 0x0C, CHR 0x0D}"

definition ltrim :: "string \<Rightarrow> string" where
  "ltrim s = dropWhile is_space s"

definition trim :: "string \<Rightarrow> string" where
  "trim s = rev (dropWhile is_space (rev (ltrim s)))"

definition slice :: "nat \<Rightarrow> nat \<Rightarrow> string \<Rightarrow> string" where
  "slice a b s = take (b - a) (drop a s)"

definition starts_with :: "string \<Rightarrow> string \<Rightarrow> bool" where
  "starts_with s pre \<longleftrightarrow> take (length pre) s = pre"

text \<open>The name in an include directive, of a trimmed line.\<close>

definition included_name :: "string \<Rightarrow> string option" where
  "included_name line =
     (if starts_with line ''#include'' \<or> starts_with line ''# include'' then
        case first_index (\<lambda>c. c = CHR 0x22 \<or> c = CHR ''<'') line of
          None \<Rightarrow> None
        | Some a \<Rightarrow>
            case index_from (if line ! a = CHR 0x22 then CHR 0x22 else CHR ''>'') line (a + 1) of
              None \<Rightarrow> None
            | Some b \<Rightarrow> Some (slice (a + 1) b line)
      else None)"

definition includes_file :: "(string \<Rightarrow> string) \<Rightarrow> string \<Rightarrow> string \<Rightarrow> bool" where
  "includes_file filename next_name line \<longleftrightarrow>
     (case included_name (trim line) of None \<Rightarrow> False | Some f \<Rightarrow> filename f = next_name)"

lemma index_from_ge: "index_from c s n = Some k \<Longrightarrow> n \<le> k"
  by (auto simp: index_from_def)

text \<open>The loop over the lines, from offset \<open>start\<close>: where the first line starts that includes the file.\<close>

function include_line :: "(string \<Rightarrow> string) \<Rightarrow> string \<Rightarrow> string \<Rightarrow> nat \<Rightarrow> nat option" where
  "include_line filename next_name content start =
     (if length content < start then None
      else
        let newline = index_from (CHR 0x0A) content start;
            line_end = (case newline of None \<Rightarrow> length content | Some k \<Rightarrow> k)
        in if includes_file filename next_name (slice start line_end content) then Some start
           else include_line filename next_name content (case newline of None \<Rightarrow> length content + 1 | Some k \<Rightarrow> k + 1))"
  by pat_completeness auto
termination
  by (relation "measure (\<lambda>(f, n, content, start). Suc (length content) - start)")
    (auto split: option.splits dest: index_from_ge)

declare include_line.simps [simp del]

definition hex_digit :: "nat \<Rightarrow> char" where
  "hex_digit n = (if n < 10 then char_of (48 + n) else char_of (87 + n))"

definition hex16 :: "u64 \<Rightarrow> string" where
  "hex16 h = map (\<lambda>k. hex_digit (unat h div 16 ^ (15 - k) mod 16)) [0..<16]"

section \<open>Cache keys\<close>

definition key_input :: "string list \<Rightarrow> string" where
  "key_input parts = concat (map (\<lambda>part. decimal (length part) @ '':'' @ part) parts)"

text \<open>\<open>xxh3\<close> gives the two halves of the 128-bit hash.\<close>

definition cache_key :: "(string \<Rightarrow> u64 \<times> u64) \<Rightarrow> string list \<Rightarrow> string" where
  "cache_key xxh3 parts = (case xxh3 (key_input parts) of (high, low) \<Rightarrow> hex16 high @ hex16 low)"

section \<open>Header contexts\<close>

record 'w args_env =
  ae_ws :: "'w ws_env"
  ae_cmd :: cmd_env
  ae_toolchain :: "compile_command \<Rightarrow> compile_command"

text \<open>The state that finding the arguments changes; \<open>fs_header\<close> is the context stored in the session.\<close>

record 'w fill_state =
  fs_db :: database
  fs_pool :: path_pool
  fs_world :: 'w
  fs_header :: "header_file_context option"

datatype 'a fill_result = Throws | Fails | Gives 'a

text \<open>Looks a path up without options.\<close>

definition lookup_plain :: "'w args_env \<Rightarrow> string \<Rightarrow> 'w fill_state \<Rightarrow> 'w fill_state \<times> compile_command list option" where
  "lookup_plain env path st =
     (case db_lookup (ae_cmd env) path default_options (fs_db st) of (db, r) \<Rightarrow> (st\<lparr>fs_db := db\<rparr>, r))"

text \<open>The route from a host with a command, if there is one; \<open>Throws\<close> stands for the exception of the lookup.\<close>

definition host_chain :: "'w args_env \<Rightarrow> dependency_graph \<Rightarrow> u32 \<Rightarrow> u32 \<Rightarrow> 'w fill_state \<Rightarrow> 'w fill_state \<times> u32 list fill_result" where
  "host_chain env g header host st =
     (case lookup_plain env (path_of (fs_pool st) host) st of
        (st1, None) \<Rightarrow> (st1, Throws)
      | (st1, Some results) \<Rightarrow>
          if results = [] then (st1, Fails)
          else case find_include_chain g host header of
                 None \<Rightarrow> (st1, Fails)
               | Some route \<Rightarrow> (st1, if route = [] then Fails else Gives route))"

fun first_host :: "'w args_env \<Rightarrow> dependency_graph \<Rightarrow> u32 \<Rightarrow> u32 list \<Rightarrow> 'w fill_state \<Rightarrow> 'w fill_state \<times> (u32 \<times> u32 list) fill_result" where
  "first_host env g header [] st = (st, Fails)"
| "first_host env g header (h # hs) st =
     (case host_chain env g header h st of
        (st1, Throws) \<Rightarrow> (st1, Throws)
      | (st1, Gives route) \<Rightarrow> (st1, Gives (h, route))
      | (st1, Fails) \<Rightarrow> first_host env g header hs st1)"

definition choose_host :: "'w args_env \<Rightarrow> dependency_graph \<Rightarrow> u32 \<Rightarrow> u32 option \<Rightarrow> 'w fill_state \<Rightarrow> 'w fill_state \<times> (u32 \<times> u32 list) fill_result" where
  "choose_host env g header active st =
     (let hosts = find_host_sources g header in
      if hosts = [] then (st, Fails)
      else case active of
             None \<Rightarrow> first_host env g header hosts st
           | Some preferred \<Rightarrow>
               case host_chain env g header preferred st of
                 (st1, Throws) \<Rightarrow> (st1, Throws)
               | (st1, Gives route) \<Rightarrow> (st1, Gives (preferred, route))
               | (st1, Fails) \<Rightarrow> first_host env g header hosts st1)"

text \<open>The text that stands for one file of the route.\<close>

definition preamble_part :: "(string \<Rightarrow> string) \<Rightarrow> string \<Rightarrow> string \<Rightarrow> string \<Rightarrow> string" where
  "preamble_part filename cur_path next_path content =
     ''#line 1 '' @ [CHR 0x22] @ cur_path @ [CHR 0x22, CHR 0x0A]
       @ (case include_line filename (filename next_path) content 0 of None \<Rightarrow> content | Some k \<Rightarrow> take k content)"

fun build_preamble :: "'w args_env \<Rightarrow> path_pool \<Rightarrow> 'w \<Rightarrow> u32 list \<Rightarrow> string option" where
  "build_preamble env pool w (cur # nxt # rest) =
     (case os_buffer (we_os (ae_ws env)) (path_of pool cur) w of
        Inl _ \<Rightarrow> None
      | Inr content \<Rightarrow>
          map_option (\<lambda>more. preamble_part (ce_filename (ae_cmd env)) (path_of pool cur) (path_of pool nxt) content @ more)
            (build_preamble env pool w (nxt # rest)))"
| "build_preamble env pool w [cur] = Some []"
| "build_preamble env pool w [] = Some []"

definition write_preamble :: "'w args_env \<Rightarrow> string \<Rightarrow> u32 \<Rightarrow> string \<Rightarrow> 'w \<Rightarrow> header_file_context option \<times> 'w" where
  "write_preamble env cache_directory host text w =
     (let os = we_os (ae_ws env); h = we_xxh3 (ae_ws env) text;
          dir = os_join os cache_directory ''header_context''; file = os_join os dir (hex16 h @ ''.h'');
          ctx = \<lparr>host_path_id = host, preamble_path = file, preamble_hash = h\<rparr>
      in case os_status os file w of
           Inr _ \<Rightarrow> (Some ctx, w)
         | Inl _ \<Rightarrow>
             case os_create_dirs os dir w of
               (Some _, w1) \<Rightarrow> (None, w1)
             | (None, w1) \<Rightarrow> case os_write os file text w1 of (Some _, w2) \<Rightarrow> (None, w2) | (None, w2) \<Rightarrow> (Some ctx, w2))"

definition resolve_header_context :: "'w args_env \<Rightarrow> config \<Rightarrow> dependency_graph \<Rightarrow> u32 \<Rightarrow> u32 option \<Rightarrow> 'w fill_state
    \<Rightarrow> 'w fill_state \<times> header_file_context fill_result" where
  "resolve_header_context env cfg g header active st =
     (case choose_host env g header active st of
        (st1, Throws) \<Rightarrow> (st1, Throws)
      | (st1, Fails) \<Rightarrow> (st1, Fails)
      | (st1, Gives (host, route)) \<Rightarrow>
          case build_preamble env (fs_pool st1) (fs_world st1) route of
            None \<Rightarrow> (st1, Fails)
          | Some text \<Rightarrow>
              case write_preamble env (cache_dir (cfg_project cfg)) host text (fs_world st1) of
                (ctx, w) \<Rightarrow> (st1\<lparr>fs_world := w\<rparr>, case ctx of None \<Rightarrow> Fails | Some c \<Rightarrow> Gives c))"

section \<open>Arguments\<close>

text \<open>A session is its user-selected context; \<open>None\<close> stands for a call without a session.\<close>

type_synonym session_context = "u32 option option"

definition active_context :: "session_context \<Rightarrow> u32 option" where
  "active_context se = (case se of None \<Rightarrow> None | Some a \<Rightarrow> a)"

definition rule_options :: "config \<Rightarrow> string \<Rightarrow> command_options" where
  "rule_options cfg path =
     (case match_rules cfg path ([], []) of (app, rem) \<Rightarrow> \<lparr>inject_resource_dir = True, co_remove = rem, co_append = app\<rparr>)"

text \<open>The cached context when it is usable, else a new one, kept in the session.\<close>

definition context_for :: "'w args_env \<Rightarrow> config \<Rightarrow> dependency_graph \<Rightarrow> u32 \<Rightarrow> session_context \<Rightarrow> 'w fill_state
    \<Rightarrow> 'w fill_state \<times> header_file_context fill_result" where
  "context_for env cfg g header se st =
     (let usable = (case (se, fs_header st) of
                      (Some active, Some ctx) \<Rightarrow> active = None \<or> Some (host_path_id ctx) = active
                    | _ \<Rightarrow> False)
      in if usable then (st, Gives (the (fs_header st)))
         else
           let st0 = (if se \<noteq> None then st\<lparr>fs_header := None\<rparr> else st) in
           case resolve_header_context env cfg g header (active_context se) st0 of
             (st1, Gives ctx) \<Rightarrow> ((if se \<noteq> None then st1\<lparr>fs_header := Some ctx\<rparr> else st1), Gives ctx)
           | (st1, r) \<Rightarrow> (st1, r))"

definition insert_preamble :: "compile_command \<Rightarrow> string \<Rightarrow> string \<Rightarrow> compile_command" where
  "insert_preamble cmd source preamble =
     (let n = (if cc_is_cc1 cmd then 2 else 1) in
      cmd\<lparr>cc_source := Some source,
          cc_flags := take n (cc_flags cmd) @ [Some ''-include'', Some preamble] @ drop n (cc_flags cmd)\<rparr>)"

definition command_args :: "'w args_env \<Rightarrow> compile_command \<Rightarrow> (string \<times> string list) fill_result" where
  "command_args env cmd =
     (case to_string_argv (ae_cmd env) cmd of None \<Rightarrow> Throws | Some argv \<Rightarrow> Gives (cc_directory cmd, argv))"

definition fill_header_context_args :: "'w args_env \<Rightarrow> config \<Rightarrow> dependency_graph \<Rightarrow> string \<Rightarrow> u32 \<Rightarrow> session_context \<Rightarrow> 'w fill_state
    \<Rightarrow> 'w fill_state \<times> (string \<times> string list) fill_result" where
  "fill_header_context_args env cfg g path p se st =
     (case context_for env cfg g p se st of
        (st1, Throws) \<Rightarrow> (st1, Throws)
      | (st1, Fails) \<Rightarrow> (st1, Fails)
      | (st1, Gives ctx) \<Rightarrow>
          case db_lookup (ae_cmd env) (path_of (fs_pool st1) (host_path_id ctx)) (rule_options cfg path) (fs_db st1) of
            (db, None) \<Rightarrow> (st1\<lparr>fs_db := db\<rparr>, Throws)
          | (db, Some []) \<Rightarrow> (st1\<lparr>fs_db := db\<rparr>, Fails)
          | (db, Some (cmd # _)) \<Rightarrow>
              (st1\<lparr>fs_db := db\<rparr>,
               command_args env (insert_preamble (ae_toolchain env cmd) (path_of (fs_pool st1) p) (preamble_path ctx))))"

definition fill_compile_args :: "'w args_env \<Rightarrow> config \<Rightarrow> dependency_graph \<Rightarrow> string \<Rightarrow> session_context \<Rightarrow> 'w fill_state
    \<Rightarrow> 'w fill_state \<times> (string \<times> string list) fill_result" where
  "fill_compile_args env cfg g path se st0 =
     (let (pool, p) = intern path (fs_pool st0); st = st0\<lparr>fs_pool := pool\<rparr> in
      if active_context se \<noteq> None then fill_header_context_args env cfg g path p se st
      else case db_lookup (ae_cmd env) path (rule_options cfg path) (fs_db st) of
             (db, None) \<Rightarrow> (st\<lparr>fs_db := db\<rparr>, Throws)
           | (db, Some (cmd # _)) \<Rightarrow> (st\<lparr>fs_db := db\<rparr>, command_args env (ae_toolchain env cmd))
           | (db, Some []) \<Rightarrow> fill_header_context_args env cfg g path p se (st\<lparr>fs_db := db\<rparr>))"

end
