(* ===== verification/Compile_Args_Props.thy ===== *)
theory Compile_Args_Props
  imports Compile_Args
begin

text \<open>
  What the arguments are made from: a file that is not in the database gets the synthesized command,
  never an automatic header context; the preamble of a header context is the whole lines before the
  include; cache keys of different parts differ up to collisions of the hash.
\<close>

section \<open>Arguments\<close>

text \<open>
  C39: without a context chosen by the user, the arguments come from the database lookup alone. The
  lookup is never empty, so a header without a database entry is compiled with the synthesized
  command and the search for a host source is never made: nothing is written, the session keeps its
  context, and \<open>false\<close> is never returned.
\<close>

theorem automatic_header_context_unreachable:
  assumes "active_context se = None"
  shows "fill_compile_args env cfg g path se st =
    (case db_lookup (ae_cmd env) path (rule_options cfg path) (fs_db st) of
       (db, r) \<Rightarrow> (st\<lparr>fs_pool := fst (intern path (fs_pool st)), fs_db := db\<rparr>,
                  case r of None \<Rightarrow> Throws | Some cmds \<Rightarrow> command_args env (ae_toolchain env (hd cmds))))
    \<and> snd (fill_compile_args env cfg g path se st) \<noteq> Fails"
proof -
  obtain db r where r: "db_lookup (ae_cmd env) path (rule_options cfg path) (fs_db st) = (db, r)" by fastforce
  obtain pool p where p: "intern path (fs_pool st) = (pool, p)" by fastforce
  have ne: "cmds \<noteq> []" if "r = Some cmds" for cmds
    using db_lookup_nonempty [of "ae_cmd env" path "rule_options cfg path" "fs_db st" cmds] r that by simp
  show ?thesis
    using assms r p ne by (cases r) (auto simp: fill_compile_args_def command_args_def Let_def split: list.splits option.splits)
qed

section \<open>Lines\<close>

abbreviation newline :: char where "newline \<equiv> CHR 0x0A"

fun split_lines :: "string \<Rightarrow> string list" where
  "split_lines [] = [[]]"
| "split_lines (c # s) =
     (if c = newline then [] # split_lines s else (case split_lines s of [] \<Rightarrow> [[c]] | l # ls \<Rightarrow> (c # l) # ls))"

definition join_lines :: "string list \<Rightarrow> string" where
  "join_lines ls = concat (map (\<lambda>l. l @ [newline]) ls)"

lemma split_lines_rec:
  "split_lines s = (case first_index (\<lambda>c. c = newline) s of None \<Rightarrow> [s] | Some k \<Rightarrow> take k s # split_lines (drop (Suc k) s))"
  by (induction s) (auto split: option.splits)

lemma join_prefix:
  assumes "takeWhile Q (split_lines s) \<noteq> split_lines s"
  shows "take (length (join_lines (takeWhile Q (split_lines s)))) s = join_lines (takeWhile Q (split_lines s))"
  using assms
proof (induction "length s" arbitrary: s rule: less_induct)
  case less
  show ?case
  proof (cases "first_index (\<lambda>c. c = newline) s")
    case None
    then have s: "split_lines s = [s]" using split_lines_rec [of s] by simp
    then show ?thesis using less.prems unfolding s by (auto simp: join_lines_def)
  next
    case (Some k)
    then have k: "k < length s" "s ! k = newline" by (auto simp: first_index_Some)
    then have cut: "take k s @ newline # drop (Suc k) s = s" using id_take_nth_drop by force
    have s: "split_lines s = take k s # split_lines (drop (Suc k) s)" using Some split_lines_rec [of s] by simp
    show ?thesis
    proof (cases "Q (take k s)")
      case True
      let ?t = "drop (Suc k) s"
      have "take (length (join_lines (takeWhile Q (split_lines ?t)))) ?t = join_lines (takeWhile Q (split_lines ?t))"
        by (rule less.hyps) (use k less.prems True in \<open>auto simp: s\<close>)
      moreover have "join_lines (takeWhile Q (split_lines s)) = take k s @ newline # join_lines (takeWhile Q (split_lines ?t))"
        using True by (simp add: s join_lines_def)
      moreover have "take (Suc k + n) s = take k s @ newline # take n ?t" for n
        using arg_cong [OF cut [symmetric], of "take (Suc k + n)"] k by simp
      ultimately show ?thesis using k by simp
    next
      case False
      then show ?thesis by (simp add: s join_lines_def)
    qed
  qed
qed

lemma include_line_lines:
  assumes "start \<le> length content"
  shows "include_line f n content start =
    (let ls = split_lines (drop start content); pre = takeWhile (\<lambda>l. \<not> includes_file f n l) ls
     in if pre = ls then None else Some (start + length (join_lines pre)))"
  using assms
proof (induction f n content start rule: include_line.induct)
  case (1 f n content start)
  let ?d = "drop start content"
  show ?case
  proof (cases "first_index (\<lambda>c. c = newline) ?d")
    case None
    then have nl: "index_from newline content start = None" and ls: "split_lines ?d = [?d]"
      using split_lines_rec [of ?d] by (simp_all add: index_from_def)
    show ?thesis
      using 1(2) by (subst include_line.simps)
        (simp add: nl ls Let_def slice_def join_lines_def include_line.simps [of f n content "Suc (length content)"])
  next
    case (Some k)
    then have nl: "index_from newline content start = Some (start + k)" by (simp add: index_from_def)
    have ls: "split_lines ?d = take k ?d # split_lines (drop (Suc k) ?d)" using Some split_lines_rec [of ?d] by simp
    have k: "k < length ?d" using Some by (simp add: first_index_Some)
    have line: "slice start (start + k) content = take k ?d" by (simp add: slice_def)
    show ?thesis
    proof (cases "includes_file f n (take k ?d)")
      case True
      then show ?thesis using 1(2) by (subst include_line.simps) (simp add: nl ls line Let_def join_lines_def)
    next
      case False
      have next_line: "include_line f n content start = include_line f n content (start + k + 1)"
        using 1(2) False by (subst include_line.simps) (simp add: nl line Let_def)
      have rest: "drop (start + k + 1) content = drop (Suc k) ?d" by (simp add: add.commute)
      have le: "start + k + 1 \<le> length content" using k by simp
      have "include_line f n content (start + k + 1) =
          (let ls = split_lines (drop (Suc k) ?d); pre = takeWhile (\<lambda>l. \<not> includes_file f n l) ls
           in if pre = ls then None else Some (start + k + 1 + length (join_lines pre)))"
        using 1(1) [OF _ refl refl] 1(2) False le unfolding nl option.case line rest by simp
      then show ?thesis using False k by (simp add: next_line ls Let_def join_lines_def)
    qed
  qed
qed

text \<open>
  What a header context takes from a file of the include chain is the line marker and then
  exactly the lines before the first line that includes the next file of the chain, each complete;
  the whole file when no line does.
\<close>

theorem preamble_part_lines:
  "preamble_part f cur_path next_path content =
     ''#line 1 '' @ [CHR 0x22] @ cur_path @ [CHR 0x22, newline]
     @ (let ls = split_lines content; pre = takeWhile (\<lambda>l. \<not> includes_file f (f next_path) l) ls
        in if pre = ls then content else join_lines pre)"
  using join_prefix [of "\<lambda>l. \<not> includes_file f (f next_path) l" content]
  by (simp add: preamble_part_def include_line_lines Let_def)

section \<open>Cache keys\<close>

lemma digit_range: "n < 10 \<Longrightarrow> of_char (digit n) = (48 + n :: nat)"
  by (simp add: digit_def)

lemma digit_inj: "m < 10 \<Longrightarrow> n < 10 \<Longrightarrow> digit m = digit n \<longleftrightarrow> m = n"
  by (metis add_left_cancel digit_range)

lemma decimal_digits: "c \<in> set (decimal n) \<Longrightarrow> \<exists>d < 10. c = digit d"
proof (induction n rule: decimal.induct)
  case (1 n)
  show ?case
  proof (cases "n < 10")
    case True
    then show ?thesis using 1(2) by (auto simp: decimal.simps [of n])
  next
    case False
    then show ?thesis using 1 by (auto simp: decimal.simps [of n] intro: exI [of _ "n mod 10"])
  qed
qed

lemma decimal_no_colon: "CHR '':'' \<notin> set (decimal n)"
proof
  assume "CHR '':'' \<in> set (decimal n)"
  then obtain d where "d < 10" "CHR '':'' = digit d" using decimal_digits by blast
  then have "of_char (CHR '':'') = (48 + d :: nat)" using digit_range [of d] by simp
  then show False using \<open>d < 10\<close> by simp
qed

lemma decimal_inj: "decimal m = decimal n \<Longrightarrow> m = n"
proof (induction m arbitrary: n rule: decimal.induct)
  case (1 m)
  have ne: "decimal k \<noteq> []" for k by (subst decimal.simps) simp
  show ?case
  proof (cases "m < 10")
    case True
    have "n < 10"
    proof (rule ccontr)
      assume "\<not> n < 10"
      then have "decimal (n div 10) @ [digit (n mod 10)] = [digit m]" using 1(2) True by (simp add: decimal.simps [of m] decimal.simps [of n])
      then show False using ne by simp
    qed
    then show ?thesis using 1(2) True by (simp add: decimal.simps [of m] decimal.simps [of n] digit_inj)
  next
    case False
    have n: "\<not> n < 10"
    proof
      assume "n < 10"
      then have "decimal (m div 10) @ [digit (m mod 10)] = [digit n]" using 1(2) False by (simp add: decimal.simps [of m] decimal.simps [of n])
      then show False using ne by simp
    qed
    then have "decimal (m div 10) = decimal (n div 10)" "digit (m mod 10) = digit (n mod 10)"
      using 1(2) False by (simp_all add: decimal.simps [of m] decimal.simps [of n])
    then have "m div 10 = n div 10" "m mod 10 = n mod 10" using 1(1) [OF False] by (auto simp: digit_inj)
    then show ?thesis by (metis div_mult_mod_eq)
  qed
qed

lemma key_input_inj: "key_input ps = key_input qs \<Longrightarrow> ps = qs"
proof (induction ps arbitrary: qs)
  case Nil
  then show ?case by (cases qs) (simp_all add: key_input_def)
next
  case (Cons p ps)
  then obtain q qs' where qs: "qs = q # qs'" by (cases qs) (simp_all add: key_input_def)
  have eq: "decimal (length p) @ CHR '':'' # p @ key_input ps = decimal (length q) @ CHR '':'' # q @ key_input qs'"
    using Cons.prems qs by (simp add: key_input_def)
  have tw: "takeWhile (\<lambda>c. c \<noteq> CHR '':'') (decimal n @ CHR '':'' # xs) = decimal n" for n xs
    using decimal_no_colon by (subst takeWhile_append2) auto
  have len: "length p = length q" using arg_cong [OF eq, of "takeWhile (\<lambda>c. c \<noteq> CHR '':'')"] decimal_inj by (simp add: tw)
  then have "p @ key_input ps = q @ key_input qs'" using eq by simp
  then have "p = q" "key_input ps = key_input qs'" using len by simp_all
  then show ?case using Cons.IH qs by simp
qed

lemma hex_digit_inj: "m < 16 \<Longrightarrow> n < 16 \<Longrightarrow> hex_digit m = hex_digit n \<Longrightarrow> m = n"
proof -
  assume "m < 16" "n < 16" "hex_digit m = hex_digit n"
  then have "of_char (hex_digit m) = (of_char (hex_digit n) :: nat)" by simp
  then show ?thesis using \<open>m < 16\<close> \<open>n < 16\<close> by (auto simp: hex_digit_def split: if_splits)
qed

lemma digits_eq:
  fixes a b :: nat
  shows "(\<forall>k < n. a div 16 ^ k mod 16 = b div 16 ^ k mod 16) \<Longrightarrow> a mod 16 ^ n = b mod 16 ^ n"
proof (induction n)
  case (Suc n)
  have "x mod 16 ^ Suc n = x div 16 ^ n mod 16 * 16 ^ n + x mod 16 ^ n" for x :: nat
    using mod_mult2_eq [of x "16 ^ n" 16] by (simp add: mult.commute)
  then show ?case using Suc by simp
qed simp

lemma hex16_inj: "hex16 a = hex16 b \<Longrightarrow> a = b"
proof -
  assume eq: "hex16 a = hex16 b"
  have "unat a div 16 ^ k mod 16 = unat b div 16 ^ k mod 16" if k: "k < 16" for k
  proof -
    have "hex_digit (unat a div 16 ^ (15 - (15 - k)) mod 16) = hex_digit (unat b div 16 ^ (15 - (15 - k)) mod 16)"
      using arg_cong [OF eq, of "\<lambda>l. l ! (15 - k)"] k nth_upt [of 0 "15 - k" 16] by (simp add: hex16_def)
    then show ?thesis using k by (simp add: hex_digit_inj)
  qed
  then have "unat a mod 16 ^ 16 = unat b mod 16 ^ 16" by (intro digits_eq) simp
  moreover have "unat a < 16 ^ 16" "unat b < 16 ^ 16" using unsigned_less [of a] unsigned_less [of b] by simp_all
  ultimately show "a = b" by (simp add: word_unat_eq_iff)
qed

text \<open>
  C38: as far as the hash does not collide on the two inputs, two cache keys are equal exactly when
  their parts are: the lengths in front of the parts leave one way to cut the input up again.
\<close>

theorem cache_key_separates:
  assumes "xxh3 (key_input ps) = xxh3 (key_input qs) \<longrightarrow> key_input ps = key_input qs"
  shows "cache_key xxh3 ps = cache_key xxh3 qs \<longleftrightarrow> ps = qs"
proof
  assume eq: "cache_key xxh3 ps = cache_key xxh3 qs"
  obtain a b c d where h: "xxh3 (key_input ps) = (a, b)" "xxh3 (key_input qs) = (c, d)" by fastforce
  have "length (hex16 x) = 16" for x by (simp add: hex16_def)
  then have "hex16 a = hex16 c" "hex16 b = hex16 d" using eq h by (simp_all add: cache_key_def)
  then have "xxh3 (key_input ps) = xxh3 (key_input qs)" using h hex16_inj by simp
  then show "ps = qs" using assms key_input_inj by blast
qed simp

theorem cache_key_separates_witness:
  "cache_key (\<lambda>s. (of_nat (length s), of_nat (of_char (last s)))) [''ab'', ''c''] \<noteq> cache_key (\<lambda>s. (of_nat (length s), of_nat (of_char (last s)))) [''ab'', ''d'']"
  by (subst cache_key_separates) (simp_all add: key_input_def decimal.simps [of 1] decimal.simps [of 2] digit_def)

section \<open>Examples\<close>

definition ex_args_env :: "files args_env" where
  "ex_args_env = \<lparr>ae_ws = ex_ws_env, ae_cmd = ex_cmd_env, ae_toolchain = (\<lambda>c. c)\<rparr>"

definition ex_fill_state :: "files fill_state" where
  "ex_fill_state = \<lparr>fs_db = empty_database, fs_pool = empty_pool, fs_world = [], fs_header = None\<rparr>"

text \<open>An open header without a database entry.\<close>

theorem automatic_header_context_unreachable_witness:
  "snd (fill_compile_args ex_args_env empty_config empty_dependency_graph ''x.h'' (Some None) ex_fill_state) = Gives ([], [''clang'', ''x.h''])"
proof -
  have "active_context (Some None) = None" by (simp add: active_context_def)
  note * = automatic_header_context_unreachable [OF this, of ex_args_env empty_config empty_dependency_graph "''x.h''" ex_fill_state]
  show ?thesis
    by (subst conjunct1 [OF *])
      (simp add: ex_args_env_def ex_fill_state_def db_lookup_def empty_database_def intern_def normalize_path_def empty_pool_def Let_def
        find_entries_def default_command_def ends_with_def ex_cmd_env_def rule_options_def match_rules_def empty_config_def
        command_args_def to_string_argv_def to_argv_def strings_of_def resolve_def)
qed

end
