(* ===== verification/Worker_Protocol.thy ===== *)
theory Worker_Protocol
  imports Clice_Prelude
begin

text \<open>
  Messages of \<open>src/src/server/protocol/worker.h\<close> that the server and the stateful worker share.
\<close>

record compile_params =
  cq_path :: string
  cq_version :: int
  cq_text :: string
  cq_directory :: string
  cq_arguments :: "string list"
  cq_pch :: "string \<times> u32"
  cq_pcms :: "(string \<times> string) list"

datatype query_kind = Hover | GoToDefinition | SemanticTokens | InlayHints | FoldingRange | DocumentSymbol | DocumentLink | CodeAction

text \<open>A range that was not given is the pair of the largest values.\<close>

record query_params =
  qp_kind :: query_kind
  qp_path :: string
  qp_offset :: u32
  qp_range :: "u32 \<times> u32"

end
