(* ===== verification/Session_State.thy ===== *)
theory Session_State
  imports Worker_Protocol Compile_Args_Props Indexer_Stale Indexer_Sched
begin

text \<open>
  Open files and their compilation: \<open>src/src/server/service/session.h\<close>, the session operations of
  \<open>src/src/server/service/master_server.cpp\<close>, the document handlers of
  \<open>src/src/server/service/lsp_client.cpp\<close>, and \<open>ensure_compiled\<close> and \<open>run_compile\<close> of
  \<open>src/src/server/compiler/compiler.cpp\<close>. Sessions and pending compiles are shared objects: they live in
  lists and are named by their index. A coroutine is the state it is suspended in. Counters that
  only grow are natural numbers.
\<close>

section \<open>State\<close>

record pending_compile =
  pc_done :: bool
  pc_succeeded :: bool
  pc_generation :: nat
  pc_deps_done :: bool
  pc_cancelled :: bool

record pch_ref =
  ref_path_id :: u32
  ref_key :: string
  ref_bound :: u32

record live_session =
  ls_path_id :: u32
  ls_version :: int
  ls_text :: string
  ls_line_starts :: "u32 list"
  ls_generation :: nat
  ls_ast_dirty :: bool
  ls_compiling :: "nat option"
  ls_pch_ref :: "pch_ref option"
  ls_ast_deps :: "deps_snapshot option"
  ls_header_context :: "header_file_context option"
  ls_active_context :: "u32 option"
  ls_file_index :: "file_index option"
  ls_symbols :: "symbol_table option"

definition new_session :: live_session where
  "new_session = \<lparr>ls_path_id = 0, ls_version = 0, ls_text = [], ls_line_starts = [], ls_generation = 0,
     ls_ast_dirty = True, ls_compiling = None, ls_pch_ref = None, ls_ast_deps = None, ls_header_context = None,
     ls_active_context = None, ls_file_index = None, ls_symbols = None\<rparr>"

text \<open>The answer of the worker; no index when its serialized form is empty.\<close>

record compile_result =
  cr_deps :: "string list"
  cr_index :: "(file_index \<times> symbol_table) option"
  cr_diagnostics :: string

datatype task_phase = Preparing | Sending | Over

record compile_task =
  ct_session :: nat
  ct_pending :: nat
  ct_gen :: nat
  ct_params :: compile_params
  ct_phase :: task_phase

text \<open>Where an \<open>ensure_compiled\<close> waits: in its loop, for the compile it started, or not any more.\<close>

datatype wait_phase = WaitLoop nat | WaitFinal nat | Returned bool | Abandoned

record waiter =
  wt_session :: nat
  wt_gen :: nat
  wt_phase :: wait_phase

datatype lifecycle = Uninitialized | Initialized | Ready | ShuttingDown | Exited

datatype message = Publish string int string | ClearDiagnostics string | DocumentUpdate u32 int | EvictDocument u32

record 'w server =
  sv_lifecycle :: lifecycle
  sv_config :: config
  sv_db :: database
  sv_ws :: workspace_state
  sv_world :: 'w
  sv_sched :: sched
  sv_objects :: "live_session list"
  sv_sessions :: "(u32 \<times> nat) list"
  sv_pendings :: "pending_compile list"
  sv_tasks :: "compile_task list"
  sv_waiters :: "waiter list"
  sv_out :: "message list"
  sv_aborted :: bool

text \<open>\<open>sv_aborted\<close>: an exception that nothing catches has ended the process.\<close>

text \<open>What the server uses from outside: files, arguments, positions, URIs, and whether the task group accepts tasks.\<close>

record 'w server_env =
  se_args :: "'w args_env"
  se_index :: index_env
  se_accepts :: bool

definition upd_session :: "nat \<Rightarrow> (live_session \<Rightarrow> live_session) \<Rightarrow> 'w server \<Rightarrow> 'w server" where
  "upd_session i f sv = sv\<lparr>sv_objects := (sv_objects sv)[i := f (sv_objects sv ! i)]\<rparr>"

definition upd_pending :: "nat \<Rightarrow> (pending_compile \<Rightarrow> pending_compile) \<Rightarrow> 'w server \<Rightarrow> 'w server" where
  "upd_pending p f sv = sv\<lparr>sv_pendings := (sv_pendings sv)[p := f (sv_pendings sv ! p)]\<rparr>"

definition set_task :: "nat \<Rightarrow> compile_task \<Rightarrow> 'w server \<Rightarrow> 'w server" where
  "set_task k t sv = sv\<lparr>sv_tasks := (sv_tasks sv)[k := t]\<rparr>"

definition set_waiter :: "nat \<Rightarrow> wait_phase \<Rightarrow> 'w server \<Rightarrow> 'w server" where
  "set_waiter i ph sv = sv\<lparr>sv_waiters := (sv_waiters sv)[i := (sv_waiters sv ! i)\<lparr>wt_phase := ph\<rparr>]\<rparr>"

definition send :: "message \<Rightarrow> 'w server \<Rightarrow> 'w server" where
  "send m sv = sv\<lparr>sv_out := sv_out sv @ [m]\<rparr>"

text \<open>\<open>on_indexing_needed\<close> and the calls of \<open>indexer.schedule()\<close>.\<close>

definition schedule_indexing :: "'w server_env \<Rightarrow> 'w server \<Rightarrow> 'w server" where
  "schedule_indexing env sv =
     sv\<lparr>sv_sched := schedule (enable_indexing (cfg_project (sv_config sv)) = Some True) (se_accepts env) (sv_sched sv)\<rparr>"

section \<open>Sessions\<close>

definition find_session :: "'w server \<Rightarrow> u32 \<Rightarrow> nat option" where
  "find_session sv p = map_of (sv_sessions sv) p"

definition open_session :: "u32 \<Rightarrow> 'w server \<Rightarrow> 'w server \<times> nat" where
  "open_session p sv =
     (let sv1 = (case find_session sv p of
                   None \<Rightarrow> sv
                 | Some i \<Rightarrow> upd_session i (\<lambda>s. s\<lparr>ls_generation := ls_generation s + 1\<rparr>) sv);
          i = length (sv_objects sv1)
      in (sv1\<lparr>sv_objects := sv_objects sv1 @ [new_session\<lparr>ls_path_id := p\<rparr>],
              sv_sessions := AList.update p i (sv_sessions sv1)\<rparr>, i))"

text \<open>The handlers name a file by the path of its URI and intern it.\<close>

definition intern_path :: "string \<Rightarrow> 'w server \<Rightarrow> 'w server \<times> u32" where
  "intern_path path sv =
     (case intern path (wk_pool (sv_ws sv)) of (pool, p) \<Rightarrow> (sv\<lparr>sv_ws := (sv_ws sv)\<lparr>wk_pool := pool\<rparr>\<rparr>, p))"

definition did_open :: "'w server_env \<Rightarrow> string \<Rightarrow> int \<Rightarrow> string \<Rightarrow> 'w server \<Rightarrow> 'w server" where
  "did_open env path version text sv =
     (if sv_lifecycle sv \<noteq> Ready then sv
      else case intern_path path sv of (sv0, p) \<Rightarrow>
        case open_session p sv0 of (sv1, i) \<Rightarrow>
          upd_session i (\<lambda>s. s\<lparr>ls_version := version, ls_text := text,
              ls_line_starts := env_line_starts (se_index env) text, ls_generation := ls_generation s + 1\<rparr>) sv1)"

datatype text_change = Whole string | Ranged position position string

text \<open>\<open>std::string::replace\<close>, in range because the offsets of the line map are.\<close>

definition apply_change :: "'w server_env \<Rightarrow> text_change \<Rightarrow> live_session \<Rightarrow> live_session" where
  "apply_change env c s =
     (let text = (case c of
                    Whole t \<Rightarrow> t
                  | Ranged from til t \<Rightarrow>
                      case (env_to_offset (se_index env) (ls_text s) (ls_line_starts s) from,
                            env_to_offset (se_index env) (ls_text s) (ls_line_starts s) til) of
                        (Some a, Some b) \<Rightarrow>
                          if a \<le> b then take (unat a) (ls_text s) @ t @ drop (unat b) (ls_text s) else ls_text s
                      | _ \<Rightarrow> ls_text s)
      in s\<lparr>ls_text := text, ls_line_starts := env_line_starts (se_index env) text\<rparr>)"

definition change_session :: "'w server_env \<Rightarrow> u32 \<Rightarrow> int \<Rightarrow> text_change list \<Rightarrow> 'w server \<Rightarrow> 'w server" where
  "change_session env p version changes sv =
     (case find_session sv p of
        None \<Rightarrow> sv
      | Some i \<Rightarrow>
          send (DocumentUpdate p version)
            (upd_session i (\<lambda>s. (fold (apply_change env) changes (s\<lparr>ls_version := version\<rparr>))
               \<lparr>ls_generation := ls_generation s + 1, ls_ast_dirty := True\<rparr>) sv))"

definition did_change :: "'w server_env \<Rightarrow> string \<Rightarrow> int \<Rightarrow> text_change list \<Rightarrow> 'w server \<Rightarrow> 'w server" where
  "did_change env path version changes sv =
     (if sv_lifecycle sv \<noteq> Ready then sv
      else case intern_path path sv of (sv0, p) \<Rightarrow> change_session env p version changes sv0)"

definition uri_of :: "'w server_env \<Rightarrow> string \<Rightarrow> string" where
  "uri_of env path = (case env_uri (se_index env) path of None \<Rightarrow> path | Some u \<Rightarrow> u)"

definition enqueue_file :: "u32 \<Rightarrow> 'w server \<Rightarrow> 'w server" where
  "enqueue_file p sv = sv\<lparr>sv_sched := enqueue p (sv_sched sv)\<rparr>"

text \<open>The diagnostics of a path without a URI are cleared under the empty URI.\<close>

definition close_session :: "'w server_env \<Rightarrow> u32 \<Rightarrow> 'w server \<Rightarrow> 'w server" where
  "close_session env p sv0 =
     (let path = path_of (wk_pool (sv_ws sv0)) p;
          sv = send (ClearDiagnostics (case env_uri (se_index env) path of None \<Rightarrow> [] | Some u \<Rightarrow> u))
                 (send (EvictDocument p) (sv0\<lparr>sv_ws := ws_file_closed p (sv_ws sv0)\<rparr>));
          sv1 = (case find_session sv p of
                   None \<Rightarrow> sv
                 | Some i \<Rightarrow> (upd_session i (\<lambda>s. s\<lparr>ls_generation := ls_generation s + 1\<rparr>) sv)
                               \<lparr>sv_sessions := AList.delete p (sv_sessions sv)\<rparr>)
      in schedule_indexing env (enqueue_file p sv1))"

definition did_close :: "'w server_env \<Rightarrow> string \<Rightarrow> 'w server \<Rightarrow> 'w server" where
  "did_close env path sv =
     (if sv_lifecycle sv \<noteq> Ready then sv
      else case intern_path path sv of (sv0, p) \<Rightarrow> close_session env p sv0)"

text \<open>The first loop of \<open>on_file_saved\<close>, and the second, whose loop variable hides the path that was saved.\<close>

definition mark_dirtied :: "u32 \<Rightarrow> 'w server \<Rightarrow> 'w server" where
  "mark_dirtied d sv =
     (case find_session sv d of
        Some i \<Rightarrow> upd_session i (\<lambda>s. s\<lparr>ls_ast_dirty := True\<rparr>) sv
      | None \<Rightarrow> enqueue_file d sv)"

definition drop_header_context :: "u32 \<times> nat \<Rightarrow> 'w server \<Rightarrow> 'w server" where
  "drop_header_context e sv =
     (case e of (own, i) \<Rightarrow>
        case ls_header_context (sv_objects sv ! i) of
          None \<Rightarrow> sv
        | Some ctx \<Rightarrow>
            if host_path_id ctx = own
            then upd_session i (\<lambda>s. s\<lparr>ls_header_context := None, ls_ast_dirty := True\<rparr>) sv else sv)"

definition on_file_saved :: "'w server_env \<Rightarrow> u32 \<Rightarrow> 'w server \<Rightarrow> 'w server" where
  "on_file_saved env p sv =
     (case ws_file_saved (ae_ws (se_args env)) (sv_world sv) p (sv_ws sv) of (ws, dirtied) \<Rightarrow>
        let sv1 = fold mark_dirtied dirtied (sv\<lparr>sv_ws := ws\<rparr>);
            sv2 = fold drop_header_context (sv_sessions sv1) sv1
        in schedule_indexing env sv2)"

definition did_save :: "'w server_env \<Rightarrow> string \<Rightarrow> 'w server \<Rightarrow> 'w server" where
  "did_save env path sv =
     (if sv_lifecycle sv \<noteq> Ready then sv
      else case intern_path path sv of (sv0, p) \<Rightarrow> on_file_saved env p sv0)"

text \<open>The crash callback for a stateful worker.\<close>

definition on_crash :: "u32 list \<Rightarrow> 'w server \<Rightarrow> 'w server" where
  "on_crash lost sv =
     fold (\<lambda>p sv. case find_session sv p of None \<Rightarrow> sv | Some i \<Rightarrow> upd_session i (\<lambda>s. s\<lparr>ls_ast_dirty := True\<rparr>) sv) lost sv"

text \<open>\<open>clice/switchContext\<close>. The answer is \<open>None\<close> when the database lookup throws.\<close>

definition use_context :: "u32 \<Rightarrow> u32 \<Rightarrow> 'w server \<Rightarrow> 'w server \<times> bool" where
  "use_context p c sv =
     (case find_session sv p of
        None \<Rightarrow> (sv, False)
      | Some i \<Rightarrow>
          (upd_session i (\<lambda>s. s\<lparr>ls_active_context := Some c, ls_header_context := None, ls_pch_ref := None,
               ls_ast_deps := None, ls_ast_dirty := True\<rparr>) sv, True))"

definition switch_context :: "'w server_env \<Rightarrow> string \<Rightarrow> string \<Rightarrow> 'w server \<Rightarrow> 'w server \<times> bool option" where
  "switch_context env path context sv =
     (let (sv1, p) = intern_path path sv; (sv2, c) = intern_path context sv1;
          (db, r) = db_lookup (ae_cmd (se_args env)) context default_options (sv_db sv2);
          sv3 = sv2\<lparr>sv_db := db\<rparr>
      in case r of
           None \<Rightarrow> (sv3\<lparr>sv_aborted := True\<rparr>, None)
         | Some [] \<Rightarrow> (sv3, Some False)
         | Some _ \<Rightarrow> (case use_context p c sv3 of (sv4, ok) \<Rightarrow> (sv4, Some ok)))"

section \<open>Compiling\<close>

definition is_stale :: "'w server_env \<Rightarrow> 'w server \<Rightarrow> live_session \<Rightarrow> bool" where
  "is_stale env sv s \<longleftrightarrow>
     (case ls_ast_deps s of None \<Rightarrow> False | Some d \<Rightarrow> deps_changed (ae_ws (se_args env)) (sv_world sv) (wk_pool (sv_ws sv)) d)
     \<or> (case ls_pch_ref s of
          None \<Rightarrow> False
        | Some r \<Rightarrow> case map_of (wk_pch (sv_ws sv)) (ref_path_id r) of
                      None \<Rightarrow> False
                    | Some st \<Rightarrow> deps_changed (ae_ws (se_args env)) (sv_world sv) (wk_pool (sv_ws sv)) (pch_deps st))"

definition finish_compile :: "nat \<Rightarrow> nat \<Rightarrow> 'w server \<Rightarrow> 'w server" where
  "finish_compile i p sv =
     upd_pending p (\<lambda>c. c\<lparr>pc_done := True\<rparr>)
       (if ls_compiling (sv_objects sv ! i) = Some p then upd_session i (\<lambda>s. s\<lparr>ls_compiling := None\<rparr>) sv else sv)"

text \<open>The arguments of a session, with what finding them changes.\<close>

definition session_args :: "'w server_env \<Rightarrow> nat \<Rightarrow> 'w server \<Rightarrow> 'w server \<times> (string \<times> string list) fill_result" where
  "session_args env i sv =
     (let s = sv_objects sv ! i in
      case fill_compile_args (se_args env) (sv_config sv) (wk_deps (sv_ws sv)) (path_of (wk_pool (sv_ws sv)) (ls_path_id s))
             (Some (ls_active_context s))
             \<lparr>fs_db = sv_db sv, fs_pool = wk_pool (sv_ws sv), fs_world = sv_world sv, fs_header = ls_header_context s\<rparr> of
        (st, r) \<Rightarrow>
          (upd_session i (\<lambda>s. s\<lparr>ls_header_context := fs_header st\<rparr>)
             (sv\<lparr>sv_db := fs_db st, sv_ws := (sv_ws sv)\<lparr>wk_pool := fs_pool st\<rparr>, sv_world := fs_world st,
                 sv_aborted := sv_aborted sv \<or> r = Throws\<rparr>), r))"

text \<open>\<open>run_compile\<close> up to its first suspension. The spawned task runs at once, as the comment at the call says.\<close>

definition run_compile :: "'w server_env \<Rightarrow> nat \<Rightarrow> nat \<Rightarrow> 'w server \<Rightarrow> 'w server" where
  "run_compile env i p sv =
     (let s = sv_objects sv ! i in
      case session_args env i sv of
        (sv1, Gives (dir, args)) \<Rightarrow>
          sv1\<lparr>sv_tasks := sv_tasks sv1 @
            [\<lparr>ct_session = i, ct_pending = p, ct_gen = ls_generation s,
              ct_params = \<lparr>cq_path = path_of (wk_pool (sv_ws sv)) (ls_path_id s), cq_version = ls_version s, cq_text = ls_text s,
                cq_directory = dir, cq_arguments = args, cq_pch = ([], 0), cq_pcms = []\<rparr>,
              ct_phase = Preparing\<rparr>]\<rparr>
      | (sv1, Fails) \<Rightarrow> finish_compile i p sv1
      | (sv1, Throws) \<Rightarrow> sv1)"

text \<open>\<open>ensure_deps\<close> of task \<open>k\<close> has ended with \<open>ok\<close>, having filled in the precompiled header and the modules.\<close>

definition deps_ready :: "nat \<Rightarrow> bool \<Rightarrow> string \<times> u32 \<Rightarrow> (string \<times> string) list \<Rightarrow> 'w server \<Rightarrow> 'w server" where
  "deps_ready k ok pch pcms sv =
     (let t = sv_tasks sv ! k; i = ct_session t; p = ct_pending t;
          sv1 = upd_pending p (\<lambda>c. c\<lparr>pc_deps_done := True\<rparr>) sv
      in if \<not> ok \<or> ls_generation (sv_objects sv1 ! i) \<noteq> ct_gen t
         then finish_compile i p (set_task k (t\<lparr>ct_phase := Over\<rparr>) sv1)
         else set_task k (t\<lparr>ct_phase := Sending, ct_params := (ct_params t)\<lparr>cq_pch := pch, cq_pcms := pcms\<rparr>\<rparr>) sv1)"

definition store_result :: "'w server_env \<Rightarrow> compile_result \<Rightarrow> nat \<Rightarrow> 'w server \<Rightarrow> 'w server" where
  "store_result env r i sv =
     (case capture_deps_snapshot (ae_ws (se_args env)) (sv_world sv) (sv_world sv) (cr_deps r) (wk_pool (sv_ws sv)) of
        (pool, snap) \<Rightarrow>
          upd_session i (\<lambda>s. (case cr_index r of
                                None \<Rightarrow> s
                              | Some (fi, symbs) \<Rightarrow> s\<lparr>ls_file_index := Some fi, ls_symbols := Some symbs\<rparr>)
                             \<lparr>ls_ast_dirty := False, ls_ast_deps := Some snap\<rparr>)
            (sv\<lparr>sv_ws := (sv_ws sv)\<lparr>wk_pool := pool\<rparr>\<rparr>))"

text \<open>The worker has answered task \<open>k\<close>; \<open>None\<close> is an error.\<close>

definition compile_answered :: "'w server_env \<Rightarrow> nat \<Rightarrow> compile_result option \<Rightarrow> 'w server \<Rightarrow> 'w server" where
  "compile_answered env k result sv0 =
     (let t = sv_tasks sv0 ! k; i = ct_session t; p = ct_pending t; sv = set_task k (t\<lparr>ct_phase := Over\<rparr>) sv0;
          uri = uri_of env (cq_path (ct_params t))
      in if ls_generation (sv_objects sv ! i) \<noteq> ct_gen t then finish_compile i p sv
         else case result of
                None \<Rightarrow> finish_compile i p (send (ClearDiagnostics uri) sv)
              | Some r \<Rightarrow>
                  let sv1 = finish_compile i p (store_result env r i (upd_pending p (\<lambda>c. c\<lparr>pc_succeeded := True\<rparr>) sv))
                  in schedule_indexing env (send (Publish uri (ls_version (sv_objects sv ! i)) (cr_diagnostics r)) sv1))"

text \<open>\<open>ensure_compiled\<close>: starting a compile, the loop, the entry, and what happens after a wait.\<close>

definition launch_compile :: "'w server_env \<Rightarrow> nat \<Rightarrow> 'w server \<Rightarrow> 'w server \<times> nat" where
  "launch_compile env i sv =
     (let s = sv_objects sv ! i; superseded = ls_compiling s; p = length (sv_pendings sv);
          sv1 = upd_session i (\<lambda>s. s\<lparr>ls_compiling := Some p\<rparr>)
            (sv\<lparr>sv_pendings := sv_pendings sv @
               [\<lparr>pc_done = False, pc_succeeded = False, pc_generation = ls_generation s, pc_deps_done = False, pc_cancelled = False\<rparr>]\<rparr>);
          sv2 = run_compile env i p sv1
      in ((case superseded of None \<Rightarrow> sv2 | Some q \<Rightarrow> upd_pending q (\<lambda>c. c\<lparr>pc_cancelled := True\<rparr>) sv2), p))"

definition ensure_loop :: "'w server_env \<Rightarrow> nat \<Rightarrow> nat \<Rightarrow> 'w server \<Rightarrow> 'w server \<times> wait_phase" where
  "ensure_loop env i gen sv =
     (let s = sv_objects sv ! i in
      case ls_compiling s of
        Some p \<Rightarrow>
          if pc_generation (sv_pendings sv ! p) \<noteq> ls_generation s \<and> \<not> pc_deps_done (sv_pendings sv ! p)
          then (case launch_compile env i sv of (sv1, q) \<Rightarrow> (sv1, WaitFinal q))
          else (sv, WaitLoop p)
      | None \<Rightarrow>
          if ls_generation s \<noteq> gen then (sv, Returned False)
          else (case launch_compile env i sv of (sv1, q) \<Rightarrow> (sv1, WaitFinal q)))"

definition ensure_compiled :: "'w server_env \<Rightarrow> nat \<Rightarrow> 'w server \<Rightarrow> 'w server" where
  "ensure_compiled env i sv =
     (let s = sv_objects sv ! i; gen = ls_generation s;
          (sv1, ph) =
            (if \<not> ls_ast_dirty s \<and> \<not> is_stale env sv s then (sv, Returned True)
             else ensure_loop env i gen (upd_session i (\<lambda>s. s\<lparr>ls_ast_dirty := True\<rparr>) sv))
      in sv1\<lparr>sv_waiters := sv_waiters sv1 @ [\<lparr>wt_session = i, wt_gen = gen, wt_phase = ph\<rparr>]\<rparr>)"

definition waiter_woken :: "'w server_env \<Rightarrow> nat \<Rightarrow> 'w server \<Rightarrow> 'w server" where
  "waiter_woken env j sv =
     (let wt = sv_waiters sv ! j; i = wt_session wt; dirty = ls_ast_dirty (sv_objects sv ! i) in
      case wt_phase wt of
        WaitLoop p \<Rightarrow>
          if \<not> dirty then set_waiter j (Returned True) sv
          else (case ensure_loop env i (wt_gen wt) sv of (sv1, ph) \<Rightarrow> set_waiter j ph sv1)
      | WaitFinal p \<Rightarrow> set_waiter j (Returned (\<not> dirty)) sv
      | _ \<Rightarrow> sv)"

end
