(* ===== verification/Session_Props.thy ===== *)
theory Session_Props
  imports Session_State
begin

text \<open>
  The protocol of \<open>Session_State\<close> as a transition system: notifications of the editor, feature
  requests, the suspended compiles and waits, and the rest of the program interleave in any order.
  The invariant ties every compile in flight to the session, the text and the pending object it was
  started for.
\<close>

section \<open>Steps\<close>

text \<open>\<open>W q r\<close>: the worker may answer \<open>r\<close> to the request \<open>q\<close>.\<close>

inductive server_step :: "'w server_env \<Rightarrow> (compile_params \<Rightarrow> compile_result option \<Rightarrow> bool) \<Rightarrow> 'w server \<Rightarrow> 'w server \<Rightarrow> bool"
  for env :: "'w server_env" and W :: "compile_params \<Rightarrow> compile_result option \<Rightarrow> bool" where
  step_open: "\<not> sv_aborted sv \<Longrightarrow> server_step env W sv (did_open env path version text sv)"
| step_change: "\<not> sv_aborted sv \<Longrightarrow> server_step env W sv (did_change env path version changes sv)"
| step_close: "\<not> sv_aborted sv \<Longrightarrow> server_step env W sv (did_close env path sv)"
| step_save: "\<not> sv_aborted sv \<Longrightarrow> server_step env W sv (did_save env path sv)"
| step_crash: "\<not> sv_aborted sv \<Longrightarrow> server_step env W sv (on_crash lost sv)"
| step_switch: "\<not> sv_aborted sv \<Longrightarrow> server_step env W sv (fst (switch_context env path cpath sv))"
| step_request: "\<not> sv_aborted sv \<Longrightarrow> find_session sv p = Some i \<Longrightarrow> server_step env W sv (ensure_compiled env i sv)"
| step_args: "\<not> sv_aborted sv \<Longrightarrow> i < length (sv_objects sv) \<Longrightarrow> server_step env W sv (fst (session_args env i sv))"
| step_pch: "\<not> sv_aborted sv \<Longrightarrow> i < length (sv_objects sv) \<Longrightarrow>
    server_step env W sv (upd_session i (\<lambda>s. s\<lparr>ls_pch_ref := r\<rparr>) sv)"
| step_deps: "\<not> sv_aborted sv \<Longrightarrow> k < length (sv_tasks sv) \<Longrightarrow> ct_phase (sv_tasks sv ! k) = Preparing \<Longrightarrow>
    server_step env W sv (deps_ready k ok pch pcms sv)"
| step_answer: "\<not> sv_aborted sv \<Longrightarrow> k < length (sv_tasks sv) \<Longrightarrow> ct_phase (sv_tasks sv ! k) = Sending \<Longrightarrow>
    W (ct_params (sv_tasks sv ! k)) r \<Longrightarrow> server_step env W sv (compile_answered env k r sv)"
| step_wake: "\<not> sv_aborted sv \<Longrightarrow> j < length (sv_waiters sv) \<Longrightarrow>
    wt_phase (sv_waiters sv ! j) = WaitLoop p \<or> wt_phase (sv_waiters sv ! j) = WaitFinal p \<Longrightarrow>
    pc_done (sv_pendings sv ! p) \<Longrightarrow> server_step env W sv (waiter_woken env j sv)"
| step_abandon: "\<not> sv_aborted sv \<Longrightarrow> j < length (sv_waiters sv) \<Longrightarrow>
    wt_phase (sv_waiters sv ! j) = WaitLoop p \<or> wt_phase (sv_waiters sv ! j) = WaitFinal p \<Longrightarrow>
    server_step env W sv (set_waiter j Abandoned sv)"
| step_rest: "\<not> sv_aborted sv \<Longrightarrow>
    server_step env W sv (sv\<lparr>sv_lifecycle := lc, sv_config := cfg, sv_db := db, sv_ws := ws, sv_world := w, sv_sched := sc, sv_out := out\<rparr>)"

definition server_start :: "'w server \<Rightarrow> bool" where
  "server_start sv \<longleftrightarrow> sv_sessions sv = [] \<and> sv_objects sv = [] \<and> sv_pendings sv = [] \<and> sv_tasks sv = [] \<and> sv_waiters sv = []"

section \<open>The invariant\<close>

definition live :: "compile_task \<Rightarrow> bool" where
  "live t \<longleftrightarrow> ct_phase t \<noteq> Over"

text \<open>What a compile in flight and the session it is for know of each other.\<close>

definition in_step :: "live_session \<Rightarrow> pending_compile \<Rightarrow> compile_task \<Rightarrow> bool" where
  "in_step s c t \<longleftrightarrow>
     \<not> pc_done c \<and> pc_generation c = ct_gen t \<and> (ct_phase t = Sending \<longleftrightarrow> pc_deps_done c) \<and> ct_gen t \<le> ls_generation s
     \<and> (ct_phase t = Sending \<longrightarrow> ls_compiling s = Some (ct_pending t))
     \<and> (ls_compiling s \<noteq> Some (ct_pending t) \<longrightarrow> ct_gen t < ls_generation s)
     \<and> (ct_gen t = ls_generation s \<longrightarrow> cq_text (ct_params t) = ls_text s \<and> cq_version (ct_params t) = ls_version s)"

definition task_ok :: "live_session list \<Rightarrow> pending_compile list \<Rightarrow> compile_task \<Rightarrow> bool" where
  "task_ok os ps t \<longleftrightarrow>
     ct_session t < length os \<and> ct_pending t < length ps
     \<and> (live t \<longrightarrow> in_step (os ! ct_session t) (ps ! ct_pending t) t)"

text \<open>The session holds what a worker answered for exactly its text and version.\<close>

definition compiled :: "(compile_params \<Rightarrow> compile_result option \<Rightarrow> bool) \<Rightarrow> live_session \<Rightarrow> bool" where
  "compiled W s \<longleftrightarrow>
     (\<exists>q r. W q (Some r) \<and> cq_text q = ls_text s \<and> cq_version q = ls_version s
        \<and> (\<forall>fi symbs. cr_index r = Some (fi, symbs) \<longrightarrow> ls_file_index s = Some fi \<and> ls_symbols s = Some symbs))"

lemma compiled_upd [simp]:
  "compiled W (s\<lparr>ls_compiling := x\<rparr>) = compiled W s" "compiled W (s\<lparr>ls_header_context := h\<rparr>) = compiled W s"
  "compiled W (s\<lparr>ls_ast_dirty := b\<rparr>) = compiled W s" "compiled W (s\<lparr>ls_ast_deps := d\<rparr>) = compiled W s"
  by (simp_all add: compiled_def)

definition session_ok :: "(compile_params \<Rightarrow> compile_result option \<Rightarrow> bool) \<Rightarrow> compile_task list \<Rightarrow> nat \<Rightarrow> live_session \<Rightarrow> bool" where
  "session_ok W ts i s \<longleftrightarrow>
     (\<forall>p. ls_compiling s = Some p \<longrightarrow> (\<exists>t\<in>set ts. live t \<and> ct_pending t = p \<and> ct_session t = i))
     \<and> (ls_ast_dirty s \<or> compiled W s)"

definition pending_ok :: "compile_task list \<Rightarrow> nat \<Rightarrow> pending_compile \<Rightarrow> bool" where
  "pending_ok ts p c \<longleftrightarrow> pc_done c \<or> (\<exists>t\<in>set ts. live t \<and> ct_pending t = p)"

definition compile_inv :: "(compile_params \<Rightarrow> compile_result option \<Rightarrow> bool) \<Rightarrow> live_session list \<Rightarrow> pending_compile list \<Rightarrow> compile_task list \<Rightarrow> bool" where
  "compile_inv W os ps ts \<longleftrightarrow>
     (\<forall>t\<in>set ts. task_ok os ps t) \<and> (\<forall>i<length os. session_ok W ts i (os ! i))
     \<and> (\<forall>p<length ps. pending_ok ts p (ps ! p)) \<and> distinct (map ct_pending ts)"

definition waiter_ok :: "nat \<Rightarrow> nat \<Rightarrow> waiter \<Rightarrow> bool" where
  "waiter_ok n m wt \<longleftrightarrow> wt_session wt < n
     \<and> (case wt_phase wt of WaitLoop p \<Rightarrow> p < m | WaitFinal p \<Rightarrow> p < m | _ \<Rightarrow> True)"

definition server_inv :: "(compile_params \<Rightarrow> compile_result option \<Rightarrow> bool) \<Rightarrow> 'w server \<Rightarrow> bool" where
  "server_inv W sv \<longleftrightarrow>
     compile_inv W (sv_objects sv) (sv_pendings sv) (sv_tasks sv)
     \<and> distinct (map fst (sv_sessions sv)) \<and> (\<forall>e\<in>set (sv_sessions sv). snd e < length (sv_objects sv))
     \<and> (\<forall>wt\<in>set (sv_waiters sv). waiter_ok (length (sv_objects sv)) (length (sv_pendings sv)) wt)"

subsection \<open>Changing a session\<close>

text \<open>A change that a compile in flight may meet: it leaves the pending object alone, and either
  keeps the text and the version or moves to a later generation; it never cleans the session.\<close>

definition keeps :: "live_session \<Rightarrow> live_session \<Rightarrow> bool" where
  "keeps s s' \<longleftrightarrow>
     ls_compiling s' = ls_compiling s
     \<and> (ls_generation s < ls_generation s' \<and> (ls_ast_dirty s' \<or> ls_text s' = ls_text s \<and> ls_version s' = ls_version s)
        \<or> ls_generation s' = ls_generation s \<and> ls_text s' = ls_text s \<and> ls_version s' = ls_version s)
     \<and> (ls_ast_dirty s' \<or> \<not> ls_ast_dirty s \<and> ls_file_index s' = ls_file_index s \<and> ls_symbols s' = ls_symbols s)"

lemma in_step_keeps: "in_step s c t \<Longrightarrow> keeps s s' \<Longrightarrow> in_step s' c t"
  by (auto simp: in_step_def keeps_def)

lemma session_ok_keeps: "session_ok W ts i s \<Longrightarrow> keeps s s' \<Longrightarrow> session_ok W ts i s'"
proof -
  assume "session_ok W ts i s" and k: "keeps s s'"
  moreover have "compiled W s' = compiled W s" if "\<not> ls_ast_dirty s'"
  proof -
    have "ls_text s' = ls_text s" "ls_version s' = ls_version s" "ls_file_index s' = ls_file_index s" "ls_symbols s' = ls_symbols s"
      using k that by (auto simp: keeps_def)
    then show ?thesis by (simp add: compiled_def)
  qed
  ultimately show ?thesis by (auto simp: session_ok_def keeps_def)
qed

lemma compile_inv_keeps:
  assumes inv: "compile_inv W os ps ts" and k: "i < length os \<Longrightarrow> keeps (os ! i) s'"
  shows "compile_inv W (os[i := s']) ps ts"
proof (cases "i < length os")
  case True
  have "task_ok (os[i := s']) ps t" if "t \<in> set ts" for t
    using inv that k [OF True] True
    by (auto simp: compile_inv_def task_ok_def nth_list_update intro: in_step_keeps)
  moreover have "session_ok W ts j (os[i := s'] ! j)" if "j < length os" for j
    using inv that k [OF True] True by (auto simp: compile_inv_def nth_list_update intro: session_ok_keeps)
  ultimately show ?thesis using inv by (simp add: compile_inv_def)
next
  case False
  then show ?thesis using inv by (simp add: list_update_beyond)
qed

lemma compile_inv_new_session:
  assumes inv: "compile_inv W os ps ts" and s: "ls_compiling s = None" "ls_ast_dirty s"
  shows "compile_inv W (os @ [s]) ps ts"
proof -
  have "task_ok (os @ [s]) ps t" if "t \<in> set ts" for t
    using inv that by (auto simp: compile_inv_def task_ok_def nth_append)
  moreover have "session_ok W ts j ((os @ [s]) ! j)" if "j < Suc (length os)" for j
    using inv s that by (auto simp: compile_inv_def nth_append session_ok_def less_Suc_eq)
  ultimately show ?thesis using inv by (simp add: compile_inv_def)
qed

subsection \<open>Starting, moving on and ending a compile\<close>

lemma distinct_pending_update:
  "distinct (map ct_pending ts) \<Longrightarrow> ct_pending t' = ct_pending (ts ! k) \<Longrightarrow> distinct (map ct_pending (ts[k := t']))"
  by (metis length_map linorder_not_le list_update_beyond list_update_id map_update nth_map)

lemma other_pending:
  "distinct (map ct_pending ts) \<Longrightarrow> k < length ts \<Longrightarrow> l < length ts \<Longrightarrow> l \<noteq> k \<Longrightarrow> ct_pending (ts ! l) \<noteq> ct_pending (ts ! k)"
  by (metis length_map nth_eq_iff_index_eq nth_map)

lemma compile_inv_flags:
  assumes inv: "compile_inv W os ps ts"
    and c: "pc_done c' = pc_done (ps ! q)" "pc_generation c' = pc_generation (ps ! q)" "pc_deps_done c' = pc_deps_done (ps ! q)"
  shows "compile_inv W os (ps[q := c']) ts"
proof (cases "q < length ps")
  case True
  have "task_ok os (ps[q := c']) t" if "t \<in> set ts" for t
    using inv that c True by (auto simp: compile_inv_def task_ok_def in_step_def nth_list_update)
  moreover have "pending_ok ts p (ps[q := c'] ! p)" if "p < length ps" for p
    using inv that c True by (auto simp: compile_inv_def pending_ok_def nth_list_update)
  ultimately show ?thesis using inv by (simp add: compile_inv_def)
qed (use inv in \<open>simp add: list_update_beyond\<close>)

text \<open>A new compile may start when the one in flight, if any, is out of date and has not been sent.\<close>

definition may_launch :: "live_session \<Rightarrow> pending_compile list \<Rightarrow> bool" where
  "may_launch s ps \<longleftrightarrow> (\<forall>q. ls_compiling s = Some q \<longrightarrow> pc_generation (ps ! q) \<noteq> ls_generation s \<and> \<not> pc_deps_done (ps ! q))"

definition same_text :: "live_session \<Rightarrow> live_session \<Rightarrow> bool" where
  "same_text s s' \<longleftrightarrow> ls_generation s' = ls_generation s \<and> ls_text s' = ls_text s \<and> ls_version s' = ls_version s"

lemma in_step_superseded:
  "in_step s (ps ! ct_pending t) t \<Longrightarrow> may_launch s ps \<Longrightarrow> same_text s s' \<Longrightarrow> in_step s' (ps ! ct_pending t) t"
  by (auto simp: in_step_def may_launch_def same_text_def)

lemma task_ok_superseded:
  assumes "task_ok os ps t" and "may_launch (os ! i) ps" and "same_text (os ! i) s'" and "i < length os"
  shows "task_ok (os[i := s']) (ps @ [c]) t"
  using assms by (auto simp: task_ok_def nth_append nth_list_update intro: in_step_superseded)

lemma compile_inv_launch:
  assumes inv: "compile_inv W os ps ts" and i: "i < length os" and l: "may_launch (os ! i) ps" and s: "same_text (os ! i) s'"
    and s': "ls_compiling s' = Some (length ps)" "ls_ast_dirty s' \<or> compiled W s'"
    and c: "\<not> pc_done c" "pc_generation c = ls_generation s'" "\<not> pc_deps_done c"
    and t: "ct_session t = i" "ct_pending t = length ps" "ct_gen t = ls_generation s'" "ct_phase t = Preparing"
      "cq_text (ct_params t) = ls_text s'" "cq_version (ct_params t) = ls_version s'"
  shows "compile_inv W (os[i := s']) (ps @ [c]) (ts @ [t])"
proof -
  have old: "task_ok os ps u" if "u \<in> set ts" for u using inv that by (simp add: compile_inv_def)
  have "task_ok (os[i := s']) (ps @ [c]) u" if "u \<in> set (ts @ [t])" for u
    using that task_ok_superseded [OF old l s i] t c s' i
    by (auto simp: task_ok_def in_step_def live_def)
  moreover have "session_ok W (ts @ [t]) j (os[i := s'] ! j)" if "j < length os" for j
    using inv that i s' t by (auto simp: compile_inv_def session_ok_def live_def nth_list_update)
  moreover have "pending_ok (ts @ [t]) p ((ps @ [c]) ! p)" if "p < Suc (length ps)" for p
    using inv that t by (auto simp: compile_inv_def pending_ok_def live_def nth_append less_Suc_eq)
  moreover have "distinct (map ct_pending (ts @ [t]))"
  proof -
    have "ct_pending u \<noteq> length ps" if "u \<in> set ts" for u using old [OF that] by (simp add: task_ok_def)
    then have "length ps \<notin> ct_pending ` set ts" by force
    then show ?thesis using inv t by (simp add: compile_inv_def)
  qed
  ultimately show ?thesis by (simp add: compile_inv_def)
qed

lemma compile_inv_no_launch:
  assumes inv: "compile_inv W os ps ts" and i: "i < length os" and l: "may_launch (os ! i) ps" and s: "same_text (os ! i) s'"
    and s': "ls_compiling s' = None" "ls_ast_dirty s' \<or> compiled W s'" and c: "pc_done c"
  shows "compile_inv W (os[i := s']) (ps @ [c]) ts"
proof -
  have "task_ok (os[i := s']) (ps @ [c]) u" if "u \<in> set ts" for u
    using inv that l s i by (intro task_ok_superseded) (auto simp: compile_inv_def)
  moreover have "session_ok W ts j (os[i := s'] ! j)" if "j < length os" for j
    using inv that i s' by (auto simp: compile_inv_def session_ok_def nth_list_update)
  moreover have "pending_ok ts p ((ps @ [c]) ! p)" if "p < Suc (length ps)" for p
    using inv that c by (auto simp: compile_inv_def pending_ok_def nth_append less_Suc_eq)
  ultimately show ?thesis using inv by (simp add: compile_inv_def)
qed

lemma compile_inv_sending:
  assumes inv: "compile_inv W os ps ts" and k: "k < length ts" "live (ts ! k)"
    and g: "ls_generation (os ! ct_session (ts ! k)) = ct_gen (ts ! k)"
    and c: "pc_done c' = pc_done (ps ! ct_pending (ts ! k))" "pc_generation c' = pc_generation (ps ! ct_pending (ts ! k))" "pc_deps_done c'"
    and t: "ct_session t' = ct_session (ts ! k)" "ct_pending t' = ct_pending (ts ! k)" "ct_gen t' = ct_gen (ts ! k)" "ct_phase t' = Sending"
      "cq_text (ct_params t') = cq_text (ct_params (ts ! k))" "cq_version (ct_params t') = cq_version (ct_params (ts ! k))"
  shows "compile_inv W os (ps[ct_pending (ts ! k) := c']) (ts[k := t'])"
proof -
  let ?p = "ct_pending (ts ! k)" and ?ts = "ts[k := t']"
  have d: "distinct (map ct_pending ts)" and ok: "\<And>u. u \<in> set ts \<Longrightarrow> task_ok os ps u"
    using inv by (simp_all add: compile_inv_def)
  have tk: "task_ok os ps (ts ! k)" using ok k by simp
  have moved: "\<exists>t\<in>set ?ts. live t \<and> ct_pending t = ct_pending u \<and> ct_session t = ct_session u" if "u \<in> set ts" "live u" for u
  proof (cases "u = ts ! k")
    case True
    then show ?thesis using k t by (intro bexI [of _ t']) (auto simp: live_def set_update_memI)
  next
    case False
    then show ?thesis using that in_set_update_other [of u ts k t'] by blast
  qed
  have "task_ok os (ps[?p := c']) (?ts ! l)" if l: "l < length ts" for l
  proof (cases "l = k")
    case True
    then show ?thesis using tk k g c t by (auto simp: task_ok_def in_step_def live_def)
  next
    case False
    then show ?thesis using ok [of "ts ! l"] other_pending [OF d k(1) l False] l by (auto simp: task_ok_def)
  qed
  moreover have "session_ok W ?ts j (os ! j)" if "j < length os" for j
    using inv that moved unfolding compile_inv_def session_ok_def by metis
  moreover have "pending_ok ?ts q (ps[?p := c'] ! q)" if "q < length ps" for q
    using inv that moved c tk unfolding compile_inv_def pending_ok_def task_ok_def by (metis nth_list_update)
  moreover have "distinct (map ct_pending ?ts)" by (rule distinct_pending_update [OF d t(2)])
  ultimately show ?thesis by (auto simp: compile_inv_def all_set_conv_all_nth)
qed

lemma in_step_over:
  assumes "in_step s c t" and "same_text s s'"
    and "ls_compiling s' = (if ls_compiling s = Some p then None else ls_compiling s)" and "ct_pending t \<noteq> p"
  shows "in_step s' c t"
  using assms by (auto simp: in_step_def same_text_def split: if_splits)

lemma compile_inv_over:
  assumes inv: "compile_inv W os ps ts" and k: "k < length ts" "live (ts ! k)"
    and i: "ct_session (ts ! k) = i" and p: "ct_pending (ts ! k) = p" and s: "same_text (os ! i) s'"
    and s': "ls_compiling s' = (if ls_compiling (os ! i) = Some p then None else ls_compiling (os ! i))" "ls_ast_dirty s' \<or> compiled W s'"
    and c: "pc_done c'" and t: "ct_session t' = i" "ct_pending t' = p" "ct_phase t' = Over"
  shows "compile_inv W (os[i := s']) (ps[p := c']) (ts[k := t'])"
proof -
  let ?ts = "ts[k := t']"
  have d: "distinct (map ct_pending ts)" and ok: "\<And>u. u \<in> set ts \<Longrightarrow> task_ok os ps u"
    using inv by (simp_all add: compile_inv_def)
  have tk: "task_ok os ps (ts ! k)" using ok k by simp
  have "task_ok (os[i := s']) (ps[p := c']) (?ts ! l)" if l: "l < length ts" for l
  proof (cases "l = k")
    case True
    then show ?thesis using tk k t i p by (auto simp: task_ok_def live_def)
  next
    case False
    have ne: "ct_pending (ts ! l) \<noteq> p" using other_pending [OF d k(1) l False] p by simp
    show ?thesis using ok [of "ts ! l"] l False ne in_step_over [OF _ s s'(1) ne]
      by (cases "ct_session (ts ! l) = i") (auto simp: task_ok_def)
  qed
  moreover have "session_ok W ?ts j (os[i := s'] ! j)" if j: "j < length os" for j
  proof (cases "j = i")
    case True
    have "u \<noteq> ts ! k" if "ls_compiling s' = Some (ct_pending u)" for u using s' that p by (auto split: if_splits)
    then show ?thesis using inv j True s' in_set_update_other [of _ ts k t']
      by (auto simp: compile_inv_def session_ok_def split: if_splits) blast+
  next
    case False
    have "u \<in> set ?ts" if "u \<in> set ts" "ct_session u = j" for u
      using in_set_update_other [of u ts k t'] that i False by auto
    then show ?thesis using inv j False unfolding compile_inv_def session_ok_def by (metis nth_list_update_neq)
  qed
  moreover have "pending_ok ?ts q (ps[p := c'] ! q)" if q: "q < length ps" for q
  proof (cases "q = p")
    case False
    have "u \<in> set ?ts" if "u \<in> set ts" "ct_pending u = q" for u
      using in_set_update_other [of u ts k t'] that p False by auto
    then show ?thesis using inv q False unfolding compile_inv_def pending_ok_def by (metis nth_list_update_neq)
  qed (use c q in \<open>simp add: pending_ok_def\<close>)
  moreover have "distinct (map ct_pending ?ts)" using distinct_pending_update [OF d] t p by simp
  ultimately show ?thesis by (auto simp: compile_inv_def all_set_conv_all_nth)
qed

section \<open>Every step keeps the invariant\<close>

lemma server_inv_rest [simp]:
  "server_inv W (sv\<lparr>sv_ws := ws\<rparr>) = server_inv W sv" "server_inv W (sv\<lparr>sv_db := db\<rparr>) = server_inv W sv"
  "server_inv W (sv\<lparr>sv_sched := sc\<rparr>) = server_inv W sv" "server_inv W (sv\<lparr>sv_world := w\<rparr>) = server_inv W sv"
  "server_inv W (sv\<lparr>sv_out := out\<rparr>) = server_inv W sv" "server_inv W (sv\<lparr>sv_aborted := a\<rparr>) = server_inv W sv"
  "server_inv W (sv\<lparr>sv_lifecycle := lc\<rparr>) = server_inv W sv" "server_inv W (sv\<lparr>sv_config := cfg\<rparr>) = server_inv W sv"
  by (simp_all add: server_inv_def)

lemma server_inv_send [simp]: "server_inv W (send m sv) = server_inv W sv"
  by (simp add: send_def)

lemma server_inv_schedule [simp]: "server_inv W (schedule_indexing env sv) = server_inv W sv"
  by (simp add: schedule_indexing_def)

lemma server_inv_enqueue [simp]: "server_inv W (enqueue_file p sv) = server_inv W sv"
  by (simp add: enqueue_file_def)

lemma server_inv_intern [simp]: "server_inv W (fst (intern_path path sv)) = server_inv W sv"
  by (simp add: intern_path_def split: prod.split)

lemma server_inv_interned: "intern_path path sv = (sv0, p) \<Longrightarrow> server_inv W sv \<Longrightarrow> server_inv W sv0"
  using server_inv_intern [of W path sv] by simp

lemma server_inv_upd_session:
  assumes "server_inv W sv" and "i < length (sv_objects sv) \<Longrightarrow> keeps (sv_objects sv ! i) (f (sv_objects sv ! i))"
  shows "server_inv W (upd_session i f sv)"
  using assms compile_inv_keeps by (auto simp: server_inv_def upd_session_def)

lemma find_session_less: "server_inv W sv \<Longrightarrow> find_session sv p = Some i \<Longrightarrow> i < length (sv_objects sv)"
  by (auto simp: server_inv_def find_session_def dest: map_of_SomeD)

lemma server_inv_open:
  assumes "server_inv W sv"
  shows "server_inv W (fst (open_session p sv))"
proof -
  define sv1 where "sv1 = (case find_session sv p of None \<Rightarrow> sv
     | Some i \<Rightarrow> upd_session i (\<lambda>s. s\<lparr>ls_generation := ls_generation s + 1\<rparr>) sv)"
  have inv1: "server_inv W sv1"
    using assms by (auto simp: sv1_def keeps_def split: option.split intro: server_inv_upd_session)
  have "compile_inv W (sv_objects sv1 @ [new_session\<lparr>ls_path_id := p\<rparr>]) (sv_pendings sv1) (sv_tasks sv1)"
    using inv1 by (intro compile_inv_new_session) (simp_all add: server_inv_def new_session_def)
  moreover have "snd e < Suc (length (sv_objects sv1))" if "e \<in> set (AList.update p (length (sv_objects sv1)) (sv_sessions sv1))" for e
  proof -
    have "e \<in> set (sv_sessions sv1) \<or> e = (p, length (sv_objects sv1))"
      using that set_alist_update by fastforce
    then show ?thesis using inv1 by (auto simp: server_inv_def less_Suc_eq)
  qed
  moreover have "waiter_ok (Suc (length (sv_objects sv1))) m wt" if "waiter_ok (length (sv_objects sv1)) m wt" for m wt
    using that by (auto simp: waiter_ok_def)
  ultimately show ?thesis using inv1
    by (simp add: open_session_def Let_def flip: sv1_def) (auto simp: server_inv_def distinct_update)
qed

lemma open_session_new:
  "open_session p sv = (sv1, i) \<Longrightarrow> sv_objects sv1 ! i = new_session\<lparr>ls_path_id := p\<rparr>"
  by (auto simp: open_session_def Let_def split: option.splits)

lemma server_inv_did_open:
  assumes "server_inv W sv"
  shows "server_inv W (did_open env path version text sv)"
proof -
  obtain sv0 p where ip: "intern_path path sv = (sv0, p)" by fastforce
  obtain sv1 i where op: "open_session p sv0 = (sv1, i)" by fastforce
  have "server_inv W sv0" using assms server_inv_intern [of W path sv] ip by simp
  then have "server_inv W sv1" using server_inv_open [of W sv0 p] op by simp
  then show ?thesis using assms open_session_new [OF op]
    by (auto simp: did_open_def ip op keeps_def new_session_def intro: server_inv_upd_session)
qed

lemma server_inv_change:
  assumes "server_inv W sv"
  shows "server_inv W (change_session env p version changes sv)"
proof -
  have "ls_compiling (fold (apply_change env) cs s) = ls_compiling s" for cs s
    by (induction cs arbitrary: s) (simp_all add: apply_change_def Let_def)
  then show ?thesis using assms
    by (auto simp: change_session_def keeps_def split: option.split intro!: server_inv_upd_session)
qed

lemma server_inv_close:
  assumes "server_inv W sv"
  shows "server_inv W (close_session env p sv)"
proof -
  have del: "server_inv W (sv'\<lparr>sv_sessions := AList.delete p (sv_sessions sv')\<rparr>)" if "server_inv W sv'" for sv' :: "'a server"
    using that by (auto simp: server_inv_def AList.delete_eq distinct_map inj_on_def)
  have "sv_sessions (upd_session i f sv') = sv_sessions sv'" for i f and sv' :: "'a server" by (simp add: upd_session_def)
  then show ?thesis using assms del [OF server_inv_upd_session]
    by (auto simp: close_session_def Let_def keeps_def split: option.split)
qed

lemma server_inv_mark [simp, intro]:
  assumes "server_inv W sv"
  shows "server_inv W (mark_dirtied d sv)" "server_inv W (drop_header_context e sv)" "server_inv W (fst (use_context p c sv))"
proof -
  show "server_inv W (mark_dirtied d sv)"
    using assms by (auto simp: mark_dirtied_def keeps_def split: option.split intro: server_inv_upd_session)
  show "server_inv W (drop_header_context e sv)"
    using assms by (auto simp: drop_header_context_def keeps_def split: option.split prod.split intro: server_inv_upd_session)
  show "server_inv W (fst (use_context p c sv))"
    using assms by (auto simp: use_context_def keeps_def split: option.split intro: server_inv_upd_session)
qed

lemma fold_keeps: "(\<And>x s. P s \<Longrightarrow> P (f x s)) \<Longrightarrow> P s \<Longrightarrow> P (fold f xs s)"
  by (induction xs arbitrary: s) simp_all

lemma server_inv_saved:
  assumes "server_inv W sv"
  shows "server_inv W (on_file_saved env p sv)"
  using assms by (auto simp: on_file_saved_def Let_def split: prod.split intro!: fold_keeps [of "server_inv W"])

lemma server_inv_crash:
  assumes "server_inv W sv"
  shows "server_inv W (on_crash lost sv)"
  unfolding on_crash_def using assms
  by (intro fold_keeps [of "server_inv W"]) (auto simp: keeps_def split: option.split intro: server_inv_upd_session)

lemma server_inv_switch:
  assumes "server_inv W sv"
  shows "server_inv W (fst (switch_context env path cpath sv))"
proof -
  obtain sv1 p where 1: "intern_path path sv = (sv1, p)" by fastforce
  obtain sv2 c where 2: "intern_path cpath sv1 = (sv2, c)" by fastforce
  have "server_inv W sv2"
    using assms server_inv_intern [of W path sv] server_inv_intern [of W cpath sv1] 1 2 by simp
  moreover obtain db r where 3: "db_lookup (ae_cmd (se_args env)) cpath default_options (sv_db sv2) = (db, r)" by fastforce
  moreover obtain sv4 ok where 4: "use_context p c (sv2\<lparr>sv_db := db\<rparr>) = (sv4, ok)" by fastforce
  moreover have "server_inv W sv4"
    using server_inv_mark(3) [of W "sv2\<lparr>sv_db := db\<rparr>" p c] \<open>server_inv W sv2\<close> 4 by simp
  ultimately show ?thesis by (auto simp: switch_context_def 1 2 Let_def split: option.split list.split)
qed

subsection \<open>Compiles\<close>

lemma session_args_shape:
  obtains h sv' r where "session_args env i sv = (sv', r)"
    and "sv_objects sv' = (sv_objects sv)[i := (sv_objects sv ! i)\<lparr>ls_header_context := h\<rparr>]"
    and "sv_pendings sv' = sv_pendings sv" and "sv_tasks sv' = sv_tasks sv"
    and "sv_sessions sv' = sv_sessions sv" and "sv_waiters sv' = sv_waiters sv"
    and "r = Throws \<Longrightarrow> sv_aborted sv'"
proof -
  let ?s = "sv_objects sv ! i"
  obtain st r where f: "fill_compile_args (se_args env) (sv_config sv) (wk_deps (sv_ws sv)) (path_of (wk_pool (sv_ws sv)) (ls_path_id ?s))
     (Some (ls_active_context ?s)) \<lparr>fs_db = sv_db sv, fs_pool = wk_pool (sv_ws sv), fs_world = sv_world sv, fs_header = ls_header_context ?s\<rparr> = (st, r)"
    by fastforce
  show ?thesis
    by (rule that [of "fst (session_args env i sv)" "snd (session_args env i sv)" "fs_header st"])
      (simp_all add: session_args_def Let_def upd_session_def f)
qed

lemma server_inv_args: "server_inv W sv \<Longrightarrow> server_inv W (fst (session_args env i sv))"
  by (auto simp: session_args_def Let_def keeps_def split: prod.split intro!: server_inv_upd_session)

lemma compile_of_inv: "server_inv W sv \<Longrightarrow> i < length (sv_objects sv) \<Longrightarrow> session_ok W (sv_tasks sv) i (sv_objects sv ! i)"
  by (simp add: server_inv_def compile_inv_def)

lemma server_inv_launch:
  assumes inv: "server_inv W sv" and i: "i < length (sv_objects sv)" and l: "may_launch (sv_objects sv ! i) (sv_pendings sv)"
    and lc: "launch_compile env i sv = (sv', p)" and a: "\<not> sv_aborted sv'"
  shows "server_inv W sv'" and "p < length (sv_pendings sv')"
    and "sv_waiters sv' = sv_waiters sv" and "length (sv_pendings sv) \<le> length (sv_pendings sv')"
    and "length (sv_objects sv') = length (sv_objects sv)"
proof -
  let ?s = "sv_objects sv ! i" and ?p = "length (sv_pendings sv)"
  define c where "c = \<lparr>pc_done = False, pc_succeeded = False, pc_generation = ls_generation ?s, pc_deps_done = False, pc_cancelled = False\<rparr>"
  define sv1 where "sv1 = upd_session i (\<lambda>s. s\<lparr>ls_compiling := Some ?p\<rparr>) (sv\<lparr>sv_pendings := sv_pendings sv @ [c]\<rparr>)"
  define sv2 where "sv2 = run_compile env i ?p sv1"
  have out: "sv' = (case ls_compiling ?s of None \<Rightarrow> sv2 | Some q \<Rightarrow> upd_pending q (\<lambda>c. c\<lparr>pc_cancelled := True\<rparr>) sv2)" and p: "p = ?p"
    using lc unfolding launch_compile_def Let_def sv2_def [symmetric] sv1_def [symmetric] c_def [symmetric] by simp_all
  obtain h sv3 r where sa: "session_args env i sv1 = (sv3, r)"
    and o3: "sv_objects sv3 = (sv_objects sv1)[i := (sv_objects sv1 ! i)\<lparr>ls_header_context := h\<rparr>]"
    and p3: "sv_pendings sv3 = sv_pendings sv1" and t3: "sv_tasks sv3 = sv_tasks sv1"
    and s3: "sv_sessions sv3 = sv_sessions sv1" "sv_waiters sv3 = sv_waiters sv1" and ab: "r = Throws \<Longrightarrow> sv_aborted sv3"
    by (rule session_args_shape [of env i sv1]) blast
  have objs: "sv_objects sv3 = (sv_objects sv)[i := ?s\<lparr>ls_compiling := Some ?p, ls_header_context := h\<rparr>]"
    using i by (simp add: o3 sv1_def upd_session_def)
  have cond: "ls_ast_dirty ?s \<or> compiled W ?s"
    using compile_of_inv [OF inv i] by (simp add: session_ok_def)
  have ci: "compile_inv W (sv_objects sv) (sv_pendings sv) (sv_tasks sv)" using inv by (simp add: server_inv_def)
  have "compile_inv W (sv_objects sv2) (sv_pendings sv2) (sv_tasks sv2) \<and> sv_sessions sv2 = sv_sessions sv
      \<and> sv_waiters sv2 = sv_waiters sv \<and> length (sv_objects sv2) = length (sv_objects sv) \<and> length (sv_pendings sv2) = Suc ?p"
  proof (cases r)
    case Throws
    then have "sv_aborted sv'" using ab sa
      by (auto simp: out sv2_def run_compile_def Let_def upd_pending_def split: option.split)
    then show ?thesis using a by simp
  next
    case Fails
    then have "sv2 = finish_compile i ?p sv3" by (simp add: sv2_def run_compile_def Let_def sa)
    moreover have "sv_pendings sv3 = sv_pendings sv @ [c]" "sv_tasks sv3 = sv_tasks sv" "sv_sessions sv3 = sv_sessions sv" "sv_waiters sv3 = sv_waiters sv"
      by (simp_all add: p3 t3 s3 sv1_def upd_session_def)
    ultimately show ?thesis using i compile_inv_no_launch [OF ci i l] cond
      by (simp add: finish_compile_def upd_pending_def upd_session_def objs same_text_def)
  next
    case (Gives x)
    then obtain dir args where x: "r = Gives (dir, args)" by (cases x) simp
    have "sv_objects sv2 = sv_objects sv3" "sv_pendings sv2 = sv_pendings sv @ [c]" "sv_sessions sv2 = sv_sessions sv" "sv_waiters sv2 = sv_waiters sv"
      "\<exists>t. sv_tasks sv2 = sv_tasks sv @ [t] \<and> ct_session t = i \<and> ct_pending t = ?p \<and> ct_gen t = ls_generation ?s \<and> ct_phase t = Preparing
         \<and> cq_text (ct_params t) = ls_text ?s \<and> cq_version (ct_params t) = ls_version ?s"
      using i by (simp_all add: sv2_def run_compile_def Let_def sa x p3 t3 s3) (simp_all add: sv1_def upd_session_def)
    then show ?thesis using i compile_inv_launch [OF ci i l, of "?s\<lparr>ls_compiling := Some ?p, ls_header_context := h\<rparr>" c] cond
      by (auto simp: objs same_text_def c_def)
  qed
  then show "server_inv W sv'" "p < length (sv_pendings sv')" "sv_waiters sv' = sv_waiters sv"
    "?p \<le> length (sv_pendings sv')" "length (sv_objects sv') = length (sv_objects sv)"
    using inv compile_inv_flags
    by (auto simp: server_inv_def out p upd_pending_def waiter_ok_def split: option.split wait_phase.splits)
qed

lemma finish_fields [simp]:
  "sv_objects (finish_compile i p sv) = (sv_objects sv)[i := (sv_objects sv ! i)
     \<lparr>ls_compiling := if ls_compiling (sv_objects sv ! i) = Some p then None else ls_compiling (sv_objects sv ! i)\<rparr>]"
  "sv_pendings (finish_compile i p sv) = (sv_pendings sv)[p := (sv_pendings sv ! p)\<lparr>pc_done := True\<rparr>]"
  "sv_tasks (finish_compile i p sv) = sv_tasks sv" "sv_sessions (finish_compile i p sv) = sv_sessions sv"
  "sv_waiters (finish_compile i p sv) = sv_waiters sv"
  by (simp_all add: finish_compile_def upd_pending_def upd_session_def)

lemma server_inv_cong:
  assumes "server_inv W sv" and "compile_inv W (sv_objects sv') (sv_pendings sv') (sv_tasks sv')"
    and "sv_sessions sv' = sv_sessions sv" and "sv_waiters sv' = sv_waiters sv"
    and "length (sv_objects sv') = length (sv_objects sv)" and "length (sv_pendings sv') = length (sv_pendings sv)"
  shows "server_inv W sv'"
  using assms by (simp add: server_inv_def)

lemma task_of_inv:
  assumes "server_inv W sv" and "k < length (sv_tasks sv)"
  shows "task_ok (sv_objects sv) (sv_pendings sv) (sv_tasks sv ! k)"
  using assms by (simp add: server_inv_def compile_inv_def)

text \<open>What all the ways to end a compile share.\<close>

lemma server_inv_over:
  assumes inv: "server_inv W sv" and k: "k < length (sv_tasks sv)" "live (sv_tasks sv ! k)"
    and i: "ct_session (sv_tasks sv ! k) = i" and p: "ct_pending (sv_tasks sv ! k) = p"
    and os: "sv_objects sv' = (sv_objects sv)[i := s'\<lparr>ls_compiling := if ls_compiling s' = Some p then None else ls_compiling s'\<rparr>]"
    and s': "same_text (sv_objects sv ! i) s'" "ls_compiling s' = ls_compiling (sv_objects sv ! i)" "ls_ast_dirty s' \<or> compiled W s'"
    and ps: "sv_pendings sv' = (sv_pendings sv)[p := sv_pendings sv' ! p]" "pc_done (sv_pendings sv' ! p)"
    and ts: "sv_tasks sv' = (sv_tasks sv)[k := (sv_tasks sv ! k)\<lparr>ct_phase := Over\<rparr>]"
    and rest: "sv_sessions sv' = sv_sessions sv" "sv_waiters sv' = sv_waiters sv"
  shows "server_inv W sv'"
proof (rule server_inv_cong [OF inv _ rest])
  have "compile_inv W (sv_objects sv) (sv_pendings sv) (sv_tasks sv)" using inv by (simp add: server_inv_def)
  then show "compile_inv W (sv_objects sv') (sv_pendings sv') (sv_tasks sv')"
    by (subst ps(1), unfold os ts, rule compile_inv_over [OF _ k i p]) (use s' ps(2) i p in \<open>simp_all add: same_text_def\<close>)
  show "length (sv_pendings sv') = length (sv_pendings sv)" by (subst ps(1)) simp
qed (simp add: os)

lemma server_inv_deps:
  assumes inv: "server_inv W sv" and k: "k < length (sv_tasks sv)" and ph: "ct_phase (sv_tasks sv ! k) = Preparing"
  shows "server_inv W (deps_ready k ok pch pcms sv)"
proof -
  let ?t = "sv_tasks sv ! k"
  let ?i = "ct_session ?t" and ?p = "ct_pending ?t"
  have lv: "live ?t" using ph by (simp add: live_def)
  have b: "?i < length (sv_objects sv)" "?p < length (sv_pendings sv)" using task_of_inv [OF inv k] by (simp_all add: task_ok_def)
  show ?thesis
  proof (cases "\<not> ok \<or> ls_generation (sv_objects sv ! ?i) \<noteq> ct_gen ?t")
    case True
    then have eq: "deps_ready k ok pch pcms sv
        = finish_compile ?i ?p (set_task k (?t\<lparr>ct_phase := Over\<rparr>) (upd_pending ?p (\<lambda>c. c\<lparr>pc_deps_done := True\<rparr>) sv))"
      by (auto simp: deps_ready_def Let_def upd_pending_def)
    show ?thesis unfolding eq
      by (rule server_inv_over [OF inv k lv refl refl, where s' = "sv_objects sv ! ?i"])
        (use compile_of_inv [OF inv b(1)] b in \<open>simp_all add: session_ok_def same_text_def upd_pending_def set_task_def\<close>)
  next
    case False
    have ci: "compile_inv W (sv_objects sv) (sv_pendings sv) (sv_tasks sv)" using inv by (simp add: server_inv_def)
    show ?thesis
      by (rule server_inv_cong [OF inv])
        (use False in \<open>simp_all add: deps_ready_def Let_def upd_pending_def set_task_def compile_inv_sending [OF ci k lv]\<close>)
  qed
qed

lemma server_inv_answered:
  assumes inv: "server_inv W sv" and k: "k < length (sv_tasks sv)" and ph: "ct_phase (sv_tasks sv ! k) = Sending"
    and w: "W (ct_params (sv_tasks sv ! k)) r"
  shows "server_inv W (compile_answered env k r sv)"
proof -
  let ?t = "sv_tasks sv ! k"
  let ?i = "ct_session ?t" and ?p = "ct_pending ?t"
  let ?s = "sv_objects sv ! ?i"
  have lv: "live ?t" using ph by (simp add: live_def)
  have tk: "task_ok (sv_objects sv) (sv_pendings sv) ?t" by (rule task_of_inv [OF inv k])
  have b: "?i < length (sv_objects sv)" "?p < length (sv_pendings sv)" using tk by (simp_all add: task_ok_def)
  have still: "ls_ast_dirty ?s \<or> compiled W ?s" using compile_of_inv [OF inv b(1)] by (simp add: session_ok_def)
  note over = server_inv_over [OF inv k lv refl refl]
  show ?thesis
  proof (cases "ls_generation ?s = ct_gen ?t \<and> r \<noteq> None")
    case False
    then show ?thesis
      by (intro over [where s' = ?s])
        (use b still in \<open>auto simp: compile_answered_def Let_def set_task_def send_def same_text_def split: option.split\<close>)
  next
    case True
    then obtain res where r: "r = Some res" and gen: "ls_generation ?s = ct_gen ?t" by auto
    obtain pool snap where cap: "capture_deps_snapshot (ae_ws (se_args env)) (sv_world sv) (sv_world sv) (cr_deps res) (wk_pool (sv_ws sv)) = (pool, snap)"
      by fastforce
    have sent: "cq_text (ct_params ?t) = ls_text ?s" "cq_version (ct_params ?t) = ls_version ?s"
      using tk lv gen by (simp_all add: task_ok_def in_step_def)
    define s' where "s' = (case cr_index res of None \<Rightarrow> ?s | Some (fi, symbs) \<Rightarrow> ?s\<lparr>ls_file_index := Some fi, ls_symbols := Some symbs\<rparr>)
       \<lparr>ls_ast_dirty := False, ls_ast_deps := Some snap\<rparr>"
    have s': "ls_generation s' = ls_generation ?s" "ls_text s' = ls_text ?s" "ls_version s' = ls_version ?s" "ls_compiling s' = ls_compiling ?s"
      by (simp_all add: s'_def split: option.split prod.split)
    have "compiled W s'"
      unfolding compiled_def using w r sent s'
      by (intro exI [of _ "ct_params ?t"] exI [of _ res]) (simp add: s'_def)
    then show ?thesis
      by (intro over [where s' = s'])
        (use b gen r s' in \<open>(cases "cr_index res"; auto simp: compile_answered_def Let_def set_task_def send_def
            schedule_indexing_def store_result_def upd_pending_def upd_session_def cap same_text_def s'_def)+\<close>)
  qed
qed

subsection \<open>Requests and waits\<close>

lemma server_inv_waiters:
  "server_inv W sv \<Longrightarrow> (\<And>wt. wt \<in> set wts \<Longrightarrow> waiter_ok (length (sv_objects sv)) (length (sv_pendings sv)) wt) \<Longrightarrow>
   server_inv W (sv\<lparr>sv_waiters := wts\<rparr>)"
  by (simp add: server_inv_def)

lemma compiling_in_range:
  assumes "server_inv W sv" and "i < length (sv_objects sv)" and "ls_compiling (sv_objects sv ! i) = Some p"
  shows "p < length (sv_pendings sv)"
proof -
  obtain t where "t \<in> set (sv_tasks sv)" "ct_pending t = p"
    using compile_of_inv [OF assms(1,2)] assms(3) by (auto simp: session_ok_def)
  then show ?thesis using assms(1) by (auto simp: server_inv_def compile_inv_def task_ok_def)
qed

lemma server_inv_loop:
  assumes inv: "server_inv W sv" and i: "i < length (sv_objects sv)" and e: "ensure_loop env i g sv = (sv', ph)" and a: "\<not> sv_aborted sv'"
  shows "server_inv W sv'" and "waiter_ok (length (sv_objects sv')) (length (sv_pendings sv')) \<lparr>wt_session = i, wt_gen = g, wt_phase = ph\<rparr>"
    and "sv_waiters sv' = sv_waiters sv" and "length (sv_objects sv') = length (sv_objects sv)"
proof -
  obtain sv1 q where lc: "launch_compile env i sv = (sv1, q)" by fastforce
  note launched = server_inv_launch [OF inv i _ lc]
  have "server_inv W sv' \<and> waiter_ok (length (sv_objects sv')) (length (sv_pendings sv')) \<lparr>wt_session = i, wt_gen = g, wt_phase = ph\<rparr>
     \<and> sv_waiters sv' = sv_waiters sv \<and> length (sv_objects sv') = length (sv_objects sv)"
  proof (cases "sv' = sv1 \<and> ph = WaitFinal q \<and> may_launch (sv_objects sv ! i) (sv_pendings sv)")
    case True
    then show ?thesis using launched a i by (auto simp: waiter_ok_def)
  next
    case False
    then have "sv' = sv" "(\<exists>p. ph = WaitLoop p \<and> ls_compiling (sv_objects sv ! i) = Some p) \<or> ph = Returned False"
      using e by (auto simp: ensure_loop_def Let_def lc may_launch_def split: option.splits if_splits)
    then show ?thesis using inv i compiling_in_range [OF inv i] by (auto simp: waiter_ok_def)
  qed
  then show "server_inv W sv'" and "waiter_ok (length (sv_objects sv')) (length (sv_pendings sv')) \<lparr>wt_session = i, wt_gen = g, wt_phase = ph\<rparr>"
    and "sv_waiters sv' = sv_waiters sv" and "length (sv_objects sv') = length (sv_objects sv)" by blast+
qed

lemma server_inv_ensure:
  assumes inv: "server_inv W sv" and i: "i < length (sv_objects sv)" and a: "\<not> sv_aborted (ensure_compiled env i sv)"
  shows "server_inv W (ensure_compiled env i sv)"
proof (cases "\<not> ls_ast_dirty (sv_objects sv ! i) \<and> \<not> is_stale env sv (sv_objects sv ! i)")
  case True
  then show ?thesis using inv i
    by (auto simp: ensure_compiled_def Let_def server_inv_def waiter_ok_def)
next
  case False
  let ?sv = "upd_session i (\<lambda>s. s\<lparr>ls_ast_dirty := True\<rparr>) sv"
  have inv1: "server_inv W ?sv" using inv by (intro server_inv_upd_session) (simp_all add: keeps_def)
  have i1: "i < length (sv_objects ?sv)" using i by (simp add: upd_session_def)
  obtain sv1 ph where e: "ensure_loop env i (ls_generation (sv_objects sv ! i)) ?sv = (sv1, ph)" by fastforce
  have eq: "ensure_compiled env i sv = sv1\<lparr>sv_waiters := sv_waiters sv1 @
      [\<lparr>wt_session = i, wt_gen = ls_generation (sv_objects sv ! i), wt_phase = ph\<rparr>]\<rparr>"
    using False e by (auto simp: ensure_compiled_def Let_def)
  have "\<not> sv_aborted sv1" using a eq by simp
  note looped = server_inv_loop [OF inv1 i1 e this]
  show ?thesis unfolding eq
    by (rule server_inv_waiters [OF looped(1)]) (use looped(1,2) in \<open>auto simp: server_inv_def\<close>)
qed

lemma server_inv_set_waiter:
  assumes "server_inv W sv" and "j < length (sv_waiters sv)"
    and "waiter_ok (length (sv_objects sv)) (length (sv_pendings sv)) ((sv_waiters sv ! j)\<lparr>wt_phase := ph\<rparr>)"
  shows "server_inv W (set_waiter j ph sv)"
  unfolding set_waiter_def
  by (rule server_inv_waiters [OF assms(1)]) (use assms in \<open>auto simp: server_inv_def dest: set_update_subset_insert [THEN subsetD]\<close>)

lemma server_inv_woken:
  assumes inv: "server_inv W sv" and j: "j < length (sv_waiters sv)" and a: "\<not> sv_aborted (waiter_woken env j sv)"
  shows "server_inv W (waiter_woken env j sv)"
proof -
  let ?wt = "sv_waiters sv ! j"
  have w: "waiter_ok (length (sv_objects sv)) (length (sv_pendings sv)) ?wt" using inv j by (simp add: server_inv_def)
  then have i: "wt_session ?wt < length (sv_objects sv)" by (simp add: waiter_ok_def)
  have ret: "server_inv W (set_waiter j (Returned b) sv)" for b
    using i by (intro server_inv_set_waiter [OF inv j]) (simp add: waiter_ok_def)
  show ?thesis
  proof (cases "\<exists>p. wt_phase ?wt = WaitLoop p \<and> ls_ast_dirty (sv_objects sv ! wt_session ?wt)")
    case True
    then obtain p where p: "wt_phase ?wt = WaitLoop p" "ls_ast_dirty (sv_objects sv ! wt_session ?wt)" by blast
    obtain sv1 ph where e: "ensure_loop env (wt_session ?wt) (wt_gen ?wt) sv = (sv1, ph)" by fastforce
    have eq: "waiter_woken env j sv = set_waiter j ph sv1" using p e by (simp add: waiter_woken_def Let_def)
    have "\<not> sv_aborted sv1" using a eq by (simp add: set_waiter_def)
    note looped = server_inv_loop [OF inv i e this]
    show ?thesis unfolding eq
      by (rule server_inv_set_waiter [OF looped(1)]) (use looped j in \<open>simp_all add: waiter_ok_def\<close>)
  next
    case False
    then show ?thesis using ret inv by (auto simp: waiter_woken_def Let_def split: wait_phase.split)
  qed
qed

text \<open>The compile protocol as a safe system: as long as the process lives, the invariant holds.\<close>

lemma server_inv_step:
  assumes "server_step env W sv sv'" and "server_inv W sv" and "\<not> sv_aborted sv'"
  shows "server_inv W sv'"
  using assms
proof (cases rule: server_step.cases)
  case (step_change path version changes)
  then show ?thesis using assms
    by (auto dest: server_inv_interned simp: did_change_def intro: server_inv_change split: prod.split)
next
  case (step_close path)
  then show ?thesis using assms
    by (auto dest: server_inv_interned simp: did_close_def intro: server_inv_close split: prod.split)
next
  case (step_save path)
  then show ?thesis using assms
    by (auto dest: server_inv_interned simp: did_save_def intro: server_inv_saved split: prod.split)
next
  case (step_request p i)
  then show ?thesis using assms by (auto intro: server_inv_ensure find_session_less)
next
  case (step_pch i r)
  then show ?thesis using assms by (auto simp: keeps_def intro: server_inv_upd_session)
next
  case (step_wake j p)
  then show ?thesis using assms by (auto intro: server_inv_woken)
next
  case (step_abandon j p)
  moreover have "waiter_ok (length (sv_objects sv)) (length (sv_pendings sv)) (sv_waiters sv ! j)"
    using assms(2) step_abandon by (simp add: server_inv_def)
  ultimately show ?thesis using assms(2) by (simp add: server_inv_set_waiter waiter_ok_def)
qed (use assms in \<open>auto intro: server_inv_did_open server_inv_crash server_inv_switch server_inv_args server_inv_deps server_inv_answered\<close>)

interpretation compiles: safe_system server_start "server_step env W" "\<lambda>sv. \<not> sv_aborted sv \<longrightarrow> server_inv W sv"
proof
  show "\<not> sv_aborted sv \<longrightarrow> server_inv W sv" if "server_start sv" for sv
    using that by (simp add: server_start_def server_inv_def compile_inv_def)
  show "\<not> sv_aborted sv' \<longrightarrow> server_inv W sv'" if "server_step env W sv sv'" "\<not> sv_aborted sv \<longrightarrow> server_inv W sv" for sv sv'
    using that server_inv_step [OF that(1)] by (auto elim: server_step.cases)
qed

lemma reached_inv:
  assumes "reached server_start (server_step env W) sv" and "\<not> sv_aborted sv"
  shows "server_inv W sv"
  using compiles.reached_good [OF assms(1)] assms(2) by simp

section \<open>Properties\<close>

text \<open>
  C2: whatever the editor, the requests, the compiles and the rest of the server did and in whatever order, a
  session that counts as clean holds the result of a compile of exactly the text and version it has now,
  and its index is the one of that result when the result has one. (Before the process has aborted.)
\<close>

theorem clean_session_is_current:
  assumes "reached server_start (server_step env W) sv" and "\<not> sv_aborted sv"
    and "i < length (sv_objects sv)" and "\<not> ls_ast_dirty (sv_objects sv ! i)"
  shows "\<exists>q r. W q (Some r) \<and> cq_text q = ls_text (sv_objects sv ! i) \<and> cq_version q = ls_version (sv_objects sv ! i)
    \<and> (\<forall>fi symbs. cr_index r = Some (fi, symbs) \<longrightarrow>
         ls_file_index (sv_objects sv ! i) = Some fi \<and> ls_symbols (sv_objects sv ! i) = Some symbs)"
  using compile_of_inv [OF reached_inv [OF assms(1,2)] assms(3)] assms(4) by (simp add: session_ok_def compiled_def)

text \<open>
  C18: of one session at most one compile is at the worker at any time, and it is the one the session knows
  as its compile in flight; a superseded compile is never sent.
\<close>

theorem one_compile_at_the_worker:
  assumes "reached server_start (server_step env W) sv" and "\<not> sv_aborted sv"
    and "k < length (sv_tasks sv)" and "ct_phase (sv_tasks sv ! k) = Sending"
  shows "ls_compiling (sv_objects sv ! ct_session (sv_tasks sv ! k)) = Some (ct_pending (sv_tasks sv ! k))
    \<and> (\<forall>l<length (sv_tasks sv). ct_phase (sv_tasks sv ! l) = Sending \<longrightarrow>
         ct_session (sv_tasks sv ! l) = ct_session (sv_tasks sv ! k) \<longrightarrow> l = k)"
proof -
  have inv: "server_inv W sv" by (rule reached_inv [OF assms(1,2)])
  have d: "distinct (map ct_pending (sv_tasks sv))" using inv by (simp add: server_inv_def compile_inv_def)
  have cur: "ls_compiling (sv_objects sv ! ct_session (sv_tasks sv ! l)) = Some (ct_pending (sv_tasks sv ! l))"
    if "l < length (sv_tasks sv)" "ct_phase (sv_tasks sv ! l) = Sending" for l
    using task_of_inv [OF inv that(1)] that(2) by (simp add: task_ok_def in_step_def live_def)
  show ?thesis using cur [OF assms(3,4)] cur other_pending [OF d assms(3)] by (metis option.inject)
qed

text \<open>
  C4: no request waits for nothing. A request that waits for a compile either has its event set already, so that it
  goes on, or the compile it waits for is still running and belongs to a session.
\<close>

theorem no_request_stuck:
  assumes "reached server_start (server_step env W) sv" and "\<not> sv_aborted sv"
    and "wt \<in> set (sv_waiters sv)" and "wt_phase wt = WaitLoop p \<or> wt_phase wt = WaitFinal p"
  shows "p < length (sv_pendings sv) \<and> (pc_done (sv_pendings sv ! p)
    \<or> (\<exists>k<length (sv_tasks sv). ct_pending (sv_tasks sv ! k) = p \<and> ct_phase (sv_tasks sv ! k) \<noteq> Over
         \<and> ct_session (sv_tasks sv ! k) < length (sv_objects sv)))"
proof -
  have inv: "server_inv W sv" by (rule reached_inv [OF assms(1,2)])
  have p: "p < length (sv_pendings sv)" using inv assms(3,4) by (auto simp: server_inv_def waiter_ok_def)
  then have "pending_ok (sv_tasks sv) p (sv_pendings sv ! p)" using inv by (simp add: server_inv_def compile_inv_def)
  then show ?thesis using p task_of_inv [OF inv]
    by (auto simp: pending_ok_def live_def task_ok_def in_set_conv_nth)
qed

subsection \<open>Saving\<close>

lemma mark_dirtied_sessions [simp]: "sv_sessions (mark_dirtied d sv) = sv_sessions sv"
  by (auto simp: mark_dirtied_def upd_session_def enqueue_file_def split: option.split)

lemma find_session_cong: "sv_sessions sv' = sv_sessions sv \<Longrightarrow> find_session sv' = find_session sv"
  by (simp add: find_session_def fun_eq_iff)

lemma fold_mark_queue:
  "index_queue (sv_sched (fold mark_dirtied ds sv)) = index_queue (sv_sched sv) @ filter (\<lambda>d. find_session sv d = None) ds"
proof (induction ds arbitrary: sv)
  case (Cons d ds)
  have "index_queue (sv_sched (mark_dirtied d sv)) = index_queue (sv_sched sv) @ (if find_session sv d = None then [d] else [])"
    by (auto simp: mark_dirtied_def upd_session_def enqueue_file_def enqueue_def split: option.split)
  then show ?case using Cons [of "mark_dirtied d sv"] find_session_cong [of "mark_dirtied d sv" sv] by simp
qed simp

text \<open>What saving may do to a session: it gets dirty and may lose its header context; nothing else changes.\<close>

definition only_dirtied :: "live_session \<Rightarrow> live_session \<Rightarrow> bool" where
  "only_dirtied s s' \<longleftrightarrow> (\<exists>h b. s' = s\<lparr>ls_header_context := h, ls_ast_dirty := b\<rparr> \<and> (ls_ast_dirty s \<longrightarrow> b))"

lemma only_dirtied_refl [simp]: "only_dirtied s s"
  unfolding only_dirtied_def by (intro exI [of _ "ls_header_context s"] exI [of _ "ls_ast_dirty s"]) simp

lemma only_dirtied_trans: "only_dirtied s s' \<Longrightarrow> only_dirtied s' s'' \<Longrightarrow> only_dirtied s s''"
  by (force simp: only_dirtied_def)

definition after_save :: "'w server \<Rightarrow> 'w server \<Rightarrow> bool" where
  "after_save sv sv' \<longleftrightarrow> sv_sessions sv' = sv_sessions sv \<and> length (sv_objects sv') = length (sv_objects sv)
     \<and> (\<forall>i<length (sv_objects sv). only_dirtied (sv_objects sv ! i) (sv_objects sv' ! i))"

lemma after_save_fold:
  assumes "\<And>x sv. after_save sv (f x sv)"
  shows "after_save sv (fold f xs sv)"
proof (induction xs arbitrary: sv)
  case (Cons x xs)
  then show ?case using assms [of sv x] Cons [of "f x sv"] by (auto simp: after_save_def intro: only_dirtied_trans)
qed (simp add: after_save_def)

lemma after_save_upd:
  "(\<And>s. only_dirtied s (f s)) \<Longrightarrow> after_save sv (upd_session i f sv)"
  by (cases "i < length (sv_objects sv)") (auto simp: after_save_def upd_session_def nth_list_update)

lemma after_save_mark: "after_save sv (mark_dirtied d sv)"
proof -
  have "only_dirtied s (s\<lparr>ls_ast_dirty := True\<rparr>)" for s
    unfolding only_dirtied_def by (intro exI [of _ "ls_header_context s"] exI [of _ True]) simp
  moreover have "after_save sv (enqueue_file d sv)" by (simp add: after_save_def enqueue_file_def)
  ultimately show ?thesis by (auto simp: mark_dirtied_def split: option.split intro: after_save_upd)
qed

lemma after_save_drop: "after_save sv (drop_header_context e sv)"
proof -
  have "only_dirtied s (s\<lparr>ls_header_context := None, ls_ast_dirty := True\<rparr>)" for s
    unfolding only_dirtied_def by blast
  moreover have "after_save sv sv" by (simp add: after_save_def)
  ultimately show ?thesis by (auto simp: drop_header_context_def split: option.split prod.split intro: after_save_upd)
qed

lemma only_dirtied_dirty: "only_dirtied s s' \<Longrightarrow> ls_ast_dirty s \<Longrightarrow> ls_ast_dirty s'"
  by (auto simp: only_dirtied_def)

lemma drop_sched [simp]: "sv_sched (drop_header_context e sv) = sv_sched sv"
  by (auto simp: drop_header_context_def upd_session_def split: option.split prod.split)

lemma fold_drop_sched [simp]: "sv_sched (fold drop_header_context es sv) = sv_sched sv"
  by (induction es arbitrary: sv) simp_all

text \<open>Which sessions the two loops mark.\<close>

lemma nth_update_at: "i < length xs \<Longrightarrow> xs[a := x] ! i = (if a = i then x else xs ! i)"
  by simp

lemma fold_mark_dirty_iff:
  assumes "i < length (sv_objects sv)"
  shows "ls_ast_dirty (sv_objects (fold mark_dirtied ds sv) ! i)
    \<longleftrightarrow> ls_ast_dirty (sv_objects sv ! i) \<or> (\<exists>d\<in>set ds. find_session sv d = Some i)"
  using assms
proof (induction ds arbitrary: sv)
  case (Cons d ds)
  have "ls_ast_dirty (sv_objects (mark_dirtied d sv) ! i) \<longleftrightarrow> ls_ast_dirty (sv_objects sv ! i) \<or> find_session sv d = Some i"
    using Cons.prems by (auto simp: mark_dirtied_def upd_session_def enqueue_file_def nth_update_at split: option.split)
  moreover have "length (sv_objects (mark_dirtied d sv)) = length (sv_objects sv)" using after_save_mark [of sv d] by (simp add: after_save_def)
  ultimately show ?case using Cons.IH [of "mark_dirtied d sv"] Cons.prems find_session_cong [of "mark_dirtied d sv" sv] by auto
qed simp

lemma mark_header_context:
  "map ls_header_context (sv_objects (fold mark_dirtied ds sv)) = map ls_header_context (sv_objects sv)"
proof (induction ds arbitrary: sv)
  case (Cons d ds)
  have "map ls_header_context (sv_objects (mark_dirtied d sv)) = map ls_header_context (sv_objects sv)"
    by (cases "find_session sv d"; rule nth_equalityI)
      (auto simp: mark_dirtied_def upd_session_def enqueue_file_def nth_update_at)
  then show ?case using Cons.IH [of "mark_dirtied d sv"] by simp
qed simp

definition own_host :: "(u32 \<times> nat) list \<Rightarrow> nat \<Rightarrow> live_session \<Rightarrow> bool" where
  "own_host es i s \<longleftrightarrow> (\<exists>e\<in>set es. snd e = i \<and> map_option host_path_id (ls_header_context s) = Some (fst e))"

lemma fold_drop_dirty_iff:
  assumes "i < length (sv_objects sv)"
  shows "ls_ast_dirty (sv_objects (fold drop_header_context es sv) ! i)
    \<longleftrightarrow> ls_ast_dirty (sv_objects sv ! i) \<or> own_host es i (sv_objects sv ! i)"
  using assms
proof (induction es arbitrary: sv)
  case (Cons e es)
  let ?s = "sv_objects sv ! i" and ?s' = "sv_objects (drop_header_context e sv) ! i"
  have len: "length (sv_objects (drop_header_context e sv)) = length (sv_objects sv)"
    using after_save_drop [of sv e] by (simp add: after_save_def)
  have "?s' = (if own_host [e] i ?s then ?s\<lparr>ls_header_context := None, ls_ast_dirty := True\<rparr> else ?s)"
    using Cons.prems by (cases e) (auto simp: drop_header_context_def upd_session_def nth_update_at own_host_def split: option.split)
  then show ?case using Cons.IH [of "drop_header_context e sv"] Cons.prems len by (auto simp: own_host_def)
qed (simp add: own_host_def)

lemma forget_pcms:
  "map_of (wk_pcm (fold forget_pcm ds s)) d = (if d \<in> set ds then None else map_of (wk_pcm s) d)"
  "map_of (wk_pcm_paths (fold forget_pcm ds s)) d = (if d \<in> set ds then None else map_of (wk_pcm_paths s) d)"
  by (induction ds arbitrary: s) (auto simp: forget_pcm_def delete_conv')

text \<open>The files that depend on a file in the module graph, itself included.\<close>

definition module_dependents :: "workspace_state \<Rightarrow> u32 \<Rightarrow> u32 set" where
  "module_dependents ws p =
     (case wk_graph ws of
        None \<Rightarrow> {}
      | Some g \<Rightarrow> {x. has_unit g p \<and> (p, x) \<in> (nexts_of (dependents_of g))\<^sup>* \<and> has_unit g x})"

lemma saved_dependents:
  assumes "ws_file_saved env w p s = (s', ds)"
  shows "set ds = module_dependents s p" and "distinct ds"
    and "map_of (wk_pcm s') d = (if d \<in> set ds then None else map_of (wk_pcm s) d)"
    and "map_of (wk_pcm_paths s') d = (if d \<in> set ds then None else map_of (wk_pcm_paths s) d)"
proof -
  have same: "wk_graph (rescan_module env w p s) = wk_graph s" "wk_pcm (rescan_module env w p s) = wk_pcm s"
    "wk_pcm_paths (rescan_module env w p s) = wk_pcm_paths s"
    by (auto simp: rescan_module_def Let_def split: sum.split)
  have "set ds = module_dependents s p \<and> distinct ds
    \<and> map_of (wk_pcm s') d = (if d \<in> set ds then None else map_of (wk_pcm s) d)
    \<and> map_of (wk_pcm_paths s') d = (if d \<in> set ds then None else map_of (wk_pcm_paths s) d)"
  proof (cases "wk_graph s")
    case None
    then show ?thesis using assms same by (auto simp: ws_file_saved_def Let_def module_dependents_def)
  next
    case (Some g)
    obtain g' where u: "Compile_Graph.update p g = (g', ds)" and s': "s' = fold forget_pcm ds ((rescan_module env w p s)\<lparr>wk_graph := Some g'\<rparr>)"
      using assms Some same by (auto simp: ws_file_saved_def Let_def split: prod.splits)
    have "set ds = module_dependents s p \<and> distinct ds"
      using update_dirtied [of g p] update_missing [of g p] u Some by (cases "has_unit g p") (auto simp: module_dependents_def)
    then show ?thesis by (simp add: s' forget_pcms same)
  qed
  then show "set ds = module_dependents s p" and "distinct ds"
    and "map_of (wk_pcm s') d = (if d \<in> set ds then None else map_of (wk_pcm s) d)"
    and "map_of (wk_pcm_paths s') d = (if d \<in> set ds then None else map_of (wk_pcm_paths s) d)" by blast+
qed

lemma workspace_after_save:
  "sv_ws (fold mark_dirtied ds sv) = sv_ws sv" "sv_ws (fold drop_header_context es sv) = sv_ws sv"
proof (induction ds arbitrary: sv)
  case (Cons d ds)
  { case 1 then show ?case using Cons(1) by (simp add: mark_dirtied_def upd_session_def enqueue_file_def split: option.split) }
  { case 2 then show ?case using Cons(2) by simp }
next
  case Nil
  { case 1 then show ?case by simp }
  { case 2 then show ?case
      by (induction es arbitrary: sv) (auto simp: drop_header_context_def upd_session_def split: option.split prod.split) }
qed


subsection \<open>What is lost\<close>

lemma drop_other:
  assumes "\<forall>e\<in>set es. snd e = i \<longrightarrow> fst e = p"
    and "ls_header_context (sv_objects sv ! i) = Some ctx" and "host_path_id ctx \<noteq> p"
  shows "sv_objects (fold drop_header_context es sv) ! i = sv_objects sv ! i"
  using assms
proof (induction es arbitrary: sv)
  case (Cons e es)
  have "sv_objects (drop_header_context e sv) ! i = sv_objects sv ! i"
    using Cons.prems
    by (cases "snd e = i") (auto simp: drop_header_context_def upd_session_def split: option.split prod.split)
  then show ?case using Cons.IH [of "drop_header_context e sv"] Cons.prems by simp
qed simp

lemma mark_other:
  assumes "\<forall>d\<in>set ds. find_session sv d \<noteq> Some i"
  shows "sv_objects (fold mark_dirtied ds sv) ! i = sv_objects sv ! i"
  using assms
proof (induction ds arbitrary: sv)
  case (Cons d ds)
  have "sv_objects (mark_dirtied d sv) ! i = sv_objects sv ! i"
    using Cons.prems by (auto simp: mark_dirtied_def upd_session_def enqueue_file_def split: option.split)
  moreover have "find_session (mark_dirtied d sv) = find_session sv" by (rule find_session_cong) simp
  ultimately show ?case using Cons.IH [of "mark_dirtied d sv"] Cons.prems by simp
qed simp

text \<open>
  Saving a host file does not reach the headers that are compiled in its context. When file \<open>h\<close> is saved, an open
  header whose stored context has \<open>h\<close> as its host keeps that context and stays as clean as it was, unless the module
  graph reports the header itself: the loop meant for it compares the host with the header's own id.
\<close>

theorem host_save_ignored:
  assumes "find_session sv p = Some i" and "\<forall>e\<in>set (sv_sessions sv). snd e = i \<longrightarrow> fst e = p"
    and "ls_header_context (sv_objects sv ! i) = Some ctx" and "host_path_id ctx = h" and "h \<noteq> p"
    and "ws_file_saved (ae_ws (se_args env)) (sv_world sv) h (sv_ws sv) = (ws, dirtied)" and "p \<notin> set dirtied"
  shows "sv_objects (on_file_saved env h sv) ! i = sv_objects sv ! i"
proof -
  let ?sv1 = "fold mark_dirtied dirtied (sv\<lparr>sv_ws := ws\<rparr>)"
  have "find_session (sv\<lparr>sv_ws := ws\<rparr>) d \<noteq> Some i" if "d \<in> set dirtied" for d
  proof
    assume "find_session (sv\<lparr>sv_ws := ws\<rparr>) d = Some i"
    then have "(d, i) \<in> set (sv_sessions sv)" by (simp add: find_session_def map_of_SomeD)
    then have "d = p" using assms(2) by fastforce
    then show False using assms(7) that by simp
  qed
  then have 1: "sv_objects ?sv1 ! i = sv_objects sv ! i" using mark_other [of dirtied "sv\<lparr>sv_ws := ws\<rparr>" i] by simp
  have "sv_sessions ?sv1 = sv_sessions sv"
    using after_save_fold [OF after_save_mark, where sv = "sv\<lparr>sv_ws := ws\<rparr>" and xs = dirtied] by (simp add: after_save_def)
  then have "sv_objects (fold drop_header_context (sv_sessions ?sv1) ?sv1) ! i = sv_objects ?sv1 ! i"
    using assms(2-5) 1 by (intro drop_other [where ctx = ctx]) auto
  then show ?thesis using 1 by (simp add: on_file_saved_def assms(6) Let_def schedule_indexing_def)
qed

text \<open>
  A change of context during a compile is lost. When \<open>clice/switchContext\<close> marks a session for recompilation while
  the worker has its compile, and the worker then answers, the session counts as clean in the new context although the
  answer is for arguments found before; the next request is served without a compile as long as no dependency changes.
\<close>

theorem context_switch_lost:
  fixes env :: "'w server_env"
  assumes "find_session sv p = Some i" and "i < length (sv_objects sv)" and "k < length (sv_tasks sv)"
    and "ct_session (sv_tasks sv ! k) = i" and "ct_gen (sv_tasks sv ! k) = ls_generation (sv_objects sv ! i)"
    and "compile_answered env k (Some r) (fst (use_context p c sv)) = sv'"
  shows "snd (use_context p c sv) \<and> ls_ast_dirty (sv_objects (fst (use_context p c sv)) ! i)
    \<and> ls_active_context (sv_objects sv' ! i) = Some c \<and> ls_header_context (sv_objects sv' ! i) = None
    \<and> \<not> ls_ast_dirty (sv_objects sv' ! i)
    \<and> (\<not> is_stale env sv' (sv_objects sv' ! i) \<longrightarrow>
         ensure_compiled env i sv' = sv'\<lparr>sv_waiters := sv_waiters sv' @
           [\<lparr>wt_session = i, wt_gen = ls_generation (sv_objects sv' ! i), wt_phase = Returned True\<rparr>]\<rparr>)"
proof -
  let ?f = "\<lambda>s. s\<lparr>ls_active_context := Some c, ls_header_context := None, ls_pch_ref := None, ls_ast_deps := None, ls_ast_dirty := True\<rparr>"
  have u: "use_context p c sv = (upd_session i ?f sv, True)" using assms(1) by (simp add: use_context_def)
  obtain pool snap where cap: "capture_deps_snapshot (ae_ws (se_args env)) (sv_world sv) (sv_world sv) (cr_deps r) (wk_pool (sv_ws sv)) = (pool, snap)"
    by fastforce
  have "ls_active_context (sv_objects sv' ! i) = Some c \<and> ls_header_context (sv_objects sv' ! i) = None \<and> \<not> ls_ast_dirty (sv_objects sv' ! i)"
    unfolding assms(6) [symmetric] u using assms(2-5)
    by (cases "cr_index r")
      (auto simp: compile_answered_def Let_def set_task_def send_def schedule_indexing_def store_result_def upd_pending_def upd_session_def cap)
  moreover have "snd (use_context p c sv) \<and> ls_ast_dirty (sv_objects (fst (use_context p c sv)) ! i)"
    using assms(2) by (simp add: u upd_session_def)
  ultimately show ?thesis by (simp add: ensure_compiled_def Let_def)
qed

section \<open>Examples\<close>

definition ex_server_env :: "files server_env" where
  "ex_server_env = \<lparr>se_args = ex_args_env, se_index = ex_env, se_accepts = True\<rparr>"

definition ex_server :: "files server" where
  "ex_server = \<lparr>sv_lifecycle = Ready, sv_config = empty_config, sv_db = empty_database,
     sv_ws = \<lparr>wk_pool = empty_pool, wk_store = None, wk_deps = empty_dependency_graph, wk_graph = Some (index_unit 0 empty_graph),
       wk_modules = [], wk_pch = [], wk_pcm = [], wk_pcm_paths = []\<rparr>,
     sv_world = [], sv_sched = sched_init, sv_objects = [], sv_sessions = [], sv_pendings = [], sv_tasks = [], sv_waiters = [], sv_out = [],
     sv_aborted = False\<rparr>"

definition ex_result :: compile_result where
  "ex_result = \<lparr>cr_deps = [], cr_index = None, cr_diagnostics = []\<rparr>"

definition ex_worker :: "compile_params \<Rightarrow> compile_result option \<Rightarrow> bool" where
  "ex_worker q r \<longleftrightarrow> r = None \<or> r = Some ex_result"

text \<open>A header is opened, a request asks for it, its dependencies are ready, and the worker answers.\<close>

definition ex_opened :: "files server" where "ex_opened = did_open ex_server_env ''x.h'' 1 ''t'' ex_server"
definition ex_asked :: "files server" where "ex_asked = ensure_compiled ex_server_env 0 ex_opened"
definition ex_sent :: "files server" where "ex_sent = deps_ready 0 True ([], 0) [] ex_asked"
definition ex_answered :: "files server" where "ex_answered = compile_answered ex_server_env 0 (Some ex_result) ex_sent"

lemma ex_opened_eq:
  "sv_objects ex_opened = [new_session\<lparr>ls_version := 1, ls_text := ''t'', ls_line_starts := ex_starts ''t'', ls_generation := 1\<rparr>]"
  "sv_sessions ex_opened = [(0, 0)]" "sv_pendings ex_opened = []" "sv_tasks ex_opened = []" "sv_waiters ex_opened = []"
  "wk_pool (sv_ws ex_opened) = \<lparr>pool_paths = [''x.h''], pool_cache = [''x.h'' \<mapsto> 0]\<rparr>" "sv_aborted ex_opened = False"
  "sv_config ex_opened = empty_config" "sv_db ex_opened = empty_database" "sv_world ex_opened = []"
  "wk_deps (sv_ws ex_opened) = empty_dependency_graph" "wk_graph (sv_ws ex_opened) = Some (index_unit 0 empty_graph)"
  "sv_sched ex_opened = sched_init"
  by (simp_all add: ex_opened_def did_open_def ex_server_def intern_path_def intern_def normalize_path_def empty_pool_def Let_def
      open_session_def find_session_def upd_session_def ex_server_env_def ex_env_def new_session_def)

lemma ex_fill:
  "fill_compile_args ex_args_env empty_config empty_dependency_graph ''x.h'' (Some None)
     \<lparr>fs_db = empty_database, fs_pool = \<lparr>pool_paths = [''x.h''], pool_cache = [''x.h'' \<mapsto> 0]\<rparr>, fs_world = [], fs_header = None\<rparr>
   = (\<lparr>fs_db = empty_database\<lparr>db_paths := \<lparr>pool_paths = [''x.h''], pool_cache = [''x.h'' \<mapsto> 0]\<rparr>\<rparr>,
       fs_pool = \<lparr>pool_paths = [''x.h''], pool_cache = [''x.h'' \<mapsto> 0]\<rparr>, fs_world = [], fs_header = None\<rparr>, Gives ([], [''clang'', ''x.h'']))"
  by (simp add: fill_compile_args_def active_context_def ex_args_env_def db_lookup_def empty_database_def intern_def normalize_path_def empty_pool_def Let_def
        find_entries_def default_command_def ends_with_def ex_cmd_env_def rule_options_def match_rules_def empty_config_def
        command_args_def to_string_argv_def to_argv_def strings_of_def resolve_def)

lemma ex_asked_eq:
  "sv_objects ex_asked = [new_session\<lparr>ls_version := 1, ls_text := ''t'', ls_line_starts := ex_starts ''t'', ls_generation := 1, ls_compiling := Some 0\<rparr>]"
  "sv_sessions ex_asked = [(0, 0)]"
  "sv_pendings ex_asked = [\<lparr>pc_done = False, pc_succeeded = False, pc_generation = 1, pc_deps_done = False, pc_cancelled = False\<rparr>]"
  "sv_tasks ex_asked = [\<lparr>ct_session = 0, ct_pending = 0, ct_gen = 1,
     ct_params = \<lparr>cq_path = ''x.h'', cq_version = 1, cq_text = ''t'', cq_directory = [], cq_arguments = [''clang'', ''x.h''], cq_pch = ([], 0), cq_pcms = []\<rparr>,
     ct_phase = Preparing\<rparr>]"
  "sv_waiters ex_asked = [\<lparr>wt_session = 0, wt_gen = 1, wt_phase = WaitFinal 0\<rparr>]"
  "wk_pool (sv_ws ex_asked) = \<lparr>pool_paths = [''x.h''], pool_cache = [''x.h'' \<mapsto> 0]\<rparr>" "sv_aborted ex_asked = False"
  "sv_config ex_asked = empty_config" "sv_world ex_asked = []" "sv_sched ex_asked = sched_init"
  "wk_graph (sv_ws ex_asked) = Some (index_unit 0 empty_graph)"
  by (simp_all add: ex_asked_def ensure_compiled_def ensure_loop_def launch_compile_def run_compile_def session_args_def Let_def upd_session_def
      ex_opened_eq new_session_def ex_server_env_def path_of_def resolve_def ex_fill)

lemma ex_sent_eq:
  "sv_objects ex_sent = sv_objects ex_asked" "sv_sessions ex_sent = [(0, 0)]"
  "sv_pendings ex_sent = [\<lparr>pc_done = False, pc_succeeded = False, pc_generation = 1, pc_deps_done = True, pc_cancelled = False\<rparr>]"
  "sv_tasks ex_sent = [(sv_tasks ex_asked ! 0)\<lparr>ct_phase := Sending\<rparr>]" "sv_waiters ex_sent = sv_waiters ex_asked"
  "wk_graph (sv_ws ex_sent) = Some (index_unit 0 empty_graph)" "sv_aborted ex_sent = False" "sv_world ex_sent = []" "wk_pool (sv_ws ex_sent) = wk_pool (sv_ws ex_asked)"
  by (simp_all add: ex_sent_def deps_ready_def Let_def upd_pending_def set_task_def ex_asked_eq new_session_def)

lemma ex_answered_eq:
  "sv_objects ex_answered = [new_session\<lparr>ls_version := 1, ls_text := ''t'', ls_line_starts := ex_starts ''t'', ls_generation := 1,
     ls_ast_dirty := False, ls_ast_deps := Some \<lparr>snap_path_ids = [], snap_hashes = [], snap_build_at = 10\<rparr>\<rparr>]"
  "sv_aborted ex_answered = False" "sv_sessions ex_answered = [(0, 0)]" "sv_world ex_answered = []"
  "wk_graph (sv_ws ex_answered) = Some (index_unit 0 empty_graph)"
  by (simp_all add: ex_answered_def compile_answered_def Let_def set_task_def ex_sent_eq ex_asked_eq store_result_def capture_deps_snapshot_def
      ex_result_def ex_server_env_def ex_args_env_def ex_ws_env_def finish_compile_def upd_pending_def upd_session_def send_def
      schedule_indexing_def new_session_def)

lemma ex_reached:
  shows "reached server_start (server_step ex_server_env ex_worker) ex_opened"
    and "reached server_start (server_step ex_server_env ex_worker) ex_asked"
    and "reached server_start (server_step ex_server_env ex_worker) ex_sent"
    and "reached server_start (server_step ex_server_env ex_worker) ex_answered"
proof -
  let ?r = "reached server_start (server_step ex_server_env ex_worker)"
  have "?r ex_server" by (rule reached_init) (simp add: server_start_def ex_server_def)
  then show o: "?r ex_opened" unfolding ex_opened_def by (rule reached_step) (rule step_open, simp add: ex_server_def)
  then show a: "?r ex_asked" unfolding ex_asked_def
    by (rule reached_step) (rule step_request [where p = 0], simp_all add: ex_opened_eq find_session_def)
  then show s: "?r ex_sent" unfolding ex_sent_def by (rule reached_step) (rule step_deps, simp_all add: ex_asked_eq)
  then show "?r ex_answered" unfolding ex_answered_def
    by (rule reached_step) (rule step_answer, simp_all add: ex_sent_eq ex_asked_eq ex_worker_def)
qed

theorem clean_session_is_current_witness:
  "\<exists>q r. ex_worker q (Some r) \<and> cq_text q = ''t'' \<and> cq_version q = 1"
  using clean_session_is_current [OF ex_reached(4), of 0] by (auto simp: ex_answered_eq new_session_def)

theorem one_compile_at_the_worker_witness: "ls_compiling (sv_objects ex_sent ! 0) = Some 0"
  using one_compile_at_the_worker [OF ex_reached(3), of 0] by (simp add: ex_sent_eq ex_asked_eq)

theorem no_request_stuck_witness: "\<exists>k<length (sv_tasks ex_asked). ct_pending (sv_tasks ex_asked ! k) = 0 \<and> ct_phase (sv_tasks ex_asked ! k) \<noteq> Over"
  using no_request_stuck [OF ex_reached(2), of "\<lparr>wt_session = 0, wt_gen = 1, wt_phase = WaitFinal 0\<rparr>" 0] by (simp add: ex_asked_eq)

lemma saved_dirtied:
  assumes "os_buffer (we_os env) (path_of (wk_pool s) p) w = Inl e" and "wk_graph s = Some g"
  shows "snd (ws_file_saved env w p s) = snd (Compile_Graph.update p g)"
  using assms by (simp add: ws_file_saved_def rescan_module_def split: prod.split)

lemma ex_no_file: "os_buffer (we_os (ae_ws (se_args ex_server_env))) f [] = Inl No_such_file"
  by (simp add: ex_server_env_def ex_args_env_def ex_ws_env_def mem_os_def)


theorem host_save_ignored_witness:
  "sv_objects (on_file_saved ex_server_env 1 (ex_opened\<lparr>sv_objects := [new_session\<lparr>ls_header_context := Some \<lparr>host_path_id = 1, preamble_path = [], preamble_hash = 0\<rparr>\<rparr>]\<rparr>)) ! 0
   = new_session\<lparr>ls_header_context := Some \<lparr>host_path_id = 1, preamble_path = [], preamble_hash = 0\<rparr>\<rparr>"
proof -
  let ?sv = "ex_opened\<lparr>sv_objects := [new_session\<lparr>ls_header_context := Some \<lparr>host_path_id = 1, preamble_path = [], preamble_hash = 0\<rparr>\<rparr>]\<rparr>"
  let ?s = "ws_file_saved (ae_ws (se_args ex_server_env)) (sv_world ?sv) 1 (sv_ws ?sv)"
  have "snd ?s = []"
    by (subst saved_dirtied [where g = "index_unit 0 empty_graph"])
      (simp_all add: ex_opened_eq ex_no_file Compile_Graph.update_def index_unit_def empty_graph_def)
  then have "?s = (fst ?s, [])" by (metis prod.collapse)
  from host_save_ignored [OF _ _ _ _ _ this, of 0 0] show ?thesis by (simp add: ex_opened_eq find_session_def)
qed

theorem context_switch_lost_witness:
  "\<not> ls_ast_dirty (sv_objects (compile_answered ex_server_env 0 (Some ex_result) (fst (use_context 0 7 ex_sent))) ! 0)"
  using context_switch_lost [of ex_sent 0 0 0 ex_server_env ex_result 7] by (simp add: ex_sent_eq ex_asked_eq find_session_def new_session_def)

end
