(* ===== verification/Stateful_Worker.thy ===== *)
theory Stateful_Worker
  imports Worker_Protocol "HOL-Library.AList"
begin

text \<open>
  \<open>src/src/server/worker/stateful_worker.cpp\<close>: the worker process that keeps the syntax trees of open
  documents. A document entry is a shared object, named by its index; a list iterator is the number of
  its node. A request handler is a job with the point it is suspended at, and the work it gives to the
  thread pool is a step of its own. The compiler and the features are parameters.
\<close>

section \<open>State\<close>

text \<open>The fields copied from the request, the syntax tree (none before the first compilation), and the lock.\<close>

record 'u document =
  doc_version :: int
  doc_text :: string
  doc_directory :: string
  doc_arguments :: "string list"
  doc_pch :: "string \<times> u32"
  doc_pcms :: "(string \<times> string) list"
  doc_unit :: "'u option"
  doc_dirty :: bool
  doc_ast_ready :: bool
  doc_strand :: bool

definition new_document :: "'u document" where
  "new_document = \<lparr>doc_version = 0, doc_text = [], doc_directory = [], doc_arguments = [], doc_pch = ([], 0), doc_pcms = [],
     doc_unit = None, doc_dirty = False, doc_ast_ready = False, doc_strand = False\<rparr>"

datatype compile_phase = WantStrand | Compiling | Compiled | Finished

record compile_job =
  cj_doc :: nat
  cj_params :: compile_params
  cj_phase :: compile_phase

datatype query_phase = WantAst | WantLock | Querying | Queried string | Answered string

record query_job =
  qj_doc :: nat
  qj_params :: query_params
  qj_phase :: query_phase

record 'u stateful =
  documents :: "(string \<times> nat) list"
  doc_objects :: "'u document list"
  lru :: "(nat \<times> string) list"
  lru_index :: "(string \<times> nat) list"
  lru_next :: nat
  jobs :: "compile_job list"
  queries :: "query_job list"
  evictions :: "string list"

definition empty_worker :: "'u stateful" where
  "empty_worker = \<lparr>documents = [], doc_objects = [], lru = [], lru_index = [], lru_next = 0, jobs = [], queries = [], evictions = []\<rparr>"

text \<open>\<open>wk_compile\<close> is \<open>compile\<close>, \<open>wk_usable\<close> whether a unit is completed or ended in a fatal error.\<close>

record 'u worker_env =
  wk_compile :: "compile_params \<Rightarrow> 'u"
  wk_usable :: "'u \<Rightarrow> bool"
  wk_hover :: "'u \<Rightarrow> u32 \<Rightarrow> string option"
  wk_hints :: "'u \<Rightarrow> u32 \<times> u32 \<Rightarrow> string"
  wk_feature :: "query_kind \<Rightarrow> 'u \<Rightarrow> string"

section \<open>Documents and their recency\<close>

definition erase_node :: "nat \<Rightarrow> (nat \<times> string) list \<Rightarrow> (nat \<times> string) list" where
  "erase_node n xs = filter (\<lambda>e. fst e \<noteq> n) xs"

definition touch_lru :: "string \<Rightarrow> 'u stateful \<Rightarrow> 'u stateful" where
  "touch_lru path w =
     (let rest = (case map_of (lru_index w) path of None \<Rightarrow> lru w | Some n \<Rightarrow> erase_node n (lru w)) in
      w\<lparr>lru := (lru_next w, path) # rest, lru_index := AList.update path (lru_next w) (lru_index w), lru_next := Suc (lru_next w)\<rparr>)"

definition drop_last :: "'u stateful \<Rightarrow> 'u stateful" where
  "drop_last w =
     (let path = snd (last (lru w)) in
      w\<lparr>lru := butlast (lru w), lru_index := AList.delete path (lru_index w), evictions := evictions w @ [path],
        documents := AList.delete path (documents w)\<rparr>)"

text \<open>The loop pops one entry of the list each time; the memory limit is not used yet.\<close>

function shrink_if_over_limit :: "'u stateful \<Rightarrow> 'u stateful" where
  "shrink_if_over_limit w = (if 16 < length (documents w) \<and> lru w \<noteq> [] then shrink_if_over_limit (drop_last w) else w)"
  by pat_completeness auto
termination
  by (relation "measure (\<lambda>w. length (lru w))") (auto simp: drop_last_def Let_def)

declare shrink_if_over_limit.simps [simp del]

definition get_or_create :: "string \<Rightarrow> 'u stateful \<Rightarrow> 'u stateful \<times> nat" where
  "get_or_create path w =
     (case map_of (documents w) path of
        Some d \<Rightarrow> (w, d)
      | None \<Rightarrow>
          let d = length (doc_objects w)
          in (w\<lparr>documents := AList.update path d (documents w), doc_objects := doc_objects w @ [new_document]\<rparr>, d))"

definition upd_doc :: "nat \<Rightarrow> ('u document \<Rightarrow> 'u document) \<Rightarrow> 'u stateful \<Rightarrow> 'u stateful" where
  "upd_doc d f w = w\<lparr>doc_objects := (doc_objects w)[d := f (doc_objects w ! d)]\<rparr>"

section \<open>Compile requests\<close>

definition start_compile :: "compile_params \<Rightarrow> 'u stateful \<Rightarrow> 'u stateful" where
  "start_compile q w =
     (case get_or_create (cq_path q) w of (w1, d) \<Rightarrow>
        let w2 = touch_lru (cq_path q) w1
        in w2\<lparr>jobs := jobs w2 @ [\<lparr>cj_doc = d, cj_params = q, cj_phase = WantStrand\<rparr>]\<rparr>)"

definition set_job :: "nat \<Rightarrow> compile_phase \<Rightarrow> 'u stateful \<Rightarrow> 'u stateful" where
  "set_job j ph w = w\<lparr>jobs := (jobs w)[j := (jobs w ! j)\<lparr>cj_phase := ph\<rparr>]\<rparr>"

text \<open>The lock is taken and the fields are copied.\<close>

definition compile_locked :: "nat \<Rightarrow> 'u stateful \<Rightarrow> 'u stateful" where
  "compile_locked j w =
     (let q = cj_params (jobs w ! j) in
      set_job j Compiling
        (upd_doc (cj_doc (jobs w ! j))
           (\<lambda>doc. doc\<lparr>doc_strand := True, doc_version := cq_version q, doc_text := cq_text q, doc_directory := cq_directory q,
              doc_arguments := cq_arguments q, doc_pch := cq_pch q, doc_pcms := cq_pcms q\<rparr>) w))"

text \<open>The thread pool compiles from the fields of the document; the path is the one of the request.\<close>

definition params_of :: "string \<Rightarrow> 'u document \<Rightarrow> compile_params" where
  "params_of path doc =
     \<lparr>cq_path = path, cq_version = doc_version doc, cq_text = doc_text doc, cq_directory = doc_directory doc,
      cq_arguments = doc_arguments doc, cq_pch = doc_pch doc, cq_pcms = doc_pcms doc\<rparr>"

definition compile_worked :: "'u worker_env \<Rightarrow> nat \<Rightarrow> 'u stateful \<Rightarrow> 'u stateful" where
  "compile_worked env j w =
     (let q = cj_params (jobs w ! j) in
      set_job j Compiled
        (upd_doc (cj_doc (jobs w ! j))
           (\<lambda>doc. doc\<lparr>doc_unit := Some (wk_compile env (params_of (cq_path q) doc)), doc_dirty := False\<rparr>) w))"

definition compile_finished :: "nat \<Rightarrow> 'u stateful \<Rightarrow> 'u stateful" where
  "compile_finished j w =
     shrink_if_over_limit
       (set_job j Finished (upd_doc (cj_doc (jobs w ! j)) (\<lambda>doc. doc\<lparr>doc_strand := False, doc_ast_ready := True\<rparr>) w))"

section \<open>Notifications\<close>

definition document_update :: "string \<Rightarrow> 'u stateful \<Rightarrow> 'u stateful" where
  "document_update path w =
     (case map_of (documents w) path of None \<Rightarrow> w | Some d \<Rightarrow> upd_doc d (\<lambda>doc. doc\<lparr>doc_dirty := True\<rparr>) w)"

definition evict :: "string \<Rightarrow> 'u stateful \<Rightarrow> 'u stateful" where
  "evict path w =
     (let w1 = (case map_of (lru_index w) path of
                  None \<Rightarrow> w
                | Some n \<Rightarrow> w\<lparr>lru := erase_node n (lru w), lru_index := AList.delete path (lru_index w)\<rparr>)
      in w1\<lparr>documents := AList.delete path (documents w1)\<rparr>)"

section \<open>Queries\<close>

text \<open>The two kinds that are not implemented, and a document that is not there, are answered at once.\<close>

definition start_query :: "query_params \<Rightarrow> 'u stateful \<Rightarrow> 'u stateful \<times> string option" where
  "start_query q w =
     (if qp_kind q = GoToDefinition \<or> qp_kind q = CodeAction then (w, Some ''[]'')
      else case map_of (documents w) (qp_path q) of
             None \<Rightarrow> (w, Some ''null'')
           | Some d \<Rightarrow>
               let w1 = touch_lru (qp_path q) w
               in (w1\<lparr>queries := queries w1 @ [\<lparr>qj_doc = d, qj_params = q, qj_phase = WantAst\<rparr>]\<rparr>, None))"

definition set_query :: "nat \<Rightarrow> query_phase \<Rightarrow> 'u stateful \<Rightarrow> 'u stateful" where
  "set_query k ph w = w\<lparr>queries := (queries w)[k := (queries w ! k)\<lparr>qj_phase := ph\<rparr>]\<rparr>"

definition query_ready :: "nat \<Rightarrow> 'u stateful \<Rightarrow> 'u stateful" where
  "query_ready k w = set_query k WantLock w"

definition query_locked :: "nat \<Rightarrow> 'u stateful \<Rightarrow> 'u stateful" where
  "query_locked k w = set_query k Querying (upd_doc (qj_doc (queries w ! k)) (\<lambda>doc. doc\<lparr>doc_strand := True\<rparr>) w)"

definition run_feature :: "'u worker_env \<Rightarrow> query_params \<Rightarrow> 'u \<Rightarrow> string \<Rightarrow> string" where
  "run_feature env q u text =
     (case qp_kind q of
        Hover \<Rightarrow> (case wk_hover env u (qp_offset q) of None \<Rightarrow> ''null'' | Some r \<Rightarrow> r)
      | InlayHints \<Rightarrow> wk_hints env u (if fst (qp_range q) = - 1 then (0, of_nat (length text)) else qp_range q)
      | kind \<Rightarrow> wk_feature env kind u)"

definition query_worked :: "'u worker_env \<Rightarrow> nat \<Rightarrow> 'u stateful \<Rightarrow> 'u stateful" where
  "query_worked env k w =
     (let doc = doc_objects w ! qj_doc (queries w ! k) in
      set_query k
        (Queried (case doc_unit doc of
                    None \<Rightarrow> ''null''
                  | Some u \<Rightarrow> if wk_usable env u then run_feature env (qj_params (queries w ! k)) u (doc_text doc) else ''null'')) w)"

definition query_finished :: "nat \<Rightarrow> string \<Rightarrow> 'u stateful \<Rightarrow> 'u stateful" where
  "query_finished k r w = set_query k (Answered r) (upd_doc (qj_doc (queries w ! k)) (\<lambda>doc. doc\<lparr>doc_strand := False\<rparr>) w)"

end
