(* ===== verification/Stateful_Worker_Props.thy ===== *)
theory Stateful_Worker_Props
  imports Stateful_Worker
begin

text \<open>
  The stateful worker as a transition system: requests, notifications and the steps of suspended
  handlers interleave in any order. Four invariants: the recency list names exactly the documents,
  references stay valid, a lock has one holder, and a syntax tree belongs to the fields beside it.
\<close>

section \<open>Steps\<close>

inductive worker_step :: "'u worker_env \<Rightarrow> 'u stateful \<Rightarrow> 'u stateful \<Rightarrow> bool" for env :: "'u worker_env" where
  on_compile: "worker_step env w (start_compile q w)"
| on_compile_locked: "j < length (jobs w) \<Longrightarrow> cj_phase (jobs w ! j) = WantStrand \<Longrightarrow> \<not> doc_strand (doc_objects w ! cj_doc (jobs w ! j)) \<Longrightarrow>
    worker_step env w (compile_locked j w)"
| on_compile_worked: "j < length (jobs w) \<Longrightarrow> cj_phase (jobs w ! j) = Compiling \<Longrightarrow> worker_step env w (compile_worked env j w)"
| on_compile_finished: "j < length (jobs w) \<Longrightarrow> cj_phase (jobs w ! j) = Compiled \<Longrightarrow> worker_step env w (compile_finished j w)"
| on_update: "worker_step env w (document_update path w)"
| on_evict: "worker_step env w (evict path w)"
| on_query: "worker_step env w (fst (start_query r w))"
| on_query_ready: "k < length (queries w) \<Longrightarrow> qj_phase (queries w ! k) = WantAst \<Longrightarrow> doc_ast_ready (doc_objects w ! qj_doc (queries w ! k)) \<Longrightarrow>
    worker_step env w (query_ready k w)"
| on_query_locked: "k < length (queries w) \<Longrightarrow> qj_phase (queries w ! k) = WantLock \<Longrightarrow> \<not> doc_strand (doc_objects w ! qj_doc (queries w ! k)) \<Longrightarrow>
    worker_step env w (query_locked k w)"
| on_query_worked: "k < length (queries w) \<Longrightarrow> qj_phase (queries w ! k) = Querying \<Longrightarrow> worker_step env w (query_worked env k w)"
| on_query_finished: "k < length (queries w) \<Longrightarrow> qj_phase (queries w ! k) = Queried r \<Longrightarrow> worker_step env w (query_finished k r w)"

section \<open>Recency\<close>

definition recency :: "(nat \<times> string) list \<Rightarrow> (string \<times> nat) list \<Rightarrow> nat \<Rightarrow> (string \<times> nat) list \<Rightarrow> bool" where
  "recency l idx n docs \<longleftrightarrow>
     distinct (map fst l) \<and> distinct (map snd l) \<and> (\<forall>e\<in>set l. fst e < n)
     \<and> (\<forall>p m. map_of idx p = Some m \<longleftrightarrow> (m, p) \<in> set l)
     \<and> distinct (map fst docs) \<and> fst ` set docs = snd ` set l"

abbreviation recency_ok :: "'u stateful \<Rightarrow> bool" where
  "recency_ok w \<equiv> recency (lru w) (lru_index w) (lru_next w) (documents w)"

lemma recency_length: "recency l idx n docs \<Longrightarrow> length docs = length l"
  unfolding recency_def by (metis distinct_card length_map list.set_map)

lemma recency_parts:
  assumes "recency l idx n docs"
  shows "distinct (map fst l)" "distinct (map snd l)" "e \<in> set l \<Longrightarrow> fst e < n" "map_of idx p = Some m \<longleftrightarrow> (m, p) \<in> set l"
    "distinct (map fst docs)" "fst ` set docs = snd ` set l"
  using assms unfolding recency_def by blast+

text \<open>A node of a path is erased exactly by its number.\<close>

lemma erase_node_path:
  assumes "distinct (map fst xs)" and "distinct (map snd xs)" and "(n, p) \<in> set xs"
  shows "erase_node n xs = filter (\<lambda>e. snd e \<noteq> p) xs"
proof -
  have "fst e \<noteq> n \<longleftrightarrow> snd e \<noteq> p" if "e \<in> set xs" for e
    using assms that by (metis eq_key_imp_eq_value fst_conv inj_onD distinct_map snd_conv prod.collapse)
  then show ?thesis unfolding erase_node_def by (rule filter_cong [OF refl])
qed

lemma recency_erase:
  assumes "recency l idx n docs"
  shows "(case map_of idx p of None \<Rightarrow> l | Some m \<Rightarrow> erase_node m l) = filter (\<lambda>e. snd e \<noteq> p) l"
proof (cases "map_of idx p")
  case None
  then have "snd e \<noteq> p" if "e \<in> set l" for e
    using recency_parts(4) [OF assms, of p "fst e"] that by auto
  then have "filter (\<lambda>e. snd e \<noteq> p) l = l" by (simp add: filter_id_conv)
  then show ?thesis using None by simp
next
  case (Some m)
  have "(m, p) \<in> set l" using Some recency_parts(4) [OF assms] by simp
  then show ?thesis using Some erase_node_path [OF recency_parts(1,2) [OF assms]] by simp
qed

lemma recency_front:
  assumes ok: "recency l idx n docs" and ds: "distinct (map fst docs')" "fst ` set docs' = insert p (fst ` set docs)"
  shows "recency ((n, p) # filter (\<lambda>e. snd e \<noteq> p) l) (AList.update p n idx) (Suc n) docs'"
proof -
  note parts = recency_parts [OF ok]
  let ?rest = "filter (\<lambda>e. snd e \<noteq> p) l"
  have new: "n \<notin> fst ` set ?rest" using parts(3) by fastforce
  have d: "distinct (map fst ?rest)" "distinct (map snd ?rest)" using parts(1,2) by (simp_all add: distinct_map_filter)
  have idx: "map_of (AList.update p n idx) q = Some m \<longleftrightarrow> (m, q) \<in> set ((n, p) # ?rest)" for q m
    by (auto simp: update_conv' parts(4))
  have "snd ` set ?rest = snd ` set l - {p}" by auto
  then have dom: "fst ` set docs' = snd ` set ((n, p) # ?rest)" using ds(2) parts(6) by auto
  have low: "fst e < Suc n" if "e \<in> set ((n, p) # ?rest)" for e using that parts(3) [of e] by auto
  have "distinct (map fst ((n, p) # ?rest))" "distinct (map snd ((n, p) # ?rest))" using new d by auto
  then show ?thesis unfolding recency_def using low idx ds(1) dom by blast
qed

lemma recency_without:
  assumes ok: "recency l idx n docs"
  shows "recency (filter (\<lambda>e. snd e \<noteq> p) l) (AList.delete p idx) n (AList.delete p docs)"
proof -
  note parts = recency_parts [OF ok]
  have "map_of (AList.delete p idx) q = Some m \<longleftrightarrow> (m, q) \<in> set (filter (\<lambda>e. snd e \<noteq> p) l)" for q m
    by (auto simp: delete_conv' parts(4))
  moreover have "fst ` set (AList.delete p docs) = snd ` set (filter (\<lambda>e. snd e \<noteq> p) l)"
  proof -
    have "fst ` set (AList.delete p docs) = fst ` set docs - {p}" by (auto simp: AList.delete_eq)
    moreover have "snd ` set (filter (\<lambda>e. snd e \<noteq> p) l) = snd ` set l - {p}" by auto
    ultimately show ?thesis using parts(6) by simp
  qed
  moreover have "distinct (map fst (filter (\<lambda>e. snd e \<noteq> p) l))" "distinct (map snd (filter (\<lambda>e. snd e \<noteq> p) l))"
    "distinct (map fst (AList.delete p docs))"
    using parts(1,2,5) by (simp_all add: distinct_map_filter distinct_delete)
  moreover have "fst e < n" if "e \<in> set (filter (\<lambda>e. snd e \<noteq> p) l)" for e using that parts(3) by auto
  ultimately show ?thesis unfolding recency_def by blast
qed

lemma last_path:
  assumes "recency l idx n docs" and "l \<noteq> []"
  shows "filter (\<lambda>e. snd e \<noteq> snd (last l)) l = butlast l"
proof -
  obtain xs x where xs: "l = xs @ [x]" using assms(2) by (metis append_butlast_last_id)
  have "snd x \<notin> snd ` set xs" using recency_parts(2) [OF assms(1)] by (simp add: xs)
  then have "snd e \<noteq> snd x" if "e \<in> set xs" for e using that by (metis image_eqI)
  then show ?thesis by (simp add: xs filter_id_conv)
qed

lemma recency_drop_last: "recency_ok w \<Longrightarrow> lru w \<noteq> [] \<Longrightarrow> recency_ok (drop_last w)"
  using recency_without [of "lru w" "lru_index w" "lru_next w" "documents w" "snd (last (lru w))"]
  by (simp add: drop_last_def Let_def last_path)

lemma recency_shrink:
  assumes "recency_ok w"
  shows "recency_ok (shrink_if_over_limit w) \<and> length (documents (shrink_if_over_limit w)) \<le> 16"
  using assms
proof (induction w rule: shrink_if_over_limit.induct)
  case (1 w)
  show ?case
  proof (cases "16 < length (documents w) \<and> lru w \<noteq> []")
    case True
    then show ?thesis using 1 recency_drop_last [of w] by (simp add: shrink_if_over_limit.simps [of w])
  next
    case False
    then show ?thesis using 1 recency_length [OF "1.prems"] by (auto simp: shrink_if_over_limit.simps [of w])
  qed
qed

lemma shrink_keeps:
  "doc_objects (shrink_if_over_limit w) = doc_objects w" "jobs (shrink_if_over_limit w) = jobs w"
  "queries (shrink_if_over_limit w) = queries w" "set (documents (shrink_if_over_limit w)) \<subseteq> set (documents w)"
proof -
  have "doc_objects (shrink_if_over_limit w) = doc_objects w \<and> jobs (shrink_if_over_limit w) = jobs w
     \<and> queries (shrink_if_over_limit w) = queries w \<and> set (documents (shrink_if_over_limit w)) \<subseteq> set (documents w)"
  proof (induction w rule: shrink_if_over_limit.induct)
    case (1 w)
    have "set (documents (drop_last w)) \<subseteq> set (documents w)" by (auto simp: drop_last_def Let_def AList.delete_eq)
    then show ?case using 1 by (subst shrink_if_over_limit.simps) (auto simp: drop_last_def Let_def shrink_if_over_limit.simps [of w])
  qed
  then show "doc_objects (shrink_if_over_limit w) = doc_objects w" "jobs (shrink_if_over_limit w) = jobs w"
    "queries (shrink_if_over_limit w) = queries w" "set (documents (shrink_if_over_limit w)) \<subseteq> set (documents w)" by blast+
qed

lemma recency_touch:
  assumes "recency_ok w" and "distinct (map fst docs')" and "fst ` set docs' = insert p (fst ` set (documents w))"
  shows "recency_ok (touch_lru p (w\<lparr>documents := docs', doc_objects := os\<rparr>))"
  using recency_front [OF assms] recency_erase [OF assms(1), of p] by (simp add: touch_lru_def Let_def cong: option.case_cong)

lemma recency_start:
  assumes ok: "recency_ok w"
  shows "recency_ok (start_compile q w)"
proof -
  let ?p = "cq_path q"
  have "recency_ok (touch_lru ?p (fst (get_or_create ?p w)))"
  proof (cases "map_of (documents w) ?p")
    case None
    then show ?thesis
      using recency_touch [OF ok, of "AList.update ?p (length (doc_objects w)) (documents w)" ?p "doc_objects w @ [new_document]"] recency_parts(5) [OF ok]
      by (simp add: get_or_create_def Let_def dom_update distinct_update)
  next
    case (Some d)
    then have "?p \<in> fst ` set (documents w)" by (force dest: map_of_SomeD)
    then show ?thesis using Some recency_touch [OF ok, of "documents w" ?p "doc_objects w"] recency_parts(5) [OF ok]
      by (simp add: get_or_create_def insert_absorb)
  qed
  then show ?thesis by (simp add: start_compile_def Let_def split_beta)
qed

lemma recency_query: "recency_ok w \<Longrightarrow> recency_ok (fst (start_query q w))"
proof (cases "map_of (documents w) (qp_path q)")
  case (Some d)
  assume ok: "recency_ok w"
  have "qp_path q \<in> fst ` set (documents w)" using Some by (force dest: map_of_SomeD)
  then show ?thesis using ok Some recency_touch [OF ok, of "documents w" "qp_path q" "doc_objects w"] recency_parts(5) [OF ok]
    by (simp add: start_query_def Let_def insert_absorb)
qed (simp add: start_query_def)

lemma recency_evict:
  assumes ok: "recency_ok w"
  shows "recency_ok (evict p w)"
proof (cases "map_of (lru_index w) p")
  case None
  then have "AList.delete p (lru_index w) = lru_index w" by (simp add: map_of_eq_None_iff delete_id)
  moreover have "filter (\<lambda>e. snd e \<noteq> p) (lru w) = lru w" using recency_erase [OF ok, of p] None by simp
  ultimately show ?thesis using recency_without [OF ok, of p] None by (simp add: evict_def)
next
  case (Some n)
  then show ?thesis using recency_without [OF ok, of p] recency_erase [OF ok, of p] by (simp add: evict_def)
qed

section \<open>Locks and trees\<close>

definition holds_compile :: "nat \<Rightarrow> compile_job \<Rightarrow> bool" where
  "holds_compile d c \<longleftrightarrow> cj_doc c = d \<and> (cj_phase c = Compiling \<or> cj_phase c = Compiled)"

definition holds_query :: "nat \<Rightarrow> query_job \<Rightarrow> bool" where
  "holds_query d k \<longleftrightarrow> qj_doc k = d \<and> (qj_phase k = Querying \<or> (\<exists>r. qj_phase k = Queried r))"

text \<open>What a document entry and the compile jobs for it know of each other.\<close>

definition tree_ok :: "'u worker_env \<Rightarrow> compile_job list \<Rightarrow> nat \<Rightarrow> 'u document \<Rightarrow> bool" where
  "tree_ok env js d doc \<longleftrightarrow>
     (doc_ast_ready doc \<or> (\<exists>c\<in>set js. cj_doc c = d \<and> cj_phase c \<noteq> Finished))
     \<and> (doc_ast_ready doc \<longrightarrow> doc_unit doc \<noteq> None)
     \<and> (\<forall>c\<in>set js. cj_doc c = d \<longrightarrow> cj_phase c = Compiled \<longrightarrow> doc_unit doc \<noteq> None)
     \<and> (\<forall>c\<in>set js. cj_doc c = d \<longrightarrow> cj_phase c = Compiling \<longrightarrow> params_of (cq_path (cj_params c)) doc = cj_params c)
     \<and> (\<forall>u. doc_unit doc = Some u \<longrightarrow> (\<exists>c\<in>set js. cj_doc c = d \<and> cj_phase c = Compiling)
          \<or> (\<exists>c\<in>set js. cj_doc c = d \<and> u = wk_compile env (params_of (cq_path (cj_params c)) doc)))"

lemma tree_okI:
  assumes "doc_ast_ready doc \<or> (\<exists>c\<in>set js. cj_doc c = d \<and> cj_phase c \<noteq> Finished)"
    and "doc_ast_ready doc \<Longrightarrow> doc_unit doc \<noteq> None"
    and "\<And>c. c \<in> set js \<Longrightarrow> cj_doc c = d \<Longrightarrow> cj_phase c = Compiled \<Longrightarrow> doc_unit doc \<noteq> None"
    and "\<And>c. c \<in> set js \<Longrightarrow> cj_doc c = d \<Longrightarrow> cj_phase c = Compiling \<Longrightarrow> params_of (cq_path (cj_params c)) doc = cj_params c"
    and "\<And>u. doc_unit doc = Some u \<Longrightarrow> (\<exists>c\<in>set js. cj_doc c = d \<and> cj_phase c = Compiling)
          \<or> (\<exists>c\<in>set js. cj_doc c = d \<and> u = wk_compile env (params_of (cq_path (cj_params c)) doc))"
  shows "tree_ok env js d doc"
  unfolding tree_ok_def using assms by simp

lemma tree_parts:
  assumes "tree_ok env js d doc"
  shows "doc_ast_ready doc \<or> (\<exists>c\<in>set js. cj_doc c = d \<and> cj_phase c \<noteq> Finished)"
    and "doc_ast_ready doc \<Longrightarrow> doc_unit doc \<noteq> None"
    and "c \<in> set js \<Longrightarrow> cj_doc c = d \<Longrightarrow> cj_phase c = Compiled \<Longrightarrow> doc_unit doc \<noteq> None"
    and "c \<in> set js \<Longrightarrow> cj_doc c = d \<Longrightarrow> cj_phase c = Compiling \<Longrightarrow> params_of (cq_path (cj_params c)) doc = cj_params c"
    and "doc_unit doc = Some u \<Longrightarrow> (\<exists>c\<in>set js. cj_doc c = d \<and> cj_phase c = Compiling)
          \<or> (\<exists>c\<in>set js. cj_doc c = d \<and> u = wk_compile env (params_of (cq_path (cj_params c)) doc))"
  using assms unfolding tree_ok_def by simp_all

definition refs_ok :: "nat \<Rightarrow> compile_job list \<Rightarrow> query_job list \<Rightarrow> (string \<times> nat) list \<Rightarrow> bool" where
  "refs_ok n js qs docs \<longleftrightarrow>
     (\<forall>c\<in>set js. cj_doc c < n)
     \<and> (\<forall>c\<in>set js. \<forall>c'\<in>set js. cj_doc c = cj_doc c' \<longrightarrow> cq_path (cj_params c) = cq_path (cj_params c'))
     \<and> (\<forall>k\<in>set qs. \<exists>c\<in>set js. cj_doc c = qj_doc k \<and> cq_path (cj_params c) = qp_path (qj_params k))
     \<and> (\<forall>e\<in>set docs. \<exists>c\<in>set js. cj_doc c = snd e \<and> cq_path (cj_params c) = fst e)"

definition locks_ok :: "'u document list \<Rightarrow> compile_job list \<Rightarrow> query_job list \<Rightarrow> bool" where
  "locks_ok os js qs \<longleftrightarrow>
     (\<forall>d<length os. length (filter (holds_compile d) js) + length (filter (holds_query d) qs) = of_bool (doc_strand (os ! d)))"

definition docs_inv :: "'u worker_env \<Rightarrow> 'u document list \<Rightarrow> compile_job list \<Rightarrow> query_job list \<Rightarrow> (string \<times> nat) list \<Rightarrow> bool" where
  "docs_inv env os js qs docs \<longleftrightarrow>
     refs_ok (length os) js qs docs \<and> locks_ok os js qs \<and> (\<forall>d<length os. tree_ok env js d (os ! d))
     \<and> (\<forall>k\<in>set qs. qj_phase k \<noteq> WantAst \<longrightarrow> doc_ast_ready (os ! qj_doc k))"

lemma refs_ok_jobs:
  assumes refs: "refs_ok n js qs docs"
    and member: "\<And>c. c \<in> set js \<Longrightarrow> \<exists>c2\<in>set js'. cj_doc c2 = cj_doc c \<and> cj_params c2 = cj_params c"
    and origin: "\<And>c. c \<in> set js' \<Longrightarrow> \<exists>c2\<in>set js. cj_doc c2 = cj_doc c \<and> cj_params c2 = cj_params c"
  shows "refs_ok n js' qs docs"
proof -
  have "cj_doc c < n" if "c \<in> set js'" for c
    using origin [OF that] refs unfolding refs_ok_def by metis
  moreover have "cq_path (cj_params c) = cq_path (cj_params c')" if c: "c \<in> set js'" "c' \<in> set js'" "cj_doc c = cj_doc c'" for c c'
  proof -
    obtain c2 where 2: "c2 \<in> set js" "cj_doc c2 = cj_doc c" "cj_params c2 = cj_params c" using origin [OF c(1)] by blast
    obtain c3 where 3: "c3 \<in> set js" "cj_doc c3 = cj_doc c'" "cj_params c3 = cj_params c'" using origin [OF c(2)] by blast
    have "cq_path (cj_params c2) = cq_path (cj_params c3)" using refs 2 3 c(3) unfolding refs_ok_def by metis
    then show ?thesis using 2 3 by simp
  qed
  moreover have "\<exists>c\<in>set js'. cj_doc c = qj_doc k \<and> cq_path (cj_params c) = qp_path (qj_params k)" if k: "k \<in> set qs" for k
  proof -
    obtain c where c: "c \<in> set js" "cj_doc c = qj_doc k" "cq_path (cj_params c) = qp_path (qj_params k)" using refs k unfolding refs_ok_def by blast
    then show ?thesis using member [OF c(1)] by metis
  qed
  moreover have "\<exists>c\<in>set js'. cj_doc c = snd e \<and> cq_path (cj_params c) = fst e" if e: "e \<in> set docs" for e
  proof -
    obtain c where c: "c \<in> set js" "cj_doc c = snd e" "cq_path (cj_params c) = fst e" using refs e unfolding refs_ok_def by blast
    then show ?thesis using member [OF c(1)] by metis
  qed
  ultimately show ?thesis unfolding refs_ok_def by blast
qed

lemma refs_parts:
  assumes "refs_ok n js qs docs"
  shows "c \<in> set js \<Longrightarrow> cj_doc c < n"
    and "c \<in> set js \<Longrightarrow> c' \<in> set js \<Longrightarrow> cj_doc c = cj_doc c' \<Longrightarrow> cq_path (cj_params c) = cq_path (cj_params c')"
    and "k \<in> set qs \<Longrightarrow> \<exists>c\<in>set js. cj_doc c = qj_doc k \<and> cq_path (cj_params c) = qp_path (qj_params k)"
    and "e \<in> set docs \<Longrightarrow> \<exists>c\<in>set js. cj_doc c = snd e \<and> cq_path (cj_params c) = fst e"
  using assms unfolding refs_ok_def by blast+

lemma refs_ok_queries:
  assumes refs: "refs_ok n js qs docs"
    and new: "\<And>k. k \<in> set qs' \<Longrightarrow> \<exists>c\<in>set js. cj_doc c = qj_doc k \<and> cq_path (cj_params c) = qp_path (qj_params k)"
  shows "refs_ok n js qs' docs"
proof -
  have "\<forall>k\<in>set qs'. \<exists>c\<in>set js. cj_doc c = qj_doc k \<and> cq_path (cj_params c) = qp_path (qj_params k)" using new by (rule ballI)
  with refs show ?thesis unfolding refs_ok_def by (elim conjE) (intro conjI, assumption+)
qed

lemma refs_ok_snoc:
  assumes refs: "refs_ok n js qs docs" and n: "n \<le> n'" and c: "cj_doc c < n'"
    and path: "\<And>c'. c' \<in> set js \<Longrightarrow> cj_doc c = cj_doc c' \<Longrightarrow> cq_path (cj_params c) = cq_path (cj_params c')"
    and docs: "\<And>e. e \<in> set docs' \<Longrightarrow> e \<in> set docs \<or> e = (cq_path (cj_params c), cj_doc c)"
  shows "refs_ok n' (js @ [c]) qs docs'"
proof -
  have 1: "cj_doc c' < n'" if "c' \<in> set (js @ [c])" for c' using that refs_parts(1) [OF refs, of c'] n c by auto
  have 2: "cq_path (cj_params a) = cq_path (cj_params b)" if "a \<in> set (js @ [c])" "b \<in> set (js @ [c])" "cj_doc a = cj_doc b" for a b
  proof -
    consider "a \<in> set js" "b \<in> set js" | "a = c" "b \<in> set js" | "a \<in> set js" "b = c" | "a = b" using \<open>a \<in> _\<close> \<open>b \<in> _\<close> by auto
    then show ?thesis
    proof cases
      case 1
      then show ?thesis by (rule refs_parts(2) [OF refs _ _ that(3)])
    next
      case 2
      then show ?thesis using path [of b] that(3) by simp
    next
      case 3
      then show ?thesis using path [of a] that(3) by metis
    qed simp
  qed
  have 3: "\<exists>c'\<in>set (js @ [c]). cj_doc c' = qj_doc k \<and> cq_path (cj_params c') = qp_path (qj_params k)" if "k \<in> set qs" for k
    using refs_parts(3) [OF refs that] by auto
  have 4: "\<exists>c'\<in>set (js @ [c]). cj_doc c' = snd e \<and> cq_path (cj_params c') = fst e" if "e \<in> set docs'" for e
    using docs [OF that] refs_parts(4) [OF refs, of e] by auto
  show ?thesis unfolding refs_ok_def by (intro conjI ballI impI 1 2 3 4)
qed

text \<open>A step of a compile job: it changes its phase and its document.\<close>

lemma docs_inv_job:
  assumes inv: "docs_inv env os js qs docs" and j: "j < length js" and d: "cj_doc (js ! j) = d"
    and strand: "of_bool (doc_strand doc') + of_bool (holds_compile d (js ! j)) = (of_bool (doc_strand (os ! d)) + of_bool (holds_compile d c') :: nat)"
    and c': "c' = (js ! j)\<lparr>cj_phase := ph\<rparr>" and tree: "tree_ok env (js[j := c']) d doc'" and ready: "doc_ast_ready (os ! d) \<Longrightarrow> doc_ast_ready doc'"
  shows "docs_inv env (os[d := doc']) (js[j := c']) qs docs"
proof -
  have same: "cj_doc c' = cj_doc (js ! j)" "cj_params c' = cj_params (js ! j)" by (simp_all add: c')
  have refs: "refs_ok (length os) js qs docs" using inv by (simp add: docs_inv_def)
  have dl: "d < length os" using refs nth_mem [OF j] d unfolding refs_ok_def by blast
  have member: "\<exists>c2\<in>set (js[j := c']). cj_doc c2 = cj_doc c \<and> cj_params c2 = cj_params c" if "c \<in> set js" for c
    using that same j by (metis in_set_conv_nth length_list_update nth_list_update_eq nth_list_update_neq)
  have origin: "\<exists>c2\<in>set js. cj_doc c2 = cj_doc c \<and> cj_params c2 = cj_params c" if "c \<in> set (js[j := c'])" for c
    using that same j by (metis in_set_conv_nth length_list_update nth_list_update_eq nth_list_update_neq)
  have other: "c \<in> set (js[j := c']) \<longleftrightarrow> c \<in> set js" if "cj_doc c \<noteq> d" for c
    using that same d j by (metis in_set_conv_nth length_list_update nth_list_update_eq nth_list_update_neq)
  have "refs_ok (length os) (js[j := c']) qs docs"
    by (rule refs_ok_jobs [OF refs member origin])
  moreover have "locks_ok (os[d := doc']) (js[j := c']) qs"
    unfolding locks_ok_def
  proof (intro allI impI)
    fix x assume x: "x < length (os[d := doc'])"
    have l: "length (filter (holds_compile x) js) + length (filter (holds_query x) qs) = of_bool (doc_strand (os ! x))"
      using inv x by (simp add: docs_inv_def locks_ok_def)
    have upd: "length (filter (holds_compile x) (js[j := c'])) + of_bool (holds_compile x (js ! j))
       = length (filter (holds_compile x) js) + of_bool (holds_compile x c')" by (rule length_filter_update [OF j])
    show "length (filter (holds_compile x) (js[j := c'])) + length (filter (holds_query x) qs) = of_bool (doc_strand (os[d := doc'] ! x))"
    proof (cases "x = d")
      case True
      then show ?thesis using l upd strand dl by simp
    next
      case False
      then show ?thesis using l upd d same by (simp add: holds_compile_def)
    qed
  qed
  moreover have "tree_ok env (js[j := c']) x (os[d := doc'] ! x)" if "x < length os" for x
  proof (cases "x = d")
    case False
    have "tree_ok env js x (os ! x)" using inv that by (simp add: docs_inv_def)
    then show ?thesis using False other unfolding tree_ok_def by (simp add: Bex_def Ball_def) metis
  qed (use tree dl in simp)
  moreover have "doc_ast_ready (os[d := doc'] ! qj_doc k)" if "k \<in> set qs" "qj_phase k \<noteq> WantAst" for k
    using inv that ready dl by (cases "qj_doc k = d") (auto simp: docs_inv_def)
  ultimately show ?thesis by (simp add: docs_inv_def)
qed

text \<open>A step of a query, and a change of a document that is neither.\<close>

lemma docs_inv_query:
  assumes inv: "docs_inv env os js qs docs" and k: "k < length qs" and d: "qj_doc (qs ! k) = d"
    and strand: "of_bool b + of_bool (holds_query d (qs ! k)) = (of_bool (doc_strand (os ! d)) + of_bool (holds_query d k') :: nat)"
    and k': "k' = (qs ! k)\<lparr>qj_phase := ph\<rparr>" and ready: "doc_ast_ready (os ! d)"
  shows "docs_inv env (os[d := (os ! d)\<lparr>doc_strand := b\<rparr>]) js (qs[k := k']) docs"
proof -
  let ?os = "os[d := (os ! d)\<lparr>doc_strand := b\<rparr>]" and ?qs = "qs[k := k']"
  have refs: "refs_ok (length os) js qs docs" using inv by (simp add: docs_inv_def)
  have same: "qj_doc k' = qj_doc (qs ! k)" "qj_params k' = qj_params (qs ! k)" by (simp_all add: k')
  have set: "q \<in> set ?qs \<Longrightarrow> \<exists>q'\<in>set qs. qj_doc q' = qj_doc q \<and> qj_params q' = qj_params q" for q
    using k same by (metis in_set_conv_nth length_list_update nth_list_update_eq nth_list_update_neq)
  have "refs_ok (length os) js ?qs docs"
    using refs set unfolding refs_ok_def by metis
  moreover have "locks_ok ?os js ?qs"
    unfolding locks_ok_def
  proof (intro allI impI)
    fix x assume x: "x < length ?os"
    have l: "length (filter (holds_compile x) js) + length (filter (holds_query x) qs) = of_bool (doc_strand (os ! x))"
      using inv x by (simp add: docs_inv_def locks_ok_def)
    have upd: "length (filter (holds_query x) ?qs) + of_bool (holds_query x (qs ! k)) = length (filter (holds_query x) qs) + of_bool (holds_query x k')"
      by (rule length_filter_update [OF k])
    show "length (filter (holds_compile x) js) + length (filter (holds_query x) ?qs) = of_bool (doc_strand (?os ! x))"
    proof (cases "x = d")
      case True
      then show ?thesis using l upd strand x by simp
    next
      case False
      then show ?thesis using l upd d same by (simp add: holds_query_def)
    qed
  qed
  moreover have "tree_ok env js x (?os ! x)" if "x < length os" for x
  proof -
    have "tree_ok env js x (os ! x)" using inv that by (simp add: docs_inv_def)
    then show ?thesis using that by (cases "x = d") (simp_all add: tree_ok_def params_of_def)
  qed
  moreover have "doc_ast_ready (?os ! qj_doc q)" if "q \<in> set ?qs" "qj_phase q \<noteq> WantAst" for q
  proof (cases "qj_doc q = d")
    case True
    then show ?thesis using ready by (cases "d < length os") (simp_all add: list_update_beyond)
  next
    case False
    have "q \<in> set qs" using that(1) False d same k by (metis in_set_conv_nth length_list_update nth_list_update_eq nth_list_update_neq)
    then show ?thesis using inv that(2) False by (simp add: docs_inv_def)
  qed
  ultimately show ?thesis by (simp add: docs_inv_def)
qed

lemma docs_inv_dirty:
  assumes "docs_inv env os js qs docs"
  shows "docs_inv env (os[d := (os ! d)\<lparr>doc_dirty := b\<rparr>]) js qs docs"
proof -
  have "tree_ok env js x (os[d := (os ! d)\<lparr>doc_dirty := b\<rparr>] ! x)" if "x < length os" for x
    using assms that by (cases "x = d") (simp_all add: docs_inv_def tree_ok_def params_of_def)
  moreover have "locks_ok (os[d := (os ! d)\<lparr>doc_dirty := b\<rparr>]) js qs"
  proof -
    have "doc_strand (os[d := (os ! d)\<lparr>doc_dirty := b\<rparr>] ! x) = doc_strand (os ! x)" if "x < length os" for x
      using that by (cases "x = d") simp_all
    then show ?thesis using assms by (simp add: docs_inv_def locks_ok_def)
  qed
  moreover have "doc_ast_ready (os[d := (os ! d)\<lparr>doc_dirty := b\<rparr>] ! x) = doc_ast_ready (os ! x)" for x
    by (cases "d < length os"; cases "x = d") (simp_all add: list_update_beyond)
  ultimately show ?thesis using assms by (simp add: docs_inv_def)
qed

lemma docs_inv_documents:
  "docs_inv env os js qs docs \<Longrightarrow> set docs' \<subseteq> set docs \<Longrightarrow> docs_inv env os js qs docs'"
  unfolding docs_inv_def refs_ok_def by blast

text \<open>A compile request for a document that is there, and for a new one.\<close>

lemma docs_inv_start:
  assumes inv: "docs_inv env os js qs docs" and c: "cj_phase c = WantStrand" and d: "(cq_path (cj_params c), cj_doc c) \<in> set docs"
  shows "docs_inv env os (js @ [c]) qs docs"
proof -
  have refs: "refs_ok (length os) js qs docs" using inv by (simp add: docs_inv_def)
  obtain c0 where c0: "c0 \<in> set js" "cj_doc c0 = cj_doc c" "cq_path (cj_params c0) = cq_path (cj_params c)"
    using refs d unfolding refs_ok_def by fastforce
  have path: "cq_path (cj_params c) = cq_path (cj_params c')" if "c' \<in> set js" "cj_doc c = cj_doc c'" for c'
    using refs_parts(2) [OF refs c0(1) that(1)] c0 that(2) by simp
  have cl: "cj_doc c < length os" using refs_parts(1) [OF refs c0(1)] c0 by simp
  have "refs_ok (length os) (js @ [c]) qs docs" by (rule refs_ok_snoc [OF refs le_refl cl path]) simp_all
  moreover have "locks_ok os (js @ [c]) qs" using inv c by (simp add: docs_inv_def locks_ok_def holds_compile_def)
  moreover have "tree_ok env (js @ [c]) x (os ! x)" if "x < length os" for x
  proof -
    have "tree_ok env js x (os ! x)" using inv that by (simp add: docs_inv_def)
    then show ?thesis using c by (simp add: tree_ok_def ball_Un bex_Un) blast
  qed
  ultimately show ?thesis using inv by (simp add: docs_inv_def)
qed

lemma docs_inv_new:
  assumes inv: "docs_inv env os js qs docs" and c: "cj_phase c = WantStrand" "cj_doc c = length os"
  shows "docs_inv env (os @ [new_document]) (js @ [c]) qs (AList.update (cq_path (cj_params c)) (length os) docs)"
proof -
  have refs: "refs_ok (length os) js qs docs" using inv by (simp add: docs_inv_def)
  have old: "cj_doc c' < length os" if "c' \<in> set js" for c' using refs that unfolding refs_ok_def by blast
  have qold: "qj_doc k < length os" if k: "k \<in> set qs" for k using refs k old unfolding refs_ok_def by metis
  have none: "filter (holds_compile (length os)) js = []" "filter (holds_query (length os)) qs = []"
    using old qold by (fastforce simp: filter_empty_conv holds_compile_def holds_query_def)+
  have "refs_ok (Suc (length os)) (js @ [c]) qs (AList.update (cq_path (cj_params c)) (length os) docs)"
  proof (rule refs_ok_snoc [OF refs])
    have sub: "set (AList.update (cq_path (cj_params c)) (length os) docs) \<subseteq> insert (cq_path (cj_params c), length os) (set docs)"
      by (induction docs) auto
    show "e \<in> set docs \<or> e = (cq_path (cj_params c), cj_doc c)"
      if "e \<in> set (AList.update (cq_path (cj_params c)) (length os) docs)" for e using subsetD [OF sub that] c(2) by auto
    show "cq_path (cj_params c) = cq_path (cj_params c')" if "c' \<in> set js" "cj_doc c = cj_doc c'" for c'
      using old [OF that(1)] that(2) c(2) by simp
  qed (simp_all add: c(2))
  moreover have "locks_ok (os @ [new_document]) (js @ [c]) qs"
    using inv c none by (auto simp: docs_inv_def locks_ok_def holds_compile_def new_document_def nth_append less_Suc_eq)
  moreover have "tree_ok env (js @ [c]) x ((os @ [new_document]) ! x)" if "x < Suc (length os)" for x
  proof (cases "x = length os")
    case True
    have "cj_doc c' \<noteq> length os" if "c' \<in> set js" for c' using old [OF that] by simp
    then show ?thesis using c True by (auto simp: tree_ok_def new_document_def)
  next
    case False
    then have "tree_ok env js x (os ! x)" using inv that by (simp add: docs_inv_def)
    then show ?thesis using c False that by (simp add: tree_ok_def ball_Un bex_Un nth_append)
  qed
  moreover have "doc_ast_ready ((os @ [new_document]) ! qj_doc k)" if "k \<in> set qs" "qj_phase k \<noteq> WantAst" for k
    using inv that qold [OF that(1)] by (simp add: docs_inv_def nth_append)
  ultimately show ?thesis by (simp add: docs_inv_def)
qed

section \<open>Every step keeps the invariants\<close>

lemma locks_count:
  assumes "docs_inv env os js qs docs" and "d < length os"
  shows "length (filter (holds_compile d) js) + length (filter (holds_query d) qs) = of_bool (doc_strand (os ! d))"
  using assms by (simp add: docs_inv_def locks_ok_def)

lemma locks_free:
  assumes "docs_inv env os js qs docs" and "d < length os" and "\<not> doc_strand (os ! d)" and "c \<in> set js"
  shows "\<not> holds_compile d c"
proof -
  have "length (filter (holds_compile d) js) = 0" using locks_count [OF assms(1,2)] assms(3) by simp
  then show ?thesis using assms(4) by (auto simp: filter_empty_conv)
qed

lemma locks_held:
  assumes "docs_inv env os js qs docs" and "d < length os"
  shows "c \<in> set js \<Longrightarrow> holds_compile d c \<Longrightarrow> doc_strand (os ! d)" and "k \<in> set qs \<Longrightarrow> holds_query d k \<Longrightarrow> doc_strand (os ! d)"
proof -
  note l = locks_count [OF assms]
  show "doc_strand (os ! d)" if "c \<in> set js" "holds_compile d c"
  proof -
    have "filter (holds_compile d) js \<noteq> []" using that by (auto simp: filter_empty_conv)
    then show ?thesis using l by (cases "doc_strand (os ! d)") auto
  qed
  show "doc_strand (os ! d)" if "k \<in> set qs" "holds_query d k"
  proof -
    have "filter (holds_query d) qs \<noteq> []" using that by (auto simp: filter_empty_conv)
    then show ?thesis using l by (cases "doc_strand (os ! d)") auto
  qed
qed

text \<open>A lock is never held by a compilation and a query, nor by two of either.\<close>

lemma locks_exclusive:
  assumes "docs_inv env os js qs docs" and "d < length os" and "k \<in> set qs" and "holds_query d k" and "c \<in> set js"
  shows "\<not> holds_compile d c"
proof
  assume "holds_compile d c"
  then have "filter (holds_compile d) js \<noteq> []" using assms(5) by (auto simp: filter_empty_conv)
  moreover have "filter (holds_query d) qs \<noteq> []" using assms(3,4) by (auto simp: filter_empty_conv)
  moreover have "length (filter (holds_compile d) js) + length (filter (holds_query d) qs) \<le> 1"
    using locks_count [OF assms(1,2)] by simp
  ultimately show False by (cases "filter (holds_compile d) js"; cases "filter (holds_query d) qs") auto
qed

lemma update_cases:
  "x \<in> set (xs[j := y]) \<Longrightarrow> x \<in> set xs \<or> x = y"
  by (meson insertE set_update_subset_insert subsetD)

lemma docs_inv_locked:
  assumes inv: "docs_inv env (doc_objects w) (jobs w) (queries w) docs" and j: "j < length (jobs w)" and ph: "cj_phase (jobs w ! j) = WantStrand"
    and free: "\<not> doc_strand (doc_objects w ! cj_doc (jobs w ! j))"
  shows "docs_inv env (doc_objects (compile_locked j w)) (jobs (compile_locked j w)) (queries (compile_locked j w)) docs"
proof -
  let ?c = "jobs w ! j"
  let ?d = "cj_doc ?c" and ?c' = "?c\<lparr>cj_phase := Compiling\<rparr>"
  let ?doc = "(doc_objects w ! ?d)\<lparr>doc_strand := True, doc_version := cq_version (cj_params ?c), doc_text := cq_text (cj_params ?c),
     doc_directory := cq_directory (cj_params ?c), doc_arguments := cq_arguments (cj_params ?c), doc_pch := cq_pch (cj_params ?c), doc_pcms := cq_pcms (cj_params ?c)\<rparr>"
  have refs: "refs_ok (length (doc_objects w)) (jobs w) (queries w) docs" using inv by (simp add: docs_inv_def)
  have d: "?d < length (doc_objects w)" using refs_parts(1) [OF refs] j by simp
  have mem: "?c' \<in> set ((jobs w)[j := ?c'])" using j by (simp add: set_update_memI)
  have none: "cj_phase c \<noteq> Compiled \<and> cj_phase c \<noteq> Compiling" if "c \<in> set (jobs w)" "cj_doc c = ?d" for c
    using locks_free [OF inv d free that(1)] that(2) by (simp add: holds_compile_def)
  have only: "c = ?c'" if "c \<in> set ((jobs w)[j := ?c'])" "cj_doc c = ?d" "cj_phase c = Compiled \<or> cj_phase c = Compiling" for c
    using update_cases [OF that(1)] none [of c] that by auto
  have tree: "tree_ok env (jobs w) ?d (doc_objects w ! ?d)" using inv d by (simp add: docs_inv_def)
  have "tree_ok env ((jobs w)[j := ?c']) ?d ?doc"
  proof (rule tree_okI)
    have here: "\<exists>c\<in>set ((jobs w)[j := ?c']). cj_doc c = ?d \<and> cj_phase c = Compiling" using mem by (intro bexI [of _ ?c']) simp_all
    then show "doc_ast_ready ?doc \<or> (\<exists>c\<in>set ((jobs w)[j := ?c']). cj_doc c = ?d \<and> cj_phase c \<noteq> Finished)" by force
    show "(\<exists>c\<in>set ((jobs w)[j := ?c']). cj_doc c = ?d \<and> cj_phase c = Compiling)
       \<or> (\<exists>c\<in>set ((jobs w)[j := ?c']). cj_doc c = ?d \<and> u = wk_compile env (params_of (cq_path (cj_params c)) ?doc))" for u using here by blast
    show "doc_unit ?doc \<noteq> None" if "doc_ast_ready ?doc" using tree_parts(2) [OF tree] that by simp
    show "doc_unit ?doc \<noteq> None" if "c \<in> set ((jobs w)[j := ?c'])" "cj_doc c = ?d" "cj_phase c = Compiled" for c
      using only [OF that(1,2)] that(3) by simp
    show "params_of (cq_path (cj_params c)) ?doc = cj_params c" if "c \<in> set ((jobs w)[j := ?c'])" "cj_doc c = ?d" "cj_phase c = Compiling" for c
      using only [OF that(1,2)] that(3) by (simp add: params_of_def)
  qed
  then show ?thesis
    using docs_inv_job [OF inv j refl _ refl, of ?doc Compiling] ph free
    by (simp add: compile_locked_def Let_def set_job_def upd_doc_def holds_compile_def)
qed

lemma docs_inv_worked:
  assumes inv: "docs_inv env (doc_objects w) (jobs w) (queries w) docs" and j: "j < length (jobs w)" and ph: "cj_phase (jobs w ! j) = Compiling"
  shows "docs_inv env (doc_objects (compile_worked env j w)) (jobs (compile_worked env j w)) (queries (compile_worked env j w)) docs"
proof -
  let ?c = "jobs w ! j"
  let ?d = "cj_doc ?c" and ?c' = "?c\<lparr>cj_phase := Compiled\<rparr>"
  let ?old = "doc_objects w ! ?d"
  let ?doc = "?old\<lparr>doc_unit := Some (wk_compile env (params_of (cq_path (cj_params ?c)) ?old)), doc_dirty := False\<rparr>"
  have refs: "refs_ok (length (doc_objects w)) (jobs w) (queries w) docs" using inv by (simp add: docs_inv_def)
  have d: "?d < length (doc_objects w)" using refs_parts(1) [OF refs] j by simp
  have mem: "?c' \<in> set ((jobs w)[j := ?c'])" using j by (simp add: set_update_memI)
  have tree: "tree_ok env (jobs w) ?d ?old" using inv d by (simp add: docs_inv_def)
  have params: "params_of x ?doc = params_of x ?old" for x by (simp add: params_of_def)
  have "tree_ok env ((jobs w)[j := ?c']) ?d ?doc"
  proof (rule tree_okI)
    show "doc_ast_ready ?doc \<or> (\<exists>c\<in>set ((jobs w)[j := ?c']). cj_doc c = ?d \<and> cj_phase c \<noteq> Finished)"
      using mem by (intro disjI2 bexI [of _ ?c']) simp_all
    show "(\<exists>c\<in>set ((jobs w)[j := ?c']). cj_doc c = ?d \<and> cj_phase c = Compiling)
       \<or> (\<exists>c\<in>set ((jobs w)[j := ?c']). cj_doc c = ?d \<and> u = wk_compile env (params_of (cq_path (cj_params c)) ?doc))" if "doc_unit ?doc = Some u" for u
      using mem that params by (intro disjI2 bexI [of _ ?c']) simp_all
    show "params_of (cq_path (cj_params c)) ?doc = cj_params c" if "c \<in> set ((jobs w)[j := ?c'])" "cj_doc c = ?d" "cj_phase c = Compiling" for c
      using update_cases [OF that(1)] that(2,3) tree_parts(4) [OF tree, of c] by (auto simp: params)
  qed simp_all
  moreover have "doc_strand ?old" using locks_held(1) [OF inv d, of ?c] j ph by (simp add: holds_compile_def)
  ultimately show ?thesis
    using docs_inv_job [OF inv j refl _ refl, of ?doc Compiled] ph
    by (simp add: compile_worked_def Let_def set_job_def upd_doc_def holds_compile_def)
qed

lemma docs_inv_finished:
  assumes inv: "docs_inv env (doc_objects w) (jobs w) (queries w) (documents w)" and j: "j < length (jobs w)" and ph: "cj_phase (jobs w ! j) = Compiled"
  shows "docs_inv env (doc_objects (compile_finished j w)) (jobs (compile_finished j w)) (queries (compile_finished j w)) (documents (compile_finished j w))"
proof -
  let ?c = "jobs w ! j"
  let ?d = "cj_doc ?c" and ?c' = "?c\<lparr>cj_phase := Finished\<rparr>"
  let ?old = "doc_objects w ! ?d"
  let ?doc = "?old\<lparr>doc_strand := False, doc_ast_ready := True\<rparr>"
  have refs: "refs_ok (length (doc_objects w)) (jobs w) (queries w) (documents w)" using inv by (simp add: docs_inv_def)
  have d: "?d < length (doc_objects w)" using refs_parts(1) [OF refs] j by simp
  have mem: "?c' \<in> set ((jobs w)[j := ?c'])" using j by (simp add: set_update_memI)
  have tree: "tree_ok env (jobs w) ?d ?old" using inv d by (simp add: docs_inv_def)
  have params: "params_of x ?doc = params_of x ?old" for x by (simp add: params_of_def)
  have unit: "doc_unit ?old \<noteq> None" using tree_parts(3) [OF tree, of ?c] j ph by simp
  have "tree_ok env ((jobs w)[j := ?c']) ?d ?doc"
  proof (rule tree_okI)
    show "(\<exists>c\<in>set ((jobs w)[j := ?c']). cj_doc c = ?d \<and> cj_phase c = Compiling)
       \<or> (\<exists>c\<in>set ((jobs w)[j := ?c']). cj_doc c = ?d \<and> u = wk_compile env (params_of (cq_path (cj_params c)) ?doc))" if u: "doc_unit ?doc = Some u" for u
    proof -
      consider c where "c \<in> set (jobs w)" "cj_doc c = ?d" "cj_phase c = Compiling"
        | c where "c \<in> set (jobs w)" "cj_doc c = ?d" "u = wk_compile env (params_of (cq_path (cj_params c)) ?old)"
        using tree_parts(5) [OF tree, of u] u by auto
      then show ?thesis
      proof cases
        case 1
        then have "c \<noteq> ?c" using ph by auto
        then have "c \<in> set ((jobs w)[j := ?c'])" by (rule in_set_update_other [OF 1(1)])
        then show ?thesis using 1 by blast
      next
        case 2
        then have "cq_path (cj_params c) = cq_path (cj_params ?c')" using refs_parts(2) [OF refs 2(1), of ?c] j by simp
        then show ?thesis using 2(3) mem by (intro disjI2 bexI [of _ ?c']) (simp_all add: params)
      qed
    qed
    show "params_of (cq_path (cj_params c)) ?doc = cj_params c" if "c \<in> set ((jobs w)[j := ?c'])" "cj_doc c = ?d" "cj_phase c = Compiling" for c
      using update_cases [OF that(1)] that(2,3) tree_parts(4) [OF tree, of c] by (auto simp: params)
  qed (simp_all add: unit)
  moreover have "doc_strand ?old" using locks_held(1) [OF inv d, of ?c] j ph by (simp add: holds_compile_def)
  ultimately have "docs_inv env ((doc_objects w)[?d := ?doc]) ((jobs w)[j := ?c']) (queries w) (documents w)"
    using docs_inv_job [OF inv j refl _ refl, of ?doc Finished] ph by (simp add: holds_compile_def)
  moreover let ?w1 = "set_job j Finished (upd_doc ?d (\<lambda>doc. doc\<lparr>doc_strand := False, doc_ast_ready := True\<rparr>) w)"
  have "set (documents (compile_finished j w)) \<subseteq> set (documents w)"
    using shrink_keeps(4) [of ?w1] by (simp add: compile_finished_def set_job_def upd_doc_def)
  ultimately have "docs_inv env ((doc_objects w)[?d := ?doc]) ((jobs w)[j := ?c']) (queries w) (documents (compile_finished j w))"
    by (rule docs_inv_documents)
  then show ?thesis using shrink_keeps(1-3) [of ?w1] by (simp add: compile_finished_def set_job_def upd_doc_def)
qed

abbreviation docs_ok :: "'u worker_env \<Rightarrow> 'u stateful \<Rightarrow> bool" where
  "docs_ok env w \<equiv> docs_inv env (doc_objects w) (jobs w) (queries w) (documents w)"

lemma touch_fields [simp]:
  "documents (touch_lru p w) = documents w" "doc_objects (touch_lru p w) = doc_objects w" "jobs (touch_lru p w) = jobs w"
  "queries (touch_lru p w) = queries w"
  by (simp_all add: touch_lru_def Let_def)

lemma docs_ok_start:
  assumes "docs_ok env w"
  shows "docs_ok env (start_compile q w)"
proof (cases "map_of (documents w) (cq_path q)")
  case None
  then show ?thesis using docs_inv_new [OF assms, of "\<lparr>cj_doc = length (doc_objects w), cj_params = q, cj_phase = WantStrand\<rparr>"]
    by (simp add: start_compile_def get_or_create_def Let_def)
next
  case (Some d)
  then show ?thesis using docs_inv_start [OF assms, of "\<lparr>cj_doc = d, cj_params = q, cj_phase = WantStrand\<rparr>"]
    by (simp add: start_compile_def get_or_create_def Let_def map_of_SomeD)
qed

lemma docs_ok_start_query:
  assumes inv: "docs_ok env w"
  shows "docs_ok env (fst (start_query q w))"
proof (cases "map_of (documents w) (qp_path q)")
  case (Some d)
  let ?k = "\<lparr>qj_doc = d, qj_params = q, qj_phase = WantAst\<rparr>"
  have refs: "refs_ok (length (doc_objects w)) (jobs w) (queries w) (documents w)" using inv by (simp add: docs_inv_def)
  have "refs_ok (length (doc_objects w)) (jobs w) (queries w @ [?k]) (documents w)"
  proof (rule refs_ok_queries [OF refs])
    show "\<exists>c\<in>set (jobs w). cj_doc c = qj_doc k \<and> cq_path (cj_params c) = qp_path (qj_params k)" if "k \<in> set (queries w @ [?k])" for k
    proof (cases "k \<in> set (queries w)")
      case True
      then show ?thesis by (rule refs_parts(3) [OF refs])
    next
      case False
      then show ?thesis using that refs_parts(4) [OF refs map_of_SomeD [OF Some]] by simp
    qed
  qed
  moreover have "locks_ok (doc_objects w) (jobs w) (queries w @ [?k])"
    using inv by (simp add: docs_inv_def locks_ok_def holds_query_def)
  ultimately have "docs_inv env (doc_objects w) (jobs w) (queries w @ [?k]) (documents w)"
    using inv by (simp add: docs_inv_def ball_Un)
  then show ?thesis using Some inv by (simp add: start_query_def Let_def)
qed (use inv in \<open>simp add: start_query_def\<close>)

lemma docs_ok_evict: "docs_ok env w \<Longrightarrow> docs_ok env (evict p w)"
  by (rule docs_inv_documents [where docs = "documents w"])
    (auto simp: evict_def Let_def AList.delete_eq split: option.split)

lemma docs_ok_update: "docs_ok env w \<Longrightarrow> docs_ok env (document_update p w)"
  by (auto simp: document_update_def upd_doc_def split: option.split intro: docs_inv_dirty)

lemma docs_ok_query:
  assumes inv: "docs_ok env w" and k: "k < length (queries w)"
  shows "qj_phase (queries w ! k) = WantAst \<Longrightarrow> doc_ast_ready (doc_objects w ! qj_doc (queries w ! k)) \<Longrightarrow> docs_ok env (query_ready k w)"
    and "qj_phase (queries w ! k) = WantLock \<Longrightarrow> \<not> doc_strand (doc_objects w ! qj_doc (queries w ! k)) \<Longrightarrow> docs_ok env (query_locked k w)"
    and "qj_phase (queries w ! k) = Querying \<Longrightarrow> docs_ok env (query_worked env k w)"
    and "qj_phase (queries w ! k) = Queried r \<Longrightarrow> docs_ok env (query_finished k r w)"
proof -
  let ?k = "queries w ! k"
  let ?d = "qj_doc ?k"
  have refs: "refs_ok (length (doc_objects w)) (jobs w) (queries w) (documents w)" using inv by (simp add: docs_inv_def)
  have d: "?d < length (doc_objects w)" using refs_parts(1) [OF refs] refs_parts(3) [OF refs nth_mem [OF k]] by metis
  have ready: "doc_ast_ready (doc_objects w ! ?d)" if "qj_phase ?k \<noteq> WantAst" using inv k that by (simp add: docs_inv_def)
  have held: "doc_strand (doc_objects w ! ?d)" if "holds_query ?d ?k" using locks_held(2) [OF inv d, of ?k] k that by simp
  have id: "(doc_objects w)[?d := (doc_objects w ! ?d)\<lparr>doc_strand := doc_strand (doc_objects w ! ?d)\<rparr>] = doc_objects w" by simp
  note step = docs_inv_query [OF inv k refl _ refl]
  show "docs_ok env (query_ready k w)" if "qj_phase ?k = WantAst" "doc_ast_ready (doc_objects w ! ?d)"
    using step [of "doc_strand (doc_objects w ! ?d)" WantLock] that by (simp add: query_ready_def set_query_def id holds_query_def)
  show "docs_ok env (query_locked k w)" if "qj_phase ?k = WantLock" "\<not> doc_strand (doc_objects w ! ?d)"
    using step [of True Querying] that ready by (simp add: query_locked_def set_query_def upd_doc_def holds_query_def)
  show "docs_ok env (query_worked env k w)" if "qj_phase ?k = Querying"
  proof -
    obtain x where x: "query_worked env k w = set_query k (Queried x) w" by (simp add: query_worked_def Let_def)
    show ?thesis using step [of "doc_strand (doc_objects w ! ?d)" "Queried x"] that ready by (simp add: x set_query_def id holds_query_def)
  qed
  show "docs_ok env (query_finished k r w)" if "qj_phase ?k = Queried r"
    using step [of False "Answered r"] that ready held by (simp add: query_finished_def set_query_def upd_doc_def holds_query_def)
qed

lemma docs_ok_step:
  assumes "worker_step env w w'" and "docs_ok env w"
  shows "docs_ok env w'"
  using assms
proof cases
  case (on_compile_locked j)
  have "documents (compile_locked j w) = documents w" by (simp add: compile_locked_def set_job_def upd_doc_def Let_def)
  then show ?thesis using on_compile_locked docs_inv_locked assms(2) by metis
next
  case (on_compile_worked j)
  have "documents (compile_worked env j w) = documents w" by (simp add: compile_worked_def set_job_def upd_doc_def Let_def)
  then show ?thesis using on_compile_worked docs_inv_worked assms(2) by metis
qed (use assms(2) in \<open>auto intro: docs_ok_start docs_inv_finished docs_ok_update docs_ok_evict docs_ok_start_query docs_ok_query\<close>)

lemma recency_step:
  assumes "worker_step env w w'" and "recency_ok w"
  shows "recency_ok w'"
  using assms
proof cases
  case (on_compile_finished j)
  have "recency_ok (set_job j Finished (upd_doc (cj_doc (jobs w ! j)) (\<lambda>doc. doc\<lparr>doc_strand := False, doc_ast_ready := True\<rparr>) w))"
    using assms(2) by (simp add: set_job_def upd_doc_def)
  from conjunct1 [OF recency_shrink [OF this]] show ?thesis using on_compile_finished by (simp add: compile_finished_def)
qed (use assms(2) in \<open>auto simp: compile_locked_def compile_worked_def document_update_def query_ready_def query_locked_def query_worked_def
      query_finished_def set_job_def set_query_def upd_doc_def Let_def recency_start recency_evict recency_query split: option.split\<close>)

text \<open>What the limit of sixteen documents gives.\<close>

abbreviation unfinished :: "'u stateful \<Rightarrow> nat" where
  "unfinished w \<equiv> length (filter (\<lambda>c. cj_phase c \<noteq> Finished) (jobs w))"

lemma unfinished_phase:
  assumes "j < length (jobs w)" and "cj_phase (jobs w ! j) \<noteq> Finished" and "jobs w' = (jobs w)[j := (jobs w ! j)\<lparr>cj_phase := ph\<rparr>]" and "ph \<noteq> Finished"
  shows "unfinished w' = unfinished w"
  using length_filter_update [OF assms(1), of "\<lambda>c. cj_phase c \<noteq> Finished" "(jobs w ! j)\<lparr>cj_phase := ph\<rparr>"] assms by simp

lemma length_alist_update: "length (AList.update k v xs) \<le> Suc (length xs)"
  by (induction xs) auto

lemma bound_step:
  assumes "worker_step env w w'" and "recency_ok w" and b: "length (documents w) \<le> 16 + unfinished w"
  shows "length (documents w') \<le> 16 + unfinished w'"
  using assms(1)
proof cases
  case (on_compile q)
  have "length (documents (fst (get_or_create (cq_path q) w))) \<le> Suc (length (documents w))" "jobs (fst (get_or_create (cq_path q) w)) = jobs w"
    using length_alist_update by (auto simp: get_or_create_def Let_def split: option.split)
  then show ?thesis using on_compile b by (simp add: start_compile_def Let_def split_beta)
next
  case (on_compile_locked j)
  then have "unfinished w' = unfinished w" "documents w' = documents w"
    using unfinished_phase [of j w w' Compiling] by (simp_all add: compile_locked_def set_job_def upd_doc_def Let_def)
  then show ?thesis using b by simp
next
  case (on_compile_worked j)
  then have "unfinished w' = unfinished w" "documents w' = documents w"
    using unfinished_phase [of j w w' Compiled] by (simp_all add: compile_worked_def set_job_def upd_doc_def Let_def)
  then show ?thesis using b by simp
next
  case (on_compile_finished j)
  have "recency_ok (set_job j Finished (upd_doc (cj_doc (jobs w ! j)) (\<lambda>doc. doc\<lparr>doc_strand := False, doc_ast_ready := True\<rparr>) w))"
    using assms(2) by (simp add: set_job_def upd_doc_def)
  from conjunct2 [OF recency_shrink [OF this]] show ?thesis using on_compile_finished by (simp add: compile_finished_def)
next
  case (on_evict p)
  have "length (AList.delete p xs) \<le> length xs" for xs :: "(string \<times> nat) list" by (simp add: AList.delete_eq)
  then have "length (documents w') \<le> length (documents w)" "jobs w' = jobs w"
    using on_evict by (auto simp: evict_def Let_def split: option.split)
  then show ?thesis using b by simp
qed (use b in \<open>auto simp: document_update_def start_query_def query_ready_def query_locked_def query_worked_def query_finished_def
      set_query_def upd_doc_def Let_def split: option.split\<close>)

interpretation documents: safe_system "\<lambda>w. w = empty_worker" "worker_step env"
  "\<lambda>w. recency_ok w \<and> docs_ok env w \<and> length (documents w) \<le> 16 + unfinished w"
proof
  show "recency_ok w \<and> docs_ok env w \<and> length (documents w) \<le> 16 + unfinished w" if "w = empty_worker" for w
    using that by (simp add: empty_worker_def recency_def docs_inv_def refs_ok_def locks_ok_def)
  show "recency_ok w' \<and> docs_ok env w' \<and> length (documents w') \<le> 16 + unfinished w'"
    if s: "worker_step env w w'" and g: "recency_ok w \<and> docs_ok env w \<and> length (documents w) \<le> 16 + unfinished w" for w w'
    using recency_step [OF s] docs_ok_step [OF s] bound_step [OF s] g by blast
qed

section \<open>Properties\<close>

text \<open>
  C19: however requests, notifications and suspended handlers interleave, the recency list of the worker names every
  document it keeps exactly once and no other, the index finds the node of each, and the worker keeps at most
  sixteen documents beyond those being compiled.
\<close>

theorem worker_documents_bounded:
  assumes "reached (\<lambda>w. w = empty_worker) (worker_step env) w"
  shows "distinct (map snd (lru w)) \<and> snd ` set (lru w) = fst ` set (documents w) \<and> distinct (map fst (documents w))
    \<and> (\<forall>p n. map_of (lru_index w) p = Some n \<longleftrightarrow> (n, p) \<in> set (lru w))
    \<and> length (documents w) \<le> 16 + length (filter (\<lambda>c. cj_phase c \<noteq> Finished) (jobs w))"
proof -
  have r: "recency_ok w" and b: "length (documents w) \<le> 16 + unfinished w" using documents.reached_good [OF assms] by blast+
  note parts = recency_parts [OF r]
  show ?thesis using parts(2,5,6) parts(4) b by simp
qed

text \<open>
  C9: a query that runs sees one consistent document: its entry has a syntax tree, which is the result of
  compiling exactly the text, version and arguments stored beside it, for the path that was asked for; nothing
  compiles the document meanwhile. A query that still waits for a first tree has a compilation of that document
  to wait for.
\<close>

theorem query_sees_its_document:
  assumes "reached (\<lambda>w. w = empty_worker) (worker_step env) w" and "k < length (queries w)"
  shows "(qj_phase (queries w ! k) = Querying \<longrightarrow>
       doc_unit (doc_objects w ! qj_doc (queries w ! k))
         = Some (wk_compile env (params_of (qp_path (qj_params (queries w ! k))) (doc_objects w ! qj_doc (queries w ! k))))
       \<and> (\<forall>c\<in>set (jobs w). cj_doc c = qj_doc (queries w ! k) \<longrightarrow> cj_phase c = WantStrand \<or> cj_phase c = Finished))
    \<and> (qj_phase (queries w ! k) = WantAst \<longrightarrow>
         doc_ast_ready (doc_objects w ! qj_doc (queries w ! k))
         \<or> (\<exists>c\<in>set (jobs w). cj_doc c = qj_doc (queries w ! k) \<and> cj_phase c \<noteq> Finished))"
proof -
  let ?k = "queries w ! k"
  let ?d = "qj_doc ?k"
  have inv: "docs_ok env w" using documents.reached_good [OF assms(1)] by blast
  have refs: "refs_ok (length (doc_objects w)) (jobs w) (queries w) (documents w)" using inv by (simp add: docs_inv_def)
  obtain c0 where c0: "c0 \<in> set (jobs w)" "cj_doc c0 = ?d" "cq_path (cj_params c0) = qp_path (qj_params ?k)"
    using refs_parts(3) [OF refs nth_mem [OF assms(2)]] by blast
  have d: "?d < length (doc_objects w)" using refs_parts(1) [OF refs c0(1)] c0(2) by simp
  have tree: "tree_ok env (jobs w) ?d (doc_objects w ! ?d)" using inv d by (simp add: docs_inv_def)
  {
    assume q: "qj_phase ?k = Querying"
    have free: "cj_phase c \<noteq> Compiling \<and> cj_phase c \<noteq> Compiled" if "c \<in> set (jobs w)" "cj_doc c = ?d" for c
      using locks_exclusive [OF inv d nth_mem [OF assms(2)] _ that(1)] q that(2) by (simp add: holds_query_def holds_compile_def)
    have "doc_ast_ready (doc_objects w ! ?d)" using inv assms(2) q by (simp add: docs_inv_def)
    then obtain u where u: "doc_unit (doc_objects w ! ?d) = Some u" using tree_parts(2) [OF tree] by auto
    obtain c where c: "c \<in> set (jobs w)" "cj_doc c = ?d" "u = wk_compile env (params_of (cq_path (cj_params c)) (doc_objects w ! ?d))"
      using tree_parts(5) [OF tree u] free by metis
    have "cq_path (cj_params c) = qp_path (qj_params ?k)" using refs_parts(2) [OF refs c(1) c0(1)] c(2) c0(2,3) by simp
    then have "doc_unit (doc_objects w ! ?d) = Some (wk_compile env (params_of (qp_path (qj_params ?k)) (doc_objects w ! ?d)))" using u c(3) by simp
    moreover have "cj_phase c = WantStrand \<or> cj_phase c = Finished" if "c \<in> set (jobs w)" "cj_doc c = ?d" for c
      using free [OF that] by (cases "cj_phase c") simp_all
    ultimately have "doc_unit (doc_objects w ! ?d) = Some (wk_compile env (params_of (qp_path (qj_params ?k)) (doc_objects w ! ?d)))
       \<and> (\<forall>c\<in>set (jobs w). cj_doc c = ?d \<longrightarrow> cj_phase c = WantStrand \<or> cj_phase c = Finished)" by blast
  }
  then show ?thesis using tree_parts(1) [OF tree] by blast
qed

text \<open>The loop keeps the sixteen documents used last and reports the others, the least recently used first.\<close>

lemma shrink_lru:
  "recency_ok w \<Longrightarrow> lru (shrink_if_over_limit w) = take 16 (lru w)
     \<and> evictions (shrink_if_over_limit w) = evictions w @ rev (map snd (drop 16 (lru w)))"
proof (induction w rule: shrink_if_over_limit.induct)
  case (1 w)
  note l = recency_length [OF "1.prems"]
  show ?case
  proof (cases "16 < length (documents w) \<and> lru w \<noteq> []")
    case True
    obtain xs x where xs: "lru w = xs @ [x]" using True by (metis append_butlast_last_id)
    have IH: "lru (shrink_if_over_limit (drop_last w)) = take 16 (lru (drop_last w))"
      "evictions (shrink_if_over_limit (drop_last w)) = evictions (drop_last w) @ rev (map snd (drop 16 (lru (drop_last w))))"
      using "1.IH" [OF True] recency_drop_last [OF "1.prems"] True by simp_all
    show ?thesis using True l IH xs by (simp add: shrink_if_over_limit.simps [of w] drop_last_def Let_def)
  next
    case False
    then have "length (lru w) \<le> 16" using l by auto
    then show ?thesis using False by (auto simp: shrink_if_over_limit.simps [of w])
  qed
qed

section \<open>Examples\<close>

definition ex_params :: compile_params where
  "ex_params = \<lparr>cq_path = ''a'', cq_version = 3, cq_text = ''int'', cq_directory = [], cq_arguments = [], cq_pch = ([], 0), cq_pcms = []\<rparr>"

definition ex_query :: query_params where
  "ex_query = \<lparr>qp_kind = Hover, qp_path = ''a'', qp_offset = 0, qp_range = (0, 0)\<rparr>"

definition ex_worker_env :: "string worker_env" where
  "ex_worker_env = \<lparr>wk_compile = cq_text, wk_usable = (\<lambda>u. True), wk_hover = (\<lambda>u n. Some u), wk_hints = (\<lambda>u r. []), wk_feature = (\<lambda>k u. [])\<rparr>"

text \<open>A document is compiled and then queried, up to the query on the thread pool.\<close>

definition ex_run :: "string stateful" where
  "ex_run = query_locked 0 (query_ready 0 (fst (start_query ex_query
     (compile_finished 0 (compile_worked ex_worker_env 0 (compile_locked 0 (start_compile ex_params empty_worker)))))))"

lemmas ex_unfold = start_compile_def get_or_create_def touch_lru_def empty_worker_def compile_locked_def compile_worked_def compile_finished_def
  set_job_def upd_doc_def shrink_if_over_limit.simps start_query_def query_ready_def query_locked_def query_worked_def set_query_def Let_def
  ex_params_def ex_query_def new_document_def params_of_def ex_worker_env_def

lemma ex_run_reached: "reached (\<lambda>w. w = empty_worker) (worker_step ex_worker_env) ex_run"
proof -
  let ?r = "reached (\<lambda>w. w = empty_worker) (worker_step ex_worker_env)"
  have "?r empty_worker" by (rule reached_init) simp
  then have "?r (start_compile ex_params empty_worker)" by (rule reached_step) (rule on_compile)
  then have "?r (compile_locked 0 (start_compile ex_params empty_worker))"
    by (rule reached_step) (rule on_compile_locked; simp add: ex_unfold)
  then have "?r (compile_worked ex_worker_env 0 (compile_locked 0 (start_compile ex_params empty_worker)))"
    by (rule reached_step) (rule on_compile_worked; simp add: ex_unfold)
  then have "?r (compile_finished 0 (compile_worked ex_worker_env 0 (compile_locked 0 (start_compile ex_params empty_worker))))"
    by (rule reached_step) (rule on_compile_finished; simp add: ex_unfold)
  then have "?r (fst (start_query ex_query (compile_finished 0 (compile_worked ex_worker_env 0 (compile_locked 0 (start_compile ex_params empty_worker))))))"
    by (rule reached_step) (rule on_query)
  then have "?r (query_ready 0 (fst (start_query ex_query (compile_finished 0 (compile_worked ex_worker_env 0 (compile_locked 0 (start_compile ex_params empty_worker)))))))"
    by (rule reached_step) (rule on_query_ready; simp add: ex_unfold)
  then show ?thesis unfolding ex_run_def by (rule reached_step) (rule on_query_locked; simp add: ex_unfold)
qed

theorem worker_documents_bounded_witness: "snd ` set (lru ex_run) = {''a''}"
  using worker_documents_bounded [OF ex_run_reached] by (simp add: ex_run_def ex_unfold)

theorem query_sees_its_document_witness: "doc_unit (doc_objects ex_run ! 0) = Some ''int'' \<and> doc_version (doc_objects ex_run ! 0) = 3"
  using query_sees_its_document [OF ex_run_reached, of 0] by (simp add: ex_run_def ex_unfold)

end
