(* ===== verification/Pch_Build.thy ===== *)
theory Pch_Build
  imports Session_State
begin

text \<open>
  Building and sharing precompiled headers: \<open>ensure_pch\<close> and \<open>BuildingGuard\<close> of
  \<open>src/src/server/compiler/compiler.cpp\<close> and \<open>is_preamble_complete\<close> of \<open>src/src/syntax/scan.cpp\<close>. The coroutine is
  cut at its suspension points: a build waits for the worker and then for the commit, a second request for
  the same file waits for the event of the build. Where the preamble of a text ends is found by clang's lexer and
  is a parameter.
\<close>

section \<open>Complete preambles\<close>

definition rtrim :: "string \<Rightarrow> string" where
  "rtrim s = rev (ltrim (rev s))"

definition is_include_directive_complete :: "string \<Rightarrow> bool" where
  "is_include_directive_complete directive =
     (let keyword = (if starts_with directive ''import'' then 6 else 7) in
      if CHR 0x22 \<in> set directive then 2 \<le> length (filter (\<lambda>c. c = CHR 0x22) (drop keyword directive))
      else if CHR 0x3C \<in> set directive then CHR 0x3E \<in> set directive
      else ltrim (drop keyword directive) \<noteq> [])"

definition is_module_statement_complete :: "string \<Rightarrow> bool" where
  "is_module_statement_complete trimmed = ends_with (rtrim trimmed) '';''"

definition is_alnum :: "char \<Rightarrow> bool" where
  "is_alnum c \<longleftrightarrow> (let n = of_char c :: nat in 48 \<le> n \<and> n \<le> 57 \<or> 65 \<le> n \<and> n \<le> 90 \<or> 97 \<le> n \<and> n \<le> 122)"

definition is_keyword :: "string \<Rightarrow> string \<Rightarrow> bool" where
  "is_keyword s keyword \<longleftrightarrow> starts_with s keyword \<and> (length s = length keyword \<or> \<not> is_alnum (s ! length keyword))"

definition complete_line :: "string \<Rightarrow> bool" where
  "complete_line line =
     (let trimmed = ltrim line in
      if starts_with trimmed ''#''
      then (let directive = ltrim (drop 1 trimmed) in
            (starts_with directive ''include'' \<or> starts_with directive ''import'') \<longrightarrow> is_include_directive_complete directive)
      else (is_keyword trimmed ''import'' \<or> is_keyword trimmed ''export'') \<longrightarrow> is_module_statement_complete trimmed)"

text \<open>\<open>split\<close> gives the text before and after the first newline.\<close>

function complete_lines :: "string \<Rightarrow> bool" where
  "complete_lines preamble =
     (if preamble = [] then True
      else
        let line = takeWhile (\<lambda>c. c \<noteq> newline) preamble; rest = drop (Suc (length line)) preamble
        in complete_line line \<and> complete_lines rest)"
  by pat_completeness auto
termination by (relation "measure length") auto

declare complete_lines.simps [simp del]

definition is_preamble_complete :: "string \<Rightarrow> u32 \<Rightarrow> bool" where
  "is_preamble_complete content bound = complete_lines (take (unat bound) content)"

section \<open>State\<close>

datatype build_phase = AtWorker | AtStore pending_entry "string list" string | Built bool

record pch_build =
  pb_session :: nat
  pb_path :: u32
  pb_event :: nat
  pb_key :: string
  pb_bound :: u32
  pb_pending :: pending_entry
  pb_phase :: build_phase

datatype hold_phase = Held | Released bool

record pch_wait =
  pw_session :: nat
  pw_path :: u32
  pw_event :: nat
  pw_phase :: hold_phase

record pch_session =
  px_path_id :: u32
  px_text :: string
  px_pch_ref :: "pch_ref option"

text \<open>\<open>px_events\<close>: which events are set.\<close>

record 'w pch_system =
  px_ws :: workspace_state
  px_world :: 'w
  px_sessions :: "pch_session list"
  px_events :: "bool list"
  px_builds :: "pch_build list"
  px_waits :: "pch_wait list"

record 'w pch_env =
  pe_args :: "'w args_env"
  pe_bound :: "string \<Rightarrow> u32"
  pe_parent :: "string \<Rightarrow> string"
  pe_version :: string
  pe_xxh3 :: "string \<Rightarrow> u64 \<times> u64"

section \<open>ensure_pch\<close>

definition pch_key_of :: "'w pch_env \<Rightarrow> string \<Rightarrow> string \<Rightarrow> string list \<Rightarrow> string \<Rightarrow> u32 \<Rightarrow> string" where
  "pch_key_of env directory path arguments text bound =
     cache_key (pe_xxh3 env)
       [pe_version env, directory, pe_parent env path, take (unat bound) text, canonicalize (ae_cmd (pe_args env)) arguments Frontend]"

definition set_ref :: "nat \<Rightarrow> pch_ref option \<Rightarrow> 'w pch_system \<Rightarrow> 'w pch_system" where
  "set_ref i r s = s\<lparr>px_sessions := (px_sessions s)[i := (px_sessions s ! i)\<lparr>px_pch_ref := r\<rparr>]\<rparr>"

definition pch_at :: "'w pch_system \<Rightarrow> u32 \<Rightarrow> pch_state option" where
  "pch_at s p = map_of (wk_pch (px_ws s)) p"

definition put_pch :: "u32 \<Rightarrow> pch_state \<Rightarrow> 'w pch_system \<Rightarrow> 'w pch_system" where
  "put_pch p st s = s\<lparr>px_ws := (px_ws s)\<lparr>wk_pch := AList.update p st (wk_pch (px_ws s))\<rparr>\<rparr>"

definition erase_pch :: "u32 \<Rightarrow> 'w pch_system \<Rightarrow> 'w pch_system" where
  "erase_pch p s = s\<lparr>px_ws := (px_ws s)\<lparr>wk_pch := AList.delete p (wk_pch (px_ws s))\<rparr>\<rparr>"

definition has_pch :: "u32 \<Rightarrow> 'w pch_system \<Rightarrow> bool" where
  "has_pch p s = (case pch_at s p of None \<Rightarrow> False | Some st \<Rightarrow> pch_path st \<noteq> [])"

text \<open>The conditions are tested in this order; only the lookup changes the store.\<close>

definition reusable :: "'w pch_env \<Rightarrow> u32 \<Rightarrow> string \<Rightarrow> 'w pch_system \<Rightarrow> 'w pch_system \<times> bool" where
  "reusable env p pkey s =
     (case pch_at s p of
        None \<Rightarrow> (s, False)
      | Some st \<Rightarrow>
          if pch_key st = pkey \<and> pch_path st \<noteq> []
          then (case wk_store (px_ws s) of
                  None \<Rightarrow> (s, False)
                | Some store \<Rightarrow>
                    case Cache_Store.lookup (we_os (ae_ws (pe_args env))) ''pch'' pkey (store, px_world s) of (found, store1) \<Rightarrow>
                      (s\<lparr>px_ws := (px_ws s)\<lparr>wk_store := Some store1\<rparr>\<rparr>,
                       found \<noteq> None \<and> \<not> deps_changed (ae_ws (pe_args env)) (px_world s) (wk_pool (px_ws s)) (pch_deps st)))
          else (s, False))"

text \<open>\<open>BuildingGuard\<close>: a build leaves, on whatever way, with its result.\<close>

definition guard_exit :: "nat \<Rightarrow> bool \<Rightarrow> 'w pch_system \<Rightarrow> 'w pch_system" where
  "guard_exit b result s =
     (let build = px_builds s ! b; p = pb_path build;
          s1 = (case pch_at s p of
                  None \<Rightarrow> s
                | Some st \<Rightarrow> if pch_building st = Some (pb_event build) then put_pch p (st\<lparr>pch_building := None\<rparr>) s else s)
      in s1\<lparr>px_events := (px_events s1)[pb_event build := True],
            px_builds := (px_builds s1)[b := build\<lparr>pb_phase := Built result\<rparr>]\<rparr>)"

text \<open>A build is registered, and sent to a worker unless there is no store.\<close>

definition start_build :: "'w pch_env \<Rightarrow> nat \<Rightarrow> u32 \<Rightarrow> string \<Rightarrow> u32 \<Rightarrow> 'w pch_system \<Rightarrow> 'w pch_system" where
  "start_build env i p pkey bound s =
     (let e = length (px_events s); b = length (px_builds s);
          old = (case pch_at s p of None \<Rightarrow> new_pch_state | Some st \<Rightarrow> st);
          no_entry = \<lparr>pending_ns = [], pending_key = [], pending_tmp = []\<rparr>;
          s1 = (put_pch p (old\<lparr>pch_building := Some e\<rparr>) s)\<lparr>px_events := px_events s @ [False]\<rparr>
      in case wk_store (px_ws s1) of
           None \<Rightarrow>
             guard_exit b False
               (s1\<lparr>px_builds := px_builds s1 @ [\<lparr>pb_session = i, pb_path = p, pb_event = e, pb_key = pkey, pb_bound = bound,
                  pb_pending = no_entry, pb_phase = AtWorker\<rparr>]\<rparr>)
         | Some store \<Rightarrow>
             case begin_store (we_os (ae_ws (pe_args env))) ''pch'' pkey store of (pend, store1) \<Rightarrow>
               s1\<lparr>px_ws := (px_ws s1)\<lparr>wk_store := Some store1\<rparr>,
                  px_builds := px_builds s1 @ [\<lparr>pb_session = i, pb_path = p, pb_event = e, pb_key = pkey, pb_bound = bound,
                    pb_pending = pend, pb_phase = AtWorker\<rparr>]\<rparr>)"

text \<open>\<open>Some r\<close> when the request is answered without waiting; a build without a store is answered by its end.\<close>

definition ensure_pch :: "'w pch_env \<Rightarrow> nat \<Rightarrow> string \<Rightarrow> string list \<Rightarrow> 'w pch_system \<Rightarrow> 'w pch_system \<times> bool option" where
  "ensure_pch env i directory arguments s =
     (let x = px_sessions s ! i; p = px_path_id x; text = px_text x; bound = pe_bound env text in
      if bound = 0 then (set_ref i None (erase_pch p s), Some True)
      else
        let pkey = pch_key_of env directory (path_of (wk_pool (px_ws s)) p) arguments text bound;
            (s1, reuse) = reusable env p pkey s
        in if reuse
           then (set_ref i (Some \<lparr>ref_path_id = p, ref_key = pkey, ref_bound = bound\<rparr>)
                   (put_pch p ((the (pch_at s1 p))\<lparr>pch_bound := bound\<rparr>) s1), Some True)
           else if \<not> is_preamble_complete text bound then (s1, Some (has_pch p s1))
           else case pch_at s1 p of
                  None \<Rightarrow> (start_build env i p pkey bound s1, None)
                | Some st \<Rightarrow>
                    case pch_building st of
                      Some e \<Rightarrow> (s1\<lparr>px_waits := px_waits s1 @ [\<lparr>pw_session = i, pw_path = p, pw_event = e, pw_phase = Held\<rparr>]\<rparr>, None)
                    | None \<Rightarrow> (start_build env i p pkey bound s1, None))"

text \<open>After the wait. The text of the session is not looked at again.\<close>

definition pch_woken :: "nat \<Rightarrow> 'w pch_system \<Rightarrow> 'w pch_system" where
  "pch_woken k s =
     (let wt = px_waits s ! k; p = pw_path wt;
          s1 = (case pch_at s p of
                  None \<Rightarrow> s
                | Some st \<Rightarrow> set_ref (pw_session wt) (Some \<lparr>ref_path_id = p, ref_key = pch_key st, ref_bound = pch_bound st\<rparr>) s)
      in s1\<lparr>px_waits := (px_waits s1)[k := wt\<lparr>pw_phase := Released (has_pch p s1)\<rparr>]\<rparr>)"

text \<open>The worker has answered: \<open>None\<close> for an error, else the dependencies and the links.\<close>

definition pch_answered :: "'w pch_env \<Rightarrow> nat \<Rightarrow> (string list \<times> string) option \<Rightarrow> 'w pch_system \<Rightarrow> 'w pch_system" where
  "pch_answered env b result s =
     (let build = px_builds s ! b in
      case result of
        None \<Rightarrow> guard_exit b False (s\<lparr>px_world := abort_store (we_os (ae_ws (pe_args env))) (pb_pending build) (px_world s)\<rparr>)
      | Some (deps, links) \<Rightarrow> s\<lparr>px_builds := (px_builds s)[b := build\<lparr>pb_phase := AtStore (pb_pending build) deps links\<rparr>]\<rparr>)"

text \<open>The commit runs on the thread pool; then the entry is filled, the reference set and the metadata saved.\<close>

definition pch_committed :: "'w pch_env \<Rightarrow> nat \<Rightarrow> 'w pch_system \<Rightarrow> 'w pch_system" where
  "pch_committed env b s =
     (let build = px_builds s ! b; p = pb_path build; wenv = ae_ws (pe_args env) in
      case (pb_phase build, wk_store (px_ws s)) of
        (AtStore pend deps links, Some store) \<Rightarrow>
          (case commit (we_os wenv) pend (store, px_world s) of (r, store1, w1) \<Rightarrow>
             let s1 = s\<lparr>px_ws := (px_ws s)\<lparr>wk_store := Some store1\<rparr>, px_world := w1\<rparr> in
             case r of
               Inl _ \<Rightarrow> guard_exit b False s1
             | Inr path \<Rightarrow>
                 case capture_deps_snapshot wenv w1 w1 deps (wk_pool (px_ws s1)) of (pool, snap) \<Rightarrow>
                   let old = (case pch_at s1 p of None \<Rightarrow> new_pch_state | Some st \<Rightarrow> st);
                       s2 = put_pch p (old\<lparr>pch_path := path, pch_bound := pb_bound build, pch_key := pb_key build, pch_deps := snap, pch_links := links\<rparr>)
                              (s1\<lparr>px_ws := (px_ws s1)\<lparr>wk_pool := pool\<rparr>\<rparr>);
                       s3 = set_ref (pb_session build) (Some \<lparr>ref_path_id = p, ref_key = pb_key build, ref_bound = pb_bound build\<rparr>) s2
                   in guard_exit b True (s3\<lparr>px_world := save_cache wenv (px_ws s3) (px_world s3)\<rparr>))
      | _ \<Rightarrow> s)"

end
