(* ===== verification/Pch_Build_Props.thy ===== *)
theory Pch_Build_Props
  imports Cache_Store_Steps Pch_Build
begin

text \<open>
  Requests for precompiled headers as a transition system, with edits, closed files and cancelled builds in any
  order: no request waits for an event that nobody will set. And what a request that waited is given.
\<close>

section \<open>Steps\<close>

definition leaves :: "pch_build \<Rightarrow> bool" where
  "leaves b \<longleftrightarrow> (case pb_phase b of Built _ \<Rightarrow> False | _ \<Rightarrow> True)"

inductive pch_step :: "'w pch_env \<Rightarrow> 'w pch_system \<Rightarrow> 'w pch_system \<Rightarrow> bool" for env :: "'w pch_env" where
  pch_request: "i < length (px_sessions s) \<Longrightarrow> pch_step env s (fst (ensure_pch env i directory arguments s))"
| pch_answer: "b < length (px_builds s) \<Longrightarrow> pb_phase (px_builds s ! b) = AtWorker \<Longrightarrow> pch_step env s (pch_answered env b r s)"
| pch_commit: "b < length (px_builds s) \<Longrightarrow> pb_phase (px_builds s ! b) = AtStore pend deps links \<Longrightarrow> pch_step env s (pch_committed env b s)"
| pch_unwind: "b < length (px_builds s) \<Longrightarrow> leaves (px_builds s ! b) \<Longrightarrow> pch_step env s (guard_exit b False s)"
| pch_wake: "k < length (px_waits s) \<Longrightarrow> pw_phase (px_waits s ! k) = Held \<Longrightarrow> px_events s ! pw_event (px_waits s ! k) \<Longrightarrow>
    pch_step env s (pch_woken k s)"
| pch_abandon: "k < length (px_waits s) \<Longrightarrow>
    pch_step env s (s\<lparr>px_waits := (px_waits s)[k := (px_waits s ! k)\<lparr>pw_phase := Released False\<rparr>]\<rparr>)"
| pch_edit: "pch_step env s (s\<lparr>px_sessions := xs\<rparr>)"
| pch_close: "pch_step env s (erase_pch p s)"
| pch_rest: "wk_pch ws = wk_pch (px_ws s) \<Longrightarrow> pch_step env s (s\<lparr>px_ws := ws, px_world := w\<rparr>)"

definition pch_start :: "'w pch_system \<Rightarrow> bool" where
  "pch_start s \<longleftrightarrow> (\<forall>e\<in>set (wk_pch (px_ws s)). pch_building (snd e) = None) \<and> distinct (map fst (wk_pch (px_ws s)))
     \<and> px_events s = [] \<and> px_builds s = [] \<and> px_waits s = []"

section \<open>The invariant\<close>

definition running :: "nat \<Rightarrow> pch_build list \<Rightarrow> bool" where
  "running e bs \<longleftrightarrow> (\<exists>b\<in>set bs. leaves b \<and> pb_event b = e)"

definition building_for :: "u32 \<Rightarrow> nat \<Rightarrow> pch_build list \<Rightarrow> bool" where
  "building_for p e bs \<longleftrightarrow> (\<exists>b\<in>set bs. leaves b \<and> pb_event b = e \<and> pb_path b = p)"

lemma building_running: "building_for p e bs \<Longrightarrow> running e bs"
  by (auto simp: building_for_def running_def)

definition pch_inv :: "(u32 \<times> pch_state) list \<Rightarrow> bool list \<Rightarrow> pch_build list \<Rightarrow> pch_wait list \<Rightarrow> bool" where
  "pch_inv cache es bs ws \<longleftrightarrow>
     distinct (map fst cache) \<and> (\<forall>c\<in>set cache. \<forall>e. pch_building (snd c) = Some e \<longrightarrow> building_for (fst c) e bs)
     \<and> (\<forall>b\<in>set bs. pb_event b < length es \<and> (leaves b \<longrightarrow> \<not> es ! pb_event b)) \<and> distinct (map pb_event bs)
     \<and> (\<forall>w\<in>set ws. pw_phase w = Held \<longrightarrow> pw_event w < length es \<and> (es ! pw_event w \<or> running (pw_event w) bs))"

lemma pch_inv_parts:
  assumes "pch_inv cache es bs ws"
  shows "distinct (map fst cache)" and "c \<in> set cache \<Longrightarrow> pch_building (snd c) = Some e \<Longrightarrow> building_for (fst c) e bs"
    and "b \<in> set bs \<Longrightarrow> pb_event b < length es" and "b \<in> set bs \<Longrightarrow> leaves b \<Longrightarrow> \<not> es ! pb_event b" and "distinct (map pb_event bs)"
    and "w \<in> set ws \<Longrightarrow> pw_phase w = Held \<Longrightarrow> pw_event w < length es"
    and "w \<in> set ws \<Longrightarrow> pw_phase w = Held \<Longrightarrow> es ! pw_event w \<or> running (pw_event w) bs"
  using assms unfolding pch_inv_def by blast+

lemma pch_invI:
  assumes "distinct (map fst cache)" and "\<And>c e. c \<in> set cache \<Longrightarrow> pch_building (snd c) = Some e \<Longrightarrow> building_for (fst c) e bs"
    and "\<And>b. b \<in> set bs \<Longrightarrow> pb_event b < length es" and "\<And>b. b \<in> set bs \<Longrightarrow> leaves b \<Longrightarrow> \<not> es ! pb_event b" and "distinct (map pb_event bs)"
    and "\<And>w. w \<in> set ws \<Longrightarrow> pw_phase w = Held \<Longrightarrow> pw_event w < length es \<and> (es ! pw_event w \<or> running (pw_event w) bs)"
  shows "pch_inv cache es bs ws"
  unfolding pch_inv_def using assms by (intro conjI ballI allI impI) blast+

abbreviation pch_ok :: "'w pch_system \<Rightarrow> bool" where
  "pch_ok s \<equiv> pch_inv (wk_pch (px_ws s)) (px_events s) (px_builds s) (px_waits s)"

lemma pch_inv_put:
  assumes inv: "pch_inv cache es bs ws" and st: "\<And>e. pch_building st = Some e \<Longrightarrow> building_for p e bs"
  shows "pch_inv (AList.update p st cache) es bs ws"
proof (rule pch_invI)
  show "building_for (fst c) e bs" if "c \<in> set (AList.update p st cache)" "pch_building (snd c) = Some e" for c e
    using subsetD [OF set_alist_update that(1)] that(2) st pch_inv_parts(2) [OF inv, of c e] by auto
  show "distinct (map fst (AList.update p st cache))" using pch_inv_parts(1) [OF inv] by (rule distinct_update)
qed (use pch_inv_parts [OF inv] in blast)+

lemma pch_inv_delete:
  assumes inv: "pch_inv cache es bs ws"
  shows "pch_inv (AList.delete p cache) es bs ws"
proof (rule pch_invI)
  show "building_for (fst c) e bs" if "c \<in> set (AList.delete p cache)" "pch_building (snd c) = Some e" for c e
    using that pch_inv_parts(2) [OF inv, of c e] by (simp add: AList.delete_eq)
  show "distinct (map fst (AList.delete p cache))" using pch_inv_parts(1) [OF inv] by (rule distinct_delete)
qed (use pch_inv_parts [OF inv] in blast)+

text \<open>A build that is registered under a fresh event.\<close>

lemma pch_inv_register:
  assumes inv: "pch_inv cache es bs ws" and b: "pb_event b = length es" "leaves b" "pb_path b = p"
  shows "pch_inv (AList.update p (st\<lparr>pch_building := Some (length es)\<rparr>) cache) (es @ [False]) (bs @ [b]) ws"
proof -
  have old: "pb_event b' < length es" if "b' \<in> set bs" for b' by (rule pch_inv_parts(3) [OF inv that])
  have run: "running e (bs @ [b])" if "running e bs" for e using that by (auto simp: running_def)
  have bld: "building_for q e (bs @ [b])" if "building_for q e bs" for q e using that by (auto simp: building_for_def)
  have "pch_inv cache (es @ [False]) (bs @ [b]) ws"
  proof (rule pch_invI)
    show "pb_event b' < length (es @ [False])" if "b' \<in> set (bs @ [b])" for b' using that old [of b'] b by auto
    show "\<not> (es @ [False]) ! pb_event b'" if "b' \<in> set (bs @ [b])" "leaves b'" for b'
      using that old [of b'] b pch_inv_parts(4) [OF inv, of b'] by (auto simp: nth_append)
    have "length es \<notin> pb_event ` set bs" using old by force
    then show "distinct (map pb_event (bs @ [b]))" using pch_inv_parts(5) [OF inv] b by simp
    show "pw_event w < length (es @ [False]) \<and> ((es @ [False]) ! pw_event w \<or> running (pw_event w) (bs @ [b]))" if "w \<in> set ws" "pw_phase w = Held" for w
      using pch_inv_parts(6,7) [OF inv that] run by (auto simp: nth_append)
    show "building_for (fst c) e (bs @ [b])" if "c \<in> set cache" "pch_building (snd c) = Some e" for c e
      using pch_inv_parts(2) [OF inv that] by (rule bld)
  qed (rule pch_inv_parts(1) [OF inv])
  moreover have "building_for p (length es) (bs @ [b])" using b by (auto simp: building_for_def)
  ultimately show ?thesis by (intro pch_inv_put) simp_all
qed

text \<open>A build that ends sets its event; an entry that still names it is cleared.\<close>

lemma pch_inv_end:
  assumes inv: "pch_inv cache es bs ws" and b: "b < length bs" and e: "pb_event (bs ! b) = e" and b': "\<not> leaves b'" "pb_event b' = e"
    and cache': "distinct (map fst cache')" "\<And>c x. c \<in> set cache' \<Longrightarrow> pch_building (snd c) = Some x \<Longrightarrow> x \<noteq> e \<and> building_for (fst c) x bs"
  shows "pch_inv cache' (es[e := True]) (bs[b := b']) ws"
proof -
  have el: "e < length es" using pch_inv_parts(3) [OF inv, of "bs ! b"] b e by simp
  have ev: "map pb_event (bs[b := b']) = map pb_event bs" using b b'(2) e by (simp add: map_update list_update_same_conv)
  have stay: "c \<in> set (bs[b := b'])" if "c \<in> set bs" "pb_event c \<noteq> e" for c
    using that e by (intro in_set_update_other) auto
  have run: "running x (bs[b := b'])" if "running x bs" "x \<noteq> e" for x
    using that stay by (auto simp: running_def)
  have bld: "building_for q x (bs[b := b'])" if "building_for q x bs" "x \<noteq> e" for q x
    using that stay by (auto simp: building_for_def)
  have member: "c \<in> set bs \<and> pb_event c \<noteq> e" if c: "c \<in> set (bs[b := b'])" "leaves c" for c
  proof -
    obtain l where l: "l < length bs" "bs[b := b'] ! l = c" using c(1) by (auto simp: in_set_conv_nth)
    have "l \<noteq> b" using l c(2) b'(1) b by auto
    then have "c = bs ! l" using l by simp
    moreover have "pb_event (bs ! l) \<noteq> pb_event (bs ! b)"
      using pch_inv_parts(5) [OF inv] l(1) b \<open>l \<noteq> b\<close> by (metis length_map nth_eq_iff_index_eq nth_map)
    ultimately show ?thesis using l e by auto
  qed
  show ?thesis
  proof (rule pch_invI)
    show "pb_event c < length (es[e := True])" if "c \<in> set (bs[b := b'])" for c
    proof -
      have "pb_event c \<in> pb_event ` set bs" using that ev by (metis imageI list.set_map)
      then show ?thesis using pch_inv_parts(3) [OF inv] by auto
    qed
    show "\<not> es[e := True] ! pb_event c" if "c \<in> set (bs[b := b'])" "leaves c" for c
      using member [OF that] pch_inv_parts(4) [OF inv _ that(2)] by simp
    show "distinct (map pb_event (bs[b := b']))" using pch_inv_parts(5) [OF inv] ev by simp
    show "pw_event w < length (es[e := True]) \<and> (es[e := True] ! pw_event w \<or> running (pw_event w) (bs[b := b']))" if "w \<in> set ws" "pw_phase w = Held" for w
      using pch_inv_parts(6,7) [OF inv that] run el by (cases "pw_event w = e") auto
    show "building_for (fst c) x (bs[b := b'])" if "c \<in> set cache'" "pch_building (snd c) = Some x" for c x
      using cache'(2) [OF that] bld by blast
  qed (rule cache'(1))
qed

section \<open>Every step keeps the invariant\<close>

lemma event_path:
  assumes inv: "pch_inv cache es bs ws" and b: "b < length bs" and f: "building_for q (pb_event (bs ! b)) bs"
  shows "q = pb_path (bs ! b)"
proof -
  obtain c where c: "c \<in> set bs" "pb_event c = pb_event (bs ! b)" "pb_path c = q" using f by (auto simp: building_for_def)
  obtain l where l: "l < length bs" "c = bs ! l" using c(1) by (auto simp: in_set_conv_nth)
  have "l = b" using pch_inv_parts(5) [OF inv] l c(2) b by (metis length_map nth_eq_iff_index_eq nth_map)
  then show ?thesis using l c(3) by simp
qed

lemma pch_ok_exit:
  assumes inv: "pch_ok s" and b: "b < length (px_builds s)"
  shows "pch_ok (guard_exit b r s)"
proof -
  let ?b = "px_builds s ! b" and ?c = "wk_pch (px_ws s)"
  let ?e = "pb_event ?b" and ?p = "pb_path ?b"
  note parts = pch_inv_parts [OF inv]
  have ended: "\<not> leaves (?b\<lparr>pb_phase := Built r\<rparr>)" by (simp add: leaves_def)
  have other: "x \<noteq> ?e" if "c \<in> set ?c" "pch_building (snd c) = Some x" "\<not> (fst c = ?p \<and> pch_building (snd c) = Some ?e)" for c x
    using event_path [OF inv b] parts(2) [OF that(1,2)] that by auto
  show ?thesis
  proof (cases "\<exists>st. map_of ?c ?p = Some st \<and> pch_building st = Some ?e")
    case True
    then obtain st where st: "map_of ?c ?p = Some st" "pch_building st = Some ?e" by blast
    let ?c' = "AList.update ?p (st\<lparr>pch_building := None\<rparr>) ?c"
    have d: "distinct (map fst ?c')" using parts(1) by (rule distinct_update)
    have "x \<noteq> ?e \<and> building_for (fst c) x (px_builds s)" if c: "c \<in> set ?c'" "pch_building (snd c) = Some x" for c x
    proof -
      have m: "map_of ?c' (fst c) = Some (snd c)" using d c(1) by simp
      have ne: "fst c \<noteq> ?p"
      proof
        assume "fst c = ?p"
        then have "snd c = st\<lparr>pch_building := None\<rparr>" using m by (simp add: update_conv')
        then have "pch_building (snd c) = None" by simp
        then show False using c(2) by simp
      qed
      then have "c \<in> set ?c" using subsetD [OF set_alist_update c(1)] by auto
      then show ?thesis using other [OF _ c(2)] ne parts(2) c(2) by blast
    qed
    then show ?thesis
      using pch_inv_end [OF inv b refl ended _ d] st by (simp add: guard_exit_def pch_at_def put_pch_def Let_def)
  next
    case False
    have "x \<noteq> ?e \<and> building_for (fst c) x (px_builds s)" if c: "c \<in> set ?c" "pch_building (snd c) = Some x" for c x
    proof -
      have "map_of ?c (fst c) = Some (snd c)" using parts(1) c(1) by simp
      then show ?thesis using other [OF c] False parts(2) [OF c] by metis
    qed
    then have "pch_inv ?c ((px_events s)[?e := True]) ((px_builds s)[b := ?b\<lparr>pb_phase := Built r\<rparr>]) (px_waits s)"
      using pch_inv_end [OF inv b refl ended _ parts(1)] by simp
    then show ?thesis using False by (auto simp: guard_exit_def pch_at_def Let_def split: option.split)
  qed
qed

lemma pch_ok_start:
  assumes inv: "pch_ok s"
  shows "pch_ok (start_build env i p pkey bound s)"
proof -
  let ?old = "case pch_at s p of None \<Rightarrow> new_pch_state | Some st \<Rightarrow> st"
  have reg: "pch_inv (AList.update p (?old\<lparr>pch_building := Some (length (px_events s))\<rparr>) (wk_pch (px_ws s))) (px_events s @ [False])
     (px_builds s @ [\<lparr>pb_session = i, pb_path = p, pb_event = length (px_events s), pb_key = pkey, pb_bound = bound, pb_pending = pend, pb_phase = AtWorker\<rparr>]) (px_waits s)" for pend
    by (rule pch_inv_register [OF inv]) (simp_all add: leaves_def)
  show ?thesis
  proof (cases "wk_store (px_ws s)")
    case None
    then show ?thesis using reg by (auto simp: start_build_def put_pch_def Let_def intro!: pch_ok_exit)
  next
    case (Some store)
    then show ?thesis using reg by (simp add: start_build_def put_pch_def Let_def split: prod.split)
  qed
qed

lemma reusable_keeps:
  "wk_pch (px_ws (fst (reusable env p pkey s))) = wk_pch (px_ws s)" "px_events (fst (reusable env p pkey s)) = px_events s"
  "px_builds (fst (reusable env p pkey s)) = px_builds s" "px_waits (fst (reusable env p pkey s)) = px_waits s"
  by (auto simp: reusable_def split: option.split prod.split)

lemma pch_inv_wait:
  assumes inv: "pch_inv cache es bs ws" and w: "pw_phase w = Held \<Longrightarrow> pw_event w < length es \<and> (es ! pw_event w \<or> running (pw_event w) bs)"
  shows "pch_inv cache es bs (ws @ [w])" and "pch_inv cache es bs (ws[k := w])"
proof -
  show "pch_inv cache es bs (ws @ [w])"
  proof (rule pch_invI)
    show "pw_event v < length es \<and> (es ! pw_event v \<or> running (pw_event v) bs)" if "v \<in> set (ws @ [w])" "pw_phase v = Held" for v
      using that w pch_inv_parts(6,7) [OF inv, of v] by auto
  qed (use pch_inv_parts [OF inv] in blast)+
  show "pch_inv cache es bs (ws[k := w])"
  proof (rule pch_invI)
    show "pw_event v < length es \<and> (es ! pw_event v \<or> running (pw_event v) bs)" if "v \<in> set (ws[k := w])" "pw_phase v = Held" for v
      using subsetD [OF set_update_subset_insert that(1)] that(2) w pch_inv_parts(6,7) [OF inv, of v] by auto
  qed (use pch_inv_parts [OF inv] in blast)+
qed

lemma set_ref_keeps [simp]:
  "px_ws (set_ref i r s) = px_ws s" "px_events (set_ref i r s) = px_events s" "px_builds (set_ref i r s) = px_builds s" "px_waits (set_ref i r s) = px_waits s"
  by (simp_all add: set_ref_def)

lemma pch_at_building:
  assumes "pch_ok s" and "pch_at s p = Some st" and "pch_building st = Some e"
  shows "building_for p e (px_builds s)"
  using pch_inv_parts(2) [OF assms(1), of "(p, st)" e] assms(2,3) by (simp add: pch_at_def map_of_SomeD)

lemma pch_ok_ensure:
  assumes inv: "pch_ok s"
  shows "pch_ok (fst (ensure_pch env i directory arguments s))"
proof -
  let ?p = "px_path_id (px_sessions s ! i)" and ?text = "px_text (px_sessions s ! i)"
  let ?bound = "pe_bound env ?text"
  let ?key = "pch_key_of env directory (path_of (wk_pool (px_ws s)) ?p) arguments ?text ?bound"
  obtain s1 reuse where r: "reusable env ?p ?key s = (s1, reuse)" by fastforce
  have inv1: "pch_ok s1" using reusable_keeps [of env ?p ?key s] r inv by simp
  show ?thesis
  proof (cases "?bound = 0")
    case True
    then show ?thesis using pch_inv_delete [OF inv] by (simp add: ensure_pch_def Let_def erase_pch_def)
  next
    case b: False
    show ?thesis
    proof (cases reuse)
      case True
      then obtain st where st: "pch_at s1 ?p = Some st"
        using r by (auto simp: reusable_def pch_at_def split: option.splits prod.splits if_splits)
      have "pch_ok (put_pch ?p (st\<lparr>pch_bound := ?bound\<rparr>) s1)"
        unfolding put_pch_def using pch_inv_put [OF inv1, of "st\<lparr>pch_bound := ?bound\<rparr>" ?p] pch_at_building [OF inv1 st] by simp
      then show ?thesis using b True st by (simp add: ensure_pch_def Let_def r)
    next
      case False
      have wait: "pch_inv (wk_pch (px_ws s1)) (px_events s1) (px_builds s1)
          (px_waits s1 @ [\<lparr>pw_session = i, pw_path = ?p, pw_event = e, pw_phase = Held\<rparr>])" if "pch_at s1 ?p = Some st" "pch_building st = Some e" for st e
      proof (rule pch_inv_wait(1) [OF inv1])
        have run: "running e (px_builds s1)" by (rule building_running [OF pch_at_building [OF inv1 that]])
        then have "e < length (px_events s1)" using pch_inv_parts(3) [OF inv1] by (auto simp: running_def)
        then show "pw_event \<lparr>pw_session = i, pw_path = ?p, pw_event = e, pw_phase = Held\<rparr> < length (px_events s1)
          \<and> (px_events s1 ! pw_event \<lparr>pw_session = i, pw_path = ?p, pw_event = e, pw_phase = Held\<rparr>
             \<or> running (pw_event \<lparr>pw_session = i, pw_path = ?p, pw_event = e, pw_phase = Held\<rparr>) (px_builds s1))"
          using run by simp
      qed
      have result: "fst (ensure_pch env i directory arguments s)
          = (if \<not> is_preamble_complete ?text ?bound then s1
             else case pch_at s1 ?p of None \<Rightarrow> start_build env i ?p ?key ?bound s1
               | Some st \<Rightarrow> (case pch_building st of
                    Some e \<Rightarrow> s1\<lparr>px_waits := px_waits s1 @ [\<lparr>pw_session = i, pw_path = ?p, pw_event = e, pw_phase = Held\<rparr>]\<rparr>
                  | None \<Rightarrow> start_build env i ?p ?key ?bound s1))"
        using b False by (simp add: ensure_pch_def Let_def r split: option.split)
      show ?thesis unfolding result using inv1 wait pch_ok_start [OF inv1]
        by (auto split: option.split)
    qed
  qed
qed

lemma pch_ok_committed:
  assumes inv: "pch_ok s" and b: "b < length (px_builds s)"
  shows "pch_ok (pch_committed env b s)"
proof (cases "\<exists>pend deps links store. pb_phase (px_builds s ! b) = AtStore pend deps links \<and> wk_store (px_ws s) = Some store")
  case True
  then obtain pend deps links store where p: "pb_phase (px_builds s ! b) = AtStore pend deps links" "wk_store (px_ws s) = Some store" by blast
  let ?p = "pb_path (px_builds s ! b)"
  obtain r store1 w1 where c: "commit (we_os (ae_ws (pe_args env))) pend (store, px_world s) = (r, store1, w1)" by (metis prod_cases3)
  obtain pool snap where cap: "capture_deps_snapshot (ae_ws (pe_args env)) w1 w1 deps (wk_pool (px_ws s)) = (pool, snap)" by fastforce
  have fill: "pch_inv (AList.update ?p ((case pch_at s ?p of None \<Rightarrow> new_pch_state | Some st \<Rightarrow> st)\<lparr>pch_path := path, pch_bound := bd, pch_key := kk, pch_deps := snap, pch_links := links\<rparr>)
      (wk_pch (px_ws s))) (px_events s) (px_builds s) (px_waits s)" for path bd kk
    by (rule pch_inv_put [OF inv]) (use pch_at_building [OF inv] in \<open>auto simp: new_pch_state_def split: option.splits\<close>)
  show ?thesis
  proof (cases r)
    case (Inl e)
    then show ?thesis using p c b inv by (auto simp: pch_committed_def Let_def intro!: pch_ok_exit)
  next
    case (Inr path)
    have at: "pch_at (s\<lparr>px_ws := (px_ws s)\<lparr>wk_store := Some store1\<rparr>, px_world := w1\<rparr>) ?p = pch_at s ?p" by (simp add: pch_at_def)
    show ?thesis using p c Inr cap b fill
      by (auto simp: pch_committed_def Let_def put_pch_def at intro!: pch_ok_exit)
  qed
next
  case False
  then show ?thesis using inv by (auto simp: pch_committed_def Let_def split: build_phase.split option.split)
qed

lemma pch_woken_fields:
  "px_ws (pch_woken k s) = px_ws s" "px_events (pch_woken k s) = px_events s" "px_builds (pch_woken k s) = px_builds s"
  "px_waits (pch_woken k s) = (px_waits s)[k := (px_waits s ! k)\<lparr>pw_phase := Released (has_pch (pw_path (px_waits s ! k)) s)\<rparr>]"
  by (simp_all add: pch_woken_def Let_def has_pch_def pch_at_def split: option.split)

lemma pch_ok_step:
  assumes "pch_step env s s'" and inv: "pch_ok s"
  shows "pch_ok s'"
  using assms(1)
proof cases
  case (pch_answer b r)
  have alive: "leaves (px_builds s ! b)" using pch_answer by (simp add: leaves_def)
  show ?thesis
  proof (cases r)
    case None
    then show ?thesis using pch_answer inv by (auto simp: pch_answered_def Let_def intro!: pch_ok_exit)
  next
    case (Some x)
    obtain deps links where x: "x = (deps, links)" by fastforce
    let ?b = "(px_builds s ! b)\<lparr>pb_phase := AtStore (pb_pending (px_builds s ! b)) deps links\<rparr>"
    have move: "\<exists>c'\<in>set ((px_builds s)[b := ?b]). leaves c' \<and> pb_event c' = pb_event c \<and> pb_path c' = pb_path c" if "c \<in> set (px_builds s)" "leaves c" for c
    proof (cases "c = px_builds s ! b")
      case True
      then show ?thesis using pch_answer by (intro bexI [of _ ?b]) (auto simp: leaves_def set_update_memI)
    next
      case False
      then show ?thesis using in_set_update_other [OF that(1), of b ?b] that(2) by blast
    qed
    have orig: "\<exists>c'\<in>set (px_builds s). leaves c' \<and> pb_event c' = pb_event c" if "c \<in> set ((px_builds s)[b := ?b])" "leaves c" for c
      using subsetD [OF set_update_subset_insert that(1)] that(2) alive pch_answer by auto
    have ev: "map pb_event ((px_builds s)[b := ?b]) = map pb_event (px_builds s)" using pch_answer by (simp add: map_update list_update_same_conv)
    have "pch_inv (wk_pch (px_ws s)) (px_events s) ((px_builds s)[b := ?b]) (px_waits s)"
    proof (rule pch_invI)
      show "building_for (fst c) e ((px_builds s)[b := ?b])" if "c \<in> set (wk_pch (px_ws s))" "pch_building (snd c) = Some e" for c e
        using pch_inv_parts(2) [OF inv that] move unfolding building_for_def by metis
      show "pb_event c < length (px_events s)" if "c \<in> set ((px_builds s)[b := ?b])" for c
        using subsetD [OF set_update_subset_insert that] pch_inv_parts(3) [OF inv, of c] pch_inv_parts(3) [OF inv, of "px_builds s ! b"] pch_answer by auto
      show "\<not> px_events s ! pb_event c" if "c \<in> set ((px_builds s)[b := ?b])" "leaves c" for c
        using orig [OF that] pch_inv_parts(4) [OF inv] by metis
      show "distinct (map pb_event ((px_builds s)[b := ?b]))" using ev pch_inv_parts(5) [OF inv] by simp
      have "running e ((px_builds s)[b := ?b])" if "running e (px_builds s)" for e using that move unfolding running_def by metis
      then show "pw_event w < length (px_events s) \<and> (px_events s ! pw_event w \<or> running (pw_event w) ((px_builds s)[b := ?b]))" if "w \<in> set (px_waits s)" "pw_phase w = Held" for w
        using pch_inv_parts(6,7) [OF inv that] by blast
    qed (rule pch_inv_parts(1) [OF inv])
    then show ?thesis using pch_answer Some x by (simp add: pch_answered_def Let_def)
  qed
next
  case (pch_wake k)
  then show ?thesis using pch_inv_wait(2) [OF inv, of "(px_waits s ! k)\<lparr>pw_phase := Released (has_pch (pw_path (px_waits s ! k)) s)\<rparr>"]
    by (simp add: pch_woken_fields)
next
  case (pch_abandon k)
  then show ?thesis using inv by (auto intro!: pch_inv_wait(2))
qed (use inv in \<open>auto simp: erase_pch_def intro: pch_ok_ensure pch_ok_committed pch_ok_exit pch_inv_delete\<close>)

interpretation headers: safe_system pch_start "pch_step env" pch_ok
proof
  show "pch_ok s" if "pch_start s" for s :: "'a pch_system" using that by (auto simp: pch_start_def pch_inv_def)
  show "pch_ok s'" if "pch_step env s s'" "pch_ok s" for s s' using pch_ok_step [OF that] .
qed

section \<open>Properties\<close>

text \<open>
  C20: no request for a precompiled header waits for an event that nobody will set. In every reachable state, with
  edits, closed files and cancelled builds in between, a request that waits either has its event set or the
  build that will set it, on whatever way it leaves, is still running.
\<close>

theorem no_pch_wait_stuck:
  assumes "reached pch_start (pch_step env) s" and "w \<in> set (px_waits s)" and "pw_phase w = Held"
  shows "px_events s ! pw_event w
    \<or> (\<exists>b<length (px_builds s). pb_event (px_builds s ! b) = pw_event w \<and> (\<nexists>r. pb_phase (px_builds s ! b) = Built r))"
proof -
  have inv: "pch_ok s" by (rule headers.reached_good [OF assms(1)])
  have "\<exists>b<length (px_builds s). pb_event (px_builds s ! b) = e \<and> (\<nexists>r. pb_phase (px_builds s ! b) = Built r)" if run: "running e (px_builds s)" for e
  proof -
    obtain b where b: "b \<in> set (px_builds s)" "leaves b" "pb_event b = e" using run by (auto simp: running_def)
    obtain l where l: "l < length (px_builds s)" "px_builds s ! l = b" using b(1) by (auto simp: in_set_conv_nth)
    have "\<nexists>r. pb_phase b = Built r" using b(2) by (auto simp: leaves_def)
    then show ?thesis using l b(3) by blast
  qed
  then show ?thesis using pch_inv_parts(7) [OF inv assms(2,3)] by blast
qed

text \<open>
  A request that waited for a build takes the result of that build, whatever its own text is. A file is
  opened with one preamble and its build starts; the file is edited to another complete preamble and asked
  for again, so that the second request waits; the build succeeds. The second request is answered with success and
  the session refers to the header, the key and the length of the first preamble.
\<close>

theorem waiting_request_takes_old_pch:
  fixes env :: "'w pch_env"
  assumes i: "i < length (px_sessions s)" and p: "px_path_id (px_sessions s ! i) = p" and t1: "px_text (px_sessions s ! i) = t1"
    and none: "pch_at s p = None" and store: "wk_store (px_ws s) = Some store"
    and b1: "pe_bound env t1 \<noteq> 0" "is_preamble_complete t1 (pe_bound env t1)"
    and b2: "pe_bound env t2 \<noteq> 0" "is_preamble_complete t2 (pe_bound env t2)"
    and s1: "ensure_pch env i directory arguments s = (s1, r1)"
    and s2: "s2 = s1\<lparr>px_sessions := (px_sessions s1)[i := (px_sessions s1 ! i)\<lparr>px_text := t2\<rparr>]\<rparr>"
    and s3: "ensure_pch env i directory arguments s2 = (s3, r2)"
    and s4: "s4 = pch_answered env (length (px_builds s)) (Some (deps, links)) s3"
    and com: "commit (we_os (ae_ws (pe_args env))) (pb_pending (px_builds s3 ! length (px_builds s))) (the (wk_store (px_ws s3)), px_world s3)
      = (Inr blob, store', w')" and blob: "blob \<noteq> []"
    and s5: "s5 = pch_committed env (length (px_builds s)) s4"
    and s6: "s6 = pch_woken (length (px_waits s)) s5"
  shows "r1 = None \<and> r2 = None \<and> pw_phase (px_waits s6 ! length (px_waits s)) = Released True \<and> px_text (px_sessions s6 ! i) = t2
    \<and> px_pch_ref (px_sessions s6 ! i) = Some \<lparr>ref_path_id = p,
         ref_key = pch_key_of env directory (path_of (wk_pool (px_ws s)) p) arguments t1 (pe_bound env t1), ref_bound = pe_bound env t1\<rparr>"
proof -
  let ?key = "pch_key_of env directory (path_of (wk_pool (px_ws s)) p) arguments t1 (pe_bound env t1)"
  let ?os = "we_os (ae_ws (pe_args env))" and ?e = "length (px_events s)"
  obtain pend store1 where bs: "begin_store ?os ''pch'' ?key store = (pend, store1)" by fastforce
  let ?build = "\<lparr>pb_session = i, pb_path = p, pb_event = ?e, pb_key = ?key, pb_bound = pe_bound env t1, pb_pending = pend, pb_phase = AtWorker\<rparr>"
  have 1: "r1 = None" "px_sessions s1 = px_sessions s" "px_waits s1 = px_waits s" "px_builds s1 = px_builds s @ [?build]"
    "px_events s1 = px_events s @ [False]" "wk_store (px_ws s1) = Some store1" "pch_at s1 p = Some (new_pch_state\<lparr>pch_building := Some ?e\<rparr>)"
    "wk_pool (px_ws s1) = wk_pool (px_ws s)"
    using s1 none store b1 p t1 bs
    by (auto simp: ensure_pch_def Let_def reusable_def start_build_def put_pch_def pch_at_def update_conv')
  let ?wait = "\<lparr>pw_session = i, pw_path = p, pw_event = ?e, pw_phase = Held\<rparr>"
  have at2: "pch_at s2 p = Some (new_pch_state\<lparr>pch_building := Some ?e\<rparr>)" using 1(7) by (simp add: s2 pch_at_def)
  have session2: "px_path_id (px_sessions s2 ! i) = p" "px_text (px_sessions s2 ! i) = t2" using i p 1(2) by (simp_all add: s2)
  have re: "reusable env p k s2 = (s2, False)" for k using at2 by (simp add: reusable_def new_pch_state_def)
  have 3: "r2 = None" "s3 = s2\<lparr>px_waits := px_waits s2 @ [?wait]\<rparr>"
    using s3 b2 at2 by (auto simp: ensure_pch_def Let_def session2 re)
  have builds3: "px_builds s3 ! length (px_builds s) = ?build" "length (px_builds s3) = Suc (length (px_builds s))" using 1(4) by (simp_all add: 3 s2)
  have ws3: "px_ws s3 = px_ws s1" by (simp add: 3 s2)
  have 4: "px_builds s4 ! length (px_builds s) = ?build\<lparr>pb_phase := AtStore pend deps links\<rparr>" "px_ws s4 = px_ws s1" "px_world s4 = px_world s3"
    "px_sessions s4 = px_sessions s2" "px_waits s4 = px_waits s @ [?wait]" "px_events s4 = px_events s1"
    using builds3 1(3) by (simp_all add: s4 pch_answered_def Let_def ws3 3 s2)
  have at4: "map_of (wk_pch (px_ws s1)) p = Some (new_pch_state\<lparr>pch_building := Some ?e\<rparr>)" using 1(7) by (simp add: pch_at_def)
  have com4: "commit ?os pend (store1, px_world s3) = (Inr blob, store', w')" using com by (simp add: builds3 ws3 1(6))
  obtain pool snap where cap: "capture_deps_snapshot (ae_ws (pe_args env)) w' w' deps (wk_pool (px_ws s1)) = (pool, snap)" by fastforce
  let ?ref = "\<lparr>ref_path_id = p, ref_key = ?key, ref_bound = pe_bound env t1\<rparr>"
  let ?entry = "new_pch_state\<lparr>pch_path := blob, pch_bound := pe_bound env t1, pch_key := ?key, pch_deps := snap, pch_links := links, pch_building := None\<rparr>"
  have 5: "pch_at s5 p = Some ?entry" "px_waits s5 = px_waits s @ [?wait]" "px_sessions s5 = (px_sessions s2)[i := (px_sessions s2 ! i)\<lparr>px_pch_ref := Some ?ref\<rparr>]"
    unfolding s5 using 4 1(6) com4 cap at4
    by (simp_all add: pch_committed_def Let_def guard_exit_def put_pch_def pch_at_def set_ref_def update_conv' new_pch_state_def)
  have "i < length (px_sessions s5)" using 5(3) i 1(2) by (simp add: s2)
  then show ?thesis unfolding s6 using 1(1) 3(1) 5 blob session2 i 1(2)
    by (simp add: pch_woken_def Let_def has_pch_def set_ref_def pch_at_def new_pch_state_def)
qed

section \<open>Examples\<close>

text \<open>A preamble is the whole text; the hash tells the two texts apart.\<close>

definition ex_pch_env :: "files pch_env" where
  "ex_pch_env = \<lparr>pe_args = ex_args_env, pe_bound = (\<lambda>t. of_nat (length t)), pe_parent = (\<lambda>p. p), pe_version = ''v'',
     pe_xxh3 = (\<lambda>t. (0, if length t = 25 then 0 else 1))\<rparr>"

definition ex_pch_start :: "files pch_system" where
  "ex_pch_start = \<lparr>px_ws = (ex_workspace\<lparr>wk_store := Some (fst demo_registered), wk_pch := []\<rparr>),
     px_world = (''r/cache/v1/tmp/7/0.pch'', ''new'') # snd demo_registered,
     px_sessions = [\<lparr>px_path_id = 0, px_text = ''#define A'', px_pch_ref = None\<rparr>], px_events = [], px_builds = [], px_waits = []\<rparr>"

definition ex_edited :: "files pch_system" where
  "ex_edited = (let s = fst (ensure_pch ex_pch_env 0 [] [] ex_pch_start)
     in s\<lparr>px_sessions := (px_sessions s)[0 := (px_sessions s ! 0)\<lparr>px_text := ''#define AB''\<rparr>]\<rparr>)"

definition ex_waiting :: "files pch_system" where
  "ex_waiting = fst (ensure_pch ex_pch_env 0 [] [] ex_edited)"

lemma ex_canonical: "canonicalize (ae_cmd ex_args_env) [] Frontend = []"
  by code_simp

lemma hex_zero: "hex16 0 = replicate 16 (CHR ''0'')"
proof -
  have "char_of (48::nat) = CHR ''0''" by code_simp
  then show ?thesis by (simp add: hex16_def hex_digit_def map_replicate_const)
qed

lemma ex_pch_key: "pch_key_of ex_pch_env [] ''m.cpp'' [] ''#define A'' 9 = replicate 32 (CHR ''0'')"
  by (simp add: pch_key_of_def ex_pch_env_def ex_canonical cache_key_def key_input_def decimal.simps hex_zero replicate_add [symmetric])

definition ex_pending :: pending_entry where
  "ex_pending = \<lparr>pending_ns = ''pch'', pending_key = replicate 32 (CHR ''0''), pending_tmp = ''r/cache/v1/tmp/7/0.pch''\<rparr>"

lemma ex_begin_store: "fst (begin_store mem_os ''pch'' (replicate 32 (CHR ''0'')) (fst demo_registered)) = ex_pending"
  by code_simp

lemma ex_commit: "fst (commit mem_os ex_pending (snd (begin_store mem_os ''pch'' (replicate 32 (CHR ''0'')) (fst demo_registered)),
    (''r/cache/v1/tmp/7/0.pch'', ''new'') # snd demo_registered)) = Inr (''r/cache/v1/pch/'' @ replicate 32 (CHR ''0'') @ ''.pch'')"
  by code_simp

lemma ex_complete:
  "is_preamble_complete ''#define A'' 9" "is_preamble_complete ''#define AB'' 10"
  by code_simp+

lemma ex_bounds [simp]: "pe_bound ex_pch_env ''#define A'' = 9" "pe_bound ex_pch_env ''#define AB'' = 10"
  by (simp_all add: ex_pch_env_def)

lemma ex_os [simp]: "we_os (ae_ws (pe_args ex_pch_env)) = mem_os"
  by (simp add: ex_pch_env_def ex_args_env_def ex_ws_env_def)

lemma ex_start_parts:
  "px_sessions ex_pch_start = [\<lparr>px_path_id = 0, px_text = ''#define A'', px_pch_ref = None\<rparr>]" "px_builds ex_pch_start = []"
  "px_waits ex_pch_start = []" "px_events ex_pch_start = []" "wk_store (px_ws ex_pch_start) = Some (fst demo_registered)"
  "pch_at ex_pch_start 0 = None" "path_of (wk_pool (px_ws ex_pch_start)) 0 = ''m.cpp''"
  by (simp_all add: ex_pch_start_def ex_workspace_def pch_at_def ex_pool_eq path_of_def resolve_def)

definition ex_build :: pch_build where
  "ex_build = \<lparr>pb_session = 0, pb_path = 0, pb_event = 0, pb_key = replicate 32 (CHR ''0''), pb_bound = 9, pb_pending = ex_pending, pb_phase = AtWorker\<rparr>"

lemma ex_first:
  "ensure_pch ex_pch_env 0 [] [] ex_pch_start =
     (ex_pch_start\<lparr>px_ws := (px_ws ex_pch_start)\<lparr>wk_pch := [(0, new_pch_state\<lparr>pch_building := Some 0\<rparr>)],
        wk_store := Some (snd (begin_store mem_os ''pch'' (replicate 32 (CHR ''0'')) (fst demo_registered)))\<rparr>,
        px_events := [False], px_builds := [ex_build]\<rparr>, None)"
proof -
  have "wk_pch (px_ws ex_pch_start) = []" by (simp add: ex_pch_start_def)
  then show ?thesis
    by (simp add: ensure_pch_def Let_def reusable_def start_build_def put_pch_def ex_start_parts ex_pch_key ex_complete ex_build_def
        case_prod_beta ex_begin_store)
qed

lemma ex_edited_parts:
  "px_sessions ex_edited = [\<lparr>px_path_id = 0, px_text = ''#define AB'', px_pch_ref = None\<rparr>]" "px_waits ex_edited = []"
  "pch_at ex_edited 0 = Some (new_pch_state\<lparr>pch_building := Some 0\<rparr>)" "px_builds ex_edited = [ex_build]" "px_world ex_edited = px_world ex_pch_start"
  "wk_store (px_ws ex_edited) = Some (snd (begin_store mem_os ''pch'' (replicate 32 (CHR ''0'')) (fst demo_registered)))"
  by (simp_all add: ex_edited_def ex_first Let_def ex_start_parts pch_at_def)

lemma ex_second:
  "ensure_pch ex_pch_env 0 [] [] ex_edited = (ex_edited\<lparr>px_waits := [\<lparr>pw_session = 0, pw_path = 0, pw_event = 0, pw_phase = Held\<rparr>]\<rparr>, None)"
  by (simp add: ensure_pch_def Let_def reusable_def ex_edited_parts ex_complete new_pch_state_def)

text \<open>The second request waits for the build of the first.\<close>

theorem no_pch_wait_stuck_witness:
  "\<exists>b<length (px_builds ex_waiting). pb_event (px_builds ex_waiting ! b) = 0 \<and> (\<nexists>r. pb_phase (px_builds ex_waiting ! b) = Built r)"
proof -
  let ?w = "\<lparr>pw_session = 0, pw_path = 0, pw_event = 0, pw_phase = Held\<rparr>"
  have wait: "?w \<in> set (px_waits ex_waiting)" "px_events ex_waiting ! 0 = False"
    by (simp_all add: ex_waiting_def ex_second) (simp add: ex_edited_def ex_first Let_def)
  have "reached pch_start (pch_step ex_pch_env) ex_pch_start"
    by (rule reached_init) (simp add: pch_start_def ex_start_parts, simp add: ex_pch_start_def)
  moreover have "pch_step ex_pch_env ex_pch_start (fst (ensure_pch ex_pch_env 0 [] [] ex_pch_start))"
    by (rule pch_request) (simp add: ex_start_parts)
  ultimately have "reached pch_start (pch_step ex_pch_env) (fst (ensure_pch ex_pch_env 0 [] [] ex_pch_start))"
    by (rule reached_step)
  moreover have "pch_step ex_pch_env (fst (ensure_pch ex_pch_env 0 [] [] ex_pch_start)) ex_edited"
    unfolding ex_edited_def Let_def by (rule pch_edit)
  ultimately have "reached pch_start (pch_step ex_pch_env) ex_edited" by (rule reached_step)
  moreover have "pch_step ex_pch_env ex_edited ex_waiting"
    unfolding ex_waiting_def by (rule pch_request) (simp add: ex_edited_parts)
  ultimately have "reached pch_start (pch_step ex_pch_env) ex_waiting" by (rule reached_step)
  from no_pch_wait_stuck [OF this wait(1)] wait(2) show ?thesis by simp
qed

definition ex_finished :: "files pch_system" where
  "ex_finished = pch_woken 0 (pch_committed ex_pch_env 0 (pch_answered ex_pch_env 0 (Some ([], [])) ex_waiting))"

theorem waiting_request_takes_old_pch_witness:
  "px_text (px_sessions ex_finished ! 0) = ''#define AB'' \<and> map_option ref_bound (px_pch_ref (px_sessions ex_finished ! 0)) = Some 9"
proof -
  have edit: "ex_edited = fst (ensure_pch ex_pch_env 0 [] [] ex_pch_start)
      \<lparr>px_sessions := (px_sessions (fst (ensure_pch ex_pch_env 0 [] [] ex_pch_start)))
         [0 := (px_sessions (fst (ensure_pch ex_pch_env 0 [] [] ex_pch_start)) ! 0)\<lparr>px_text := ''#define AB''\<rparr>]\<rparr>"
    by (simp add: ex_edited_def Let_def)
  have runs: "ensure_pch ex_pch_env 0 [] [] ex_pch_start = (fst (ensure_pch ex_pch_env 0 [] [] ex_pch_start), None)"
    "ensure_pch ex_pch_env 0 [] [] ex_edited = (ex_waiting, None)"
    by (simp_all add: ex_first ex_waiting_def ex_second)
  have "fst (commit mem_os (pb_pending (px_builds ex_waiting ! 0)) (the (wk_store (px_ws ex_waiting)), px_world ex_waiting))
      = Inr (''r/cache/v1/pch/'' @ replicate 32 (CHR ''0'') @ ''.pch'')"
    using ex_commit by (simp add: ex_waiting_def ex_second ex_edited_parts ex_build_def) (simp add: ex_pch_start_def)
  then obtain store' w' where com: "commit (we_os (ae_ws (pe_args ex_pch_env))) (pb_pending (px_builds ex_waiting ! length (px_builds ex_pch_start)))
      (the (wk_store (px_ws ex_waiting)), px_world ex_waiting) = (Inr (''r/cache/v1/pch/'' @ replicate 32 (CHR ''0'') @ ''.pch''), store', w')"
    by (simp add: ex_start_parts) (metis prod.collapse)
  note pre = ex_start_parts
  show ?thesis
    using waiting_request_takes_old_pch [of 0 ex_pch_start 0 "''#define A''" "fst demo_registered" ex_pch_env "''#define AB''", OF _ _ _ pre(6,5) _ _ _ _ runs(1) edit runs(2) refl com _ refl refl]
    by (auto simp: pre ex_complete ex_finished_def)
qed

end
